(* ===== verification/Prelude.thy ===== *)
theory Prelude
  imports Main "HOL-Library.Word" "HOL-Library.Monad_Syntax"
begin

text \<open>
  Shared vocabulary of the development: the machine integers of the LP64 little-endian platform
  the pods are built for, the byte-addressed C memory, the little-endian view of words, and the
  combinator for the C idiom \<open>if (!f(...)) return false;\<close>.

  A C function whose behaviour is undefined on its arguments (a load or store outside the mapped
  memory, a call through a null function pointer, recursion beyond the stack) is modelled by
  \<^term>\<open>None\<close>; every other outcome, including every error return, is \<^term>\<open>Some\<close> of the
  returned value and the new state.
\<close>

unbundle bit_operations_syntax

named_theorems cmem_simps \<open>rewrite rules for loads and stores\<close>

type_synonym u8 = "8 word"
type_synonym u16 = "16 word"
type_synonym u32 = "32 word"
type_synonym u64 = "64 word"

type_synonym addr = int
type_synonym mem = "addr \<rightharpoonup> u8"

section \<open>The error-return idiom\<close>

text \<open>
  A C function that returns \<open>bool\<close> and updates its arguments through pointers is a function to
  \<open>(bool \<times> 's) option\<close>. \<open>and_then r k\<close> is \<open>if (!r) return false; k\<close>.
\<close>

definition and_then :: "(bool \<times> 's) option \<Rightarrow> ('s \<Rightarrow> (bool \<times> 's) option) \<Rightarrow> (bool \<times> 's) option" where
  "and_then r k = (case r of None \<Rightarrow> None | Some (ok, s) \<Rightarrow> if ok then k s else Some (False, s))"

lemma and_then_simps [simp]:
  "and_then None k = None"
  "and_then (Some (True, s)) k = k s"
  "and_then (Some (False, s)) k = Some (False, s)"
  by (simp_all add: and_then_def)

lemma and_then_eq_Some:
  "and_then r k = Some (ok, t) \<longleftrightarrow>
     (\<exists>s. r = Some (True, s) \<and> k s = Some (ok, t)) \<or> (r = Some (False, t) \<and> \<not> ok)"
  by (auto simp: and_then_def split: option.splits if_splits)

section \<open>Definedness order\<close>

text \<open>\<open>le_opt x y\<close>: where \<open>x\<close> is defined, \<open>y\<close> is defined and equal.\<close>

definition le_opt :: "'a option \<Rightarrow> 'a option \<Rightarrow> bool" where
  "le_opt x y \<longleftrightarrow> x = None \<or> x = y"

named_theorems le_opt_intros \<open>monotonicity of the constructs that propagate undefinedness\<close>

lemma le_optD: "le_opt x y \<Longrightarrow> x = Some r \<Longrightarrow> y = Some r"
  by (simp add: le_opt_def)

lemma le_optI: "(\<And>r. x = Some r \<Longrightarrow> y = Some r) \<Longrightarrow> le_opt x y"
  by (cases x) (simp_all add: le_opt_def)

lemma le_opt_refl [le_opt_intros]: "le_opt x x"
  by (simp add: le_opt_def)

lemma le_opt_None [le_opt_intros]: "le_opt None x"
  by (simp add: le_opt_def)

lemma le_opt_if [le_opt_intros]:
  "(b \<Longrightarrow> le_opt x x') \<Longrightarrow> (\<not> b \<Longrightarrow> le_opt y y') \<Longrightarrow> le_opt (if b then x else y) (if b then x' else y')"
  by simp

lemma le_opt_map [le_opt_intros]: "le_opt x y \<Longrightarrow> le_opt (map_option f x) (map_option f y)"
  by (auto simp: le_opt_def)

lemma le_opt_bind [le_opt_intros]:
  "le_opt x y \<Longrightarrow> (\<And>v. le_opt (f v) (g v)) \<Longrightarrow> le_opt (Option.bind x f) (Option.bind y g)"
  unfolding le_opt_def by (cases x; cases y) auto

lemma le_opt_case [le_opt_intros]:
  "le_opt x y \<Longrightarrow> (\<And>v. le_opt (f v) (g v)) \<Longrightarrow>
     le_opt (case x of None \<Rightarrow> None | Some v \<Rightarrow> f v) (case y of None \<Rightarrow> None | Some v \<Rightarrow> g v)"
  unfolding le_opt_def by (cases x) (simp_all split: option.split)

lemma le_opt_prod [le_opt_intros]:
  "(\<And>a b. le_opt (f a b) (g a b)) \<Longrightarrow> le_opt (case p of (a, b) \<Rightarrow> f a b) (case p of (a, b) \<Rightarrow> g a b)"
  by (cases p) simp

section \<open>Bytes by exhaustion\<close>

definition all_u8 :: "(u8 \<Rightarrow> bool) \<Rightarrow> bool" where
  "all_u8 P = list_all (\<lambda>n. P (word_of_int n)) [0..255]"

lemma all_u8_iff: "all_u8 P \<longleftrightarrow> (\<forall>x. P x)"
proof
  assume all: "all_u8 P"
  show "\<forall>x. P x"
  proof
    fix x :: u8
    have "uint x \<in> set [0..255]"
      using uint_lt2p [of x] by simp
    then have "P (word_of_int (uint x))"
      using all by (simp only: all_u8_def list_all_iff)
    then show "P x" by simp
  qed
qed (simp add: all_u8_def list_all_iff)

lemma all_u8D: "all_u8 P \<Longrightarrow> P x"
  by (simp add: all_u8_iff)

section \<open>Reading words as numbers\<close>

lemma uint_u32_id: "0 \<le> x \<Longrightarrow> x < 2 ^ 32 \<Longrightarrow> uint (word_of_int x :: u32) = x"
  by (simp add: uint_word_of_int_eq take_bit_int_eq_self_iff)

lemma uint_u64_id: "0 \<le> x \<Longrightarrow> x < 2 ^ 64 \<Longrightarrow> uint (word_of_int x :: u64) = x"
  by (simp add: uint_word_of_int_eq take_bit_int_eq_self_iff)

lemma unat_u64_of_nat: "n < 2 ^ 64 \<Longrightarrow> unat (of_nat n :: u64) = n"
  by (simp add: unat_of_nat take_bit_nat_eq_self_iff)

lemma unat_u64_add: "unat a + unat b < 2 ^ 64 \<Longrightarrow> unat (a + b :: u64) = unat a + unat b"
  by (simp add: unat_word_ariths)

lemma unat_u64_lt: "unat (w :: u64) < 2 ^ 64"
  using unsigned_less [of w] by simp

lemma unat_u8_lt: "unat (w :: u8) < 256"
  using unsigned_less [of w] by simp

lemma unat_byte: "g < 256 \<Longrightarrow> unat (of_nat g :: u8) = g"
  by (simp add: unat_of_nat take_bit_nat_eq_self_iff)

lemma unat_ucast_u8:
  "unat (ucast (b :: u8) :: u64) = unat b" "unat (ucast (b :: u8) :: u32) = unat b"
  using unat_u8_lt [of b] by (simp_all add: unsigned_ucast_eq take_bit_nat_eq_self_iff)

lemma unat_u32_lt: "unat (w :: u32) < 2 ^ 32"
  using unsigned_less [of w] by simp

lemma unat_minus_of_nat: "n \<le> unat w \<Longrightarrow> unat (w - of_nat n :: u64) = unat w - n"
  using unat_u64_lt [of w] by (simp add: unat_sub word_le_nat_alt unat_u64_of_nat)

lemma unat_u64_add_wrap:
  assumes "2 ^ 64 \<le> unat a + unat b"
  shows "unat (a + b :: u64) < unat a"
proof -
  have "unat (a + b) = (unat a + unat b) mod 2 ^ 64" by (simp add: unat_word_ariths)
  also have "\<dots> = unat a + unat b - 2 ^ 64"
    using assms unat_u64_lt [of a] unat_u64_lt [of b] by (simp add: le_mod_geq)
  finally show ?thesis using assms unat_u64_lt [of b] by linarith
qed

section \<open>Memory\<close>

primrec load_bytes :: "mem \<Rightarrow> addr \<Rightarrow> nat \<Rightarrow> u8 list option" where
  "load_bytes m a 0 = Some []"
| "load_bytes m a (Suc n) =
     (case m a of None \<Rightarrow> None
      | Some b \<Rightarrow> (case load_bytes m (a + 1) n of None \<Rightarrow> None | Some bs \<Rightarrow> Some (b # bs)))"

primrec put_bytes :: "mem \<Rightarrow> addr \<Rightarrow> u8 list \<Rightarrow> mem" where
  "put_bytes m a [] = m"
| "put_bytes m a (b # bs) = put_bytes (m(a \<mapsto> b)) (a + 1) bs"

text \<open>\<open>mapped m a n\<close>: the \<open>n\<close> bytes at \<open>a\<close> belong to some live object.\<close>

definition mapped :: "mem \<Rightarrow> addr \<Rightarrow> nat \<Rightarrow> bool" where
  "mapped m a n \<longleftrightarrow> load_bytes m a n \<noteq> None"

definition store_bytes :: "mem \<Rightarrow> addr \<Rightarrow> u8 list \<Rightarrow> mem option" where
  "store_bytes m a bs = (if mapped m a (length bs) then Some (put_bytes m a bs) else None)"

text \<open>The addresses of an object of \<open>n\<close> bytes at \<open>a\<close>.\<close>

definition region :: "addr \<Rightarrow> nat \<Rightarrow> addr set" where
  "region a n = {a ..< a + int n}"

lemma in_region [simp]: "x \<in> region a n \<longleftrightarrow> a \<le> x \<and> x < a + int n"
  by (auto simp: region_def)

lemma region_0 [simp]: "region a 0 = {}"
  by (simp add: region_def)

lemma region_subset: "a \<le> b \<Longrightarrow> b + int k \<le> a + int n \<Longrightarrow> region b k \<subseteq> region a n"
  by auto

lemma region_part: "i + k \<le> n \<Longrightarrow> region (a + int i) k \<subseteq> region a n"
  by auto

lemma region_prefix: "k \<le> n \<Longrightarrow> region a k \<subseteq> region a n"
  by auto

lemma region_disjoint_sub:
  "region a n \<inter> X = {} \<Longrightarrow> a \<le> b \<Longrightarrow> b + int k \<le> a + int n \<Longrightarrow> region b k \<inter> X = {}"
  using region_subset [of a b k n] by blast

lemma all_less_Suc_shift: "(\<forall>i<Suc n. P i) \<longleftrightarrow> P 0 \<and> (\<forall>i<n. P (Suc i))"
  by (auto simp: less_Suc_eq_0_disj)

lemma load_bytes_eq_Some:
  "load_bytes m a n = Some bs \<longleftrightarrow> length bs = n \<and> (\<forall>i<n. m (a + int i) = Some (bs ! i))"
proof (induction n arbitrary: a bs)
  case 0
  then show ?case by auto
next
  case (Suc n)
  show ?case
  proof (cases bs)
    case Nil
    then show ?thesis by (auto split: option.splits)
  next
    case (Cons c cs)
    have "load_bytes m a (Suc n) = Some (c # cs) \<longleftrightarrow> m a = Some c \<and> load_bytes m (a + 1) n = Some cs"
      by (auto split: option.splits)
    with Cons show ?thesis by (auto simp: all_less_Suc_shift Suc.IH add.assoc)
  qed
qed

lemma load_bytes_length [dest]: "load_bytes m a n = Some bs \<Longrightarrow> length bs = n"
  by (simp add: load_bytes_eq_Some)

lemma mapped_iff: "mapped m a n \<longleftrightarrow> region a n \<subseteq> dom m"
proof
  assume "mapped m a n"
  then obtain bs where bs: "\<forall>i<n. m (a + int i) = Some (bs ! i)"
    by (auto simp: mapped_def load_bytes_eq_Some)
  show "region a n \<subseteq> dom m"
  proof
    fix x assume "x \<in> region a n"
    then show "x \<in> dom m"
      using bs [rule_format, of "nat (x - a)"] by auto
  qed
next
  assume sub: "region a n \<subseteq> dom m"
  let ?bs = "map (\<lambda>i. the (m (a + int i))) [0..<n]"
  have "m (a + int i) = Some (the (m (a + int i)))" if "i < n" for i
    using that sub by (auto simp: subset_iff domIff)
  then have "load_bytes m a n = Some ?bs"
    by (auto simp: load_bytes_eq_Some)
  then show "mapped m a n" by (simp add: mapped_def)
qed

lemma mapped_0 [simp]: "mapped m a 0"
  by (simp add: mapped_def)

lemma mapped_load: "mapped m a n \<Longrightarrow> \<exists>bs. load_bytes m a n = Some bs \<and> length bs = n"
  by (auto simp: mapped_def)

lemma load_mapped: "load_bytes m a n = Some bs \<Longrightarrow> mapped m a n"
  by (simp add: mapped_def)

lemma mapped_sub: "mapped m a n \<Longrightarrow> a \<le> b \<Longrightarrow> b + int k \<le> a + int n \<Longrightarrow> mapped m b k"
  by (auto simp: mapped_iff subset_iff)

lemma mapped_prefix: "mapped m a n \<Longrightarrow> k \<le> n \<Longrightarrow> mapped m a k"
  by (erule mapped_sub) simp_all

lemma mapped_dom: "dom m' = dom m \<Longrightarrow> mapped m' a n = mapped m a n"
  by (simp add: mapped_iff)

lemma mapped_mono: "m \<subseteq>\<^sub>m m' \<Longrightarrow> mapped m a n \<Longrightarrow> mapped m' a n"
  by (auto simp: mapped_iff map_le_def dom_def subset_iff)

lemma load_bytes_mono: "m \<subseteq>\<^sub>m m' \<Longrightarrow> load_bytes m a n = Some bs \<Longrightarrow> load_bytes m' a n = Some bs"
  by (auto simp: load_bytes_eq_Some map_le_def) (metis domI)

lemma load_bytes_cong:
  "(\<And>x. x \<in> region a n \<Longrightarrow> m x = m' x) \<Longrightarrow> load_bytes m a n = load_bytes m' a n"
proof (induction n arbitrary: a)
  case (Suc n)
  have "load_bytes m (a + 1) n = load_bytes m' (a + 1) n"
    by (rule Suc.IH) (use Suc.prems in auto)
  moreover have "m a = m' a" by (rule Suc.prems) simp
  ultimately show ?case by (simp split: option.split)
qed simp

lemma put_bytes_apply:
  "put_bytes m a bs x = (if x \<in> region a (length bs) then Some (bs ! nat (x - a)) else m x)"
proof (induction bs arbitrary: m a)
  case (Cons b bs)
  have "(b # bs) ! nat (x - a) = bs ! nat (x - (a + 1))" if "a < x"
  proof -
    have "nat (x - a) = Suc (nat (x - (a + 1)))" using that by simp
    then show ?thesis by simp
  qed
  then show ?case by (auto simp: Cons.IH)
qed simp

lemma dom_put_bytes [simp]: "dom (put_bytes m a bs) = dom m \<union> region a (length bs)"
  by (auto simp: put_bytes_apply dom_def split: if_splits)

lemma dom_put_mapped: "mapped m a (length bs) \<Longrightarrow> dom (put_bytes m a bs) = dom m"
  by (auto simp: mapped_iff)

lemma mapped_put_bytes: "mapped m a n \<Longrightarrow> mapped (put_bytes m b bs) a n"
  by (auto simp: mapped_iff)

lemma put_bytes_append:
  "put_bytes m a (xs @ ys) = put_bytes (put_bytes m a xs) (a + int (length xs)) ys"
  by (induction xs arbitrary: m a) (simp_all add: algebra_simps)

lemma load_put_same [cmem_simps]: "load_bytes (put_bytes m a bs) a (length bs) = Some bs"
  by (auto simp: load_bytes_eq_Some put_bytes_apply)

lemma load_put_disjoint [cmem_simps]:
  "region a n \<inter> region b (length bs) = {} \<Longrightarrow> load_bytes (put_bytes m b bs) a n = load_bytes m a n"
  by (rule load_bytes_cong) (auto simp: put_bytes_apply)

lemma map_le_put_bytes:
  "m0 \<subseteq>\<^sub>m m \<Longrightarrow> region a (length bs) \<inter> dom m0 = {} \<Longrightarrow> m0 \<subseteq>\<^sub>m put_bytes m a bs"
  by (auto simp: map_le_def put_bytes_apply)

lemma load_bytes_add:
  "load_bytes m a (i + j) =
     (case load_bytes m a i of None \<Rightarrow> None
      | Some xs \<Rightarrow> (case load_bytes m (a + int i) j of None \<Rightarrow> None | Some ys \<Rightarrow> Some (xs @ ys)))"
  by (induction i arbitrary: a) (auto simp: algebra_simps split: option.splits)

lemma load_bytes_take_drop:
  assumes "load_bytes m a n = Some bs" and "i \<le> n"
  shows "load_bytes m a i = Some (take i bs)" and "load_bytes m (a + int i) (n - i) = Some (drop i bs)"
proof -
  have all: "m (a + int j) = Some (bs ! j)" if "j < n" for j
    using assms(1) that by (simp add: load_bytes_eq_Some)
  show "load_bytes m a i = Some (take i bs)"
    using assms all by (auto simp: load_bytes_eq_Some)
  show "load_bytes m (a + int i) (n - i) = Some (drop i bs)"
    using assms all [of "i + j" for j] by (auto simp: load_bytes_eq_Some add.assoc)
qed

section \<open>Little-endian words\<close>

primrec word_le :: "nat \<Rightarrow> 'a::len word \<Rightarrow> u8 list" where
  "word_le 0 w = []"
| "word_le (Suc n) w = ucast w # word_le n (drop_bit 8 w)"

primrec le_word :: "u8 list \<Rightarrow> 'a::len word" where
  "le_word [] = 0"
| "le_word (b # bs) = ucast b OR push_bit 8 (le_word bs)"

lemma length_word_le [simp]: "length (word_le n w) = n"
  by (induction n arbitrary: w) simp_all

lemma le_word_word_le: "le_word (word_le n w) = take_bit (8 * n) (w :: 'a::len word)"
proof (induction n arbitrary: w)
  case (Suc n)
  have "ucast (ucast w :: u8) OR push_bit 8 (take_bit (8 * n) (drop_bit 8 w)) = take_bit (8 * Suc n) w"
    by (rule bit_word_eqI) (auto simp: bit_simps)
  then show ?case by (simp add: Suc.IH)
qed simp

lemma le_word_word_le_full [cmem_simps]:
  "LENGTH('a::len) \<le> 8 * n \<Longrightarrow> le_word (word_le n w) = (w :: 'a word)"
  by (simp add: le_word_word_le take_bit_word_eq_self)

lemma bit_le_word_bound: "bit (le_word bs :: 'a::len word) i \<Longrightarrow> i < 8 * length bs"
proof (induction bs arbitrary: i)
  case (Cons b bs)
  then have "bit b i \<or> 8 \<le> i \<and> bit (le_word bs :: 'a word) (i - 8)"
    by (auto simp: bit_simps)
  then show ?case
    using Cons.IH [of "i - 8"] bit_imp_le_length [of b i] by auto
qed simp

lemma word_le_le_word [cmem_simps]:
  "8 * length bs \<le> LENGTH('a::len) \<Longrightarrow> word_le (length bs) (le_word bs :: 'a word) = bs"
proof (induction bs)
  case (Cons b bs)
  have "ucast (ucast b OR push_bit 8 (le_word bs) :: 'a word) = b"
    using Cons.prems by (intro bit_word_eqI) (auto simp: bit_simps)
  moreover have "drop_bit 8 (ucast b OR push_bit 8 (le_word bs) :: 'a word) = le_word bs"
    using Cons.prems by (intro bit_word_eqI) (auto simp: bit_simps dest: bit_imp_le_length bit_le_word_bound)
  ultimately show ?case using Cons by (simp del: drop_bit_or)
qed simp

definition load_u16 :: "mem \<Rightarrow> addr \<Rightarrow> u16 option" where
  "load_u16 m a = map_option le_word (load_bytes m a 2)"

definition load_u32 :: "mem \<Rightarrow> addr \<Rightarrow> u32 option" where
  "load_u32 m a = map_option le_word (load_bytes m a 4)"

definition load_u64 :: "mem \<Rightarrow> addr \<Rightarrow> u64 option" where
  "load_u64 m a = map_option le_word (load_bytes m a 8)"

definition load_ptr :: "mem \<Rightarrow> addr \<Rightarrow> addr option" where
  "load_ptr m a = map_option uint (load_u64 m a)"

definition store_u32 :: "mem \<Rightarrow> addr \<Rightarrow> u32 \<Rightarrow> mem option" where
  "store_u32 m a w = store_bytes m a (word_le 4 w)"

definition store_ptr :: "mem \<Rightarrow> addr \<Rightarrow> addr \<Rightarrow> mem option" where
  "store_ptr m a p = store_bytes m a (word_le 8 (word_of_int p :: u64))"

lemmas load_defs = load_u16_def load_u32_def load_u64_def load_ptr_def
lemmas store_defs = store_u32_def store_ptr_def store_bytes_def

lemma load_byte_mono: "m \<subseteq>\<^sub>m m' \<Longrightarrow> m a = Some b \<Longrightarrow> m' a = Some b"
  by (auto simp: map_le_def) (metis domI)

lemma load_u32_mono: "m \<subseteq>\<^sub>m m' \<Longrightarrow> load_u32 m a = Some w \<Longrightarrow> load_u32 m' a = Some w"
  by (auto simp: load_defs dest: load_bytes_mono)

lemma load_u16_mono: "m \<subseteq>\<^sub>m m' \<Longrightarrow> load_u16 m a = Some w \<Longrightarrow> load_u16 m' a = Some w"
  by (auto simp: load_defs dest: load_bytes_mono)

lemma load_u64_mono: "m \<subseteq>\<^sub>m m' \<Longrightarrow> load_u64 m a = Some w \<Longrightarrow> load_u64 m' a = Some w"
  by (auto simp: load_defs dest: load_bytes_mono)

lemma load_ptr_mono: "m \<subseteq>\<^sub>m m' \<Longrightarrow> load_ptr m a = Some w \<Longrightarrow> load_ptr m' a = Some w"
  by (auto simp: load_ptr_def dest: load_u64_mono)

lemmas load_mono = load_byte_mono load_bytes_mono load_u16_mono load_u32_mono load_u64_mono load_ptr_mono

end
