(* ===== verification/Nanopb_Types.thy ===== *)
theory Nanopb_Types
  imports Prelude
begin

text \<open>
  The data of \<open>ios/Pods/nanopb/pb.h\<close>, \<open>pb_common.h\<close>, \<open>pb_encode.h\<close> and \<open>pb_decode.h\<close> in the
  configuration of the pod (\<open>PB_FIELD_32BIT\<close>, \<open>PB_ENABLE_MALLOC\<close>, \<open>PB_NO_PACKED_STRUCTS\<close>): field type
  bytes, field descriptors, the macros that fill a descriptor table, wire types, the two stream
  structures and the environment of code that nanopb only calls (stream and field callbacks, the
  C allocator).
\<close>

section \<open>Field type bytes\<close>

definition PB_LTYPE_BOOL :: u8 where "PB_LTYPE_BOOL = 0x00"
definition PB_LTYPE_VARINT :: u8 where "PB_LTYPE_VARINT = 0x01"
definition PB_LTYPE_UVARINT :: u8 where "PB_LTYPE_UVARINT = 0x02"
definition PB_LTYPE_SVARINT :: u8 where "PB_LTYPE_SVARINT = 0x03"
definition PB_LTYPE_FIXED32 :: u8 where "PB_LTYPE_FIXED32 = 0x04"
definition PB_LTYPE_FIXED64 :: u8 where "PB_LTYPE_FIXED64 = 0x05"
definition PB_LTYPE_LAST_PACKABLE :: u8 where "PB_LTYPE_LAST_PACKABLE = 0x05"
definition PB_LTYPE_BYTES :: u8 where "PB_LTYPE_BYTES = 0x06"
definition PB_LTYPE_STRING :: u8 where "PB_LTYPE_STRING = 0x07"
definition PB_LTYPE_SUBMESSAGE :: u8 where "PB_LTYPE_SUBMESSAGE = 0x08"
definition PB_LTYPE_EXTENSION :: u8 where "PB_LTYPE_EXTENSION = 0x09"
definition PB_LTYPE_FIXED_LENGTH_BYTES :: u8 where "PB_LTYPE_FIXED_LENGTH_BYTES = 0x0A"
definition PB_LTYPE_MASK :: u8 where "PB_LTYPE_MASK = 0x0F"

definition PB_HTYPE_REQUIRED :: u8 where "PB_HTYPE_REQUIRED = 0x00"
definition PB_HTYPE_OPTIONAL :: u8 where "PB_HTYPE_OPTIONAL = 0x10"
definition PB_HTYPE_REPEATED :: u8 where "PB_HTYPE_REPEATED = 0x20"
definition PB_HTYPE_ONEOF :: u8 where "PB_HTYPE_ONEOF = 0x30"
definition PB_HTYPE_MASK :: u8 where "PB_HTYPE_MASK = 0x30"

definition PB_ATYPE_STATIC :: u8 where "PB_ATYPE_STATIC = 0x00"
definition PB_ATYPE_POINTER :: u8 where "PB_ATYPE_POINTER = 0x80"
definition PB_ATYPE_CALLBACK :: u8 where "PB_ATYPE_CALLBACK = 0x40"
definition PB_ATYPE_MASK :: u8 where "PB_ATYPE_MASK = 0xC0"

definition PB_ATYPE :: "u8 \<Rightarrow> u8" where "PB_ATYPE x = x AND PB_ATYPE_MASK"
definition PB_HTYPE :: "u8 \<Rightarrow> u8" where "PB_HTYPE x = x AND PB_HTYPE_MASK"
definition PB_LTYPE :: "u8 \<Rightarrow> u8" where "PB_LTYPE x = x AND PB_LTYPE_MASK"

definition PB_SIZE_MAX :: u32 where "PB_SIZE_MAX = - 1"
definition PB_MAX_REQUIRED_FIELDS :: u32 where "PB_MAX_REQUIRED_FIELDS = 64"

lemmas pb_type_consts =
  PB_LTYPE_BOOL_def PB_LTYPE_VARINT_def PB_LTYPE_UVARINT_def PB_LTYPE_SVARINT_def
  PB_LTYPE_FIXED32_def PB_LTYPE_FIXED64_def PB_LTYPE_LAST_PACKABLE_def PB_LTYPE_BYTES_def
  PB_LTYPE_STRING_def PB_LTYPE_SUBMESSAGE_def PB_LTYPE_EXTENSION_def
  PB_LTYPE_FIXED_LENGTH_BYTES_def PB_LTYPE_MASK_def PB_HTYPE_REQUIRED_def PB_HTYPE_OPTIONAL_def
  PB_HTYPE_REPEATED_def PB_HTYPE_ONEOF_def PB_HTYPE_MASK_def PB_ATYPE_STATIC_def
  PB_ATYPE_POINTER_def PB_ATYPE_CALLBACK_def PB_ATYPE_MASK_def

text \<open>The constants of each group are pairwise different.\<close>

lemma htype_neq [simp]:
  "PB_HTYPE_REQUIRED \<noteq> PB_HTYPE_OPTIONAL"
  "PB_HTYPE_REQUIRED \<noteq> PB_HTYPE_REPEATED"
  "PB_HTYPE_REQUIRED \<noteq> PB_HTYPE_ONEOF"
  "PB_HTYPE_OPTIONAL \<noteq> PB_HTYPE_REQUIRED"
  "PB_HTYPE_OPTIONAL \<noteq> PB_HTYPE_REPEATED"
  "PB_HTYPE_OPTIONAL \<noteq> PB_HTYPE_ONEOF"
  "PB_HTYPE_REPEATED \<noteq> PB_HTYPE_REQUIRED"
  "PB_HTYPE_REPEATED \<noteq> PB_HTYPE_OPTIONAL"
  "PB_HTYPE_REPEATED \<noteq> PB_HTYPE_ONEOF"
  "PB_HTYPE_ONEOF \<noteq> PB_HTYPE_REQUIRED"
  "PB_HTYPE_ONEOF \<noteq> PB_HTYPE_OPTIONAL"
  "PB_HTYPE_ONEOF \<noteq> PB_HTYPE_REPEATED"
  by (simp_all add: pb_type_consts)

lemma atype_neq [simp]:
  "PB_ATYPE_STATIC \<noteq> PB_ATYPE_POINTER"
  "PB_ATYPE_STATIC \<noteq> PB_ATYPE_CALLBACK"
  "PB_ATYPE_POINTER \<noteq> PB_ATYPE_STATIC"
  "PB_ATYPE_POINTER \<noteq> PB_ATYPE_CALLBACK"
  "PB_ATYPE_CALLBACK \<noteq> PB_ATYPE_STATIC"
  "PB_ATYPE_CALLBACK \<noteq> PB_ATYPE_POINTER"
  by (simp_all add: pb_type_consts)

lemma ltype_neq [simp]:
  "PB_LTYPE_BOOL \<noteq> PB_LTYPE_VARINT"
  "PB_LTYPE_BOOL \<noteq> PB_LTYPE_UVARINT"
  "PB_LTYPE_BOOL \<noteq> PB_LTYPE_SVARINT"
  "PB_LTYPE_BOOL \<noteq> PB_LTYPE_FIXED32"
  "PB_LTYPE_BOOL \<noteq> PB_LTYPE_FIXED64"
  "PB_LTYPE_BOOL \<noteq> PB_LTYPE_BYTES"
  "PB_LTYPE_BOOL \<noteq> PB_LTYPE_STRING"
  "PB_LTYPE_BOOL \<noteq> PB_LTYPE_SUBMESSAGE"
  "PB_LTYPE_BOOL \<noteq> PB_LTYPE_EXTENSION"
  "PB_LTYPE_BOOL \<noteq> PB_LTYPE_FIXED_LENGTH_BYTES"
  "PB_LTYPE_VARINT \<noteq> PB_LTYPE_BOOL"
  "PB_LTYPE_VARINT \<noteq> PB_LTYPE_UVARINT"
  "PB_LTYPE_VARINT \<noteq> PB_LTYPE_SVARINT"
  "PB_LTYPE_VARINT \<noteq> PB_LTYPE_FIXED32"
  "PB_LTYPE_VARINT \<noteq> PB_LTYPE_FIXED64"
  "PB_LTYPE_VARINT \<noteq> PB_LTYPE_BYTES"
  "PB_LTYPE_VARINT \<noteq> PB_LTYPE_STRING"
  "PB_LTYPE_VARINT \<noteq> PB_LTYPE_SUBMESSAGE"
  "PB_LTYPE_VARINT \<noteq> PB_LTYPE_EXTENSION"
  "PB_LTYPE_VARINT \<noteq> PB_LTYPE_FIXED_LENGTH_BYTES"
  "PB_LTYPE_UVARINT \<noteq> PB_LTYPE_BOOL"
  "PB_LTYPE_UVARINT \<noteq> PB_LTYPE_VARINT"
  "PB_LTYPE_UVARINT \<noteq> PB_LTYPE_SVARINT"
  "PB_LTYPE_UVARINT \<noteq> PB_LTYPE_FIXED32"
  "PB_LTYPE_UVARINT \<noteq> PB_LTYPE_FIXED64"
  "PB_LTYPE_UVARINT \<noteq> PB_LTYPE_BYTES"
  "PB_LTYPE_UVARINT \<noteq> PB_LTYPE_STRING"
  "PB_LTYPE_UVARINT \<noteq> PB_LTYPE_SUBMESSAGE"
  "PB_LTYPE_UVARINT \<noteq> PB_LTYPE_EXTENSION"
  "PB_LTYPE_UVARINT \<noteq> PB_LTYPE_FIXED_LENGTH_BYTES"
  "PB_LTYPE_SVARINT \<noteq> PB_LTYPE_BOOL"
  "PB_LTYPE_SVARINT \<noteq> PB_LTYPE_VARINT"
  "PB_LTYPE_SVARINT \<noteq> PB_LTYPE_UVARINT"
  "PB_LTYPE_SVARINT \<noteq> PB_LTYPE_FIXED32"
  "PB_LTYPE_SVARINT \<noteq> PB_LTYPE_FIXED64"
  "PB_LTYPE_SVARINT \<noteq> PB_LTYPE_BYTES"
  "PB_LTYPE_SVARINT \<noteq> PB_LTYPE_STRING"
  "PB_LTYPE_SVARINT \<noteq> PB_LTYPE_SUBMESSAGE"
  "PB_LTYPE_SVARINT \<noteq> PB_LTYPE_EXTENSION"
  "PB_LTYPE_SVARINT \<noteq> PB_LTYPE_FIXED_LENGTH_BYTES"
  "PB_LTYPE_FIXED32 \<noteq> PB_LTYPE_BOOL"
  "PB_LTYPE_FIXED32 \<noteq> PB_LTYPE_VARINT"
  "PB_LTYPE_FIXED32 \<noteq> PB_LTYPE_UVARINT"
  "PB_LTYPE_FIXED32 \<noteq> PB_LTYPE_SVARINT"
  "PB_LTYPE_FIXED32 \<noteq> PB_LTYPE_FIXED64"
  "PB_LTYPE_FIXED32 \<noteq> PB_LTYPE_BYTES"
  "PB_LTYPE_FIXED32 \<noteq> PB_LTYPE_STRING"
  "PB_LTYPE_FIXED32 \<noteq> PB_LTYPE_SUBMESSAGE"
  "PB_LTYPE_FIXED32 \<noteq> PB_LTYPE_EXTENSION"
  "PB_LTYPE_FIXED32 \<noteq> PB_LTYPE_FIXED_LENGTH_BYTES"
  "PB_LTYPE_FIXED64 \<noteq> PB_LTYPE_BOOL"
  "PB_LTYPE_FIXED64 \<noteq> PB_LTYPE_VARINT"
  "PB_LTYPE_FIXED64 \<noteq> PB_LTYPE_UVARINT"
  "PB_LTYPE_FIXED64 \<noteq> PB_LTYPE_SVARINT"
  "PB_LTYPE_FIXED64 \<noteq> PB_LTYPE_FIXED32"
  "PB_LTYPE_FIXED64 \<noteq> PB_LTYPE_BYTES"
  "PB_LTYPE_FIXED64 \<noteq> PB_LTYPE_STRING"
  "PB_LTYPE_FIXED64 \<noteq> PB_LTYPE_SUBMESSAGE"
  "PB_LTYPE_FIXED64 \<noteq> PB_LTYPE_EXTENSION"
  "PB_LTYPE_FIXED64 \<noteq> PB_LTYPE_FIXED_LENGTH_BYTES"
  "PB_LTYPE_BYTES \<noteq> PB_LTYPE_BOOL"
  "PB_LTYPE_BYTES \<noteq> PB_LTYPE_VARINT"
  "PB_LTYPE_BYTES \<noteq> PB_LTYPE_UVARINT"
  "PB_LTYPE_BYTES \<noteq> PB_LTYPE_SVARINT"
  "PB_LTYPE_BYTES \<noteq> PB_LTYPE_FIXED32"
  "PB_LTYPE_BYTES \<noteq> PB_LTYPE_FIXED64"
  "PB_LTYPE_BYTES \<noteq> PB_LTYPE_STRING"
  "PB_LTYPE_BYTES \<noteq> PB_LTYPE_SUBMESSAGE"
  "PB_LTYPE_BYTES \<noteq> PB_LTYPE_EXTENSION"
  "PB_LTYPE_BYTES \<noteq> PB_LTYPE_FIXED_LENGTH_BYTES"
  "PB_LTYPE_STRING \<noteq> PB_LTYPE_BOOL"
  "PB_LTYPE_STRING \<noteq> PB_LTYPE_VARINT"
  "PB_LTYPE_STRING \<noteq> PB_LTYPE_UVARINT"
  "PB_LTYPE_STRING \<noteq> PB_LTYPE_SVARINT"
  "PB_LTYPE_STRING \<noteq> PB_LTYPE_FIXED32"
  "PB_LTYPE_STRING \<noteq> PB_LTYPE_FIXED64"
  "PB_LTYPE_STRING \<noteq> PB_LTYPE_BYTES"
  "PB_LTYPE_STRING \<noteq> PB_LTYPE_SUBMESSAGE"
  "PB_LTYPE_STRING \<noteq> PB_LTYPE_EXTENSION"
  "PB_LTYPE_STRING \<noteq> PB_LTYPE_FIXED_LENGTH_BYTES"
  "PB_LTYPE_SUBMESSAGE \<noteq> PB_LTYPE_BOOL"
  "PB_LTYPE_SUBMESSAGE \<noteq> PB_LTYPE_VARINT"
  "PB_LTYPE_SUBMESSAGE \<noteq> PB_LTYPE_UVARINT"
  "PB_LTYPE_SUBMESSAGE \<noteq> PB_LTYPE_SVARINT"
  "PB_LTYPE_SUBMESSAGE \<noteq> PB_LTYPE_FIXED32"
  "PB_LTYPE_SUBMESSAGE \<noteq> PB_LTYPE_FIXED64"
  "PB_LTYPE_SUBMESSAGE \<noteq> PB_LTYPE_BYTES"
  "PB_LTYPE_SUBMESSAGE \<noteq> PB_LTYPE_STRING"
  "PB_LTYPE_SUBMESSAGE \<noteq> PB_LTYPE_EXTENSION"
  "PB_LTYPE_SUBMESSAGE \<noteq> PB_LTYPE_FIXED_LENGTH_BYTES"
  "PB_LTYPE_EXTENSION \<noteq> PB_LTYPE_BOOL"
  "PB_LTYPE_EXTENSION \<noteq> PB_LTYPE_VARINT"
  "PB_LTYPE_EXTENSION \<noteq> PB_LTYPE_UVARINT"
  "PB_LTYPE_EXTENSION \<noteq> PB_LTYPE_SVARINT"
  "PB_LTYPE_EXTENSION \<noteq> PB_LTYPE_FIXED32"
  "PB_LTYPE_EXTENSION \<noteq> PB_LTYPE_FIXED64"
  "PB_LTYPE_EXTENSION \<noteq> PB_LTYPE_BYTES"
  "PB_LTYPE_EXTENSION \<noteq> PB_LTYPE_STRING"
  "PB_LTYPE_EXTENSION \<noteq> PB_LTYPE_SUBMESSAGE"
  "PB_LTYPE_EXTENSION \<noteq> PB_LTYPE_FIXED_LENGTH_BYTES"
  "PB_LTYPE_FIXED_LENGTH_BYTES \<noteq> PB_LTYPE_BOOL"
  "PB_LTYPE_FIXED_LENGTH_BYTES \<noteq> PB_LTYPE_VARINT"
  "PB_LTYPE_FIXED_LENGTH_BYTES \<noteq> PB_LTYPE_UVARINT"
  "PB_LTYPE_FIXED_LENGTH_BYTES \<noteq> PB_LTYPE_SVARINT"
  "PB_LTYPE_FIXED_LENGTH_BYTES \<noteq> PB_LTYPE_FIXED32"
  "PB_LTYPE_FIXED_LENGTH_BYTES \<noteq> PB_LTYPE_FIXED64"
  "PB_LTYPE_FIXED_LENGTH_BYTES \<noteq> PB_LTYPE_BYTES"
  "PB_LTYPE_FIXED_LENGTH_BYTES \<noteq> PB_LTYPE_STRING"
  "PB_LTYPE_FIXED_LENGTH_BYTES \<noteq> PB_LTYPE_SUBMESSAGE"
  "PB_LTYPE_FIXED_LENGTH_BYTES \<noteq> PB_LTYPE_EXTENSION"
  by (simp_all add: pb_type_consts)

text \<open>The allocation, repetition and data type of a field are independent parts of its type byte.\<close>

lemma type_parts: "PB_ATYPE x OR PB_HTYPE x OR PB_LTYPE x = x"
  by (rule all_u8D) code_simp

lemma htype_cases:
  "PB_HTYPE x = PB_HTYPE_REQUIRED \<or> PB_HTYPE x = PB_HTYPE_OPTIONAL \<or>
   PB_HTYPE x = PB_HTYPE_REPEATED \<or> PB_HTYPE x = PB_HTYPE_ONEOF"
  by (rule all_u8D) code_simp

section \<open>Field descriptors\<close>

text \<open>
  \<open>struct pb_field_s\<close>. \<open>size_offset\<close> is the signed \<open>pb_ssize_t\<close>, read with \<^const>\<open>sint\<close>; \<open>fptr\<close> is the
  address of the submessage's descriptor table, or of the default value, or null.
\<close>

record pb_field =
  tag :: u32
  ftype :: u8
  data_offset :: u32
  size_offset :: u32
  data_size :: u32
  array_size :: u32
  fptr :: addr

abbreviation atype :: "pb_field \<Rightarrow> u8" where "atype f \<equiv> PB_ATYPE (ftype f)"
abbreviation htype :: "pb_field \<Rightarrow> u8" where "htype f \<equiv> PB_HTYPE (ftype f)"
abbreviation ltype :: "pb_field \<Rightarrow> u8" where "ltype f \<equiv> PB_LTYPE (ftype f)"

definition PB_LAST_FIELD :: pb_field where
  "PB_LAST_FIELD = \<lparr>tag = 0, ftype = 0, data_offset = 0, size_offset = 0, data_size = 0,
     array_size = 0, fptr = 0\<rparr>"

text \<open>
  The macros that fill a table take the C structure's layout from \<open>offsetof\<close> and \<open>sizeof\<close>; here a
  member is described by its offset, its size, the size of one element and the offset of its
  companion (\<open>has_m\<close>, \<open>m_count\<close> or \<open>which_u\<close>).
\<close>

record member =
  m_offset :: nat
  m_size :: nat
  m_elem :: nat
  m_aux :: nat

definition pb_arraysize :: "member \<Rightarrow> u32" where
  "pb_arraysize m = of_nat (m_size m div m_elem m)"

definition pb_delta :: "member \<Rightarrow> u32" where
  "pb_delta m = word_of_int (int (m_aux m) - int (m_offset m))"

definition PB_DATAOFFSET_FIRST :: "member \<Rightarrow> member \<Rightarrow> u32" where
  "PB_DATAOFFSET_FIRST m1 m2 = of_nat (m_offset m1)"

definition PB_DATAOFFSET_OTHER :: "member \<Rightarrow> member \<Rightarrow> u32" where
  "PB_DATAOFFSET_OTHER m1 m2 =
     word_of_int (int (m_offset m1) - int (m_offset m2) - int (m_size m2))"

definition PB_DATAOFFSET_UNION :: "member \<Rightarrow> member \<Rightarrow> u32" where
  "PB_DATAOFFSET_UNION m1 m2 = PB_SIZE_MAX"

definition PB_REQUIRED_STATIC :: "u32 \<Rightarrow> member \<Rightarrow> u32 \<Rightarrow> u8 \<Rightarrow> addr \<Rightarrow> pb_field" where
  "PB_REQUIRED_STATIC t m fd lt p =
     \<lparr>tag = t, ftype = PB_ATYPE_STATIC OR PB_HTYPE_REQUIRED OR lt, data_offset = fd,
      size_offset = 0, data_size = of_nat (m_size m), array_size = 0, fptr = p\<rparr>"

definition PB_OPTIONAL_STATIC :: "u32 \<Rightarrow> member \<Rightarrow> u32 \<Rightarrow> u8 \<Rightarrow> addr \<Rightarrow> pb_field" where
  "PB_OPTIONAL_STATIC t m fd lt p =
     \<lparr>tag = t, ftype = PB_ATYPE_STATIC OR PB_HTYPE_OPTIONAL OR lt, data_offset = fd,
      size_offset = pb_delta m, data_size = of_nat (m_size m), array_size = 0, fptr = p\<rparr>"

definition PB_SINGULAR_STATIC :: "u32 \<Rightarrow> member \<Rightarrow> u32 \<Rightarrow> u8 \<Rightarrow> addr \<Rightarrow> pb_field" where
  "PB_SINGULAR_STATIC t m fd lt p =
     \<lparr>tag = t, ftype = PB_ATYPE_STATIC OR PB_HTYPE_OPTIONAL OR lt, data_offset = fd,
      size_offset = 0, data_size = of_nat (m_size m), array_size = 0, fptr = p\<rparr>"

definition PB_REPEATED_STATIC :: "u32 \<Rightarrow> member \<Rightarrow> u32 \<Rightarrow> u8 \<Rightarrow> addr \<Rightarrow> pb_field" where
  "PB_REPEATED_STATIC t m fd lt p =
     \<lparr>tag = t, ftype = PB_ATYPE_STATIC OR PB_HTYPE_REPEATED OR lt, data_offset = fd,
      size_offset = pb_delta m, data_size = of_nat (m_elem m), array_size = pb_arraysize m, fptr = p\<rparr>"

definition PB_REQUIRED_POINTER :: "u32 \<Rightarrow> member \<Rightarrow> u32 \<Rightarrow> u8 \<Rightarrow> addr \<Rightarrow> pb_field" where
  "PB_REQUIRED_POINTER t m fd lt p =
     \<lparr>tag = t, ftype = PB_ATYPE_POINTER OR PB_HTYPE_REQUIRED OR lt, data_offset = fd,
      size_offset = 0, data_size = of_nat (m_elem m), array_size = 0, fptr = p\<rparr>"

definition PB_OPTIONAL_POINTER :: "u32 \<Rightarrow> member \<Rightarrow> u32 \<Rightarrow> u8 \<Rightarrow> addr \<Rightarrow> pb_field" where
  "PB_OPTIONAL_POINTER t m fd lt p =
     \<lparr>tag = t, ftype = PB_ATYPE_POINTER OR PB_HTYPE_OPTIONAL OR lt, data_offset = fd,
      size_offset = 0, data_size = of_nat (m_elem m), array_size = 0, fptr = p\<rparr>"

definition PB_SINGULAR_POINTER :: "u32 \<Rightarrow> member \<Rightarrow> u32 \<Rightarrow> u8 \<Rightarrow> addr \<Rightarrow> pb_field" where
  "PB_SINGULAR_POINTER t m fd lt p =
     \<lparr>tag = t, ftype = PB_ATYPE_POINTER OR PB_HTYPE_OPTIONAL OR lt, data_offset = fd,
      size_offset = 0, data_size = of_nat (m_elem m), array_size = 0, fptr = p\<rparr>"

definition PB_REPEATED_POINTER :: "u32 \<Rightarrow> member \<Rightarrow> u32 \<Rightarrow> u8 \<Rightarrow> addr \<Rightarrow> pb_field" where
  "PB_REPEATED_POINTER t m fd lt p =
     \<lparr>tag = t, ftype = PB_ATYPE_POINTER OR PB_HTYPE_REPEATED OR lt, data_offset = fd,
      size_offset = pb_delta m, data_size = of_nat (m_elem m), array_size = 0, fptr = p\<rparr>"

definition PB_REQUIRED_CALLBACK :: "u32 \<Rightarrow> member \<Rightarrow> u32 \<Rightarrow> u8 \<Rightarrow> addr \<Rightarrow> pb_field" where
  "PB_REQUIRED_CALLBACK t m fd lt p =
     \<lparr>tag = t, ftype = PB_ATYPE_CALLBACK OR PB_HTYPE_REQUIRED OR lt, data_offset = fd,
      size_offset = 0, data_size = of_nat (m_size m), array_size = 0, fptr = p\<rparr>"

definition PB_OPTIONAL_CALLBACK :: "u32 \<Rightarrow> member \<Rightarrow> u32 \<Rightarrow> u8 \<Rightarrow> addr \<Rightarrow> pb_field" where
  "PB_OPTIONAL_CALLBACK t m fd lt p =
     \<lparr>tag = t, ftype = PB_ATYPE_CALLBACK OR PB_HTYPE_OPTIONAL OR lt, data_offset = fd,
      size_offset = 0, data_size = of_nat (m_size m), array_size = 0, fptr = p\<rparr>"

definition PB_SINGULAR_CALLBACK :: "u32 \<Rightarrow> member \<Rightarrow> u32 \<Rightarrow> u8 \<Rightarrow> addr \<Rightarrow> pb_field" where
  "PB_SINGULAR_CALLBACK t m fd lt p =
     \<lparr>tag = t, ftype = PB_ATYPE_CALLBACK OR PB_HTYPE_OPTIONAL OR lt, data_offset = fd,
      size_offset = 0, data_size = of_nat (m_size m), array_size = 0, fptr = p\<rparr>"

definition PB_REPEATED_CALLBACK :: "u32 \<Rightarrow> member \<Rightarrow> u32 \<Rightarrow> u8 \<Rightarrow> addr \<Rightarrow> pb_field" where
  "PB_REPEATED_CALLBACK t m fd lt p =
     \<lparr>tag = t, ftype = PB_ATYPE_CALLBACK OR PB_HTYPE_REPEATED OR lt, data_offset = fd,
      size_offset = 0, data_size = of_nat (m_size m), array_size = 0, fptr = p\<rparr>"

definition PB_OPTEXT_STATIC :: "u32 \<Rightarrow> member \<Rightarrow> u32 \<Rightarrow> u8 \<Rightarrow> addr \<Rightarrow> pb_field" where
  "PB_OPTEXT_STATIC t m fd lt p =
     \<lparr>tag = t, ftype = PB_ATYPE_STATIC OR PB_HTYPE_REQUIRED OR lt, data_offset = 0,
      size_offset = 0, data_size = of_nat (m_size m), array_size = 0, fptr = p\<rparr>"

definition PB_REPEATED_FIXED_COUNT :: "u32 \<Rightarrow> member \<Rightarrow> u32 \<Rightarrow> u8 \<Rightarrow> addr \<Rightarrow> pb_field" where
  "PB_REPEATED_FIXED_COUNT t m fd lt p =
     \<lparr>tag = t, ftype = PB_ATYPE_STATIC OR PB_HTYPE_REPEATED OR lt, data_offset = fd,
      size_offset = 0, data_size = of_nat (m_elem m), array_size = pb_arraysize m, fptr = p\<rparr>"

definition PB_ONEOF_STATIC :: "u32 \<Rightarrow> member \<Rightarrow> u32 \<Rightarrow> u8 \<Rightarrow> addr \<Rightarrow> pb_field" where
  "PB_ONEOF_STATIC t m fd lt p =
     \<lparr>tag = t, ftype = PB_ATYPE_STATIC OR PB_HTYPE_ONEOF OR lt, data_offset = fd,
      size_offset = pb_delta m, data_size = of_nat (m_size m), array_size = 0, fptr = p\<rparr>"

definition PB_ONEOF_POINTER :: "u32 \<Rightarrow> member \<Rightarrow> u32 \<Rightarrow> u8 \<Rightarrow> addr \<Rightarrow> pb_field" where
  "PB_ONEOF_POINTER t m fd lt p =
     \<lparr>tag = t, ftype = PB_ATYPE_POINTER OR PB_HTYPE_ONEOF OR lt, data_offset = fd,
      size_offset = pb_delta m, data_size = of_nat (m_elem m), array_size = 0, fptr = p\<rparr>"

text \<open>
  \<open>PB_FIELD\<close> and \<open>PB_ONEOF_FIELD\<close> paste the names of the rules, the allocation and the placement
  into the name of a macro above; here these are enumerations, and the two macros select the
  definition of that name. There is no \<open>PB_ONEOF_CALLBACK\<close>; declarations that ask for it are
  excluded by \<open>decl_ok\<close>.
\<close>

datatype field_rules = R_REQUIRED | R_OPTIONAL | R_SINGULAR | R_REPEATED | R_OPTEXT
datatype field_alloc = A_STATIC | A_POINTER | A_CALLBACK
datatype placement = P_FIRST | P_OTHER | P_UNION

fun PB_DATAOFFSET :: "placement \<Rightarrow> member \<Rightarrow> member \<Rightarrow> u32" where
  "PB_DATAOFFSET P_FIRST m1 m2 = PB_DATAOFFSET_FIRST m1 m2"
| "PB_DATAOFFSET P_OTHER m1 m2 = PB_DATAOFFSET_OTHER m1 m2"
| "PB_DATAOFFSET P_UNION m1 m2 = PB_DATAOFFSET_UNION m1 m2"

fun PB_RULES_ALLOC :: "field_rules \<Rightarrow> field_alloc \<Rightarrow> u32 \<Rightarrow> member \<Rightarrow> u32 \<Rightarrow> u8 \<Rightarrow> addr \<Rightarrow> pb_field" where
  "PB_RULES_ALLOC R_REQUIRED A_STATIC = PB_REQUIRED_STATIC"
| "PB_RULES_ALLOC R_REQUIRED A_POINTER = PB_REQUIRED_POINTER"
| "PB_RULES_ALLOC R_REQUIRED A_CALLBACK = PB_REQUIRED_CALLBACK"
| "PB_RULES_ALLOC R_OPTIONAL A_STATIC = PB_OPTIONAL_STATIC"
| "PB_RULES_ALLOC R_OPTIONAL A_POINTER = PB_OPTIONAL_POINTER"
| "PB_RULES_ALLOC R_OPTIONAL A_CALLBACK = PB_OPTIONAL_CALLBACK"
| "PB_RULES_ALLOC R_SINGULAR A_STATIC = PB_SINGULAR_STATIC"
| "PB_RULES_ALLOC R_SINGULAR A_POINTER = PB_SINGULAR_POINTER"
| "PB_RULES_ALLOC R_SINGULAR A_CALLBACK = PB_SINGULAR_CALLBACK"
| "PB_RULES_ALLOC R_REPEATED A_STATIC = PB_REPEATED_STATIC"
| "PB_RULES_ALLOC R_REPEATED A_POINTER = PB_REPEATED_POINTER"
| "PB_RULES_ALLOC R_REPEATED A_CALLBACK = PB_REPEATED_CALLBACK"
| "PB_RULES_ALLOC R_OPTEXT A_STATIC = PB_OPTEXT_STATIC"
| "PB_RULES_ALLOC R_OPTEXT A_POINTER = PB_OPTIONAL_POINTER"
| "PB_RULES_ALLOC R_OPTEXT A_CALLBACK = PB_OPTIONAL_CALLBACK"

definition PB_FIELD :: "u32 \<Rightarrow> u8 \<Rightarrow> field_rules \<Rightarrow> field_alloc \<Rightarrow> placement \<Rightarrow> member \<Rightarrow> member \<Rightarrow> addr \<Rightarrow> pb_field" where
  "PB_FIELD t lt rules alloc place m prev p = PB_RULES_ALLOC rules alloc t m (PB_DATAOFFSET place m prev) lt p"

definition PB_ONEOF_FIELD :: "u32 \<Rightarrow> u8 \<Rightarrow> field_alloc \<Rightarrow> placement \<Rightarrow> member \<Rightarrow> member \<Rightarrow> addr \<Rightarrow> pb_field" where
  "PB_ONEOF_FIELD t lt alloc place m prev p =
     (if alloc = A_POINTER then PB_ONEOF_POINTER else PB_ONEOF_STATIC) t m (PB_DATAOFFSET place m prev) lt p"

section \<open>Wire types and streams\<close>

definition PB_WT_VARINT :: u32 where "PB_WT_VARINT = 0"
definition PB_WT_64BIT :: u32 where "PB_WT_64BIT = 1"
definition PB_WT_STRING :: u32 where "PB_WT_STRING = 2"
definition PB_WT_32BIT :: u32 where "PB_WT_32BIT = 5"

lemma wt_neq [simp]:
  "PB_WT_VARINT \<noteq> PB_WT_64BIT"
  "PB_WT_VARINT \<noteq> PB_WT_STRING"
  "PB_WT_VARINT \<noteq> PB_WT_32BIT"
  "PB_WT_64BIT \<noteq> PB_WT_VARINT"
  "PB_WT_64BIT \<noteq> PB_WT_STRING"
  "PB_WT_64BIT \<noteq> PB_WT_32BIT"
  "PB_WT_STRING \<noteq> PB_WT_VARINT"
  "PB_WT_STRING \<noteq> PB_WT_64BIT"
  "PB_WT_STRING \<noteq> PB_WT_32BIT"
  "PB_WT_32BIT \<noteq> PB_WT_VARINT"
  "PB_WT_32BIT \<noteq> PB_WT_64BIT"
  "PB_WT_32BIT \<noteq> PB_WT_STRING"
  by (simp_all add: PB_WT_VARINT_def PB_WT_64BIT_def PB_WT_STRING_def PB_WT_32BIT_def)

text \<open>
  The buffer argument of a write is a null pointer, an array on the caller's stack, or an address.
  The destination of a read is a null pointer, a local of the caller or an address.
\<close>

datatype wbuf = WNull | WLocal "u8 list" | WMem addr
datatype rbuf = RNull | RLocal | RMem addr

text \<open>
  The callback of an output stream is null (a sizing stream), \<open>buf_write\<close> or a function of the
  user; that of an input stream is \<open>buf_read\<close> or a function of the user.
\<close>

datatype ocallback = OC_null | OC_buf_write | OC_user nat
datatype icallback = IC_buf_read | IC_user nat

record pb_ostream =
  os_callback :: ocallback
  os_state :: addr
  max_size :: u64
  bytes_written :: u64
  os_errmsg :: "string option"

record pb_istream =
  is_callback :: icallback
  is_state :: addr
  bytes_left :: u64
  is_errmsg :: "string option"

definition PB_OSTREAM_SIZING :: pb_ostream where
  "PB_OSTREAM_SIZING = \<lparr>os_callback = OC_null, os_state = 0, max_size = 0, bytes_written = 0,
     os_errmsg = None\<rparr>"

text \<open>\<open>PB_SET_ERROR\<close> keeps the first message; \<open>PB_RETURN_ERROR\<close> sets it and returns false.\<close>

definition os_set_error :: "pb_ostream \<Rightarrow> string \<Rightarrow> pb_ostream" where
  "os_set_error s msg =
     s\<lparr>os_errmsg := (case os_errmsg s of None \<Rightarrow> Some msg | Some e \<Rightarrow> Some e)\<rparr>"

definition is_set_error :: "pb_istream \<Rightarrow> string \<Rightarrow> pb_istream" where
  "is_set_error s msg =
     s\<lparr>is_errmsg := (case is_errmsg s of None \<Rightarrow> Some msg | Some e \<Rightarrow> Some e)\<rparr>"

section \<open>The heap\<close>

text \<open>
  The decoder also allocates: the heap is the memory with the live blocks of the C allocator
  (base address and size).
\<close>

record cheap =
  hmem :: mem
  blocks :: "addr \<rightharpoonup> nat"

section \<open>Code that nanopb only calls\<close>

text \<open>
  Parameters of the model: the descriptor tables behind the pointers in \<open>fptr\<close> and
  \<open>extension->type->arg\<close>; the user's stream callbacks and field callbacks; the choices of the C
  allocator (where a block goes, or failure), the content of fresh memory and the place of a local
  array on the stack.
\<close>

record pb_env =
  fields_of :: "addr \<Rightarrow> pb_field list"
  ostream_cb :: "nat \<Rightarrow> pb_ostream \<Rightarrow> wbuf \<Rightarrow> u64 \<Rightarrow> mem \<Rightarrow> (bool \<times> pb_ostream \<times> mem) option"
  encode_cb :: "addr \<Rightarrow> pb_ostream \<Rightarrow> pb_field \<Rightarrow> addr \<Rightarrow> mem \<Rightarrow> (bool \<times> pb_ostream \<times> mem) option"
  ext_encode_cb :: "addr \<Rightarrow> pb_ostream \<Rightarrow> addr \<Rightarrow> mem \<Rightarrow> (bool \<times> pb_ostream \<times> mem) option"
  istream_cb :: "nat \<Rightarrow> pb_istream \<Rightarrow> rbuf \<Rightarrow> u64 \<Rightarrow> cheap \<Rightarrow> (u8 list option \<times> pb_istream \<times> cheap) option"
  decode_cb :: "addr \<Rightarrow> pb_istream \<Rightarrow> pb_field \<Rightarrow> addr \<Rightarrow> cheap \<Rightarrow> (bool \<times> pb_istream \<times> cheap) option"
  ext_decode_cb :: "addr \<Rightarrow> pb_istream \<Rightarrow> addr \<Rightarrow> u32 \<Rightarrow> u32 \<Rightarrow> cheap \<Rightarrow> (bool \<times> pb_istream \<times> cheap) option"
  alloc_at :: "cheap \<Rightarrow> addr \<Rightarrow> nat \<Rightarrow> addr option"
  fresh_byte :: "addr \<Rightarrow> u8"
  stack_at :: "cheap \<Rightarrow> nat \<Rightarrow> addr"

end
