(* ===== verification/Nanopb_Common.thy ===== *)
theory Nanopb_Common
  imports Nanopb_Types
begin

text \<open>
  The field iterator of \<open>ios/Pods/nanopb/pb_common.c\<close>. A descriptor table is a list of
  \<^typ>\<open>pb_field\<close> whose last entry is the terminator (tag 0); a pointer into the table is an index.
  The size pointer of an iterator is an address, or the decoder's local \<open>fixed_count_size\<close>, to
  which \<open>pb_decode_noinit\<close> redirects it for fixed count arrays. The last two sections compute the table
  that the descriptor macros fill for a C structure, and the offsets an iterator reaches in it.
\<close>

section \<open>The iterator\<close>

datatype psize = PSMem addr | PSLocal

record pb_field_iter =
  it_start :: "pb_field list"
  it_pos :: nat
  required_field_index :: u32
  dest_struct :: addr
  pData :: addr
  pSize :: psize

text \<open>Dereferencing \<open>iter->pos\<close>; beyond the terminator it is out of bounds.\<close>

definition it_field :: "pb_field_iter \<Rightarrow> pb_field option" where
  "it_field it = (if it_pos it < length (it_start it) then Some (it_start it ! it_pos it) else None)"

definition pb_field_iter_begin :: "pb_field list \<Rightarrow> addr \<Rightarrow> (bool \<times> pb_field_iter) option" where
  "pb_field_iter_begin flds dest =
     (case flds of [] \<Rightarrow> None
      | f # _ \<Rightarrow>
          (let pd = (if dest = 0 then 0 else dest + uint (data_offset f));
               ps = (if dest = 0 then 0 else pd + sint (size_offset f))
           in Some (tag f \<noteq> 0,
                \<lparr>it_start = flds, it_pos = 0, required_field_index = 0, dest_struct = dest,
                 pData = pd, pSize = PSMem ps\<rparr>)))"

definition pb_field_iter_next :: "pb_field_iter \<Rightarrow> (bool \<times> pb_field_iter) option" where
  "pb_field_iter_next it =
     (case it_field it of None \<Rightarrow> None
      | Some prev \<Rightarrow>
          if tag prev = 0 then Some (False, it)
          else (let it1 = it\<lparr>it_pos := Suc (it_pos it)\<rparr> in
            case it_field it1 of None \<Rightarrow> None
            | Some f \<Rightarrow>
                if tag f = 0
                then map_option (\<lambda>(_, it2). (False, it2)) (pb_field_iter_begin (it_start it) (dest_struct it))
                else if htype prev = PB_HTYPE_ONEOF \<and> htype f = PB_HTYPE_ONEOF \<and>
                        data_offset f = PB_SIZE_MAX
                then Some (True, it1)
                else
                  (let prev_size =
                         (if atype prev = PB_ATYPE_STATIC \<and> htype prev = PB_HTYPE_REPEATED
                          then uint (data_size prev) * uint (array_size prev)
                          else if atype prev = PB_ATYPE_POINTER then 8
                          else uint (data_size prev));
                       it2 = (if htype prev = PB_HTYPE_REQUIRED
                              then it1\<lparr>required_field_index := required_field_index it1 + 1\<rparr> else it1);
                       pd = pData it2 + prev_size + uint (data_offset f)
                   in Some (True, it2\<lparr>pData := pd, pSize := PSMem (pd + sint (size_offset f))\<rparr>))))"

partial_function (option) pb_field_iter_find_loop ::
  "nat \<Rightarrow> u32 \<Rightarrow> pb_field_iter \<Rightarrow> (bool \<times> pb_field_iter) option" where
  "pb_field_iter_find_loop start tg it =
     Option.bind (it_field it) (\<lambda>f.
       if tag f = tg \<and> ltype f \<noteq> PB_LTYPE_EXTENSION then Some (True, it)
       else Option.bind (pb_field_iter_next it) (\<lambda>(_, it').
         if it_pos it' \<noteq> start then pb_field_iter_find_loop start tg it' else Some (False, it')))"

declare pb_field_iter_find_loop.simps [code]

definition pb_field_iter_find :: "pb_field_iter \<Rightarrow> u32 \<Rightarrow> (bool \<times> pb_field_iter) option" where
  "pb_field_iter_find it tg = pb_field_iter_find_loop (it_pos it) tg it"

text \<open>
  \<open>do_fields body it s\<close> is \<open>do { body } while (pb_field_iter_next(&iter))\<close>, left early when the
  body returns false.
\<close>

lemma pb_field_iter_next_True:
  "pb_field_iter_next it = Some (True, it') \<Longrightarrow>
     it_start it' = it_start it \<and> it_pos it' = Suc (it_pos it) \<and> it_pos it' < length (it_start it)"
  by (auto simp: pb_field_iter_next_def it_field_def Let_def split: if_splits option.splits)

function do_fields :: "(pb_field_iter \<Rightarrow> 's \<Rightarrow> (bool \<times> 's) option) \<Rightarrow> pb_field_iter \<Rightarrow> 's \<Rightarrow> (bool \<times> 's) option" where
  "do_fields body it s =
     (case body it s of None \<Rightarrow> None
      | Some (ok, s') \<Rightarrow>
          if \<not> ok then Some (False, s')
          else (case pb_field_iter_next it of None \<Rightarrow> None
                | Some (more1, it') \<Rightarrow> if more1 then do_fields body it' s' else Some (True, s')))"
  by pat_completeness auto
termination
proof (relation "measure (\<lambda>(body, it, s). length (it_start it) - it_pos it)", simp)
  fix body :: "pb_field_iter \<Rightarrow> 's \<Rightarrow> (bool \<times> 's) option" and it s r ok s' r' more1 it'
  assume "pb_field_iter_next it = Some r'" "(more1, it') = r'" "more1"
  then have "it_start it' = it_start it" "it_pos it' = Suc (it_pos it)" "it_pos it' < length (it_start it)"
    using pb_field_iter_next_True [of it it'] by auto
  then show "((body, it', s'), body, it, s) \<in> measure (\<lambda>(body, it, s). length (it_start it) - it_pos it)"
    by auto
qed

declare do_fields.simps [simp del]

section \<open>Well-formed tables and the reference position of a field\<close>

text \<open>A table ends with the terminator and has no other entry with tag 0.\<close>

definition wf_table :: "pb_field list \<Rightarrow> bool" where
  "wf_table flds \<longleftrightarrow> flds \<noteq> [] \<and> tag (last flds) = 0 \<and> list_all (\<lambda>f. tag f \<noteq> 0) (butlast flds)"

definition nfields :: "pb_field list \<Rightarrow> nat" where
  "nfields flds = length flds - 1"

text \<open>
  The reference layout: the span of a field inside the structure, whether a field shares the
  storage of its predecessor (union members), and the offset of the data of field \<open>k\<close>.
\<close>

definition field_span :: "pb_field \<Rightarrow> int" where
  "field_span f =
     (if atype f = PB_ATYPE_STATIC \<and> htype f = PB_HTYPE_REPEATED
      then uint (data_size f) * uint (array_size f)
      else if atype f = PB_ATYPE_POINTER then 8
      else uint (data_size f))"

definition in_union :: "pb_field \<Rightarrow> pb_field \<Rightarrow> bool" where
  "in_union p f \<longleftrightarrow> htype p = PB_HTYPE_ONEOF \<and> htype f = PB_HTYPE_ONEOF \<and> data_offset f = PB_SIZE_MAX"

primrec field_offset :: "pb_field list \<Rightarrow> nat \<Rightarrow> int" where
  "field_offset flds 0 = uint (data_offset (flds ! 0))"
| "field_offset flds (Suc k) =
     (if in_union (flds ! k) (flds ! Suc k) then field_offset flds k
      else field_offset flds k + field_span (flds ! k) + uint (data_offset (flds ! Suc k)))"

text \<open>The size pointer belongs to the first member of a union.\<close>

primrec size_ptr_offset :: "pb_field list \<Rightarrow> nat \<Rightarrow> int" where
  "size_ptr_offset flds 0 = field_offset flds 0 + sint (size_offset (flds ! 0))"
| "size_ptr_offset flds (Suc k) =
     (if in_union (flds ! k) (flds ! Suc k) then size_ptr_offset flds k
      else field_offset flds (Suc k) + sint (size_offset (flds ! Suc k)))"

definition required_before :: "pb_field list \<Rightarrow> nat \<Rightarrow> nat" where
  "required_before flds k = length (filter (\<lambda>f. htype f = PB_HTYPE_REQUIRED) (take k flds))"

text \<open>The iterator at field \<open>k\<close> of a structure at \<open>dest\<close>.\<close>

definition iter_at :: "pb_field list \<Rightarrow> addr \<Rightarrow> nat \<Rightarrow> pb_field_iter" where
  "iter_at flds dest k =
     \<lparr>it_start = flds, it_pos = k, required_field_index = of_nat (required_before flds k),
      dest_struct = dest, pData = dest + field_offset flds k,
      pSize = PSMem (dest + size_ptr_offset flds k)\<rparr>"

lemma iter_at_simps [simp]:
  "it_start (iter_at flds dest k) = flds"
  "it_pos (iter_at flds dest k) = k"
  "dest_struct (iter_at flds dest k) = dest"
  "pData (iter_at flds dest k) = dest + field_offset flds k"
  "pSize (iter_at flds dest k) = PSMem (dest + size_ptr_offset flds k)"
  "required_field_index (iter_at flds dest k) = of_nat (required_before flds k)"
  by (simp_all add: iter_at_def)

lemma it_field_iter_at [simp]:
  "k < length flds \<Longrightarrow> it_field (iter_at flds dest k) = Some (flds ! k)"
  by (simp add: it_field_def)

section \<open>Correctness of the iterator\<close>

lemma wf_table_terminator: "wf_table flds \<Longrightarrow> tag (flds ! nfields flds) = 0"
  by (auto simp: wf_table_def nfields_def last_conv_nth)

lemma wf_table_field: "wf_table flds \<Longrightarrow> k < nfields flds \<Longrightarrow> tag (flds ! k) \<noteq> 0"
  by (simp add: wf_table_def nfields_def list_all_length nth_butlast)

lemma wf_table_length: "wf_table flds \<Longrightarrow> length flds = Suc (nfields flds)"
  by (auto simp: wf_table_def nfields_def)

lemma wf_table_tag_0: "wf_table flds \<Longrightarrow> k \<le> nfields flds \<Longrightarrow> tag (flds ! k) = 0 \<longleftrightarrow> k = nfields flds"
  using wf_table_terminator wf_table_field by (metis le_neq_implies_less)

lemma iter_begin_at:
  assumes "wf_table flds" and "dest \<noteq> 0"
  shows "pb_field_iter_begin flds dest = Some (nfields flds \<noteq> 0, iter_at flds dest 0)"
proof -
  obtain f fs where flds: "flds = f # fs" using assms(1) by (cases flds) (auto simp: wf_table_def)
  have "tag f = 0 \<longleftrightarrow> nfields flds = 0"
    using wf_table_tag_0 [OF assms(1), of 0] flds by auto
  then show ?thesis
    using assms(2) flds
    by (simp add: pb_field_iter_begin_def iter_at_def required_before_def Let_def add.assoc)
qed

lemma required_before_Suc:
  "k < length flds \<Longrightarrow>
     required_before flds (Suc k) =
       required_before flds k + (if htype (flds ! k) = PB_HTYPE_REQUIRED then 1 else 0)"
  by (simp add: required_before_def take_Suc_conv_app_nth)

lemma iter_next_at:
  assumes wf: "wf_table flds" and dest: "dest \<noteq> 0" and k: "k < nfields flds"
  shows "pb_field_iter_next (iter_at flds dest k) =
           Some (if Suc k < nfields flds then (True, iter_at flds dest (Suc k))
                 else (False, iter_at flds dest 0))"
proof (cases "Suc k < nfields flds")
  case True
  have len: "Suc k < length flds" using True wf_table_length [OF wf] by simp
  have "tag (flds ! Suc k) \<noteq> 0" "tag (flds ! k) \<noteq> 0"
    using wf_table_field [OF wf] True by auto
  then show ?thesis
    using len True
    by (auto simp: pb_field_iter_next_def it_field_def iter_at_def Let_def required_before_Suc
        in_union_def field_span_def algebra_simps)
next
  case False
  with k have "Suc k = nfields flds" by simp
  then show ?thesis
    using iter_begin_at [OF wf dest] wf_table_terminator [OF wf] wf_table_field [OF wf k] wf_table_length [OF wf]
    by (auto simp: pb_field_iter_next_def it_field_def Let_def)
qed

section \<open>Search\<close>

definition field_matches :: "pb_field list \<Rightarrow> u32 \<Rightarrow> nat \<Rightarrow> bool" where
  "field_matches flds tg j \<longleftrightarrow> tag (flds ! j) = tg \<and> ltype (flds ! j) \<noteq> PB_LTYPE_EXTENSION"

definition find_result :: "pb_field list \<Rightarrow> addr \<Rightarrow> nat \<Rightarrow> nat option \<Rightarrow> bool \<times> pb_field_iter" where
  "find_result flds dest k r =
     (case r of Some j \<Rightarrow> (True, iter_at flds dest j) | None \<Rightarrow> (False, iter_at flds dest k))"

lemma find_loop_step:
  assumes "wf_table flds" "dest \<noteq> 0" "i < nfields flds"
  shows "pb_field_iter_find_loop k tg (iter_at flds dest i) =
     (if field_matches flds tg i then Some (True, iter_at flds dest i)
      else (let j = (if Suc i < nfields flds then Suc i else 0) in
            if j = k then Some (False, iter_at flds dest k)
            else pb_field_iter_find_loop k tg (iter_at flds dest j)))"
  using assms wf_table_length [OF assms(1)]
  by (subst pb_field_iter_find_loop.simps) (auto simp: iter_next_at field_matches_def Let_def)

lemma find_loop_below:
  assumes "wf_table flds" "dest \<noteq> 0" "k < nfields flds" "i < k"
  shows "pb_field_iter_find_loop k tg (iter_at flds dest i) =
           Some (find_result flds dest k (find (field_matches flds tg) [i..<k]))"
  using assms(4)
proof (induction "k - i" arbitrary: i)
  case (Suc d)
  have i: "i < nfields flds" "Suc i < nfields flds" using Suc.prems assms(3) by auto
  show ?case
  proof (cases "Suc i = k")
    case True
    then show ?thesis
      using find_loop_step [OF assms(1,2) i(1), of k tg] i by (auto simp: find_result_def upt_rec [of i k])
  next
    case False
    then have "pb_field_iter_find_loop k tg (iter_at flds dest (Suc i)) =
        Some (find_result flds dest k (find (field_matches flds tg) [Suc i..<k]))"
      using Suc by simp
    then show ?thesis
      using find_loop_step [OF assms(1,2) i(1), of k tg] i False Suc.prems
      by (auto simp: find_result_def upt_rec [of i k])
  qed
qed simp

lemma find_loop_from:
  assumes "wf_table flds" "dest \<noteq> 0" "k \<le> i" "i < nfields flds"
  shows "pb_field_iter_find_loop k tg (iter_at flds dest i) =
           Some (find_result flds dest k (find (field_matches flds tg) ([i..<nfields flds] @ [0..<k])))"
  using assms(3,4)
proof (induction "nfields flds - i" arbitrary: i)
  case (Suc d)
  note step = find_loop_step [OF assms(1,2) Suc.prems(2), of k tg]
  show ?case
  proof (cases "Suc i < nfields flds")
    case True
    then have "pb_field_iter_find_loop k tg (iter_at flds dest (Suc i)) =
        Some (find_result flds dest k (find (field_matches flds tg) ([Suc i..<nfields flds] @ [0..<k])))"
      using Suc by simp
    then show ?thesis
      using step True Suc.prems by (auto simp: find_result_def upt_rec [of i "nfields flds"])
  next
    case False
    then have last: "[i..<nfields flds] = [i]" using Suc.prems(2) by (simp add: upt_rec)
    show ?thesis
    proof (cases "k = 0")
      case True
      then show ?thesis using step False last by (auto simp: find_result_def)
    next
      case k: False
      then have "pb_field_iter_find_loop k tg (iter_at flds dest 0) =
          Some (find_result flds dest k (find (field_matches flds tg) [0..<k]))"
        using Suc.prems by (intro find_loop_below [OF assms(1,2)]) auto
      then show ?thesis using step False last k by (auto simp: find_result_def)
    qed
  qed
qed simp

lemma iter_find_at:
  assumes "wf_table flds" "dest \<noteq> 0" "k < nfields flds"
  shows "pb_field_iter_find (iter_at flds dest k) tg =
           Some (find_result flds dest k (find (field_matches flds tg) ([k..<nfields flds] @ [0..<k])))"
  using find_loop_from [OF assms(1,2) order_refl assms(3)] by (simp add: pb_field_iter_find_def)

section \<open>The field loop\<close>

primrec run_list :: "('i \<Rightarrow> 's \<Rightarrow> (bool \<times> 's) option) \<Rightarrow> 'i list \<Rightarrow> 's \<Rightarrow> (bool \<times> 's) option" where
  "run_list body [] s = Some (True, s)"
| "run_list body (x # xs) s = and_then (body x s) (run_list body xs)"

lemma run_list_map: "run_list body (map g xs) s = run_list (\<lambda>x. body (g x)) xs s"
  by (induction xs arbitrary: s) (simp_all add: and_then_def split: option.split)

lemma do_fields_run:
  assumes "wf_table flds" "dest \<noteq> 0" "k < nfields flds"
  shows "do_fields body (iter_at flds dest k) s = run_list body (map (iter_at flds dest) [k..<nfields flds]) s"
  using assms(3)
proof (induction "nfields flds - k" arbitrary: k s)
  case (Suc d)
  show ?case
  proof (cases "Suc k < nfields flds")
    case True
    then have "do_fields body (iter_at flds dest (Suc k)) t =
        run_list body (map (iter_at flds dest) [Suc k..<nfields flds]) t" for t
      using Suc by simp
    then show ?thesis
      using Suc.prems True
      by (subst do_fields.simps)
        (auto simp: iter_next_at [OF assms(1,2)] upt_rec [of k] and_then_def split: option.splits)
  next
    case False
    then have "[k..<nfields flds] = [k]" using Suc.prems by (simp add: upt_rec)
    then show ?thesis
      using Suc.prems False
      by (subst do_fields.simps)
        (auto simp: iter_next_at [OF assms(1,2)] and_then_def split: option.splits)
  qed
qed simp

section \<open>Tables filled by the descriptor macros\<close>

text \<open>
  A message declaration is a list of macro invocations: the macro (\<open>PB_FIELD\<close> with its rules and
  allocation, \<open>PB_REPEATED_FIXED_COUNT\<close> or \<open>PB_ONEOF_FIELD\<close>), its placement, tag, data type and
  pointer, and the member of the C structure it describes. Each invocation names the member of the
  one before it, the first names its own; the table ends with \<open>PB_LAST_FIELD\<close>.
\<close>

datatype field_macro = M_FIELD field_rules field_alloc | M_FIXED_COUNT | M_ONEOF field_alloc

record field_decl =
  d_macro :: field_macro
  d_place :: placement
  d_tag :: u32
  d_ltype :: u8
  d_member :: member
  d_ptr :: addr

definition descriptor :: "field_decl \<Rightarrow> member \<Rightarrow> pb_field" where
  "descriptor d prev =
     (case d_macro d of
        M_FIELD rules alloc \<Rightarrow> PB_FIELD (d_tag d) (d_ltype d) rules alloc (d_place d) (d_member d) prev (d_ptr d)
      | M_FIXED_COUNT \<Rightarrow>
          PB_REPEATED_FIXED_COUNT (d_tag d) (d_member d) (PB_DATAOFFSET (d_place d) (d_member d) prev) (d_ltype d) (d_ptr d)
      | M_ONEOF alloc \<Rightarrow> PB_ONEOF_FIELD (d_tag d) (d_ltype d) alloc (d_place d) (d_member d) prev (d_ptr d))"

definition descriptor_table :: "field_decl list \<Rightarrow> pb_field list" where
  "descriptor_table ds =
     map (\<lambda>k. descriptor (ds ! k) (d_member (ds ! (k - 1)))) [0..<length ds] @ [PB_LAST_FIELD]"

text \<open>
  What the C compiler guarantees of the structure, and the generator of the placements. A member is
  not empty and lies in the first 2 GB; an array member is a whole number of elements; a pointer
  member has 8 bytes; members of a union have one offset and one \<open>which\<close> member; other members
  follow each other. \<open>OPTEXT\<close> descriptors belong to extension types, not to structures.
\<close>

definition is_array :: "field_decl \<Rightarrow> bool" where
  "is_array d \<longleftrightarrow> d_macro d \<in> set [M_FIELD R_REPEATED A_STATIC, M_FIXED_COUNT]"

definition is_pointer :: "field_decl \<Rightarrow> bool" where
  "is_pointer d \<longleftrightarrow> (case d_macro d of M_FIELD r a \<Rightarrow> a = A_POINTER | M_FIXED_COUNT \<Rightarrow> False | M_ONEOF a \<Rightarrow> a = A_POINTER)"

definition is_oneof :: "field_decl \<Rightarrow> bool" where
  "is_oneof d \<longleftrightarrow> d_macro d \<in> set [M_ONEOF A_STATIC, M_ONEOF A_POINTER]"

definition decl_ok :: "field_decl \<Rightarrow> bool" where
  "decl_ok d \<longleftrightarrow>
     d_tag d \<noteq> 0 \<and> d_ltype d \<le> PB_LTYPE_FIXED_LENGTH_BYTES \<and>
     0 < m_size (d_member d) \<and> int (m_offset (d_member d) + m_size (d_member d)) < 2 ^ 31 \<and>
     int (m_aux (d_member d)) < 2 ^ 31 \<and>
     (is_array d \<longrightarrow> m_elem (d_member d) \<noteq> 0 \<and> m_elem (d_member d) dvd m_size (d_member d)) \<and>
     (is_pointer d \<longrightarrow> m_size (d_member d) = 8) \<and>
     (case d_macro d of M_FIELD r a \<Rightarrow> r \<noteq> R_OPTEXT | M_FIXED_COUNT \<Rightarrow> True | M_ONEOF a \<Rightarrow> a \<noteq> A_CALLBACK)"

definition follows :: "field_decl \<Rightarrow> field_decl \<Rightarrow> bool" where
  "follows d e \<longleftrightarrow>
     (case d_place e of P_FIRST \<Rightarrow> False
      | P_OTHER \<Rightarrow> m_offset (d_member d) + m_size (d_member d) \<le> m_offset (d_member e)
      | P_UNION \<Rightarrow> is_oneof d \<and> is_oneof e \<and> m_offset (d_member e) = m_offset (d_member d) \<and>
          m_aux (d_member e) = m_aux (d_member d))"

definition struct_ok :: "field_decl list \<Rightarrow> bool" where
  "struct_ok ds \<longleftrightarrow>
     ds \<noteq> [] \<and> list_all decl_ok ds \<and> d_place (hd ds) = P_FIRST \<and>
     list_all (\<lambda>k. follows (ds ! k) (ds ! Suc k)) [0..<length ds - 1]"

text \<open>The member that says how much of a field is there: flag, count or \<open>which\<close>; else the field itself.\<close>

definition has_companion :: "field_decl \<Rightarrow> bool" where
  "has_companion d \<longleftrightarrow>
     d_macro d \<in> set [M_FIELD R_OPTIONAL A_STATIC, M_FIELD R_REPEATED A_STATIC, M_FIELD R_REPEATED A_POINTER] \<or> is_oneof d"

definition companion_offset :: "field_decl \<Rightarrow> nat" where
  "companion_offset d = (if has_companion d then m_aux (d_member d) else m_offset (d_member d))"

lemmas decl_kinds = is_array_def is_pointer_def is_oneof_def has_companion_def

text \<open>The type byte the macros build.\<close>

lemma type_byte:
  assumes "lt \<le> PB_LTYPE_FIXED_LENGTH_BYTES" "a \<in> set [PB_ATYPE_STATIC, PB_ATYPE_POINTER, PB_ATYPE_CALLBACK]"
    and "h \<in> set [PB_HTYPE_REQUIRED, PB_HTYPE_OPTIONAL, PB_HTYPE_REPEATED, PB_HTYPE_ONEOF]"
  shows "PB_ATYPE (a OR h OR lt) = a" "PB_HTYPE (a OR h OR lt) = h"
proof -
  have "lt \<le> PB_LTYPE_FIXED_LENGTH_BYTES \<longrightarrow>
      list_all (\<lambda>a. list_all (\<lambda>h. PB_ATYPE (a OR h OR lt) = a \<and> PB_HTYPE (a OR h OR lt) = h)
        [PB_HTYPE_REQUIRED, PB_HTYPE_OPTIONAL, PB_HTYPE_REPEATED, PB_HTYPE_ONEOF])
      [PB_ATYPE_STATIC, PB_ATYPE_POINTER, PB_ATYPE_CALLBACK]"
    by (rule all_u8D [of "\<lambda>lt. lt \<le> PB_LTYPE_FIXED_LENGTH_BYTES \<longrightarrow>
      list_all (\<lambda>a. list_all (\<lambda>h. PB_ATYPE (a OR h OR lt) = a \<and> PB_HTYPE (a OR h OR lt) = h)
        [PB_HTYPE_REQUIRED, PB_HTYPE_OPTIONAL, PB_HTYPE_REPEATED, PB_HTYPE_ONEOF])
      [PB_ATYPE_STATIC, PB_ATYPE_POINTER, PB_ATYPE_CALLBACK]"]) code_simp
  with assms show "PB_ATYPE (a OR h OR lt) = a" "PB_HTYPE (a OR h OR lt) = h"
    unfolding list_all_iff by blast+
qed

lemmas field_macros =
  PB_REQUIRED_STATIC_def PB_REQUIRED_POINTER_def PB_REQUIRED_CALLBACK_def PB_OPTIONAL_STATIC_def
  PB_OPTIONAL_POINTER_def PB_OPTIONAL_CALLBACK_def PB_SINGULAR_STATIC_def PB_SINGULAR_POINTER_def
  PB_SINGULAR_CALLBACK_def PB_REPEATED_STATIC_def PB_REPEATED_POINTER_def PB_REPEATED_CALLBACK_def
  PB_REPEATED_FIXED_COUNT_def PB_ONEOF_STATIC_def PB_ONEOF_POINTER_def PB_FIELD_def PB_ONEOF_FIELD_def

lemma uint_u32_nat: "n < 2 ^ 32 \<Longrightarrow> uint (of_nat n :: u32) = int n"
  by (simp add: unsigned_of_nat take_bit_nat_eq_self_iff)

lemma sint_delta: "m_aux m < 2 ^ 31 \<Longrightarrow> m_offset m < 2 ^ 31 \<Longrightarrow> sint (pb_delta m) = int (m_aux m) - int (m_offset m)"
  by (simp only: pb_delta_def sint_sbintrunc') (simp add: signed_take_bit_int_eq_self)

text \<open>Every macro fills the same record; only the bits and sizes differ.\<close>

definition decl_atype :: "field_decl \<Rightarrow> u8" where
  "decl_atype d = (if is_pointer d then PB_ATYPE_POINTER
     else case d_macro d of M_FIELD r a \<Rightarrow> (if a = A_CALLBACK then PB_ATYPE_CALLBACK else PB_ATYPE_STATIC) | _ \<Rightarrow> PB_ATYPE_STATIC)"

definition decl_htype :: "field_decl \<Rightarrow> u8" where
  "decl_htype d =
     (case d_macro d of
        M_FIELD r a \<Rightarrow> (case r of R_REQUIRED \<Rightarrow> PB_HTYPE_REQUIRED | R_REPEATED \<Rightarrow> PB_HTYPE_REPEATED | _ \<Rightarrow> PB_HTYPE_OPTIONAL)
      | M_FIXED_COUNT \<Rightarrow> PB_HTYPE_REPEATED | M_ONEOF a \<Rightarrow> PB_HTYPE_ONEOF)"

lemma descriptor_eq:
  assumes "decl_ok d"
  shows "descriptor d p =
    \<lparr>tag = d_tag d, ftype = decl_atype d OR decl_htype d OR d_ltype d,
     data_offset = PB_DATAOFFSET (d_place d) (d_member d) p,
     size_offset = (if has_companion d then pb_delta (d_member d) else 0),
     data_size = of_nat (if is_array d \<or> is_pointer d then m_elem (d_member d) else m_size (d_member d)),
     array_size = (if is_array d then pb_arraysize (d_member d) else 0), fptr = d_ptr d\<rparr>"
proof (cases "d_macro d")
  case (M_FIELD r a)
  then show ?thesis
    using assms by (cases r; cases a)
      (simp_all add: descriptor_def field_macros decl_kinds decl_atype_def decl_htype_def decl_ok_def)
next
  case (M_ONEOF a)
  then show ?thesis
    using assms by (cases a)
      (simp_all add: descriptor_def field_macros decl_kinds decl_atype_def decl_htype_def decl_ok_def)
qed (simp add: descriptor_def field_macros decl_kinds decl_atype_def decl_htype_def)

lemma descriptor_fields:
  assumes "decl_ok d"
  shows "data_offset (descriptor d p) = PB_DATAOFFSET (d_place d) (d_member d) p"
    "data_size (descriptor d p) = of_nat (if is_array d \<or> is_pointer d then m_elem (d_member d) else m_size (d_member d))"
    "array_size (descriptor d p) = (if is_array d then pb_arraysize (d_member d) else 0)"
    "size_offset (descriptor d p) = (if has_companion d then pb_delta (d_member d) else 0)"
    "tag (descriptor d p) = d_tag d"
  by (simp_all add: descriptor_eq [OF assms])

lemma descriptor_types:
  assumes "decl_ok d"
  shows "atype (descriptor d p) = decl_atype d" "htype (descriptor d p) = decl_htype d"
proof -
  have a: "decl_atype d \<in> set [PB_ATYPE_STATIC, PB_ATYPE_POINTER, PB_ATYPE_CALLBACK]"
    by (auto simp: decl_atype_def split: field_macro.split)
  have h: "decl_htype d \<in> set [PB_HTYPE_REQUIRED, PB_HTYPE_OPTIONAL, PB_HTYPE_REPEATED, PB_HTYPE_ONEOF]"
    by (auto simp: decl_htype_def split: field_macro.split field_rules.split)
  have lt: "d_ltype d \<le> PB_LTYPE_FIXED_LENGTH_BYTES" using assms by (simp add: decl_ok_def)
  show "atype (descriptor d p) = decl_atype d" "htype (descriptor d p) = decl_htype d"
    using type_byte [OF lt a h] by (simp_all add: descriptor_eq [OF assms])
qed

lemma descriptor_span:
  assumes "decl_ok d"
  shows "field_span (descriptor d p) = int (m_size (d_member d))"
proof -
  let ?m = "d_member d"
  have sz: "m_size ?m < 2 ^ 32" using assms by (simp add: decl_ok_def)
  have arr: "decl_atype d = PB_ATYPE_STATIC \<and> decl_htype d = PB_HTYPE_REPEATED \<longleftrightarrow> is_array d"
  proof (cases "d_macro d")
    case (M_FIELD r a)
    then show ?thesis by (cases r; cases a) (simp_all add: decl_atype_def decl_htype_def decl_kinds)
  qed (simp_all add: decl_atype_def decl_htype_def decl_kinds)
  have ptr: "decl_atype d = PB_ATYPE_POINTER \<longleftrightarrow> is_pointer d"
    by (auto simp: decl_atype_def split: field_macro.splits)
  consider (array) "is_array d" | (pointer) "\<not> is_array d" "is_pointer d" | (plain) "\<not> is_array d" "\<not> is_pointer d" by blast
  then show ?thesis
  proof cases
    case array
    then obtain k where k: "m_size ?m = m_elem ?m * k" "m_elem ?m \<noteq> 0" using assms by (auto simp: decl_ok_def)
    have "m_elem ?m \<le> m_size ?m" "k \<le> m_size ?m" using k assms by (auto simp: decl_ok_def)
    then have "uint (of_nat (m_elem ?m) :: u32) = int (m_elem ?m)" "uint (of_nat k :: u32) = int k"
      using sz by (simp_all add: uint_u32_nat)
    then show ?thesis
      using array arr k by (simp add: field_span_def descriptor_types [OF assms] descriptor_fields [OF assms] pb_arraysize_def del: unsigned_of_nat)
  next
    case pointer
    then show ?thesis
      using assms arr ptr by (simp add: field_span_def descriptor_types [OF assms] decl_ok_def)
  next
    case plain
    then show ?thesis
      using arr ptr sz uint_u32_nat by (auto simp: field_span_def descriptor_types [OF assms] descriptor_fields [OF assms] del: unsigned_of_nat)
  qed
qed

lemma descriptor_companion:
  assumes "decl_ok d"
  shows "int (m_offset (d_member d)) + sint (size_offset (descriptor d p)) = int (companion_offset d)"
  using assms sint_delta [of "d_member d"]
  by (simp add: descriptor_fields [OF assms] companion_offset_def decl_ok_def)

section \<open>The table of a structure\<close>

lemma struct_okD:
  assumes "struct_ok ds"
  shows "ds \<noteq> []" "k < length ds \<Longrightarrow> decl_ok (ds ! k)" "d_place (ds ! 0) = P_FIRST"
    "Suc k < length ds \<Longrightarrow> follows (ds ! k) (ds ! Suc k)"
  using assms by (auto simp: struct_ok_def list_all_iff hd_conv_nth)

lemma descriptor_table_simps [simp]:
  "length (descriptor_table ds) = Suc (length ds)" "nfields (descriptor_table ds) = length ds"
  "k < length ds \<Longrightarrow> descriptor_table ds ! k = descriptor (ds ! k) (d_member (ds ! (k - 1)))"
  by (simp_all add: descriptor_table_def nfields_def nth_append)

lemma descriptor_table_wf: "struct_ok ds \<Longrightarrow> wf_table (descriptor_table ds)"
  using struct_okD(2) by (fastforce simp: wf_table_def descriptor_table_def list_all_iff PB_LAST_FIELD_def descriptor_fields decl_ok_def)

lemma other_offset:
  assumes "m_offset m1 < 2 ^ 31" "m_offset m2 + m_size m2 \<le> m_offset m1"
  shows "uint (PB_DATAOFFSET_OTHER m1 m2) = int (m_offset m1) - int (m_offset m2) - int (m_size m2)"
  unfolding PB_DATAOFFSET_OTHER_def using assms by (intro uint_u32_id) auto

lemma decl_htype_oneof: "decl_ok d \<Longrightarrow> decl_htype d = PB_HTYPE_ONEOF \<longleftrightarrow> is_oneof d"
  unfolding decl_htype_def is_oneof_def decl_ok_def
  by (cases "d_macro d") (auto split: field_rules.splits intro: field_alloc.exhaust)

lemma union_place:
  assumes "decl_ok d" "decl_ok e" "follows d e"
  shows "in_union (descriptor d p) (descriptor e (d_member d)) \<longleftrightarrow> d_place e = P_UNION"
proof -
  have "d_place e \<noteq> P_FIRST" using assms(3) by (auto simp: follows_def)
  moreover have "PB_DATAOFFSET_OTHER (d_member e) (d_member d) \<noteq> PB_SIZE_MAX" if "d_place e = P_OTHER"
  proof
    assume "PB_DATAOFFSET_OTHER (d_member e) (d_member d) = PB_SIZE_MAX"
    then have "uint (PB_DATAOFFSET_OTHER (d_member e) (d_member d)) = 2 ^ 32 - 1"
      by (simp add: PB_SIZE_MAX_def unsigned_minus_1_eq_mask mask_eq_exp_minus_1)
    then show False
      using other_offset [of "d_member e" "d_member d"] assms that by (auto simp: follows_def decl_ok_def)
  qed
  ultimately show ?thesis
    using assms by (cases "d_place e")
      (auto simp: in_union_def descriptor_types descriptor_fields decl_htype_oneof follows_def PB_DATAOFFSET_UNION_def)
qed

lemma table_offsets:
  assumes ok: "struct_ok ds" and k: "k < length ds"
  shows "field_offset (descriptor_table ds) k = int (m_offset (d_member (ds ! k))) \<and>
    size_ptr_offset (descriptor_table ds) k = int (companion_offset (ds ! k))"
  using k
proof (induction k)
  case 0
  note d = struct_okD(2) [OF ok 0]
  show ?case
    using 0 descriptor_companion [OF d] d
    by (simp add: descriptor_fields struct_okD(3) [OF ok] PB_DATAOFFSET_FIRST_def uint_u32_nat decl_ok_def del: unsigned_of_nat)
next
  case (Suc k)
  let ?d = "ds ! k" and ?e = "ds ! Suc k" and ?T = "descriptor_table ds"
  have de: "decl_ok ?d" "decl_ok ?e" "follows ?d ?e" using Suc.prems struct_okD [OF ok] by simp_all
  have IH: "field_offset ?T k = int (m_offset (d_member ?d))" "size_ptr_offset ?T k = int (companion_offset ?d)"
    using Suc by simp_all
  have un: "in_union (?T ! k) (?T ! Suc k) \<longleftrightarrow> d_place ?e = P_UNION"
    using union_place [OF de] Suc.prems by simp
  show ?case
  proof (cases "d_place ?e = P_UNION")
    case True
    then have "m_offset (d_member ?e) = m_offset (d_member ?d)" "companion_offset ?e = companion_offset ?d"
      using de(3) by (simp_all add: follows_def companion_offset_def has_companion_def)
    then show ?thesis using un True IH by simp
  next
    case False
    then have "d_place ?e = P_OTHER" "m_offset (d_member ?d) + m_size (d_member ?d) \<le> m_offset (d_member ?e)"
      using de(3) by (auto simp: follows_def split: placement.splits)
    then have "field_offset ?T (Suc k) = int (m_offset (d_member ?e))"
      using un False IH Suc.prems de other_offset [of "d_member ?e" "d_member ?d"]
      by (simp add: descriptor_span descriptor_fields decl_ok_def)
    then show ?thesis
      using un False Suc.prems descriptor_companion [OF de(2)] by simp
  qed
qed

end
