(* ===== verification/Nanopb_Reference.thy ===== *)
theory Nanopb_Reference
  imports Nanopb_Common
begin

text \<open>
  The reference encoding: the protobuf wire format (\<open>leb128\<close>, \<open>zigzag\<close>, \<open>key_bytes\<close>, the wire type
  table) and \<open>msg_bytes\<close>, the byte string that encodes the message a descriptor table describes in
  memory. It is written against the wire format and the meaning of the descriptor (\<open>pb.h\<close>), field
  by field at the offsets of the reference layout, and uses no function of \<open>pb_encode.c\<close>: it has its
  own wire types, its own reading of integers (two's complement of little-endian bytes) and of C
  strings, and its own presence rule. Where it is \<^term>\<open>None\<close> nothing is claimed about the encoder.
\<close>

section \<open>The wire format\<close>

text \<open>Base 128 integers, least significant group first.\<close>

fun leb128 :: "nat \<Rightarrow> u8 list" where
  "leb128 n = (if n < 128 then [of_nat n] else of_nat (n mod 128 + 128) # leb128 (n div 128))"

declare leb128.simps [simp del]

text \<open>The zigzag map from integers to naturals.\<close>

definition zigzag :: "int \<Rightarrow> nat" where
  "zigzag i = nat (if i < 0 then - 2 * i - 1 else 2 * i)"

text \<open>A key is the field number with the wire type in its low three bits.\<close>

definition key_bytes :: "u32 \<Rightarrow> u32 \<Rightarrow> u8 list" where
  "key_bytes wt t = leb128 (8 * unat t + unat wt)"

text \<open>
  The wire types of the protobuf encoding: 0 for varints, 1 for eight bytes, 2 for anything with a
  length in front, 5 for four bytes.
\<close>

definition scalar_type :: "u8 \<Rightarrow> bool" where
  "scalar_type lt \<longleftrightarrow> lt \<in> set [PB_LTYPE_BOOL, PB_LTYPE_VARINT, PB_LTYPE_UVARINT, PB_LTYPE_SVARINT,
     PB_LTYPE_FIXED32, PB_LTYPE_FIXED64]"

definition proto_wire_type :: "u8 \<Rightarrow> u32 option" where
  "proto_wire_type lt =
     (if lt = PB_LTYPE_FIXED64 then Some 1
      else if lt = PB_LTYPE_FIXED32 then Some 5
      else if scalar_type lt then Some 0
      else if lt \<in> set [PB_LTYPE_BYTES, PB_LTYPE_STRING, PB_LTYPE_SUBMESSAGE, PB_LTYPE_FIXED_LENGTH_BYTES]
      then Some 2
      else None)"

text \<open>A length prefix; lengths are \<open>size_t\<close>.\<close>

definition delimited :: "u8 list \<Rightarrow> u8 list option" where
  "delimited bs = (if int (length bs) < 2 ^ 64 then Some (leb128 (length bs) @ bs) else None)"

primrec collect :: "('a \<Rightarrow> u8 list option) \<Rightarrow> 'a list \<Rightarrow> u8 list option" where
  "collect f [] = Some []"
| "collect f (x # xs) =
     (case f x of None \<Rightarrow> None
      | Some b \<Rightarrow> (case collect f xs of None \<Rightarrow> None | Some bs \<Rightarrow> Some (b @ bs)))"

section \<open>Values in memory\<close>

text \<open>Little-endian bytes as a number, unsigned and in two's complement.\<close>

primrec le_int :: "u8 list \<Rightarrow> int" where
  "le_int [] = 0"
| "le_int (b # bs) = uint b + 256 * le_int bs"

definition le_nat :: "u8 list \<Rightarrow> nat" where
  "le_nat bs = nat (le_int bs)"

definition twos_complement :: "u8 list \<Rightarrow> int" where
  "twos_complement bs =
     (if 2 * le_int bs < 256 ^ length bs then le_int bs else le_int bs - 256 ^ length bs)"

text \<open>The C string at an address, up to its terminator and at most \<open>n\<close> characters long.\<close>

primrec c_string :: "mem \<Rightarrow> addr \<Rightarrow> nat \<Rightarrow> u8 list option" where
  "c_string m p 0 = Some []"
| "c_string m p (Suc n) =
     (case m p of None \<Rightarrow> None
      | Some c \<Rightarrow> if c = 0 then Some [] else map_option ((#) c) (c_string m (p + 1) n))"

definition all_zero :: "u8 list \<Rightarrow> bool" where
  "all_zero bs \<longleftrightarrow> list_all (\<lambda>b. b = 0) bs"

section \<open>Presence\<close>

text \<open>
  When a field of a nested message holds nothing to send. The companion member decides where there
  is one (the element count, the \<open>which\<close> member of a union, the \<open>has\<close> flag); required fields and
  fixed count arrays always count as set. What is left is compared with the default value of the
  type: zero for scalars, empty for bytes and strings, null for pointers, every field unset for a
  submessage. \<open>pb_encode.c\<close> compares only \<open>data_size\<close> bytes of a pointer to a scalar; where these are
  all zero in a pointer that is not null, the reference is undefined.
\<close>

definition pointer_absent :: "mem \<Rightarrow> pb_field \<Rightarrow> addr \<Rightarrow> bool option" where
  "pointer_absent m f p =
     (case load_bytes m p 8 of None \<Rightarrow> None
      | Some bs \<Rightarrow>
          if scalar_type (ltype f) \<and>
             (8 < data_size f \<or> all_zero (take (unat (data_size f)) bs) \<and> \<not> all_zero bs) then None
          else Some (all_zero bs))"

definition value_absent :: "mem \<Rightarrow> pb_field \<Rightarrow> addr \<Rightarrow> bool option" where
  "value_absent m f p =
     (if atype f = PB_ATYPE_STATIC \<and> ltype f = PB_LTYPE_BYTES
      then map_option (\<lambda>bs. le_nat bs = 0) (load_bytes m p 4)
      else if atype f = PB_ATYPE_STATIC \<and> ltype f = PB_LTYPE_STRING then map_option (\<lambda>c. c = 0) (m p)
      else if atype f = PB_ATYPE_STATIC \<and> ltype f = PB_LTYPE_FIXED_LENGTH_BYTES then Some (data_size f = 0)
      else map_option all_zero (load_bytes m p (unat (data_size f))))"

primrec member_absent :: "nat \<Rightarrow> pb_env \<Rightarrow> mem \<Rightarrow> pb_field \<Rightarrow> addr \<Rightarrow> bool option" where
  "member_absent 0 E m f p = None"
| "member_absent (Suc n) E m f p =
     (let companion = p + sint (size_offset f) in
      if htype f = PB_HTYPE_REQUIRED then Some False
      else if htype f = PB_HTYPE_ONEOF \<or> htype f = PB_HTYPE_REPEATED \<and> size_offset f \<noteq> 0
      then map_option (\<lambda>bs. le_nat bs = 0) (load_bytes m companion 4)
      else if htype f = PB_HTYPE_REPEATED \<and> atype f = PB_ATYPE_STATIC then Some False
      else if size_offset f \<noteq> 0 then map_option (\<lambda>flag. flag = 0) (m companion)
      else if atype f = PB_ATYPE_POINTER then pointer_absent m f p
      else if atype f = PB_ATYPE_STATIC \<and> ltype f = PB_LTYPE_SUBMESSAGE
      then (let flds = fields_of E (fptr f) in
            if fptr f = 0 \<or> \<not> wf_table flds \<or> p = 0 then None
            else map_option (list_all (\<lambda>b. b))
                   (those (map (\<lambda>k. member_absent n E m (flds ! k) (p + field_offset flds k)) [0..<nfields flds])))
      else value_absent m f p)"

text \<open>
  Whether an optional field of the message itself is sent: by its flag, by its pointer, or, for
  proto3 fields, unless it holds the default value.
\<close>

definition member_present :: "nat \<Rightarrow> pb_env \<Rightarrow> mem \<Rightarrow> pb_field \<Rightarrow> addr \<Rightarrow> bool option" where
  "member_present n E m f p =
     (if size_offset f \<noteq> 0 then map_option (\<lambda>flag. flag \<noteq> 0) (m (p + sint (size_offset f)))
      else if atype f = PB_ATYPE_POINTER
      then (if n = 0 \<or> scalar_type (ltype f) \<and> 8 < data_size f then None
            else map_option (\<lambda>bs. \<not> all_zero bs) (load_bytes m p 8))
      else map_option Not (member_absent n E m f p))"

section \<open>Elements\<close>

definition int_bytes :: "(u8 list \<Rightarrow> nat) \<Rightarrow> mem \<Rightarrow> pb_field \<Rightarrow> addr \<Rightarrow> u8 list option" where
  "int_bytes value_of m f src =
     (if data_size f \<in> set [1, 2, 4, 8]
      then map_option (\<lambda>bs. leb128 (value_of bs)) (load_bytes m src (unat (data_size f)))
      else None)"

definition bytes_field_bytes :: "mem \<Rightarrow> pb_field \<Rightarrow> addr \<Rightarrow> u8 list option" where
  "bytes_field_bytes m f src =
     (if src = 0 then delimited []
      else Option.bind (map_option le_nat (load_bytes m src 4)) (\<lambda>sz.
        if atype f = PB_ATYPE_STATIC \<and> unat (data_size f) < 4 + sz then None
        else Option.bind (load_bytes m (src + 4) sz) delimited))"

definition string_field_bytes :: "mem \<Rightarrow> pb_field \<Rightarrow> addr \<Rightarrow> u8 list option" where
  "string_field_bytes m f src =
     (if src = 0 then delimited []
      else if atype f = PB_ATYPE_POINTER then Option.bind (c_string m src (2 ^ 64 - 1)) delimited
      else Option.bind (c_string m src (unat (data_size f))) delimited)"

definition elem_bytes :: "(pb_field list \<Rightarrow> addr \<Rightarrow> u8 list option) \<Rightarrow> pb_env \<Rightarrow> mem \<Rightarrow> pb_field \<Rightarrow> addr \<Rightarrow> u8 list option" where
  "elem_bytes sub E m f src =
     (if ltype f = PB_LTYPE_BOOL then map_option (\<lambda>b. if b = 0 then [0] else [1]) (m src)
      else if ltype f = PB_LTYPE_VARINT then int_bytes (\<lambda>bs. nat (twos_complement bs mod 2 ^ 64)) m f src
      else if ltype f = PB_LTYPE_UVARINT then int_bytes le_nat m f src
      else if ltype f = PB_LTYPE_SVARINT then int_bytes (\<lambda>bs. zigzag (twos_complement bs)) m f src
      else if ltype f = PB_LTYPE_FIXED32 then load_bytes m src 4
      else if ltype f = PB_LTYPE_FIXED64 then load_bytes m src 8
      else if ltype f = PB_LTYPE_BYTES then bytes_field_bytes m f src
      else if ltype f = PB_LTYPE_STRING then string_field_bytes m f src
      else if ltype f = PB_LTYPE_SUBMESSAGE
      then (if fptr f = 0 then None else Option.bind (sub (fields_of E (fptr f)) src) delimited)
      else if ltype f = PB_LTYPE_FIXED_LENGTH_BYTES
      then Option.bind (load_bytes m src (unat (data_size f))) delimited
      else None)"

section \<open>Fields\<close>

text \<open>A field with its key.\<close>

definition keyed :: "pb_field \<Rightarrow> u8 list option \<Rightarrow> u8 list option" where
  "keyed f r =
     (case proto_wire_type (ltype f) of None \<Rightarrow> None
      | Some wt \<Rightarrow> map_option ((@) (key_bytes wt (tag f))) r)"

primrec item_addrs :: "addr \<Rightarrow> u32 \<Rightarrow> nat \<Rightarrow> addr list" where
  "item_addrs p ds 0 = []"
| "item_addrs p ds (Suc n) = p # item_addrs (p + uint ds) ds n"

definition item_bytes :: "mem \<Rightarrow> pb_field \<Rightarrow> (addr \<Rightarrow> u8 list option) \<Rightarrow> addr \<Rightarrow> u8 list option" where
  "item_bytes m f elem p =
     keyed f
       (if atype f = PB_ATYPE_POINTER \<and> (ltype f = PB_LTYPE_STRING \<or> ltype f = PB_LTYPE_BYTES)
        then Option.bind (load_ptr m p) elem
        else elem p)"

text \<open>Arrays of scalars are packed under one length-delimited key (wire type 2).\<close>

definition array_bytes :: "mem \<Rightarrow> pb_field \<Rightarrow> (addr \<Rightarrow> u8 list option) \<Rightarrow> addr \<Rightarrow> nat \<Rightarrow> u8 list option" where
  "array_bytes m f elem pdata count =
     (if count = 0 then Some []
      else if atype f \<noteq> PB_ATYPE_POINTER \<and> unat (array_size f) < count then None
      else if scalar_type (ltype f)
      then map_option ((@) (key_bytes 2 (tag f)))
             (Option.bind (collect elem (item_addrs pdata (data_size f) count)) delimited)
      else collect (item_bytes m f elem) (item_addrs pdata (data_size f) count))"

definition basic_field_bytes :: "nat \<Rightarrow> (pb_field list \<Rightarrow> addr \<Rightarrow> u8 list option) \<Rightarrow> pb_env \<Rightarrow> mem \<Rightarrow> pb_field \<Rightarrow> addr \<Rightarrow> u8 list option" where
  "basic_field_bytes n sub E m f pdata0 =
     Option.bind (if atype f = PB_ATYPE_POINTER then load_ptr m pdata0 else Some pdata0) (\<lambda>pdata.
       let elem = elem_bytes sub E m f;
           companion = map_option le_nat (load_bytes m (pdata0 + sint (size_offset f)) 4) in
       if htype f = PB_HTYPE_REQUIRED then (if pdata = 0 then None else keyed f (elem pdata))
       else if htype f = PB_HTYPE_OPTIONAL
       then Option.bind (member_present n E m f pdata0) (\<lambda>has. if has then keyed f (elem pdata) else Some [])
       else if htype f = PB_HTYPE_REPEATED
       then Option.bind (if size_offset f \<noteq> 0 then companion else Some (unat (array_size f)))
              (array_bytes m f elem pdata)
       else if size_offset f \<noteq> 0
       then Option.bind companion (\<lambda>which. if which = unat (tag f) then keyed f (elem pdata) else Some [])
       else None)"

text \<open>User callbacks enter through a specification of the bytes they emit.\<close>

record cb_spec =
  cb_field :: "addr \<Rightarrow> pb_field \<Rightarrow> addr \<Rightarrow> mem \<Rightarrow> u8 list option"
  cb_ext :: "addr \<Rightarrow> addr \<Rightarrow> mem \<Rightarrow> u8 list option"

definition no_callbacks :: cb_spec where
  "no_callbacks = \<lparr>cb_field = (\<lambda>_ _ _ _. None), cb_ext = (\<lambda>_ _ _. None)\<rparr>"

definition field_bytes :: "nat \<Rightarrow> cb_spec \<Rightarrow> (pb_field list \<Rightarrow> addr \<Rightarrow> u8 list option) \<Rightarrow> pb_env \<Rightarrow> mem \<Rightarrow> pb_field \<Rightarrow> addr \<Rightarrow> u8 list option" where
  "field_bytes n C sub E m f pdata =
     (if atype f = PB_ATYPE_STATIC \<or> atype f = PB_ATYPE_POINTER then basic_field_bytes n sub E m f pdata
      else if atype f = PB_ATYPE_CALLBACK
      then Option.bind (load_ptr m pdata) (\<lambda>fn. if fn \<noteq> 0 then cb_field C fn f (pdata + 8) m else Some [])
      else None)"

section \<open>Extensions and messages\<close>

definition extension_bytes :: "nat \<Rightarrow> cb_spec \<Rightarrow> (pb_field list \<Rightarrow> addr \<Rightarrow> u8 list option) \<Rightarrow> pb_env \<Rightarrow> mem \<Rightarrow> addr \<Rightarrow> u8 list option" where
  "extension_bytes n C sub E m ext =
     Option.bind (load_ptr m ext) (\<lambda>ty.
     Option.bind (load_ptr m (ty + 8)) (\<lambda>fn.
       if fn \<noteq> 0 then cb_ext C fn ext m
       else Option.bind (load_ptr m (ty + 16)) (\<lambda>arg.
         case fields_of E arg of [] \<Rightarrow> None
         | f # _ \<Rightarrow>
             Option.bind (if atype f = PB_ATYPE_POINTER then Some (ext + 8) else load_ptr m (ext + 8))
               (field_bytes n C sub E m f))))"

partial_function (option) extension_chain :: "(addr \<Rightarrow> u8 list option) \<Rightarrow> mem \<Rightarrow> addr \<Rightarrow> u8 list option" where
  "extension_chain one m ext =
     (if ext = 0 then Some []
      else Option.bind (one ext) (\<lambda>b.
        Option.bind (load_ptr m (ext + 16)) (\<lambda>nxt.
          Option.bind (extension_chain one m nxt) (\<lambda>bs. Some (b @ bs)))))"

declare extension_chain.simps [code]

definition member_bytes :: "nat \<Rightarrow> cb_spec \<Rightarrow> (pb_field list \<Rightarrow> addr \<Rightarrow> u8 list option) \<Rightarrow> pb_env \<Rightarrow> mem \<Rightarrow> pb_field \<Rightarrow> addr \<Rightarrow> u8 list option" where
  "member_bytes n C sub E m f pdata =
     (if ltype f = PB_LTYPE_EXTENSION
      then Option.bind (load_ptr m pdata) (extension_chain (extension_bytes n C sub E m) m)
      else field_bytes n C sub E m f pdata)"

primrec msg_bytes :: "nat \<Rightarrow> cb_spec \<Rightarrow> pb_env \<Rightarrow> mem \<Rightarrow> pb_field list \<Rightarrow> addr \<Rightarrow> u8 list option" where
  "msg_bytes 0 C E m flds src = None"
| "msg_bytes (Suc n) C E m flds src =
     (if wf_table flds \<and> src \<noteq> 0
      then collect (\<lambda>k. member_bytes n C (msg_bytes n C E m) E m (flds ! k) (src + field_offset flds k))
             [0..<nfields flds]
      else None)"

end
