(* ===== verification/Nanopb_OStream.thy ===== *)
theory Nanopb_OStream
  imports Nanopb_Reference
begin

text \<open>
  Output streams and the primitive encoders of \<open>ios/Pods/nanopb/pb_encode.c\<close>: \<open>pb_write\<close>, variable
  length integers, zigzag integers, fixed width integers, tags and strings. The contract of all
  of them is \<open>emits\<close>: the function appends a fixed byte string, counts it on a sizing stream, and
  reports \<open>stream full\<close> without touching anything outside the buffer when there is no room.
\<close>

section \<open>Streams\<close>

definition wbuf_byte :: "mem \<Rightarrow> wbuf \<Rightarrow> nat \<Rightarrow> u8 option" where
  "wbuf_byte m buf i =
     (case buf of WNull \<Rightarrow> None
      | WLocal bs \<Rightarrow> if i < length bs then Some (bs ! i) else None
      | WMem a \<Rightarrow> m (a + int i))"

text \<open>\<open>for (i = 0; i < count; i++) dest[i] = buf[i];\<close>, byte by byte because the areas may overlap.\<close>

fun buf_write_loop :: "mem \<Rightarrow> addr \<Rightarrow> wbuf \<Rightarrow> nat \<Rightarrow> nat \<Rightarrow> mem option" where
  "buf_write_loop m dest buf i 0 = Some m"
| "buf_write_loop m dest buf i (Suc k) =
     (case wbuf_byte m buf i of None \<Rightarrow> None
      | Some b \<Rightarrow>
          if mapped m (dest + int i) 1 then buf_write_loop (m(dest + int i \<mapsto> b)) dest buf (Suc i) k
          else None)"

definition buf_write :: "pb_ostream \<Rightarrow> wbuf \<Rightarrow> u64 \<Rightarrow> mem \<Rightarrow> (bool \<times> pb_ostream \<times> mem) option" where
  "buf_write s buf count m =
     (case buf_write_loop m (os_state s) buf 0 (unat count) of None \<Rightarrow> None
      | Some m' \<Rightarrow> Some (True, s\<lparr>os_state := os_state s + uint count\<rparr>, m'))"

definition pb_ostream_from_buffer :: "addr \<Rightarrow> u64 \<Rightarrow> pb_ostream" where
  "pb_ostream_from_buffer buf bufsize =
     \<lparr>os_callback = OC_buf_write, os_state = buf, max_size = bufsize, bytes_written = 0,
      os_errmsg = None\<rparr>"

text \<open>The indirect call \<open>stream->callback(stream, buf, count)\<close>.\<close>

definition call_ostream_cb :: "pb_env \<Rightarrow> pb_ostream \<Rightarrow> wbuf \<Rightarrow> u64 \<Rightarrow> mem \<Rightarrow> (bool \<times> pb_ostream \<times> mem) option" where
  "call_ostream_cb E s buf count m =
     (case os_callback s of OC_null \<Rightarrow> None
      | OC_buf_write \<Rightarrow> buf_write s buf count m
      | OC_user k \<Rightarrow> ostream_cb E k s buf count m)"

definition pb_write :: "pb_env \<Rightarrow> wbuf \<Rightarrow> u64 \<Rightarrow> pb_ostream \<Rightarrow> mem \<Rightarrow> (bool \<times> pb_ostream \<times> mem) option" where
  "pb_write E buf count s m =
     (if 0 < count \<and> os_callback s \<noteq> OC_null
      then
        if bytes_written s + count < bytes_written s \<or> max_size s < bytes_written s + count
        then Some (False, os_set_error s ''stream full'', m)
        else
          (case call_ostream_cb E s buf count m of None \<Rightarrow> None
           | Some (ok, s', m') \<Rightarrow>
               if \<not> ok then Some (False, os_set_error s' ''io error'', m')
               else Some (True, s'\<lparr>bytes_written := bytes_written s' + count\<rparr>, m'))
      else Some (True, s\<lparr>bytes_written := bytes_written s + count\<rparr>, m))"

section \<open>Primitive encoders\<close>

text \<open>The loop \<open>while (value) { buffer[i] = (value & 0x7F) | 0x80; value >>= 7; i++; }\<close>.\<close>

lemma drop_bit_7_less: "v \<noteq> 0 \<Longrightarrow> unat (drop_bit 7 (v :: u64)) < unat v"
  by (simp add: unat_drop_bit_eq drop_bit_nat_def unat_gt_0 div_less_dividend)

function varint_loop :: "u64 \<Rightarrow> u8 list" where
  "varint_loop v =
     (if v = 0 then [] else (ucast (v AND 0x7F) OR 0x80) # varint_loop (drop_bit 7 v))"
  by pat_completeness auto
termination
  by (relation "measure unat") (use drop_bit_7_less in auto)

declare varint_loop.simps [simp del]

text \<open>\<open>buffer\<close> has ten bytes; more iterations would overflow it.\<close>

definition pb_encode_varint :: "pb_env \<Rightarrow> u64 \<Rightarrow> pb_ostream \<Rightarrow> mem \<Rightarrow> (bool \<times> pb_ostream \<times> mem) option" where
  "pb_encode_varint E value s m =
     (if value \<le> 0x7F then pb_write E (WLocal [ucast value]) 1 s m
      else
        (let buffer = varint_loop value; i = length buffer in
         if 10 < i then None
         else pb_write E (WLocal (buffer[i - 1 := buffer ! (i - 1) AND 0x7F])) (of_nat i) s m))"

definition pb_encode_svarint :: "pb_env \<Rightarrow> u64 \<Rightarrow> pb_ostream \<Rightarrow> mem \<Rightarrow> (bool \<times> pb_ostream \<times> mem) option" where
  "pb_encode_svarint E value s m =
     (let zigzagged = (if sint value < 0 then NOT (push_bit 1 value) else push_bit 1 value)
      in pb_encode_varint E zigzagged s m)"

definition pb_encode_fixed32 :: "pb_env \<Rightarrow> addr \<Rightarrow> pb_ostream \<Rightarrow> mem \<Rightarrow> (bool \<times> pb_ostream \<times> mem) option" where
  "pb_encode_fixed32 E value s m =
     (case load_u32 m value of None \<Rightarrow> None
      | Some val \<Rightarrow>
          pb_write E (WLocal [ucast (val AND 0xFF), ucast (drop_bit 8 val AND 0xFF),
            ucast (drop_bit 16 val AND 0xFF), ucast (drop_bit 24 val AND 0xFF)]) 4 s m)"

definition pb_encode_fixed64 :: "pb_env \<Rightarrow> addr \<Rightarrow> pb_ostream \<Rightarrow> mem \<Rightarrow> (bool \<times> pb_ostream \<times> mem) option" where
  "pb_encode_fixed64 E value s m =
     (case load_u64 m value of None \<Rightarrow> None
      | Some val \<Rightarrow>
          pb_write E (WLocal [ucast (val AND 0xFF), ucast (drop_bit 8 val AND 0xFF),
            ucast (drop_bit 16 val AND 0xFF), ucast (drop_bit 24 val AND 0xFF),
            ucast (drop_bit 32 val AND 0xFF), ucast (drop_bit 40 val AND 0xFF),
            ucast (drop_bit 48 val AND 0xFF), ucast (drop_bit 56 val AND 0xFF)]) 8 s m)"

definition pb_encode_tag :: "pb_env \<Rightarrow> u32 \<Rightarrow> u32 \<Rightarrow> pb_ostream \<Rightarrow> mem \<Rightarrow> (bool \<times> pb_ostream \<times> mem) option" where
  "pb_encode_tag E wiretype field_number s m =
     pb_encode_varint E (push_bit 3 (ucast field_number) OR ucast wiretype) s m"

text \<open>The switch of \<open>pb_encode_tag_for_field\<close>: the wire type of a data type.\<close>

definition wiretype_of :: "u8 \<Rightarrow> u32 option" where
  "wiretype_of lt =
     (if lt = PB_LTYPE_BOOL \<or> lt = PB_LTYPE_VARINT \<or> lt = PB_LTYPE_UVARINT \<or> lt = PB_LTYPE_SVARINT
      then Some PB_WT_VARINT
      else if lt = PB_LTYPE_FIXED32 then Some PB_WT_32BIT
      else if lt = PB_LTYPE_FIXED64 then Some PB_WT_64BIT
      else if lt = PB_LTYPE_BYTES \<or> lt = PB_LTYPE_STRING \<or> lt = PB_LTYPE_SUBMESSAGE \<or>
              lt = PB_LTYPE_FIXED_LENGTH_BYTES
      then Some PB_WT_STRING
      else None)"

definition pb_encode_tag_for_field :: "pb_env \<Rightarrow> pb_field \<Rightarrow> pb_ostream \<Rightarrow> mem \<Rightarrow> (bool \<times> pb_ostream \<times> mem) option" where
  "pb_encode_tag_for_field E f s m =
     (case wiretype_of (ltype f) of
        None \<Rightarrow> Some (False, os_set_error s ''invalid field type'', m)
      | Some wt \<Rightarrow> pb_encode_tag E wt (tag f) s m)"

definition pb_encode_string :: "pb_env \<Rightarrow> wbuf \<Rightarrow> u64 \<Rightarrow> pb_ostream \<Rightarrow> mem \<Rightarrow> (bool \<times> pb_ostream \<times> mem) option" where
  "pb_encode_string E buffer sz s m =
     and_then (pb_encode_varint E sz s m) (\<lambda>(s, m). pb_write E buffer sz s m)"

section \<open>The contract of an encoder\<close>

type_synonym emitter = "pb_ostream \<Rightarrow> mem \<Rightarrow> (bool \<times> pb_ostream \<times> mem) option"

definition room :: "pb_ostream \<Rightarrow> nat" where
  "room s = unat (max_size s) - unat (bytes_written s)"

text \<open>
  A buffer stream that has not failed and can be written without touching the message: \<open>m0\<close> is the memory the
  message is read from, \<open>m\<close> the whole memory, and the rest of the buffer is mapped and disjoint
  from \<open>m0\<close>.
\<close>

definition obuf_ok :: "mem \<Rightarrow> pb_ostream \<Rightarrow> mem \<Rightarrow> bool" where
  "obuf_ok m0 s m \<longleftrightarrow>
     os_callback s = OC_buf_write \<and> os_errmsg s = None \<and> bytes_written s \<le> max_size s \<and> m0 \<subseteq>\<^sub>m m \<and>
     mapped m (os_state s) (room s) \<and> region (os_state s) (room s) \<inter> dom m0 = {}"

definition advance :: "pb_ostream \<Rightarrow> nat \<Rightarrow> pb_ostream" where
  "advance s n = s\<lparr>os_state := os_state s + int n, bytes_written := bytes_written s + of_nat n\<rparr>"

definition count_only :: "pb_ostream \<Rightarrow> nat \<Rightarrow> pb_ostream" where
  "count_only s n = s\<lparr>bytes_written := bytes_written s + of_nat n\<rparr>"

text \<open>The outcome on a stream that is too short.\<close>

definition overflows :: "pb_ostream \<Rightarrow> mem \<Rightarrow> (bool \<times> pb_ostream \<times> mem) option \<Rightarrow> bool" where
  "overflows s m r \<longleftrightarrow>
     (\<exists>s' m'. r = Some (False, s', m') \<and>
        os_errmsg s' = Some ''stream full'' \<and>
        dom m' = dom m \<and> (\<forall>x. x \<notin> region (os_state s) (room s) \<longrightarrow> m' x = m x))"

definition emits :: "emitter \<Rightarrow> mem \<Rightarrow> u8 list \<Rightarrow> bool" where
  "emits f m0 bs \<longleftrightarrow>
     (\<forall>s m. os_callback s = OC_null \<longrightarrow> m0 \<subseteq>\<^sub>m m \<longrightarrow> unat (bytes_written s) + length bs < 2 ^ 64 \<longrightarrow>
        f s m = Some (True, count_only s (length bs), m)) \<and>
     (\<forall>s m. obuf_ok m0 s m \<longrightarrow> length bs \<le> room s \<longrightarrow>
        f s m = Some (True, advance s (length bs), put_bytes m (os_state s) bs)) \<and>
     (\<forall>s m. obuf_ok m0 s m \<longrightarrow> room s < length bs \<longrightarrow> unat (bytes_written s) + length bs < 2 ^ 64 \<longrightarrow>
        overflows s m (f s m))"

lemma emits_sizing:
  "emits f m0 bs \<Longrightarrow> os_callback s = OC_null \<Longrightarrow> m0 \<subseteq>\<^sub>m m \<Longrightarrow> unat (bytes_written s) + length bs < 2 ^ 64 \<Longrightarrow>
     f s m = Some (True, count_only s (length bs), m)"
  by (simp add: emits_def)

lemma emits_room:
  "emits f m0 bs \<Longrightarrow> obuf_ok m0 s m \<Longrightarrow> length bs \<le> room s \<Longrightarrow>
     f s m = Some (True, advance s (length bs), put_bytes m (os_state s) bs)"
  by (simp add: emits_def)

lemma emits_full:
  "emits f m0 bs \<Longrightarrow> obuf_ok m0 s m \<Longrightarrow> room s < length bs \<Longrightarrow> unat (bytes_written s) + length bs < 2 ^ 64 \<Longrightarrow>
     overflows s m (f s m)"
  by (simp add: emits_def)

lemma emitsI:
  assumes "\<And>s m. os_callback s = OC_null \<Longrightarrow> m0 \<subseteq>\<^sub>m m \<Longrightarrow> unat (bytes_written s) + length bs < 2 ^ 64 \<Longrightarrow>
      f s m = Some (True, count_only s (length bs), m)"
    and "\<And>s m. obuf_ok m0 s m \<Longrightarrow> length bs \<le> room s \<Longrightarrow>
      f s m = Some (True, advance s (length bs), put_bytes m (os_state s) bs)"
    and "\<And>s m. obuf_ok m0 s m \<Longrightarrow> room s < length bs \<Longrightarrow> unat (bytes_written s) + length bs < 2 ^ 64 \<Longrightarrow>
      overflows s m (f s m)"
  shows "emits f m0 bs"
  using assms by (simp add: emits_def)

lemma emits_cong: "(\<And>s m. m0 \<subseteq>\<^sub>m m \<Longrightarrow> f s m = g s m) \<Longrightarrow> emits g m0 bs \<Longrightarrow> emits f m0 bs"
  by (auto simp: emits_def obuf_ok_def)

subsection \<open>Advancing a buffer stream\<close>

lemma obuf_le: "obuf_ok m0 s m \<Longrightarrow> unat (bytes_written s) + room s = unat (max_size s)"
  by (auto simp: obuf_ok_def room_def word_le_nat_alt)

lemma advance_simps [simp]:
  "os_callback (advance s n) = os_callback s" "max_size (advance s n) = max_size s"
  "os_state (advance s n) = os_state s + int n" "os_errmsg (advance s n) = os_errmsg s"
  "bytes_written (advance s n) = bytes_written s + of_nat n"
  "advance (advance s i) j = advance s (i + j)" "advance s 0 = s"
  by (simp_all add: advance_def algebra_simps)

lemma count_only_simps [simp]:
  "os_callback (count_only s n) = os_callback s" "max_size (count_only s n) = max_size s"
  "os_state (count_only s n) = os_state s" "os_errmsg (count_only s n) = os_errmsg s"
  "bytes_written (count_only s n) = bytes_written s + of_nat n"
  "count_only (count_only s i) j = count_only s (i + j)" "count_only s 0 = s"
  by (simp_all add: count_only_def algebra_simps)

lemma written_advance:
  assumes "obuf_ok m0 s m" "n \<le> room s"
  shows "unat (bytes_written s + of_nat n) = unat (bytes_written s) + n"
proof -
  have "unat (bytes_written s) + n < 2 ^ 64"
    using obuf_le [OF assms(1)] assms(2) unat_u64_lt [of "max_size s"] by simp
  then show ?thesis by (simp add: unat_u64_add unat_u64_of_nat)
qed

lemma room_advance: "obuf_ok m0 s m \<Longrightarrow> n \<le> room s \<Longrightarrow> room (advance s n) = room s - n"
  using written_advance [of m0 s m n] by (simp add: room_def)

lemma obuf_ok_advance:
  assumes ok: "obuf_ok m0 s m" and n: "length bs \<le> room s"
  shows "obuf_ok m0 (advance s (length bs)) (put_bytes m (os_state s) bs)"
proof -
  have dj: "region (os_state s) (room s) \<inter> dom m0 = {}" and mp: "mapped m (os_state s) (room s)"
    and le: "m0 \<subseteq>\<^sub>m m" and cb: "os_callback s = OC_buf_write" "os_errmsg s = None"
    using ok by (simp_all add: obuf_ok_def)
  have sub: "region (os_state s) (length bs) \<inter> dom m0 = {}"
    using n by (intro region_disjoint_sub [OF dj]) simp_all
  have sub': "region (os_state s + int (length bs)) (room s - length bs) \<inter> dom m0 = {}"
    using n by (intro region_disjoint_sub [OF dj]) simp_all
  have "bytes_written s + of_nat (length bs) \<le> max_size s"
    using written_advance [OF ok n] obuf_le [OF ok] n by (simp add: word_le_nat_alt)
  moreover have "mapped (put_bytes m (os_state s) bs) (os_state s + int (length bs)) (room s - length bs)"
    using n by (intro mapped_put_bytes mapped_sub [OF mp]) simp_all
  ultimately show ?thesis
    using cb sub' map_le_put_bytes [OF le sub]
    by (simp add: obuf_ok_def room_advance [OF ok n])
qed

lemma unat_sizing:
  "unat (bytes_written s) + n < 2 ^ 64 \<Longrightarrow> unat (bytes_written (count_only s n)) = unat (bytes_written s) + n"
  by (simp add: unat_u64_add unat_u64_of_nat)

subsection \<open>Composition\<close>

lemma emits_nil: "emits (\<lambda>s m. Some (True, s, m)) m0 []"
  by (rule emitsI) auto

lemma emits_seq:
  assumes f: "emits f m0 xs" and g: "emits g m0 ys"
  shows "emits (\<lambda>s m. and_then (f s m) (\<lambda>(s, m). g s m)) m0 (xs @ ys)"
proof (rule emitsI)
  fix s :: pb_ostream and m assume s: "os_callback s = OC_null" "m0 \<subseteq>\<^sub>m m" "unat (bytes_written s) + length (xs @ ys) < 2 ^ 64"
  then have "f s m = Some (True, count_only s (length xs), m)"
    by (intro emits_sizing [OF f]) auto
  moreover have "g (count_only s (length xs)) m = Some (True, count_only (count_only s (length xs)) (length ys), m)"
    using s unat_sizing [of s "length xs"] by (intro emits_sizing [OF g]) auto
  ultimately show "and_then (f s m) (\<lambda>(s, m). g s m) = Some (True, count_only s (length (xs @ ys)), m)"
    by simp
next
  fix s :: pb_ostream and m assume s: "obuf_ok m0 s m" "length (xs @ ys) \<le> room s"
  then have xs: "length xs \<le> room s" by simp
  then have "f s m = Some (True, advance s (length xs), put_bytes m (os_state s) xs)"
    using s by (intro emits_room [OF f]) auto
  moreover have "g (advance s (length xs)) (put_bytes m (os_state s) xs) =
      Some (True, advance (advance s (length xs)) (length ys),
        put_bytes (put_bytes m (os_state s) xs) (os_state (advance s (length xs))) ys)"
    using s xs obuf_ok_advance [OF s(1) xs] room_advance [OF s(1) xs] by (intro emits_room [OF g]) auto
  ultimately show "and_then (f s m) (\<lambda>(s, m). g s m) =
      Some (True, advance s (length (xs @ ys)), put_bytes m (os_state s) (xs @ ys))"
    by (simp add: put_bytes_append)
next
  fix s :: pb_ostream and m assume s: "obuf_ok m0 s m" "room s < length (xs @ ys)"
    "unat (bytes_written s) + length (xs @ ys) < 2 ^ 64"
  show "overflows s m (and_then (f s m) (\<lambda>(s, m). g s m))"
  proof (cases "room s < length xs")
    case True
    then show ?thesis
      using emits_full [OF f s(1)] s(3) by (auto simp: overflows_def)
  next
    case False
    then have xs: "length xs \<le> room s" by simp
    let ?s = "advance s (length xs)" and ?m = "put_bytes m (os_state s) xs"
    have "f s m = Some (True, ?s, ?m)" using s xs by (intro emits_room [OF f]) auto
    moreover have "overflows ?s ?m (g ?s ?m)"
      using s xs room_advance [OF s(1) xs] obuf_ok_advance [OF s(1) xs] written_advance [OF s(1) xs]
      by (intro emits_full [OF g]) auto
    then obtain s' m' where g': "g ?s ?m = Some (False, s', m')"
        "os_errmsg s' = Some ''stream full''"
        "dom m' = dom ?m" and fr: "\<And>x. x \<notin> region (os_state ?s) (room ?s) \<Longrightarrow> m' x = ?m x"
      by (auto simp: overflows_def)
    moreover have "dom ?m = dom m"
      using s(1) xs by (auto simp: obuf_ok_def mapped_iff subset_iff)
    moreover have "m' x = m x" if "x \<notin> region (os_state s) (room s)" for x
      using that fr [of x] xs room_advance [OF s(1) xs] by (auto simp: put_bytes_apply)
    ultimately show ?thesis
      by (simp add: overflows_def)
  qed
qed

section \<open>Writing\<close>

text \<open>\<open>wbuf_reads m0 buf bs\<close>: the buffer argument holds \<open>bs\<close>, in memory that is part of \<open>m0\<close>.\<close>

definition wbuf_reads :: "mem \<Rightarrow> wbuf \<Rightarrow> u8 list \<Rightarrow> bool" where
  "wbuf_reads m0 buf bs \<longleftrightarrow>
     (case buf of WNull \<Rightarrow> bs = [] | WLocal xs \<Rightarrow> bs = xs | WMem a \<Rightarrow> load_bytes m0 a (length bs) = Some bs)"

lemma wbuf_byte_reads:
  assumes "wbuf_reads m0 buf bs" "m0 \<subseteq>\<^sub>m m" "i < length bs"
  shows "wbuf_byte m buf i = Some (bs ! i)"
proof (cases buf)
  case (WMem a)
  then have "load_bytes m a (length bs) = Some bs"
    using assms load_bytes_mono by (simp add: wbuf_reads_def)
  with WMem assms(3) show ?thesis by (simp add: wbuf_byte_def load_bytes_eq_Some)
qed (use assms in \<open>auto simp: wbuf_byte_def wbuf_reads_def\<close>)

lemma buf_write_loop_put:
  assumes "wbuf_reads m0 buf bs" "m0 \<subseteq>\<^sub>m m" "region dest (length bs) \<inter> dom m0 = {}"
    "mapped m dest (length bs)" "i + k = length bs"
  shows "buf_write_loop m dest buf i k = Some (put_bytes m (dest + int i) (drop i bs))"
  using assms(2,4,5)
proof (induction k arbitrary: i m)
  case (Suc k)
  let ?m = "m(dest + int i \<mapsto> bs ! i)"
  have i: "i < length bs" using Suc.prems(3) by simp
  have "mapped m (dest + int i) 1"
    by (rule mapped_sub [OF Suc.prems(2)]) (use i in auto)
  moreover have "buf_write_loop ?m dest buf (Suc i) k = Some (put_bytes ?m (dest + int (Suc i)) (drop (Suc i) bs))"
  proof (rule Suc.IH)
    have "dest + int i \<notin> dom m0" using assms(3) i by (auto simp: disjoint_iff)
    then show "m0 \<subseteq>\<^sub>m ?m" using Suc.prems(1) by (auto simp: map_le_def)
    show "mapped ?m dest (length bs)" using Suc.prems(2) by (auto simp: mapped_iff)
  qed (use Suc.prems(3) in simp)
  ultimately show ?case
    using wbuf_byte_reads [OF assms(1) Suc.prems(1) i] i
    by (simp add: Cons_nth_drop_Suc [symmetric] algebra_simps)
qed simp

lemma buf_write_loop_0:
  assumes "wbuf_reads m0 buf bs" "m0 \<subseteq>\<^sub>m m" "region dest (length bs) \<inter> dom m0 = {}" "mapped m dest (length bs)"
  shows "buf_write_loop m dest buf 0 (length bs) = Some (put_bytes m dest bs)"
  using buf_write_loop_put [OF assms, of 0 "length bs"] by simp

lemma pb_write_sizing:
  "os_callback s = OC_null \<Longrightarrow> pb_write E buf n s m = Some (True, count_only s (unat n), m)"
  by (simp add: pb_write_def count_only_def)

lemma pb_write_emits:
  assumes "wbuf_reads m0 buf bs" "length bs < 2 ^ 64"
  shows "emits (pb_write E buf (of_nat (length bs))) m0 bs"
proof (rule emitsI)
  fix s :: pb_ostream and m
  assume "os_callback s = OC_null"
  then show "pb_write E buf (of_nat (length bs)) s m = Some (True, count_only s (length bs), m)"
    using assms(2) by (simp add: pb_write_sizing unat_u64_of_nat)
next
  fix s :: pb_ostream and m
  assume ok: "obuf_ok m0 s m" and le: "length bs \<le> room s"
  have dj: "region (os_state s) (length bs) \<inter> dom m0 = {}"
    using ok le by - (rule region_disjoint_sub [of "os_state s" "room s" "dom m0"], simp_all add: obuf_ok_def)
  have mp: "mapped m (os_state s) (length bs)"
    using ok le by - (rule mapped_sub [of m "os_state s" "room s" "os_state s" "length bs"], simp_all add: obuf_ok_def)
  have w: "unat (bytes_written s + of_nat (length bs)) = unat (bytes_written s) + length bs"
    using written_advance [OF ok le] .
  then have "\<not> bytes_written s + of_nat (length bs) < bytes_written s"
    "\<not> max_size s < bytes_written s + of_nat (length bs)"
    using obuf_le [OF ok] le by (auto simp: word_less_nat_alt)
  moreover have "uint (of_nat (length bs) :: u64) = int (length bs)"
    using unat_u64_of_nat [OF assms(2)] by (metis uint_nat)
  moreover have "m0 \<subseteq>\<^sub>m m" "os_callback s = OC_buf_write" using ok by (simp_all add: obuf_ok_def)
  moreover have "0 < (of_nat (length bs) :: u64)" if "bs \<noteq> []"
    using unat_u64_of_nat [OF assms(2)] that by (simp add: word_less_nat_alt)
  ultimately show "pb_write E buf (of_nat (length bs)) s m =
      Some (True, advance s (length bs), put_bytes m (os_state s) bs)"
    using buf_write_loop_0 [OF assms(1) _ dj mp] unat_u64_of_nat [OF assms(2)]
    by (cases "bs = []") (simp_all add: pb_write_def call_ostream_cb_def buf_write_def advance_def)
next
  fix s :: pb_ostream and m
  assume ok: "obuf_ok m0 s m" and gt: "room s < length bs"
  have "bytes_written s + of_nat (length bs) < bytes_written s \<or>
      max_size s < bytes_written s + of_nat (length bs)"
  proof (cases "unat (bytes_written s) + unat (of_nat (length bs) :: u64) < 2 ^ 64")
    case True
    then show ?thesis
      using unat_u64_add [OF True] obuf_le [OF ok] gt unat_u64_of_nat [OF assms(2)]
      by (simp add: word_less_nat_alt)
  next
    case False
    then show ?thesis
      using unat_u64_add_wrap [of "bytes_written s" "of_nat (length bs)"] by (simp add: word_less_nat_alt)
  qed
  moreover have "0 < (of_nat (length bs) :: u64)"
    using unat_u64_of_nat [OF assms(2)] gt by (auto simp: word_less_nat_alt)
  ultimately show "overflows s m (pb_write E buf (of_nat (length bs)) s m)"
    using ok by (simp add: pb_write_def overflows_def obuf_ok_def os_set_error_def)
qed

section \<open>Variable length integers\<close>

lemma leb128_not_Nil [simp]: "leb128 n \<noteq> []"
  by (subst leb128.simps) simp

lemma leb128_length: "n < 2 ^ (7 * Suc k) \<Longrightarrow> length (leb128 n) \<le> Suc k"
proof (induction k arbitrary: n)
  case 0
  then show ?case by (subst leb128.simps) simp
next
  case (Suc k)
  have "n div 128 < 2 ^ (7 * Suc k)"
    using Suc.prems by (simp add: less_mult_imp_div_less power_add)
  then show ?case using Suc.IH by (subst leb128.simps) simp
qed

lemma leb128_length_u64: "length (leb128 (unat (v :: u64))) \<le> 10"
  using leb128_length [of "unat v" 9] unat_u64_lt [of v] by simp

lemma low7: "(ucast (v AND 0x7F) :: u8) = of_nat (unat (v :: u64) mod 128)"
proof -
  have "v AND 0x7F = take_bit 7 v" by (simp add: take_bit_eq_mask mask_eq_exp_minus_1)
  moreover have "unat (ucast (take_bit 7 v) :: u8) = unat v mod 128"
    by (simp add: unsigned_ucast_eq unsigned_take_bit_eq take_bit_eq_mod unat_mod)
  ultimately show ?thesis by (metis of_nat_unat ucast_id)
qed

lemma byte_or_128:
  assumes "n < 128"
  shows "(of_nat n OR 0x80 :: u8) = of_nat (n + 128)"
proof -
  have "list_all (\<lambda>n. (of_nat n OR 0x80 :: u8) = of_nat (n + 128)) [0..<128]" by code_simp
  then have "\<forall>n \<in> set [0..<128]. (of_nat n OR 0x80 :: u8) = of_nat (n + 128)"
    by (simp only: list_all_iff)
  with assms show ?thesis by simp
qed

lemma varint_loop_last:
  assumes "v \<noteq> 0"
  shows "varint_loop v \<noteq> [] \<and>
    (varint_loop v)[length (varint_loop v) - 1 := varint_loop v ! (length (varint_loop v) - 1) AND 0x7F]
      = leb128 (unat v)"
  using assms
proof (induction v rule: varint_loop.induct)
  case (1 v)
  let ?v = "drop_bit 7 v" and ?b = "ucast (v AND 0x7F) OR 0x80 :: u8"
  have b: "?b = of_nat (unat v mod 128 + 128)"
    by (simp add: low7 byte_or_128)
  have step: "varint_loop v = ?b # varint_loop ?v"
    using "1.prems" by (subst varint_loop.simps) simp
  have dv: "unat ?v = unat v div 128"
    by (simp add: unat_drop_bit_eq drop_bit_eq_div unat_div)
  show ?case
  proof (cases "unat v < 128")
    case True
    then have "?v = 0" using dv by (simp add: unat_eq_zero [symmetric] del: unat_eq_zero)
    then have loop: "varint_loop v = [?b]" using step by (simp add: varint_loop.simps)
    have "?b AND 0x7F = of_nat (unat v)"
    proof -
      have "?b AND 0x7F = ucast (v AND 0x7F) AND 0x7F"
        by (simp add: bit.conj_disj_distrib2)
      also have "\<dots> = ucast (v AND 0x7F)"
        by (rule bit_word_eqI) (auto simp: bit_simps)
      finally show ?thesis using True by (simp add: low7)
    qed
    then show ?thesis using True loop by (simp add: leb128.simps [of "unat v"])
  next
    case False
    then have "?v \<noteq> 0" using dv by (metis div_greater_zero_iff unat_0 neq0_conv not_less zero_less_numeral less_irrefl_nat)
    then have "varint_loop ?v \<noteq> []" and
      "(varint_loop ?v)[length (varint_loop ?v) - 1 := varint_loop ?v ! (length (varint_loop ?v) - 1) AND 0x7F]
         = leb128 (unat ?v)"
      using "1.IH" "1.prems" by auto
    then show ?thesis
      using False step b dv by (cases "varint_loop ?v") (simp_all add: leb128.simps [of "unat v"])
  qed
qed

lemma pb_encode_varint_eq:
  "pb_encode_varint E v = pb_write E (WLocal (leb128 (unat v))) (of_nat (length (leb128 (unat v))))"
proof (intro ext)
  fix s m
  show "pb_encode_varint E v s m =
      pb_write E (WLocal (leb128 (unat v))) (of_nat (length (leb128 (unat v)))) s m"
  proof (cases "v \<le> 0x7F")
    case True
    then have "unat v < 128" by (simp add: word_le_nat_alt)
    moreover have "(ucast v :: u8) = of_nat (unat v)" by simp
    ultimately show ?thesis
      using True by (simp add: pb_encode_varint_def leb128.simps [of "unat v"])
  next
    case False
    then have "v \<noteq> 0" by auto
    note loop = varint_loop_last [OF this]
    then have len: "length (varint_loop v) = length (leb128 (unat v))"
      by (metis length_list_update)
    then show ?thesis
      using False loop leb128_length_u64 [of v] by (simp add: pb_encode_varint_def Let_def)
  qed
qed

lemma pb_encode_varint_emits: "emits (pb_encode_varint E v) m0 (leb128 (unat v))"
  unfolding pb_encode_varint_eq
  using leb128_length_u64 [of v] by (intro pb_write_emits) (simp_all add: wbuf_reads_def)

section \<open>Zigzag, fixed width, tags and strings\<close>

lemma zigzagged_unat:
  "unat (if sint v < 0 then NOT (push_bit 1 v) else push_bit 1 v) = zigzag (sint (v :: u64))"
proof -
  have v: "v = word_of_int (sint v)" by simp
  have b: "- (2 ^ 63) \<le> sint v" "sint v < 2 ^ 63"
    using sint_ge [of v] sint_lt [of v] by simp_all
  have neg: "NOT (push_bit 1 v) = word_of_int (- 2 * sint v - 1)"
    by (subst (1) v) (simp add: push_bit_eq_mult not_eq_complement)
  have pos: "push_bit 1 v = word_of_int (2 * sint v)"
    by (subst (1) v) (simp add: push_bit_eq_mult)
  show ?thesis
  proof (cases "sint v < 0")
    case True
    then have "uint (word_of_int (- 2 * sint v - 1) :: u64) = - 2 * sint v - 1"
      using b by (intro uint_u64_id) auto
    with True show ?thesis unfolding neg zigzag_def by (simp only: unat_eq_nat_uint if_True)
  next
    case False
    then have "uint (word_of_int (2 * sint v) :: u64) = 2 * sint v"
      using b by (intro uint_u64_id) auto
    with False show ?thesis unfolding pos zigzag_def by (simp only: unat_eq_nat_uint if_False)
  qed
qed

lemma pb_encode_svarint_emits: "emits (pb_encode_svarint E v) m0 (leb128 (zigzag (sint v)))"
  using pb_encode_varint_emits zigzagged_unat [of v]
  unfolding pb_encode_svarint_def Let_def by metis

lemma ucast_low8: "(ucast (x AND 0xFF) :: u8) = ucast (x :: 'a::len word)"
proof -
  have "(ucast (take_bit 8 x) :: u8) = ucast x"
    by (rule bit_word_eqI) (auto simp: bit_simps)
  then show ?thesis by (simp add: take_bit_eq_mask mask_eq_exp_minus_1)
qed

lemma word_le_4: "word_le 4 (v :: u32) =
   [ucast (v AND 0xFF), ucast (drop_bit 8 v AND 0xFF), ucast (drop_bit 16 v AND 0xFF), ucast (drop_bit 24 v AND 0xFF)]"
  by (simp add: ucast_low8 numeral_eq_Suc)

lemma word_le_8: "word_le 8 (v :: u64) =
   [ucast (v AND 0xFF), ucast (drop_bit 8 v AND 0xFF), ucast (drop_bit 16 v AND 0xFF), ucast (drop_bit 24 v AND 0xFF),
    ucast (drop_bit 32 v AND 0xFF), ucast (drop_bit 40 v AND 0xFF), ucast (drop_bit 48 v AND 0xFF), ucast (drop_bit 56 v AND 0xFF)]"
  by (simp add: ucast_low8 numeral_eq_Suc)

text \<open>On a little-endian machine the fixed width encodings copy the bytes of the variable.\<close>

lemma pb_encode_fixed32_emits:
  assumes "load_bytes m0 a 4 = Some bs"
  shows "emits (pb_encode_fixed32 E a) m0 bs"
proof (rule emits_cong)
  fix s m assume "m0 \<subseteq>\<^sub>m m"
  with assms have "load_u32 m a = Some (le_word bs)"
    by (simp add: load_u32_def load_bytes_mono)
  moreover have "word_le 4 (le_word bs :: u32) = bs"
    using word_le_le_word [where 'a = 32, of bs] assms by (auto dest: load_bytes_length)
  ultimately show "pb_encode_fixed32 E a s m = pb_write E (WLocal bs) (of_nat (length bs)) s m"
    using assms by (auto simp: pb_encode_fixed32_def word_le_4 dest: load_bytes_length)
qed (use assms in \<open>auto intro!: pb_write_emits simp: wbuf_reads_def dest: load_bytes_length\<close>)

lemma pb_encode_fixed64_emits:
  assumes "load_bytes m0 a 8 = Some bs"
  shows "emits (pb_encode_fixed64 E a) m0 bs"
proof (rule emits_cong)
  fix s m assume "m0 \<subseteq>\<^sub>m m"
  with assms have "load_u64 m a = Some (le_word bs)"
    by (simp add: load_u64_def load_bytes_mono)
  moreover have "word_le 8 (le_word bs :: u64) = bs"
    using word_le_le_word [where 'a = 64, of bs] assms by (auto dest: load_bytes_length)
  ultimately show "pb_encode_fixed64 E a s m = pb_write E (WLocal bs) (of_nat (length bs)) s m"
    using assms by (auto simp: pb_encode_fixed64_def word_le_8 dest: load_bytes_length)
qed (use assms in \<open>auto intro!: pb_write_emits simp: wbuf_reads_def dest: load_bytes_length\<close>)

lemma key_word: "wt < 8 \<Longrightarrow> unat (push_bit 3 (ucast t) OR ucast wt :: u64) = 8 * unat (t :: u32) + unat (wt :: u32)"
proof -
  assume wt: "wt < 8"
  then have "unat (take_bit 3 wt) = unat wt"
    by (simp add: unsigned_take_bit_eq take_bit_nat_eq_self_iff word_less_nat_alt)
  then have wt': "take_bit 3 wt = wt" by (simp only: word_unat_eq_iff)
  have "push_bit 3 (ucast t) AND ucast wt = (0 :: u64)"
    by (subst wt' [symmetric]) (rule bit_word_eqI, auto simp: bit_simps)
  then have "push_bit 3 (ucast t) OR ucast wt = (push_bit 3 (ucast t) + ucast wt :: u64)"
    by (simp only: disjunctive_add_eq_or)
  moreover have "unat (push_bit 3 (ucast t) :: u64) = 8 * unat t"
    using unat_u32_lt [of t] by (simp add: push_bit_eq_mult unat_word_ariths unsigned_ucast_eq take_bit_eq_mod)
  moreover have "unat (ucast wt :: u64) = unat wt"
    using unat_u32_lt [of wt] by (simp add: unsigned_ucast_eq take_bit_eq_mod)
  ultimately show ?thesis
    using wt unat_u32_lt [of t] by (simp add: unat_u64_add word_less_nat_alt)
qed

lemma pb_encode_tag_emits: "wt < 8 \<Longrightarrow> emits (pb_encode_tag E wt t) m0 (key_bytes wt t)"
  using pb_encode_varint_emits [of E "push_bit 3 (ucast t) OR ucast wt" m0]
  unfolding pb_encode_tag_def key_bytes_def key_word [symmetric] by simp

lemma wiretype_of_less: "wiretype_of lt = Some wt \<Longrightarrow> wt < 8"
  by (auto simp: wiretype_of_def PB_WT_VARINT_def PB_WT_64BIT_def PB_WT_STRING_def PB_WT_32BIT_def split: if_splits)

lemma pb_encode_tag_for_field_emits:
  "wiretype_of (ltype f) = Some wt \<Longrightarrow> emits (pb_encode_tag_for_field E f) m0 (key_bytes wt (tag f))"
  using pb_encode_tag_emits wiretype_of_less unfolding pb_encode_tag_for_field_def by simp

lemma pb_encode_string_emits:
  assumes "wbuf_reads m0 buf bs" "length bs < 2 ^ 64"
  shows "emits (pb_encode_string E buf (of_nat (length bs))) m0 (leb128 (length bs) @ bs)"
  using emits_seq [OF pb_encode_varint_emits pb_write_emits [OF assms], of E "of_nat (length bs)" E] assms(2)
  unfolding pb_encode_string_def by (simp add: unat_u64_of_nat)

end
