(* ===== verification/Nanopb_Encode.thy ===== *)
theory Nanopb_Encode
  imports Nanopb_Common Nanopb_OStream
begin

text \<open>
  Message encoding, \<open>ios/Pods/nanopb/pb_encode.c\<close>: the element encoders \<open>pb_enc_*\<close>, arrays, the
  proto3 zero test, basic, callback and extension fields, submessages with their two passes, and
  \<open>pb_encode\<close> with its entry points. The C recursion through \<open>PB_ENCODERS\<close> is tied in
  \<open>pb_encode\<close>: the first argument bounds the depth of nested messages (the C stack), and the
  functions in between take the encoder of nested messages as an argument.
\<close>

section \<open>Element encoders\<close>

text \<open>\<open>safe_read_bool\<close> reads the \<open>sizeof(bool) = 1\<close> byte without assuming it is 0 or 1.\<close>

definition safe_read_bool :: "mem \<Rightarrow> addr \<Rightarrow> bool option" where
  "safe_read_bool m p = map_option (\<lambda>b. b \<noteq> 0) (m p)"

definition pb_enc_bool :: "pb_env \<Rightarrow> pb_field \<Rightarrow> addr \<Rightarrow> emitter" where
  "pb_enc_bool E f src s m =
     (case safe_read_bool m src of None \<Rightarrow> None
      | Some b \<Rightarrow> pb_encode_varint E (if b then 1 else 0) s m)"

text \<open>
  The width selection shared by the integer encoders: an undefined read is \<^term>\<open>None\<close>, a
  \<open>data_size\<close> that is not 1, 2, 4 or 8 is \<^term>\<open>Some None\<close>.
\<close>

definition load_signed :: "mem \<Rightarrow> u32 \<Rightarrow> addr \<Rightarrow> u64 option option" where
  "load_signed m ds src =
     (if ds = 1 then map_option (\<lambda>b. Some (scast b)) (m src)
      else if ds = 2 then map_option (\<lambda>w. Some (scast w)) (load_u16 m src)
      else if ds = 4 then map_option (\<lambda>w. Some (scast w)) (load_u32 m src)
      else if ds = 8 then map_option Some (load_u64 m src)
      else Some None)"

definition load_unsigned :: "mem \<Rightarrow> u32 \<Rightarrow> addr \<Rightarrow> u64 option option" where
  "load_unsigned m ds src =
     (if ds = 1 then map_option (\<lambda>b. Some (ucast b)) (m src)
      else if ds = 2 then map_option (\<lambda>w. Some (ucast w)) (load_u16 m src)
      else if ds = 4 then map_option (\<lambda>w. Some (ucast w)) (load_u32 m src)
      else if ds = 8 then map_option Some (load_u64 m src)
      else Some None)"

definition pb_enc_varint :: "pb_env \<Rightarrow> pb_field \<Rightarrow> addr \<Rightarrow> emitter" where
  "pb_enc_varint E f src s m =
     (case load_signed m (data_size f) src of None \<Rightarrow> None
      | Some None \<Rightarrow> Some (False, os_set_error s ''invalid data_size'', m)
      | Some (Some v) \<Rightarrow> pb_encode_varint E v s m)"

definition pb_enc_uvarint :: "pb_env \<Rightarrow> pb_field \<Rightarrow> addr \<Rightarrow> emitter" where
  "pb_enc_uvarint E f src s m =
     (case load_unsigned m (data_size f) src of None \<Rightarrow> None
      | Some None \<Rightarrow> Some (False, os_set_error s ''invalid data_size'', m)
      | Some (Some v) \<Rightarrow> pb_encode_varint E v s m)"

definition pb_enc_svarint :: "pb_env \<Rightarrow> pb_field \<Rightarrow> addr \<Rightarrow> emitter" where
  "pb_enc_svarint E f src s m =
     (case load_signed m (data_size f) src of None \<Rightarrow> None
      | Some None \<Rightarrow> Some (False, os_set_error s ''invalid data_size'', m)
      | Some (Some v) \<Rightarrow> pb_encode_svarint E v s m)"

definition pb_enc_fixed32 :: "pb_env \<Rightarrow> pb_field \<Rightarrow> addr \<Rightarrow> emitter" where
  "pb_enc_fixed32 E f src s m = pb_encode_fixed32 E src s m"

definition pb_enc_fixed64 :: "pb_env \<Rightarrow> pb_field \<Rightarrow> addr \<Rightarrow> emitter" where
  "pb_enc_fixed64 E f src s m = pb_encode_fixed64 E src s m"

text \<open>\<open>pb_bytes_array_t\<close>: a 32 bit size and the bytes at offset 4; the bound is computed in \<open>size_t\<close>.\<close>

definition pb_enc_bytes :: "pb_env \<Rightarrow> pb_field \<Rightarrow> addr \<Rightarrow> emitter" where
  "pb_enc_bytes E f src s m =
     (if src = 0 then pb_encode_string E WNull 0 s m
      else case load_u32 m src of None \<Rightarrow> None
      | Some sz \<Rightarrow>
          if atype f = PB_ATYPE_STATIC \<and> (ucast (data_size f) :: u64) - 4 < ucast sz
          then Some (False, os_set_error s ''bytes size exceeded'', m)
          else pb_encode_string E (WMem (src + 4)) (ucast sz) s m)"

text \<open>\<open>while (size < max_size && *p != '\0') { size++; p++; }\<close>\<close>

function strnlen_loop :: "mem \<Rightarrow> addr \<Rightarrow> u64 \<Rightarrow> u64 \<Rightarrow> u64 option" where
  "strnlen_loop m p mx sz =
     (if sz < mx
      then (case m (p + uint sz) of None \<Rightarrow> None
            | Some b \<Rightarrow> if b \<noteq> 0 then strnlen_loop m p mx (sz + 1) else Some sz)
      else Some sz)"
  by pat_completeness auto
termination
proof (relation "measure (\<lambda>(m, p, mx, sz). unat mx - unat sz)", simp)
  fix m :: mem and p and mx sz :: u64 and b :: u8
  assume "sz < mx"
  then have "unat (sz + 1) = unat sz + 1" "unat sz < unat mx"
    using unat_u64_lt [of mx] by (simp_all add: word_less_nat_alt unat_u64_add)
  then show "((m, p, mx, sz + 1), m, p, mx, sz) \<in> measure (\<lambda>(m, p, mx, sz). unat mx - unat sz)"
    by simp
qed

declare strnlen_loop.simps [simp del]

definition pb_enc_string :: "pb_env \<Rightarrow> pb_field \<Rightarrow> addr \<Rightarrow> emitter" where
  "pb_enc_string E f src s m =
     (let mx = (if atype f = PB_ATYPE_POINTER then - 1 else ucast (data_size f)) in
      case (if src = 0 then Some 0 else strnlen_loop m src mx 0) of None \<Rightarrow> None
      | Some sz \<Rightarrow> pb_encode_string E (if src = 0 then WNull else WMem src) sz s m)"

definition pb_enc_fixed_length_bytes :: "pb_env \<Rightarrow> pb_field \<Rightarrow> addr \<Rightarrow> emitter" where
  "pb_enc_fixed_length_bytes E f src s m = pb_encode_string E (WMem src) (ucast (data_size f)) s m"

section \<open>Submessages\<close>

type_synonym msg_encoder = "pb_field list \<Rightarrow> addr \<Rightarrow> emitter"

definition pb_encode_submessage :: "msg_encoder \<Rightarrow> pb_env \<Rightarrow> pb_field list \<Rightarrow> addr \<Rightarrow> emitter" where
  "pb_encode_submessage enc E flds src s m =
     (case enc flds src PB_OSTREAM_SIZING m of None \<Rightarrow> None
      | Some (ok, substream, m) \<Rightarrow>
          if \<not> ok then Some (False, s\<lparr>os_errmsg := os_errmsg substream\<rparr>, m)
          else (let sz = bytes_written substream in
            and_then (pb_encode_varint E sz s m) (\<lambda>(s, m).
              if os_callback s = OC_null then pb_write E WNull sz s m
              else if max_size s < bytes_written s + sz
              then Some (False, os_set_error s ''stream full'', m)
              else
                (case enc flds src
                        \<lparr>os_callback = os_callback s, os_state = os_state s, max_size = sz,
                         bytes_written = 0, os_errmsg = None\<rparr> m of None \<Rightarrow> None
                 | Some (status, substream, m) \<Rightarrow>
                     (let s = s\<lparr>bytes_written := bytes_written s + bytes_written substream,
                                os_state := os_state substream, os_errmsg := os_errmsg substream\<rparr>
                      in if bytes_written substream \<noteq> sz
                         then Some (False, os_set_error s ''submsg size changed'', m)
                         else Some (status, s, m))))))"

definition pb_enc_submessage :: "msg_encoder \<Rightarrow> pb_env \<Rightarrow> pb_field \<Rightarrow> addr \<Rightarrow> emitter" where
  "pb_enc_submessage enc E f src s m =
     (if fptr f = 0 then Some (False, os_set_error s ''invalid field descriptor'', m)
      else pb_encode_submessage enc E (fields_of E (fptr f)) src s m)"

text \<open>\<open>PB_ENCODERS\<close>: the entry for extensions is null and there is none beyond \<open>PB_LTYPES_COUNT\<close>.\<close>

definition PB_ENCODERS :: "msg_encoder \<Rightarrow> pb_env \<Rightarrow> u8 \<Rightarrow> pb_field \<Rightarrow> addr \<Rightarrow> emitter" where
  "PB_ENCODERS enc E lt =
     (if lt = PB_LTYPE_BOOL then pb_enc_bool E
      else if lt = PB_LTYPE_VARINT then pb_enc_varint E
      else if lt = PB_LTYPE_UVARINT then pb_enc_uvarint E
      else if lt = PB_LTYPE_SVARINT then pb_enc_svarint E
      else if lt = PB_LTYPE_FIXED32 then pb_enc_fixed32 E
      else if lt = PB_LTYPE_FIXED64 then pb_enc_fixed64 E
      else if lt = PB_LTYPE_BYTES then pb_enc_bytes E
      else if lt = PB_LTYPE_STRING then pb_enc_string E
      else if lt = PB_LTYPE_SUBMESSAGE then pb_enc_submessage enc E
      else if lt = PB_LTYPE_FIXED_LENGTH_BYTES then pb_enc_fixed_length_bytes E
      else (\<lambda>_ _ _ _. None))"

section \<open>Arrays\<close>

primrec array_loop :: "(addr \<Rightarrow> emitter) \<Rightarrow> u32 \<Rightarrow> nat \<Rightarrow> addr \<Rightarrow> emitter" where
  "array_loop body ds 0 p s m = Some (True, s, m)"
| "array_loop body ds (Suc n) p s m =
     and_then (body p s m) (\<lambda>(s, m). array_loop body ds n (p + uint ds) s m)"

text \<open>The item of an unpacked array: pointer arrays of strings and bytes hold pointers.\<close>

definition encode_item :: "pb_env \<Rightarrow> pb_field \<Rightarrow> (pb_field \<Rightarrow> addr \<Rightarrow> emitter) \<Rightarrow> addr \<Rightarrow> emitter" where
  "encode_item E f func p s m =
     and_then (pb_encode_tag_for_field E f s m) (\<lambda>(s, m).
       if atype f = PB_ATYPE_POINTER \<and> (ltype f = PB_LTYPE_STRING \<or> ltype f = PB_LTYPE_BYTES)
       then (case load_ptr m p of None \<Rightarrow> None | Some q \<Rightarrow> func f q s m)
       else func f p s m)"

text \<open>The payload size of a packed array: computed for fixed width types, measured for the others.\<close>

definition packed_size :: "pb_field \<Rightarrow> addr \<Rightarrow> u64 \<Rightarrow> (pb_field \<Rightarrow> addr \<Rightarrow> emitter) \<Rightarrow> mem \<Rightarrow> (bool \<times> u64 \<times> mem) option" where
  "packed_size f pdata count func m =
     (if ltype f = PB_LTYPE_FIXED32 then Some (True, 4 * count, m)
      else if ltype f = PB_LTYPE_FIXED64 then Some (True, 8 * count, m)
      else
        (case array_loop (func f) (data_size f) (unat count) pdata PB_OSTREAM_SIZING m of
           None \<Rightarrow> None
         | Some (ok, sizestream, m) \<Rightarrow> Some (ok, bytes_written sizestream, m)))"

definition encode_array :: "pb_env \<Rightarrow> pb_field \<Rightarrow> addr \<Rightarrow> u64 \<Rightarrow> (pb_field \<Rightarrow> addr \<Rightarrow> emitter) \<Rightarrow> emitter" where
  "encode_array E f pdata count func s m =
     (if count = 0 then Some (True, s, m)
      else if atype f \<noteq> PB_ATYPE_POINTER \<and> ucast (array_size f) < count
      then Some (False, os_set_error s ''array max size exceeded'', m)
      else if ltype f \<le> PB_LTYPE_LAST_PACKABLE
      then
        and_then (pb_encode_tag E PB_WT_STRING (tag f) s m) (\<lambda>(s, m).
          case packed_size f pdata count func m of
            None \<Rightarrow> None
          | Some (ok, sz, m) \<Rightarrow>
              if \<not> ok then Some (False, s, m)
              else
                and_then (pb_encode_varint E sz s m) (\<lambda>(s, m).
                  if os_callback s = OC_null then pb_write E WNull sz s m
                  else array_loop (func f) (data_size f) (unat count) pdata s m))
      else array_loop (encode_item E f func) (data_size f) (unat count) pdata s m)"

section \<open>The proto3 zero test\<close>

text \<open>\<open>for (i = 0; i < data_size; i++) if (p[i] != 0) return false; return true;\<close>\<close>

primrec zero_loop :: "mem \<Rightarrow> addr \<Rightarrow> nat \<Rightarrow> bool option" where
  "zero_loop m p 0 = Some True"
| "zero_loop m p (Suc n) =
     (case m p of None \<Rightarrow> None | Some b \<Rightarrow> if b \<noteq> 0 then Some False else zero_loop m (p + 1) n)"

primrec pb_check_proto3_default_value :: "nat \<Rightarrow> pb_env \<Rightarrow> pb_field \<Rightarrow> addr \<Rightarrow> mem \<Rightarrow> bool option" where
  "pb_check_proto3_default_value 0 E f pdata m = None"
| "pb_check_proto3_default_value (Suc n) E f pdata m =
     (let psize = pdata + sint (size_offset f);
          catch_all = zero_loop m pdata (unat (data_size f));
          singular =
            (if atype f = PB_ATYPE_STATIC \<and> ltype f = PB_LTYPE_BYTES
             then map_option (\<lambda>sz. sz = 0) (load_u32 m pdata)
             else if atype f = PB_ATYPE_STATIC \<and> ltype f = PB_LTYPE_STRING
             then map_option (\<lambda>c. c = 0) (m pdata)
             else if atype f = PB_ATYPE_STATIC \<and> ltype f = PB_LTYPE_FIXED_LENGTH_BYTES
             then Some (data_size f = 0)
             else if atype f = PB_ATYPE_STATIC \<and> ltype f = PB_LTYPE_SUBMESSAGE
             then
               (if fptr f = 0 then None
                else case pb_field_iter_begin (fields_of E (fptr f)) pdata of None \<Rightarrow> None
                | Some (nonempty, it) \<Rightarrow>
                    if nonempty
                    then map_option fst (do_fields (\<lambda>it u.
                           case it_field it of None \<Rightarrow> None
                           | Some g \<Rightarrow>
                               map_option (\<lambda>b. (b, u)) (pb_check_proto3_default_value n E g (pData it) m)) it ())
                    else Some True)
             else if atype f = PB_ATYPE_POINTER \<and> PB_LTYPE_LAST_PACKABLE < ltype f
             then map_option (\<lambda>p. p = 0) (load_ptr m pdata)
             else catch_all)
      in if htype f = PB_HTYPE_REQUIRED then Some False
         else if htype f = PB_HTYPE_REPEATED
         then (if size_offset f \<noteq> 0 then map_option (\<lambda>c. c = 0) (load_u32 m psize)
               else if atype f = PB_ATYPE_STATIC then Some False
               else singular)
         else if htype f = PB_HTYPE_ONEOF then map_option (\<lambda>c. c = 0) (load_u32 m psize)
         else if htype f = PB_HTYPE_OPTIONAL \<and> size_offset f \<noteq> 0
         then map_option Not (safe_read_bool m psize)
         else singular)"

section \<open>Fields\<close>

text \<open>
  \<open>pSize\<close> points to the companion member when \<open>size_offset\<close> is not zero and to the local
  \<open>implicit_has\<close> otherwise; reading a \<open>pb_size_t\<close> through the latter is undefined.
\<close>

definition encode_basic_field :: "nat \<Rightarrow> msg_encoder \<Rightarrow> pb_env \<Rightarrow> pb_field \<Rightarrow> addr \<Rightarrow> emitter" where
  "encode_basic_field n enc E f pdata0 s m =
     (let func = PB_ENCODERS enc E (ltype f);
          psize = pdata0 + sint (size_offset f) in
      case (if size_offset f \<noteq> 0 then Some True
            else if htype f = PB_HTYPE_OPTIONAL
            then map_option Not (pb_check_proto3_default_value n E f pdata0 m)
            else Some True) of None \<Rightarrow> None
      | Some implicit0 \<Rightarrow>
      case (if atype f = PB_ATYPE_POINTER then load_ptr m pdata0 else Some pdata0) of None \<Rightarrow> None
      | Some pdata \<Rightarrow>
          (let implicit_has = (if atype f = PB_ATYPE_POINTER then pdata \<noteq> 0 else implicit0) in
           if htype f = PB_HTYPE_REQUIRED
           then
             if pdata = 0 then Some (False, os_set_error s ''missing required field'', m)
             else and_then (pb_encode_tag_for_field E f s m) (\<lambda>(s, m). func f pdata s m)
           else if htype f = PB_HTYPE_OPTIONAL
           then
             (case (if size_offset f \<noteq> 0 then safe_read_bool m psize else Some implicit_has) of None \<Rightarrow> None
              | Some has \<Rightarrow>
                  if has
                  then and_then (pb_encode_tag_for_field E f s m) (\<lambda>(s, m). func f pdata s m)
                  else Some (True, s, m))
           else if htype f = PB_HTYPE_REPEATED
           then
             (case (if size_offset f \<noteq> 0 then load_u32 m psize else Some (array_size f)) of None \<Rightarrow> None
              | Some count \<Rightarrow> encode_array E f pdata (ucast count) func s m)
           else
             (case (if size_offset f \<noteq> 0 then load_u32 m psize else None) of None \<Rightarrow> None
              | Some which \<Rightarrow>
                  if which = tag f
                  then and_then (pb_encode_tag_for_field E f s m) (\<lambda>(s, m). func f pdata s m)
                  else Some (True, s, m))))"

text \<open>\<open>pb_callback_t\<close>: the function pointer at offset 0, the argument at offset 8.\<close>

definition encode_callback_field :: "pb_env \<Rightarrow> pb_field \<Rightarrow> addr \<Rightarrow> emitter" where
  "encode_callback_field E f pdata s m =
     (case load_ptr m pdata of None \<Rightarrow> None
      | Some fn \<Rightarrow>
          if fn \<noteq> 0
          then
            (case encode_cb E fn s f (pdata + 8) m of None \<Rightarrow> None
             | Some (ok, s, m) \<Rightarrow>
                 if ok then Some (True, s, m) else Some (False, os_set_error s ''callback error'', m))
          else Some (True, s, m))"

definition encode_field :: "nat \<Rightarrow> msg_encoder \<Rightarrow> pb_env \<Rightarrow> pb_field \<Rightarrow> addr \<Rightarrow> emitter" where
  "encode_field n enc E f pdata s m =
     (if atype f = PB_ATYPE_STATIC \<or> atype f = PB_ATYPE_POINTER
      then encode_basic_field n enc E f pdata s m
      else if atype f = PB_ATYPE_CALLBACK then encode_callback_field E f pdata s m
      else Some (False, os_set_error s ''invalid field type'', m))"

text \<open>
  \<open>pb_extension_t\<close>: type at offset 0, dest at 8, next at 16; \<open>pb_extension_type_t\<close>: decode at 0,
  encode at 8, arg at 16.
\<close>

definition default_extension_encoder :: "nat \<Rightarrow> msg_encoder \<Rightarrow> pb_env \<Rightarrow> addr \<Rightarrow> emitter" where
  "default_extension_encoder n enc E ext s m =
     Option.bind (load_ptr m ext) (\<lambda>ty.
     Option.bind (load_ptr m (ty + 16)) (\<lambda>arg.
       case fields_of E arg of [] \<Rightarrow> None
       | f # _ \<Rightarrow>
           if atype f = PB_ATYPE_POINTER then encode_field n enc E f (ext + 8) s m
           else Option.bind (load_ptr m (ext + 8)) (\<lambda>dst. encode_field n enc E f dst s m)))"

definition encode_one_extension :: "nat \<Rightarrow> msg_encoder \<Rightarrow> pb_env \<Rightarrow> addr \<Rightarrow> emitter" where
  "encode_one_extension n enc E ext s m =
     Option.bind (load_ptr m ext) (\<lambda>ty.
     Option.bind (load_ptr m (ty + 8)) (\<lambda>fn.
       if fn \<noteq> 0 then ext_encode_cb E fn s ext m else default_extension_encoder n enc E ext s m))"

partial_function (option) extension_loop :: "(addr \<Rightarrow> emitter) \<Rightarrow> addr \<Rightarrow> emitter" where
  "extension_loop one ext s m =
     (if ext = 0 then Some (True, s, m)
      else Option.bind (one ext s m) (\<lambda>(ok, s, m).
        if \<not> ok then Some (False, s, m)
        else Option.bind (load_ptr m (ext + 16)) (\<lambda>nxt. extension_loop one nxt s m)))"

declare extension_loop.simps [code]

definition encode_extension_field :: "nat \<Rightarrow> msg_encoder \<Rightarrow> pb_env \<Rightarrow> pb_field \<Rightarrow> addr \<Rightarrow> emitter" where
  "encode_extension_field n enc E f pdata s m =
     Option.bind (load_ptr m pdata) (\<lambda>ext. extension_loop (encode_one_extension n enc E) ext s m)"

section \<open>Messages\<close>

text \<open>One iteration of the field loop of \<open>pb_encode\<close>.\<close>

definition encode_iter :: "nat \<Rightarrow> msg_encoder \<Rightarrow> pb_env \<Rightarrow> pb_field_iter \<Rightarrow> pb_ostream \<times> mem \<Rightarrow> (bool \<times> pb_ostream \<times> mem) option" where
  "encode_iter n enc E it sm =
     (case it_field it of None \<Rightarrow> None
      | Some f \<Rightarrow>
          if ltype f = PB_LTYPE_EXTENSION
          then encode_extension_field n enc E f (pData it) (fst sm) (snd sm)
          else encode_field n enc E f (pData it) (fst sm) (snd sm))"

primrec pb_encode :: "nat \<Rightarrow> pb_env \<Rightarrow> pb_field list \<Rightarrow> addr \<Rightarrow> emitter" where
  "pb_encode 0 E flds src s m = None"
| "pb_encode (Suc n) E flds src s m =
     (case pb_field_iter_begin flds src of None \<Rightarrow> None
      | Some (nonempty, it) \<Rightarrow>
          if \<not> nonempty then Some (True, s, m)
          else do_fields (encode_iter n (pb_encode n E) E) it (s, m))"

definition pb_encode_delimited :: "nat \<Rightarrow> pb_env \<Rightarrow> pb_field list \<Rightarrow> addr \<Rightarrow> emitter" where
  "pb_encode_delimited n E flds src s m = pb_encode_submessage (pb_encode n E) E flds src s m"

definition pb_encode_nullterminated :: "nat \<Rightarrow> pb_env \<Rightarrow> pb_field list \<Rightarrow> addr \<Rightarrow> emitter" where
  "pb_encode_nullterminated n E flds src s m =
     and_then (pb_encode n E flds src s m) (\<lambda>(s, m). pb_write E (WLocal [0]) 1 s m)"

definition pb_get_encoded_size :: "nat \<Rightarrow> pb_env \<Rightarrow> pb_field list \<Rightarrow> addr \<Rightarrow> mem \<Rightarrow> (u64 option \<times> mem) option" where
  "pb_get_encoded_size n E flds src m =
     (case pb_encode n E flds src PB_OSTREAM_SIZING m of None \<Rightarrow> None
      | Some (ok, s, m) \<Rightarrow> Some (if ok then Some (bytes_written s) else None, m))"

end
