(* ===== verification/Nanopb_Encode_Correct.thy ===== *)
theory Nanopb_Encode_Correct
  imports Nanopb_Encode
begin

text \<open>
  The encoder against the reference definition of \<open>Nanopb_Reference\<close>: the encoder's wire type table,
  integer loads, string scan and proto3 zero test agree with the reference ones where those are
  defined, every element encoder, array, field and extension emits its reference bytes, and
  \<open>pb_encode\<close> emits exactly \<open>msg_bytes\<close>. User callbacks enter through a specification \<open>cb_spec\<close> of
  the bytes they emit.
\<close>

section \<open>Reading is stable\<close>

lemma safe_read_bool_mono: "m0 \<subseteq>\<^sub>m m \<Longrightarrow> safe_read_bool m0 p = Some b \<Longrightarrow> safe_read_bool m p = Some b"
  by (auto simp: safe_read_bool_def dest: load_byte_mono)

lemma load_signed_mono: "m0 \<subseteq>\<^sub>m m \<Longrightarrow> load_signed m0 ds p = Some v \<Longrightarrow> load_signed m ds p = Some v"
  by (auto simp: load_signed_def dest: load_mono split: if_splits)

lemma load_unsigned_mono: "m0 \<subseteq>\<^sub>m m \<Longrightarrow> load_unsigned m0 ds p = Some v \<Longrightarrow> load_unsigned m ds p = Some v"
  by (auto simp: load_unsigned_def dest: load_mono split: if_splits)

lemma strnlen_loop_mono:
  "m0 \<subseteq>\<^sub>m m \<Longrightarrow> strnlen_loop m0 p mx sz = Some r \<Longrightarrow> strnlen_loop m p mx sz = Some r"
proof (induction m0 p mx sz rule: strnlen_loop.induct)
  case (1 m0 p mx sz)
  then show ?case
    by (subst strnlen_loop.simps)
      (auto simp: strnlen_loop.simps [of m0 p mx sz] dest: load_byte_mono split: if_splits option.splits)
qed

lemma zero_loop_mono: "m0 \<subseteq>\<^sub>m m \<Longrightarrow> zero_loop m0 p n = Some b \<Longrightarrow> zero_loop m p n = Some b"
  by (induction n arbitrary: p) (auto dest: load_byte_mono split: option.splits if_splits)

lemma do_fields_mono:
  assumes "\<And>it s r. b1 it s = Some r \<Longrightarrow> b2 it s = Some r" "do_fields b1 it s = Some r"
  shows "do_fields b2 it s = Some r"
  using assms
proof (induction b1 it s rule: do_fields.induct)
  case (1 body it s)
  from "1.prems"(2) obtain ok s' where body: "body it s = Some (ok, s')"
    by (subst (asm) do_fields.simps) (auto split: option.splits)
  note b2 = "1.prems"(1) [OF body]
  show ?case
  proof (cases "ok \<and> (\<exists>it'. pb_field_iter_next it = Some (True, it'))")
    case True
    then obtain it' where next': "pb_field_iter_next it = Some (True, it')" by blast
    then have "do_fields body it' s' = Some r"
      using "1.prems"(2) body True by (subst (asm) do_fields.simps) simp
    then have "do_fields b2 it' s' = Some r"
      using "1.IH" [OF body refl] True next' "1.prems"(1) by auto
    then show ?thesis using b2 True next' by (subst do_fields.simps) simp
  next
    case False
    then show ?thesis
      using "1.prems"(2) body b2
      by (subst do_fields.simps, subst (asm) do_fields.simps) (auto split: option.splits if_splits)
  qed
qed

lemma check_proto3_mono:
  assumes m: "m0 \<subseteq>\<^sub>m m"
  shows "le_opt (pb_check_proto3_default_value n E f p m0) (pb_check_proto3_default_value n E f p m)"
proof (induction n arbitrary: f p)
  case (Suc n)
  let ?body = "\<lambda>m it (u :: unit). case it_field it of None \<Rightarrow> None
      | Some g \<Rightarrow> map_option (\<lambda>b. (b, u)) (pb_check_proto3_default_value n E g (pData it) m)"
  have body: "le_opt (?body m0 it u) (?body m it u)" for it u
    by (intro le_opt_intros Suc.IH)
  have loop: "le_opt (do_fields (?body m0) it u) (do_fields (?body m) it u)" for it u
    by (rule le_optI, rule do_fields_mono [OF le_optD [OF body]])
  have loads: "le_opt (load_u32 m0 p) (load_u32 m p)" "le_opt (m0 p) (m p)" "le_opt (load_ptr m0 p) (load_ptr m p)"
      "le_opt (zero_loop m0 p k) (zero_loop m p k)" "le_opt (safe_read_bool m0 p) (safe_read_bool m p)" for p k
    using load_u32_mono [OF m] load_byte_mono [OF m] load_ptr_mono [OF m] zero_loop_mono [OF m]
      safe_read_bool_mono [OF m] by (blast intro: le_optI)+
  show ?case
    unfolding pb_check_proto3_default_value.simps Let_def
    by (intro le_opt_if le_opt_map le_opt_case le_opt_prod loop loads le_opt_refl)
qed (simp add: le_opt_None)

section \<open>The encoder's readings agree with the reference\<close>

lemma scalar_type_packable: "scalar_type (ltype f) \<longleftrightarrow> ltype f \<le> PB_LTYPE_LAST_PACKABLE"
proof -
  have "scalar_type x \<longleftrightarrow> x \<le> PB_LTYPE_LAST_PACKABLE" for x
    by (rule all_u8D [of "\<lambda>x. scalar_type x \<longleftrightarrow> x \<le> PB_LTYPE_LAST_PACKABLE"]) code_simp
  then show ?thesis .
qed

lemma wiretype_of_wire_type: "proto_wire_type lt = Some wt \<Longrightarrow> wiretype_of lt = Some wt"
  by (auto simp: proto_wire_type_def wiretype_of_def scalar_type_def PB_WT_VARINT_def PB_WT_64BIT_def PB_WT_32BIT_def
      PB_WT_STRING_def split: if_splits)

lemma le_int_nat: "le_int bs = int (le_nat bs)"
proof -
  have "0 \<le> le_int bs" by (induction bs) simp_all
  then show ?thesis by (simp add: le_nat_def)
qed

lemma le_nat_simps [simp]: "le_nat [] = 0" "le_nat (b # bs) = unat b + 256 * le_nat bs"
proof -
  show "le_nat [] = 0" by (simp add: le_nat_def)
  have "int (le_nat (b # bs)) = int (unat b + 256 * le_nat bs)"
    unfolding le_int_nat [symmetric] le_int.simps by (simp add: le_int_nat)
  then show "le_nat (b # bs) = unat b + 256 * le_nat bs" by (simp only: of_nat_eq_iff)
qed

lemma le_nat_less: "le_nat bs < 256 ^ length bs"
proof (induction bs)
  case (Cons b bs)
  then have "Suc (le_nat bs) \<le> 256 ^ length bs" by simp
  then have "256 * Suc (le_nat bs) \<le> 256 ^ length (b # bs)" by simp
  moreover have "unat b < 256" by (rule unat_u8_lt)
  ultimately show ?case by simp
qed simp

lemma le_word_of_nat: "8 \<le> LENGTH('a::len) \<Longrightarrow> (le_word bs :: 'a word) = of_nat (le_nat bs)"
proof (induction bs)
  case (Cons b bs)
  have "(ucast b :: 'a word) AND push_bit 8 (le_word bs) = 0"
    using Cons.prems by (intro bit_word_eqI) (auto simp: bit_simps dest: bit_imp_le_length)
  then have "(ucast b :: 'a word) OR push_bit 8 (le_word bs) = ucast b + push_bit 8 (le_word bs)"
    by (simp add: disjunctive_add_eq_or)
  moreover have "(ucast b :: 'a word) = of_nat (unat b)" by simp
  ultimately have "le_word (b # bs) = of_nat (unat b) + push_bit 8 (le_word bs :: 'a word)"
    by (simp only: le_word.simps)
  also have "\<dots> = of_nat (le_nat (b # bs))"
    unfolding Cons.IH [OF Cons.prems] by (simp add: push_bit_eq_mult)
  finally show ?case .
qed simp

lemma unat_le_word:
  "8 * length bs \<le> LENGTH('a::len) \<Longrightarrow> 8 \<le> LENGTH('a) \<Longrightarrow> unat (le_word bs :: 'a word) = le_nat bs"
proof -
  assume len: "8 * length bs \<le> LENGTH('a)" "8 \<le> LENGTH('a)"
  have "(256 :: nat) ^ length bs = 2 ^ (8 * length bs)" by (simp add: power_mult)
  also have "\<dots> \<le> 2 ^ LENGTH('a)" using len(1) by (rule power_increasing) simp
  finally have "le_nat bs < 2 ^ LENGTH('a)" using le_nat_less [of bs] by linarith
  then show ?thesis using len(2) by (simp add: le_word_of_nat unat_of_nat take_bit_nat_eq_self_iff)
qed

lemma sint_le_word:
  assumes "8 * length bs = LENGTH('a::len)"
  shows "sint (le_word bs :: 'a word) = twos_complement bs"
proof -
  let ?w = "le_word bs :: 'a word" and ?L = "LENGTH('a)"
  have "length bs \<noteq> 0" using assms by (metis len_not_eq_0 list.size(3) mult_is_0)
  then have u: "uint ?w = int (le_nat bs)"
    using assms unat_le_word [of bs, where 'a = 'a] unfolding uint_nat by (cases bs) simp_all
  have p: "(256 :: int) ^ length bs = 2 ^ ?L" using assms by (simp add: power_mult flip: assms)
  obtain k where k: "?L = Suc k" by (cases ?L) simp_all
  have b: "- (2 ^ k) \<le> sint ?w" "sint ?w < 2 ^ k" using sint_ge [of ?w] sint_lt [of ?w] k by simp_all
  have m: "uint ?w = sint ?w mod 2 ^ ?L" by (simp add: uint_sint take_bit_eq_mod)
  show ?thesis
  proof (cases "sint ?w < 0")
    case True
    then have "sint ?w mod 2 ^ ?L = sint ?w + 2 ^ ?L"
      using b mod_add_self2 [of "sint ?w" "2 ^ ?L"] mod_pos_pos_trivial [of "sint ?w + 2 ^ ?L" "2 ^ ?L"] by (simp add: k)
    then show ?thesis using True b m u by (simp add: twos_complement_def le_int_nat p k)
  next
    case False
    then have "sint ?w mod 2 ^ ?L = sint ?w" using b by (simp add: k)
    then show ?thesis using False b m u by (simp add: twos_complement_def le_int_nat p k)
  qed
qed

lemma load_u32_nat: "map_option le_nat (load_bytes m p 4) = map_option unat (load_u32 m p)"
  by (auto simp: load_u32_def option.map_comp unat_le_word dest: load_bytes_length intro!: option.map_cong)

lemma load_bytes_1: "load_bytes m p 1 = Some bs \<longleftrightarrow> (\<exists>b. m p = Some b \<and> bs = [b])"
  by (auto split: option.splits)

lemma sint_scast_u64: "LENGTH('a::len) \<le> 64 \<Longrightarrow> sint (scast (w :: 'a word) :: u64) = sint w"
  by (simp add: sint_up_scast is_up)

lemma load_signed_reads:
  assumes "ds \<in> set [1, 2, 4, 8]" "load_bytes m p (unat ds) = Some bs"
  shows "\<exists>v. load_signed m ds p = Some (Some v) \<and> sint v = twos_complement bs"
proof -
  from assms(1) consider "ds = 1" | "ds = 2" | "ds = 4" | "ds = 8" by auto
  then show ?thesis
  proof cases
    case 1
    then obtain b where b: "m p = Some b" "bs = [b]" using assms(2) load_bytes_1 by auto
    have "sint b = twos_complement [b]" using sint_le_word [of "[b]", where 'a = 8] by simp
    then show ?thesis using 1 b by (simp add: load_signed_def sint_scast_u64)
  next
    case 2
    then have "length bs = 2" "load_bytes m p 2 = Some bs" using assms(2) by auto
    then show ?thesis
      using 2 sint_le_word [of bs, where 'a = 16] by (simp add: load_signed_def load_u16_def sint_scast_u64)
  next
    case 3
    then have "length bs = 4" "load_bytes m p 4 = Some bs" using assms(2) by auto
    then show ?thesis
      using 3 sint_le_word [of bs, where 'a = 32] by (simp add: load_signed_def load_u32_def sint_scast_u64)
  next
    case 4
    then have "length bs = 8" "load_bytes m p 8 = Some bs" using assms(2) by auto
    then show ?thesis
      using 4 sint_le_word [of bs, where 'a = 64] by (simp add: load_signed_def load_u64_def)
  qed
qed

lemma unat_ucast_u64: "LENGTH('a::len) \<le> 64 \<Longrightarrow> unat (ucast (w :: 'a word) :: u64) = unat w"
proof -
  assume "LENGTH('a) \<le> 64"
  then have "(2 :: nat) ^ LENGTH('a) \<le> 2 ^ 64" by (intro power_increasing) simp_all
  moreover have "unat w < 2 ^ LENGTH('a)" by (rule unsigned_less)
  ultimately have "unat w < 2 ^ 64" by linarith
  then show ?thesis by (simp add: unsigned_ucast_eq take_bit_nat_eq_self_iff)
qed

lemma load_unsigned_reads:
  assumes "ds \<in> set [1, 2, 4, 8]" "load_bytes m p (unat ds) = Some bs"
  shows "\<exists>v. load_unsigned m ds p = Some (Some v) \<and> unat v = le_nat bs"
proof -
  from assms(1) consider "ds = 1" | "ds = 2" | "ds = 4" | "ds = 8" by auto
  then show ?thesis
  proof cases
    case 1
    then obtain b where b: "m p = Some b" "bs = [b]" using assms(2) load_bytes_1 by auto
    then show ?thesis using 1 by (simp add: unat_ucast_u64 load_unsigned_def)
  next
    case 2
    then have "length bs = 2" "load_bytes m p 2 = Some bs" using assms(2) by auto
    then show ?thesis
      using 2 unat_le_word [of bs, where 'a = 16] unat_ucast_u64 [of "le_word bs :: u16"] by (simp add: load_unsigned_def load_u16_def)
  next
    case 3
    then have "length bs = 4" "load_bytes m p 4 = Some bs" using assms(2) by auto
    then show ?thesis
      using 3 unat_le_word [of bs, where 'a = 32] unat_ucast_u64 [of "le_word bs :: u32"] by (simp add: load_unsigned_def load_u32_def)
  next
    case 4
    then have "length bs = 8" "load_bytes m p 8 = Some bs" using assms(2) by auto
    then show ?thesis
      using 4 unat_le_word [of bs, where 'a = 64] by (simp add: load_unsigned_def load_u64_def)
  qed
qed

lemma strnlen_c_string:
  assumes "c_string m (p + uint sz) k = Some cs" "unat mx = unat sz + k"
  shows "\<exists>n. strnlen_loop m p mx sz = Some n \<and> unat n = unat sz + length cs \<and>
    load_bytes m (p + uint sz) (length cs) = Some cs"
  using assms
proof (induction k arbitrary: sz cs)
  case 0
  then show ?case by (subst strnlen_loop.simps) (auto simp: word_less_nat_alt)
next
  case (Suc k)
  then obtain c where c: "m (p + uint sz) = Some c" by (auto split: option.splits)
  have lt: "sz < mx" using Suc.prems(2) by (simp add: word_less_nat_alt)
  show ?case
  proof (cases "c = 0")
    case True
    then show ?thesis using c lt Suc.prems(1) by (subst strnlen_loop.simps) auto
  next
    case False
    then obtain cs' where cs': "c_string m (p + uint sz + 1) k = Some cs'" "cs = c # cs'"
      using c Suc.prems(1) by auto
    have next_sz: "unat (sz + 1) = unat sz + 1" "uint (sz + 1) = uint sz + 1"
      using Suc.prems(2) unat_u64_lt [of mx] by (simp_all add: unat_u64_add uint_nat del: of_nat_unat)
    obtain n where "strnlen_loop m p mx (sz + 1) = Some n" "unat n = unat (sz + 1) + length cs'"
        "load_bytes m (p + uint (sz + 1)) (length cs') = Some cs'"
      using Suc.IH [of "sz + 1" cs'] cs'(1) next_sz Suc.prems(2) by (auto simp: add.assoc)
    then show ?thesis
      using False c lt cs' next_sz by (subst strnlen_loop.simps) (auto simp: add.assoc)
  qed
qed

lemma le_nat_0: "le_nat bs = 0 \<longleftrightarrow> all_zero bs"
proof (induction bs)
  case (Cons b bs)
  have "unat b = 0 \<longleftrightarrow> b = 0" by (simp add: unat_eq_zero)
  with Cons show ?case by (simp add: all_zero_def)
qed (simp add: all_zero_def)

lemma load_u32_bytes: "load_bytes m p 4 = Some bs \<Longrightarrow> \<exists>w. load_u32 m p = Some w \<and> unat w = le_nat bs"
  using load_u32_nat [of m p] by (cases "load_u32 m p") auto

lemma load_u32_zero: "map_option (\<lambda>bs. le_nat bs = 0) (load_bytes m p 4) = map_option (\<lambda>c. c = 0) (load_u32 m p)"
proof -
  have "map_option (\<lambda>bs. le_nat bs = 0) (load_bytes m p 4) = map_option (\<lambda>x. x = 0) (map_option le_nat (load_bytes m p 4))"
    by (simp add: option.map_comp comp_def)
  also have "\<dots> = map_option (\<lambda>c. c = 0) (load_u32 m p)"
    unfolding load_u32_nat by (simp add: option.map_comp comp_def unat_eq_0)
  finally show ?thesis .
qed

lemma load_ptr_bytes:
  assumes "load_bytes m p 8 = Some bs"
  shows "\<exists>q. load_ptr m p = Some q \<and> (q = 0 \<longleftrightarrow> all_zero bs)"
proof -
  have "uint (le_word bs :: u64) = int (le_nat bs)"
    using unat_le_word [of bs, where 'a = 64] load_bytes_length [OF assms] unfolding uint_nat by simp
  then show ?thesis using assms by (simp add: load_ptr_def load_u64_def le_nat_0)
qed

lemma zero_loop_load: "load_bytes m p n = Some bs \<Longrightarrow> zero_loop m p n = Some (all_zero bs)"
  by (induction n arbitrary: p bs) (auto simp: all_zero_def split: option.splits)

lemma zero_loop_pointer:
  assumes "load_bytes m p 8 = Some bs" "\<not> 8 < (ds :: u32)"
  shows "zero_loop m p (unat ds) = Some (all_zero (take (unat ds) bs))"
proof -
  have "unat ds \<le> 8" using assms(2) unfolding word_less_nat_alt by simp
  then show ?thesis by (intro zero_loop_load load_bytes_take_drop(1) [OF assms(1)])
qed

lemma value_checked:
  "value_absent m f p = Some b \<Longrightarrow> atype f \<noteq> PB_ATYPE_POINTER \<Longrightarrow> \<not> (atype f = PB_ATYPE_STATIC \<and> ltype f = PB_LTYPE_SUBMESSAGE) \<Longrightarrow>
   size_offset f = 0 \<Longrightarrow> htype f = PB_HTYPE_OPTIONAL \<or> htype f = PB_HTYPE_REPEATED \<and> atype f \<noteq> PB_ATYPE_STATIC \<Longrightarrow>
   pb_check_proto3_default_value (Suc n) E f p m = Some b"
  unfolding pb_check_proto3_default_value.simps value_absent_def Let_def load_u32_zero
  using zero_loop_load by (fastforce split: if_splits)

lemma all_zero_take: "all_zero bs \<Longrightarrow> all_zero (take n bs)"
  unfolding all_zero_def list_all_iff by (auto dest: in_set_takeD)

lemma pointer_checked:
  assumes "pointer_absent m f p = Some b" "atype f = PB_ATYPE_POINTER" "size_offset f = 0"
    and "htype f = PB_HTYPE_OPTIONAL \<or> htype f = PB_HTYPE_REPEATED"
  shows "pb_check_proto3_default_value (Suc n) E f p m = Some b"
proof -
  obtain bs where bs: "load_bytes m p 8 = Some bs" "b = all_zero bs"
      "scalar_type (ltype f) \<longrightarrow> \<not> 8 < data_size f \<and> (all_zero (take (unat (data_size f)) bs) \<longrightarrow> all_zero bs)"
    using assms(1) by (auto simp: pointer_absent_def split: option.splits if_splits)
  have pk: "scalar_type (ltype f) \<longleftrightarrow> \<not> PB_LTYPE_LAST_PACKABLE < ltype f"
    using scalar_type_packable [of f] by auto
  show ?thesis
  proof (cases "scalar_type (ltype f)")
    case True
    then have "zero_loop m p (unat (data_size f)) = Some b"
      using bs zero_loop_pointer [OF bs(1)] all_zero_take by auto
    then show ?thesis using assms True pk by auto
  next
    case False
    then show ?thesis using assms pk bs load_ptr_bytes [OF bs(1)] by auto
  qed
qed

lemma run_list_those:
  assumes "\<And>k b. k \<in> set ks \<Longrightarrow> h k = Some b \<Longrightarrow> chk k = Some b" "those (map h ks) = Some bs"
  shows "run_list (\<lambda>k u. map_option (\<lambda>b. (b, u)) (chk k)) ks u = Some (list_all (\<lambda>b. b) bs, u)"
  using assms
proof (induction ks arbitrary: bs)
  case (Cons k ks)
  from Cons.prems(2) obtain b bs' where b: "h k = Some b" "those (map h ks) = Some bs'" "bs = b # bs'"
    by (auto split: option.splits)
  then have "run_list (\<lambda>k u. map_option (\<lambda>b. (b, u)) (chk k)) ks u = Some (list_all (\<lambda>b. b) bs', u)"
    using Cons by simp
  then show ?case using b Cons.prems(1) [of k b] by (cases b) simp_all
qed simp

lemma submessage_checked:
  assumes sub: "\<And>g q b. member_absent n E m g q = Some b \<Longrightarrow> pb_check_proto3_default_value n E g q m = Some b"
    and flds: "flds = fields_of E (fptr f)" "fptr f \<noteq> 0" "wf_table flds" "p \<noteq> 0"
    and all: "those (map (\<lambda>k. member_absent n E m (flds ! k) (p + field_offset flds k)) [0..<nfields flds]) = Some bs"
    and f: "htype f = PB_HTYPE_OPTIONAL" "size_offset f = 0" "atype f = PB_ATYPE_STATIC" "ltype f = PB_LTYPE_SUBMESSAGE"
  shows "pb_check_proto3_default_value (Suc n) E f p m = Some (list_all (\<lambda>b. b) bs)"
proof -
  let ?body = "\<lambda>it (u :: unit). case it_field it of None \<Rightarrow> None
      | Some g \<Rightarrow> map_option (\<lambda>b. (b, u)) (pb_check_proto3_default_value n E g (pData it) m)"
  have len: "length flds = Suc (nfields flds)" by (rule wf_table_length [OF flds(3)])
  have run: "run_list (\<lambda>k. ?body (iter_at flds p k)) ks u =
      run_list (\<lambda>k u. map_option (\<lambda>b. (b, u)) (pb_check_proto3_default_value n E (flds ! k) (p + field_offset flds k) m)) ks u"
    if "set ks \<subseteq> {..<nfields flds}" for ks u
    using that len by (induction ks arbitrary: u) (auto simp: and_then_def split: option.split)
  have loop: "do_fields ?body (iter_at flds p 0) () = Some (list_all (\<lambda>b. b) bs, ())" if "nfields flds \<noteq> 0"
    using run_list_those [where u = "()" and h = "\<lambda>k. member_absent n E m (flds ! k) (p + field_offset flds k)" and
        chk = "\<lambda>k. pb_check_proto3_default_value n E (flds ! k) (p + field_offset flds k) m", OF sub all] run [of "[0..<nfields flds]" "()"] that
    by (simp add: do_fields_run [OF flds(3,4)] run_list_map lessThan_atLeast0)
  have "bs = []" if "nfields flds = 0" using all that by simp
  then show ?thesis
    using loop iter_begin_at [OF flds(3,4)] flds(2) f
    unfolding pb_check_proto3_default_value.simps Let_def flds(1) [symmetric] by (cases "nfields flds = 0") simp_all
qed

lemma member_checked: "member_absent n E m f p = Some b \<Longrightarrow> pb_check_proto3_default_value n E f p m = Some b"
proof (induction n arbitrary: f p b)
  case (Suc n)
  note abs = Suc.prems [unfolded member_absent.simps Let_def]
  consider (fixed) "htype f = PB_HTYPE_REQUIRED \<or> htype f = PB_HTYPE_REPEATED \<and> size_offset f = 0 \<and> atype f = PB_ATYPE_STATIC"
    | (counted) "htype f = PB_HTYPE_ONEOF \<or> htype f = PB_HTYPE_REPEATED \<and> size_offset f \<noteq> 0"
    | (flag) "htype f = PB_HTYPE_OPTIONAL" "size_offset f \<noteq> 0"
    | (rest) "size_offset f = 0" "htype f = PB_HTYPE_OPTIONAL \<or> htype f = PB_HTYPE_REPEATED \<and> atype f \<noteq> PB_ATYPE_STATIC"
    using htype_cases [of "ftype f"] by blast
  then show ?case
  proof cases
    case fixed
    then show ?thesis using abs by auto
  next
    case counted
    then have "map_option (\<lambda>c. c = 0) (load_u32 m (p + sint (size_offset f))) = Some b"
      using abs by (auto simp: load_u32_zero)
    then show ?thesis using counted by auto
  next
    case flag
    then show ?thesis using abs by (auto simp: safe_read_bool_def)
  next
    case rest
    show ?thesis
    proof (cases "atype f = PB_ATYPE_STATIC \<and> ltype f = PB_LTYPE_SUBMESSAGE")
      case True
      then have "htype f = PB_HTYPE_OPTIONAL" using rest by auto
      then show ?thesis
        using abs rest True submessage_checked [OF Suc.IH refl] by (auto split: if_splits)
    next
      case False
      then have "(if atype f = PB_ATYPE_POINTER then pointer_absent m f p else value_absent m f p) = Some b"
        using abs rest by (auto split: if_splits)
      then show ?thesis
        using rest False pointer_checked [of m f p b n E] value_checked [of m f p b n E]
        by (auto split: if_splits simp del: pb_check_proto3_default_value.simps)
    qed
  qed
qed simp

section \<open>Emitting sequences\<close>

lemma run_list_emits:
  assumes "\<And>x bs. x \<in> set xs \<Longrightarrow> spec x = Some bs \<Longrightarrow> emits (\<lambda>s m. body x (s, m)) m0 bs"
  shows "collect spec xs = Some bs \<Longrightarrow> emits (\<lambda>s m. run_list body xs (s, m)) m0 bs"
  using assms
proof (induction xs arbitrary: bs)
  case (Cons x xs)
  from Cons.prems(1) obtain b bs' where b: "spec x = Some b" "collect spec xs = Some bs'" "bs = b @ bs'"
    by (auto split: option.splits)
  have "emits (\<lambda>s m. body x (s, m)) m0 b" using Cons.prems(2) b(1) by simp
  moreover have "emits (\<lambda>s m. run_list body xs (s, m)) m0 bs'" using Cons b(2) by simp
  ultimately have "emits (\<lambda>s m. and_then (body x (s, m)) (\<lambda>(s, m). run_list body xs (s, m))) m0 (b @ bs')"
    by (rule emits_seq)
  then show ?case using b(3) by simp
qed (simp add: emits_nil)

lemma array_loop_emits:
  assumes "\<And>p bs. spec p = Some bs \<Longrightarrow> emits (body p) m0 bs"
  shows "collect spec (item_addrs p ds n) = Some bs \<Longrightarrow> emits (array_loop body ds n p) m0 bs"
proof (induction n arbitrary: p bs)
  case 0
  then show ?case using emits_nil by (simp add: emits_def)
next
  case (Suc n)
  then obtain b bs' where b: "spec p = Some b" "collect spec (item_addrs (p + uint ds) ds n) = Some bs'" "bs = b @ bs'"
    by (auto split: option.splits)
  have "emits (\<lambda>s m. and_then (body p s m) (\<lambda>(s, m). array_loop body ds n (p + uint ds) s m)) m0 (b @ bs')"
    using assms [OF b(1)] Suc.IH [OF b(2)] by (rule emits_seq)
  then show ?case using b(3) by (simp add: emits_def)
qed

text \<open>
  The two passes of a submessage: given that the nested encoder emits \<open>bs\<close>, the first pass counts
  \<open>length bs\<close>, and the second writes \<open>bs\<close> through a substream limited to that size.
\<close>

lemma pb_encode_submessage_emits:
  assumes enc: "emits (enc flds src) m0 bs" and len: "length bs < 2 ^ 64"
  shows "emits (pb_encode_submessage enc E flds src) m0 (leb128 (length bs) @ bs)"
proof -
  define sz :: u64 where "sz = of_nat (length bs)"
  have sz: "unat sz = length bs" using len by (simp add: sz_def unat_u64_of_nat)
  define sub where "sub s = \<lparr>os_callback = os_callback s, os_state = os_state s, max_size = sz,
    bytes_written = 0, os_errmsg = None\<rparr>" for s :: pb_ostream
  define g where "g s m =
     (if os_callback s = OC_null then pb_write E WNull sz s m
      else if max_size s < bytes_written s + sz then Some (False, os_set_error s ''stream full'', m)
      else (case enc flds src (sub s) m of None \<Rightarrow> None
        | Some (status, substream, m) \<Rightarrow>
            (let s = s\<lparr>bytes_written := bytes_written s + bytes_written substream,
                       os_state := os_state substream, os_errmsg := os_errmsg substream\<rparr>
             in if bytes_written substream \<noteq> sz then Some (False, os_set_error s ''submsg size changed'', m)
                else Some (status, s, m))))" for s m
  have "emits g m0 bs"
  proof (rule emitsI)
    fix s :: pb_ostream and m
    assume "os_callback s = OC_null"
    then show "g s m = Some (True, count_only s (length bs), m)"
      by (simp add: g_def pb_write_sizing sz)
  next
    fix s :: pb_ostream and m
    assume ok: "obuf_ok m0 s m" and le: "length bs \<le> room s"
    have room: "room (sub s) = length bs" by (simp add: room_def sub_def sz)
    have cb: "os_callback s = OC_buf_write" "os_errmsg s = None" using ok by (simp_all add: obuf_ok_def)
    have "obuf_ok m0 (sub s) m"
      using ok le region_disjoint_sub [of "os_state s" "room s" "dom m0" "os_state s" "length bs"]
        mapped_sub [of m "os_state s" "room s" "os_state s" "length bs"]
      unfolding obuf_ok_def room by (simp add: sub_def)
    then have "enc flds src (sub s) m = Some (True, advance (sub s) (length bs), put_bytes m (os_state s) bs)"
      using emits_room [OF enc, of "sub s" m] room by (simp add: sub_def)
    moreover have "\<not> max_size s < bytes_written s + sz"
      using written_advance [OF ok le] obuf_le [OF ok] le by (simp add: sz_def word_less_nat_alt)
    ultimately show "g s m = Some (True, advance s (length bs), put_bytes m (os_state s) bs)"
      using cb by (simp add: g_def sub_def sz_def advance_def)
  next
    fix s :: pb_ostream and m
    assume ok: "obuf_ok m0 s m" and gt: "room s < length bs" and lt: "unat (bytes_written s) + length bs < 2 ^ 64"
    have "unat (bytes_written s + sz) = unat (bytes_written s) + length bs"
      using lt by (simp add: unat_u64_add sz)
    then have "max_size s < bytes_written s + sz"
      using obuf_le [OF ok] gt by (simp add: word_less_nat_alt)
    then show "overflows s m (g s m)"
      using ok by (simp add: g_def overflows_def obuf_ok_def os_set_error_def)
  qed
  then have "emits (\<lambda>s m. and_then (pb_encode_varint E sz s m) (\<lambda>(s, m). g s m)) m0 (leb128 (length bs) @ bs)"
    using emits_seq [OF pb_encode_varint_emits, of g m0 bs E sz] by (simp add: sz)
  moreover have "pb_encode_submessage enc E flds src s m = and_then (pb_encode_varint E sz s m) (\<lambda>(s, m). g s m)"
    if "m0 \<subseteq>\<^sub>m m" for s m
    using emits_sizing [OF enc, of PB_OSTREAM_SIZING m] that len
    unfolding pb_encode_submessage_def g_def sub_def by (simp add: PB_OSTREAM_SIZING_def sz_def [symmetric])
  ultimately show ?thesis by (auto intro: emits_cong)
qed

section \<open>Element encoders\<close>

lemma pb_enc_bool_emits:
  assumes "map_option (\<lambda>b. if b = 0 then [0] else [1]) (m0 src) = Some bs"
  shows "emits (pb_enc_bool E f src) m0 bs"
proof -
  have "leb128 0 = [0]" "leb128 1 = [1]" by (simp_all add: leb128.simps)
  then obtain b where b: "m0 src = Some b" "bs = leb128 (if b = 0 then 0 else 1)" using assms by auto
  show ?thesis
  proof (rule emits_cong)
    fix s m assume "m0 \<subseteq>\<^sub>m m"
    with b show "pb_enc_bool E f src s m = pb_encode_varint E (if b \<noteq> 0 then 1 else 0) s m"
      by (simp add: pb_enc_bool_def safe_read_bool_def load_byte_mono)
  qed (use pb_encode_varint_emits [of E "if b \<noteq> 0 then 1 else 0" m0] b in \<open>simp split: if_splits\<close>)
qed

lemma unat_twos_complement: "sint v = twos_complement xs \<Longrightarrow> unat (v :: u64) = nat (twos_complement xs mod 2 ^ 64)"
  using uint_sint [of v] by (simp add: take_bit_eq_mod unat_eq_nat_uint)

lemma int_bytesE:
  assumes "int_bytes value_of m f src = Some bs"
  obtains xs where "data_size f \<in> set [1, 2, 4, 8]" "load_bytes m src (unat (data_size f)) = Some xs" "bs = leb128 (value_of xs)"
  using assms unfolding int_bytes_def by (auto split: if_splits simp del: list.set)

lemma pb_enc_varint_emits:
  assumes "int_bytes (\<lambda>xs. nat (twos_complement xs mod 2 ^ 64)) m0 f src = Some bs"
  shows "emits (pb_enc_varint E f src) m0 bs"
proof -
  from assms obtain xs v where v: "load_signed m0 (data_size f) src = Some (Some v)" "bs = leb128 (unat v)"
    by (elim int_bytesE) (metis load_signed_reads unat_twos_complement)
  show ?thesis unfolding v(2)
    by (rule emits_cong [OF _ pb_encode_varint_emits]) (use load_signed_mono [OF _ v(1)] in \<open>simp add: pb_enc_varint_def\<close>)
qed

lemma pb_enc_uvarint_emits:
  assumes "int_bytes le_nat m0 f src = Some bs"
  shows "emits (pb_enc_uvarint E f src) m0 bs"
proof -
  from assms obtain xs v where v: "load_unsigned m0 (data_size f) src = Some (Some v)" "bs = leb128 (unat v)"
    by (elim int_bytesE) (metis load_unsigned_reads)
  show ?thesis unfolding v(2)
    by (rule emits_cong [OF _ pb_encode_varint_emits]) (use load_unsigned_mono [OF _ v(1)] in \<open>simp add: pb_enc_uvarint_def\<close>)
qed

lemma pb_enc_svarint_emits:
  assumes "int_bytes (\<lambda>xs. zigzag (twos_complement xs)) m0 f src = Some bs"
  shows "emits (pb_enc_svarint E f src) m0 bs"
proof -
  from assms obtain xs v where v: "load_signed m0 (data_size f) src = Some (Some v)" "bs = leb128 (zigzag (sint v))"
    by (elim int_bytesE) (metis load_signed_reads)
  show ?thesis unfolding v(2)
    by (rule emits_cong [OF _ pb_encode_svarint_emits]) (use load_signed_mono [OF _ v(1)] in \<open>simp add: pb_enc_svarint_def\<close>)
qed

lemma mem_string_emits:
  assumes "load_bytes m0 a (unat sz) = Some bs"
  shows "emits (pb_encode_string E (WMem a) sz) m0 (leb128 (length bs) @ bs)"
proof -
  have "sz = of_nat (length bs)" "length bs < 2 ^ 64"
    using assms unat_u64_lt [of sz] by (auto dest: load_bytes_length)
  with assms show ?thesis
    using pb_encode_string_emits [of m0 "WMem a" bs E] by (simp add: wbuf_reads_def unat_u64_of_nat)
qed

lemma null_string_emits: "emits (pb_encode_string E WNull 0) m0 (leb128 0)"
  using pb_encode_string_emits [of m0 WNull "[]" E] by (simp add: wbuf_reads_def)

lemma delimitedE:
  assumes "Option.bind x delimited = Some bs"
  obtains xs where "x = Some xs" "length xs < 2 ^ 64" "bs = leb128 (length xs) @ xs"
  using assms by (auto simp: delimited_def bind_eq_Some_conv split: if_splits)

lemma delimited_eq: "delimited xs = Some bs \<longleftrightarrow> length xs < 2 ^ 64 \<and> bs = leb128 (length xs) @ xs"
  by (auto simp: delimited_def)

lemma unat_ucast_u32 [simp]: "unat (ucast (w :: u32) :: u64) = unat w"
  using unat_u32_lt [of w] by (simp add: unsigned_ucast_eq take_bit_eq_mod)

lemma pb_enc_bytes_emits:
  assumes "bytes_field_bytes m0 f src = Some bs"
  shows "emits (pb_enc_bytes E f src) m0 bs"
proof (cases "src = 0")
  case True
  with assms null_string_emits [of E m0] show ?thesis
    unfolding pb_enc_bytes_def bytes_field_bytes_def by (simp add: delimited_def)
next
  case False
  then obtain zs xs where zs: "load_bytes m0 src 4 = Some zs" "load_bytes m0 (src + 4) (le_nat zs) = Some xs"
      "\<not> (atype f = PB_ATYPE_STATIC \<and> unat (data_size f) < 4 + le_nat zs)" "bs = leb128 (length xs) @ xs"
    using assms by (auto simp: bytes_field_bytes_def bind_eq_Some_conv delimited_eq split: if_splits)
  obtain sz where sz: "load_u32 m0 src = Some sz" "unat sz = le_nat zs" using load_u32_bytes [OF zs(1)] by blast
  have "(ucast (data_size f) :: u64) - 4 < ucast sz \<longleftrightarrow> unat (data_size f) < 4 + unat sz" if "4 \<le> unat (data_size f)"
  proof -
    have "(4 :: u64) \<le> ucast (data_size f)" using that by (simp add: word_le_nat_alt)
    then have "unat ((ucast (data_size f) :: u64) - 4) = unat (data_size f) - 4" by (simp add: unat_sub)
    then show ?thesis using that by (subst word_less_nat_alt) (simp add: less_diff_conv2 add.commute)
  qed
  then have fits: "\<not> (atype f = PB_ATYPE_STATIC \<and> (ucast (data_size f) :: u64) - 4 < ucast sz)"
    using zs(3) sz(2) by auto
  have xs: "load_bytes m0 (src + 4) (unat sz) = Some xs" "bs = leb128 (length xs) @ xs" using zs sz by simp_all
  have "emits (pb_encode_string E (WMem (src + 4)) (ucast sz)) m0 bs"
    using mem_string_emits [of m0 "src + 4" "ucast sz" xs E] xs by simp
  then show ?thesis
    by (rule emits_cong [rotated]) (use False sz(1) fits in \<open>auto simp: pb_enc_bytes_def dest: load_u32_mono\<close>)
qed

lemma pb_enc_string_emits:
  assumes "string_field_bytes m0 f src = Some bs"
  shows "emits (pb_enc_string E f src) m0 bs"
proof (cases "src = 0")
  case True
  with assms null_string_emits [of E m0] show ?thesis
    unfolding pb_enc_string_def string_field_bytes_def by (simp add: delimited_def)
next
  case False
  let ?mx = "(if atype f = PB_ATYPE_POINTER then - 1 else ucast (data_size f)) :: u64"
  have mx: "unat ?mx = (if atype f = PB_ATYPE_POINTER then 2 ^ 64 - 1 else unat (data_size f))"
    by (simp add: unsigned_minus_1_eq_mask mask_eq_exp_minus_1)
  from assms False obtain xs where "c_string m0 src (unat ?mx) = Some xs" and bs: "bs = leb128 (length xs) @ xs"
    unfolding string_field_bytes_def mx
    by (cases "atype f = PB_ATYPE_POINTER") (auto simp: bind_eq_Some_conv delimited_eq simp del: c_string.simps)
  then obtain sz where sz: "strnlen_loop m0 src ?mx 0 = Some sz" "unat sz = length xs" "load_bytes m0 src (length xs) = Some xs"
    using strnlen_c_string [of m0 src 0 "unat ?mx" xs ?mx] by auto
  then have xs: "load_bytes m0 src (unat sz) = Some xs" "bs = leb128 (length xs) @ xs" using bs by simp_all
  have "emits (pb_encode_string E (WMem src) sz) m0 bs"
    using mem_string_emits xs by simp
  then show ?thesis
    by (rule emits_cong [rotated]) (use False strnlen_loop_mono [OF _ sz(1)] in \<open>simp add: pb_enc_string_def\<close>)
qed

lemma pb_enc_fixed_length_bytes_emits:
  assumes "Option.bind (load_bytes m0 src (unat (data_size f))) delimited = Some bs"
  shows "emits (pb_enc_fixed_length_bytes E f src) m0 bs"
  using assms mem_string_emits [of m0 src "ucast (data_size f)"]
  unfolding pb_enc_fixed_length_bytes_def by (auto elim!: delimitedE)

text \<open>
  What a nested message encoder owes: on every table and source address for which the reference
  encoding exists, it emits that encoding.
\<close>

definition implements :: "msg_encoder \<Rightarrow> mem \<Rightarrow> (pb_field list \<Rightarrow> addr \<Rightarrow> u8 list option) \<Rightarrow> bool" where
  "implements enc m0 sub \<longleftrightarrow> (\<forall>flds src bs. sub flds src = Some bs \<longrightarrow> emits (enc flds src) m0 bs)"

lemma PB_ENCODERS_emits:
  assumes "implements enc m0 sub" and "elem_bytes sub E m0 f src = Some bs"
  shows "emits (PB_ENCODERS enc E (ltype f) f src) m0 bs"
proof -
  have "emits (pb_enc_submessage enc E f src) m0 bs"
    if "fptr f \<noteq> 0" "Option.bind (sub (fields_of E (fptr f)) src) delimited = Some bs"
    using that assms(1) pb_encode_submessage_emits [of enc "fields_of E (fptr f)" src m0]
    unfolding pb_enc_submessage_def implements_def by (auto elim!: delimitedE)
  moreover have "emits (pb_enc_fixed32 E f src) m0 bs" if "load_bytes m0 src 4 = Some bs"
    using that pb_encode_fixed32_emits unfolding pb_enc_fixed32_def by blast
  moreover have "emits (pb_enc_fixed64 E f src) m0 bs" if "load_bytes m0 src 8 = Some bs"
    using that pb_encode_fixed64_emits unfolding pb_enc_fixed64_def by blast
  ultimately show ?thesis
    using assms(2) pb_enc_bool_emits pb_enc_varint_emits pb_enc_uvarint_emits pb_enc_svarint_emits
      pb_enc_bytes_emits pb_enc_string_emits pb_enc_fixed_length_bytes_emits
    unfolding PB_ENCODERS_def elem_bytes_def by (auto simp del: map_option_eq_Some split: if_splits)
qed

section \<open>Arrays\<close>

lemma emits_shortcut:
  assumes "emits f m0 xs" "length xs < 2 ^ 64"
  shows "emits (\<lambda>s m. if os_callback s = OC_null then pb_write E WNull (of_nat (length xs)) s m else f s m) m0 xs"
  using assms(1) pb_write_sizing unat_u64_of_nat [OF assms(2)]
  by (intro emitsI) (auto simp: obuf_ok_def dest: emits_room emits_full)

lemma length_collect:
  "(\<And>x b. f x = Some b \<Longrightarrow> length b = k) \<Longrightarrow> collect f xs = Some bs \<Longrightarrow> length bs = k * length xs"
  by (induction xs arbitrary: bs) (auto split: option.splits)

lemma length_item_addrs [simp]: "length (item_addrs p ds n) = n"
  by (induction n arbitrary: p) simp_all

text \<open>
  What \<open>encode_array\<close> relies on: the element encoder emits the reference encoding of every element,
  and the elements of fixed width types have that width (their packed size is computed, not
  measured).
\<close>

locale element_encoder =
  fixes m0 :: mem and f :: pb_field and func :: "pb_field \<Rightarrow> addr \<Rightarrow> emitter" and elem :: "addr \<Rightarrow> u8 list option"
  assumes func_emits: "elem p = Some bs \<Longrightarrow> emits (func f p) m0 bs"
    and fixed32_length: "ltype f = PB_LTYPE_FIXED32 \<Longrightarrow> elem p = Some bs \<Longrightarrow> length bs = 4"
    and fixed64_length: "ltype f = PB_LTYPE_FIXED64 \<Longrightarrow> elem p = Some bs \<Longrightarrow> length bs = 8"
begin

lemma keyed_emits:
  assumes "keyed f (elem p) = Some bs"
  shows "emits (\<lambda>s m. and_then (pb_encode_tag_for_field E f s m) (\<lambda>(s, m). func f p s m)) m0 bs"
proof -
  obtain wt b where "wiretype_of (ltype f) = Some wt" "elem p = Some b" "bs = key_bytes wt (tag f) @ b"
    using assms by (auto simp: keyed_def wiretype_of_wire_type split: option.splits)
  then show ?thesis
    using emits_seq [OF pb_encode_tag_for_field_emits func_emits] by simp
qed

lemma item_emits:
  assumes "item_bytes m0 f elem p = Some bs"
  shows "emits (encode_item E f func p) m0 bs"
proof (cases "atype f = PB_ATYPE_POINTER \<and> (ltype f = PB_LTYPE_STRING \<or> ltype f = PB_LTYPE_BYTES)")
  case True
  with assms obtain wt q b where q: "wiretype_of (ltype f) = Some wt" "load_ptr m0 p = Some q" "elem q = Some b"
      "bs = key_bytes wt (tag f) @ b"
    by (auto simp: item_bytes_def keyed_def bind_eq_Some_conv wiretype_of_wire_type split: option.splits)
  have "emits (\<lambda>s m. case load_ptr m p of None \<Rightarrow> None | Some q \<Rightarrow> func f q s m) m0 b"
    by (rule emits_cong [OF _ func_emits [OF q(3)]]) (use load_ptr_mono [OF _ q(2)] in simp)
  from emits_seq [OF pb_encode_tag_for_field_emits [OF q(1)] this] show ?thesis
    using True q(4) unfolding encode_item_def by simp
next
  case False
  then show ?thesis
    using keyed_emits assms unfolding item_bytes_def encode_item_def by (simp only: False if_False)
qed

lemma packed_size_eq:
  assumes "collect elem (item_addrs pdata (data_size f) (unat count)) = Some xs" "length xs < 2 ^ 64" "m0 \<subseteq>\<^sub>m m"
  shows "packed_size f pdata count func m = Some (True, of_nat (length xs), m)"
proof -
  have count: "count = of_nat (unat count)" by simp
  have 32: "of_nat (length xs) = 4 * count" if "ltype f = PB_LTYPE_FIXED32"
    by (subst count) (simp add: length_collect [OF fixed32_length [OF that] assms(1)])
  have 64: "of_nat (length xs) = 8 * count" if "ltype f = PB_LTYPE_FIXED64"
    by (subst count) (simp add: length_collect [OF fixed64_length [OF that] assms(1)])
  have "array_loop (func f) (data_size f) (unat count) pdata PB_OSTREAM_SIZING m =
      Some (True, count_only PB_OSTREAM_SIZING (length xs), m)"
    using array_loop_emits [of elem "func f" m0, OF func_emits assms(1)] assms(2,3)
    by (intro emits_sizing) (auto simp: PB_OSTREAM_SIZING_def)
  then show ?thesis
    using 32 64 by (simp add: packed_size_def PB_OSTREAM_SIZING_def)
qed

lemma array_emits:
  fixes count :: u32
  assumes bs: "array_bytes m0 f elem pdata (unat count) = Some bs"
  shows "emits (encode_array E f pdata (ucast count) func) m0 bs"
proof -
  have c0: "(ucast count :: u64) = 0 \<longleftrightarrow> count = 0" and lt: "(ucast (array_size f) :: u64) < ucast count \<longleftrightarrow> array_size f < count"
    by (simp_all add: word_unat_eq_iff word_less_nat_alt)
  consider "count = 0" "bs = []"
    | (packed) xs where "count \<noteq> 0" "atype f = PB_ATYPE_POINTER \<or> \<not> array_size f < count" "ltype f \<le> PB_LTYPE_LAST_PACKABLE"
        "collect elem (item_addrs pdata (data_size f) (unat count)) = Some xs" "length xs < 2 ^ 64"
        "bs = key_bytes PB_WT_STRING (tag f) @ leb128 (length xs) @ xs"
    | (unpacked) "count \<noteq> 0" "atype f = PB_ATYPE_POINTER \<or> \<not> array_size f < count" "\<not> ltype f \<le> PB_LTYPE_LAST_PACKABLE"
        "collect (item_bytes m0 f elem) (item_addrs pdata (data_size f) (unat count)) = Some bs"
    using bs unfolding array_bytes_def scalar_type_packable PB_WT_STRING_def
    by (auto elim!: delimitedE simp: unat_eq_0 word_less_nat_alt split: if_splits)
  then show ?thesis
  proof cases
    case 1
    then show ?thesis using emits_nil unfolding encode_array_def by simp
  next
    case unpacked
    have "emits (array_loop (encode_item E f func) (data_size f) (unat count) pdata) m0 bs"
      by (rule array_loop_emits [OF item_emits unpacked(4)])
    then show ?thesis using unpacked(1-3) c0 lt unfolding encode_array_def by auto
  next
    case packed
    let ?loop = "array_loop (func f) (data_size f) (unat count) pdata"
    let ?rest = "\<lambda>s m. case packed_size f pdata (ucast count) func m of None \<Rightarrow> None
      | Some (ok, sz, m) \<Rightarrow> if \<not> ok then Some (False, s, m)
          else and_then (pb_encode_varint E sz s m) (\<lambda>(s, m).
            if os_callback s = OC_null then pb_write E WNull sz s m else ?loop s m)"
    have "emits ?rest m0 (leb128 (length xs) @ xs)"
    proof (rule emits_cong)
      have v: "emits (pb_encode_varint E (of_nat (length xs))) m0 (leb128 (length xs))"
        using pb_encode_varint_emits [of E "of_nat (length xs)" m0] packed(5) by (simp add: unat_u64_of_nat)
      have "emits ?loop m0 xs" by (rule array_loop_emits [OF func_emits packed(4)])
      from emits_seq [OF v emits_shortcut [OF this packed(5)]]
      show "emits (\<lambda>s m. and_then (pb_encode_varint E (of_nat (length xs)) s m) (\<lambda>(s, m).
          if os_callback s = OC_null then pb_write E WNull (of_nat (length xs)) s m else ?loop s m))
        m0 (leb128 (length xs) @ xs)" by simp
    qed (use packed_size_eq packed in simp)
    from emits_seq [OF pb_encode_tag_emits this, of PB_WT_STRING E "tag f"]
    have "emits (\<lambda>s m. and_then (pb_encode_tag E PB_WT_STRING (tag f) s m) (\<lambda>(s, m). ?rest s m)) m0 bs"
      using packed(6) by (simp add: PB_WT_STRING_def)
    moreover have guard: "(atype f \<noteq> PB_ATYPE_POINTER \<and> array_size f < count) = False" using packed(2) by blast
    ultimately show ?thesis
      using packed(1,3) c0 unfolding encode_array_def unat_ucast_u32 lt guard by simp
  qed
qed

end

section \<open>Fields and messages\<close>

lemma overflows_callback_error:
  "overflows s m r \<Longrightarrow> overflows s m (case r of None \<Rightarrow> None
    | Some (ok, s, m) \<Rightarrow> if ok then Some (True, s, m) else Some (False, os_set_error s e, m))"
  by (auto simp: overflows_def os_set_error_def)

lemma emits_callback_error:
  assumes "emits f m0 bs"
  shows "emits (\<lambda>s m. case f s m of None \<Rightarrow> None
    | Some (ok, s, m) \<Rightarrow> if ok then Some (True, s, m) else Some (False, os_set_error s e, m)) m0 bs"
  using emits_sizing [OF assms] emits_room [OF assms] overflows_callback_error [OF emits_full [OF assms]]
  by (intro emitsI) simp_all

text \<open>
  The interface between \<open>pb_encode\<close> and what it calls back: the nested message encoder implements
  the reference encoding, and the user callbacks emit what their specification says.
\<close>

locale message_encoder =
  fixes m0 :: mem and E :: pb_env and C :: cb_spec and enc :: msg_encoder
    and sub :: "pb_field list \<Rightarrow> addr \<Rightarrow> u8 list option"
  assumes enc_implements: "implements enc m0 sub"
    and field_callback: "cb_field C fn f arg m0 = Some bs \<Longrightarrow> emits (\<lambda>s m. encode_cb E fn s f arg m) m0 bs"
    and ext_callback: "cb_ext C fn ext m0 = Some bs \<Longrightarrow> emits (\<lambda>s m. ext_encode_cb E fn s ext m) m0 bs"

sublocale message_encoder \<subseteq> el: element_encoder m0 f "PB_ENCODERS enc E (ltype f)" "elem_bytes sub E m0 f" for f
proof
  show "elem_bytes sub E m0 f p = Some bs \<Longrightarrow> emits (PB_ENCODERS enc E (ltype f) f p) m0 bs" for p bs
    by (rule PB_ENCODERS_emits [OF enc_implements])
qed (auto simp: elem_bytes_def split: if_splits)

context message_encoder
begin

lemma presence_checked:
  assumes "member_present n E m f p = Some has" "(if atype f = PB_ATYPE_POINTER then load_ptr m p else Some p) = Some pdata"
    and opt: "htype f = PB_HTYPE_OPTIONAL"
  shows "(if size_offset f \<noteq> 0 then safe_read_bool m (p + sint (size_offset f))
    else map_option (\<lambda>z. if atype f = PB_ATYPE_POINTER then pdata \<noteq> 0 else \<not> z) (pb_check_proto3_default_value n E f p m)) = Some has"
proof -
  consider (flag) "size_offset f \<noteq> 0" | (ptr) "size_offset f = 0" "atype f = PB_ATYPE_POINTER"
    | (val) "size_offset f = 0" "atype f \<noteq> PB_ATYPE_POINTER" by blast
  then show ?thesis
  proof cases
    case flag
    then show ?thesis using assms(1) by (auto simp: member_present_def safe_read_bool_def)
  next
    case val
    then show ?thesis using assms(1) member_checked by (fastforce simp: member_present_def)
  next
    case ptr
    then obtain k bs where k: "n = Suc k" "load_bytes m p 8 = Some bs" "has = (\<not> all_zero bs)"
        "\<not> (scalar_type (ltype f) \<and> 8 < data_size f)"
      using assms(1) by (cases n) (auto simp: member_present_def split: if_splits)
    have "\<exists>z. pb_check_proto3_default_value n E f p m = Some z"
    proof (cases "scalar_type (ltype f)")
      case True
      then show ?thesis using zero_loop_pointer [OF k(2)] k ptr opt scalar_type_packable [of f] by auto
    next
      case False
      then show ?thesis using load_ptr_bytes [OF k(2)] k ptr opt scalar_type_packable [of f] by auto
    qed
    then show ?thesis using load_ptr_bytes [OF k(2)] k ptr assms(2) by auto
  qed
qed

lemma basic_field_emits:
  assumes "basic_field_bytes n sub E m0 f pdata0 = Some bs"
  shows "emits (encode_basic_field n enc E f pdata0) m0 bs"
proof -
  let ?pd = "\<lambda>m. if atype f = PB_ATYPE_POINTER then load_ptr m pdata0 else Some pdata0"
  let ?aux = "pdata0 + sint (size_offset f)"
  let ?el = "elem_bytes sub E m0 f" and ?func = "PB_ENCODERS enc E (ltype f)"
  let ?keyed = "\<lambda>p s m. and_then (pb_encode_tag_for_field E f s m) (\<lambda>(s, m). ?func f p s m)"
  obtain pdata where pdata: "?pd m0 = Some pdata" using assms by (auto simp: basic_field_bytes_def bind_eq_Some_conv)
  note rest = assms [unfolded basic_field_bytes_def pdata Option.bind.simps Let_def]
  have pd: "?pd m = Some pdata" if "m0 \<subseteq>\<^sub>m m" for m
    using pdata load_ptr_mono [OF that] by (auto split: if_splits)
  note fieldI = emits_cong [where f = "encode_basic_field n enc E f pdata0"]
  consider (required) "htype f = PB_HTYPE_REQUIRED" | (optional) "htype f = PB_HTYPE_OPTIONAL"
    | (repeated) "htype f = PB_HTYPE_REPEATED" | (oneof) "htype f = PB_HTYPE_ONEOF"
    using htype_cases by blast
  then show ?thesis
  proof cases
    case required
    then have "pdata \<noteq> 0" "keyed f (?el pdata) = Some bs" using rest by (auto split: if_splits)
    then show ?thesis
      by (intro fieldI [OF _ el.keyed_emits [of f pdata bs E]])
        (simp_all add: encode_basic_field_def Let_def required pd)
  next
    case repeated
    then obtain c where c: "(if size_offset f \<noteq> 0 then map_option le_nat (load_bytes m0 ?aux 4)
        else Some (unat (array_size f))) = Some c" "array_bytes m0 f ?el pdata c = Some bs"
      using rest by (auto simp: bind_eq_Some_conv simp del: not_gr_zero map_option_eq_Some)
    then obtain count where count: "(if size_offset f \<noteq> 0 then load_u32 m0 ?aux else Some (array_size f)) = Some count"
        "array_bytes m0 f ?el pdata (unat count) = Some bs"
      by (auto simp: load_u32_nat split: if_splits)
    have "(if size_offset f \<noteq> 0 then load_u32 m ?aux else Some (array_size f)) = Some count" if "m0 \<subseteq>\<^sub>m m" for m
      using count(1) load_u32_mono [OF that] by (auto split: if_splits)
    then have "encode_basic_field n enc E f pdata0 s m = encode_array E f pdata (ucast count) ?func s m"
      if "m0 \<subseteq>\<^sub>m m" for s m
      using that by (auto simp: encode_basic_field_def Let_def repeated pd [OF that] split: if_splits)
    then show ?thesis by (intro fieldI [OF _ el.array_emits [OF count(2), of E]])
  next
    case oneof
    then obtain which where which: "size_offset f \<noteq> 0" "load_u32 m0 ?aux = Some which"
        "(if which = tag f then keyed f (?el pdata) else Some []) = Some bs"
      using rest by (auto simp: bind_eq_Some_conv load_u32_nat word_unat_eq_iff [symmetric] split: if_splits simp del: map_option_eq_Some)
    have eq: "encode_basic_field n enc E f pdata0 s m = (if which = tag f then ?keyed pdata s m else Some (True, s, m))"
      if "m0 \<subseteq>\<^sub>m m" for s m
      using which load_u32_mono [OF that which(2)] by (simp add: encode_basic_field_def Let_def oneof pd [OF that])
    show ?thesis
      using which(3) el.keyed_emits [of f pdata bs E] emits_nil
      by (intro fieldI [OF eq]) (auto split: if_splits)
  next
    case optional
    let ?has = "\<lambda>m. if size_offset f \<noteq> 0 then safe_read_bool m ?aux
      else map_option (\<lambda>z. if atype f = PB_ATYPE_POINTER then pdata \<noteq> 0 else \<not> z) (pb_check_proto3_default_value n E f pdata0 m)"
    obtain has where has: "member_present n E m0 f pdata0 = Some has"
        "(if has then keyed f (?el pdata) else Some []) = Some bs"
      using rest optional by (auto simp: bind_eq_Some_conv simp del: not_gr_zero)
    have has0: "?has m0 = Some has" by (rule presence_checked [OF has(1) pdata optional])
    have hasm: "?has m = Some has" if "m0 \<subseteq>\<^sub>m m" for m
      using has0 safe_read_bool_mono [OF that] le_optD [OF check_proto3_mono [OF that]] by (auto split: if_splits)
    have eq: "encode_basic_field n enc E f pdata0 s m = (if has then ?keyed pdata s m else Some (True, s, m))"
      if le: "m0 \<subseteq>\<^sub>m m" for s m
    proof (cases "size_offset f = 0")
      case True
      then obtain z where z: "pb_check_proto3_default_value n E f pdata0 m = Some z"
          "has = (if atype f = PB_ATYPE_POINTER then pdata \<noteq> 0 else \<not> z)"
        using hasm [OF le] by auto
      then show ?thesis
        unfolding encode_basic_field_def Let_def pd [OF le] using True optional by simp
    next
      case False
      then show ?thesis
        unfolding encode_basic_field_def Let_def pd [OF le] using hasm [OF le] optional by simp
    qed
    show ?thesis
      using has(2) el.keyed_emits [of f pdata bs E] emits_nil
      by (intro fieldI [OF eq]) (auto split: if_splits)
  qed
qed

lemma callback_field_emits:
  assumes "Option.bind (load_ptr m0 pdata) (\<lambda>fn. if fn \<noteq> 0 then cb_field C fn f (pdata + 8) m0 else Some []) = Some bs"
  shows "emits (encode_callback_field E f pdata) m0 bs"
proof -
  obtain fn where fn: "load_ptr m0 pdata = Some fn" "(if fn \<noteq> 0 then cb_field C fn f (pdata + 8) m0 else Some []) = Some bs"
    using assms by (auto simp: bind_eq_Some_conv simp del: not_gr_zero)
  show ?thesis
  proof (cases "fn = 0")
    case True
    then have "bs = []" using fn(2) by simp
    then show ?thesis
      using True load_ptr_mono [OF _ fn(1)] emits_cong [OF _ emits_nil] by (simp add: encode_callback_field_def)
  next
    case False
    then have "emits (\<lambda>s m. encode_cb E fn s f (pdata + 8) m) m0 bs" using fn(2) by (simp add: field_callback)
    from emits_callback_error [OF this] show ?thesis
      by (rule emits_cong [rotated]) (use False load_ptr_mono [OF _ fn(1)] in \<open>simp add: encode_callback_field_def\<close>)
  qed
qed

lemma field_emits: "field_bytes n C sub E m0 f pdata = Some bs \<Longrightarrow> emits (encode_field n enc E f pdata) m0 bs"
  using basic_field_emits [of n f pdata bs] callback_field_emits [of pdata f bs]
  unfolding field_bytes_def encode_field_def by (auto split: if_splits)

lemma extension_emits:
  assumes "extension_bytes n C sub E m0 ext = Some bs"
  shows "emits (encode_one_extension n enc E ext) m0 bs"
proof -
  obtain ty fn where ty: "load_ptr m0 ext = Some ty" "load_ptr m0 (ty + 8) = Some fn"
    using assms by (auto simp: extension_bytes_def bind_eq_Some_conv)
  note rest = assms [unfolded extension_bytes_def ty Option.bind.simps]
  have one: "encode_one_extension n enc E ext s m =
      (if fn \<noteq> 0 then ext_encode_cb E fn s ext m else default_extension_encoder n enc E ext s m)"
    if "m0 \<subseteq>\<^sub>m m" for s m
    using load_ptr_mono [OF that ty(1)] load_ptr_mono [OF that ty(2)] by (simp add: encode_one_extension_def)
  show ?thesis
  proof (cases "fn = 0")
    case False
    then have "emits (\<lambda>s m. ext_encode_cb E fn s ext m) m0 bs" using rest by (simp add: ext_callback)
    then show ?thesis by (rule emits_cong [rotated]) (use one False in simp)
  next
    case True
    let ?at = "\<lambda>f m. if atype f = PB_ATYPE_POINTER then Some (ext + 8) else load_ptr m (ext + 8)"
    obtain arg where arg: "load_ptr m0 (ty + 16) = Some arg" using rest True by (auto simp: bind_eq_Some_conv)
    then obtain f fs where fs: "fields_of E arg = f # fs" using rest True by (cases "fields_of E arg") simp_all
    then obtain p where f: "?at f m0 = Some p" "field_bytes n C sub E m0 f p = Some bs"
      using rest True arg by (auto simp: bind_eq_Some_conv simp del: not_gr_zero)
    have eq: "encode_one_extension n enc E ext s m = encode_field n enc E f p s m" if "m0 \<subseteq>\<^sub>m m" for s m
    proof -
      have "?at f m = Some p" using f(1) load_ptr_mono [OF that] by (auto split: if_splits)
      then show ?thesis
        using one [OF that] True fs load_ptr_mono [OF that ty(1)] load_ptr_mono [OF that arg]
        by (auto simp: default_extension_encoder_def split: if_splits)
    qed
    show ?thesis by (rule emits_cong [OF eq field_emits [OF f(2)]])
  qed
qed

lemma extension_loop_emits:
  assumes "extension_chain (extension_bytes n C sub E m0) m0 ext = Some bs"
  shows "emits (extension_loop (encode_one_extension n enc E) ext) m0 bs"
proof -
  have "one = extension_bytes n C sub E m0 \<longrightarrow> m = m0 \<longrightarrow> emits (extension_loop (encode_one_extension n enc E) ext) m0 bs"
    if "extension_chain one m ext = Some bs" for one m ext bs
    using that
  proof (rule extension_chain.raw_induct [rotated], intro impI)
    fix chain :: "(addr \<Rightarrow> u8 list option) \<Rightarrow> mem \<Rightarrow> addr \<Rightarrow> u8 list option" and one m ext bs
    assume IH: "\<And>one m ext bs. chain one m ext = Some bs \<Longrightarrow> one = extension_bytes n C sub E m0 \<longrightarrow> m = m0 \<longrightarrow>
        emits (extension_loop (encode_one_extension n enc E) ext) m0 bs"
      and body: "(if ext = 0 then Some []
        else Option.bind (one ext) (\<lambda>b. Option.bind (load_ptr m (ext + 16)) (\<lambda>nxt.
          Option.bind (chain one m nxt) (\<lambda>bs. Some (b @ bs))))) = Some bs"
      and eqs: "one = extension_bytes n C sub E m0" "m = m0"
    let ?loop = "extension_loop (encode_one_extension n enc E)"
    show "emits (?loop ext) m0 bs"
    proof (cases "ext = 0")
      case True
      moreover have "?loop 0 = (\<lambda>s m. Some (True, s, m))" by (intro ext) (simp add: extension_loop.simps)
      ultimately show ?thesis using body by (simp add: emits_nil)
    next
      case False
      then obtain b nxt bs' where b: "extension_bytes n C sub E m0 ext = Some b" "load_ptr m0 (ext + 16) = Some nxt"
          "chain one m nxt = Some bs'" "bs = b @ bs'"
        using body eqs by (auto simp: bind_eq_Some_conv)
      have tl: "emits (\<lambda>s m. Option.bind (load_ptr m (ext + 16)) (\<lambda>nxt. ?loop nxt s m)) m0 bs'"
        by (rule emits_cong [of m0 _ "?loop nxt"]) (use load_ptr_mono [OF _ b(2)] IH [OF b(3)] eqs in simp_all)
      have eq: "?loop ext s m = and_then (encode_one_extension n enc E ext s m)
          (\<lambda>(s, m). Option.bind (load_ptr m (ext + 16)) (\<lambda>nxt. ?loop nxt s m))" for s m
        using False by (subst extension_loop.simps) (auto simp: and_then_def split: option.splits)
      show ?thesis
        unfolding b(4) by (rule emits_cong [OF eq emits_seq [OF extension_emits [OF b(1)] tl]])
    qed
  qed
  with assms show ?thesis by blast
qed

lemma member_emits:
  assumes "member_bytes n C sub E m0 (flds ! k) (src + field_offset flds k) = Some bs" "k < length flds"
  shows "emits (\<lambda>s m. encode_iter n enc E (iter_at flds src k) (s, m)) m0 bs"
proof (cases "ltype (flds ! k) = PB_LTYPE_EXTENSION")
  case True
  then obtain ext where ext: "load_ptr m0 (src + field_offset flds k) = Some ext"
      "extension_chain (extension_bytes n C sub E m0) m0 ext = Some bs"
    using assms(1) by (auto simp: member_bytes_def bind_eq_Some_conv)
  show ?thesis
    by (rule emits_cong [OF _ extension_loop_emits [OF ext(2)]])
      (use True assms(2) load_ptr_mono [OF _ ext(1)] in \<open>simp add: encode_iter_def encode_extension_field_def\<close>)
next
  case False
  then show ?thesis
    using assms field_emits unfolding member_bytes_def encode_iter_def by simp
qed

lemma fields_emit:
  assumes "wf_table flds" "src \<noteq> 0"
    and "collect (\<lambda>k. member_bytes n C sub E m0 (flds ! k) (src + field_offset flds k)) [0..<nfields flds] = Some bs"
  shows "emits (\<lambda>s m. case pb_field_iter_begin flds src of None \<Rightarrow> None
      | Some (nonempty, it) \<Rightarrow> if \<not> nonempty then Some (True, s, m)
          else do_fields (encode_iter n enc E) it (s, m)) m0 bs"
proof (cases "nfields flds = 0")
  case True
  then show ?thesis
    using assms emits_nil by (simp add: iter_begin_at)
next
  case False
  have "emits (\<lambda>s m. run_list (\<lambda>k. encode_iter n enc E (iter_at flds src k)) [0..<nfields flds] (s, m)) m0 bs"
    using wf_table_length [OF assms(1)] by (intro run_list_emits [OF _ assms(3)] member_emits) auto
  then show ?thesis
    using False assms(1,2) by (simp add: iter_begin_at do_fields_run run_list_map)
qed

end

section \<open>The reference encoding is implemented\<close>

definition callbacks_ok :: "pb_env \<Rightarrow> cb_spec \<Rightarrow> mem \<Rightarrow> bool" where
  "callbacks_ok E C m0 \<longleftrightarrow>
     (\<forall>fn f arg bs. cb_field C fn f arg m0 = Some bs \<longrightarrow> emits (\<lambda>s m. encode_cb E fn s f arg m) m0 bs) \<and>
     (\<forall>fn ext bs. cb_ext C fn ext m0 = Some bs \<longrightarrow> emits (\<lambda>s m. ext_encode_cb E fn s ext m) m0 bs)"

lemma pb_encode_implements:
  assumes cb: "callbacks_ok E C m0"
  shows "implements (pb_encode n E) m0 (msg_bytes n C E m0)"
proof (induction n)
  case 0
  then show ?case by (simp add: implements_def)
next
  case (Suc n)
  have "message_encoder m0 E C (pb_encode n E) (msg_bytes n C E m0)"
    using cb Suc unfolding callbacks_ok_def by unfold_locales blast+
  note fields = message_encoder.fields_emit [OF this]
  have "pb_encode (Suc n) E flds src = (\<lambda>s m. case pb_field_iter_begin flds src of None \<Rightarrow> None
      | Some (nonempty, it) \<Rightarrow> if \<not> nonempty then Some (True, s, m)
          else do_fields (encode_iter n (pb_encode n E) E) it (s, m))" for flds src
    by (intro ext) simp
  then show ?case
    unfolding implements_def using fields by (simp split: if_splits)
qed

lemma no_callbacks_ok: "callbacks_ok E no_callbacks m0"
  by (simp add: callbacks_ok_def no_callbacks_def)

interpretation plain: message_encoder m0 E no_callbacks "pb_encode n E" "msg_bytes n no_callbacks E m0" for m0 E n
  using pb_encode_implements no_callbacks_ok by unfold_locales (auto simp: no_callbacks_def)

end
