(* ===== verification/Nanopb_Encode_Theorems.thy ===== *)
theory Nanopb_Encode_Theorems
  imports Nanopb_Encode_Correct
begin

text \<open>
  What the encoder of \<open>ios/Pods/nanopb\<close> guarantees to its callers: \<open>pb_encode\<close> into a buffer,
  \<open>pb_get_encoded_size\<close>, the delimited and null-terminated entry points, a buffer that is too
  small, and the proto3 presence rule. The sample message at the start serves the concrete
  instances.
\<close>

section \<open>A sample message\<close>

text \<open>
  \<open>struct { uint32_t id; bool has_delta; int32_t delta; pb_size_t n; uint16_t v[3]; char name[4]; }\<close>:
  required \<open>id = 1\<close>, optional \<open>delta = 2\<close> (zigzag), packed \<open>v = 3\<close>, singular \<open>name = 4\<close>.
\<close>

definition sample_env :: pb_env where
  "sample_env = \<lparr>fields_of = (\<lambda>_. []), ostream_cb = (\<lambda>_ _ _ _ _. None), encode_cb = (\<lambda>_ _ _ _ _. None),
     ext_encode_cb = (\<lambda>_ _ _ _. None), istream_cb = (\<lambda>_ _ _ _ _. None), decode_cb = (\<lambda>_ _ _ _ _. None),
     ext_decode_cb = (\<lambda>_ _ _ _ _ _. None), alloc_at = (\<lambda>_ _ _. None), fresh_byte = (\<lambda>_. 0),
     stack_at = (\<lambda>_ _. 0)\<rparr>"

definition sample_fields :: "pb_field list" where
  "sample_fields =
     [PB_REQUIRED_STATIC 1 \<lparr>m_offset = 0, m_size = 4, m_elem = 4, m_aux = 0\<rparr> 0 PB_LTYPE_UVARINT 0,
      PB_OPTIONAL_STATIC 2 \<lparr>m_offset = 8, m_size = 4, m_elem = 4, m_aux = 4\<rparr> 4 PB_LTYPE_SVARINT 0,
      PB_REPEATED_STATIC 3 \<lparr>m_offset = 16, m_size = 6, m_elem = 2, m_aux = 12\<rparr> 4 PB_LTYPE_UVARINT 0,
      PB_SINGULAR_STATIC 4 \<lparr>m_offset = 22, m_size = 4, m_elem = 4, m_aux = 0\<rparr> 0 PB_LTYPE_STRING 0,
      PB_LAST_FIELD]"

definition sample_struct :: "u8 list" where
  "sample_struct =
     [0x2C, 0x01, 0, 0,  1, 0, 0, 0,  0xFE, 0xFF, 0xFF, 0xFF,  2, 0, 0, 0,  5, 0, 0x80, 0, 0, 0,
      0x68, 0x69, 0, 0,  0, 0]"

definition sample_mem :: mem where
  "sample_mem = put_bytes Map.empty 1000 sample_struct"

definition sample_buffer :: mem where
  "sample_buffer = put_bytes sample_mem 2000 (replicate 16 0)"

definition sample_encoding :: "u8 list" where
  "sample_encoding = [0x08, 0xAC, 0x02, 0x10, 0x03, 0x1A, 0x03, 0x05, 0x80, 0x01, 0x22, 0x02, 0x68, 0x69]"

lemma sample_msg_bytes: "msg_bytes 2 no_callbacks sample_env sample_mem sample_fields 1000 = Some sample_encoding"
  by code_simp

lemma sample_buffer_ok:
  "sample_mem \<subseteq>\<^sub>m sample_buffer" "mapped sample_buffer 2000 16" "region 2000 16 \<inter> dom sample_mem = {}"
  "length sample_encoding = 14"
proof -
  show "region 2000 16 \<inter> dom sample_mem = {}"
    by (auto simp: sample_mem_def sample_struct_def)
  then show "sample_mem \<subseteq>\<^sub>m sample_buffer"
    unfolding sample_buffer_def by (intro map_le_put_bytes) simp_all
  show "mapped sample_buffer 2000 16" by (auto simp: mapped_iff sample_buffer_def)
qed (simp add: sample_encoding_def)

section \<open>Encoding into a buffer\<close>

lemma obuf_ok_from_buffer:
  "m0 \<subseteq>\<^sub>m m \<Longrightarrow> mapped m buf (unat n) \<Longrightarrow> region buf (unat n) \<inter> dom m0 = {} \<Longrightarrow>
     obuf_ok m0 (pb_ostream_from_buffer buf n) m"
  by (simp add: obuf_ok_def pb_ostream_from_buffer_def room_def)

lemma room_from_buffer [simp]: "room (pb_ostream_from_buffer buf n) = unat n"
  by (simp add: room_def pb_ostream_from_buffer_def)

lemma from_buffer_simps [simp]:
  "os_state (pb_ostream_from_buffer buf n) = buf" "bytes_written (pb_ostream_from_buffer buf n) = 0"
  by (simp_all add: pb_ostream_from_buffer_def)

lemma pb_encode_emits:
  "callbacks_ok E C m0 \<Longrightarrow> msg_bytes n C E m0 flds src = Some bs \<Longrightarrow> emits (pb_encode n E flds src) m0 bs"
  using pb_encode_implements by (auto simp: implements_def)

text \<open>C1: \<open>pb_encode\<close> on a buffer stream writes exactly the encoding that the reference \<open>msg_bytes\<close>
  computes from the message in memory with its own wire types, integer values, strings and presence
  rule, at the start of the buffer, changes no other byte of memory, leaves the stream positioned after
  the encoding and reports success, provided the buffer is large enough and does not overlap the
  message. Where the reference is undefined (such as a proto3 pointer the zero test misreads) nothing
  is claimed.\<close>

theorem pb_encode_buffer_exact:
  assumes "callbacks_ok E C m0" "msg_bytes n C E m0 flds src = Some bs"
    and "m0 \<subseteq>\<^sub>m m" "mapped m buf (unat bufsize)" "region buf (unat bufsize) \<inter> dom m0 = {}"
    and "length bs \<le> unat bufsize"
  shows "\<exists>s m'. pb_encode n E flds src (pb_ostream_from_buffer buf bufsize) m = Some (True, s, m') \<and>
    unat (bytes_written s) = length bs \<and> os_state s = buf + int (length bs) \<and> os_errmsg s = None \<and>
    load_bytes m' buf (length bs) = Some bs \<and> dom m' = dom m \<and>
    (\<forall>x. x \<notin> region buf (length bs) \<longrightarrow> m' x = m x)"
proof -
  let ?s = "pb_ostream_from_buffer buf bufsize"
  have ok: "obuf_ok m0 ?s m" by (rule obuf_ok_from_buffer) fact+
  have "pb_encode n E flds src ?s m = Some (True, advance ?s (length bs), put_bytes m buf bs)"
    using emits_room [OF pb_encode_emits ok] assms by simp
  moreover have "unat (bytes_written (advance ?s (length bs))) = length bs"
    using assms(6) unat_u64_lt [of bufsize] by (simp add: unat_u64_of_nat)
  moreover have "dom (put_bytes m buf bs) = dom m"
    by (rule dom_put_mapped [OF mapped_prefix [OF assms(4,6)]])
  ultimately show ?thesis
    by (auto simp: put_bytes_apply load_put_same pb_ostream_from_buffer_def)
qed

theorem pb_encode_buffer_exact_witness:
  "\<exists>s m'. pb_encode 2 sample_env sample_fields 1000 (pb_ostream_from_buffer 2000 16) sample_buffer = Some (True, s, m') \<and>
     unat (bytes_written s) = 14 \<and> load_bytes m' 2000 14 = Some sample_encoding"
  using pb_encode_buffer_exact [OF no_callbacks_ok sample_msg_bytes sample_buffer_ok(1), of 2000 16]
    sample_buffer_ok by auto

text \<open>C5: when the buffer is too short for the message, \<open>pb_encode\<close> returns false with the error
  \<open>stream full\<close>, and no byte outside the buffer has been written.\<close>

theorem pb_encode_full_safe:
  assumes "callbacks_ok E C m0" "msg_bytes n C E m0 flds src = Some bs"
    and "m0 \<subseteq>\<^sub>m m" "mapped m buf (unat bufsize)" "region buf (unat bufsize) \<inter> dom m0 = {}"
    and "unat bufsize < length bs" "length bs < 2 ^ 64"
  shows "\<exists>s m'. pb_encode n E flds src (pb_ostream_from_buffer buf bufsize) m = Some (False, s, m') \<and>
    os_errmsg s = Some ''stream full'' \<and> dom m' = dom m \<and>
    (\<forall>x. x \<notin> region buf (unat bufsize) \<longrightarrow> m' x = m x)"
proof -
  have ok: "obuf_ok m0 (pb_ostream_from_buffer buf bufsize) m" by (rule obuf_ok_from_buffer) fact+
  show ?thesis
    using emits_full [OF pb_encode_emits ok] assms by (simp add: overflows_def)
qed

theorem pb_encode_full_safe_witness:
  "\<exists>s m'. pb_encode 2 sample_env sample_fields 1000 (pb_ostream_from_buffer 2000 7) sample_buffer = Some (False, s, m') \<and>
     os_errmsg s = Some ''stream full'' \<and> dom m' = dom sample_buffer \<and>
     (\<forall>x. x \<notin> region 2000 7 \<longrightarrow> m' x = sample_buffer x)"
proof -
  have "mapped sample_buffer 2000 7" "region 2000 7 \<inter> dom sample_mem = {}"
    using mapped_sub [OF sample_buffer_ok(2), of 2000 7] region_disjoint_sub [OF sample_buffer_ok(3), of 2000 7] by simp_all
  then show ?thesis
    using pb_encode_full_safe [OF no_callbacks_ok sample_msg_bytes sample_buffer_ok(1), of 2000 7]
      sample_buffer_ok(4) by simp
qed

lemma encoded_size_of_bytes:
  assumes "callbacks_ok E C m0" "msg_bytes n C E m0 flds src = Some bs" "m0 \<subseteq>\<^sub>m m" "length bs < 2 ^ 64"
  shows "pb_get_encoded_size n E flds src m = Some (Some (of_nat (length bs)), m)"
proof -
  have "pb_encode n E flds src PB_OSTREAM_SIZING m = Some (True, count_only PB_OSTREAM_SIZING (length bs), m)"
    using emits_sizing [OF pb_encode_emits [OF assms(1,2)] _ assms(3), of PB_OSTREAM_SIZING] assms(4)
    by (simp add: PB_OSTREAM_SIZING_def)
  then show ?thesis by (simp add: pb_get_encoded_size_def PB_OSTREAM_SIZING_def)
qed

text \<open>C6: \<open>pb_get_encoded_size\<close> returns the length of the independent reference encoding and writes nothing.\<close>

theorem pb_get_encoded_size_exact:
  assumes "callbacks_ok E C m0" "msg_bytes n C E m0 flds src = Some bs" "m0 \<subseteq>\<^sub>m m" "length bs < 2 ^ 64"
  shows "pb_get_encoded_size n E flds src m = Some (Some (of_nat (length bs)), m)"
  by (rule encoded_size_of_bytes) fact+

theorem pb_get_encoded_size_exact_witness:
  "pb_get_encoded_size 2 sample_env sample_fields 1000 sample_buffer = Some (Some 14, sample_buffer)"
  using pb_get_encoded_size_exact [OF no_callbacks_ok sample_msg_bytes sample_buffer_ok(1)] sample_buffer_ok(4) by simp

text \<open>\<open>pb_encode_delimited\<close> emits the length of the encoding as a varint followed by the
  encoding, in the sense of the encoder contract (exact bytes when there is room, exact count on a
  sizing stream, \<open>stream full\<close> otherwise).\<close>

theorem pb_encode_delimited_emits:
  assumes "callbacks_ok E C m0" "msg_bytes n C E m0 flds src = Some bs" "length bs < 2 ^ 64"
  shows "emits (pb_encode_delimited n E flds src) m0 (leb128 (length bs) @ bs)"
  using pb_encode_submessage_emits [of "pb_encode n E" flds src, OF pb_encode_emits [OF assms(1,2)] assms(3), of E]
  unfolding pb_encode_delimited_def by simp

theorem pb_encode_delimited_emits_witness:
  "emits (pb_encode_delimited 2 sample_env sample_fields 1000) sample_mem (leb128 14 @ sample_encoding)"
  using pb_encode_delimited_emits [OF no_callbacks_ok sample_msg_bytes] sample_buffer_ok(4) by simp

text \<open>\<open>pb_encode_nullterminated\<close> emits the encoding followed by one zero byte.\<close>

theorem pb_encode_nullterminated_emits:
  assumes "callbacks_ok E C m0" "msg_bytes n C E m0 flds src = Some bs"
  shows "emits (pb_encode_nullterminated n E flds src) m0 (bs @ [0])"
proof -
  have "emits (pb_write E (WLocal [0]) 1) m0 [0]"
    using pb_write_emits [of m0 "WLocal [0]" "[0]" E] by (simp add: wbuf_reads_def)
  from emits_seq [OF pb_encode_emits [OF assms] this] show ?thesis
    unfolding pb_encode_nullterminated_def by simp
qed

theorem pb_encode_nullterminated_emits_witness:
  "emits (pb_encode_nullterminated 2 sample_env sample_fields 1000) sample_mem (sample_encoding @ [0])"
  by (rule pb_encode_nullterminated_emits [OF no_callbacks_ok sample_msg_bytes])

end
