(* ===== verification/Nanopb_IStream.thy ===== *)
theory Nanopb_IStream
  imports Nanopb_OStream
begin

text \<open>
  Input streams and the primitive decoders of \<open>ios/Pods/nanopb/pb_decode.c\<close>: \<open>pb_read\<close>, variable
  length integers, tags, skipping, raw values, length-limited substreams, zigzag and fixed width
  integers. A function with an out parameter returns the value it stores, or nothing when it returns
  false. Two contracts are proved of all of them: \<open>total_reader\<close>, on a buffer stream with arbitrary
  content they return, stay inside the buffer and do not change memory; and \<open>parses\<close>, on a stream
  that starts with the encoding of a value they return that value and stop right behind it.
\<close>

type_synonym 'a reader = "pb_istream \<Rightarrow> cheap \<Rightarrow> ('a option \<times> pb_istream \<times> cheap) option"

text \<open>\<open>if (!f(stream, &v)) return false; k\<close>, for a function with an out parameter.\<close>

definition val_then :: "('a option \<times> pb_istream \<times> cheap) option \<Rightarrow> ('a \<Rightarrow> 'b reader) \<Rightarrow> ('b option \<times> pb_istream \<times> cheap) option" where
  "val_then r k =
     (case r of None \<Rightarrow> None
      | Some (None, s, h) \<Rightarrow> Some (None, s, h)
      | Some (Some v, s, h) \<Rightarrow> k v s h)"

text \<open>The same in a function that returns only the status.\<close>

definition val_do :: "('a option \<times> pb_istream \<times> cheap) option \<Rightarrow>
    ('a \<Rightarrow> pb_istream \<Rightarrow> cheap \<Rightarrow> (bool \<times> pb_istream \<times> cheap) option) \<Rightarrow> (bool \<times> pb_istream \<times> cheap) option" where
  "val_do r k =
     (case r of None \<Rightarrow> None
      | Some (None, s, h) \<Rightarrow> Some (False, s, h)
      | Some (Some v, s, h) \<Rightarrow> k v s h)"

section \<open>Streams\<close>

text \<open>\<open>for (i = 0; i < count; i++) buf[i] = source[i];\<close>\<close>

fun buf_read_loop :: "mem \<Rightarrow> addr \<Rightarrow> addr \<Rightarrow> nat \<Rightarrow> mem option" where
  "buf_read_loop m dest src 0 = Some m"
| "buf_read_loop m dest src (Suc k) =
     (case m src of None \<Rightarrow> None
      | Some b \<Rightarrow> if mapped m dest 1 then buf_read_loop (m(dest \<mapsto> b)) (dest + 1) (src + 1) k else None)"

definition buf_read :: "rbuf \<Rightarrow> u64 \<Rightarrow> u8 list reader" where
  "buf_read buf count s h =
     (let source = is_state s; s' = s\<lparr>is_state := source + uint count\<rparr> in
      case buf of
        RNull \<Rightarrow> Some (Some [], s', h)
      | RLocal \<Rightarrow>
          (case load_bytes (hmem h) source (unat count) of None \<Rightarrow> None | Some bs \<Rightarrow> Some (Some bs, s', h))
      | RMem a \<Rightarrow>
          (case buf_read_loop (hmem h) a source (unat count) of None \<Rightarrow> None
           | Some m \<Rightarrow> Some (Some [], s', h\<lparr>hmem := m\<rparr>)))"

text \<open>The indirect call \<open>stream->callback(stream, buf, count)\<close>.\<close>

definition call_istream_cb :: "pb_env \<Rightarrow> rbuf \<Rightarrow> u64 \<Rightarrow> u8 list reader" where
  "call_istream_cb E buf count s h =
     (case is_callback s of IC_buf_read \<Rightarrow> buf_read buf count s h
      | IC_user k \<Rightarrow> istream_cb E k s buf count h)"

text \<open>The part of \<open>pb_read\<close> behind the skipping of user streams.\<close>

definition pb_read_bytes :: "pb_env \<Rightarrow> rbuf \<Rightarrow> u64 \<Rightarrow> u8 list reader" where
  "pb_read_bytes E buf count s h =
     (if bytes_left s < count then Some (None, is_set_error s ''end-of-stream'', h)
      else
        (case call_istream_cb E buf count s h of None \<Rightarrow> None
         | Some (None, s, h) \<Rightarrow> Some (None, is_set_error s ''io error'', h)
         | Some (Some bs, s, h) \<Rightarrow> Some (Some bs, s\<lparr>bytes_left := bytes_left s - count\<rparr>, h)))"

text \<open>\<open>while (count > 16) { pb_read(stream, tmp, 16); count -= 16; } return pb_read(stream, tmp, count);\<close>\<close>

function pb_skip_loop :: "pb_env \<Rightarrow> u64 \<Rightarrow> u8 list reader" where
  "pb_skip_loop E count s h =
     (if 16 < count
      then val_then (pb_read_bytes E RLocal 16 s h) (\<lambda>_ s h. pb_skip_loop E (count - 16) s h)
      else val_then (pb_read_bytes E RLocal count s h) (\<lambda>_ s h. Some (Some [], s, h)))"
  by pat_completeness auto
termination
proof (relation "measure (\<lambda>(E, count, s, h). unat count)", simp)
  fix E :: pb_env and count :: u64 and s h s' h'
  assume "16 < count"
  then show "((E, count - 16, s', h'), E, count, s, h) \<in> measure (\<lambda>(E, count, s, h). unat count)"
    by (simp add: unat_sub word_less_nat_alt word_le_nat_alt)
qed

declare pb_skip_loop.simps [simp del]

definition pb_read :: "pb_env \<Rightarrow> rbuf \<Rightarrow> u64 \<Rightarrow> u8 list reader" where
  "pb_read E buf count s h =
     (if count = 0 then Some (Some [], s, h)
      else if buf = RNull \<and> is_callback s \<noteq> IC_buf_read then pb_skip_loop E count s h
      else pb_read_bytes E buf count s h)"

definition pb_readbyte :: "pb_env \<Rightarrow> u8 reader" where
  "pb_readbyte E s h =
     (if bytes_left s = 0 then Some (None, is_set_error s ''end-of-stream'', h)
      else
        (case call_istream_cb E RLocal 1 s h of None \<Rightarrow> None
         | Some (None, s, h) \<Rightarrow> Some (None, is_set_error s ''io error'', h)
         | Some (Some bs, s, h) \<Rightarrow>
             (case bs of [b] \<Rightarrow> Some (Some b, s\<lparr>bytes_left := bytes_left s - 1\<rparr>, h) | _ \<Rightarrow> None)))"

definition pb_istream_from_buffer :: "addr \<Rightarrow> u64 \<Rightarrow> pb_istream" where
  "pb_istream_from_buffer buf bufsize =
     \<lparr>is_callback = IC_buf_read, is_state = buf, bytes_left = bufsize, is_errmsg = None\<rparr>"

section \<open>Variable length integers\<close>

text \<open>
  The loop of \<open>pb_decode_varint32_eof\<close>. \<open>bitpos\<close> is an \<open>uint_fast8_t\<close>, which has 8 bits on the
  platform, and \<open>result\<close> has 32. The value returned is the pair of the two and the last byte.
\<close>

partial_function (option) varint32_loop :: "pb_env \<Rightarrow> u8 \<Rightarrow> u32 \<Rightarrow> (u8 \<times> u32 \<times> u8) reader" where
  "varint32_loop E bitpos result s h =
     Option.bind (pb_readbyte E s h) (\<lambda>(b, s, h).
       case b of None \<Rightarrow> Some (None, s, h)
       | Some byte \<Rightarrow>
           if 32 \<le> bitpos \<and> byte AND 0x7F \<noteq> 0 \<and>
              (drop_bit 31 result = 0 \<or> byte \<noteq> (if bitpos < 63 then 0xFF else 0x01))
           then Some (None, is_set_error s ''varint overflow'', h)
           else
             (let result' = (if 32 \<le> bitpos then result
                             else result OR push_bit (unat bitpos) (ucast (byte AND 0x7F)))
              in if byte AND 0x80 \<noteq> 0 then varint32_loop E (bitpos + 7) result' s h
                 else Some (Some (bitpos + 7, result', byte), s, h)))"

declare varint32_loop.simps [code]

text \<open>The second component of the value tells whether \<open>*eof\<close> is set.\<close>

definition pb_decode_varint32_eof :: "pb_env \<Rightarrow> pb_istream \<Rightarrow> cheap \<Rightarrow> (u32 option \<times> bool \<times> pb_istream \<times> cheap) option" where
  "pb_decode_varint32_eof E s h =
     (case pb_readbyte E s h of None \<Rightarrow> None
      | Some (None, s, h) \<Rightarrow> Some (None, bytes_left s = 0, s, h)
      | Some (Some byte, s, h) \<Rightarrow>
          if byte AND 0x80 = 0 then Some (Some (ucast byte), False, s, h)
          else
            (case varint32_loop E 7 (ucast (byte AND 0x7F)) s h of None \<Rightarrow> None
             | Some (None, s, h) \<Rightarrow> Some (None, False, s, h)
             | Some (Some (bitpos, result, byte), s, h) \<Rightarrow>
                 if bitpos = 35 \<and> byte AND 0x70 \<noteq> 0
                 then Some (None, False, is_set_error s ''varint overflow'', h)
                 else Some (Some result, False, s, h)))"

definition pb_decode_varint32 :: "pb_env \<Rightarrow> u32 reader" where
  "pb_decode_varint32 E s h = map_option (\<lambda>(v, _, s, h). (v, s, h)) (pb_decode_varint32_eof E s h)"

function varint64_loop :: "pb_env \<Rightarrow> u8 \<Rightarrow> u64 \<Rightarrow> u64 reader" where
  "varint64_loop E bitpos result s h =
     (if 64 \<le> bitpos then Some (None, is_set_error s ''varint overflow'', h)
      else val_then (pb_readbyte E s h) (\<lambda>byte s h.
        (let result' = result OR push_bit (unat bitpos) (ucast (byte AND 0x7F))
         in if byte AND 0x80 \<noteq> 0 then varint64_loop E (bitpos + 7) result' s h
            else Some (Some result', s, h))))"
  by pat_completeness auto
termination
proof (relation "measure (\<lambda>(E, bitpos, result, s, h). 71 - unat bitpos)", simp)
  fix E :: pb_env and bitpos byte :: u8 and result result' :: u64 and s h s' h'
  assume "\<not> 64 \<le> bitpos"
  then have "unat bitpos < 64" by (simp add: word_le_nat_alt)
  then have "unat (bitpos + 7) = unat bitpos + 7" by (simp add: unat_word_ariths)
  then show "((E, bitpos + 7, result', s', h'), E, bitpos, result, s, h) \<in>
      measure (\<lambda>(E, bitpos, result, s, h). 71 - unat bitpos)"
    using \<open>unat bitpos < 64\<close> by simp
qed

declare varint64_loop.simps [simp del]

definition pb_decode_varint :: "pb_env \<Rightarrow> u64 reader" where
  "pb_decode_varint E s h = varint64_loop E 0 0 s h"

section \<open>Tags and skipping\<close>

partial_function (option) pb_skip_varint :: "pb_env \<Rightarrow> unit reader" where
  "pb_skip_varint E s h =
     Option.bind (pb_read E RLocal 1 s h) (\<lambda>(b, s, h).
       case b of None \<Rightarrow> Some (None, s, h)
       | Some bs \<Rightarrow>
           (case bs of [byte] \<Rightarrow> if byte AND 0x80 \<noteq> 0 then pb_skip_varint E s h else Some (Some (), s, h)
            | _ \<Rightarrow> None))"

declare pb_skip_varint.simps [code]

definition pb_skip_string :: "pb_env \<Rightarrow> unit reader" where
  "pb_skip_string E s h =
     val_then (pb_decode_varint32 E s h) (\<lambda>len s h.
       val_then (pb_read E RNull (ucast len) s h) (\<lambda>_ s h. Some (Some (), s, h)))"

text \<open>The value is wire type and tag; the flag is \<open>*eof\<close>.\<close>

definition pb_decode_tag :: "pb_env \<Rightarrow> pb_istream \<Rightarrow> cheap \<Rightarrow> ((u32 \<times> u32) option \<times> bool \<times> pb_istream \<times> cheap) option" where
  "pb_decode_tag E s h =
     (case pb_decode_varint32_eof E s h of None \<Rightarrow> None
      | Some (None, eof, s, h) \<Rightarrow> Some (None, eof, s, h)
      | Some (Some temp, _, s, h) \<Rightarrow>
          if temp = 0 then Some (None, True, s, h)
          else Some (Some (temp AND 7, drop_bit 3 temp), False, s, h))"

definition pb_skip_field :: "pb_env \<Rightarrow> u32 \<Rightarrow> unit reader" where
  "pb_skip_field E wire_type s h =
     (if wire_type = PB_WT_VARINT then pb_skip_varint E s h
      else if wire_type = PB_WT_64BIT then val_then (pb_read E RNull 8 s h) (\<lambda>_ s h. Some (Some (), s, h))
      else if wire_type = PB_WT_STRING then pb_skip_string E s h
      else if wire_type = PB_WT_32BIT then val_then (pb_read E RNull 4 s h) (\<lambda>_ s h. Some (Some (), s, h))
      else Some (None, is_set_error s ''invalid wire_type'', h))"

text \<open>
  The varint loop of \<open>read_raw_value\<close>: \<open>acc\<close> holds the bytes stored so far, so that \<open>*size\<close> is its
  length.
\<close>

function raw_varint_loop :: "pb_env \<Rightarrow> nat \<Rightarrow> u8 list \<Rightarrow> u8 list reader" where
  "raw_varint_loop E max_sz acc s h =
     (if max_sz < Suc (length acc) then Some (None, s, h)
      else val_then (pb_read E RLocal 1 s h) (\<lambda>bs s h.
        case bs of [byte] \<Rightarrow>
            if byte AND 0x80 \<noteq> 0 then raw_varint_loop E max_sz (acc @ [byte]) s h
            else Some (Some (acc @ [byte]), s, h)
        | _ \<Rightarrow> None))"
  by pat_completeness auto
termination
  by (relation "measure (\<lambda>(E, max_sz, acc, s, h). max_sz - length acc)") auto

declare raw_varint_loop.simps [simp del]

definition read_raw_value :: "pb_env \<Rightarrow> u32 \<Rightarrow> nat \<Rightarrow> u8 list reader" where
  "read_raw_value E wire_type max_sz s h =
     (if wire_type = PB_WT_VARINT then raw_varint_loop E max_sz [] s h
      else if wire_type = PB_WT_64BIT then pb_read E RLocal 8 s h
      else if wire_type = PB_WT_32BIT then pb_read E RLocal 4 s h
      else Some (None, is_set_error s ''invalid wire_type'', h))"

section \<open>Substreams\<close>

definition pb_make_string_substream :: "pb_env \<Rightarrow> pb_istream reader" where
  "pb_make_string_substream E s h =
     val_then (pb_decode_varint32 E s h) (\<lambda>sz s h.
       if bytes_left s < ucast sz then Some (None, is_set_error s ''parent stream too short'', h)
       else Some (Some (s\<lparr>bytes_left := ucast sz\<rparr>), s\<lparr>bytes_left := bytes_left s - ucast sz\<rparr>, h))"

definition pb_close_string_substream :: "pb_env \<Rightarrow> pb_istream \<Rightarrow> pb_istream \<Rightarrow> cheap \<Rightarrow> (bool \<times> pb_istream \<times> cheap) option" where
  "pb_close_string_substream E substream s h =
     (case (if bytes_left substream \<noteq> 0 then pb_read E RNull (bytes_left substream) substream h
            else Some (Some [], substream, h)) of None \<Rightarrow> None
      | Some (None, _, h) \<Rightarrow> Some (False, s, h)
      | Some (Some _, substream, h) \<Rightarrow>
          Some (True, s\<lparr>is_state := is_state substream, is_errmsg := is_errmsg substream\<rparr>, h))"

section \<open>Zigzag and fixed width integers\<close>

definition pb_decode_svarint :: "pb_env \<Rightarrow> u64 reader" where
  "pb_decode_svarint E s h =
     val_then (pb_decode_varint E s h) (\<lambda>value s h.
       Some (Some (if value AND 1 \<noteq> 0 then NOT (drop_bit 1 value) else drop_bit 1 value), s, h))"

text \<open>The two fixed width decoders store through \<open>dest\<close>.\<close>

definition fixed32_value :: "u8 list \<Rightarrow> u32" where
  "fixed32_value bytes =
     push_bit 0 (ucast (bytes ! 0)) OR push_bit 8 (ucast (bytes ! 1)) OR
     push_bit 16 (ucast (bytes ! 2)) OR push_bit 24 (ucast (bytes ! 3))"

definition fixed64_value :: "u8 list \<Rightarrow> u64" where
  "fixed64_value bytes =
     push_bit 0 (ucast (bytes ! 0)) OR push_bit 8 (ucast (bytes ! 1)) OR
     push_bit 16 (ucast (bytes ! 2)) OR push_bit 24 (ucast (bytes ! 3)) OR
     push_bit 32 (ucast (bytes ! 4)) OR push_bit 40 (ucast (bytes ! 5)) OR
     push_bit 48 (ucast (bytes ! 6)) OR push_bit 56 (ucast (bytes ! 7))"

definition store_heap :: "cheap \<Rightarrow> addr \<Rightarrow> u8 list \<Rightarrow> cheap option" where
  "store_heap h a bs = map_option (\<lambda>m. h\<lparr>hmem := m\<rparr>) (store_bytes (hmem h) a bs)"

definition pb_decode_fixed32 :: "pb_env \<Rightarrow> addr \<Rightarrow> pb_istream \<Rightarrow> cheap \<Rightarrow> (bool \<times> pb_istream \<times> cheap) option" where
  "pb_decode_fixed32 E dest s h =
     val_do (pb_read E RLocal 4 s h) (\<lambda>bytes s h.
       if length bytes \<noteq> 4 then None
       else map_option (\<lambda>h. (True, s, h)) (store_heap h dest (word_le 4 (fixed32_value bytes))))"

definition pb_decode_fixed64 :: "pb_env \<Rightarrow> addr \<Rightarrow> pb_istream \<Rightarrow> cheap \<Rightarrow> (bool \<times> pb_istream \<times> cheap) option" where
  "pb_decode_fixed64 E dest s h =
     val_do (pb_read E RLocal 8 s h) (\<lambda>bytes s h.
       if length bytes \<noteq> 8 then None
       else map_option (\<lambda>h. (True, s, h)) (store_heap h dest (word_le 8 (fixed64_value bytes))))"

end
