(* ===== verification/Nanopb_IStream_Correct.thy ===== *)
theory Nanopb_IStream_Correct
  imports Nanopb_IStream
begin

text \<open>
  Contracts of the stream primitives on buffer streams: totality and confinement for every input
  (\<open>total_reader\<close>), and exact parsing of encoded values (\<open>parses\<close>), which together with the contract
  of the encoders gives the round trips.
\<close>

section \<open>Buffer streams\<close>

definition ibuf :: "pb_istream \<Rightarrow> cheap \<Rightarrow> bool" where
  "ibuf s h \<longleftrightarrow> is_callback s = IC_buf_read \<and> mapped (hmem h) (is_state s) (unat (bytes_left s))"

definition stream_end :: "pb_istream \<Rightarrow> addr" where
  "stream_end s = is_state s + int (unat (bytes_left s))"

definition iadvance :: "pb_istream \<Rightarrow> nat \<Rightarrow> pb_istream" where
  "iadvance s n = s\<lparr>is_state := is_state s + int n, bytes_left := bytes_left s - of_nat n\<rparr>"

text \<open>\<open>consumed s s'\<close>: \<open>s'\<close> is \<open>s\<close> after reading some bytes.\<close>

definition consumed :: "pb_istream \<Rightarrow> pb_istream \<Rightarrow> bool" where
  "consumed s s' \<longleftrightarrow> is_callback s' = is_callback s \<and> stream_end s' = stream_end s \<and> bytes_left s' \<le> bytes_left s"

definition total_reader :: "'a reader \<Rightarrow> bool" where
  "total_reader f \<longleftrightarrow> (\<forall>s h. ibuf s h \<longrightarrow> (\<exists>v s'. f s h = Some (v, s', h) \<and> consumed s s'))"

text \<open>\<open>holds s h bs\<close>: the next bytes of the stream are \<open>bs\<close>.\<close>

definition holds :: "pb_istream \<Rightarrow> cheap \<Rightarrow> u8 list \<Rightarrow> bool" where
  "holds s h bs \<longleftrightarrow> length bs \<le> unat (bytes_left s) \<and> load_bytes (hmem h) (is_state s) (length bs) = Some bs"

definition parses :: "'a reader \<Rightarrow> u8 list \<Rightarrow> 'a \<Rightarrow> bool" where
  "parses f bs v \<longleftrightarrow>
     (\<forall>s h. ibuf s h \<longrightarrow> holds s h bs \<longrightarrow> f s h = Some (Some v, iadvance s (length bs), h))"

lemma consumed_refl [simp]: "consumed s s"
  by (simp add: consumed_def)

lemma consumed_trans: "consumed s t \<Longrightarrow> consumed t u \<Longrightarrow> consumed s u"
  by (auto simp: consumed_def)

lemma consumed_set_error [simp]: "consumed s (is_set_error t e) \<longleftrightarrow> consumed s t"
  by (simp add: consumed_def stream_end_def is_set_error_def)

lemma ibuf_set_error [simp]: "ibuf (is_set_error s e) h \<longleftrightarrow> ibuf s h"
  by (simp add: ibuf_def is_set_error_def)

lemma ibuf_consumed:
  assumes "ibuf s h" "consumed s s'"
  shows "ibuf s' h"
proof -
  have le: "int (unat (bytes_left s')) \<le> int (unat (bytes_left s))"
    and eq: "is_state s' + int (unat (bytes_left s')) = is_state s + int (unat (bytes_left s))"
    using assms(2) unfolding consumed_def stream_end_def word_le_nat_alt by linarith+
  have "mapped (hmem h) (is_state s') (unat (bytes_left s'))"
    by (rule mapped_sub [of _ "is_state s" "unat (bytes_left s)"])
      (use assms(1) le eq in \<open>simp only: ibuf_def, linarith, linarith\<close>)
  with assms show ?thesis by (simp add: ibuf_def consumed_def)
qed

lemma iadvance_0 [simp]: "iadvance s 0 = s"
  by (simp add: iadvance_def)

lemma iadvance_simps [simp]:
  "is_callback (iadvance s n) = is_callback s" "is_state (iadvance s n) = is_state s + int n"
  "bytes_left (iadvance s n) = bytes_left s - of_nat n" "is_errmsg (iadvance s n) = is_errmsg s"
  "iadvance (iadvance s i) j = iadvance s (i + j)"
  by (simp_all add: iadvance_def algebra_simps)

lemma consumed_iadvance: "n \<le> unat (bytes_left s) \<Longrightarrow> consumed s (iadvance s n)"
  by (simp add: consumed_def stream_end_def unat_minus_of_nat word_le_nat_alt)

lemma ibuf_iadvance: "ibuf s h \<Longrightarrow> n \<le> unat (bytes_left s) \<Longrightarrow> ibuf (iadvance s n) h"
  by (rule ibuf_consumed [OF _ consumed_iadvance])

lemma total_readerD:
  assumes "total_reader f" "ibuf s h"
  obtains v s' where "f s h = Some (v, s', h)" "consumed s s'" "ibuf s' h"
  using assms ibuf_consumed unfolding total_reader_def by blast

lemma parsesD: "parses f bs v \<Longrightarrow> ibuf s h \<Longrightarrow> holds s h bs \<Longrightarrow> f s h = Some (Some v, iadvance s (length bs), h)"
  by (simp add: parses_def)

lemma holds_le: "holds s h bs \<Longrightarrow> length bs \<le> unat (bytes_left s)"
  by (simp add: holds_def)

lemma holds_append: "holds s h (xs @ ys) \<longleftrightarrow> holds s h xs \<and> holds (iadvance s (length xs)) h ys"
proof -
  have "holds s h (xs @ ys) \<longleftrightarrow> length xs + length ys \<le> unat (bytes_left s) \<and>
      load_bytes (hmem h) (is_state s) (length xs) = Some xs \<and>
      load_bytes (hmem h) (is_state s + int (length xs)) (length ys) = Some ys"
    by (auto simp: holds_def load_bytes_add split: option.splits)
  then show ?thesis
    by (auto simp: holds_def unat_minus_of_nat)
qed

lemma holds_Cons: "holds s h (b # bs) \<longleftrightarrow> holds s h [b] \<and> holds (iadvance s 1) h bs"
  using holds_append [of s h "[b]" bs] by simp

subsection \<open>Composition\<close>

lemma total_val_then:
  assumes "total_reader f" "\<And>v. total_reader (k v)"
  shows "total_reader (\<lambda>s h. val_then (f s h) k)"
  unfolding total_reader_def
proof (intro allI impI)
  fix s h assume "ibuf s h"
  with assms(1) obtain v s' where f: "f s h = Some (v, s', h)" "consumed s s'" "ibuf s' h"
    by (rule total_readerD)
  show "\<exists>v s'. val_then (f s h) k = Some (v, s', h) \<and> consumed s s'"
  proof (cases v)
    case None
    then show ?thesis using f by (simp add: val_then_def)
  next
    case (Some w)
    from assms(2) f(3) obtain v' s'' where "k w s' h = Some (v', s'', h)" "consumed s' s''"
      by (rule total_readerD)
    then show ?thesis using f Some by (auto simp: val_then_def intro: consumed_trans)
  qed
qed

lemma total_return [simp]: "total_reader (\<lambda>s h. Some (v, s, h))"
  by (simp add: total_reader_def)

lemma total_error [simp]: "total_reader (\<lambda>s h. Some (v, is_set_error s e, h))"
  by (auto simp: total_reader_def)

lemma total_if: "total_reader f \<Longrightarrow> total_reader g \<Longrightarrow> total_reader (\<lambda>s h. if P s h then f s h else g s h)"
  by (auto simp: total_reader_def)

lemma parses_val_then:
  assumes "parses f xs v" "parses (k v) ys w"
  shows "parses (\<lambda>s h. val_then (f s h) k) (xs @ ys) w"
  unfolding parses_def
proof (intro allI impI)
  fix s h assume s: "ibuf s h" "holds s h (xs @ ys)"
  then have xs: "holds s h xs" "holds (iadvance s (length xs)) h ys" by (simp_all add: holds_append)
  moreover have "ibuf (iadvance s (length xs)) h" using s(1) holds_le [OF xs(1)] by (rule ibuf_iadvance)
  ultimately show "val_then (f s h) k = Some (Some w, iadvance s (length (xs @ ys)), h)"
    using parsesD [OF assms(1) s(1) xs(1)] parsesD [OF assms(2)] by (simp add: val_then_def)
qed

lemma parses_return: "parses (\<lambda>s h. Some (Some v, s, h)) [] v"
  by (simp add: parses_def)

section \<open>Reading bytes\<close>

lemma ibuf_load:
  assumes "ibuf s h" "n \<le> unat (bytes_left s)"
  shows "\<exists>bs. load_bytes (hmem h) (is_state s) n = Some bs \<and> length bs = n"
  using assms mapped_load mapped_prefix unfolding ibuf_def by blast

lemma pb_read_bytes_local:
  assumes "ibuf s h" "unat n \<le> unat (bytes_left s)"
  shows "\<exists>bs. load_bytes (hmem h) (is_state s) (unat n) = Some bs \<and> length bs = unat n \<and>
    pb_read_bytes E RLocal n s h = Some (Some bs, iadvance s (unat n), h)"
proof -
  obtain bs where bs: "load_bytes (hmem h) (is_state s) (unat n) = Some bs" "length bs = unat n"
    using ibuf_load [OF assms] by blast
  moreover have "\<not> bytes_left s < n" using assms(2) by (simp add: word_less_nat_alt)
  ultimately show ?thesis
    using assms(1) by (simp add: pb_read_bytes_def call_istream_cb_def buf_read_def ibuf_def iadvance_def)
qed

lemma pb_read_bytes_short:
  "bytes_left s < n \<Longrightarrow> pb_read_bytes E buf n s h = Some (None, is_set_error s ''end-of-stream'', h)"
  by (simp add: pb_read_bytes_def)

lemma pb_read_local:
  assumes "ibuf s h" "unat n \<le> unat (bytes_left s)"
  shows "\<exists>bs. load_bytes (hmem h) (is_state s) (unat n) = Some bs \<and> length bs = unat n \<and>
    pb_read E RLocal n s h = Some (Some bs, iadvance s (unat n), h)"
  using pb_read_bytes_local [OF assms, of E] by (auto simp: pb_read_def)

lemma pb_read_null_cb:
  assumes "is_callback s = IC_buf_read"
  shows "pb_read E RNull n s h =
    (if n \<le> bytes_left s then Some (Some [], iadvance s (unat n), h)
     else Some (None, is_set_error s ''end-of-stream'', h))"
  using assms
  by (auto simp: pb_read_def pb_read_bytes_def call_istream_cb_def buf_read_def iadvance_def not_le)

lemma pb_read_null:
  assumes "ibuf s h"
  shows "pb_read E RNull n s h =
    (if n \<le> bytes_left s then Some (Some [], iadvance s (unat n), h)
     else Some (None, is_set_error s ''end-of-stream'', h))"
  using assms by (simp add: pb_read_null_cb ibuf_def)

lemma total_pb_read_null: "total_reader (pb_read E RNull n)"
  using consumed_iadvance by (auto simp: total_reader_def pb_read_null word_le_nat_alt)

lemma total_pb_read_local: "total_reader (pb_read E RLocal n)"
  unfolding total_reader_def
proof (intro allI impI)
  fix s h assume s: "ibuf s h"
  show "\<exists>v s'. pb_read E RLocal n s h = Some (v, s', h) \<and> consumed s s'"
  proof (cases "bytes_left s < n")
    case True
    then show ?thesis by (auto simp: pb_read_def pb_read_bytes_short)
  next
    case False
    then have "unat n \<le> unat (bytes_left s)" by (simp add: word_less_nat_alt)
    with s show ?thesis using pb_read_local [of s h n E] consumed_iadvance by blast
  qed
qed

lemma parses_pb_read_local: "length bs < 2 ^ 64 \<Longrightarrow> parses (pb_read E RLocal (of_nat (length bs))) bs bs"
  unfolding parses_def holds_def
  using pb_read_local [of _ _ "of_nat (length bs)" E] by (fastforce simp: unat_u64_of_nat)

lemma parses_pb_read_null: "length bs < 2 ^ 64 \<Longrightarrow> parses (pb_read E RNull (of_nat (length bs))) bs []"
  by (simp add: parses_def holds_def pb_read_null unat_u64_of_nat word_le_nat_alt)

lemma pb_readbyte_ok:
  assumes "ibuf s h" "bytes_left s \<noteq> 0"
  shows "\<exists>b. hmem h (is_state s) = Some b \<and> pb_readbyte E s h = Some (Some b, iadvance s 1, h)"
proof -
  have "Suc 0 \<le> unat (bytes_left s)" using assms(2) by (simp add: Suc_le_eq unat_gt_0)
  from ibuf_load [OF assms(1) this] obtain b where "load_bytes (hmem h) (is_state s) 1 = Some [b]"
    by (auto simp: length_Suc_conv)
  moreover from this have "hmem h (is_state s) = Some b" by (auto split: option.splits)
  ultimately show ?thesis
    using assms by (simp add: pb_readbyte_def call_istream_cb_def buf_read_def ibuf_def iadvance_def)
qed

lemma pb_readbyte_eof:
  "bytes_left s = 0 \<Longrightarrow> pb_readbyte E s h = Some (None, is_set_error s ''end-of-stream'', h)"
  by (simp add: pb_readbyte_def)

lemma total_pb_readbyte: "total_reader (pb_readbyte E)"
  unfolding total_reader_def
proof (intro allI impI)
  fix s h assume s: "ibuf s h"
  show "\<exists>v s'. pb_readbyte E s h = Some (v, s', h) \<and> consumed s s'"
  proof (cases "bytes_left s = 0")
    case False
    then show ?thesis
      using pb_readbyte_ok [OF s False, of E] consumed_iadvance [of 1 s] by (auto simp: Suc_le_eq unat_gt_0)
  qed (auto simp: pb_readbyte_eof)
qed

lemma parses_pb_readbyte: "parses (pb_readbyte E) [b] b"
  unfolding parses_def holds_def
proof (intro allI impI)
  fix s h assume s: "ibuf s h" "length [b] \<le> unat (bytes_left s) \<and> load_bytes (hmem h) (is_state s) (length [b]) = Some [b]"
  then have "bytes_left s \<noteq> 0" by auto
  with s show "pb_readbyte E s h = Some (Some b, iadvance s (length [b]), h)"
    using pb_readbyte_ok [OF s(1), of E] by (auto split: option.splits)
qed

text \<open>After a successful byte the stream is strictly shorter.\<close>

lemma pb_readbyte_shorter:
  "ibuf s h \<Longrightarrow> pb_readbyte E s h = Some (Some b, s', h') \<Longrightarrow> unat (bytes_left s') < unat (bytes_left s)"
  using pb_readbyte_ok [of s h E] pb_readbyte_eof [of s E h] unat_minus_of_nat [of 1 "bytes_left s"]
  by (cases "bytes_left s = 0") (auto simp: Suc_le_eq unat_gt_0)

section \<open>Loops return on every buffer\<close>

text \<open>Well-founded induction on the bytes left, for loops that read one byte per iteration.\<close>

lemma byte_loop_total:
  assumes "\<And>s h. ibuf s h \<Longrightarrow>
      (\<And>s'. consumed s s' \<Longrightarrow> unat (bytes_left s') < unat (bytes_left s) \<Longrightarrow> \<forall>x. \<exists>v t. f x s' h = Some (v, t, h) \<and> consumed s' t) \<Longrightarrow>
      \<forall>x. \<exists>v t. f x s h = Some (v, t, h) \<and> consumed s t"
  shows "total_reader (f x)"
proof -
  have "ibuf s h \<Longrightarrow> \<forall>x. \<exists>v t. f x s h = Some (v, t, h) \<and> consumed s t" for s h
  proof (induction "unat (bytes_left s)" arbitrary: s rule: less_induct)
    case less
    show ?case
      by (rule assms [OF less.prems]) (use less ibuf_consumed in blast)
  qed
  then show ?thesis by (simp add: total_reader_def)
qed

lemma pb_readbyte_cases:
  assumes "ibuf s h"
  obtains s' where "pb_readbyte E s h = Some (None, s', h)" "consumed s s'"
  | b s' where "pb_readbyte E s h = Some (Some b, s', h)" "consumed s s'" "ibuf s' h"
      "unat (bytes_left s') < unat (bytes_left s)"
proof -
  obtain v s' where r: "pb_readbyte E s h = Some (v, s', h)" "consumed s s'" "ibuf s' h"
    using total_pb_readbyte assms by (rule total_readerD)
  then show thesis
    using that pb_readbyte_shorter [OF assms] by (cases v) auto
qed

lemma total_varint32_loop: "total_reader (varint32_loop E bitpos result)"
proof -
  have "total_reader ((\<lambda>(bitpos, result). varint32_loop E bitpos result) (bitpos, result))"
  proof (rule byte_loop_total, rule allI, clarify)
    fix s h bitpos result
    assume s: "ibuf s h" and IH: "\<And>s'. consumed s s' \<Longrightarrow> unat (bytes_left s') < unat (bytes_left s) \<Longrightarrow>
      \<forall>x. \<exists>v t. (case x of (bitpos, result) \<Rightarrow> varint32_loop E bitpos result) s' h = Some (v, t, h) \<and> consumed s' t"
    show "\<exists>v t. varint32_loop E bitpos result s h = Some (v, t, h) \<and> consumed s t"
      using s
    proof (cases rule: pb_readbyte_cases [of s h E])
      case (2 b s')
      have "\<forall>bp r. \<exists>v t. varint32_loop E bp r s' h = Some (v, t, h) \<and> consumed s t"
        using 2 IH [of s'] consumed_trans by fastforce
      then show ?thesis
        using 2 by (subst varint32_loop.simps) (auto simp: Let_def)
    qed (simp add: varint32_loop.simps)
  qed
  then show ?thesis by simp
qed

lemma total_pb_skip_varint: "total_reader (pb_skip_varint E)"
proof -
  have "total_reader (pb_skip_varint E)"
  proof (rule byte_loop_total [where f = "\<lambda>_ :: unit. pb_skip_varint E"], rule allI)
    fix s h and x :: unit
    assume s: "ibuf s h" and IH: "\<And>s'. consumed s s' \<Longrightarrow> unat (bytes_left s') < unat (bytes_left s) \<Longrightarrow>
      \<forall>x :: unit. \<exists>v t. pb_skip_varint E s' h = Some (v, t, h) \<and> consumed s' t"
    show "\<exists>v t. pb_skip_varint E s h = Some (v, t, h) \<and> consumed s t"
    proof (cases "bytes_left s = 0")
      case True
      then show ?thesis
        by (subst pb_skip_varint.simps) (simp add: pb_read_def pb_read_bytes_short word_less_nat_alt)
    next
      case False
      then have one: "unat 1 \<le> unat (bytes_left s)" by (simp add: Suc_le_eq unat_gt_0)
      obtain b where r: "pb_read E RLocal 1 s h = Some (Some [b], iadvance s 1, h)"
        using pb_read_local [OF s one, of E] by (auto simp: length_Suc_conv)
      have "consumed s (iadvance s 1)" "unat (bytes_left (iadvance s 1)) < unat (bytes_left s)"
        using one consumed_iadvance [of 1 s] unat_minus_of_nat [of 1 "bytes_left s"] by simp_all
      then show ?thesis
        using IH [of "iadvance s 1"] r
        by (subst pb_skip_varint.simps) (auto intro: consumed_trans)
    qed
  qed
  then show ?thesis by simp
qed

lemma total_varint64_loop: "total_reader (varint64_loop E bitpos result)"
proof -
  have "\<forall>bitpos result. ibuf s h \<longrightarrow> (\<exists>v t. varint64_loop E bitpos result s h = Some (v, t, h) \<and> consumed s t)" for s h
  proof (induction "unat (bytes_left s)" arbitrary: s rule: less_induct)
    case less
    show ?case
    proof (intro allI impI)
      fix bitpos result assume s: "ibuf s h"
      then show "\<exists>v t. varint64_loop E bitpos result s h = Some (v, t, h) \<and> consumed s t"
      proof (cases rule: pb_readbyte_cases [of s h E])
        case (2 b s')
        have "\<forall>bp r. \<exists>v t. varint64_loop E bp r s' h = Some (v, t, h) \<and> consumed s t"
          using 2 less [of s'] consumed_trans by fastforce
        then show ?thesis
          using 2 by (subst varint64_loop.simps) (auto simp: Let_def val_then_def)
      qed (subst varint64_loop.simps, simp add: val_then_def)
    qed
  qed
  then show ?thesis by (simp add: total_reader_def)
qed

lemma total_raw_varint_loop: "total_reader (raw_varint_loop E n acc)"
proof (induction "n - length acc" arbitrary: acc)
  case 0
  then show ?case by (subst total_reader_def, subst raw_varint_loop.simps) simp
next
  case (Suc d)
  have IH: "total_reader (raw_varint_loop E n (acc @ [b]))" for b using Suc by simp
  show ?case
    unfolding total_reader_def
  proof (intro allI impI)
    fix s h assume s: "ibuf s h"
    show "\<exists>v s'. raw_varint_loop E n acc s h = Some (v, s', h) \<and> consumed s s'"
    proof (cases "bytes_left s = 0")
      case True
      then show ?thesis
        by (subst raw_varint_loop.simps) (simp add: pb_read_def pb_read_bytes_short word_less_nat_alt val_then_def)
    next
      case False
      then have one: "unat 1 \<le> unat (bytes_left s)" by (simp add: Suc_le_eq unat_gt_0)
      obtain b where r: "pb_read E RLocal 1 s h = Some (Some [b], iadvance s 1, h)"
        using pb_read_local [OF s one, of E] by (auto simp: length_Suc_conv)
      have c: "consumed s (iadvance s 1)" using one consumed_iadvance [of 1 s] by simp
      obtain v t where "raw_varint_loop E n (acc @ [b]) (iadvance s 1) h = Some (v, t, h)" "consumed (iadvance s 1) t"
        using IH ibuf_consumed [OF s c] by (rule total_readerD)
      then show ?thesis
        using r c by (subst raw_varint_loop.simps) (auto simp: val_then_def intro: consumed_trans)
    qed
  qed
qed

section \<open>Parsing variable length integers\<close>

lemma group_bits:
  assumes "g < 128"
  shows "(of_nat g AND 0x7F :: u8) = of_nat g" "(of_nat g AND 0x80 :: u8) = 0"
    "(of_nat (g + 128) AND 0x7F :: u8) = of_nat g" "(of_nat (g + 128) AND 0x80 :: u8) \<noteq> 0"
proof -
  have "list_all (\<lambda>g. (of_nat g AND 0x7F :: u8) = of_nat g \<and> (of_nat g AND 0x80 :: u8) = 0 \<and>
      (of_nat (g + 128) AND 0x7F :: u8) = of_nat g \<and> (of_nat (g + 128) AND 0x80 :: u8) \<noteq> 0) [0..<128]"
    by code_simp
  then have "\<forall>g \<in> set [0..<128]. (of_nat g AND 0x7F :: u8) = of_nat g \<and> (of_nat g AND 0x80 :: u8) = 0 \<and>
      (of_nat (g + 128) AND 0x7F :: u8) = of_nat g \<and> (of_nat (g + 128) AND 0x80 :: u8) \<noteq> 0"
    by (simp only: list_all_iff)
  with assms show "(of_nat g AND 0x7F :: u8) = of_nat g" "(of_nat g AND 0x80 :: u8) = 0"
    "(of_nat (g + 128) AND 0x7F :: u8) = of_nat g" "(of_nat (g + 128) AND 0x80 :: u8) \<noteq> 0"
    by simp_all
qed

lemma take_bit_self_nat: "unat (r :: 'a::len word) < 2 ^ p \<Longrightarrow> take_bit p r = r"
  by (simp add: word_unat_eq_iff unsigned_take_bit_eq take_bit_nat_eq_self_iff)

text \<open>Adding a group above the bits read so far.\<close>

lemma or_push_bit:
  fixes r x :: "'a::len word"
  assumes "unat r < 2 ^ p" "unat r + unat x * 2 ^ p < 2 ^ LENGTH('a)"
  shows "r OR push_bit p x = r + of_nat (unat x * 2 ^ p)"
proof -
  have "r AND push_bit p x = take_bit p r AND push_bit p x" by (simp only: take_bit_self_nat [OF assms(1)])
  also have "\<dots> = 0" by (rule bit_word_eqI) (auto simp: bit_simps)
  finally have "r OR push_bit p x = r + push_bit p x" by (simp only: disjunctive_add_eq_or)
  then show ?thesis by (simp add: push_bit_eq_mult)
qed

lemma parses_byte: "parses (k b) ys w \<Longrightarrow> parses (\<lambda>s h. val_then (pb_readbyte E s h) k) (b # ys) w"
  using parses_val_then [OF parses_pb_readbyte, of k b ys w E] by simp

text \<open>
  The arithmetic of one round, shared by the 64 bit and the 32 bit loop: \<open>r\<close> holds \<open>7 * k\<close> bits,
  \<open>n\<close> is what remains of the number.
\<close>

lemma varint_round:
  fixes r :: "'a::len word"
  assumes r: "unat r < 2 ^ (7 * k)" and fit: "unat r + n * 2 ^ (7 * k) < 2 ^ LENGTH('a)"
  defines "r' \<equiv> r OR push_bit (7 * k) (ucast (of_nat (n mod 128) :: u8))"
  shows "r' = r + of_nat (n mod 128 * 2 ^ (7 * k))"
    and "unat r' < 2 ^ (7 * Suc k)"
    and "unat r' + n div 128 * 2 ^ (7 * Suc k) = unat r + n * 2 ^ (7 * k)"
    and "r' + of_nat (n div 128 * 2 ^ (7 * Suc k)) = r + of_nat (n * 2 ^ (7 * k))"
proof -
  define g where "g = n mod 128"
  have "n * 2 ^ (7 * k) = (n div 128 * 128 + g) * 2 ^ (7 * k)" unfolding g_def by (simp only: div_mult_mod_eq)
  then have split: "n * 2 ^ (7 * k) = g * 2 ^ (7 * k) + n div 128 * 2 ^ (7 * Suc k)"
    by (simp add: algebra_simps power_add)
  then have gfit: "unat r + g * 2 ^ (7 * k) < 2 ^ LENGTH('a)" using fit by simp
  have "g < 2 ^ LENGTH('a)" using gfit by (metis add_lessD1 le_add2 mult.right_neutral mult_le_mono2 one_le_numeral one_le_power order.strict_trans1)
  then have ug: "unat (ucast (of_nat g :: u8) :: 'a word) = g"
    by (simp add: unsigned_ucast_eq unat_byte g_def take_bit_nat_eq_self_iff)
  then show eq: "r' = r + of_nat (n mod 128 * 2 ^ (7 * k))"
    using or_push_bit [OF r, of "ucast (of_nat g :: u8)"] gfit unfolding r'_def g_def [symmetric] by simp
  have "unat (of_nat (g * 2 ^ (7 * k)) :: 'a word) = g * 2 ^ (7 * k)"
    using gfit by (simp add: unat_of_nat take_bit_nat_eq_self_iff del: of_nat_mult)
  then have unat_r': "unat r' = unat r + g * 2 ^ (7 * k)"
    using gfit unfolding eq g_def [symmetric] by (simp add: unat_word_ariths del: of_nat_mult)
  have "g * 2 ^ (7 * k) \<le> 127 * 2 ^ (7 * k)" by (rule mult_le_mono1) (simp add: g_def)
  moreover have "(2 :: nat) ^ (7 * Suc k) = 128 * 2 ^ (7 * k)" by (simp add: power_add)
  ultimately show "unat r' < 2 ^ (7 * Suc k)" unfolding unat_r' using r by linarith
  show "unat r' + n div 128 * 2 ^ (7 * Suc k) = unat r + n * 2 ^ (7 * k)" using split by (simp add: unat_r')
  show "r' + of_nat (n div 128 * 2 ^ (7 * Suc k)) = r + of_nat (n * 2 ^ (7 * k))"
    unfolding split eq g_def by (simp only: of_nat_add add.assoc)
qed

lemma varint64_loop_step:
  "\<not> 64 \<le> bitpos \<Longrightarrow> varint64_loop E bitpos r = (\<lambda>s h. val_then (pb_readbyte E s h) (\<lambda>byte.
     let r' = r OR push_bit (unat bitpos) (ucast (byte AND 0x7F))
     in if byte AND 0x80 \<noteq> 0 then varint64_loop E (bitpos + 7) r' else (\<lambda>s h. Some (Some r', s, h))))"
  by (intro ext, subst varint64_loop.simps) (auto simp: Let_def intro!: arg_cong [where f = "val_then _"])

lemma leb128_small: "n < 128 \<Longrightarrow> leb128 n = [of_nat n]"
  by (simp add: leb128.simps)

lemma leb128_large: "\<not> n < 128 \<Longrightarrow> leb128 n = of_nat (n mod 128 + 128) # leb128 (n div 128)"
  by (subst leb128.simps) simp

lemma parses_varint64_loop:
  assumes "unat r < 2 ^ (7 * k)" "unat r + n * 2 ^ (7 * k) < 2 ^ 64" "k < 10"
  shows "parses (varint64_loop E (of_nat (7 * k)) r) (leb128 n) (r + of_nat (n * 2 ^ (7 * k)))"
  using assms
proof (induction n arbitrary: r k rule: leb128.induct)
  case (1 n)
  have bp: "\<not> 64 \<le> (of_nat (7 * k) :: u8)" "unat (of_nat (7 * k) :: u8) = 7 * k"
    using "1.prems"(3) by (simp_all add: unat_byte word_le_nat_alt del: of_nat_mult)
  have fit: "unat r + n * 2 ^ (7 * k) < 2 ^ LENGTH(64)" using "1.prems"(2) by simp
  note round = varint_round [OF "1.prems"(1) fit]
  show ?case
  proof (cases "n < 128")
    case True
    then show ?thesis
      unfolding varint64_loop_step [OF bp(1)] bp(2) leb128_small [OF True]
      using round(1) parses_return by (intro parses_byte) (simp add: group_bits Let_def)
  next
    case False
    let ?r = "r OR push_bit (7 * k) (ucast (of_nat (n mod 128) :: u8))"
    have "2 ^ (7 * Suc k) \<le> n * 2 ^ (7 * k)" using False by (simp add: power_add)
    then have "(2 :: nat) ^ (7 * Suc k) < 2 ^ 64" using "1.prems"(2) by linarith
    then have k: "Suc k < 10" by (subst (asm) power_strict_increasing_iff) auto
    have "parses (varint64_loop E (of_nat (7 * Suc k)) ?r) (leb128 (n div 128)) (?r + of_nat (n div 128 * 2 ^ (7 * Suc k)))"
      by (rule "1.IH" [OF False round(2) _ k]) (simp only: round(3) "1.prems"(2))
    moreover define b :: u8 where "b = of_nat (n mod 128 + 128)"
    have "b AND 0x7F = of_nat (n mod 128)" "b AND 0x80 \<noteq> 0" unfolding b_def by (rule group_bits, simp)+
    moreover have "of_nat (7 * Suc k) = (of_nat (7 * k) + 7 :: u8)" by simp
    ultimately show ?thesis
      unfolding varint64_loop_step [OF bp(1)] bp(2) leb128_large [OF False] b_def [symmetric]
      by (intro parses_byte) (simp only: round(4) Let_def if_True not_False_eq_True)
  qed
qed

lemma parses_pb_decode_varint: "parses (pb_decode_varint E) (leb128 (unat v)) v"
  using parses_varint64_loop [of 0 0 "unat v" E] unat_u64_lt [of v] unfolding pb_decode_varint_def by simp

subsection \<open>The 32 bit variant\<close>

lemma varint32_loop_step:
  "\<not> 32 \<le> bitpos \<Longrightarrow> varint32_loop E bitpos r = (\<lambda>s h. val_then (pb_readbyte E s h) (\<lambda>byte.
     let r' = r OR push_bit (unat bitpos) (ucast (byte AND 0x7F))
     in if byte AND 0x80 \<noteq> 0 then varint32_loop E (bitpos + 7) r' else (\<lambda>s h. Some (Some (bitpos + 7, r', byte), s, h))))"
  by (intro ext, subst varint32_loop.simps) (auto simp: Let_def val_then_def split: option.splits)

lemma low_group_bits: "n < 16 \<Longrightarrow> (of_nat n AND 0x70 :: u8) = 0"
proof -
  assume n: "n < 16"
  have "list_all (\<lambda>n. (of_nat n AND 0x70 :: u8) = 0) [0..<16]" by code_simp
  then have "\<forall>n \<in> set [0..<16]. (of_nat n AND 0x70 :: u8) = 0" by (simp only: list_all_iff)
  with n show ?thesis by simp
qed

lemma parses_varint32_loop:
  assumes "unat r < 2 ^ (7 * k)" "unat r + n * 2 ^ (7 * k) < 2 ^ 32" "k < 5"
  shows "\<exists>bp b. parses (varint32_loop E (of_nat (7 * k)) r) (leb128 n) (bp, r + of_nat (n * 2 ^ (7 * k)), b) \<and>
    (bp = 35 \<longrightarrow> b AND 0x70 = 0)"
  using assms
proof (induction n arbitrary: r k rule: leb128.induct)
  case (1 n)
  have bp: "\<not> 32 \<le> (of_nat (7 * k) :: u8)" "unat (of_nat (7 * k) :: u8) = 7 * k"
    using "1.prems"(3) by (simp_all add: unat_byte word_le_nat_alt del: of_nat_mult)
  have fit: "unat r + n * 2 ^ (7 * k) < 2 ^ LENGTH(32)" using "1.prems"(2) by simp
  note round = varint_round [OF "1.prems"(1) fit]
  show ?case
  proof (cases "n < 128")
    case True
    have "parses (varint32_loop E (of_nat (7 * k)) r) (leb128 n)
        (of_nat (7 * k) + 7, r + of_nat (n * 2 ^ (7 * k)), of_nat n)"
      unfolding varint32_loop_step [OF bp(1)] bp(2) leb128_small [OF True]
      using round(1) True parses_return by (intro parses_byte) (simp add: group_bits Let_def)
    moreover have "(of_nat n AND 0x70 :: u8) = 0" if "of_nat (7 * k) + 7 = (35 :: u8)"
    proof -
      have eq: "of_nat (7 * Suc k) = (of_nat 35 :: u8)" using that by simp
      have "7 * Suc k = unat (of_nat (7 * Suc k) :: u8)"
        using "1.prems"(3) by (intro unat_byte [symmetric]) simp
      also have "\<dots> = unat (of_nat 35 :: u8)" by (rule arg_cong [OF eq])
      also have "\<dots> = 35" by (rule unat_byte) simp
      finally have "7 * Suc k = 35" .
      then have "k = 4" by simp
      then show ?thesis using "1.prems"(2) by (intro low_group_bits) simp
    qed
    ultimately show ?thesis by blast
  next
    case False
    let ?r = "r OR push_bit (7 * k) (ucast (of_nat (n mod 128) :: u8))"
    have "2 ^ (7 * Suc k) \<le> n * 2 ^ (7 * k)" using False by (simp add: power_add)
    then have "(2 :: nat) ^ (7 * Suc k) < 2 ^ 32" using "1.prems"(2) by linarith
    then have k: "Suc k < 5" by (subst (asm) power_strict_increasing_iff) auto
    have "unat ?r + n div 128 * 2 ^ (7 * Suc k) < 2 ^ 32" by (simp only: round(3) "1.prems"(2))
    from "1.IH" [OF False round(2) this k] obtain bp' b' where
      IH: "parses (varint32_loop E (of_nat (7 * Suc k)) ?r) (leb128 (n div 128)) (bp', r + of_nat (n * 2 ^ (7 * k)), b')"
        "bp' = 35 \<longrightarrow> b' AND 0x70 = 0"
      unfolding round(4) by blast
    define b :: u8 where "b = of_nat (n mod 128 + 128)"
    have "b AND 0x7F = of_nat (n mod 128)" "b AND 0x80 \<noteq> 0" unfolding b_def by (rule group_bits, simp)+
    moreover have "of_nat (7 * Suc k) = (of_nat (7 * k) + 7 :: u8)" by simp
    ultimately have "parses (varint32_loop E (of_nat (7 * k)) r) (leb128 n) (bp', r + of_nat (n * 2 ^ (7 * k)), b')"
      unfolding varint32_loop_step [OF bp(1)] bp(2) leb128_large [OF False] b_def [symmetric]
      using IH(1) by (intro parses_byte) (simp only: Let_def if_True not_False_eq_True)
    with IH(2) show ?thesis by blast
  qed
qed

lemma varint32_eof_parses:
  assumes n: "n < 2 ^ 32" and s: "ibuf s h" "holds s h (leb128 n)"
  shows "pb_decode_varint32_eof E s h = Some (Some (of_nat n), False, iadvance s (length (leb128 n)), h)"
proof (cases "n < 128")
  case True
  then have "holds s h [of_nat n]" using s(2) by (simp add: leb128_small)
  then have "pb_readbyte E s h = Some (Some (of_nat n), iadvance s 1, h)"
    using parsesD [OF parses_pb_readbyte s(1)] by simp
  moreover have "ucast (of_nat n :: u8) = (of_nat n :: u32)"
    using True by (simp add: word_unat_eq_iff unsigned_ucast_eq unat_of_nat take_bit_nat_eq_self_iff)
  ultimately show ?thesis
    using True by (simp add: pb_decode_varint32_eof_def leb128_small group_bits)
next
  case False
  define b :: u8 where "b = of_nat (n mod 128 + 128)"
  have b: "b AND 0x7F = of_nat (n mod 128)" "b AND 0x80 \<noteq> 0" unfolding b_def by (rule group_bits, simp)+
  have leb: "leb128 n = b # leb128 (n div 128)" using leb128_large [OF False] by (simp only: b_def)
  have hold: "holds s h [b]" "holds (iadvance s 1) h (leb128 (n div 128))"
    using s(2) unfolding leb by (simp_all add: holds_Cons [of s h b "leb128 (n div 128)"])
  let ?r = "ucast (of_nat (n mod 128) :: u8) :: u32"
  have r: "unat ?r = n mod 128"
    by (simp add: unsigned_ucast_eq unat_byte take_bit_nat_eq_self_iff)
  have sum: "n mod 128 + n div 128 * 128 = n" by simp
  obtain bp c where loop: "parses (varint32_loop E 7 ?r) (leb128 (n div 128)) (bp, ?r + of_nat (n div 128 * 128), c)"
      "bp = 35 \<longrightarrow> c AND 0x70 = 0"
    using parses_varint32_loop [of ?r 1 "n div 128" E] n unfolding r by auto
  have "?r = of_nat (n mod 128)" by (subst r [symmetric]) simp
  then have val: "?r + of_nat (n div 128 * 128) = of_nat n"
    by (simp only: of_nat_add [symmetric] sum)
  have ib: "ibuf (iadvance s 1) h" using ibuf_iadvance [OF s(1)] holds_le [OF hold(1)] by simp
  have "pb_readbyte E s h = Some (Some b, iadvance s 1, h)"
    using parsesD [OF parses_pb_readbyte s(1) hold(1)] by simp
  moreover have "varint32_loop E 7 ?r (iadvance s 1) h =
      Some (Some (bp, of_nat n, c), iadvance s (Suc (length (leb128 (n div 128)))), h)"
    using parsesD [OF loop(1) ib hold(2)] unfolding val by simp
  ultimately show ?thesis
    using b loop(2) by (simp add: pb_decode_varint32_eof_def leb)
qed

lemma parses_pb_decode_varint32: "n < 2 ^ 32 \<Longrightarrow> parses (pb_decode_varint32 E) (leb128 n) (of_nat n)"
  by (simp add: parses_def pb_decode_varint32_def varint32_eof_parses)

lemma varint32_eof_total:
  assumes s: "ibuf s h"
  shows "\<exists>v e s'. pb_decode_varint32_eof E s h = Some (v, e, s', h) \<and> consumed s s' \<and> ibuf s' h \<and>
    (v \<noteq> None \<longrightarrow> unat (bytes_left s') < unat (bytes_left s))"
  using s
proof (cases rule: pb_readbyte_cases [of s h E])
  case (1 s')
  then show ?thesis using ibuf_consumed [OF s] by (simp add: pb_decode_varint32_eof_def)
next
  case (2 b s')
  obtain v t where loop: "varint32_loop E 7 (ucast (b AND 0x7F)) s' h = Some (v, t, h)" "consumed s' t" "ibuf t h"
    using total_varint32_loop 2(3) by (rule total_readerD)
  have t: "consumed s t" "unat (bytes_left t) < unat (bytes_left s)"
    using 2 loop(2) consumed_trans by (auto simp: consumed_def word_le_nat_alt)
  show ?thesis
    using 2 loop t by (cases v) (auto simp: pb_decode_varint32_eof_def)
qed

lemma total_pb_decode_varint32: "total_reader (pb_decode_varint32 E)"
  unfolding total_reader_def
proof (intro allI impI)
  fix s h assume "ibuf s h"
  then obtain v e s' where "pb_decode_varint32_eof E s h = Some (v, e, s', h)" "consumed s s'"
    using varint32_eof_total by blast
  then show "\<exists>v s'. pb_decode_varint32 E s h = Some (v, s', h) \<and> consumed s s'"
    by (simp add: pb_decode_varint32_def)
qed

section \<open>Derived readers\<close>

lemma total_pb_decode_varint: "total_reader (pb_decode_varint E)"
  unfolding pb_decode_varint_def using total_varint64_loop .

lemma total_pb_skip_string: "total_reader (pb_skip_string E)"
  unfolding pb_skip_string_def
  by (intro total_val_then total_pb_decode_varint32 total_pb_read_null total_return)

lemma total_pb_skip_field: "total_reader (pb_skip_field E wt)"
  unfolding pb_skip_field_def
  by (intro total_if total_val_then total_pb_skip_varint total_pb_skip_string total_pb_read_null total_return total_error)

lemma total_read_raw_value: "total_reader (read_raw_value E wt n)"
  unfolding read_raw_value_def
  by (intro total_if total_raw_varint_loop total_pb_read_local total_error)

lemma total_pb_decode_svarint: "total_reader (pb_decode_svarint E)"
  unfolding pb_decode_svarint_def by (intro total_val_then total_pb_decode_varint total_return)

text \<open>Decoding undoes the zigzag map.\<close>

definition unzigzag :: "u64 \<Rightarrow> u64" where
  "unzigzag value = (if value AND 1 \<noteq> 0 then NOT (drop_bit 1 value) else drop_bit 1 value)"

lemma unzigzag_word: "unzigzag (if sint v < 0 then NOT (push_bit 1 v) else push_bit 1 v) = v"
proof -
  have sign: "sint v < 0 \<longleftrightarrow> bit v 63" using bit_last_iff [of v] by simp
  have odd: "x AND 1 \<noteq> 0 \<longleftrightarrow> bit x 0" for x :: u64
    by (simp add: and_one_eq bit_0 mod_2_eq_odd)
  show ?thesis
  proof (cases "sint v < 0")
    case True
    have "NOT (drop_bit 1 (NOT (push_bit 1 v))) = v"
    proof (rule bit_word_eqI)
      fix n assume n: "n < LENGTH(64)"
      show "bit (NOT (drop_bit 1 (NOT (push_bit 1 v)))) n = bit v n"
        using True n sign by (cases "n = 63") (auto simp: bit_simps bit_double_iff mult.commute [of v])
    qed
    with True show ?thesis unfolding unzigzag_def odd by (simp add: bit_simps bit_double_iff mult.commute [of v])
  next
    case False
    have "drop_bit 1 (push_bit 1 v) = v"
    proof (rule bit_word_eqI)
      fix n assume n: "n < LENGTH(64)"
      show "bit (drop_bit 1 (push_bit 1 v)) n = bit v n"
        using False n sign by (cases "n = 63") (auto simp: bit_simps bit_double_iff mult.commute [of v])
    qed
    with False show ?thesis unfolding unzigzag_def odd by (simp add: bit_simps bit_double_iff mult.commute [of v])
  qed
qed

lemma parses_pb_decode_svarint: "parses (pb_decode_svarint E) (leb128 (zigzag (sint v))) v"
proof -
  define z where "z = (if sint v < 0 then NOT (push_bit 1 v) else push_bit 1 v)"
  have "unat z = zigzag (sint v)" "unzigzag z = v"
    unfolding z_def by (rule zigzagged_unat, rule unzigzag_word)
  moreover have "parses (pb_decode_svarint E) (leb128 (unat z) @ []) (unzigzag z)"
    unfolding pb_decode_svarint_def unzigzag_def [symmetric]
    by (rule parses_val_then [OF parses_pb_decode_varint parses_return])
  ultimately show ?thesis by simp
qed

text \<open>A key with a nonzero number; larger keys do not fit 32 bits and are refused or truncated.\<close>

lemma pb_decode_tag_parses:
  assumes "wt < 8" "8 * unat t + unat wt < 2 ^ 32" "t \<noteq> 0" "ibuf s h" "holds s h (key_bytes wt t)"
  shows "pb_decode_tag E s h = Some (Some (wt, t), False, iadvance s (length (key_bytes wt t)), h)"
proof -
  let ?k = "of_nat (8 * unat t + unat wt) :: u32"
  have u: "unat ?k = 8 * unat t + unat wt" using assms(2) by (simp add: unat_of_nat take_bit_nat_eq_self_iff del: of_nat_add of_nat_mult)
  have w: "unat wt < 8" using assms(1) by (simp add: word_less_nat_alt)
  have "0 < unat t" using assms(3) by (simp add: unat_gt_0)
  then have "unat ?k \<noteq> 0" using u by linarith
  then have "?k \<noteq> 0" by (metis unat_0)
  moreover have "?k AND 7 = wt"
  proof -
    have "?k AND 7 = take_bit 3 ?k" by (simp add: take_bit_eq_mask mask_eq_exp_minus_1)
    moreover have "unat (take_bit 3 ?k) = unat wt"
      unfolding unsigned_take_bit_eq u using w by (simp add: take_bit_eq_mod)
    ultimately show ?thesis by (simp only: word_unat_eq_iff)
  qed
  moreover have "drop_bit 3 ?k = t"
    using w unfolding word_unat_eq_iff unat_drop_bit_eq u by (simp add: drop_bit_eq_div)
  ultimately show ?thesis
    using varint32_eof_parses [OF assms(2,4), of E] assms(5)
    by (simp add: pb_decode_tag_def key_bytes_def del: of_nat_add of_nat_mult)
qed

lemma pb_decode_tag_total:
  assumes "ibuf s h"
  shows "\<exists>v e s'. pb_decode_tag E s h = Some (v, e, s', h) \<and> consumed s s' \<and> ibuf s' h \<and>
    (v \<noteq> None \<longrightarrow> unat (bytes_left s') < unat (bytes_left s))"
proof -
  obtain v e s' where "pb_decode_varint32_eof E s h = Some (v, e, s', h)" "consumed s s'" "ibuf s' h"
    "v \<noteq> None \<longrightarrow> unat (bytes_left s') < unat (bytes_left s)"
    using varint32_eof_total [OF assms, of E] by blast
  then show ?thesis by (cases v) (auto simp: pb_decode_tag_def)
qed

section \<open>Skipping\<close>

lemma pb_skip_varint_step:
  "pb_skip_varint E = (\<lambda>s h. val_then (pb_read E RLocal 1 s h) (\<lambda>bs.
     case bs of [byte] \<Rightarrow> if byte AND 0x80 \<noteq> 0 then pb_skip_varint E else (\<lambda>s h. Some (Some (), s, h))
     | _ \<Rightarrow> (\<lambda>s h. None)))"
proof (intro ext)
  fix s h
  show "pb_skip_varint E s h = val_then (pb_read E RLocal 1 s h) (\<lambda>bs.
      case bs of [byte] \<Rightarrow> if byte AND 0x80 \<noteq> 0 then pb_skip_varint E else (\<lambda>s h. Some (Some (), s, h))
      | _ \<Rightarrow> (\<lambda>s h. None))"
    by (subst pb_skip_varint.simps, cases "pb_read E RLocal 1 s h")
      (auto simp: val_then_def split: option.splits list.splits)
qed

lemma parses_local_byte: "parses (k [b]) ys w \<Longrightarrow> parses (\<lambda>s h. val_then (pb_read E RLocal 1 s h) k) (b # ys) w"
  using parses_val_then [of "pb_read E RLocal 1" "[b]" "[b]" k ys w] parses_pb_read_local [of "[b]" E] by simp

lemma parses_pb_skip_varint: "parses (pb_skip_varint E) (leb128 n) ()"
proof (induction n rule: leb128.induct)
  case (1 n)
  show ?case
  proof (cases "n < 128")
    case True
    then show ?thesis
      unfolding leb128_small [OF True]
      by (subst pb_skip_varint_step, intro parses_local_byte) (simp add: group_bits parses_return)
  next
    case False
    define b :: u8 where "b = of_nat (n mod 128 + 128)"
    have b: "b AND 0x80 \<noteq> 0" unfolding b_def by (rule group_bits, simp)
    show ?thesis
      unfolding leb128_large [OF False] b_def [symmetric]
      by (subst pb_skip_varint_step, intro parses_local_byte) (use "1.IH" [OF False] b in simp)
  qed
qed

lemma parses_skip_bytes:
  "length bs < 2 ^ 64 \<Longrightarrow> parses (\<lambda>s h. val_then (pb_read E RNull (of_nat (length bs)) s h) (\<lambda>_ s h. Some (Some (), s, h))) bs ()"
  using parses_val_then [OF parses_pb_read_null parses_return, of bs E] by simp

lemma ucast_of_nat_u32: "n < 2 ^ 32 \<Longrightarrow> ucast (of_nat n :: u32) = (of_nat n :: u64)"
  by (simp add: word_unat_eq_iff unsigned_ucast_eq unat_of_nat take_bit_nat_eq_self_iff)

lemma parses_pb_skip_string:
  assumes "length bs < 2 ^ 32"
  shows "parses (pb_skip_string E) (leb128 (length bs) @ bs) ()"
  unfolding pb_skip_string_def
  by (rule parses_val_then [OF parses_pb_decode_varint32 [OF assms]])
    (use parses_skip_bytes [of bs E] assms in \<open>simp add: ucast_of_nat_u32\<close>)

text \<open>The payloads of the four wire types.\<close>

definition payload :: "u32 \<Rightarrow> u8 list \<Rightarrow> bool" where
  "payload wt bs \<longleftrightarrow>
     (wt = PB_WT_VARINT \<and> (\<exists>n. bs = leb128 n)) \<or> (wt = PB_WT_64BIT \<and> length bs = 8) \<or>
     (wt = PB_WT_STRING \<and> (\<exists>xs. length xs < 2 ^ 32 \<and> bs = leb128 (length xs) @ xs)) \<or>
     (wt = PB_WT_32BIT \<and> length bs = 4)"

lemma parses_pb_skip_field:
  assumes "payload wt bs"
  shows "parses (pb_skip_field E wt) bs ()"
  using assms parses_pb_skip_varint parses_pb_skip_string parses_skip_bytes [of bs E]
  unfolding payload_def pb_skip_field_def by (elim disjE) auto

section \<open>Fixed width integers\<close>

lemma fixed32_value_le: "length bs = 4 \<Longrightarrow> word_le 4 (fixed32_value bs) = bs"
proof -
  assume len: "length bs = 4"
  then obtain a b c d where bs: "bs = [a, b, c, d]" by (auto simp: length_Suc_conv numeral_eq_Suc)
  have "fixed32_value bs = le_word bs"
    unfolding bs fixed32_value_def by (rule bit_word_eqI) (auto simp: bit_simps)
  moreover have "word_le (length bs) (le_word bs :: u32) = bs" by (rule word_le_le_word) (simp add: bs)
  ultimately show ?thesis using len by simp
qed

lemma fixed64_value_le: "length bs = 8 \<Longrightarrow> word_le 8 (fixed64_value bs) = bs"
proof -
  assume len: "length bs = 8"
  then obtain a b c d e f g k where bs: "bs = [a, b, c, d, e, f, g, k]" by (auto simp: length_Suc_conv numeral_eq_Suc)
  have "fixed64_value bs = le_word bs"
    unfolding bs fixed64_value_def by (rule bit_word_eqI) (auto simp: bit_simps)
  moreover have "word_le (length bs) (le_word bs :: u64) = bs" by (rule word_le_le_word) (simp add: bs)
  ultimately show ?thesis using len by simp
qed

lemma pb_decode_fixed32_parses:
  assumes "length bs = 4" "ibuf s h" "holds s h bs" "mapped (hmem h) dest 4"
  shows "pb_decode_fixed32 E dest s h = Some (True, iadvance s 4, h\<lparr>hmem := put_bytes (hmem h) dest bs\<rparr>)"
  using assms parsesD [OF parses_pb_read_local [of bs E] assms(2,3)]
  by (simp add: pb_decode_fixed32_def val_do_def store_heap_def store_bytes_def fixed32_value_le)

lemma pb_decode_fixed64_parses:
  assumes "length bs = 8" "ibuf s h" "holds s h bs" "mapped (hmem h) dest 8"
  shows "pb_decode_fixed64 E dest s h = Some (True, iadvance s 8, h\<lparr>hmem := put_bytes (hmem h) dest bs\<rparr>)"
  using assms parsesD [OF parses_pb_read_local [of bs E] assms(2,3)]
  by (simp add: pb_decode_fixed64_def val_do_def store_heap_def store_bytes_def fixed64_value_le)

section \<open>Substreams\<close>

lemma make_substream_total:
  assumes s: "ibuf s h"
  shows "\<exists>v s'. pb_make_string_substream E s h = Some (v, s', h) \<and>
    (case v of None \<Rightarrow> consumed s s'
     | Some sub \<Rightarrow> ibuf sub h \<and> is_callback s' = IC_buf_read \<and> is_state s' = is_state sub \<and>
         unat (bytes_left sub) + unat (bytes_left s') < unat (bytes_left s) \<and>
         stream_end sub + int (unat (bytes_left s')) = stream_end s)"
proof -
  obtain v s1 where d: "pb_decode_varint32 E s h = Some (v, s1, h)" "consumed s s1" "ibuf s1 h"
    using total_pb_decode_varint32 s by (rule total_readerD)
  show ?thesis
  proof (cases v)
    case None
    then show ?thesis using d by (simp add: pb_make_string_substream_def val_then_def)
  next
    case (Some sz)
    have lt: "unat (bytes_left s1) < unat (bytes_left s)"
      using varint32_eof_total [OF s, of E] d(1) Some by (auto simp: pb_decode_varint32_def)
    show ?thesis
    proof (cases "bytes_left s1 < ucast sz")
      case True
      then show ?thesis using d Some by (simp add: pb_make_string_substream_def val_then_def)
    next
      case False
      let ?n = "ucast sz :: u64"
      have le: "unat ?n \<le> unat (bytes_left s1)" using False by (simp add: word_less_nat_alt)
      have "unat (bytes_left s1 - ?n) = unat (bytes_left s1) - unat ?n"
        using le by (simp add: unat_sub word_le_nat_alt)
      moreover have "mapped (hmem h) (is_state s1) (unat ?n)"
        using d(3) le mapped_prefix unfolding ibuf_def by blast
      ultimately show ?thesis
        using False d Some lt le
        by (simp add: pb_make_string_substream_def val_then_def ibuf_def consumed_def stream_end_def)
    qed
  qed
qed

text \<open>Whatever was read from the substream, closing it leaves the parent right behind the payload.\<close>

lemma close_substream:
  assumes "ibuf sub' h" "consumed sub sub'"
  shows "pb_close_string_substream E sub' s h =
    Some (True, s\<lparr>is_state := stream_end sub, is_errmsg := is_errmsg sub'\<rparr>, h)"
  using assms pb_read_null [OF assms(1), of E "bytes_left sub'"]
  by (auto simp: pb_close_string_substream_def stream_end_def consumed_def)

lemma close_substream_cb:
  assumes "is_callback sub' = IC_buf_read"
  shows "pb_close_string_substream E sub' s h =
    Some (True, s\<lparr>is_state := stream_end sub', is_errmsg := is_errmsg sub'\<rparr>, h)"
  using pb_read_null_cb [OF assms, of E "bytes_left sub'"]
  by (simp add: pb_close_string_substream_def stream_end_def)

section \<open>Progress\<close>

text \<open>A successful read of an integer takes at least one byte.\<close>

definition eats :: "'a reader \<Rightarrow> bool" where
  "eats f \<longleftrightarrow> (\<forall>s h v s' h'. ibuf s h \<longrightarrow> f s h = Some (Some v, s', h') \<longrightarrow> unat (bytes_left s') < unat (bytes_left s))"

lemma eats_pb_decode_varint32: "eats (pb_decode_varint32 E)"
  unfolding eats_def
proof (intro allI impI)
  fix s h v s' h' assume s: "ibuf s h" and r: "pb_decode_varint32 E s h = Some (Some v, s', h')"
  show "unat (bytes_left s') < unat (bytes_left s)"
    using varint32_eof_total [OF s, of E] r by (auto simp: pb_decode_varint32_def)
qed

lemma eats_varint64_loop: "eats (varint64_loop E bitpos r)"
  unfolding eats_def
proof (intro allI impI)
  fix s h v s' h' assume s: "ibuf s h" and r: "varint64_loop E bitpos r s h = Some (Some v, s', h')"
  from s show "unat (bytes_left s') < unat (bytes_left s)"
  proof (cases rule: pb_readbyte_cases [of s h E])
    case (1 t)
    then show ?thesis using r by (subst (asm) varint64_loop.simps) (auto simp: val_then_def split: if_splits)
  next
    case (2 b t)
    let ?r = "r OR push_bit (unat bitpos) (ucast (b AND 0x7F))"
    obtain v' t' where rest: "varint64_loop E (bitpos + 7) ?r t h = Some (v', t', h)" "consumed t t'"
      using total_varint64_loop 2(3) by (rule total_readerD)
    have "varint64_loop E bitpos r s h = (if 64 \<le> bitpos then Some (None, is_set_error s ''varint overflow'', h)
        else if b AND 0x80 \<noteq> 0 then varint64_loop E (bitpos + 7) ?r t h else Some (Some ?r, t, h))"
      using 2(1) by (subst varint64_loop.simps) (simp add: val_then_def Let_def)
    then have "s' = t \<or> s' = t'" using r rest(1) by (simp split: if_splits)
    then have "unat (bytes_left s') \<le> unat (bytes_left t)"
      using rest(2) by (auto simp: consumed_def word_le_nat_alt)
    with 2(4) show ?thesis by simp
  qed
qed

lemma eats_pb_decode_varint: "eats (pb_decode_varint E)"
  unfolding pb_decode_varint_def by (rule eats_varint64_loop)

lemma eats_pb_decode_svarint: "eats (pb_decode_svarint E)"
  using eats_pb_decode_varint [of E] unfolding eats_def pb_decode_svarint_def
  by (auto simp: val_then_def split: option.splits)

lemma eats_pb_read_local: "0 < n \<Longrightarrow> eats (pb_read E RLocal n)"
  unfolding eats_def
proof (intro allI impI)
  fix s h v s' h' assume n: "0 < n" and s: "ibuf s h" and r: "pb_read E RLocal n s h = Some (Some v, s', h')"
  have "\<not> bytes_left s < n"
  proof
    assume "bytes_left s < n"
    from pb_read_bytes_short [OF this, of E RLocal h] show False
      using r n by (simp add: pb_read_def split: if_splits)
  qed
  then have le: "unat n \<le> unat (bytes_left s)" by (simp add: word_less_nat_alt)
  then have "s' = iadvance s (unat n)" using pb_read_local [OF s le, of E] r by auto
  moreover have "0 < unat n" using n by (simp add: word_less_nat_alt)
  ultimately show "unat (bytes_left s') < unat (bytes_left s)" using le unat_minus_of_nat [OF le] by simp
qed

end
