(* ===== verification/Nanopb_Stream_Theorems.thy ===== *)
theory Nanopb_Stream_Theorems
  imports Nanopb_Encode_Theorems Nanopb_IStream_Correct
begin

text \<open>
  What the iterator and the stream primitives of \<open>ios/Pods/nanopb\<close> guarantee: the fields of a table
  are visited in order at the offsets of the C structure, the search by tag finds the first match in
  cyclic order, the primitive encoders and decoders are inverse to each other through memory, skipping
  is exact, and no input makes a primitive decoder read outside its buffer. Two of the theorems record
  behaviour of the 32 bit varint decoder and of the proto3 zero test that differs from their comments.
\<close>

section \<open>The field iterator\<close>

text \<open>C7: the loop \<open>do { body } while (pb_field_iter_next(&iter))\<close> after \<open>pb_field_iter_begin\<close> runs the
  body once for every field of a well-formed table, in table order, stops at the first body that
  returns false, and terminates.\<close>

theorem field_loop_visits_all:
  assumes "wf_table flds" "dest \<noteq> 0" "nfields flds \<noteq> 0"
  shows "\<exists>it. pb_field_iter_begin flds dest = Some (True, it) \<and>
    do_fields body it s = run_list body (map (iter_at flds dest) [0..<nfields flds]) s"
  using assms by (simp add: iter_begin_at do_fields_run)

theorem field_loop_visits_all_witness:
  "\<exists>it. pb_field_iter_begin sample_fields 1000 = Some (True, it) \<and>
     do_fields (\<lambda>it ts. Some (True, ts @ [pData it])) it [] = Some (True, [1000, 1008, 1016, 1022])"
proof -
  have wf: "wf_table sample_fields" "nfields sample_fields = 4" by code_simp+
  have "run_list (\<lambda>it ts. Some (True, ts @ [pData it])) (map (iter_at sample_fields 1000) [0..<4]) [] =
      Some (True, [1000, 1008, 1016, 1022])" by code_simp
  then show ?thesis
    using field_loop_visits_all [of sample_fields 1000 "\<lambda>it ts. Some (True, ts @ [pData it])" "[]"] wf by simp
qed

lemma run_list_records: "run_list (\<lambda>it ps. Some (True, ps @ [g it])) its ps = Some (True, ps @ map g its)"
  by (induction its arbitrary: ps) simp_all

text \<open>C8: for a table that the descriptor macros fill from a C structure (its members one after the
  other, the members of a union on the same storage), the loop that starts with \<open>pb_field_iter_begin\<close>
  and goes on with \<open>pb_field_iter_next\<close> visits every member, the first included, with \<open>pData\<close> at the
  member's own offset and \<open>pSize\<close> at that of its flag, count or \<open>which\<close> member (at the member itself
  where there is none).\<close>

theorem iterator_points_at_members:
  assumes "struct_ok ds" "dest \<noteq> 0"
  shows "\<exists>it. pb_field_iter_begin (descriptor_table ds) dest = Some (True, it) \<and>
    do_fields (\<lambda>it ps. Some (True, ps @ [(pData it, pSize it)])) it [] =
      Some (True, map (\<lambda>d. (dest + int (m_offset (d_member d)), PSMem (dest + int (companion_offset d)))) ds)"
proof -
  let ?T = "descriptor_table ds"
  note wf = descriptor_table_wf [OF assms(1)]
  have ne: "nfields ?T \<noteq> 0" using struct_okD(1) [OF assms(1)] by simp
  have "map ((\<lambda>it. (pData it, pSize it)) \<circ> iter_at ?T dest) [0..<length ds] =
      map (\<lambda>d. (dest + int (m_offset (d_member d)), PSMem (dest + int (companion_offset d)))) ds"
    by (rule nth_equalityI) (use table_offsets [OF assms(1)] in simp_all)
  then show ?thesis
    using iter_begin_at [OF wf assms(2)] ne by (simp add: do_fields_run [OF wf assms(2)] run_list_records)
qed

text \<open>
  \<open>struct { uint32_t id; bool has_delta; int32_t delta; pb_size_t v_count; uint16_t v[3]; char *name;
  pb_size_t which_u; union { uint32_t a; uint64_t b; } u; uint8_t key[4]; }\<close>
\<close>

definition sample_decls :: "field_decl list" where
  "sample_decls =
     [\<lparr>d_macro = M_FIELD R_REQUIRED A_STATIC, d_place = P_FIRST, d_tag = 1, d_ltype = PB_LTYPE_UVARINT,
       d_member = \<lparr>m_offset = 0, m_size = 4, m_elem = 4, m_aux = 0\<rparr>, d_ptr = 0\<rparr>,
      \<lparr>d_macro = M_FIELD R_OPTIONAL A_STATIC, d_place = P_OTHER, d_tag = 2, d_ltype = PB_LTYPE_SVARINT,
       d_member = \<lparr>m_offset = 8, m_size = 4, m_elem = 4, m_aux = 4\<rparr>, d_ptr = 0\<rparr>,
      \<lparr>d_macro = M_FIELD R_REPEATED A_STATIC, d_place = P_OTHER, d_tag = 3, d_ltype = PB_LTYPE_UVARINT,
       d_member = \<lparr>m_offset = 16, m_size = 6, m_elem = 2, m_aux = 12\<rparr>, d_ptr = 0\<rparr>,
      \<lparr>d_macro = M_FIELD R_SINGULAR A_POINTER, d_place = P_OTHER, d_tag = 4, d_ltype = PB_LTYPE_STRING,
       d_member = \<lparr>m_offset = 24, m_size = 8, m_elem = 1, m_aux = 0\<rparr>, d_ptr = 0\<rparr>,
      \<lparr>d_macro = M_ONEOF A_STATIC, d_place = P_OTHER, d_tag = 5, d_ltype = PB_LTYPE_UVARINT,
       d_member = \<lparr>m_offset = 40, m_size = 4, m_elem = 4, m_aux = 32\<rparr>, d_ptr = 0\<rparr>,
      \<lparr>d_macro = M_ONEOF A_STATIC, d_place = P_UNION, d_tag = 6, d_ltype = PB_LTYPE_FIXED64,
       d_member = \<lparr>m_offset = 40, m_size = 8, m_elem = 8, m_aux = 32\<rparr>, d_ptr = 0\<rparr>,
      \<lparr>d_macro = M_FIXED_COUNT, d_place = P_OTHER, d_tag = 7, d_ltype = PB_LTYPE_UVARINT,
       d_member = \<lparr>m_offset = 48, m_size = 4, m_elem = 1, m_aux = 0\<rparr>, d_ptr = 0\<rparr>]"

lemma sample_decls_ok: "struct_ok sample_decls"
  by code_simp

theorem iterator_points_at_members_witness:
  "\<exists>it. pb_field_iter_begin (descriptor_table sample_decls) 1000 = Some (True, it) \<and>
    do_fields (\<lambda>it ps. Some (True, ps @ [(pData it, pSize it)])) it [] =
      Some (True, [(1000, PSMem 1000), (1008, PSMem 1004), (1016, PSMem 1012), (1024, PSMem 1024),
        (1040, PSMem 1032), (1040, PSMem 1032), (1048, PSMem 1048)])"
proof -
  have "map (\<lambda>d. (1000 + int (m_offset (d_member d)), PSMem (1000 + int (companion_offset d)))) sample_decls =
      [(1000, PSMem 1000), (1008, PSMem 1004), (1016, PSMem 1012), (1024, PSMem 1024),
       (1040, PSMem 1032), (1040, PSMem 1032), (1048, PSMem 1048)]"
    by (simp add: sample_decls_def companion_offset_def has_companion_def is_oneof_def)
  then show ?thesis using iterator_points_at_members [OF sample_decls_ok, of 1000] by simp
qed

text \<open>C9: \<open>pb_field_iter_find\<close> terminates from every position of a well-formed table and returns the
  first field, in cyclic order from the current one, that has the tag and is not an extension; when
  there is none it returns false with the iterator where it was.\<close>

theorem iter_find_cyclic:
  assumes "wf_table flds" "dest \<noteq> 0" "k < nfields flds"
  shows "pb_field_iter_find (iter_at flds dest k) tg =
    (case find (field_matches flds tg) ([k..<nfields flds] @ [0..<k]) of
       Some j \<Rightarrow> Some (True, iter_at flds dest j) | None \<Rightarrow> Some (False, iter_at flds dest k))"
  using iter_find_at [OF assms, of tg] by (simp add: find_result_def split: option.split)

theorem iter_find_cyclic_witness:
  "pb_field_iter_find (iter_at sample_fields 1000 2) 1 = Some (True, iter_at sample_fields 1000 0) \<and>
   pb_field_iter_find (iter_at sample_fields 1000 2) 9 = Some (False, iter_at sample_fields 1000 2)"
proof -
  have wf: "wf_table sample_fields" "nfields sample_fields = 4" by code_simp+
  have "find (field_matches sample_fields 1) ([2..<4] @ [0..<2]) = Some 0"
    "find (field_matches sample_fields 9) ([2..<4] @ [0..<2]) = None" by code_simp+
  then show ?thesis using iter_find_cyclic [OF wf(1), of 1000 2] wf(2) by simp
qed

section \<open>Round trips through memory\<close>

lemma sample_buffer_10: "mapped sample_buffer 2000 10"
  using mapped_prefix [OF sample_buffer_ok(2)] by simp

text \<open>Reading back what an encoder has written to a buffer.\<close>

lemma written_then_holds:
  assumes "emits enc m0 bs" "mapped m buf (unat n)" "m0 \<subseteq>\<^sub>m m" "region buf (unat n) \<inter> dom m0 = {}" "length bs \<le> unat n"
  shows "\<exists>s' m'. enc (pb_ostream_from_buffer buf n) m = Some (True, s', m') \<and> unat (bytes_written s') = length bs \<and>
    ibuf (pb_istream_from_buffer buf (bytes_written s')) \<lparr>hmem = m', blocks = bl\<rparr> \<and>
    holds (pb_istream_from_buffer buf (bytes_written s')) \<lparr>hmem = m', blocks = bl\<rparr> bs"
proof -
  let ?s = "pb_ostream_from_buffer buf n"
  have ok: "obuf_ok m0 ?s m" using assms by (intro obuf_ok_from_buffer)
  have e: "enc ?s m = Some (True, advance ?s (length bs), put_bytes m buf bs)"
    using emits_room [OF assms(1) ok] assms(5) by simp
  have w: "unat (bytes_written (advance ?s (length bs))) = length bs"
    using assms(5) unat_u64_lt [of n] by (simp add: unat_u64_of_nat)
  have "mapped (put_bytes m buf bs) buf (length bs)"
    using mapped_put_bytes mapped_prefix assms(2,5) by blast
  then show ?thesis
    using e w by (simp add: ibuf_def holds_def pb_istream_from_buffer_def load_put_same)
qed

text \<open>C10: every 64 bit value survives \<open>pb_encode_varint\<close> into a buffer of ten bytes followed by
  \<open>pb_decode_varint\<close> from the bytes written, and the decoder consumes them all.\<close>

theorem varint_round_trip:
  assumes "mapped m buf 10"
  shows "\<exists>s m' t h. pb_encode_varint E v (pb_ostream_from_buffer buf 10) m = Some (True, s, m') \<and>
    pb_decode_varint E (pb_istream_from_buffer buf (bytes_written s)) \<lparr>hmem = m', blocks = bl\<rparr> = Some (Some v, t, h) \<and>
    bytes_left t = 0 \<and> h = \<lparr>hmem = m', blocks = bl\<rparr>"
proof -
  obtain s m' where e: "pb_encode_varint E v (pb_ostream_from_buffer buf 10) m = Some (True, s, m')"
      "unat (bytes_written s) = length (leb128 (unat v))"
    and i: "ibuf (pb_istream_from_buffer buf (bytes_written s)) \<lparr>hmem = m', blocks = bl\<rparr>"
      "holds (pb_istream_from_buffer buf (bytes_written s)) \<lparr>hmem = m', blocks = bl\<rparr> (leb128 (unat v))"
    using written_then_holds [OF pb_encode_varint_emits [of E v Map.empty], of m buf 10] assms leb128_length_u64 [of v]
    by fastforce
  have "of_nat (length (leb128 (unat v))) = bytes_written s" using e(2) by (metis of_nat_unat ucast_id)
  with parsesD [OF parses_pb_decode_varint i, of E] e(1) show ?thesis
    by (simp add: pb_istream_from_buffer_def)
qed

theorem varint_round_trip_witness:
  "\<exists>s m' t h. pb_encode_varint sample_env 300 (pb_ostream_from_buffer 2000 10) sample_buffer = Some (True, s, m') \<and>
     pb_decode_varint sample_env (pb_istream_from_buffer 2000 (bytes_written s)) \<lparr>hmem = m', blocks = Map.empty\<rparr> =
       Some (Some 300, t, h)"
  using varint_round_trip [OF sample_buffer_10, of sample_env 300 Map.empty] by auto

text \<open>The same for \<open>pb_encode_svarint\<close> and \<open>pb_decode_svarint\<close>: the zigzag maps are inverse on all
  64 bit values, negative ones and the extremes included.\<close>

theorem svarint_round_trip:
  assumes "mapped m buf 10"
  shows "\<exists>s m' t h. pb_encode_svarint E v (pb_ostream_from_buffer buf 10) m = Some (True, s, m') \<and>
    pb_decode_svarint E (pb_istream_from_buffer buf (bytes_written s)) \<lparr>hmem = m', blocks = bl\<rparr> = Some (Some v, t, h) \<and>
    bytes_left t = 0"
proof -
  have len: "length (leb128 (zigzag (sint v))) \<le> 10"
    using leb128_length_u64 [of "if sint v < 0 then NOT (push_bit 1 v) else push_bit 1 v"] zigzagged_unat [of v] by simp
  obtain s m' where e: "pb_encode_svarint E v (pb_ostream_from_buffer buf 10) m = Some (True, s, m')"
      "unat (bytes_written s) = length (leb128 (zigzag (sint v)))"
    and i: "ibuf (pb_istream_from_buffer buf (bytes_written s)) \<lparr>hmem = m', blocks = bl\<rparr>"
      "holds (pb_istream_from_buffer buf (bytes_written s)) \<lparr>hmem = m', blocks = bl\<rparr> (leb128 (zigzag (sint v)))"
    using written_then_holds [OF pb_encode_svarint_emits [of E v Map.empty], of m buf 10] assms len by fastforce
  have "of_nat (length (leb128 (zigzag (sint v)))) = bytes_written s" using e(2) by (metis of_nat_unat ucast_id)
  with parsesD [OF parses_pb_decode_svarint i, of E] e(1) show ?thesis
    by (simp add: pb_istream_from_buffer_def)
qed

theorem svarint_round_trip_witness:
  "\<exists>s m' t h. pb_encode_svarint sample_env (- 5) (pb_ostream_from_buffer 2000 10) sample_buffer = Some (True, s, m') \<and>
     pb_decode_svarint sample_env (pb_istream_from_buffer 2000 (bytes_written s)) \<lparr>hmem = m', blocks = Map.empty\<rparr> =
       Some (Some (- 5), t, h)"
  using svarint_round_trip [OF sample_buffer_10, of sample_env "- 5" Map.empty] by auto

text \<open>A key written by \<open>pb_encode_tag\<close> for a field number whose key fits 32 bits is read back by
  \<open>pb_decode_tag\<close> as the same wire type and number, without setting \<open>eof\<close>.\<close>

theorem tag_round_trip:
  assumes "mapped m buf 10" "wt < 8" "t \<noteq> 0" "8 * unat t + unat wt < 2 ^ 32"
  shows "\<exists>s m' u h. pb_encode_tag E wt t (pb_ostream_from_buffer buf 10) m = Some (True, s, m') \<and>
    pb_decode_tag E (pb_istream_from_buffer buf (bytes_written s)) \<lparr>hmem = m', blocks = bl\<rparr> =
      Some (Some (wt, t), False, u, h) \<and> bytes_left u = 0"
proof -
  have len: "length (key_bytes wt t) \<le> 10"
    using leb128_length [of "8 * unat t + unat wt" 9] assms(4) by (simp add: key_bytes_def)
  obtain s m' where e: "pb_encode_tag E wt t (pb_ostream_from_buffer buf 10) m = Some (True, s, m')"
      "unat (bytes_written s) = length (key_bytes wt t)"
    and i: "ibuf (pb_istream_from_buffer buf (bytes_written s)) \<lparr>hmem = m', blocks = bl\<rparr>"
      "holds (pb_istream_from_buffer buf (bytes_written s)) \<lparr>hmem = m', blocks = bl\<rparr> (key_bytes wt t)"
    using written_then_holds [OF pb_encode_tag_emits [OF assms(2), of E t Map.empty], of m buf 10] assms(1) len by fastforce
  have "of_nat (length (key_bytes wt t)) = bytes_written s" using e(2) by (metis of_nat_unat ucast_id)
  with pb_decode_tag_parses [OF assms(2,4,3) i, of E] e(1) show ?thesis
    by (simp add: pb_istream_from_buffer_def)
qed

theorem tag_round_trip_witness:
  "\<exists>s m' u h. pb_encode_tag sample_env 2 1000 (pb_ostream_from_buffer 2000 10) sample_buffer = Some (True, s, m') \<and>
     pb_decode_tag sample_env (pb_istream_from_buffer 2000 (bytes_written s)) \<lparr>hmem = m', blocks = Map.empty\<rparr> =
       Some (Some (2, 1000), False, u, h)"
  using tag_round_trip [OF sample_buffer_10, of 2 1000 sample_env Map.empty] by auto

section \<open>Skipping, totality and errors\<close>

text \<open>C11: \<open>pb_skip_field\<close> consumes exactly the payload of its wire type: any varint, eight bytes, a
  length-delimited string, or four bytes.\<close>

theorem skip_field_exact:
  assumes "payload wt bs" "ibuf s h" "holds s h bs"
  shows "pb_skip_field E wt s h = Some (Some (), iadvance s (length bs), h)"
  using parsesD [OF parses_pb_skip_field [OF assms(1)] assms(2,3)] .

definition sample_heap :: "u8 list \<Rightarrow> cheap" where
  "sample_heap bs = \<lparr>hmem = put_bytes Map.empty 2000 bs, blocks = Map.empty\<rparr>"

lemma sample_heap_holds:
  assumes "length bs \<le> unat n" "unat n \<le> length bs + length xs"
  shows "ibuf (pb_istream_from_buffer 2000 n) (sample_heap (bs @ xs))"
    and "holds (pb_istream_from_buffer 2000 n) (sample_heap (bs @ xs)) bs"
proof -
  have "mapped (put_bytes Map.empty 2000 (bs @ xs)) 2000 (length (bs @ xs))"
    by (simp add: mapped_iff)
  with assms show "ibuf (pb_istream_from_buffer 2000 n) (sample_heap (bs @ xs))"
    using mapped_prefix by (auto simp: ibuf_def pb_istream_from_buffer_def sample_heap_def)
  have "load_bytes (put_bytes Map.empty 2000 (bs @ xs)) 2000 (length bs) = Some bs"
    using load_bytes_take_drop(1) [OF load_put_same, of "length bs" "bs @ xs" Map.empty 2000] by simp
  with assms show "holds (pb_istream_from_buffer 2000 n) (sample_heap (bs @ xs)) bs"
    by (simp add: holds_def pb_istream_from_buffer_def sample_heap_def)
qed

theorem skip_field_exact_witness:
  "pb_skip_field sample_env PB_WT_STRING (pb_istream_from_buffer 2000 5) (sample_heap ([2, 7, 7] @ [9, 9])) =
     Some (Some (), iadvance (pb_istream_from_buffer 2000 5) 3, sample_heap ([2, 7, 7] @ [9, 9]))"
proof -
  have "payload PB_WT_STRING [2, 7, 7]"
    by (auto simp: payload_def leb128.simps intro!: exI [of _ "[7, 7]"])
  from skip_field_exact [OF this sample_heap_holds, of 5 "[9, 9]" sample_env] show ?thesis by simp
qed

text \<open>C12: on a buffer stream with arbitrary content the primitive decoders return (their loops
  terminate), do not change memory, and leave a stream inside the same buffer, so that they never read
  behind \<open>bytes_left\<close>.\<close>

theorem primitive_readers_total:
  "total_reader (pb_decode_varint32 E) \<and> total_reader (pb_decode_varint E) \<and> total_reader (pb_decode_svarint E) \<and>
   total_reader (pb_skip_field E wt) \<and> total_reader (read_raw_value E wt 10) \<and> total_reader (pb_readbyte E)"
  by (intro conjI total_pb_decode_varint32 total_pb_decode_varint total_pb_decode_svarint total_pb_skip_field
      total_read_raw_value total_pb_readbyte)

lemma varint64_loop_overflow:
  assumes "\<forall>b \<in> set bs. b AND 0x80 \<noteq> 0" "k + length bs = 10" "ibuf s h" "holds s h bs"
  shows "varint64_loop E (of_nat (7 * k)) r s h =
    Some (None, is_set_error (iadvance s (length bs)) ''varint overflow'', h)"
  using assms
proof (induction bs arbitrary: k r s)
  case Nil
  then have "k = 10" by simp
  then show ?case by (subst varint64_loop.simps) simp
next
  case (Cons b bs)
  have k: "k < 10" using Cons.prems(2) by simp
  have bp: "\<not> 64 \<le> (of_nat (7 * k) :: u8)"
    using k by (simp add: unat_byte word_le_nat_alt del: of_nat_mult)
  have h: "holds s h [b]" "holds (iadvance s 1) h bs" using Cons.prems(4) holds_Cons by blast+
  have ib: "ibuf (iadvance s 1) h" using ibuf_iadvance [OF Cons.prems(3)] holds_le [OF h(1)] by simp
  have "varint64_loop E (of_nat (7 * k)) r s h =
      varint64_loop E (of_nat (7 * k) + 7) (r OR push_bit (unat (of_nat (7 * k) :: u8)) (ucast (b AND 0x7F))) (iadvance s 1) h"
    using bp Cons.prems(1) parsesD [OF parses_pb_readbyte Cons.prems(3) h(1), of E]
    by (subst varint64_loop.simps) (simp add: val_then_def Let_def del: of_nat_mult)
  moreover have "of_nat (7 * k) + 7 = (of_nat (7 * Suc k) :: u8)" by simp
  ultimately show ?case
    using Cons.IH [of "Suc k" "iadvance s 1"] Cons.prems(1,2) h(2) ib by (simp del: of_nat_mult)
qed

text \<open>A varint whose first ten bytes all have the continuation bit is refused with the error
  \<open>varint overflow\<close> after exactly these ten bytes, whatever follows.\<close>

theorem varint_overflow_refused:
  assumes "length bs = 10" "\<forall>b \<in> set bs. b AND 0x80 \<noteq> 0" "ibuf s h" "holds s h bs" "is_errmsg s = None"
  shows "\<exists>s'. pb_decode_varint E s h = Some (None, s', h) \<and> is_errmsg s' = Some ''varint overflow'' \<and>
    unat (bytes_left s') = unat (bytes_left s) - 10"
  using varint64_loop_overflow [OF assms(2) _ assms(3,4), of 0 E 0] assms(1,5) holds_le [OF assms(4)]
    unat_minus_of_nat [of 10 "bytes_left s"]
  by (simp add: pb_decode_varint_def is_set_error_def)

theorem varint_overflow_refused_witness:
  "\<exists>s'. pb_decode_varint sample_env (pb_istream_from_buffer 2000 11) (sample_heap (replicate 10 0xFF @ [1])) =
     Some (None, s', sample_heap (replicate 10 0xFF @ [1])) \<and> is_errmsg s' = Some ''varint overflow''"
proof -
  have "\<forall>b \<in> set (replicate 10 0xFF). b AND 0x80 \<noteq> (0 :: u8)" by simp
  moreover have "is_errmsg (pb_istream_from_buffer 2000 11) = None" by (simp add: pb_istream_from_buffer_def)
  ultimately show ?thesis
    using varint_overflow_refused [OF _ _ sample_heap_holds, of "replicate 10 0xFF" 11 "[1]" sample_env] by auto
qed

text \<open>Every varint written by the encoder has at most ten bytes, the size of the local buffer of
  \<open>pb_encode_varint\<close>, so that its loop never overruns the buffer.\<close>

theorem varint_fits_local_buffer: "length (varint_loop v) \<le> 10"
proof (cases "v = 0")
  case True
  then show ?thesis by (simp add: varint_loop.simps)
next
  case False
  then show ?thesis
    using varint_loop_last [of v] leb128_length_u64 [of v] by (metis length_list_update)
qed

section \<open>Behaviour that differs from the documentation\<close>

text \<open>\<open>pb_decode_varint32\<close> accepts an over-long varint of 38 bytes, 37 times \<open>0x80\<close> and then
  \<open>0x01\<close>, as the value 8: \<open>bitpos\<close> has eight bits and wraps from 252 to 3, and the late byte is merged
  into the low bits although its weight is far beyond 32 bits.\<close>

theorem varint32_bitpos_wraps:
  "map_option fst (pb_decode_varint32 sample_env (pb_istream_from_buffer 2000 38) (sample_heap (replicate 37 0x80 @ [1])))
     = Some (Some 8)"
  by code_simp

text \<open>
  A message with one static submessage, whose only field is a pointer to a \<open>uint32_t\<close>; the pointer is
  set to an address with four zero low bytes.
\<close>

definition pointer_env :: pb_env where
  "pointer_env = sample_env\<lparr>fields_of := (\<lambda>a. if a = 5000 then
     [PB_SINGULAR_POINTER 1 \<lparr>m_offset = 0, m_size = 8, m_elem = 4, m_aux = 0\<rparr> 0 PB_LTYPE_UVARINT 0, PB_LAST_FIELD]
     else [])\<rparr>"

definition pointer_outer :: "pb_field list" where
  "pointer_outer =
     [PB_SINGULAR_STATIC 1 \<lparr>m_offset = 0, m_size = 8, m_elem = 8, m_aux = 0\<rparr> 0 PB_LTYPE_SUBMESSAGE 5000, PB_LAST_FIELD]"

definition pointer_mem :: mem where
  "pointer_mem = put_bytes (put_bytes Map.empty 1000 [0, 0, 0, 0, 1, 0, 0, 0]) 0x100000000 [7, 0, 0, 0]"

text \<open>The proto3 zero test looks only at the first \<open>data_size\<close> bytes of a pointer to a packable
  type: a submessage whose pointer field is set to the address \<open>0x100000000\<close> counts as default and
  \<open>pb_encode\<close> drops it, although the submessage alone encodes to two bytes.\<close>

theorem proto3_pointer_dropped:
  "map_option fst (pb_get_encoded_size 3 pointer_env pointer_outer 1000 pointer_mem) = Some (Some 0) \<and>
   map_option fst (pb_get_encoded_size 3 pointer_env (fields_of pointer_env 5000) 1000 pointer_mem) = Some (Some 2)"
proof -
  have "msg_bytes 3 no_callbacks pointer_env pointer_mem (fields_of pointer_env 5000) 1000 = Some [8, 7]"
    by code_simp
  moreover have "map_option fst (pb_get_encoded_size 3 pointer_env pointer_outer 1000 pointer_mem) = Some (Some 0)"
    by code_simp
  ultimately show ?thesis
    using encoded_size_of_bytes [OF no_callbacks_ok, of 3 pointer_env pointer_mem "fields_of pointer_env 5000" 1000 "[8, 7]" pointer_mem]
    by simp
qed

end
