(* ===== verification/Nanopb_Release.thy ===== *)
theory Nanopb_Release
  imports Nanopb_Common Nanopb_IStream
begin

text \<open>
  The parts of \<open>ios/Pods/nanopb/pb_decode.c\<close> that prepare and clean up a message structure: the C
  allocator as nanopb uses it, extension iterators, default values and \<open>pb_release\<close>. The first
  argument of the recursive functions bounds the nesting of messages (the C stack).
\<close>

section \<open>Heap\<close>

definition free_bytes :: "mem \<Rightarrow> addr \<Rightarrow> nat \<Rightarrow> mem" where
  "free_bytes m a n = (\<lambda>x. if a \<le> x \<and> x < a + int n then None else m x)"

text \<open>\<open>free\<close>: freeing anything but null or a live block is undefined.\<close>

definition pb_free :: "addr \<Rightarrow> cheap \<Rightarrow> cheap option" where
  "pb_free p h =
     (if p = 0 then Some h
      else case blocks h p of None \<Rightarrow> None
      | Some n \<Rightarrow> Some (h\<lparr>hmem := free_bytes (hmem h) p n, blocks := (blocks h)(p := None)\<rparr>))"

text \<open>
  \<open>realloc\<close>: null and an unchanged heap on failure; otherwise a block at the address the allocator
  chooses, with the old content up to the smaller size and unspecified bytes behind it.
\<close>

definition pb_realloc :: "pb_env \<Rightarrow> addr \<Rightarrow> nat \<Rightarrow> cheap \<Rightarrow> (addr \<times> cheap) option" where
  "pb_realloc E p n h =
     (case (if p = 0 then Some 0 else blocks h p) of None \<Rightarrow> None
      | Some old \<Rightarrow>
          (case alloc_at E h p n of None \<Rightarrow> Some (0, h)
           | Some q \<Rightarrow>
               (case load_bytes (hmem h) p (min old n) of None \<Rightarrow> None
                | Some bs \<Rightarrow>
                    (let m1 = free_bytes (hmem h) p old;
                         m2 = put_bytes m1 q (map (\<lambda>i. fresh_byte E (q + int i)) [0..<n])
                     in Some (q, \<lparr>hmem = put_bytes m2 q bs, blocks = (blocks h)(p := None, q \<mapsto> n)\<rparr>)))))"

definition c_memset0 :: "addr \<Rightarrow> nat \<Rightarrow> cheap \<Rightarrow> cheap option" where
  "c_memset0 a n h = store_heap h a (replicate n 0)"

definition c_memcpy :: "addr \<Rightarrow> addr \<Rightarrow> nat \<Rightarrow> cheap \<Rightarrow> cheap option" where
  "c_memcpy dest src n h = Option.bind (load_bytes (hmem h) src n) (store_heap h dest)"

definition put_u32 :: "addr \<Rightarrow> u32 \<Rightarrow> cheap \<Rightarrow> cheap option" where
  "put_u32 a w h = store_heap h a (word_le 4 w)"

definition put_ptr :: "addr \<Rightarrow> addr \<Rightarrow> cheap \<Rightarrow> cheap option" where
  "put_ptr a p h = store_heap h a (word_le 8 (word_of_int p :: u64))"

definition put_bool :: "addr \<Rightarrow> bool \<Rightarrow> cheap \<Rightarrow> cheap option" where
  "put_bool a b h = store_heap h a [if b then 1 else 0]"

text \<open>The address behind a size pointer; the local counter of \<open>pb_decode_noinit\<close> has none.\<close>

definition psize_addr :: "psize \<Rightarrow> addr option" where
  "psize_addr p = (case p of PSMem a \<Rightarrow> Some a | PSLocal \<Rightarrow> None)"

text \<open>The table behind \<open>ptr\<close> of a submessage field; dereferencing null is undefined.\<close>

definition sub_fields :: "pb_env \<Rightarrow> pb_field \<Rightarrow> pb_field list option" where
  "sub_fields E f = (if fptr f = 0 then None else Some (fields_of E (fptr f)))"

section \<open>Extensions\<close>

text \<open>\<open>pb_extension_t\<close> has \<open>type\<close> at 0, \<open>dest\<close> at 8, \<open>next\<close> at 16 and \<open>found\<close> at 24.\<close>

definition iter_from_extension :: "pb_env \<Rightarrow> addr \<Rightarrow> cheap \<Rightarrow> pb_field_iter option" where
  "iter_from_extension E ext h = do {
     ty \<leftarrow> load_ptr (hmem h) ext;
     arg \<leftarrow> load_ptr (hmem h) (ty + 16);
     dst \<leftarrow> load_ptr (hmem h) (ext + 8);
     (_, it) \<leftarrow> pb_field_iter_begin (fields_of E arg) dst;
     f \<leftarrow> it_field it;
     Some (it\<lparr>pData := (if atype f = PB_ATYPE_POINTER then ext + 8 else dst), pSize := PSMem (ext + 24)\<rparr>) }"

text \<open>\<open>while (ext != NULL) { body; ext = ext->next; }\<close>\<close>

partial_function (option) each_extension :: "(addr \<Rightarrow> cheap \<Rightarrow> cheap option) \<Rightarrow> addr \<Rightarrow> cheap \<Rightarrow> cheap option" where
  "each_extension body ext h =
     (if ext = 0 then Some h
      else do {
        h \<leftarrow> body ext h;
        nxt \<leftarrow> load_ptr (hmem h) (ext + 16);
        each_extension body nxt h })"

declare each_extension.simps [code]

section \<open>Default values\<close>

definition each_field :: "(pb_field_iter \<Rightarrow> cheap \<Rightarrow> cheap option) \<Rightarrow> pb_field list \<Rightarrow> addr \<Rightarrow> cheap \<Rightarrow> cheap option" where
  "each_field body flds dest h = do {
     (nonempty, it) \<leftarrow> pb_field_iter_begin flds dest;
     if \<not> nonempty then Some h
     else map_option snd (do_fields (\<lambda>it h. map_option (Pair True) (body it h)) it h) }"

definition static_to_default :: "(pb_field list \<Rightarrow> addr \<Rightarrow> cheap \<Rightarrow> cheap option) \<Rightarrow> pb_env \<Rightarrow> pb_field \<Rightarrow> pb_field_iter \<Rightarrow> cheap \<Rightarrow> cheap option" where
  "static_to_default msg E f it h =
     (let init_data = (\<lambda>h.
        if ltype f = PB_LTYPE_SUBMESSAGE then Option.bind (sub_fields E f) (\<lambda>flds. msg flds (pData it) h)
        else if fptr f \<noteq> 0 then c_memcpy (pData it) (fptr f) (unat (data_size f)) h
        else c_memset0 (pData it) (unat (data_size f)) h)
      in if htype f = PB_HTYPE_OPTIONAL \<and> pSize it \<noteq> PSMem (pData it)
         then do { a \<leftarrow> psize_addr (pSize it); h \<leftarrow> put_bool a False h; init_data h }
         else if htype f = PB_HTYPE_REPEATED \<or> htype f = PB_HTYPE_ONEOF
         then do { a \<leftarrow> psize_addr (pSize it); put_u32 a 0 h }
         else init_data h)"

definition pointer_to_default :: "pb_field \<Rightarrow> pb_field_iter \<Rightarrow> cheap \<Rightarrow> cheap option" where
  "pointer_to_default f it h = do {
     h \<leftarrow> put_ptr (pData it) 0 h;
     if htype f = PB_HTYPE_REPEATED \<or> htype f = PB_HTYPE_ONEOF
     then do { a \<leftarrow> psize_addr (pSize it); put_u32 a 0 h }
     else Some h }"

primrec pb_field_set_to_default :: "nat \<Rightarrow> pb_env \<Rightarrow> pb_field_iter \<Rightarrow> cheap \<Rightarrow> cheap option" where
  "pb_field_set_to_default 0 E it h = None"
| "pb_field_set_to_default (Suc n) E it h = do {
     f \<leftarrow> it_field it;
     if ltype f = PB_LTYPE_EXTENSION
     then do {
       ext \<leftarrow> load_ptr (hmem h) (pData it);
       each_extension (\<lambda>ext h. do {
         h \<leftarrow> put_bool (ext + 24) False h;
         ext_it \<leftarrow> iter_from_extension E ext h;
         pb_field_set_to_default n E ext_it h }) ext h }
     else if atype f = PB_ATYPE_STATIC
     then static_to_default (each_field (pb_field_set_to_default n E)) E f it h
     else if atype f = PB_ATYPE_POINTER then pointer_to_default f it h
     else Some h }"

definition pb_message_set_to_defaults :: "nat \<Rightarrow> pb_env \<Rightarrow> pb_field list \<Rightarrow> addr \<Rightarrow> cheap \<Rightarrow> cheap option" where
  "pb_message_set_to_defaults n E flds dest h = each_field (pb_field_set_to_default n E) flds dest h"

section \<open>Release\<close>

text \<open>\<open>for (; count > 0; count--) { pb_release(ptr, pItem); pItem += data_size; }\<close>\<close>

primrec release_items :: "(addr \<Rightarrow> cheap \<Rightarrow> cheap option) \<Rightarrow> u32 \<Rightarrow> nat \<Rightarrow> addr \<Rightarrow> cheap \<Rightarrow> cheap option" where
  "release_items rel ds 0 p h = Some h"
| "release_items rel ds (Suc k) p h = Option.bind (rel p h) (release_items rel ds k (p + uint ds))"

text \<open>\<open>for (; count > 0; count--) { pb_free(*pItem); *pItem++ = NULL; }\<close>\<close>

primrec free_items :: "nat \<Rightarrow> addr \<Rightarrow> cheap \<Rightarrow> cheap option" where
  "free_items 0 p h = Some h"
| "free_items (Suc k) p h = do {
     q \<leftarrow> load_ptr (hmem h) p;
     h \<leftarrow> pb_free q h;
     h \<leftarrow> put_ptr p 0 h;
     free_items k (p + 8) h }"

text \<open>The number of items in a submessage field that holds an array.\<close>

definition submsg_count :: "pb_field \<Rightarrow> pb_field_iter \<Rightarrow> cheap \<Rightarrow> u32 option" where
  "submsg_count f it h =
     (if htype f = PB_HTYPE_REPEATED
      then do {
        count \<leftarrow> (if atype f = PB_ATYPE_STATIC \<and> pSize it = PSMem (pData it) then Some (array_size f)
                  else Option.bind (psize_addr (pSize it)) (load_u32 (hmem h)));
        Some (if atype f = PB_ATYPE_STATIC \<and> array_size f < count then array_size f else count) }
      else Some 1)"

definition release_submsg :: "(pb_field list \<Rightarrow> addr \<Rightarrow> cheap \<Rightarrow> cheap option) \<Rightarrow> pb_env \<Rightarrow> pb_field \<Rightarrow> pb_field_iter \<Rightarrow> cheap \<Rightarrow> cheap option" where
  "release_submsg rel E f it h = do {
     pItem \<leftarrow> (if atype f = PB_ATYPE_POINTER then load_ptr (hmem h) (pData it) else Some (pData it));
     count \<leftarrow> submsg_count f it h;
     if pItem = 0 \<or> count = 0 then Some h
     else do {
       flds \<leftarrow> sub_fields E f;
       release_items (rel flds) (data_size f) (unat count) pItem h } }"

definition release_pointer :: "pb_field \<Rightarrow> pb_field_iter \<Rightarrow> cheap \<Rightarrow> cheap option" where
  "release_pointer f it h = do {
     h \<leftarrow> (if htype f = PB_HTYPE_REPEATED \<and> (ltype f = PB_LTYPE_STRING \<or> ltype f = PB_LTYPE_BYTES)
           then do {
             pItem \<leftarrow> load_ptr (hmem h) (pData it);
             a \<leftarrow> psize_addr (pSize it);
             count \<leftarrow> load_u32 (hmem h) a;
             free_items (unat count) pItem h }
           else Some h);
     h \<leftarrow> (if htype f = PB_HTYPE_REPEATED then Option.bind (psize_addr (pSize it)) (\<lambda>a. put_u32 a 0 h) else Some h);
     p \<leftarrow> load_ptr (hmem h) (pData it);
     h \<leftarrow> pb_free p h;
     put_ptr (pData it) 0 h }"

text \<open>A union member that is not the current one is left alone.\<close>

definition not_current :: "pb_field \<Rightarrow> pb_field_iter \<Rightarrow> cheap \<Rightarrow> bool option" where
  "not_current f it h =
     (if htype f = PB_HTYPE_ONEOF
      then do { a \<leftarrow> psize_addr (pSize it); which \<leftarrow> load_u32 (hmem h) a; Some (which \<noteq> tag f) }
      else Some False)"

definition release_message :: "(pb_field_iter \<Rightarrow> cheap \<Rightarrow> cheap option) \<Rightarrow> pb_field list \<Rightarrow> addr \<Rightarrow> cheap \<Rightarrow> cheap option" where
  "release_message rel flds dest h = (if dest = 0 then Some h else each_field rel flds dest h)"

primrec pb_release_single_field :: "nat \<Rightarrow> pb_env \<Rightarrow> pb_field_iter \<Rightarrow> cheap \<Rightarrow> cheap option" where
  "pb_release_single_field 0 E it h = None"
| "pb_release_single_field (Suc n) E it h = do {
     f \<leftarrow> it_field it;
     skip \<leftarrow> not_current f it h;
     if skip then Some h
     else do {
       h \<leftarrow> (if ltype f = PB_LTYPE_EXTENSION
             then do {
               ext \<leftarrow> load_ptr (hmem h) (pData it);
               each_extension (\<lambda>ext h. do {
                 ext_it \<leftarrow> iter_from_extension E ext h;
                 pb_release_single_field n E ext_it h }) ext h }
             else if ltype f = PB_LTYPE_SUBMESSAGE \<and> atype f \<noteq> PB_ATYPE_CALLBACK
             then release_submsg (release_message (pb_release_single_field n E)) E f it h
             else Some h);
       if atype f = PB_ATYPE_POINTER then release_pointer f it h else Some h } }"

definition pb_release :: "nat \<Rightarrow> pb_env \<Rightarrow> pb_field list \<Rightarrow> addr \<Rightarrow> cheap \<Rightarrow> cheap option" where
  "pb_release n E flds dest h = release_message (pb_release_single_field n E) flds dest h"

text \<open>
  \<open>pb_release_union_field\<close> moves the iterator to the old member and back; the result carries it.
\<close>

definition pb_release_union_field :: "nat \<Rightarrow> pb_env \<Rightarrow> pb_field_iter \<Rightarrow> pb_istream \<Rightarrow> cheap \<Rightarrow> (bool \<times> pb_istream \<times> pb_field_iter \<times> cheap) option" where
  "pb_release_union_field n E it s h = do {
     a \<leftarrow> psize_addr (pSize it);
     old_tag \<leftarrow> load_u32 (hmem h) a;
     f \<leftarrow> it_field it;
     (let new_tag = tag f in
      if old_tag = 0 \<or> old_tag = new_tag then Some (True, s, it, h)
      else do {
        (found, it) \<leftarrow> pb_field_iter_find it old_tag;
        if \<not> found then Some (False, is_set_error s ''invalid union tag'', it, h)
        else do {
          h \<leftarrow> pb_release_single_field n E it h;
          (found, it) \<leftarrow> pb_field_iter_find it new_tag;
          if \<not> found then Some (False, is_set_error s ''iterator error'', it, h)
          else do {
            f \<leftarrow> it_field it;
            h \<leftarrow> (if atype f = PB_ATYPE_POINTER then put_ptr (pData it) 0 h else Some h);
            Some (True, s, it, h) } } }) }"

end
