(* ===== verification/Nanopb_Decode.thy ===== *)
theory Nanopb_Decode
  imports Nanopb_Release
begin

text \<open>
  Message decoding, \<open>ios/Pods/nanopb/pb_decode.c\<close>: the element decoders \<open>pb_dec_*\<close>, static,
  pointer and callback fields, extensions, and \<open>pb_decode_noinit\<close> with its entry points. As in the
  encoder the recursion through \<open>PB_DECODERS\<close> is tied in \<open>pb_decode_noinit\<close>, whose first argument
  bounds the nesting; the functions in between take the decoder of nested messages as an argument.
\<close>

type_synonym decoder = "pb_istream \<Rightarrow> cheap \<Rightarrow> (bool \<times> pb_istream \<times> cheap) option"

text \<open>The nested decoder: with initialisation (\<open>pb_decode\<close>) or without (\<open>pb_decode_noinit\<close>).\<close>

type_synonym msg_decoder = "bool \<Rightarrow> pb_field list \<Rightarrow> addr \<Rightarrow> decoder"

section \<open>Allocation of pointer fields\<close>

definition allocate_field :: "pb_env \<Rightarrow> addr \<Rightarrow> u64 \<Rightarrow> u64 \<Rightarrow> decoder" where
  "allocate_field E pdata dsize asize s h = do {
     ptr \<leftarrow> load_ptr (hmem h) pdata;
     if dsize = 0 \<or> asize = 0 then Some (False, is_set_error s ''invalid size'', h)
     else if (0x100000000 \<le> dsize \<or> 0x100000000 \<le> asize) \<and> - 1 div asize < dsize
     then Some (False, is_set_error s ''size too large'', h)
     else do {
       (q, h) \<leftarrow> pb_realloc E ptr (unat (asize * dsize)) h;
       if q = 0 then Some (False, is_set_error s ''realloc failed'', h)
       else do { h \<leftarrow> put_ptr pdata q h; Some (True, s, h) } } }"

definition initialize_pointer_field :: "nat \<Rightarrow> pb_env \<Rightarrow> pb_field \<Rightarrow> addr \<Rightarrow> cheap \<Rightarrow> cheap option" where
  "initialize_pointer_field n E f pItem h =
     (if ltype f = PB_LTYPE_STRING \<or> ltype f = PB_LTYPE_BYTES then put_ptr pItem 0 h
      else if ltype f = PB_LTYPE_SUBMESSAGE
      then do {
        h \<leftarrow> c_memset0 pItem (unat (data_size f)) h;
        flds \<leftarrow> sub_fields E f;
        pb_message_set_to_defaults n E flds pItem h }
      else Some h)"

section \<open>Element decoders\<close>

definition pb_dec_bool :: "pb_env \<Rightarrow> pb_field \<Rightarrow> addr \<Rightarrow> decoder" where
  "pb_dec_bool E f dest s h =
     val_do (pb_decode_varint32 E s h) (\<lambda>value s h. do { h \<leftarrow> put_bool dest (value \<noteq> 0) h; Some (True, s, h) })"

text \<open>\<open>pb_decode_bool\<close> passes a null field, which \<open>pb_dec_bool\<close> does not use.\<close>

definition pb_decode_bool :: "pb_env \<Rightarrow> addr \<Rightarrow> decoder" where
  "pb_decode_bool E dest s h = pb_dec_bool E PB_LAST_FIELD dest s h"

text \<open>
  The narrowing store shared by the signed decoders, with the comparison of the stored value and
  the value; a \<open>data_size\<close> that is not 1, 2, 4 or 8 is refused.
\<close>

definition store_signed :: "u32 \<Rightarrow> addr \<Rightarrow> u64 \<Rightarrow> decoder" where
  "store_signed ds dest svalue s h =
     (let finish = (\<lambda>clamped bs. do {
            h \<leftarrow> store_heap h dest bs;
            if clamped \<noteq> svalue then Some (False, is_set_error s ''integer too large'', h) else Some (True, s, h) })
      in if ds = 8 then finish svalue (word_le 8 svalue)
         else if ds = 4 then finish (scast (ucast svalue :: u32)) (word_le 4 (ucast svalue :: u32))
         else if ds = 2 then finish (scast (ucast svalue :: u16)) (word_le 2 (ucast svalue :: u16))
         else if ds = 1 then finish (scast (ucast svalue :: u8)) [ucast svalue]
         else Some (False, is_set_error s ''invalid data_size'', h))"

definition store_unsigned :: "u32 \<Rightarrow> addr \<Rightarrow> u64 \<Rightarrow> decoder" where
  "store_unsigned ds dest value s h =
     (let finish = (\<lambda>clamped bs. do {
            h \<leftarrow> store_heap h dest bs;
            if clamped \<noteq> value then Some (False, is_set_error s ''integer too large'', h) else Some (True, s, h) })
      in if ds = 8 then finish value (word_le 8 value)
         else if ds = 4 then finish (ucast (ucast value :: u32)) (word_le 4 (ucast value :: u32))
         else if ds = 2 then finish (ucast (ucast value :: u16)) (word_le 2 (ucast value :: u16))
         else if ds = 1 then finish (ucast (ucast value :: u8)) [ucast value]
         else Some (False, is_set_error s ''invalid data_size'', h))"

definition pb_dec_varint :: "pb_env \<Rightarrow> pb_field \<Rightarrow> addr \<Rightarrow> decoder" where
  "pb_dec_varint E f dest s h =
     val_do (pb_decode_varint E s h) (\<lambda>value s h.
       let svalue = (if data_size f = 8 then value else scast (ucast value :: u32))
       in store_signed (data_size f) dest svalue s h)"

definition pb_dec_uvarint :: "pb_env \<Rightarrow> pb_field \<Rightarrow> addr \<Rightarrow> decoder" where
  "pb_dec_uvarint E f dest s h =
     val_do (pb_decode_varint E s h) (\<lambda>value s h. store_unsigned (data_size f) dest value s h)"

definition pb_dec_svarint :: "pb_env \<Rightarrow> pb_field \<Rightarrow> addr \<Rightarrow> decoder" where
  "pb_dec_svarint E f dest s h =
     val_do (pb_decode_svarint E s h) (\<lambda>value s h. store_signed (data_size f) dest value s h)"

definition pb_dec_fixed32 :: "pb_env \<Rightarrow> pb_field \<Rightarrow> addr \<Rightarrow> decoder" where
  "pb_dec_fixed32 E f dest s h = pb_decode_fixed32 E dest s h"

definition pb_dec_fixed64 :: "pb_env \<Rightarrow> pb_field \<Rightarrow> addr \<Rightarrow> decoder" where
  "pb_dec_fixed64 E f dest s h = pb_decode_fixed64 E dest s h"

text \<open>A destination pointer as the buffer argument of \<open>pb_read\<close>.\<close>

definition rbuf_at :: "addr \<Rightarrow> rbuf" where
  "rbuf_at a = (if a = 0 then RNull else RMem a)"

definition read_into :: "pb_env \<Rightarrow> addr \<Rightarrow> u64 \<Rightarrow> decoder" where
  "read_into E dest count s h =
     map_option (\<lambda>(r, s, h). (r \<noteq> None, s, h)) (pb_read E (rbuf_at dest) count s h)"

definition pb_dec_bytes :: "pb_env \<Rightarrow> pb_field \<Rightarrow> addr \<Rightarrow> decoder" where
  "pb_dec_bytes E f dest s h =
     val_do (pb_decode_varint32 E s h) (\<lambda>sz s h.
       let alloc_size = (ucast sz :: u64) + 4 in
       if alloc_size < ucast sz then Some (False, is_set_error s ''size too large'', h)
       else if atype f = PB_ATYPE_POINTER
       then
         if bytes_left s < ucast sz then Some (False, is_set_error s ''end-of-stream'', h)
         else and_then (allocate_field E dest alloc_size 1 s h) (\<lambda>(s, h). do {
           bdest \<leftarrow> load_ptr (hmem h) dest;
           h \<leftarrow> put_u32 bdest sz h;
           read_into E (bdest + 4) (ucast sz) s h })
       else if ucast (data_size f) < alloc_size then Some (False, is_set_error s ''bytes overflow'', h)
       else do {
         h \<leftarrow> put_u32 dest sz h;
         read_into E (dest + 4) (ucast sz) s h })"

text \<open>\<open>size + 1\<close> is an addition in \<open>uint32_t\<close>; the terminator is stored even when reading failed.\<close>

definition dec_string_at :: "pb_env \<Rightarrow> addr \<Rightarrow> u32 \<Rightarrow> decoder" where
  "dec_string_at E dest sz s h = do {
     (status, s, h) \<leftarrow> read_into E dest (ucast sz) s h;
     h \<leftarrow> store_heap h (dest + uint sz) [0];
     Some (status, s, h) }"

definition pb_dec_string :: "pb_env \<Rightarrow> pb_field \<Rightarrow> addr \<Rightarrow> decoder" where
  "pb_dec_string E f dest s h =
     val_do (pb_decode_varint32 E s h) (\<lambda>sz s h.
       let alloc_size = (ucast (sz + 1) :: u64) in
       if alloc_size < ucast sz then Some (False, is_set_error s ''size too large'', h)
       else if atype f = PB_ATYPE_POINTER
       then
         if bytes_left s < ucast sz then Some (False, is_set_error s ''end-of-stream'', h)
         else and_then (allocate_field E dest alloc_size 1 s h) (\<lambda>(s, h). do {
           dest \<leftarrow> load_ptr (hmem h) dest;
           dec_string_at E dest sz s h })
       else if ucast (data_size f) < alloc_size then Some (False, is_set_error s ''string overflow'', h)
       else dec_string_at E dest sz s h)"

text \<open>Running a decoder on a length-limited substream, with the closing that follows it.\<close>

definition on_substream :: "pb_env \<Rightarrow> decoder \<Rightarrow> pb_istream \<Rightarrow> decoder" where
  "on_substream E dec substream s h = do {
     (status, substream, h) \<leftarrow> dec substream h;
     and_then (pb_close_string_substream E substream s h) (\<lambda>(s, h). Some (status, s, h)) }"

definition pb_dec_submessage :: "msg_decoder \<Rightarrow> pb_env \<Rightarrow> pb_field \<Rightarrow> addr \<Rightarrow> decoder" where
  "pb_dec_submessage decs E f dest s h =
     val_do (pb_make_string_substream E s h) (\<lambda>substream s h.
       if fptr f = 0 then Some (False, is_set_error s ''invalid field descriptor'', h)
       else on_substream E (decs (htype f = PB_HTYPE_REPEATED) (fields_of E (fptr f)) dest) substream s h)"

definition pb_dec_fixed_length_bytes :: "pb_env \<Rightarrow> pb_field \<Rightarrow> addr \<Rightarrow> decoder" where
  "pb_dec_fixed_length_bytes E f dest s h =
     val_do (pb_decode_varint32 E s h) (\<lambda>sz s h.
       if sz = 0 then do { h \<leftarrow> c_memset0 dest (unat (data_size f)) h; Some (True, s, h) }
       else if sz \<noteq> data_size f then Some (False, is_set_error s ''incorrect fixed length bytes size'', h)
       else read_into E dest (ucast (data_size f)) s h)"

definition PB_DECODERS :: "msg_decoder \<Rightarrow> pb_env \<Rightarrow> u8 \<Rightarrow> pb_field \<Rightarrow> addr \<Rightarrow> decoder" where
  "PB_DECODERS decs E lt =
     (if lt = PB_LTYPE_BOOL then pb_dec_bool E
      else if lt = PB_LTYPE_VARINT then pb_dec_varint E
      else if lt = PB_LTYPE_UVARINT then pb_dec_uvarint E
      else if lt = PB_LTYPE_SVARINT then pb_dec_svarint E
      else if lt = PB_LTYPE_FIXED32 then pb_dec_fixed32 E
      else if lt = PB_LTYPE_FIXED64 then pb_dec_fixed64 E
      else if lt = PB_LTYPE_BYTES then pb_dec_bytes E
      else if lt = PB_LTYPE_STRING then pb_dec_string E
      else if lt = PB_LTYPE_SUBMESSAGE then pb_dec_submessage decs E
      else if lt = PB_LTYPE_FIXED_LENGTH_BYTES then pb_dec_fixed_length_bytes E
      else (\<lambda>_ _ _ _. None))"

section \<open>Counters\<close>

text \<open>
  The counter behind \<open>pSize\<close> is a structure member or the local \<open>fixed_count_size\<close> of
  \<open>pb_decode_noinit\<close>, whose value \<open>fc\<close> is threaded through the field decoders.
\<close>

type_synonym field_decoder = "u32 \<Rightarrow> pb_istream \<Rightarrow> cheap \<Rightarrow> (bool \<times> pb_istream \<times> cheap \<times> u32) option"

definition read_count :: "psize \<Rightarrow> u32 \<Rightarrow> cheap \<Rightarrow> u32 option" where
  "read_count p fc h = (case p of PSMem a \<Rightarrow> load_u32 (hmem h) a | PSLocal \<Rightarrow> Some fc)"

definition write_count :: "psize \<Rightarrow> u32 \<Rightarrow> u32 \<Rightarrow> cheap \<Rightarrow> (u32 \<times> cheap) option" where
  "write_count p v fc h =
     (case p of PSMem a \<Rightarrow> map_option (Pair fc) (put_u32 a v h) | PSLocal \<Rightarrow> Some (v, h))"

definition write_has :: "psize \<Rightarrow> bool \<Rightarrow> u32 \<Rightarrow> cheap \<Rightarrow> (u32 \<times> cheap) option" where
  "write_has p b fc h =
     (case p of PSMem a \<Rightarrow> map_option (Pair fc) (put_bool a b h)
      | PSLocal \<Rightarrow> Some ((fc AND NOT 0xFF) OR (if b then 1 else 0), h))"

definition with_fc :: "u32 \<Rightarrow> (bool \<times> pb_istream \<times> cheap) option \<Rightarrow> (bool \<times> pb_istream \<times> cheap \<times> u32) option" where
  "with_fc fc r = map_option (\<lambda>(ok, s, h). (ok, s, h, fc)) r"

text \<open>\<open>pData + data_size * (*size)\<close>: both factors are \<open>pb_size_t\<close>.\<close>

definition item_at :: "addr \<Rightarrow> pb_field \<Rightarrow> u32 \<Rightarrow> addr" where
  "item_at base f count = base + uint (data_size f * count)"

section \<open>Static fields\<close>

partial_function (option) static_packed_loop ::
  "(addr \<Rightarrow> decoder) \<Rightarrow> pb_field \<Rightarrow> addr \<Rightarrow> psize \<Rightarrow> field_decoder" where
  "static_packed_loop func f pdata psz fc sub h =
     (if bytes_left sub = 0 then Some (True, sub, h, fc)
      else do {
        count \<leftarrow> read_count psz fc h;
        if \<not> count < array_size f then Some (True, sub, h, fc)
        else do {
          (ok, sub, h) \<leftarrow> func (item_at pdata f count) sub h;
          if \<not> ok then Some (False, sub, h, fc)
          else do {
            count \<leftarrow> read_count psz fc h;
            (fc, h) \<leftarrow> write_count psz (count + 1) fc h;
            static_packed_loop func f pdata psz fc sub h } } })"

declare static_packed_loop.simps [code]

definition decode_static_packed :: "pb_env \<Rightarrow> (addr \<Rightarrow> decoder) \<Rightarrow> pb_field \<Rightarrow> addr \<Rightarrow> psize \<Rightarrow> field_decoder" where
  "decode_static_packed E func f pdata psz fc s h =
     (case pb_make_string_substream E s h of None \<Rightarrow> None
      | Some (None, s, h) \<Rightarrow> Some (False, s, h, fc)
      | Some (Some sub, s, h) \<Rightarrow> do {
          (status, sub, h, fc) \<leftarrow> static_packed_loop func f pdata psz fc sub h;
          if bytes_left sub \<noteq> 0 then Some (False, is_set_error s ''array overflow'', h, fc)
          else with_fc fc (and_then (pb_close_string_substream E sub s h) (\<lambda>(s, h). Some (status, s, h))) })"

definition decode_static_item :: "(addr \<Rightarrow> decoder) \<Rightarrow> pb_field \<Rightarrow> addr \<Rightarrow> psize \<Rightarrow> field_decoder" where
  "decode_static_item func f pdata psz fc s h = do {
     count \<leftarrow> read_count psz fc h;
     (fc, h) \<leftarrow> write_count psz (count + 1) fc h;
     if array_size f \<le> count then Some (False, is_set_error s ''array overflow'', h, fc)
     else with_fc fc (func (item_at pdata f count) s h) }"

definition decode_static_oneof :: "nat \<Rightarrow> pb_env \<Rightarrow> (addr \<Rightarrow> decoder) \<Rightarrow> pb_field \<Rightarrow> addr \<Rightarrow> psize \<Rightarrow> field_decoder" where
  "decode_static_oneof n E func f pdata psz fc s h = do {
     h \<leftarrow> (if ltype f = PB_LTYPE_SUBMESSAGE
           then do {
             which \<leftarrow> read_count psz fc h;
             if which \<noteq> tag f
             then do {
               h \<leftarrow> c_memset0 pdata (unat (data_size f)) h;
               flds \<leftarrow> sub_fields E f;
               pb_message_set_to_defaults n E flds pdata h }
             else Some h }
           else Some h);
     (fc, h) \<leftarrow> write_count psz (tag f) fc h;
     with_fc fc (func pdata s h) }"

definition decode_static_field :: "nat \<Rightarrow> msg_decoder \<Rightarrow> pb_env \<Rightarrow> u32 \<Rightarrow> pb_field_iter \<Rightarrow> field_decoder" where
  "decode_static_field n decs E wire_type it fc s h = do {
     f \<leftarrow> it_field it;
     (let func = PB_DECODERS decs E (ltype f) f in
      if htype f = PB_HTYPE_REQUIRED then with_fc fc (func (pData it) s h)
      else if htype f = PB_HTYPE_OPTIONAL
      then do {
        (fc, h) \<leftarrow> (if pSize it \<noteq> PSMem (pData it) then write_has (pSize it) True fc h else Some (fc, h));
        with_fc fc (func (pData it) s h) }
      else if htype f = PB_HTYPE_REPEATED
      then
        if wire_type = PB_WT_STRING \<and> ltype f \<le> PB_LTYPE_LAST_PACKABLE
        then decode_static_packed E func f (pData it) (pSize it) fc s h
        else decode_static_item func f (pData it) (pSize it) fc s h
      else decode_static_oneof n E func f (pData it) (pSize it) fc s h) }"

section \<open>Pointer fields\<close>

text \<open>The packed loop; \<open>alc\<close> is \<open>allocated_size\<close>, \<open>s\<close> the parent stream, whose message it may set.\<close>

partial_function (option) pointer_packed_loop ::
  "nat \<Rightarrow> pb_env \<Rightarrow> (addr \<Rightarrow> decoder) \<Rightarrow> pb_field \<Rightarrow> pb_field_iter \<Rightarrow> u64 \<Rightarrow> u32 \<Rightarrow> pb_istream \<Rightarrow> pb_istream \<Rightarrow> cheap \<Rightarrow>
     (bool \<times> pb_istream \<times> pb_istream \<times> cheap \<times> u32) option" where
  "pointer_packed_loop n E func f it alc fc s sub h =
     (if bytes_left sub = 0 then Some (True, s, sub, h, fc)
      else do {
        count \<leftarrow> read_count (pSize it) fc h;
        if count = PB_SIZE_MAX
        then Some (False, s\<lparr>is_errmsg := Some ''too many array entries''\<rparr>, sub, h, fc)
        else do {
          (alc, ok, sub, h) \<leftarrow>
            (if alc < ucast count + 1
             then
               if data_size f = 0 then None
               else
                 (let remain = (bytes_left sub - 1) div ucast (data_size f) + 1;
                      alc = (if remain < ucast PB_SIZE_MAX - alc then alc + remain else alc + 1)
                  in map_option (Pair alc) (allocate_field E (pData it) (ucast (data_size f)) alc sub h))
             else Some (alc, True, sub, h));
          if \<not> ok then Some (False, s, sub, h, fc)
          else do {
            base \<leftarrow> load_ptr (hmem h) (pData it);
            count \<leftarrow> read_count (pSize it) fc h;
            (let pItem = item_at base f count in
             if pItem = 0 then Some (False, s, sub, h, fc)
             else do {
               h \<leftarrow> initialize_pointer_field n E f pItem h;
               (ok, sub, h) \<leftarrow> func pItem sub h;
               if \<not> ok then Some (False, s, sub, h, fc)
               else do {
                 count \<leftarrow> read_count (pSize it) fc h;
                 (fc, h) \<leftarrow> write_count (pSize it) (count + 1) fc h;
                 pointer_packed_loop n E func f it alc fc s sub h } }) } } })"

declare pointer_packed_loop.simps [code]

definition decode_pointer_packed :: "nat \<Rightarrow> pb_env \<Rightarrow> (addr \<Rightarrow> decoder) \<Rightarrow> pb_field \<Rightarrow> pb_field_iter \<Rightarrow> field_decoder" where
  "decode_pointer_packed n E func f it fc s h = do {
     count \<leftarrow> read_count (pSize it) fc h;
     (case pb_make_string_substream E s h of None \<Rightarrow> None
      | Some (None, s, h) \<Rightarrow> Some (False, s, h, fc)
      | Some (Some sub, s, h) \<Rightarrow> do {
          (status, s, sub, h, fc) \<leftarrow> pointer_packed_loop n E func f it (ucast count) fc s sub h;
          with_fc fc (and_then (pb_close_string_substream E sub s h) (\<lambda>(s, h). Some (status, s, h))) }) }"

definition decode_pointer_item :: "nat \<Rightarrow> pb_env \<Rightarrow> (addr \<Rightarrow> decoder) \<Rightarrow> pb_field \<Rightarrow> pb_field_iter \<Rightarrow> field_decoder" where
  "decode_pointer_item n E func f it fc s h = do {
     count \<leftarrow> read_count (pSize it) fc h;
     if count = PB_SIZE_MAX then Some (False, is_set_error s ''too many array entries'', h, fc)
     else do {
       (ok, s, h) \<leftarrow> allocate_field E (pData it) (ucast (data_size f)) (ucast (count + 1)) s h;
       if \<not> ok then Some (False, s, h, fc)
       else do {
         base \<leftarrow> load_ptr (hmem h) (pData it);
         count \<leftarrow> read_count (pSize it) fc h;
         (let pItem = item_at base f count in do {
            (fc, h) \<leftarrow> write_count (pSize it) (count + 1) fc h;
            h \<leftarrow> initialize_pointer_field n E f pItem h;
            with_fc fc (func pItem s h) }) } } }"

definition decode_pointer_single :: "nat \<Rightarrow> pb_env \<Rightarrow> (addr \<Rightarrow> decoder) \<Rightarrow> pb_field \<Rightarrow> pb_field_iter \<Rightarrow> field_decoder" where
  "decode_pointer_single n E func f it fc s h = do {
     old \<leftarrow> (if ltype f = PB_LTYPE_SUBMESSAGE then load_ptr (hmem h) (pData it) else Some 0);
     h \<leftarrow> (if old \<noteq> 0 then pb_release_single_field (Suc n) E it h else Some h);
     (fc, h) \<leftarrow> (if htype f = PB_HTYPE_ONEOF then write_count (pSize it) (tag f) fc h else Some (fc, h));
     if ltype f = PB_LTYPE_STRING \<or> ltype f = PB_LTYPE_BYTES then with_fc fc (func (pData it) s h)
     else do {
       (ok, s, h) \<leftarrow> allocate_field E (pData it) (ucast (data_size f)) 1 s h;
       if \<not> ok then Some (False, s, h, fc)
       else do {
         p \<leftarrow> load_ptr (hmem h) (pData it);
         h \<leftarrow> initialize_pointer_field n E f p h;
         p \<leftarrow> load_ptr (hmem h) (pData it);
         with_fc fc (func p s h) } } }"

definition decode_pointer_field :: "nat \<Rightarrow> msg_decoder \<Rightarrow> pb_env \<Rightarrow> u32 \<Rightarrow> pb_field_iter \<Rightarrow> field_decoder" where
  "decode_pointer_field n decs E wire_type it fc s h = do {
     f \<leftarrow> it_field it;
     (let func = PB_DECODERS decs E (ltype f) f in
      if htype f = PB_HTYPE_REPEATED
      then
        if wire_type = PB_WT_STRING \<and> ltype f \<le> PB_LTYPE_LAST_PACKABLE
        then decode_pointer_packed n E func f it fc s h
        else decode_pointer_item n E func f it fc s h
      else decode_pointer_single n E func f it fc s h) }"

section \<open>Callback fields\<close>

text \<open>\<open>do { if (!decode(&substream, pos, arg)) ... } while (substream.bytes_left);\<close>\<close>

partial_function (option) callback_loop :: "(pb_istream \<Rightarrow> cheap \<Rightarrow> (bool \<times> pb_istream \<times> cheap) option) \<Rightarrow> pb_istream \<Rightarrow> cheap \<Rightarrow> (bool \<times> pb_istream \<times> cheap) option" where
  "callback_loop cb sub h = do {
     (ok, sub, h) \<leftarrow> cb sub h;
     if \<not> ok then Some (False, sub, h)
     else if bytes_left sub \<noteq> 0 then callback_loop cb sub h
     else Some (True, sub, h) }"

declare callback_loop.simps [code]

text \<open>The array \<open>buffer\<close> of ten bytes lives on the stack while the callback runs.\<close>

definition push_buffer :: "pb_env \<Rightarrow> u8 list \<Rightarrow> cheap \<Rightarrow> addr \<times> cheap" where
  "push_buffer E bs h =
     (let a = stack_at E h 10
      in (a, h\<lparr>hmem := put_bytes (hmem h) a (bs @ map (\<lambda>i. fresh_byte E (a + int i)) [length bs..<10])\<rparr>))"

definition pop_buffer :: "addr \<Rightarrow> cheap \<Rightarrow> cheap" where
  "pop_buffer a h = h\<lparr>hmem := free_bytes (hmem h) a 10\<rparr>"

definition decode_callback_field :: "pb_env \<Rightarrow> u32 \<Rightarrow> pb_field_iter \<Rightarrow> decoder" where
  "decode_callback_field E wire_type it s h = do {
     f \<leftarrow> it_field it;
     fn \<leftarrow> (if pData it = 0 then Some 0 else load_ptr (hmem h) (pData it));
     if fn = 0 then map_option (\<lambda>(r, s, h). (r \<noteq> None, s, h)) (pb_skip_field E wire_type s h)
     else if wire_type = PB_WT_STRING
     then
       val_do (pb_make_string_substream E s h) (\<lambda>sub s h. do {
         (ok, sub, h) \<leftarrow> callback_loop (\<lambda>sub h. decode_cb E fn sub f (pData it + 8) h) sub h;
         if \<not> ok then Some (False, is_set_error s ''callback failed'', h)
         else pb_close_string_substream E sub s h })
     else
       val_do (read_raw_value E wire_type 10 s h) (\<lambda>bs s h.
         let (a, h) = push_buffer E bs h in do {
           (ok, sub, h) \<leftarrow> decode_cb E fn (pb_istream_from_buffer a (of_nat (length bs))) f (pData it + 8) h;
           Some (ok, s, pop_buffer a h) }) }"

section \<open>Any field\<close>

text \<open>
  \<open>pb_release_union_field\<close> moves the iterator, so the iterator is part of the result: it belongs to
  the caller, which goes on with it.
\<close>

definition with_iter :: "pb_field_iter \<Rightarrow> (bool \<times> pb_istream \<times> cheap \<times> u32) option \<Rightarrow>
    (bool \<times> pb_field_iter \<times> pb_istream \<times> cheap \<times> u32) option" where
  "with_iter it r = map_option (\<lambda>(ok, s, h, fc). (ok, it, s, h, fc)) r"

definition decode_field :: "nat \<Rightarrow> msg_decoder \<Rightarrow> pb_env \<Rightarrow> u32 \<Rightarrow> pb_field_iter \<Rightarrow> u32 \<Rightarrow> pb_istream \<Rightarrow> cheap \<Rightarrow>
    (bool \<times> pb_field_iter \<times> pb_istream \<times> cheap \<times> u32) option" where
  "decode_field n decs E wire_type it fc s h = do {
     f \<leftarrow> it_field it;
     (ok, s, it, h) \<leftarrow> (if htype f = PB_HTYPE_ONEOF then pb_release_union_field (Suc n) E it s h else Some (True, s, it, h));
     if \<not> ok then Some (False, it, s, h, fc)
     else do {
       f \<leftarrow> it_field it;
       with_iter it
         (if atype f = PB_ATYPE_STATIC then decode_static_field n decs E wire_type it fc s h
          else if atype f = PB_ATYPE_POINTER then decode_pointer_field n decs E wire_type it fc s h
          else if atype f = PB_ATYPE_CALLBACK then with_fc fc (decode_callback_field E wire_type it s h)
          else Some (False, is_set_error s ''invalid field type'', h, fc)) } }"

section \<open>Extensions\<close>

definition default_extension_decoder :: "nat \<Rightarrow> msg_decoder \<Rightarrow> pb_env \<Rightarrow> addr \<Rightarrow> u32 \<Rightarrow> u32 \<Rightarrow> decoder" where
  "default_extension_decoder n decs E ext tg wire_type s h = do {
     ty \<leftarrow> load_ptr (hmem h) ext;
     arg \<leftarrow> load_ptr (hmem h) (ty + 16);
     (case fields_of E arg of [] \<Rightarrow> None
      | f # _ \<Rightarrow>
          if tag f \<noteq> tg then Some (True, s, h)
          else do {
            it \<leftarrow> iter_from_extension E ext h;
            h \<leftarrow> put_bool (ext + 24) True h;
            map_option (\<lambda>(ok, _, s, h, _). (ok, s, h)) (decode_field n decs E wire_type it 0 s h) }) }"

definition decode_one_extension :: "nat \<Rightarrow> msg_decoder \<Rightarrow> pb_env \<Rightarrow> addr \<Rightarrow> u32 \<Rightarrow> u32 \<Rightarrow> decoder" where
  "decode_one_extension n decs E ext tg wire_type s h = do {
     ty \<leftarrow> load_ptr (hmem h) ext;
     fn \<leftarrow> load_ptr (hmem h) ty;
     if fn \<noteq> 0 then ext_decode_cb E fn s ext tg wire_type h
     else default_extension_decoder n decs E ext tg wire_type s h }"

partial_function (option) decode_extension_loop :: "(addr \<Rightarrow> decoder) \<Rightarrow> u64 \<Rightarrow> addr \<Rightarrow> decoder" where
  "decode_extension_loop one pos ext s h =
     (if ext = 0 \<or> pos \<noteq> bytes_left s then Some (True, s, h)
      else do {
        (ok, s, h) \<leftarrow> one ext s h;
        if \<not> ok then Some (False, s, h)
        else do {
          nxt \<leftarrow> load_ptr (hmem h) (ext + 16);
          decode_extension_loop one pos nxt s h } })"

declare decode_extension_loop.simps [code]

definition decode_extension :: "nat \<Rightarrow> msg_decoder \<Rightarrow> pb_env \<Rightarrow> u32 \<Rightarrow> u32 \<Rightarrow> pb_field_iter \<Rightarrow> decoder" where
  "decode_extension n decs E tg wire_type it s h = do {
     ext \<leftarrow> load_ptr (hmem h) (pData it);
     decode_extension_loop (\<lambda>ext. decode_one_extension n decs E ext tg wire_type) (bytes_left s) ext s h }"

partial_function (option) find_extension_loop :: "nat \<Rightarrow> pb_field_iter \<Rightarrow> (bool \<times> pb_field_iter) option" where
  "find_extension_loop start it = do {
     f \<leftarrow> it_field it;
     if ltype f = PB_LTYPE_EXTENSION then Some (True, it)
     else do {
       (_, it) \<leftarrow> pb_field_iter_next it;
       if it_pos it \<noteq> start then find_extension_loop start it else Some (False, it) } }"

declare find_extension_loop.simps [code]

definition find_extension_field :: "pb_field_iter \<Rightarrow> (bool \<times> pb_field_iter) option" where
  "find_extension_field it = find_extension_loop (it_pos it) it"

section \<open>Messages\<close>

text \<open>The locals of \<open>pb_decode_noinit\<close>; \<open>fixed_count_field\<close> points into the table.\<close>

record noinit_state =
  ns_iter :: pb_field_iter
  fields_seen :: "u32 list"
  extension_range_start :: u32
  fixed_count_field :: "nat option"
  fixed_count_size :: u32

datatype loop_ctl = LContinue | LBreak | LReturnFalse

text \<open>The branch for a tag that is not in the table.\<close>

definition unknown_field :: "nat \<Rightarrow> msg_decoder \<Rightarrow> pb_env \<Rightarrow> u32 \<Rightarrow> u32 \<Rightarrow> noinit_state \<Rightarrow> pb_istream \<Rightarrow> cheap \<Rightarrow>
    (loop_ctl \<times> noinit_state \<times> pb_istream \<times> cheap) option" where
  "unknown_field n decs E tg wire_type st s h =
     (let skip = (\<lambda>st s h. map_option (\<lambda>(r, s, h). (if r = None then LReturnFalse else LContinue, st, s, h))
                   (pb_skip_field E wire_type s h))
      in if extension_range_start st \<le> tg
         then do {
           (found, it) \<leftarrow> find_extension_field (ns_iter st);
           f \<leftarrow> it_field it;
           (let st = st\<lparr>ns_iter := it, extension_range_start := (if found then tag f else - 1)\<rparr> in
            if extension_range_start st \<le> tg
            then do {
              (ok, s', h) \<leftarrow> decode_extension n decs E tg wire_type it s h;
              if \<not> ok then Some (LReturnFalse, st, s', h)
              else if bytes_left s \<noteq> bytes_left s' then Some (LContinue, st, s', h)
              else skip st s' h }
            else skip st s h) }
         else skip st s h)"

text \<open>Counting in the local for fixed count arrays, which have no counter in the structure.\<close>

definition fixed_count_unfinished :: "noinit_state \<Rightarrow> bool" where
  "fixed_count_unfinished st =
     (case fixed_count_field st of None \<Rightarrow> False
      | Some k \<Rightarrow> fixed_count_size st \<noteq> array_size (it_start (ns_iter st) ! k))"

definition enter_fixed_count :: "pb_field \<Rightarrow> noinit_state \<Rightarrow> noinit_state option" where
  "enter_fixed_count f st =
     (let it = ns_iter st in
      if htype f = PB_HTYPE_REPEATED \<and> pSize it = PSMem (pData it)
      then
        if fixed_count_field st \<noteq> Some (it_pos it)
        then
          if fixed_count_unfinished st then None
          else Some (st\<lparr>fixed_count_field := Some (it_pos it), fixed_count_size := 0, ns_iter := it\<lparr>pSize := PSLocal\<rparr>\<rparr>)
        else Some (st\<lparr>ns_iter := it\<lparr>pSize := PSLocal\<rparr>\<rparr>)
      else Some st)"

definition mark_seen :: "pb_field \<Rightarrow> noinit_state \<Rightarrow> noinit_state" where
  "mark_seen f st =
     (let i = required_field_index (ns_iter st); w = unat (drop_bit 5 i) in
      if htype f = PB_HTYPE_REQUIRED \<and> i < PB_MAX_REQUIRED_FIELDS
      then st\<lparr>fields_seen := (fields_seen st)[w := fields_seen st ! w OR push_bit (unat (i AND 31)) 1]\<rparr>
      else st)"

definition known_field :: "nat \<Rightarrow> msg_decoder \<Rightarrow> pb_env \<Rightarrow> u32 \<Rightarrow> noinit_state \<Rightarrow> pb_istream \<Rightarrow> cheap \<Rightarrow>
    (loop_ctl \<times> noinit_state \<times> pb_istream \<times> cheap) option" where
  "known_field n decs E wire_type st s h = do {
     f \<leftarrow> it_field (ns_iter st);
     (case enter_fixed_count f st of
        None \<Rightarrow> Some (LReturnFalse, st, is_set_error s ''wrong size for fixed count field'', h)
      | Some st \<Rightarrow>
          (let st = mark_seen f st in do {
             (ok, it, s, h, fc) \<leftarrow> decode_field n decs E wire_type (ns_iter st) (fixed_count_size st) s h;
             Some (if ok then LContinue else LReturnFalse, st\<lparr>ns_iter := it, fixed_count_size := fc\<rparr>, s, h) })) }"

text \<open>One iteration of the field loop.\<close>

definition noinit_step :: "nat \<Rightarrow> msg_decoder \<Rightarrow> pb_env \<Rightarrow> noinit_state \<Rightarrow> pb_istream \<Rightarrow> cheap \<Rightarrow>
    (loop_ctl \<times> noinit_state \<times> pb_istream \<times> cheap) option" where
  "noinit_step n decs E st s h = do {
     (r, eof, s, h) \<leftarrow> pb_decode_tag E s h;
     (case r of None \<Rightarrow> Some (if eof then LBreak else LReturnFalse, st, s, h)
      | Some (wire_type, tg) \<Rightarrow> do {
          (found, it) \<leftarrow> pb_field_iter_find (ns_iter st) tg;
          (let st = st\<lparr>ns_iter := it\<rparr> in
           if found then known_field n decs E wire_type st s h
           else unknown_field n decs E tg wire_type st s h) }) }"

partial_function (option) noinit_loop :: "(noinit_state \<Rightarrow> pb_istream \<Rightarrow> cheap \<Rightarrow> (loop_ctl \<times> noinit_state \<times> pb_istream \<times> cheap) option) \<Rightarrow>
    noinit_state \<Rightarrow> pb_istream \<Rightarrow> cheap \<Rightarrow> (bool \<times> noinit_state \<times> pb_istream \<times> cheap) option" where
  "noinit_loop step st s h =
     (if bytes_left s = 0 then Some (True, st, s, h)
      else do {
        (c, st, s, h) \<leftarrow> step st s h;
        (case c of LContinue \<Rightarrow> noinit_loop step st s h
         | LBreak \<Rightarrow> Some (True, st, s, h)
         | LReturnFalse \<Rightarrow> Some (False, st, s, h)) })"

declare noinit_loop.simps [code]

text \<open>
  \<open>do { req_field_count = ...; last_type = ...; } while (pb_field_iter_next(&iter));\<close>
\<close>

partial_function (option) seek_end :: "pb_field_iter \<Rightarrow> (u32 \<times> u8 \<times> pb_field_iter) option" where
  "seek_end it = do {
     f \<leftarrow> it_field it;
     (more1, it') \<leftarrow> pb_field_iter_next it;
     if more1 then seek_end it' else Some (required_field_index it, ftype f, it') }"

declare seek_end.simps [code]

text \<open>The bits of \<open>fields_seen\<close> for the first \<open>req\<close> required fields.\<close>

definition all_seen :: "u32 \<Rightarrow> u32 list \<Rightarrow> bool" where
  "all_seen req seen \<longleftrightarrow>
     list_all (\<lambda>w. w = - 1) (take (unat (drop_bit 5 req)) seen) \<and>
     (req AND 31 \<noteq> 0 \<longrightarrow>
        seen ! unat (drop_bit 5 req) = drop_bit (32 - unat (req AND 31)) (- 1))"

definition check_required :: "noinit_state \<Rightarrow> bool option" where
  "check_required st = do {
     (req, last_type, it) \<leftarrow> seek_end (ns_iter st);
     f \<leftarrow> it_field it;
     (let req = (if PB_HTYPE last_type = PB_HTYPE_REQUIRED \<and> tag f \<noteq> 0 then req + 1 else req);
          req = (if PB_MAX_REQUIRED_FIELDS < req then PB_MAX_REQUIRED_FIELDS else req)
      in Some (req = 0 \<or> all_seen req (fields_seen st))) }"

definition noinit_body :: "nat \<Rightarrow> msg_decoder \<Rightarrow> pb_env \<Rightarrow> pb_field list \<Rightarrow> addr \<Rightarrow> decoder" where
  "noinit_body n decs E flds dest s h = do {
     (_, it) \<leftarrow> pb_field_iter_begin flds dest;
     (ok, st, s, h) \<leftarrow> noinit_loop (noinit_step n decs E)
       \<lparr>ns_iter = it, fields_seen = [0, 0], extension_range_start = 0, fixed_count_field = None,
        fixed_count_size = 0\<rparr> s h;
     if \<not> ok then Some (False, s, h)
     else if fixed_count_unfinished st then Some (False, is_set_error s ''wrong size for fixed count field'', h)
     else do {
       present \<leftarrow> check_required st;
       if present then Some (True, s, h)
       else Some (False, is_set_error s ''missing required field'', h) } }"

text \<open>\<open>pb_decode\<close> around a given \<open>pb_decode_noinit\<close>.\<close>

definition init_and_release :: "nat \<Rightarrow> pb_env \<Rightarrow> (pb_field list \<Rightarrow> addr \<Rightarrow> decoder) \<Rightarrow> pb_field list \<Rightarrow> addr \<Rightarrow> decoder" where
  "init_and_release n E noinit flds dest s h = do {
     h \<leftarrow> pb_message_set_to_defaults n E flds dest h;
     (status, s, h) \<leftarrow> noinit flds dest s h;
     if \<not> status then do { h \<leftarrow> pb_release n E flds dest h; Some (False, s, h) }
     else Some (True, s, h) }"

primrec pb_decode_noinit :: "nat \<Rightarrow> pb_env \<Rightarrow> pb_field list \<Rightarrow> addr \<Rightarrow> decoder" where
  "pb_decode_noinit 0 E flds dest s h = None"
| "pb_decode_noinit (Suc n) E flds dest s h =
     noinit_body n (\<lambda>init. if init then init_and_release n E (pb_decode_noinit n E) else pb_decode_noinit n E)
       E flds dest s h"

definition pb_decode :: "nat \<Rightarrow> pb_env \<Rightarrow> pb_field list \<Rightarrow> addr \<Rightarrow> decoder" where
  "pb_decode n E flds dest s h = init_and_release n E (pb_decode_noinit n E) flds dest s h"

definition pb_decode_delimited_noinit :: "nat \<Rightarrow> pb_env \<Rightarrow> pb_field list \<Rightarrow> addr \<Rightarrow> decoder" where
  "pb_decode_delimited_noinit n E flds dest s h =
     val_do (pb_make_string_substream E s h) (\<lambda>sub s h.
       on_substream E (pb_decode_noinit n E flds dest) sub s h)"

definition pb_decode_delimited :: "nat \<Rightarrow> pb_env \<Rightarrow> pb_field list \<Rightarrow> addr \<Rightarrow> decoder" where
  "pb_decode_delimited n E flds dest s h =
     val_do (pb_make_string_substream E s h) (\<lambda>sub s h.
       on_substream E (pb_decode n E flds dest) sub s h)"

definition pb_decode_nullterminated :: "nat \<Rightarrow> pb_env \<Rightarrow> pb_field list \<Rightarrow> addr \<Rightarrow> decoder" where
  "pb_decode_nullterminated n E flds dest s h = pb_decode n E flds dest s h"

end
