(* ===== verification/Nanopb_Decode_Safe.thy ===== *)
theory Nanopb_Decode_Safe
  imports Nanopb_Decode Nanopb_IStream_Correct
begin

text \<open>
  Memory safety of the decoder on static messages: for every input, \<open>pb_decode\<close> returns, reads only
  inside the input buffer and writes only inside the destination structure. The contract of each
  decoder is \<open>confined\<close>; nested messages enter through the locale \<open>nested_decoder\<close>.
\<close>

section \<open>The contract\<close>

text \<open>\<open>frame R h h'\<close>: \<open>h'\<close> differs from \<open>h\<close> at most in the bytes at \<open>R\<close>; nothing is mapped or unmapped.\<close>

definition frame :: "addr set \<Rightarrow> cheap \<Rightarrow> cheap \<Rightarrow> bool" where
  "frame R h h' \<longleftrightarrow> dom (hmem h') = dom (hmem h) \<and> blocks h' = blocks h \<and> (\<forall>x. x \<notin> R \<longrightarrow> hmem h' x = hmem h x)"

text \<open>
  After success the stream has advanced inside the buffer. After a failure its position is not
  meaningful any more (\<open>decode_static_field\<close> leaves the parent of an overfull packed array behind),
  and nothing is read through it.
\<close>

definition after :: "bool \<Rightarrow> pb_istream \<Rightarrow> pb_istream \<Rightarrow> bool" where
  "after ok s s' \<longleftrightarrow> is_callback s' = is_callback s \<and> (ok \<longrightarrow> consumed s s')"

lemma after_refl [simp]: "after ok s s"
  by (simp add: after_def)

lemma after_consumed: "consumed s s' \<Longrightarrow> after ok s s'"
  by (simp add: after_def consumed_def)

lemma after_trans: "consumed s t \<Longrightarrow> after ok t u \<Longrightarrow> after ok s u"
  by (auto simp: after_def consumed_def)

lemma after_set_error [simp]: "after ok s (is_set_error t e) \<longleftrightarrow> after ok s t"
  by (simp add: after_def) (simp add: is_set_error_def)

definition confined :: "addr set \<Rightarrow> addr set \<Rightarrow> decoder \<Rightarrow> bool" where
  "confined D R d \<longleftrightarrow>
     (\<forall>s h. ibuf s h \<longrightarrow> dom (hmem h) = D \<longrightarrow>
        (\<exists>ok s' h'. d s h = Some (ok, s', h') \<and> after ok s s' \<and> frame R h h'))"

lemma frame_refl [simp]: "frame R h h"
  by (simp add: frame_def)

lemma frame_trans: "frame R h h1 \<Longrightarrow> frame R h1 h2 \<Longrightarrow> frame R h h2"
  by (simp add: frame_def)

lemma frame_mono: "frame R h h' \<Longrightarrow> R \<subseteq> R' \<Longrightarrow> frame R' h h'"
  by (auto simp: frame_def)

lemma frame_dom: "frame R h h' \<Longrightarrow> dom (hmem h') = dom (hmem h)"
  by (simp add: frame_def)

lemma frame_ibuf: "frame R h h' \<Longrightarrow> ibuf s h \<Longrightarrow> ibuf s h'"
  by (auto simp: ibuf_def frame_def mapped_iff)

lemma confinedD:
  assumes "confined D R d" "ibuf s h" "dom (hmem h) = D"
  obtains ok s' h' where "d s h = Some (ok, s', h')" "after ok s s'" "frame R h h'" "dom (hmem h') = D"
    "ok \<Longrightarrow> ibuf s' h'"
proof -
  obtain ok s' h' where d: "d s h = Some (ok, s', h')" "after ok s s'" "frame R h h'"
    using assms unfolding confined_def by blast
  moreover have "ok \<Longrightarrow> ibuf s' h'"
    using d(2) frame_ibuf [OF d(3)] ibuf_consumed [OF assms(2)] by (simp add: after_def)
  ultimately show thesis using that frame_dom [OF d(3)] assms(3) by blast
qed

lemma confinedI:
  assumes "\<And>s h. ibuf s h \<Longrightarrow> dom (hmem h) = D \<Longrightarrow> \<exists>ok s' h'. d s h = Some (ok, s', h') \<and> after ok s s' \<and> frame R h h'"
  shows "confined D R d"
  using assms by (simp add: confined_def)

lemma confined_mono: "confined D R d \<Longrightarrow> R \<subseteq> R' \<Longrightarrow> confined D R' d"
  unfolding confined_def using frame_mono by blast

lemma confined_error [simp]: "confined D R (\<lambda>s h. Some (b, is_set_error s e, h))"
  by (rule confinedI) auto

lemma confined_return [simp]: "confined D R (\<lambda>s h. Some (b, s, h))"
  by (rule confinedI) auto

lemma confined_if: "(b \<Longrightarrow> confined D R f) \<Longrightarrow> (\<not> b \<Longrightarrow> confined D R g) \<Longrightarrow> confined D R (\<lambda>s h. if b then f s h else g s h)"
  by (cases b) simp_all

lemma confined_if_stream:
  "confined D R f \<Longrightarrow> confined D R g \<Longrightarrow> confined D R (\<lambda>s h. if P s then f s h else g s h)"
  by (auto simp: confined_def)

lemma confined_val_do:
  assumes "total_reader f" "\<And>v. confined D R (k v)"
  shows "confined D R (\<lambda>s h. val_do (f s h) k)"
proof (rule confinedI)
  fix s h assume s: "ibuf s h" "dom (hmem h) = D"
  from assms(1) s(1) obtain v s1 where f: "f s h = Some (v, s1, h)" "consumed s s1" "ibuf s1 h"
    by (rule total_readerD)
  show "\<exists>ok s' h'. val_do (f s h) k = Some (ok, s', h') \<and> after ok s s' \<and> frame R h h'"
  proof (cases v)
    case None
    then show ?thesis using f after_consumed by (auto simp: val_do_def)
  next
    case (Some w)
    from assms(2) f(3) s(2) obtain ok s' h' where "k w s1 h = Some (ok, s', h')" "after ok s1 s'" "frame R h h'"
      by (rule confinedD)
    then show ?thesis using f Some by (auto simp: val_do_def intro: after_trans)
  qed
qed

section \<open>Stores\<close>

text \<open>A heap operation that succeeds and changes only \<open>R\<close>.\<close>

definition heap_ok :: "addr set \<Rightarrow> addr set \<Rightarrow> (cheap \<Rightarrow> cheap option) \<Rightarrow> bool" where
  "heap_ok D R f \<longleftrightarrow> (\<forall>h. dom (hmem h) = D \<longrightarrow> (\<exists>h'. f h = Some h' \<and> frame R h h'))"

lemma heap_okD:
  assumes "heap_ok D R f" "dom (hmem h) = D"
  obtains h' where "f h = Some h'" "frame R h h'" "dom (hmem h') = D"
  using assms frame_dom unfolding heap_ok_def by metis

lemma heap_ok_mono: "heap_ok D R f \<Longrightarrow> R \<subseteq> R' \<Longrightarrow> heap_ok D R' f"
  unfolding heap_ok_def using frame_mono by blast

lemma heap_ok_id [simp]: "heap_ok D R Some"
  by (simp add: heap_ok_def)

lemma heap_ok_bind:
  assumes "heap_ok D R f" "heap_ok D R g"
  shows "heap_ok D R (\<lambda>h. Option.bind (f h) g)"
  unfolding heap_ok_def
proof (intro allI impI)
  fix h :: cheap assume "dom (hmem h) = D"
  with assms(1) obtain h1 where f: "f h = Some h1" "frame R h h1" "dom (hmem h1) = D" by (rule heap_okD)
  from assms(2) f(3) obtain h2 where "g h1 = Some h2" "frame R h1 h2" by (rule heap_okD)
  then show "\<exists>h'. Option.bind (f h) g = Some h' \<and> frame R h h'" using f by (auto intro: frame_trans)
qed

lemma store_heap_ok:
  assumes "region a (length bs) \<subseteq> R" "R \<subseteq> D"
  shows "heap_ok D R (\<lambda>h. store_heap h a bs)"
  unfolding heap_ok_def
proof (intro allI impI)
  fix h :: cheap assume h: "dom (hmem h) = D"
  then have m: "mapped (hmem h) a (length bs)" using assms by (auto simp: mapped_iff)
  then show "\<exists>h'. store_heap h a bs = Some h' \<and> frame R h h'"
    using assms(1) dom_put_mapped [OF m]
    by (auto simp: store_heap_def store_bytes_def frame_def put_bytes_apply subset_iff)
qed

lemma put_u32_ok: "region a 4 \<subseteq> R \<Longrightarrow> R \<subseteq> D \<Longrightarrow> heap_ok D R (put_u32 a w)"
  using store_heap_ok [of a "word_le 4 w" R D] unfolding put_u32_def by simp

lemma put_bool_ok: "region a 1 \<subseteq> R \<Longrightarrow> R \<subseteq> D \<Longrightarrow> heap_ok D R (put_bool a b)"
  using store_heap_ok [of a "[if b then 1 else 0]" R D] unfolding put_bool_def by simp

lemma c_memset0_ok: "region a n \<subseteq> R \<Longrightarrow> R \<subseteq> D \<Longrightarrow> heap_ok D R (c_memset0 a n)"
  using store_heap_ok [of a "replicate n 0" R D] unfolding c_memset0_def by simp

lemma c_memcpy_ok:
  assumes "region a n \<subseteq> R" "R \<subseteq> D" "region src n \<subseteq> D"
  shows "heap_ok D R (c_memcpy a src n)"
  unfolding heap_ok_def
proof (intro allI impI)
  fix h :: cheap assume h: "dom (hmem h) = D"
  then obtain bs where bs: "load_bytes (hmem h) src n = Some bs" "length bs = n"
    using assms(3) mapped_load [of "hmem h" src n] by (auto simp: mapped_iff)
  with assms h show "\<exists>h'. c_memcpy a src n h = Some h' \<and> frame R h h'"
    using store_heap_ok [of a bs R D] by (simp add: c_memcpy_def heap_ok_def)
qed

lemma load_u32_ok: "region a 4 \<subseteq> D \<Longrightarrow> dom (hmem h) = D \<Longrightarrow> \<exists>w. load_u32 (hmem h) a = Some w"
  using mapped_load [of "hmem h" a 4] by (auto simp: load_u32_def mapped_iff)

text \<open>A store as the last step of a decoder.\<close>

lemma confined_heap:
  assumes "heap_ok D R f" "confined D R d"
  shows "confined D R (\<lambda>s h. Option.bind (f h) (d s))"
proof (rule confinedI)
  fix s h assume s: "ibuf s h" "dom (hmem h) = D"
  from assms(1) s(2) obtain h1 where f: "f h = Some h1" "frame R h h1" "dom (hmem h1) = D" by (rule heap_okD)
  have "ibuf s h1" using frame_ibuf f(2) s(1) .
  with assms(2) obtain ok s' h' where "d s h1 = Some (ok, s', h')" "after ok s s'" "frame R h1 h'"
    using f(3) by (rule confinedD)
  then show "\<exists>ok s' h'. Option.bind (f h) (d s) = Some (ok, s', h') \<and> after ok s s' \<and> frame R h h'"
    using f by (auto intro: frame_trans)
qed

section \<open>Element decoders\<close>

lemma confined_pb_dec_bool: "region dest 1 \<subseteq> R \<Longrightarrow> R \<subseteq> D \<Longrightarrow> confined D R (pb_dec_bool E f dest)"
  unfolding pb_dec_bool_def
  by (intro confined_val_do total_pb_decode_varint32 confined_heap put_bool_ok confined_return)

lemma confined_finish:
  assumes "region dest (length bs) \<subseteq> R" "R \<subseteq> D"
  shows "confined D R (\<lambda>s h. Option.bind (store_heap h dest bs)
    (\<lambda>h. if P then Some (False, is_set_error s e, h) else Some (True, s, h)))"
  by (intro confined_heap store_heap_ok assms confined_if confined_error confined_return)

lemma confined_store_signed:
  assumes "region dest (unat ds) \<subseteq> R" "R \<subseteq> D"
  shows "confined D R (store_signed ds dest v)"
  using assms confined_finish [of dest _ R D]
  unfolding store_signed_def Let_def by (intro confined_if confined_error confined_finish) simp_all

lemma confined_store_unsigned:
  assumes "region dest (unat ds) \<subseteq> R" "R \<subseteq> D"
  shows "confined D R (store_unsigned ds dest v)"
  using assms unfolding store_unsigned_def Let_def by (intro confined_if confined_error confined_finish) simp_all

lemma confined_varints:
  assumes "region dest (unat (data_size f)) \<subseteq> R" "R \<subseteq> D"
  shows "confined D R (pb_dec_varint E f dest)" "confined D R (pb_dec_uvarint E f dest)" "confined D R (pb_dec_svarint E f dest)"
  unfolding pb_dec_varint_def pb_dec_uvarint_def pb_dec_svarint_def Let_def
  by (intro confined_val_do total_pb_decode_varint total_pb_decode_svarint confined_store_signed confined_store_unsigned assms)+

lemma pb_read_local_total:
  assumes "ibuf s h"
  shows "\<exists>v s'. pb_read E RLocal n s h = Some (v, s', h) \<and> consumed s s' \<and> (\<forall>bs. v = Some bs \<longrightarrow> length bs = unat n)"
proof (cases "bytes_left s < n")
  case True
  then show ?thesis by (auto simp: pb_read_def pb_read_bytes_short)
next
  case False
  then have "unat n \<le> unat (bytes_left s)" by (simp add: word_less_nat_alt)
  then show ?thesis using pb_read_local [OF assms, of n E] consumed_iadvance by fastforce
qed

lemma confined_pb_decode_fixed32:
  assumes "region dest 4 \<subseteq> R" "R \<subseteq> D"
  shows "confined D R (pb_decode_fixed32 E dest)"
proof (rule confinedI)
  fix s h assume s: "ibuf s h" "dom (hmem h) = D"
  obtain v s' where r: "pb_read E RLocal 4 s h = Some (v, s', h)" "consumed s s'" "\<forall>bs. v = Some bs \<longrightarrow> length bs = 4"
    using pb_read_local_total [OF s(1), of E 4] by auto
  then show "\<exists>ok s' h'. pb_decode_fixed32 E dest s h = Some (ok, s', h') \<and> after ok s s' \<and> frame R h h'"
  proof (cases v)
    case (Some bs)
    have "heap_ok D R (\<lambda>h. store_heap h dest (word_le 4 (fixed32_value bs)))"
      using store_heap_ok [of dest "word_le 4 (fixed32_value bs)" R D] assms by simp
    then obtain h' where "store_heap h dest (word_le 4 (fixed32_value bs)) = Some h'" "frame R h h'"
      using s(2) by (rule heap_okD)
    then show ?thesis using r Some after_consumed by (auto simp: pb_decode_fixed32_def val_do_def)
  qed (use after_consumed in \<open>auto simp: pb_decode_fixed32_def val_do_def\<close>)
qed

lemma confined_pb_decode_fixed64:
  assumes "region dest 8 \<subseteq> R" "R \<subseteq> D"
  shows "confined D R (pb_decode_fixed64 E dest)"
proof (rule confinedI)
  fix s h assume s: "ibuf s h" "dom (hmem h) = D"
  obtain v s' where r: "pb_read E RLocal 8 s h = Some (v, s', h)" "consumed s s'" "\<forall>bs. v = Some bs \<longrightarrow> length bs = 8"
    using pb_read_local_total [OF s(1), of E 8] by auto
  then show "\<exists>ok s' h'. pb_decode_fixed64 E dest s h = Some (ok, s', h') \<and> after ok s s' \<and> frame R h h'"
  proof (cases v)
    case (Some bs)
    have "heap_ok D R (\<lambda>h. store_heap h dest (word_le 8 (fixed64_value bs)))"
      using store_heap_ok [of dest "word_le 8 (fixed64_value bs)" R D] assms by simp
    then obtain h' where "store_heap h dest (word_le 8 (fixed64_value bs)) = Some h'" "frame R h h'"
      using s(2) by (rule heap_okD)
    then show ?thesis using r Some after_consumed by (auto simp: pb_decode_fixed64_def val_do_def)
  qed (use after_consumed in \<open>auto simp: pb_decode_fixed64_def val_do_def\<close>)
qed

lemma buf_read_loop_frame:
  "mapped m src k \<Longrightarrow> mapped m dest k \<Longrightarrow>
     \<exists>m'. buf_read_loop m dest src k = Some m' \<and> dom m' = dom m \<and> (\<forall>x. x \<notin> region dest k \<longrightarrow> m' x = m x)"
proof (induction k arbitrary: m dest src)
  case (Suc k)
  have sub: "mapped m src 1" "mapped m dest 1" "mapped m (src + 1) k" "mapped m (dest + 1) k"
    using mapped_sub [OF Suc.prems(1), of src 1] mapped_sub [OF Suc.prems(2), of dest 1]
      mapped_sub [OF Suc.prems(1), of "src + 1" k] mapped_sub [OF Suc.prems(2), of "dest + 1" k] by simp_all
  obtain b where b: "m src = Some b" using sub(1) by (auto simp: mapped_def split: option.splits)
  let ?m = "m(dest \<mapsto> b)"
  have dom: "dom ?m = dom m" using sub(2) by (auto simp: mapped_iff)
  have "\<exists>m'. buf_read_loop ?m (dest + 1) (src + 1) k = Some m' \<and> dom m' = dom ?m \<and>
      (\<forall>x. x \<notin> region (dest + 1) k \<longrightarrow> m' x = ?m x)"
    by (rule Suc.IH) (simp_all only: sub(3,4) mapped_dom [OF dom])
  then obtain m' where m': "buf_read_loop ?m (dest + 1) (src + 1) k = Some m'" "dom m' = dom ?m"
      "\<And>x. x \<notin> region (dest + 1) k \<Longrightarrow> m' x = ?m x" by blast
  have "m' x = m x" if "x \<notin> region dest (Suc k)" for x
    using that m'(3) [of x] by auto
  moreover have "buf_read_loop m dest src (Suc k) = Some m'" using b sub(2) m'(1) by simp
  ultimately show ?case using m'(2) dom by blast
qed simp

lemma confined_read_into:
  assumes "region dest (unat n) \<subseteq> R" "R \<subseteq> D"
  shows "confined D R (read_into E dest n)"
proof (rule confinedI)
  fix s h assume s: "ibuf s h" "dom (hmem h) = D"
  show "\<exists>ok s' h'. read_into E dest n s h = Some (ok, s', h') \<and> after ok s s' \<and> frame R h h'"
  proof (cases "dest = 0 \<or> n = 0 \<or> bytes_left s < n")
    case True
    have "total_reader (pb_read E RNull n)" by (rule total_pb_read_null)
    then obtain v s' where "pb_read E RNull n s h = Some (v, s', h)" "consumed s s'" using s(1) by (rule total_readerD)
    moreover have "pb_read E (rbuf_at dest) n s h = pb_read E RNull n s h \<or>
        pb_read E (rbuf_at dest) n s h = Some (None, is_set_error s ''end-of-stream'', h)"
      using True by (auto simp: rbuf_at_def pb_read_def pb_read_bytes_short)
    ultimately show ?thesis using after_consumed by (auto simp: read_into_def)
  next
    case False
    then have le: "unat n \<le> unat (bytes_left s)" by (simp add: word_less_nat_alt)
    have src: "mapped (hmem h) (is_state s) (unat n)" using s(1) le mapped_prefix unfolding ibuf_def by blast
    have dst: "mapped (hmem h) dest (unat n)" using assms s(2) by (auto simp: mapped_iff)
    obtain m' where m': "buf_read_loop (hmem h) dest (is_state s) (unat n) = Some m'" "dom m' = dom (hmem h)"
        "\<forall>x. x \<notin> region dest (unat n) \<longrightarrow> m' x = hmem h x"
      using buf_read_loop_frame [OF src dst] by blast
    then have "\<forall>x. x \<notin> R \<longrightarrow> m' x = hmem h x" using assms(1) by blast
    then have "frame R h (h\<lparr>hmem := m'\<rparr>)" using m'(2) by (simp add: frame_def)
    moreover have "consumed s (iadvance s (unat n))" using consumed_iadvance le by blast
    moreover have "read_into E dest n s h = Some (True, iadvance s (unat n), h\<lparr>hmem := m'\<rparr>)"
      using False s(1) m'(1)
      by (simp add: read_into_def rbuf_at_def pb_read_def pb_read_bytes_def call_istream_cb_def buf_read_def
          ibuf_def iadvance_def)
    ultimately show ?thesis using after_consumed by blast
  qed
qed

lemma confined_bind_heap:
  assumes "confined D R d" "heap_ok D R f"
  shows "confined D R (\<lambda>s h. Option.bind (d s h) (\<lambda>(st, s, h). Option.bind (f h) (\<lambda>h. Some (st, s, h))))"
proof (rule confinedI)
  fix s h assume "ibuf s h" "dom (hmem h) = D"
  with assms(1) obtain ok s' h' where d: "d s h = Some (ok, s', h')" "after ok s s'" "frame R h h'" "dom (hmem h') = D"
    by (rule confinedD)
  from assms(2) d(4) obtain h'' where f: "f h' = Some h''" "frame R h' h''" by (rule heap_okD)
  with d show "\<exists>ok s' h'. Option.bind (d s h) (\<lambda>(st, s, h). Option.bind (f h) (\<lambda>h. Some (st, s, h))) = Some (ok, s', h') \<and>
      after ok s s' \<and> frame R h h'"
    using frame_trans [OF d(3) f(2)] by simp
qed

lemma unat_ucast_u32_u64 [simp]: "unat (ucast (w :: u32) :: u64) = unat w"
  using unat_u32_lt [of w] by (simp add: unsigned_ucast_eq take_bit_eq_mod)

lemma confined_pb_dec_bytes:
  assumes "region dest (unat (data_size f)) \<subseteq> R" "R \<subseteq> D" "atype f = PB_ATYPE_STATIC"
  shows "confined D R (pb_dec_bytes E f dest)"
proof -
  have sub: "region dest 4 \<subseteq> R" "region (dest + 4) (unat sz) \<subseteq> R"
    if "\<not> ucast (data_size f) < (ucast sz :: u64) + 4" for sz :: u32
  proof -
    have "unat ((ucast sz :: u64) + 4) = unat sz + 4"
      using unat_u32_lt [of sz] by (simp add: unat_u64_add)
    then have "unat sz + 4 \<le> unat (data_size f)" using that by (simp add: word_less_nat_alt)
    then have "region dest 4 \<subseteq> region dest (unat (data_size f))"
        "region (dest + int 4) (unat sz) \<subseteq> region dest (unat (data_size f))"
      by (intro region_prefix region_part; simp)+
    then show "region dest 4 \<subseteq> R" "region (dest + 4) (unat sz) \<subseteq> R" using assms(1) by auto
  qed
  show ?thesis
    unfolding pb_dec_bytes_def Let_def
    using assms(2,3) sub by (intro confined_val_do total_pb_decode_varint32 confined_if confined_error
        confined_heap put_u32_ok confined_read_into) auto
qed

lemma confined_pb_dec_string:
  assumes "region dest (unat (data_size f)) \<subseteq> R" "R \<subseteq> D" "atype f = PB_ATYPE_STATIC"
  shows "confined D R (pb_dec_string E f dest)"
proof -
  have sub: "confined D R (dec_string_at E dest sz)"
    if "\<not> (ucast (sz + 1) :: u64) < ucast sz" "\<not> ucast (data_size f) < (ucast (sz + 1) :: u64)" for sz
  proof -
    have "unat sz \<le> unat (sz + 1)" "unat (sz + 1) \<le> unat (data_size f)" using that by (simp_all add: word_less_nat_alt)
    moreover from this(1) have "unat (sz + 1) = unat sz + 1"
      using unat_u32_lt [of sz] by (auto simp: unat_word_ariths mod_Suc)
    ultimately have le: "unat sz + 1 \<le> unat (data_size f)" by simp
    then have "region dest (unat sz) \<subseteq> region dest (unat (data_size f))"
        "region (dest + int (unat sz)) 1 \<subseteq> region dest (unat (data_size f))"
      by (intro region_prefix region_part; simp)+
    then have "region dest (unat sz) \<subseteq> R" "region (dest + uint sz) (length [0 :: u8]) \<subseteq> R"
      using assms(1) by auto
    then show ?thesis
      unfolding dec_string_at_def
      by (intro confined_bind_heap confined_read_into store_heap_ok assms(2)) simp_all
  qed
  show ?thesis
    unfolding pb_dec_string_def Let_def
    using assms(3) sub by (intro confined_val_do total_pb_decode_varint32 confined_if confined_error) auto
qed

lemma confined_pb_dec_fixed_length_bytes:
  assumes "region dest (unat (data_size f)) \<subseteq> R" "R \<subseteq> D"
  shows "confined D R (pb_dec_fixed_length_bytes E f dest)"
  unfolding pb_dec_fixed_length_bytes_def
  using assms by (intro confined_val_do total_pb_decode_varint32 confined_if confined_error confined_heap
      c_memset0_ok confined_return confined_read_into) simp_all

section \<open>Static tables\<close>

text \<open>The bytes a decoder of the field may store at its destination.\<close>

definition elem_need :: "pb_field \<Rightarrow> nat" where
  "elem_need f =
     (if ltype f = PB_LTYPE_BOOL then max 1 (unat (data_size f))
      else if ltype f = PB_LTYPE_FIXED32 then max 4 (unat (data_size f))
      else if ltype f = PB_LTYPE_FIXED64 then max 8 (unat (data_size f))
      else unat (data_size f))"

definition known_ltype :: "u8 \<Rightarrow> bool" where
  "known_ltype lt \<longleftrightarrow> lt \<in> set [PB_LTYPE_BOOL, PB_LTYPE_VARINT, PB_LTYPE_UVARINT, PB_LTYPE_SVARINT, PB_LTYPE_FIXED32,
     PB_LTYPE_FIXED64, PB_LTYPE_BYTES, PB_LTYPE_STRING, PB_LTYPE_SUBMESSAGE, PB_LTYPE_FIXED_LENGTH_BYTES]"

text \<open>
  Field \<open>k\<close> of a structure of \<open>sz\<close> bytes is static, its storage and its companion lie inside the
  structure, and the table or default value behind its pointer exists. A repeated field needs four
  bytes at its size pointer even when it has no counter: \<open>pb_field_set_to_default\<close> clears a
  \<open>pb_size_t\<close> there.
\<close>

definition static_field_ok :: "(pb_field list \<Rightarrow> nat \<Rightarrow> bool) \<Rightarrow> pb_env \<Rightarrow> addr set \<Rightarrow> pb_field list \<Rightarrow> nat \<Rightarrow> nat \<Rightarrow> bool" where
  "static_field_ok good E D flds sz k \<longleftrightarrow>
     (let f = flds ! k; off = field_offset flds k; aux = size_ptr_offset flds k in
      atype f = PB_ATYPE_STATIC \<and> known_ltype (ltype f) \<and> 0 \<le> off \<and>
      (ltype f = PB_LTYPE_SUBMESSAGE \<longrightarrow> fptr f \<noteq> 0 \<and> good (fields_of E (fptr f)) (unat (data_size f))) \<and>
      (ltype f \<noteq> PB_LTYPE_SUBMESSAGE \<and> fptr f \<noteq> 0 \<longrightarrow> region (fptr f) (unat (data_size f)) \<subseteq> D) \<and>
      (htype f = PB_HTYPE_REPEATED \<longrightarrow>
         elem_need f \<le> unat (data_size f) \<and> off + int (unat (data_size f) * unat (array_size f)) \<le> int sz) \<and>
      (htype f \<noteq> PB_HTYPE_REPEATED \<longrightarrow> off + int (elem_need f) \<le> int sz) \<and>
      (htype f = PB_HTYPE_OPTIONAL \<and> aux \<noteq> off \<longrightarrow> 0 \<le> aux \<and> aux + 1 \<le> int sz) \<and>
      (htype f = PB_HTYPE_REPEATED \<or> htype f = PB_HTYPE_ONEOF \<longrightarrow> 0 \<le> aux \<and> aux + 4 \<le> int sz))"

primrec static_ok :: "nat \<Rightarrow> pb_env \<Rightarrow> addr set \<Rightarrow> pb_field list \<Rightarrow> nat \<Rightarrow> bool" where
  "static_ok 0 E D flds sz = False"
| "static_ok (Suc n) E D flds sz =
     (wf_table flds \<and> last flds = PB_LAST_FIELD \<and> sz < 2 ^ 32 \<and>
      (\<forall>k < max 1 (nfields flds). static_field_ok (static_ok n E D) E D flds sz k))"

text \<open>The facts about one field of a structure at \<open>dest\<close>, in terms of regions.\<close>

lemma static_field_regions:
  assumes ok: "static_field_ok good E D flds sz k" and D: "region dest sz \<subseteq> D"
  defines "f \<equiv> flds ! k" and "p \<equiv> dest + field_offset flds k" and "q \<equiv> dest + size_ptr_offset flds k"
  shows "htype f \<noteq> PB_HTYPE_REPEATED \<Longrightarrow> region p (elem_need f) \<subseteq> region dest sz"
    and "htype f = PB_HTYPE_REPEATED \<Longrightarrow> region p (unat (data_size f) * unat (array_size f)) \<subseteq> region dest sz"
    and "htype f = PB_HTYPE_OPTIONAL \<Longrightarrow> q \<noteq> p \<Longrightarrow> region q 1 \<subseteq> region dest sz"
    and "htype f = PB_HTYPE_REPEATED \<or> htype f = PB_HTYPE_ONEOF \<Longrightarrow> region q 4 \<subseteq> region dest sz"
    and "0 < dest \<Longrightarrow> 0 < p"
  using ok unfolding static_field_ok_def Let_def f_def p_def q_def
  by (auto intro!: region_subset)

lemma static_field_parts:
  assumes "static_field_ok good E D flds sz k"
  shows "atype (flds ! k) = PB_ATYPE_STATIC" and "known_ltype (ltype (flds ! k))"
    and "ltype (flds ! k) = PB_LTYPE_SUBMESSAGE \<Longrightarrow> fptr (flds ! k) \<noteq> 0"
    and "ltype (flds ! k) = PB_LTYPE_SUBMESSAGE \<Longrightarrow> good (fields_of E (fptr (flds ! k))) (unat (data_size (flds ! k)))"
    and "ltype (flds ! k) \<noteq> PB_LTYPE_SUBMESSAGE \<Longrightarrow> fptr (flds ! k) \<noteq> 0 \<Longrightarrow>
      region (fptr (flds ! k)) (unat (data_size (flds ! k))) \<subseteq> D"
    and "htype (flds ! k) = PB_HTYPE_REPEATED \<Longrightarrow> elem_need (flds ! k) \<le> unat (data_size (flds ! k))"
  using assms unfolding static_field_ok_def Let_def by blast+

lemma known_ltype_not_extension: "known_ltype lt \<Longrightarrow> lt \<noteq> PB_LTYPE_EXTENSION"
  by (auto simp: known_ltype_def)

lemma elem_need_ge: "unat (data_size f) \<le> elem_need f"
  by (simp add: elem_need_def)

section \<open>Default values\<close>

lemma run_list_heap:
  assumes "\<And>x. x \<in> set xs \<Longrightarrow> heap_ok D R (body x)"
  shows "heap_ok D R (\<lambda>h. map_option snd (run_list (\<lambda>x h. map_option (Pair True) (body x h)) xs h))"
  using assms
proof (induction xs)
  case Nil
  then show ?case by (simp add: heap_ok_def)
next
  case (Cons x xs)
  have "heap_ok D R (\<lambda>h. Option.bind (body x h) (\<lambda>h. map_option snd (run_list (\<lambda>x h. map_option (Pair True) (body x h)) xs h)))"
    using Cons by (intro heap_ok_bind) simp_all
  moreover have "Option.bind (body x h) (\<lambda>h. map_option snd (run_list (\<lambda>x h. map_option (Pair True) (body x h)) xs h)) =
      map_option snd (run_list (\<lambda>x h. map_option (Pair True) (body x h)) (x # xs) h)" for h
    by (cases "body x h") simp_all
  ultimately show ?case by simp
qed

lemma each_field_ok:
  assumes "wf_table flds" "0 < dest" "\<And>k. k < nfields flds \<Longrightarrow> heap_ok D R (body (iter_at flds dest k))"
  shows "heap_ok D R (each_field body flds dest)"
proof (cases "nfields flds = 0")
  case True
  then show ?thesis using assms(1,2) by (simp add: heap_ok_def each_field_def iter_begin_at)
next
  case False
  have "heap_ok D R (\<lambda>h. map_option snd (run_list (\<lambda>k h. map_option (Pair True) (body (iter_at flds dest k) h)) [0..<nfields flds] h))"
    using assms(3) by (intro run_list_heap) simp
  then show ?thesis
    using False assms(1,2) unfolding each_field_def
    by (simp add: iter_begin_at do_fields_run run_list_map)
qed

lemma defaults_ok:
  assumes "static_ok n E D flds sz" "0 < dest" "region dest sz \<subseteq> D"
  shows "heap_ok D (region dest sz) (pb_message_set_to_defaults n E flds dest)"
  using assms
proof (induction n arbitrary: flds sz dest)
  case (Suc n)
  let ?R = "region dest sz"
  have wf: "wf_table flds" and len: "length flds = Suc (nfields flds)"
    using Suc.prems(1) wf_table_length by auto
  have "heap_ok D ?R (pb_field_set_to_default (Suc n) E (iter_at flds dest k))" if k: "k < nfields flds" for k
  proof -
    let ?f = "flds ! k" and ?p = "dest + field_offset flds k" and ?q = "dest + size_ptr_offset flds k"
    have ok: "static_field_ok (static_ok n E D) E D flds sz k" using Suc.prems(1) k by simp
    note reg = static_field_regions [OF ok Suc.prems(3)]
    note parts = static_field_parts [OF ok]
    have ty: "atype ?f = PB_ATYPE_STATIC" "ltype ?f \<noteq> PB_LTYPE_EXTENSION"
      using parts(1) known_ltype_not_extension [OF parts(2)] by auto
    define init where "init = (\<lambda>h. if ltype ?f = PB_LTYPE_SUBMESSAGE
        then Option.bind (sub_fields E ?f) (\<lambda>flds. each_field (pb_field_set_to_default n E) flds ?p h)
        else if fptr ?f \<noteq> 0 then c_memcpy ?p (fptr ?f) (unat (data_size ?f)) h
        else c_memset0 ?p (unat (data_size ?f)) h)"
    have init: "heap_ok D ?R init" if h: "htype ?f \<noteq> PB_HTYPE_REPEATED"
    proof -
      have r: "region ?p (unat (data_size ?f)) \<subseteq> ?R"
        using reg(1) [OF h] region_prefix [OF elem_need_ge, of ?p ?f] by blast
      show ?thesis
      proof (cases "ltype ?f = PB_LTYPE_SUBMESSAGE")
        case True
        then have "heap_ok D (region ?p (unat (data_size ?f))) (pb_message_set_to_defaults n E (fields_of E (fptr ?f)) ?p)"
          using parts(4) reg(5) Suc.prems(2,3) r by (intro Suc.IH) blast+
        from heap_ok_mono [OF this r] show ?thesis
          using True parts(3) unfolding init_def pb_message_set_to_defaults_def heap_ok_def
          by (simp add: sub_fields_def)
      next
        case False
        then show ?thesis
          using c_memset0_ok [OF r Suc.prems(3)] c_memcpy_ok [OF r Suc.prems(3) parts(5)]
          unfolding init_def by (cases "fptr ?f = 0") simp_all
      qed
    qed
    let ?std = "static_to_default (each_field (pb_field_set_to_default n E)) E ?f (iter_at flds dest k)"
    consider (has) "htype ?f = PB_HTYPE_OPTIONAL" "?q \<noteq> ?p"
      | (count) "htype ?f = PB_HTYPE_REPEATED \<or> htype ?f = PB_HTYPE_ONEOF"
      | (plain) "\<not> (htype ?f = PB_HTYPE_OPTIONAL \<and> ?q \<noteq> ?p)" "\<not> (htype ?f = PB_HTYPE_REPEATED \<or> htype ?f = PB_HTYPE_ONEOF)"
      by blast
    then have "heap_ok D ?R ?std"
    proof cases
      case has
      then have "?std = (\<lambda>h. Option.bind (put_bool ?q False h) init)"
        unfolding static_to_default_def init_def Let_def iter_at_simps by (intro ext) (simp add: psize_addr_def)
      then show ?thesis using has init put_bool_ok [OF reg(3) Suc.prems(3)] by (simp add: heap_ok_bind)
    next
      case count
      then have "?std = put_u32 ?q 0"
        by (intro ext) (auto simp: static_to_default_def psize_addr_def Let_def)
      then show ?thesis using put_u32_ok [OF reg(4) Suc.prems(3)] count by simp
    next
      case plain
      then have "?std = init"
        unfolding static_to_default_def init_def Let_def iter_at_simps by (intro ext) auto
      then show ?thesis using init plain by simp
    qed
    then show ?thesis using k len ty by (simp add: heap_ok_def)
  qed
  then show ?case
    unfolding pb_message_set_to_defaults_def by (rule each_field_ok [OF wf Suc.prems(2)])
qed simp

section \<open>Release of static messages\<close>

text \<open>A static message owns no heap blocks: releasing it returns and changes nothing.\<close>

lemma release_items_id:
  "(\<And>i. i < k \<Longrightarrow> rel (p + int (i * unat ds)) h = Some h) \<Longrightarrow> release_items rel ds k p h = Some h"
proof (induction k arbitrary: p)
  case (Suc k)
  have "rel p h = Some h" using Suc.prems [of 0] by simp
  moreover have "release_items rel ds k (p + uint ds) h = Some h"
    by (rule Suc.IH) (use Suc.prems [of "Suc i" for i] in \<open>simp add: add.assoc\<close>)
  ultimately show ?case by simp
qed simp

lemma each_field_id:
  assumes "wf_table flds" "0 < dest" "\<And>k. k < nfields flds \<Longrightarrow> body (iter_at flds dest k) h = Some h"
  shows "each_field body flds dest h = Some h"
proof -
  have "run_list (\<lambda>it h. map_option (Pair True) (body it h)) (map (iter_at flds dest) ks) h = Some (True, h)"
    if "\<forall>k \<in> set ks. k < nfields flds" for ks
    using that assms(3) by (induction ks) auto
  from this [of "[0..<nfields flds]"] show ?thesis
    using assms(1,2) unfolding each_field_def by (cases "nfields flds = 0") (auto simp: iter_begin_at do_fields_run)
qed

lemma item_region:
  assumes "i < c" shows "region (p + int (i * d)) d \<subseteq> region p (d * c)"
proof (rule region_part)
  have "Suc i * d \<le> c * d" using assms by (intro mult_le_mono1) simp
  then show "i * d + d \<le> d * c" by (simp add: mult.commute add.commute)
qed

lemma release_ok:
  assumes "static_ok n E D flds sz" "0 < dest" "region dest sz \<subseteq> D" "dom (hmem h) = D"
  shows "k < max 1 (nfields flds) \<Longrightarrow> pb_release_single_field n E (iter_at flds dest k) h = Some h"
    and "pb_release n E flds dest h = Some h"
proof -
  have single: "pb_release_single_field n E (iter_at flds dest k) h = Some h"
    if "static_ok n E D flds sz" "0 < dest" "region dest sz \<subseteq> D" "k < max 1 (nfields flds)" for flds sz dest k
    using that
  proof (induction n arbitrary: flds sz dest k)
    case (Suc n)
    let ?f = "flds ! k" and ?p = "dest + field_offset flds k" and ?q = "dest + size_ptr_offset flds k"
    let ?it = "iter_at flds dest k"
    have ok: "static_field_ok (static_ok n E D) E D flds sz k" using Suc.prems by simp
    note reg = static_field_regions [OF ok Suc.prems(3)] and parts = static_field_parts [OF ok]
    have wf: "wf_table flds" using Suc.prems(1) by simp
    have f: "it_field ?it = Some ?f"
      using wf_table_length [OF wf] Suc.prems(4) by (intro it_field_iter_at) (simp split: if_splits)
    have q: "\<exists>w. load_u32 (hmem h) ?q = Some w" if "htype ?f = PB_HTYPE_REPEATED \<or> htype ?f = PB_HTYPE_ONEOF"
      using load_u32_ok [of ?q D h] reg(4) [OF that] Suc.prems(3) assms(4) by blast
    obtain skip where skip: "not_current ?f ?it h = Some skip"
      using q by (cases "htype ?f = PB_HTYPE_ONEOF") (auto simp: not_current_def psize_addr_def)
    have sub: "release_submsg (release_message (pb_release_single_field n E)) E ?f ?it h = Some h"
      if lt: "ltype ?f = PB_LTYPE_SUBMESSAGE"
    proof -
      let ?flds = "fields_of E (fptr ?f)" and ?d = "unat (data_size ?f)"
      have good: "static_ok n E D ?flds ?d" using parts(4) lt by blast
      have rel: "release_message (pb_release_single_field n E) ?flds p h = Some h"
        if "0 < p" "region p ?d \<subseteq> D" for p
      proof -
        have "wf_table ?flds" using good by (cases n) simp_all
        then show ?thesis
          unfolding release_message_def using that Suc.IH [OF good that]
          by (auto intro!: each_field_id)
      qed
      have "\<exists>c. submsg_count ?f ?it h = Some c \<and>
          (if htype ?f = PB_HTYPE_REPEATED then c \<le> array_size ?f else c = 1)"
        using q parts(1) by (auto simp: submsg_count_def psize_addr_def not_less)
      then obtain c where c: "submsg_count ?f ?it h = Some c"
          "if htype ?f = PB_HTYPE_REPEATED then c \<le> array_size ?f else c = 1" by blast
      have "release_message (pb_release_single_field n E) ?flds (?p + int (i * ?d)) h = Some h" if "i < unat c" for i
      proof (rule rel)
        show "0 < ?p + int (i * ?d)" using reg(5) Suc.prems(2) by (simp add: add_pos_nonneg)
        show "region (?p + int (i * ?d)) ?d \<subseteq> D"
        proof (cases "htype ?f = PB_HTYPE_REPEATED")
          case True
          then have "i < unat (array_size ?f)" using c(2) that by (simp add: word_le_nat_alt)
          from item_region [OF this] reg(2) [OF True] Suc.prems(3) show ?thesis by (rule order_trans [OF order_trans])
        next
          case False
          then have "i = 0" using c(2) that by simp
          then show ?thesis
            using reg(1) [OF False] region_prefix [OF elem_need_ge, of ?p ?f] Suc.prems(3) by auto
        qed
      qed
      then have "release_items (release_message (pb_release_single_field n E) ?flds) (data_size ?f) (unat c) ?p h = Some h"
        by (rule release_items_id)
      then show ?thesis
        using c(1) parts(1,3) lt by (simp add: release_submsg_def sub_fields_def)
    qed
    show ?case
      using f skip sub parts(1) known_ltype_not_extension [OF parts(2)] by simp
  qed simp
  then show "k < max 1 (nfields flds) \<Longrightarrow> pb_release_single_field n E (iter_at flds dest k) h = Some h"
    using assms by blast
  have "wf_table flds" using assms(1) by (cases n) simp_all
  then show "pb_release n E flds dest h = Some h"
    unfolding pb_release_def release_message_def using assms single by (auto intro!: each_field_id)
qed

end
