(* ===== verification/Nanopb_Decode_Total.thy ===== *)
theory Nanopb_Decode_Total
  imports Nanopb_Decode_Safe
begin

text \<open>
  The field decoders and the field loop on static messages. A decoder of nested messages with the
  contract \<open>nested_decoder\<close> gives the contract for the message around it; \<open>pb_decode\<close> and
  \<open>pb_decode_noinit\<close> are shown to meet it for every nesting depth.
\<close>

section \<open>Progress of element decoders\<close>

definition eats_dec :: "decoder \<Rightarrow> bool" where
  "eats_dec d \<longleftrightarrow> (\<forall>s h s' h'. ibuf s h \<longrightarrow> d s h = Some (True, s', h') \<longrightarrow> unat (bytes_left s') < unat (bytes_left s))"

definition keeps_left :: "decoder \<Rightarrow> bool" where
  "keeps_left d \<longleftrightarrow> (\<forall>s h s' h'. d s h = Some (True, s', h') \<longrightarrow> bytes_left s' = bytes_left s)"

lemma eats_val_do: "eats f \<Longrightarrow> (\<And>v. keeps_left (k v)) \<Longrightarrow> eats_dec (\<lambda>s h. val_do (f s h) k)"
  unfolding eats_dec_def eats_def keeps_left_def val_do_def by (fastforce split: option.splits)

lemma keeps_left_heap: "keeps_left (\<lambda>s h. Option.bind (f h) (\<lambda>h. Some (b, s, h)))"
  by (auto simp: keeps_left_def bind_eq_Some_conv)

lemma keeps_left_finish:
  "keeps_left (\<lambda>s h. Option.bind (f h) (\<lambda>h. if P then Some (False, is_set_error s e, h) else Some (True, s, h)))"
  by (auto simp: keeps_left_def bind_eq_Some_conv split: if_splits)

lemma keeps_left_if: "keeps_left f \<Longrightarrow> keeps_left g \<Longrightarrow> keeps_left (\<lambda>s h. if P then f s h else g s h)"
  by (cases P) simp_all

lemma keeps_left_error: "keeps_left (\<lambda>s h. Some (False, is_set_error s e, h))"
  by (simp add: keeps_left_def)

lemma keeps_left_stores: "keeps_left (store_signed ds dest v)" "keeps_left (store_unsigned ds dest v)"
  unfolding store_signed_def Let_def store_unsigned_def
  by (intro keeps_left_if keeps_left_finish keeps_left_error)+

lemma keeps_left_fixed: "keeps_left (\<lambda>s h. if P then None else map_option (\<lambda>h. (True, s, h)) (f h))"
  by (auto simp: keeps_left_def split: if_splits)

lemma packable_cases:
  assumes "known_ltype lt" "lt \<le> PB_LTYPE_LAST_PACKABLE"
  shows "lt \<in> set [PB_LTYPE_BOOL, PB_LTYPE_VARINT, PB_LTYPE_UVARINT, PB_LTYPE_SVARINT, PB_LTYPE_FIXED32, PB_LTYPE_FIXED64]"
  using assms by (auto simp: known_ltype_def pb_type_consts)

lemma eats_packable:
  assumes "known_ltype lt" "lt \<le> PB_LTYPE_LAST_PACKABLE"
  shows "eats_dec (PB_DECODERS decs E lt f dest)"
proof -
  have "eats_dec (pb_dec_bool E f dest)" "eats_dec (pb_dec_varint E f dest)" "eats_dec (pb_dec_uvarint E f dest)"
    "eats_dec (pb_dec_svarint E f dest)" "eats_dec (pb_dec_fixed32 E f dest)" "eats_dec (pb_dec_fixed64 E f dest)"
    unfolding pb_dec_bool_def pb_dec_varint_def pb_dec_uvarint_def pb_dec_svarint_def pb_dec_fixed32_def pb_dec_fixed64_def
      pb_decode_fixed32_def pb_decode_fixed64_def Let_def
    by (intro eats_val_do eats_pb_decode_varint32 eats_pb_decode_varint eats_pb_decode_svarint eats_pb_read_local
        keeps_left_stores keeps_left_heap keeps_left_fixed; simp)+
  then show ?thesis using packable_cases [OF assms] by (auto simp: PB_DECODERS_def)
qed

section \<open>Substreams\<close>

lemma confined_substream:
  assumes "confined D R dec"
  shows "confined D R (\<lambda>s h. val_do (pb_make_string_substream E s h) (\<lambda>sub s h. on_substream E dec sub s h))"
proof (rule confinedI)
  fix s h assume s: "ibuf s h" "dom (hmem h) = D"
  obtain v s1 where mk: "pb_make_string_substream E s h = Some (v, s1, h)"
    "case v of None \<Rightarrow> consumed s s1
     | Some sub \<Rightarrow> ibuf sub h \<and> is_callback s1 = IC_buf_read \<and> is_state s1 = is_state sub \<and>
         unat (bytes_left sub) + unat (bytes_left s1) < unat (bytes_left s) \<and>
         stream_end sub + int (unat (bytes_left s1)) = stream_end s"
    using make_substream_total [OF s(1), of E] by blast
  show "\<exists>ok s' h'. val_do (pb_make_string_substream E s h) (\<lambda>sub s h. on_substream E dec sub s h) = Some (ok, s', h') \<and>
      after ok s s' \<and> frame R h h'"
  proof (cases v)
    case None
    then show ?thesis using mk by (auto simp: val_do_def intro: after_consumed)
  next
    case (Some sub)
    then have sub: "ibuf sub h" "is_callback s1 = IC_buf_read" "unat (bytes_left s1) \<le> unat (bytes_left s)"
      "stream_end sub + int (unat (bytes_left s1)) = stream_end s"
      using mk(2) by auto
    from assms sub(1) s(2) obtain ok sub' h' where d: "dec sub h = Some (ok, sub', h')" "after ok sub sub'" "frame R h h'"
      by (rule confinedD)
    let ?t = "s1\<lparr>is_state := stream_end sub', is_errmsg := is_errmsg sub'\<rparr>"
    have cb: "is_callback sub' = IC_buf_read" using d(2) sub(1) by (simp add: after_def ibuf_def)
    have "val_do (pb_make_string_substream E s h) (\<lambda>sub s h. on_substream E dec sub s h) = Some (ok, ?t, h')"
      using mk(1) Some d(1) close_substream_cb [OF cb, of E s1 h'] by (simp add: val_do_def on_substream_def and_then_def)
    moreover have "after ok s ?t"
      using sub(2-4) s(1) d(2) by (auto simp: after_def consumed_def stream_end_def ibuf_def word_le_nat_alt)
    ultimately show ?thesis using d(3) by blast
  qed
qed

section \<open>Decoders with a counter\<close>

definition fconfined :: "addr set \<Rightarrow> addr set \<Rightarrow> field_decoder \<Rightarrow> bool" where
  "fconfined D R fd \<longleftrightarrow>
     (\<forall>fc s h. ibuf s h \<longrightarrow> dom (hmem h) = D \<longrightarrow>
        (\<exists>ok s' h' fc'. fd fc s h = Some (ok, s', h', fc') \<and> after ok s s' \<and> frame R h h'))"

lemma fconfinedI:
  assumes "\<And>fc s h. ibuf s h \<Longrightarrow> dom (hmem h) = D \<Longrightarrow>
    \<exists>ok s' h' fc'. fd fc s h = Some (ok, s', h', fc') \<and> after ok s s' \<and> frame R h h'"
  shows "fconfined D R fd"
  using assms by (simp add: fconfined_def)

lemma fconfinedD:
  assumes "fconfined D R fd" "ibuf s h" "dom (hmem h) = D"
  obtains ok s' h' fc' where "fd fc s h = Some (ok, s', h', fc')" "after ok s s'" "frame R h h'"
  using assms unfolding fconfined_def by blast

lemma fconfined_with_fc: "confined D R d \<Longrightarrow> fconfined D R (\<lambda>fc s h. with_fc (g fc) (d s h))"
  unfolding fconfined_def confined_def with_fc_def by fastforce

text \<open>A counter that is a member of the structure, or the local.\<close>

definition counter_ok :: "addr set \<Rightarrow> psize \<Rightarrow> bool" where
  "counter_ok R p \<longleftrightarrow> (case p of PSMem a \<Rightarrow> region a 4 \<subseteq> R | PSLocal \<Rightarrow> True)"

lemma read_count_ok: "counter_ok R p \<Longrightarrow> R \<subseteq> dom (hmem h) \<Longrightarrow> \<exists>c. read_count p fc h = Some c"
  using load_u32_ok [of _ "dom (hmem h)" h] by (auto simp: counter_ok_def read_count_def split: psize.splits)

lemma write_count_ok:
  assumes "counter_ok R p" "R \<subseteq> D" "dom (hmem h) = D"
  shows "\<exists>fc' h'. write_count p v fc h = Some (fc', h') \<and> frame R h h' \<and> dom (hmem h') = D"
proof (cases p)
  case (PSMem a)
  then have "heap_ok D R (put_u32 a v)" using assms(1,2) by (intro put_u32_ok) (simp_all add: counter_ok_def)
  then obtain h' where "put_u32 a v h = Some h'" "frame R h h'" "dom (hmem h') = D" using assms(3) by (rule heap_okD)
  then show ?thesis using PSMem by (simp add: write_count_def)
qed (use assms in \<open>simp add: write_count_def\<close>)

lemma fconfined_after_count:
  assumes "counter_ok R p" "R \<subseteq> D" "\<And>c. fconfined D R (k c)"
  shows "fconfined D R (\<lambda>fc s h. Option.bind (read_count p fc h) (\<lambda>c. k c fc s h))"
proof (rule fconfinedI)
  fix fc s h assume s: "ibuf s h" "dom (hmem h) = D"
  obtain c where "read_count p fc h = Some c" using read_count_ok [OF assms(1)] assms(2) s(2) by blast
  moreover obtain ok s' h' fc' where "k c fc s h = Some (ok, s', h', fc')" "after ok s s'" "frame R h h'"
    using assms(3) s by (rule fconfinedD)
  ultimately show "\<exists>ok s' h' fc'. Option.bind (read_count p fc h) (\<lambda>c. k c fc s h) = Some (ok, s', h', fc') \<and>
      after ok s s' \<and> frame R h h'" by auto
qed

lemma fconfined_after_write:
  assumes "counter_ok R p" "R \<subseteq> D" "fconfined D R k"
  shows "fconfined D R (\<lambda>fc s h. Option.bind (write_count p v fc h) (\<lambda>(fc, h). k fc s h))"
proof (rule fconfinedI)
  fix fc s h assume s: "ibuf s h" "dom (hmem h) = D"
  obtain fc1 h1 where w: "write_count p v fc h = Some (fc1, h1)" "frame R h h1" "dom (hmem h1) = D"
    using write_count_ok [OF assms(1,2) s(2)] by blast
  obtain ok s' h' fc' where "k fc1 s h1 = Some (ok, s', h', fc')" "after ok s s'" "frame R h1 h'"
    using assms(3) frame_ibuf [OF w(2) s(1)] w(3) by (rule fconfinedD)
  then show "\<exists>ok s' h' fc'. Option.bind (write_count p v fc h) (\<lambda>(fc, h). k fc s h) = Some (ok, s', h', fc') \<and>
      after ok s s' \<and> frame R h h'" using w by (auto intro: frame_trans)
qed

lemma fconfined_after_heap:
  assumes "heap_ok D R f" "fconfined D R k"
  shows "fconfined D R (\<lambda>fc s h. Option.bind (f h) (\<lambda>h. k fc s h))"
proof (rule fconfinedI)
  fix fc s h assume s: "ibuf s h" "dom (hmem h) = D"
  from assms(1) s(2) obtain h1 where w: "f h = Some h1" "frame R h h1" "dom (hmem h1) = D" by (rule heap_okD)
  obtain ok s' h' fc' where "k fc s h1 = Some (ok, s', h', fc')" "after ok s s'" "frame R h1 h'"
    using assms(2) frame_ibuf [OF w(2) s(1)] w(3) by (rule fconfinedD)
  then show "\<exists>ok s' h' fc'. Option.bind (f h) (\<lambda>h. k fc s h) = Some (ok, s', h', fc') \<and> after ok s s' \<and> frame R h h'"
    using w by (auto intro: frame_trans)
qed

lemma bind_map_Pair: "Option.bind (map_option (Pair a) x) (\<lambda>(a, b). g a b) = Option.bind x (g a)"
  by (cases x) simp_all

lemma fconfined_error: "fconfined D R (\<lambda>fc s h. Some (b, is_set_error s e, h, g fc))"
  by (rule fconfinedI) auto

section \<open>Arrays\<close>

text \<open>The item an in-range counter names.\<close>

lemma item_at_inside:
  assumes "c < array_size f" "unat (data_size f) * unat (array_size f) < 2 ^ 32"
  shows "item_at p f c = p + int (unat c * unat (data_size f))"
    and "region (item_at p f c) (unat (data_size f)) \<subseteq> region p (unat (data_size f) * unat (array_size f))"
proof -
  have c: "unat c < unat (array_size f)" using assms(1) by (simp add: word_less_nat_alt)
  then have "unat (data_size f) * unat c \<le> unat (data_size f) * unat (array_size f)" by (intro mult_le_mono2) simp
  then have lt: "unat (data_size f) * unat c < 2 ^ 32" using assms(2) by (rule le_less_trans)
  have "unat (data_size f * c) = unat (data_size f) * unat c mod 2 ^ 32" by (simp add: unat_word_ariths)
  then have "unat (data_size f * c) = unat (data_size f) * unat c" unfolding mod_less [OF lt] .
  then have "uint (data_size f * c) = int (unat (data_size f) * unat c)" by (metis uint_nat)
  then show e: "item_at p f c = p + int (unat c * unat (data_size f))" by (simp add: item_at_def mult.commute)
  show "region (item_at p f c) (unat (data_size f)) \<subseteq> region p (unat (data_size f) * unat (array_size f))"
    unfolding e using item_region [OF c] .
qed

text \<open>The packed loop returns because every item takes at least one byte.\<close>

lemma static_packed_loop_total:
  assumes cnt: "counter_ok R psz" "R \<subseteq> D"
    and func: "\<And>c. c < array_size f \<Longrightarrow> confined D R (func (item_at pdata f c))" "\<And>p. eats_dec (func p)"
  shows "fconfined D R (static_packed_loop func f pdata psz)"
proof -
  have "\<forall>fc h. ibuf s h \<longrightarrow> dom (hmem h) = D \<longrightarrow> (\<exists>ok s' h' fc'.
      static_packed_loop func f pdata psz fc s h = Some (ok, s', h', fc') \<and> after ok s s' \<and> frame R h h')" for s
  proof (induction "unat (bytes_left s)" arbitrary: s rule: less_induct)
    case less
    show ?case
    proof (intro allI impI)
      fix fc h assume s: "ibuf s h" "dom (hmem h) = D"
      obtain c where c: "read_count psz fc h = Some c" using read_count_ok [OF cnt(1)] cnt(2) s(2) by blast
      show "\<exists>ok s' h' fc'. static_packed_loop func f pdata psz fc s h = Some (ok, s', h', fc') \<and> after ok s s' \<and> frame R h h'"
      proof (cases "bytes_left s = 0 \<or> \<not> c < array_size f")
        case True
        then show ?thesis using c by (subst static_packed_loop.simps) auto
      next
        case False
        then have lt: "bytes_left s \<noteq> 0" "c < array_size f" by simp_all
        from func(1) [OF lt(2)] s obtain ok s1 h1 where d: "func (item_at pdata f c) s h = Some (ok, s1, h1)" "after ok s s1"
          "frame R h h1" "dom (hmem h1) = D" "ok \<longrightarrow> ibuf s1 h1" by (rule confinedD) blast
        show ?thesis
        proof (cases ok)
          case False
          then show ?thesis using c d(1-3) lt by (subst static_packed_loop.simps) auto
        next
          case True
          obtain c' where c': "read_count psz fc h1 = Some c'" using read_count_ok [OF cnt(1)] cnt(2) d(4) by blast
          obtain fc2 h2 where w: "write_count psz (c' + 1) fc h1 = Some (fc2, h2)" "frame R h1 h2" "dom (hmem h2) = D"
            using write_count_ok [OF cnt d(4)] by blast
          have "unat (bytes_left s1) < unat (bytes_left s)"
            using func(2) [of "item_at pdata f c"] s(1) d(1) True by (auto simp: eats_dec_def)
          from less.hyps [OF this] obtain ok' s' h' fc' where
            "static_packed_loop func f pdata psz fc2 s1 h2 = Some (ok', s', h', fc')" "after ok' s1 s'" "frame R h2 h'"
            using frame_ibuf [OF w(2) d(5) [rule_format, OF True]] w(3) by blast
          moreover have "consumed s s1" using d(2) True by (simp add: after_def)
          ultimately show ?thesis
            using c d(1) lt True c' w(1) frame_trans [OF d(3) frame_trans [OF w(2)]]
            by (subst static_packed_loop.simps) (simp add: after_trans)
        qed
      qed
    qed
  qed
  then show ?thesis by (simp add: fconfined_def)
qed

lemma decode_static_packed_total:
  assumes "fconfined D R (static_packed_loop func f pdata psz)"
  shows "fconfined D R (decode_static_packed E func f pdata psz)"
proof (rule fconfinedI)
  fix fc s h assume s: "ibuf s h" "dom (hmem h) = D"
  obtain v s1 where mk: "pb_make_string_substream E s h = Some (v, s1, h)"
    "case v of None \<Rightarrow> consumed s s1
     | Some sub \<Rightarrow> ibuf sub h \<and> is_callback s1 = IC_buf_read \<and> is_state s1 = is_state sub \<and>
         unat (bytes_left sub) + unat (bytes_left s1) < unat (bytes_left s) \<and>
         stream_end sub + int (unat (bytes_left s1)) = stream_end s"
    using make_substream_total [OF s(1), of E] by blast
  show "\<exists>ok s' h' fc'. decode_static_packed E func f pdata psz fc s h = Some (ok, s', h', fc') \<and> after ok s s' \<and> frame R h h'"
  proof (cases v)
    case None
    then show ?thesis using mk by (auto simp: decode_static_packed_def intro: after_consumed)
  next
    case (Some sub)
    then have sub: "ibuf sub h" "is_callback s1 = IC_buf_read" "unat (bytes_left s1) \<le> unat (bytes_left s)"
      "stream_end sub + int (unat (bytes_left s1)) = stream_end s"
      using mk(2) by auto
    obtain ok sub' h' fc' where d: "static_packed_loop func f pdata psz fc sub h = Some (ok, sub', h', fc')" "after ok sub sub'"
      "frame R h h'"
      using assms sub(1) s(2) by (rule fconfinedD)
    have cb: "is_callback sub' = IC_buf_read" "is_callback s = IC_buf_read" using d(2) sub(1) s(1) by (simp_all add: after_def ibuf_def)
    let ?t = "s1\<lparr>is_state := stream_end sub', is_errmsg := is_errmsg sub'\<rparr>"
    have "decode_static_packed E func f pdata psz fc s h =
        (if bytes_left sub' \<noteq> 0 then Some (False, is_set_error s1 ''array overflow'', h', fc') else Some (ok, ?t, h', fc'))"
      using mk(1) Some d(1) close_substream_cb [OF cb(1), of E s1 h']
      by (simp add: decode_static_packed_def with_fc_def and_then_def)
    moreover have "after ok s ?t" "after False s s1"
      using sub(2-4) s(1) d(2) by (auto simp: after_def consumed_def stream_end_def ibuf_def word_le_nat_alt)
    ultimately show ?thesis using d(3) by (cases "bytes_left sub' = 0") auto
  qed
qed

section \<open>Nested messages\<close>

text \<open>
  What the field decoders rely on: the decoder of nested messages is confined to the structure it
  is given, whenever the table is good for the size of the structure.
\<close>

locale nested_decoder =
  fixes decs :: msg_decoder and good :: "pb_field list \<Rightarrow> nat \<Rightarrow> bool" and D :: "addr set"
  assumes nested: "good flds sz \<Longrightarrow> 0 < dest \<Longrightarrow> region dest sz \<subseteq> D \<Longrightarrow> confined D (region dest sz) (decs init flds dest)"
begin

text \<open>Every element decoder is confined to the element.\<close>

lemma element_confined:
  assumes f: "atype f = PB_ATYPE_STATIC" "known_ltype (ltype f)"
    and sub: "ltype f = PB_LTYPE_SUBMESSAGE \<Longrightarrow> fptr f \<noteq> 0 \<and> good (fields_of E (fptr f)) (unat (data_size f))"
    and p: "0 < p" "region p (elem_need f) \<subseteq> R" "R \<subseteq> D"
  shows "confined D R (PB_DECODERS decs E (ltype f) f p)"
proof -
  have ds: "region p (unat (data_size f)) \<subseteq> R" using p(2) region_prefix [OF elem_need_ge, of p f] by blast
  have "region p n \<subseteq> R" if "n \<le> elem_need f" for n using region_prefix [OF that] p(2) by blast
  then have need: "ltype f = PB_LTYPE_BOOL \<Longrightarrow> region p 1 \<subseteq> R" "ltype f = PB_LTYPE_FIXED32 \<Longrightarrow> region p 4 \<subseteq> R"
    "ltype f = PB_LTYPE_FIXED64 \<Longrightarrow> region p 8 \<subseteq> R"
    by (simp_all add: elem_need_def)
  have message: "confined D R (pb_dec_submessage decs E f p)" if "ltype f = PB_LTYPE_SUBMESSAGE"
  proof -
    have "confined D R (decs (htype f = PB_HTYPE_REPEATED) (fields_of E (fptr f)) p)"
      using sub [OF that] p(1,3) ds by (intro confined_mono [OF nested ds]) auto
    then show ?thesis
      using sub [OF that] confined_substream unfolding pb_dec_submessage_def by simp
  qed
  note all = confined_pb_dec_bool [OF _ p(3)] confined_varints [OF ds p(3)] confined_pb_decode_fixed32 [OF _ p(3)]
    confined_pb_decode_fixed64 [OF _ p(3)] confined_pb_dec_bytes [OF ds p(3) f(1)] confined_pb_dec_string [OF ds p(3) f(1)]
    confined_pb_dec_fixed_length_bytes [OF ds p(3)]
  show ?thesis
    using f(2) all need message unfolding known_ltype_def
    by (auto simp: PB_DECODERS_def pb_dec_fixed32_def [abs_def] pb_dec_fixed64_def [abs_def])
qed

end

section \<open>Iterators of the decoder\<close>

text \<open>The iterator stands on a field; on a repeated field its size pointer may be the local counter.\<close>

definition decoder_iter :: "pb_field list \<Rightarrow> addr \<Rightarrow> pb_field_iter \<Rightarrow> bool" where
  "decoder_iter flds dest it \<longleftrightarrow>
     (\<exists>k < max 1 (nfields flds). it = iter_at flds dest k \<or>
        (it = (iter_at flds dest k)\<lparr>pSize := PSLocal\<rparr> \<and> htype (flds ! k) = PB_HTYPE_REPEATED))"

definition static_table :: "pb_field list \<Rightarrow> bool" where
  "static_table flds \<longleftrightarrow> wf_table flds \<and> last flds = PB_LAST_FIELD \<and>
     (\<forall>k < max 1 (nfields flds). ltype (flds ! k) \<noteq> PB_LTYPE_EXTENSION)"

lemma decoder_iter_at: "k < max 1 (nfields flds) \<Longrightarrow> decoder_iter flds dest (iter_at flds dest k)"
  by (auto simp: decoder_iter_def)

lemma static_table_empty:
  assumes "static_table flds" "nfields flds = 0"
  shows "flds = [PB_LAST_FIELD]"
proof -
  have "length flds = 1" using assms wf_table_length by (auto simp: static_table_def)
  then show ?thesis using assms(1) by (cases flds) (auto simp: static_table_def)
qed

lemma decoder_iter_field:
  assumes "static_table flds" "decoder_iter flds dest it"
  obtains k where "k < max 1 (nfields flds)" "it_start it = flds" "it_pos it = k" "it_field it = Some (flds ! k)"
    "pData it = dest + field_offset flds k"
    "pSize it = PSMem (dest + size_ptr_offset flds k) \<or> pSize it = PSLocal \<and> htype (flds ! k) = PB_HTYPE_REPEATED"
    "htype (flds ! k) \<noteq> PB_HTYPE_REPEATED \<longrightarrow> it = iter_at flds dest k"
proof -
  from assms(2) obtain k where k: "k < max 1 (nfields flds)" "it = iter_at flds dest k \<or>
      (it = (iter_at flds dest k)\<lparr>pSize := PSLocal\<rparr> \<and> htype (flds ! k) = PB_HTYPE_REPEATED)"
    unfolding decoder_iter_def by blast
  have "k < length flds" using k(1) assms(1) wf_table_length by (auto simp: static_table_def split: if_splits)
  then show thesis using that [of k] k by (auto simp: it_field_def)
qed

text \<open>Moving on from a repeated field does not look at the size pointer.\<close>

lemma iter_next_psize:
  assumes "wf_table flds" "k < nfields flds" "htype (flds ! k) = PB_HTYPE_REPEATED"
  shows "pb_field_iter_next ((iter_at flds dest k)\<lparr>pSize := x\<rparr>) = pb_field_iter_next (iter_at flds dest k)"
  using assms wf_table_length [OF assms(1)] wf_table_field [OF assms(1,2)]
  by (auto simp: pb_field_iter_next_def it_field_def Let_def split: option.splits)

lemma next_decoder_iter:
  assumes t: "static_table flds" and dest: "dest \<noteq> 0" and it: "decoder_iter flds dest it"
  shows "pb_field_iter_next it =
    Some (if Suc (it_pos it) < nfields flds then (True, iter_at flds dest (Suc (it_pos it))) else (False, iter_at flds dest 0))"
proof -
  have wf: "wf_table flds" using t by (simp add: static_table_def)
  from it obtain k where k: "k < max 1 (nfields flds)" "it = iter_at flds dest k \<or>
      (it = (iter_at flds dest k)\<lparr>pSize := PSLocal\<rparr> \<and> htype (flds ! k) = PB_HTYPE_REPEATED)"
    unfolding decoder_iter_def by blast
  show ?thesis
  proof (cases "nfields flds = 0")
    case True
    then have "flds = [PB_LAST_FIELD]" using static_table_empty t by blast
    then show ?thesis using k True
      by (auto simp: pb_field_iter_next_def it_field_def PB_LAST_FIELD_def PB_HTYPE_def pb_type_consts)
  next
    case False
    then show ?thesis using k iter_next_at [OF wf dest, of k] iter_next_psize [OF wf, of k] by auto
  qed
qed

lemma find_from:
  assumes t: "static_table flds" and dest: "dest \<noteq> 0" and k: "k < nfields flds"
  shows "\<exists>r k'. pb_field_iter_find_loop k tg (iter_at flds dest k) = Some (r, iter_at flds dest k') \<and> k' < nfields flds"
proof -
  have wf: "wf_table flds" using t by (simp add: static_table_def)
  let ?m = "find (field_matches flds tg) ([k..<nfields flds] @ [0..<k])"
  have "pb_field_iter_find_loop k tg (iter_at flds dest k) = Some (find_result flds dest k ?m)"
    using find_loop_from [OF wf dest order_refl k] .
  moreover have "\<exists>r k'. find_result flds dest k ?m = (r, iter_at flds dest k') \<and> k' < nfields flds"
  proof (cases ?m)
    case (Some j)
    then have "j \<in> set ([k..<nfields flds] @ [0..<k])" by (auto simp: find_Some_iff simp del: set_append)
    then show ?thesis using Some k by (auto simp: find_result_def)
  qed (use k in \<open>auto simp: find_result_def\<close>)
  ultimately show ?thesis by simp
qed

lemma find_decoder_iter:
  assumes t: "static_table flds" and dest: "dest \<noteq> 0" and it: "decoder_iter flds dest it"
  shows "\<exists>r it'. pb_field_iter_find it tg = Some (r, it') \<and> decoder_iter flds dest it'"
proof -
  obtain k where k: "k < max 1 (nfields flds)" "it_pos it = k" "it_field it = Some (flds ! k)"
    using t it by (rule decoder_iter_field)
  show ?thesis
  proof (cases "tag (flds ! k) = tg \<and> ltype (flds ! k) \<noteq> PB_LTYPE_EXTENSION")
    case True
    then show ?thesis
      using k it by (subst pb_field_iter_find_def, subst pb_field_iter_find_loop.simps) auto
  next
    case False
    let ?j = "if Suc k < nfields flds then Suc k else 0"
    have next1: "pb_field_iter_next it = Some (Suc k < nfields flds, iter_at flds dest ?j)"
      using next_decoder_iter [OF t dest it] k(2) by simp
    have step: "pb_field_iter_find it tg = (if ?j \<noteq> k then pb_field_iter_find_loop k tg (iter_at flds dest ?j) else Some (False, iter_at flds dest ?j))"
      using k False next1 by (subst pb_field_iter_find_def, subst pb_field_iter_find_loop.simps) auto
    show ?thesis
    proof (cases "?j = k")
      case True
      then show ?thesis using step k(1) by (auto intro!: decoder_iter_at)
    next
      case ne: False
      then have k': "k < nfields flds" using k(1) by (auto split: if_splits)
      have "pb_field_iter_find_loop k tg (iter_at flds dest k) = pb_field_iter_find_loop k tg (iter_at flds dest ?j)"
        using find_loop_step [of flds dest k k tg] t dest k' False ne by (auto simp: static_table_def field_matches_def Let_def)
      then show ?thesis using step ne find_from [OF t dest k', of tg] by (auto intro!: decoder_iter_at)
    qed
  qed
qed

text \<open>A table without extension ranges is searched in vain, and the search ends.\<close>

lemma find_extension_step:
  assumes "static_table flds" "dest \<noteq> 0" "i < nfields flds"
  shows "find_extension_loop k (iter_at flds dest i) =
     (let j = (if Suc i < nfields flds then Suc i else 0) in
      if j = k then Some (False, iter_at flds dest k) else find_extension_loop k (iter_at flds dest j))"
  using assms next_decoder_iter [OF assms(1,2), of "iter_at flds dest i"] wf_table_length [of flds]
  by (subst find_extension_loop.simps) (auto simp: static_table_def Let_def decoder_iter_at)

lemma find_extension_below:
  assumes "static_table flds" "dest \<noteq> 0" "k < nfields flds" "i < k"
  shows "find_extension_loop k (iter_at flds dest i) = Some (False, iter_at flds dest k)"
  using assms(4)
proof (induction "k - i" arbitrary: i)
  case (Suc d)
  then show ?case
    using find_extension_step [OF assms(1,2), of i k] assms(3) by (cases "Suc i = k") (simp_all add: Let_def)
qed simp

lemma find_extension_from:
  assumes "static_table flds" "dest \<noteq> 0" "k \<le> i" "i < nfields flds"
  shows "find_extension_loop k (iter_at flds dest i) = Some (False, iter_at flds dest k)"
  using assms(3,4)
proof (induction "nfields flds - i" arbitrary: i)
  case (Suc d)
  note step = find_extension_step [OF assms(1,2) Suc.prems(2), of k]
  show ?case
  proof (cases "Suc i < nfields flds")
    case True
    then show ?thesis using step Suc by (simp add: Let_def)
  next
    case False
    then show ?thesis
      using step find_extension_below [OF assms(1,2), of k 0] Suc.prems by (cases "k = 0") (simp_all add: Let_def)
  qed
qed simp

lemma find_extension_decoder_iter:
  assumes t: "static_table flds" and dest: "dest \<noteq> 0" and it: "decoder_iter flds dest it"
  shows "\<exists>it'. find_extension_field it = Some (False, it') \<and> decoder_iter flds dest it'"
proof -
  obtain k where k: "k < max 1 (nfields flds)" "it_pos it = k" "it_field it = Some (flds ! k)"
    using t it by (rule decoder_iter_field)
  let ?j = "if Suc k < nfields flds then Suc k else 0"
  have "ltype (flds ! k) \<noteq> PB_LTYPE_EXTENSION" using t k(1) by (simp add: static_table_def)
  then have step: "find_extension_field it =
      (if ?j \<noteq> k then find_extension_loop k (iter_at flds dest ?j) else Some (False, iter_at flds dest ?j))"
    using k next_decoder_iter [OF t dest it]
    by (subst find_extension_field_def, subst find_extension_loop.simps) auto
  have j: "decoder_iter flds dest (iter_at flds dest ?j)" by (rule decoder_iter_at) auto
  show ?thesis
  proof (cases "?j = k")
    case True
    then show ?thesis using step j by simp
  next
    case False
    then have k': "k < nfields flds" using k(1) by (auto split: if_splits)
    then have "find_extension_loop k (iter_at flds dest ?j) = Some (False, iter_at flds dest k)"
      using False find_extension_from [OF t dest, of k "Suc k"] find_extension_below [OF t dest k', of 0] by auto
    then show ?thesis using step False decoder_iter_at [OF k(1)] by simp
  qed
qed

lemma seek_end_total:
  assumes t: "static_table flds" and dest: "dest \<noteq> 0" and it: "decoder_iter flds dest it"
  shows "\<exists>req ty it'. seek_end it = Some (req, ty, it') \<and> decoder_iter flds dest it'"
  using it
proof (induction "nfields flds - it_pos it" arbitrary: it rule: less_induct)
  case less
  obtain k where k: "k < max 1 (nfields flds)" "it_pos it = k" "it_field it = Some (flds ! k)"
    using t less.prems by (rule decoder_iter_field)
  note next1 = next_decoder_iter [OF t dest less.prems]
  show ?case
  proof (cases "Suc k < nfields flds")
    case True
    then have "\<exists>req ty it'. seek_end (iter_at flds dest (Suc k)) = Some (req, ty, it') \<and> decoder_iter flds dest it'"
      using k by (intro less.hyps decoder_iter_at) auto
    then show ?thesis using next1 k True by (subst seek_end.simps) simp
  next
    case False
    have "decoder_iter flds dest (iter_at flds dest 0)" by (rule decoder_iter_at) simp
    then show ?thesis using next1 k False by (subst seek_end.simps) simp
  qed
qed

section \<open>Fields\<close>

lemma pb_decode_tag_range: "pb_decode_tag E s h = Some (Some (wt, tg), e, s', h') \<Longrightarrow> tg < 2 ^ 29"
proof -
  assume "pb_decode_tag E s h = Some (Some (wt, tg), e, s', h')"
  then obtain k :: u32 where "tg = drop_bit 3 k" by (auto simp: pb_decode_tag_def split: option.splits if_splits)
  then have "unat tg = drop_bit 3 (unat k)" by (simp only: unat_drop_bit_eq)
  then have "unat tg = unat k div 8" by (simp add: drop_bit_eq_div)
  then show ?thesis using unat_u32_lt [of k] by (simp add: word_less_nat_alt)
qed

lemma static_ok_table:
  assumes "static_ok (Suc n) E D flds sz"
  shows "static_table flds"
  using assms static_field_parts(2) known_ltype_not_extension unfolding static_table_def by (simp, blast)

lemma release_union_total:
  assumes ok: "static_ok (Suc n) E D flds sz" and dest: "0 < dest" "region dest sz \<subseteq> D" and h: "dom (hmem h) = D"
    and k: "k < nfields flds" "htype (flds ! k) = PB_HTYPE_ONEOF"
  shows "\<exists>ok s' k'. pb_release_union_field (Suc n) E (iter_at flds dest k) s h = Some (ok, s', iter_at flds dest k', h) \<and>
    k' < nfields flds \<and> consumed s s' \<and> (ibuf s h \<longrightarrow> ibuf s' h)"
proof -
  have t: "static_table flds" using ok by (rule static_ok_table)
  have d0: "dest \<noteq> 0" using dest(1) by simp
  have len: "length flds = Suc (nfields flds)" using t wf_table_length by (simp add: static_table_def)
  have field: "static_field_ok (static_ok n E D) E D flds sz j" if "j < nfields flds" for j using ok that by simp
  have "region (dest + size_ptr_offset flds k) 4 \<subseteq> D"
    using static_field_regions(4) [OF field [OF k(1)] dest(2)] k(2) dest(2) by blast
  then obtain old where old: "load_u32 (hmem h) (dest + size_ptr_offset flds k) = Some old" using load_u32_ok h by blast
  obtain r1 k1 where f1: "pb_field_iter_find (iter_at flds dest k) old = Some (r1, iter_at flds dest k1)" "k1 < nfields flds"
    using find_from [OF t d0 k(1), of old] by (auto simp: pb_field_iter_find_def)
  obtain r2 k2 where f2: "pb_field_iter_find (iter_at flds dest k1) (tag (flds ! k)) = Some (r2, iter_at flds dest k2)" "k2 < nfields flds"
    using find_from [OF t d0 f1(2), of "tag (flds ! k)"] by (auto simp: pb_field_iter_find_def)
  have rel: "pb_release_single_field (Suc n) E (iter_at flds dest k1) h = Some h"
    using release_ok(1) [OF ok dest h, of k1] f1(2) by simp
  have "atype (flds ! k2) = PB_ATYPE_STATIC" using static_field_parts(1) [OF field [OF f2(2)]] .
  then show ?thesis
    using old f1 f2 rel k(1) len
    by (cases "old = 0 \<or> old = tag (flds ! k)"; cases r1; cases r2)
      (auto simp: pb_release_union_field_def psize_addr_def Let_def simp del: pb_release_single_field.simps)
qed

locale static_decoder = nested_decoder decs "static_ok n E D" D
  for decs :: msg_decoder and n :: nat and E :: pb_env and D :: "addr set" +
  fixes flds :: "pb_field list" and sz :: nat and dest :: addr
  assumes table: "static_ok (Suc n) E D flds sz" and dest: "0 < dest" "region dest sz \<subseteq> D"
begin

lemma static_table: "static_table flds"
  using table by (rule static_ok_table)

lemma field_ok: "k < max 1 (nfields flds) \<Longrightarrow> static_field_ok (static_ok n E D) E D flds sz k"
  using table by simp

lemma element_ok:
  assumes "k < max 1 (nfields flds)" "0 < p" "region p (elem_need (flds ! k)) \<subseteq> region dest sz"
  shows "confined D (region dest sz) (PB_DECODERS decs E (ltype (flds ! k)) (flds ! k) p)"
proof -
  note parts = static_field_parts [OF field_ok [OF assms(1)]]
  show ?thesis using parts(3,4) assms(2,3) dest(2) by (intro element_confined parts(1,2)) auto
qed

lemma oneof_total:
  assumes k: "k < max 1 (nfields flds)" "htype (flds ! k) = PB_HTYPE_ONEOF"
  defines "f \<equiv> flds ! k" and "p \<equiv> dest + field_offset flds k" and "q \<equiv> PSMem (dest + size_ptr_offset flds k)"
  shows "fconfined D (region dest sz) (decode_static_oneof n E (PB_DECODERS decs E (ltype f) f) f p q)"
proof -
  let ?R = "region dest sz"
  note reg = static_field_regions [OF field_ok [OF k(1)] dest(2)] and parts = static_field_parts [OF field_ok [OF k(1)]]
  have cnt: "counter_ok ?R q" using reg(4) k(2) by (simp add: counter_ok_def q_def)
  have p: "0 < p" "region p (elem_need f) \<subseteq> ?R" using reg(1,5) k(2) dest(1) by (simp_all add: p_def f_def)
  have ds: "region p (unat (data_size f)) \<subseteq> ?R" using p(2) region_prefix [OF elem_need_ge, of p f] by blast
  have el: "confined D ?R (PB_DECODERS decs E (ltype f) f p)" using element_ok k(1) p unfolding f_def .
  have store: "fconfined D ?R (\<lambda>fc s h. Option.bind (write_count q (tag f) fc h)
      (\<lambda>(fc, h). with_fc fc (PB_DECODERS decs E (ltype f) f p s h)))"
    using fconfined_after_write [OF cnt dest(2) fconfined_with_fc [OF el, of "\<lambda>fc. fc"]] by simp
  show ?thesis
  proof (cases "ltype f = PB_LTYPE_SUBMESSAGE")
    case True
    have "heap_ok D ?R (\<lambda>h. Option.bind (c_memset0 p (unat (data_size f)) h)
        (\<lambda>h. pb_message_set_to_defaults n E (fields_of E (fptr f)) p h))"
      using parts(4) True p(1) ds dest(2) unfolding f_def [symmetric]
      by (intro heap_ok_bind c_memset0_ok heap_ok_mono [OF defaults_ok ds]) auto
    then have init: "heap_ok D ?R (\<lambda>h. if P then Option.bind (c_memset0 p (unat (data_size f)) h)
        (\<lambda>h. Option.bind (sub_fields E f) (\<lambda>flds. pb_message_set_to_defaults n E flds p h)) else Some h)" for P
      using parts(3) True by (cases P) (simp_all add: f_def sub_fields_def)
    have "fconfined D ?R (\<lambda>fc s h. Option.bind (read_count q fc h) (\<lambda>which.
        Option.bind (if which \<noteq> tag f then Option.bind (c_memset0 p (unat (data_size f)) h)
          (\<lambda>h. Option.bind (sub_fields E f) (\<lambda>flds. pb_message_set_to_defaults n E flds p h)) else Some h)
          (\<lambda>h. Option.bind (write_count q (tag f) fc h) (\<lambda>(fc, h). with_fc fc (PB_DECODERS decs E (ltype f) f p s h)))))"
      by (rule fconfined_after_count [OF cnt dest(2) fconfined_after_heap [OF init store]])
    then show ?thesis unfolding decode_static_oneof_def [abs_def] True by (simp only: simp_thms if_True Option.bind_assoc)
  next
    case False
    then show ?thesis using store by (simp add: decode_static_oneof_def [abs_def])
  qed
qed

lemma repeated_total:
  assumes k: "k < max 1 (nfields flds)" "htype (flds ! k) = PB_HTYPE_REPEATED"
    and q: "q = PSMem (dest + size_ptr_offset flds k) \<or> q = PSLocal"
  defines "f \<equiv> flds ! k" and "p \<equiv> dest + field_offset flds k"
  shows "ltype f \<le> PB_LTYPE_LAST_PACKABLE \<Longrightarrow>
      fconfined D (region dest sz) (decode_static_packed E (PB_DECODERS decs E (ltype f) f) f p q)"
    and "fconfined D (region dest sz) (decode_static_item (PB_DECODERS decs E (ltype f) f) f p q)"
proof -
  let ?R = "region dest sz" and ?func = "PB_DECODERS decs E (ltype f) f"
  note reg = static_field_regions [OF field_ok [OF k(1)] dest(2)] and parts = static_field_parts [OF field_ok [OF k(1)]]
  have cnt: "counter_ok ?R q" using reg(4) k(2) q by (auto simp: counter_ok_def)
  have all: "region p (unat (data_size f) * unat (array_size f)) \<subseteq> ?R" using reg(2) k(2) by (simp add: f_def p_def)
  have small: "unat (data_size f) * unat (array_size f) < 2 ^ 32"
  proof -
    have "0 \<le> field_offset flds k" "field_offset flds k + int (unat (data_size f) * unat (array_size f)) \<le> int sz"
      using field_ok [OF k(1)] k(2) unfolding static_field_ok_def Let_def f_def by blast+
    moreover have "sz < 2 ^ 32" using table by simp
    ultimately show ?thesis by linarith
  qed
  have item: "confined D ?R (?func (item_at p f c))" if "c < array_size f" for c
  proof -
    have "0 < p" using reg(5) dest(1) by (simp add: p_def)
    then have "0 < item_at p f c" using item_at_inside(1) [OF that small] by (simp add: add_pos_nonneg)
    moreover have "region (item_at p f c) (unat (data_size f)) \<subseteq> ?R" using item_at_inside(2) [OF that small] all by blast
    then have "region (item_at p f c) (elem_need f) \<subseteq> ?R"
      using parts(6) k(2) region_prefix [of "elem_need f" "unat (data_size f)" "item_at p f c"] by (auto simp: f_def)
    ultimately show ?thesis using element_ok [OF k(1)] by (simp add: f_def)
  qed
  show "ltype f \<le> PB_LTYPE_LAST_PACKABLE \<Longrightarrow> fconfined D ?R (decode_static_packed E ?func f p q)"
    using item parts(2) by (intro decode_static_packed_total static_packed_loop_total [OF cnt dest(2)] eats_packable) (simp_all add: f_def)
  have "fconfined D ?R (\<lambda>fc s h. if array_size f \<le> c then Some (False, is_set_error s ''array overflow'', h, fc)
      else with_fc fc (?func (item_at p f c) s h))" for c
  proof (cases "array_size f \<le> c")
    case True
    then show ?thesis by (simp add: fconfined_error)
  next
    case False
    then have "c < array_size f" by simp
    from fconfined_with_fc [OF item [OF this], of "\<lambda>fc. fc"] False show ?thesis by simp
  qed
  from fconfined_after_count [OF cnt dest(2) fconfined_after_write [OF cnt dest(2) this]]
  show "fconfined D ?R (decode_static_item ?func f p q)" by (simp add: decode_static_item_def [abs_def])
qed

text \<open>A field of any repetition.\<close>

lemma optional_total:
  assumes k: "k < max 1 (nfields flds)" "htype (flds ! k) = PB_HTYPE_OPTIONAL"
  defines "f \<equiv> flds ! k" and "p \<equiv> dest + field_offset flds k" and "a \<equiv> dest + size_ptr_offset flds k"
  shows "fconfined D (region dest sz) (\<lambda>fc s h. Option.bind
    (if PSMem a \<noteq> PSMem p then write_has (PSMem a) True fc h else Some (fc, h))
    (\<lambda>(fc, h). with_fc fc (PB_DECODERS decs E (ltype f) f p s h)))"
proof -
  let ?R = "region dest sz" and ?d = "PB_DECODERS decs E (ltype f) f p"
  note reg = static_field_regions [OF field_ok [OF k(1)] dest(2)]
  have "confined D ?R ?d"
    using element_ok [OF k(1)] reg(1,5) k(2) dest(1) by (simp add: f_def p_def)
  then have plain: "fconfined D ?R (\<lambda>fc s h. with_fc fc (?d s h))" using fconfined_with_fc [of D ?R ?d "\<lambda>fc. fc"] by simp
  show ?thesis
  proof (cases "a = p")
    case True
    then show ?thesis using plain by simp
  next
    case False
    then have "heap_ok D ?R (put_bool a True)"
      using put_bool_ok [OF reg(3) dest(2)] k(2) by (simp add: a_def p_def)
    from fconfined_after_heap [OF this plain] show ?thesis
      using False by (simp add: write_has_def bind_map_Pair)
  qed
qed

lemma decode_static_field_total:
  assumes "decoder_iter flds dest it"
  shows "fconfined D (region dest sz) (decode_static_field n decs E wt it)"
proof -
  obtain k where k: "k < max 1 (nfields flds)" "it_field it = Some (flds ! k)" "pData it = dest + field_offset flds k"
    and q: "pSize it = PSMem (dest + size_ptr_offset flds k) \<or> pSize it = PSLocal \<and> htype (flds ! k) = PB_HTYPE_REPEATED"
    using static_table assms by (rule decoder_iter_field)
  let ?f = "flds ! k" and ?p = "dest + field_offset flds k"
  consider "htype ?f = PB_HTYPE_REQUIRED" | "htype ?f = PB_HTYPE_OPTIONAL" | "htype ?f = PB_HTYPE_REPEATED" | "htype ?f = PB_HTYPE_ONEOF"
    using htype_cases by blast
  then show ?thesis
  proof cases
    case 1
    have "confined D (region dest sz) (PB_DECODERS decs E (ltype ?f) ?f ?p)"
      using element_ok [OF k(1)] static_field_regions(1,5) [OF field_ok [OF k(1)] dest(2)] 1 dest(1) by simp
    from fconfined_with_fc [OF this, of "\<lambda>fc. fc"] show ?thesis
      using k 1 by (simp add: decode_static_field_def [abs_def] Let_def)
  next
    case 2
    then have "pSize it = PSMem (dest + size_ptr_offset flds k)" using q by simp
    then show ?thesis
      using optional_total [OF k(1) 2] k 2 by (simp add: decode_static_field_def [abs_def] Let_def cong: if_cong)
  next
    case 3
    then show ?thesis
      using repeated_total [OF k(1) 3, of "pSize it"] q k
      by (cases "wt = PB_WT_STRING \<and> ltype ?f \<le> PB_LTYPE_LAST_PACKABLE")
        (auto simp: decode_static_field_def [abs_def] Let_def)
  next
    case 4
    then show ?thesis using oneof_total [OF k(1) 4] q k by (simp add: decode_static_field_def [abs_def] Let_def)
  qed
qed

lemma decode_field_total:
  assumes it: "decoder_iter flds dest it" and s: "ibuf s h" "dom (hmem h) = D"
  shows "\<exists>ok it' s' h' fc'. decode_field n decs E wt it fc s h = Some (ok, it', s', h', fc') \<and>
    decoder_iter flds dest it' \<and> after ok s s' \<and> frame (region dest sz) h h'"
proof -
  obtain k where k: "k < max 1 (nfields flds)" "it_field it = Some (flds ! k)"
    "htype (flds ! k) \<noteq> PB_HTYPE_REPEATED \<longrightarrow> it = iter_at flds dest k"
    using static_table it by (rule decoder_iter_field)
  have static: "\<exists>ok s' h' fc'. (do { f \<leftarrow> it_field it; with_iter it
      (if atype f = PB_ATYPE_STATIC then decode_static_field n decs E wt it fc s h
       else if atype f = PB_ATYPE_POINTER then decode_pointer_field n decs E wt it fc s h
       else if atype f = PB_ATYPE_CALLBACK then with_fc fc (decode_callback_field E wt it s h)
       else Some (False, is_set_error s ''invalid field type'', h, fc)) }) = Some (ok, it, s', h', fc') \<and>
      after ok s s' \<and> frame (region dest sz) h h'"
    if it: "decoder_iter flds dest it" and s: "ibuf s h" "dom (hmem h) = D" for it s h
  proof -
    obtain k where k: "k < max 1 (nfields flds)" "it_field it = Some (flds ! k)"
      using static_table it by (rule decoder_iter_field)
    obtain ok s' h' fc' where "decode_static_field n decs E wt it fc s h = Some (ok, s', h', fc')" "after ok s s'"
      "frame (region dest sz) h h'"
      using decode_static_field_total [OF it] s by (rule fconfinedD)
    then show ?thesis using k static_field_parts(1) [OF field_ok [OF k(1)]] by (simp add: with_iter_def)
  qed
  show ?thesis
  proof (cases "htype (flds ! k) = PB_HTYPE_ONEOF")
    case False
    then show ?thesis using static [OF it s] it k(2) by (auto simp: decode_field_def)
  next
    case True
    have k1: "k < nfields flds"
    proof (rule ccontr)
      assume "\<not> k < nfields flds"
      then have "nfields flds = 0" "k = 0" using k(1) by auto
      then have "flds ! k = PB_LAST_FIELD" using static_table_empty [OF static_table] by simp
      then show False using True by (simp add: PB_LAST_FIELD_def PB_HTYPE_def pb_type_consts)
    qed
    have e: "it = iter_at flds dest k" using k(3) True by simp
    obtain ok s1 k' where u: "pb_release_union_field (Suc n) E it s h = Some (ok, s1, iter_at flds dest k', h)" "k' < nfields flds"
      "consumed s s1" "ibuf s1 h"
      using release_union_total [OF table dest s(2) k1 True, of s] s(1) unfolding e by blast
    have it': "decoder_iter flds dest (iter_at flds dest k')" using u(2) by (intro decoder_iter_at) simp
    show ?thesis
    proof (cases ok)
      case False
      then show ?thesis using u(1,3) it' k(2) True after_consumed by (auto simp: decode_field_def)
    next
      case ok: True
      obtain ok' s' h' fc' where r: "(do { f \<leftarrow> it_field (iter_at flds dest k'); with_iter (iter_at flds dest k')
        (if atype f = PB_ATYPE_STATIC then decode_static_field n decs E wt (iter_at flds dest k') fc s1 h
         else if atype f = PB_ATYPE_POINTER then decode_pointer_field n decs E wt (iter_at flds dest k') fc s1 h
         else if atype f = PB_ATYPE_CALLBACK then with_fc fc (decode_callback_field E wt (iter_at flds dest k') s1 h)
         else Some (False, is_set_error s1 ''invalid field type'', h, fc)) }) = Some (ok', iter_at flds dest k', s', h', fc')"
        "after ok' s1 s'" "frame (region dest sz) h h'"
        using static [OF it' u(4) s(2)] by blast
      then show ?thesis using u(1) it' k(2) True ok after_trans [OF u(3) r(2)] by (simp add: decode_field_def)
    qed
  qed
qed

section \<open>The field loop\<close>

lemma enter_fixed_count_iter:
  assumes "decoder_iter flds dest (ns_iter st)" "it_field (ns_iter st) = Some f" "enter_fixed_count f st = Some st'"
  shows "decoder_iter flds dest (ns_iter st')"
proof -
  from assms(1) obtain k where k: "k < max 1 (nfields flds)"
    "ns_iter st = iter_at flds dest k \<or> (ns_iter st = (iter_at flds dest k)\<lparr>pSize := PSLocal\<rparr> \<and> htype (flds ! k) = PB_HTYPE_REPEATED)"
    unfolding decoder_iter_def by blast
  have f: "f = flds ! k" using k(2) assms(2) by (auto simp: it_field_def split: if_splits)
  have "ns_iter st' = ns_iter st \<or> htype f = PB_HTYPE_REPEATED \<and> ns_iter st' = (ns_iter st)\<lparr>pSize := PSLocal\<rparr>"
    using assms(3) by (auto simp: enter_fixed_count_def Let_def split: if_splits)
  then show ?thesis using k f assms(1) by (auto simp: decoder_iter_def)
qed

lemma known_field_total:
  assumes it: "decoder_iter flds dest (ns_iter st)" and s: "ibuf s h" "dom (hmem h) = D"
  shows "\<exists>c st' s' h'. known_field n decs E wt st s h = Some (c, st', s', h') \<and> c \<noteq> LBreak \<and>
    decoder_iter flds dest (ns_iter st') \<and> after (c \<noteq> LReturnFalse) s s' \<and> frame (region dest sz) h h'"
proof -
  obtain k where k: "it_field (ns_iter st) = Some (flds ! k)" using static_table it by (rule decoder_iter_field)
  show ?thesis
  proof (cases "enter_fixed_count (flds ! k) st")
    case None
    then show ?thesis using k it by (simp add: known_field_def)
  next
    case (Some st1)
    have it1: "decoder_iter flds dest (ns_iter (mark_seen (flds ! k) st1))"
      using enter_fixed_count_iter [OF it k Some] by (simp add: mark_seen_def Let_def)
    obtain ok it' s' h' fc' where
      "decode_field n decs E wt (ns_iter (mark_seen (flds ! k) st1)) (fixed_count_size (mark_seen (flds ! k) st1)) s h =
        Some (ok, it', s', h', fc')" "decoder_iter flds dest it'" "after ok s s'" "frame (region dest sz) h h'"
      using decode_field_total [OF it1 s] by blast
    then show ?thesis using k Some by (cases ok) (auto simp: known_field_def Let_def)
  qed
qed

lemma unknown_field_total:
  assumes it: "decoder_iter flds dest (ns_iter st)" and s: "ibuf s h" and tg: "tg < 2 ^ 29"
  shows "\<exists>c st' s'. unknown_field n decs E tg wt st s h = Some (c, st', s', h) \<and> c \<noteq> LBreak \<and>
    decoder_iter flds dest (ns_iter st') \<and> consumed s s'"
proof -
  obtain it' where f: "find_extension_field (ns_iter st) = Some (False, it')" "decoder_iter flds dest it'"
    using find_extension_decoder_iter [OF static_table _ it] dest(1) by auto
  obtain k where k: "it_field it' = Some (flds ! k)" using static_table f(2) by (rule decoder_iter_field)
  obtain v s' where sk: "pb_skip_field E wt s h = Some (v, s', h)" "consumed s s'"
    using total_pb_skip_field s by (rule total_readerD)
  have "\<not> (- 1 :: u32) \<le> tg" using tg by (simp add: word_le_nat_alt word_less_nat_alt unsigned_minus_1_eq_mask mask_eq_exp_minus_1)
  then show ?thesis
    using f k sk it by (cases "extension_range_start st \<le> tg"; cases v) (simp_all add: unknown_field_def Let_def)
qed

lemma noinit_step_total:
  assumes it: "decoder_iter flds dest (ns_iter st)" and s: "ibuf s h" "dom (hmem h) = D"
  shows "\<exists>c st' s' h'. noinit_step n decs E st s h = Some (c, st', s', h') \<and> decoder_iter flds dest (ns_iter st') \<and>
    after (c \<noteq> LReturnFalse) s s' \<and> frame (region dest sz) h h' \<and>
    (c = LContinue \<longrightarrow> unat (bytes_left s') < unat (bytes_left s))"
proof -
  obtain v e s1 where t: "pb_decode_tag E s h = Some (v, e, s1, h)" "consumed s s1" "ibuf s1 h"
    "v \<noteq> None \<longrightarrow> unat (bytes_left s1) < unat (bytes_left s)"
    using pb_decode_tag_total [OF s(1), of E] by blast
  show ?thesis
  proof (cases v)
    case None
    then show ?thesis using t it after_consumed [OF t(2)] by (auto simp: noinit_step_def)
  next
    case (Some w)
    then obtain wt tg where w: "v = Some (wt, tg)" by (cases w) simp
    have tg: "tg < 2 ^ 29" using t(1) w pb_decode_tag_range by blast
    have lt: "unat (bytes_left s1) < unat (bytes_left s)" using t(4) w by simp
    obtain r it' where f: "pb_field_iter_find (ns_iter st) tg = Some (r, it')" "decoder_iter flds dest it'"
      using find_decoder_iter [OF static_table _ it, of tg] dest(1) by auto
    let ?st = "st\<lparr>ns_iter := it'\<rparr>"
    have "\<exists>c st' s' h'. (if r then known_field n decs E wt ?st s1 h else unknown_field n decs E tg wt ?st s1 h) = Some (c, st', s', h') \<and>
        c \<noteq> LBreak \<and> decoder_iter flds dest (ns_iter st') \<and> after (c \<noteq> LReturnFalse) s1 s' \<and> frame (region dest sz) h h'"
      using known_field_total [of ?st s1 h wt] unknown_field_total [of ?st s1 h tg wt] f(2) t(3) s(2) tg after_consumed
      by (cases r) (simp_all, meson frame_refl)
    then obtain c st' s' h' where st': "noinit_step n decs E st s h = Some (c, st', s', h')" "decoder_iter flds dest (ns_iter st')"
      "after (c \<noteq> LReturnFalse) s1 s'" "frame (region dest sz) h h'" "c \<noteq> LBreak"
      using t(1) w f(1) by (auto simp: noinit_step_def Let_def)
    moreover have "c = LContinue \<Longrightarrow> unat (bytes_left s') \<le> unat (bytes_left s1)"
      using st'(3) by (simp add: after_def consumed_def word_le_nat_alt)
    ultimately show ?thesis using lt after_trans [OF t(2)] by fastforce
  qed
qed

text \<open>Every iteration that goes on has taken a key, so the loop ends.\<close>

lemma noinit_loop_total:
  assumes "decoder_iter flds dest (ns_iter st)" "ibuf s h" "dom (hmem h) = D"
  shows "\<exists>ok st' s' h'. noinit_loop (noinit_step n decs E) st s h = Some (ok, st', s', h') \<and>
    decoder_iter flds dest (ns_iter st') \<and> after ok s s' \<and> frame (region dest sz) h h'"
  using assms
proof (induction "unat (bytes_left s)" arbitrary: st s h rule: less_induct)
  case less
  show ?case
  proof (cases "bytes_left s = 0")
    case True
    then show ?thesis using less.prems by (subst noinit_loop.simps) auto
  next
    case False
    obtain c st1 s1 h1 where t: "noinit_step n decs E st s h = Some (c, st1, s1, h1)" "decoder_iter flds dest (ns_iter st1)"
      "after (c \<noteq> LReturnFalse) s s1" "frame (region dest sz) h h1"
      "c = LContinue \<longrightarrow> unat (bytes_left s1) < unat (bytes_left s)"
      using noinit_step_total [OF less.prems] by blast
    show ?thesis
    proof (cases c)
      case LContinue
      have con: "consumed s s1" using t(3) LContinue by (simp add: after_def)
      have "ibuf s1 h1" using ibuf_consumed [OF less.prems(2) con] frame_ibuf [OF t(4)] by blast
      then obtain ok st' s' h' where "noinit_loop (noinit_step n decs E) st1 s1 h1 = Some (ok, st', s', h')"
        "decoder_iter flds dest (ns_iter st')" "after ok s1 s'" "frame (region dest sz) h1 h'"
        using less.hyps [of s1 st1 h1] t(2,5) LContinue frame_dom [OF t(4)] less.prems(3) by auto
      then show ?thesis
        using t(1,4) LContinue False after_trans [OF con] frame_trans by (subst noinit_loop.simps) fastforce
    qed (use t False in \<open>subst noinit_loop.simps, auto\<close>)+
  qed
qed

lemma noinit_body_confined: "confined D (region dest sz) (noinit_body n decs E flds dest)"
proof (rule confinedI)
  fix s h assume s: "ibuf s h" "dom (hmem h) = D"
  have d0: "dest \<noteq> 0" using dest(1) by simp
  let ?st = "\<lparr>ns_iter = iter_at flds dest 0, fields_seen = [0, 0], extension_range_start = 0, fixed_count_field = None,
    fixed_count_size = 0\<rparr>"
  obtain b where start: "pb_field_iter_begin flds dest = Some (b, iter_at flds dest 0)"
    using iter_begin_at [of flds dest] static_table d0 by (auto simp: static_table_def)
  obtain ok st s' h' where loop: "noinit_loop (noinit_step n decs E) ?st s h = Some (ok, st, s', h')"
    "decoder_iter flds dest (ns_iter st)" "after ok s s'" "frame (region dest sz) h h'"
    using noinit_loop_total [of ?st s h] s decoder_iter_at [of 0 flds dest] by auto
  obtain req ty it' where e: "seek_end (ns_iter st) = Some (req, ty, it')" "decoder_iter flds dest it'"
    using seek_end_total [OF static_table d0 loop(2)] by blast
  obtain k where "it_field it' = Some (flds ! k)" using static_table e(2) by (rule decoder_iter_field)
  then obtain p where "check_required st = Some p" using e(1) by (auto simp: check_required_def Let_def)
  then show "\<exists>ok s' h'. noinit_body n decs E flds dest s h = Some (ok, s', h') \<and> after ok s s' \<and> frame (region dest sz) h h'"
    using start loop(1,3,4)
    by (cases ok; cases "fixed_count_unfinished st"; cases p) (auto simp: noinit_body_def after_def is_set_error_def)
qed

end

section \<open>Messages\<close>

text \<open>The decoder with and without initialisation, for every nesting depth.\<close>

definition nested_of :: "nat \<Rightarrow> pb_env \<Rightarrow> msg_decoder" where
  "nested_of n E = (\<lambda>init. if init then init_and_release n E (pb_decode_noinit n E) else pb_decode_noinit n E)"

lemma confined_init_and_release:
  assumes ok: "static_ok n E D flds sz" and dest: "0 < dest" "region dest sz \<subseteq> D"
    and noinit: "confined D (region dest sz) (pb_decode_noinit n E flds dest)"
  shows "confined D (region dest sz) (init_and_release n E (pb_decode_noinit n E) flds dest)"
proof (rule confinedI)
  fix s h assume s: "ibuf s h" "dom (hmem h) = D"
  obtain h1 where h1: "pb_message_set_to_defaults n E flds dest h = Some h1" "frame (region dest sz) h h1" "dom (hmem h1) = D"
    using defaults_ok [OF ok dest] s(2) by (rule heap_okD)
  obtain st s' h2 where r: "pb_decode_noinit n E flds dest s h1 = Some (st, s', h2)" "after st s s'" "frame (region dest sz) h1 h2"
    "dom (hmem h2) = D"
    using noinit frame_ibuf [OF h1(2) s(1)] h1(3) by (rule confinedD)
  show "\<exists>ok s' h'. init_and_release n E (pb_decode_noinit n E) flds dest s h = Some (ok, s', h') \<and> after ok s s' \<and>
      frame (region dest sz) h h'"
    using h1(1) r(1,2) release_ok(2) [OF ok dest r(4)] frame_trans [OF h1(2) r(3)]
    by (cases st) (auto simp: init_and_release_def)
qed

lemma static_ok_Suc: "static_ok n E D flds sz \<Longrightarrow> \<exists>m. n = Suc m"
  by (cases n) simp_all

lemma nested_decoder_of: "nested_decoder (nested_of n E) (static_ok n E D) D"
proof (induction n)
  case 0
  show ?case by unfold_locales simp
next
  case (Suc n)
  show ?case
  proof
    fix flds sz dest init assume ok: "static_ok (Suc n) E D flds sz" and dest: "0 < dest" "region dest sz \<subseteq> D"
    have "static_decoder (nested_of n E) n E D flds sz dest"
      using Suc ok dest by (intro static_decoder.intro static_decoder_axioms.intro)
    then have "confined D (region dest sz) (noinit_body n (nested_of n E) E flds dest)" by (rule static_decoder.noinit_body_confined)
    then have "confined D (region dest sz) (pb_decode_noinit (Suc n) E flds dest)" by (simp add: nested_of_def confined_def)
    then show "confined D (region dest sz) (nested_of (Suc n) E init flds dest)"
      using confined_init_and_release [OF ok dest] by (simp add: nested_of_def del: pb_decode_noinit.simps static_ok.simps)
  qed
qed

interpretation messages: nested_decoder "nested_of n E" "static_ok n E D" D for n E D
  by (rule nested_decoder_of)

end
