(* ===== verification/Nanopb_Decode_Theorems.thy ===== *)
theory Nanopb_Decode_Theorems
  imports Nanopb_Decode_Total Nanopb_Stream_Theorems
begin

text \<open>
  What the decoder of \<open>ios/Pods/nanopb\<close> guarantees to its callers: memory safety and termination on
  every input, required fields, length-delimited messages, and the behaviour of an empty table.
\<close>

section \<open>Safety on every input\<close>

text \<open>
  \<open>struct { uint32_t id; bool has_sub; struct { uint32_t x; } sub; pb_size_t n; uint16_t v[3]; }\<close> with
  required \<open>id = 1\<close>, optional submessage \<open>sub = 2\<close> and repeated \<open>v = 3\<close>.
\<close>

definition nested_env :: pb_env where
  "nested_env = sample_env\<lparr>fields_of := (\<lambda>a. if a = 5000 then
     [PB_REQUIRED_STATIC 1 \<lparr>m_offset = 0, m_size = 4, m_elem = 4, m_aux = 0\<rparr> 0 PB_LTYPE_UVARINT 0, PB_LAST_FIELD]
     else [])\<rparr>"

definition nested_fields :: "pb_field list" where
  "nested_fields =
     [PB_REQUIRED_STATIC 1 \<lparr>m_offset = 0, m_size = 4, m_elem = 4, m_aux = 0\<rparr> 0 PB_LTYPE_UVARINT 0,
      PB_OPTIONAL_STATIC 2 \<lparr>m_offset = 8, m_size = 4, m_elem = 4, m_aux = 4\<rparr> 4 PB_LTYPE_SUBMESSAGE 5000,
      PB_REPEATED_STATIC 3 \<lparr>m_offset = 16, m_size = 6, m_elem = 2, m_aux = 12\<rparr> 4 PB_LTYPE_UVARINT 0,
      PB_LAST_FIELD]"

lemma nested_inner_ok: "static_ok 1 nested_env D (fields_of nested_env 5000) 4"
proof -
  have n: "nfields (fields_of nested_env 5000) = 1" "wf_table (fields_of nested_env 5000)"
    "last (fields_of nested_env 5000) = PB_LAST_FIELD" by code_simp+
  have "static_field_ok good nested_env D (fields_of nested_env 5000) 4 0" for good
  proof -
    let ?f = "fields_of nested_env 5000 ! 0"
    have "atype ?f = PB_ATYPE_STATIC" "known_ltype (ltype ?f)" "htype ?f = PB_HTYPE_REQUIRED" "fptr ?f = 0"
      "ltype ?f \<noteq> PB_LTYPE_SUBMESSAGE" "elem_need ?f = 4" "field_offset (fields_of nested_env 5000) 0 = 0" by code_simp+
    then show ?thesis by (simp add: static_field_ok_def Let_def)
  qed
  then show ?thesis using n by simp
qed

lemma nested_ok: "static_ok 2 nested_env D nested_fields 24"
proof -
  have n: "nfields nested_fields = 3" "wf_table nested_fields" "last nested_fields = PB_LAST_FIELD" by code_simp+
  let ?f = "\<lambda>k. nested_fields ! k" and ?good = "static_ok 1 nested_env D"
  have lt: "(\<forall>k<3. P k) \<longleftrightarrow> P 0 \<and> P 1 \<and> P (2 :: nat)" for P by (auto simp: numeral_eq_Suc less_Suc_eq)
  have "atype (?f 0) = PB_ATYPE_STATIC" "known_ltype (ltype (?f 0))" "htype (?f 0) = PB_HTYPE_REQUIRED" "fptr (?f 0) = 0"
    "ltype (?f 0) \<noteq> PB_LTYPE_SUBMESSAGE" "elem_need (?f 0) = 4" "field_offset nested_fields 0 = 0" by code_simp+
  then have 0: "static_field_ok ?good nested_env D nested_fields 24 0" by (simp add: static_field_ok_def Let_def)
  have "atype (?f 1) = PB_ATYPE_STATIC" "known_ltype (ltype (?f 1))" "htype (?f 1) = PB_HTYPE_OPTIONAL" "fptr (?f 1) = 5000"
    "ltype (?f 1) = PB_LTYPE_SUBMESSAGE" "elem_need (?f 1) = 4" "unat (data_size (?f 1)) = 4" "field_offset nested_fields 1 = 8"
    "size_ptr_offset nested_fields 1 = 4" by code_simp+
  then have 1: "static_field_ok ?good nested_env D nested_fields 24 1"
    using nested_inner_ok by (simp add: static_field_ok_def Let_def del: static_ok.simps One_nat_def)
  have "atype (?f 2) = PB_ATYPE_STATIC" "known_ltype (ltype (?f 2))" "htype (?f 2) = PB_HTYPE_REPEATED" "fptr (?f 2) = 0"
    "ltype (?f 2) \<noteq> PB_LTYPE_SUBMESSAGE" "elem_need (?f 2) = 2" "unat (data_size (?f 2)) = 2" "unat (array_size (?f 2)) = 3"
    "field_offset nested_fields 2 = 16" "size_ptr_offset nested_fields 2 = 12" by code_simp+
  then have 2: "static_field_ok ?good nested_env D nested_fields 24 2"
    by (simp add: static_field_ok_def Let_def del: of_nat_mult)
  have "static_ok (Suc 1) nested_env D nested_fields 24"
    unfolding static_ok.simps(2) using n 0 1 2 by (simp add: lt del: static_ok.simps One_nat_def)
  then show ?thesis by (simp only: Suc_1)
qed

text \<open>C2: \<open>pb_decode\<close> into a structure of static fields (nested to any depth) returns for every input
  buffer, whatever its bytes are: it reads only mapped memory, changes no byte outside the structure,
  neither maps nor unmaps memory, and on success the stream has advanced inside the buffer.\<close>

theorem pb_decode_static_safe:
  assumes "static_ok n E (dom (hmem h)) flds sz" "0 < dest" "mapped (hmem h) dest sz"
    and "is_callback s = IC_buf_read" "mapped (hmem h) (is_state s) (unat (bytes_left s))"
  shows "\<exists>ok s' h'. pb_decode n E flds dest s h = Some (ok, s', h') \<and> (ok \<longrightarrow> consumed s s') \<and>
    dom (hmem h') = dom (hmem h) \<and> blocks h' = blocks h \<and> (\<forall>x. x \<notin> region dest sz \<longrightarrow> hmem h' x = hmem h x)"
proof -
  have "region dest sz \<subseteq> dom (hmem h)" using assms(3) by (simp add: mapped_iff)
  with messages.nested [OF assms(1,2), of True]
  have "confined (dom (hmem h)) (region dest sz) (pb_decode n E flds dest)"
    by (simp add: nested_of_def pb_decode_def confined_def)
  then obtain ok s' h' where "pb_decode n E flds dest s h = Some (ok, s', h')" "after ok s s'" "frame (region dest sz) h h'"
    using assms(4,5) unfolding confined_def ibuf_def by blast
  then show ?thesis by (auto simp: after_def frame_def)
qed

definition nested_heap :: "u8 list \<Rightarrow> cheap" where
  "nested_heap bs = \<lparr>hmem = put_bytes (put_bytes Map.empty 1000 (replicate 24 0xAA)) 2000 bs, blocks = Map.empty\<rparr>"

lemma nested_heap_mapped: "mapped (hmem (nested_heap bs)) 1000 24" "mapped (hmem (nested_heap bs)) 2000 (length bs)"
  by (auto simp: nested_heap_def mapped_iff)

theorem pb_decode_static_safe_witness:
  "\<exists>ok s' h'. pb_decode 2 nested_env nested_fields 1000 (pb_istream_from_buffer 2000 7)
       (nested_heap [0x08, 0x05, 0x12, 0x7F, 0x08, 0x07, 0x1A]) = Some (ok, s', h') \<and>
     (\<forall>x. x \<notin> region 1000 24 \<longrightarrow> hmem h' x = hmem (nested_heap [0x08, 0x05, 0x12, 0x7F, 0x08, 0x07, 0x1A]) x)"
proof -
  let ?bs = "[0x08, 0x05, 0x12, 0x7F, 0x08, 0x07, 0x1A]" and ?s = "pb_istream_from_buffer 2000 7"
  have l: "length ?bs = 7" by simp
  have "is_callback ?s = IC_buf_read" "mapped (hmem (nested_heap ?bs)) (is_state ?s) (unat (bytes_left ?s))"
    using nested_heap_mapped(2) [of ?bs, unfolded l] by (simp_all add: pb_istream_from_buffer_def)
  from pb_decode_static_safe [OF nested_ok _ nested_heap_mapped(1) this] show ?thesis by auto
qed

section \<open>Required fields\<close>

text \<open>
  The keys the field loop reads, as a relation over its steps; \<open>step\<close> is one iteration.
\<close>

inductive keys_read ::
  "pb_env \<Rightarrow> (noinit_state \<Rightarrow> pb_istream \<Rightarrow> cheap \<Rightarrow> (loop_ctl \<times> noinit_state \<times> pb_istream \<times> cheap) option) \<Rightarrow>
   noinit_state \<Rightarrow> pb_istream \<Rightarrow> cheap \<Rightarrow> u32 list \<Rightarrow> noinit_state \<Rightarrow> bool"
  for E :: pb_env and step where
  keys_end: "keys_read E step st s h [] st"
| keys_step: "pb_decode_tag E s h = Some (Some (wt, tg), e, s1, h1) \<Longrightarrow> step st s h = Some (LContinue, st1, s2, h2) \<Longrightarrow>
    keys_read E step st1 s2 h2 tgs st' \<Longrightarrow> keys_read E step st s h (tg # tgs) st'"

inductive_cases keys_readE: "keys_read E step st s h tgs st'"

text \<open>The iterator stays on the table with the right index of required fields.\<close>

definition on_table :: "pb_field list \<Rightarrow> pb_field_iter \<Rightarrow> bool" where
  "on_table flds it \<longleftrightarrow> wf_table flds \<and> it_start it = flds \<and> it_pos it < max 1 (nfields flds) \<and>
     required_field_index it = of_nat (required_before flds (it_pos it))"

lemma on_table_length: "on_table flds it \<Longrightarrow> it_pos it < length flds"
  using wf_table_length [of flds] by (auto simp: on_table_def split: if_splits)

lemma on_table_field: "on_table flds it \<Longrightarrow> it_field it = Some (flds ! it_pos it)"
  using on_table_length [of flds it] by (simp add: on_table_def it_field_def)

lemma on_table_begin: "wf_table flds \<Longrightarrow> pb_field_iter_begin flds dest = Some (b, it) \<Longrightarrow> on_table flds it \<and> it_pos it = 0"
  by (auto simp: pb_field_iter_begin_def on_table_def required_before_def Let_def split: list.splits)

lemma on_table_next_pos:
  assumes it: "on_table flds it" and n: "pb_field_iter_next it = Some (b, it')"
  shows "on_table flds it' \<and> b = (Suc (it_pos it) < nfields flds) \<and> it_pos it' = (if b then Suc (it_pos it) else 0)"
proof -
  have wf: "wf_table flds" and pos: "it_pos it < max 1 (nfields flds)" using it by (simp_all add: on_table_def)
  have len: "length flds = Suc (nfields flds)" by (rule wf_table_length [OF wf])
  have f: "it_field it = Some (flds ! it_pos it)" "it_start it = flds" using it on_table_field by (auto simp: on_table_def)
  show ?thesis
  proof (cases "nfields flds = 0")
    case True
    then have "tag (flds ! it_pos it) = 0" using wf_table_terminator [OF wf] pos by simp
    then show ?thesis using n f True it pos by (simp add: pb_field_iter_next_def)
  next
    case False
    then have k: "it_pos it < nfields flds" using pos by simp
    have nz: "tag (flds ! it_pos it) \<noteq> 0" by (rule wf_table_field [OF wf k])
    have f2: "it_field (it\<lparr>it_pos := Suc (it_pos it)\<rparr>) = Some (flds ! Suc (it_pos it))" using k len f(2) by (simp add: it_field_def)
    have t: "tag (flds ! Suc (it_pos it)) = 0 \<longleftrightarrow> Suc (it_pos it) = nfields flds"
      using wf_table_tag_0 [OF wf, of "Suc (it_pos it)"] k by simp
    show ?thesis
    proof (cases "Suc (it_pos it) = nfields flds")
      case True
      then show ?thesis using n f nz f2 t on_table_begin [OF wf] by (auto simp: pb_field_iter_next_def Let_def)
    next
      case False
      then show ?thesis
        using n f nz f2 t k it len
        by (auto simp: pb_field_iter_next_def Let_def on_table_def required_before_Suc split: if_splits)
    qed
  qed
qed

lemma on_table_next: "on_table flds it \<Longrightarrow> pb_field_iter_next it = Some (b, it') \<Longrightarrow> on_table flds it'"
  using on_table_next_pos by blast

lemma on_table_find_loop:
  assumes "pb_field_iter_find_loop k tg it = Some r"
  shows "on_table flds it \<longrightarrow> on_table flds (snd r) \<and> (fst r \<longrightarrow> tag (flds ! it_pos (snd r)) = tg)"
proof (rule pb_field_iter_find_loop.raw_induct [of "\<lambda>k tg it r. on_table flds it \<longrightarrow> on_table flds (snd r) \<and>
    (fst r \<longrightarrow> tag (flds ! it_pos (snd r)) = tg)", OF _ assms])
  fix loop k tg it r
  assume IH: "\<And>k tg it r. loop k tg it = Some r \<Longrightarrow> on_table flds it \<longrightarrow> on_table flds (snd r) \<and> (fst r \<longrightarrow> tag (flds ! it_pos (snd r)) = tg)"
    and step: "Option.bind (it_field it) (\<lambda>f. if tag f = tg \<and> ltype f \<noteq> PB_LTYPE_EXTENSION then Some (True, it)
       else Option.bind (pb_field_iter_next it) (\<lambda>(_, it'). if it_pos it' \<noteq> k then loop k tg it' else Some (False, it'))) = Some r"
  show "on_table flds it \<longrightarrow> on_table flds (snd r) \<and> (fst r \<longrightarrow> tag (flds ! it_pos (snd r)) = tg)"
  proof
    assume it: "on_table flds it"
    show "on_table flds (snd r) \<and> (fst r \<longrightarrow> tag (flds ! it_pos (snd r)) = tg)"
    proof (cases "tag (flds ! it_pos it) = tg \<and> ltype (flds ! it_pos it) \<noteq> PB_LTYPE_EXTENSION")
      case True
      then have "r = (True, it)" using step on_table_field [OF it] by simp
      then show ?thesis using True it by simp
    next
      case False
      then obtain b it' where n: "pb_field_iter_next it = Some (b, it')"
        and r: "(if it_pos it' \<noteq> k then loop k tg it' else Some (False, it')) = Some r"
        using step on_table_field [OF it] by (auto simp: bind_eq_Some_conv)
      have "on_table flds it'" using on_table_next [OF it n] .
      then show ?thesis using IH r by (cases "it_pos it' \<noteq> k") auto
    qed
  qed
qed

lemma on_table_find: "pb_field_iter_find it tg = Some (b, it') \<Longrightarrow> on_table flds it \<Longrightarrow>
    on_table flds it' \<and> (b \<longrightarrow> tag (flds ! it_pos it') = tg)"
  using on_table_find_loop [of "it_pos it" tg it "(b, it')" flds] by (simp add: pb_field_iter_find_def)

lemma on_table_find_extension:
  assumes "find_extension_field it = Some (b, it')" "on_table flds it"
  shows "on_table flds it'"
proof -
  have "on_table flds it \<longrightarrow> on_table flds (snd (b, it'))"
  proof (rule find_extension_loop.raw_induct [of "\<lambda>k it r. on_table flds it \<longrightarrow> on_table flds (snd r)"])
    show "find_extension_loop (it_pos it) it = Some (b, it')" using assms(1) by (simp add: find_extension_field_def)
  next
    fix loop k it r
    assume IH: "\<And>k it r. loop k it = Some r \<Longrightarrow> on_table flds it \<longrightarrow> on_table flds (snd r)"
      and step: "Option.bind (it_field it) (\<lambda>f. if ltype f = PB_LTYPE_EXTENSION then Some (True, it)
         else Option.bind (pb_field_iter_next it) (\<lambda>(_, it). if it_pos it \<noteq> k then loop k it else Some (False, it))) = Some r"
    show "on_table flds it \<longrightarrow> on_table flds (snd r)"
    proof
      assume it: "on_table flds it"
      show "on_table flds (snd r)"
      proof (cases "ltype (flds ! it_pos it) = PB_LTYPE_EXTENSION")
        case True
        then have "r = (True, it)" using step on_table_field [OF it] by simp
        then show ?thesis using it by simp
      next
        case False
        then obtain b it' where n: "pb_field_iter_next it = Some (b, it')"
          and r: "(if it_pos it' \<noteq> k then loop k it' else Some (False, it')) = Some r"
          using step on_table_field [OF it] by (auto simp: bind_eq_Some_conv)
        have "on_table flds it'" using on_table_next [OF it n] .
        then show ?thesis using IH r by (cases "it_pos it' \<noteq> k") auto
      qed
    qed
  qed
  then show ?thesis using assms(2) by simp
qed

lemma on_table_release_union:
  assumes "pb_release_union_field n E it s h = Some (ok, s', it', h')" "on_table flds it"
  shows "on_table flds it'"
  using assms on_table_find [of _ _ _ _ flds]
  by (auto simp: pb_release_union_field_def bind_eq_Some_conv Let_def split: if_splits)

lemma on_table_decode_field:
  assumes "decode_field n decs E wt it fc s h = Some (ok, it', s', h', fc')" "on_table flds it"
  shows "on_table flds it'"
  using assms on_table_release_union
  by (auto simp: decode_field_def bind_eq_Some_conv with_iter_def split: if_splits)

text \<open>A bit of \<open>fields_seen\<close> is set only for a required field whose key was read.\<close>

definition seen_bit :: "noinit_state \<Rightarrow> nat \<Rightarrow> bool" where
  "seen_bit st i \<longleftrightarrow> bit (fields_seen st ! (i div 32)) (i mod 32)"

definition required_at :: "pb_field list \<Rightarrow> nat \<Rightarrow> nat \<Rightarrow> bool" where
  "required_at flds i k \<longleftrightarrow> k < length flds \<and> htype (flds ! k) = PB_HTYPE_REQUIRED \<and> required_before flds k = i"

lemma required_before_mono: "j \<le> k \<Longrightarrow> required_before flds j \<le> required_before flds k"
proof -
  assume "j \<le> k"
  then obtain d where "k = j + d" using le_Suc_ex by blast
  then show ?thesis by (simp add: required_before_def take_add)
qed

lemma required_at_unique: "required_at flds i j \<Longrightarrow> required_at flds i k \<Longrightarrow> j = k"
proof -
  have "\<not> j < k" if "required_at flds i j" "required_at flds i k" for j k
  proof
    assume "j < k"
    then have "required_before flds (Suc j) \<le> required_before flds k" by (intro required_before_mono) simp
    then show False using that by (simp add: required_at_def required_before_Suc)
  qed
  moreover assume "required_at flds i j" "required_at flds i k"
  ultimately show ?thesis by (meson linorder_neqE_nat)
qed

lemma seen_bit_mark:
  assumes "length (fields_seen st) = 2" "i < 64" "seen_bit (mark_seen f st) i"
  shows "seen_bit st i \<or> htype f = PB_HTYPE_REQUIRED \<and> unat (required_field_index (ns_iter st)) = i"
proof (cases "htype f = PB_HTYPE_REQUIRED \<and> required_field_index (ns_iter st) < PB_MAX_REQUIRED_FIELDS")
  case False
  then show ?thesis using assms(3) by (auto simp: mark_seen_def Let_def)
next
  case True
  let ?i = "required_field_index (ns_iter st)"
  have lt: "unat ?i < 64" using True by (simp add: PB_MAX_REQUIRED_FIELDS_def word_less_nat_alt)
  have w: "unat (drop_bit 5 ?i) = unat ?i div 32" by (simp only: unat_drop_bit_eq) (simp add: drop_bit_eq_div)
  have b: "unat (?i AND 31) = unat ?i mod 32"
  proof -
    have "?i AND 31 = take_bit 5 ?i" by (simp add: take_bit_eq_mask mask_eq_exp_minus_1)
    moreover have "unat (take_bit 5 ?i) = unat ?i mod 32" by (simp only: unsigned_take_bit_eq) (simp add: take_bit_eq_mod)
    ultimately show ?thesis by simp
  qed
  have "fields_seen (mark_seen f st) =
      (fields_seen st)[unat ?i div 32 := fields_seen st ! (unat ?i div 32) OR push_bit (unat ?i mod 32) 1]"
    using True by (simp add: mark_seen_def Let_def w b)
  then have "bit ((fields_seen st)[unat ?i div 32 := fields_seen st ! (unat ?i div 32) OR push_bit (unat ?i mod 32) 1] ! (i div 32)) (i mod 32)"
    using assms(3) by (simp add: seen_bit_def)
  moreover have "unat ?i div 32 < 2" "i div 32 < 2" using lt assms(2) by auto
  ultimately have "seen_bit st i \<or> (unat ?i div 32 = i div 32 \<and> i mod 32 = unat ?i mod 32)"
    using assms(1) by (auto simp: seen_bit_def nth_list_update bit_simps split: if_splits)
  moreover have "unat ?i = i" if "unat ?i div 32 = i div 32" "i mod 32 = unat ?i mod 32" using that by (metis div_mult_mod_eq)
  ultimately show ?thesis using True by blast
qed

definition tracked :: "pb_field list \<Rightarrow> noinit_state \<Rightarrow> u32 set \<Rightarrow> bool" where
  "tracked flds st T \<longleftrightarrow> on_table flds (ns_iter st) \<and> length (fields_seen st) = 2 \<and>
     (\<forall>i < 64. seen_bit st i \<longrightarrow> (\<exists>k. required_at flds i k \<and> tag (flds ! k) \<in> T))"

lemma enter_fixed_count_same:
  "enter_fixed_count f st = Some st' \<Longrightarrow> fields_seen st' = fields_seen st \<and>
     it_start (ns_iter st') = it_start (ns_iter st) \<and> it_pos (ns_iter st') = it_pos (ns_iter st) \<and>
     required_field_index (ns_iter st') = required_field_index (ns_iter st)"
  by (auto simp: enter_fixed_count_def Let_def split: if_splits)

lemma tracked_step:
  assumes small: "length flds < 2 ^ 32"
    and T: "tracked flds st T" and tg: "pb_decode_tag E s h = Some (Some (wt, tg), e, s1, h1)"
    and step: "noinit_step n decs E st s h = Some (LContinue, st', s', h')"
  shows "tracked flds st' (insert tg T)"
proof -
  obtain b it where f: "pb_field_iter_find (ns_iter st) tg = Some (b, it)"
    and r: "(if b then known_field n decs E wt (st\<lparr>ns_iter := it\<rparr>) s1 h1
       else unknown_field n decs E tg wt (st\<lparr>ns_iter := it\<rparr>) s1 h1) = Some (LContinue, st', s', h')"
    using step tg by (auto simp: noinit_step_def bind_eq_Some_conv Let_def)
  have it: "on_table flds it" "b \<Longrightarrow> tag (flds ! it_pos it) = tg"
    using on_table_find [OF f] T by (auto simp: tracked_def)
  let ?st = "st\<lparr>ns_iter := it\<rparr>" and ?f = "flds ! it_pos it"
  show ?thesis
  proof (cases b)
    case False
    then have "fields_seen st' = fields_seen st \<and> on_table flds (ns_iter st')"
      using r it(1) on_table_find_extension
      by (auto simp: unknown_field_def Let_def bind_eq_Some_conv split: if_splits)
    then show ?thesis using T by (auto simp: tracked_def seen_bit_def)
  next
    case True
    then obtain st1 ok it' fc where e: "enter_fixed_count ?f ?st = Some st1"
      and d: "decode_field n decs E wt (ns_iter (mark_seen ?f st1)) (fixed_count_size (mark_seen ?f st1)) s1 h1 = Some (ok, it', s', h', fc)"
      and st': "st' = (mark_seen ?f st1)\<lparr>ns_iter := it', fixed_count_size := fc\<rparr>"
      using r on_table_field [OF it(1)]
      by (auto simp: known_field_def Let_def bind_eq_Some_conv split: if_splits option.splits)
    note same = enter_fixed_count_same [OF e, simplified]
    have "ns_iter (mark_seen ?f st1) = ns_iter st1" by (simp add: mark_seen_def Let_def)
    then have "on_table flds (ns_iter (mark_seen ?f st1))" using it(1) same by (simp add: on_table_def)
    then have it': "on_table flds it'" using on_table_decode_field [OF d] by blast
    have "\<exists>k. required_at flds i k \<and> tag (flds ! k) \<in> insert tg T" if "i < 64" "seen_bit st' i" for i
    proof -
      have "seen_bit (mark_seen ?f st1) i" using that(2) by (simp add: st' seen_bit_def)
      then have "seen_bit st1 i \<or> htype ?f = PB_HTYPE_REQUIRED \<and> unat (required_field_index (ns_iter st1)) = i"
        using seen_bit_mark [of st1 i ?f] same T that(1) by (simp add: tracked_def)
      then show ?thesis
      proof
        assume "seen_bit st1 i"
        then have "seen_bit st i" using same by (simp add: seen_bit_def)
        then show ?thesis using T that(1) by (auto simp: tracked_def)
      next
        assume a: "htype ?f = PB_HTYPE_REQUIRED \<and> unat (required_field_index (ns_iter st1)) = i"
        have "required_before flds (it_pos it) \<le> length flds" by (simp add: required_before_def) (metis le_trans length_filter_le length_take min.cobounded1)
        then have "unat (of_nat (required_before flds (it_pos it)) :: u32) = required_before flds (it_pos it)"
          using small by (simp add: unat_of_nat take_bit_nat_eq_self_iff)
        then have "required_at flds i (it_pos it)" using a it(1) on_table_length [OF it(1)] same by (simp add: required_at_def on_table_def)
        then show ?thesis using it(2) True by blast
      qed
    qed
    moreover have "length (fields_seen st') = 2" using same T by (simp add: st' mark_seen_def Let_def tracked_def)
    ultimately show ?thesis using it' by (simp add: tracked_def st')
  qed
qed

lemma tracked_mono: "tracked flds st T \<Longrightarrow> T \<subseteq> T' \<Longrightarrow> tracked flds st T'"
  unfolding tracked_def by blast

text \<open>A step that leaves the loop early without an error has read no key and marked nothing.\<close>

lemma noinit_step_break:
  assumes "noinit_step n decs E st s h = Some (LBreak, st', s', h')"
  shows "st' = st"
  using assms
  by (auto simp: noinit_step_def known_field_def unknown_field_def Let_def bind_eq_Some_conv split: option.splits if_splits)

lemma noinit_step_continue:
  assumes "noinit_step n decs E st s h = Some (LContinue, st', s', h')"
  shows "\<exists>wt tg e s1 h1. pb_decode_tag E s h = Some (Some (wt, tg), e, s1, h1)"
  using assms by (auto simp: noinit_step_def bind_eq_Some_conv split: option.splits if_splits)

lemma noinit_loop_keys:
  assumes "length flds < 2 ^ 32" "noinit_loop step st s h = Some r"
  shows "step = noinit_step n decs E \<longrightarrow> fst r \<longrightarrow> tracked flds st T \<longrightarrow>
    (\<exists>tgs. keys_read E step st s h tgs (fst (snd r)) \<and> tracked flds (fst (snd r)) (T \<union> set tgs))"
proof (rule noinit_loop.raw_induct [of "\<lambda>step st s h r. \<forall>T. step = noinit_step n decs E \<longrightarrow> fst r \<longrightarrow> tracked flds st T \<longrightarrow>
    (\<exists>tgs. keys_read E step st s h tgs (fst (snd r)) \<and> tracked flds (fst (snd r)) (T \<union> set tgs))", OF _ assms(2), THEN spec])
  fix loop step st s h r
  assume IH: "\<And>step st s h r. loop step st s h = Some r \<Longrightarrow> \<forall>T. step = noinit_step n decs E \<longrightarrow> fst r \<longrightarrow> tracked flds st T \<longrightarrow>
      (\<exists>tgs. keys_read E step st s h tgs (fst (snd r)) \<and> tracked flds (fst (snd r)) (T \<union> set tgs))"
    and run: "(if bytes_left s = 0 then Some (True, st, s, h)
      else Option.bind (step st s h) (\<lambda>(c, st, s, h). case c of LContinue \<Rightarrow> loop step st s h
         | LBreak \<Rightarrow> Some (True, st, s, h) | LReturnFalse \<Rightarrow> Some (False, st, s, h))) = Some r"
  show "\<forall>T. step = noinit_step n decs E \<longrightarrow> fst r \<longrightarrow> tracked flds st T \<longrightarrow>
      (\<exists>tgs. keys_read E step st s h tgs (fst (snd r)) \<and> tracked flds (fst (snd r)) (T \<union> set tgs))"
  proof (intro allI impI)
    fix T assume st: "step = noinit_step n decs E" and ok: "fst r" and T: "tracked flds st T"
    show "\<exists>tgs. keys_read E step st s h tgs (fst (snd r)) \<and> tracked flds (fst (snd r)) (T \<union> set tgs)"
    proof (cases "bytes_left s = 0")
      case True
      then have "fst (snd r) = st" using run by auto
      then show ?thesis using T keys_end [of E step st s h] by (intro exI [of _ "[]"]) simp
    next
      case False
      then obtain c st1 s2 h2 where c: "step st s h = Some (c, st1, s2, h2)"
        and rest: "(case c of LContinue \<Rightarrow> loop step st1 s2 h2 | LBreak \<Rightarrow> Some (True, st1, s2, h2)
           | LReturnFalse \<Rightarrow> Some (False, st1, s2, h2)) = Some r"
        using run by (auto simp: bind_eq_Some_conv)
      show ?thesis
      proof (cases c)
        case LContinue
        obtain wt tg e s1 h1 where tag: "pb_decode_tag E s h = Some (Some (wt, tg), e, s1, h1)"
          using noinit_step_continue c LContinue st by blast
        have "tracked flds st1 (insert tg T)" using tracked_step [OF assms(1) T tag] c LContinue st by blast
        then obtain tgs where "keys_read E step st1 s2 h2 tgs (fst (snd r))" "tracked flds (fst (snd r)) (insert tg T \<union> set tgs)"
          using IH [of step st1 s2 h2 r] rest LContinue st ok by auto
        then show ?thesis
          using keys_step [OF tag] c LContinue by (intro exI [of _ "tg # tgs"]) simp
      next
        case LBreak
        then have "fst (snd r) = st" using rest noinit_step_break c st by auto
        then show ?thesis using T keys_end [of E step st s h] by (intro exI [of _ "[]"]) simp
      next
        case LReturnFalse
        then show ?thesis using rest ok by auto
      qed
    qed
  qed
qed

text \<open>The final check: the number of required fields, at most 64, and their bits.\<close>

lemma seek_end_required:
  assumes "on_table flds it" "seek_end it = Some (req, ty, it')"
  shows "(if nfields flds = 0 then req = 0
     else req = of_nat (required_before flds (nfields flds - 1)) \<and> ty = ftype (flds ! (nfields flds - 1))) \<and>
    it_field it' = Some (flds ! 0)"
  using assms
proof (induction "nfields flds - it_pos it" arbitrary: it rule: less_induct)
  case less
  obtain b it1 where n: "pb_field_iter_next it = Some (b, it1)"
    and r: "(if b then seek_end it1 else Some (required_field_index it, ftype (flds ! it_pos it), it1)) = Some (req, ty, it')"
    using less.prems(2) on_table_field [OF less.prems(1)] by (subst (asm) seek_end.simps) (auto simp: bind_eq_Some_conv split: if_splits)
  have it1: "on_table flds it1" using on_table_next [OF less.prems(1) n] .
  note pos = on_table_next_pos [OF less.prems(1) n]
  have lt: "it_pos it < max 1 (nfields flds)" using less.prems(1) by (simp add: on_table_def)
  show ?case
  proof (cases b)
    case True
    have "it_pos it1 = Suc (it_pos it)" "Suc (it_pos it) < nfields flds" using True pos by simp_all
    then show ?thesis using less.hyps [of it1] it1 r True by simp
  next
    case False
    then have "it_pos it1 = 0" "\<not> Suc (it_pos it) < nfields flds" using pos by simp_all
    moreover from this have "it_pos it = nfields flds - 1" using lt by auto
    ultimately show ?thesis
      using r False less.prems(1) on_table_field [OF it1] by (auto simp: on_table_def required_before_def)
  qed
qed

lemma all_seen_bit:
  assumes "all_seen req seen" "i < unat req" "length seen = 2" "unat req \<le> 64"
  shows "bit (seen ! (i div 32)) (i mod 32)"
proof -
  have q: "unat (drop_bit 5 req) = unat req div 32" by (simp only: unat_drop_bit_eq) (simp add: drop_bit_eq_div)
  have r: "unat (req AND 31) = unat req mod 32"
  proof -
    have "req AND 31 = take_bit 5 req" by (simp add: take_bit_eq_mask mask_eq_exp_minus_1)
    moreover have "unat (take_bit 5 req) = unat req mod 32" by (simp only: unsigned_take_bit_eq) (simp add: take_bit_eq_mod)
    ultimately show ?thesis by simp
  qed
  consider "i div 32 < unat req div 32" | "i div 32 = unat req div 32" using assms(2) div_le_mono [of i "unat req" 32] by linarith
  then show ?thesis
  proof cases
    case 1
    then have "i div 32 < length (take (unat req div 32) seen)" using assms(3,4) by auto
    then have "take (unat req div 32) seen ! (i div 32) = - 1"
      using assms(1) unfolding all_seen_def q by (auto simp: list_all_length)
    then have "seen ! (i div 32) = - 1" using 1 by simp
    moreover have "i mod 32 < 32" by simp
    ultimately show ?thesis by (simp only: bit_minus_1_iff) simp
  next
    case 2
    then have lt: "i mod 32 < unat req mod 32" using assms(2) by (metis add_less_cancel_left div_mult_mod_eq)
    then have "req AND 31 \<noteq> 0" using r by (metis less_nat_zero_code unat_0)
    then have "seen ! (i div 32) = drop_bit (32 - unat req mod 32) (- 1)"
      using assms(1) 2 unfolding all_seen_def q r by simp
    moreover have "32 - unat req mod 32 + i mod 32 < 32" using lt mod_less_divisor [of 32 "unat req"] by linarith
    ultimately show ?thesis by (simp only: bit_drop_bit_eq bit_minus_1_iff comp_def) simp
  qed
qed

lemma check_required_bits:
  assumes wf: "wf_table flds" and small: "length flds < 2 ^ 32" and st: "on_table flds (ns_iter st)"
    and ok: "check_required st = Some True" and len: "length (fields_seen st) = 2"
    and k: "k < nfields flds" "htype (flds ! k) = PB_HTYPE_REQUIRED" "required_before flds k < 64"
  shows "seen_bit st (required_before flds k)"
proof -
  let ?total = "required_before flds (nfields flds)"
  have n: "0 < nfields flds" "length flds = Suc (nfields flds)" using k(1) wf_table_length [OF wf] by simp_all
  obtain req ty it where e: "seek_end (ns_iter st) = Some (req, ty, it)" using ok by (auto simp: check_required_def bind_eq_Some_conv)
  note r = seek_end_required [OF st e]
  have t0: "tag (flds ! 0) \<noteq> 0" using wf_table_field [OF wf] n(1) by blast
  have total: "?total = required_before flds (nfields flds - 1) + (if htype (flds ! (nfields flds - 1)) = PB_HTYPE_REQUIRED then 1 else 0)"
    using required_before_Suc [of "nfields flds - 1" flds] n by simp
  define req' where "req' = (if PB_HTYPE ty = PB_HTYPE_REQUIRED \<and> tag (flds ! 0) \<noteq> 0 then req + 1 else req)"
  have "req' = of_nat ?total" using r n(1) t0 unfolding req'_def total by (auto simp: add.commute)
  moreover have "?total \<le> nfields flds" unfolding required_before_def by (metis length_filter_le length_take le_trans min.cobounded2)
  ultimately have u: "unat req' = ?total" using small n(2) by (simp add: unat_of_nat take_bit_nat_eq_self_iff)
  define req'' where "req'' = (if PB_MAX_REQUIRED_FIELDS < req' then PB_MAX_REQUIRED_FIELDS else req')"
  have u'': "unat req'' = min 64 ?total"
    using u by (auto simp: req''_def PB_MAX_REQUIRED_FIELDS_def word_less_nat_alt)
  have "req'' = 0 \<or> all_seen req'' (fields_seen st)"
    using ok e r by (simp add: check_required_def Let_def req'_def req''_def cong: if_cong)
  moreover have "required_before flds (Suc k) \<le> ?total" using k(1) by (intro required_before_mono) simp
  then have lt: "required_before flds k < unat req''" using k n(2) by (simp add: required_before_Suc u'')
  ultimately have "all_seen req'' (fields_seen st)" by auto
  then show ?thesis using all_seen_bit [OF _ lt len] u'' by (simp add: seen_bit_def)
qed

text \<open>C3: When \<open>pb_decode_noinit\<close> returns true, a key of every required field has been read from the
  stream, for the first 64 required fields of the table (any table, static or not, any input).\<close>

theorem pb_decode_requires_fields:
  assumes "wf_table flds" "length flds < 2 ^ 32" "pb_decode_noinit (Suc n) E flds dest s h = Some (True, s', h')"
  shows "\<exists>it tgs st. keys_read E (noinit_step n (nested_of n E) E)
      \<lparr>ns_iter = it, fields_seen = [0, 0], extension_range_start = 0, fixed_count_field = None, fixed_count_size = 0\<rparr> s h tgs st \<and>
    (\<forall>k < nfields flds. htype (flds ! k) = PB_HTYPE_REQUIRED \<and> required_before flds k < 64 \<longrightarrow> tag (flds ! k) \<in> set tgs)"
proof -
  let ?init = "\<lambda>it. \<lparr>ns_iter = it, fields_seen = [0, 0], extension_range_start = 0, fixed_count_field = None, fixed_count_size = 0\<rparr>"
  have "noinit_body n (nested_of n E) E flds dest s h = Some (True, s', h')" using assms(3) by (simp add: nested_of_def)
  then obtain b it st s1 h1 where start: "pb_field_iter_begin flds dest = Some (b, it)"
    and loop: "noinit_loop (noinit_step n (nested_of n E) E) (?init it) s h = Some (True, st, s1, h1)"
    and check: "check_required st = Some True"
    by (auto simp: noinit_body_def bind_eq_Some_conv split: if_splits)
  have "\<not> seen_bit (?init it) i" if "i < 64" for i
  proof -
    have "i div 32 = 0 \<or> i div 32 = 1" using that by auto
    then show ?thesis by (auto simp: seen_bit_def)
  qed
  then have "tracked flds (?init it) {}" using on_table_begin [OF assms(1) start] by (simp add: tracked_def)
  then obtain tgs where keys: "keys_read E (noinit_step n (nested_of n E) E) (?init it) s h tgs st" and t: "tracked flds st (set tgs)"
    using noinit_loop_keys [OF assms(2) loop, of n "nested_of n E" E "{}"] by auto
  have "tag (flds ! k) \<in> set tgs"
    if k: "k < nfields flds" "htype (flds ! k) = PB_HTYPE_REQUIRED" "required_before flds k < 64" for k
  proof -
    have "seen_bit st (required_before flds k)"
      using check_required_bits [OF assms(1,2) _ check _ k] t by (simp add: tracked_def)
    then obtain k' where "required_at flds (required_before flds k) k'" "tag (flds ! k') \<in> set tgs"
      using t k(3) by (auto simp: tracked_def)
    moreover have "required_at flds (required_before flds k) k"
      using k wf_table_length [OF assms(1)] by (simp add: required_at_def)
    ultimately show ?thesis using required_at_unique by blast
  qed
  then show ?thesis using keys by blast
qed

theorem pb_decode_requires_fields_witness:
  "\<exists>it tgs st. keys_read nested_env (noinit_step 1 (nested_of 1 nested_env) nested_env)
      \<lparr>ns_iter = it, fields_seen = [0, 0], extension_range_start = 0, fixed_count_field = None, fixed_count_size = 0\<rparr>
      (pb_istream_from_buffer 2000 2) (nested_heap [0x08, 0x05]) tgs st \<and> 1 \<in> set tgs"
proof -
  have "map_option fst (pb_decode_noinit (Suc 1) nested_env nested_fields 1000 (pb_istream_from_buffer 2000 2) (nested_heap [0x08, 0x05])) =
      Some True" by code_simp
  then obtain s' h' where run: "pb_decode_noinit (Suc 1) nested_env nested_fields 1000 (pb_istream_from_buffer 2000 2)
      (nested_heap [0x08, 0x05]) = Some (True, s', h')" by auto
  have "wf_table nested_fields" "length nested_fields < 200" by code_simp+
  moreover have "nfields nested_fields = 3" "htype (nested_fields ! 0) = PB_HTYPE_REQUIRED" "required_before nested_fields 0 = 0"
    "tag (nested_fields ! 0) = 1" by code_simp+
  ultimately show ?thesis using pb_decode_requires_fields [OF _ _ run] by fastforce
qed

section \<open>Length-delimited messages\<close>

text \<open>C4: \<open>pb_decode_delimited\<close> into a static structure isolates the message: from a stream that starts with a
  length and has at least that many bytes behind it, it returns for every content of these bytes, the
  inner decoder sees exactly them, and on success the stream stands right behind them.\<close>

theorem pb_decode_delimited_isolates:
  assumes "static_ok n E (dom (hmem h)) flds sz" "0 < dest" "mapped (hmem h) dest sz"
    and "ibuf s h" "holds s h (leb128 len)" "len < 2 ^ 32" "length (leb128 len) + len \<le> unat (bytes_left s)"
  shows "\<exists>ok sub' s' h'. pb_decode n E flds dest ((iadvance s (length (leb128 len)))\<lparr>bytes_left := of_nat len\<rparr>) h = Some (ok, sub', h') \<and>
    pb_decode_delimited n E flds dest s h = Some (ok, s', h') \<and>
    (ok \<longrightarrow> is_state s' = is_state s + int (length (leb128 len) + len) \<and>
       unat (bytes_left s') = unat (bytes_left s) - (length (leb128 len) + len)) \<and>
    (\<forall>x. x \<notin> region dest sz \<longrightarrow> hmem h' x = hmem h x)"
proof -
  let ?k = "length (leb128 len)"
  let ?s1 = "iadvance s ?k"
  let ?sub = "?s1\<lparr>bytes_left := of_nat len\<rparr>" and ?s2 = "?s1\<lparr>bytes_left := bytes_left ?s1 - of_nat len\<rparr>"
  have len: "unat (of_nat len :: u64) = len" using assms(6) by (intro unat_u64_of_nat) simp
  have left: "unat (bytes_left ?s1) = unat (bytes_left s) - ?k" using assms(7) by (simp add: unat_minus_of_nat)
  have "pb_decode_varint32 E s h = Some (Some (of_nat len), ?s1, h)"
    using parsesD [OF parses_pb_decode_varint32 [OF assms(6)] assms(4,5)] .
  moreover have "\<not> bytes_left ?s1 < of_nat len"
    unfolding word_less_nat_alt len left using assms(7) by linarith
  ultimately have mk: "pb_make_string_substream E s h = Some (Some ?sub, ?s2, h)"
    by (simp add: pb_make_string_substream_def val_then_def ucast_of_nat_u32 [OF assms(6)] del: iadvance_simps)
  have ib: "ibuf ?s1 h" using ibuf_iadvance [OF assms(4)] assms(7) by simp
  have sub: "ibuf ?sub h"
    using ib left assms(7) mapped_prefix [of "hmem h" "is_state ?s1" "unat (bytes_left ?s1)" len]
    unfolding ibuf_def by (simp add: len del: iadvance_simps)
  have "region dest sz \<subseteq> dom (hmem h)" using assms(3) by (simp add: mapped_iff)
  with messages.nested [OF assms(1,2), of True]
  have "confined (dom (hmem h)) (region dest sz) (pb_decode n E flds dest)"
    by (simp add: nested_of_def pb_decode_def confined_def)
  then obtain ok sub' h' where d: "pb_decode n E flds dest ?sub h = Some (ok, sub', h')" "after ok ?sub sub'" "frame (region dest sz) h h'"
    using sub unfolding confined_def by blast
  let ?t = "?s2\<lparr>is_state := stream_end sub', is_errmsg := is_errmsg sub'\<rparr>"
  have cb: "is_callback sub' = IC_buf_read" using d(2) sub by (simp add: after_def ibuf_def)
  have "pb_decode_delimited n E flds dest s h = Some (ok, ?t, h')"
    using mk d(1) close_substream_cb [OF cb, of E ?s2 h']
    by (simp add: pb_decode_delimited_def val_do_def on_substream_def and_then_def)
  moreover have "ok \<longrightarrow> is_state ?t = is_state s + int (?k + len)"
    using d(2) len by (auto simp: after_def consumed_def stream_end_def)
  moreover have "unat (bytes_left ?t) = unat (bytes_left s) - (?k + len)"
    using left len assms(7) by (simp add: unat_minus_of_nat del: of_nat_add)
  ultimately show ?thesis using d(1,3) by (auto simp: frame_def)
qed

theorem pb_decode_delimited_isolates_witness:
  "\<exists>ok s' h'. pb_decode_delimited 2 nested_env nested_fields 1000 (pb_istream_from_buffer 2000 5)
      (nested_heap [0x02, 0x08, 0x05, 0x77, 0x77]) = Some (ok, s', h') \<and> ok \<and> is_state s' = 2003 \<and> unat (bytes_left s') = 2"
proof -
  let ?bs = "[0x02, 0x08, 0x05, 0x77, 0x77]" and ?s = "pb_istream_from_buffer 2000 5"
  have l: "length ?bs = 5" by simp
  have ib: "ibuf ?s (nested_heap ?bs)"
    using nested_heap_mapped(2) [of ?bs, unfolded l] by (simp add: ibuf_def pb_istream_from_buffer_def)
  have leb: "leb128 2 = [2]" by (subst leb128_small) simp_all
  have "load_bytes (hmem (nested_heap ?bs)) 2000 1 = Some [2]" by code_simp
  then have holds: "holds ?s (nested_heap ?bs) (leb128 2)" by (simp add: holds_def leb pb_istream_from_buffer_def)
  have ok: "map_option fst (pb_decode_delimited 2 nested_env nested_fields 1000 ?s (nested_heap ?bs)) = Some True" by code_simp
  have "unat (bytes_left ?s) = 5" "is_state ?s = 2000" by (simp_all add: pb_istream_from_buffer_def)
  then show ?thesis
    using pb_decode_delimited_isolates [OF nested_ok _ nested_heap_mapped(1) ib holds] ok leb by fastforce
qed

section \<open>A table without fields\<close>

text \<open>The comment in \<open>pb_decode_noinit\<close> says that empty message types are handled, but a key with field
  number 0 and a nonzero wire type matches the terminator of the table, and its value is stored as a
  \<open>bool\<close> at the start of the destination structure.\<close>

theorem empty_table_stores_bool:
  "map_option (\<lambda>(ok, s, h). (ok, hmem h 1000)) (pb_decode 1 sample_env [PB_LAST_FIELD] 1000 (pb_istream_from_buffer 2000 2)
     (nested_heap [0x01, 0x07])) = Some (True, Some 1)"
  by code_simp

end
