(* ===== verification/Boring_Mem.thy ===== *)
theory Boring_Mem
  imports Prelude
begin

text \<open>
  The memory and character helpers of BoringSSL the byte string code relies on:
  \<open>crypto/mem.c\<close> (constant time comparison, FNV-1a hash, bounded string length, character classes,
  case insensitive comparison, bounded copies) and the wrappers of \<open>crypto/internal.h\<close>. A character
  of a C string is a byte read as a signed \<open>char\<close>; a heap block handed to the caller is represented by
  its content, and whether the allocator can provide \<open>n\<close> bytes is the parameter \<open>can_alloc\<close>.
\<close>

section \<open>Wrappers of the C library\<close>

text \<open>\<open>memchr\<close> returns the address of the first occurrence, or null (\<^term>\<open>None\<close>).\<close>

primrec OPENSSL_memchr :: "mem \<Rightarrow> addr \<Rightarrow> u8 \<Rightarrow> nat \<Rightarrow> addr option option" where
  "OPENSSL_memchr m s c 0 = Some None"
| "OPENSSL_memchr m s c (Suc n) =
     (case m s of None \<Rightarrow> None
      | Some b \<Rightarrow> if b = c then Some (Some s) else OPENSSL_memchr m (s + 1) c n)"

text \<open>The sign of \<open>memcmp\<close>: the difference of the first bytes that differ.\<close>

primrec OPENSSL_memcmp :: "mem \<Rightarrow> addr \<Rightarrow> addr \<Rightarrow> nat \<Rightarrow> int option" where
  "OPENSSL_memcmp m s1 s2 0 = Some 0"
| "OPENSSL_memcmp m s1 s2 (Suc n) =
     (case (m s1, m s2) of
        (Some a, Some b) \<Rightarrow> if a = b then OPENSSL_memcmp m (s1 + 1) (s2 + 1) n else Some (uint a - uint b)
      | _ \<Rightarrow> None)"

text \<open>\<open>memcpy\<close> is undefined when the areas overlap.\<close>

definition OPENSSL_memcpy :: "mem \<Rightarrow> addr \<Rightarrow> addr \<Rightarrow> nat \<Rightarrow> mem option" where
  "OPENSSL_memcpy m dst src n =
     (if n = 0 then Some m
      else if dst < src + int n \<and> src < dst + int n then None
      else Option.bind (load_bytes m src n) (store_bytes m dst))"

definition CRYPTO_bswap2 :: "u16 \<Rightarrow> u16" where
  "CRYPTO_bswap2 x = drop_bit 8 x OR push_bit 8 x"

definition CRYPTO_bswap4 :: "u32 \<Rightarrow> u32" where
  "CRYPTO_bswap4 x =
     (let x = drop_bit 16 x OR push_bit 16 x
      in drop_bit 8 (x AND 0xFF00FF00) OR push_bit 8 (x AND 0x00FF00FF))"

definition CRYPTO_bswap8 :: "u64 \<Rightarrow> u64" where
  "CRYPTO_bswap8 x =
     ucast (CRYPTO_bswap4 (ucast (drop_bit 32 x))) OR push_bit 32 (ucast (CRYPTO_bswap4 (ucast x)))"

section \<open>Comparison and hashing\<close>

text \<open>\<open>for (i = 0; i < len; i++) x |= a[i] ^ b[i];\<close>\<close>

primrec memcmp_loop :: "mem \<Rightarrow> addr \<Rightarrow> addr \<Rightarrow> nat \<Rightarrow> u8 \<Rightarrow> u8 option" where
  "memcmp_loop m a b 0 x = Some x"
| "memcmp_loop m a b (Suc n) x =
     (case (m a, m b) of
        (Some v, Some w) \<Rightarrow> memcmp_loop m (a + 1) (b + 1) n (x OR (v XOR w))
      | _ \<Rightarrow> None)"

definition CRYPTO_memcmp :: "mem \<Rightarrow> addr \<Rightarrow> addr \<Rightarrow> nat \<Rightarrow> u8 option" where
  "CRYPTO_memcmp m a b n = memcmp_loop m a b n 0"

primrec hash32_loop :: "mem \<Rightarrow> addr \<Rightarrow> nat \<Rightarrow> u32 \<Rightarrow> u32 option" where
  "hash32_loop m p 0 h = Some h"
| "hash32_loop m p (Suc n) h =
     (case m p of None \<Rightarrow> None | Some b \<Rightarrow> hash32_loop m (p + 1) n ((h XOR ucast b) * 16777619))"

definition OPENSSL_hash32 :: "mem \<Rightarrow> addr \<Rightarrow> nat \<Rightarrow> u32 option" where
  "OPENSSL_hash32 m p n = hash32_loop m p n 2166136261"

section \<open>Strings\<close>

primrec OPENSSL_strnlen :: "mem \<Rightarrow> addr \<Rightarrow> nat \<Rightarrow> nat option" where
  "OPENSSL_strnlen m s 0 = Some 0"
| "OPENSSL_strnlen m s (Suc n) =
     (case m s of None \<Rightarrow> None
      | Some b \<Rightarrow> if b = 0 then Some 0 else map_option Suc (OPENSSL_strnlen m (s + 1) n))"

text \<open>\<open>strlen\<close> of the C library: it may run off the end of mapped memory.\<close>

partial_function (option) strlen :: "mem \<Rightarrow> addr \<Rightarrow> nat option" where
  "strlen m s =
     Option.bind (m s) (\<lambda>b. if b = 0 then Some 0 else Option.bind (strlen m (s + 1)) (\<lambda>n. Some (Suc n)))"

declare strlen.simps [code]

definition OPENSSL_isalpha :: "int \<Rightarrow> bool" where
  "OPENSSL_isalpha c \<longleftrightarrow> (97 \<le> c \<and> c \<le> 122) \<or> (65 \<le> c \<and> c \<le> 90)"

definition OPENSSL_isdigit :: "int \<Rightarrow> bool" where
  "OPENSSL_isdigit c \<longleftrightarrow> 48 \<le> c \<and> c \<le> 57"

definition OPENSSL_isxdigit :: "int \<Rightarrow> bool" where
  "OPENSSL_isxdigit c \<longleftrightarrow> OPENSSL_isdigit c \<or> (97 \<le> c \<and> c \<le> 102) \<or> (65 \<le> c \<and> c \<le> 70)"

definition OPENSSL_fromxdigit :: "int \<Rightarrow> u8 option" where
  "OPENSSL_fromxdigit c =
     (if OPENSSL_isdigit c then Some (word_of_int (c - 48))
      else if 97 \<le> c \<and> c \<le> 102 then Some (word_of_int (c - 97 + 10))
      else if 65 \<le> c \<and> c \<le> 70 then Some (word_of_int (c - 65 + 10))
      else None)"

definition OPENSSL_isalnum :: "int \<Rightarrow> bool" where
  "OPENSSL_isalnum c \<longleftrightarrow> OPENSSL_isalpha c \<or> OPENSSL_isdigit c"

definition OPENSSL_tolower :: "int \<Rightarrow> int" where
  "OPENSSL_tolower c = (if 65 \<le> c \<and> c \<le> 90 then c + (97 - 65) else c)"

definition OPENSSL_isspace :: "int \<Rightarrow> bool" where
  "OPENSSL_isspace c \<longleftrightarrow> c = 9 \<or> c = 10 \<or> c = 11 \<or> c = 12 \<or> c = 13 \<or> c = 32"

text \<open>The unbounded loop of \<open>strcasecmp\<close> ends at a difference or at the terminator.\<close>

partial_function (option) OPENSSL_strcasecmp :: "mem \<Rightarrow> addr \<Rightarrow> addr \<Rightarrow> int option" where
  "OPENSSL_strcasecmp m a b =
     Option.bind (m a) (\<lambda>x. Option.bind (m b) (\<lambda>y.
       let aa = OPENSSL_tolower (sint x); bb = OPENSSL_tolower (sint y) in
       if aa < bb then Some (- 1) else if bb < aa then Some 1 else if aa = 0 then Some 0
       else OPENSSL_strcasecmp m (a + 1) (b + 1)))"

declare OPENSSL_strcasecmp.simps [code]

primrec OPENSSL_strncasecmp :: "mem \<Rightarrow> addr \<Rightarrow> addr \<Rightarrow> nat \<Rightarrow> int option" where
  "OPENSSL_strncasecmp m a b 0 = Some 0"
| "OPENSSL_strncasecmp m a b (Suc n) =
     (case (m a, m b) of
        (Some x, Some y) \<Rightarrow>
          (let aa = OPENSSL_tolower (sint x); bb = OPENSSL_tolower (sint y) in
           if aa < bb then Some (- 1) else if bb < aa then Some 1 else if aa = 0 then Some 0
           else OPENSSL_strncasecmp m (a + 1) (b + 1) n)
      | _ \<Rightarrow> None)"

text \<open>\<open>for (; dst_size > 1 && *src; dst_size--) { *dst++ = *src++; l++; }\<close>, with the rest of \<open>OPENSSL_strlcpy\<close>.\<close>

primrec strlcpy_loop :: "mem \<Rightarrow> addr \<Rightarrow> addr \<Rightarrow> nat \<Rightarrow> nat \<Rightarrow> (nat \<times> mem) option" where
  "strlcpy_loop m dst src 0 l = Option.bind (strlen m src) (\<lambda>n. Some (l + n, m))"
| "strlcpy_loop m dst src (Suc k) l =
     (if k = 0
      then Option.bind (store_bytes m dst [0]) (\<lambda>m. Option.bind (strlen m src) (\<lambda>n. Some (l + n, m)))
      else
        Option.bind (m src) (\<lambda>b.
          if b = 0
          then Option.bind (store_bytes m dst [0]) (\<lambda>m. Option.bind (strlen m src) (\<lambda>n. Some (l + n, m)))
          else Option.bind (store_bytes m dst [b]) (\<lambda>m. strlcpy_loop m (dst + 1) (src + 1) k (Suc l))))"

definition OPENSSL_strlcpy :: "mem \<Rightarrow> addr \<Rightarrow> addr \<Rightarrow> nat \<Rightarrow> (nat \<times> mem) option" where
  "OPENSSL_strlcpy m dst src dst_size = strlcpy_loop m dst src dst_size 0"

primrec OPENSSL_strlcat :: "mem \<Rightarrow> addr \<Rightarrow> addr \<Rightarrow> nat \<Rightarrow> (nat \<times> mem) option" where
  "OPENSSL_strlcat m dst src 0 = OPENSSL_strlcpy m dst src 0"
| "OPENSSL_strlcat m dst src (Suc k) =
     Option.bind (m dst) (\<lambda>b.
       if b = 0 then OPENSSL_strlcpy m dst src (Suc k)
       else Option.bind (OPENSSL_strlcat m (dst + 1) src k) (\<lambda>(l, m). Some (Suc l, m)))"

section \<open>Copies on the heap\<close>

text \<open>The result is the content of the new block; null is \<^term>\<open>None\<close>.\<close>

definition OPENSSL_memdup :: "(nat \<Rightarrow> bool) \<Rightarrow> mem \<Rightarrow> addr \<Rightarrow> nat \<Rightarrow> u8 list option option" where
  "OPENSSL_memdup can_alloc m data sz =
     (if sz = 0 \<or> \<not> can_alloc sz then Some None else map_option Some (load_bytes m data sz))"

definition OPENSSL_strndup :: "(nat \<Rightarrow> bool) \<Rightarrow> mem \<Rightarrow> addr \<Rightarrow> nat \<Rightarrow> u8 list option option" where
  "OPENSSL_strndup can_alloc m str sz =
     Option.bind (OPENSSL_strnlen m str sz) (\<lambda>sz.
       if 2 ^ 64 \<le> int sz + 1 \<or> \<not> can_alloc (sz + 1) then Some None
       else map_option (\<lambda>bs. Some (bs @ [0])) (load_bytes m str sz))"

section \<open>What they compute\<close>

text \<open>The functions on memory, in terms of the bytes the arguments point to.\<close>

lemma load_bytes_Suc:
  "load_bytes m a (Suc n) = Some bs \<longleftrightarrow> (\<exists>b cs. bs = b # cs \<and> m a = Some b \<and> load_bytes m (a + 1) n = Some cs)"
  by (auto split: option.splits)

fun find_byte :: "u8 \<Rightarrow> u8 list \<Rightarrow> nat option" where
  "find_byte c [] = None"
| "find_byte c (b # bs) = (if b = c then Some 0 else map_option Suc (find_byte c bs))"

lemma find_byte_None [simp]: "find_byte c bs = None \<longleftrightarrow> c \<notin> set bs"
  by (induction bs) auto

lemma find_byte_Some:
  "find_byte c bs = Some i \<longleftrightarrow> i < length bs \<and> bs ! i = c \<and> c \<notin> set (take i bs)"
proof (induction bs arbitrary: i)
  case (Cons b bs)
  then show ?case by (cases i) auto
qed simp

lemma memchr_bytes:
  "load_bytes m s n = Some bs \<Longrightarrow> OPENSSL_memchr m s c n = Some (map_option (\<lambda>i. s + int i) (find_byte c bs))"
proof (induction n arbitrary: s bs)
  case (Suc n)
  then obtain b cs where bs: "bs = b # cs" "m s = Some b" "load_bytes m (s + 1) n = Some cs"
    by (auto simp: load_bytes_Suc simp del: load_bytes.simps)
  then show ?case by (auto simp: Suc.IH option.map_comp o_def algebra_simps)
qed simp

lemma xor_eq_0_iff: "(v :: 'a::len word) XOR w = 0 \<longleftrightarrow> v = w"
  by (metis xor_self_eq xor.assoc xor.right_neutral)

lemma memcmp_loop_bytes:
  assumes "load_bytes m a n = Some xs" "load_bytes m b n = Some ys"
  shows "\<exists>x'. memcmp_loop m a b n x = Some x' \<and> (x' = 0 \<longleftrightarrow> x = 0 \<and> xs = ys)"
  using assms
proof (induction n arbitrary: a b x xs ys)
  case (Suc n)
  then obtain v vs w ws where "xs = v # vs" "ys = w # ws" "m a = Some v" "m b = Some w"
    "load_bytes m (a + 1) n = Some vs" "load_bytes m (b + 1) n = Some ws"
    by (auto simp: load_bytes_Suc simp del: load_bytes.simps)
  moreover obtain x' where "memcmp_loop m (a + 1) (b + 1) n (x OR (v XOR w)) = Some x'"
    "x' = 0 \<longleftrightarrow> x OR (v XOR w) = 0 \<and> vs = ws"
    using Suc.IH calculation by blast
  moreover have "x OR (v XOR w) = 0 \<longleftrightarrow> x = 0 \<and> v = w"
    by (simp add: or_eq_0_iff xor_eq_0_iff)
  ultimately show ?case by simp
qed simp

lemma strnlen_bytes:
  "load_bytes m s n = Some bs \<Longrightarrow> OPENSSL_strnlen m s n = Some (length (takeWhile (\<lambda>b. b \<noteq> 0) bs))"
proof (induction n arbitrary: s bs)
  case (Suc n)
  then obtain b cs where "bs = b # cs" "m s = Some b" "load_bytes m (s + 1) n = Some cs"
    by (auto simp: load_bytes_Suc simp del: load_bytes.simps)
  then show ?case by (simp add: Suc.IH)
qed simp

end
