(* ===== verification/Boring_CBS.thy ===== *)
theory Boring_CBS
  imports Boring_Mem
begin

text \<open>
  The byte string reader of BoringSSL, \<open>crypto/bytestring/cbs.c\<close>. A \<open>CBS\<close> is a pointer and a length
  into memory the reader does not own. Every function that takes a \<open>CBS *\<close> returns the out parameter
  (\<^term>\<open>None\<close> for the return value zero) together with the reader's new state, also when it fails,
  since several of them consume input before they fail; the outer option is \<^term>\<open>None\<close> when the code
  would read unmapped memory.
\<close>

record CBS =
  cbs_data :: addr
  cbs_len :: u64

definition CBS_init :: "addr \<Rightarrow> u64 \<Rightarrow> CBS" where
  "CBS_init data len = \<lparr>cbs_data = data, cbs_len = len\<rparr>"

type_synonym 'a cbs_result = "('a option \<times> CBS) option"

text \<open>\<open>if (!f(cbs, &v)) return 0; k\<close>.\<close>

definition cbs_bind :: "'a cbs_result \<Rightarrow> ('a \<Rightarrow> CBS \<Rightarrow> 'b cbs_result) \<Rightarrow> 'b cbs_result" where
  "cbs_bind r k =
     (case r of None \<Rightarrow> None | Some (None, c) \<Rightarrow> Some (None, c) | Some (Some v, c) \<Rightarrow> k v c)"

text \<open>The same for a call on a local copy of the reader: \<open>c\<close> is what the caller's reader stays at.\<close>

definition cbs_peek :: "CBS \<Rightarrow> 'a cbs_result \<Rightarrow> ('a \<Rightarrow> CBS \<Rightarrow> 'b cbs_result) \<Rightarrow> 'b cbs_result" where
  "cbs_peek c r k =
     (case r of None \<Rightarrow> None | Some (None, _) \<Rightarrow> Some (None, c) | Some (Some v, copy) \<Rightarrow> k v copy)"

lemma cbs_bind_cong [fundef_cong]:
  "r = r' \<Longrightarrow> (\<And>v c. r' = Some (Some v, c) \<Longrightarrow> k v c = k' v c) \<Longrightarrow> cbs_bind r k = cbs_bind r' k'"
  by (auto simp: cbs_bind_def split: option.splits)

lemma cbs_bind_simps [simp]:
  "cbs_bind None k = None"
  "cbs_bind (Some (None, c)) k = Some (None, c)"
  "cbs_bind (Some (Some v, c)) k = k v c"
  by (simp_all add: cbs_bind_def)

lemma cbs_peek_simps [simp]:
  "cbs_peek c None k = None"
  "cbs_peek c (Some (None, d)) k = Some (None, c)"
  "cbs_peek c (Some (Some v, d)) k = k v d"
  by (simp_all add: cbs_peek_def)

section \<open>Bytes and words\<close>

definition cbs_get :: "u64 \<Rightarrow> CBS \<Rightarrow> addr cbs_result" where
  "cbs_get n c =
     Some (if cbs_len c < n then (None, c)
           else (Some (cbs_data c), \<lparr>cbs_data = cbs_data c + uint n, cbs_len = cbs_len c - n\<rparr>))"

definition CBS_skip :: "u64 \<Rightarrow> CBS \<Rightarrow> unit cbs_result" where
  "CBS_skip n c = cbs_bind (cbs_get n c) (\<lambda>_ c. Some (Some (), c))"

text \<open>
  \<open>CBS_stow\<close> and \<open>CBS_strdup\<close> free the block the caller passes in and hand out a copy; the result is
  the return value and the content of the new block.
\<close>

definition CBS_stow :: "(nat \<Rightarrow> bool) \<Rightarrow> mem \<Rightarrow> CBS \<Rightarrow> (bool \<times> u8 list option) option" where
  "CBS_stow can_alloc m c =
     (if cbs_len c = 0 then Some (True, None)
      else map_option (\<lambda>p. (p \<noteq> None, p)) (OPENSSL_memdup can_alloc m (cbs_data c) (unat (cbs_len c))))"

definition CBS_strdup :: "(nat \<Rightarrow> bool) \<Rightarrow> mem \<Rightarrow> CBS \<Rightarrow> (bool \<times> u8 list option) option" where
  "CBS_strdup can_alloc m c =
     map_option (\<lambda>p. (p \<noteq> None, p)) (OPENSSL_strndup can_alloc m (cbs_data c) (unat (cbs_len c)))"

definition CBS_contains_zero_byte :: "mem \<Rightarrow> CBS \<Rightarrow> bool option" where
  "CBS_contains_zero_byte m c =
     map_option (\<lambda>p. p \<noteq> None) (OPENSSL_memchr m (cbs_data c) 0 (unat (cbs_len c)))"

definition CBS_mem_equal :: "mem \<Rightarrow> CBS \<Rightarrow> addr \<Rightarrow> u64 \<Rightarrow> bool option" where
  "CBS_mem_equal m c data len =
     (if len \<noteq> cbs_len c then Some False
      else map_option (\<lambda>x. x = 0) (CRYPTO_memcmp m (cbs_data c) data (unat len)))"

text \<open>\<open>for (i = 0; i < len; i++) { result <<= 8; result |= data[i]; }\<close>\<close>

primrec be_loop :: "mem \<Rightarrow> addr \<Rightarrow> nat \<Rightarrow> u64 \<Rightarrow> u64 option" where
  "be_loop m p 0 result = Some result"
| "be_loop m p (Suc n) result =
     (case m p of None \<Rightarrow> None | Some b \<Rightarrow> be_loop m (p + 1) n (push_bit 8 result OR ucast b))"

definition cbs_get_u :: "mem \<Rightarrow> u64 \<Rightarrow> CBS \<Rightarrow> u64 cbs_result" where
  "cbs_get_u m len c =
     cbs_bind (cbs_get len c) (\<lambda>data c. map_option (\<lambda>v. (Some v, c)) (be_loop m data (unat len) 0))"

definition CBS_get_u8 :: "mem \<Rightarrow> CBS \<Rightarrow> u8 cbs_result" where
  "CBS_get_u8 m c = cbs_bind (cbs_get 1 c) (\<lambda>v c. map_option (\<lambda>b. (Some b, c)) (m v))"

definition CBS_get_u16 :: "mem \<Rightarrow> CBS \<Rightarrow> u16 cbs_result" where
  "CBS_get_u16 m c = cbs_bind (cbs_get_u m 2 c) (\<lambda>v c. Some (Some (ucast v), c))"

definition CBS_get_u16le :: "mem \<Rightarrow> CBS \<Rightarrow> u16 cbs_result" where
  "CBS_get_u16le m c = cbs_bind (CBS_get_u16 m c) (\<lambda>v c. Some (Some (CRYPTO_bswap2 v), c))"

definition CBS_get_u24 :: "mem \<Rightarrow> CBS \<Rightarrow> u32 cbs_result" where
  "CBS_get_u24 m c = cbs_bind (cbs_get_u m 3 c) (\<lambda>v c. Some (Some (ucast v), c))"

definition CBS_get_u32 :: "mem \<Rightarrow> CBS \<Rightarrow> u32 cbs_result" where
  "CBS_get_u32 m c = cbs_bind (cbs_get_u m 4 c) (\<lambda>v c. Some (Some (ucast v), c))"

definition CBS_get_u32le :: "mem \<Rightarrow> CBS \<Rightarrow> u32 cbs_result" where
  "CBS_get_u32le m c = cbs_bind (CBS_get_u32 m c) (\<lambda>v c. Some (Some (CRYPTO_bswap4 v), c))"

definition CBS_get_u64 :: "mem \<Rightarrow> CBS \<Rightarrow> u64 cbs_result" where
  "CBS_get_u64 m c = cbs_get_u m 8 c"

definition CBS_get_u64le :: "mem \<Rightarrow> CBS \<Rightarrow> u64 cbs_result" where
  "CBS_get_u64le m c = cbs_bind (cbs_get_u m 8 c) (\<lambda>v c. Some (Some (CRYPTO_bswap8 v), c))"

definition CBS_get_last_u8 :: "mem \<Rightarrow> CBS \<Rightarrow> u8 cbs_result" where
  "CBS_get_last_u8 m c =
     (if cbs_len c = 0 then Some (None, c)
      else map_option (\<lambda>b. (Some b, c\<lparr>cbs_len := cbs_len c - 1\<rparr>)) (m (cbs_data c + uint (cbs_len c - 1))))"

definition CBS_get_bytes :: "u64 \<Rightarrow> CBS \<Rightarrow> CBS cbs_result" where
  "CBS_get_bytes len c = cbs_bind (cbs_get len c) (\<lambda>v c. Some (Some (CBS_init v len), c))"

text \<open>The out parameter of \<open>CBS_copy_bytes\<close> is memory.\<close>

definition CBS_copy_bytes :: "mem \<Rightarrow> addr \<Rightarrow> u64 \<Rightarrow> CBS \<Rightarrow> mem cbs_result" where
  "CBS_copy_bytes m out len c =
     cbs_bind (cbs_get len c) (\<lambda>v c. map_option (\<lambda>m. (Some m, c)) (OPENSSL_memcpy m out v (unat len)))"

definition cbs_get_length_prefixed :: "mem \<Rightarrow> u64 \<Rightarrow> CBS \<Rightarrow> CBS cbs_result" where
  "cbs_get_length_prefixed m len_len c = cbs_bind (cbs_get_u m len_len c) (\<lambda>len c. CBS_get_bytes len c)"

definition CBS_get_u8_length_prefixed :: "mem \<Rightarrow> CBS \<Rightarrow> CBS cbs_result" where
  "CBS_get_u8_length_prefixed m c = cbs_get_length_prefixed m 1 c"

definition CBS_get_u16_length_prefixed :: "mem \<Rightarrow> CBS \<Rightarrow> CBS cbs_result" where
  "CBS_get_u16_length_prefixed m c = cbs_get_length_prefixed m 2 c"

definition CBS_get_u24_length_prefixed :: "mem \<Rightarrow> CBS \<Rightarrow> CBS cbs_result" where
  "CBS_get_u24_length_prefixed m c = cbs_get_length_prefixed m 3 c"

definition CBS_get_until_first :: "mem \<Rightarrow> u8 \<Rightarrow> CBS \<Rightarrow> CBS cbs_result" where
  "CBS_get_until_first m b c =
     (case OPENSSL_memchr m (cbs_data c) b (unat (cbs_len c)) of None \<Rightarrow> None
      | Some None \<Rightarrow> Some (None, c)
      | Some (Some split) \<Rightarrow> CBS_get_bytes (word_of_int (split - cbs_data c)) c)"

section \<open>Numbers in text and in base 128\<close>

lemma CBS_skip_less: "CBS_skip 1 c = Some (r, c') \<Longrightarrow> cbs_len c \<noteq> 0 \<Longrightarrow> unat (cbs_len c') < unat (cbs_len c)"
  by (auto simp: CBS_skip_def cbs_get_def unat_minus_one unat_gt_0 split: if_splits)

lemma CBS_get_u8_less: "CBS_get_u8 m c = Some (Some b, c') \<Longrightarrow> unat (cbs_len c') < unat (cbs_len c)"
  by (auto simp: CBS_get_u8_def cbs_get_def unat_minus_one unat_gt_0 split: if_splits)

function decimal_loop :: "mem \<Rightarrow> u64 \<Rightarrow> bool \<Rightarrow> CBS \<Rightarrow> u64 cbs_result" where
  "decimal_loop m v seen_digit c =
     (if cbs_len c = 0 then Some (if seen_digit then Some v else None, c)
      else
        (case m (cbs_data c) of None \<Rightarrow> None
         | Some ch \<Rightarrow>
             if \<not> OPENSSL_isdigit (uint ch) then Some (if seen_digit then Some v else None, c)
             else
               (case CBS_skip 1 c of None \<Rightarrow> None
                | Some (_, c') \<Rightarrow>
                    if (v = 0 \<and> seen_digit) \<or> - 1 div 10 < v \<or> - 1 - (ucast ch - 48) < v * 10
                    then Some (None, c')
                    else decimal_loop m (v * 10 + (ucast ch - 48)) True c')))"
  by pat_completeness auto
termination
  by (relation "measure (\<lambda>(m, v, seen_digit, c). unat (cbs_len c))") (auto dest: CBS_skip_less)

declare decimal_loop.simps [simp del]

definition CBS_get_u64_decimal :: "mem \<Rightarrow> CBS \<Rightarrow> u64 cbs_result" where
  "CBS_get_u64_decimal m c = decimal_loop m 0 False c"

function base128_loop :: "mem \<Rightarrow> u64 \<Rightarrow> CBS \<Rightarrow> u64 cbs_result" where
  "base128_loop m v c =
     cbs_bind (CBS_get_u8 m c) (\<lambda>b c'.
       if drop_bit (64 - 7) v \<noteq> 0 then Some (None, c')
       else if v = 0 \<and> b = 0x80 then Some (None, c')
       else
         (let v' = push_bit 7 v OR ucast (b AND 0x7F)
          in if b AND 0x80 \<noteq> 0 then base128_loop m v' c' else Some (Some v', c')))"
  by pat_completeness auto
termination
  by (relation "measure (\<lambda>(m, v, c). unat (cbs_len c))") (auto dest: CBS_get_u8_less)

declare base128_loop.simps [simp del]

definition parse_base128_integer :: "mem \<Rightarrow> CBS \<Rightarrow> u64 cbs_result" where
  "parse_base128_integer m c = base128_loop m 0 c"

section \<open>ASN.1 elements\<close>

definition CBS_ASN1_CONSTRUCTED :: u32 where "CBS_ASN1_CONSTRUCTED = push_bit 24 0x20"
definition CBS_ASN1_TAG_NUMBER_MASK :: u32 where "CBS_ASN1_TAG_NUMBER_MASK = push_bit (5 + 24) 1 - 1"
definition CBS_ASN1_BOOLEAN :: u32 where "CBS_ASN1_BOOLEAN = 0x1"
definition CBS_ASN1_INTEGER :: u32 where "CBS_ASN1_INTEGER = 0x2"
definition CBS_ASN1_OCTETSTRING :: u32 where "CBS_ASN1_OCTETSTRING = 0x4"

definition parse_asn1_tag :: "mem \<Rightarrow> CBS \<Rightarrow> u32 cbs_result" where
  "parse_asn1_tag m c =
     cbs_bind (CBS_get_u8 m c) (\<lambda>tag_byte c.
       let tag = push_bit 24 (ucast tag_byte AND 0xE0);
           tag_number = ucast tag_byte AND 0x1F;
           finish = (\<lambda>tag_number c.
             if (tag OR tag_number) AND NOT CBS_ASN1_CONSTRUCTED = 0 then Some (None, c)
             else Some (Some (tag OR tag_number), c))
       in if tag_number = 0x1F
          then cbs_bind (parse_base128_integer m c) (\<lambda>v c.
                 if ucast CBS_ASN1_TAG_NUMBER_MASK < v \<or> v < 0x1F then Some (None, c)
                 else finish (ucast v) c)
          else finish tag_number c)"

text \<open>The out parameters of \<open>cbs_get_any_asn1_element\<close>.\<close>

record asn1_element =
  el_out :: CBS
  el_tag :: u32
  el_header_len :: u64
  el_ber_found :: bool
  el_indefinite :: bool

text \<open>The final \<open>CBS_get_bytes(cbs, out, len)\<close> with the other out parameters.\<close>

definition take_element :: "u64 \<Rightarrow> u32 \<Rightarrow> u64 \<Rightarrow> bool \<Rightarrow> bool \<Rightarrow> CBS \<Rightarrow> asn1_element cbs_result" where
  "take_element len tag header_len ber indef c =
     cbs_bind (CBS_get_bytes len c) (\<lambda>out c.
       Some (Some \<lparr>el_out = out, el_tag = tag, el_header_len = header_len, el_ber_found = ber,
                   el_indefinite = indef\<rparr>, c))"

definition cbs_get_any_asn1_element :: "mem \<Rightarrow> bool \<Rightarrow> CBS \<Rightarrow> asn1_element cbs_result" where
  "cbs_get_any_asn1_element m ber_ok c =
     cbs_peek c (parse_asn1_tag m c) (\<lambda>tag header.
     cbs_peek c (CBS_get_u8 m header) (\<lambda>length_byte header.
       let header_len = cbs_len c - cbs_len header in
       if length_byte AND 0x80 = 0
       then take_element (ucast length_byte + header_len) tag header_len False False c
       else
         (let num_bytes = ucast (length_byte AND 0x7F) in
          if ber_ok \<and> tag AND CBS_ASN1_CONSTRUCTED \<noteq> 0 \<and> num_bytes = 0
          then take_element header_len tag header_len True True c
          else if num_bytes = 0 \<or> 4 < num_bytes then Some (None, c)
          else cbs_peek c (cbs_get_u m num_bytes header) (\<lambda>len64 header.
            if len64 < 128 \<and> \<not> ber_ok then Some (None, c)
            else if drop_bit (unat ((num_bytes - 1) * 8)) len64 = 0 \<and> \<not> ber_ok then Some (None, c)
            else if len64 + header_len + num_bytes < len64 then Some (None, c)
            else take_element (len64 + (header_len + num_bytes)) tag (header_len + num_bytes)
                   (len64 < 128 \<or> drop_bit (unat ((num_bytes - 1) * 8)) len64 = 0) False c))))"

definition CBS_get_any_asn1_element :: "mem \<Rightarrow> CBS \<Rightarrow> asn1_element cbs_result" where
  "CBS_get_any_asn1_element m c = cbs_get_any_asn1_element m False c"

definition CBS_get_any_ber_asn1_element :: "mem \<Rightarrow> CBS \<Rightarrow> asn1_element cbs_result" where
  "CBS_get_any_ber_asn1_element m c = cbs_get_any_asn1_element m True c"

definition CBS_get_any_asn1 :: "mem \<Rightarrow> CBS \<Rightarrow> (CBS \<times> u32) cbs_result" where
  "CBS_get_any_asn1 m c =
     cbs_bind (CBS_get_any_asn1_element m c) (\<lambda>el c.
       cbs_peek c (CBS_skip (el_header_len el) (el_out el)) (\<lambda>_ out. Some (Some (out, el_tag el), c)))"

text \<open>An element with another tag is consumed although the call fails.\<close>

definition cbs_get_asn1 :: "mem \<Rightarrow> u32 \<Rightarrow> bool \<Rightarrow> CBS \<Rightarrow> CBS cbs_result" where
  "cbs_get_asn1 m tag_value skip_header c =
     cbs_bind (CBS_get_any_asn1_element m c) (\<lambda>el c.
       if el_tag el \<noteq> tag_value then Some (None, c)
       else if skip_header
       then cbs_peek c (CBS_skip (el_header_len el) (el_out el)) (\<lambda>_ out. Some (Some out, c))
       else Some (Some (el_out el), c))"

definition CBS_get_asn1 :: "mem \<Rightarrow> u32 \<Rightarrow> CBS \<Rightarrow> CBS cbs_result" where
  "CBS_get_asn1 m tag_value c = cbs_get_asn1 m tag_value True c"

definition CBS_get_asn1_element :: "mem \<Rightarrow> u32 \<Rightarrow> CBS \<Rightarrow> CBS cbs_result" where
  "CBS_get_asn1_element m tag_value c = cbs_get_asn1 m tag_value False c"

definition CBS_peek_asn1_tag :: "mem \<Rightarrow> u32 \<Rightarrow> CBS \<Rightarrow> bool option" where
  "CBS_peek_asn1_tag m tag_value c = map_option (\<lambda>(r, _). r = Some tag_value) (parse_asn1_tag m c)"

section \<open>ASN.1 values\<close>

text \<open>The result is \<open>is_negative\<close>; an invalid encoding is \<^term>\<open>Some None\<close>.\<close>

definition CBS_is_valid_asn1_integer :: "mem \<Rightarrow> CBS \<Rightarrow> bool option option" where
  "CBS_is_valid_asn1_integer m c =
     (case CBS_get_u8 m c of None \<Rightarrow> None
      | Some (None, _) \<Rightarrow> Some None
      | Some (Some first_byte, copy) \<Rightarrow>
          (case CBS_get_u8 m copy of None \<Rightarrow> None
           | Some (None, _) \<Rightarrow> Some (Some (first_byte AND 0x80 \<noteq> 0))
           | Some (Some second_byte, _) \<Rightarrow>
               if (first_byte = 0 \<and> second_byte AND 0x80 = 0) \<or> (first_byte = 0xFF \<and> second_byte AND 0x80 \<noteq> 0)
               then Some None
               else Some (Some (first_byte AND 0x80 \<noteq> 0))))"

definition CBS_is_unsigned_asn1_integer :: "mem \<Rightarrow> CBS \<Rightarrow> bool option" where
  "CBS_is_unsigned_asn1_integer m c = map_option (\<lambda>r. r = Some False) (CBS_is_valid_asn1_integer m c)"

text \<open>\<open>if ((*out >> 56) != 0) return 0; *out <<= 8; *out |= data[i];\<close>\<close>

primrec uint64_loop :: "mem \<Rightarrow> addr \<Rightarrow> nat \<Rightarrow> u64 \<Rightarrow> u64 option option" where
  "uint64_loop m p 0 out = Some (Some out)"
| "uint64_loop m p (Suc n) out =
     (if drop_bit 56 out \<noteq> 0 then Some None
      else (case m p of None \<Rightarrow> None | Some b \<Rightarrow> uint64_loop m (p + 1) n (push_bit 8 out OR ucast b)))"

definition CBS_get_asn1_uint64 :: "mem \<Rightarrow> CBS \<Rightarrow> u64 cbs_result" where
  "CBS_get_asn1_uint64 m c =
     cbs_bind (CBS_get_asn1 m CBS_ASN1_INTEGER c) (\<lambda>bytes c.
       Option.bind (CBS_is_unsigned_asn1_integer m bytes) (\<lambda>unsigned_int.
         if \<not> unsigned_int then Some (None, c)
         else map_option (\<lambda>r. (r, c)) (uint64_loop m (cbs_data bytes) (unat (cbs_len bytes)) 0)))"

text \<open>The content is copied behind the sign extension and read as a big-endian word.\<close>

definition CBS_get_asn1_int64 :: "mem \<Rightarrow> CBS \<Rightarrow> u64 cbs_result" where
  "CBS_get_asn1_int64 m c =
     cbs_bind (CBS_get_asn1 m CBS_ASN1_INTEGER c) (\<lambda>bytes c.
       Option.bind (CBS_is_valid_asn1_integer m bytes) (\<lambda>valid.
         case valid of None \<Rightarrow> Some (None, c)
         | Some is_negative \<Rightarrow>
             if 8 < cbs_len bytes then Some (None, c)
             else
               map_option (\<lambda>bs.
                   (Some (CRYPTO_bswap8 (le_word
                      (replicate (8 - length bs) (if is_negative then 0xFF else 0) @ bs))), c))
                 (load_bytes m (cbs_data bytes) (unat (cbs_len bytes)))))"

definition CBS_get_asn1_bool :: "mem \<Rightarrow> CBS \<Rightarrow> bool cbs_result" where
  "CBS_get_asn1_bool m c =
     cbs_bind (CBS_get_asn1 m CBS_ASN1_BOOLEAN c) (\<lambda>bytes c.
       if cbs_len bytes \<noteq> 1 then Some (None, c)
       else
         Option.bind (m (cbs_data bytes)) (\<lambda>v.
           if v \<noteq> 0 \<and> v \<noteq> 0xFF then Some (None, c) else Some (Some (v \<noteq> 0), c)))"

text \<open>The value is \<open>out\<close> when the element is present.\<close>

definition CBS_get_optional_asn1 :: "mem \<Rightarrow> u32 \<Rightarrow> CBS \<Rightarrow> CBS option cbs_result" where
  "CBS_get_optional_asn1 m tag c =
     Option.bind (CBS_peek_asn1_tag m tag c) (\<lambda>present.
       if present then cbs_bind (CBS_get_asn1 m tag c) (\<lambda>out c. Some (Some (Some out), c))
       else Some (Some None, c))"

definition CBS_get_optional_asn1_octet_string :: "mem \<Rightarrow> u32 \<Rightarrow> CBS \<Rightarrow> (CBS \<times> bool) cbs_result" where
  "CBS_get_optional_asn1_octet_string m tag c =
     cbs_bind (CBS_get_optional_asn1 m tag c) (\<lambda>child c.
       case child of None \<Rightarrow> Some (Some (CBS_init 0 0, False), c)
       | Some child \<Rightarrow>
           cbs_peek c (CBS_get_asn1 m CBS_ASN1_OCTETSTRING child) (\<lambda>out child.
             if cbs_len child \<noteq> 0 then Some (None, c) else Some (Some (out, True), c)))"

definition CBS_get_optional_asn1_uint64 :: "mem \<Rightarrow> u32 \<Rightarrow> u64 \<Rightarrow> CBS \<Rightarrow> u64 cbs_result" where
  "CBS_get_optional_asn1_uint64 m tag default_value c =
     cbs_bind (CBS_get_optional_asn1 m tag c) (\<lambda>child c.
       case child of None \<Rightarrow> Some (Some default_value, c)
       | Some child \<Rightarrow>
           cbs_peek c (CBS_get_asn1_uint64 m child) (\<lambda>out child.
             if cbs_len child \<noteq> 0 then Some (None, c) else Some (Some out, c)))"

definition CBS_get_optional_asn1_bool :: "mem \<Rightarrow> u32 \<Rightarrow> bool \<Rightarrow> CBS \<Rightarrow> bool cbs_result" where
  "CBS_get_optional_asn1_bool m tag default_value c =
     cbs_bind (CBS_get_optional_asn1 m tag c) (\<lambda>child c.
       case child of None \<Rightarrow> Some (Some default_value, c)
       | Some child \<Rightarrow>
           cbs_peek c (CBS_get_asn1 m CBS_ASN1_BOOLEAN child) (\<lambda>child2 child.
             if cbs_len child2 \<noteq> 1 \<or> cbs_len child \<noteq> 0 then Some (None, c)
             else
               Option.bind (m (cbs_data child2)) (\<lambda>boolean.
                 if boolean = 0 then Some (Some False, c)
                 else if boolean = 0xFF then Some (Some True, c)
                 else Some (None, c))))"

definition CBS_is_valid_asn1_bitstring :: "mem \<Rightarrow> CBS \<Rightarrow> bool option" where
  "CBS_is_valid_asn1_bitstring m c =
     (case CBS_get_u8 m c of None \<Rightarrow> None
      | Some (None, _) \<Rightarrow> Some False
      | Some (Some num_unused_bits, inp) \<Rightarrow>
          if 7 < num_unused_bits then Some False
          else if num_unused_bits = 0 then Some True
          else
            (case CBS_get_last_u8 m inp of None \<Rightarrow> None
             | Some (None, _) \<Rightarrow> Some False
             | Some (Some last_byte, _) \<Rightarrow>
                 Some (last_byte AND (push_bit (unat num_unused_bits) 1 - 1) = 0)))"

definition CBS_asn1_bitstring_has_bit :: "mem \<Rightarrow> CBS \<Rightarrow> u32 \<Rightarrow> bool option" where
  "CBS_asn1_bitstring_has_bit m c bit_index =
     Option.bind (CBS_is_valid_asn1_bitstring m c) (\<lambda>valid.
       if \<not> valid then Some False
       else
         (let byte_num = drop_bit 3 bit_index + 1; bit_num = 7 - (bit_index AND 7) in
          if \<not> ucast byte_num < cbs_len c then Some False
          else
            map_option (\<lambda>b. b AND push_bit (unat bit_num) 1 \<noteq> 0) (m (cbs_data c + uint byte_num))))"

section \<open>Object identifiers\<close>

function oid_loop :: "mem \<Rightarrow> u8 \<Rightarrow> CBS \<Rightarrow> bool option" where
  "oid_loop m prev copy =
     (case CBS_get_u8 m copy of None \<Rightarrow> None
      | Some (None, _) \<Rightarrow> Some (prev AND 0x80 = 0)
      | Some (Some v, copy') \<Rightarrow>
          if prev AND 0x80 = 0 \<and> v = 0x80 then Some False else oid_loop m v copy')"
  by pat_completeness auto
termination
  by (relation "measure (\<lambda>(m, prev, c). unat (cbs_len c))") (auto dest: CBS_get_u8_less)

declare oid_loop.simps [simp del]

definition CBS_is_valid_asn1_oid :: "mem \<Rightarrow> CBS \<Rightarrow> bool option" where
  "CBS_is_valid_asn1_oid m c = (if cbs_len c = 0 then Some False else oid_loop m 0 c)"

end
