(* ===== verification/Boring_CBB.thy ===== *)
theory Boring_CBB
  imports Boring_CBS
begin

text \<open>
  The byte string builder of BoringSSL, \<open>crypto/bytestring/cbb.c\<close>. All builders of one tree write
  into the buffer of the root and every builder has at most one open child, so the tree is the
  buffer together with the chain of open children; a \<open>CBB *\<close> is its depth in the chain, zero for the
  root. The content of the buffer has \<open>cap\<close> bytes, of which the first \<open>len\<close> are in use; a store outside
  it is undefined (\<^term>\<open>None\<close>). A handle below the end of the chain is a closed child, whose base
  pointer is null. Whether a reallocation succeeds, and what fresh memory contains, are parameters.
\<close>

record cbb_buffer =
  bb_buf :: "u8 list"
  bb_len :: u64
  bb_cap :: u64
  can_resize :: bool
  bb_error :: bool

record cbb_child =
  ch_offset :: u64
  pending_len_len :: u8
  pending_is_asn1 :: bool

record CBB =
  cbb_base :: cbb_buffer
  cbb_kids :: "cbb_child list"

record cbb_alloc =
  can_alloc :: "u64 \<Rightarrow> bool"
  fresh_at :: "nat \<Rightarrow> u8"

type_synonym cbb_result = "(bool \<times> CBB) option"

section \<open>Life cycle\<close>

definition CBB_zero :: CBB where
  "CBB_zero = \<lparr>cbb_base = \<lparr>bb_buf = [], bb_len = 0, bb_cap = 0, can_resize = False, bb_error = False\<rparr>, cbb_kids = []\<rparr>"

definition cbb_init :: "u8 list \<Rightarrow> u64 \<Rightarrow> bool \<Rightarrow> CBB" where
  "cbb_init buf cap resize =
     \<lparr>cbb_base = \<lparr>bb_buf = buf, bb_len = 0, bb_cap = cap, can_resize = resize, bb_error = False\<rparr>, cbb_kids = []\<rparr>"

definition CBB_init :: "cbb_alloc \<Rightarrow> u64 \<Rightarrow> bool \<times> CBB" where
  "CBB_init A initial_capacity =
     (if 0 < initial_capacity \<and> \<not> can_alloc A initial_capacity then (False, CBB_zero)
      else (True, cbb_init (map (fresh_at A) [0..<unat initial_capacity]) initial_capacity True))"

definition CBB_init_fixed :: "u8 list \<Rightarrow> u64 \<Rightarrow> bool \<times> CBB" where
  "CBB_init_fixed buf len = (True, cbb_init buf len False)"

text \<open>Cleaning up frees the buffer of a resizable root; the builder is not used afterwards.\<close>

definition CBB_cleanup :: "nat \<Rightarrow> CBB \<Rightarrow> CBB" where
  "CBB_cleanup d S =
     (if d \<noteq> 0 then S
      else if can_resize (cbb_base S) then S\<lparr>cbb_base := (cbb_base S)\<lparr>bb_buf := []\<rparr>\<rparr> else S)"

section \<open>The buffer\<close>

definition cbb_buffer_reserve :: "cbb_alloc \<Rightarrow> u64 \<Rightarrow> cbb_buffer \<Rightarrow> bool \<times> cbb_buffer" where
  "cbb_buffer_reserve A len b =
     (let newlen = bb_len b + len in
      if newlen < bb_len b then (False, b\<lparr>bb_error := True\<rparr>)
      else if bb_cap b < newlen
      then
        if \<not> can_resize b then (False, b\<lparr>bb_error := True\<rparr>)
        else
          (let newcap = bb_cap b * 2;
               newcap = (if newcap < bb_cap b \<or> newcap < newlen then newlen else newcap)
           in if \<not> can_alloc A newcap then (False, b\<lparr>bb_error := True\<rparr>)
              else (True, b\<lparr>bb_buf := bb_buf b @ map (fresh_at A) [length (bb_buf b)..<unat newcap], bb_cap := newcap\<rparr>))
      else (True, b))"

definition cbb_buffer_add :: "cbb_alloc \<Rightarrow> u64 \<Rightarrow> cbb_buffer \<Rightarrow> bool \<times> cbb_buffer" where
  "cbb_buffer_add A len b =
     (case cbb_buffer_reserve A len b of (ok, b) \<Rightarrow>
        if ok then (True, b\<lparr>bb_len := bb_len b + len\<rparr>) else (False, b))"

text \<open>Stores into \<open>base->buf\<close>: a run of bytes at an index.\<close>

definition buf_store :: "nat \<Rightarrow> u8 list \<Rightarrow> cbb_buffer \<Rightarrow> cbb_buffer option" where
  "buf_store i bs b =
     (if i + length bs \<le> length (bb_buf b)
      then Some (b\<lparr>bb_buf := take i (bb_buf b) @ bs @ drop (i + length bs) (bb_buf b)\<rparr>)
      else None)"

definition buf_load :: "nat \<Rightarrow> nat \<Rightarrow> cbb_buffer \<Rightarrow> u8 list option" where
  "buf_load i n b = (if i + n \<le> length (bb_buf b) then Some (take n (drop i (bb_buf b))) else None)"

text \<open>\<open>for (i = n - 1; i < n; i--) { buf[off + i] = (uint8_t)len; len >>= 8; }\<close>, with the remaining \<open>len\<close>.\<close>

primrec put_be_loop :: "nat \<Rightarrow> nat \<Rightarrow> u64 \<Rightarrow> cbb_buffer \<Rightarrow> (u64 \<times> cbb_buffer) option" where
  "put_be_loop off 0 len b = Some (len, b)"
| "put_be_loop off (Suc n) len b =
     Option.bind (buf_store (off + n) [ucast len] b) (\<lambda>b. put_be_loop off n (drop_bit 8 len) b)"

section \<open>Flushing\<close>

text \<open>The length prefix of an ASN.1 child: \<open>len_len\<close> and \<open>initial_length_byte\<close>.\<close>

definition asn1_len_len :: "u64 \<Rightarrow> u8 \<times> u8" where
  "asn1_len_len len =
     (if 0xFFFFFF < len then (5, 0x80 OR 4)
      else if 0xFFFF < len then (4, 0x80 OR 3)
      else if 0xFF < len then (3, 0x80 OR 2)
      else if 0x7F < len then (2, 0x80 OR 1)
      else (1, ucast len))"

text \<open>
  Writing the pending prefix of a child, after its own children are flushed; the first component of
  the result tells success.
\<close>

definition write_prefix :: "cbb_alloc \<Rightarrow> cbb_child \<Rightarrow> cbb_buffer \<Rightarrow> (bool \<times> cbb_buffer) option" where
  "write_prefix A k b =
     (let child_start = ch_offset k + ucast (pending_len_len k);
          len = bb_len b - child_start;
          finish = (\<lambda>off n len b.
            Option.bind (put_be_loop (unat off) (unat n) len b) (\<lambda>(len, b). Some (len = 0, b)))
      in if pending_is_asn1 k
         then
           if 0xFFFFFFFE < len then Some (False, b)
           else
             (case asn1_len_len len of (len_len, initial_length_byte) \<Rightarrow>
                if len_len = 1
                then Option.bind (buf_store (unat (ch_offset k)) [initial_length_byte] b)
                       (finish (ch_offset k + 1) (len_len - 1) 0)
                else
                  (case cbb_buffer_add A (ucast (len_len - 1)) b of (ok, b) \<Rightarrow>
                     if \<not> ok then Some (False, b)
                     else do {
                       moved \<leftarrow> buf_load (unat child_start) (unat len) b;
                       b \<leftarrow> buf_store (unat (child_start + ucast (len_len - 1))) moved b;
                       b \<leftarrow> buf_store (unat (ch_offset k)) [initial_length_byte] b;
                       finish (ch_offset k + 1) (len_len - 1) len b }))
         else finish (ch_offset k) (pending_len_len k) len b)"

text \<open>\<open>CBB_flush\<close> on a builder whose open descendants are the given chain.\<close>

primrec flush_kids :: "cbb_alloc \<Rightarrow> cbb_child list \<Rightarrow> cbb_buffer \<Rightarrow> (bool \<times> cbb_buffer) option" where
  "flush_kids A [] b = Some (\<not> bb_error b, b)"
| "flush_kids A (k # ks) b =
     (if bb_error b then Some (False, b)
      else do {
        (ok, b) \<leftarrow> flush_kids A ks b;
        (let child_start = ch_offset k + ucast (pending_len_len k) in
         if \<not> ok \<or> child_start < ch_offset k \<or> bb_len b < child_start then Some (False, b\<lparr>bb_error := True\<rparr>)
         else do {
           (ok, b) \<leftarrow> write_prefix A k b;
           if ok then Some (True, b) else Some (False, b\<lparr>bb_error := True\<rparr>) }) })"

definition CBB_flush :: "cbb_alloc \<Rightarrow> nat \<Rightarrow> CBB \<Rightarrow> cbb_result" where
  "CBB_flush A d S =
     (if length (cbb_kids S) < d \<or> bb_error (cbb_base S) then Some (False, S)
      else do {
        (ok, b) \<leftarrow> flush_kids A (drop d (cbb_kids S)) (cbb_base S);
        Some (ok, \<lparr>cbb_base = b, cbb_kids = take d (cbb_kids S)\<rparr>) })"

definition cbb_on_error :: "nat \<Rightarrow> CBB \<Rightarrow> CBB" where
  "cbb_on_error d S = \<lparr>cbb_base = (cbb_base S)\<lparr>bb_error := True\<rparr>, cbb_kids = take d (cbb_kids S)\<rparr>"

text \<open>\<open>if (!f(cbb, ...)) return 0; k\<close> is \<^const>\<open>and_then\<close>; \<open>or_error\<close> is the \<open>goto err\<close> of the compound functions.\<close>

definition or_error :: "nat \<Rightarrow> cbb_result \<Rightarrow> cbb_result" where
  "or_error d r = map_option (\<lambda>(ok, S). if ok then (True, S) else (False, cbb_on_error d S)) r"

text \<open>\<open>CBB_finish\<close> hands out the buffer; asking for no output is allowed for fixed builders only.\<close>

definition CBB_finish :: "cbb_alloc \<Rightarrow> bool \<Rightarrow> nat \<Rightarrow> CBB \<Rightarrow> (u8 list option \<times> CBB) option" where
  "CBB_finish A wants_output d S =
     (if d \<noteq> 0 then Some (None, S)
      else do {
        (ok, S) \<leftarrow> CBB_flush A 0 S;
        if \<not> ok then Some (None, S)
        else if can_resize (cbb_base S) \<and> \<not> wants_output then Some (None, S)
        else do {
          out \<leftarrow> buf_load 0 (unat (bb_len (cbb_base S))) (cbb_base S);
          Some (Some out, CBB_cleanup 0 (S\<lparr>cbb_base := (cbb_base S)\<lparr>bb_buf := []\<rparr>\<rparr>)) } })"

section \<open>Observing a builder\<close>

text \<open>Both are called only on builders without an open child.\<close>

definition cbb_start :: "nat \<Rightarrow> CBB \<Rightarrow> u64" where
  "cbb_start d S =
     (if d = 0 then 0
      else ch_offset (cbb_kids S ! (d - 1)) + ucast (pending_len_len (cbb_kids S ! (d - 1))))"

definition CBB_len :: "nat \<Rightarrow> CBB \<Rightarrow> u64" where
  "CBB_len d S =
     (if d = 0 then bb_len (cbb_base S)
      else bb_len (cbb_base S) - ch_offset (cbb_kids S ! (d - 1)) - ucast (pending_len_len (cbb_kids S ! (d - 1))))"

definition CBB_data :: "nat \<Rightarrow> CBB \<Rightarrow> u8 list option" where
  "CBB_data d S = buf_load (unat (cbb_start d S)) (unat (CBB_len d S)) (cbb_base S)"

section \<open>Children\<close>

definition cbb_add_child :: "cbb_alloc \<Rightarrow> u8 \<Rightarrow> bool \<Rightarrow> nat \<Rightarrow> CBB \<Rightarrow> cbb_result" where
  "cbb_add_child A len_len is_asn1 d S =
     (let offset = bb_len (cbb_base S) in
      case cbb_buffer_add A (ucast len_len) (cbb_base S) of (ok, b) \<Rightarrow>
        if \<not> ok then Some (False, S\<lparr>cbb_base := b\<rparr>)
        else do {
          b \<leftarrow> buf_store (unat offset) (replicate (unat len_len) 0) b;
          Some (True, \<lparr>cbb_base = b, cbb_kids = take d (cbb_kids S) @
            [\<lparr>ch_offset = offset, pending_len_len = len_len, pending_is_asn1 = is_asn1\<rparr>]\<rparr>) })"

definition cbb_add_length_prefixed :: "cbb_alloc \<Rightarrow> u8 \<Rightarrow> nat \<Rightarrow> CBB \<Rightarrow> cbb_result" where
  "cbb_add_length_prefixed A len_len d S = and_then (CBB_flush A d S) (cbb_add_child A len_len False d)"

definition CBB_add_u8_length_prefixed :: "cbb_alloc \<Rightarrow> nat \<Rightarrow> CBB \<Rightarrow> cbb_result" where
  "CBB_add_u8_length_prefixed A d S = cbb_add_length_prefixed A 1 d S"

definition CBB_add_u16_length_prefixed :: "cbb_alloc \<Rightarrow> nat \<Rightarrow> CBB \<Rightarrow> cbb_result" where
  "CBB_add_u16_length_prefixed A d S = cbb_add_length_prefixed A 2 d S"

definition CBB_add_u24_length_prefixed :: "cbb_alloc \<Rightarrow> nat \<Rightarrow> CBB \<Rightarrow> cbb_result" where
  "CBB_add_u24_length_prefixed A d S = cbb_add_length_prefixed A 3 d S"

definition CBB_discard_child :: "nat \<Rightarrow> CBB \<Rightarrow> CBB" where
  "CBB_discard_child d S =
     (if length (cbb_kids S) \<le> d then S
      else \<lparr>cbb_base = (cbb_base S)\<lparr>bb_len := ch_offset (cbb_kids S ! d)\<rparr>, cbb_kids = take d (cbb_kids S)\<rparr>)"

section \<open>Bytes and numbers\<close>

text \<open>The out pointer of \<open>CBB_add_space\<close> and \<open>CBB_reserve\<close> is an index into the buffer.\<close>

definition CBB_add_space :: "cbb_alloc \<Rightarrow> u64 \<Rightarrow> nat \<Rightarrow> CBB \<Rightarrow> (u64 option \<times> CBB) option" where
  "CBB_add_space A len d S = do {
     (ok, S) \<leftarrow> CBB_flush A d S;
     if \<not> ok then Some (None, S)
     else
       (case cbb_buffer_add A len (cbb_base S) of (ok, b) \<Rightarrow>
          Some (if ok then Some (bb_len (cbb_base S)) else None, S\<lparr>cbb_base := b\<rparr>)) }"

definition CBB_reserve :: "cbb_alloc \<Rightarrow> u64 \<Rightarrow> nat \<Rightarrow> CBB \<Rightarrow> (u64 option \<times> CBB) option" where
  "CBB_reserve A len d S = do {
     (ok, S) \<leftarrow> CBB_flush A d S;
     if \<not> ok then Some (None, S)
     else
       (case cbb_buffer_reserve A len (cbb_base S) of (ok, b) \<Rightarrow>
          Some (if ok then Some (bb_len (cbb_base S)) else None, S\<lparr>cbb_base := b\<rparr>)) }"

definition CBB_did_write :: "u64 \<Rightarrow> nat \<Rightarrow> CBB \<Rightarrow> cbb_result" where
  "CBB_did_write len d S =
     (if length (cbb_kids S) < d then None
      else
        (let b = cbb_base S; newlen = bb_len b + len in
         if d < length (cbb_kids S) \<or> newlen < bb_len b \<or> bb_cap b < newlen then Some (False, S)
         else Some (True, S\<lparr>cbb_base := b\<lparr>bb_len := newlen\<rparr>\<rparr>)))"

text \<open>The bytes at \<open>data\<close> are given as a list.\<close>

definition CBB_add_bytes :: "cbb_alloc \<Rightarrow> u8 list \<Rightarrow> nat \<Rightarrow> CBB \<Rightarrow> cbb_result" where
  "CBB_add_bytes A data d S = do {
     (out, S) \<leftarrow> CBB_add_space A (of_nat (length data)) d S;
     (case out of None \<Rightarrow> Some (False, S)
      | Some off \<Rightarrow> do { b \<leftarrow> buf_store (unat off) data (cbb_base S); Some (True, S\<lparr>cbb_base := b\<rparr>) }) }"

definition CBB_add_zeros :: "cbb_alloc \<Rightarrow> u64 \<Rightarrow> nat \<Rightarrow> CBB \<Rightarrow> cbb_result" where
  "CBB_add_zeros A len d S = do {
     (out, S) \<leftarrow> CBB_add_space A len d S;
     (case out of None \<Rightarrow> Some (False, S)
      | Some off \<Rightarrow> do { b \<leftarrow> buf_store (unat off) (replicate (unat len) 0) (cbb_base S); Some (True, S\<lparr>cbb_base := b\<rparr>) }) }"

definition cbb_add_u :: "cbb_alloc \<Rightarrow> u64 \<Rightarrow> u64 \<Rightarrow> nat \<Rightarrow> CBB \<Rightarrow> cbb_result" where
  "cbb_add_u A v len_len d S = do {
     (out, S) \<leftarrow> CBB_add_space A len_len d S;
     (case out of None \<Rightarrow> Some (False, S)
      | Some off \<Rightarrow> do {
          (v, b) \<leftarrow> put_be_loop (unat off) (unat len_len) v (cbb_base S);
          (let S = S\<lparr>cbb_base := b\<rparr> in
           if v \<noteq> 0 then Some (False, cbb_on_error d S) else Some (True, S)) }) }"

definition CBB_add_u8 :: "cbb_alloc \<Rightarrow> u8 \<Rightarrow> nat \<Rightarrow> CBB \<Rightarrow> cbb_result" where
  "CBB_add_u8 A v d S = cbb_add_u A (ucast v) 1 d S"

definition CBB_add_u16 :: "cbb_alloc \<Rightarrow> u16 \<Rightarrow> nat \<Rightarrow> CBB \<Rightarrow> cbb_result" where
  "CBB_add_u16 A v d S = cbb_add_u A (ucast v) 2 d S"

definition CBB_add_u16le :: "cbb_alloc \<Rightarrow> u16 \<Rightarrow> nat \<Rightarrow> CBB \<Rightarrow> cbb_result" where
  "CBB_add_u16le A v d S = CBB_add_u16 A (CRYPTO_bswap2 v) d S"

definition CBB_add_u24 :: "cbb_alloc \<Rightarrow> u32 \<Rightarrow> nat \<Rightarrow> CBB \<Rightarrow> cbb_result" where
  "CBB_add_u24 A v d S = cbb_add_u A (ucast v) 3 d S"

definition CBB_add_u32 :: "cbb_alloc \<Rightarrow> u32 \<Rightarrow> nat \<Rightarrow> CBB \<Rightarrow> cbb_result" where
  "CBB_add_u32 A v d S = cbb_add_u A (ucast v) 4 d S"

definition CBB_add_u32le :: "cbb_alloc \<Rightarrow> u32 \<Rightarrow> nat \<Rightarrow> CBB \<Rightarrow> cbb_result" where
  "CBB_add_u32le A v d S = CBB_add_u32 A (CRYPTO_bswap4 v) d S"

definition CBB_add_u64 :: "cbb_alloc \<Rightarrow> u64 \<Rightarrow> nat \<Rightarrow> CBB \<Rightarrow> cbb_result" where
  "CBB_add_u64 A v d S = cbb_add_u A v 8 d S"

definition CBB_add_u64le :: "cbb_alloc \<Rightarrow> u64 \<Rightarrow> nat \<Rightarrow> CBB \<Rightarrow> cbb_result" where
  "CBB_add_u64le A v d S = CBB_add_u64 A (CRYPTO_bswap8 v) d S"

section \<open>ASN.1\<close>

text \<open>\<open>while (copy > 0) { len_len++; copy >>= 7; }\<close>\<close>

lemma drop_bit_7_unat: "v \<noteq> 0 \<Longrightarrow> unat (drop_bit 7 (v :: u64)) < unat v"
  by (simp add: unat_drop_bit_eq drop_bit_nat_def unat_gt_0 div_less_dividend)

function base128_len :: "u64 \<Rightarrow> nat" where
  "base128_len v = (if v = 0 then 0 else Suc (base128_len (drop_bit 7 v)))"
  by pat_completeness auto
termination
  by (relation "measure unat") (use drop_bit_7_unat in auto)

declare base128_len.simps [simp del]

primrec base128_put :: "cbb_alloc \<Rightarrow> u64 \<Rightarrow> nat \<Rightarrow> nat \<Rightarrow> CBB \<Rightarrow> cbb_result" where
  "base128_put A v 0 d S = Some (True, S)"
| "base128_put A v (Suc i) d S =
     (let byte = ucast (drop_bit (7 * i) v AND 0x7F);
          byte = (if i \<noteq> 0 then byte OR 0x80 else byte)
      in and_then (CBB_add_u8 A byte d S) (base128_put A v i d))"

definition add_base128_integer :: "cbb_alloc \<Rightarrow> u64 \<Rightarrow> nat \<Rightarrow> CBB \<Rightarrow> cbb_result" where
  "add_base128_integer A v d S =
     (let len_len = base128_len v; len_len = (if len_len = 0 then 1 else len_len) in base128_put A v len_len d S)"

definition CBB_add_asn1 :: "cbb_alloc \<Rightarrow> u32 \<Rightarrow> nat \<Rightarrow> CBB \<Rightarrow> cbb_result" where
  "CBB_add_asn1 A tag d S =
     and_then (CBB_flush A d S) (\<lambda>S.
       let tag_bits = ucast (drop_bit 24 tag) AND 0xE0;
           tag_number = tag AND CBS_ASN1_TAG_NUMBER_MASK
       in and_then
            (if 0x1F \<le> tag_number
             then and_then (CBB_add_u8 A (tag_bits OR 0x1F) d S) (add_base128_integer A (ucast tag_number) d)
             else CBB_add_u8 A (tag_bits OR ucast tag_number) d S)
            (cbb_add_child A 1 True d))"

text \<open>The loop over the eight octets; \<open>i\<close> counts the octets that are left.\<close>

primrec uint64_put :: "cbb_alloc \<Rightarrow> u64 \<Rightarrow> nat \<Rightarrow> bool \<Rightarrow> nat \<Rightarrow> CBB \<Rightarrow> cbb_result" where
  "uint64_put A v 0 started d S = (if started then Some (True, S) else CBB_add_u8 A 0 d S)"
| "uint64_put A v (Suc i) started d S =
     (let byte = ucast (drop_bit (8 * i) v AND 0xFF) in
      if \<not> started
      then
        if byte = 0 then uint64_put A v i False d S
        else
          and_then (if byte AND 0x80 \<noteq> 0 then CBB_add_u8 A 0 d S else Some (True, S)) (\<lambda>S.
            and_then (CBB_add_u8 A byte d S) (uint64_put A v i True d))
      else and_then (CBB_add_u8 A byte d S) (uint64_put A v i True d))"

definition CBB_add_asn1_uint64_with_tag :: "cbb_alloc \<Rightarrow> u64 \<Rightarrow> u32 \<Rightarrow> nat \<Rightarrow> CBB \<Rightarrow> cbb_result" where
  "CBB_add_asn1_uint64_with_tag A v tag d S = do {
     (ok, S) \<leftarrow> or_error d (and_then (CBB_add_asn1 A tag d S) (uint64_put A v 8 False (Suc d)));
     if ok then CBB_flush A d S else Some (False, S) }"

definition CBB_add_asn1_uint64 :: "cbb_alloc \<Rightarrow> u64 \<Rightarrow> nat \<Rightarrow> CBB \<Rightarrow> cbb_result" where
  "CBB_add_asn1_uint64 A v d S = CBB_add_asn1_uint64_with_tag A v CBS_ASN1_INTEGER d S"

text \<open>\<open>while (start > 0 && bytes[start] == 0xff && (bytes[start - 1] & 0x80)) start--;\<close> on little-endian bytes.\<close>

primrec sign_start :: "u8 list \<Rightarrow> nat \<Rightarrow> nat" where
  "sign_start bytes 0 = 0"
| "sign_start bytes (Suc start) =
     (if bytes ! Suc start = 0xFF \<and> bytes ! start AND 0x80 \<noteq> 0 then sign_start bytes start else Suc start)"

primrec int64_put :: "cbb_alloc \<Rightarrow> u8 list \<Rightarrow> nat \<Rightarrow> nat \<Rightarrow> CBB \<Rightarrow> cbb_result" where
  "int64_put A bytes 0 d S = Some (True, S)"
| "int64_put A bytes (Suc i) d S = and_then (CBB_add_u8 A (bytes ! i) d S) (int64_put A bytes i d)"

definition CBB_add_asn1_int64_with_tag :: "cbb_alloc \<Rightarrow> u64 \<Rightarrow> u32 \<Rightarrow> nat \<Rightarrow> CBB \<Rightarrow> cbb_result" where
  "CBB_add_asn1_int64_with_tag A v tag d S =
     (if 0 \<le> sint v then CBB_add_asn1_uint64_with_tag A v tag d S
      else
        (let bytes = word_le 8 v; start = sign_start bytes 7 in do {
           (ok, S) \<leftarrow> or_error d (and_then (CBB_add_asn1 A tag d S) (int64_put A bytes (Suc start) (Suc d)));
           if ok then CBB_flush A d S else Some (False, S) }))"

definition CBB_add_asn1_int64 :: "cbb_alloc \<Rightarrow> u64 \<Rightarrow> nat \<Rightarrow> CBB \<Rightarrow> cbb_result" where
  "CBB_add_asn1_int64 A v d S = CBB_add_asn1_int64_with_tag A v CBS_ASN1_INTEGER d S"

definition CBB_add_asn1_octet_string :: "cbb_alloc \<Rightarrow> u8 list \<Rightarrow> nat \<Rightarrow> CBB \<Rightarrow> cbb_result" where
  "CBB_add_asn1_octet_string A data d S =
     or_error d (and_then (CBB_add_asn1 A CBS_ASN1_OCTETSTRING d S) (\<lambda>S.
       and_then (CBB_add_bytes A data (Suc d) S) (CBB_flush A d)))"

definition CBB_add_asn1_bool :: "cbb_alloc \<Rightarrow> bool \<Rightarrow> nat \<Rightarrow> CBB \<Rightarrow> cbb_result" where
  "CBB_add_asn1_bool A v d S =
     or_error d (and_then (CBB_add_asn1 A CBS_ASN1_BOOLEAN d S) (\<lambda>S.
       and_then (CBB_add_u8 A (if v then 0xFF else 0) (Suc d) S) (CBB_flush A d)))"

section \<open>Object identifiers\<close>

text \<open>The last check succeeds at the end of the text, or at a dot that is not the end.\<close>

definition parse_dotted_decimal :: "mem \<Rightarrow> CBS \<Rightarrow> u64 cbs_result" where
  "parse_dotted_decimal m c =
     cbs_bind (CBS_get_u64_decimal m c) (\<lambda>v c.
       case CBS_get_u8 m c of None \<Rightarrow> None
       | Some (None, c) \<Rightarrow> Some (Some v, c)
       | Some (Some dot, c) \<Rightarrow> Some (if dot = 0x2E \<and> 0 < cbs_len c then Some v else None, c))"

partial_function (option) oid_text_loop :: "cbb_alloc \<Rightarrow> mem \<Rightarrow> nat \<Rightarrow> CBS \<Rightarrow> CBB \<Rightarrow> (bool \<times> CBB) option" where
  "oid_text_loop A m d c S =
     (if cbs_len c = 0 then Some (True, S)
      else do {
        (a, c) \<leftarrow> parse_dotted_decimal m c;
        (case a of None \<Rightarrow> Some (False, S)
         | Some a \<Rightarrow> do {
             (ok, S) \<leftarrow> add_base128_integer A a d S;
             if ok then oid_text_loop A m d c S else Some (False, S) }) })"

declare oid_text_loop.simps [code]

text \<open>After the flush: the first two numbers share one arc.\<close>

definition oid_text_numbers :: "cbb_alloc \<Rightarrow> mem \<Rightarrow> CBS \<Rightarrow> nat \<Rightarrow> CBB \<Rightarrow> cbb_result" where
  "oid_text_numbers A m c d S = do {
     (a, c) \<leftarrow> parse_dotted_decimal m c;
     (case a of None \<Rightarrow> Some (False, S)
      | Some a \<Rightarrow> do {
          (b, c) \<leftarrow> parse_dotted_decimal m c;
          (case b of None \<Rightarrow> Some (False, S)
           | Some b \<Rightarrow>
               if 2 < a \<or> (a < 2 \<and> 39 < b) \<or> - 1 - 80 < b then Some (False, S)
               else and_then (add_base128_integer A (40 * a + b) d S) (oid_text_loop A m d c)) }) }"

definition CBB_add_asn1_oid_from_text :: "cbb_alloc \<Rightarrow> mem \<Rightarrow> addr \<Rightarrow> u64 \<Rightarrow> nat \<Rightarrow> CBB \<Rightarrow> cbb_result" where
  "CBB_add_asn1_oid_from_text A m text len d S =
     and_then (CBB_flush A d S) (oid_text_numbers A m (CBS_init text len) d)"

section \<open>Sets\<close>

text \<open>\<open>memcmp\<close> on the common prefix, then the shorter string first.\<close>

fun compare_set_of_element :: "u8 list \<Rightarrow> u8 list \<Rightarrow> int" where
  "compare_set_of_element [] [] = 0"
| "compare_set_of_element [] (y # ys) = - 1"
| "compare_set_of_element (x # xs) [] = 1"
| "compare_set_of_element (x # xs) (y # ys) =
     (if x = y then compare_set_of_element xs ys else uint x - uint y)"

text \<open>\<open>qsort\<close>: elements that compare equal have equal bytes, so the order among them does not matter.\<close>

fun insert_by :: "('a \<Rightarrow> 'a \<Rightarrow> int) \<Rightarrow> 'a \<Rightarrow> 'a list \<Rightarrow> 'a list" where
  "insert_by cmp x [] = [x]"
| "insert_by cmp x (y # ys) = (if cmp x y \<le> 0 then x # y # ys else y # insert_by cmp x ys)"

definition qsort_by :: "('a \<Rightarrow> 'a \<Rightarrow> int) \<Rightarrow> 'a list \<Rightarrow> 'a list" where
  "qsort_by cmp xs = foldr (insert_by cmp) xs []"

text \<open>The elements of a buffer that holds consecutive DER elements; \<open>Some None\<close> when it does not parse.\<close>

partial_function (option) set_elements :: "mem \<Rightarrow> CBS \<Rightarrow> CBS list option option" where
  "set_elements m c =
     (if cbs_len c = 0 then Some (Some [])
      else do {
        (el, c) \<leftarrow> CBS_get_any_asn1_element m c;
        (case el of None \<Rightarrow> Some None
         | Some el \<Rightarrow> do {
             rest \<leftarrow> set_elements m c;
             Some (map_option (\<lambda>els. el_out el # els) rest) }) })"

declare set_elements.simps [code]

text \<open>
  The contents are copied to a block at \<open>at\<close> (\<open>OPENSSL_memdup\<close>), parsed there, sorted and written
  back; the two allocations are of the contents and of the array of 16 byte \<open>CBS\<close>.
\<close>

definition CBB_flush_asn1_set_of :: "cbb_alloc \<Rightarrow> addr \<Rightarrow> nat \<Rightarrow> CBB \<Rightarrow> cbb_result" where
  "CBB_flush_asn1_set_of A at d S =
     and_then (CBB_flush A d S) (\<lambda>S. do {
       content \<leftarrow> CBB_data d S;
       (let m = put_bytes Map.empty at content; c = CBS_init at (of_nat (length content)) in do {
          els \<leftarrow> set_elements m c;
          (case els of None \<Rightarrow> Some (False, S)
           | Some els \<Rightarrow>
               if length els < 2 then Some (True, S)
               else if \<not> can_alloc A (of_nat (length content)) \<or> \<not> can_alloc A (of_nat (16 * length els)) then Some (False, S)
               else do {
                 bytes \<leftarrow> those (map (\<lambda>e. load_bytes m (cbs_data e) (unat (cbs_len e))) els);
                 b \<leftarrow> buf_store (unat (cbb_start d S)) (concat (qsort_by compare_set_of_element bytes)) (cbb_base S);
                 Some (True, S\<lparr>cbb_base := b\<rparr>) }) }) })"

end
