(* ===== verification/Boring_CBS_Correct.thy ===== *)
theory Boring_CBS_Correct
  imports Boring_CBS
begin

text \<open>
  The reader against byte lists. A reader that \<open>holds\<close> the bytes \<open>bs\<close> is a window of mapped memory
  with that content; \<open>reads\<close> says that a C function, on every such window, is defined, stays inside
  the window, and returns what a function on byte lists returns, leaving the reader behind the bytes
  that function consumed. The interface is the locale \<open>byte_reader\<close>; each C function is an instance.
\<close>

section \<open>Windows\<close>

definition cbs_holds :: "mem \<Rightarrow> CBS \<Rightarrow> u8 list \<Rightarrow> bool" where
  "cbs_holds m c bs \<longleftrightarrow> load_bytes m (cbs_data c) (unat (cbs_len c)) = Some bs"

definition cbs_drop :: "nat \<Rightarrow> CBS \<Rightarrow> CBS" where
  "cbs_drop n c = \<lparr>cbs_data = cbs_data c + int n, cbs_len = cbs_len c - of_nat n\<rparr>"

definition inside :: "CBS \<Rightarrow> CBS \<Rightarrow> bool" where
  "inside d c \<longleftrightarrow> cbs_data c \<le> cbs_data d \<and>
     cbs_data d + int (unat (cbs_len d)) \<le> cbs_data c + int (unat (cbs_len c))"

lemma cbs_holds_length: "cbs_holds m c bs \<Longrightarrow> unat (cbs_len c) = length bs"
  by (auto simp: cbs_holds_def)

lemma inside_refl [simp]: "inside c c"
  by (simp add: inside_def)

lemma inside_trans: "inside d c \<Longrightarrow> inside e d \<Longrightarrow> inside e c"
  by (auto simp: inside_def)

lemma cbs_drop_sel [simp]:
  "cbs_data (cbs_drop n c) = cbs_data c + int n"
  "n \<le> unat (cbs_len c) \<Longrightarrow> unat (cbs_len (cbs_drop n c)) = unat (cbs_len c) - n"
  by (simp_all add: cbs_drop_def unat_minus_of_nat)

lemma cbs_drop_0 [simp]: "cbs_drop 0 c = c"
  by (simp add: cbs_drop_def)

lemma cbs_drop_drop: "cbs_drop k (cbs_drop n c) = cbs_drop (n + k) c"
  by (simp add: cbs_drop_def algebra_simps)

lemma inside_drop: "n \<le> unat (cbs_len c) \<Longrightarrow> inside (cbs_drop n c) c"
  unfolding inside_def by (simp only: cbs_drop_sel) linarith

lemma holds_drop: "cbs_holds m c bs \<Longrightarrow> n \<le> length bs \<Longrightarrow> cbs_holds m (cbs_drop n c) (drop n bs)"
  using load_bytes_take_drop(2) [of m "cbs_data c" "length bs" bs n] cbs_holds_length [of m c bs]
  by (simp add: cbs_holds_def)

lemma holds_prefix:
  assumes "cbs_holds m c bs" "unat n \<le> length bs"
  shows "cbs_holds m (CBS_init (cbs_data c) n) (take (unat n) bs)"
  using load_bytes_take_drop(1) [of m "cbs_data c" "length bs" bs "unat n"] assms cbs_holds_length [of m c bs]
  by (simp add: cbs_holds_def CBS_init_def)

lemma inside_prefix: "unat n \<le> unat (cbs_len c) \<Longrightarrow> inside (CBS_init (cbs_data c) n) c"
  unfolding inside_def CBS_init_def by (simp only: CBS.simps of_nat_le_iff add_left_mono order_refl simp_thms)

lemma holds_inside: "cbs_holds m c bs \<Longrightarrow> inside d c \<Longrightarrow> \<exists>ds. cbs_holds m d ds"
  using mapped_sub [of m "cbs_data c" "unat (cbs_len c)" "cbs_data d" "unat (cbs_len d)"]
  by (auto simp: cbs_holds_def inside_def mapped_def)

lemma holds_byte: "cbs_holds m c bs \<Longrightarrow> i < length bs \<Longrightarrow> m (cbs_data c + int i) = Some (bs ! i)"
  by (auto simp: cbs_holds_def load_bytes_eq_Some)

section \<open>The interface\<close>

text \<open>
  \<open>agrees R c bs r x\<close>: the outcome \<open>r\<close> of a call on the reader \<open>c\<close>, which holds \<open>bs\<close>, is the outcome
  \<open>x\<close> on the bytes. \<open>R\<close> relates the values; for scalars it is equality.
\<close>

definition agrees :: "('a \<Rightarrow> 'b \<Rightarrow> bool) \<Rightarrow> CBS \<Rightarrow> u8 list \<Rightarrow> 'a cbs_result \<Rightarrow> ('b \<times> u8 list) option \<Rightarrow> bool" where
  "agrees R c bs r x \<longleftrightarrow>
     (\<exists>a c'. r = Some (a, c') \<and> inside c' c \<and>
        (case x of None \<Rightarrow> a = None
         | Some (w, rest) \<Rightarrow>
             \<exists>v n. a = Some v \<and> R v w \<and> n \<le> length bs \<and> rest = drop n bs \<and> c' = cbs_drop n c))"

text \<open>The value relation for out parameters that are themselves windows into the input.\<close>

definition window :: "mem \<Rightarrow> CBS \<Rightarrow> CBS \<Rightarrow> u8 list \<Rightarrow> bool" where
  "window m c d ds \<longleftrightarrow> cbs_holds m d ds \<and> inside d c"

lemma agrees_fail: "inside c' c \<Longrightarrow> agrees R c bs (Some (None, c')) None"
  by (simp add: agrees_def)

lemma agrees_ret: "R v w \<Longrightarrow> agrees R c bs (Some (Some v, c)) (Some (w, bs))"
  unfolding agrees_def by (auto intro!: exI [of _ 0])

lemma agrees_bind:
  assumes "agrees R c bs r x" "cbs_holds m c bs"
    and "\<And>v w n. R v w \<Longrightarrow> n \<le> length bs \<Longrightarrow> cbs_holds m (cbs_drop n c) (drop n bs) \<Longrightarrow> inside (cbs_drop n c) c \<Longrightarrow>
      x = Some (w, drop n bs) \<Longrightarrow> agrees R' (cbs_drop n c) (drop n bs) (k v (cbs_drop n c)) (g w (drop n bs))"
  shows "agrees R' c bs (cbs_bind r k) (Option.bind x (\<lambda>(w, rest). g w rest))"
proof (cases x)
  case None
  then show ?thesis using assms(1) by (auto simp: agrees_def)
next
  case (Some wr)
  then obtain w rest where x: "x = Some (w, rest)" by (cases wr) auto
  from assms(1) obtain v n where r: "r = Some (Some v, cbs_drop n c)" "R v w" "n \<le> length bs" "rest = drop n bs"
    unfolding agrees_def x by auto
  have ins: "inside (cbs_drop n c) c"
    using inside_drop [of n c] cbs_holds_length [OF assms(2)] r(3) by simp
  have "agrees R' (cbs_drop n c) (drop n bs) (k v (cbs_drop n c)) (g w (drop n bs))"
    using assms(3) [OF r(2,3) holds_drop [OF assms(2) r(3)] ins] x r(4) by simp
  then obtain a c' where a: "k v (cbs_drop n c) = Some (a, c')" "inside c' (cbs_drop n c)"
    "case g w rest of None \<Rightarrow> a = None
     | Some (w', rest') \<Rightarrow> \<exists>v' n'. a = Some v' \<and> R' v' w' \<and> n' \<le> length (drop n bs) \<and>
         rest' = drop n' (drop n bs) \<and> c' = cbs_drop n' (cbs_drop n c)"
    unfolding agrees_def r(4) by auto
  have "case g w rest of None \<Rightarrow> a = None
     | Some (w', rest') \<Rightarrow> \<exists>v' n'. a = Some v' \<and> R' v' w' \<and> n' \<le> length bs \<and> rest' = drop n' bs \<and> c' = cbs_drop n' c"
  proof (cases "g w rest")
    case (Some p)
    then obtain w' rest' v' n' where "g w rest = Some (w', rest')" "a = Some v'" "R' v' w'"
      "n' \<le> length bs - n" "rest' = drop n' (drop n bs)" "c' = cbs_drop n' (cbs_drop n c)"
      using a(3) by (cases p) auto
    then show ?thesis using r(3) by (auto simp: cbs_drop_drop add.commute intro!: exI [of _ "n + n'"])
  qed (use a(3) in simp)
  then show ?thesis
    unfolding agrees_def x r(1) using a(1,2) inside_trans [OF ins] by simp
qed

lemma agrees_mono: "agrees R c bs r x \<Longrightarrow> (\<And>v w. R v w \<Longrightarrow> R' v w) \<Longrightarrow> agrees R' c bs r x"
  unfolding agrees_def by (auto split: option.splits) blast+

locale byte_reader =
  fixes op :: "mem \<Rightarrow> CBS \<Rightarrow> 'a cbs_result"
    and spec :: "u8 list \<Rightarrow> ('b \<times> u8 list) option"
    and R :: "mem \<Rightarrow> CBS \<Rightarrow> 'a \<Rightarrow> 'b \<Rightarrow> bool"
  assumes reads: "cbs_holds m c bs \<Longrightarrow> agrees (R m c) c bs (op m c) (spec bs)"
begin

text \<open>The function returns and leaves the reader inside the window it was given.\<close>

lemma defined:
  assumes "cbs_holds m c bs"
  obtains r c' where "op m c = Some (r, c')" "inside c' c"
  using reads [OF assms] by (auto simp: agrees_def)

lemma fails_iff: "cbs_holds m c bs \<Longrightarrow> op m c = Some (r, c') \<Longrightarrow> r = None \<longleftrightarrow> spec bs = None"
  using reads [of m c bs] by (auto simp: agrees_def split: option.splits)

lemma success:
  assumes "cbs_holds m c bs" "spec bs = Some (w, rest)"
  obtains v where "op m c = Some (Some v, cbs_drop (length bs - length rest) c)" "R m c v w"
    "cbs_holds m (cbs_drop (length bs - length rest) c) rest" "rest = drop (length bs - length rest) bs"
proof -
  from reads [OF assms(1)] obtain v n where "op m c = Some (Some v, cbs_drop n c)" "R m c v w" "n \<le> length bs"
    "rest = drop n bs"
    by (auto simp: agrees_def assms(2))
  moreover from this have "length bs - length rest = n" by simp
  moreover have "cbs_holds m (cbs_drop n c) (drop n bs)" using holds_drop [OF assms(1)] calculation(3) .
  ultimately show thesis using that by metis
qed

lemma failure:
  assumes "cbs_holds m c bs" "spec bs = None"
  obtains c' where "op m c = Some (None, c')" "inside c' c"
  using reads [OF assms(1)] assms(2) by (auto simp: agrees_def)

end

text \<open>Two readers in sequence.\<close>

lemma reads_bind:
  assumes "byte_reader op f R"
    and "\<And>m c bs v w n. cbs_holds m c bs \<Longrightarrow> R m c v w \<Longrightarrow> n \<le> length bs \<Longrightarrow>
      cbs_holds m (cbs_drop n c) (drop n bs) \<Longrightarrow> inside (cbs_drop n c) c \<Longrightarrow> f bs = Some (w, drop n bs) \<Longrightarrow>
      agrees (R' m c) (cbs_drop n c) (drop n bs) (k m v (cbs_drop n c)) (g w (drop n bs))"
  shows "byte_reader (\<lambda>m c. cbs_bind (op m c) (k m)) (\<lambda>bs. Option.bind (f bs) (\<lambda>(w, rest). g w rest)) R'"
proof
  fix m c bs
  assume h: "cbs_holds m c bs"
  show "agrees (R' m c) c bs (cbs_bind (op m c) (k m)) (Option.bind (f bs) (\<lambda>(w, rest). g w rest))"
    by (rule agrees_bind [OF byte_reader.reads [OF assms(1) h] h]) (rule assms(2) [OF h]; assumption)
qed

section \<open>Bytes and words\<close>

definition take_n :: "nat \<Rightarrow> u8 list \<Rightarrow> (u8 list \<times> u8 list) option" where
  "take_n n bs = (if length bs < n then None else Some (take n bs, drop n bs))"

text \<open>Big-endian numbers.\<close>

definition be_nat :: "u8 list \<Rightarrow> nat" where
  "be_nat bs = foldl (\<lambda>n b. n * 256 + unat b) 0 bs"

lemma be_nat_snoc: "be_nat (bs @ [b]) = be_nat bs * 256 + unat b"
  by (simp add: be_nat_def)

lemma be_nat_Nil [simp]: "be_nat [] = 0"
  by (simp add: be_nat_def)

lemma foldl_be: "foldl (\<lambda>n b. n * 256 + unat b) k bs = k * 256 ^ length bs + be_nat bs"
proof (induction bs arbitrary: k)
  case (Cons b bs)
  show ?case
    using Cons.IH [of "k * 256 + unat b"] Cons.IH [of "unat b"]
    by (simp add: be_nat_def algebra_simps)
qed simp

lemma be_nat_Cons: "be_nat (b # bs) = unat b * 256 ^ length bs + be_nat bs"
  using foldl_be [of "unat b" bs] by (simp add: be_nat_def)

lemma be_nat_bound: "be_nat bs < 256 ^ length bs"
proof (induction bs rule: rev_induct)
  case (snoc b bs)
  have "be_nat bs * 256 + unat b < (be_nat bs + 1) * 256"
    using unat_u8_lt [of b] by simp
  also have "\<dots> \<le> 256 ^ length bs * 256" using snoc.IH by (intro mult_le_mono1) simp
  finally show ?case by (simp add: be_nat_snoc)
qed simp

lemma push_bit_or_add:
  assumes "unat w < 2 ^ k"
  shows "push_bit k r OR w = r * 2 ^ k + (w :: 'a::len word)"
proof -
  have w: "take_bit k w = w"
    using assms by (simp add: word_unat_eq_iff unsigned_take_bit_eq take_bit_nat_eq_self_iff)
  have "push_bit k r AND take_bit k w = 0"
    by (rule bit_eqI) (auto simp: bit_simps)
  then have "push_bit k r AND w = 0" by (simp only: w)
  then have "push_bit k r OR w = push_bit k r + w" by (simp only: disjunctive_add_eq_or)
  then show ?thesis by (simp add: push_bit_eq_mult)
qed

lemma shift_in_byte: "push_bit 8 r OR ucast (b :: u8) = r * 256 + (ucast b :: u64)"
  using push_bit_or_add [of "ucast b :: u64" 8 r] unat_u8_lt [of b] by (simp add: unat_ucast_u8)

lemma be_loop_bytes:
  "load_bytes m p n = Some bs \<Longrightarrow> be_loop m p n r = Some (r * 256 ^ n + of_nat (be_nat bs))"
proof (induction n arbitrary: p r bs)
  case (Suc n)
  then obtain b cs where "bs = b # cs" "m p = Some b" "load_bytes m (p + 1) n = Some cs"
    by (auto simp: load_bytes_Suc simp del: load_bytes.simps)
  moreover have "length cs = n" using calculation(3) by blast
  ultimately show ?case
    by (simp add: Suc.IH shift_in_byte be_nat_Cons algebra_simps)
qed simp

abbreviation same :: "mem \<Rightarrow> CBS \<Rightarrow> 'a \<Rightarrow> 'a \<Rightarrow> bool" where
  "same m c v w \<equiv> v = w"

lemma agrees_cbs_get:
  assumes "cbs_holds m c bs"
  shows "agrees (\<lambda>v w. v = cbs_data c \<and> w = take (unat n) bs) c bs (cbs_get n c) (take_n (unat n) bs)"
proof (cases "cbs_len c < n")
  case True
  then show ?thesis
    using cbs_holds_length [OF assms] by (simp add: cbs_get_def take_n_def word_less_nat_alt agrees_fail)
next
  case False
  then have "unat n \<le> length bs" using cbs_holds_length [OF assms] by (simp add: word_less_nat_alt)
  moreover have "cbs_drop (unat n) c = \<lparr>cbs_data = cbs_data c + uint n, cbs_len = cbs_len c - n\<rparr>"
    by (simp add: cbs_drop_def)
  ultimately show ?thesis
    using False inside_drop [of "unat n" c] cbs_holds_length [OF assms]
    unfolding agrees_def cbs_get_def take_n_def by auto
qed

lemma take_n_Some: "take_n n bs = Some (w, rest) \<longleftrightarrow> n \<le> length bs \<and> w = take n bs \<and> rest = drop n bs"
  by (auto simp: take_n_def)

lemma take_n_bind: "Option.bind (take_n n bs) (\<lambda>(w, rest). Some (f w, rest)) = map_option (\<lambda>(w, rest). (f w, rest)) (take_n n bs)"
  by (simp add: take_n_def)

lemma reads_skip: "byte_reader (\<lambda>m. CBS_skip n) (\<lambda>bs. Option.bind (take_n (unat n) bs) (\<lambda>(_, rest). Some ((), rest))) same"
  by standard (auto simp: CBS_skip_def intro: agrees_bind [OF agrees_cbs_get] agrees_ret)

lemma reads_bytes: "byte_reader (\<lambda>m. CBS_get_bytes n) (take_n (unat n)) window"
proof
  fix m c bs assume h: "cbs_holds m c bs"
  have "agrees (window m c) c bs (cbs_bind (cbs_get n c) (\<lambda>v c. Some (Some (CBS_init v n), c)))
      (Option.bind (take_n (unat n) bs) (\<lambda>(w, rest). Some (w, rest)))"
  proof (rule agrees_bind [OF agrees_cbs_get [OF h] h])
    fix v w k
    assume "v = cbs_data c \<and> w = take (unat n) bs" "take_n (unat n) bs = Some (w, drop k bs)"
    then have "window m c (CBS_init v n) w"
      using holds_prefix [OF h, of n] inside_prefix [of n c] cbs_holds_length [OF h]
      by (simp add: window_def take_n_Some)
    then show "agrees (window m c) (cbs_drop k c) (drop k bs) (Some (Some (CBS_init v n), cbs_drop k c)) (Some (w, drop k bs))"
      by (rule agrees_ret)
  qed
  then show "agrees (window m c) c bs (CBS_get_bytes n c) (take_n (unat n) bs)"
    by (simp add: CBS_get_bytes_def)
qed

definition get_be :: "nat \<Rightarrow> u8 list \<Rightarrow> (u64 \<times> u8 list) option" where
  "get_be n bs = map_option (\<lambda>(w, rest). (of_nat (be_nat w), rest)) (take_n n bs)"

lemma reads_u: "byte_reader (\<lambda>m. cbs_get_u m n) (get_be (unat n)) same"
proof
  fix m c bs assume h: "cbs_holds m c bs"
  have "agrees (same m c) c bs
      (cbs_bind (cbs_get n c) (\<lambda>data c. map_option (\<lambda>v. (Some v, c)) (be_loop m data (unat n) 0)))
      (Option.bind (take_n (unat n) bs) (\<lambda>(w, rest). Some (of_nat (be_nat w), rest)))"
  proof (rule agrees_bind [OF agrees_cbs_get [OF h] h])
    fix v w k
    assume a: "v = cbs_data c \<and> w = take (unat n) bs" "take_n (unat n) bs = Some (w, drop k bs)"
    then have "load_bytes m (cbs_data c) (unat n) = Some w"
      using holds_prefix [OF h, of n] by (simp add: take_n_Some cbs_holds_def CBS_init_def)
    then have "be_loop m v (unat n) 0 = Some (of_nat (be_nat w))"
      using a(1) be_loop_bytes [of m v "unat n" w 0] by simp
    then show "agrees (same m c) (cbs_drop k c) (drop k bs)
        (map_option (\<lambda>v. (Some v, cbs_drop k c)) (be_loop m v (unat n) 0)) (Some (of_nat (be_nat w), drop k bs))"
      by (simp add: agrees_ret)
  qed
  then show "agrees (same m c) c bs (cbs_get_u m n c) (get_be (unat n) bs)"
    by (simp only: cbs_get_u_def get_be_def take_n_bind)
qed

text \<open>A reader followed by a conversion of its value.\<close>

lemma reads_map:
  assumes "byte_reader op f same"
  shows "byte_reader (\<lambda>m c. cbs_bind (op m c) (\<lambda>v c. Some (Some (g v), c)))
    (\<lambda>bs. Option.bind (f bs) (\<lambda>(w, rest). Some (g w, rest))) same"
  by (rule reads_bind [OF assms]) (simp add: agrees_ret)

fun first_byte :: "u8 list \<Rightarrow> (u8 \<times> u8 list) option" where
  "first_byte [] = None"
| "first_byte (b # bs) = Some (b, bs)"

lemma first_byte_Some: "first_byte bs = Some (b, rest) \<longleftrightarrow> bs = b # rest"
  by (cases bs) auto

interpretation u8: byte_reader CBS_get_u8 first_byte same
proof
  fix m c bs assume h: "cbs_holds m c bs"
  have "agrees (same m c) c bs (cbs_bind (cbs_get 1 c) (\<lambda>v c. map_option (\<lambda>b. (Some b, c)) (m v)))
      (Option.bind (take_n (unat (1 :: u64)) bs) (\<lambda>(w, rest). Some (hd w, rest)))"
  proof (rule agrees_bind [OF agrees_cbs_get [OF h] h])
    fix v w k
    assume a: "v = cbs_data c \<and> w = take (unat (1 :: u64)) bs" "take_n (unat (1 :: u64)) bs = Some (w, drop k bs)"
    then have "m v = Some (hd w)"
      using holds_byte [OF h, of 0] by (cases bs) (auto simp: take_n_Some)
    then show "agrees (same m c) (cbs_drop k c) (drop k bs) (map_option (\<lambda>b. (Some b, cbs_drop k c)) (m v)) (Some (hd w, drop k bs))"
      by (simp add: agrees_ret)
  qed
  moreover have "Option.bind (take_n (unat (1 :: u64)) bs) (\<lambda>(w, rest). Some (hd w, rest)) = first_byte bs"
    by (cases bs) (simp_all add: take_n_def)
  ultimately show "agrees (same m c) c bs (CBS_get_u8 m c) (first_byte bs)"
    by (simp add: CBS_get_u8_def)
qed

interpretation u16: byte_reader CBS_get_u16 "\<lambda>bs. Option.bind (get_be 2 bs) (\<lambda>(w, rest). Some (ucast w, rest))" same
  unfolding CBS_get_u16_def [abs_def] using reads_map [OF reads_u [of 2]] by simp

interpretation u24: byte_reader CBS_get_u24 "\<lambda>bs. Option.bind (get_be 3 bs) (\<lambda>(w, rest). Some (ucast w, rest))" same
  unfolding CBS_get_u24_def [abs_def] using reads_map [OF reads_u [of 3]] by simp

interpretation u32: byte_reader CBS_get_u32 "\<lambda>bs. Option.bind (get_be 4 bs) (\<lambda>(w, rest). Some (ucast w, rest))" same
  unfolding CBS_get_u32_def [abs_def] using reads_map [OF reads_u [of 4]] by simp

interpretation u64: byte_reader CBS_get_u64 "get_be 8" same
  unfolding CBS_get_u64_def [abs_def] using reads_u [of 8] by simp

text \<open>Length-prefixed contents.\<close>

definition prefixed :: "nat \<Rightarrow> u8 list \<Rightarrow> (u8 list \<times> u8 list) option" where
  "prefixed k bs = Option.bind (get_be k bs) (\<lambda>(len, rest). take_n (unat len) rest)"

lemma window_inside: "window m d e es \<Longrightarrow> inside d c \<Longrightarrow> window m c e es"
  by (auto simp: window_def intro: inside_trans)

lemma reads_prefixed: "byte_reader (\<lambda>m. cbs_get_length_prefixed m k) (prefixed (unat k)) window"
  unfolding cbs_get_length_prefixed_def [abs_def] prefixed_def [abs_def]
  by (rule reads_bind [OF reads_u])
    (auto intro: agrees_mono [OF byte_reader.reads [OF reads_bytes]] window_inside)

interpretation u8_prefixed: byte_reader CBS_get_u8_length_prefixed "prefixed 1" window
  unfolding CBS_get_u8_length_prefixed_def [abs_def] using reads_prefixed [of 1] by simp

interpretation u16_prefixed: byte_reader CBS_get_u16_length_prefixed "prefixed 2" window
  unfolding CBS_get_u16_length_prefixed_def [abs_def] using reads_prefixed [of 2] by simp

interpretation u24_prefixed: byte_reader CBS_get_u24_length_prefixed "prefixed 3" window
  unfolding CBS_get_u24_length_prefixed_def [abs_def] using reads_prefixed [of 3] by simp

end
