(* ===== verification/Boring_DER.thy ===== *)
theory Boring_DER
  imports Boring_CBS_Correct
begin

text \<open>
  DER elements. The first half gives the encoding as functions on numbers and bytes (base 128
  integers, identifier octets, length octets, elements) and the parser \<open>cbs.c\<close> runs as functions on
  byte lists, and proves that the parser accepts exactly the encodings. The second half proves that
  the C functions are these parsers.
\<close>

section \<open>Base 128 integers\<close>

text \<open>All octets but the last have the high bit set; there are no leading \<open>0x80\<close> octets.\<close>

fun b128_hi :: "nat \<Rightarrow> u8 list" where
  "b128_hi v = (if v = 0 then [] else b128_hi (v div 128) @ [of_nat (128 + v mod 128)])"

declare b128_hi.simps [simp del]

definition b128 :: "nat \<Rightarrow> u8 list" where
  "b128 v = b128_hi (v div 128) @ [of_nat (v mod 128)]"

fun b128_parse :: "nat \<Rightarrow> u8 list \<Rightarrow> (nat \<times> u8 list) option" where
  "b128_parse v [] = None"
| "b128_parse v (b # bs) =
     (if 2 ^ 57 \<le> v \<or> (v = 0 \<and> b = 0x80) then None
      else if 128 \<le> unat b then b128_parse (v * 128 + unat b mod 128) bs
      else Some (v * 128 + unat b, bs))"

lemma b128_hi_0 [simp]: "b128_hi 0 = []"
  by (simp add: b128_hi.simps)

lemma of_unat_u8: "of_nat (unat (b :: u8)) = b"
  by simp

lemma b128_hi_step: "(v = 0 \<longrightarrow> b \<noteq> 0x80) \<Longrightarrow> 128 \<le> unat b \<Longrightarrow> b128_hi (v * 128 + unat b mod 128) = b128_hi v @ [b]"
proof -
  assume v: "v = 0 \<longrightarrow> b \<noteq> 0x80" and b: "128 \<le> unat b"
  have m: "128 + unat b mod 128 = unat b" using b unat_u8_lt [of b] by (simp add: le_mod_geq)
  have "v * 128 + unat b mod 128 \<noteq> 0"
  proof
    assume z: "v * 128 + unat b mod 128 = 0"
    then have "of_nat (unat b) = (of_nat 128 :: u8)" using m by simp
    then have "b = 0x80" by simp
    then show False using v z by simp
  qed
  then have "b128_hi (v * 128 + unat b mod 128) = b128_hi v @ [of_nat (128 + unat b mod 128)]"
    by (subst b128_hi.simps) simp
  then show ?thesis by (simp only: m of_unat_u8)
qed

lemma b128_parse_sound: "b128_parse u bs = Some (v, rest) \<Longrightarrow> b128_hi u @ bs = b128 v @ rest \<and> v < 2 ^ 64"
proof (induction u bs rule: b128_parse.induct)
  case (2 u b bs)
  have u: "u < 2 ^ 57" "\<not> (u = 0 \<and> b = 0x80)" using 2(2) by (auto split: if_splits)
  show ?case
  proof (cases "128 \<le> unat b")
    case True
    then have "b128_hi (u * 128 + unat b mod 128) @ bs = b128 v @ rest \<and> v < 2 ^ 64"
      using 2 u by (auto split: if_splits)
    then show ?thesis using b128_hi_step [of u b] u True by auto
  next
    case False
    then have v: "v = u * 128 + unat b" "bs = rest" using 2(2) u by (auto split: if_splits)
    then have "b128 v = b128_hi u @ [b]" using False by (simp add: b128_def)
    then show ?thesis using v u False by simp
  qed
qed simp

lemma b128_parse_hi: "u < 2 ^ 64 \<Longrightarrow> b128_parse 0 (b128_hi u @ bs) = b128_parse u bs"
proof (induction u arbitrary: bs rule: b128_hi.induct)
  case (1 u)
  show ?case
  proof (cases "u = 0")
    case False
    let ?b = "of_nat (128 + u mod 128) :: u8"
    have b: "unat ?b = 128 + u mod 128" by (rule unat_byte) simp
    have nz: "\<not> (u div 128 = 0 \<and> ?b = 0x80)"
    proof
      assume a: "u div 128 = 0 \<and> ?b = 0x80"
      then have "unat ?b = 128" by (simp only: unat_numeral) simp
      then show False using a False b by simp
    qed
    have "b128_parse 0 (b128_hi u @ bs) = b128_parse 0 (b128_hi (u div 128) @ ?b # bs)"
      using False by (subst b128_hi.simps) simp
    also have "\<dots> = b128_parse (u div 128) (?b # bs)" using 1 False by simp
    also have "\<dots> = b128_parse (u div 128 * 128 + unat ?b mod 128) bs"
      using nz 1(2) b by (simp only: b128_parse.simps) auto
    finally show ?thesis unfolding b by simp
  qed simp
qed

text \<open>The parser accepts exactly the minimal encodings of 64 bit numbers.\<close>

theorem b128_parse_iff: "b128_parse 0 bs = Some (v, rest) \<longleftrightarrow> v < 2 ^ 64 \<and> bs = b128 v @ rest"
proof
  assume "b128_parse 0 bs = Some (v, rest)"
  from b128_parse_sound [OF this] show "v < 2 ^ 64 \<and> bs = b128 v @ rest" by simp
next
  assume a: "v < 2 ^ 64 \<and> bs = b128 v @ rest"
  have b: "unat (of_nat (v mod 128) :: u8) = v mod 128" by (rule unat_byte) simp
  have nz: "(of_nat (v mod 128) :: u8) \<noteq> 0x80"
  proof
    assume "(of_nat (v mod 128) :: u8) = 0x80"
    then have "unat (of_nat (v mod 128) :: u8) = 128" by (simp only: unat_numeral) simp
    then show False using b by simp
  qed
  have hi: "v div 128 < 2 ^ 57" using a by (simp add: less_mult_imp_div_less)
  then have "b128_parse 0 bs = b128_parse (v div 128) (of_nat (v mod 128) # rest)"
    using a b128_parse_hi [of "v div 128" "of_nat (v mod 128) # rest"]
    by (simp add: b128_def del: b128_parse.simps)
  moreover have "(128 \<le> v mod 128) = False" by (simp add: not_le)
  ultimately show "b128_parse 0 bs = Some (v, rest)"
    using a b nz hi by simp
qed

lemma b128_hi_length: "u < 128 ^ k \<Longrightarrow> length (b128_hi u) \<le> k"
proof (induction k arbitrary: u)
  case (Suc k)
  then have "u div 128 < 128 ^ k" by (simp add: less_mult_imp_div_less mult.commute)
  then show ?case using Suc.IH by (subst b128_hi.simps) auto
qed simp

lemma b128_length: "v < 2 ^ 64 \<Longrightarrow> length (b128 v) \<le> 10"
  using b128_hi_length [of "v div 128" 9] by (simp add: b128_def)

lemma unat_low7: "unat (b AND 0x7F :: u8) = unat b mod 128"
  by (rule all_u8D) code_simp

lemma high_bit_iff: "b AND 0x80 \<noteq> (0 :: u8) \<longleftrightarrow> 128 \<le> unat b"
  by (rule all_u8D) code_simp

lemma shift_in_7:
  assumes "\<not> 2 ^ 57 \<le> unat (v :: u64)"
  shows "unat (push_bit 7 v OR ucast (b AND 0x7F :: u8)) = unat v * 128 + unat b mod 128"
proof -
  have "push_bit 7 v OR ucast (b AND 0x7F) = v * 128 + (ucast (b AND 0x7F) :: u64)"
    using push_bit_or_add [of "ucast (b AND 0x7F) :: u64" 7 v] unat_ucast_u8(1) [of "b AND 0x7F"] unat_low7 [of b]
    by simp
  then show ?thesis
    using assms by (simp add: unat_word_ariths unat_ucast_u8 unat_low7)
qed

lemma drop_57: "drop_bit 57 (v :: u64) \<noteq> 0 \<longleftrightarrow> 2 ^ 57 \<le> unat v"
  by (simp add: word_unat_eq_iff unat_drop_bit_eq drop_bit_nat_def div_eq_0_iff not_less)

lemma agrees_base128:
  "cbs_holds m c bs \<Longrightarrow> agrees (\<lambda>v w. unat v = w) c bs (base128_loop m v c) (b128_parse (unat v) bs)"
proof (induction bs arbitrary: c v)
  case Nil
  then obtain c' where "CBS_get_u8 m c = Some (None, c')" "inside c' c"
    using u8.failure [of m c "[]"] by auto
  then show ?case by (subst base128_loop.simps) (simp add: agrees_fail)
next
  case (Cons b bs)
  have "b128_parse (unat v) (b # bs) = Option.bind (first_byte (b # bs)) (\<lambda>(b, rest). b128_parse (unat v) (b # rest))"
    by simp
  moreover have "agrees (\<lambda>v w. unat v = w) c (b # bs) (base128_loop m v c)
      (Option.bind (first_byte (b # bs)) (\<lambda>(b, rest). b128_parse (unat v) (b # rest)))"
  proof (subst base128_loop.simps, rule agrees_bind [OF u8.reads [OF Cons.prems] Cons.prems])
    fix x w :: u8 and n
    assume h: "cbs_holds m (cbs_drop n c) (drop n (b # bs))" and i: "inside (cbs_drop n c) c"
      and "first_byte (b # bs) = Some (w, drop n (b # bs))" and xw: "x = w"
    then have d: "drop n (b # bs) = bs" by (metis first_byte.simps(2) option.inject prod.inject)
    have IH: "agrees (\<lambda>v w. unat v = w) (cbs_drop n c) bs (base128_loop m v' (cbs_drop n c)) (b128_parse (unat v') bs)" for v'
      using Cons.IH h d by simp
    show "agrees (\<lambda>v w. unat v = w) (cbs_drop n c) (drop n (b # bs))
       (if drop_bit (64 - 7) v \<noteq> 0 then Some (None, cbs_drop n c)
        else if v = 0 \<and> x = 0x80 then Some (None, cbs_drop n c)
        else let v' = push_bit 7 v OR ucast (x AND 0x7F)
             in if x AND 0x80 \<noteq> 0 then base128_loop m v' (cbs_drop n c) else Some (Some v', cbs_drop n c))
       (b128_parse (unat v) (w # drop n (b # bs)))"
      using IH [of "push_bit 7 v OR ucast (x AND 0x7F)"] drop_57 [of v] shift_in_7 [of v x] xw
      by (auto simp: d Let_def agrees_fail high_bit_iff unat_eq_0 intro: agrees_ret)
  qed
  ultimately show ?case by simp
qed

section \<open>Identifier octets\<close>

text \<open>
  A \<open>CBS_ASN1_TAG\<close> has the class and the constructed bit on top and a tag number of 29 bits below.
  \<open>[UNIVERSAL 0]\<close> is not a tag.
\<close>

definition valid_tag :: "u32 \<Rightarrow> bool" where
  "valid_tag tag \<longleftrightarrow> tag AND NOT CBS_ASN1_CONSTRUCTED \<noteq> 0"

definition tag_class :: "u32 \<Rightarrow> u8" where
  "tag_class tag = ucast (drop_bit 24 tag) AND 0xE0"

definition tag_number :: "u32 \<Rightarrow> nat" where
  "tag_number tag = unat (tag AND CBS_ASN1_TAG_NUMBER_MASK)"

definition ident :: "u32 \<Rightarrow> u8 list" where
  "ident tag =
     (if tag_number tag < 31 then [tag_class tag OR of_nat (tag_number tag)]
      else (tag_class tag OR 0x1F) # b128 (tag_number tag))"

definition make_tag :: "u8 \<Rightarrow> nat \<Rightarrow> u32" where
  "make_tag t num = push_bit 24 (ucast t AND 0xE0) OR of_nat num"

definition tag_parse :: "u8 list \<Rightarrow> (u32 \<times> u8 list) option" where
  "tag_parse bs = Option.bind (first_byte bs) (\<lambda>(t, rest).
     let finish = (\<lambda>num rest. if valid_tag (make_tag t num) then Some (make_tag t num, rest) else None)
     in if t AND 0x1F = 0x1F
        then Option.bind (b128_parse 0 rest) (\<lambda>(v, rest). if 2 ^ 29 \<le> v \<or> v < 31 then None else finish v rest)
        else finish (unat (t AND 0x1F)) rest)"

lemma tag_masks:
  "(0xE0 :: u32) = push_bit 5 (mask 3)" "(0xE0 :: u8) = push_bit 5 (mask 3)"
  "CBS_ASN1_TAG_NUMBER_MASK = mask 29" "(0x1F :: u8) = mask 5"
  by (simp_all add: mask_eq_exp_minus_1 CBS_ASN1_TAG_NUMBER_MASK_def)

lemma number_as_take_bit: "num < 2 ^ 29 \<Longrightarrow> (of_nat num :: u32) = take_bit 29 (of_nat num)"
proof -
  assume "num < 2 ^ 29"
  then have "take_bit 29 num = num" by (simp add: take_bit_nat_eq_self_iff)
  then show ?thesis by (simp add: take_bit_of_nat)
qed

lemma make_tag_number: "num < 2 ^ 29 \<Longrightarrow> make_tag t num AND CBS_ASN1_TAG_NUMBER_MASK = of_nat num"
  unfolding make_tag_def tag_masks
  by (subst (1 2) number_as_take_bit, assumption+, rule bit_eqI) (auto simp: bit_simps)

lemma tag_class_make: "num < 2 ^ 29 \<Longrightarrow> tag_class (make_tag t num) = t AND 0xE0"
  unfolding make_tag_def tag_class_def tag_masks
  by (subst number_as_take_bit, assumption, rule bit_eqI) (auto simp: bit_simps)

lemma make_tag_parts: "make_tag (tag_class tag) (tag_number tag) = tag"
  unfolding make_tag_def tag_class_def tag_number_def tag_masks
  by (rule bit_eqI) (auto simp: bit_simps)

lemma make_tag_class: "t AND 0xE0 = u AND 0xE0 \<Longrightarrow> make_tag t num = make_tag u num"
proof -
  assume "t AND 0xE0 = u AND 0xE0"
  moreover have "make_tag (x AND 0xE0) num = make_tag x num" for x
    unfolding make_tag_def tag_masks by (rule bit_eqI) (auto simp: bit_simps)
  ultimately show ?thesis by metis
qed

lemma tag_number_make: "num < 2 ^ 29 \<Longrightarrow> tag_number (make_tag t num) = num"
  by (simp add: tag_number_def make_tag_number unat_of_nat take_bit_nat_eq_self_iff)

lemma tag_number_bound: "tag_number tag < 2 ^ 29"
proof -
  have "tag AND CBS_ASN1_TAG_NUMBER_MASK = take_bit 29 tag"
    unfolding tag_masks by (rule bit_eqI) (auto simp: bit_simps)
  then show ?thesis
    by (simp add: tag_number_def unsigned_take_bit_eq take_bit_nat_less_exp [of 29, simplified])
qed

lemma byte_parts: "(t AND 0xE0) OR (t AND 0x1F) = (t :: u8)" "(c AND 0xE0 OR t AND 0x1F) AND 0x1F = (t :: u8) AND 0x1F"
  "(c AND 0xE0 OR t AND 0x1F) AND 0xE0 = (c :: u8) AND 0xE0"
  unfolding tag_masks by (rule bit_eqI, auto simp: bit_simps)+

lemma low5: "n < 32 \<Longrightarrow> of_nat n AND 0x1F = (of_nat n :: u8)"
proof -
  assume "n < 32"
  moreover have "unat x < 32 \<longrightarrow> x AND 0x1F = x" for x :: u8 by (rule all_u8D) code_simp
  ultimately show ?thesis by (simp add: unat_byte)
qed

lemma tag_parse_sound:
  assumes "tag_parse bs = Some (tag, rest)"
  shows "valid_tag tag \<and> bs = ident tag @ rest"
proof -
  from assms obtain t r where bs: "bs = t # r" by (cases bs) (auto simp: tag_parse_def)
  show ?thesis
  proof (cases "t AND 0x1F = 0x1F")
    case True
    then obtain v where v: "b128_parse 0 r = Some (v, rest)" "v < 2 ^ 29" "31 \<le> v" "tag = make_tag t v" "valid_tag tag"
      using assms by (auto simp: tag_parse_def bs split: if_splits bind_splits)
    have "r = b128 v @ rest" using v(1) by (simp add: b128_parse_iff)
    moreover have "(t AND 0xE0) OR 0x1F = t" using byte_parts(1) [of t] True by simp
    ultimately show ?thesis
      using v by (simp add: bs ident_def tag_number_make tag_class_make)
  next
    case False
    then have v: "rest = r" "tag = make_tag t (unat (t AND 0x1F))" "valid_tag tag"
      using assms by (auto simp: tag_parse_def bs split: if_splits)
    have "unat (t AND 0x1F) < 31"
    proof -
      have "unat (t AND 0x1F) < 31 \<or> t AND 0x1F = 0x1F" by (rule all_u8D) code_simp
      then show ?thesis using False by simp
    qed
    then show ?thesis
      using v by (simp add: bs ident_def tag_number_make tag_class_make byte_parts(1))
  qed
qed

lemma tag_parse_complete:
  assumes "valid_tag tag"
  shows "tag_parse (ident tag @ rest) = Some (tag, rest)"
proof (cases "tag_number tag < 31")
  case True
  let ?n = "tag_number tag" and ?t = "tag_class tag OR of_nat (tag_number tag)"
  have t: "?t = tag_class tag AND 0xE0 OR of_nat ?n AND 0x1F"
    using True low5 [of ?n] by (simp add: tag_class_def and.assoc)
  have "?t AND 0x1F = of_nat ?n AND 0x1F" by (simp only: t byte_parts)
  then have low: "?t AND 0x1F = of_nat ?n" using True low5 [of ?n] by simp
  have "?t AND 0xE0 = tag_class tag AND 0xE0" by (simp only: t byte_parts)
  then have mk: "make_tag ?t ?n = tag" using make_tag_class make_tag_parts by metis
  have "unat (of_nat ?n :: u8) = ?n" using True by (simp add: unat_byte)
  moreover have "(of_nat ?n :: u8) \<noteq> 0x1F" using calculation True by (auto dest: arg_cong [of _ _ unat])
  ultimately show ?thesis
    using True mk low assms by (simp add: ident_def tag_parse_def)
next
  case False
  let ?t = "tag_class tag OR 0x1F"
  have t: "?t = tag_class tag AND 0xE0 OR 0x1F AND 0x1F" by (simp add: tag_class_def and.assoc)
  have "?t AND 0x1F = 0x1F" by (simp only: t byte_parts) simp
  moreover have "?t AND 0xE0 = tag_class tag AND 0xE0" by (simp only: t byte_parts)
  then have "make_tag ?t (tag_number tag) = tag" using make_tag_class make_tag_parts by metis
  moreover have "b128_parse 0 (b128 (tag_number tag) @ rest) = Some (tag_number tag, rest)"
    using tag_number_bound [of tag] by (simp add: b128_parse_iff)
  ultimately show ?thesis
    using False tag_number_bound [of tag] assms by (simp add: ident_def tag_parse_def)
qed

theorem tag_parse_iff: "tag_parse bs = Some (tag, rest) \<longleftrightarrow> valid_tag tag \<and> bs = ident tag @ rest"
  using tag_parse_sound tag_parse_complete by blast

lemma ident_length: "length (ident tag) \<le> 11"
  using b128_length [of "tag_number tag"] tag_number_bound [of tag] by (simp add: ident_def)

section \<open>Length octets and elements\<close>

text \<open>The minimal big-endian octets of a positive number.\<close>

fun be_bytes :: "nat \<Rightarrow> u8 list" where
  "be_bytes n = (if n = 0 then [] else be_bytes (n div 256) @ [of_nat (n mod 256)])"

declare be_bytes.simps [simp del]

definition der_len :: "nat \<Rightarrow> u8 list" where
  "der_len n = (if n < 128 then [of_nat n] else of_nat (128 + length (be_bytes n)) # be_bytes n)"

definition der :: "u32 \<Rightarrow> u8 list \<Rightarrow> u8 list" where
  "der tag content = ident tag @ der_len (length content) @ content"

lemma be_nat_be_bytes [simp]: "be_nat (be_bytes n) = n"
proof (induction n rule: be_bytes.induct)
  case (1 n)
  then show ?case
    by (subst be_bytes.simps) (simp add: be_nat_snoc unat_byte)
qed

text \<open>A sequence of octets whose number needs all of them is the minimal one.\<close>

lemma be_bytes_be_nat: "256 ^ (length bs - 1) \<le> be_nat bs \<Longrightarrow> bs \<noteq> [] \<Longrightarrow> be_bytes (be_nat bs) = bs"
proof (induction bs rule: rev_induct)
  case (snoc b bs)
  have n: "be_nat (bs @ [b]) = be_nat bs * 256 + unat b" by (rule be_nat_snoc)
  have dm: "be_nat (bs @ [b]) div 256 = be_nat bs" "be_nat (bs @ [b]) mod 256 = unat b"
    unfolding n using unat_u8_lt [of b] by simp_all
  have "256 ^ length bs \<le> be_nat (bs @ [b])" "0 < (256 :: nat) ^ length bs" using snoc.prems(1) by simp_all
  then have nz: "be_nat (bs @ [b]) \<noteq> 0" by linarith
  have "be_bytes (be_nat bs) = bs"
  proof (cases "bs = []")
    case True
    then show ?thesis by (simp add: be_bytes.simps)
  next
    case False
    then obtain k where k: "length bs = Suc k" by (cases bs) auto
    have "256 ^ Suc k \<le> be_nat bs * 256 + unat b" using snoc.prems(1) n k by simp
    then have "256 ^ k * 256 < (be_nat bs + 1) * 256" using unat_u8_lt [of b] by simp
    then have "256 ^ k < be_nat bs + 1" by simp
    then show ?thesis using snoc.IH False k by simp
  qed
  then show ?case using nz dm by (subst be_bytes.simps) simp
qed simp

lemma be_bytes_length: "n < 256 ^ k \<Longrightarrow> length (be_bytes n) \<le> k"
proof (induction k arbitrary: n)
  case (Suc k)
  then have "n div 256 < 256 ^ k" by (simp add: less_mult_imp_div_less mult.commute)
  then show ?case using Suc.IH by (subst be_bytes.simps) auto
qed (simp add: be_bytes.simps)

lemma be_bytes_minimal: "n \<noteq> 0 \<Longrightarrow> 256 ^ (length (be_bytes n) - 1) \<le> n"
proof (induction n rule: be_bytes.induct)
  case (1 n)
  show ?case
  proof (cases "n div 256 = 0")
    case True
    then show ?thesis using 1(2) by (subst be_bytes.simps) (simp add: be_bytes.simps)
  next
    case False
    have "256 ^ length (be_bytes (n div 256)) \<le> n"
    proof -
      obtain k where k: "length (be_bytes (n div 256)) = Suc k"
        using False by (subst (asm) be_bytes.simps) (auto simp: be_bytes.simps [of "n div 256"])
      have "256 ^ k \<le> n div 256" using 1(1) [OF 1(2) False] k by simp
      then have "256 ^ k * 256 \<le> n div 256 * 256" by simp
      also have "\<dots> \<le> n" by simp
      finally show ?thesis by (simp add: k)
    qed
    then show ?thesis using 1(2) by (subst be_bytes.simps) simp
  qed
qed

text \<open>
  The header: tag, content length, and for BER the flags \<open>ber_found\<close> and \<open>indefinite\<close>.
\<close>

definition header_parse :: "bool \<Rightarrow> u8 list \<Rightarrow> ((u32 \<times> nat \<times> bool \<times> bool) \<times> u8 list) option" where
  "header_parse ber bs = Option.bind (tag_parse bs) (\<lambda>(tag, rest). Option.bind (first_byte rest) (\<lambda>(b, rest).
     if unat b < 128 then Some ((tag, unat b, False, False), rest)
     else
       (let k = unat b - 128 in
        if ber \<and> tag AND CBS_ASN1_CONSTRUCTED \<noteq> 0 \<and> k = 0 then Some ((tag, 0, True, True), rest)
        else if k = 0 \<or> 4 < k then None
        else Option.bind (take_n k rest) (\<lambda>(l, rest).
          (let long = be_nat l < 128 \<or> be_nat l < 256 ^ (k - 1) in
           if long \<and> \<not> ber then None else Some ((tag, be_nat l, long, False), rest))))))"

text \<open>The element: its tag, the length of its header, its bytes and the two flags.\<close>

definition element_parse :: "bool \<Rightarrow> u8 list \<Rightarrow> ((u32 \<times> nat \<times> u8 list \<times> bool \<times> bool) \<times> u8 list) option" where
  "element_parse ber bs = Option.bind (header_parse ber bs) (\<lambda>((tag, n, b, i), rest).
     let hl = length bs - length rest in
     Option.bind (take_n (hl + n) bs) (\<lambda>(e, rest). Some ((tag, hl, e, b, i), rest)))"

text \<open>A length is accepted in DER exactly when its octets are the DER length octets.\<close>

lemma header_der:
  assumes "header_parse False bs = Some ((tag, n, b, i), rest)"
  shows "valid_tag tag \<and> n < 2 ^ 32 \<and> \<not> b \<and> \<not> i \<and> bs = ident tag @ der_len n @ rest"
proof -
  from assms obtain r0 x r1 where t: "tag_parse bs = Some (tag, r0)" and r0: "r0 = x # r1"
    by (auto simp: header_parse_def Let_def first_byte_Some split: bind_splits if_splits)
  have tag: "valid_tag tag" "bs = ident tag @ x # r1" using t r0 by (simp_all add: tag_parse_iff)
  show ?thesis
  proof (cases "unat x < 128")
    case True
    then have "n = unat x" "rest = r1" "\<not> b" "\<not> i" using assms t r0 by (auto simp: header_parse_def)
    then show ?thesis using True tag by (simp add: der_len_def)
  next
    case False
    define k where "k = unat x - 128"
    obtain l where l: "take_n k r1 = Some (l, rest)" "n = be_nat l" "k \<noteq> 0" "k \<le> 4" "128 \<le> n" "256 ^ (k - 1) \<le> n"
      "\<not> b" "\<not> i"
      using assms t r0 False
      by (auto simp: header_parse_def Let_def k_def not_less split: bind_splits if_splits)
    have len: "length l = k" "r1 = l @ rest" using l(1) by (auto simp: take_n_Some)
    have "be_bytes n = l" using be_bytes_be_nat [of l] l len by auto
    moreover have "of_nat (128 + k) = x" using False by (simp add: k_def)
    moreover have "n < 2 ^ 32"
    proof -
      have "n < 256 ^ k" using be_nat_bound [of l] l(2) len by simp
      also have "\<dots> \<le> 256 ^ 4" using l(4) by (intro power_increasing) simp_all
      finally show ?thesis by simp
    qed
    ultimately show ?thesis using tag len l by (auto simp: der_len_def)
  qed
qed

lemma header_complete:
  assumes "valid_tag tag" "n < 2 ^ 32"
  shows "header_parse ber (ident tag @ der_len n @ rest) = Some ((tag, n, False, False), rest)"
proof -
  have t: "tag_parse (ident tag @ der_len n @ rest) = Some (tag, der_len n @ rest)"
    using assms(1) by (simp add: tag_parse_complete)
  show ?thesis
  proof (cases "n < 128")
    case True
    then show ?thesis using t by (simp add: header_parse_def der_len_def unat_byte)
  next
    case False
    let ?l = "be_bytes n"
    have k: "length ?l \<le> 4" using be_bytes_length [of n 4] assms(2) by simp
    have min: "256 ^ (length ?l - 1) \<le> n" using be_bytes_minimal False by simp
    have nz: "length ?l \<noteq> 0" using False by (subst be_bytes.simps) simp
    have b: "unat (of_nat (128 + length ?l) :: u8) = 128 + length ?l" using k by (intro unat_byte) simp
    have "take_n (length ?l) (?l @ rest) = Some (?l, rest)" by (simp add: take_n_def)
    then show ?thesis
      using t False k min nz unfolding header_parse_def der_len_def
      by (simp add: b Let_def del: of_nat_add)
  qed
qed

theorem element_parse_iff:
  "element_parse False bs = Some ((tag, hl, e, b, i), rest) \<longleftrightarrow>
     (\<exists>content. valid_tag tag \<and> length content < 2 ^ 32 \<and> e = der tag content \<and> drop hl e = content \<and>
        hl \<le> length e \<and> \<not> b \<and> \<not> i \<and> bs = e @ rest)" (is "?L \<longleftrightarrow> ?R")
proof
  assume ?L
  then obtain n r where h: "header_parse False bs = Some ((tag, n, b, i), r)" and hl: "hl = length bs - length r"
    and tk: "take_n (hl + n) bs = Some (e, rest)"
    by (auto simp: element_parse_def Let_def split: bind_splits)
  from header_der [OF h] have hd: "valid_tag tag" "n < 2 ^ 32" "\<not> b" "\<not> i" "bs = (ident tag @ der_len n) @ r" by auto
  have hl': "hl = length (ident tag @ der_len n)" unfolding hl hd(5) by simp
  have e: "e = (ident tag @ der_len n) @ take n r" "rest = drop n r" "n \<le> length r"
    using tk unfolding take_n_Some hl' hd(5) by auto
  then show ?R using hd hl' by (intro exI [of _ "take n r"]) (auto simp: der_def)
next
  assume ?R
  then obtain content where c: "valid_tag tag" "length content < 2 ^ 32" "e = der tag content" "drop hl e = content"
    "hl \<le> length e" "\<not> b" "\<not> i" "bs = e @ rest" by blast
  have h: "header_parse False bs = Some ((tag, length content, False, False), content @ rest)"
    using header_complete [OF c(1,2), of False "content @ rest"] c(3,8) by (simp add: der_def)
  have "length e - hl = length content" using c(4) by auto
  moreover have "length e = length (ident tag @ der_len (length content)) + length content"
    using c(3) by (simp add: der_def)
  ultimately have hl: "hl = length bs - length (content @ rest)" using c(5,8) by simp
  have "take_n (hl + length content) bs = Some (e, rest)"
    using c(5,8) \<open>length e - hl = length content\<close> by (simp add: take_n_def)
  then show ?L using h hl c(6,7) by (simp add: element_parse_def)
qed

end
