(* ===== verification/Boring_DER_Correct.thy ===== *)
theory Boring_DER_Correct
  imports Boring_DER
begin

text \<open>
  The ASN.1 functions of \<open>cbs.c\<close> are the parsers of \<open>Boring_DER\<close>: each is an instance of
  \<open>byte_reader\<close>.
\<close>

section \<open>Tags\<close>

interpretation base128: byte_reader parse_base128_integer "b128_parse 0" "\<lambda>m c v w. unat v = w"
proof
  fix m c bs assume "cbs_holds m c bs"
  from agrees_base128 [OF this, of 0] show "agrees (\<lambda>v w. unat v = w) c bs (parse_base128_integer m c) (b128_parse 0 bs)"
    by (simp add: parse_base128_integer_def)
qed

lemma tag_byte_casts:
  "(ucast (t :: u8) AND 0x1F :: u32) = of_nat (unat (t AND 0x1F))"
  "(ucast (t :: u8) AND 0x1F :: u32) = 0x1F \<longleftrightarrow> t AND 0x1F = 0x1F"
proof -
  show "(ucast (t :: u8) AND 0x1F :: u32) = of_nat (unat (t AND 0x1F))" by (rule all_u8D) code_simp
  show "(ucast (t :: u8) AND 0x1F :: u32) = 0x1F \<longleftrightarrow> t AND 0x1F = 0x1F" by (rule all_u8D) code_simp
qed

lemma high_tag_range: "ucast CBS_ASN1_TAG_NUMBER_MASK < (v :: u64) \<or> v < 0x1F \<longleftrightarrow> 2 ^ 29 \<le> unat v \<or> unat v < 31"
  by (simp add: CBS_ASN1_TAG_NUMBER_MASK_def word_less_nat_alt) linarith

interpretation asn1_tag: byte_reader parse_asn1_tag tag_parse same
proof -
  have finish: "agrees (\<lambda>v w. v = w) d ds
      (if (push_bit 24 (ucast t AND 0xE0) OR num) AND NOT CBS_ASN1_CONSTRUCTED = 0 then Some (None, d)
       else Some (Some (push_bit 24 (ucast t AND 0xE0) OR num), d))
      (if valid_tag (make_tag t n) then Some (make_tag t n, ds) else None)"
    if "num = of_nat n" for d ds t num n
    using that by (simp add: valid_tag_def make_tag_def agrees_fail agrees_ret)
  show "byte_reader parse_asn1_tag tag_parse same"
    unfolding parse_asn1_tag_def [abs_def] tag_parse_def [abs_def]
  proof (rule reads_bind [OF u8.byte_reader_axioms], unfold Let_def)
    fix m c bs v w n
    assume "v = (w :: u8)" and h: "cbs_holds m (cbs_drop n c) (drop n bs)"
    note t = this(1)
    show "agrees (\<lambda>v w. v = w) (cbs_drop n c) (drop n bs)
      (if ucast v AND 0x1F = (0x1F :: u32)
       then cbs_bind (parse_base128_integer m (cbs_drop n c)) (\<lambda>x d.
              if ucast CBS_ASN1_TAG_NUMBER_MASK < x \<or> x < 0x1F then Some (None, d)
              else if (push_bit 24 (ucast v AND 0xE0) OR ucast x) AND NOT CBS_ASN1_CONSTRUCTED = 0 then Some (None, d)
              else Some (Some (push_bit 24 (ucast v AND 0xE0) OR ucast x), d))
       else if (push_bit 24 (ucast v AND 0xE0) OR (ucast v AND 0x1F)) AND NOT CBS_ASN1_CONSTRUCTED = 0
       then Some (None, cbs_drop n c)
       else Some (Some (push_bit 24 (ucast v AND 0xE0) OR (ucast v AND 0x1F)), cbs_drop n c))
      (if w AND 0x1F = 0x1F
       then Option.bind (b128_parse 0 (drop n bs)) (\<lambda>(x, rest). if 2 ^ 29 \<le> x \<or> x < 31 then None
              else if valid_tag (make_tag w x) then Some (make_tag w x, rest) else None)
       else if valid_tag (make_tag w (unat (w AND 0x1F))) then Some (make_tag w (unat (w AND 0x1F)), drop n bs) else None)"
    proof (cases "w AND 0x1F = 0x1F")
      case True
      have "agrees (\<lambda>v w. v = w) (cbs_drop n c) (drop n bs)
        (cbs_bind (parse_base128_integer m (cbs_drop n c)) (\<lambda>x d.
              if ucast CBS_ASN1_TAG_NUMBER_MASK < x \<or> x < 0x1F then Some (None, d)
              else if (push_bit 24 (ucast w AND 0xE0) OR ucast x) AND NOT CBS_ASN1_CONSTRUCTED = 0 then Some (None, d)
              else Some (Some (push_bit 24 (ucast w AND 0xE0) OR ucast x), d)))
        (Option.bind (b128_parse 0 (drop n bs)) (\<lambda>(x, rest). if 2 ^ 29 \<le> x \<or> x < 31 then None
              else if valid_tag (make_tag w x) then Some (make_tag w x, rest) else None))"
      proof (rule agrees_bind [OF base128.reads [OF h] h], goal_cases)
        case (1 x y k)
        show ?case
        proof (cases "2 ^ 29 \<le> y \<or> y < 31")
          case out: True
          then have c: "ucast CBS_ASN1_TAG_NUMBER_MASK < x \<or> x < 0x1F" using 1(1) high_tag_range [of x] by simp
          show ?thesis unfolding if_P [OF c] if_P [OF out] by (rule agrees_fail) simp
        next
          case inr: False
          then have c: "\<not> (ucast CBS_ASN1_TAG_NUMBER_MASK < x \<or> x < 0x1F)" using 1(1) high_tag_range [of x] by simp
          show ?thesis unfolding if_not_P [OF c] if_not_P [OF inr] by (rule finish) (use 1(1) in auto)
        qed
      qed
      then show ?thesis unfolding t if_P [OF True] if_P [OF iffD2 [OF tag_byte_casts(2) True]] .
    next
      case False
      show ?thesis
        unfolding t if_not_P [OF False] tag_byte_casts(2) by (rule finish) (rule tag_byte_casts(1))
    qed
  qed
qed

section \<open>Elements\<close>

definition element_rel :: "mem \<Rightarrow> CBS \<Rightarrow> asn1_element \<Rightarrow> u32 \<times> nat \<times> u8 list \<times> bool \<times> bool \<Rightarrow> bool" where
  "element_rel m c el = (\<lambda>(tag, hl, e, b, i).
     el_tag el = tag \<and> unat (el_header_len el) = hl \<and> hl \<le> length e \<and> window m c (el_out el) e \<and>
     el_ber_found el = b \<and> el_indefinite el = i)"

lemma agrees_peek:
  assumes "agrees R d ds r x" "cbs_holds m d ds"
    and "\<And>v w n. R v w \<Longrightarrow> n \<le> length ds \<Longrightarrow> cbs_holds m (cbs_drop n d) (drop n ds) \<Longrightarrow> x = Some (w, drop n ds) \<Longrightarrow>
      agrees R' c bs (k v (cbs_drop n d)) (g w (drop n ds))"
  shows "agrees R' c bs (cbs_peek c r k) (Option.bind x (\<lambda>(w, rest). g w rest))"
proof (cases x)
  case None
  then show ?thesis using assms(1) by (auto simp: agrees_def)
next
  case (Some wr)
  then obtain w rest where x: "x = Some (w, rest)" by (cases wr) auto
  from assms(1) obtain v n where r: "r = Some (Some v, cbs_drop n d)" "R v w" "n \<le> length ds" "rest = drop n ds"
    unfolding agrees_def x by auto
  show ?thesis
    unfolding x r(1) cbs_peek_simps bind.simps prod.case r(4)
    by (rule assms(3) [OF r(2,3) holds_drop [OF assms(2) r(3)]]) (simp only: x r(4))
qed

lemma agrees_take_element:
  assumes "cbs_holds m c bs" "unat len = k" "unat hl = n" "n \<le> k"
  shows "agrees (element_rel m c) c bs (take_element len tag hl b i c)
    (Option.bind (take_n k bs) (\<lambda>(e, rest). Some ((tag, n, e, b, i), rest)))"
  unfolding take_element_def assms(2) [symmetric]
proof (rule agrees_bind [OF byte_reader.reads [OF reads_bytes assms(1)] assms(1)])
  fix v w j
  assume "window m c v w" "take_n (unat len) bs = Some (w, drop j bs)"
  then show "agrees (element_rel m c) (cbs_drop j c) (drop j bs)
      (Some (Some \<lparr>el_out = v, el_tag = tag, el_header_len = hl, el_ber_found = b, el_indefinite = i\<rparr>, cbs_drop j c))
      (Some ((tag, n, w, b, i), drop j bs))"
    using assms(2-4) by (intro agrees_ret) (auto simp: element_rel_def take_n_Some)
qed

text \<open>The parser with its cases in the order of the C code.\<close>

definition finish_element :: "u8 list \<Rightarrow> u32 \<Rightarrow> nat \<Rightarrow> bool \<Rightarrow> bool \<Rightarrow> u8 list \<Rightarrow>
    ((u32 \<times> nat \<times> u8 list \<times> bool \<times> bool) \<times> u8 list) option" where
  "finish_element bs tag n b i rest =
     (let hl = length bs - length rest in
      Option.bind (take_n (hl + n) bs) (\<lambda>(e, rest). Some ((tag, hl, e, b, i), rest)))"

lemma element_parse_cases:
  "element_parse ber bs = Option.bind (tag_parse bs) (\<lambda>(tag, r0). Option.bind (first_byte r0) (\<lambda>(x, r1).
     if unat x < 128 then finish_element bs tag (unat x) False False r1
     else if ber \<and> tag AND CBS_ASN1_CONSTRUCTED \<noteq> 0 \<and> unat x - 128 = 0 then finish_element bs tag 0 True True r1
     else if unat x - 128 = 0 \<or> 4 < unat x - 128 then None
     else Option.bind (take_n (unat x - 128) r1) (\<lambda>(l, r2).
       if (be_nat l < 128 \<or> be_nat l < 256 ^ (unat x - 128 - 1)) \<and> \<not> ber then None
       else finish_element bs tag (be_nat l) (be_nat l < 128 \<or> be_nat l < 256 ^ (unat x - 128 - 1)) False r2)))"
  unfolding element_parse_def header_parse_def finish_element_def Let_def
  by (auto split: bind_splits)

lemma header_len_of_drop:
  assumes "n \<le> unat (cbs_len c)"
  shows "cbs_len c - cbs_len (cbs_drop n c) = of_nat n"
  by (simp add: cbs_drop_def)

lemma agrees_finish:
  assumes h: "cbs_holds m c bs" and r: "rest = drop n bs" "n \<le> length bs" "n \<le> 20" "k < 2 ^ 33"
    and "unat len = k" "unat hl = n"
  shows "agrees (element_rel m c) c bs (take_element (len + hl) tag hl b i c) (finish_element bs tag k b i rest)"
proof -
  have "unat (len + hl) = n + k" using assms(4-7) by (simp add: unat_u64_add)
  moreover have "length bs - length rest = n" using r by simp
  ultimately show ?thesis
    unfolding finish_element_def Let_def using agrees_take_element [OF h, of "len + hl" "n + k" hl n] assms(7) by simp
qed

lemma length_byte_casts:
  "(x AND 0x80 = (0 :: u8)) \<longleftrightarrow> unat x < 128"
  "unat x \<ge> 128 \<Longrightarrow> unat (ucast (x AND 0x7F :: u8) :: u64) = unat x - 128"
proof -
  show "(x AND 0x80 = (0 :: u8)) \<longleftrightarrow> unat x < 128" by (rule all_u8D) code_simp
  have "128 \<le> unat x \<longrightarrow> unat (x AND 0x7F) = unat x - 128" by (rule all_u8D) code_simp
  then show "unat x \<ge> 128 \<Longrightarrow> unat (ucast (x AND 0x7F :: u8) :: u64) = unat x - 128"
    by (simp add: unat_ucast_u8)
qed

lemma length_octets_minimal:
  assumes "unat (nb :: u64) = k" "0 < k" "k \<le> 4"
  shows "drop_bit (unat ((nb - 1) * 8)) (w :: u64) = 0 \<longleftrightarrow> unat w < 256 ^ (k - 1)"
proof -
  have "1 \<le> nb" using assms(1,2) by (simp add: word_le_nat_alt)
  then have "unat (nb - 1) = k - 1" using assms(1) by (simp add: unat_sub)
  then have "unat ((nb - 1) * 8) = (k - 1) * 8"
    unfolding unat_word_ariths(2) using assms(3) by simp
  then show ?thesis
    by (simp add: word_unat_eq_iff unat_drop_bit_eq drop_bit_nat_def div_eq_0_iff power_mult mult.commute [of _ 8])
qed

lemma drop_eq_drop: "drop a xs = drop b xs \<Longrightarrow> a \<le> length xs \<Longrightarrow> b \<le> length xs \<Longrightarrow> a = b"
  by (metis diff_diff_cancel length_drop)

lemma be_nat_small: "k \<le> 4 \<Longrightarrow> unat (of_nat (be_nat (take k bs)) :: u64) = be_nat (take k bs)"
  "k \<le> 4 \<Longrightarrow> be_nat (take k bs) < 2 ^ 32"
proof -
  assume k: "k \<le> 4"
  have "be_nat (take k bs) < 256 ^ length (take k bs)" by (rule be_nat_bound)
  also have "\<dots> \<le> 256 ^ 4" using k by (intro power_increasing) auto
  finally show lt: "be_nat (take k bs) < 2 ^ 32" by simp
  then show "unat (of_nat (be_nat (take k bs)) :: u64) = be_nat (take k bs)"
    by (intro unat_u64_of_nat) simp
qed

lemma get_be_small: "get_be k bs = Some (w, rest) \<Longrightarrow> k \<le> 4 \<Longrightarrow> unat w < 2 ^ 32"
  using be_nat_small [of k bs] by (auto simp: get_be_def take_n_def split: if_splits)

lemma any_element_step:
  assumes h: "cbs_holds m c bs" and n: "n \<le> length bs" "n \<le> 12"
  shows "agrees (element_rel m c) c bs
    (let header_len = cbs_len c - cbs_len (cbs_drop n c) in
       if x AND 0x80 = (0 :: u8) then take_element (ucast x + header_len) tag header_len False False c
       else
         (let num_bytes = ucast (x AND 0x7F) in
          if ber \<and> tag AND CBS_ASN1_CONSTRUCTED \<noteq> 0 \<and> num_bytes = 0
          then take_element header_len tag header_len True True c
          else if num_bytes = 0 \<or> 4 < num_bytes then Some (None, c)
          else cbs_peek c (cbs_get_u m num_bytes (cbs_drop n c)) (\<lambda>len64 header.
            if len64 < 128 \<and> \<not> ber then Some (None, c)
            else if drop_bit (unat ((num_bytes - 1) * 8)) len64 = 0 \<and> \<not> ber then Some (None, c)
            else if len64 + header_len + num_bytes < len64 then Some (None, c)
            else take_element (len64 + (header_len + num_bytes)) tag (header_len + num_bytes)
                   (len64 < 128 \<or> drop_bit (unat ((num_bytes - 1) * 8)) len64 = 0) False c)))
    (if unat x < 128 then finish_element bs tag (unat x) False False (drop n bs)
     else if ber \<and> tag AND CBS_ASN1_CONSTRUCTED \<noteq> 0 \<and> unat x - 128 = 0 then finish_element bs tag 0 True True (drop n bs)
     else if unat x - 128 = 0 \<or> 4 < unat x - 128 then None
     else Option.bind (take_n (unat x - 128) (drop n bs)) (\<lambda>(l, r2).
       if (be_nat l < 128 \<or> be_nat l < 256 ^ (unat x - 128 - 1)) \<and> \<not> ber then None
       else finish_element bs tag (be_nat l) (be_nat l < 128 \<or> be_nat l < 256 ^ (unat x - 128 - 1)) False r2))"
    (is "agrees ?R c bs ?impl ?spec")
proof -
  have len: "cbs_len c - cbs_len (cbs_drop n c) = of_nat n"
    using header_len_of_drop [of n c] cbs_holds_length [OF h] n by simp
  have un: "unat (of_nat n :: u64) = n" using n(2) by (intro unat_u64_of_nat) simp
  have fin: "agrees ?R c bs (take_element (l + of_nat n) tag (of_nat n) b i c) (finish_element bs tag (unat l) b i (drop n bs))"
    if "unat l < 2 ^ 33" for l b i
    using agrees_finish [OF h refl, of n "unat l" l "of_nat n"] n un that by simp
  show ?thesis
  proof (cases "unat x < 128")
    case True
    then show ?thesis
      using fin [of "ucast x" False False] length_byte_casts(1) [of x]
      unfolding Let_def len by (simp add: unat_ucast_u8)
  next
    case False
    define nb where "nb = (ucast (x AND 0x7F) :: u64)"
    define k where "k = unat x - 128"
    have nb: "unat nb = k" using False length_byte_casts(2) [of x] by (simp add: nb_def k_def)
    have k: "nb = 0 \<longleftrightarrow> k = 0" "4 < nb \<longleftrightarrow> 4 < k" using nb by (auto simp: unat_eq_0 word_less_nat_alt)
    consider (indef) "ber \<and> tag AND CBS_ASN1_CONSTRUCTED \<noteq> 0 \<and> k = 0"
      | (bad) "\<not> (ber \<and> tag AND CBS_ASN1_CONSTRUCTED \<noteq> 0 \<and> k = 0)" "k = 0 \<or> 4 < k"
      | (ok) "0 < k" "k \<le> 4" by fastforce
    then show ?thesis
    proof cases
      case indef
      then show ?thesis
        using False fin [of 0 True True] length_byte_casts(1) [of x]
        unfolding Let_def len nb_def [symmetric] k_def [symmetric] k by simp
    next
      case bad
      then show ?thesis
        using False length_byte_casts(1) [of x]
        unfolding Let_def len nb_def [symmetric] k_def [symmetric] k by (auto intro: agrees_fail)
    next
      case ok
      have hd: "cbs_holds m (cbs_drop n c) (drop n bs)" using holds_drop [OF h n(1)] .
      have "agrees ?R c bs (cbs_peek c (cbs_get_u m nb (cbs_drop n c)) (\<lambda>len64 header.
            if len64 < 128 \<and> \<not> ber then Some (None, c)
            else if drop_bit (unat ((nb - 1) * 8)) len64 = 0 \<and> \<not> ber then Some (None, c)
            else if len64 + of_nat n + nb < len64 then Some (None, c)
            else take_element (len64 + (of_nat n + nb)) tag (of_nat n + nb)
                   (len64 < 128 \<or> drop_bit (unat ((nb - 1) * 8)) len64 = 0) False c))
         (Option.bind (get_be k (drop n bs)) (\<lambda>(w, r2).
            if (unat w < 128 \<or> unat w < 256 ^ (k - 1)) \<and> \<not> ber then None
            else finish_element bs tag (unat w) (unat w < 128 \<or> unat w < 256 ^ (k - 1)) False r2))"
        unfolding nb [symmetric]
      proof (rule agrees_peek [OF byte_reader.reads [OF reads_u hd] hd], goal_cases)
        case (1 v w j)
        then have "v = w" "unat w < 2 ^ 32" using get_be_small [of k "drop n bs" w] ok nb by simp_all
        moreover have "j = k"
          using 1(2,4) drop_eq_drop [of k "drop n bs" j] nb by (auto simp: get_be_def take_n_def split: if_splits)
        ultimately have w: "v = w" "unat w < 2 ^ 32" "j = k" by blast+
        have un2: "unat (of_nat n + nb) = n + k" using un nb n ok by (simp add: unat_u64_add)
        have "unat (w + (of_nat n + nb)) = unat w + (n + k)"
          using w(2) n ok un2 by (simp add: unat_u64_add)
        then have "\<not> w + of_nat n + nb < w" by (simp add: word_less_nat_alt add.assoc)
        moreover have "w < 128 \<longleftrightarrow> unat w < 128" by (simp add: word_less_nat_alt)
        moreover have "agrees ?R c bs (take_element (w + (of_nat n + nb)) tag (of_nat n + nb) b False c)
            (finish_element bs tag (unat w) b False (drop j (drop n bs)))" for b
          using agrees_finish [OF h _ _ _ _ refl un2, of "drop j (drop n bs)" w tag b False] 1(2) n ok w
          by (simp add: add.commute)
        ultimately show ?case
          unfolding nb w(1) length_octets_minimal [OF nb ok] by (auto intro: agrees_fail)
      qed
      moreover have "Option.bind (get_be k (drop n bs)) (\<lambda>(w, r2).
            if (unat w < 128 \<or> unat w < 256 ^ (k - 1)) \<and> \<not> ber then None
            else finish_element bs tag (unat w) (unat w < 128 \<or> unat w < 256 ^ (k - 1)) False r2)
          = Option.bind (take_n k (drop n bs)) (\<lambda>(l, r2).
            if (be_nat l < 128 \<or> be_nat l < 256 ^ (k - 1)) \<and> \<not> ber then None
            else finish_element bs tag (be_nat l) (be_nat l < 128 \<or> be_nat l < 256 ^ (k - 1)) False r2)"
        using be_nat_small [of k] ok by (auto simp: get_be_def take_n_def)
      ultimately show ?thesis
        using False ok length_byte_casts(1) [of x] k
        unfolding Let_def len nb_def [symmetric] k_def [symmetric] by simp
    qed
  qed
qed

interpretation any_element: byte_reader "\<lambda>m. cbs_get_any_asn1_element m ber" "element_parse ber" element_rel for ber
proof
  fix m c bs
  assume h: "cbs_holds m c bs"
  show "agrees (element_rel m c) c bs (cbs_get_any_asn1_element m ber c) (element_parse ber bs)"
    unfolding cbs_get_any_asn1_element_def element_parse_cases
  proof (rule agrees_peek [OF asn1_tag.reads [OF h] h], rule agrees_peek [OF u8.reads], assumption, assumption, goal_cases)
    case (1 tag t n0 x y n)
    have "bs = ident t @ drop n0 bs" using 1 by (simp add: tag_parse_iff)
    then have "length bs = length (ident t) + length (drop n0 bs)" by (metis length_append)
    then have n0: "n0 \<le> 11" using 1(2) ident_length [of t] by simp
    have "drop n0 bs = y # drop n (drop n0 bs)" using 1(8) by (simp only: first_byte_Some)
    then have "length (drop n0 bs) = Suc (length (drop n (drop n0 bs)))" by (metis length_Cons)
    then have n: "n = 1" "n0 + n \<le> length bs" using 1(6) by auto
    have e: "cbs_drop n (cbs_drop n0 c) = cbs_drop (n0 + n) c" "drop n (drop n0 bs) = drop (n0 + n) bs"
      by (simp_all add: cbs_drop_drop add.commute)
    show ?case
      unfolding e 1(1,5) by (rule any_element_step [OF h n(2)]) (use n(1) n0 in simp)
  qed
qed

section \<open>Contents\<close>

definition asn1_parse :: "bool \<Rightarrow> u32 \<Rightarrow> u8 list \<Rightarrow> (u8 list \<times> u8 list) option" where
  "asn1_parse skip tag bs = Option.bind (element_parse False bs) (\<lambda>((t, hl, e, _, _), rest).
     if t \<noteq> tag then None else Some (if skip then drop hl e else e, rest))"

lemma window_skip:
  assumes "window m c d ds" "unat n = hl" "hl \<le> length ds"
  shows "CBS_skip n d = Some (Some (), cbs_drop hl d)" "window m c (cbs_drop hl d) (drop hl ds)"
proof -
  have d: "cbs_holds m d ds" "inside d c" using assms(1) by (simp_all add: window_def)
  have ok: "\<not> cbs_len d < n" using assms cbs_holds_length [OF d(1)] by (simp add: word_less_nat_alt)
  have "cbs_drop hl d = \<lparr>cbs_data = cbs_data d + uint n, cbs_len = cbs_len d - n\<rparr>"
    using assms(2) by (auto simp: cbs_drop_def)
  then show "CBS_skip n d = Some (Some (), cbs_drop hl d)" using ok by (simp add: CBS_skip_def cbs_get_def)
  show "window m c (cbs_drop hl d) (drop hl ds)"
    using holds_drop [OF d(1) assms(3)] inside_drop [of hl d] inside_trans [OF d(2)] assms(3) cbs_holds_length [OF d(1)]
    by (simp add: window_def)
qed

lemma element_rel_window:
  "element_rel m c el (t, hl, e, b, i) \<Longrightarrow>
     CBS_skip (el_header_len el) (el_out el) = Some (Some (), cbs_drop hl (el_out el)) \<and>
     window m c (cbs_drop hl (el_out el)) (drop hl e)"
  using window_skip [of m c "el_out el" e "el_header_len el" hl] by (simp add: element_rel_def)

interpretation get_asn1: byte_reader "\<lambda>m. cbs_get_asn1 m tag skip" "asn1_parse skip tag" window for tag skip
  unfolding cbs_get_asn1_def [abs_def] asn1_parse_def [abs_def] CBS_get_any_asn1_element_def
proof (rule reads_bind [OF any_element.byte_reader_axioms], goal_cases)
  case (1 m c bs el w n)
  obtain t hl e b i where w: "w = (t, hl, e, b, i)" by (cases w)
  have "window m c (el_out el) e" "el_tag el = t" using 1(2) by (simp_all add: w element_rel_def)
  then show ?case
    using element_rel_window [of m c el t hl e b i] 1(2) by (simp add: w agrees_fail agrees_ret)
qed

interpretation CBS_get_asn1: byte_reader "\<lambda>m. CBS_get_asn1 m tag" "asn1_parse True tag" window for tag
  unfolding CBS_get_asn1_def [abs_def] by (rule get_asn1.byte_reader_axioms)

interpretation CBS_get_asn1_element: byte_reader "\<lambda>m. CBS_get_asn1_element m tag" "asn1_parse False tag" window for tag
  unfolding CBS_get_asn1_element_def [abs_def] by (rule get_asn1.byte_reader_axioms)

definition any_parse :: "u8 list \<Rightarrow> ((u8 list \<times> u32) \<times> u8 list) option" where
  "any_parse bs = Option.bind (element_parse False bs) (\<lambda>((t, hl, e, _, _), rest). Some ((drop hl e, t), rest))"

interpretation CBS_get_any_asn1: byte_reader CBS_get_any_asn1 any_parse
    "\<lambda>m c (out, tag) (content, t). window m c out content \<and> tag = t"
  unfolding CBS_get_any_asn1_def [abs_def] any_parse_def [abs_def] CBS_get_any_asn1_element_def
proof (rule reads_bind [OF any_element.byte_reader_axioms], goal_cases)
  case (1 m c bs el w n)
  obtain t hl e b i where w: "w = (t, hl, e, b, i)" by (cases w)
  then show ?case
    using element_rel_window [of m c el t hl e b i] 1(2) by (simp add: w element_rel_def agrees_ret)
qed

text \<open>The content of an element in terms of the encoding.\<close>

lemma asn1_parse_iff:
  "asn1_parse True tag bs = Some (content, rest) \<longleftrightarrow>
     valid_tag tag \<and> length content < 2 ^ 32 \<and> bs = der tag content @ rest"
proof
  assume "asn1_parse True tag bs = Some (content, rest)"
  then obtain hl e b i where "element_parse False bs = Some ((tag, hl, e, b, i), rest)" "content = drop hl e"
    by (auto simp: asn1_parse_def split: bind_splits if_splits)
  then show "valid_tag tag \<and> length content < 2 ^ 32 \<and> bs = der tag content @ rest"
    unfolding element_parse_iff by auto
next
  assume a: "valid_tag tag \<and> length content < 2 ^ 32 \<and> bs = der tag content @ rest"
  have "drop (length (ident tag @ der_len (length content))) (der tag content) = content" by (simp add: der_def)
  then have "element_parse False bs =
      Some ((tag, length (ident tag @ der_len (length content)), der tag content, False, False), rest)"
    using a unfolding element_parse_iff by (auto simp: der_def)
  then show "asn1_parse True tag bs = Some (content, rest)"
    by (simp add: asn1_parse_def der_def)
qed

lemma any_parse_iff:
  "any_parse bs = Some ((content, tag), rest) \<longleftrightarrow>
     valid_tag tag \<and> length content < 2 ^ 32 \<and> bs = der tag content @ rest"
proof -
  have "any_parse bs = Some ((content, tag), rest) \<longleftrightarrow> asn1_parse True tag bs = Some (content, rest)"
    by (auto simp: any_parse_def asn1_parse_def split: bind_splits if_splits)
  then show ?thesis by (simp add: asn1_parse_iff)
qed

section \<open>Integers and booleans\<close>

text \<open>Non-negative \<open>INTEGER\<close> contents: the minimal octets, with a zero octet when the top bit is set.\<close>

definition uint_content :: "nat \<Rightarrow> u8 list" where
  "uint_content n =
     (if n = 0 then [0]
      else if 128 \<le> unat (hd (be_bytes n)) then 0 # be_bytes n else be_bytes n)"

definition unsigned_int :: "u8 list \<Rightarrow> bool" where
  "unsigned_int bs \<longleftrightarrow> bs \<noteq> [] \<and> unat (hd bs) < 128 \<and> (2 \<le> length bs \<and> hd bs = 0 \<longrightarrow> 128 \<le> unat (bs ! 1))"

lemma be_bytes_0 [simp]: "be_bytes 0 = []"
  by (simp add: be_bytes.simps)

lemma be_nat_zero_Cons [simp]: "be_nat (0 # bs) = be_nat bs"
  by (simp add: be_nat_Cons)

lemma be_bytes_hd: "bs \<noteq> [] \<Longrightarrow> hd bs \<noteq> 0 \<Longrightarrow> be_bytes (be_nat bs) = bs"
proof -
  assume a: "bs \<noteq> []" "hd bs \<noteq> 0"
  then obtain b cs where bs: "bs = b # cs" by (cases bs) auto
  have "unat b \<noteq> 0" using a bs by (simp add: unat_eq_0)
  then have "256 ^ length cs \<le> unat b * 256 ^ length cs" by (cases "unat b") auto
  then have "256 ^ (length bs - 1) \<le> be_nat bs" unfolding bs be_nat_Cons by (simp add: trans_le_add1)
  then show ?thesis using be_bytes_be_nat a(1) by blast
qed

lemma be_bytes_nonzero: "n \<noteq> 0 \<Longrightarrow> be_bytes n \<noteq> [] \<and> hd (be_bytes n) \<noteq> 0"
proof (induction n rule: be_bytes.induct)
  case (1 n)
  show ?case
  proof (cases "n div 256 = 0")
    case True
    then have "n < 256" by simp
    then have "(of_nat n :: u8) \<noteq> 0" using 1(2) unat_byte [of n] by (metis unat_0)
    then show ?thesis using 1(2) True \<open>n < 256\<close> by (subst (1 2) be_bytes.simps) (simp add: be_bytes.simps)
  next
    case False
    then show ?thesis using 1 by (subst (1 2) be_bytes.simps) auto
  qed
qed

lemma unsigned_int_iff: "unsigned_int ct \<and> be_nat ct = n \<longleftrightarrow> ct = uint_content n"
proof
  assume a: "unsigned_int ct \<and> be_nat ct = n"
  then obtain b cs where ct: "ct = b # cs" by (cases ct) (auto simp: unsigned_int_def)
  show "ct = uint_content n"
  proof (cases "b = 0")
    case True
    show ?thesis
    proof (cases cs)
      case Nil
      then show ?thesis using a True ct by (auto simp: uint_content_def)
    next
      case (Cons d ds)
      then have d: "128 \<le> unat d" using a True ct by (auto simp: unsigned_int_def)
      then have "d \<noteq> 0" by auto
      then have be: "be_bytes n = cs" using be_bytes_hd [of cs] a True ct Cons by auto
      moreover have "n \<noteq> 0" using be Cons by (intro notI) simp
      ultimately show ?thesis using d True ct Cons by (simp add: uint_content_def)
    qed
  next
    case False
    then have be: "be_bytes n = ct" using be_bytes_hd [of ct] a ct by auto
    moreover have "n \<noteq> 0" using be ct by (intro notI) simp
    ultimately show ?thesis using a ct by (auto simp: uint_content_def unsigned_int_def)
  qed
next
  assume ct: "ct = uint_content n"
  then have "be_nat ct = n" by (simp add: uint_content_def)
  moreover have "unsigned_int ct"
    using be_bytes_nonzero [of n] ct
    by (cases "be_bytes n") (auto simp: uint_content_def unsigned_int_def)
  ultimately show "unsigned_int ct \<and> be_nat ct = n" by blast
qed

lemma uint64_loop_bytes:
  "load_bytes m p n = Some bs \<Longrightarrow>
     uint64_loop m p n v =
       Some (if unat v * 256 ^ n + be_nat bs < 2 ^ 64 then Some (of_nat (unat v * 256 ^ n + be_nat bs)) else None)"
proof (induction n arbitrary: p v bs)
  case 0
  then show ?case using unat_u64_lt [of v] by simp
next
  case (Suc n)
  then obtain b cs where bs: "bs = b # cs" "m p = Some b" "load_bytes m (p + 1) n = Some cs"
    by (auto simp: load_bytes_Suc simp del: load_bytes.simps)
  have len: "length cs = n" using bs(3) by blast
  show ?case
  proof (cases "unat v < 2 ^ 56")
    case True
    have v: "unat (push_bit 8 v OR ucast b) = unat v * 256 + unat b"
      using True unat_u8_lt [of b] by (simp add: shift_in_byte unat_word_ariths unat_ucast_u8)
    have "drop_bit 56 v = 0" using True by (simp add: word_unat_eq_iff unat_drop_bit_eq drop_bit_nat_def)
    then have "uint64_loop m p (Suc n) v = uint64_loop m (p + 1) n (push_bit 8 v OR ucast b)" using bs(2) by simp
    also have "\<dots> = Some (if (unat v * 256 + unat b) * 256 ^ n + be_nat cs < 2 ^ 64
        then Some (of_nat ((unat v * 256 + unat b) * 256 ^ n + be_nat cs)) else None)"
      unfolding Suc.IH [OF bs(3)] v ..
    finally show ?thesis unfolding bs(1) be_nat_Cons len by (simp add: algebra_simps)
  next
    case False
    have "drop_bit 56 v \<noteq> 0"
      using False by (simp add: word_unat_eq_iff unat_drop_bit_eq drop_bit_nat_def div_eq_0_iff)
    moreover have "\<not> unat v * 256 ^ Suc n + be_nat bs < 2 ^ 64"
    proof -
      have "2 ^ 56 * 256 \<le> unat v * 256" using False by simp
      also have "\<dots> \<le> unat v * 256 ^ Suc n" by simp
      finally show ?thesis by simp
    qed
    ultimately show ?thesis by simp
  qed
qed

definition uint64_parse :: "u8 list \<Rightarrow> (u64 \<times> u8 list) option" where
  "uint64_parse bs = Option.bind (asn1_parse True CBS_ASN1_INTEGER bs) (\<lambda>(ct, rest).
     if unsigned_int ct \<and> be_nat ct < 2 ^ 64 then Some (of_nat (be_nat ct), rest) else None)"

text \<open>The integer checks, on the bytes of the content.\<close>

definition integer_sign :: "u8 list \<Rightarrow> bool option" where
  "integer_sign ct =
     (case ct of [] \<Rightarrow> None
      | [b] \<Rightarrow> Some (128 \<le> unat b)
      | b # d # _ \<Rightarrow> if (b = 0 \<and> unat d < 128) \<or> (b = 0xFF \<and> 128 \<le> unat d) then None else Some (128 \<le> unat b))"

lemma u8_Nil: "cbs_holds m c [] \<Longrightarrow> CBS_get_u8 m c = Some (None, c)"
  using cbs_holds_length [of m c "[]"] by (simp add: CBS_get_u8_def cbs_get_def unat_eq_0)

lemma u8_Cons:
  assumes "cbs_holds m c (b # bs)"
  shows "CBS_get_u8 m c = Some (Some b, cbs_drop 1 c)" "cbs_holds m (cbs_drop 1 c) bs"
proof -
  have "first_byte (b # bs) = Some (b, bs)" by simp
  from u8.success [OF assms this] show "CBS_get_u8 m c = Some (Some b, cbs_drop 1 c)" "cbs_holds m (cbs_drop 1 c) bs"
    by auto
qed

lemma valid_integer_bytes:
  assumes "cbs_holds m c ct"
  shows "CBS_is_valid_asn1_integer m c = Some (integer_sign ct)"
proof (cases ct)
  case Nil
  then show ?thesis using u8_Nil assms by (auto simp: CBS_is_valid_asn1_integer_def integer_sign_def)
next
  case (Cons b cs)
  then have first: "CBS_get_u8 m c = Some (Some b, cbs_drop 1 c)" and h: "cbs_holds m (cbs_drop 1 c) cs"
    using u8_Cons assms by blast+
  show ?thesis
  proof (cases cs)
    case Nil
    then have "CBS_get_u8 m (cbs_drop 1 c) = Some (None, cbs_drop 1 c)" using u8_Nil h by blast
    then show ?thesis using first Cons Nil
      by (simp add: CBS_is_valid_asn1_integer_def integer_sign_def length_byte_casts(1) not_less)
  next
    case c2: (Cons d ds)
    then have "CBS_get_u8 m (cbs_drop 1 c) = Some (Some d, cbs_drop 1 (cbs_drop 1 c))" using u8_Cons h by blast
    then show ?thesis using first Cons c2
      by (simp add: CBS_is_valid_asn1_integer_def integer_sign_def length_byte_casts(1) not_less)
  qed
qed

lemma integer_sign_unsigned: "integer_sign ct = Some False \<longleftrightarrow> unsigned_int ct"
  by (auto simp: integer_sign_def unsigned_int_def not_le split: list.splits if_splits)

interpretation CBS_get_asn1_uint64: byte_reader CBS_get_asn1_uint64 uint64_parse same
  unfolding CBS_get_asn1_uint64_def [abs_def] uint64_parse_def [abs_def]
proof (rule reads_bind [OF CBS_get_asn1.byte_reader_axioms], goal_cases)
  case (1 m c bs d ct n)
  then have d: "cbs_holds m d ct" by (simp add: window_def)
  have "uint64_loop m (cbs_data d) (unat (cbs_len d)) 0 =
      Some (if be_nat ct < 2 ^ 64 then Some (of_nat (be_nat ct)) else None)"
    using uint64_loop_bytes [of m "cbs_data d" "unat (cbs_len d)" ct 0] d by (simp add: cbs_holds_def)
  then show ?case
    using valid_integer_bytes [OF d] integer_sign_unsigned [of ct]
    by (auto simp: CBS_is_unsigned_asn1_integer_def agrees_fail intro: agrees_ret)
qed

text \<open>\<open>CBS_get_asn1_uint64\<close> accepts exactly the DER encodings of 64 bit numbers.\<close>

lemma asn1_tags_valid [simp]:
  "valid_tag CBS_ASN1_INTEGER" "valid_tag CBS_ASN1_BOOLEAN" "valid_tag CBS_ASN1_OCTETSTRING"
  by (simp_all add: valid_tag_def CBS_ASN1_INTEGER_def CBS_ASN1_BOOLEAN_def CBS_ASN1_OCTETSTRING_def CBS_ASN1_CONSTRUCTED_def)

lemma uint_content_length: "n < 2 ^ 64 \<Longrightarrow> length (uint_content n) \<le> 9"
  using be_bytes_length [of n 8] by (simp add: uint_content_def)

lemma uint64_parse_iff:
  "uint64_parse bs = Some (v, rest) \<longleftrightarrow> bs = der CBS_ASN1_INTEGER (uint_content (unat v)) @ rest"
proof
  assume "uint64_parse bs = Some (v, rest)"
  then obtain ct where ct: "asn1_parse True CBS_ASN1_INTEGER bs = Some (ct, rest)" "unsigned_int ct"
    "be_nat ct < 2 ^ 64" "v = of_nat (be_nat ct)"
    by (auto simp: uint64_parse_def split: bind_splits if_splits)
  moreover from this have "unat v = be_nat ct" by (simp add: unat_u64_of_nat)
  ultimately have "ct = uint_content (unat v)" using unsigned_int_iff [of ct "unat v"] by simp
  then show "bs = der CBS_ASN1_INTEGER (uint_content (unat v)) @ rest" using ct(1) by (simp add: asn1_parse_iff)
next
  assume a: "bs = der CBS_ASN1_INTEGER (uint_content (unat v)) @ rest"
  have "length (uint_content (unat v)) < 2 ^ 32" using uint_content_length [of "unat v"] unat_u64_lt [of v] by simp
  then have "asn1_parse True CBS_ASN1_INTEGER bs = Some (uint_content (unat v), rest)" using a by (simp add: asn1_parse_iff)
  then show "uint64_parse bs = Some (v, rest)"
    using unsigned_int_iff [of "uint_content (unat v)" "unat v"] unat_u64_lt [of v] by (simp add: uint64_parse_def)
qed

definition bool_parse :: "u8 list \<Rightarrow> (bool \<times> u8 list) option" where
  "bool_parse bs = Option.bind (asn1_parse True CBS_ASN1_BOOLEAN bs) (\<lambda>(ct, rest).
     if ct = [0] then Some (False, rest) else if ct = [0xFF] then Some (True, rest) else None)"

lemma holds_single: "cbs_holds m d ct \<Longrightarrow> cbs_len d = 1 \<Longrightarrow> \<exists>b. ct = [b] \<and> m (cbs_data d) = Some b"
  by (auto simp: cbs_holds_def split: option.splits)

lemma holds_len_1: "cbs_holds m d ct \<Longrightarrow> cbs_len d = 1 \<longleftrightarrow> length ct = 1"
  using cbs_holds_length [of m d ct] by (simp add: word_unat_eq_iff)

lemma holds_len_0: "cbs_holds m d ct \<Longrightarrow> cbs_len d = 0 \<longleftrightarrow> ct = []"
  using cbs_holds_length [of m d ct] by (simp add: word_unat_eq_iff)

interpretation CBS_get_asn1_bool: byte_reader CBS_get_asn1_bool bool_parse same
  unfolding CBS_get_asn1_bool_def [abs_def] bool_parse_def [abs_def]
proof (rule reads_bind [OF CBS_get_asn1.byte_reader_axioms], goal_cases)
  case (1 m c bs d ct n)
  then have d: "cbs_holds m d ct" by (simp add: window_def)
  show ?case
  proof (cases "cbs_len d = 1")
    case True
    then obtain b where "ct = [b]" "m (cbs_data d) = Some b" using holds_single [OF d] by blast
    then show ?thesis
      using True by (cases "b = 0"; cases "b = 0xFF") (simp_all add: agrees_fail agrees_ret)
  next
    case False
    then show ?thesis using holds_len_1 [OF d] by (auto simp: agrees_fail)
  qed
qed

section \<open>Optional elements\<close>

definition has_tag :: "u32 \<Rightarrow> u8 list \<Rightarrow> bool" where
  "has_tag tag bs \<longleftrightarrow> (case tag_parse bs of None \<Rightarrow> False | Some (t, _) \<Rightarrow> t = tag)"

lemma peek_tag_bytes: "cbs_holds m c bs \<Longrightarrow> CBS_peek_asn1_tag m tag c = Some (has_tag tag bs)"
  using asn1_tag.reads [of m c bs] by (auto simp: agrees_def CBS_peek_asn1_tag_def has_tag_def split: option.splits)

definition optional_parse :: "u32 \<Rightarrow> u8 list \<Rightarrow> (u8 list option \<times> u8 list) option" where
  "optional_parse tag bs =
     (if has_tag tag bs then Option.bind (asn1_parse True tag bs) (\<lambda>(ct, rest). Some (Some ct, rest))
      else Some (None, bs))"

interpretation CBS_get_optional_asn1: byte_reader "\<lambda>m. CBS_get_optional_asn1 m tag" "optional_parse tag"
    "\<lambda>m c. rel_option (window m c)" for tag
proof
  fix m c bs
  assume h: "cbs_holds m c bs"
  have "agrees (rel_option (window m c)) c bs (cbs_bind (CBS_get_asn1 m tag c) (\<lambda>out c. Some (Some (Some out), c)))
      (Option.bind (asn1_parse True tag bs) (\<lambda>(ct, rest). Some (Some ct, rest)))"
    by (rule agrees_bind [OF CBS_get_asn1.reads [OF h] h]) (simp add: agrees_ret)
  then show "agrees (rel_option (window m c)) c bs (CBS_get_optional_asn1 m tag c) (optional_parse tag bs)"
    by (simp add: CBS_get_optional_asn1_def optional_parse_def peek_tag_bytes [OF h] agrees_ret)
qed

text \<open>The content of an optional element read to its end by another reader.\<close>

definition whole_parse :: "(u8 list \<Rightarrow> ('v \<times> u8 list) option) \<Rightarrow> 'v \<Rightarrow> u32 \<Rightarrow> u8 list \<Rightarrow> ('v \<times> u8 list) option" where
  "whole_parse f dflt tag bs = Option.bind (optional_parse tag bs) (\<lambda>(ct, rest).
     case ct of None \<Rightarrow> Some (dflt, rest)
     | Some ct \<Rightarrow> Option.bind (f ct) (\<lambda>(v, r). if r = [] then Some (v, rest) else None))"

lemma reads_whole:
  assumes "byte_reader op f R" "\<And>m c. R' m c d0 dflt"
    and "\<And>m c d ds v w. window m c d ds \<Longrightarrow> R m d v w \<Longrightarrow> R' m c (g v) w"
  shows "byte_reader (\<lambda>m c. cbs_bind (CBS_get_optional_asn1 m tag c) (\<lambda>child c.
       case child of None \<Rightarrow> Some (Some d0, c)
       | Some child \<Rightarrow> cbs_peek c (op m child) (\<lambda>v child.
           if cbs_len child \<noteq> 0 then Some (None, c) else Some (Some (g v), c)))) (whole_parse f dflt tag) R'"
  unfolding whole_parse_def [abs_def]
proof (rule reads_bind [OF CBS_get_optional_asn1.byte_reader_axioms], goal_cases)
  case (1 m c bs child ct n)
  show ?case
  proof (cases ct)
    case None
    then show ?thesis using 1(2) assms(2) by (simp add: agrees_ret)
  next
    case (Some cs)
    then obtain d where d: "child = Some d" "window m c d cs" using 1(2) by (auto simp: option_rel_Some2)
    then have h: "cbs_holds m d cs" by (simp add: window_def)
    have "agrees (R' m c) (cbs_drop n c) (drop n bs)
        (cbs_peek (cbs_drop n c) (op m d) (\<lambda>v child.
           if cbs_len child \<noteq> 0 then Some (None, cbs_drop n c) else Some (Some (g v), cbs_drop n c)))
        (Option.bind (f cs) (\<lambda>(v, r). if r = [] then Some (v, drop n bs) else None))"
    proof (rule agrees_peek [OF byte_reader.reads [OF assms(1) h] h], goal_cases)
      case (1 v w k)
      then show ?case
        using holds_len_0 [OF 1(3)] assms(3) [OF d(2) 1(1)] by (auto simp: agrees_fail intro: agrees_ret)
    qed
    then show ?thesis using d(1) Some by simp
  qed
qed

interpretation CBS_get_optional_asn1_uint64: byte_reader "\<lambda>m. CBS_get_optional_asn1_uint64 m tag dflt"
    "whole_parse uint64_parse dflt tag" same for tag dflt
  unfolding CBS_get_optional_asn1_uint64_def [abs_def]
  by (rule reads_whole [OF CBS_get_asn1_uint64.byte_reader_axioms]) simp_all

interpretation CBS_get_optional_asn1_octet_string: byte_reader "\<lambda>m. CBS_get_optional_asn1_octet_string m tag"
    "whole_parse (\<lambda>bs. Option.bind (asn1_parse True CBS_ASN1_OCTETSTRING bs) (\<lambda>(ct, rest). Some ((ct, True), rest))) ([], False) tag"
    "\<lambda>m c (out, p) (content, q). cbs_holds m out content \<and> p = q" for tag
proof -
  have inner: "byte_reader (\<lambda>m. CBS_get_asn1 m CBS_ASN1_OCTETSTRING)
      (\<lambda>bs. Option.bind (asn1_parse True CBS_ASN1_OCTETSTRING bs) (\<lambda>(ct, rest). Some ((ct, True), rest)))
      (\<lambda>m c out (ct, b). window m c out ct \<and> b)"
  proof
    fix m c bs assume h: "cbs_holds m c bs"
    show "agrees (\<lambda>out (ct, b). window m c out ct \<and> b) c bs (CBS_get_asn1 m CBS_ASN1_OCTETSTRING c)
      (Option.bind (asn1_parse True CBS_ASN1_OCTETSTRING bs) (\<lambda>(ct, rest). Some ((ct, True), rest)))"
      using CBS_get_asn1.reads [OF h, of CBS_ASN1_OCTETSTRING]
      by (cases "asn1_parse True CBS_ASN1_OCTETSTRING bs") (auto simp: agrees_def)
  qed
  show "byte_reader (\<lambda>m. CBS_get_optional_asn1_octet_string m tag)
    (whole_parse (\<lambda>bs. Option.bind (asn1_parse True CBS_ASN1_OCTETSTRING bs) (\<lambda>(ct, rest). Some ((ct, True), rest))) ([], False) tag)
    (\<lambda>m c (out, p) (content, q). cbs_holds m out content \<and> p = q)"
    unfolding CBS_get_optional_asn1_octet_string_def [abs_def]
    by (rule reads_whole [OF inner, where g = "\<lambda>out. (out, True)"])
      (auto simp: cbs_holds_def CBS_init_def window_def)
qed

section \<open>Decimal numbers\<close>

fun dec :: "nat \<Rightarrow> u8 list" where
  "dec n = (if n < 10 then [of_nat (48 + n)] else dec (n div 10) @ [of_nat (48 + n mod 10)])"

declare dec.simps [simp del]

definition is_digit :: "u8 \<Rightarrow> bool" where
  "is_digit b \<longleftrightarrow> 48 \<le> unat b \<and> unat b \<le> 57"

fun dec_parse :: "nat \<Rightarrow> bool \<Rightarrow> u8 list \<Rightarrow> (nat \<times> u8 list) option" where
  "dec_parse v seen [] = (if seen then Some (v, []) else None)"
| "dec_parse v seen (b # bs) =
     (if \<not> is_digit b then if seen then Some (v, b # bs) else None
      else if (v = 0 \<and> seen) \<or> 2 ^ 64 \<le> v * 10 + (unat b - 48) then None
      else dec_parse (v * 10 + (unat b - 48)) True bs)"

definition ends_number :: "u8 list \<Rightarrow> bool" where
  "ends_number bs \<longleftrightarrow> (bs \<noteq> [] \<longrightarrow> \<not> is_digit (hd bs))"

lemma dec_step:
  assumes "v \<noteq> 0" "is_digit b"
  shows "dec (v * 10 + (unat b - 48)) = dec v @ [b]"
proof -
  have d: "unat b - 48 < 10" "48 + (unat b - 48) = unat b" using assms(2) by (auto simp: is_digit_def)
  have "\<not> v * 10 + (unat b - 48) < 10" using assms(1) by simp
  then have "dec (v * 10 + (unat b - 48)) = dec v @ [of_nat (48 + (unat b - 48))]"
    using d(1) by (subst dec.simps) (simp del: of_nat_add)
  then show ?thesis by (simp only: d(2) of_unat_u8)
qed

lemma dec_first: "is_digit b \<Longrightarrow> dec (unat b - 48) = [b]"
proof -
  assume "is_digit b"
  then have d: "unat b - 48 < 10" "48 + (unat b - 48) = unat b" by (auto simp: is_digit_def)
  then have "dec (unat b - 48) = [of_nat (48 + (unat b - 48))]" by (subst dec.simps) (simp del: of_nat_add)
  then show ?thesis by (simp only: d(2) of_unat_u8)
qed

lemma dec_parse_sound:
  "dec_parse v True bs = Some (w, rest) \<Longrightarrow> v < 2 ^ 64 \<Longrightarrow> dec v @ bs = dec w @ rest \<and> w < 2 ^ 64 \<and> ends_number rest"
proof (induction bs arbitrary: v)
  case (Cons b bs)
  show ?case
  proof (cases "is_digit b")
    case True
    then have "v \<noteq> 0" "v * 10 + (unat b - 48) < 2 ^ 64" "dec_parse (v * 10 + (unat b - 48)) True bs = Some (w, rest)"
      using Cons.prems(1) by (auto split: if_splits)
    then show ?thesis using Cons.IH dec_step [of v b] True by fastforce
  next
    case False
    then show ?thesis using Cons.prems by (auto simp: ends_number_def)
  qed
qed (auto simp: ends_number_def)

lemma dec_parse_dec: "v < 2 ^ 64 \<Longrightarrow> dec_parse 0 False (dec v @ rest) = dec_parse v True rest"
proof (induction v arbitrary: rest rule: dec.induct)
  case (1 v)
  let ?b = "of_nat (48 + v mod 10) :: u8"
  have b: "unat ?b = 48 + v mod 10" by (rule unat_byte) simp
  have dg: "is_digit ?b" unfolding is_digit_def b by simp
  show ?case
  proof (cases "v < 10")
    case True
    then have "dec v = [?b]" by (subst dec.simps) (simp del: of_nat_add)
    then show ?thesis using dg b True by (simp del: of_nat_add)
  next
    case False
    then have "dec v = dec (v div 10) @ [?b]" by (subst dec.simps) (simp del: of_nat_add)
    then have "dec_parse 0 False (dec v @ rest) = dec_parse (v div 10) True (?b # rest)"
      using 1 False by (simp del: of_nat_add dec_parse.simps)
    also have "\<dots> = dec_parse v True rest"
    proof -
      have "v div 10 * 10 + (unat ?b - 48) = v" unfolding b by simp
      moreover have "v div 10 \<noteq> 0" using False by (simp add: div_eq_0_iff)
      ultimately show ?thesis using dg 1(2) by (simp del: of_nat_add)
    qed
    finally show ?thesis .
  qed
qed

text \<open>The parser accepts exactly decimal numerals without leading zeros that fit 64 bits.\<close>

lemma dec_parse_iff:
  "dec_parse 0 False bs = Some (v, rest) \<longleftrightarrow> v < 2 ^ 64 \<and> bs = dec v @ rest \<and> ends_number rest"
proof
  assume a: "dec_parse 0 False bs = Some (v, rest)"
  then obtain b cs where bs: "bs = b # cs" "is_digit b" by (cases bs) (auto split: if_splits)
  have "dec_parse (unat b - 48) True cs = Some (v, rest)" "unat b - 48 < 2 ^ 64"
    using a bs by (auto simp: is_digit_def split: if_splits)
  from dec_parse_sound [OF this] show "v < 2 ^ 64 \<and> bs = dec v @ rest \<and> ends_number rest"
    using bs dec_first [of b] by simp
next
  assume a: "v < 2 ^ 64 \<and> bs = dec v @ rest \<and> ends_number rest"
  then have "dec_parse 0 False bs = dec_parse v True rest" using dec_parse_dec by blast
  also have "\<dots> = Some (v, rest)" using a by (cases rest) (auto simp: ends_number_def)
  finally show "dec_parse 0 False bs = Some (v, rest)" .
qed

lemma agrees_after:
  assumes "cbs_holds m c bs" "n \<le> length bs" "agrees R (cbs_drop n c) (drop n bs) r x"
  shows "agrees R c bs r x"
proof -
  have "agrees (\<lambda>_ _. True) c bs (Some (Some (), cbs_drop n c)) (Some ((), drop n bs))"
    unfolding agrees_def using assms(2) inside_drop [of n c] cbs_holds_length [OF assms(1)] by auto
  from agrees_bind [OF this assms(1), of R "\<lambda>_ _. r" "\<lambda>_ _. x"] show ?thesis
    using assms drop_eq_drop by fastforce
qed

lemma digit_overflow:
  assumes "is_digit b"
  shows "- 1 div 10 < (v :: u64) \<or> - 1 - (ucast b - 48) < v * 10 \<longleftrightarrow> 2 ^ 64 \<le> unat v * 10 + (unat b - 48)"
    and "\<not> 2 ^ 64 \<le> unat v * 10 + (unat b - 48) \<Longrightarrow> unat (v * 10 + (ucast b - 48)) = unat v * 10 + (unat b - 48)"
proof -
  have "(48 :: u64) \<le> ucast b" using assms by (simp add: word_le_nat_alt unat_ucast_u8 is_digit_def)
  then have d: "unat (ucast b - 48 :: u64) = unat b - 48" by (simp add: unat_sub unat_ucast_u8)
  have d9: "unat b - 48 \<le> 9" using assms by (auto simp: is_digit_def)
  have q: "- 1 div 10 = (1844674407370955161 :: u64)" by code_simp
  have m1: "unat (- 1 - (ucast b - 48) :: u64) = 2 ^ 64 - 1 - (unat b - 48)"
  proof -
    have "unat (- 1 :: u64) = 2 ^ 64 - 1" by (simp add: unsigned_minus_1_eq_mask mask_eq_exp_minus_1)
    then show ?thesis using unat_sub [of "ucast b - 48 :: u64" "- 1"] d by simp
  qed
  show "- 1 div 10 < v \<or> - 1 - (ucast b - 48) < v * 10 \<longleftrightarrow> 2 ^ 64 \<le> unat v * 10 + (unat b - 48)"
  proof (cases "unat v \<le> 1844674407370955161")
    case True
    then have "unat (v * 10) = unat v * 10" by (simp add: unat_word_ariths)
    then show ?thesis using True d9 unfolding q word_less_nat_alt m1 by (auto simp: not_le)
  next
    case False
    then show ?thesis unfolding q word_less_nat_alt by auto
  qed
  show "unat (v * 10 + (ucast b - 48)) = unat v * 10 + (unat b - 48)" if "\<not> 2 ^ 64 \<le> unat v * 10 + (unat b - 48)"
  proof -
    have m: "unat (v * 10) = unat v * 10" using that by (simp add: unat_word_ariths)
    have "unat (v * 10) + unat (ucast b - 48 :: u64) < 2 ^ 64" unfolding m d using that by simp
    from unat_u64_add [OF this] show ?thesis unfolding m d .
  qed
qed

lemma is_digit_C: "OPENSSL_isdigit (uint b) \<longleftrightarrow> is_digit b"
  by (rule all_u8D) code_simp

lemma agrees_decimal:
  "cbs_holds m c bs \<Longrightarrow> agrees (\<lambda>v w. unat v = w) c bs (decimal_loop m v seen c) (dec_parse (unat v) seen bs)"
proof (induction bs arbitrary: c v seen)
  case Nil
  then show ?case
    using holds_len_0 [OF Nil] by (subst decimal_loop.simps) (simp add: agrees_ret agrees_fail)
next
  case (Cons b bs)
  have ne: "cbs_len c \<noteq> 0" using holds_len_0 [OF Cons.prems] by simp
  have mb: "m (cbs_data c) = Some b" using holds_byte [OF Cons.prems, of 0] by simp
  have h: "cbs_holds m (cbs_drop 1 c) bs" using holds_drop [OF Cons.prems, of 1] by simp
  have "window m c c (b # bs)" using Cons.prems by (simp add: window_def)
  then have sk: "CBS_skip 1 c = Some (Some (), cbs_drop 1 c)"
    by (rule window_skip) simp_all
  have ins: "inside (cbs_drop 1 c) c" using inside_drop [of 1 c] cbs_holds_length [OF Cons.prems] by simp
  show ?case
  proof (cases "is_digit b")
    case True
    show ?thesis
    proof (cases "(v = 0 \<and> seen) \<or> 2 ^ 64 \<le> unat v * 10 + (unat b - 48)")
      case bad: True
      then have "decimal_loop m v seen c = Some (None, cbs_drop 1 c)"
        using True digit_overflow(1) [OF True, of v]
        by (subst decimal_loop.simps) (simp only: ne mb sk is_digit_C simp_thms if_False if_True option.case prod.case)
      moreover have "dec_parse (unat v) seen (b # bs) = None" using True bad by (auto simp: unat_eq_0)
      ultimately show ?thesis using ins by (simp add: agrees_fail)
    next
      case ok: False
      then have no: "\<not> ((v = 0 \<and> seen) \<or> - 1 div 10 < v \<or> - 1 - (ucast b - 48) < v * 10)"
        using digit_overflow(1) [OF True, of v] by simp
      have "decimal_loop m v seen c = decimal_loop m (v * 10 + (ucast b - 48)) True (cbs_drop 1 c)"
        by (subst decimal_loop.simps)
          (simp only: ne mb sk is_digit_C True no simp_thms if_False if_True option.case prod.case)
      moreover have "dec_parse (unat v) seen (b # bs) = dec_parse (unat (v * 10 + (ucast b - 48))) True bs"
        using True ok digit_overflow(2) [OF True, of v] by (auto simp: unat_eq_0)
      moreover have "agrees (\<lambda>v w. unat v = w) c (b # bs) (decimal_loop m (v * 10 + (ucast b - 48)) True (cbs_drop 1 c))
          (dec_parse (unat (v * 10 + (ucast b - 48))) True bs)"
        by (rule agrees_after [OF Cons.prems, of 1]) (use Cons.IH [OF h] in simp_all)
      ultimately show ?thesis by simp
    qed
  next
    case False
    then have "decimal_loop m v seen c = Some (if seen then Some v else None, c)"
      by (subst decimal_loop.simps) (simp only: ne mb is_digit_C simp_thms if_False if_True option.case)
    then show ?thesis using False by (simp add: agrees_ret agrees_fail)
  qed
qed

interpretation u64_decimal: byte_reader CBS_get_u64_decimal "dec_parse 0 False" "\<lambda>m c v w. unat v = w"
proof
  fix m c bs assume "cbs_holds m c bs"
  from agrees_decimal [OF this, of 0 False]
  show "agrees (\<lambda>v w. unat v = w) c bs (CBS_get_u64_decimal m c) (dec_parse 0 False bs)"
    by (simp add: CBS_get_u64_decimal_def)
qed

end
