(* ===== verification/Boring_CBB_Correct.thy ===== *)
theory Boring_CBB_Correct
  imports Boring_CBB Boring_DER_Correct
begin

text \<open>
  The builder against frames. The abstract state of a tree of builders is the content of the root and,
  for every open child, its pending prefix and its content; writing to a builder closes the children
  below it, which puts their length in front of their content. \<open>reps\<close> relates the concrete state, one
  buffer with gaps for the pending prefixes, to the frames; the locale \<open>builder_op\<close> says that a C
  function implements a function on frames: it never stores outside the buffer, it either does what
  the abstract function does or locks the builder, and it succeeds when there is room.
\<close>

section \<open>The buffer\<close>

definition buffer_ok :: "cbb_buffer \<Rightarrow> bool" where
  "buffer_ok b \<longleftrightarrow> length (bb_buf b) = unat (bb_cap b) \<and> unat (bb_len b) \<le> unat (bb_cap b)"

definition buffer_holds :: "cbb_buffer \<Rightarrow> u8 list \<Rightarrow> bool" where
  "buffer_holds b bs \<longleftrightarrow> buffer_ok b \<and> \<not> bb_error b \<and> take (unat (bb_len b)) (bb_buf b) = bs"

definition grows :: "cbb_buffer \<Rightarrow> cbb_buffer \<Rightarrow> bool" where
  "grows b b' \<longleftrightarrow> can_resize b' = can_resize b \<and> unat (bb_cap b) \<le> unat (bb_cap b')"

text \<open>There is room for a content of \<open>n\<close> bytes.\<close>

definition roomy :: "cbb_alloc \<Rightarrow> cbb_buffer \<Rightarrow> nat \<Rightarrow> bool" where
  "roomy A b n \<longleftrightarrow> n \<le> unat (bb_cap b) \<or> (can_resize b \<and> (\<forall>k. can_alloc A k) \<and> n < 2 ^ 64)"

lemma grows_refl [simp]: "grows b b"
  by (simp add: grows_def)

lemma grows_trans: "grows b b' \<Longrightarrow> grows b' b'' \<Longrightarrow> grows b b''"
  by (auto simp: grows_def)

lemma roomy_grows: "roomy A b n \<Longrightarrow> grows b b' \<Longrightarrow> k \<le> n \<Longrightarrow> roomy A b' k"
  by (auto simp: roomy_def grows_def)

lemma buffer_holds_length: "buffer_holds b bs \<Longrightarrow> unat (bb_len b) = length bs"
  by (auto simp: buffer_holds_def buffer_ok_def)

lemma unat_add_no_wrap: "\<not> x + y < (x :: u64) \<Longrightarrow> unat (x + y) = unat x + unat y"
  by (simp add: unat_plus_simple not_less)

lemma unat_add_wrap: "unat x + unat y < 2 ^ 64 \<Longrightarrow> unat ((x :: u64) + y) = unat x + unat y" 
  by (simp add: unat_word_ariths)

lemma reserve_spec:
  assumes "buffer_holds b bs" "cbb_buffer_reserve A n b = (ok, b')"
  shows "bb_len b' = bb_len b" "can_resize b' = can_resize b" "unat (bb_cap b) \<le> unat (bb_cap b')"
    and "ok \<Longrightarrow> buffer_holds b' bs \<and> length bs + unat n \<le> unat (bb_cap b')"
    and "\<not> ok \<Longrightarrow> bb_error b'"
    and "\<not> ok \<Longrightarrow> \<not> roomy A b (length bs + unat n)"
proof -
  let ?new = "bb_len b + n"
  let ?cap = "if bb_cap b * 2 < bb_cap b \<or> bb_cap b * 2 < ?new then ?new else bb_cap b * 2"
  have len: "unat (bb_len b) = length bs" by (rule buffer_holds_length [OF assms(1)])
  have wf: "length (bb_buf b) = unat (bb_cap b)" "length bs \<le> unat (bb_cap b)" "\<not> bb_error b"
    "take (length bs) (bb_buf b) = bs"
    using assms(1) len by (auto simp: buffer_holds_def buffer_ok_def)
  consider (wrap) "?new < bb_len b" | (grow) "\<not> ?new < bb_len b" "bb_cap b < ?new" | (fits) "\<not> ?new < bb_len b" "\<not> bb_cap b < ?new"
    by blast
  then have "bb_len b' = bb_len b \<and> can_resize b' = can_resize b \<and> unat (bb_cap b) \<le> unat (bb_cap b') \<and>
    (ok \<longrightarrow> buffer_holds b' bs \<and> length bs + unat n \<le> unat (bb_cap b')) \<and> (\<not> ok \<longrightarrow> bb_error b') \<and>
    (\<not> ok \<longrightarrow> \<not> roomy A b (length bs + unat n))"
  proof cases
    case wrap
    have "\<not> unat (bb_len b) + unat n < 2 ^ 64" using wrap unat_add_wrap [of "bb_len b" n] by (auto simp: word_less_nat_alt)
    moreover have "unat (bb_cap b) < 2 ^ 64" by (rule unat_u64_lt)
    ultimately have "\<not> roomy A b (length bs + unat n)" using len by (simp add: roomy_def)
    then show ?thesis using assms(2) wrap by (auto simp: cbb_buffer_reserve_def Let_def)
  next
    case fits
    then have "length bs + unat n \<le> unat (bb_cap b)"
      using unat_add_no_wrap [of "bb_len b" n] len by (simp add: word_less_nat_alt)
    then show ?thesis using assms fits by (auto simp: cbb_buffer_reserve_def Let_def)
  next
    case grow
    have new: "unat ?new = length bs + unat n" using unat_add_no_wrap [OF grow(1)] len by simp
    then have more: "unat (bb_cap b) < length bs + unat n" using grow(2) by (simp add: word_less_nat_alt)
    have cap: "unat (bb_cap b) < unat ?cap" "length bs + unat n \<le> unat ?cap"
      using grow(2) more new by (auto simp: word_less_nat_alt not_less)
    show ?thesis
    proof (cases "can_resize b \<and> can_alloc A ?cap")
      case True
      then have r: "ok" "b' = b\<lparr>bb_buf := bb_buf b @ map (fresh_at A) [length (bb_buf b)..<unat ?cap], bb_cap := ?cap\<rparr>"
        using assms(2) grow unfolding cbb_buffer_reserve_def Let_def by (auto simp del: upt.simps)
      then show ?thesis
        using wf cap len by (auto simp: buffer_holds_def buffer_ok_def simp del: upt.simps)
    next
      case False
      then have "\<not> ok" "b' = b\<lparr>bb_error := True\<rparr>" "\<not> roomy A b (length bs + unat n)"
        using assms(2) grow more unfolding cbb_buffer_reserve_def Let_def by (auto simp: roomy_def split: if_splits)
      then show ?thesis by simp
    qed
  qed
  then show "bb_len b' = bb_len b" "can_resize b' = can_resize b" "unat (bb_cap b) \<le> unat (bb_cap b')"
    "ok \<Longrightarrow> buffer_holds b' bs \<and> length bs + unat n \<le> unat (bb_cap b')" "\<not> ok \<Longrightarrow> bb_error b'"
    "\<not> ok \<Longrightarrow> \<not> roomy A b (length bs + unat n)" by blast+
qed

lemma add_spec:
  assumes "buffer_holds b bs" "cbb_buffer_add A n b = (ok, b')"
  shows "grows b b'" "ok \<Longrightarrow> \<exists>junk. length junk = unat n \<and> buffer_holds b' (bs @ junk)" "\<not> ok \<Longrightarrow> bb_error b'"
    "\<not> ok \<Longrightarrow> \<not> roomy A b (length bs + unat n)"
proof -
  obtain r b1 where r: "cbb_buffer_reserve A n b = (r, b1)" by fastforce
  note s = reserve_spec [OF assms(1) r]
  have b': "ok = r" "b' = (if r then b1\<lparr>bb_len := bb_len b1 + n\<rparr> else b1)"
    using assms(2) r by (auto simp: cbb_buffer_add_def split: if_splits)
  show "grows b b'" using s(2,3) b' by (auto simp: grows_def)
  show "\<not> ok \<Longrightarrow> bb_error b'" "\<not> ok \<Longrightarrow> \<not> roomy A b (length bs + unat n)" using s(5,6) b' by auto
  assume ok: ok
  then have h: "buffer_holds b1 bs" "length bs + unat n \<le> unat (bb_cap b1)" using s(4) b' by auto
  moreover have "unat (bb_cap b1) < 2 ^ 64" by (rule unat_u64_lt)
  ultimately have len: "unat (bb_len b1 + n) = length bs + unat n"
    using unat_add_wrap [of "bb_len b1" n] buffer_holds_length [OF h(1)] by simp
  have "take (length bs + unat n) (bb_buf b1) = bs @ take (unat n) (drop (length bs) (bb_buf b1))"
    using h(1) by (simp add: take_add buffer_holds_def buffer_holds_length [OF h(1)])
  then have "buffer_holds b' (bs @ take (unat n) (drop (length bs) (bb_buf b1)))"
    using h len b' ok by (simp add: buffer_holds_def buffer_ok_def)
  moreover have "length (take (unat n) (drop (length bs) (bb_buf b1))) = unat n"
    using h by (simp add: buffer_holds_def buffer_ok_def)
  ultimately show "\<exists>junk. length junk = unat n \<and> buffer_holds b' (bs @ junk)" by blast
qed

lemma store_spec:
  assumes "buffer_holds b bs" "i + length xs \<le> length bs"
  obtains b' where "buf_store i xs b = Some b'" "buffer_holds b' (take i bs @ xs @ drop (i + length xs) bs)"
    "bb_len b' = bb_len b" "grows b b'"
proof -
  have h: "length bs = unat (bb_len b)" "length (bb_buf b) = unat (bb_cap b)" "unat (bb_len b) \<le> unat (bb_cap b)"
    "bs = take (unat (bb_len b)) (bb_buf b)" "\<not> bb_error b"
    using assms(1) buffer_holds_length [OF assms(1)] by (auto simp: buffer_holds_def buffer_ok_def)
  let ?b = "b\<lparr>bb_buf := take i (bb_buf b) @ xs @ drop (i + length xs) (bb_buf b)\<rparr>"
  have "take (unat (bb_len b)) (take i (bb_buf b) @ xs @ drop (i + length xs) (bb_buf b)) =
      take i bs @ xs @ drop (i + length xs) bs"
    using assms(2) h(1,2,3) by (subst (1 2) h(4)) (simp add: min_absorb1 min_absorb2 drop_take le_diff_conv2)
  then have "buffer_holds ?b (take i bs @ xs @ drop (i + length xs) bs)"
    using h assms(2) by (simp add: buffer_holds_def buffer_ok_def)
  moreover have "buf_store i xs b = Some ?b" using h assms(2) by (simp add: buf_store_def)
  ultimately show thesis using that [of ?b] by (simp add: grows_def)
qed

lemma load_spec:
  assumes "buffer_holds b bs" "i + n \<le> length bs"
  shows "buf_load i n b = Some (take n (drop i bs))"
proof -
  have "bs = take (length bs) (bb_buf b)" "length bs \<le> length (bb_buf b)"
    using assms(1) buffer_holds_length [OF assms(1)] by (auto simp: buffer_holds_def buffer_ok_def)
  moreover have "take n (drop i (take (length bs) (bb_buf b))) = take n (drop i (bb_buf b))"
    using assms(2) by (simp add: drop_take min_absorb1 le_diff_conv2)
  ultimately show ?thesis using assms(2) by (simp add: buf_load_def)
qed

section \<open>Big-endian stores and length prefixes\<close>

primrec be_fixed :: "nat \<Rightarrow> nat \<Rightarrow> u8 list" where
  "be_fixed 0 n = []"
| "be_fixed (Suc k) n = be_fixed k (n div 256) @ [of_nat (n mod 256)]"

lemma length_be_fixed [simp]: "length (be_fixed k n) = k"
  by (induction k arbitrary: n) auto

lemma be_nat_be_fixed: "be_nat (be_fixed k n) = n mod 256 ^ k"
proof (induction k arbitrary: n)
  case (Suc k)
  have "unat (of_nat (n mod 256) :: u8) = n mod 256" by (rule unat_byte) simp
  then show ?case using Suc.IH [of "n div 256"] by (simp add: be_nat_snoc mod_mult2_eq algebra_simps)
qed simp

lemma be_fixed_be_nat: "be_fixed (length bs) (be_nat bs) = bs"
proof (induction bs rule: rev_induct)
  case (snoc b bs)
  have "(be_nat bs * 256 + unat b) div 256 = be_nat bs" "(be_nat bs * 256 + unat b) mod 256 = unat b"
    using unat_u8_lt [of b] by simp_all
  then show ?case using snoc by (simp add: be_nat_snoc)
qed simp

lemma be_bytes_fixed: "256 ^ k \<le> n \<Longrightarrow> n < 256 ^ Suc k \<Longrightarrow> be_bytes n = be_fixed (Suc k) n"
proof (induction k arbitrary: n)
  case 0
  then show ?case by (subst be_bytes.simps) simp
next
  case (Suc k)
  then have "256 ^ k \<le> n div 256" "n div 256 < 256 ^ Suc k"
    by (simp_all add: less_eq_div_iff_mult_less_eq div_less_iff_less_mult mult.commute)
  then have "be_bytes (n div 256) = be_fixed (Suc k) (n div 256)" by (rule Suc.IH)
  moreover have "n \<noteq> 0" using Suc.prems by (auto intro: Nat.gr0I)
  ultimately show ?case by (subst be_bytes.simps) simp
qed

lemma put_be_spec:
  assumes "buffer_holds b bs" "off + n \<le> length bs"
  shows "\<exists>b'. put_be_loop off n v b = Some (drop_bit (8 * n) v, b') \<and>
    buffer_holds b' (take off bs @ be_fixed n (unat v) @ drop (off + n) bs) \<and> grows b b'"
  using assms
proof (induction n arbitrary: v b bs)
  case (Suc n)
  obtain b1 where b1: "buf_store (off + n) [ucast v] b = Some b1" "grows b b1"
    "buffer_holds b1 (take (off + n) bs @ [ucast v] @ drop (off + n + 1) bs)" (is "buffer_holds b1 ?bs")
    using store_spec [OF Suc.prems(1), of "off + n" "[ucast v]"] Suc.prems(2) by auto
  have "off + n \<le> length ?bs" using Suc.prems(2) by simp
  from Suc.IH [OF b1(3) this, of "drop_bit 8 v"] obtain b2 where
    b2: "put_be_loop off n (drop_bit 8 v) b1 = Some (drop_bit (8 * n) (drop_bit 8 v), b2)" "grows b1 b2"
    "buffer_holds b2 (take off ?bs @ be_fixed n (unat (drop_bit 8 v)) @ drop (off + n) ?bs)" by blast
  have "of_nat (unat v mod 256) = (ucast v :: u8)"
    by (simp add: word_unat_eq_iff unat_of_nat unsigned_ucast_eq take_bit_eq_mod)
  moreover have "unat (drop_bit 8 v) = unat v div 256" by (simp add: unat_drop_bit_eq drop_bit_nat_def)
  ultimately have "take off ?bs @ be_fixed n (unat (drop_bit 8 v)) @ drop (off + n) ?bs =
      take off bs @ be_fixed (Suc n) (unat v) @ drop (off + Suc n) bs"
    using Suc.prems(2) by (simp add: min_absorb1)
  then show ?case using b1 b2 by (auto intro: grows_trans simp: add.commute)
qed simp

text \<open>The prefix of a child that has the given number of octets reserved, or is an ASN.1 element.\<close>

definition prefix_of :: "u8 \<times> bool \<Rightarrow> nat \<Rightarrow> u8 list option" where
  "prefix_of k n =
     (if snd k then if n \<le> 0xFFFFFFFE then Some (der_len n) else None
      else if n < 256 ^ unat (fst k) then Some (be_fixed (unat (fst k)) n) else None)"

definition kind_of :: "cbb_child \<Rightarrow> u8 \<times> bool" where
  "kind_of k = (pending_len_len k, pending_is_asn1 k)"

lemma drop_bit_8_0: "drop_bit (8 * n) v = 0 \<longleftrightarrow> unat (v :: u64) < 256 ^ n"
  by (simp add: word_unat_eq_iff unat_drop_bit_eq drop_bit_nat_def div_eq_0_iff power_mult)

lemma der_len_long:
  "256 ^ k \<le> n \<Longrightarrow> n < 256 ^ Suc k \<Longrightarrow> 128 \<le> n \<Longrightarrow> der_len n = of_nat (129 + k) # be_fixed (Suc k) n"
  by (simp add: der_len_def be_bytes_fixed)

lemma asn1_len_len_unat:
  "asn1_len_len len =
     (if 0xFFFFFF < unat len then (5, 0x84) else if 0xFFFF < unat len then (4, 0x83)
      else if 0xFF < unat len then (3, 0x82) else if 0x7F < unat len then (2, 0x81) else (1, ucast len))"
  unfolding asn1_len_len_def word_less_nat_alt by simp

lemma asn1_len_len_spec:
  assumes "asn1_len_len len = (ll, ib)" "unat len \<le> 0xFFFFFFFE"
  shows "(ll = 1 \<and> unat len < 128 \<and> der_len (unat len) = [ib]) \<or>
    (ll \<noteq> 1 \<and> 2 \<le> unat ll \<and> unat ll \<le> 5 \<and> unat len < 256 ^ (unat ll - 1) \<and> unat (ll - 1) = unat ll - 1 \<and>
     der_len (unat len) = ib # be_fixed (unat ll - 1) (unat len))"
proof -
  consider "unat len < 128" | "128 \<le> unat len" "unat len \<le> 0xFF" | "0xFF < unat len" "unat len \<le> 0xFFFF"
    | "0xFFFF < unat len" "unat len \<le> 0xFFFFFF" | "0xFFFFFF < unat len" by linarith
  then show ?thesis
  proof cases
    case 1
    then have "(of_nat (unat len) :: u8) = ucast len" by (simp add: word_unat_eq_iff unat_of_nat unsigned_ucast_eq)
    then show ?thesis using 1 assms by (auto simp: asn1_len_len_unat der_len_def)
  next
    case 2
    then have "ll = 2" "ib = 0x81" using assms by (auto simp: asn1_len_len_unat)
    then show ?thesis using 2 der_len_long [of 0 "unat len"] by simp
  next
    case 3
    then have "ll = 3" "ib = 0x82" using assms by (auto simp: asn1_len_len_unat)
    moreover have "be_fixed 2 = be_fixed (Suc 1)" by (simp only: Suc_1)
    ultimately show ?thesis using 3 der_len_long [of 1 "unat len"] by (simp del: be_fixed.simps)
  next
    case 4
    then have "ll = 4" "ib = 0x83" using assms by (auto simp: asn1_len_len_unat)
    moreover have "be_fixed 3 = be_fixed (Suc 2)" by simp
    ultimately show ?thesis using 4 der_len_long [of 2 "unat len"] by (simp del: be_fixed.simps)
  next
    case 5
    then have "ll = 5" "ib = 0x84" using assms by (auto simp: asn1_len_len_unat)
    moreover have "be_fixed 4 = be_fixed (Suc 3)" by simp
    ultimately show ?thesis using 5 assms(2) der_len_long [of 3 "unat len"] by (simp del: be_fixed.simps)
  qed
qed

lemma buffer_length_lt: "buffer_holds b bs \<Longrightarrow> length bs < 2 ^ 64"
  using buffer_holds_length [of b bs] unat_u64_lt [of "bb_len b"] by simp

lemma unat_sum:
  "unat (x :: u64) = i \<Longrightarrow> unat y = j \<Longrightarrow> i + j < 2 ^ 64 \<Longrightarrow> unat (x + y) = i + j"
  using unat_add_wrap by blast

text \<open>Where the prefix and the content of a child are.\<close>

lemma child_bounds:
  assumes "buffer_holds b (pre @ gap @ c)" "unat (ch_offset k) = length pre" "length gap = unat (pending_len_len k)"
  shows "unat (ch_offset k + ucast (pending_len_len k)) = length pre + length gap"
    "unat (bb_len b - (ch_offset k + ucast (pending_len_len k))) = length c"
    "\<not> ch_offset k + ucast (pending_len_len k) < ch_offset k"
    "\<not> bb_len b < ch_offset k + ucast (pending_len_len k)"
proof -
  let ?s = "ch_offset k + ucast (pending_len_len k)"
  have b: "unat (bb_len b) = length pre + (length gap + length c)" using buffer_holds_length [OF assms(1)] by simp
  show s: "unat ?s = length pre + length gap"
    using assms(2,3) buffer_length_lt [OF assms(1)] by (intro unat_sum) (simp_all add: unat_ucast_u8)
  show "\<not> ?s < ch_offset k" "\<not> bb_len b < ?s" using s b assms(2) by (simp_all add: word_less_nat_alt)
  then have "?s \<le> bb_len b" by simp
  then show "unat (bb_len b - ?s) = length c" using s b by (simp only: unat_sub)
qed

definition prefix_outcome :: "cbb_alloc \<Rightarrow> u8 list \<Rightarrow> u8 list \<Rightarrow> u8 \<times> bool \<Rightarrow> cbb_buffer \<Rightarrow> (bool \<times> cbb_buffer) option \<Rightarrow> bool" where
  "prefix_outcome A pre c k b r \<longleftrightarrow>
     (case r of None \<Rightarrow> False
      | Some (ok, b') \<Rightarrow> grows b b' \<and>
          (if ok then \<exists>p. prefix_of k (length c) = Some p \<and> buffer_holds b' (pre @ p @ c)
           else prefix_of k (length c) = None \<or> \<not> roomy A b (length pre + (unat (fst k) + 4) + length c)))"

lemma prefix_plain:
  assumes h: "buffer_holds b (pre @ gap @ c)" "unat (ch_offset k) = length pre" "length gap = unat (pending_len_len k)"
    and "\<not> pending_is_asn1 k"
  shows "prefix_outcome A pre c (kind_of k) b (write_prefix A k b)"
proof -
  note cb = child_bounds [OF h]
  let ?len = "bb_len b - (ch_offset k + ucast (pending_len_len k))"
  have "length pre + unat (pending_len_len k) \<le> length (pre @ gap @ c)" using h(3) by simp
  from put_be_spec [OF h(1) this, of ?len] obtain b' where
    "put_be_loop (length pre) (unat (pending_len_len k)) ?len b = Some (drop_bit (8 * unat (pending_len_len k)) ?len, b')"
    "buffer_holds b' (pre @ be_fixed (unat (pending_len_len k)) (length c) @ c)" "grows b b'"
    using h(3) cb(2) by auto
  moreover have "drop_bit (8 * unat (pending_len_len k)) ?len = 0 \<longleftrightarrow> length c < 256 ^ unat (pending_len_len k)"
    by (simp only: drop_bit_8_0 cb(2))
  ultimately show ?thesis
    using assms(4) h(2) by (simp add: write_prefix_def prefix_outcome_def prefix_of_def kind_of_def Let_def)
qed

lemma prefix_long:
  assumes h: "buffer_holds b (pre @ [g] @ c)" and e: "1 \<le> unat e" "unat e \<le> 4" "length c < 256 ^ unat e"
    and off: "unat (off :: u64) = length pre" and len: "unat len = length c"
    and k1: "fst k = 1"
    and that: "prefix_of k (length c) = Some (ib # be_fixed (unat e) (length c))"
  shows "prefix_outcome A pre c k b
      (case cbb_buffer_add A (ucast (e :: u8)) b of (ok, b) \<Rightarrow>
         if \<not> ok then Some (False, b)
         else do {
           moved \<leftarrow> buf_load (unat (off + 1)) (unat len) b;
           b \<leftarrow> buf_store (unat (off + 1 + ucast e)) moved b;
           b \<leftarrow> buf_store (unat off) [ib] b;
           Option.bind (put_be_loop (unat (off + 1)) (unat e) len b) (\<lambda>(len, b). Some (len = 0, b)) })"
proof -
  obtain ok b1 where add: "cbb_buffer_add A (ucast e) b = (ok, b1)" by fastforce
  note a = add_spec [OF h add]
  show ?thesis
  proof (cases ok)
    case False
    then have "\<not> roomy A b (length pre + 5 + length c)"
      using a(4) e(2) roomy_grows [of A b "length pre + 5 + length c" b] by (auto simp: unat_ucast_u8)
    then show ?thesis using False add a(1) k1 by (simp add: prefix_outcome_def)
  next
    case True
    then obtain junk where j: "length junk = unat e" "buffer_holds b1 (pre @ [g] @ c @ junk)"
      using a(2) by (auto simp: unat_ucast_u8)
    let ?n = "length pre + 1 + unat e"
    have lt: "length pre + 1 + length c + unat e < 2 ^ 64" using buffer_length_lt [OF j(2)] j(1) by simp
    have o1: "unat (off + 1) = length pre + 1" using unat_sum [of off "length pre" 1 1] off lt by simp
    have o2: "unat (off + 1 + ucast e) = ?n" by (rule unat_sum [OF o1]) (use lt in \<open>simp_all add: unat_ucast_u8\<close>)
    have load: "buf_load (length pre + 1) (length c) b1 = Some c" using load_spec [OF j(2), of "length pre + 1" "length c"] by simp
    define ys where "ys = take (unat e) (c @ junk)"
    have ys: "length ys = unat e" using j(1) by (simp add: ys_def)
    obtain b2 where b2: "buf_store ?n c b1 = Some b2" "grows b1 b2" "buffer_holds b2 (pre @ [g] @ ys @ c)"
      by (rule store_spec [OF j(2), of ?n c]) (use j(1) in \<open>auto simp: ys_def\<close>)
    obtain b3 where b3: "buf_store (length pre) [ib] b2 = Some b3" "grows b2 b3" "buffer_holds b3 (pre @ [ib] @ ys @ c)"
      by (rule store_spec [OF b2(3), of "length pre" "[ib]"]) (use ys in auto)
    obtain b4 where b4: "put_be_loop (length pre + 1) (unat e) len b3 = Some (drop_bit (8 * unat e) len, b4)" "grows b3 b4"
      "buffer_holds b4 (pre @ [ib] @ be_fixed (unat e) (length c) @ c)"
      using put_be_spec [OF b3(3), of "length pre + 1" "unat e" len] ys len by auto
    have "drop_bit (8 * unat e) len = 0" using e(3) len by (simp only: drop_bit_8_0)
    moreover have "grows b b4" using a(1) b2(2) b3(2) b4(2) by (blast intro: grows_trans)
    ultimately show ?thesis
      using True add o1 o2 off len load b2(1) b3(1) b4(1,3) that by (simp add: prefix_outcome_def)
  qed
qed

lemma prefix_asn1:
  assumes h: "buffer_holds b (pre @ gap @ c)" "unat (ch_offset k) = length pre" "length gap = unat (pending_len_len k)"
    and k: "pending_is_asn1 k" "pending_len_len k = 1"
  shows "prefix_outcome A pre c (kind_of k) b (write_prefix A k b)"
proof -
  note cb = child_bounds [OF h]
  let ?len = "bb_len b - (ch_offset k + ucast (pending_len_len k))"
  obtain g where g: "gap = [g]" using h(3) k(2) by (cases gap) auto
  obtain ll ib where ll: "asn1_len_len ?len = (ll, ib)" by fastforce
  consider (big) "0xFFFFFFFE < length c" | (short) "length c < 128" "ll = 1" "der_len (length c) = [ib]"
    | (long) "length c \<le> 0xFFFFFFFE" "ll \<noteq> 1" "2 \<le> unat ll" "unat ll \<le> 5" "length c < 256 ^ (unat ll - 1)"
        "unat (ll - 1) = unat ll - 1" "der_len (length c) = ib # be_fixed (unat ll - 1) (length c)"
    using asn1_len_len_spec [OF ll] cb(2) by (cases "0xFFFFFFFE < length c") auto
  then show ?thesis
  proof cases
    case big
    then have "0xFFFFFFFE < ?len" by (simp only: word_less_nat_alt cb(2)) simp
    then show ?thesis using big k by (simp add: write_prefix_def prefix_outcome_def prefix_of_def kind_of_def Let_def)
  next
    case short
    then have "\<not> 0xFFFFFFFE < ?len" by (simp only: word_less_nat_alt cb(2)) simp
    moreover obtain b1 where "buf_store (length pre) [ib] b = Some b1" "grows b b1" "buffer_holds b1 (pre @ [ib] @ c)"
      by (rule store_spec [OF h(1), of "length pre" "[ib]"]) (use g in auto)
    ultimately show ?thesis
      using short k ll h(2) by (simp add: write_prefix_def prefix_outcome_def prefix_of_def kind_of_def Let_def)
  next
    case long
    then have le: "\<not> 0xFFFFFFFE < ?len" by (simp only: word_less_nat_alt cb(2)) simp
    have "prefix_of (kind_of k) (length c) = Some (ib # be_fixed (unat (ll - 1)) (length c))"
      using long k(1) by (simp add: prefix_of_def kind_of_def)
    moreover have "1 \<le> unat (ll - 1)" "unat (ll - 1) \<le> 4" "length c < 256 ^ unat (ll - 1)" using long by simp_all
    moreover have "buffer_holds b (pre @ [g] @ c)" using h(1) g by simp
    note r = prefix_long [OF this calculation(2,3,4) h(2) cb(2) _ calculation(1), of A]
    have one: "ucast (pending_len_len k) = (1 :: u64)" using k by simp
    have "fst (kind_of k) = 1" using k(2) by (simp add: kind_of_def)
    from r [OF this] show ?thesis using le k(1) ll long(2) unfolding write_prefix_def Let_def one by simp
  qed
qed

section \<open>Frames\<close>

type_synonym frames = "u8 list \<times> ((u8 \<times> bool) \<times> u8 list) list"

definition gaps :: "((u8 \<times> bool) \<times> u8 list) list \<Rightarrow> u8 list" where
  "gaps fs = concat (map (\<lambda>(k, c). replicate (unat (fst k)) 0 @ c) fs)"

text \<open>The bytes of a chain of children when every prefix is written.\<close>

primrec closed :: "((u8 \<times> bool) \<times> u8 list) list \<Rightarrow> u8 list option" where
  "closed [] = Some []"
| "closed (f # fs) = do {
     rest \<leftarrow> closed fs;
     p \<leftarrow> prefix_of (fst f) (length (snd f @ rest));
     Some (p @ snd f @ rest) }"

fun chain_ok :: "nat \<Rightarrow> cbb_child list \<Rightarrow> ((u8 \<times> bool) \<times> u8 list) list \<Rightarrow> bool" where
  "chain_ok off [] [] \<longleftrightarrow> True"
| "chain_ok off (k # ks) (f # fs) \<longleftrightarrow>
     unat (ch_offset k) = off \<and> kind_of k = fst f \<and> (snd (fst f) \<longrightarrow> fst (fst f) = 1) \<and>
     chain_ok (off + unat (fst (fst f)) + length (snd f)) ks fs"
| "chain_ok off _ _ \<longleftrightarrow> False"

text \<open>An upper bound for the number of bytes of the chain, the final prefixes included.\<close>

definition bound :: "((u8 \<times> bool) \<times> u8 list) list \<Rightarrow> nat" where
  "bound fs = sum_list (map (\<lambda>(k, c). unat (fst k) + 4 + length c) fs)"

lemma gaps_simps [simp]:
  "gaps [] = []" "gaps (f # fs) = replicate (unat (fst (fst f))) 0 @ snd f @ gaps fs" "gaps (fs @ gs) = gaps fs @ gaps gs"
  by (simp_all add: gaps_def case_prod_unfold)

lemma bound_simps [simp]:
  "bound [] = 0" "bound (f # fs) = unat (fst (fst f)) + 4 + length (snd f) + bound fs" "bound (fs @ gs) = bound fs + bound gs"
  by (simp_all add: bound_def case_prod_unfold)

lemma chain_ok_length: "chain_ok off ks fs \<Longrightarrow> length ks = length fs"
  by (induction off ks fs rule: chain_ok.induct) auto

lemma chain_ok_append:
  "length ks = length fs \<Longrightarrow>
     chain_ok off (ks @ ks') (fs @ fs') \<longleftrightarrow> chain_ok off ks fs \<and> chain_ok (off + length (gaps fs)) ks' fs'"
  by (induction ks fs arbitrary: off rule: list_induct2) (auto simp: algebra_simps)

lemma der_len_length: "n \<le> 0xFFFFFFFE \<Longrightarrow> length (der_len n) \<le> 5"
  using be_bytes_length [of n 4] by (simp add: der_len_def)

lemma prefix_of_length: "prefix_of k n = Some p \<Longrightarrow> (snd k \<longrightarrow> fst k = 1) \<Longrightarrow> length p \<le> unat (fst k) + 4"
  using der_len_length [of n] by (auto simp: prefix_of_def split: if_splits)

lemma closed_length: "closed fs = Some x \<Longrightarrow> chain_ok off ks fs \<Longrightarrow> length x \<le> bound fs"
proof (induction fs arbitrary: off ks x)
  case (Cons f fs)
  obtain k ks' where ks: "ks = k # ks'" using Cons.prems(2) by (cases ks) auto
  from Cons.prems(1) obtain rest p where r: "closed fs = Some rest" "prefix_of (fst f) (length (snd f @ rest)) = Some p"
    "x = p @ snd f @ rest" by (auto simp: bind_eq_Some_conv)
  have "length rest \<le> bound fs" using Cons.IH [OF r(1)] Cons.prems(2) ks by auto
  moreover have "length p \<le> unat (fst (fst f)) + 4" using prefix_of_length [OF r(2)] Cons.prems(2) ks by simp
  ultimately show ?case using r(3) by simp
qed simp

lemma flush_kids_spec:
  assumes "buffer_holds b (pre @ gaps fs)" "chain_ok (length pre) ks fs"
  shows "case flush_kids A ks b of None \<Rightarrow> False
    | Some (ok, b') \<Rightarrow> grows b b' \<and>
        (if ok then \<exists>x. closed fs = Some x \<and> buffer_holds b' (pre @ x)
         else bb_error b' \<and> (closed fs = None \<or> \<not> roomy A b (length pre + bound fs)))"
  using assms
proof (induction ks arbitrary: pre fs b)
  case Nil
  then have "fs = []" by (cases fs) auto
  then show ?case using Nil by (simp add: buffer_holds_def)
next
  case (Cons k ks)
  obtain f fs' where fs: "fs = f # fs'" using Cons.prems(2) by (cases fs) auto
  let ?gap = "replicate (unat (fst (fst f))) (0 :: u8)"
  note ok = Cons.prems(2) [unfolded fs chain_ok.simps]
  have "fst f = kind_of k" using ok by simp
  then have k: "pending_len_len k = fst (fst f)" "pending_is_asn1 k = snd (fst f)" by (simp_all add: kind_of_def)
  have h: "buffer_holds b ((pre @ ?gap @ snd f) @ gaps fs')" using Cons.prems(1) fs by simp
  have ne: "\<not> bb_error b" using h by (simp add: buffer_holds_def)
  obtain ok1 b1 where f1: "flush_kids A ks b = Some (ok1, b1)" and g1: "grows b b1"
    and r1: "if ok1 then \<exists>x. closed fs' = Some x \<and> buffer_holds b1 ((pre @ ?gap @ snd f) @ x)
      else bb_error b1 \<and> (closed fs' = None \<or> \<not> roomy A b (length (pre @ ?gap @ snd f) + bound fs'))"
    using Cons.IH [OF h] ok by (auto simp: add.assoc split: option.splits)
  show ?case
  proof (cases ok1)
    case False
    have "closed fs = None \<or> \<not> roomy A b (length pre + bound fs)"
      using r1 False roomy_grows [of A b "length pre + bound fs" b "length (pre @ ?gap @ snd f) + bound fs'"]
      by (auto simp: fs)
    then show ?thesis using f1 g1 False ne by (simp add: grows_def Let_def)
  next
    case True
    then obtain x where x: "closed fs' = Some x" "buffer_holds b1 (pre @ ?gap @ snd f @ x)" using r1 by auto
    have xl: "length x \<le> bound fs'" using closed_length [OF x(1)] ok by blast
    note b = x(2) ok [THEN conjunct1] 
    have gl: "length ?gap = unat (pending_len_len k)" using k by simp
    have "prefix_outcome A pre (snd f @ x) (kind_of k) b1 (write_prefix A k b1)"
      using prefix_plain [OF b gl] prefix_asn1 [OF b gl] ok k by (cases "pending_is_asn1 k") auto
    then obtain ok2 b2 where w: "write_prefix A k b1 = Some (ok2, b2)" "grows b1 b2"
      "if ok2 then \<exists>p. prefix_of (kind_of k) (length (snd f @ x)) = Some p \<and> buffer_holds b2 (pre @ p @ snd f @ x)
       else prefix_of (kind_of k) (length (snd f @ x)) = None \<or> \<not> roomy A b1 (length pre + (unat (fst (kind_of k)) + 4) + length (snd f @ x))"
      by (auto simp: prefix_outcome_def split: option.splits)
    have kf: "kind_of k = fst f" using ok by simp
    have "grows b b2" using g1 w(2) by (rule grows_trans)
    note cb = child_bounds(3,4) [OF b gl]
    show ?thesis
    proof (cases ok2)
      case True
      then show ?thesis using f1 \<open>ok1\<close> cb w(1,3) \<open>grows b b2\<close> x(1) ne kf by (auto simp: fs)
    next
      case False
      then have "prefix_of (fst f) (length (snd f @ x)) = None \<or>
          \<not> roomy A b1 (length pre + (unat (fst (fst f)) + 4) + length (snd f @ x))" using w(3) kf by simp
      then have "prefix_of (fst f) (length (snd f @ x)) = None \<or> \<not> roomy A b (length pre + bound fs)"
        using roomy_grows [OF _ g1] xl by (auto simp: fs)
      then show ?thesis using f1 \<open>ok1\<close> cb w(1) \<open>\<not> ok2\<close> \<open>grows b b2\<close> x(1) ne kf by (auto simp: fs grows_def)
    qed
  qed
qed

section \<open>The interface\<close>

definition reps :: "CBB \<Rightarrow> frames \<Rightarrow> bool" where
  "reps S F \<longleftrightarrow> buffer_holds (cbb_base S) (fst F @ gaps (snd F)) \<and> chain_ok (length (fst F)) (cbb_kids S) (snd F)"

abbreviation locked :: "CBB \<Rightarrow> bool" where
  "locked S \<equiv> bb_error (cbb_base S)"

definition depth :: "frames \<Rightarrow> nat" where
  "depth F = length (snd F)"

definition weight :: "frames \<Rightarrow> nat" where
  "weight F = length (fst F) + bound (snd F)"

text \<open>Appending to the innermost builder, and closing every child below depth \<open>d\<close>.\<close>

definition add_last :: "u8 list \<Rightarrow> frames \<Rightarrow> frames" where
  "add_last bs F =
     (if snd F = [] then (fst F @ bs, [])
      else (fst F, butlast (snd F) @ [(fst (last (snd F)), snd (last (snd F)) @ bs)]))"

definition flushed :: "nat \<Rightarrow> frames \<Rightarrow> frames option" where
  "flushed d F = map_option (\<lambda>rest. add_last rest (fst F, take d (snd F))) (closed (drop d (snd F)))"

text \<open>
  The outcome of a C call on a state that represents \<open>F\<close>: it is defined; success means what the
  abstract function \<open>f\<close> says; failure locks the builder and happens only when \<open>f\<close> refuses or room is
  missing.
\<close>

definition outcome :: "cbb_alloc \<Rightarrow> CBB \<Rightarrow> frames \<Rightarrow> nat \<Rightarrow> (frames \<Rightarrow> frames option) \<Rightarrow> nat \<Rightarrow> cbb_result \<Rightarrow> bool" where
  "outcome A S F e f cost r \<longleftrightarrow>
     (case r of None \<Rightarrow> False
      | Some (ok, S') \<Rightarrow> grows (cbb_base S) (cbb_base S') \<and>
          (if ok then \<exists>F'. f F = Some F' \<and> reps S' F' \<and> depth F' = e \<and> weight F' \<le> weight F + cost
           else locked S' \<and> (f F = None \<or> \<not> roomy A (cbb_base S) (weight F + cost))))"

locale builder_op =
  fixes op :: "cbb_alloc \<Rightarrow> CBB \<Rightarrow> cbb_result"
    and d e :: nat
    and f :: "frames \<Rightarrow> frames option"
    and cost :: nat
  assumes step: "reps S F \<Longrightarrow> d \<le> depth F \<Longrightarrow> outcome A S F e f cost (op A S)"
    and sticky: "locked S \<Longrightarrow> \<exists>S'. op A S = Some (False, S') \<and> cbb_base S' = cbb_base S"
begin

lemma refines:
  assumes "reps S F" "d \<le> depth F" "op A S = Some (True, S')"
  obtains F' where "f F = Some F'" "reps S' F'" "depth F' = e"
  using step [OF assms(1,2), of A] assms(3) by (auto simp: outcome_def)

lemma succeeds:
  assumes "reps S F" "d \<le> depth F" "f F = Some F'" "roomy A (cbb_base S) (weight F + cost)"
  obtains S' where "op A S = Some (True, S')" "reps S' F'"
  using step [OF assms(1,2), of A] assms(3,4) by (auto simp: outcome_def split: option.splits if_splits)

lemma fails_locked: "reps S F \<Longrightarrow> d \<le> depth F \<Longrightarrow> op A S = Some (False, S') \<Longrightarrow> locked S'"
  using step [of S F A] by (auto simp: outcome_def split: option.splits)

lemma defined: "reps S F \<Longrightarrow> d \<le> depth F \<Longrightarrow> op A S \<noteq> None"
  using step [of S F A] by (auto simp: outcome_def split: option.splits)

end

lemma outcome_mono:
  assumes "outcome A S F e f cost r" "cost \<le> cost'"
  shows "outcome A S F e f cost' r"
proof -
  have "roomy A (cbb_base S) (weight F + cost') \<Longrightarrow> roomy A (cbb_base S) (weight F + cost)"
    using assms(2) roomy_grows [OF _ grows_refl] by (meson add_left_mono)
  then show ?thesis using assms by (auto simp: outcome_def split: option.splits if_splits)
qed

text \<open>Two calls in sequence; the second starts where the first ends.\<close>

lemma outcome_seq:
  assumes "outcome A S F e f c r"
    and "\<And>S1 F1. reps S1 F1 \<Longrightarrow> depth F1 = e \<Longrightarrow> f F = Some F1 \<Longrightarrow> outcome A S1 F1 e' g c' (k S1)"
  shows "outcome A S F e' (\<lambda>F. Option.bind (f F) g) (c + c') (and_then r k)"
proof -
  from assms(1) obtain ok S1 where 1: "r = Some (ok, S1)" "grows (cbb_base S) (cbb_base S1)"
    "if ok then \<exists>F'. f F = Some F' \<and> reps S1 F' \<and> depth F' = e \<and> weight F' \<le> weight F + c
     else locked S1 \<and> (f F = None \<or> \<not> roomy A (cbb_base S) (weight F + c))"
    by (auto simp: outcome_def split: option.splits)
  show ?thesis
  proof (cases ok)
    case False
    then have "f F = None \<or> \<not> roomy A (cbb_base S) (weight F + (c + c'))"
      using 1(3) roomy_grows [OF _ grows_refl] by (metis add.assoc le_add1)
    then show ?thesis using False 1 by (auto simp: outcome_def)
  next
    case True
    then obtain F1 where F1: "f F = Some F1" "reps S1 F1" "depth F1 = e" "weight F1 \<le> weight F + c" using 1(3) by auto
    obtain ok2 S2 where 2: "k S1 = Some (ok2, S2)" "grows (cbb_base S1) (cbb_base S2)"
      "if ok2 then \<exists>F'. g F1 = Some F' \<and> reps S2 F' \<and> depth F' = e' \<and> weight F' \<le> weight F1 + c'
       else locked S2 \<and> (g F1 = None \<or> \<not> roomy A (cbb_base S1) (weight F1 + c'))"
      using assms(2) [OF F1(2,3,1)] by (auto simp: outcome_def split: option.splits)
    have "roomy A (cbb_base S) (weight F + (c + c')) \<Longrightarrow> roomy A (cbb_base S1) (weight F1 + c')"
      using roomy_grows [OF _ 1(2)] F1(4) by (metis add.assoc add_le_mono1)
    moreover have "weight F' \<le> weight F + (c + c')" if "weight F' \<le> weight F1 + c'" for F'
      using that F1(4) by linarith
    ultimately show ?thesis
      using True 1(1) 2 F1(1) grows_trans [OF 1(2) 2(2)] by (cases ok2) (auto simp: outcome_def)
  qed
qed

lemma builder_seq:
  assumes "builder_op op d e f c"
    and "\<And>A S F. reps S F \<Longrightarrow> depth F = e \<Longrightarrow> outcome A S F e' g c' (k A S)"
  shows "builder_op (\<lambda>A S. and_then (op A S) (k A)) d e' (\<lambda>F. Option.bind (f F) g) (c + c')"
proof
  fix S F A
  assume F: "reps S F" "d \<le> depth F"
  show "outcome A S F e' (\<lambda>F. Option.bind (f F) g) (c + c') (and_then (op A S) (k A))"
    by (rule outcome_seq [OF builder_op.step [OF assms(1) F]]) (rule assms(2))
next
  fix S A
  assume "locked S"
  from builder_op.sticky [OF assms(1) this, of A] show "\<exists>S'. and_then (op A S) (k A) = Some (False, S') \<and> cbb_base S' = cbb_base S"
    by auto
qed

lemma outcome_cong: "outcome A S F e f c r \<Longrightarrow> f F = g F \<Longrightarrow> c = c' \<Longrightarrow> r = r' \<Longrightarrow> outcome A S F e g c' r'"
  unfolding outcome_def by (auto split: option.splits)

lemma builder_op_cong:
  assumes "builder_op op d e f c" "\<And>A S. op' A S = op A S" "\<And>F. d \<le> depth F \<Longrightarrow> f F = g F" "c = c'"
  shows "builder_op op' d e g c'"
proof
  fix S F A
  assume F: "reps S F" "d \<le> depth F"
  show "outcome A S F e g c' (op' A S)"
    by (rule outcome_cong [OF builder_op.step [OF assms(1) F]]) (simp_all add: assms F)
qed (use builder_op.sticky [OF assms(1)] assms(2) in simp)

text \<open>The error path of the compound functions.\<close>

lemma builder_or_error:
  assumes "builder_op op d e f c"
  shows "builder_op (\<lambda>A S. or_error k (op A S)) d e f c"
proof
  fix S F A
  assume "reps S F" "d \<le> depth F"
  from builder_op.step [OF assms this, of A] show "outcome A S F e f c (or_error k (op A S))"
    by (auto simp: outcome_def or_error_def cbb_on_error_def grows_def split: option.splits if_splits)
next
  fix S A
  assume "locked S"
  from builder_op.sticky [OF assms this, of A] obtain S' where "op A S = Some (False, S')" "cbb_base S' = cbb_base S" by blast
  with \<open>locked S\<close> show "\<exists>S'. or_error k (op A S) = Some (False, S') \<and> cbb_base S' = cbb_base S"
    by (simp add: or_error_def cbb_on_error_def)
qed

section \<open>The functions of the builder\<close>

lemma add_last_bytes: "fst (add_last x F) @ gaps (snd (add_last x F)) = (fst F @ gaps (snd F)) @ x"
  by (cases "snd F" rule: rev_cases) (auto simp: add_last_def)

lemma add_last_measures [simp]: "depth (add_last x F) = depth F" "weight (add_last x F) = weight F + length x"
  by (cases "snd F" rule: rev_cases; simp add: add_last_def depth_def weight_def)+

lemma chain_add_last:
  assumes "chain_ok (length (fst F)) ks (snd F)"
  shows "chain_ok (length (fst (add_last x F))) ks (snd (add_last x F))"
proof (cases "snd F" rule: rev_cases)
  case Nil
  then show ?thesis using chain_ok_length [OF assms] by (simp add: add_last_def)
next
  case (snoc fs l)
  then obtain ks' k where "ks = ks' @ [k]" "length ks' = length fs"
    using chain_ok_length [OF assms] by (cases ks rule: rev_cases) auto
  then show ?thesis using assms snoc by (simp add: add_last_def chain_ok_append)
qed

lemma reps_kids: "reps S F \<Longrightarrow> length (cbb_kids S) = depth F"
  using chain_ok_length by (auto simp: reps_def depth_def)

lemma flush_outcome:
  assumes F: "reps S F" and d: "d \<le> depth F"
  shows "outcome A S F d (flushed d) 0 (CBB_flush A d S)"
proof -
  let ?fs = "take d (snd F)" and ?gs = "drop d (snd F)" and ?ks = "drop d (cbb_kids S)"
  let ?pre = "fst F @ gaps ?fs"
  have kids: "length (take d (cbb_kids S)) = length ?fs" using reps_kids [OF F] by (simp add: depth_def)
  have h: "buffer_holds (cbb_base S) (?pre @ gaps ?gs)"
    using F gaps_simps(3) [of ?fs ?gs] by (simp add: reps_def del: gaps_simps)
  have "chain_ok (length (fst F)) (take d (cbb_kids S) @ ?ks) (?fs @ ?gs)" using F by (simp add: reps_def)
  then have c: "chain_ok (length (fst F)) (take d (cbb_kids S)) ?fs" "chain_ok (length ?pre) ?ks ?gs"
    unfolding chain_ok_append [OF kids] by simp_all
  have w: "weight F = length ?pre - length ?pre + (length (fst F) + bound ?fs) + bound ?gs"
    using bound_simps(3) [of ?fs ?gs] by (simp add: weight_def del: bound_simps)
  have gb: "length (gaps fs) \<le> bound fs" for fs by (induction fs) auto
  obtain ok b' where r: "flush_kids A ?ks (cbb_base S) = Some (ok, b')" "grows (cbb_base S) b'"
    "if ok then \<exists>x. closed ?gs = Some x \<and> buffer_holds b' (?pre @ x)
     else bb_error b' \<and> (closed ?gs = None \<or> \<not> roomy A (cbb_base S) (length ?pre + bound ?gs))"
    using flush_kids_spec [OF h c(2), of A] by (auto split: option.splits)
  have flush: "CBB_flush A d S = Some (ok, \<lparr>cbb_base = b', cbb_kids = take d (cbb_kids S)\<rparr>)"
    using r(1) h d reps_kids [OF F] by (simp add: CBB_flush_def buffer_holds_def)
  show ?thesis
  proof (cases ok)
    case True
    then obtain x where x: "closed ?gs = Some x" "buffer_holds b' (?pre @ x)" using r(3) by auto
    let ?F' = "add_last x (fst F, ?fs)"
    have "reps \<lparr>cbb_base = b', cbb_kids = take d (cbb_kids S)\<rparr> ?F'"
      using x(2) add_last_bytes [of x "(fst F, ?fs)"] chain_add_last [of "(fst F, ?fs)" "take d (cbb_kids S)" x] c(1)
      by (simp add: reps_def)
    moreover have "weight ?F' \<le> weight F"
      unfolding add_last_measures using closed_length [OF x(1) c(2)] w by (simp add: weight_def)
    moreover have "depth ?F' = d" unfolding add_last_measures using d by (simp add: depth_def)
    ultimately show ?thesis using True flush r(2) x(1) by (simp add: outcome_def flushed_def)
  next
    case False
    have "closed ?gs = None \<or> \<not> roomy A (cbb_base S) (weight F)"
      using r(3) False roomy_grows [OF _ grows_refl] gb [of ?fs] w by auto
    then show ?thesis using False flush r by (auto simp: outcome_def flushed_def)
  qed
qed

lemma flush_locked: "locked S \<Longrightarrow> CBB_flush A d S = Some (False, S)"
  by (simp add: CBB_flush_def)

interpretation flush: builder_op "\<lambda>A. CBB_flush A d" d d "flushed d" 0 for d
  by unfold_locales (use flush_outcome flush_locked in auto)

lemma flushed_same: "depth F = d \<Longrightarrow> flushed d F = Some F"
  by (cases F) (simp add: flushed_def add_last_def depth_def append_butlast_last_id)

text \<open>Space is added and filled; \<open>fits\<close> tells whether the value fits the space.\<close>

lemma append_outcome:
  assumes F: "reps S F" and len: "unat len = length bs"
    and fill: "\<And>b pre junk. buffer_holds b (pre @ junk) \<Longrightarrow> length junk = length bs \<Longrightarrow> unat (bb_len (cbb_base S)) = length pre \<Longrightarrow>
      \<exists>b'. fill (bb_len (cbb_base S)) (S\<lparr>cbb_base := b\<rparr>) = Some (fits, if fits then S\<lparr>cbb_base := b'\<rparr> else cbb_on_error k (S\<lparr>cbb_base := b'\<rparr>)) \<and>
        grows b b' \<and> buffer_holds b' (pre @ bs)"
  shows "outcome A S F (depth F) (\<lambda>F. if fits then Some (add_last bs F) else None) (length bs)
    (case cbb_buffer_add A len (cbb_base S) of (ok, b) \<Rightarrow>
       if ok then fill (bb_len (cbb_base S)) (S\<lparr>cbb_base := b\<rparr>) else Some (False, S\<lparr>cbb_base := b\<rparr>))"
proof -
  let ?pre = "fst F @ gaps (snd F)"
  have h: "buffer_holds (cbb_base S) ?pre" "chain_ok (length (fst F)) (cbb_kids S) (snd F)" using F by (simp_all add: reps_def)
  obtain ok b where add: "cbb_buffer_add A len (cbb_base S) = (ok, b)" by fastforce
  note a = add_spec [OF h(1) add]
  have gb: "length (gaps fs) \<le> bound fs" for fs by (induction fs) auto
  show ?thesis
  proof (cases ok)
    case False
    have "\<not> roomy A (cbb_base S) (weight F + length bs)"
      using a(4) False roomy_grows [OF _ grows_refl] gb [of "snd F"] len by (auto simp: weight_def)
    then show ?thesis using False add a(1,3) by (simp add: outcome_def)
  next
    case True
    then obtain junk where j: "length junk = unat len" "buffer_holds b (?pre @ junk)" using a(2) by blast
    then obtain b' where b': "fill (bb_len (cbb_base S)) (S\<lparr>cbb_base := b\<rparr>) = Some (fits, if fits then S\<lparr>cbb_base := b'\<rparr> else cbb_on_error k (S\<lparr>cbb_base := b'\<rparr>))"
      "grows b b'" "buffer_holds b' (?pre @ bs)"
      using fill [OF j(2)] len buffer_holds_length [OF h(1)] by auto
    have "reps (S\<lparr>cbb_base := b'\<rparr>) (add_last bs F)"
      using b'(3) h(2) chain_add_last [of F "cbb_kids S" bs] add_last_bytes [of bs F] by (simp add: reps_def)
    then show ?thesis using True add b' grows_trans [OF a(1) b'(2)]
      by (auto simp: outcome_def cbb_on_error_def grows_def)
  qed
qed

lemma builder_append:
  assumes "unat len = length bs"
    and "\<And>S b pre junk. buffer_holds b (pre @ junk) \<Longrightarrow> length junk = length bs \<Longrightarrow> unat (bb_len (cbb_base S)) = length pre \<Longrightarrow>
      \<exists>b'. fill (bb_len (cbb_base S)) (S\<lparr>cbb_base := b\<rparr>) = Some (fits, if fits then S\<lparr>cbb_base := b'\<rparr> else cbb_on_error d (S\<lparr>cbb_base := b'\<rparr>)) \<and>
        grows b b' \<and> buffer_holds b' (pre @ bs)"
    and op: "\<And>A S. op A S = do { (out, S) \<leftarrow> CBB_add_space A len d S; (case out of None \<Rightarrow> Some (False, S) | Some off \<Rightarrow> fill off S) }"
  shows "builder_op op d d (\<lambda>F. Option.bind (flushed d F) (\<lambda>F. if fits then Some (add_last bs F) else None)) (length bs)"
proof -
  have eq: "op A S = and_then (CBB_flush A d S) (\<lambda>S. case cbb_buffer_add A len (cbb_base S) of (ok, b) \<Rightarrow>
      if ok then fill (bb_len (cbb_base S)) (S\<lparr>cbb_base := b\<rparr>) else Some (False, S\<lparr>cbb_base := b\<rparr>))" for A S
    unfolding op CBB_add_space_def
    by (auto simp: and_then_def Option.bind_eq_None_conv split: option.splits prod.splits)
  have "builder_op (\<lambda>A S. and_then (CBB_flush A d S) (\<lambda>S. case cbb_buffer_add A len (cbb_base S) of (ok, b) \<Rightarrow>
      if ok then fill (bb_len (cbb_base S)) (S\<lparr>cbb_base := b\<rparr>) else Some (False, S\<lparr>cbb_base := b\<rparr>)))
      d d (\<lambda>F. Option.bind (flushed d F) (\<lambda>F. if fits then Some (add_last bs F) else None)) (0 + length bs)"
  proof (rule builder_seq [OF flush.builder_op_axioms])
    fix A S F
    assume "reps S F" "depth F = d"
    with append_outcome [OF this(1) assms(1), of fill fits d A] assms(2) [of _ _ _ S]
    show "outcome A S F d (\<lambda>F. if fits then Some (add_last bs F) else None) (length bs)
      (case cbb_buffer_add A len (cbb_base S) of (ok, b) \<Rightarrow>
        if ok then fill (bb_len (cbb_base S)) (S\<lparr>cbb_base := b\<rparr>) else Some (False, S\<lparr>cbb_base := b\<rparr>))" by blast
  qed
  then show ?thesis by (simp only: eq [abs_def] add_0)
qed

text \<open>What the functions that add bytes mean on frames.\<close>

definition put :: "nat \<Rightarrow> u8 list \<Rightarrow> frames \<Rightarrow> frames option" where
  "put d bs F = map_option (add_last bs) (flushed d F)"

lemma put_alt: "put d bs = (\<lambda>F. Option.bind (flushed d F) (\<lambda>F. if True then Some (add_last bs F) else None))"
  by (rule ext) (simp add: put_def map_conv_bind_option o_def)

lemma fill_store:
  assumes "buffer_holds b (pre @ junk)" "length junk = length bs"
  obtains b' where "buf_store (length pre) bs b = Some b'" "grows b b'" "buffer_holds b' (pre @ bs)"
  by (rule store_spec [OF assms(1), of "length pre" bs]) (use assms(2) in auto)

lemma builder_add_bytes: "length data < 2 ^ 64 \<Longrightarrow> builder_op (\<lambda>A. CBB_add_bytes A data d) d d (put d data) (length data)"
  unfolding put_alt
proof (rule builder_append [where len = "of_nat (length data)" and fits = True and
      fill = "\<lambda>off S. do { b \<leftarrow> buf_store (unat off) data (cbb_base S); Some (True, S\<lparr>cbb_base := b\<rparr>) }"], goal_cases)
  case 1
  then show ?case by (simp add: unat_of_nat take_bit_nat_eq_self_iff)
next
  case (2 S b pre junk)
  obtain b' where "buf_store (length pre) data b = Some b'" "grows b b'" "buffer_holds b' (pre @ data)"
    by (rule fill_store [OF 2(2,3)])
  then show ?case using 2(4) by (auto intro!: exI [of _ b'])
next
  case (3 A S)
  then show ?case by (simp add: CBB_add_bytes_def)
qed

interpretation zeros: builder_op "\<lambda>A. CBB_add_zeros A len d" d d "put d (replicate (unat len) 0)" "unat len" for len d
proof -
  have "builder_op (\<lambda>A. CBB_add_zeros A len d) d d (put d (replicate (unat len) 0)) (length (replicate (unat len) (0 :: u8)))"
    unfolding put_alt
  proof (rule builder_append [where len = len and fits = True and
        fill = "\<lambda>off S. do { b \<leftarrow> buf_store (unat off) (replicate (unat len) 0) (cbb_base S); Some (True, S\<lparr>cbb_base := b\<rparr>) }"], goal_cases)
    case (2 S b pre junk)
    obtain b' where "buf_store (length pre) (replicate (unat len) 0) b = Some b'" "grows b b'"
      "buffer_holds b' (pre @ replicate (unat len) 0)"
      by (rule fill_store [OF 2(1,2)])
    then show ?case using 2(3) by (auto intro!: exI [of _ b'])
  qed (simp_all add: CBB_add_zeros_def)
  then show "builder_op (\<lambda>A. CBB_add_zeros A len d) d d (put d (replicate (unat len) 0)) (unat len)" by simp
qed

definition put_number :: "nat \<Rightarrow> nat \<Rightarrow> nat \<Rightarrow> frames \<Rightarrow> frames option" where
  "put_number n v d F = (if v < 256 ^ n then put d (be_fixed n v) F else None)"

lemma builder_add_u: "builder_op (\<lambda>A. cbb_add_u A v len d) d d (put_number (unat len) (unat v) d) (unat len)"
proof -
  have "builder_op (\<lambda>A. cbb_add_u A v len d) d d
      (\<lambda>F. Option.bind (flushed d F) (\<lambda>F. if unat v < 256 ^ unat len then Some (add_last (be_fixed (unat len) (unat v)) F) else None))
      (length (be_fixed (unat len) (unat v)))"
  proof (rule builder_append [where len = len and fill = "\<lambda>off S. do {
          (v, b) \<leftarrow> put_be_loop (unat off) (unat len) v (cbb_base S);
          (let S = S\<lparr>cbb_base := b\<rparr> in if v \<noteq> 0 then Some (False, cbb_on_error d S) else Some (True, S)) }"], goal_cases)
    case (2 S b pre junk)
    have "length pre + unat len \<le> length (pre @ junk)" using 2(2) by simp
    from put_be_spec [OF 2(1) this, of v] obtain b' where
      "put_be_loop (length pre) (unat len) v b = Some (drop_bit (8 * unat len) v, b')" "grows b b'"
      "buffer_holds b' (pre @ be_fixed (unat len) (unat v))" using 2(2) by auto
    moreover note drop_bit_8_0 [of "unat len" v]
    ultimately show ?case using 2(3) by (auto intro!: exI [of _ b'])
  qed (simp_all add: cbb_add_u_def Let_def)
  moreover have "put_number (unat len) (unat v) d = (\<lambda>F. Option.bind (flushed d F)
      (\<lambda>F. if unat v < 256 ^ unat len then Some (add_last (be_fixed (unat len) (unat v)) F) else None))"
    by (rule ext) (simp add: put_number_def put_def map_conv_bind_option o_def)
  ultimately show ?thesis by simp
qed

section \<open>Children\<close>

lemma add_last_add_last: "add_last b (add_last a F) = add_last (a @ b) F"
  by (cases "snd F" rule: rev_cases) (auto simp: add_last_def)

lemma flushed_depth: "flushed d F = Some F' \<Longrightarrow> d \<le> depth F \<Longrightarrow> depth F' = d"
proof -
  assume "flushed d F = Some F'" "d \<le> depth F"
  then obtain x where "F' = add_last x (fst F, take d (snd F))" by (auto simp: flushed_def)
  then show ?thesis using \<open>d \<le> depth F\<close> by (simp only: add_last_measures) (simp add: depth_def)
qed

lemma put_depth: "put d bs F = Some F' \<Longrightarrow> d \<le> depth F \<Longrightarrow> depth F' = d"
  by (auto simp: put_def dest: flushed_depth)

lemma put_at: "depth F = d \<Longrightarrow> put d bs F = Some (add_last bs F)"
  by (simp add: put_def flushed_same)

lemma put_put: "d \<le> depth F \<Longrightarrow> Option.bind (put d a F) (put d b) = put d (a @ b) F"
proof (cases "flushed d F")
  case (Some G)
  moreover assume "d \<le> depth F"
  ultimately have "depth G = d" by (rule flushed_depth)
  then show ?thesis using Some put_at [of "add_last a G" d b] by (simp add: put_def add_last_add_last)
qed (simp add: put_def)

definition push :: "u8 \<times> bool \<Rightarrow> frames \<Rightarrow> frames" where
  "push k F = (fst F, snd F @ [(k, [])])"

lemma child_outcome:
  assumes F: "reps S F" and k: "snd k \<longrightarrow> fst k = 1"
  shows "outcome A S F (Suc (depth F)) (\<lambda>F. Some (push k F)) (unat (fst k) + 4) (cbb_add_child A (fst k) (snd k) (depth F) S)"
proof -
  let ?pre = "fst F @ gaps (snd F)" and ?zeros = "replicate (unat (fst k)) (0 :: u8)"
  have h: "buffer_holds (cbb_base S) ?pre" "chain_ok (length (fst F)) (cbb_kids S) (snd F)" using F by (simp_all add: reps_def)
  have off: "unat (bb_len (cbb_base S)) = length ?pre" by (rule buffer_holds_length [OF h(1)])
  obtain ok b where add: "cbb_buffer_add A (ucast (fst k)) (cbb_base S) = (ok, b)" by fastforce
  note a = add_spec [OF h(1) add]
  have gb: "length (gaps fs) \<le> bound fs" for fs by (induction fs) auto
  show ?thesis
  proof (cases ok)
    case False
    have "\<not> roomy A (cbb_base S) (weight F + (unat (fst k) + 4))"
      using a(4) False roomy_grows [OF _ grows_refl] gb [of "snd F"] by (auto simp: weight_def unat_ucast_u8)
    then show ?thesis using False add a(1,3) by (simp add: outcome_def cbb_add_child_def Let_def)
  next
    case True
    then obtain junk where j: "length junk = length ?zeros" "buffer_holds b (?pre @ junk)"
      using a(2) by (auto simp: unat_ucast_u8)
    obtain b' where b': "buf_store (length ?pre) ?zeros b = Some b'" "grows b b'" "buffer_holds b' (?pre @ ?zeros)"
      by (rule fill_store [OF j(2,1)])
    have kids: "take (depth F) (cbb_kids S) = cbb_kids S" using reps_kids [OF F] by simp
    have "chain_ok (length (fst F))
        (cbb_kids S @ [\<lparr>ch_offset = bb_len (cbb_base S), pending_len_len = fst k, pending_is_asn1 = snd k\<rparr>]) (snd F @ [(k, [])])"
      using h(2) off k chain_ok_length [OF h(2)] by (simp add: chain_ok_append kind_of_def)
    then have "reps \<lparr>cbb_base = b', cbb_kids = cbb_kids S @
        [\<lparr>ch_offset = bb_len (cbb_base S), pending_len_len = fst k, pending_is_asn1 = snd k\<rparr>]\<rparr> (push k F)"
      using b'(3) by (simp add: reps_def push_def)
    then show ?thesis
      using True add b'(1) off kids grows_trans [OF a(1) b'(2)]
      by (simp add: outcome_def cbb_add_child_def Let_def depth_def push_def weight_def)
  qed
qed

definition open_child :: "u8 \<times> bool \<Rightarrow> nat \<Rightarrow> u8 list \<Rightarrow> frames \<Rightarrow> frames option" where
  "open_child k d bs F = map_option (push k) (put d bs F)"

lemma put_Nil: "put d [] = flushed d"
  by (rule ext) (auto simp: put_def flushed_def add_last_add_last map_option_case split: option.splits)

interpretation length_prefixed: builder_op "\<lambda>A. cbb_add_length_prefixed A n d" d "Suc d" "open_child (n, False) d []" "unat n + 4" for n d
proof -
  have "builder_op (\<lambda>A S. and_then (CBB_flush A d S) (cbb_add_child A n False d)) d (Suc d)
      (\<lambda>F. Option.bind (flushed d F) (\<lambda>F. Some (push (n, False) F))) (0 + (unat n + 4))"
    by (rule builder_seq [OF flush.builder_op_axioms]) (use child_outcome [of _ _ "(n, False)"] in auto)
  moreover have "open_child (n, False) d [] = (\<lambda>F. Option.bind (flushed d F) (\<lambda>F. Some (push (n, False) F)))"
    by (rule ext) (simp add: open_child_def put_Nil map_conv_bind_option o_def)
  ultimately show "builder_op (\<lambda>A. cbb_add_length_prefixed A n d) d (Suc d) (open_child (n, False) d []) (unat n + 4)"
    by (simp add: cbb_add_length_prefixed_def [abs_def])
qed

interpretation u8_out: builder_op "\<lambda>A. CBB_add_u8 A v d" d d "put d [v]" 1 for v d
proof -
  have "put_number 1 (unat (ucast v :: u64)) d = put d [v]"
    using unat_u8_lt [of v] by (intro ext) (simp add: put_number_def unat_ucast_u8)
  then show "builder_op (\<lambda>A. CBB_add_u8 A v d) d d (put d [v]) 1"
    using builder_add_u [of "ucast v" 1 d] by (simp add: CBB_add_u8_def [abs_def])
qed

section \<open>Base 128 and identifiers\<close>

lemma ucast_of_unat: "ucast (w :: 'a::len word) = (of_nat (unat w) :: 'b::len word)"
  by (simp add: word_unat_eq_iff unat_of_nat unsigned_ucast_eq)

lemma base128_octet: "ucast (drop_bit (7 * i) v AND 0x7F :: u64) = (of_nat (unat v div 128 ^ i mod 128) :: u8)"
proof -
  have "(0x7F :: u64) = mask 7" by (simp add: mask_eq_exp_minus_1)
  then have "drop_bit (7 * i) v AND 0x7F = take_bit 7 (drop_bit (7 * i) v)" by (simp only: take_bit_eq_mask)
  then have "unat (drop_bit (7 * i) v AND 0x7F) = unat v div 128 ^ i mod 128"
    by (simp add: unsigned_take_bit_eq unat_drop_bit_eq drop_bit_nat_def take_bit_nat_def power_mult)
  then show ?thesis by (metis ucast_of_unat)
qed

lemma set_high: "n < 128 \<Longrightarrow> (of_nat n :: u8) OR 0x80 = of_nat (128 + n)"
proof -
  assume "n < 128"
  moreover have "unat x < 128 \<longrightarrow> x OR 0x80 = of_nat (128 + unat x)" for x :: u8 by (rule all_u8D) code_simp
  ultimately show ?thesis by (simp add: unat_byte del: of_nat_add)
qed

definition base128_bytes :: "u64 \<Rightarrow> nat \<Rightarrow> u8 list" where
  "base128_bytes v n = rev (map (\<lambda>i. of_nat ((if i = 0 then 0 else 128) + unat v div 128 ^ i mod 128)) [0..<n])"

lemma base128_bytes_Suc:
  "base128_bytes v (Suc i) = of_nat ((if i = 0 then 0 else 128) + unat v div 128 ^ i mod 128) # base128_bytes v i"
  by (simp add: base128_bytes_def)

lemma base128_put_outcome:
  "reps S F \<Longrightarrow> depth F = d \<Longrightarrow> outcome A S F d (put d (base128_bytes v n)) n (base128_put A v n d S)"
proof (induction n arbitrary: S F)
  case 0
  then show ?case by (simp add: outcome_def put_Nil flushed_same base128_bytes_def)
next
  case (Suc n)
  let ?b = "of_nat ((if n = 0 then 0 else 128) + unat v div 128 ^ n mod 128) :: u8"
  have o: "outcome A S F d (\<lambda>F. Option.bind (put d [?b] F) (put d (base128_bytes v n))) (1 + n)
      (and_then (CBB_add_u8 A ?b d S) (base128_put A v n d))"
    by (rule outcome_seq [OF u8_out.step]) (use Suc in auto)
  have e1: "base128_put A v (Suc n) d S = and_then (CBB_add_u8 A ?b d S) (base128_put A v n d)"
    using set_high [of "unat v div 128 ^ n mod 128"] by (simp add: base128_octet Let_def)
  have e2: "Option.bind (put d [?b] F) (put d (base128_bytes v n)) = put d (base128_bytes v (Suc n)) F"
    using put_put [of d F] Suc.prems(2) by (simp add: base128_bytes_Suc)
  from o show ?case by (rule outcome_cong) (simp_all only: e1 e2 plus_1_eq_Suc)
qed

fun digits128 :: "nat \<Rightarrow> nat" where
  "digits128 n = (if n = 0 then 0 else Suc (digits128 (n div 128)))"

declare digits128.simps [simp del]

lemma base128_len_digits: "base128_len v = digits128 (unat v)"
proof (induction v rule: base128_len.induct)
  case (1 v)
  have "unat (drop_bit 7 v) = unat v div 128" by (simp add: unat_drop_bit_eq drop_bit_nat_def)
  then show ?case using 1 by (subst base128_len.simps, subst digits128.simps) (simp add: unat_eq_0)
qed

lemma b128_hi_digits: "b128_hi n = rev (map (\<lambda>i. of_nat (128 + n div 128 ^ i mod 128)) [0..<digits128 n])"
proof (induction n rule: digits128.induct)
  case (1 n)
  show ?case
  proof (cases "n = 0")
    case False
    have "map (\<lambda>i. of_nat (128 + n div 128 ^ i mod 128) :: u8) [0..<Suc (digits128 (n div 128))] =
        of_nat (128 + n mod 128) # map (\<lambda>i. of_nat (128 + n div 128 div 128 ^ i mod 128)) [0..<digits128 (n div 128)]"
      by (subst upt_conv_Cons) (simp_all add: map_Suc_upt [symmetric] div_mult2_eq del: upt_Suc of_nat_add)
    then show ?thesis
      using 1 False by (subst b128_hi.simps, subst digits128.simps) (simp del: upt_Suc of_nat_add)
  qed (simp add: digits128.simps)
qed

lemma base128_bytes_b128: "base128_bytes v (if base128_len v = 0 then 1 else base128_len v) = b128 (unat v)"
proof -
  have "map (\<lambda>i. of_nat ((if i = 0 then 0 else 128) + unat v div 128 ^ i mod 128) :: u8) [0..<Suc k] =
      of_nat (unat v mod 128) # map (\<lambda>i. of_nat (128 + unat v div 128 div 128 ^ i mod 128)) [0..<k]" for k
    by (subst upt_conv_Cons) (simp_all add: map_Suc_upt [symmetric] div_mult2_eq del: upt_Suc of_nat_add)
  then have "base128_bytes v (Suc (digits128 (unat v div 128))) = b128 (unat v)"
    by (simp add: base128_bytes_def b128_def b128_hi_digits del: upt_Suc of_nat_add)
  moreover have "(if base128_len v = 0 then 1 else base128_len v) = Suc (digits128 (unat v div 128))"
    unfolding base128_len_digits by (subst (1 2) digits128.simps) (simp add: digits128.simps [of 0])
  ultimately show ?thesis by simp
qed

lemma base128_outcome:
  assumes "reps S F" "depth F = d"
  shows "outcome A S F d (put d (b128 (unat v))) (length (b128 (unat v))) (add_base128_integer A v d S)"
proof -
  have "length (base128_bytes v n) = n" for n by (simp add: base128_bytes_def)
  then show ?thesis
    using base128_put_outcome [OF assms, of A v "if base128_len v = 0 then 1 else base128_len v"]
    by (metis add_base128_integer_def base128_bytes_b128)
qed

lemma open_child_step:
  "(snd k \<longrightarrow> fst k = 1) \<Longrightarrow> reps S F \<Longrightarrow> depth F = d \<Longrightarrow>
     outcome A S F (Suc d) (\<lambda>F. Some (push k F)) (unat (fst k) + 4) (cbb_add_child A (fst k) (snd k) d S)"
  using child_outcome by blast

text \<open>The identifier octets and the child that collects the content.\<close>

interpretation add_asn1: builder_op "\<lambda>A. CBB_add_asn1 A tag d" d "Suc d" "open_child (1, True) d (ident tag)" "length (ident tag) + 5" for tag d
proof -
  let ?bits = "ucast (drop_bit 24 tag) AND 0xE0 :: u8" and ?num = "tag AND CBS_ASN1_TAG_NUMBER_MASK"
  let ?id = "\<lambda>A S. if 0x1F \<le> ?num then and_then (CBB_add_u8 A (?bits OR 0x1F) d S) (add_base128_integer A (ucast ?num) d)
      else CBB_add_u8 A (?bits OR ucast ?num) d S"
  have num: "unat ?num = tag_number tag" by (simp add: tag_number_def)
  have high: "0x1F \<le> ?num \<longleftrightarrow> \<not> tag_number tag < 31" by (simp add: word_le_nat_alt num not_less)
  have n64: "unat (ucast ?num :: u64) = tag_number tag" using num tag_number_bound [of tag]
    by (simp add: unsigned_ucast_eq take_bit_nat_eq_self_iff)
  have n8: "ucast ?num = (of_nat (tag_number tag) :: u8)" by (simp only: ucast_of_unat num)
  have id: "outcome A S F d (put d (ident tag)) (length (ident tag)) (?id A S)" if "reps S F" "depth F = d" for A S F
  proof (cases "tag_number tag < 31")
    case True
    then show ?thesis using u8_out.step [OF that(1), of d A] that(2) high n8 by (simp add: ident_def tag_class_def)
  next
    case False
    have o: "outcome A S F d (\<lambda>F. Option.bind (put d [?bits OR 0x1F] F) (put d (b128 (tag_number tag)))) (1 + length (b128 (tag_number tag)))
        (and_then (CBB_add_u8 A (?bits OR 0x1F) d S) (add_base128_integer A (ucast ?num) d))"
      by (rule outcome_seq [OF u8_out.step]) (use that base128_outcome [of _ _ d A "ucast ?num"] n64 in auto)
    have "Option.bind (put d [?bits OR 0x1F] F) (put d (b128 (tag_number tag))) = put d (ident tag) F"
      using put_put [of d F] that(2) False by (simp add: ident_def tag_class_def)
    note eq = this
    from o show ?thesis by (rule outcome_cong) (use eq False high in \<open>simp_all add: ident_def tag_class_def\<close>)
  qed
  have "outcome A S F (Suc d) (\<lambda>F. Option.bind (put d (ident tag) F) (\<lambda>F. Some (push (1, True) F))) (length (ident tag) + 5)
      (and_then (?id A S) (cbb_add_child A 1 True d))" if "reps S F" "depth F = d" for A S F
    by (rule outcome_seq [OF id [OF that]]) (use open_child_step [of "(1, True)"] in auto)
  then have o: "builder_op (\<lambda>A S. and_then (CBB_flush A d S) (\<lambda>S. and_then (?id A S) (cbb_add_child A 1 True d))) d (Suc d)
      (\<lambda>F. Option.bind (flushed d F) (\<lambda>F. Option.bind (put d (ident tag) F) (\<lambda>F. Some (push (1, True) F)))) (0 + (length (ident tag) + 5))"
    by (rule builder_seq [OF flush.builder_op_axioms])
  have e: "Option.bind (flushed d F) (\<lambda>F. Option.bind (put d (ident tag) F) (\<lambda>F. Some (push (1, True) F))) = open_child (1, True) d (ident tag) F"
    if "d \<le> depth F" for F
    using put_put [OF that, of "[]" "ident tag"] by (simp add: put_Nil open_child_def map_conv_bind_option o_def flip: Option.bind_assoc)
  show "builder_op (\<lambda>A. CBB_add_asn1 A tag d) d (Suc d) (open_child (1, True) d (ident tag)) (length (ident tag) + 5)"
    by (rule builder_op_cong [OF o _ e]) (simp_all add: CBB_add_asn1_def Let_def)
qed

section \<open>Whole elements\<close>

text \<open>An element with the given content appended at depth \<open>d\<close>.\<close>

definition element :: "nat \<Rightarrow> u32 \<Rightarrow> u8 list \<Rightarrow> frames \<Rightarrow> frames option" where
  "element d tag content F = (if length content \<le> 0xFFFFFFFE then put d (der tag content) F else None)"

lemma add_last_push: "add_last c (push k H) = (fst H, snd H @ [(k, c)])"
  by (simp add: add_last_def push_def)

lemma closing_child:
  assumes "d \<le> depth F"
  shows "Option.bind (Option.bind (open_child (1, True) d (ident tag) F) (put (Suc d) c)) (flushed d) = element d tag c F"
proof (cases "flushed d F")
  case (Some G)
  let ?H = "add_last (ident tag) G"
  have G: "depth G = d" using flushed_depth [OF Some assms] .
  then have H: "length (snd ?H) = d" using add_last_measures(1) [of "ident tag" G] by (simp add: depth_def)
  have "put (Suc d) c (push (1, True) ?H) = Some (fst ?H, snd ?H @ [((1, True), c)])"
    using H put_at [of "push (1, True) ?H" "Suc d" c] by (simp add: add_last_push) (simp add: push_def depth_def)
  moreover have "flushed d (fst ?H, snd ?H @ [((1, True), c)]) =
      map_option (\<lambda>p. add_last (p @ c) ?H) (prefix_of (1, True) (length c))"
    using H by (cases "prefix_of (1, True) (length c)") (simp_all add: flushed_def)
  moreover have "put d (ident tag) F = Some ?H" "put d (der tag c) F = Some (add_last (der_len (length c) @ c) ?H)"
    using Some by (simp_all add: put_def der_def add_last_add_last)
  ultimately show ?thesis by (simp add: open_child_def element_def prefix_of_def)
qed (simp add: open_child_def put_def element_def)

lemma builder_element:
  assumes "\<And>A S F. reps S F \<Longrightarrow> depth F = Suc d \<Longrightarrow> outcome A S F (Suc d) (put (Suc d) c) n (k A S)"
    and "\<And>A S. op A S = or_error d (and_then (CBB_add_asn1 A tag d S) (\<lambda>S. and_then (k A S) (CBB_flush A d))) \<or>
      op A S = and_then (or_error d (and_then (CBB_add_asn1 A tag d S) (k A))) (CBB_flush A d)"
  shows "builder_op op d d (element d tag c) (length (ident tag) + 5 + n)"
proof -
  have body: "builder_op (\<lambda>A S. and_then (CBB_add_asn1 A tag d S) (k A)) d (Suc d)
      (\<lambda>F. Option.bind (open_child (1, True) d (ident tag) F) (put (Suc d) c)) (length (ident tag) + 5 + n)"
    by (rule builder_seq [OF add_asn1.builder_op_axioms assms(1)])
  have close: "outcome A S F d (flushed d) 0 (CBB_flush A d S)" if "reps S F" "depth F = Suc d" for A S F
    using flush_outcome that by simp
  have one: "builder_op (\<lambda>A S. or_error d (and_then (and_then (CBB_add_asn1 A tag d S) (k A)) (CBB_flush A d))) d d
      (\<lambda>F. Option.bind (Option.bind (open_child (1, True) d (ident tag) F) (put (Suc d) c)) (flushed d)) (length (ident tag) + 5 + n + 0)"
    by (rule builder_or_error [OF builder_seq [OF body close]])
  have two: "builder_op (\<lambda>A S. and_then (or_error d (and_then (CBB_add_asn1 A tag d S) (k A))) (CBB_flush A d)) d d
      (\<lambda>F. Option.bind (Option.bind (open_child (1, True) d (ident tag) F) (put (Suc d) c)) (flushed d)) (length (ident tag) + 5 + n + 0)"
    by (rule builder_seq [OF builder_or_error [OF body] close])
  have assoc: "and_then r (\<lambda>S. and_then (f S) g) = and_then (and_then r f) g" for r and f g :: "CBB \<Rightarrow> cbb_result"
    by (auto simp: and_then_def split: option.splits)
  note one = builder_op_cong [OF one refl closing_child refl] and two = builder_op_cong [OF two refl closing_child refl]
  show ?thesis
  proof
    fix S F A
    assume "reps S F" "d \<le> depth F"
    from builder_op.step [OF one this, of A] builder_op.step [OF two this, of A] assms(2) [of A S]
    show "outcome A S F d (element d tag c) (length (ident tag) + 5 + n) (op A S)" by (auto simp: assoc)
  next
    fix S A
    assume "locked S"
    from assms(2) [of A S] builder_op.sticky [OF one this, of A] builder_op.sticky [OF two this, of A]
    show "\<exists>S'. op A S = Some (False, S') \<and> cbb_base S' = cbb_base S" by (auto simp: assoc)
  qed
qed

lemma builder_octet_string:
  assumes "length data < 2 ^ 64"
  shows "builder_op (\<lambda>A. CBB_add_asn1_octet_string A data d) d d (element d CBS_ASN1_OCTETSTRING data)
    (length (ident CBS_ASN1_OCTETSTRING) + 5 + length data)"
  by (rule builder_element [where k = "\<lambda>A. CBB_add_bytes A data (Suc d)"])
    (use builder_op.step [OF builder_add_bytes [OF assms], of _ _ "Suc d"] in \<open>auto simp: CBB_add_asn1_octet_string_def\<close>)

interpretation bool_out: builder_op "\<lambda>A. CBB_add_asn1_bool A v d" d d
    "element d CBS_ASN1_BOOLEAN [if v then 0xFF else 0]" "length (ident CBS_ASN1_BOOLEAN) + 5 + 1" for v d
  by (rule builder_element [where k = "\<lambda>A. CBB_add_u8 A (if v then 0xFF else 0) (Suc d)"])
    (use u8_out.step in \<open>auto simp: CBB_add_asn1_bool_def\<close>)

text \<open>The loop over the octets of an unsigned integer.\<close>

lemma be_fixed_Cons: "be_fixed (Suc i) n = of_nat (n div 256 ^ i mod 256) # be_fixed i n"
proof (induction i arbitrary: n)
  case (Suc i)
  then show ?case by (simp add: div_mult2_eq)
qed simp

lemma be_fixed_mod: "be_fixed i (n mod 256 ^ i) = be_fixed i n"
  by (metis be_fixed_be_nat be_nat_be_fixed length_be_fixed)

primrec uint64_bytes :: "nat \<Rightarrow> nat \<Rightarrow> bool \<Rightarrow> u8 list" where
  "uint64_bytes v 0 started = (if started then [] else [0])"
| "uint64_bytes v (Suc i) started =
     (let b = v div 256 ^ i mod 256 in
      if started then of_nat b # uint64_bytes v i True
      else if b = 0 then uint64_bytes v i False
      else (if 128 \<le> b then [0] else []) @ of_nat b # uint64_bytes v i True)"

lemma uint64_bytes_started: "uint64_bytes v i True = be_fixed i v"
  by (induction i) (simp_all only: uint64_bytes.simps be_fixed_Cons be_fixed.simps(1) Let_def if_True)

lemma uint64_bytes_content: "uint64_bytes v i False = uint_content (v mod 256 ^ i)"
proof (induction i)
  case (Suc i)
  let ?b = "v div 256 ^ i mod 256"
  have m: "v mod 256 ^ Suc i = ?b * 256 ^ i + v mod 256 ^ i"
    using mod_mult2_eq [of v "256 ^ i" 256] by (simp add: mult.commute)
  show ?case
  proof (cases "?b = 0")
    case True
    then show ?thesis using Suc m by (simp add: Let_def)
  next
    case False
    have ge: "256 ^ i \<le> v mod 256 ^ Suc i" unfolding m using False by (simp add: trans_le_add1)
    have lt: "v mod 256 ^ Suc i < 256 ^ Suc i" by simp
    have be: "be_bytes (v mod 256 ^ Suc i) = of_nat ?b # be_fixed i v"
      using be_bytes_fixed [OF ge lt] be_fixed_mod [of "Suc i" v] by (simp only: be_fixed_Cons)
    have "unat (of_nat ?b :: u8) = ?b" by (rule unat_byte) simp
    moreover have "v mod 256 ^ Suc i \<noteq> 0" using ge by (metis le_zero_eq power_not_zero zero_neq_numeral)
    ultimately show ?thesis
      using False be by (simp add: uint_content_def uint64_bytes_started Let_def)
  qed
qed (simp add: uint_content_def)

lemma uint64_octet: "(ucast (drop_bit (8 * i) v AND 0xFF :: u64) :: u8) = of_nat (unat v div 256 ^ i mod 256)"
proof -
  have "(0xFF :: u64) = mask 8" by (simp add: mask_eq_exp_minus_1)
  then have "drop_bit (8 * i) v AND 0xFF = take_bit 8 (drop_bit (8 * i) v)" by (simp only: take_bit_eq_mask)
  then have "unat (drop_bit (8 * i) v AND 0xFF) = unat v div 256 ^ i mod 256"
    by (simp add: unsigned_take_bit_eq unat_drop_bit_eq drop_bit_nat_def take_bit_nat_def power_mult)
  then show ?thesis by (simp only: ucast_of_unat)
qed

lemma uint64_put_outcome:
  "reps S F \<Longrightarrow> depth F = d \<Longrightarrow>
     outcome A S F d (put d (uint64_bytes (unat v) i started)) (length (uint64_bytes (unat v) i started)) (uint64_put A v i started d S)"
proof (induction i arbitrary: S F started)
  case 0
  show ?case
  proof (cases started)
    case True
    then show ?thesis using 0 by (simp add: outcome_def put_Nil flushed_same)
  next
    case False
    have "outcome A S F d (put d [0]) 1 (CBB_add_u8 A 0 d S)" using u8_out.step 0 by simp
    then show ?thesis by (rule outcome_cong) (simp_all add: False)
  qed
next
  case (Suc i)
  let ?b = "unat v div 256 ^ i mod 256"
  let ?rest = "uint64_bytes (unat v) i True"
  have b: "unat (of_nat ?b :: u8) = ?b" by (rule unat_byte) simp
  have z: "(of_nat ?b :: u8) = 0 \<longleftrightarrow> ?b = 0" using b by (metis unat_eq_0)
  have hb: "(of_nat ?b :: u8) AND 0x80 \<noteq> 0 \<longleftrightarrow> 128 \<le> ?b" using high_bit_iff [of "of_nat ?b"] b by simp
  have tail: "outcome A S F d (put d (of_nat ?b # ?rest)) (1 + length ?rest) (and_then (CBB_add_u8 A (of_nat ?b) d S) (uint64_put A v i True d))"
    if "reps S F" "depth F = d" for S F
  proof -
    have o: "outcome A S F d (\<lambda>F. Option.bind (put d [of_nat ?b] F) (put d ?rest)) (1 + length ?rest)
        (and_then (CBB_add_u8 A (of_nat ?b) d S) (uint64_put A v i True d))"
      by (rule outcome_seq [OF u8_out.step]) (use that Suc.IH in auto)
    show ?thesis by (rule outcome_cong [OF o]) (use put_put [of d F] that in auto)
  qed
  consider (st) started | (skip) "\<not> started" "?b = 0" | (low) "\<not> started" "?b \<noteq> 0" "\<not> 128 \<le> ?b" | (high) "\<not> started" "128 \<le> ?b"
    by fastforce
  then show ?case
  proof cases
    case st
    then show ?thesis using tail [OF Suc.prems] by (simp add: uint64_octet Let_def)
  next
    case skip
    then show ?thesis using Suc.IH [OF Suc.prems, of False] z by (simp add: uint64_octet Let_def)
  next
    case low
    then show ?thesis using tail [OF Suc.prems] z hb by (simp add: uint64_octet Let_def)
  next
    case high
    have o: "outcome A S F d (\<lambda>F. Option.bind (put d [0] F) (put d (of_nat ?b # ?rest))) (1 + (1 + length ?rest))
        (and_then (CBB_add_u8 A 0 d S) (\<lambda>S. and_then (CBB_add_u8 A (of_nat ?b) d S) (uint64_put A v i True d)))"
      by (rule outcome_seq [OF u8_out.step]) (use Suc.prems tail in auto)
    have e: "Option.bind (put d [0] F) (put d (of_nat ?b # ?rest)) = put d (uint64_bytes (unat v) (Suc i) started) F"
      using put_put [of d F "[0]"] Suc.prems(2) high by (simp add: Let_def)
    from o show ?thesis
      by (rule outcome_cong) (use e high z hb in \<open>simp_all add: uint64_octet Let_def\<close>)
  qed
qed

interpretation uint64_out: builder_op "\<lambda>A. CBB_add_asn1_uint64_with_tag A v tag d" d d
    "element d tag (uint_content (unat v))" "length (ident tag) + 5 + length (uint_content (unat v))" for v tag d
proof (rule builder_element [where k = "\<lambda>A. uint64_put A v 8 False (Suc d)"], goal_cases)
  case (1 A S F)
  have "uint64_bytes (unat v) 8 False = uint_content (unat v)"
    using uint64_bytes_content [of "unat v" 8] unat_u64_lt [of v] by simp
  then show ?case using uint64_put_outcome [OF 1, of A v 8 False] by simp
next
  case (2 A S)
  show ?case by (rule disjI2) (auto simp: CBB_add_asn1_uint64_with_tag_def and_then_def split: option.splits prod.splits)
qed

end
