(* ===== verification/Boring_CBS_Theorems.thy ===== *)
theory Boring_CBS_Theorems
  imports Boring_DER_Correct
begin

text \<open>
  What the byte string reader promises its callers: on every window of mapped memory each function
  returns without reading outside the window, and it succeeds exactly on the encodings of the format
  it parses.
\<close>

context byte_reader
begin

text \<open>A reader whose parse function is characterised by \<open>P\<close> accepts exactly \<open>P\<close>.\<close>

lemma exact:
  assumes "cbs_holds m c bs" "\<And>w rest. spec bs = Some (w, rest) \<longleftrightarrow> P w rest"
  shows "case op m c of None \<Rightarrow> False
    | Some (None, c') \<Rightarrow> inside c' c \<and> (\<nexists>w rest. P w rest)
    | Some (Some v, c') \<Rightarrow> inside c' c \<and> (\<exists>w rest. P w rest \<and> R m c v w \<and> cbs_holds m c' rest)"
proof (cases "spec bs")
  case None
  then obtain c' where "op m c = Some (None, c')" "inside c' c" by (rule failure [OF assms(1)])
  moreover have "\<nexists>w rest. P w rest" using None assms(2) by auto
  ultimately show ?thesis by simp
next
  case (Some p)
  then obtain w rest where s: "spec bs = Some (w, rest)" by (cases p) auto
  obtain v where v: "op m c = Some (Some v, cbs_drop (length bs - length rest) c)" "R m c v w"
    "cbs_holds m (cbs_drop (length bs - length rest) c) rest"
    using success [OF assms(1) s] by metis
  moreover obtain r c' where "op m c = Some (r, c')" "inside c' c" by (rule defined [OF assms(1)])
  moreover have "P w rest" using s assms(2) by blast
  ultimately show ?thesis by auto
qed

end

text \<open>C14: On every window of mapped memory \<open>CBS_get_asn1\<close> returns and stays inside the window; it
  succeeds exactly when the window starts with the DER encoding of an element with the tag it is asked
  for (and a content shorter than 2^32 bytes), and then hands out the content and leaves the reader
  behind the element.\<close>

theorem CBS_get_asn1_exact:
  assumes "cbs_holds m c bs"
  shows "case CBS_get_asn1 m tag c of None \<Rightarrow> False
    | Some (None, c') \<Rightarrow> inside c' c \<and>
        (\<nexists>content rest. valid_tag tag \<and> length content < 2 ^ 32 \<and> bs = der tag content @ rest)
    | Some (Some out, c') \<Rightarrow> inside c' c \<and>
        (\<exists>content rest. (valid_tag tag \<and> length content < 2 ^ 32 \<and> bs = der tag content @ rest) \<and>
           window m c out content \<and> cbs_holds m c' rest)"
  by (rule CBS_get_asn1.exact [OF assms asn1_parse_iff])

text \<open>A DER INTEGER 5 with a byte behind it.\<close>

definition der_mem :: mem where
  "der_mem = put_bytes Map.empty 64 [0x02, 0x01, 0x05, 0x09]"

lemma der_mem_holds: "cbs_holds der_mem (CBS_init 64 4) [0x02, 0x01, 0x05, 0x09]"
  by code_simp

theorem CBS_get_asn1_exact_witness:
  "\<exists>content rest. [0x02, 0x01, 0x05, 0x09] = der 2 content @ rest \<and>
     window der_mem (CBS_init 64 4) (CBS_init 66 1) content \<and> cbs_holds der_mem (CBS_init 67 1) rest"
proof -
  have "CBS_get_asn1 der_mem 2 (CBS_init 64 4) = Some (Some (CBS_init 66 1), CBS_init 67 1)" by code_simp
  then show ?thesis using CBS_get_asn1_exact [OF der_mem_holds, of 2] by auto
qed

text \<open>\<open>CBS_get_any_asn1\<close> succeeds exactly on a DER element with any tag the library can
  represent, returns that tag and the content, and stays inside the window.\<close>

theorem CBS_get_any_asn1_exact:
  assumes "cbs_holds m c bs"
  shows "case CBS_get_any_asn1 m c of None \<Rightarrow> False
    | Some (None, c') \<Rightarrow> inside c' c \<and>
        (\<nexists>tag content rest. valid_tag tag \<and> length content < 2 ^ 32 \<and> bs = der tag content @ rest)
    | Some (Some (out, tag), c') \<Rightarrow> inside c' c \<and>
        (\<exists>content rest. valid_tag tag \<and> length content < 2 ^ 32 \<and> bs = der tag content @ rest \<and>
           window m c out content \<and> cbs_holds m c' rest)"
proof -
  have "any_parse bs = Some (w, rest) \<longleftrightarrow>
      (case w of (content, tag) \<Rightarrow> valid_tag tag \<and> length content < 2 ^ 32 \<and> bs = der tag content @ rest)" for w rest
    using any_parse_iff by (cases w) simp
  from CBS_get_any_asn1.exact [OF assms this] show ?thesis
    by (auto split: option.splits prod.splits) blast+
qed

theorem CBS_get_any_asn1_exact_witness:
  "\<exists>content rest. [0x02, 0x01, 0x05, 0x09] = der 2 content @ rest \<and> cbs_holds der_mem (CBS_init 67 1) rest"
proof -
  have "CBS_get_any_asn1 der_mem (CBS_init 64 4) = Some (Some (CBS_init 66 1, 2), CBS_init 67 1)" by code_simp
  then show ?thesis using CBS_get_any_asn1_exact [OF der_mem_holds] by auto
qed

text \<open>C16: \<open>CBS_get_asn1_uint64\<close> succeeds exactly on the canonical DER INTEGER of a number below 2^64
  (shortest content, a zero octet in front when the top bit is set) and returns that number.\<close>

theorem CBS_get_asn1_uint64_exact:
  assumes "cbs_holds m c bs"
  shows "case CBS_get_asn1_uint64 m c of None \<Rightarrow> False
    | Some (None, c') \<Rightarrow> inside c' c \<and> (\<nexists>v rest. bs = der CBS_ASN1_INTEGER (uint_content (unat (v :: u64))) @ rest)
    | Some (Some v, c') \<Rightarrow> inside c' c \<and>
        (\<exists>rest. bs = der CBS_ASN1_INTEGER (uint_content (unat v)) @ rest \<and> cbs_holds m c' rest)"
  using CBS_get_asn1_uint64.exact [OF assms uint64_parse_iff] by (auto split: option.splits prod.splits)

theorem CBS_get_asn1_uint64_exact_witness:
  "\<exists>rest. [0x02, 0x01, 0x05, 0x09] = der CBS_ASN1_INTEGER (uint_content 5) @ rest \<and>
     cbs_holds der_mem (CBS_init 67 1) rest"
proof -
  have "CBS_get_asn1_uint64 der_mem (CBS_init 64 4) = Some (Some 5, CBS_init 67 1)" by code_simp
  then show ?thesis using CBS_get_asn1_uint64_exact [OF der_mem_holds] by auto
qed

text \<open>C21: \<open>CBS_get_u64_decimal\<close> succeeds exactly on the decimal numeral of a number below 2^64,
  without leading zeros and not followed by another digit, and leaves the reader behind it.\<close>

theorem CBS_get_u64_decimal_exact:
  assumes "cbs_holds m c bs"
  shows "case CBS_get_u64_decimal m c of None \<Rightarrow> False
    | Some (None, c') \<Rightarrow> inside c' c \<and> (\<nexists>v rest. v < 2 ^ 64 \<and> bs = dec v @ rest \<and> ends_number rest)
    | Some (Some v, c') \<Rightarrow> inside c' c \<and>
        (\<exists>rest. bs = dec (unat v) @ rest \<and> ends_number rest \<and> cbs_holds m c' rest)"
  using u64_decimal.exact [OF assms dec_parse_iff] by (auto split: option.splits prod.splits)

theorem CBS_get_u64_decimal_exact_witness:
  "(\<exists>rest. [0x34, 0x32, 0x2E] = dec 42 @ rest \<and> ends_number rest) \<and>
   (\<nexists>v rest. v < 2 ^ 64 \<and> [0x30, 0x37] = dec v @ rest \<and> ends_number rest)"
proof -
  let ?m = "put_bytes Map.empty 8 [0x34, 0x32, 0x2E]" and ?n = "put_bytes Map.empty 8 [0x30, 0x37]"
  have h: "cbs_holds ?m (CBS_init 8 3) [0x34, 0x32, 0x2E]" "cbs_holds ?n (CBS_init 8 2) [0x30, 0x37]" by code_simp+
  have "CBS_get_u64_decimal ?m (CBS_init 8 3) = Some (Some 42, CBS_init 10 1)"
    "CBS_get_u64_decimal ?n (CBS_init 8 2) = Some (None, CBS_init 10 0)" by code_simp+
  then show ?thesis
    using CBS_get_u64_decimal_exact [OF h(1)] CBS_get_u64_decimal_exact [OF h(2)] by auto
qed

section \<open>Object identifiers\<close>

text \<open>The base 128 numbers of an object identifier are prefix free.\<close>

lemma b128_hi_high: "b \<in> set (b128_hi v) \<Longrightarrow> 128 \<le> unat b"
proof (induction v rule: b128_hi.induct)
  case (1 v)
  have "unat (of_nat (128 + v mod 128) :: u8) = 128 + v mod 128" by (rule unat_byte) simp
  then show ?case using 1 by (subst (asm) (2) b128_hi.simps) (auto split: if_splits simp del: of_nat_add)
qed

lemma takeWhile_b128: "takeWhile (\<lambda>b. 128 \<le> unat b) (b128 v @ xs) = b128_hi (v div 128)"
proof -
  have "unat (of_nat (v mod 128) :: u8) = v mod 128" by (rule unat_byte) (simp add: less_trans [of _ 128])
  moreover have "v mod 128 < 128" by simp
  ultimately have "\<not> 128 \<le> unat (of_nat (v mod 128) :: u8)" by linarith
  then show ?thesis using b128_hi_high by (simp add: b128_def takeWhile_append)
qed

lemma b128_prefix_free: "b128 v @ xs = b128 w @ ys \<Longrightarrow> b128 v = b128 w \<and> xs = ys"
proof -
  assume a: "b128 v @ xs = b128 w @ ys"
  then have "b128_hi (v div 128) = b128_hi (w div 128)" using takeWhile_b128 by metis
  then have "length (b128 v) = length (b128 w)" by (simp add: b128_def)
  then show ?thesis using a by simp
qed

lemma b128_first: "hd (b128 v @ xs) \<noteq> 0x80"
proof (cases "v div 128 = 0")
  case True
  then have "v < 128" by simp
  then have "unat (of_nat v :: u8) = v" by (intro unat_byte) simp
  then have "(of_nat v :: u8) \<noteq> 0x80" using \<open>v < 128\<close> by (auto dest: arg_cong [of _ _ unat])
  then show ?thesis using True \<open>v < 128\<close> by (simp add: b128_def)
next
  case False
  have "u \<noteq> 0 \<Longrightarrow> b128_hi u \<noteq> [] \<and> hd (b128_hi u) \<noteq> 0x80" for u
  proof (induction u rule: b128_hi.induct)
    case (1 u)
    show ?case
    proof (cases "u div 128 = 0")
      case True
      then have u: "u < 128" by simp
      have "unat (of_nat (128 + u) :: u8) = 128 + u" using u by (intro unat_byte) simp
      then have "(of_nat (128 + u) :: u8) \<noteq> 0x80" using 1(2) by (auto dest: arg_cong [of _ _ unat] simp del: of_nat_add)
      then show ?thesis using 1(2) u by (subst (1 2) b128_hi.simps) (simp del: of_nat_add)
    qed (use 1 in \<open>subst (1 2) b128_hi.simps, simp\<close>)
  qed
  from this [OF False] show ?thesis by (simp add: b128_def)
qed

lemma b128_not_Nil: "b128 v \<noteq> []"
  by (simp add: b128_def)

lemma concat_b128_last: "ns \<noteq> [] \<Longrightarrow> unat (last (concat (map b128 ns))) < 128"
proof (induction ns)
  case (Cons n ns)
  have "unat (of_nat (n mod 128) :: u8) = n mod 128" by (rule unat_byte) (simp add: less_trans [of _ 128])
  then have "unat (last (b128 n)) < 128" by (simp add: b128_def)
  moreover have "ns \<noteq> [] \<Longrightarrow> concat (map b128 ns) \<noteq> []" by (cases ns) (auto simp: b128_not_Nil)
  ultimately show ?case using Cons.IH by (cases "ns = []") auto
qed simp

lemma concat_b128_Cons: "(\<exists>ns. b128 v @ bs = concat (map b128 ns)) \<longleftrightarrow> (\<exists>ns. bs = concat (map b128 ns))"
proof
  assume "\<exists>ns. b128 v @ bs = concat (map b128 ns)"
  then obtain ns where ns: "b128 v @ bs = concat (map b128 ns)" by blast
  then obtain w ws where "ns = w # ws" using b128_not_Nil [of v] by (cases ns) auto
  then show "\<exists>ns. bs = concat (map b128 ns)" using ns b128_prefix_free [of v bs w] by auto
next
  assume "\<exists>ns. bs = concat (map b128 ns)"
  then obtain ns where "bs = concat (map b128 ns)" by blast
  then show "\<exists>ns. b128 v @ bs = concat (map b128 ns)" by (auto intro!: exI [of _ "v # ns"])
qed

lemma b128_step: "unat b < 128 \<Longrightarrow> b128_hi v @ b # bs = b128 (v * 128 + unat b) @ bs"
  by (simp add: b128_def)

lemma oid_loop_bytes:
  assumes "cbs_holds m c bs" "prev AND 0x80 = 0 \<longleftrightarrow> v = 0"
  shows "oid_loop m prev c = Some (\<exists>ns. b128_hi v @ bs = concat (map b128 ns))"
  using assms
proof (induction bs arbitrary: c prev v)
  case Nil
  have "v \<noteq> 0 \<Longrightarrow> b128_hi v \<noteq> concat (map b128 ns)" for ns
  proof -
    assume v: "v \<noteq> 0"
    have "b128_hi v \<noteq> []" using v by (subst b128_hi.simps) simp
    then have "128 \<le> unat (last (b128_hi v))" using b128_hi_high [of _ v] by simp
    then show ?thesis using concat_b128_last [of ns] \<open>b128_hi v \<noteq> []\<close> by (cases ns) auto
  qed
  moreover have "\<exists>ns. [] = concat (map b128 ns)" by (rule exI [of _ "[]"]) simp
  ultimately show ?case
    using u8_Nil [OF Nil(1)] Nil(2) by (subst oid_loop.simps) (cases "v = 0"; simp)
next
  case (Cons b bs)
  note g = u8_Cons [OF Cons.prems(1)]
  consider (bad) "v = 0" "b = 0x80" | (high) "\<not> (v = 0 \<and> b = 0x80)" "128 \<le> unat b" | (low) "unat b < 128" "b \<noteq> 0x80"
    by (cases "128 \<le> unat b"; cases "b = 0x80") auto
  then show ?case
  proof cases
    case bad
    have "0x80 # bs \<noteq> concat (map b128 ns)" for ns
      using b128_first by (cases ns) (auto dest: arg_cong [of _ _ hd])
    then show ?thesis using bad Cons.prems(2) g by (subst oid_loop.simps) simp
  next
    case high
    then have "b128_hi (v * 128 + unat b mod 128) = b128_hi v @ [b]" by (intro b128_hi_step) auto
    moreover have "b AND 0x80 \<noteq> 0" using high(2) by (simp add: high_bit_iff)
    moreover from this have "b AND 0x80 = 0 \<longleftrightarrow> v * 128 + unat b mod 128 = 0"
      using calculation(1) by (metis append_is_Nil_conv b128_hi_0 not_Cons_self2)
    ultimately show ?thesis
      using Cons.IH [OF g(2), of b "v * 128 + unat b mod 128"] Cons.prems(2) high(1) g(1)
      by (subst oid_loop.simps) auto
  next
    case low
    then have "b AND 0x80 = 0" using high_bit_iff [of b] by linarith
    moreover have "(\<exists>ns. b128_hi v @ b # bs = concat (map b128 ns)) \<longleftrightarrow> (\<exists>ns. bs = concat (map b128 ns))"
      by (simp only: b128_step [OF low(1)] concat_b128_Cons)
    ultimately show ?thesis
      using Cons.IH [OF g(2), of b 0] low(2) g(1) by (subst oid_loop.simps) simp
  qed
qed

text \<open>\<open>CBS_is_valid_asn1_oid\<close> accepts exactly the non-empty sequences of base 128 numbers in their
  shortest form, of any size.\<close>

theorem CBS_is_valid_asn1_oid_exact:
  assumes "cbs_holds m c bs"
  shows "CBS_is_valid_asn1_oid m c = Some (\<exists>ns. ns \<noteq> [] \<and> bs = concat (map b128 ns))"
proof (cases bs)
  case Nil
  have "ns \<noteq> [] \<Longrightarrow> concat (map b128 ns) \<noteq> []" for ns using b128_not_Nil by (cases ns) auto
  then show ?thesis using Nil holds_len_0 [OF assms] by (simp add: CBS_is_valid_asn1_oid_def) metis
next
  case (Cons b cs)
  then have "(\<exists>ns. bs = concat (map b128 ns)) \<longleftrightarrow> (\<exists>ns. ns \<noteq> [] \<and> bs = concat (map b128 ns))"
    by (metis concat.simps(1) list.map(1) list.distinct(1))
  then show ?thesis
    using oid_loop_bytes [OF assms, of 0 0] Cons holds_len_0 [OF assms] by (simp add: CBS_is_valid_asn1_oid_def)
qed

theorem CBS_is_valid_asn1_oid_exact_witness:
  "(\<exists>ns. ns \<noteq> [] \<and> [0x2A, 0x86, 0x48] = concat (map b128 ns)) \<and> \<not> (\<exists>ns. ns \<noteq> [] \<and> [0x2A, 0x86] = concat (map b128 ns))"
proof -
  let ?m = "put_bytes Map.empty 8 [0x2A, 0x86, 0x48]"
  have h: "cbs_holds ?m (CBS_init 8 3) [0x2A, 0x86, 0x48]" "cbs_holds ?m (CBS_init 8 2) [0x2A, 0x86]" by code_simp+
  have "CBS_is_valid_asn1_oid ?m (CBS_init 8 3) = Some True" "CBS_is_valid_asn1_oid ?m (CBS_init 8 2) = Some False"
    by code_simp+
  then show ?thesis using CBS_is_valid_asn1_oid_exact [OF h(1)] CBS_is_valid_asn1_oid_exact [OF h(2)] by simp
qed

end
