(* ===== verification/Boring_CBB_Theorems.thy ===== *)
theory Boring_CBB_Theorems
  imports Boring_CBB_Correct Boring_CBS_Theorems "HOL-Library.List_Lexorder" "HOL-Library.Multiset"
begin

text \<open>
  What the byte string builder promises, and what builder and reader promise together: a client that
  writes a tree of DER elements through the builder, whichever way it opens and leaves children, gets
  the encoding of the tree, and the reader takes the encoding apart again.
\<close>

section \<open>Starting and finishing\<close>

lemma init_reps: "CBB_init A cap = (True, S) \<Longrightarrow> reps S ([], []) \<and> can_resize (cbb_base S)"
  by (auto simp: CBB_init_def cbb_init_def reps_def buffer_holds_def buffer_ok_def simp del: upt.simps split: if_splits)

lemma init_fixed_reps:
  "length buf = unat len \<Longrightarrow> CBB_init_fixed buf len = (True, S) \<Longrightarrow>
     reps S ([], []) \<and> \<not> can_resize (cbb_base S) \<and> bb_cap (cbb_base S) = len"
  by (auto simp: CBB_init_fixed_def cbb_init_def reps_def buffer_holds_def buffer_ok_def)

lemma finish_spec:
  assumes F: "reps S F"
  shows "case CBB_finish A True 0 S of None \<Rightarrow> False
    | Some (Some out, _) \<Rightarrow> flushed 0 F = Some (out, [])
    | Some (None, S') \<Rightarrow> locked S' \<and> (flushed 0 F = None \<or> \<not> roomy A (cbb_base S) (weight F))"
proof -
  have o: "outcome A S F 0 (flushed 0) 0 (CBB_flush A 0 S)" by (rule flush_outcome [OF F]) simp
  then obtain ok S1 where eq: "CBB_flush A 0 S = Some (ok, S1)" by (auto simp: outcome_def split: option.splits)
  then have 1: "CBB_flush A 0 S = Some (ok, S1)"
    "if ok then \<exists>F'. flushed 0 F = Some F' \<and> reps S1 F' \<and> depth F' = 0
     else locked S1 \<and> (flushed 0 F = None \<or> \<not> roomy A (cbb_base S) (weight F))"
    using o by (auto simp: outcome_def)
  show ?thesis
  proof (cases ok)
    case True
    then obtain r where r: "flushed 0 F = Some (r, [])" "reps S1 (r, [])" using 1(2) by (auto simp: depth_def)
    then have h: "buffer_holds (cbb_base S1) r" by (simp add: reps_def)
    then have "buf_load 0 (unat (bb_len (cbb_base S1))) (cbb_base S1) = Some r"
      using load_spec [OF h, of 0 "length r"] buffer_holds_length [OF h] by simp
    then show ?thesis using True 1(1) r(1) by (simp add: CBB_finish_def)
  qed (use 1 in \<open>simp add: CBB_finish_def\<close>)
qed

lemma finish_ok:
  assumes "reps S F" "flushed 0 F = Some (out, [])" "roomy A (cbb_base S) (weight F)"
  shows "\<exists>S'. CBB_finish A True 0 S = Some (Some out, S')"
  using finish_spec [OF assms(1), of A] assms(2,3) by (auto split: option.splits prod.splits)

lemma roomy_alloc: "can_resize b \<Longrightarrow> \<forall>n. can_alloc A n \<Longrightarrow> n < 2 ^ 64 \<Longrightarrow> roomy A b n"
  by (simp add: roomy_def)

lemma outcome_skip: "reps S F \<Longrightarrow> depth F = d \<Longrightarrow> outcome A S F d (put d []) 0 (Some (True, S))"
  by (simp add: outcome_def put_Nil flushed_same)

text \<open>A fresh builder that has been filled and is finished.\<close>

lemma finish_put:
  assumes "CBB_init A cap = (True, S)" "\<forall>n. can_alloc A n" "length bs < 2 ^ 64"
    and "outcome A S ([], []) 0 (put 0 bs) (length bs) r"
  shows "\<exists>S' S''. r = Some (True, S') \<and> CBB_finish A True 0 S' = Some (Some bs, S'')"
proof -
  have S: "reps S ([], [])" "can_resize (cbb_base S)" using init_reps [OF assms(1)] by simp_all
  have p: "put 0 bs ([], []) = Some (bs, [])" by (simp add: put_at depth_def add_last_def)
  have room: "roomy A (cbb_base S) (weight ([], []) + length bs)"
    using assms(3) by (intro roomy_alloc [OF S(2) assms(2)]) (simp add: weight_def)
  obtain S' where S': "r = Some (True, S')" "reps S' (bs, [])" "grows (cbb_base S) (cbb_base S')"
    "weight (bs, []) \<le> weight ([], []) + length bs"
    using assms(4) p room by (auto simp: outcome_def split: option.splits if_splits)
  have "flushed 0 (bs, []) = Some (bs, [])" by (simp add: flushed_same depth_def)
  then obtain S'' where "CBB_finish A True 0 S' = Some (Some bs, S'')"
    using finish_ok [OF S'(2) _ roomy_grows [OF room S'(3,4)]] by blast
  then show ?thesis using S'(1) by blast
qed

section \<open>Flushing, and locked builders\<close>

text \<open>C15: \<open>CBB_flush\<close> implements closing children. On every builder that represents frames it is
  defined, so no store leaves the buffer; success means that every child below the builder has its
  length in front of its content, innermost first, moved along for a long ASN.1 length; failure sets
  the error bit and happens only when a content is too long for its prefix or memory runs out.\<close>

theorem CBB_flush_closes_children:
  assumes "reps S F" "d \<le> depth F"
  shows "case CBB_flush A d S of None \<Rightarrow> False
    | Some (ok, S') \<Rightarrow>
        if ok then \<exists>F'. flushed d F = Some F' \<and> reps S' F' \<and> depth F' = d
        else locked S' \<and> (flushed d F = None \<or> \<not> roomy A (cbb_base S) (weight F))"
  using flush_outcome [OF assms, of A] by (auto simp: outcome_def split: option.splits if_splits)

text \<open>A root with three bytes and an open child with one octet of length prefix and two bytes.\<close>

definition sample_alloc :: cbb_alloc where
  "sample_alloc = \<lparr>can_alloc = (\<lambda>_. True), fresh_at = (\<lambda>_. 0xAA)\<rparr>"

definition sample_cbb :: CBB where
  "sample_cbb = \<lparr>cbb_base = \<lparr>bb_buf = [1, 2, 3, 0, 8, 9, 0xAA, 0xAA], bb_len = 6, bb_cap = 8, can_resize = True, bb_error = False\<rparr>,
     cbb_kids = [\<lparr>ch_offset = 3, pending_len_len = 1, pending_is_asn1 = False\<rparr>]\<rparr>"

definition sample_frames :: frames where
  "sample_frames = ([1, 2, 3], [((1, False), [8, 9])])"

lemma sample_reps: "reps sample_cbb sample_frames" "depth sample_frames = 1"
  by code_simp+

theorem CBB_flush_closes_children_witness:
  "\<exists>S'. CBB_flush sample_alloc 0 sample_cbb = Some (True, S') \<and> reps S' ([1, 2, 3, 2, 8, 9], [])"
proof -
  have "fst (the (CBB_flush sample_alloc 0 sample_cbb))" by code_simp
  moreover have "flushed 0 sample_frames = Some ([1, 2, 3, 2, 8, 9], [])" by code_simp
  ultimately show ?thesis
    using CBB_flush_closes_children [OF sample_reps(1), of 0 sample_alloc] by (auto split: option.splits if_splits)
qed

text \<open>
  The operations of the interface that write, open, reserve or finish; for those that hand out a
  pointer success is that there is one. Two functions of the file are not among them, since they
  never look at the error bit: \<open>CBB_discard_child\<close>, which cannot fail, and \<open>CBB_did_write\<close>.
\<close>

datatype cbb_op =
    Op_flush | Op_finish bool | Op_add_bytes "u8 list" | Op_add_zeros u64 | Op_add_space u64 | Op_reserve u64
  | Op_u8_length_prefixed | Op_u16_length_prefixed | Op_u24_length_prefixed
  | Op_u8 u8 | Op_u16 u16 | Op_u16le u16 | Op_u24 u32 | Op_u32 u32 | Op_u32le u32 | Op_u64 u64 | Op_u64le u64
  | Op_asn1 u32 | Op_uint64 u64 | Op_uint64_with_tag u64 u32 | Op_int64 u64 | Op_int64_with_tag u64 u32
  | Op_octet_string "u8 list" | Op_bool bool | Op_oid_from_text mem addr u64 | Op_flush_set_of addr

definition pointer_result :: "('a option \<times> CBB) option \<Rightarrow> cbb_result" where
  "pointer_result r = map_option (\<lambda>(out, S). (out \<noteq> None, S)) r"

fun run_op :: "cbb_alloc \<Rightarrow> cbb_op \<Rightarrow> nat \<Rightarrow> CBB \<Rightarrow> cbb_result" where
  "run_op A Op_flush d S = CBB_flush A d S"
| "run_op A (Op_finish wants_output) d S = pointer_result (CBB_finish A wants_output d S)"
| "run_op A (Op_add_bytes data) d S = CBB_add_bytes A data d S"
| "run_op A (Op_add_zeros n) d S = CBB_add_zeros A n d S"
| "run_op A (Op_add_space n) d S = pointer_result (CBB_add_space A n d S)"
| "run_op A (Op_reserve n) d S = pointer_result (CBB_reserve A n d S)"
| "run_op A Op_u8_length_prefixed d S = CBB_add_u8_length_prefixed A d S"
| "run_op A Op_u16_length_prefixed d S = CBB_add_u16_length_prefixed A d S"
| "run_op A Op_u24_length_prefixed d S = CBB_add_u24_length_prefixed A d S"
| "run_op A (Op_u8 v) d S = CBB_add_u8 A v d S"
| "run_op A (Op_u16 w) d S = CBB_add_u16 A w d S"
| "run_op A (Op_u16le w) d S = CBB_add_u16le A w d S"
| "run_op A (Op_u24 n) d S = CBB_add_u24 A n d S"
| "run_op A (Op_u32 n) d S = CBB_add_u32 A n d S"
| "run_op A (Op_u32le n) d S = CBB_add_u32le A n d S"
| "run_op A (Op_u64 n) d S = CBB_add_u64 A n d S"
| "run_op A (Op_u64le n) d S = CBB_add_u64le A n d S"
| "run_op A (Op_asn1 tag) d S = CBB_add_asn1 A tag d S"
| "run_op A (Op_uint64 n) d S = CBB_add_asn1_uint64 A n d S"
| "run_op A (Op_uint64_with_tag n tag) d S = CBB_add_asn1_uint64_with_tag A n tag d S"
| "run_op A (Op_int64 n) d S = CBB_add_asn1_int64 A n d S"
| "run_op A (Op_int64_with_tag n tag) d S = CBB_add_asn1_int64_with_tag A n tag d S"
| "run_op A (Op_octet_string data) d S = CBB_add_asn1_octet_string A data d S"
| "run_op A (Op_bool x) d S = CBB_add_asn1_bool A x d S"
| "run_op A (Op_oid_from_text m text len) d S = CBB_add_asn1_oid_from_text A m text len d S"
| "run_op A (Op_flush_set_of at) d S = CBB_flush_asn1_set_of A at d S"

text \<open>A sequence of operations, each on a builder of the tree, with the list of their results.\<close>

fun run_ops :: "cbb_alloc \<Rightarrow> (cbb_op \<times> nat) list \<Rightarrow> CBB \<Rightarrow> (bool list \<times> CBB) option" where
  "run_ops A [] S = Some ([], S)"
| "run_ops A ((op1, d) # ops) S =
     Option.bind (run_op A op1 d S) (\<lambda>(ok, S). map_option (\<lambda>(oks, S). (ok # oks, S)) (run_ops A ops S))"

definition refuses :: "CBB \<Rightarrow> cbb_result \<Rightarrow> bool" where
  "refuses S r \<longleftrightarrow> (\<exists>S'. r = Some (False, S') \<and> cbb_base S' = cbb_base S)"

lemma flush_after_error: "bb_error (cbb_base S) \<Longrightarrow> CBB_flush A d S = Some (False, S)"
  by (simp add: CBB_flush_def)

lemma refuses_intros:
  assumes "bb_error (cbb_base S)"
  shows "refuses S (CBB_flush A d S)" "refuses S (and_then (CBB_flush A d S) k)" "refuses S (CBB_add_asn1 A tag d S)"
    "refuses S (CBB_add_bytes A data d S)" "refuses S (CBB_add_zeros A n d S)" "refuses S (cbb_add_u A v n d S)"
    "refuses S (cbb_add_length_prefixed A l d S)"
  by (simp_all add: refuses_def flush_after_error [OF assms] CBB_add_asn1_def CBB_add_bytes_def CBB_add_zeros_def
      cbb_add_u_def CBB_add_space_def cbb_add_length_prefixed_def)

lemma refuses_or_error:
  assumes "bb_error (cbb_base S)" "refuses S r"
  shows "refuses S (or_error d (and_then r k))"
    "refuses S (do { (ok, S) \<leftarrow> or_error d (and_then r k); if ok then k' S else Some (False, S) })"
proof -
  obtain S' where S': "r = Some (False, S')" "cbb_base S' = cbb_base S" using assms(2) by (auto simp: refuses_def)
  have "(cbb_base S)\<lparr>bb_error := True\<rparr> = cbb_base S" using assms(1) by (cases "cbb_base S") simp
  then show "refuses S (or_error d (and_then r k))"
    "refuses S (do { (ok, S) \<leftarrow> or_error d (and_then r k); if ok then k' S else Some (False, S) })"
    by (simp_all add: refuses_def or_error_def cbb_on_error_def S')
qed

lemma run_op_locked:
  assumes "bb_error (cbb_base S)"
  shows "refuses S (run_op A op1 d S)"
proof -
  note locked = refuses_intros [OF assms] refuses_or_error [OF assms refuses_intros(3) [OF assms]]
  have u64: "refuses S (CBB_add_asn1_uint64_with_tag A n tag d S)" for n tag
    unfolding CBB_add_asn1_uint64_with_tag_def by (rule locked)
  have i64: "refuses S (CBB_add_asn1_int64_with_tag A n tag d S)" for n tag
    unfolding CBB_add_asn1_int64_with_tag_def Let_def using u64 locked by simp
  have ptr: "refuses S (pointer_result (CBB_finish A w d S))" "refuses S (pointer_result (CBB_add_space A n d S))"
    "refuses S (pointer_result (CBB_reserve A n d S))" for w n
    by (simp_all add: refuses_def pointer_result_def CBB_finish_def CBB_add_space_def CBB_reserve_def flush_after_error [OF assms])
  show ?thesis
    by (cases op1)
      (simp_all add: locked u64 i64 ptr CBB_add_u8_length_prefixed_def CBB_add_u16_length_prefixed_def
        CBB_add_u24_length_prefixed_def CBB_add_u8_def CBB_add_u16_def CBB_add_u16le_def CBB_add_u24_def CBB_add_u32_def
        CBB_add_u32le_def CBB_add_u64_def CBB_add_u64le_def CBB_add_asn1_uint64_def CBB_add_asn1_int64_def
        CBB_add_asn1_octet_string_def CBB_add_asn1_bool_def CBB_add_asn1_oid_from_text_def CBB_flush_asn1_set_of_def)
qed

text \<open>C20: Errors stick. Once the error bit of a builder is set, every operation of \<open>cbb_op\<close> on any
  builder of the tree returns false (or hands out no pointer), whatever is called before it, and the
  buffer, its length and its capacity stay as they are. \<open>CBB_did_write\<close> and \<open>CBB_discard_child\<close>, which
  do not test the bit, are excepted.\<close>

theorem error_sticks:
  assumes "bb_error (cbb_base S)"
  shows "\<exists>S'. run_ops A ops S = Some (replicate (length ops) False, S') \<and> cbb_base S' = cbb_base S"
  using assms
proof (induction ops arbitrary: S)
  case (Cons o1 ops)
  obtain op1 d where o1: "o1 = (op1, d)" by force
  obtain S1 where S1: "run_op A op1 d S = Some (False, S1)" "cbb_base S1 = cbb_base S"
    using run_op_locked [OF Cons.prems] unfolding refuses_def by blast
  then show ?case using Cons.IH [of S1] Cons.prems by (auto simp: o1)
qed simp

theorem error_sticks_witness:
  "\<exists>S'. run_ops sample_alloc [(Op_reserve 1, 1), (Op_asn1 2, 1), (Op_u16le 7, 0), (Op_finish True, 0)] (cbb_on_error 1 sample_cbb) =
      Some ([False, False, False, False], S') \<and> cbb_base S' = cbb_base (cbb_on_error 1 sample_cbb)"
proof -
  have "bb_error (cbb_base (cbb_on_error 1 sample_cbb))" by code_simp
  from error_sticks [OF this, of sample_alloc "[(Op_reserve 1, 1), (Op_asn1 2, 1), (Op_u16le 7, 0), (Op_finish True, 0)]"]
  show ?thesis by (simp add: numeral_eq_Suc del: run_ops.simps)
qed

text \<open>\<open>CBB_did_write\<close> succeeds after an error and moves the length: a locked builder of a buffer of four
  bytes still counts two more.\<close>

theorem did_write_ignores_error:
  "map_option (\<lambda>(ok, S). (ok, bb_error (cbb_base S), bb_len (cbb_base S)))
     (CBB_did_write 2 0 (cbb_on_error 0 (cbb_init [0, 0, 0, 0] 4 False))) = Some (True, True, 2)"
  by code_simp

section \<open>Trees\<close>

text \<open>A client of the builder: elements are opened where the tree has them and never flushed explicitly.\<close>

datatype asn1_tree = Primitive u32 "u8 list" | Constructed u32 "asn1_tree list"

fun encode :: "asn1_tree \<Rightarrow> u8 list" where
  "encode (Primitive tag c) = der tag c"
| "encode (Constructed tag ts) = der tag (concat (map encode ts))"

fun build :: "cbb_alloc \<Rightarrow> nat \<Rightarrow> asn1_tree \<Rightarrow> CBB \<Rightarrow> cbb_result"
  and build_list :: "cbb_alloc \<Rightarrow> nat \<Rightarrow> asn1_tree list \<Rightarrow> CBB \<Rightarrow> cbb_result" where
  "build A d (Primitive tag c) S = and_then (CBB_add_asn1 A tag d S) (\<lambda>S. CBB_add_bytes A c (Suc d) S)"
| "build A d (Constructed tag ts) S = and_then (CBB_add_asn1 A tag d S) (\<lambda>S. build_list A (Suc d) ts S)"
| "build_list A d [] S = Some (True, S)"
| "build_list A d (t # ts) S = and_then (build A d t S) (\<lambda>S. build_list A d ts S)"

text \<open>What the client does to frames, and how much room it may take.\<close>

fun opened :: "nat \<Rightarrow> asn1_tree \<Rightarrow> frames \<Rightarrow> frames option"
  and opened_list :: "nat \<Rightarrow> asn1_tree list \<Rightarrow> frames \<Rightarrow> frames option" where
  "opened d (Primitive tag c) F = Option.bind (open_child (1, True) d (ident tag) F) (\<lambda>F. put (Suc d) c F)"
| "opened d (Constructed tag ts) F = Option.bind (open_child (1, True) d (ident tag) F) (\<lambda>F. opened_list (Suc d) ts F)"
| "opened_list d [] F = Some F"
| "opened_list d (t # ts) F = Option.bind (opened d t F) (\<lambda>F. opened_list d ts F)"

fun height :: "asn1_tree \<Rightarrow> nat"
  and height_list :: "nat \<Rightarrow> asn1_tree list \<Rightarrow> nat" where
  "height (Primitive tag c) = 1"
| "height (Constructed tag ts) = Suc (height_list 0 ts)"
| "height_list k [] = k"
| "height_list k (t # ts) = height_list (height t) ts"

fun tree_cost :: "asn1_tree \<Rightarrow> nat" where
  "tree_cost (Primitive tag c) = length (ident tag) + 5 + length c"
| "tree_cost (Constructed tag ts) = length (ident tag) + 5 + sum_list (map tree_cost ts)"

fun tree_fits :: "asn1_tree \<Rightarrow> bool" where
  "tree_fits (Primitive tag c) \<longleftrightarrow> length c \<le> 0xFFFFFFFE"
| "tree_fits (Constructed tag ts) \<longleftrightarrow> (\<forall>t\<in>set ts. tree_fits t) \<and> length (concat (map encode ts)) \<le> 0xFFFFFFFE"

lemma build_outcome:
  "tree_fits t \<Longrightarrow> reps S F \<Longrightarrow> d \<le> depth F \<Longrightarrow> outcome A S F (d + height t) (opened d t) (tree_cost t) (build A d t S)"
  "\<forall>t\<in>set ts. tree_fits t \<Longrightarrow> reps S F \<Longrightarrow> depth F = d + k \<Longrightarrow>
     outcome A S F (d + height_list k ts) (opened_list d ts) (sum_list (map tree_cost ts)) (build_list A d ts S)"
proof (induction A d t S and A d ts S arbitrary: F and F k rule: build_build_list.induct)
  case (1 A d tag c S)
  have b: "builder_op (\<lambda>A. CBB_add_bytes A c (Suc d)) (Suc d) (Suc d) (put (Suc d) c) (length c)"
    by (rule builder_add_bytes) (use 1(1) in simp)
  have "outcome A S F (Suc d) (\<lambda>F. Option.bind (open_child (1, True) d (ident tag) F) (put (Suc d) c))
      (length (ident tag) + 5 + length c) (and_then (CBB_add_asn1 A tag d S) (CBB_add_bytes A c (Suc d)))"
    by (rule outcome_seq [OF add_asn1.step [OF 1(2,3)]]) (use builder_op.step [OF b] in auto)
  then show ?case by simp
next
  case (2 A d tag ts S)
  have o: "outcome A S F (Suc d + height_list 0 ts) (\<lambda>F. Option.bind (open_child (1, True) d (ident tag) F) (opened_list (Suc d) ts))
      (length (ident tag) + 5 + sum_list (map tree_cost ts)) (and_then (CBB_add_asn1 A tag d S) (build_list A (Suc d) ts))"
    by (rule outcome_seq [OF add_asn1.step [OF 2(3,4)]]) (use 2(1) [of _ _ 0] 2(2) in auto)
  then show ?case by simp
next
  case (3 A d S)
  then show ?case by (simp add: outcome_def)
next
  case (4 A d t ts S)
  have o: "outcome A S F (d + height t) (opened d t) (tree_cost t) (build A d t S)"
    using 4(1) [OF _ 4(4)] 4(3,5) by simp
  have "outcome A S F (d + height_list (height t) ts) (\<lambda>F. Option.bind (opened d t F) (opened_list d ts))
      (tree_cost t + sum_list (map tree_cost ts)) (and_then (build A d t S) (build_list A d ts))"
    by (rule outcome_seq [OF o]) (use 4(2,3) in auto)
  then show ?case by simp
qed

text \<open>Closing a chain in two steps.\<close>

lemma closed_append:
  "closed (fs @ (k, c) # gs) = Option.bind (closed gs) (\<lambda>r. closed (fs @ [(k, c @ r)]))"
  by (induction fs) (cases "closed gs"; simp)+

lemma flushed_flushed:
  assumes "d \<le> e" "e \<le> depth F"
  shows "Option.bind (flushed e F) (flushed d) = flushed d F"
proof (cases "e = 0")
  case True
  then show ?thesis using assms(1) flushed_depth [of 0 F] by (cases "flushed e F") (auto simp: flushed_same)
next
  case False
  obtain r fs where F: "F = (r, fs)" by (cases F)
  define gs where "gs = butlast (take e fs)"
  have ne: "take e fs \<noteq> []" using assms(2) False F by (auto simp: depth_def)
  then obtain k c where gs: "take e fs = gs @ [(k, c)]"
    unfolding gs_def by (metis append_butlast_last_id surj_pair)
  have len: "length gs = e - 1" using arg_cong [OF gs, of length] assms(2) F by (simp add: depth_def)
  have fs: "fs = gs @ (k, c) # drop e fs" using gs append_take_drop_id [of e fs] by simp
  show ?thesis
  proof (cases "closed (drop e fs)")
    case None
    have "closed (drop d fs) = None"
    proof (cases "d \<le> length gs")
      case True
      then have "drop d fs = drop d gs @ (k, c) # drop e fs" using arg_cong [OF fs, of "drop d"] by simp
      then show ?thesis using None closed_append [of "drop d gs" k c "drop e fs"] by simp
    next
      case False
      then have "d = e" using len assms(1) by simp
      then show ?thesis using None by simp
    qed
    then show ?thesis using None by (simp add: F flushed_def)
  next
    case (Some x)
    have fl: "flushed e F = Some (r, gs @ [(k, c @ x)])" using Some gs ne by (simp add: F flushed_def add_last_def)
    show ?thesis
    proof (cases "d \<le> length gs")
      case True
      then have "drop d fs = drop d gs @ (k, c) # drop e fs" "take d fs = take d gs"
        using arg_cong [OF fs, of "drop d"] arg_cong [OF fs, of "take d"] by simp_all
      then show ?thesis using True Some fl closed_append [of "drop d gs" k c "drop e fs"] by (simp add: flushed_def F)
    next
      case False
      then have "d = e" "d = Suc (length gs)" using len assms(1) ne gs arg_cong [OF gs, of length] by auto
      then show ?thesis using fl flushed_same [of "(r, gs @ [(k, c @ x)])" d] by (simp add: depth_def)
    qed
  qed
qed

lemma open_child_depth: "open_child k d bs F = Some F' \<Longrightarrow> d \<le> depth F \<Longrightarrow> depth F' = Suc d"
  using put_depth [of d bs F] by (auto simp: open_child_def push_def depth_def)

lemma opened_depth:
  "opened d t F = Some F' \<Longrightarrow> d \<le> depth F \<Longrightarrow> d \<le> depth F'"
  "opened_list d ts F = Some F' \<Longrightarrow> d \<le> depth F \<Longrightarrow> d \<le> depth F'"
proof (induction d t F and d ts F arbitrary: F' and F' rule: opened_opened_list.induct)
  case (1 d tag c F)
  then show ?case by (auto simp: bind_eq_Some_conv dest!: open_child_depth put_depth)
next
  case (2 d tag ts F)
  from 2(2) obtain F1 where F1: "open_child (1, True) d (ident tag) F = Some F1" "opened_list (Suc d) ts F1 = Some F'"
    by (auto simp: bind_eq_Some_conv)
  then show ?case using 2(1) [OF F1] open_child_depth [OF F1(1) 2(3)] by simp
next
  case (4 d t ts F)
  from 4(3) obtain F1 where "opened d t F = Some F1" "opened_list d ts F1 = Some F'" by (auto simp: bind_eq_Some_conv)
  then show ?case using 4 by blast
qed auto

lemma opened_flushed:
  "tree_fits t \<Longrightarrow> d \<le> depth F \<Longrightarrow> Option.bind (opened d t F) (flushed d) = put d (encode t) F"
  "\<forall>t\<in>set ts. tree_fits t \<Longrightarrow> d \<le> depth F \<Longrightarrow> Option.bind (opened_list d ts F) (flushed d) = put d (concat (map encode ts)) F"
proof (induction d t F and d ts F rule: opened_opened_list.induct)
  case (1 d tag c F)
  then show ?case using closing_child [of d F tag c] by (simp add: element_def)
next
  case (2 d tag ts F)
  let ?c = "concat (map encode ts)"
  have step: "Option.bind (opened_list (Suc d) ts F1) (flushed d) = Option.bind (put (Suc d) ?c F1) (flushed d)"
    if "open_child (1, True) d (ident tag) F = Some F1" for F1
  proof -
    have F1: "Suc d \<le> depth F1" using open_child_depth [OF that 2(3)] by simp
    have "Option.bind (opened_list (Suc d) ts F1) (flushed d) =
        Option.bind (opened_list (Suc d) ts F1) (\<lambda>F. Option.bind (flushed (Suc d) F) (flushed d))"
      using opened_depth(2) [OF _ F1] flushed_flushed [of d "Suc d"] by (auto intro: bind_option_cong)
    also have "\<dots> = Option.bind (put (Suc d) ?c F1) (flushed d)"
      using 2(1) [OF that] F1 2(2) by (simp flip: Option.bind_assoc)
    finally show ?thesis .
  qed
  have "Option.bind (opened d (Constructed tag ts) F) (flushed d) =
      Option.bind (open_child (1, True) d (ident tag) F) (\<lambda>F1. Option.bind (put (Suc d) ?c F1) (flushed d))"
    by (cases "open_child (1, True) d (ident tag) F") (simp_all add: step)
  also have "\<dots> = element d tag ?c F" using closing_child [OF 2(3), of tag ?c] by simp
  finally show ?case using 2(2) by (simp add: element_def)
next
  case (3 d F)
  then show ?case by (simp add: put_Nil)
next
  case (4 d t ts F)
  let ?x = "concat (map encode ts)"
  have "Option.bind (opened d t F) (\<lambda>F1. Option.bind (opened_list d ts F1) (flushed d)) =
      Option.bind (opened d t F) (\<lambda>F1. put d ?x F1)"
    using 4(2,3,4) opened_depth(1) by (auto intro: bind_option_cong)
  also have "\<dots> = map_option (add_last ?x) (Option.bind (opened d t F) (flushed d))"
    by (cases "opened d t F") (simp_all add: put_def)
  also have "\<dots> = map_option (add_last ?x) (put d (encode t) F)" using 4(1,3,4) by simp
  also have "\<dots> = put d (encode t @ ?x) F" by (simp add: put_def option.map_comp o_def add_last_add_last)
  finally show ?case by simp
qed

text \<open>C13: A client that writes a tree of elements through a fresh builder, opening children where
  the tree has them and never flushing, gets from \<open>CBB_finish\<close> exactly the DER encoding of the tree,
  for every tree whose contents have lengths a DER length can hold, when memory can be allocated.\<close>

theorem CBB_builds_tree:
  assumes "tree_fits t" "\<forall>n. can_alloc A n" "tree_cost t < 2 ^ 64" "CBB_init A cap = (True, S)"
  shows "\<exists>S' S''. build A 0 t S = Some (True, S') \<and> CBB_finish A True 0 S' = Some (Some (encode t), S'')"
proof -
  have S: "reps S ([], [])" "can_resize (cbb_base S)" using init_reps [OF assms(4)] by simp_all
  have room: "roomy A (cbb_base S) (weight ([], []) + tree_cost t)"
    using roomy_alloc [OF S(2) assms(2,3)] by (simp add: weight_def)
  have fl: "Option.bind (opened 0 t ([], [])) (flushed 0) = Some (encode t, [])"
    using opened_flushed(1) [OF assms(1), of 0 "([], [])"] by (simp add: put_at depth_def add_last_def)
  then obtain F where F: "opened 0 t ([], []) = Some F" "flushed 0 F = Some (encode t, [])" by (auto simp: bind_eq_Some_conv)
  have "outcome A S ([], []) (0 + height t) (opened 0 t) (tree_cost t) (build A 0 t S)"
    by (rule build_outcome(1) [OF assms(1) S(1)]) simp
  then obtain S' where S': "build A 0 t S = Some (True, S')" "reps S' F" "grows (cbb_base S) (cbb_base S')"
    "weight F \<le> weight ([], []) + tree_cost t"
    using F(1) room by (auto simp: outcome_def split: option.splits if_splits)
  obtain S'' where "CBB_finish A True 0 S' = Some (Some (encode t), S'')"
    using finish_ok [OF S'(2) F(2) roomy_grows [OF room S'(3,4)]] by blast
  then show ?thesis using S'(1) by blast
qed

definition sample_tree :: asn1_tree where
  "sample_tree = Constructed 0x20000010 [Primitive 2 [5], Primitive 4 [0xAB, 0xCD]]"

theorem CBB_builds_tree_witness:
  "\<exists>S' S''. build sample_alloc 0 sample_tree (snd (CBB_init sample_alloc 4)) = Some (True, S') \<and>
     CBB_finish sample_alloc True 0 S' = Some (Some [0x30, 0x07, 0x02, 0x01, 0x05, 0x04, 0x02, 0xAB, 0xCD], S'')"
proof -
  have "length (concat (map encode [Primitive 2 [5], Primitive 4 [0xAB, 0xCD]])) = 7" by code_simp
  then have "tree_fits sample_tree" by (simp add: sample_tree_def)
  moreover have "tree_cost sample_tree = 21" by code_simp
  ultimately have h: "tree_fits sample_tree" "tree_cost sample_tree < 2 ^ 64" "fst (CBB_init sample_alloc 4)"
    by (simp_all add: CBB_init_def sample_alloc_def)
  have "\<forall>n. can_alloc sample_alloc n" by (simp add: sample_alloc_def)
  moreover have "CBB_init sample_alloc 4 = (True, snd (CBB_init sample_alloc 4))" using h(3) by (metis prod.collapse)
  moreover have "encode sample_tree = [0x30, 0x07, 0x02, 0x01, 0x05, 0x04, 0x02, 0xAB, 0xCD]" by code_simp
  ultimately show ?thesis using CBB_builds_tree [OF h(1) _ h(2), of sample_alloc] by metis
qed

section \<open>Round trip of unsigned integers\<close>

lemma element_root: "length c \<le> 0xFFFFFFFE \<Longrightarrow> element 0 tag c ([], []) = Some (der tag c, [])"
  by (simp add: element_def put_at depth_def add_last_def)

text \<open>C17: Every 64 bit value written with \<open>CBB_add_asn1_uint64\<close> and finished comes out as its canonical
  DER INTEGER, and \<open>CBS_get_asn1_uint64\<close> reads it back, wherever the bytes are placed, and consumes
  them all.\<close>

theorem asn1_uint64_round_trip:
  assumes "\<forall>n. can_alloc A n" "CBB_init A cap = (True, S)"
  shows "\<exists>S' S'' out. CBB_add_asn1_uint64 A v 0 S = Some (True, S') \<and> CBB_finish A True 0 S' = Some (Some out, S'') \<and>
    out = der CBS_ASN1_INTEGER (uint_content (unat v)) \<and>
    (\<forall>m c. cbs_holds m c out \<longrightarrow> (\<exists>c'. CBS_get_asn1_uint64 m c = Some (Some v, c') \<and> cbs_len c' = 0))"
proof -
  let ?c = "uint_content (unat v)" and ?tag = CBS_ASN1_INTEGER
  have S: "reps S ([], [])" "can_resize (cbb_base S)" using init_reps [OF assms(2)] by simp_all
  have len: "length ?c \<le> 9" "length (ident ?tag) \<le> 11" using uint_content_length unat_u64_lt [of v] ident_length by simp_all
  then have el: "element 0 ?tag ?c ([], []) = Some (der ?tag ?c, [])" by (intro element_root) simp
  have room: "roomy A (cbb_base S) (weight ([], []) + (length (ident ?tag) + 5 + length ?c))"
    using len by (intro roomy_alloc [OF S(2) assms(1)]) (simp add: weight_def)
  have "outcome A S ([], []) 0 (element 0 ?tag ?c) (length (ident ?tag) + 5 + length ?c) (CBB_add_asn1_uint64_with_tag A v ?tag 0 S)"
    by (rule uint64_out.step [OF S(1)]) simp
  then obtain S' where S': "CBB_add_asn1_uint64 A v 0 S = Some (True, S')" "reps S' (der ?tag ?c, [])"
    "grows (cbb_base S) (cbb_base S')" "weight (der ?tag ?c, []) \<le> weight ([], []) + (length (ident ?tag) + 5 + length ?c)"
    using el room by (auto simp: CBB_add_asn1_uint64_def outcome_def split: option.splits if_splits)
  have "flushed 0 (der ?tag ?c, []) = Some (der ?tag ?c, [])" by (simp add: flushed_same depth_def)
  then obtain S'' where "CBB_finish A True 0 S' = Some (Some (der ?tag ?c), S'')"
    using finish_ok [OF S'(2) _ roomy_grows [OF room S'(3,4)]] by blast
  moreover have "\<exists>c'. CBS_get_asn1_uint64 m c = Some (Some v, c') \<and> cbs_len c' = 0" if "cbs_holds m c (der ?tag ?c)" for m c
  proof -
    have "uint64_parse (der ?tag ?c) = Some (v, [])" unfolding uint64_parse_iff by simp
    from CBS_get_asn1_uint64.success [OF that this] show ?thesis
      using holds_len_0 by (metis (no_types, lifting))
  qed
  ultimately show ?thesis using S'(1) by blast
qed

theorem asn1_uint64_round_trip_witness:
  "\<exists>S' S'' out. CBB_add_asn1_uint64 sample_alloc 0x80 0 (cbb_init [] 0 True) = Some (True, S') \<and>
     CBB_finish sample_alloc True 0 S' = Some (Some out, S'') \<and> out = [0x02, 0x02, 0x00, 0x80]"
proof -
  have "\<forall>n. can_alloc sample_alloc n" "CBB_init sample_alloc 0 = (True, cbb_init [] 0 True)"
    by (simp_all add: sample_alloc_def CBB_init_def)
  from asn1_uint64_round_trip [where v = "0x80", OF this]
  have "\<exists>S' S'' out. CBB_add_asn1_uint64 sample_alloc 0x80 0 (cbb_init [] 0 True) = Some (True, S') \<and>
     CBB_finish sample_alloc True 0 S' = Some (Some out, S'') \<and> out = der CBS_ASN1_INTEGER (uint_content (unat (0x80 :: u64)))" by blast
  moreover have "der CBS_ASN1_INTEGER (uint_content (unat (0x80 :: u64))) = [0x02, 0x02, 0x00, 0x80]" by code_simp
  ultimately show ?thesis by simp
qed

section \<open>Sets\<close>

lemma compare_le: "compare_set_of_element xs ys \<le> 0 \<longleftrightarrow> xs \<le> ys"
proof (induction xs ys rule: compare_set_of_element.induct)
  case (4 x xs y ys)
  then show ?case using word_uint_eq_iff [of x y] by (auto simp: word_less_def)
qed simp_all

lemma qsort_is_sort: "qsort_by compare_set_of_element xs = sort xs"
proof -
  have "insert_by compare_set_of_element x ys = insort x ys" for x ys
    by (induction ys) (simp_all add: compare_le)
  then show ?thesis by (induction xs) (simp_all add: qsort_by_def)
qed

definition is_der :: "u8 list \<Rightarrow> bool" where
  "is_der x \<longleftrightarrow> (\<exists>tag c. valid_tag tag \<and> length c < 2 ^ 32 \<and> x = der tag c)"

lemma set_elements_spec:
  "cbs_holds m c (concat xs) \<Longrightarrow> \<forall>x\<in>set xs. is_der x \<Longrightarrow>
     \<exists>els. set_elements m c = Some (Some els) \<and> list_all2 (cbs_holds m) els xs"
proof (induction xs arbitrary: c)
  case Nil
  then show ?case using holds_len_0 [of m c "[]"] by (subst set_elements.simps) simp
next
  case (Cons x xs)
  then obtain tag ct where x: "valid_tag tag" "length ct < 2 ^ 32" "x = der tag ct" by (auto simp: is_der_def)
  have "x \<noteq> []" using x(3) by (simp add: der_def ident_def)
  then have ne: "cbs_len c \<noteq> 0" using holds_len_0 [OF Cons.prems(1)] by simp
  have "element_parse False (x @ concat xs) =
      Some ((tag, length (ident tag @ der_len (length ct)), x, False, False), concat xs)"
    using x unfolding element_parse_iff by (simp add: der_def)
  from any_element.success [OF _ this, of m c]
  obtain el where el1: "cbs_get_any_asn1_element m False c = Some (Some el, cbs_drop (length x) c)"
    "element_rel m c el (tag, length (ident tag @ der_len (length ct)), x, False, False)"
    "cbs_holds m (cbs_drop (length x) c) (concat xs)"
    using Cons.prems(1) by auto
  then obtain c' where el: "cbs_get_any_asn1_element m False c = Some (Some el, c')" "cbs_holds m (el_out el) x"
    "cbs_holds m c' (concat xs)" by (simp add: element_rel_def window_def)
  obtain els where "set_elements m c' = Some (Some els)" "list_all2 (cbs_holds m) els xs"
    using Cons.IH [OF el(3)] Cons.prems(2) by auto
  then show ?case using ne el(1,2) by (subst set_elements.simps) (simp add: CBS_get_any_asn1_element_def)
qed

lemma load_elements:
  "list_all2 (cbs_holds m) els xs \<Longrightarrow> those (map (\<lambda>e. load_bytes m (cbs_data e) (unat (cbs_len e))) els) = Some xs"
  by (induction rule: list_all2_induct) (simp_all add: cbs_holds_def)

text \<open>Where the content of the innermost child is.\<close>

lemma innermost:
  assumes "reps S (r, fs @ [(k, c)])"
  defines "d \<equiv> Suc (length fs)"
  shows "CBB_flush A d S = Some (True, S)" "CBB_data d S = Some c"
    and "unat (cbb_start d S) = length (r @ gaps fs) + unat (fst k)"
    and "length c' = length c \<Longrightarrow> \<exists>b. buf_store (unat (cbb_start d S)) c' (cbb_base S) = Some b \<and>
      reps (S\<lparr>cbb_base := b\<rparr>) (r, fs @ [(k, c')])"
proof -
  let ?pre = "r @ gaps fs" and ?gap = "replicate (unat (fst k)) (0 :: u8)"
  have len: "length (cbb_kids S) = Suc (length fs)" using reps_kids [OF assms(1)] by (simp add: depth_def)
  then obtain ks kd where ks: "cbb_kids S = ks @ [kd]" "length ks = length fs" by (cases "cbb_kids S" rule: rev_cases) auto
  have h: "buffer_holds (cbb_base S) (?pre @ ?gap @ c)" using assms(1) by (simp add: reps_def)
  have ch: "chain_ok (length r) (ks @ [kd]) (fs @ [(k, c)])" using assms(1) ks by (simp add: reps_def)
  then have kd: "unat (ch_offset kd) = length ?pre" "kind_of kd = k" unfolding chain_ok_append [OF ks(2)] by simp_all
  then have gl: "length ?gap = unat (pending_len_len kd)" by (auto simp: kind_of_def)
  note cb = child_bounds [OF h kd(1) gl]
  have nth: "cbb_kids S ! length fs = kd" using ks by (metis nth_append_length)
  show st: "unat (cbb_start d S) = length ?pre + unat (fst k)"
    using cb(1) nth by (simp add: cbb_start_def d_def)
  have ln: "CBB_len d S = bb_len (cbb_base S) - (ch_offset kd + ucast (pending_len_len kd))"
    using nth by (simp add: CBB_len_def d_def)
  show "CBB_flush A d S = Some (True, S)"
    using h len by (simp add: CBB_flush_def d_def buffer_holds_def)
  show "CBB_data d S = Some c"
    using load_spec [OF h, of "length ?pre + unat (fst k)" "length c"] st ln cb(2) by (simp add: CBB_data_def)
  assume c': "length c' = length c"
  obtain b where b: "buf_store (length ?pre + unat (fst k)) c' (cbb_base S) = Some b" "buffer_holds b (?pre @ ?gap @ c')"
    by (rule store_spec [OF h, of "length ?pre + unat (fst k)" c']) (use c' in auto)
  moreover have "chain_ok (length r) (ks @ [kd]) (fs @ [(k, c')])" using ch unfolding chain_ok_append [OF ks(2)] by simp
  ultimately show "\<exists>b. buf_store (unat (cbb_start d S)) c' (cbb_base S) = Some b \<and> reps (S\<lparr>cbb_base := b\<rparr>) (r, fs @ [(k, c')])"
    using st ks(1) by (auto simp: reps_def)
qed

text \<open>C19: \<open>CBB_flush_asn1_set_of\<close> rewrites the content of a SET OF, when it consists of DER elements
  and the two temporary blocks can be allocated, to the same elements in ascending order of their
  encodings, as DER demands, and leaves everything else as it was.\<close>

theorem CBB_flush_asn1_set_of_sorts:
  assumes "reps S (r, fs @ [(k, concat xs)])" "\<forall>x\<in>set xs. is_der x" "\<forall>n. can_alloc A n"
  shows "\<exists>S'. CBB_flush_asn1_set_of A at (Suc (length fs)) S = Some (True, S') \<and>
    reps S' (r, fs @ [(k, concat (sort xs))])"
proof -
  let ?c = "concat xs" and ?d = "Suc (length fs)"
  let ?m = "put_bytes Map.empty at ?c" and ?cbs = "CBS_init at (of_nat (length (concat xs)))"
  note i = innermost [OF assms(1)]
  have "length ?c \<le> length (r @ gaps (fs @ [(k, ?c)]))" by simp
  then have "length ?c < 2 ^ 64"
    using buffer_length_lt [of "cbb_base S" "r @ gaps (fs @ [(k, ?c)])"] assms(1) by (simp add: reps_def)
  then have "cbs_holds ?m ?cbs ?c" 
    using load_put_same [of Map.empty at ?c] by (simp add: cbs_holds_def CBS_init_def unat_of_nat take_bit_nat_eq_self_iff)
  from set_elements_spec [OF this assms(2)] obtain els where
    els: "set_elements ?m ?cbs = Some (Some els)" "list_all2 (cbs_holds ?m) els xs" by blast
  have n: "length els = length xs" using els(2) by (rule list_all2_lengthD)
  show ?thesis
  proof (cases "length xs < 2")
    case True
    then have "sort xs = xs" by (cases xs; cases "tl xs") auto
    then show ?thesis using True i(1,2) els n assms(1) by (simp add: CBB_flush_asn1_set_of_def Let_def)
  next
    case False
    have perm: "length (concat (sort xs)) = length ?c" 
      by (simp add: length_concat) (metis mset_map mset_sort sum_mset_sum_list)
    obtain b where "buf_store (unat (cbb_start ?d S)) (concat (sort xs)) (cbb_base S) = Some b"
      "reps (S\<lparr>cbb_base := b\<rparr>) (r, fs @ [(k, concat (sort xs))])"
      using i(4) [OF perm] by blast
    then show ?thesis
      using False i(1,2) els n assms(3) load_elements [OF els(2)]
      by (simp add: CBB_flush_asn1_set_of_def Let_def qsort_is_sort)
  qed
qed

definition sample_set :: CBB where
  "sample_set = \<lparr>cbb_base = \<lparr>bb_buf = [0x31, 0, 4, 1, 2, 4, 1, 1], bb_len = 8, bb_cap = 8, can_resize = True, bb_error = False\<rparr>,
     cbb_kids = [\<lparr>ch_offset = 1, pending_len_len = 1, pending_is_asn1 = True\<rparr>]\<rparr>"

theorem CBB_flush_asn1_set_of_sorts_witness:
  "\<exists>S'. CBB_flush_asn1_set_of sample_alloc 64 1 sample_set = Some (True, S') \<and>
     reps S' ([0x31], [((1, True), [4, 1, 1, 4, 1, 2])])"
proof -
  have der: "[4, 1, 2] = der 4 [2]" "[4, 1, 1] = der 4 [1]" "valid_tag 4" by code_simp+
  have "is_der [4, 1, 2]" unfolding is_der_def by (intro exI conjI, rule der(3), rule_tac [2] der(1)) simp
  moreover have "is_der [4, 1, 1]" unfolding is_der_def by (intro exI conjI, rule der(3), rule_tac [2] der(2)) simp
  ultimately have "\<forall>x\<in>set [[4, 1, 2], [4, 1, 1]]. is_der x" by simp
  moreover have "reps sample_set ([0x31], [] @ [((1, True), concat [[4, 1, 2], [4, 1, 1]])])" by code_simp
  moreover have "\<forall>n. can_alloc sample_alloc n" by (simp add: sample_alloc_def)
  ultimately have "\<exists>S'. CBB_flush_asn1_set_of sample_alloc 64 (Suc (length ([] :: ((u8 \<times> bool) \<times> u8 list) list))) sample_set = Some (True, S') \<and>
      reps S' ([0x31], [] @ [((1, True), concat (sort [[4, 1, 2], [4, 1, 1]]))])"
    by (intro CBB_flush_asn1_set_of_sorts)
  moreover have "sort [[4, 1, 2], [4, 1, 1]] = [[4, 1, 1], [4, 1, 2 :: u8]]" by code_simp
  ultimately show ?thesis by simp
qed

section \<open>Object identifiers from text\<close>

text \<open>The text of numbers separated by dots.\<close>

fun dotted :: "nat list \<Rightarrow> u8 list" where
  "dotted [] = []"
| "dotted [n] = dec n"
| "dotted (n # ns) = dec n @ 0x2E # dotted ns"

definition dotted_parse :: "u8 list \<Rightarrow> (nat \<times> u8 list) option" where
  "dotted_parse bs = Option.bind (dec_parse 0 False bs) (\<lambda>(v, rest).
     case rest of [] \<Rightarrow> Some (v, []) | b # rest \<Rightarrow> if b = 0x2E \<and> rest \<noteq> [] then Some (v, rest) else None)"

lemma dec_not_Nil: "dec n \<noteq> []"
  by (subst dec.simps) simp

lemma dotted_Cons: "dotted (n # ns) = dec n @ (if ns = [] then [] else 0x2E # dotted ns)"
  by (cases ns) simp_all

lemma dotted_Nil_iff: "dotted ns = [] \<longleftrightarrow> ns = []"
  by (cases ns) (simp_all add: dotted_Cons dec_not_Nil)

lemma dot_not_digit: "ends_number (0x2E # bs)"
  by (simp add: ends_number_def is_digit_def)

text \<open>One step of the parser takes one number off the text.\<close>

lemma dotted_parse_step:
  assumes "dotted_parse bs = Some (v, rest)"
  shows "v < 2 ^ 64" "rest = dotted ns \<Longrightarrow> bs = dotted (v # ns)"
    and "n < 2 ^ 64 \<Longrightarrow> bs = dotted (n # ns) \<Longrightarrow> n = v \<and> rest = dotted ns"
proof -
  from assms obtain r where r: "dec_parse 0 False bs = Some (v, r)"
    "(r = [] \<and> rest = []) \<or> (rest \<noteq> [] \<and> r = 0x2E # rest)"
  proof -
    from assms obtain w r where w: "dec_parse 0 False bs = Some (w, r)" by (auto simp: dotted_parse_def bind_eq_Some_conv)
    with assms that show thesis by (cases r) (auto simp: dotted_parse_def split: if_splits)
  qed
  then have d: "v < 2 ^ 64" "bs = dec v @ r" unfolding dec_parse_iff by auto
  then show "v < 2 ^ 64" "rest = dotted ns \<Longrightarrow> bs = dotted (v # ns)"
    using r(2) by (auto simp: dotted_Cons dotted_Nil_iff)
  assume n: "n < 2 ^ 64" "bs = dotted (n # ns)"
  let ?r = "if ns = [] then [] else 0x2E # dotted ns"
  have "dec_parse 0 False bs = Some (n, ?r)"
    unfolding dec_parse_iff using n dot_not_digit by (auto simp: dotted_Cons ends_number_def is_digit_def)
  then show "n = v \<and> rest = dotted ns" using r by (auto split: if_splits)
qed

lemma dotted_parse_None: "dotted_parse bs = None \<Longrightarrow> n < 2 ^ 64 \<Longrightarrow> bs \<noteq> dotted (n # ns)"
proof
  assume a: "dotted_parse bs = None" "n < 2 ^ 64" "bs = dotted (n # ns)"
  let ?r = "if ns = [] then [] else 0x2E # dotted ns"
  have "dec_parse 0 False bs = Some (n, ?r)"
    unfolding dec_parse_iff using a dot_not_digit by (auto simp: dotted_Cons ends_number_def is_digit_def)
  then show False using a(1) by (simp add: dotted_parse_def dotted_Nil_iff split: if_splits)
qed

interpretation dotted: byte_reader parse_dotted_decimal dotted_parse "\<lambda>m c v w. unat v = w"
  unfolding parse_dotted_decimal_def [abs_def] dotted_parse_def [abs_def]
proof (rule reads_bind [OF u64_decimal.byte_reader_axioms], goal_cases)
  case (1 m c bs v w n)
  let ?rest = "drop n bs" and ?c = "cbs_drop n c"
  show ?case
  proof (cases ?rest)
    case Nil
    then show ?thesis using u8_Nil [of m ?c] 1 agrees_ret [of "\<lambda>v w. unat v = w" v w ?c "[]"] by simp
  next
    case (Cons b bs')
    have g: "CBS_get_u8 m ?c = Some (Some b, cbs_drop 1 ?c)" "cbs_holds m (cbs_drop 1 ?c) bs'"
      using u8_Cons [of m ?c b bs'] 1 Cons by simp_all
    have "0 < cbs_len (cbs_drop 1 ?c) \<longleftrightarrow> bs' \<noteq> []" using holds_len_0 [OF g(2)] by (simp add: word_gt_0)
    moreover have "agrees (\<lambda>v w. unat v = w) ?c ?rest (Some (Some v, cbs_drop 1 ?c)) (Some (w, bs'))"
      using 1 Cons inside_drop [of 1 ?c] cbs_holds_length [of m ?c ?rest] unfolding agrees_def by (auto intro!: exI [of _ 1])
    moreover have "agrees (\<lambda>v w. unat v = w) ?c ?rest (Some (None, cbs_drop 1 ?c)) None"
      using inside_drop [of 1 ?c] cbs_holds_length [of m ?c ?rest] 1 Cons by (intro agrees_fail) simp
    ultimately show ?thesis using g(1) Cons by (cases "b = 0x2E"; cases "bs' = []") simp_all
  qed
qed

abbreviation arcs :: "nat list \<Rightarrow> u8 list" where
  "arcs ns \<equiv> concat (map b128 ns)"

abbreviation small :: "nat list \<Rightarrow> bool" where
  "small ns \<equiv> \<forall>n\<in>set ns. n < 2 ^ 64"

definition text_outcome :: "cbb_alloc \<Rightarrow> nat \<Rightarrow> u8 list \<Rightarrow> CBB \<Rightarrow> frames \<Rightarrow> cbb_result \<Rightarrow> bool" where
  "text_outcome A d bs S F r \<longleftrightarrow>
     (case r of None \<Rightarrow> False
      | Some (ok, S') \<Rightarrow>
          if ok then \<exists>ns F'. small ns \<and> bs = dotted ns \<and> put d (arcs ns) F = Some F' \<and> reps S' F'
          else \<forall>ns. small ns \<and> bs = dotted ns \<longrightarrow> \<not> roomy A (cbb_base S) (weight F + length (arcs ns)))"

lemma oid_text_loop_spec:
  "cbs_holds m c bs \<Longrightarrow> reps S F \<Longrightarrow> depth F = d \<Longrightarrow> text_outcome A d bs S F (oid_text_loop A m d c S)"
proof (induction "length bs" arbitrary: bs c S F rule: less_induct)
  case less
  show ?case
  proof (cases "bs = []")
    case True
    have "put d (arcs []) F = Some F" using less(4) by (simp add: put_Nil flushed_same)
    then have "\<exists>ns F'. small ns \<and> [] = dotted ns \<and> put d (arcs ns) F = Some F' \<and> reps S F'"
      using less(3) by (intro exI [of _ "[]"] exI [of _ F]) simp
    then show ?thesis using True holds_len_0 [OF less(2)] by (subst oid_text_loop.simps) (simp add: text_outcome_def)
  next
    case False
    then have ne: "cbs_len c \<noteq> 0" using holds_len_0 [OF less(2)] by simp
    have nonempty: "bs = dotted ns \<Longrightarrow> \<exists>n ms. ns = n # ms" for ns using False by (cases ns) auto
    show ?thesis
    proof (cases "dotted_parse bs")
      case None
      then obtain c' where "parse_dotted_decimal m c = Some (None, c')" using dotted.failure [OF less(2)] by metis
      moreover have "bs \<noteq> dotted ns" if "small ns" for ns
        using nonempty [of ns] dotted_parse_None [OF None] that by (cases ns) auto
      ultimately show ?thesis using ne by (subst oid_text_loop.simps) (auto simp: text_outcome_def)
    next
      case (Some p)
      then obtain v rest where p: "dotted_parse bs = Some (v, rest)" by (cases p) auto
      note st = dotted_parse_step [OF p]
      from dotted.success [OF less(2) p] obtain a c' where a: "parse_dotted_decimal m c = Some (Some a, c')"
        "unat a = v" "cbs_holds m c' rest" by metis
      obtain r where "dec_parse 0 False bs = Some (v, r)" "length rest \<le> length r"
      proof -
        from p obtain w r where w: "dec_parse 0 False bs = Some (w, r)" by (auto simp: dotted_parse_def bind_eq_Some_conv)
        with p that show thesis by (cases r) (auto simp: dotted_parse_def split: if_splits)
      qed
      then have shorter: "length rest < length bs" using dec_not_Nil [of v] unfolding dec_parse_iff by (cases "dec v") auto
      have o: "outcome A S F d (put d (b128 v)) (length (b128 v)) (add_base128_integer A a d S)"
        using base128_outcome [OF less(3,4), of A a] a(2) by simp
      then obtain ok S1 where s1: "add_base128_integer A a d S = Some (ok, S1)"
        by (auto simp: outcome_def split: option.splits)
      have F1: "put d (b128 v) F = Some (add_last (b128 v) F)" by (rule put_at [OF less(4)])
      show ?thesis
      proof (cases ok)
        case False
        then have nr: "\<not> roomy A (cbb_base S) (weight F + length (b128 v))" using o s1 F1 by (auto simp: outcome_def)
        have "\<not> roomy A (cbb_base S) (weight F + length (arcs ns))" if ns: "small ns" "bs = dotted ns" for ns
        proof -
          obtain ms where "ns = v # ms" using nonempty [OF ns(2)] st(3) ns by auto
          then show ?thesis using nr roomy_grows [OF _ grows_refl] by auto
        qed
        then show ?thesis using False ne a(1) s1 by (subst oid_text_loop.simps) (simp add: text_outcome_def)
      next
        case True
        let ?F = "add_last (b128 v) F"
        have r1: "reps S1 ?F" "depth ?F = d" "grows (cbb_base S) (cbb_base S1)" "weight ?F = weight F + length (b128 v)"
          using True o s1 F1 less(4) by (auto simp: outcome_def)
        have ih: "text_outcome A d rest S1 ?F (oid_text_loop A m d c' S1)" by (rule less(1) [OF shorter a(3) r1(1,2)])
        have eq: "oid_text_loop A m d c S = oid_text_loop A m d c' S1"
          using ne a(1) s1 True by (subst oid_text_loop.simps) simp
        have put: "put d (arcs (v # ns)) F = put d (arcs ns) ?F" for ns
          using put_put [of d F "b128 v" "arcs ns"] F1 less(4) by simp
        obtain ok2 S2 where s2: "oid_text_loop A m d c' S1 = Some (ok2, S2)" using ih by (auto simp: text_outcome_def split: option.splits)
        show ?thesis
        proof (cases ok2)
          case True
          then obtain ns F' where "small ns" "rest = dotted ns" "put d (arcs ns) ?F = Some F'" "reps S2 F'"
            using ih s2 by (auto simp: text_outcome_def)
          then have "small (v # ns) \<and> bs = dotted (v # ns) \<and> put d (arcs (v # ns)) F = Some F' \<and> reps S2 F'"
            using st(1,2) put by auto
          then have "\<exists>ns F'. small ns \<and> bs = dotted ns \<and> put d (arcs ns) F = Some F' \<and> reps S2 F'" by blast
          then show ?thesis unfolding text_outcome_def eq s2 by (simp only: option.case prod.case True if_True)
        next
          case False
          have "\<not> roomy A (cbb_base S) (weight F + length (arcs ns))" if ns: "small ns" "bs = dotted ns" for ns
          proof -
            obtain k ms where k: "ns = k # ms" using nonempty [OF ns(2)] by blast
            then have ms: "ns = v # ms" "rest = dotted ms" using st(3) [of k ms] ns by simp_all
            then have "\<not> roomy A (cbb_base S1) (weight ?F + length (arcs ms))" using ih s2 False ns by (auto simp: text_outcome_def)
            then show ?thesis using roomy_grows [OF _ r1(3)] r1(4) ms by (auto simp: add.assoc)
          qed
          then show ?thesis using False s2 eq by (simp add: text_outcome_def)
        qed
      qed
    qed
  qed
qed

text \<open>Which numbers the encoder takes: the first two are folded into one.\<close>

definition oid_numbers :: "nat \<Rightarrow> nat \<Rightarrow> nat list \<Rightarrow> bool" where
  "oid_numbers a b ns \<longleftrightarrow> a \<le> 2 \<and> (a < 2 \<longrightarrow> b \<le> 39) \<and> b + 80 < 2 ^ 64 \<and> small ns"

definition oid_content :: "nat \<Rightarrow> nat \<Rightarrow> nat list \<Rightarrow> u8 list" where
  "oid_content a b ns = arcs ((40 * a + b) # ns)"

lemma fold_arcs:
  assumes "unat (a :: u64) \<le> 2" "unat (b :: u64) + 80 < 2 ^ 64"
  shows "unat (40 * a + b) = 40 * unat a + unat b"
proof -
  have "unat (40 * a) = 40 * unat a" using assms(1) by (simp add: unat_word_ariths)
  then show ?thesis using assms unat_sum [of "40 * a" "40 * unat a" b "unat b"] by simp
qed

lemma oid_range:
  "2 < (a :: u64) \<or> (a < 2 \<and> 39 < b) \<or> - 1 - 80 < (b :: u64) \<longleftrightarrow>
     \<not> (unat a \<le> 2 \<and> (unat a < 2 \<longrightarrow> unat b \<le> 39) \<and> unat b + 80 < 2 ^ 64)"
  by (auto simp: word_less_nat_alt)

lemma oid_numbers_range: "oid_numbers a b ns \<Longrightarrow> a < 2 ^ 64 \<and> b < 2 ^ 64"
  by (simp add: oid_numbers_def)

lemma text_numbers:
  assumes "dotted_parse bs = Some (v, r1)" "dotted_parse r1 = Some (w, r2)" "oid_numbers a b ns" "bs = dotted (a # b # ns)"
  shows "a = v" "b = w" "r2 = dotted ns"
proof -
  have r: "a < 2 ^ 64" "b < 2 ^ 64" using oid_numbers_range [OF assms(3)] by simp_all
  from dotted_parse_step(3) [OF assms(1) r(1) assms(4)] have "a = v" "r1 = dotted (b # ns)" by simp_all
  then show "a = v" "b = w" "r2 = dotted ns" using dotted_parse_step(3) [OF assms(2) r(2)] by simp_all
qed

text \<open>The part after the flush.\<close>

definition oid_outcome :: "cbb_alloc \<Rightarrow> nat \<Rightarrow> u8 list \<Rightarrow> CBB \<Rightarrow> frames \<Rightarrow> cbb_result \<Rightarrow> bool" where
  "oid_outcome A d bs S F r \<longleftrightarrow>
     (case r of None \<Rightarrow> False
      | Some (ok, S') \<Rightarrow>
          if ok then \<exists>a b ns F'. oid_numbers a b ns \<and> bs = dotted (a # b # ns) \<and>
            put d (oid_content a b ns) F = Some F' \<and> reps S' F'
          else \<forall>a b ns. oid_numbers a b ns \<and> bs = dotted (a # b # ns) \<longrightarrow>
            \<not> roomy A (cbb_base S) (weight F + length (oid_content a b ns)))"

lemma oid_numbers_outcome:
  assumes F: "reps S F" "depth F = d" and n: "oid_numbers (unat a) (unat b) []"
    and h: "cbs_holds m c r2" and p: "dotted_parse bs = Some (unat a, r1)" "dotted_parse r1 = Some (unat b, r2)"
  shows "oid_outcome A d bs S F (and_then (add_base128_integer A (40 * a + b) d S) (oid_text_loop A m d c))"
proof -
  let ?v = "40 * unat a + unat b"
  have v: "unat (40 * a + b) = ?v" using n by (intro fold_arcs) (auto simp: oid_numbers_def)
  have o: "outcome A S F d (put d (b128 ?v)) (length (b128 ?v)) (add_base128_integer A (40 * a + b) d S)"
    using base128_outcome [OF F, of A "40 * a + b"] v by simp
  then obtain ok S1 where s1: "add_base128_integer A (40 * a + b) d S = Some (ok, S1)"
    by (auto simp: outcome_def split: option.splits)
  have F1: "put d (b128 ?v) F = Some (add_last (b128 ?v) F)" by (rule put_at [OF F(2)])
  note t = text_numbers [OF p]
  show ?thesis
  proof (cases ok)
    case False
    then have "\<not> roomy A (cbb_base S) (weight F + length (b128 ?v))" using o s1 F1 by (auto simp: outcome_def)
    then have "\<not> roomy A (cbb_base S) (weight F + length (oid_content x y ns))"
      if "oid_numbers x y ns" "bs = dotted (x # y # ns)" for x y ns
      using t(1,2) [OF that] roomy_grows [OF _ grows_refl] by (auto simp: oid_content_def)
    then show ?thesis using False s1 by (simp add: oid_outcome_def)
  next
    case True
    let ?F = "add_last (b128 ?v) F"
    have r1: "reps S1 ?F" "depth ?F = d" "grows (cbb_base S) (cbb_base S1)" "weight ?F = weight F + length (b128 ?v)"
      using True o s1 F1 F(2) by (auto simp: outcome_def)
    have put: "put d (oid_content (unat a) (unat b) ns) F = put d (arcs ns) ?F" for ns
      using put_put [of d F "b128 ?v" "arcs ns"] F1 F(2) by (simp add: oid_content_def)
    have l: "text_outcome A d r2 S1 ?F (oid_text_loop A m d c S1)" by (rule oid_text_loop_spec [OF h r1(1,2)])
    then obtain ok2 S2 where s2: "oid_text_loop A m d c S1 = Some (ok2, S2)" by (auto simp: text_outcome_def split: option.splits)
    show ?thesis
    proof (cases ok2)
      case True
      then obtain ns F' where ns: "small ns" "r2 = dotted ns" "put d (arcs ns) ?F = Some F'" "reps S2 F'"
        using l s2 by (auto simp: text_outcome_def)
      have "r1 = dotted (unat b # ns)" using dotted_parse_step(2) [OF p(2) ns(2)] .
      then have "bs = dotted (unat a # unat b # ns)" by (rule dotted_parse_step(2) [OF p(1)])
      moreover have "oid_numbers (unat a) (unat b) ns" using n ns(1) by (simp add: oid_numbers_def)
      ultimately have "\<exists>a b ns F'. oid_numbers a b ns \<and> bs = dotted (a # b # ns) \<and>
          put d (oid_content a b ns) F = Some F' \<and> reps S2 F'" using put ns(3,4) by metis
      then show ?thesis using \<open>ok\<close> True s1 s2 by (simp add: oid_outcome_def)
    next
      case False
      have "\<not> roomy A (cbb_base S) (weight F + length (oid_content x y ns))"
        if a: "oid_numbers x y ns" "bs = dotted (x # y # ns)" for x y ns
      proof -
        have "\<not> roomy A (cbb_base S1) (weight ?F + length (arcs ns))"
          using l s2 False t(3) [OF a] a(1) by (auto simp: text_outcome_def oid_numbers_def)
        then show ?thesis using roomy_grows [OF _ r1(3)] r1(4) t(1,2) [OF a] by (auto simp: oid_content_def add.assoc)
      qed
      then show ?thesis using \<open>ok\<close> False s1 s2 by (simp add: oid_outcome_def)
    qed
  qed
qed

lemma oid_text_numbers_outcome:
  assumes F: "reps S F" "depth F = d" and h: "cbs_holds m c bs"
  shows "oid_outcome A d bs S F (oid_text_numbers A m c d S)"
proof -
  have refuse: "oid_outcome A d bs S F (Some (False, S))" if "\<And>a b ns. oid_numbers a b ns \<Longrightarrow> bs \<noteq> dotted (a # b # ns)"
    using that by (auto simp: oid_outcome_def)
  show ?thesis
  proof (cases "dotted_parse bs")
    case None
    then obtain c' where "parse_dotted_decimal m c = Some (None, c')" using dotted.failure [OF h] by metis
    moreover have "oid_outcome A d bs S F (Some (False, S))"
      by (rule refuse) (use dotted_parse_None [OF None] oid_numbers_range in blast)
    ultimately show ?thesis by (simp add: oid_text_numbers_def)
  next
    case (Some p)
    then obtain v r1 where p: "dotted_parse bs = Some (v, r1)" by (cases p) auto
    from dotted.success [OF h p] obtain a c1 where a: "parse_dotted_decimal m c = Some (Some a, c1)"
      "unat a = v" "cbs_holds m c1 r1" by metis
    show ?thesis
    proof (cases "dotted_parse r1")
      case None
      then obtain c' where "parse_dotted_decimal m c1 = Some (None, c')" using dotted.failure [OF a(3)] by metis
      moreover have "oid_outcome A d bs S F (Some (False, S))"
      proof (rule refuse)
        fix x y ns
        assume n: "oid_numbers x y ns"
        show "bs \<noteq> dotted (x # y # ns)"
          using dotted_parse_step(3) [OF p, of x "y # ns"] dotted_parse_None [OF None, of y ns] oid_numbers_range [OF n] by auto
      qed
      ultimately show ?thesis using a(1) by (simp add: oid_text_numbers_def)
    next
      case (Some q)
      then obtain w r2 where q: "dotted_parse r1 = Some (w, r2)" by (cases q) auto
      from dotted.success [OF a(3) q] obtain b c2 where b: "parse_dotted_decimal m c1 = Some (Some b, c2)"
        "unat b = w" "cbs_holds m c2 r2" by metis
      show ?thesis
      proof (cases "oid_numbers (unat a) (unat b) []")
        case True
        then show ?thesis
          using oid_numbers_outcome [OF F True b(3), of bs r1 A] p q a b oid_range [of a b] by (auto simp: oid_numbers_def oid_text_numbers_def)
      next
        case False
        have "oid_outcome A d bs S F (Some (False, S))"
        proof (rule refuse)
          fix x y ns
          assume n: "oid_numbers x y ns"
          show "bs \<noteq> dotted (x # y # ns)"
          proof
            assume "bs = dotted (x # y # ns)"
            from text_numbers(1,2) [OF p q n this] have "oid_numbers (unat a) (unat b) []"
              using n a(2) b(2) by (simp add: oid_numbers_def)
            then show False using False by simp
          qed
        qed
        then show ?thesis using False a(1) b(1) oid_range [of a b] by (simp add: oid_numbers_def oid_text_numbers_def)
      qed
    qed
  qed
qed

text \<open>C18: \<open>CBB_add_asn1_oid_from_text\<close> is defined on every text, terminates, and succeeds only when
  the text is an OID with at least two numbers in canonical decimal, separated by dots, the first at
  most 2, the second at most 39 below that, and all of them within 64 bits; it then appends the base 128
  encoding, and it fails on such a text only when children cannot be closed or memory is missing.\<close>

theorem CBB_add_asn1_oid_from_text_exact:
  assumes "cbs_holds m (CBS_init text len) bs" "reps S F" "d \<le> depth F"
  shows "case CBB_add_asn1_oid_from_text A m text len d S of None \<Rightarrow> False
    | Some (ok, S') \<Rightarrow>
        if ok then \<exists>a b ns F'. oid_numbers a b ns \<and> bs = dotted (a # b # ns) \<and>
          put d (oid_content a b ns) F = Some F' \<and> reps S' F'
        else flushed d F = None \<or> (\<forall>a b ns. oid_numbers a b ns \<and> bs = dotted (a # b # ns) \<longrightarrow>
          \<not> roomy A (cbb_base S) (weight F + length (oid_content a b ns)))"
proof -
  have eq: "CBB_add_asn1_oid_from_text A m text len d S = and_then (CBB_flush A d S) (oid_text_numbers A m (CBS_init text len) d)"
    by (simp add: CBB_add_asn1_oid_from_text_def)
  have o: "outcome A S F d (flushed d) 0 (CBB_flush A d S)" by (rule flush_outcome [OF assms(2,3)])
  then obtain ok S0 where s0: "CBB_flush A d S = Some (ok, S0)" by (auto simp: outcome_def split: option.splits)
  show ?thesis
  proof (cases ok)
    case False
    then have "flushed d F = None \<or> \<not> roomy A (cbb_base S) (weight F)" using o s0 by (simp add: outcome_def)
    then show ?thesis using False eq s0 roomy_grows [OF _ grows_refl] by auto
  next
    case True
    then obtain F0 where F0: "flushed d F = Some F0" "reps S0 F0" "depth F0 = d" "grows (cbb_base S) (cbb_base S0)" "weight F0 \<le> weight F"
      using o s0 by (auto simp: outcome_def)
    have put: "put d x F0 = put d x F" for x using F0(1,3) by (simp add: put_def flushed_same)
    have "CBB_add_asn1_oid_from_text A m text len d S = oid_text_numbers A m (CBS_init text len) d S0" using eq s0 True by simp
    then have main: "oid_outcome A d bs S0 F0 (CBB_add_asn1_oid_from_text A m text len d S)" using oid_text_numbers_outcome [OF F0(2,3) assms(1)] by simp
    then obtain ok1 S1 where s1: "CBB_add_asn1_oid_from_text A m text len d S = Some (ok1, S1)"
      by (auto simp: oid_outcome_def split: option.splits)
    have room: "roomy A (cbb_base S) (weight F + k) \<Longrightarrow> roomy A (cbb_base S0) (weight F0 + k)" for k
      using roomy_grows [OF _ F0(4)] F0(5) by simp
    show ?thesis
    proof (cases ok1)
      case True
      then show ?thesis using main unfolding oid_outcome_def s1 put by simp
    next
      case False
      then have "\<forall>a b ns. oid_numbers a b ns \<and> bs = dotted (a # b # ns) \<longrightarrow>
          \<not> roomy A (cbb_base S0) (weight F0 + length (oid_content a b ns))"
        using main unfolding oid_outcome_def s1 by simp
      then have "\<forall>a b ns. oid_numbers a b ns \<and> bs = dotted (a # b # ns) \<longrightarrow>
          \<not> roomy A (cbb_base S) (weight F + length (oid_content a b ns))"
        using room by blast
      then show ?thesis unfolding s1 using False by simp
    qed
  qed
qed

definition oid_text :: mem where
  "oid_text = put_bytes Map.empty 64 [0x31, 0x2E, 0x32, 0x2E, 0x38, 0x34, 0x30]"

theorem CBB_add_asn1_oid_from_text_exact_witness:
  "\<exists>S' a b ns F'. CBB_add_asn1_oid_from_text sample_alloc oid_text 64 7 1 sample_set = Some (True, S') \<and>
     [0x31, 0x2E, 0x32, 0x2E, 0x38, 0x34, 0x30] = dotted (a # b # ns) \<and>
     put 1 (oid_content a b ns) ([0x31], [((1, True), [4, 1, 2, 4, 1, 1])]) = Some F' \<and> reps S' F'"
proof -
  have h: "cbs_holds oid_text (CBS_init 64 7) [0x31, 0x2E, 0x32, 0x2E, 0x38, 0x34, 0x30]"
    "reps sample_set ([0x31], [((1, True), [4, 1, 2, 4, 1, 1])])"
    "1 \<le> depth ([0x31], [((1 :: u8, True), [4, 1, 2, 4, 1, 1 :: u8])])" by code_simp+
  have "case CBB_add_asn1_oid_from_text sample_alloc oid_text 64 7 1 sample_set of None \<Rightarrow> False | Some (ok, _) \<Rightarrow> ok" by code_simp
  then obtain S' where S': "CBB_add_asn1_oid_from_text sample_alloc oid_text 64 7 1 sample_set = Some (True, S')"
    by (auto split: option.splits)
  have "\<exists>a b ns F'. [0x31, 0x2E, 0x32, 0x2E, 0x38, 0x34, 0x30] = dotted (a # b # ns) \<and>
     put 1 (oid_content a b ns) ([0x31], [((1, True), [4, 1, 2, 4, 1, 1])]) = Some F' \<and> reps S' F'"
    using CBB_add_asn1_oid_from_text_exact [OF h, of sample_alloc] unfolding S' option.case prod.case if_True by blast
  then show ?thesis using S' by blast
qed

end
