(* ===== verification/Boring_Time.thy ===== *)
theory Boring_Time
  imports Boring_CBS "HOL-Library.Signed_Division"
begin

text \<open>
  Calendar time in BoringSSL: \<open>crypto/asn1/posix_time.c\<close> and the time parsers of
  \<open>crypto/bytestring/cbs.c\<close>. C's signed integers are \<^typ>\<open>int\<close> with C's division \<open>sdiv\<close> and remainder
  \<open>smod\<close>, which truncate towards zero; the code checks its arguments before it computes with them, and
  where it guards a 64 bit addition against overflow the bounds are written out.
\<close>

definition INT64_MAX :: int where "INT64_MAX = 9223372036854775807"
definition INT64_MIN :: int where "INT64_MIN = - 9223372036854775808"

definition SECS_PER_HOUR :: int where "SECS_PER_HOUR = 60 * 60"
definition SECS_PER_DAY :: int where "SECS_PER_DAY = 24 * SECS_PER_HOUR"

text \<open>The fields of \<open>struct tm\<close> the code uses.\<close>

record tm =
  tm_year :: int
  tm_mon :: int
  tm_mday :: int
  tm_hour :: int
  tm_min :: int
  tm_sec :: int

section \<open>posix_time.c\<close>

definition is_valid_date :: "int \<Rightarrow> int \<Rightarrow> int \<Rightarrow> bool" where
  "is_valid_date year month day =
     (if day < 1 \<or> month < 1 \<or> year < 0 \<or> 9999 < year then False
      else if month \<in> {1, 3, 5, 7, 8, 10, 12} then 0 < day \<and> day \<le> 31
      else if month \<in> {4, 6, 9, 11} then 0 < day \<and> day \<le> 30
      else if month = 2
      then if (year smod 4 = 0 \<and> year smod 100 \<noteq> 0) \<or> year smod 400 = 0 then 0 < day \<and> day \<le> 29
           else 0 < day \<and> day \<le> 28
      else False)"

definition is_valid_time :: "int \<Rightarrow> int \<Rightarrow> int \<Rightarrow> bool" where
  "is_valid_time hours minutes seconds =
     (\<not> (hours < 0 \<or> minutes < 0 \<or> seconds < 0 \<or> 23 < hours \<or> 59 < minutes \<or> 59 < seconds))"

definition MIN_POSIX_TIME :: int where "MIN_POSIX_TIME = - 62167219200"
definition MAX_POSIX_TIME :: int where "MAX_POSIX_TIME = 253402300799"

definition is_valid_posix_time :: "int \<Rightarrow> bool" where
  "is_valid_posix_time time \<longleftrightarrow> MIN_POSIX_TIME \<le> time \<and> time \<le> MAX_POSIX_TIME"

definition posix_time_from_utc :: "int \<Rightarrow> int \<Rightarrow> int \<Rightarrow> int \<Rightarrow> int \<Rightarrow> int \<Rightarrow> int option" where
  "posix_time_from_utc year month day hours minutes seconds =
     (if \<not> is_valid_date year month day \<or> \<not> is_valid_time hours minutes seconds then None
      else
        (let year = (if month \<le> 2 then year - 1 else year);
             era = (if 0 \<le> year then year else year - 399) sdiv 400;
             year_of_era = year - era * 400;
             day_of_year = (153 * (if 2 < month then month - 3 else month + 9) + 2) sdiv 5 + day - 1;
             day_of_era = year_of_era * 365 + year_of_era sdiv 4 - year_of_era sdiv 100 + day_of_year;
             posix_days = era * 146097 + day_of_era - 719468
         in Some (posix_days * SECS_PER_DAY + hours * SECS_PER_HOUR + minutes * 60 + seconds)))"

definition utc_from_posix_time :: "int \<Rightarrow> (int \<times> int \<times> int \<times> int \<times> int \<times> int) option" where
  "utc_from_posix_time time =
     (if \<not> is_valid_posix_time time then None
      else
        (let days = time sdiv SECS_PER_DAY;
             leftover_seconds = time smod SECS_PER_DAY;
             (days, leftover_seconds) =
               (if leftover_seconds < 0 then (days - 1, leftover_seconds + SECS_PER_DAY) else (days, leftover_seconds));
             days = days + 719468;
             era = (if 0 < days then days else days - 146096) sdiv 146097;
             day_of_era = days - era * 146097;
             year_of_era = (day_of_era - day_of_era sdiv 1460 + day_of_era sdiv 36524 - day_of_era sdiv 146096) sdiv 365;
             out_year = year_of_era + era * 400;
             day_of_year = day_of_era - (365 * year_of_era + year_of_era sdiv 4 - year_of_era sdiv 100);
             month_of_year = (5 * day_of_year + 2) sdiv 153;
             out_month = (if month_of_year < 10 then month_of_year + 3 else month_of_year - 9);
             out_year = (if out_month \<le> 2 then out_year + 1 else out_year);
             out_day = day_of_year - (153 * month_of_year + 2) sdiv 5 + 1;
             out_hours = leftover_seconds sdiv SECS_PER_HOUR;
             leftover_seconds = leftover_seconds smod SECS_PER_HOUR
         in Some (out_year, out_month, out_day, out_hours, leftover_seconds sdiv 60, leftover_seconds smod 60)))"

definition OPENSSL_tm_to_posix :: "tm \<Rightarrow> int option" where
  "OPENSSL_tm_to_posix t =
     posix_time_from_utc (tm_year t + 1900) (tm_mon t + 1) (tm_mday t) (tm_hour t) (tm_min t) (tm_sec t)"

definition OPENSSL_posix_to_tm :: "int \<Rightarrow> tm option" where
  "OPENSSL_posix_to_tm time =
     (case utc_from_posix_time time of None \<Rightarrow> None
      | Some (year, mon, mday, hour, minute, sec) \<Rightarrow>
          Some \<lparr>tm_year = year - 1900, tm_mon = mon - 1, tm_mday = mday, tm_hour = hour, tm_min = minute, tm_sec = sec\<rparr>)"

text \<open>\<open>time_t\<close> has 64 bits, so the range check of \<open>OPENSSL_timegm\<close> for 32 bits is not compiled in.\<close>

definition OPENSSL_timegm :: "tm \<Rightarrow> int option" where
  "OPENSSL_timegm t = OPENSSL_tm_to_posix t"

definition OPENSSL_gmtime :: "int \<Rightarrow> tm option" where
  "OPENSSL_gmtime time = OPENSSL_posix_to_tm time"

definition OPENSSL_gmtime_adj :: "tm \<Rightarrow> int \<Rightarrow> int \<Rightarrow> tm option" where
  "OPENSSL_gmtime_adj t offset_day offset_sec =
     (case OPENSSL_tm_to_posix t of None \<Rightarrow> None
      | Some posix_time \<Rightarrow>
          (let posix_time = posix_time + offset_day * SECS_PER_DAY in
           if 0 < posix_time \<and> INT64_MAX - posix_time < offset_sec then None
           else if posix_time < 0 \<and> offset_sec < INT64_MIN - posix_time then None
           else OPENSSL_posix_to_tm (posix_time + offset_sec)))"

text \<open>The result is days and seconds.\<close>

definition OPENSSL_gmtime_diff :: "tm \<Rightarrow> tm \<Rightarrow> (int \<times> int) option" where
  "OPENSSL_gmtime_diff frm to =
     (case (OPENSSL_tm_to_posix to, OPENSSL_tm_to_posix frm) of
        (Some time_to, Some time_from) \<Rightarrow>
          (let timediff = time_to - time_from in Some (timediff sdiv SECS_PER_DAY, timediff smod SECS_PER_DAY))
      | _ \<Rightarrow> None)"

section \<open>Time strings\<close>

definition cbs_get_two_digits :: "mem \<Rightarrow> CBS \<Rightarrow> int cbs_result" where
  "cbs_get_two_digits m c =
     cbs_bind (CBS_get_u8 m c) (\<lambda>first_digit c.
       if \<not> OPENSSL_isdigit (uint first_digit) then Some (None, c)
       else cbs_bind (CBS_get_u8 m c) (\<lambda>second_digit c.
         if \<not> OPENSSL_isdigit (uint second_digit) then Some (None, c)
         else Some (Some ((uint first_digit - 48) * 10 + (uint second_digit - 48)), c)))"

definition is_valid_day :: "int \<Rightarrow> int \<Rightarrow> int \<Rightarrow> bool" where
  "is_valid_day year month day =
     (if day < 1 then False
      else if month \<in> {1, 3, 5, 7, 8, 10, 12} then day \<le> 31
      else if month \<in> {4, 6, 9, 11} then day \<le> 30
      else if month = 2
      then if (year smod 4 = 0 \<and> year smod 100 \<noteq> 0) \<or> year smod 400 = 0 then day \<le> 29 else day \<le> 28
      else False)"

text \<open>A two digit number with a range check, the shape of most steps of the parser.\<close>

definition two_digits_in :: "mem \<Rightarrow> (int \<Rightarrow> bool) \<Rightarrow> CBS \<Rightarrow> int cbs_result" where
  "two_digits_in m ok c = cbs_bind (cbs_get_two_digits m c) (\<lambda>n c. Some (if ok n then Some n else None, c))"

definition parse_year :: "mem \<Rightarrow> bool \<Rightarrow> CBS \<Rightarrow> int cbs_result" where
  "parse_year m is_gentime c =
     (if is_gentime
      then cbs_bind (cbs_get_two_digits m c) (\<lambda>tmp c.
        let year = tmp * 100 in
        cbs_bind (cbs_get_two_digits m c) (\<lambda>tmp c. Some (Some (year + tmp), c)))
      else cbs_bind (cbs_get_two_digits m c) (\<lambda>tmp c.
        let year = 1900 + tmp; year = (if year < 1950 then year + 100 else year) in
        Some (if 2050 \<le> year then None else Some year, c)))"

text \<open>The offset in seconds after the time zone byte.\<close>

definition parse_offset :: "mem \<Rightarrow> bool \<Rightarrow> u8 \<Rightarrow> CBS \<Rightarrow> int cbs_result" where
  "parse_offset m allow_timezone_offset tz c =
     (if tz = 0x5A then Some (Some 0, c)
      else if tz = 0x2B \<or> tz = 0x2D
      then
        (let offset_sign = (if tz = 0x2B then 1 else - 1) in
         if \<not> allow_timezone_offset then Some (None, c)
         else cbs_bind (two_digits_in m (\<lambda>n. \<not> 23 < n) c) (\<lambda>offset_hours c.
           cbs_bind (two_digits_in m (\<lambda>n. \<not> 59 < n) c) (\<lambda>offset_minutes c.
             Some (Some (offset_sign * (offset_hours * 3600 + offset_minutes * 60)), c))))
      else Some (None, c))"

text \<open>The fields of the string: date, time of day and offset.\<close>

definition parse_time_fields :: "mem \<Rightarrow> bool \<Rightarrow> bool \<Rightarrow> CBS \<Rightarrow> (tm \<times> int) cbs_result" where
  "parse_time_fields m is_gentime allow_timezone_offset c =
     cbs_bind (parse_year m is_gentime c) (\<lambda>year c.
     cbs_bind (two_digits_in m (\<lambda>n. \<not> (n < 1 \<or> 12 < n)) c) (\<lambda>month c.
     cbs_bind (two_digits_in m (is_valid_day year month) c) (\<lambda>day c.
     cbs_bind (two_digits_in m (\<lambda>n. \<not> 23 < n) c) (\<lambda>hour c.
     cbs_bind (two_digits_in m (\<lambda>n. \<not> 59 < n) c) (\<lambda>minute c.
     cbs_bind (two_digits_in m (\<lambda>n. \<not> 59 < n) c) (\<lambda>sec c.
     cbs_bind (CBS_get_u8 m c) (\<lambda>tz c.
     cbs_bind (parse_offset m allow_timezone_offset tz c) (\<lambda>offset_seconds c.
       Some (Some (\<lparr>tm_year = year - 1900, tm_mon = month - 1, tm_mday = day, tm_hour = hour, tm_min = minute,
                    tm_sec = sec\<rparr>, offset_seconds), c)))))))))"

text \<open>
  \<open>out_tm\<close> is the caller's structure, \<^term>\<open>None\<close> for a null pointer; the result is the return value
  and the structure afterwards.
\<close>

definition CBS_parse_rfc5280_time_internal ::
    "mem \<Rightarrow> CBS \<Rightarrow> bool \<Rightarrow> bool \<Rightarrow> tm option \<Rightarrow> (bool \<times> tm option) option" where
  "CBS_parse_rfc5280_time_internal m c is_gentime allow_timezone_offset out_tm =
     (case parse_time_fields m is_gentime allow_timezone_offset c of None \<Rightarrow> None
      | Some (None, _) \<Rightarrow> Some (False, out_tm)
      | Some (Some (t, offset_seconds), copy) \<Rightarrow>
          if cbs_len copy \<noteq> 0 then Some (False, out_tm)
          else if out_tm = None then Some (True, None)
          else if offset_seconds = 0 then Some (True, Some t)
          else
            (case OPENSSL_gmtime_adj t 0 offset_seconds of None \<Rightarrow> Some (False, Some t)
             | Some t \<Rightarrow> Some (True, Some t)))"

definition CBS_parse_generalized_time :: "mem \<Rightarrow> CBS \<Rightarrow> tm option \<Rightarrow> bool \<Rightarrow> (bool \<times> tm option) option" where
  "CBS_parse_generalized_time m c out_tm allow_timezone_offset =
     CBS_parse_rfc5280_time_internal m c True allow_timezone_offset out_tm"

definition CBS_parse_utc_time :: "mem \<Rightarrow> CBS \<Rightarrow> tm option \<Rightarrow> bool \<Rightarrow> (bool \<times> tm option) option" where
  "CBS_parse_utc_time m c out_tm allow_timezone_offset =
     CBS_parse_rfc5280_time_internal m c False allow_timezone_offset out_tm"

end
