(* ===== verification/Boring_Time_Correct.thy ===== *)
theory Boring_Time_Correct
  imports Boring_Time Boring_DER_Correct
begin

text \<open>
  The calendar functions against a calendar that counts days year by year and month by month, and the
  time parsers against the written form of a time.
\<close>

section \<open>The reference calendar\<close>

definition leap :: "int \<Rightarrow> bool" where
  "leap y \<longleftrightarrow> (4 dvd y \<and> \<not> 100 dvd y) \<or> 400 dvd y"

definition month_days :: "int \<Rightarrow> int \<Rightarrow> int" where
  "month_days y m = (if m = 2 then if leap y then 29 else 28 else if m \<in> {4, 6, 9, 11} then 30 else 31)"

definition valid_date :: "int \<Rightarrow> int \<Rightarrow> int \<Rightarrow> bool" where
  "valid_date y m d \<longleftrightarrow> 0 \<le> y \<and> y \<le> 9999 \<and> 1 \<le> m \<and> m \<le> 12 \<and> 1 \<le> d \<and> d \<le> month_days y m"

definition valid_time :: "int \<Rightarrow> int \<Rightarrow> int \<Rightarrow> bool" where
  "valid_time h mi s \<longleftrightarrow> 0 \<le> h \<and> h \<le> 23 \<and> 0 \<le> mi \<and> mi \<le> 59 \<and> 0 \<le> s \<and> s \<le> 59"

primrec days_before_year :: "nat \<Rightarrow> int" where
  "days_before_year 0 = 0"
| "days_before_year (Suc y) = days_before_year y + (if leap (int y) then 366 else 365)"

text \<open>Days since 1 January 0000.\<close>

definition day_number :: "int \<Rightarrow> int \<Rightarrow> int \<Rightarrow> int" where
  "day_number y m d = days_before_year (nat y) + sum_list (map (month_days y) [1..m - 1]) + (d - 1)"

section \<open>C division\<close>

lemma sdiv_pos: "0 \<le> a \<Longrightarrow> 0 < b \<Longrightarrow> (a :: int) sdiv b = a div b"
  and smod_pos: "0 \<le> a \<Longrightarrow> 0 < b \<Longrightarrow> (a :: int) smod b = a mod b"
  by (simp_all add: signed_divide_int_def signed_modulo_int_def sgn_if)

lemma smod_eq_0: "(a :: int) smod b = 0 \<longleftrightarrow> b dvd a"
  by (auto simp: signed_modulo_int_def dvd_eq_mod_eq_0 [symmetric] sgn_eq_0_iff)

text \<open>The adjustments before a truncating division make it round down.\<close>

lemma floor_neg: "(y :: int) < 0 \<Longrightarrow> 0 < k \<Longrightarrow> (y - (k - 1)) sdiv k = y div k"
proof -
  assume y: "y < 0" and k: "0 < k"
  let ?q = "(k - 1 - y) div k" and ?r = "(k - 1 - y) mod k"
  have "k - 1 - y = k * ?q + ?r" by simp
  then have "y = k * (- ?q) + (k - 1 - ?r)" by (simp add: algebra_simps)
  moreover have "0 \<le> k - 1 - ?r" "k - 1 - ?r < k" using k pos_mod_bound [of k "k - 1 - y"] pos_mod_sign [of k "k - 1 - y"] by linarith+
  ultimately have "y div k = - ?q" by (rule int_div_pos_eq)
  moreover have "(y - (k - 1)) sdiv k = - ?q" using y k by (simp add: signed_divide_int_def sgn_if algebra_simps)
  ultimately show ?thesis by simp
qed

lemma floor_400: "(if 0 \<le> y then y else y - 399) sdiv 400 = (y :: int) div 400"
  using floor_neg [of y 400] by (simp add: sdiv_pos)

lemma floor_era: "(if 0 < n then n else n - 146096) sdiv 146097 = (n :: int) div 146097"
  using floor_neg [of n 146097] by (cases "n = 0") (auto simp: sdiv_pos signed_divide_int_def sgn_if)

lemma floor_day:
  "(if t smod 86400 < 0 then (t sdiv 86400 - 1, t smod 86400 + 86400) else (t sdiv 86400, t smod 86400)) =
     ((t :: int) div 86400, t mod 86400)"
proof -
  have "t sdiv 86400 = t div 86400 + of_bool (t < 0 \<and> \<not> 86400 dvd t)" "t smod 86400 = t mod 86400 - 86400 * of_bool (t < 0 \<and> \<not> 86400 dvd t)"
    by (auto simp: signed_divide_int_eq_divide_int signed_modulo_int_eq_modulo_int sgn_if)
  then show ?thesis by (auto simp: mod_eq_0_iff_dvd)
qed

section \<open>Years of 400\<close>

definition year_start :: "int \<Rightarrow> int" where
  "year_start r = 365 * r + r div 4 - r div 100"

definition year_end :: "int \<Rightarrow> int" where
  "year_end r = (if r = 399 then 146096 else year_start (r + 1) - 1)"

definition shrunk :: "int \<Rightarrow> int" where
  "shrunk x = x - x div 1460 + x div 36524 - x div 146096"

lemma div_Suc: "0 < k \<Longrightarrow> (x + 1) div k = x div k + of_bool (k dvd x + 1)" for x k :: int
proof -
  assume k: "0 < k"
  have x: "x = k * (x div k) + x mod k" "0 \<le> x mod k" "x mod k < k" using k by simp_all
  show ?thesis
  proof (cases "x mod k = k - 1")
    case True
    have "k * (x div k + 1) = k * (x div k) + k" by (simp add: distrib_left)
    then have e: "x + 1 = k * (x div k + 1) + 0" using x(1) True by linarith
    then have "(x + 1) div k = x div k + 1" using k by (intro int_div_pos_eq) auto
    moreover have "k dvd x + 1" using e by (metis add.right_neutral dvd_triv_left)
    ultimately show ?thesis by simp
  next
    case False
    then have r: "x + 1 = k * (x div k) + (x mod k + 1)" "0 \<le> x mod k + 1" "x mod k + 1 < k" using x by linarith+
    have "(x + 1) div k = x div k" "(x + 1) mod k = x mod k + 1" by (rule int_div_pos_eq [OF r], rule int_mod_pos_eq [OF r])
    then show ?thesis using x(2) by (simp add: dvd_eq_mod_eq_0)
  qed
qed

lemma shrunk_mono: "0 \<le> x \<Longrightarrow> x \<le> y \<Longrightarrow> shrunk x \<le> shrunk y"
proof (induction "nat (y - x)" arbitrary: y)
  case (Suc n)
  then have y: "x \<le> y - 1" "n = nat (y - 1 - x)" by simp_all
  have "36524 dvd y" if "146096 dvd y" using that by (rule dvd_trans [rotated]) simp
  then have "shrunk (y - 1) \<le> shrunk y"
    using div_Suc [of 1460 "y - 1"] div_Suc [of 36524 "y - 1"] div_Suc [of 146096 "y - 1"] by (simp add: shrunk_def)
  then show ?case using Suc(1) [OF y(2)] Suc(3) y(1) by simp
qed simp

lemma year_bounds: "0 \<le> r \<Longrightarrow> r \<le> 399 \<Longrightarrow> shrunk (year_start r) div 365 = r \<and> shrunk (year_end r) div 365 = r \<and> 0 \<le> year_start r"
proof -
  have "list_all (\<lambda>r. shrunk (year_start r) div 365 = r \<and> shrunk (year_end r) div 365 = r \<and> 0 \<le> year_start r) [0..399]"
    by code_simp
  moreover assume "0 \<le> r" "r \<le> 399"
  ultimately show ?thesis by (simp add: list_all_iff)
qed

text \<open>The year is found from the day of the era.\<close>

lemma year_of_day:
  assumes "0 \<le> r" "r \<le> 399" "year_start r \<le> x" "x \<le> year_end r"
  shows "shrunk x div 365 = r"
proof -
  note b = year_bounds [OF assms(1,2)]
  have "shrunk (year_start r) \<le> shrunk x" "shrunk x \<le> shrunk (year_end r)"
    using b assms(3,4) by (auto intro: shrunk_mono)
  then show ?thesis using b by (metis antisym zdiv_mono1 zero_less_numeral)
qed

lemma day_in_year: "0 \<le> x \<Longrightarrow> x \<le> 146096 \<Longrightarrow> \<exists>r. 0 \<le> r \<and> r \<le> 399 \<and> year_start r \<le> x \<and> x \<le> year_end r"
proof -
  assume x: "0 \<le> x" "x \<le> 146096"
  have "x \<le> year_end k \<longrightarrow> (\<exists>r. 0 \<le> r \<and> r \<le> k \<and> year_start r \<le> x \<and> x \<le> year_end r)" if "0 \<le> k" "k \<le> 399" for k
    using that
  proof (induction k rule: int_ge_induct [of 0])
    case base
    then show ?case using x(1) by (auto simp: year_start_def intro!: exI [of _ 0])
  next
    case (step k)
    show ?case
    proof (cases "x \<le> year_end k")
      case True
      then show ?thesis using step by force
    next
      case False
      then have "year_start (k + 1) \<le> x" using step(3) by (simp add: year_end_def split: if_splits)
      then show ?thesis using step by (auto intro!: exI [of _ "k + 1"])
    qed
  qed
  from this [of 399] show ?thesis using x(2) by (auto simp: year_end_def)
qed

section \<open>Months of the year that starts in March\<close>

definition march_days :: "int \<Rightarrow> int" where
  "march_days k = (if k = 11 then 29 else if k \<in> {1, 3, 6, 8} then 30 else 31)"

definition month_start :: "int \<Rightarrow> int" where
  "month_start k = (153 * k + 2) div 5"

lemma month_of_day:
  assumes "0 \<le> k" "k \<le> 11" "1 \<le> d" "d \<le> march_days k"
  shows "(5 * (month_start k + d - 1) + 2) div 153 = k" "0 \<le> month_start k + d - 1" "month_start k + d - 1 \<le> 365"
    and "month_start k + d - 1 = 365 \<longleftrightarrow> k = 11 \<and> d = 29"
proof -
  have "list_all (\<lambda>k. list_all (\<lambda>d. (5 * (month_start k + d - 1) + 2) div 153 = k \<and> 0 \<le> month_start k + d - 1 \<and>
      month_start k + d - 1 \<le> 365 \<and> (month_start k + d - 1 = 365 \<longleftrightarrow> k = 11 \<and> d = 29)) [1..march_days k]) [0..11]"
    by code_simp
  then have "(5 * (month_start k + d - 1) + 2) div 153 = k \<and> 0 \<le> month_start k + d - 1 \<and>
      month_start k + d - 1 \<le> 365 \<and> (month_start k + d - 1 = 365 \<longleftrightarrow> k = 11 \<and> d = 29)"
    using assms by (simp add: list_all_iff)
  then show "(5 * (month_start k + d - 1) + 2) div 153 = k" "0 \<le> month_start k + d - 1" "month_start k + d - 1 \<le> 365"
    "month_start k + d - 1 = 365 \<longleftrightarrow> k = 11 \<and> d = 29" by blast+
qed

lemma day_of_month:
  assumes "0 \<le> x" "x \<le> 365"
  defines "k \<equiv> (5 * x + 2) div 153"
  shows "0 \<le> k" "k \<le> 11" "1 \<le> x - month_start k + 1" "x - month_start k + 1 \<le> march_days k"
proof -
  have "list_all (\<lambda>x. let k = (5 * x + 2) div 153 in
      0 \<le> k \<and> k \<le> 11 \<and> 1 \<le> x - month_start k + 1 \<and> x - month_start k + 1 \<le> march_days k) [0..365]"
    by code_simp
  then have "0 \<le> k \<and> k \<le> 11 \<and> 1 \<le> x - month_start k + 1 \<and> x - month_start k + 1 \<le> march_days k"
    using assms(1,2) by (simp add: list_all_iff Let_def k_def)
  then show "0 \<le> k" "k \<le> 11" "1 \<le> x - month_start k + 1" "x - month_start k + 1 \<le> march_days k" by blast+
qed

section \<open>Dates and days\<close>

text \<open>The two computations without their range checks; day 0 is 1 March 0000.\<close>

definition march_year :: "int \<Rightarrow> int \<Rightarrow> int" where
  "march_year y m = (if m \<le> 2 then y - 1 else y)"

definition march_month :: "int \<Rightarrow> int" where
  "march_month m = (if 2 < m then m - 3 else m + 9)"

definition days_of :: "int \<Rightarrow> int \<Rightarrow> int \<Rightarrow> int" where
  "days_of y m d = march_year y m div 400 * 146097 + year_start (march_year y m mod 400) +
     (month_start (march_month m) + d - 1)"

definition date_of :: "int \<Rightarrow> int \<times> int \<times> int" where
  "date_of n =
     (let x = n mod 146097; r = shrunk x div 365; dy = x - year_start r; k = (5 * dy + 2) div 153;
          m = (if k < 10 then k + 3 else k - 9); y = r + n div 146097 * 400
      in (if m \<le> 2 then y + 1 else y, m, dy - month_start k + 1))"

lemma date_of_parts:
  assumes "n div 146097 = e" "n mod 146097 = x" "shrunk x div 365 = r" "x - year_start r = dy" "(5 * dy + 2) div 153 = k"
  shows "date_of n =
    (if (if k < 10 then k + 3 else k - 9) \<le> 2 then r + e * 400 + 1 else r + e * 400, if k < 10 then k + 3 else k - 9,
     dy - month_start k + 1)"
  by (simp only: date_of_def Let_def assms)

lemma year_end_start: "0 \<le> r \<Longrightarrow> r \<le> 399 \<Longrightarrow> year_end r = year_start r + (if leap (r + 1) then 365 else 364)"
proof -
  have "list_all (\<lambda>r. year_end r = year_start r + (if leap (r + 1) then 365 else 364)) [0..399]" by code_simp
  moreover assume "0 \<le> r" "r \<le> 399"
  ultimately show ?thesis by (simp add: list_all_iff)
qed

lemma year_end_max: "0 \<le> r \<Longrightarrow> r \<le> 399 \<Longrightarrow> year_end r \<le> 146096"
proof -
  have "list_all (\<lambda>r. year_end r \<le> 146096) [0..399]" by code_simp
  moreover assume "0 \<le> r" "r \<le> 399"
  ultimately show ?thesis by (simp add: list_all_iff)
qed

lemma leap_mod: "leap (r + 400 * e) = leap r"
proof -
  have "k dvd r + 400 * e \<longleftrightarrow> k dvd r" if "k dvd 400" for k :: int
    using that by (simp add: dvd_add_left_iff dvd_mult2)
  then show ?thesis by (simp add: leap_def)
qed

lemma march_days: "1 \<le> m \<Longrightarrow> m \<le> 12 \<Longrightarrow> d \<le> month_days y m \<Longrightarrow> d \<le> march_days (march_month m)"
  by (auto simp: month_days_def march_days_def march_month_def split: if_splits)

lemma date_of_days:
  assumes m: "1 \<le> m" "m \<le> 12" "1 \<le> d" "d \<le> month_days y m"
  shows "date_of (days_of y m d) = (y, m, d)"
proof -
  let ?Y = "march_year y m" and ?k = "march_month m"
  let ?r = "?Y mod 400" and ?dy = "month_start ?k + d - 1"
  have k: "0 \<le> ?k" "?k \<le> 11" using m by (simp_all add: march_month_def)
  note dy = month_of_day [OF k m(3) march_days [OF m(1,2,4)]]
  have r: "0 \<le> ?r" "?r \<le> 399" using pos_mod_bound [of 400 ?Y] by simp_all
  have "?dy = 365 \<Longrightarrow> leap (?r + 1)"
  proof -
    assume "?dy = 365"
    then have "m = 2" "d = 29" using dy(4) m(1,2) by (auto simp: march_month_def split: if_splits)
    then have "leap y" using m(4) by (auto simp: month_days_def split: if_splits)
    moreover have "y = (?r + 1) + 400 * (?Y div 400)" using \<open>m = 2\<close> by (simp add: march_year_def)
    ultimately show "leap (?r + 1)" by (metis leap_mod)
  qed
  then have "?dy \<le> (if leap (?r + 1) then 365 else 364)" using dy(3) by (cases "leap (?r + 1)") (simp, smt (verit) add.commute)
  then have x: "year_start ?r \<le> year_start ?r + ?dy" "year_start ?r + ?dy \<le> year_end ?r"
    using dy(2) by (simp_all add: year_end_start [OF r])
  have le: "0 \<le> year_start ?r + ?dy" "year_start ?r + ?dy \<le> 146096"
  proof -
    show "0 \<le> year_start ?r + ?dy" using year_bounds [OF r] dy(2) by simp
    show "year_start ?r + ?dy \<le> 146096" using x(2) year_end_max [OF r] by (rule order_trans)
  qed
  have n: "days_of y m d = 146097 * (?Y div 400) + (year_start ?r + ?dy)" by (simp add: days_of_def)
  have "days_of y m d div 146097 = ?Y div 400" "days_of y m d mod 146097 = year_start ?r + ?dy"
    using int_div_pos_eq [OF n le(1)] int_mod_pos_eq [OF n le(1)] le(2) by simp_all
  note parts = date_of_parts [OF this year_of_day [OF r x] add_diff_cancel_left' dy(1)]
  have "(if ?k < 10 then ?k + 3 else ?k - 9) = m" "?dy - month_start ?k + 1 = d" using m(1,2) by (auto simp: march_month_def)
  moreover have "(if m \<le> 2 then ?r + ?Y div 400 * 400 + 1 else ?r + ?Y div 400 * 400) = y" by (simp add: march_year_def)
  ultimately show ?thesis by (simp only: parts)
qed

lemma days_of_date:
  "date_of n = (y, m, d) \<Longrightarrow> days_of y m d = n \<and> 1 \<le> m \<and> m \<le> 12 \<and> 1 \<le> d \<and> d \<le> month_days y m"
proof -
  assume a: "date_of n = (y, m, d)"
  define x where "x = n mod 146097"
  have "0 \<le> x" "x \<le> 146096" using pos_mod_bound [of 146097 n] by (simp_all add: x_def)
  from day_in_year [OF this] obtain r where r: "0 \<le> r" "r \<le> 399" "year_start r \<le> x" "x \<le> year_end r" by blast
  define dy where "dy = x - year_start r"
  have dy: "0 \<le> dy" "dy \<le> 365" "dy = 365 \<longrightarrow> leap (r + 1)"
    using r year_end_start [OF r(1,2)] by (auto simp: dy_def split: if_splits)
  define k where "k = (5 * dy + 2) div 153"
  note kd = day_of_month [OF dy(1,2), folded k_def]
  let ?m = "if k < 10 then k + 3 else k - 9" and ?y = "r + n div 146097 * 400"
  have "date_of n = (if ?m \<le> 2 then ?y + 1 else ?y, ?m, dy - month_start k + 1)"
    by (simp only: date_of_def Let_def x_def [symmetric] year_of_day [OF r] dy_def [symmetric] k_def [symmetric])
  then have date: "m = (if k < 10 then k + 3 else k - 9)" "d = dy - month_start k + 1"
    "y = (if m \<le> 2 then r + n div 146097 * 400 + 1 else r + n div 146097 * 400)"
    unfolding a prod.inject by simp_all
  have m: "1 \<le> m" "m \<le> 12" "march_month m = k" using kd(1,2) date(1) by (auto simp: march_month_def)
  have Y: "march_year y m = 400 * (n div 146097) + r" using date(3) by (simp add: march_year_def)
  have "march_year y m div 400 = n div 146097" "march_year y m mod 400 = r"
    using int_div_pos_eq [OF Y r(1)] int_mod_pos_eq [OF Y r(1)] r(2) by simp_all
  moreover have "146097 * (n div 146097) + (year_start r + dy) = n" by (simp add: dy_def x_def)
  ultimately have "days_of y m d = n" using m(3) date(2) by (simp add: days_of_def)
  moreover have "d \<le> month_days y m"
  proof (cases "m = 2")
    case True
    then have "k = 11" using m(3) by (simp add: march_month_def)
    then have "d \<le> 29" "d = 29 \<longrightarrow> dy = 365" using kd(4) date(2) by (simp_all add: march_days_def month_start_def)
    moreover have "y = (r + 1) + 400 * (n div 146097)" using date(3) True by simp
    ultimately show ?thesis using True dy(3) leap_mod [of "r + 1" "n div 146097"] by (auto simp: month_days_def)
  next
    case False
    have "march_days k \<le> month_days y m"
      using False m by (auto simp: march_days_def month_days_def march_month_def split: if_splits)
    then show ?thesis using kd(4) date(2) by simp
  qed
  ultimately show ?thesis using m(1,2) kd(3) date(2) by simp
qed

section \<open>Years in the reference calendar\<close>

text \<open>The day of \<^const>\<open>days_of\<close> that is 1 January.\<close>

definition jan_first :: "int \<Rightarrow> int" where
  "jan_first y = 365 * (y - 1) + (y - 1) div 4 - (y - 1) div 100 + (y - 1) div 400 + 306"

lemma jan_first_next: "jan_first (y + 1) = jan_first y + (if leap y then 366 else 365)"
proof -
  have "100 dvd y" if "400 dvd y" using that by (rule dvd_trans [rotated]) simp
  moreover have "4 dvd y" if "100 dvd y" using that by (rule dvd_trans [rotated]) simp
  ultimately show ?thesis
    using div_Suc [of 4 "y - 1"] div_Suc [of 100 "y - 1"] div_Suc [of 400 "y - 1"]
    by (auto simp: jan_first_def leap_def)
qed

lemma jan_first_mono: "x \<le> y \<Longrightarrow> jan_first x \<le> jan_first y"
proof (induction y rule: int_ge_induct)
  case (step y)
  then show ?case by (simp add: jan_first_next)
qed simp

lemma days_before_year: "days_before_year y = jan_first (int y) + 60"
proof (induction y)
  case 0
  then show ?case by (simp add: jan_first_def)
next
  case (Suc y)
  then show ?case using jan_first_next [of "int y"] by (simp add: add.commute)
qed

lemma era_days: "Y div 400 * 146097 + year_start (Y mod 400) = 365 * Y + Y div 4 - Y div 100 + Y div 400"
proof -
  define q r where "q = Y div 400" and "r = Y mod 400"
  have Y: "Y = r + 400 * q" by (simp add: q_def r_def)
  have "Y div 4 = r div 4 + 100 * q" "Y div 100 = r div 100 + 4 * q"
    unfolding Y using div_mult_self2 [of 4 r "100 * q"] div_mult_self2 [of 100 r "4 * q"] by simp_all
  then show ?thesis by (fold q_def r_def) (simp add: Y year_start_def)
qed

lemma month_cases: "1 \<le> m \<Longrightarrow> m \<le> (12 :: int) \<Longrightarrow> m = 1 \<or> m = 2 \<or> m = 3 \<or> m = 4 \<or> m = 5 \<or> m = 6 \<or> m = 7 \<or> m = 8 \<or>
    m = 9 \<or> m = 10 \<or> m = 11 \<or> m = 12"
  by presburger

lemmas upto_number = upto.simps [of 1 "numeral n" for n] upto.simps [of "numeral k" "numeral n" for k n]

lemma month_sums:
  assumes "1 \<le> m" "m \<le> 12"
  shows "sum_list (map (month_days y) [1..m - 1]) =
    (if m \<le> 2 then month_start (march_month m) - 306 else month_start (march_month m) + (if leap y then 60 else 59))"
  using month_cases [OF assms]
  by (elim disjE) (simp_all add: month_days_def month_start_def march_month_def upto_number)

lemma days_of_jan_first:
  assumes "1 \<le> m" "m \<le> 12"
  shows "days_of y m d = jan_first y + sum_list (map (month_days y) [1..m - 1]) + (d - 1)"
proof -
  have "days_of y m d = 365 * march_year y m + march_year y m div 4 - march_year y m div 100 + march_year y m div 400 +
      (month_start (march_month m) + d - 1)"
    by (simp only: days_of_def era_days)
  also have "\<dots> = jan_first (march_year y m + 1) - 306 + (month_start (march_month m) + d - 1)" by (simp add: jan_first_def)
  also have "\<dots> = jan_first y + sum_list (map (month_days y) [1..m - 1]) + (d - 1)"
    using jan_first_next [of y] by (simp add: month_sums [OF assms] march_year_def)
  finally show ?thesis .
qed

lemma day_number_days_of: "0 \<le> y \<Longrightarrow> 1 \<le> m \<Longrightarrow> m \<le> 12 \<Longrightarrow> day_number y m d = days_of y m d + 60"
  by (simp add: day_number_def days_of_jan_first days_before_year)

lemma day_in_calendar_year:
  assumes "1 \<le> m" "m \<le> 12" "1 \<le> d" "d \<le> month_days y m"
  shows "jan_first y \<le> days_of y m d \<and> days_of y m d < jan_first (y + 1)"
proof -
  have "0 \<le> sum_list (map (month_days y) [1..m - 1]) \<and>
      sum_list (map (month_days y) [1..m - 1]) + month_days y m \<le> (if leap y then 366 else 365)"
    using month_cases [OF assms(1,2)]
    by (elim disjE) (simp_all add: month_days_def upto_number)
  then show ?thesis using assms(3,4) by (simp add: days_of_jan_first [OF assms(1,2)] jan_first_next del: sum_list_eq_0_iff)
qed

lemma year_in_range:
  assumes "1 \<le> m" "m \<le> 12" "1 \<le> d" "d \<le> month_days y m"
  shows "0 \<le> y \<and> y \<le> 9999 \<longleftrightarrow> -60 \<le> days_of y m d \<and> days_of y m d < 3652365"
proof -
  have e: "jan_first 0 = -60" "jan_first 10000 = 3652365" by (simp_all add: jan_first_def)
  have "0 \<le> y \<Longrightarrow> jan_first 0 \<le> jan_first y" "y \<le> 9999 \<Longrightarrow> jan_first (y + 1) \<le> jan_first 10000"
    "y < 0 \<Longrightarrow> jan_first (y + 1) \<le> jan_first 0" "9999 < y \<Longrightarrow> jan_first 10000 \<le> jan_first y"
    by (simp_all add: jan_first_mono)
  then show ?thesis using day_in_calendar_year [OF assms] unfolding e by linarith
qed

end
