(* ===== verification/Boring_Time_Theorems.thy ===== *)
theory Boring_Time_Theorems
  imports Boring_Time_Correct
begin

text \<open>
  What the calendar functions and the time parsers compute: seconds since 1970 by the reference calendar,
  its inverse, and the times written in a GeneralizedTime or UTCTime.
\<close>

section \<open>Seconds since 1970\<close>

lemma valid_date_C: "is_valid_date y m d = valid_date y m d"
proof (cases "1 \<le> m \<and> m \<le> 12")
  case True
  then have "m = 1 \<or> m = 2 \<or> m = 3 \<or> m = 4 \<or> m = 5 \<or> m = 6 \<or> m = 7 \<or> m = 8 \<or> m = 9 \<or> m = 10 \<or> m = 11 \<or> m = 12"
    using month_cases [of m] by blast
  then show ?thesis
    by (elim disjE; auto simp: is_valid_date_def valid_date_def month_days_def leap_def smod_eq_0)
qed (auto simp: is_valid_date_def valid_date_def)

lemma valid_time_C: "is_valid_time h mi s = valid_time h mi s"
  by (auto simp: is_valid_time_def valid_time_def)

lemma secs_simps [simp]: "SECS_PER_DAY = 86400" "SECS_PER_HOUR = 3600"
  by (simp_all add: SECS_PER_DAY_def SECS_PER_HOUR_def)

lemma posix_time_days:
  "posix_time_from_utc y m d h mi s =
     (if valid_date y m d \<and> valid_time h mi s
      then Some ((days_of y m d - 719468) * 86400 + h * 3600 + mi * 60 + s) else None)"
proof (cases "valid_date y m d \<and> valid_time h mi s")
  case True
  define Y where "Y = march_year y m"
  define k where "k = march_month m"
  have r: "Y - Y div 400 * 400 = Y mod 400" "0 \<le> Y mod 400" by (simp_all add: minus_div_mult_eq_mod)
  have k: "0 \<le> 153 * k + 2" using True by (simp add: k_def march_month_def valid_date_def)
  have "posix_time_from_utc y m d h mi s = Some ((Y div 400 * 146097 +
      (Y mod 400 * 365 + Y mod 400 div 4 - Y mod 400 div 100 + ((153 * k + 2) div 5 + d - 1)) - 719468) * 86400 + h * 3600 + mi * 60 + s)"
    unfolding posix_time_from_utc_def valid_date_C valid_time_C Let_def secs_simps floor_400
      march_year_def [symmetric] march_month_def [symmetric] Y_def [symmetric] k_def [symmetric] r(1)
    using True r(2) k by (simp add: sdiv_pos)
  then show ?thesis
    using True unfolding days_of_def Y_def [symmetric] k_def [symmetric] year_start_def month_start_def
    by (simp add: algebra_simps)
next
  case False
  then show ?thesis by (auto simp: posix_time_from_utc_def valid_date_C valid_time_C)
qed

lemma shrunk_nonneg: "0 \<le> x \<Longrightarrow> 0 \<le> shrunk x"
  using shrunk_mono [of 0 x] by (simp add: shrunk_def)

lemma le_div_iff: "0 < k \<Longrightarrow> a \<le> t div k \<longleftrightarrow> a * k \<le> t" for a t k :: int
proof
  assume "0 < k" "a \<le> t div k"
  then have "a * k \<le> t div k * k" by simp
  also have "\<dots> \<le> t" using div_mult_mod_eq [of t k] pos_mod_sign [OF \<open>0 < k\<close>, of t] by linarith
  finally show "a * k \<le> t" .
next
  assume "0 < k" "a * k \<le> t"
  then show "a \<le> t div k" using zdiv_mono1 [of "a * k" t k] by simp
qed

lemma posix_range: "is_valid_posix_time t \<longleftrightarrow> -60 \<le> t div 86400 + 719468 \<and> t div 86400 + 719468 < 3652365"
proof -
  have "- 719528 \<le> t div 86400 \<longleftrightarrow> - 62167219200 \<le> t" using le_div_iff [of 86400 "- 719528" t] by simp
  moreover have "2932897 \<le> t div 86400 \<longleftrightarrow> 253402300800 \<le> t" using le_div_iff [of 86400 2932897 t] by simp
  ultimately show ?thesis unfolding is_valid_posix_time_def MIN_POSIX_TIME_def MAX_POSIX_TIME_def by linarith
qed

lemma year_offset_nonneg: "0 \<le> x \<Longrightarrow> x < 146097 \<Longrightarrow> 0 \<le> x - year_start (shrunk x div 365)"
proof -
  assume "0 \<le> x" "x < 146097"
  then obtain r where "0 \<le> r" "r \<le> 399" "year_start r \<le> x" "x \<le> year_end r" using day_in_year [of x] by auto
  then show ?thesis using year_of_day [of r x] by simp
qed

lemma utc_from_posix_date:
  "utc_from_posix_time t =
     (if is_valid_posix_time t
      then (case date_of (t div 86400 + 719468) of (y, m, d) \<Rightarrow>
        Some (y, m, d, t mod 86400 div 3600, t mod 86400 mod 3600 div 60, t mod 86400 mod 3600 mod 60))
      else None)"
proof (cases "is_valid_posix_time t")
  case True
  define n s where "n = t div 86400 + 719468" and "s = t mod 86400"
  define x where "x = n mod 146097"
  have x: "n - n div 146097 * 146097 = x" "0 \<le> x" "x < 146097" by (simp_all add: x_def minus_div_mult_eq_mod)
  have sh: "(x - x sdiv 1460 + x sdiv 36524 - x sdiv 146096) sdiv 365 = shrunk x div 365"
    using x(2) shrunk_nonneg [OF x(2)] by (simp add: sdiv_pos shrunk_def)
  define r where "r = shrunk x div 365"
  have r: "0 \<le> r" using shrunk_nonneg [OF x(2)] by (simp add: r_def pos_imp_zdiv_nonneg_iff)
  have ys: "365 * r + r sdiv 4 - r sdiv 100 = year_start r" using r by (simp add: sdiv_pos year_start_def)
  define dy where "dy = x - year_start r"
  have dy: "0 \<le> dy" using year_offset_nonneg [OF x(2,3)] by (simp add: dy_def r_def)
  then have k: "(5 * dy + 2) sdiv 153 = (5 * dy + 2) div 153" by (simp add: sdiv_pos)
  define k' where "k' = (5 * dy + 2) div 153"
  have k': "(153 * k' + 2) sdiv 5 = month_start k'"
    using dy by (simp add: sdiv_pos month_start_def k'_def pos_imp_zdiv_nonneg_iff)
  have s: "0 \<le> s" "0 \<le> s mod 3600" by (simp_all add: s_def)
  have split: "(if t smod 86400 < 0 then (t sdiv 86400 - 1, t smod 86400 + 86400) else (t sdiv 86400, t smod 86400)) =
      (t div 86400, s)"
    using floor_day [of t] by (simp only: s_def)
  show ?thesis
    unfolding utc_from_posix_time_def Let_def secs_simps split prod.case n_def [symmetric] s_def [symmetric] floor_era x(1) sh
      r_def [symmetric] ys dy_def [symmetric] k k'_def [symmetric] k'
      date_of_parts [of n, OF refl x_def [symmetric] r_def [symmetric] dy_def [symmetric] k'_def [symmetric]]
    using True s by (simp add: sdiv_pos smod_pos)
qed (simp add: utc_from_posix_time_def)

text \<open>C22: \<open>posix_time_from_utc\<close> accepts exactly the dates of the Gregorian calendar in the years 0 to 9999
  with a time of day, and its arithmetic on eras of 400 years is the reference: the days counted year by
  year and month by month since 1 January 1970, and the seconds of the day.\<close>

theorem posix_time_from_utc_calendar:
  "posix_time_from_utc y m d h mi s =
     (if valid_date y m d \<and> valid_time h mi s
      then Some ((day_number y m d - day_number 1970 1 1) * 86400 + h * 3600 + mi * 60 + s) else None)"
proof -
  have "day_number 1970 1 1 = 719528"
    using day_number_days_of [of 1970 1 1] days_of_jan_first [of 1 1970 1] by (simp add: jan_first_def)
  then show ?thesis by (simp add: posix_time_days valid_date_def day_number_days_of)
qed

lemma seconds_split:
  "(t :: int) mod 86400 = t mod 86400 div 3600 * 3600 + t mod 86400 mod 3600 div 60 * 60 + t mod 86400 mod 3600 mod 60"
  by presburger

lemma valid_time_of_seconds: "valid_time (t mod 86400 div 3600) (t mod 86400 mod 3600 div 60) (t mod 86400 mod 3600 mod 60)"
proof -
  define r where "r = t mod 86400"
  have r: "0 \<le> r" "r < 86400" by (simp_all add: r_def)
  have q: "0 \<le> r mod 3600" "r mod 3600 < 3600" by simp_all
  have "r div 3600 \<le> 23" using zdiv_mono1 [of r 86399 3600] r by simp
  moreover have "r mod 3600 div 60 \<le> 59" using zdiv_mono1 [of "r mod 3600" 3599 60] q by simp
  moreover have "r mod 3600 mod 60 < 60" by simp
  ultimately show ?thesis
    unfolding valid_time_def r_def [symmetric] using r(1) q(1) by (simp add: pos_imp_zdiv_nonneg_iff)
qed

lemma seconds_join:
  assumes "valid_time h mi s"
  shows "(86400 * n + h * 3600 + mi * 60 + s) div 86400 = n" "(86400 * n + h * 3600 + mi * 60 + s) mod 86400 = h * 3600 + mi * 60 + s"
    and "(h * 3600 + mi * 60 + s) div 3600 = h" "(h * 3600 + mi * 60 + s) mod 3600 = mi * 60 + s"
    and "(mi * 60 + s) div 60 = mi" "(mi * 60 + s) mod 60 = s"
proof -
  have b: "0 \<le> h" "h \<le> 23" "0 \<le> mi" "mi \<le> 59" "0 \<le> s" "s \<le> 59" using assms by (auto simp: valid_time_def)
  have n: "86400 * n + h * 3600 + mi * 60 + s = 86400 * n + (h * 3600 + mi * 60 + s)"
    and h: "h * 3600 + mi * 60 + s = 3600 * h + (mi * 60 + s)" and m: "mi * 60 + s = 60 * mi + s" by simp_all
  show "(86400 * n + h * 3600 + mi * 60 + s) div 86400 = n" "(86400 * n + h * 3600 + mi * 60 + s) mod 86400 = h * 3600 + mi * 60 + s"
    using b int_div_pos_eq [OF n] int_mod_pos_eq [OF n] by simp_all
  show "(h * 3600 + mi * 60 + s) div 3600 = h" "(h * 3600 + mi * 60 + s) mod 3600 = mi * 60 + s"
    using b int_div_pos_eq [OF h] int_mod_pos_eq [OF h] by simp_all
  show "(mi * 60 + s) div 60 = mi" "(mi * 60 + s) mod 60 = s"
    using b int_div_pos_eq [OF m] int_mod_pos_eq [OF m] by simp_all
qed

lemma utc_of_posix_time:
  assumes "posix_time_from_utc y m d h mi s = Some t"
  shows "utc_from_posix_time t = Some (y, m, d, h, mi, s)"
proof -
  from assms have v: "valid_date y m d" "valid_time h mi s" and t: "t = 86400 * (days_of y m d - 719468) + h * 3600 + mi * 60 + s"
    by (simp_all add: posix_time_days split: if_splits)
  have d: "1 \<le> m" "m \<le> 12" "1 \<le> d" "d \<le> month_days y m" using v(1) by (simp_all add: valid_date_def)
  note sj = seconds_join [OF v(2)]
  have n: "t div 86400 + 719468 = days_of y m d" unfolding t sj(1) by simp
  have "is_valid_posix_time t" using year_in_range [OF d] v(1) by (simp add: posix_range n valid_date_def)
  then show ?thesis unfolding utc_from_posix_date n date_of_days [OF d] by (simp only: t sj simp_thms if_True prod.case)
qed

lemma posix_time_of_utc:
  assumes "utc_from_posix_time t = Some (y, m, d, h, mi, s)"
  shows "posix_time_from_utc y m d h mi s = Some t"
proof -
  from assms have v: "is_valid_posix_time t" and date: "date_of (t div 86400 + 719468) = (y, m, d)"
    and s: "h = t mod 86400 div 3600" "mi = t mod 86400 mod 3600 div 60" "s = t mod 86400 mod 3600 mod 60"
    by (auto simp: utc_from_posix_date split: if_splits prod.splits)
  from days_of_date [OF date] have n: "days_of y m d = t div 86400 + 719468"
    and d: "1 \<le> m" "m \<le> 12" "1 \<le> d" "d \<le> month_days y m" by simp_all
  have "valid_time h mi s" unfolding s by (rule valid_time_of_seconds)
  moreover have "valid_date y m d" using v year_in_range [OF d] d by (simp add: posix_range n valid_date_def)
  ultimately have "posix_time_from_utc y m d h mi s = Some (t div 86400 * 86400 + (h * 3600 + mi * 60 + s))"
    by (simp add: posix_time_days n)
  also have "h * 3600 + mi * 60 + s = t mod 86400" using seconds_split [of t] by (simp add: s)
  finally show ?thesis by simp
qed

text \<open>C23: The two calendar functions are inverse to each other: a time of the years 0 to 9999 is
  converted to its fields exactly when these fields are converted to that time.\<close>

theorem posix_time_round_trip:
  "posix_time_from_utc y m d h mi s = Some t \<longleftrightarrow> utc_from_posix_time t = Some (y, m, d, h, mi, s)"
  by (rule iffI) (rule utc_of_posix_time posix_time_of_utc, assumption)+

section \<open>Two digits\<close>

fun two_digits :: "u8 list \<Rightarrow> (int \<times> u8 list) option" where
  "two_digits (a # b # rest) =
     (if is_digit a \<and> is_digit b then Some (int (unat a - 48) * 10 + int (unat b - 48), rest) else None)"
| "two_digits _ = None"

definition dd :: "int \<Rightarrow> u8 list" where
  "dd n = [of_nat (48 + nat n div 10), of_nat (48 + nat n mod 10)]"

lemma digit_value: "is_digit b \<Longrightarrow> uint b - 48 = int (unat b - 48)"
  by (simp add: is_digit_def of_nat_diff)

lemma two_digits_iff: "two_digits bs = Some (n, rest) \<longleftrightarrow> 0 \<le> n \<and> n \<le> 99 \<and> bs = dd n @ rest"
proof
  assume "two_digits bs = Some (n, rest)"
  then obtain a b where bs: "bs = a # b # rest" "is_digit a" "is_digit b" and n: "n = int (unat a - 48) * 10 + int (unat b - 48)"
    by (cases bs rule: two_digits.cases) (auto split: if_splits)
  define x y where "x = unat a - 48" and "y = unat b - 48"
  have l: "x \<le> 9" "y \<le> 9" "unat a = 48 + x" "unat b = 48 + y" using bs by (auto simp: is_digit_def x_def y_def)
  have nn: "n = int (x * 10 + y)" by (simp add: n x_def y_def)
  have "nat n = x * 10 + y" unfolding nn by (rule nat_int)
  then have q: "48 + nat n div 10 = unat a" "48 + nat n mod 10 = unat b" using l by auto
  have "dd n = [a, b]" unfolding dd_def q by simp
  then show "0 \<le> n \<and> n \<le> 99 \<and> bs = dd n @ rest" using l(1,2) bs(1) nn by auto
next
  assume a: "0 \<le> n \<and> n \<le> 99 \<and> bs = dd n @ rest"
  define q r where "q = nat n div 10" and "r = nat n mod 10"
  have "nat n = 10 * q + r" "q \<le> 9" "r \<le> 9" using a by (auto simp: q_def r_def)
  moreover from this have "unat (of_nat (48 + q) :: u8) = 48 + q" "unat (of_nat (48 + r) :: u8) = 48 + r"
    by (intro unat_byte; linarith)+
  moreover have "bs = of_nat (48 + q) # of_nat (48 + r) # rest" using a by (simp add: dd_def q_def r_def)
  moreover have "n = int q * 10 + int r" using a \<open>nat n = 10 * q + r\<close> by linarith
  ultimately show "two_digits bs = Some (n, rest)"
    using a by (simp add: is_digit_def del: of_nat_add)
qed

interpretation digits: byte_reader cbs_get_two_digits two_digits same
proof -
  have e: "two_digits = (\<lambda>bs. Option.bind (first_byte bs) (\<lambda>(a, rest). if \<not> is_digit a then None
      else Option.bind (first_byte rest) (\<lambda>(b, rest). if \<not> is_digit b then None
        else Some ((int (unat a - 48)) * 10 + int (unat b - 48), rest))))"
    by (rule ext, rename_tac bs, case_tac bs rule: two_digits.cases) auto
  show "byte_reader cbs_get_two_digits two_digits same"
    unfolding e cbs_get_two_digits_def [abs_def] is_digit_C
  proof (rule reads_bind [OF u8.byte_reader_axioms])
    fix m c bs and v w :: u8 and n
    assume h: "cbs_holds m (cbs_drop n c) (drop n bs)" and v: "same m c v w" and ins: "inside (cbs_drop n c) c"
    then show "agrees (same m c) (cbs_drop n c) (drop n bs)
        (if \<not> is_digit v then Some (None, cbs_drop n c)
         else cbs_bind (CBS_get_u8 m (cbs_drop n c)) (\<lambda>second_digit c. if \<not> is_digit second_digit then Some (None, c)
           else Some (Some ((uint v - 48) * 10 + (uint second_digit - 48)), c)))
        (if \<not> is_digit w then None
         else Option.bind (first_byte (drop n bs)) (\<lambda>(b, rest). if \<not> is_digit b then None
           else Some (int (unat w - 48) * 10 + int (unat b - 48), rest)))"
      by (auto simp: digit_value intro!: agrees_fail agrees_ret agrees_bind [OF u8.reads])
  qed
qed

section \<open>The fields of a time string\<close>

text \<open>The parse function on byte lists, step by step as in the code.\<close>

definition digits_in :: "(int \<Rightarrow> bool) \<Rightarrow> u8 list \<Rightarrow> (int \<times> u8 list) option" where
  "digits_in ok bs = Option.bind (two_digits bs) (\<lambda>(n, rest). if ok n then Some (n, rest) else None)"

definition year_digits :: "bool \<Rightarrow> u8 list \<Rightarrow> (int \<times> u8 list) option" where
  "year_digits g bs =
     (if g then Option.bind (two_digits bs) (\<lambda>(a, rest). Option.bind (two_digits rest) (\<lambda>(b, rest). Some (a * 100 + b, rest)))
      else Option.bind (two_digits bs) (\<lambda>(a, rest). Some (if a < 50 then 2000 + a else 1900 + a, rest)))"

definition zone_digits :: "bool \<Rightarrow> u8 \<Rightarrow> u8 list \<Rightarrow> (int \<times> u8 list) option" where
  "zone_digits allow tz bs =
     (if tz = 0x5A then Some (0, bs)
      else if (tz = 0x2B \<or> tz = 0x2D) \<and> allow
      then Option.bind (digits_in (\<lambda>n. n \<le> 23) bs) (\<lambda>(oh, rest).
        Option.bind (digits_in (\<lambda>n. n \<le> 59) rest) (\<lambda>(om, rest).
          Some ((if tz = 0x2B then 1 else - 1) * (oh * 3600 + om * 60), rest)))
      else None)"

definition time_fields :: "bool \<Rightarrow> bool \<Rightarrow> u8 list \<Rightarrow> ((tm \<times> int) \<times> u8 list) option" where
  "time_fields g allow bs =
     Option.bind (year_digits g bs) (\<lambda>(y, rest).
     Option.bind (digits_in (\<lambda>n. 1 \<le> n \<and> n \<le> 12) rest) (\<lambda>(mo, rest).
     Option.bind (digits_in (is_valid_day y mo) rest) (\<lambda>(d, rest).
     Option.bind (digits_in (\<lambda>n. n \<le> 23) rest) (\<lambda>(h, rest).
     Option.bind (digits_in (\<lambda>n. n \<le> 59) rest) (\<lambda>(mi, rest).
     Option.bind (digits_in (\<lambda>n. n \<le> 59) rest) (\<lambda>(s, rest).
     Option.bind (first_byte rest) (\<lambda>(tz, rest).
     Option.bind (zone_digits allow tz rest) (\<lambda>(off, rest).
       Some ((\<lparr>tm_year = y - 1900, tm_mon = mo - 1, tm_mday = d, tm_hour = h, tm_min = mi, tm_sec = s\<rparr>, off), rest)))))))))"

interpretation digits_in: byte_reader "\<lambda>m. two_digits_in m ok" "digits_in ok" same for ok
  unfolding two_digits_in_def [abs_def] digits_in_def [abs_def]
  by (rule reads_bind [OF digits.byte_reader_axioms]) (simp add: agrees_ret agrees_fail)

interpretation year: byte_reader "\<lambda>m. parse_year m g" "year_digits g" same for g
proof (cases g)
  case True
  then show "byte_reader (\<lambda>m. parse_year m g) (year_digits g) same"
    unfolding parse_year_def [abs_def] year_digits_def [abs_def] Let_def
    by (simp only: if_True) (rule reads_bind [OF digits.byte_reader_axioms], rule agrees_bind [OF digits.reads];
      simp add: agrees_ret)
next
  case False
  then show "byte_reader (\<lambda>m. parse_year m g) (year_digits g) same"
    unfolding parse_year_def [abs_def] year_digits_def [abs_def] Let_def
    by (simp only: if_False) (rule reads_bind [OF digits.byte_reader_axioms], auto simp: two_digits_iff intro!: agrees_ret)
qed

interpretation zone: byte_reader "\<lambda>m. parse_offset m allow tz" "zone_digits allow tz" same for allow tz
proof
  fix m c bs assume h: "cbs_holds m c bs"
  show "agrees (same m c) c bs (parse_offset m allow tz c) (zone_digits allow tz bs)"
    unfolding parse_offset_def zone_digits_def Let_def not_less
    by (auto intro!: agrees_ret agrees_fail agrees_bind [OF digits_in.reads] h)
qed

text \<open>Readers of scalars in sequence.\<close>

lemma agrees_bind_same:
  assumes "agrees (=) c bs r x" "cbs_holds m c bs"
    and "\<And>w c' bs'. cbs_holds m c' bs' \<Longrightarrow> agrees R c' bs' (k w c') (g w bs')"
  shows "agrees R c bs (cbs_bind r k) (Option.bind x (\<lambda>(w, rest). g w rest))"
  by (rule agrees_bind [OF assms(1,2)]) (simp add: assms(3))

interpretation fields: byte_reader "\<lambda>m. parse_time_fields m g allow" "time_fields g allow" same for g allow
proof
  fix m c bs assume h: "cbs_holds m c bs"
  have e: "(\<lambda>n. \<not> (n < 1 \<or> 12 < n)) = (\<lambda>n :: int. 1 \<le> n \<and> n \<le> 12)" "(\<lambda>n. \<not> 23 < n) = (\<lambda>n :: int. n \<le> 23)"
    "(\<lambda>n. \<not> 59 < n) = (\<lambda>n :: int. n \<le> 59)" by auto
  show "agrees (same m c) c bs (parse_time_fields m g allow c) (time_fields g allow bs)"
    unfolding parse_time_fields_def time_fields_def e
    by (rule agrees_bind_same [OF year.reads [OF h] h],
        (rule agrees_bind_same [OF digits_in.reads] agrees_bind_same [OF u8.reads] agrees_bind_same [OF zone.reads],
         assumption+)+) (simp add: agrees_ret)
qed

section \<open>Written times\<close>

text \<open>
  The text of the local fields and of the zone: \<open>Z\<close>, or a sign with hours and minutes where the caller
  allows it. The offset is in seconds.
\<close>

definition time_text :: "bool \<Rightarrow> tm \<Rightarrow> u8 list" where
  "time_text g l =
     (let y = tm_year l + 1900 in
      (if g then dd (y div 100) else []) @ dd (y mod 100) @ dd (tm_mon l + 1) @ dd (tm_mday l) @
      dd (tm_hour l) @ dd (tm_min l) @ dd (tm_sec l))"

definition zone_text :: "bool \<Rightarrow> int \<Rightarrow> u8 list \<Rightarrow> bool" where
  "zone_text allow off z \<longleftrightarrow>
     (z = [0x5A] \<and> off = 0) \<or>
     (allow \<and> (\<exists>oh om. 0 \<le> oh \<and> oh \<le> 23 \<and> 0 \<le> om \<and> om \<le> 59 \<and>
       (z = 0x2B # dd oh @ dd om \<and> off = oh * 3600 + om * 60 \<or> z = 0x2D # dd oh @ dd om \<and> off = - (oh * 3600 + om * 60))))"

definition year_ok :: "bool \<Rightarrow> int \<Rightarrow> bool" where
  "year_ok g y \<longleftrightarrow> (if g then 0 \<le> y \<and> y \<le> 9999 else 1950 \<le> y \<and> y \<le> 2049)"

lemma bind_Some_iff: "Option.bind x (\<lambda>(w, r). f w r) = Some y \<longleftrightarrow> (\<exists>w r. x = Some (w, r) \<and> f w r = Some y)"
  by (cases x) auto

lemma digits_in_iff: "digits_in ok bs = Some (n, rest) \<longleftrightarrow> 0 \<le> n \<and> n \<le> 99 \<and> ok n \<and> bs = dd n @ rest"
  by (auto simp: digits_in_def bind_Some_iff two_digits_iff split: if_splits)

lemma year_digits_iff:
  "year_digits g bs = Some (y, rest) \<longleftrightarrow>
     year_ok g y \<and> bs = (if g then dd (y div 100) else []) @ dd (y mod 100) @ rest"
proof (cases g)
  case True
  have "(\<exists>a b. 0 \<le> a \<and> a \<le> 99 \<and> 0 \<le> b \<and> b \<le> 99 \<and> y = a * 100 + b \<and> bs = dd a @ dd b @ rest) \<longleftrightarrow>
      0 \<le> y \<and> y \<le> 9999 \<and> bs = dd (y div 100) @ dd (y mod 100) @ rest" (is "?L \<longleftrightarrow> ?R")
  proof
    assume ?L
    then obtain a b where ab: "0 \<le> a" "a \<le> 99" "0 \<le> b" "b \<le> 99" "y = 100 * a + b" "bs = dd a @ dd b @ rest" by auto
    then have "y div 100 = a" "y mod 100 = b" using int_div_pos_eq [OF ab(5,3)] int_mod_pos_eq [OF ab(5,3)] by simp_all
    then show ?R using ab by simp
  next
    assume ?R
    moreover from this have "y div 100 \<le> 99" "0 \<le> y div 100" using zdiv_mono1 [of y 9999 100] by (simp_all add: pos_imp_zdiv_nonneg_iff)
    moreover have "y = y div 100 * 100 + y mod 100" "0 \<le> y mod 100" "y mod 100 \<le> 99" using pos_mod_bound [of 100 y] by simp_all
    ultimately show ?L by blast
  qed
  then show ?thesis using True by (auto simp: year_digits_def bind_Some_iff two_digits_iff year_ok_def)
next
  case False
  have "(\<exists>a. 0 \<le> a \<and> a \<le> 99 \<and> y = (if a < 50 then 2000 + a else 1900 + a) \<and> bs = dd a @ rest) \<longleftrightarrow>
      1950 \<le> y \<and> y \<le> 2049 \<and> bs = dd (y mod 100) @ rest" (is "?L \<longleftrightarrow> ?R")
  proof
    assume ?L
    then obtain a where a: "0 \<le> a" "a \<le> 99" "y = (if a < 50 then 2000 + a else 1900 + a)" "bs = dd a @ rest" by auto
    have "y mod 100 = a"
    proof (cases "a < 50")
      case True
      then show ?thesis using a int_mod_pos_eq [of y 100 20 a] by simp
    next
      case False
      then show ?thesis using a int_mod_pos_eq [of y 100 19 a] by simp
    qed
    then show ?R using a by (simp split: if_splits)
  next
    assume r: ?R
    show ?L
    proof (cases "y < 2000")
      case True
      then have "y mod 100 = y - 1900" using r int_mod_pos_eq [of y 100 19 "y - 1900"] by simp
      then show ?thesis using r True by (intro exI [of _ "y - 1900"]) simp
    next
      case False
      then have "y mod 100 = y - 2000" using r int_mod_pos_eq [of y 100 20 "y - 2000"] by simp
      then show ?thesis using r False by (intro exI [of _ "y - 2000"]) simp
    qed
  qed
  then have "(\<exists>a. (0 \<le> a \<and> a \<le> 99 \<and> bs = dd a @ rest) \<and> (if a < 50 then 2000 + a else 1900 + a) = y) \<longleftrightarrow>
      1950 \<le> y \<and> y \<le> 2049 \<and> bs = dd (y mod 100) @ rest"
    by metis
  then show ?thesis
    using False by (simp only: year_digits_def bind_Some_iff two_digits_iff year_ok_def if_False option.inject prod.inject append_Nil) blast
qed

lemma valid_day_C: "0 \<le> y \<Longrightarrow> y \<le> 9999 \<Longrightarrow> 1 \<le> m \<Longrightarrow> m \<le> 12 \<Longrightarrow> is_valid_day y m d = valid_date y m d"
  unfolding valid_date_C [symmetric] is_valid_day_def is_valid_date_def by auto

lemma month_days_le: "month_days y m \<le> 31"
  by (simp add: month_days_def)

lemma zone_digits_iff:
  "zone_digits allow tz bs = Some (off, rest) \<longleftrightarrow>
     (tz = 0x5A \<and> off = 0 \<and> bs = rest) \<or>
     (allow \<and> (\<exists>oh om. 0 \<le> oh \<and> oh \<le> 23 \<and> 0 \<le> om \<and> om \<le> 59 \<and> bs = dd oh @ dd om @ rest \<and>
       (tz = 0x2B \<and> off = oh * 3600 + om * 60 \<or> tz = 0x2D \<and> off = - (oh * 3600 + om * 60))))"
proof -
  consider "tz = 0x5A" | "tz = 0x2B" | "tz = 0x2D" | "tz \<noteq> 0x5A" "tz \<noteq> 0x2B" "tz \<noteq> 0x2D" by blast
  then show ?thesis by cases (auto simp: zone_digits_def bind_Some_iff digits_in_iff)
qed

lemma zone_iff:
  "Option.bind (first_byte bs) (\<lambda>(tz, rest). zone_digits allow tz rest) = Some (off, rest) \<longleftrightarrow>
     (\<exists>z. zone_text allow off z \<and> bs = z @ rest)" (is "?L \<longleftrightarrow> ?R")
proof
  assume ?L
  then obtain tz b where "bs = tz # b" "zone_digits allow tz b = Some (off, rest)"
    by (auto simp: bind_Some_iff first_byte_Some)
  then consider "tz = 0x5A" "off = 0" "bs = [tz] @ rest"
    | oh om where "allow" "0 \<le> oh" "oh \<le> 23" "0 \<le> om" "om \<le> 59" "bs = (tz # dd oh @ dd om) @ rest"
      "tz = 0x2B \<and> off = oh * 3600 + om * 60 \<or> tz = 0x2D \<and> off = - (oh * 3600 + om * 60)"
    unfolding zone_digits_iff by auto
  then show ?R
  proof cases
    case 2
    then have "zone_text allow off (tz # dd oh @ dd om)" unfolding zone_text_def by blast
    then show ?thesis using 2(6) by blast
  qed (auto simp: zone_text_def)
next
  assume ?R
  then obtain z where z: "zone_text allow off z" "bs = z @ rest" by blast
  then consider "z = [0x5A]" "off = 0"
    | oh om tz where "allow" "0 \<le> oh" "oh \<le> 23" "0 \<le> om" "om \<le> 59" "z = tz # dd oh @ dd om"
      "tz = 0x2B \<and> off = oh * 3600 + om * 60 \<or> tz = 0x2D \<and> off = - (oh * 3600 + om * 60)"
    unfolding zone_text_def by blast
  then show ?L
  proof cases
    case 2
    then have "zone_digits allow tz (dd oh @ dd om @ rest) = Some (off, rest)" unfolding zone_digits_iff by blast
    then show ?thesis by (simp add: z(2) 2(6))
  qed (simp add: z(2) zone_digits_iff)
qed

lemma tm_to_posix_iff:
  "(\<exists>p. OPENSSL_tm_to_posix l = Some p) \<longleftrightarrow>
     valid_date (tm_year l + 1900) (tm_mon l + 1) (tm_mday l) \<and> valid_time (tm_hour l) (tm_min l) (tm_sec l)"
  by (simp add: OPENSSL_tm_to_posix_def posix_time_days)

lemma time_fields_iff:
  "time_fields g allow bs = Some ((l, off), rest) \<longleftrightarrow>
     year_ok g (tm_year l + 1900) \<and> (\<exists>p. OPENSSL_tm_to_posix l = Some p) \<and>
     (\<exists>z. zone_text allow off z \<and> bs = time_text g l @ z @ rest)" (is "?L \<longleftrightarrow> ?R")
proof
  assume ?L
  then obtain y mo d h mi s b where y: "year_ok g y"
    and f: "1 \<le> mo" "mo \<le> 12" "is_valid_day y mo d" "0 \<le> h" "h \<le> 23" "0 \<le> mi" "mi \<le> 59" "0 \<le> s" "s \<le> 59"
    and l: "l = \<lparr>tm_year = y - 1900, tm_mon = mo - 1, tm_mday = d, tm_hour = h, tm_min = mi, tm_sec = s\<rparr>"
    and bs: "bs = (if g then dd (y div 100) else []) @ dd (y mod 100) @ dd mo @ dd d @ dd h @ dd mi @ dd s @ b"
    and z: "Option.bind (first_byte b) (\<lambda>(tz, rest). zone_digits allow tz rest) = Some (off, rest)"
    unfolding time_fields_def bind_Some_iff year_digits_iff digits_in_iff by auto
  have "valid_date y mo d" using y f valid_day_C [of y mo d] by (auto simp: year_ok_def split: if_splits)
  then show ?R using y f z by (auto simp: l bs zone_iff tm_to_posix_iff valid_time_def time_text_def Let_def)
next
  assume r: ?R
  then obtain z where z: "zone_text allow off z" and bs: "bs = time_text g l @ z @ rest" by blast
  let ?y = "tm_year l + 1900" and ?m = "tm_mon l + 1"
  from r have v: "year_ok g ?y" "valid_date ?y ?m (tm_mday l)" "valid_time (tm_hour l) (tm_min l) (tm_sec l)"
    unfolding tm_to_posix_iff by blast+
  then have d: "is_valid_day ?y ?m (tm_mday l)" "1 \<le> ?m" "?m \<le> 12" "1 \<le> tm_mday l" "tm_mday l \<le> 99"
    using valid_day_C [of ?y ?m] month_days_le [of ?y ?m] by (auto simp: valid_date_def)
  from z have "Option.bind (first_byte (z @ rest)) (\<lambda>(tz, rest). zone_digits allow tz rest) = Some (off, rest)"
    using zone_iff by blast
  then obtain tz b where "first_byte (z @ rest) = Some (tz, b)" "zone_digits allow tz b = Some (off, rest)"
    unfolding bind_Some_iff by blast
  moreover have "year_digits g bs = Some (?y, dd ?m @ dd (tm_mday l) @ dd (tm_hour l) @ dd (tm_min l) @ dd (tm_sec l) @ z @ rest)"
    using v(1) by (simp add: year_digits_iff bs time_text_def Let_def)
  moreover have "digits_in ok (dd n @ b) = Some (n, b)" if "0 \<le> n" "n \<le> 99" "ok n" for ok n b
    using that by (simp add: digits_in_iff)
  ultimately show ?L
    using d v(3) unfolding time_fields_def by (simp add: valid_time_def)
qed

lemma posix_to_tm_iff: "OPENSSL_posix_to_tm p = Some t \<longleftrightarrow> OPENSSL_tm_to_posix t = Some p"
proof
  assume "OPENSSL_posix_to_tm p = Some t"
  then show "OPENSSL_tm_to_posix t = Some p"
    by (auto simp: OPENSSL_posix_to_tm_def OPENSSL_tm_to_posix_def posix_time_of_utc split: option.splits prod.splits)
next
  assume "OPENSSL_tm_to_posix t = Some p"
  then have "utc_from_posix_time p = Some (tm_year t + 1900, tm_mon t + 1, tm_mday t, tm_hour t, tm_min t, tm_sec t)"
    unfolding OPENSSL_tm_to_posix_def by (rule utc_of_posix_time)
  then show "OPENSSL_posix_to_tm p = Some t" by (simp add: OPENSSL_posix_to_tm_def)
qed

lemma posix_bounds: "OPENSSL_tm_to_posix t = Some p \<Longrightarrow> MIN_POSIX_TIME \<le> p \<and> p \<le> MAX_POSIX_TIME"
proof -
  assume "OPENSSL_tm_to_posix t = Some p"
  then have "utc_from_posix_time p \<noteq> None"
    using utc_of_posix_time unfolding OPENSSL_tm_to_posix_def by blast
  then show ?thesis by (auto simp: utc_from_posix_time_def is_valid_posix_time_def split: if_splits)
qed

lemma gmtime_adj_small:
  assumes "OPENSSL_tm_to_posix l = Some p" "\<bar>off\<bar> < 86400"
  shows "OPENSSL_gmtime_adj l 0 off = Some t \<longleftrightarrow> OPENSSL_tm_to_posix t = Some (p + off)"
  using posix_bounds [OF assms(1)] assms
  by (auto simp: OPENSSL_gmtime_adj_def posix_to_tm_iff MIN_POSIX_TIME_def MAX_POSIX_TIME_def INT64_MAX_def INT64_MIN_def)

lemma zone_text_bound: "zone_text allow off z \<Longrightarrow> \<bar>off\<bar> < 86400"
  by (auto simp: zone_text_def)

text \<open>
  On every window of mapped memory the parser returns, and what it stores for a written local time
  with an offset is the local time plus the offset (\<open>cbs.c\<close> adds a positive offset). A local time with
  difference \<open>+hhmm\<close> is that much ahead of UTC, so this is the corresponding time in UTC, as
  \<open>bytestring.h\<close> promises, only where the offset is zero.
\<close>

lemma parse_time_general:
  assumes "cbs_holds m c bs"
  shows "\<exists>ok out. CBS_parse_rfc5280_time_internal m c g allow (Some t0) = Some (ok, out) \<and>
    (\<forall>t. (ok \<and> out = Some t) = (\<exists>l z off p. year_ok g (tm_year l + 1900) \<and> OPENSSL_tm_to_posix l = Some p \<and>
       zone_text allow off z \<and> bs = time_text g l @ z \<and> OPENSSL_tm_to_posix t = Some (p + off)))"
proof (cases "time_fields g allow bs")
  case None
  obtain c' where "parse_time_fields m g allow c = Some (None, c')" by (rule fields.failure [OF assms None])
  moreover have "\<nexists>l z off p. year_ok g (tm_year l + 1900) \<and> OPENSSL_tm_to_posix l = Some p \<and>
       zone_text allow off z \<and> bs = time_text g l @ z"
    using None time_fields_iff [of g allow bs _ _ "[]"] by (metis append_Nil2 option.distinct(1))
  ultimately show ?thesis
    unfolding CBS_parse_rfc5280_time_internal_def by (simp only: option.case prod.case option.inject prod.inject) blast
next
  case (Some w)
  then obtain l off rest where s: "time_fields g allow bs = Some ((l, off), rest)" by (metis prod.collapse)
  obtain c' where c': "parse_time_fields m g allow c = Some (Some (l, off), c')" "cbs_holds m c' rest"
    using fields.success [OF assms s] by metis
  obtain z p where l: "year_ok g (tm_year l + 1900)" "OPENSSL_tm_to_posix l = Some p" "zone_text allow off z"
    "bs = time_text g l @ z @ rest"
    using s unfolding time_fields_iff by blast
  have u: "l' = l \<and> off' = off \<and> rest = []"
    if "year_ok g (tm_year l' + 1900)" "OPENSSL_tm_to_posix l' = Some p'" "zone_text allow off' z'" "bs = time_text g l' @ z'"
    for l' p' off' z'
    using that time_fields_iff [of g allow bs l' off' "[]"] s by auto
  show ?thesis
  proof (cases "rest = []")
    case True
    then have len: "cbs_len c' = 0" using holds_len_0 [OF c'(2)] by simp
    have r: "(\<exists>l z off p. year_ok g (tm_year l + 1900) \<and> OPENSSL_tm_to_posix l = Some p \<and> zone_text allow off z \<and>
        bs = time_text g l @ z \<and> OPENSSL_tm_to_posix t = Some (p + off)) \<longleftrightarrow> OPENSSL_tm_to_posix t = Some (p + off)" for t
      using u l True by (metis append_Nil2 option.inject)
    note adj = gmtime_adj_small [OF l(2) zone_text_bound [OF l(3)]]
    have self: "OPENSSL_tm_to_posix t = Some p \<longleftrightarrow> t = l" for t
      using l(2) posix_to_tm_iff by (metis option.inject)
    have "CBS_parse_rfc5280_time_internal m c g allow (Some t0) =
        (if off = 0 then Some (True, Some l)
         else case OPENSSL_gmtime_adj l 0 off of None \<Rightarrow> Some (False, Some l) | Some t \<Rightarrow> Some (True, Some t))"
      by (simp add: CBS_parse_rfc5280_time_internal_def c'(1) len)
    then show ?thesis
      unfolding r by (cases "off = 0"; cases "OPENSSL_gmtime_adj l 0 off") (auto simp: self adj [symmetric])
  next
    case False
    then have "cbs_len c' \<noteq> 0" using holds_len_0 [OF c'(2)] by simp
    then have "CBS_parse_rfc5280_time_internal m c g allow (Some t0) = Some (False, Some t0)"
      by (simp add: CBS_parse_rfc5280_time_internal_def c'(1))
    then show ?thesis using u False by blast
  qed
qed

text \<open>\<open>700101000000+0100\<close>, which is 23:00 on the last day of 1969 in UTC, is read as 01:00.\<close>

lemma parse_time_offset_added:
  "CBS_parse_utc_time
     (put_bytes Map.empty 8 [0x37, 0x30, 0x30, 0x31, 0x30, 0x31, 0x30, 0x30, 0x30, 0x30, 0x30, 0x30, 0x2B, 0x30, 0x31, 0x30, 0x30])
     (CBS_init 8 17) (Some t0) True =
   Some (True, Some \<lparr>tm_year = 70, tm_mon = 0, tm_mday = 1, tm_hour = 1, tm_min = 0, tm_sec = 0\<rparr>)"
  by code_simp

lemma dd_last: "last (x # dd k @ dd n) \<noteq> 0x5A"
proof
  assume "last (x # dd k @ dd n) = 0x5A"
  then have "unat (of_nat (48 + nat n mod 10) :: u8) = 0x5A" by (simp add: dd_def)
  moreover have lt: "48 + nat n mod 10 < 58" by simp
  then have "take_bit 8 (48 + nat n mod 10) = 48 + nat n mod 10" 
    by (intro take_bit_nat_eq_self) (rule less_trans [OF lt], simp)
  ultimately show False using lt by (simp add: unsigned_of_nat del: of_nat_add)
qed

lemma zone_text_utc:
  assumes "\<not> allow \<or> last (b @ z) = 0x5A"
  shows "zone_text allow off z \<longleftrightarrow> z = [0x5A] \<and> off = 0"
  using assms dd_last unfolding zone_text_def by (auto simp del: last.simps)

text \<open>C24: On every window of mapped memory the parsers of GeneralizedTime and UTCTime return. Without
  offsets (not allowed by the caller, or a text that ends in \<open>Z\<close>) they accept exactly the written form of
  a calendar date and time of day (four digits of the year, or two for the years 1950 to 2049) followed
  by \<open>Z\<close>, and store that time; with a null \<open>out_tm\<close> they accept the same texts.\<close>

theorem CBS_parse_time_exact:
  assumes "cbs_holds m c bs" "\<not> allow \<or> last bs = 0x5A"
    and "parse = (if g then CBS_parse_generalized_time else CBS_parse_utc_time)"
  shows "\<exists>ok out. parse m c (Some t0) allow = Some (ok, out) \<and> parse m c None allow = Some (ok, None) \<and>
    (\<forall>t. (ok \<and> out = Some t) = (year_ok g (tm_year t + 1900) \<and>
       valid_date (tm_year t + 1900) (tm_mon t + 1) (tm_mday t) \<and> valid_time (tm_hour t) (tm_min t) (tm_sec t) \<and>
       bs = time_text g t @ [0x5A]))"
proof -
  let ?int = "\<lambda>o'. CBS_parse_rfc5280_time_internal m c g allow o'"
  have p: "parse m c o' allow = ?int o'" for o'
    by (simp add: assms(3) CBS_parse_generalized_time_def CBS_parse_utc_time_def)
  define good where "good t \<longleftrightarrow> year_ok g (tm_year t + 1900) \<and>
      valid_date (tm_year t + 1900) (tm_mon t + 1) (tm_mday t) \<and> valid_time (tm_hour t) (tm_min t) (tm_sec t) \<and>
      bs = time_text g t @ [0x5A]" for t
  have good: "good t \<longleftrightarrow> time_fields g allow bs = Some ((t, 0), [])" for t
  proof -
    have "bs = time_text g t @ [0x5A] \<longleftrightarrow> (\<exists>z. zone_text allow 0 z \<and> bs = time_text g t @ z)"
      using zone_text_utc [of allow "time_text g t" _ 0] assms(2) by (auto simp: zone_text_def)
    then show ?thesis unfolding good_def time_fields_iff tm_to_posix_iff append_Nil2 by blast
  qed
  have off: "off = 0" if "time_fields g allow bs = Some ((l, off), [])" for l off
    using that assms(2) zone_text_utc [of allow "time_text g l"] unfolding time_fields_iff by auto
  show ?thesis
  proof (cases "\<exists>l. time_fields g allow bs = Some ((l, 0), [])")
    case True
    then obtain l where l: "time_fields g allow bs = Some ((l, 0), [])" by blast
    obtain c' where c': "parse_time_fields m g allow c = Some (Some (l, 0), c')" "cbs_holds m c' []"
      using fields.success [OF assms(1) l] by metis
    then have "?int (Some t0) = Some (True, Some l)" "?int None = Some (True, None)"
      using holds_len_0 [OF c'(2)] by (simp_all add: CBS_parse_rfc5280_time_internal_def)
    moreover have "good t \<longleftrightarrow> t = l" for t using good l by auto
    ultimately show ?thesis unfolding p good_def [symmetric] by auto
  next
    case False
    have "?int (Some t0) = Some (False, Some t0) \<and> ?int None = Some (False, None)"
    proof (cases "time_fields g allow bs")
      case None
      then obtain c' where "parse_time_fields m g allow c = Some (None, c')"
        using fields.failure [OF assms(1)] by metis
      then show ?thesis by (simp add: CBS_parse_rfc5280_time_internal_def)
    next
      case (Some w)
      then obtain l off rest where s: "time_fields g allow bs = Some ((l, off), rest)" by (metis prod.collapse)
      then have "rest \<noteq> []" using off False by auto
      moreover obtain c' where "parse_time_fields m g allow c = Some (Some (l, off), c')" "cbs_holds m c' rest"
        using fields.success [OF assms(1) s] by metis
      ultimately show ?thesis
        using holds_len_0 by (auto simp: CBS_parse_rfc5280_time_internal_def)
    qed
    moreover have "\<not> good t" for t using good False by blast
    ultimately show ?thesis unfolding p good_def [symmetric] by auto
  qed
qed

text \<open>\<open>20240229123456Z\<close>, a leap day.\<close>

theorem CBS_parse_time_exact_witness:
  "\<exists>out. CBS_parse_generalized_time
     (put_bytes Map.empty 8 [0x32, 0x30, 0x32, 0x34, 0x30, 0x32, 0x32, 0x39, 0x31, 0x32, 0x33, 0x34, 0x35, 0x36, 0x5A])
     (CBS_init 8 15) (Some \<lparr>tm_year = 0, tm_mon = 0, tm_mday = 0, tm_hour = 0, tm_min = 0, tm_sec = 0\<rparr>) False = Some (True, out) \<and>
   out = Some \<lparr>tm_year = 124, tm_mon = 1, tm_mday = 29, tm_hour = 12, tm_min = 34, tm_sec = 56\<rparr>"
proof -
  let ?bs = "[0x32, 0x30, 0x32, 0x34, 0x30, 0x32, 0x32, 0x39, 0x31, 0x32, 0x33, 0x34, 0x35, 0x36, 0x5A] :: u8 list"
  let ?t = "\<lparr>tm_year = 124, tm_mon = 1, tm_mday = 29, tm_hour = 12, tm_min = 34, tm_sec = 56\<rparr>"
  have h: "cbs_holds (put_bytes Map.empty 8 ?bs) (CBS_init 8 15) ?bs" by code_simp
  have "year_ok True (tm_year ?t + 1900)" "valid_date (tm_year ?t + 1900) (tm_mon ?t + 1) (tm_mday ?t)"
    "valid_time (tm_hour ?t) (tm_min ?t) (tm_sec ?t)" "?bs = time_text True ?t @ [0x5A]"
    by code_simp+
  moreover have g: "CBS_parse_generalized_time = (if True then CBS_parse_generalized_time else CBS_parse_utc_time)"
    and z: "\<not> False \<or> last ?bs = 0x5A" by simp_all
  obtain ok out where r: "CBS_parse_generalized_time (put_bytes Map.empty 8 ?bs) (CBS_init 8 15)
      (Some \<lparr>tm_year = 0, tm_mon = 0, tm_mday = 0, tm_hour = 0, tm_min = 0, tm_sec = 0\<rparr>) False = Some (ok, out)"
    and "\<forall>t. (ok \<and> out = Some t) = (year_ok True (tm_year t + 1900) \<and>
       valid_date (tm_year t + 1900) (tm_mon t + 1) (tm_mday t) \<and> valid_time (tm_hour t) (tm_min t) (tm_sec t) \<and>
       ?bs = time_text True t @ [0x5A])"
    using CBS_parse_time_exact [OF h z g] by blast
  ultimately have "ok \<and> out = Some ?t" by blast
  then show ?thesis unfolding r by simp
qed

text \<open>\<open>OPENSSL_gmtime_adj\<close> moves a time by whole days and seconds: it succeeds exactly when the
  time is valid and the moved time lies in the years 0 to 9999, and its overflow guards reject
  nothing else.\<close>

theorem OPENSSL_gmtime_adj_exact:
  "OPENSSL_gmtime_adj t days secs = Some t' \<longleftrightarrow>
     (\<exists>p. OPENSSL_tm_to_posix t = Some p \<and> OPENSSL_tm_to_posix t' = Some (p + days * 86400 + secs))"
proof (cases "OPENSSL_tm_to_posix t")
  case (Some p)
  define q where "q = p + days * 86400"
  have "OPENSSL_gmtime_adj t days secs =
      (if 0 < q \<and> INT64_MAX - q < secs then None
       else if q < 0 \<and> secs < INT64_MIN - q then None else OPENSSL_posix_to_tm (q + secs))"
    by (simp add: OPENSSL_gmtime_adj_def Some q_def Let_def)
  moreover have "\<not> (0 < q \<and> INT64_MAX - q < secs)" "\<not> (q < 0 \<and> secs < INT64_MIN - q)"
    if "OPENSSL_tm_to_posix t' = Some (q + secs)"
    using posix_bounds [OF that] by (auto simp: MIN_POSIX_TIME_def MAX_POSIX_TIME_def INT64_MAX_def INT64_MIN_def)
  ultimately show ?thesis by (auto simp: Some posix_to_tm_iff q_def [symmetric] split: if_splits)
qed (simp add: OPENSSL_gmtime_adj_def)

end
