(* ===== verification/Boring_Unicode.thy ===== *)
theory Boring_Unicode
  imports Boring_CBB
begin

text \<open>
  The character encodings of BoringSSL, \<open>crypto/bytestring/unicode.c\<close>, and the textual form of object
  identifiers from \<open>crypto/bytestring/cbs.c\<close>: readers and writers of one code point in UTF-8, Latin-1,
  UCS-2 and UTF-32, and \<open>CBS_asn1_oid_to_text\<close>, which reads through one byte string and writes
  through another.
\<close>

section \<open>Code points\<close>

definition is_valid_code_point :: "u32 \<Rightarrow> bool" where
  "is_valid_code_point v \<longleftrightarrow>
     \<not> (0x10FFFF < v \<or> v AND 0xFFFE = 0xFFFE \<or> 0xFDD0 \<le> v \<and> v \<le> 0xFDEF \<or> 0xD800 \<le> v \<and> v \<le> 0xDFFF)"

text \<open>The macros, with the truncation to \<open>uint8_t\<close>.\<close>

definition BOTTOM_BITS :: "nat \<Rightarrow> u8" where
  "BOTTOM_BITS n = ucast (push_bit n (1 :: u32) - 1)"

definition TOP_BITS :: "nat \<Rightarrow> u8" where
  "TOP_BITS n = NOT (BOTTOM_BITS (8 - n))"

section \<open>Readers\<close>

text \<open>The loop over the continuation bytes.\<close>

primrec utf8_loop :: "mem \<Rightarrow> nat \<Rightarrow> u32 \<Rightarrow> CBS \<Rightarrow> u32 cbs_result" where
  "utf8_loop m 0 v c = Some (Some v, c)"
| "utf8_loop m (Suc k) v c =
     cbs_bind (CBS_get_u8 m c) (\<lambda>b c.
       if b AND TOP_BITS 2 \<noteq> TOP_BITS 1 then Some (None, c)
       else utf8_loop m k (push_bit 6 v OR ucast (b AND BOTTOM_BITS 6)) c)"

text \<open>The first byte: the start of the value, the number of continuation bytes and the lower bound.\<close>

definition utf8_lead :: "u8 \<Rightarrow> (u32 \<times> nat \<times> u32) option" where
  "utf8_lead c =
     (if c AND TOP_BITS 3 = TOP_BITS 2 then Some (ucast (c AND BOTTOM_BITS 5), 1, 0x80)
      else if c AND TOP_BITS 4 = TOP_BITS 3 then Some (ucast (c AND BOTTOM_BITS 4), 2, 0x800)
      else if c AND TOP_BITS 5 = TOP_BITS 4 then Some (ucast (c AND BOTTOM_BITS 3), 3, 0x10000)
      else None)"

definition CBS_get_utf8 :: "mem \<Rightarrow> CBS \<Rightarrow> u32 cbs_result" where
  "CBS_get_utf8 m c =
     cbs_bind (CBS_get_u8 m c) (\<lambda>b c.
       if b \<le> 0x7F then Some (Some (ucast b), c)
       else
         (case utf8_lead b of None \<Rightarrow> Some (None, c)
          | Some (v, len, lower_bound) \<Rightarrow>
              cbs_bind (utf8_loop m len v c) (\<lambda>v c.
                if \<not> is_valid_code_point v \<or> v < lower_bound then Some (None, c) else Some (Some v, c))))"

definition CBS_get_latin1 :: "mem \<Rightarrow> CBS \<Rightarrow> u32 cbs_result" where
  "CBS_get_latin1 m c = cbs_bind (CBS_get_u8 m c) (\<lambda>b c. Some (Some (ucast b), c))"

definition CBS_get_ucs2_be :: "mem \<Rightarrow> CBS \<Rightarrow> u32 cbs_result" where
  "CBS_get_ucs2_be m c =
     cbs_bind (CBS_get_u16 m c) (\<lambda>v c.
       if \<not> is_valid_code_point (ucast v) then Some (None, c) else Some (Some (ucast v), c))"

definition CBS_get_utf32_be :: "mem \<Rightarrow> CBS \<Rightarrow> u32 cbs_result" where
  "CBS_get_utf32_be m c =
     cbs_bind (CBS_get_u32 m c) (\<lambda>v c. if is_valid_code_point v then Some (Some v, c) else Some (None, c))"

section \<open>Writers\<close>

definition CBB_get_utf8_len :: "u32 \<Rightarrow> u64" where
  "CBB_get_utf8_len u = (if u \<le> 0x7F then 1 else if u \<le> 0x7FF then 2 else if u \<le> 0xFFFF then 3 else 4)"

definition CBB_add_utf8 :: "cbb_alloc \<Rightarrow> u32 \<Rightarrow> nat \<Rightarrow> CBB \<Rightarrow> cbb_result" where
  "CBB_add_utf8 A u d S =
     (if \<not> is_valid_code_point u then Some (False, S)
      else if u \<le> 0x7F then CBB_add_u8 A (ucast u) d S
      else if u \<le> 0x7FF then
        and_then (CBB_add_u8 A (ucast (ucast (TOP_BITS 2) OR drop_bit 6 u)) d S)
          (CBB_add_u8 A (ucast (ucast (TOP_BITS 1) OR (u AND ucast (BOTTOM_BITS 6)))) d)
      else if u \<le> 0xFFFF then
        and_then (CBB_add_u8 A (ucast (ucast (TOP_BITS 3) OR drop_bit 12 u)) d S) (\<lambda>S.
        and_then (CBB_add_u8 A (ucast (ucast (TOP_BITS 1) OR (drop_bit 6 u AND ucast (BOTTOM_BITS 6)))) d S)
          (CBB_add_u8 A (ucast (ucast (TOP_BITS 1) OR (u AND ucast (BOTTOM_BITS 6)))) d))
      else if u \<le> 0x10FFFF then
        and_then (CBB_add_u8 A (ucast (ucast (TOP_BITS 4) OR drop_bit 18 u)) d S) (\<lambda>S.
        and_then (CBB_add_u8 A (ucast (ucast (TOP_BITS 1) OR (drop_bit 12 u AND ucast (BOTTOM_BITS 6)))) d S) (\<lambda>S.
        and_then (CBB_add_u8 A (ucast (ucast (TOP_BITS 1) OR (drop_bit 6 u AND ucast (BOTTOM_BITS 6)))) d S)
          (CBB_add_u8 A (ucast (ucast (TOP_BITS 1) OR (u AND ucast (BOTTOM_BITS 6)))) d)))
      else Some (False, S))"

definition CBB_add_latin1 :: "cbb_alloc \<Rightarrow> u32 \<Rightarrow> nat \<Rightarrow> CBB \<Rightarrow> cbb_result" where
  "CBB_add_latin1 A u d S = (if u \<le> 0xFF then CBB_add_u8 A (ucast u) d S else Some (False, S))"

definition CBB_add_ucs2_be :: "cbb_alloc \<Rightarrow> u32 \<Rightarrow> nat \<Rightarrow> CBB \<Rightarrow> cbb_result" where
  "CBB_add_ucs2_be A u d S =
     (if u \<le> 0xFFFF \<and> is_valid_code_point u then CBB_add_u16 A (ucast u) d S else Some (False, S))"

definition CBB_add_utf32_be :: "cbb_alloc \<Rightarrow> u32 \<Rightarrow> nat \<Rightarrow> CBB \<Rightarrow> cbb_result" where
  "CBB_add_utf32_be A u d S =
     (if is_valid_code_point u then CBB_add_u32 A u d S else Some (False, S))"

section \<open>Object identifiers as text\<close>

text \<open>\<open>snprintf\<close> with the format \<open>"%" PRIu64\<close>: the decimal digits.\<close>

function print_u64 :: "u64 \<Rightarrow> u8 list" where
  "print_u64 v = (if v < 10 then [48 + ucast v] else print_u64 (v div 10) @ [48 + ucast (v mod 10)])"
  by pat_completeness auto
termination
  by (relation "measure unat") (auto simp: unat_div word_less_nat_alt)

declare print_u64.simps [simp del]

definition add_decimal :: "cbb_alloc \<Rightarrow> u64 \<Rightarrow> nat \<Rightarrow> CBB \<Rightarrow> cbb_result" where
  "add_decimal A v d S = CBB_add_bytes A (print_u64 v) d S"

text \<open>The \<open>while\<close> loop; the value is the state of the builder, \<^term>\<open>None\<close> in it for \<open>goto err\<close>.\<close>

lemma base128_loop_shorter: "base128_loop m v c = Some (Some w, c') \<Longrightarrow> unat (cbs_len c') < unat (cbs_len c)"
proof (induction m v c rule: base128_loop.induct)
  case (1 m v c)
  obtain b c1 where b: "CBS_get_u8 m c = Some (Some b, c1)"
    using 1(2) by (subst (asm) base128_loop.simps) (auto simp: cbs_bind_def split: option.splits)
  show ?case
  proof (cases "b AND 0x80 = 0")
    case True
    then show ?thesis using 1(2) b CBS_get_u8_less [OF b] by (subst (asm) base128_loop.simps) (auto simp: Let_def split: if_splits)
  next
    case False
    then show ?thesis
      using 1(2) 1(1) [OF b] b CBS_get_u8_less [OF b]
      by (subst (asm) base128_loop.simps) (fastforce simp: Let_def split: if_splits)
  qed
qed

lemma parse_base128_integer_shorter:
  "parse_base128_integer m c = Some (Some w, c') \<Longrightarrow> unat (cbs_len c') < unat (cbs_len c)"
  unfolding parse_base128_integer_def by (rule base128_loop_shorter)

function to_text_loop :: "cbb_alloc \<Rightarrow> mem \<Rightarrow> CBS \<Rightarrow> CBB \<Rightarrow> cbb_result" where
  "to_text_loop A m copy S =
     (if cbs_len copy = 0 then Some (True, S)
      else
        (case parse_base128_integer m copy of None \<Rightarrow> None
         | Some (None, _) \<Rightarrow> Some (False, S)
         | Some (Some v, copy') \<Rightarrow>
             and_then (CBB_add_u8 A 0x2E 0 S) (\<lambda>S.
             and_then (add_decimal A v 0 S) (to_text_loop A m copy'))))"
  by pat_completeness auto
termination
  by (relation "measure (\<lambda>(A, m, c, S). unat (cbs_len c))") (auto dest: parse_base128_integer_shorter)

declare to_text_loop.simps [simp del]

text \<open>
  The first two components. \<open>CBS_asn1_oid_to_text\<close> returns the content of the block it hands out, with
  the terminating zero byte; \<open>Some None\<close> is the null pointer.
\<close>

definition to_text_first :: "cbb_alloc \<Rightarrow> u64 \<Rightarrow> CBB \<Rightarrow> cbb_result" where
  "to_text_first A v S =
     (if 80 \<le> v then and_then (CBB_add_bytes A [0x32, 0x2E] 0 S) (add_decimal A (v - 80) 0)
      else
        and_then (add_decimal A (v div 40) 0 S) (\<lambda>S.
        and_then (CBB_add_u8 A 0x2E 0 S) (add_decimal A (v mod 40) 0)))"

definition CBS_asn1_oid_to_text :: "cbb_alloc \<Rightarrow> mem \<Rightarrow> CBS \<Rightarrow> u8 list option option" where
  "CBS_asn1_oid_to_text A m c =
     (case CBB_init A 32 of (False, _) \<Rightarrow> Some None
      | (True, S) \<Rightarrow>
          (case parse_base128_integer m c of None \<Rightarrow> None
           | Some (None, _) \<Rightarrow> Some None
           | Some (Some v, copy) \<Rightarrow>
               (case and_then (to_text_first A v S) (\<lambda>S.
                     and_then (to_text_loop A m copy S) (CBB_add_u8 A 0 0)) of
                  None \<Rightarrow> None
                | Some (False, _) \<Rightarrow> Some None
                | Some (True, S) \<Rightarrow> map_option fst (CBB_finish A True 0 S))))"

end
