(* ===== verification/Boring_String.thy ===== *)
theory Boring_String
  imports Boring_CBB
begin

text \<open>
  \<open>ASN1_STRING\<close> of BoringSSL: the string functions of \<open>crypto/asn1/asn1_lib.c\<close> and the BIT STRINGs of
  \<open>crypto/asn1/a_bitstr.c\<close>. A string owns the block its data pointer points to, which is
  \<^term>\<open>None\<close> for the null pointer and may be longer than the length says; a store outside the block is
  undefined (the outer \<^term>\<open>None\<close>). Input bytes are memory the string does not own. The fields of type
  \<open>int\<close> are integers; every value stored in them is at most 64 MiB.
\<close>

record asn1_string =
  st_length :: int
  st_type :: int
  st_data :: "u8 list option"
  st_flags :: u64

definition V_ASN1_INTEGER :: int where "V_ASN1_INTEGER = 2"
definition V_ASN1_BIT_STRING :: int where "V_ASN1_BIT_STRING = 3"
definition V_ASN1_OCTET_STRING :: int where "V_ASN1_OCTET_STRING = 4"
definition V_ASN1_UTF8STRING :: int where "V_ASN1_UTF8STRING = 12"
definition V_ASN1_NUMERICSTRING :: int where "V_ASN1_NUMERICSTRING = 18"
definition V_ASN1_PRINTABLESTRING :: int where "V_ASN1_PRINTABLESTRING = 19"
definition V_ASN1_T61STRING :: int where "V_ASN1_T61STRING = 20"
definition V_ASN1_IA5STRING :: int where "V_ASN1_IA5STRING = 22"
definition V_ASN1_UTCTIME :: int where "V_ASN1_UTCTIME = 23"
definition V_ASN1_GENERALIZEDTIME :: int where "V_ASN1_GENERALIZEDTIME = 24"
definition V_ASN1_ISO64STRING :: int where "V_ASN1_ISO64STRING = 26"
definition V_ASN1_UNIVERSALSTRING :: int where "V_ASN1_UNIVERSALSTRING = 28"
definition V_ASN1_BMPSTRING :: int where "V_ASN1_BMPSTRING = 30"

definition ASN1_STRING_FLAG_BITS_LEFT :: u64 where "ASN1_STRING_FLAG_BITS_LEFT = 0x08"

definition ASN1_STRING_MAX :: int where "ASN1_STRING_MAX = 64 * 1024 * 1024"

section \<open>Blocks\<close>

text \<open>\<open>OPENSSL_malloc\<close> and \<open>OPENSSL_realloc\<close> (which is \<open>malloc\<close> for a null pointer).\<close>

definition block_realloc :: "cbb_alloc \<Rightarrow> u8 list option \<Rightarrow> nat \<Rightarrow> u8 list option" where
  "block_realloc A b n =
     (let old = (case b of None \<Rightarrow> [] | Some bs \<Rightarrow> bs)
      in if can_alloc A (of_nat n) then Some (take n old @ map (fresh_at A) [length old..<n]) else None)"

definition block_store :: "nat \<Rightarrow> u8 list \<Rightarrow> u8 list \<Rightarrow> u8 list option" where
  "block_store i bs b = (if i + length bs \<le> length b then Some (take i b @ bs @ drop (i + length bs) b) else None)"

definition block_load :: "u8 list option \<Rightarrow> int \<Rightarrow> u8 option" where
  "block_load b i =
     (case b of None \<Rightarrow> None | Some bs \<Rightarrow> if 0 \<le> i \<and> i < int (length bs) then Some (bs ! nat i) else None)"

section \<open>Strings\<close>

definition ASN1_STRING_type_new :: "cbb_alloc \<Rightarrow> int \<Rightarrow> asn1_string option" where
  "ASN1_STRING_type_new A type =
     (if can_alloc A 24 then Some \<lparr>st_length = 0, st_type = type, st_data = None, st_flags = 0\<rparr> else None)"

definition ASN1_STRING_new :: "cbb_alloc \<Rightarrow> asn1_string option" where
  "ASN1_STRING_new A = ASN1_STRING_type_new A V_ASN1_OCTET_STRING"

text \<open>The source is a memory and an address, or \<^term>\<open>None\<close> for a null pointer.\<close>

definition ASN1_STRING_set :: "cbb_alloc \<Rightarrow> asn1_string \<Rightarrow> (mem \<times> addr) option \<Rightarrow> int \<Rightarrow> (bool \<times> asn1_string) option" where
  "ASN1_STRING_set A str data len_s =
     (let store = (\<lambda>len b.
        (let str = str\<lparr>st_data := Some b, st_length := int len\<rparr>
         in case data of None \<Rightarrow> Some (True, str)
            | Some (m, p) \<Rightarrow>
                Option.bind (load_bytes m p len) (\<lambda>bs.
                Option.bind (block_store 0 bs b) (\<lambda>b.
                Option.bind (block_store len [0] b) (\<lambda>b. Some (True, str\<lparr>st_data := Some b\<rparr>))))));
      set_len = (\<lambda>len.
        if ASN1_STRING_MAX < int len then Some (False, str)
        else if st_length str \<le> int len \<or> st_data str = None then
          (case block_realloc A (st_data str) (len + 1) of None \<Rightarrow> Some (False, str) | Some b \<Rightarrow> store len b)
        else store len (the (st_data str)))
      in if len_s < 0 then (case data of None \<Rightarrow> Some (False, str) | Some (m, p) \<Rightarrow> Option.bind (strlen m p) set_len)
         else set_len (nat len_s))"

definition ASN1_STRING_set0 :: "asn1_string \<Rightarrow> u8 list option \<Rightarrow> int \<Rightarrow> asn1_string" where
  "ASN1_STRING_set0 str data len = str\<lparr>st_data := data, st_length := len\<rparr>"

text \<open>A block as a source of \<open>ASN1_STRING_set\<close>.\<close>

definition block_source :: "u8 list option \<Rightarrow> (mem \<times> addr) option" where
  "block_source b = map_option (\<lambda>bs. (\<lambda>x. if 0 \<le> x \<and> x < int (length bs) then Some (bs ! nat x) else None, 0)) b"

definition ASN1_STRING_copy :: "cbb_alloc \<Rightarrow> asn1_string \<Rightarrow> asn1_string option \<Rightarrow> (bool \<times> asn1_string) option" where
  "ASN1_STRING_copy A dst str =
     (case str of None \<Rightarrow> Some (False, dst)
      | Some str \<Rightarrow>
          and_then (ASN1_STRING_set A dst (block_source (st_data str)) (st_length str))
            (\<lambda>dst. Some (True, dst\<lparr>st_type := st_type str, st_flags := st_flags str\<rparr>)))"

definition ASN1_STRING_dup :: "cbb_alloc \<Rightarrow> asn1_string option \<Rightarrow> asn1_string option option" where
  "ASN1_STRING_dup A str =
     (case str of None \<Rightarrow> Some None
      | Some s \<Rightarrow>
          (case ASN1_STRING_new A of None \<Rightarrow> Some None
           | Some ret \<Rightarrow> map_option (\<lambda>(ok, ret). if ok then Some ret else None) (ASN1_STRING_copy A ret str)))"

section \<open>Bit strings\<close>

text \<open>
  \<open>while (len > 0 && str->data[len - 1] == 0) len--;\<close> and the loop that counts the low zero bits of the
  last byte.
\<close>

primrec trim_zeros :: "u8 list option \<Rightarrow> nat \<Rightarrow> nat option" where
  "trim_zeros b 0 = Some 0"
| "trim_zeros b (Suc n) = Option.bind (block_load b (int n)) (\<lambda>v. if v = 0 then trim_zeros b n else Some (Suc n))"

function padding_loop :: "u8 \<Rightarrow> nat \<Rightarrow> nat" where
  "padding_loop v i = (if i < 7 then if v AND push_bit i 1 \<noteq> 0 then i else padding_loop v (Suc i) else i)"
  by pat_completeness auto
termination
  by (relation "measure (\<lambda>(v, i). 7 - i)") auto

declare padding_loop.simps [simp del]

definition asn1_bit_string_length :: "asn1_string \<Rightarrow> (int \<times> nat) option" where
  "asn1_bit_string_length str =
     (if st_flags str AND ASN1_STRING_FLAG_BITS_LEFT \<noteq> 0
      then Some (st_length str, if st_length str = 0 then 0 else unat (st_flags str AND 0x07))
      else
        Option.bind (trim_zeros (st_data str) (nat (st_length str))) (\<lambda>len.
          if 0 < len
          then Option.bind (block_load (st_data str) (int len - 1)) (\<lambda>last. Some (int len, padding_loop last 0))
          else Some (int len, 0)))"

definition ASN1_BIT_STRING_set :: "cbb_alloc \<Rightarrow> asn1_string \<Rightarrow> (mem \<times> addr) option \<Rightarrow> int \<Rightarrow> (bool \<times> asn1_string) option" where
  "ASN1_BIT_STRING_set A x d len = ASN1_STRING_set A x d len"

definition ASN1_BIT_STRING_num_bytes :: "asn1_string \<Rightarrow> u64 option option" where
  "ASN1_BIT_STRING_num_bytes str =
     map_option (\<lambda>(len, padding_bits). if padding_bits \<noteq> 0 then None else Some (word_of_int len)) (asn1_bit_string_length str)"

text \<open>
  \<open>i2c_ASN1_BIT_STRING\<close> with the number it returns and, when \<open>pp\<close> is not null, the bytes it writes. The
  range check against \<open>INT_MAX - 1\<close> is the one of the source.
\<close>

definition i2c_ASN1_BIT_STRING :: "asn1_string option \<Rightarrow> bool \<Rightarrow> (int \<times> u8 list) option" where
  "i2c_ASN1_BIT_STRING a has_pp =
     (case a of None \<Rightarrow> Some (0, [])
      | Some a \<Rightarrow>
          Option.bind (asn1_bit_string_length a) (\<lambda>(len, bits).
            if 0x7FFFFFFF - 1 < len then Some (0, [])
            else if \<not> has_pp then Some (1 + len, [])
            else if len = 0 then Some (1, [of_nat bits])
            else
              (case st_data a of None \<Rightarrow> None
               | Some d \<Rightarrow>
                   if int (length d) < len then None
                   else
                     (let p = take (nat len) d
                      in Some (1 + len, of_nat bits # p[nat len - 1 := p ! (nat len - 1) AND ucast (push_bit bits (0xFF :: u32))])))))"

text \<open>
  \<open>c2i_ASN1_BIT_STRING\<close> with the contents at \<open>p\<close>; the result is the string (\<^term>\<open>None\<close> for a null
  pointer) and the advanced pointer. A string the caller passed in keeps its value when the function
  fails, and flags or data are replaced only after the checks.
\<close>

definition c2i_ASN1_BIT_STRING :: "cbb_alloc \<Rightarrow> asn1_string option \<Rightarrow> mem \<Rightarrow> addr \<Rightarrow> int \<Rightarrow> ((asn1_string \<times> addr) option \<times> asn1_string option) option" where
  "c2i_ASN1_BIT_STRING A a m p len =
     (if len < 1 then Some (None, a)
      else if 0x7FFFFFFF < len then Some (None, a)
      else
        (case (case a of None \<Rightarrow> ASN1_STRING_type_new A V_ASN1_BIT_STRING | Some s \<Rightarrow> Some s) of None \<Rightarrow> Some (None, a)
         | Some ret \<Rightarrow>
             Option.bind (m p) (\<lambda>padding.
               let p = p + 1; len = len - 1 in
               if 7 < padding then Some (None, a)
               else
                 Option.bind (if padding \<noteq> 0 \<and> 1 \<le> len then m (p + len - 1) else Some 0) (\<lambda>last.
                   if padding \<noteq> 0 \<and> (len < 1 \<or> last AND (push_bit (unat padding) 1 - 1) \<noteq> 0) then Some (None, a)
                   else
                     (let flags = (st_flags ret AND NOT (ASN1_STRING_FLAG_BITS_LEFT OR 0x07)) OR (ASN1_STRING_FLAG_BITS_LEFT OR ucast padding);
                          finish = (\<lambda>s p. (let ret = ret\<lparr>st_flags := flags, st_length := len, st_data := s, st_type := V_ASN1_BIT_STRING\<rparr>
                            in Some (Some (ret, p), map_option (\<lambda>_. ret) a)))
                      in if 0 < len
                         then Option.bind (load_bytes m p (nat len)) (\<lambda>bs.
                           if can_alloc A (word_of_int len) then finish (Some bs) (p + len)
                           else Some (None, map_option (\<lambda>s. s\<lparr>st_flags := flags\<rparr>) a))
                         else finish None p)))))"

text \<open>\<open>n / 8\<close> and \<open>n & 0x07\<close> for \<open>int n\<close>; \<open>n\<close> is not negative in what follows.\<close>

definition ASN1_BIT_STRING_set_bit :: "cbb_alloc \<Rightarrow> asn1_string option \<Rightarrow> nat \<Rightarrow> bool \<Rightarrow> (bool \<times> asn1_string option) option" where
  "ASN1_BIT_STRING_set_bit A a n v =
     (let w = n div 8; mask = push_bit (7 - n mod 8) (1 :: u8)
      in case a of None \<Rightarrow> Some (False, None)
         | Some a \<Rightarrow>
             (let a = a\<lparr>st_flags := st_flags a AND NOT (ASN1_STRING_FLAG_BITS_LEFT OR 0x07)\<rparr>;
                  write = (\<lambda>a.
                    Option.bind (block_load (st_data a) (int w)) (\<lambda>old.
                    Option.bind (st_data a) (\<lambda>d.
                    Option.bind (block_store w [(old AND NOT mask) OR (if v then mask else 0)] d) (\<lambda>d.
                    Option.bind (trim_zeros (Some d) (nat (st_length a))) (\<lambda>len.
                      Some (True, Some (a\<lparr>st_data := Some d, st_length := int len\<rparr>)))))))
              in if st_length a < int w + 1 \<or> st_data a = None
                 then
                   if \<not> v then Some (True, Some a)
                   else
                     (case block_realloc A (st_data a) (w + 1) of None \<Rightarrow> Some (False, Some a)
                      | Some c \<Rightarrow>
                          Option.bind
                            (if st_length a < int w + 1
                             then block_store (nat (st_length a)) (replicate (w + 1 - nat (st_length a)) 0) c
                             else Some c)
                            (\<lambda>c. write (a\<lparr>st_data := Some c, st_length := int w + 1\<rparr>)))
                 else write a))"

definition ASN1_BIT_STRING_get_bit :: "asn1_string option \<Rightarrow> nat \<Rightarrow> bool option" where
  "ASN1_BIT_STRING_get_bit a n =
     (let w = n div 8; v = push_bit (7 - n mod 8) (1 :: u8)
      in case a of None \<Rightarrow> Some False
         | Some a \<Rightarrow>
             if st_length a < int w + 1 \<or> st_data a = None then Some False
             else map_option (\<lambda>d. d AND v \<noteq> 0) (block_load (st_data a) (int w)))"

text \<open>The loop of \<open>ASN1_BIT_STRING_check\<close>: the bytes from \<open>i\<close> on, of which \<open>n\<close> remain.\<close>

primrec check_loop :: "u8 list option \<Rightarrow> mem \<Rightarrow> addr \<Rightarrow> int \<Rightarrow> int \<Rightarrow> nat \<Rightarrow> bool option" where
  "check_loop b m flags flags_len i 0 = Some True"
| "check_loop b m flags flags_len i (Suc n) =
     Option.bind (if i < flags_len then map_option NOT (m (flags + i)) else Some 0xFF) (\<lambda>mask.
     Option.bind (block_load b i) (\<lambda>v.
       if v AND mask = 0 then check_loop b m flags flags_len (i + 1) n else Some False))"

definition ASN1_BIT_STRING_check :: "asn1_string option \<Rightarrow> mem \<Rightarrow> addr \<Rightarrow> int \<Rightarrow> bool option" where
  "ASN1_BIT_STRING_check a m flags flags_len =
     (case a of None \<Rightarrow> Some True
      | Some a \<Rightarrow>
          (case st_data a of None \<Rightarrow> Some True
           | Some d \<Rightarrow> check_loop (Some d) m flags flags_len 0 (nat (st_length a))))"

section \<open>Comparison\<close>

text \<open>\<open>OPENSSL_memcmp\<close> on the first \<open>n\<close> bytes of two blocks.\<close>

primrec block_memcmp :: "u8 list option \<Rightarrow> u8 list option \<Rightarrow> int \<Rightarrow> nat \<Rightarrow> int option" where
  "block_memcmp a b i 0 = Some 0"
| "block_memcmp a b i (Suc n) =
     Option.bind (block_load a i) (\<lambda>x. Option.bind (block_load b i) (\<lambda>y.
       if x = y then block_memcmp a b (i + 1) n else Some (uint x - uint y)))"

definition ASN1_STRING_cmp :: "asn1_string \<Rightarrow> asn1_string \<Rightarrow> int option" where
  "ASN1_STRING_cmp a b =
     Option.bind (if st_type a = V_ASN1_BIT_STRING then asn1_bit_string_length a else Some (st_length a, 0)) (\<lambda>(a_length, a_padding).
     Option.bind (if st_type b = V_ASN1_BIT_STRING then asn1_bit_string_length b else Some (st_length b, 0)) (\<lambda>(b_length, b_padding).
       if a_length < b_length then Some (- 1)
       else if b_length < a_length then Some 1
       else if b_padding < a_padding then Some (- 1)
       else if a_padding < b_padding then Some 1
       else
         Option.bind (block_memcmp (st_data a) (st_data b) 0 (nat a_length)) (\<lambda>ret.
           if ret \<noteq> 0 then Some ret
           else if st_type a < st_type b then Some (- 1)
           else if st_type b < st_type a then Some 1
           else Some 0)))"

definition ASN1_STRING_length :: "asn1_string \<Rightarrow> int" where
  "ASN1_STRING_length str = st_length str"

definition ASN1_STRING_type :: "asn1_string \<Rightarrow> int" where
  "ASN1_STRING_type str = st_type str"

definition ASN1_STRING_get0_data :: "asn1_string \<Rightarrow> u8 list option" where
  "ASN1_STRING_get0_data str = st_data str"

end
