(* ===== verification/Boring_MBString.thy ===== *)
theory Boring_MBString
  imports Boring_Unicode Boring_String
begin

text \<open>
  Conversion between character encodings, \<open>crypto/asn1/a_mbstr.c\<close> and \<open>ASN1_STRING_to_UTF8\<close> of
  \<open>crypto/asn1/a_strex.c\<close>. The function pointers \<open>decode_func\<close> and \<open>encode_func\<close> are chosen by the
  input and output form; the error reasons the code pushes are values.
\<close>

datatype mb_error =
  UNKNOWN_FORMAT | INVALID_BMPSTRING | INVALID_UNIVERSALSTRING | INVALID_UTF8STRING | ILLEGAL_CHARACTERS
  | STRING_TOO_LONG | STRING_TOO_SHORT | INTERNAL_ERROR | UNKNOWN_TAG | NO_REASON

definition MBSTRING_UTF8 :: int where "MBSTRING_UTF8 = 0x1000"
definition MBSTRING_ASC :: int where "MBSTRING_ASC = 0x1001"
definition MBSTRING_BMP :: int where "MBSTRING_BMP = 0x1002"
definition MBSTRING_UNIV :: int where "MBSTRING_UNIV = 0x1004"

definition B_ASN1_PRINTABLESTRING :: u64 where "B_ASN1_PRINTABLESTRING = 0x0002"
definition B_ASN1_T61STRING :: u64 where "B_ASN1_T61STRING = 0x0004"
definition B_ASN1_IA5STRING :: u64 where "B_ASN1_IA5STRING = 0x0010"
definition B_ASN1_UNIVERSALSTRING :: u64 where "B_ASN1_UNIVERSALSTRING = 0x0100"
definition B_ASN1_BMPSTRING :: u64 where "B_ASN1_BMPSTRING = 0x0800"
definition B_ASN1_UTF8STRING :: u64 where "B_ASN1_UTF8STRING = 0x2000"
definition DIRSTRING_TYPE :: u64 where
  "DIRSTRING_TYPE = B_ASN1_PRINTABLESTRING OR B_ASN1_T61STRING OR B_ASN1_BMPSTRING OR B_ASN1_UTF8STRING"

definition asn1_is_printable :: "u32 \<Rightarrow> bool" where
  "asn1_is_printable v \<longleftrightarrow> v \<le> 0x7F \<and>
     (OPENSSL_isalnum (uint v) \<or> v = 0x20 \<or> v = 0x27 \<or> v = 0x28 \<or> v = 0x29 \<or> v = 0x2B \<or> v = 0x2C \<or> v = 0x2D \<or>
      v = 0x2E \<or> v = 0x2F \<or> v = 0x3A \<or> v = 0x3D \<or> v = 0x3F)"

section \<open>The function pointers\<close>

definition decode_error :: "int \<Rightarrow> mb_error option" where
  "decode_error inform =
     (if inform = MBSTRING_BMP then Some INVALID_BMPSTRING
      else if inform = MBSTRING_UNIV then Some INVALID_UNIVERSALSTRING
      else if inform = MBSTRING_UTF8 then Some INVALID_UTF8STRING
      else if inform = MBSTRING_ASC then Some INTERNAL_ERROR
      else None)"

definition decode_func :: "int \<Rightarrow> mem \<Rightarrow> CBS \<Rightarrow> u32 cbs_result" where
  "decode_func inform =
     (if inform = MBSTRING_BMP then CBS_get_ucs2_be
      else if inform = MBSTRING_UNIV then CBS_get_utf32_be
      else if inform = MBSTRING_UTF8 then CBS_get_utf8
      else CBS_get_latin1)"

definition encode_func :: "int \<Rightarrow> cbb_alloc \<Rightarrow> u32 \<Rightarrow> nat \<Rightarrow> CBB \<Rightarrow> cbb_result" where
  "encode_func outform =
     (if outform = MBSTRING_BMP then CBB_add_ucs2_be
      else if outform = MBSTRING_UNIV then CBB_add_utf32_be
      else if outform = MBSTRING_UTF8 then CBB_add_utf8
      else CBB_add_latin1)"

text \<open>Every decoder consumes input when it succeeds, so the loops end.\<close>

lemma cbs_get_shorter: "cbs_get n c = Some (Some v, c') \<Longrightarrow> n \<noteq> 0 \<Longrightarrow> unat (cbs_len c') < unat (cbs_len c)"
  using unat_gt_0 [of n] by (auto simp: cbs_get_def unat_sub word_le_nat_alt word_less_nat_alt split: if_splits)

lemma cbs_get_u_shorter: "cbs_get_u m n c = Some (Some v, c') \<Longrightarrow> n \<noteq> 0 \<Longrightarrow> unat (cbs_len c') < unat (cbs_len c)"
  by (auto simp: cbs_get_u_def cbs_bind_def dest: cbs_get_shorter split: option.splits prod.splits)

lemma utf8_loop_shorter: "utf8_loop m k v c = Some (Some w, c') \<Longrightarrow> unat (cbs_len c') \<le> unat (cbs_len c)"
  by (induction k arbitrary: v c)
    (force simp: cbs_bind_def split: option.splits prod.splits if_splits dest: CBS_get_u8_less)+

lemma decode_func_shorter: "decode_func inform m c = Some (Some v, c') \<Longrightarrow> unat (cbs_len c') < unat (cbs_len c)"
  unfolding decode_func_def CBS_get_ucs2_be_def CBS_get_utf32_be_def CBS_get_utf8_def CBS_get_latin1_def CBS_get_u16_def CBS_get_u32_def
  by (auto simp: cbs_bind_def split: option.splits prod.splits if_splits
      dest: CBS_get_u8_less cbs_get_u_shorter utf8_loop_shorter le_less_trans)

section \<open>The two loops\<close>

text \<open>Which output formats are still possible after the character \<open>c\<close>.\<close>

definition restrict_mask :: "u64 \<Rightarrow> u32 \<Rightarrow> u64" where
  "restrict_mask msk c =
     (let mask = (if msk AND B_ASN1_PRINTABLESTRING \<noteq> 0 \<and> \<not> asn1_is_printable c then msk AND NOT B_ASN1_PRINTABLESTRING else msk);
          mask = (if mask AND B_ASN1_IA5STRING \<noteq> 0 \<and> 127 < c then mask AND NOT B_ASN1_IA5STRING else mask);
          mask = (if mask AND B_ASN1_T61STRING \<noteq> 0 \<and> 0xFF < c then mask AND NOT B_ASN1_T61STRING else mask)
      in if mask AND B_ASN1_BMPSTRING \<noteq> 0 \<and> 0xFFFF < c then mask AND NOT B_ASN1_BMPSTRING else mask)"

function scan_loop :: "mem \<Rightarrow> int \<Rightarrow> int \<Rightarrow> CBS \<Rightarrow> u64 \<Rightarrow> u64 \<Rightarrow> u64 \<Rightarrow> (mb_error + u64 \<times> u64 \<times> u64) option" where
  "scan_loop m inform maxsize cbs msk nchar utf8_len =
     (if cbs_len cbs = 0 then Some (Inr (msk, nchar, utf8_len))
      else
        (case decode_func inform m cbs of None \<Rightarrow> None
         | Some (None, _) \<Rightarrow> Some (Inl (the (decode_error inform)))
         | Some (Some c, cbs') \<Rightarrow>
             if nchar = 0 \<and> (inform = MBSTRING_BMP \<or> inform = MBSTRING_UNIV) \<and> c = 0xFEFF then Some (Inl ILLEGAL_CHARACTERS)
             else
               (let mask = restrict_mask msk c
                in if mask = 0 then Some (Inl ILLEGAL_CHARACTERS)
                   else
                     (let nchar = nchar + 1; utf8_len = utf8_len + CBB_get_utf8_len c
                      in if 0 < maxsize \<and> word_of_int maxsize < nchar then Some (Inl STRING_TOO_LONG)
                         else scan_loop m inform maxsize cbs' mask nchar utf8_len))))"
  by pat_completeness auto
termination
  by (relation "measure (\<lambda>(m, inform, maxsize, cbs, _). unat (cbs_len cbs))") (auto dest: decode_func_shorter)

declare scan_loop.simps [simp del]

function recode_loop :: "cbb_alloc \<Rightarrow> mem \<Rightarrow> int \<Rightarrow> int \<Rightarrow> CBS \<Rightarrow> CBB \<Rightarrow> cbb_result" where
  "recode_loop A m inform outform cbs S =
     (if cbs_len cbs = 0 then Some (True, S)
      else
        (case decode_func inform m cbs of None \<Rightarrow> None
         | Some (None, _) \<Rightarrow> Some (False, S)
         | Some (Some c, cbs') \<Rightarrow> and_then (encode_func outform A c 0 S) (recode_loop A m inform outform cbs')))"
  by pat_completeness auto
termination
  by (relation "measure (\<lambda>(A, m, inform, outform, cbs, S). unat (cbs_len cbs))") (auto dest: decode_func_shorter)

declare recode_loop.simps [simp del]

section \<open>The conversion\<close>

text \<open>The input pointer: a memory and an address; nothing can be read through a null pointer.\<close>

definition source_mem :: "(mem \<times> addr) option \<Rightarrow> mem" where
  "source_mem src = (case src of None \<Rightarrow> Map.empty | Some (m, p) \<Rightarrow> m)"

definition source_addr :: "(mem \<times> addr) option \<Rightarrow> addr" where
  "source_addr src = (case src of None \<Rightarrow> 0 | Some (m, p) \<Rightarrow> p)"

text \<open>The output format: type, form and size estimate.\<close>

definition choose_output :: "u64 \<Rightarrow> u64 \<Rightarrow> u64 \<Rightarrow> (int \<times> int \<times> u64) option" where
  "choose_output msk nchar utf8_len =
     (if msk AND B_ASN1_PRINTABLESTRING \<noteq> 0 then Some (V_ASN1_PRINTABLESTRING, MBSTRING_ASC, nchar)
      else if msk AND B_ASN1_IA5STRING \<noteq> 0 then Some (V_ASN1_IA5STRING, MBSTRING_ASC, nchar)
      else if msk AND B_ASN1_T61STRING \<noteq> 0 then Some (V_ASN1_T61STRING, MBSTRING_ASC, nchar)
      else if msk AND B_ASN1_BMPSTRING \<noteq> 0 then Some (V_ASN1_BMPSTRING, MBSTRING_BMP, 2 * nchar)
      else if msk AND B_ASN1_UNIVERSALSTRING \<noteq> 0 then Some (V_ASN1_UNIVERSALSTRING, MBSTRING_UNIV, 4 * nchar)
      else if msk AND B_ASN1_UTF8STRING \<noteq> 0 then Some (V_ASN1_UTF8STRING, MBSTRING_UTF8, utf8_len)
      else None)"

text \<open>
  The part after the choice, on a destination: a copy when the forms agree, otherwise the second loop,
  whose content ends with a zero byte that is not counted.
\<close>

definition fill_string ::
  "cbb_alloc \<Rightarrow> (mem \<times> addr) option \<Rightarrow> int \<Rightarrow> int \<Rightarrow> int \<Rightarrow> int \<Rightarrow> u64 \<Rightarrow> asn1_string \<Rightarrow> (mb_error + asn1_string) option" where
  "fill_string A src len inform str_type outform size_estimate dest =
     (if inform = outform then
        map_option (\<lambda>(ok, dest). if ok then Inr (dest\<lparr>st_type := str_type\<rparr>) else Inl NO_REASON)
          (ASN1_STRING_set A dest src len)
      else
        (case CBB_init A (size_estimate + 1) of (False, _) \<Rightarrow> Some (Inl NO_REASON)
         | (True, cbb) \<Rightarrow>
             (case and_then (recode_loop A (source_mem src) inform outform (CBS_init (source_addr src) (word_of_int len)) cbb) (CBB_add_u8 A 0 0) of
                None \<Rightarrow> None
              | Some (False, _) \<Rightarrow> Some (Inl INTERNAL_ERROR)
              | Some (True, cbb) \<Rightarrow>
                  map_option
                    (\<lambda>(data, _).
                      case data of None \<Rightarrow> Inl INTERNAL_ERROR
                      | Some data \<Rightarrow>
                          if length data < 1 \<or> 0x7FFFFFFF < int (length data) then Inl INTERNAL_ERROR
                          else Inr (ASN1_STRING_set0 (dest\<lparr>st_type := str_type\<rparr>) (Some data) (int (length data) - 1)))
                    (CBB_finish A True 0 cbb))))"

text \<open>
  \<open>out\<close> is \<^term>\<open>None\<close> for a null pointer and otherwise what it points to. The result is the type with
  the string stored through \<open>out\<close>, if any, or the reason of the failure.
\<close>

definition ASN1_mbstring_ncopy ::
  "cbb_alloc \<Rightarrow> asn1_string option option \<Rightarrow> (mem \<times> addr) option \<Rightarrow> int \<Rightarrow> int \<Rightarrow> u64 \<Rightarrow> int \<Rightarrow> int \<Rightarrow>
   (mb_error + int \<times> asn1_string option) option" where
  "ASN1_mbstring_ncopy A out src len inform msk minsize maxsize =
     Option.bind (if len = - 1 then map_option int (strlen (source_mem src) (source_addr src)) else Some len) (\<lambda>len.
     let mask = (if msk = 0 then DIRSTRING_TYPE else msk)
     in if decode_error inform = None then Some (Inl UNKNOWN_FORMAT)
        else
          (case scan_loop (source_mem src) inform maxsize (CBS_init (source_addr src) (word_of_int len)) mask 0 0 of
             None \<Rightarrow> None
           | Some (Inl e) \<Rightarrow> Some (Inl e)
           | Some (Inr (mask, nchar, utf8_len)) \<Rightarrow>
               if 0 < minsize \<and> nchar < word_of_int minsize then Some (Inl STRING_TOO_SHORT)
               else
                 (case choose_output mask nchar utf8_len of None \<Rightarrow> Some (Inl ILLEGAL_CHARACTERS)
                  | Some (str_type, outform, size_estimate) \<Rightarrow>
                      (case out of None \<Rightarrow> Some (Inr (str_type, None))
                       | Some old \<Rightarrow>
                           (case (case old of Some s \<Rightarrow> Some s | None \<Rightarrow> ASN1_STRING_type_new A str_type) of
                              None \<Rightarrow> Some (Inl NO_REASON)
                            | Some dest \<Rightarrow>
                                map_option (\<lambda>r. case r of Inl e \<Rightarrow> Inl e | Inr s \<Rightarrow> Inr (str_type, Some s))
                                  (fill_string A src len inform str_type outform size_estimate dest))))))"

definition ASN1_mbstring_copy ::
  "cbb_alloc \<Rightarrow> asn1_string option option \<Rightarrow> (mem \<times> addr) option \<Rightarrow> int \<Rightarrow> int \<Rightarrow> u64 \<Rightarrow> (mb_error + int \<times> asn1_string option) option" where
  "ASN1_mbstring_copy A out src len inform msk = ASN1_mbstring_ncopy A out src len inform msk 0 0"

section \<open>To UTF-8\<close>

definition string_type_to_encoding :: "int \<Rightarrow> int" where
  "string_type_to_encoding type =
     (if type = V_ASN1_UTF8STRING then MBSTRING_UTF8
      else if type \<in> {V_ASN1_NUMERICSTRING, V_ASN1_PRINTABLESTRING, V_ASN1_T61STRING, V_ASN1_IA5STRING, V_ASN1_UTCTIME,
        V_ASN1_GENERALIZEDTIME, V_ASN1_ISO64STRING} then MBSTRING_ASC
      else if type = V_ASN1_UNIVERSALSTRING then MBSTRING_UNIV
      else if type = V_ASN1_BMPSTRING then MBSTRING_BMP
      else - 1)"

text \<open>
  The data of the string is read as memory. The result is the content and length of the new block.
\<close>

definition ASN1_STRING_to_UTF8 :: "cbb_alloc \<Rightarrow> asn1_string option \<Rightarrow> (mb_error + u8 list option \<times> int) option" where
  "ASN1_STRING_to_UTF8 A inp =
     (case inp of None \<Rightarrow> Some (Inl NO_REASON)
      | Some s \<Rightarrow>
          (let mbflag = string_type_to_encoding (st_type s);
               stmp = \<lparr>st_length = 0, st_type = 0, st_data = None, st_flags = 0\<rparr>
           in if mbflag = - 1 then Some (Inl UNKNOWN_TAG)
              else
                (case ASN1_mbstring_copy A (Some (Some stmp)) (block_source (st_data s)) (st_length s) mbflag B_ASN1_UTF8STRING of
                   None \<Rightarrow> None
                 | Some (Inl e) \<Rightarrow> Some (Inl e)
                 | Some (Inr (_, None)) \<Rightarrow> None
                 | Some (Inr (_, Some str)) \<Rightarrow> Some (Inr (st_data str, st_length str)))))"

end
