(* ===== verification/Boring_Unicode_Correct.thy ===== *)
theory Boring_Unicode_Correct
  imports Boring_Unicode Boring_CBB_Theorems
begin

text \<open>
  UTF-8 as RFC 3629 defines it, and the readers and writers of \<open>unicode.c\<close> against it.
\<close>

section \<open>The reference encoding\<close>

text \<open>The scalar values \<open>unicode.c\<close> lets through: no surrogates and no noncharacters.\<close>

definition open_scalar :: "nat \<Rightarrow> bool" where
  "open_scalar n \<longleftrightarrow>
     n \<le> 0x10FFFF \<and> n \<notin> {0xD800..0xDFFF} \<and> n \<notin> {0xFDD0..0xFDEF} \<and> n mod 0x10000 \<notin> {0xFFFE, 0xFFFF}"

definition utf8 :: "nat \<Rightarrow> u8 list" where
  "utf8 n = map of_nat
     (if n < 0x80 then [n]
      else if n < 0x800 then [0xC0 + n div 64, 0x80 + n mod 64]
      else if n < 0x10000 then [0xE0 + n div 4096, 0x80 + n div 64 mod 64, 0x80 + n mod 64]
      else [0xF0 + n div 262144, 0x80 + n div 4096 mod 64, 0x80 + n div 64 mod 64, 0x80 + n mod 64])"

lemma noncharacter_mask: "v AND 0xFFFE = 0xFFFE \<longleftrightarrow> unat (v :: u32) mod 0x10000 \<in> {0xFFFE, 0xFFFF}"
proof -
  have c: "(0xFFFE :: u32) = mask 16 AND NOT (mask 1)" by (simp add: mask_eq_exp_minus_1)
  have "v AND 0xFFFE = 0xFFFE \<longleftrightarrow> drop_bit 1 (take_bit 16 v) = mask 15"
  proof
    assume h: "v AND 0xFFFE = 0xFFFE"
    have "bit v (Suc k)" if "k < 15" for k
      using arg_cong [OF h [unfolded c], of "\<lambda>w. bit w (Suc k)"] that by (simp add: bit_simps)
    then show "drop_bit 1 (take_bit 16 v) = mask 15" by (intro bit_word_eqI) (auto simp: bit_simps)
  next
    assume h: "drop_bit 1 (take_bit 16 v) = mask 15"
    have "bit v (Suc k)" if "k < 15" for k
      using arg_cong [OF h, of "\<lambda>w. bit w k"] that by (simp add: bit_simps)
    then have "bit v k" if "1 \<le> k" "k < 16" for k using that by (cases k) auto
    then show "v AND 0xFFFE = 0xFFFE" unfolding c by (intro bit_word_eqI) (auto simp: bit_simps)
  qed
  moreover have "unat (drop_bit 1 (take_bit 16 v)) = unat v mod 0x10000 div 2"
    by (simp add: unat_drop_bit_eq unsigned_take_bit_eq drop_bit_nat_def take_bit_nat_def)
  moreover have "unat (mask 15 :: u32) = 32767" by (simp add: mask_eq_exp_minus_1)
  ultimately show ?thesis by (auto simp: word_unat_eq_iff)
qed

lemma valid_code_point_iff: "is_valid_code_point v \<longleftrightarrow> open_scalar (unat v)"
  unfolding is_valid_code_point_def open_scalar_def noncharacter_mask by (auto simp: word_le_nat_alt word_less_nat_alt)

section \<open>Reading\<close>

text \<open>The reader on numbers: the lead byte's value, the number of continuation bytes, the lower bound.\<close>

definition lead :: "u8 \<Rightarrow> (nat \<times> nat \<times> nat) option" where
  "lead b =
     (if 0xC0 \<le> unat b \<and> unat b < 0xE0 then Some (unat b - 0xC0, 1, 0x80)
      else if 0xE0 \<le> unat b \<and> unat b < 0xF0 then Some (unat b - 0xE0, 2, 0x800)
      else if 0xF0 \<le> unat b \<and> unat b < 0xF8 then Some (unat b - 0xF0, 3, 0x10000)
      else None)"

fun tail :: "nat \<Rightarrow> nat \<Rightarrow> u8 list \<Rightarrow> (nat \<times> u8 list) option" where
  "tail 0 n bs = Some (n, bs)"
| "tail (Suc k) n [] = None"
| "tail (Suc k) n (b # bs) = (if 0x80 \<le> unat b \<and> unat b < 0xC0 then tail k (n * 64 + (unat b - 0x80)) bs else None)"

definition utf8_parse :: "u8 list \<Rightarrow> (u32 \<times> u8 list) option" where
  "utf8_parse bs = Option.bind (first_byte bs) (\<lambda>(b, bs).
     if unat b < 0x80 then Some (of_nat (unat b), bs)
     else Option.bind (lead b) (\<lambda>(n, k, low).
       Option.bind (tail k n bs) (\<lambda>(n, bs). if open_scalar n \<and> low \<le> n then Some (of_nat n, bs) else None)))"

lemma utf8_lead_conditions:
  "b AND TOP_BITS 3 = TOP_BITS 2 \<longleftrightarrow> 0xC0 \<le> unat b \<and> unat b < 0xE0"
  "b AND TOP_BITS 4 = TOP_BITS 3 \<longleftrightarrow> 0xE0 \<le> unat b \<and> unat b < 0xF0"
  "b AND TOP_BITS 5 = TOP_BITS 4 \<longleftrightarrow> 0xF0 \<le> unat b \<and> unat b < 0xF8"
  by (rule all_u8D [of _ b], code_simp)+

lemma utf8_lead_values:
  "0xC0 \<le> unat b \<and> unat b < 0xE0 \<longrightarrow> unat (b AND BOTTOM_BITS 5) = unat b - 0xC0"
  "0xE0 \<le> unat b \<and> unat b < 0xF0 \<longrightarrow> unat (b AND BOTTOM_BITS 4) = unat b - 0xE0"
  "0xF0 \<le> unat b \<and> unat b < 0xF8 \<longrightarrow> unat (b AND BOTTOM_BITS 3) = unat b - 0xF0"
  by (rule all_u8D [of _ b], code_simp)+

lemma utf8_lead_bytes:
  "utf8_lead b = map_option (\<lambda>(n, k, low). (of_nat n, k, of_nat low)) (lead b)"
  unfolding utf8_lead_def lead_def utf8_lead_conditions
  using utf8_lead_values [of b] by (auto simp: ucast_of_unat simp del: of_nat_diff)

lemma continuation_byte:
  "b AND TOP_BITS 2 = TOP_BITS 1 \<longleftrightarrow> 0x80 \<le> unat b \<and> unat b < 0xC0"
  "0x80 \<le> unat b \<and> unat b < 0xC0 \<Longrightarrow> unat (b AND BOTTOM_BITS 6) = unat b - 0x80"
proof -
  show "b AND TOP_BITS 2 = TOP_BITS 1 \<longleftrightarrow> 0x80 \<le> unat b \<and> unat b < 0xC0"
    by (rule all_u8D [of _ b]) code_simp
  have "0x80 \<le> unat b \<and> unat b < 0xC0 \<longrightarrow> unat (b AND BOTTOM_BITS 6) = unat b - 0x80"
    by (rule all_u8D [of _ b]) code_simp
  then show "0x80 \<le> unat b \<and> unat b < 0xC0 \<Longrightarrow> unat (b AND BOTTOM_BITS 6) = unat b - 0x80" by simp
qed

lemma continuation_step:
  assumes "0x80 \<le> unat b \<and> unat b < 0xC0"
  shows "push_bit 6 (of_nat n) OR ucast (b AND BOTTOM_BITS 6) = (of_nat (n * 64 + (unat b - 0x80)) :: u32)"
proof -
  have u: "ucast (b AND BOTTOM_BITS 6) = (of_nat (unat b - 0x80) :: u32)"
    using continuation_byte(2) [OF assms] by (simp only: ucast_of_unat)
  moreover have "unat (of_nat (unat b - 0x80) :: u32) < 2 ^ 6"
    using assms by (simp add: unat_of_nat take_bit_nat_eq_self_iff del: of_nat_diff) linarith
  ultimately show ?thesis using push_bit_or_add [of "of_nat (unat b - 0x80)" 6 "of_nat n"] by (simp del: of_nat_diff)
qed

lemma reads_tail:
  "cbs_holds m c bs \<Longrightarrow> agrees (\<lambda>v w. v = of_nat w) c bs (utf8_loop m k (of_nat n) c) (tail k n bs)"
proof (induction k arbitrary: n c bs)
  case 0
  then show ?case by (simp add: agrees_ret)
next
  case (Suc k)
  have "agrees (\<lambda>v w. v = of_nat w) c bs (utf8_loop m (Suc k) (of_nat n) c)
      (Option.bind (first_byte bs) (\<lambda>(b, bs). if 0x80 \<le> unat b \<and> unat b < 0xC0 then tail k (n * 64 + (unat b - 0x80)) bs else None))"
    unfolding utf8_loop.simps
    by (rule agrees_bind [OF u8.reads [OF Suc.prems] Suc.prems])
      (use Suc.IH in \<open>auto simp: continuation_byte(1) continuation_step agrees_fail simp del: of_nat_add of_nat_mult of_nat_diff One_nat_def\<close>)
  moreover have "Option.bind (first_byte bs) (\<lambda>(b, bs). if 0x80 \<le> unat b \<and> unat b < 0xC0 then tail k (n * 64 + (unat b - 0x80)) bs else None) =
      tail (Suc k) n bs" by (cases bs) simp_all
  ultimately show ?case by simp
qed

lemma tail_bound: "tail k n bs = Some (w, rest) \<Longrightarrow> w < (n + 1) * 64 ^ k"
proof (induction k n bs rule: tail.induct)
  case (3 k n b bs)
  then have "w < (n * 64 + (unat b - 0x80) + 1) * 64 ^ k" by (simp split: if_splits)
  also have "\<dots> \<le> ((n + 1) * 64) * 64 ^ k" using 3(2) by (intro mult_le_mono1) (simp split: if_splits)
  finally show ?case by (simp add: algebra_simps)
qed simp_all

interpretation utf8: byte_reader CBS_get_utf8 utf8_parse same
proof
  fix m c bs
  assume h: "cbs_holds m c bs"
  show "agrees (same m c) c bs (CBS_get_utf8 m c) (utf8_parse bs)"
    unfolding CBS_get_utf8_def utf8_parse_def
  proof (rule agrees_bind [OF u8.reads [OF h] h])
    fix v w :: u8 and n
    assume v: "v = w" and h1: "cbs_holds m (cbs_drop n c) (drop n bs)"
    let ?c = "cbs_drop n c" and ?bs = "drop n bs"
    show "agrees (same m c) ?c ?bs
        (if v \<le> 0x7F then Some (Some (ucast v), ?c)
         else case utf8_lead v of None \<Rightarrow> Some (None, ?c)
           | Some (v, len, lower_bound) \<Rightarrow> cbs_bind (utf8_loop m len v ?c) (\<lambda>v c.
               if \<not> is_valid_code_point v \<or> v < lower_bound then Some (None, c) else Some (Some v, c)))
        (if unat w < 0x80 then Some (of_nat (unat w), ?bs)
         else Option.bind (lead w) (\<lambda>(n, k, low). Option.bind (tail k n ?bs)
           (\<lambda>(n, bs). if open_scalar n \<and> low \<le> n then Some (of_nat n, bs) else None)))"
    proof (cases "unat w < 0x80 \<or> lead w = None")
      case True
      then show ?thesis using v
        by (auto simp: word_le_nat_alt agrees_ret agrees_fail utf8_lead_bytes)
    next
      case False
      then obtain a k low where l: "lead w = Some (a, k, low)" "utf8_lead w = Some (of_nat a, k, of_nat low)"
        by (auto simp: utf8_lead_bytes)
      then have small: "a < 32" "k \<le> 3" "low \<le> 0x10000" by (auto simp: lead_def split: if_splits)
      have "agrees (same m c) ?c ?bs (cbs_bind (utf8_loop m k (of_nat a) ?c) (\<lambda>v c.
              if \<not> is_valid_code_point v \<or> v < of_nat low then Some (None, c) else Some (Some v, c)))
          (Option.bind (tail k a ?bs) (\<lambda>(n, bs). if open_scalar n \<and> low \<le> n then Some (of_nat n, bs) else None))"
      proof (rule agrees_bind [OF reads_tail [OF h1] h1])
        fix v' :: u32 and w' n'
        assume v': "v' = of_nat w'" and t: "tail k a ?bs = Some (w', drop n' ?bs)"
        have "w' < (a + 1) * 64 ^ k" by (rule tail_bound [OF t])
        also have "\<dots> \<le> 32 * 64 ^ 3" using small by (intro mult_le_mono power_increasing) auto
        finally have "w' < 2 ^ 32" by simp
        then have "unat v' = w'" "unat (of_nat low :: u32) = low"
          using v' small(3) by (simp_all add: unat_of_nat take_bit_nat_eq_self_iff)
        then show "agrees (same m c) (cbs_drop n' ?c) (drop n' ?bs)
            (if \<not> is_valid_code_point v' \<or> v' < of_nat low then Some (None, cbs_drop n' ?c) else Some (Some v', cbs_drop n' ?c))
            (if open_scalar w' \<and> low \<le> w' then Some (of_nat w', drop n' ?bs) else None)"
          using v' by (auto simp: valid_code_point_iff word_less_nat_alt agrees_ret agrees_fail)
      qed
      then show ?thesis using False v l by (auto simp: word_le_nat_alt)
    qed
  qed
qed

section \<open>The parser accepts exactly the reference encoding\<close>

lemma byte_eq: "n < 256 \<Longrightarrow> b = of_nat n \<longleftrightarrow> unat (b :: u8) = n"
  by (auto simp: unat_byte word_unat_eq_iff)

lemma lead_iff:
  "lead b = Some (n, k, low) \<longleftrightarrow>
     k = 1 \<and> low = 0x80 \<and> n < 32 \<and> b = of_nat (0xC0 + n) \<or>
     k = 2 \<and> low = 0x800 \<and> n < 16 \<and> b = of_nat (0xE0 + n) \<or>
     k = 3 \<and> low = 0x10000 \<and> n < 8 \<and> b = of_nat (0xF0 + n)"
proof -
  have "n < 32 \<and> b = of_nat (0xC0 + n) \<longleftrightarrow> n < 32 \<and> unat b = 0xC0 + n"
    "n < 16 \<and> b = of_nat (0xE0 + n) \<longleftrightarrow> n < 16 \<and> unat b = 0xE0 + n"
    "n < 8 \<and> b = of_nat (0xF0 + n) \<longleftrightarrow> n < 8 \<and> unat b = 0xF0 + n"
    by (rule conj_cong [OF refl byte_eq], simp)+
  then have "?thesis \<longleftrightarrow> (lead b = Some (n, k, low) \<longleftrightarrow>
      k = 1 \<and> low = 0x80 \<and> n < 32 \<and> unat b = 0xC0 + n \<or> k = 2 \<and> low = 0x800 \<and> n < 16 \<and> unat b = 0xE0 + n \<or>
      k = 3 \<and> low = 0x10000 \<and> n < 8 \<and> unat b = 0xF0 + n)" by (simp only:)
  moreover consider "unat b < 0xC0" | "0xC0 \<le> unat b" "unat b < 0xE0" | "0xE0 \<le> unat b" "unat b < 0xF0" |
    "0xF0 \<le> unat b" "unat b < 0xF8" | "0xF8 \<le> unat b" by linarith
  then have "lead b = Some (n, k, low) \<longleftrightarrow>
      k = 1 \<and> low = 0x80 \<and> n < 32 \<and> unat b = 0xC0 + n \<or> k = 2 \<and> low = 0x800 \<and> n < 16 \<and> unat b = 0xE0 + n \<or>
      k = 3 \<and> low = 0x10000 \<and> n < 8 \<and> unat b = 0xF0 + n" by cases (auto simp: lead_def)
  ultimately show ?thesis by simp
qed

lemma tail_Suc_iff:
  "tail (Suc k) n bs = Some (w, rest) \<longleftrightarrow>
     (\<exists>x cs. x < 64 \<and> bs = of_nat (0x80 + x) # cs \<and> tail k (n * 64 + x) cs = Some (w, rest))"
proof (cases bs)
  case (Cons b cs)
  have "0x80 \<le> unat b \<and> unat b < 0xC0 \<longleftrightarrow> unat b - 0x80 < 64 \<and> b = of_nat (0x80 + (unat b - 0x80))"
    by (auto simp: byte_eq simp del: of_nat_add of_nat_diff)
  moreover have "x < 64 \<Longrightarrow> b = of_nat (0x80 + x) \<Longrightarrow> unat b = 0x80 + x" for x using byte_eq [of "0x80 + x" b] by simp
  ultimately show ?thesis using Cons by (auto simp del: of_nat_add of_nat_diff)
qed simp

lemma low_6_bits: "x < 64 \<Longrightarrow> m = a * 64 + x \<Longrightarrow> m div 64 = a \<and> m mod 64 = (x :: nat)"
  by simp

lemma utf8_2:
  assumes "n < 32" "x < 64" "m = n * 64 + x" "0x80 \<le> m"
  shows "utf8 m = [of_nat (0xC0 + n), of_nat (0x80 + x)]"
proof -
  have "m div 64 = n" "m mod 64 = x" "m < 0x800" using assms low_6_bits [of x m n] by simp_all
  then show ?thesis using assms(4) by (simp add: utf8_def del: of_nat_add)
qed

lemma utf8_3:
  assumes "n < 16" "x < 64" "y < 64" "m = (n * 64 + x) * 64 + y" "0x800 \<le> m"
  shows "utf8 m = [of_nat (0xE0 + n), of_nat (0x80 + x), of_nat (0x80 + y)]"
proof -
  have "m div 4096 = n" "m div 64 mod 64 = x" "m mod 64 = y" "m < 0x10000"
    using assms low_6_bits [of y m "n * 64 + x"] low_6_bits [of x "n * 64 + x" n] div_mult2_eq [of m 64 64] by simp_all
  then show ?thesis using assms(5) by (simp add: utf8_def del: of_nat_add)
qed

lemma utf8_4:
  assumes "n < 8" "x < 64" "y < 64" "z < 64" "m = ((n * 64 + x) * 64 + y) * 64 + z" "0x10000 \<le> m"
  shows "utf8 m = [of_nat (0xF0 + n), of_nat (0x80 + x), of_nat (0x80 + y), of_nat (0x80 + z)]"
proof -
  have "m div 262144 = n" "m div 4096 mod 64 = x" "m div 64 mod 64 = y" "m mod 64 = z"
    using assms low_6_bits [of z m "(n * 64 + x) * 64 + y"] low_6_bits [of y "(n * 64 + x) * 64 + y" "n * 64 + x"] low_6_bits [of x "n * 64 + x" n]
      div_mult2_eq [of m 64 64] div_mult2_eq [of m 64 "64 * 64"] by simp_all
  then show ?thesis using assms(6) by (simp add: utf8_def del: of_nat_add)
qed

lemma open_scalar_less: "open_scalar n \<Longrightarrow> n < 0x110000"
  by (simp add: open_scalar_def)

lemma unat_scalar: "open_scalar n \<Longrightarrow> unat (of_nat n :: u32) = n"
  using open_scalar_less [of n] by (simp add: unat_of_nat take_bit_nat_eq_self_iff)

text \<open>Every encoding of more than one byte, with its parts.\<close>

lemma utf8_long:
  assumes "open_scalar w" "0x80 \<le> w"
  shows "\<exists>b n k low cs. utf8 w = b # cs \<and> lead b = Some (n, k, low) \<and> low \<le> w \<and> tail k n (cs @ rest) = Some (w, rest)"
proof -
  have e: "w div 262144 * 64 + w div 4096 mod 64 = w div 4096" "w div 4096 * 64 + w div 64 mod 64 = w div 64"
    using div_mult_mod_eq [of "w div 4096" 64] div_mult2_eq [of w 4096 64]
      div_mult_mod_eq [of "w div 64" 64] div_mult2_eq [of w 64 64] by simp_all
  consider "w < 0x800" | "0x800 \<le> w" "w < 0x10000" | "0x10000 \<le> w" "w < 0x110000"
    using open_scalar_less [OF assms(1)] by linarith
  then show ?thesis
  proof cases
    case 1
    then have "lead (of_nat (0xC0 + w div 64)) = Some (w div 64, 1, 0x80)" unfolding lead_iff by auto
    moreover have "utf8 w = [of_nat (0xC0 + w div 64), of_nat (0x80 + w mod 64)]" using 1 assms(2) by (simp add: utf8_def)
    moreover have "tail 1 (w div 64) ([of_nat (0x80 + w mod 64)] @ rest) = Some (w, rest)"
      unfolding One_nat_def tail_Suc_iff by (intro exI [of _ "w mod 64"] exI [of _ rest]) simp
    ultimately show ?thesis using assms(2) by blast
  next
    case 2
    then have "lead (of_nat (0xE0 + w div 4096)) = Some (w div 4096, 2, 0x800)" unfolding lead_iff by auto
    moreover have "utf8 w = [of_nat (0xE0 + w div 4096), of_nat (0x80 + w div 64 mod 64), of_nat (0x80 + w mod 64)]"
      using 2 by (simp add: utf8_def)
    moreover have "tail 2 (w div 4096) ([of_nat (0x80 + w div 64 mod 64), of_nat (0x80 + w mod 64)] @ rest) = Some (w, rest)"
      unfolding numeral_2_eq_2 tail_Suc_iff
      by (intro exI [of _ "w div 64 mod 64"] exI [of _ "of_nat (0x80 + w mod 64) # rest"] conjI exI [of _ "w mod 64"] exI [of _ rest])
        (simp_all add: e)
    ultimately show ?thesis using 2(1) by blast
  next
    case 3
    then have "lead (of_nat (0xF0 + w div 262144)) = Some (w div 262144, 3, 0x10000)" unfolding lead_iff by auto
    moreover have "utf8 w = [of_nat (0xF0 + w div 262144), of_nat (0x80 + w div 4096 mod 64), of_nat (0x80 + w div 64 mod 64), of_nat (0x80 + w mod 64)]"
      using 3 by (simp add: utf8_def)
    moreover have "tail 3 (w div 262144) ([of_nat (0x80 + w div 4096 mod 64), of_nat (0x80 + w div 64 mod 64), of_nat (0x80 + w mod 64)] @ rest) = Some (w, rest)"
      unfolding numeral_3_eq_3 tail_Suc_iff
      by (intro exI [of _ "w div 4096 mod 64"] exI [of _ "of_nat (0x80 + w div 64 mod 64) # of_nat (0x80 + w mod 64) # rest"] conjI
          exI [of _ "w div 64 mod 64"] exI [of _ "of_nat (0x80 + w mod 64) # rest"] exI [of _ "w mod 64"] exI [of _ rest])
        (simp_all add: e)
    ultimately show ?thesis using 3(1) by blast
  qed
qed

lemma long_utf8:
  assumes "lead b = Some (n, k, low)" "tail k n cs = Some (w, rest)" "low \<le> w"
  shows "b # cs = utf8 w @ rest"
  using assms(1) unfolding lead_iff
proof (elim disjE conjE)
  assume a: "k = 1" "low = 0x80" "n < 32" "b = of_nat (0xC0 + n)"
  then obtain x where "x < 64" "cs = of_nat (0x80 + x) # rest" "w = n * 64 + x"
    using assms(2) by (auto simp: tail_Suc_iff simp del: of_nat_add)
  then show ?thesis using a assms(3) utf8_2 [of n x w] by simp
next
  assume a: "k = 2" "low = 0x800" "n < 16" "b = of_nat (0xE0 + n)"
  then obtain x y where "x < 64" "y < 64" "cs = of_nat (0x80 + x) # of_nat (0x80 + y) # rest" "w = (n * 64 + x) * 64 + y"
    using assms(2) by (auto simp: numeral_2_eq_2 tail_Suc_iff simp del: of_nat_add)
  then show ?thesis using a assms(3) utf8_3 [of n x y w] by simp
next
  assume a: "k = 3" "low = 0x10000" "n < 8" "b = of_nat (0xF0 + n)"
  then obtain x y z where "x < 64" "y < 64" "z < 64" "w = ((n * 64 + x) * 64 + y) * 64 + z"
    "cs = of_nat (0x80 + x) # of_nat (0x80 + y) # of_nat (0x80 + z) # rest"
    using assms(2) by (auto simp: numeral_3_eq_3 tail_Suc_iff simp del: of_nat_add)
  then show ?thesis using a assms(3) utf8_4 [of n x y z w] by simp
qed

lemma utf8_parse_iff: "utf8_parse bs = Some (v, rest) \<longleftrightarrow> open_scalar (unat v) \<and> bs = utf8 (unat v) @ rest"
proof
  assume a: "utf8_parse bs = Some (v, rest)"
  then obtain b cs where bs: "bs = b # cs" by (cases bs) (auto simp: utf8_parse_def)
  show "open_scalar (unat v) \<and> bs = utf8 (unat v) @ rest"
  proof (cases "unat b < 0x80")
    case True
    then have "unat v = unat b" "cs = rest" using a bs by (auto simp: utf8_parse_def unat_ucast_u8)
    then show ?thesis using True bs by (simp add: utf8_def open_scalar_def)
  next
    case False
    then obtain n k low w where "lead b = Some (n, k, low)" "tail k n cs = Some (w, rest)" "open_scalar w" "low \<le> w" "v = of_nat w"
      using a bs by (auto simp: utf8_parse_def bind_eq_Some_conv split: if_splits)
    then show ?thesis using bs long_utf8 unat_scalar by simp
  qed
next
  assume a: "open_scalar (unat v) \<and> bs = utf8 (unat v) @ rest"
  show "utf8_parse bs = Some (v, rest)"
  proof (cases "unat v < 0x80")
    case True
    then have "utf8 (unat v) = [of_nat (unat v)]" "unat (of_nat (unat v) :: u8) = unat v"
      by (simp add: utf8_def) (rule unat_byte, use True in simp)
    then show ?thesis using a True by (simp add: utf8_parse_def)
  next
    case False
    then obtain b n k low cs where u: "utf8 (unat v) = b # cs" "lead b = Some (n, k, low)" "low \<le> unat v"
      "tail k n (cs @ rest) = Some (unat v, rest)" using utf8_long [of "unat v" rest] a by auto
    moreover have "\<not> unat b < 0x80" using u(2) by (auto simp: lead_def split: if_splits)
    ultimately show ?thesis using a by (simp add: utf8_parse_def)
  qed
qed

section \<open>Writing\<close>

lemma lead_byte_out:
  "unat w < 32 \<Longrightarrow> ucast (ucast (TOP_BITS 2) OR w :: u32) = (of_nat (0xC0 + unat w) :: u8)"
  "unat w < 16 \<Longrightarrow> ucast (ucast (TOP_BITS 3) OR w :: u32) = (of_nat (0xE0 + unat w) :: u8)"
  "unat w < 8 \<Longrightarrow> ucast (ucast (TOP_BITS 4) OR w :: u32) = (of_nat (0xF0 + unat w) :: u8)"
  "unat w < 64 \<Longrightarrow> ucast (ucast (TOP_BITS 1) OR w :: u32) = (of_nat (0x80 + unat w) :: u8)"
proof -
  have d: "ucast (ucast t OR w :: u32) = t OR (of_nat (unat w) :: u8)" for t :: u8
  proof -
    have "ucast (ucast t :: u32) = t" by (subst ucast_of_unat) (simp only: unat_ucast_u8, simp)
    then show ?thesis by (simp add: unsigned_or_eq)
  qed
  have "unat x < 32 \<longrightarrow> TOP_BITS 2 OR x = of_nat (0xC0 + unat x)" "unat x < 16 \<longrightarrow> TOP_BITS 3 OR x = of_nat (0xE0 + unat x)"
    "unat x < 8 \<longrightarrow> TOP_BITS 4 OR x = of_nat (0xF0 + unat x)" "unat x < 64 \<longrightarrow> TOP_BITS 1 OR x = of_nat (0x80 + unat x)" for x :: u8
    by (rule all_u8D [of _ x], code_simp)+
  note this [of "of_nat (unat w)"]
  moreover have "unat w < 64 \<Longrightarrow> unat (of_nat (unat w) :: u8) = unat w" by (rule unat_byte) simp
  ultimately show "unat w < 32 \<Longrightarrow> ucast (ucast (TOP_BITS 2) OR w :: u32) = (of_nat (0xC0 + unat w) :: u8)"
    "unat w < 16 \<Longrightarrow> ucast (ucast (TOP_BITS 3) OR w :: u32) = (of_nat (0xE0 + unat w) :: u8)"
    "unat w < 8 \<Longrightarrow> ucast (ucast (TOP_BITS 4) OR w :: u32) = (of_nat (0xF0 + unat w) :: u8)"
    "unat w < 64 \<Longrightarrow> ucast (ucast (TOP_BITS 1) OR w :: u32) = (of_nat (0x80 + unat w) :: u8)"
    unfolding d by fastforce+
qed

lemma low_6_bits_out: "ucast (ucast (TOP_BITS 1) OR (w AND ucast (BOTTOM_BITS 6)) :: u32) = (of_nat (0x80 + unat w mod 64) :: u8)"
proof -
  have "(ucast (BOTTOM_BITS 6) :: u32) = mask 6" by code_simp
  then have "unat (w AND ucast (BOTTOM_BITS 6)) = unat w mod 64"
    by (simp only: take_bit_eq_mask [symmetric] unsigned_take_bit_eq) (simp add: take_bit_nat_def)
  then show ?thesis using lead_byte_out(4) [of "w AND ucast (BOTTOM_BITS 6)"] by simp
qed

lemma unat_shifts: "unat (drop_bit n u :: u32) = unat u div 2 ^ n"
  by (simp only: unat_drop_bit_eq) (simp add: drop_bit_eq_div)

text \<open>Two writers of bytes in sequence.\<close>

lemma builder_put_then:
  assumes "builder_op (\<lambda>A. op A) d d (put d a) n" "builder_op (\<lambda>A. op' A) d d (put d b) k"
  shows "builder_op (\<lambda>A S. and_then (op A S) (op' A)) d d (put d (a @ b)) (n + k)"
  by (rule builder_op_cong [OF builder_seq [OF assms(1), where k = op' and g = "put d b" and e' = d and c' = k]])
    (use builder_op.step [OF assms(2)] in \<open>auto simp: put_put\<close>)

lemma builder_utf8:
  assumes "open_scalar (unat u)"
  shows "builder_op (\<lambda>A. CBB_add_utf8 A u d) d d (put d (utf8 (unat u))) (length (utf8 (unat u)))"
proof -
  note [simp] = u8_out.builder_op_axioms
  consider "unat u < 0x80" | "0x80 \<le> unat u" "unat u < 0x800" | "0x800 \<le> unat u" "unat u < 0x10000" |
    "0x10000 \<le> unat u" "unat u < 0x110000" using open_scalar_less [OF assms] by linarith
  then show ?thesis
  proof cases
    case 1
    have "CBB_add_utf8 A u d S = CBB_add_u8 A (of_nat (unat u)) d S" for A S
      using 1 assms by (simp add: CBB_add_utf8_def valid_code_point_iff word_le_nat_alt)
    from builder_op_cong [OF u8_out.builder_op_axioms this refl refl] show ?thesis using 1 by (simp add: utf8_def)
  next
    case 2
    let ?bs = "[of_nat (0xC0 + unat u div 64), of_nat (0x80 + unat u mod 64)]"
    have eq: "CBB_add_utf8 A u d S = and_then (CBB_add_u8 A (?bs ! 0) d S) (CBB_add_u8 A (?bs ! 1) d)" for A S
      using 2 assms lead_byte_out(1) [of "drop_bit 6 u"] unfolding CBB_add_utf8_def low_6_bits_out unat_shifts
      by (simp add: valid_code_point_iff word_le_nat_alt del: of_nat_add)
    have u: "utf8 (unat u) = [?bs ! 0] @ [?bs ! 1]" using 2 by (simp add: utf8_def)
    show ?thesis
      by (rule builder_op_cong [OF builder_put_then [OF u8_out.builder_op_axioms u8_out.builder_op_axioms, of "?bs ! 0" d "?bs ! 1"]])
        (use eq u in \<open>simp_all del: of_nat_add\<close>)
  next
    case 3
    let ?bs = "[of_nat (0xE0 + unat u div 4096), of_nat (0x80 + unat u div 64 mod 64), of_nat (0x80 + unat u mod 64)]"
    have eq: "CBB_add_utf8 A u d S = and_then (CBB_add_u8 A (?bs ! 0) d S) (\<lambda>S. and_then (CBB_add_u8 A (?bs ! 1) d S) (CBB_add_u8 A (?bs ! 2) d))" for A S
      using 3 assms lead_byte_out(2) [of "drop_bit 12 u"] unfolding CBB_add_utf8_def low_6_bits_out unat_shifts
      by (simp add: valid_code_point_iff word_le_nat_alt del: of_nat_add)
    have u: "utf8 (unat u) = [?bs ! 0] @ [?bs ! 1] @ [?bs ! 2]" using 3 by (simp add: utf8_def)
    show ?thesis
      by (rule builder_op_cong [OF builder_put_then [OF u8_out.builder_op_axioms builder_put_then [OF u8_out.builder_op_axioms u8_out.builder_op_axioms],
          of "?bs ! 0" d "?bs ! 1" "?bs ! 2"]])
        (use eq u in \<open>simp_all del: of_nat_add\<close>)
  next
    case 4
    let ?bs = "[of_nat (0xF0 + unat u div 262144), of_nat (0x80 + unat u div 4096 mod 64), of_nat (0x80 + unat u div 64 mod 64), of_nat (0x80 + unat u mod 64)]"
    have eq: "CBB_add_utf8 A u d S = and_then (CBB_add_u8 A (?bs ! 0) d S) (\<lambda>S. and_then (CBB_add_u8 A (?bs ! 1) d S) (\<lambda>S.
        and_then (CBB_add_u8 A (?bs ! 2) d S) (CBB_add_u8 A (?bs ! 3) d)))" for A S
      using 4 assms lead_byte_out(3) [of "drop_bit 18 u"] unfolding CBB_add_utf8_def low_6_bits_out unat_shifts
      by (simp add: valid_code_point_iff word_le_nat_alt del: of_nat_add)
    have u: "utf8 (unat u) = [?bs ! 0] @ [?bs ! 1] @ [?bs ! 2] @ [?bs ! 3]" using 4 by (simp add: utf8_def)
    show ?thesis
      by (rule builder_op_cong [OF builder_put_then [OF u8_out.builder_op_axioms builder_put_then [OF u8_out.builder_op_axioms
            builder_put_then [OF u8_out.builder_op_axioms u8_out.builder_op_axioms]],
          of "?bs ! 0" d "?bs ! 1" "?bs ! 2" "?bs ! 3"]])
        (use eq u in \<open>simp_all del: of_nat_add\<close>)
  qed
qed

end
