(* ===== verification/Boring_MBString_Correct.thy ===== *)
theory Boring_MBString_Correct
  imports Boring_MBString Boring_Unicode_Correct
begin

text \<open>
  The character encodings as one family of forms: what each form can express, how it writes a
  character, and that the functions the conversion selects implement it; the two loops of the
  conversion on whole texts; and the string operations they end in.
\<close>

section \<open>Forms\<close>

definition in_form :: "int \<Rightarrow> nat \<Rightarrow> bool" where
  "in_form f n \<longleftrightarrow>
     (if f = MBSTRING_ASC then n < 0x100
      else if f = MBSTRING_BMP then open_scalar n \<and> n < 0x10000
      else open_scalar n)"

definition enc :: "int \<Rightarrow> nat \<Rightarrow> u8 list" where
  "enc f n =
     (if f = MBSTRING_ASC then [of_nat n]
      else if f = MBSTRING_BMP then be_fixed 2 n
      else if f = MBSTRING_UNIV then be_fixed 4 n
      else utf8 n)"

definition forms :: "int set" where
  "forms = {MBSTRING_UTF8, MBSTRING_ASC, MBSTRING_BMP, MBSTRING_UNIV}"

lemmas mb_defs = MBSTRING_UTF8_def MBSTRING_ASC_def MBSTRING_BMP_def MBSTRING_UNIV_def

lemma latin1_scalar: "n < 0x100 \<Longrightarrow> open_scalar n"
  by (auto simp: open_scalar_def)

lemma in_form_scalar: "in_form f n \<Longrightarrow> open_scalar n"
  by (auto simp: in_form_def latin1_scalar split: if_splits)

lemma in_form_less: "in_form f n \<Longrightarrow> n < 2 ^ 32"
  using open_scalar_less [OF in_form_scalar] by fastforce

section \<open>Decoding a character\<close>

definition char_parse :: "int \<Rightarrow> u8 list \<Rightarrow> (u32 \<times> u8 list) option" where
  "char_parse f bs =
     (if f = MBSTRING_BMP then Option.bind (Option.bind (get_be 2 bs) (\<lambda>(w, rest). Some (ucast w, rest)))
        (\<lambda>(w :: u16, rest). if open_scalar (unat w) then Some (ucast w, rest) else None)
      else if f = MBSTRING_UNIV then Option.bind (Option.bind (get_be 4 bs) (\<lambda>(w, rest). Some (ucast w, rest)))
        (\<lambda>(w, rest). if open_scalar (unat w) then Some (w, rest) else None)
      else if f = MBSTRING_UTF8 then utf8_parse bs
      else Option.bind (first_byte bs) (\<lambda>(b, rest). Some (ucast b, rest)))"

lemma unat_ucast_small: "unat (w :: 'a::len word) < 2 ^ LENGTH('b::len) \<Longrightarrow> unat (ucast w :: 'b word) = unat w"
  by (simp add: unsigned_ucast_eq take_bit_nat_eq_self_iff)

lemma unat_ucast_u16: "unat (ucast (w :: u16) :: u32) = unat w" "unat (ucast (w :: u16) :: u64) = unat w"
proof -
  have "unat w < 2 ^ 16" using unsigned_less [of w, where ?'a = nat] by simp
  then show "unat (ucast w :: u32) = unat w" "unat (ucast w :: u64) = unat w" by (simp_all add: unat_ucast_small)
qed

lemma ucast_u32_u64: "unat (ucast (v :: u32) :: u64) = unat v" "ucast (ucast v :: u64) = v"
proof -
  have "unat v < 2 ^ 64" "unat v < 2 ^ 32" using unat_u32_lt [of v] by simp_all
  then show "unat (ucast v :: u64) = unat v" by (intro unat_ucast_small) simp
  then show "ucast (ucast v :: u64) = v"
    using unat_ucast_small [of "ucast v :: u64", where 'b = 32] \<open>unat v < 2 ^ 32\<close> by (simp only: word_unat_eq_iff) simp
qed

interpretation decode: byte_reader "decode_func f" "char_parse f" same for f
proof -
  have "byte_reader CBS_get_ucs2_be (\<lambda>bs. Option.bind (Option.bind (get_be 2 bs) (\<lambda>(w, rest). Some (ucast w, rest)))
      (\<lambda>(w :: u16, rest). if open_scalar (unat w) then Some (ucast w, rest) else None)) same"
    unfolding CBS_get_ucs2_be_def [abs_def]
    by (rule reads_bind [OF u16.byte_reader_axioms]) (simp add: valid_code_point_iff unat_ucast_u16 agrees_ret agrees_fail)
  moreover have "byte_reader CBS_get_utf32_be (\<lambda>bs. Option.bind (Option.bind (get_be 4 bs) (\<lambda>(w, rest). Some (ucast w, rest)))
      (\<lambda>(w, rest). if open_scalar (unat w) then Some (w, rest) else None)) same"
    unfolding CBS_get_utf32_be_def [abs_def]
    by (rule reads_bind [OF u32.byte_reader_axioms]) (simp add: valid_code_point_iff agrees_ret agrees_fail)
  moreover have "byte_reader CBS_get_latin1 (\<lambda>bs. Option.bind (first_byte bs) (\<lambda>(b, rest). Some (ucast b, rest))) same"
    unfolding CBS_get_latin1_def [abs_def] by (rule reads_map [OF u8.byte_reader_axioms])
  ultimately show "byte_reader (decode_func f) (char_parse f) same"
    using utf8.byte_reader_axioms unfolding decode_func_def char_parse_def [abs_def] by simp
qed

lemma get_be_iff:
  assumes "n < 8"
  shows "get_be n bs = Some (w, rest) \<longleftrightarrow> unat w < 256 ^ n \<and> bs = be_fixed n (unat w) @ rest"
proof -
  have small: "(256 :: nat) ^ n < 2 ^ 64"
  proof -
    have "(256 :: nat) ^ n \<le> 256 ^ 7" using assms by (intro power_increasing) auto
    then show ?thesis by simp
  qed
  show ?thesis
  proof
    assume a: "get_be n bs = Some (w, rest)"
    then have t: "n \<le> length bs" "w = of_nat (be_nat (take n bs))" "rest = drop n bs"
      by (auto simp: get_be_def take_n_Some)
    have "be_nat (take n bs) < 256 ^ n" using be_nat_bound [of "take n bs"] t(1) by simp
    then have "unat w = be_nat (take n bs)" using t(2) small by (simp add: unat_of_nat take_bit_nat_eq_self_iff)
    moreover have "be_fixed n (be_nat (take n bs)) = take n bs" using be_fixed_be_nat [of "take n bs"] t(1) by simp
    ultimately show "unat w < 256 ^ n \<and> bs = be_fixed n (unat w) @ rest" using t \<open>be_nat (take n bs) < 256 ^ n\<close> by simp
  next
    assume "unat w < 256 ^ n \<and> bs = be_fixed n (unat w) @ rest"
    then show "get_be n bs = Some (w, rest)" by (simp add: get_be_def take_n_def be_nat_be_fixed)
  qed
qed

lemma char_parse_iff:
  assumes "f \<in> forms"
  shows "char_parse f bs = Some (v, rest) \<longleftrightarrow> in_form f (unat v) \<and> bs = enc f (unat v) @ rest"
proof -
  consider "f = MBSTRING_BMP" | "f = MBSTRING_UNIV" | "f = MBSTRING_UTF8" | "f = MBSTRING_ASC" using assms by (auto simp: forms_def)
  then show ?thesis
  proof cases
    case 1
    have "char_parse f bs = Some (v, rest) \<longleftrightarrow>
        (\<exists>w. get_be 2 bs = Some (w, rest) \<and> open_scalar (unat (ucast w :: u16)) \<and> v = ucast (ucast w :: u16))"
      using 1 by (auto simp: char_parse_def bind_eq_Some_conv)
    also have "\<dots> \<longleftrightarrow> (\<exists>w. get_be 2 bs = Some (w, rest) \<and> open_scalar (unat w) \<and> v = ucast w \<and> unat w < 0x10000)"
    proof -
      have u: "unat (ucast w :: u16) = unat w" if "unat w < 0x10000" for w :: u64
        using that by (intro unat_ucast_small) simp
      have v: "(ucast (ucast w :: u16) :: u32) = ucast w" if "unat w < 0x10000" for w :: u64
        using that unat_ucast_small [of w, where 'b = 32] u by (simp only: word_unat_eq_iff unat_ucast_u16) simp
      have "get_be 2 bs = Some (w, rest) \<and> open_scalar (unat (ucast w :: u16)) \<and> v = ucast (ucast w :: u16) \<longleftrightarrow>
          get_be 2 bs = Some (w, rest) \<and> open_scalar (unat w) \<and> v = ucast w \<and> unat w < 0x10000" for w
        using u [of w] v [of w] by (cases "unat w < 0x10000") (auto simp: get_be_iff)
      then show ?thesis by simp
    qed
    also have "\<dots> \<longleftrightarrow> in_form f (unat v) \<and> bs = enc f (unat v) @ rest"
    proof -
      have "unat (ucast w :: u32) = unat w" if "unat w < 0x10000" for w :: u64
        using that by (simp add: unsigned_ucast_eq take_bit_nat_eq_self_iff)
      moreover note ucast_u32_u64 [of v]
      ultimately show ?thesis
        using 1 by (auto simp: get_be_iff in_form_def enc_def mb_defs intro!: exI [of _ "ucast v"])
    qed
    finally show ?thesis .
  next
    case 2
    have "char_parse f bs = Some (v, rest) \<longleftrightarrow> (\<exists>w. get_be 4 bs = Some (w, rest) \<and> open_scalar (unat (ucast w :: u32)) \<and> v = ucast w)"
      using 2 by (auto simp: char_parse_def bind_eq_Some_conv mb_defs)
    also have "\<dots> \<longleftrightarrow> in_form f (unat v) \<and> bs = enc f (unat v) @ rest"
    proof -
      have "unat (ucast w :: u32) = unat w" if "unat w < 2 ^ 32" for w :: u64
        using that by (simp add: unsigned_ucast_eq take_bit_nat_eq_self_iff)
      moreover note ucast_u32_u64 [of v] unat_u32_lt [of v]
      ultimately show ?thesis
        using 2 by (auto simp: get_be_iff in_form_def enc_def mb_defs intro!: exI [of _ "ucast v"])
    qed
    finally show ?thesis .
  next
    case 3
    then show ?thesis by (simp add: char_parse_def utf8_parse_iff in_form_def enc_def mb_defs)
  next
    case 4
    have "char_parse f bs = Some (v, rest) \<longleftrightarrow> (\<exists>b. bs = b # rest \<and> v = ucast b)"
      using 4 by (auto simp: char_parse_def bind_eq_Some_conv first_byte_Some mb_defs)
    also have "\<dots> \<longleftrightarrow> in_form f (unat v) \<and> bs = enc f (unat v) @ rest"
    proof
      assume "\<exists>b. bs = b # rest \<and> v = ucast b"
      then obtain b where b: "bs = b # rest" "v = ucast b" by blast
      then have "unat v = unat b" by (simp only: unat_ucast_u8)
      then show "in_form f (unat v) \<and> bs = enc f (unat v) @ rest" using 4 b unat_u8_lt [of b] by (simp add: in_form_def enc_def)
    next
      assume a: "in_form f (unat v) \<and> bs = enc f (unat v) @ rest"
      then have n: "unat v < 256" "bs = of_nat (unat v) # rest" using 4 by (simp_all add: in_form_def enc_def)
      then have "unat (ucast (of_nat (unat v) :: u8) :: u32) = unat v" by (simp only: unat_ucast_u8 unat_byte)
      then show "\<exists>b. bs = b # rest \<and> v = ucast b" using n(2) by (auto simp: word_unat_eq_iff intro!: exI [of _ "of_nat (unat v)"])
    qed
    finally show ?thesis .
  qed
qed

section \<open>Encoding a character\<close>

lemma builder_encode:
  assumes "g \<in> forms" "in_form g (unat u)"
  shows "builder_op (\<lambda>A. encode_func g A u d) d d (put d (enc g (unat u))) (length (enc g (unat u)))"
proof -
  consider "g = MBSTRING_BMP" | "g = MBSTRING_UNIV" | "g = MBSTRING_UTF8" | "g = MBSTRING_ASC" using assms(1) by (auto simp: forms_def)
  then show ?thesis
  proof cases
    case 1
    then have u: "unat u < 0x10000" "open_scalar (unat u)" using assms(2) by (simp_all add: in_form_def mb_defs)
    have w: "unat (ucast (ucast u :: u16) :: u64) = unat u"
      using u(1) unat_ucast_small [of u, where 'b = 16] by (simp only: unat_ucast_u16) simp
    show ?thesis
      by (rule builder_op_cong [OF builder_add_u [of "ucast (ucast u :: u16)" 2 d]])
        (use 1 u w in \<open>simp_all add: encode_func_def CBB_add_ucs2_be_def CBB_add_u16_def valid_code_point_iff word_le_nat_alt put_number_def enc_def mb_defs\<close>)
  next
    case 2
    then have u: "unat u < 2 ^ 32" "open_scalar (unat u)" using assms(2) unat_u32_lt by (simp_all add: in_form_def mb_defs)
    have w: "unat (ucast u :: u64) = unat u"
      using u(1) by (simp add: unsigned_ucast_eq take_bit_nat_eq_self_iff)
    show ?thesis
      by (rule builder_op_cong [OF builder_add_u [of "ucast u" 4 d]])
        (use 2 u w in \<open>simp_all add: encode_func_def CBB_add_utf32_be_def CBB_add_u32_def valid_code_point_iff put_number_def enc_def mb_defs\<close>)
  next
    case 3
    then have "open_scalar (unat u)" using assms(2) by (simp add: in_form_def mb_defs)
    from builder_utf8 [OF this, of d] show ?thesis using 3 by (simp add: encode_func_def enc_def mb_defs)
  next
    case 4
    then have "u \<le> 0xFF" using assms(2) by (simp add: in_form_def mb_defs word_le_nat_alt)
    then show ?thesis
      using builder_op_cong [OF u8_out.builder_op_axioms [of "ucast u" d], of "\<lambda>A. encode_func g A u d"] 4
      by (simp add: encode_func_def enc_def mb_defs CBB_add_latin1_def)
  qed
qed

end
