(* ===== verification/Boring_String_Theorems.thy ===== *)
theory Boring_String_Theorems
  imports Boring_String Boring_CBB_Theorems
begin

text \<open>
  BIT STRINGs as sets of bit positions: \<open>ASN1_BIT_STRING_set_bit\<close> changes one position and
  \<open>i2c_ASN1_BIT_STRING\<close> with \<open>c2i_ASN1_BIT_STRING\<close> carries the set to the wire and back.
\<close>

section \<open>The set of bits\<close>

definition string_ok :: "asn1_string \<Rightarrow> bool" where
  "string_ok s \<longleftrightarrow> 0 \<le> st_length s \<and>
     (case st_data s of None \<Rightarrow> st_length s = 0 | Some b \<Rightarrow> st_length s \<le> int (length b))"

text \<open>The bytes in use.\<close>

definition content :: "asn1_string \<Rightarrow> u8 list" where
  "content s = (case st_data s of None \<Rightarrow> [] | Some b \<Rightarrow> take (nat (st_length s)) b)"

lemma length_content: "string_ok s \<Longrightarrow> int (length (content s)) = st_length s"
  by (auto simp: string_ok_def content_def split: option.splits)

text \<open>Bit \<open>n\<close> of a byte string, counted from the most significant bit of the first byte.\<close>

definition bit_at :: "u8 list \<Rightarrow> nat \<Rightarrow> bool" where
  "bit_at bs n \<longleftrightarrow> n div 8 < length bs \<and> bit (bs ! (n div 8)) (7 - n mod 8)"

definition bits :: "asn1_string \<Rightarrow> nat set" where
  "bits s = {n. bit_at (content s) n}"

lemma load_content: "string_ok s \<Longrightarrow> i < length (content s) \<Longrightarrow> block_load (st_data s) (int i) = Some (content s ! i)"
  by (auto simp: string_ok_def content_def block_load_def split: option.splits)

lemma and_bit: "(v :: u8) AND push_bit k 1 \<noteq> 0 \<longleftrightarrow> bit v k"
  by (simp add: bit_iff_and_push_bit_not_eq_0)

lemma get_bit_spec:
  assumes "string_ok s"
  shows "ASN1_BIT_STRING_get_bit (Some s) n = Some (n \<in> bits s)"
proof (cases "n div 8 < length (content s)")
  case True
  then obtain d where "st_data s = Some d" by (auto simp: content_def split: option.splits)
  moreover have "\<not> st_length s < int (n div 8) + 1" using True length_content [OF assms] by linarith
  moreover have "content s ! (n div 8) AND push_bit (7 - n mod 8) 1 \<noteq> 0 \<longleftrightarrow> bit (content s ! (n div 8)) (7 - n mod 8)" by (rule and_bit)
  ultimately show ?thesis using load_content [OF assms True] True
    by (simp add: ASN1_BIT_STRING_get_bit_def Let_def bits_def bit_at_def del: push_bit_of_1)
next
  case False
  then have "st_length s < int (n div 8) + 1" using length_content [OF assms] by linarith
  then show ?thesis using False by (simp add: ASN1_BIT_STRING_get_bit_def Let_def bits_def bit_at_def)
qed

section \<open>Trimming\<close>

definition rtrim :: "u8 list \<Rightarrow> u8 list" where
  "rtrim bs = rev (dropWhile (\<lambda>b. b = 0) (rev bs))"

lemma rtrim_snoc [simp]: "rtrim [] = []" "rtrim (bs @ [b]) = (if b = 0 then rtrim bs else bs @ [b])"
  by (simp_all add: rtrim_def)

lemma rtrim_prefix: "\<exists>k. bs = rtrim bs @ replicate k 0"
proof (induction bs rule: rev_induct)
  case (snoc b bs)
  then obtain k where "bs = rtrim bs @ replicate k 0" by blast
  then have "b = 0 \<Longrightarrow> bs @ [b] = rtrim (bs @ [b]) @ replicate (Suc k) 0" by (simp add: replicate_append_same [symmetric])
  moreover have "b \<noteq> 0 \<Longrightarrow> bs @ [b] = rtrim (bs @ [b]) @ replicate 0 0" by simp
  ultimately show ?case by blast
qed simp

lemma rtrim_last: "rtrim bs \<noteq> [] \<Longrightarrow> last (rtrim bs) \<noteq> 0"
  by (induction bs rule: rev_induct) auto

lemma bit_at_zeros: "bit_at (bs @ replicate k 0) n = bit_at bs n"
  by (auto simp: bit_at_def nth_append)

lemma bit_at_rtrim: "bit_at (rtrim bs) n = bit_at bs n"
  using rtrim_prefix [of bs] bit_at_zeros by metis

lemma trim_zeros_spec:
  "(\<And>i. i < length bs \<Longrightarrow> block_load b (int i) = Some (bs ! i)) \<Longrightarrow> trim_zeros b (length bs) = Some (length (rtrim bs))"
proof (induction bs rule: rev_induct)
  case (snoc x bs)
  have l: "block_load b (int (length bs)) = Some x" using snoc.prems [of "length bs"] by simp
  have "trim_zeros b (length bs) = Some (length (rtrim bs))"
    using snoc.prems by (intro snoc.IH) (metis length_append_singleton less_SucI nth_append)
  then show ?case using l by simp
qed simp

lemma take_rtrim: "take (length (rtrim bs)) bs = rtrim bs"
  using rtrim_prefix [of bs] by (metis append_eq_conv_conj)

lemma length_rtrim: "length (rtrim bs) \<le> length bs"
  using length_dropWhile_le [of "\<lambda>b. b = 0" "rev bs"] by (simp add: rtrim_def)

lemma take_to_rtrim: "take k d = bs \<Longrightarrow> length (rtrim bs) \<le> k \<Longrightarrow> take (length (rtrim bs)) d = rtrim bs"
  using take_rtrim [of bs] by (metis min.absorb1 take_take)

section \<open>Changing a bit\<close>

lemma write_bit:
  assumes "n div 8 < length bs"
  shows "bit_at (bs[n div 8 := (bs ! (n div 8) AND NOT (push_bit (7 - n mod 8) 1)) OR (if v then push_bit (7 - n mod 8) 1 else 0)]) k =
    (if k = n then v else bit_at bs k)"
proof -
  have k: "k = n \<longleftrightarrow> k div 8 = n div 8 \<and> 7 - k mod 8 = 7 - n mod 8"
  proof -
    have "k mod 8 < 8" "n mod 8 < 8" by simp_all
    then have "7 - k mod 8 = 7 - n mod 8 \<longleftrightarrow> k mod 8 = n mod 8" by arith
    then show ?thesis by (metis div_mult_mod_eq)
  qed
  have "bit (push_bit (7 - n mod 8) 1 :: u8) i \<longleftrightarrow> i = 7 - n mod 8" for i by (auto simp: bit_simps)
  moreover have "7 - k mod 8 < 8" by simp
  ultimately have "bit ((bs ! (n div 8) AND NOT (push_bit (7 - n mod 8) 1)) OR (if v then push_bit (7 - n mod 8) 1 else 0)) (7 - k mod 8) \<longleftrightarrow>
      (if 7 - k mod 8 = 7 - n mod 8 then v else bit (bs ! (n div 8)) (7 - k mod 8))"
    by (auto simp: bit_or_iff bit_and_iff bit_not_iff simp del: push_bit_of_1)
  then show ?thesis using assms k unfolding bit_at_def by (cases "k div 8 = n div 8") (auto simp: nth_list_update)
qed

text \<open>The part of \<open>ASN1_BIT_STRING_set_bit\<close> that stores the byte and trims the string.\<close>

lemma store_bit:
  assumes d: "w < length d" "0 \<le> L" "int w < L" "L \<le> int (length d)"
  shows "\<exists>d'. block_store w [x] d = Some d' \<and> length d' = length d \<and> take (nat L) d' = (take (nat L) d)[w := x] \<and>
    trim_zeros (Some d') (nat L) = Some (length (rtrim ((take (nat L) d)[w := x])))"
proof -
  let ?d = "d[w := x]"
  have store: "block_store w [x] d = Some ?d" using d(1) by (simp add: block_store_def upd_conv_take_nth_drop)
  have t: "take (nat L) ?d = (take (nat L) d)[w := x]" by (simp add: take_update_swap)
  have len: "length (take (nat L) ?d) = nat L" using d by simp
  have "block_load (Some ?d) (int i) = Some (take (nat L) ?d ! i)" if "i < length (take (nat L) ?d)" for i
    using that d by (simp add: block_load_def)
  then have "trim_zeros (Some ?d) (nat L) = Some (length (rtrim (take (nat L) ?d)))"
    using trim_zeros_spec [of "take (nat L) ?d" "Some ?d"] len by simp
  then show ?thesis using store t by auto
qed

definition bit_written :: "asn1_string \<Rightarrow> nat \<Rightarrow> bool \<Rightarrow> asn1_string \<Rightarrow> bool" where
  "bit_written a n v a' \<longleftrightarrow> string_ok a' \<and> bits a' = (if v then insert n (bits a) else bits a - {n}) \<and>
     st_type a' = st_type a \<and> st_flags a' = st_flags a AND NOT (ASN1_STRING_FLAG_BITS_LEFT OR 0x07)"

lemma bits_content: "content s = bs \<Longrightarrow> bits s = {n. bit_at bs n}"
  by (simp add: bits_def)

text \<open>Storing into a string that is long enough.\<close>

lemma write_written:
  assumes d: "n div 8 < length d" "int (n div 8) < L" "L \<le> int (length d)"
    and c: "\<And>k. bit_at (take (nat L) d) k = (k \<in> bits a)" and old: "block_load (Some d) (int (n div 8)) = Some x"
  shows "\<exists>d' len. block_store (n div 8) [(x AND NOT (push_bit (7 - n mod 8) 1)) OR (if v then push_bit (7 - n mod 8) 1 else 0)] d = Some d' \<and>
    trim_zeros (Some d') (nat L) = Some len \<and>
    bit_written a n v (a\<lparr>st_flags := st_flags a AND NOT (ASN1_STRING_FLAG_BITS_LEFT OR 0x07), st_data := Some d', st_length := int len\<rparr>)"
proof -
  let ?x = "(x AND NOT (push_bit (7 - n mod 8) 1)) OR (if v then push_bit (7 - n mod 8) 1 else 0)"
  let ?bs = "take (nat L) d"
  have x: "x = ?bs ! (n div 8)" "n div 8 < length ?bs" using old d by (auto simp: block_load_def)
  obtain d' where d': "block_store (n div 8) [?x] d = Some d'" "length d' = length d" "take (nat L) d' = ?bs[n div 8 := ?x]"
    "trim_zeros (Some d') (nat L) = Some (length (rtrim (?bs[n div 8 := ?x])))"
    using store_bit [of "n div 8" d L ?x] d by auto
  define c where "c = rtrim (?bs[n div 8 := ?x])"
  define a' where "a' = a\<lparr>st_flags := st_flags a AND NOT (ASN1_STRING_FLAG_BITS_LEFT OR 0x07), st_data := Some d', st_length := int (length c)\<rparr>"
  have l: "length c \<le> nat L" using length_rtrim [of "?bs[n div 8 := ?x]"] by (simp add: c_def)
  then have "take (length c) d' = c" unfolding c_def by (rule take_to_rtrim [OF d'(3)])
  then have "content a' = c" by (simp add: content_def a'_def)
  moreover have "bit_at c k = (if k = n then v else k \<in> bits a)" for k
    unfolding c_def bit_at_rtrim x(1) write_bit [OF x(2)] assms(4) ..
  ultimately have "bits a' = {k. if k = n then v else k \<in> bits a}" by (simp only: bits_def [of a'])
  then have "bits a' = (if v then insert n (bits a) else bits a - {n})" by (cases v) auto
  moreover have "string_ok a'" using l d(3) d'(2) by (simp add: string_ok_def a'_def)
  moreover have "st_type a' = st_type a" "st_flags a' = st_flags a AND NOT (ASN1_STRING_FLAG_BITS_LEFT OR 0x07)"
    by (simp_all add: a'_def)
  ultimately have "bit_written a n v a'" unfolding bit_written_def by blast
  then show ?thesis using d'(1,4) unfolding a'_def c_def by blast
qed

lemma content_bit: "string_ok a \<Longrightarrow> st_data a = Some d \<Longrightarrow> bit_at (take (nat (st_length a)) d) k = (k \<in> bits a)"
  by (simp add: bits_def content_def)

text \<open>The string enlarged to \<open>w + 1\<close> bytes.\<close>

lemma enlarge:
  assumes a: "string_ok a" and short: "st_length a < int w + 1" and A: "\<forall>n. can_alloc A n"
  shows "\<exists>c c'. block_realloc A (st_data a) (w + 1) = Some c \<and>
    block_store (nat (st_length a)) (replicate (w + 1 - nat (st_length a)) 0) c = Some c' \<and> length c' = w + 1 \<and>
    c' = content a @ replicate (w + 1 - nat (st_length a)) 0"
proof -
  define c where "c = the (block_realloc A (st_data a) (w + 1))"
  have c: "block_realloc A (st_data a) (w + 1) = Some c" using A by (cases "st_data a") (simp_all add: c_def block_realloc_def Let_def)
  have len: "length c = w + 1" using A by (cases "st_data a") (auto simp: c_def block_realloc_def Let_def)
  have "take (nat (st_length a)) c = content a"
    using a short A by (cases "st_data a") (auto simp: c_def block_realloc_def Let_def content_def string_ok_def min_def)
  moreover have "length (content a) = nat (st_length a)" using length_content [OF a] by simp
  ultimately have "block_store (nat (st_length a)) (replicate (w + 1 - nat (st_length a)) 0) c =
      Some (content a @ replicate (w + 1 - nat (st_length a)) 0)"
    using short len by (simp add: block_store_def)
  then show ?thesis using c short \<open>length (content a) = nat (st_length a)\<close> by auto
qed

text \<open>C28: On a well-formed BIT STRING, seen as the set of its one bits, \<open>ASN1_BIT_STRING_set_bit\<close> adds or
  removes exactly the given position, whatever its position is, keeps the string well-formed, and
  marks it as having no explicit padding; \<open>ASN1_BIT_STRING_get_bit\<close> is membership.\<close>

theorem ASN1_BIT_STRING_set_bit_refines:
  assumes a: "string_ok a" and A: "\<forall>n. can_alloc A n"
  shows "(\<exists>a'. ASN1_BIT_STRING_set_bit A (Some a) n v = Some (True, Some a') \<and> bit_written a n v a' \<and>
      ASN1_BIT_STRING_get_bit (Some a') k = Some (k \<in> (if v then insert n (bits a) else bits a - {n}))) \<and>
    ASN1_BIT_STRING_get_bit (Some a) k = Some (k \<in> bits a)"
proof -
  let ?w = "n div 8" and ?a = "a\<lparr>st_flags := st_flags a AND NOT (ASN1_STRING_FLAG_BITS_LEFT OR 0x07)\<rparr>"
  have "\<exists>a'. ASN1_BIT_STRING_set_bit A (Some a) n v = Some (True, Some a') \<and> bit_written a n v a'"
  proof (cases "st_length a < int ?w + 1 \<or> st_data a = None")
    case True
    then have short: "st_length a < int ?w + 1" using a by (auto simp: string_ok_def)
    then have "n \<notin> bits a" using length_content [OF a] by (auto simp: bits_def bit_at_def)
    then have not: "\<not> v \<Longrightarrow> bit_written a n v ?a" using a by (cases "st_data a") (simp_all add: bit_written_def string_ok_def bits_def content_def)
    obtain c c' where c: "block_realloc A (st_data a) (?w + 1) = Some c"
      "block_store (nat (st_length a)) (replicate (?w + 1 - nat (st_length a)) 0) c = Some c'" "length c' = ?w + 1"
      "c' = content a @ replicate (?w + 1 - nat (st_length a)) 0" using enlarge [OF a short A] by blast
    obtain x where x: "block_load (Some c') (int ?w) = Some x" using c(3) by (auto simp: block_load_def)
    have b: "bit_at (take (nat (int ?w + 1)) c') k = (k \<in> bits a)" for k
      using c(3,4) bit_at_zeros by (simp add: bits_def nat_add_distrib)
    obtain d' len where d': "block_store ?w [(x AND NOT (push_bit (7 - n mod 8) 1)) OR (if v then push_bit (7 - n mod 8) 1 else 0)] c' = Some d'"
      "trim_zeros (Some d') (nat (int ?w + 1)) = Some len"
      "bit_written a n v (a\<lparr>st_flags := st_flags a AND NOT (ASN1_STRING_FLAG_BITS_LEFT OR 0x07), st_data := Some d', st_length := int len\<rparr>)"
      using write_written [OF _ _ _ b x, of v] c(3) by auto
    show ?thesis using True short not c(1,2) x d' by (auto simp: ASN1_BIT_STRING_set_bit_def Let_def simp del: push_bit_of_1)
  next
    case False
    then obtain d where d: "st_data a = Some d" by auto
    have l: "?w < length d" "st_length a \<le> int (length d)" "int ?w < st_length a" using False a d by (auto simp: string_ok_def)
    then obtain x where x: "block_load (Some d) (int ?w) = Some x" by (auto simp: block_load_def)
    obtain d' len where d': "block_store ?w [(x AND NOT (push_bit (7 - n mod 8) 1)) OR (if v then push_bit (7 - n mod 8) 1 else 0)] d = Some d'"
      "trim_zeros (Some d') (nat (st_length a)) = Some len"
      "bit_written a n v (a\<lparr>st_flags := st_flags a AND NOT (ASN1_STRING_FLAG_BITS_LEFT OR 0x07), st_data := Some d', st_length := int len\<rparr>)"
      using write_written [OF l(1,3,2) content_bit [OF a d] x, of v] by auto
    show ?thesis using False d x d' by (auto simp: ASN1_BIT_STRING_set_bit_def Let_def simp del: push_bit_of_1)
  qed
  then obtain a' where a': "ASN1_BIT_STRING_set_bit A (Some a) n v = Some (True, Some a')" "bit_written a n v a'" by blast
  then have "string_ok a'" "bits a' = (if v then insert n (bits a) else bits a - {n})" by (simp_all only: bit_written_def)
  then have "ASN1_BIT_STRING_get_bit (Some a') k = Some (k \<in> (if v then insert n (bits a) else bits a - {n}))"
    using get_bit_spec [of a' k] by simp
  then show ?thesis using a' get_bit_spec [OF a] by blast
qed

theorem ASN1_BIT_STRING_set_bit_refines_witness:
  "\<exists>a'. ASN1_BIT_STRING_set_bit sample_alloc (Some \<lparr>st_length = 1, st_type = 3, st_data = Some [0x80], st_flags = 8\<rparr>) 10 True =
      Some (True, Some a') \<and> ASN1_BIT_STRING_get_bit (Some a') 10 = Some True"
proof -
  have "string_ok \<lparr>st_length = 1, st_type = 3, st_data = Some [0x80], st_flags = 8\<rparr>" "\<forall>n. can_alloc sample_alloc n"
    by (simp_all add: string_ok_def sample_alloc_def)
  from ASN1_BIT_STRING_set_bit_refines [OF this, of 10 True 10] show ?thesis by auto
qed

section \<open>To the wire and back\<close>

definition flagged :: "asn1_string \<Rightarrow> bool" where
  "flagged a \<longleftrightarrow> st_flags a AND ASN1_STRING_FLAG_BITS_LEFT \<noteq> 0"

definition padding :: "asn1_string \<Rightarrow> nat" where
  "padding a = unat (st_flags a AND 0x07)"

text \<open>Explicit padding bits must be zero, as in every string that came from the wire.\<close>

definition padding_clear :: "asn1_string \<Rightarrow> bool" where
  "padding_clear a \<longleftrightarrow> (flagged a \<and> content a \<noteq> [] \<longrightarrow> unat (last (content a)) mod 2 ^ padding a = 0)"

lemma padding_less: "padding a < 8"
proof -
  have "(0x07 :: u64) = mask 3" by (simp add: mask_eq_exp_minus_1)
  then have "st_flags a AND 0x07 = take_bit 3 (st_flags a)" by (simp only: take_bit_eq_mask)
  then show ?thesis by (simp add: padding_def unsigned_take_bit_eq take_bit_nat_def)
qed

text \<open>The loop that counts the zero bits at the end of the last byte.\<close>

lemma padding_loop_spec:
  "padding_loop v i \<le> max i 7" "(\<forall>j < i. \<not> bit v j) \<Longrightarrow> \<forall>j < padding_loop v i. \<not> bit v j"
proof (induction v i rule: padding_loop.induct)
  case (1 v i)
  have t: "v AND push_bit i 1 \<noteq> 0 \<longleftrightarrow> bit v i" by (rule and_bit)
  { case 1 then show ?case using "1.IH"(1) t by (subst padding_loop.simps) (auto simp: le_max_iff_disj simp del: push_bit_of_1) }
  { case 2 then show ?case using "1.IH"(2) t by (subst padding_loop.simps) (auto simp: less_Suc_eq simp del: push_bit_of_1) }
qed

text \<open>Clearing the low bits of a byte whose low bits are zero.\<close>

lemma mask_high:
  assumes "k < 8" "\<forall>j < k. \<not> bit (v :: u8) j"
  shows "v AND ucast (push_bit k (0xFF :: u32)) = v" "v AND (push_bit k 1 - 1) = 0"
proof -
  have m: "(0xFF :: u32) = mask 8" by (simp add: mask_eq_exp_minus_1)
  have b: "bit (ucast (push_bit k (0xFF :: u32)) :: u8) i \<longleftrightarrow> k \<le> i \<and> i < 8" for i
    using assms(1) unfolding m by (auto simp: bit_simps)
  show "v AND ucast (push_bit k (0xFF :: u32)) = v"
    using assms(2) by (intro bit_word_eqI) (auto simp: bit_and_iff b not_less)
  have "push_bit k 1 - 1 = (mask k :: u8)" by (simp add: mask_eq_exp_minus_1)
  then show "v AND (push_bit k 1 - 1) = 0" using assms(2) by (intro bit_word_eqI) (simp only:, auto simp: bit_simps)
qed

lemma low_zero_bits: "unat (v :: u8) mod 2 ^ k = 0 \<longleftrightarrow> (\<forall>j < k. \<not> bit v j)"
proof -
  have "unat v mod 2 ^ k = unat (take_bit k v)" by (simp add: unsigned_take_bit_eq take_bit_nat_def)
  also have "\<dots> = 0 \<longleftrightarrow> take_bit k v = 0" by (simp add: unat_eq_0)
  also have "\<dots> \<longleftrightarrow> (\<forall>j < k. \<not> bit v j)"
  proof
    assume "take_bit k v = 0"
    then show "\<forall>j < k. \<not> bit v j" by (metis bit_0_eq bit_take_bit_iff bot_apply bot_bool_def)
  next
    assume "\<forall>j < k. \<not> bit v j"
    then show "take_bit k v = 0" by (intro bit_word_eqI) (auto simp: bit_simps)
  qed
  finally show ?thesis .
qed

text \<open>The bytes that go to the wire, with the number of padding bits.\<close>

definition wire_bytes :: "asn1_string \<Rightarrow> u8 list" where
  "wire_bytes a = (if flagged a then content a else rtrim (content a))"

lemma wire_length:
  assumes a: "string_ok a" and clear: "padding_clear a"
  shows "\<exists>pad. asn1_bit_string_length a = Some (int (length (wire_bytes a)), pad) \<and> pad < 8 \<and>
    (wire_bytes a = [] \<longrightarrow> pad = 0) \<and> (wire_bytes a \<noteq> [] \<longrightarrow> (\<forall>j < pad. \<not> bit (last (wire_bytes a)) j))"
proof (cases "flagged a")
  case True
  have "st_length a = int (length (content a))" using length_content [OF a] by simp
  moreover have "content a \<noteq> [] \<longrightarrow> (\<forall>j < padding a. \<not> bit (last (content a)) j)"
    using clear True low_zero_bits by (auto simp: padding_clear_def)
  ultimately show ?thesis
    using True padding_less [of a] by (auto simp: asn1_bit_string_length_def wire_bytes_def flagged_def padding_def)
next
  case False
  let ?c = "rtrim (content a)"
  have n: "nat (st_length a) = length (content a)" using length_content [OF a] by simp
  have "trim_zeros (st_data a) (length (content a)) = Some (length ?c)"
    by (rule trim_zeros_spec) (rule load_content [OF a])
  then have len: "asn1_bit_string_length a =
      (if 0 < length ?c then Option.bind (block_load (st_data a) (int (length ?c) - 1)) (\<lambda>l. Some (int (length ?c), padding_loop l 0))
       else Some (int (length ?c), 0))"
    using False n by (simp add: asn1_bit_string_length_def flagged_def)
  show ?thesis
  proof (cases "?c = []")
    case True
    then show ?thesis using len False by (simp add: wire_bytes_def)
  next
    case ne: False
    then have i: "length ?c - 1 < length (content a)" "int (length ?c) - 1 = int (length ?c - 1)"
      using length_rtrim [of "content a"] by (cases ?c; simp)+
    obtain k where k: "content a = ?c @ replicate k 0" using rtrim_prefix by blast
    have "(?c @ replicate k 0) ! (length ?c - 1) = last ?c" using ne by (simp add: nth_append last_conv_nth)
    then have "content a ! (length ?c - 1) = last ?c" using k by metis
    then have "block_load (st_data a) (int (length ?c) - 1) = Some (last ?c)"
      unfolding i(2) load_content [OF a i(1)] by simp
    moreover have "padding_loop (last ?c) 0 < 8" using padding_loop_spec(1) [of "last ?c" 0] by simp
    ultimately show ?thesis using len ne False padding_loop_spec(2) [of 0 "last ?c"] by (simp add: wire_bytes_def)
  qed
qed

lemma bits_wire: "bits a = {n. bit_at (wire_bytes a) n}"
  by (simp add: bits_def wire_bytes_def bit_at_rtrim)

lemma wire_prefix: "string_ok a \<Longrightarrow> st_data a = Some d \<Longrightarrow> take (length (wire_bytes a)) d = wire_bytes a \<and> length (wire_bytes a) \<le> length d"
proof -
  assume a: "string_ok a" "st_data a = Some d"
  then have c: "content a = take (nat (st_length a)) d" by (simp add: content_def)
  have "take (length (wire_bytes a)) (content a) = wire_bytes a" "length (wire_bytes a) \<le> length (content a)"
    using take_rtrim length_rtrim by (simp_all add: wire_bytes_def)
  moreover from this(2) have "length (wire_bytes a) \<le> nat (st_length a)" "length (wire_bytes a) \<le> length d" unfolding c by simp_all
  ultimately show ?thesis unfolding c by (simp add: min_absorb1)
qed

lemma i2c_spec:
  assumes a: "string_ok a" "padding_clear a" and len: "length (wire_bytes a) < 0x7FFFFFFF"
  shows "\<exists>pad. pad < 8 \<and> (wire_bytes a = [] \<longrightarrow> pad = 0) \<and> (wire_bytes a \<noteq> [] \<longrightarrow> (\<forall>j < pad. \<not> bit (last (wire_bytes a)) j)) \<and>
    i2c_ASN1_BIT_STRING (Some a) True = Some (1 + int (length (wire_bytes a)), of_nat pad # wire_bytes a) \<and>
    i2c_ASN1_BIT_STRING (Some a) False = Some (1 + int (length (wire_bytes a)), [])"
proof -
  let ?c = "wire_bytes a"
  obtain pad where pad: "asn1_bit_string_length a = Some (int (length ?c), pad)" "pad < 8" "?c = [] \<longrightarrow> pad = 0"
    "?c \<noteq> [] \<longrightarrow> (\<forall>j < pad. \<not> bit (last ?c) j)" using wire_length [OF a] by blast
  have "i2c_ASN1_BIT_STRING (Some a) True = Some (1 + int (length ?c), of_nat pad # ?c)"
  proof (cases "?c = []")
    case True
    then show ?thesis using pad by (simp add: i2c_ASN1_BIT_STRING_def)
  next
    case False
    then have "content a \<noteq> []" by (auto simp: wire_bytes_def split: if_splits)
    then obtain d where d: "st_data a = Some d" by (auto simp: content_def split: option.splits)
    note p = wire_prefix [OF a(1) d]
    have "last ?c AND ucast (push_bit pad (0xFF :: u32)) = last ?c" using mask_high(1) [OF pad(2)] pad(4) False by blast
    then have "?c[length ?c - 1 := ?c ! (length ?c - 1) AND ucast (push_bit pad (0xFF :: u32))] = ?c"
      using False by (simp only: last_conv_nth [OF False, symmetric]) (simp add: last_conv_nth)
    then show ?thesis using False d p pad(1) len by (simp add: i2c_ASN1_BIT_STRING_def Let_def)
  qed
  then show ?thesis using pad len by (intro exI [of _ pad]) (simp add: i2c_ASN1_BIT_STRING_def)
qed

text \<open>Reading the contents of a BIT STRING into a new string.\<close>

lemma flags_read:
  assumes "pad < 8"
  shows "((0 :: u64) AND NOT (ASN1_STRING_FLAG_BITS_LEFT OR 0x07)) OR (ASN1_STRING_FLAG_BITS_LEFT OR ucast (of_nat pad :: u8)) = of_nat (8 + pad)"
    "of_nat (8 + pad) AND ASN1_STRING_FLAG_BITS_LEFT \<noteq> 0" "unat (of_nat (8 + pad) AND (0x07 :: u64)) = pad"
proof -
  have "pad \<in> {0, 1, 2, 3, 4, 5, 6, 7}" using assms by auto
  then show "((0 :: u64) AND NOT (ASN1_STRING_FLAG_BITS_LEFT OR 0x07)) OR (ASN1_STRING_FLAG_BITS_LEFT OR ucast (of_nat pad :: u8)) = of_nat (8 + pad)"
    "of_nat (8 + pad) AND ASN1_STRING_FLAG_BITS_LEFT \<noteq> 0" "unat (of_nat (8 + pad) AND (0x07 :: u64)) = pad"
    by (auto simp: ASN1_STRING_FLAG_BITS_LEFT_def)
qed

lemma c2i_new:
  assumes A: "\<forall>n. can_alloc A n" and m: "load_bytes m p (length (of_nat pad # bs)) = Some (of_nat pad # bs)"
    and pad: "pad < 8" "bs = [] \<longrightarrow> pad = 0" "bs \<noteq> [] \<longrightarrow> (\<forall>j < pad. \<not> bit (last bs) j)" and len: "length bs < 0x7FFFFFFF"
  shows "c2i_ASN1_BIT_STRING A None m p (1 + int (length bs)) =
    Some (Some (\<lparr>st_length = int (length bs), st_type = V_ASN1_BIT_STRING, st_data = (if bs = [] then None else Some bs), st_flags = of_nat (8 + pad)\<rparr>,
      p + (1 + int (length bs))), None)"
proof -
  have u: "unat (of_nat pad :: u8) = pad" using pad(1) by (intro unat_byte) simp
  have first: "m p = Some (of_nat pad)" "load_bytes m (p + 1) (length bs) = Some bs"
    using m by (auto simp: load_bytes_Suc split: option.splits)
  have seven: "\<not> (7 < (of_nat pad :: u8))" "(of_nat pad :: u8) \<noteq> 0 \<longleftrightarrow> pad \<noteq> 0" using pad(1) u by (auto simp: word_less_nat_alt word_unat_eq_iff)
  have new: "ASN1_STRING_type_new A V_ASN1_BIT_STRING = Some \<lparr>st_length = 0, st_type = V_ASN1_BIT_STRING, st_data = None, st_flags = 0\<rparr>"
    using A by (simp add: ASN1_STRING_type_new_def)
  show ?thesis
  proof (cases "bs = []")
    case True
    then have "pad = 0" using pad(2) by simp
    then show ?thesis using True first(1) new flags_read(1) [of 0]
      by (simp add: c2i_ASN1_BIT_STRING_def Let_def)
  next
    case False
    then have l: "m (p + 1 + (1 + int (length bs) - 1) - 1) = Some (last bs)" "1 \<le> length bs"
      using first(2) by (auto simp: load_bytes_eq_Some last_conv_nth Suc_le_eq dest: spec [of _ "length bs - 1"])
    have mask: "last bs AND (push_bit pad 1 - 1) = 0" using mask_high(2) [OF pad(1)] pad(3) False by blast
    show ?thesis
      using False first new seven l mask A len u flags_read(1) [OF pad(1)]
      by (cases "pad = 0") (simp_all add: c2i_ASN1_BIT_STRING_def Let_def del: push_bit_of_1)
  qed
qed

text \<open>C29: A well-formed BIT STRING (with clear padding, if it has explicit padding) survives the way to
  the wire and back as a set of bits: \<open>i2c_ASN1_BIT_STRING\<close> announces and writes the same number of
  bytes, and \<open>c2i_ASN1_BIT_STRING\<close> accepts them wherever they are placed, consumes them all, and returns
  a well-formed string with the same bits and clear padding.\<close>

theorem bit_string_round_trip:
  assumes a: "string_ok a" "padding_clear a" and len: "length (content a) < 0x7FFFFFFF" and A: "\<forall>n. can_alloc A n"
  shows "\<exists>out a'. i2c_ASN1_BIT_STRING (Some a) True = Some (int (length out), out) \<and>
    i2c_ASN1_BIT_STRING (Some a) False = Some (int (length out), []) \<and>
    (\<forall>m p. load_bytes m p (length out) = Some out \<longrightarrow>
      c2i_ASN1_BIT_STRING A None m p (int (length out)) = Some (Some (a', p + int (length out)), None)) \<and>
    string_ok a' \<and> padding_clear a' \<and> bits a' = bits a"
proof -
  let ?c = "wire_bytes a"
  have len: "length ?c < 0x7FFFFFFF" using len length_rtrim [of "content a"] by (auto simp: wire_bytes_def)
  obtain pad where pad: "pad < 8" "?c = [] \<longrightarrow> pad = 0" "?c \<noteq> [] \<longrightarrow> (\<forall>j < pad. \<not> bit (last ?c) j)"
    and out: "i2c_ASN1_BIT_STRING (Some a) True = Some (1 + int (length ?c), of_nat pad # ?c)"
      "i2c_ASN1_BIT_STRING (Some a) False = Some (1 + int (length ?c), [])"
    using i2c_spec [OF a len] by blast
  define a' where "a' = \<lparr>st_length = int (length ?c), st_type = V_ASN1_BIT_STRING, st_data = (if ?c = [] then None else Some ?c), st_flags = of_nat (8 + pad)\<rparr>"
  have c': "content a' = ?c" by (simp add: a'_def content_def)
  have f: "st_flags a' = of_nat (8 + pad)" by (simp add: a'_def)
  have fl: "flagged a'" "padding a' = pad" unfolding flagged_def padding_def f by (rule flags_read(2,3) [OF pad(1)])+
  have "bits a' = bits a" by (simp only: bits_def [of a'] c' bits_wire [of a])
  moreover have "padding_clear a'" using fl pad(3) low_zero_bits by (simp add: padding_clear_def c')
  moreover have "string_ok a'" by (simp add: a'_def string_ok_def)
  moreover have "\<forall>m p. load_bytes m p (length (of_nat pad # ?c)) = Some (of_nat pad # ?c) \<longrightarrow>
      c2i_ASN1_BIT_STRING A None m p (1 + int (length ?c)) = Some (Some (a', p + (1 + int (length ?c))), None)"
    unfolding a'_def using c2i_new [OF A _ pad len] by blast
  ultimately show ?thesis using out by (intro exI [of _ "of_nat pad # ?c"] exI [of _ a']) simp
qed

theorem bit_string_round_trip_witness:
  "\<exists>out a'. i2c_ASN1_BIT_STRING (Some \<lparr>st_length = 2, st_type = 3, st_data = Some [0xA0, 0], st_flags = 0\<rparr>) True = Some (2, out) \<and>
     out = [5, 0xA0] \<and> ASN1_BIT_STRING_get_bit (Some a') 2 = Some True \<and>
     c2i_ASN1_BIT_STRING sample_alloc None (put_bytes Map.empty 8 out) 8 2 = Some (Some (a', 10), None)"
proof -
  let ?a = "\<lparr>st_length = 2, st_type = 3, st_data = Some [0xA0, 0], st_flags = 0\<rparr>"
  have ok: "string_ok ?a" "padding_clear ?a" "length (content ?a) < 0x7FFFFFFF" "\<forall>n. can_alloc sample_alloc n"
    by (simp_all add: string_ok_def padding_clear_def flagged_def content_def sample_alloc_def)
  have run: "i2c_ASN1_BIT_STRING (Some ?a) True = Some (2, [5, 0xA0])" by code_simp
  obtain out a' where r: "i2c_ASN1_BIT_STRING (Some ?a) True = Some (int (length out), out)"
    "\<forall>m p. load_bytes m p (length out) = Some out \<longrightarrow>
      c2i_ASN1_BIT_STRING sample_alloc None m p (int (length out)) = Some (Some (a', p + int (length out)), None)"
    "string_ok a'" "bits a' = bits ?a" using bit_string_round_trip [OF ok] by blast
  then have out: "out = [5, 0xA0]" using run by simp
  have "load_bytes (put_bytes Map.empty 8 [5, 0xA0]) 8 (length [5, 0xA0 :: u8]) = Some [5, 0xA0]" by code_simp
  then have "c2i_ASN1_BIT_STRING sample_alloc None (put_bytes Map.empty 8 out) 8 2 = Some (Some (a', 10), None)"
    using r(2) out by force
  moreover have "2 \<in> bits ?a" by (simp add: bits_def content_def bit_at_def)
  then have "ASN1_BIT_STRING_get_bit (Some a') 2 = Some True" using get_bit_spec [OF r(3)] r(4) by simp
  ultimately show ?thesis using run out by blast
qed

end
