(* ===== verification/Boring_MBString_Theorems.thy ===== *)
theory Boring_MBString_Theorems
  imports Boring_MBString_Correct Boring_String_Theorems
begin

text \<open>
  The conversion of character strings: \<open>ASN1_mbstring_ncopy\<close> chooses the first permitted type that can
  hold the text and stores the text in its encoding, and \<open>ASN1_STRING_to_UTF8\<close> brings it back.
\<close>

section \<open>Texts\<close>

definition text_of :: "int \<Rightarrow> u8 list \<Rightarrow> nat list \<Rightarrow> bool" where
  "text_of f bs cs \<longleftrightarrow> (\<forall>c \<in> set cs. in_form f c) \<and> bs = concat (map (enc f) cs)"

lemma text_of_simps [simp]:
  "text_of f bs [] \<longleftrightarrow> bs = []"
  "text_of f bs (c # cs) \<longleftrightarrow> in_form f c \<and> (\<exists>rest. bs = enc f c @ rest \<and> text_of f rest cs)"
  by (auto simp: text_of_def)

lemma be_fixed_Nil: "be_fixed k n = [] \<longleftrightarrow> k = 0"
  by (cases k) simp_all

lemma enc_not_Nil: "enc f n \<noteq> []"
  by (simp add: enc_def utf8_def be_fixed_Nil)

lemma length_enc: "length (enc f n) \<le> 4"
  by (simp add: enc_def utf8_def)

lemma text_of_Nil: "text_of f [] cs \<longleftrightarrow> cs = []"
  by (cases cs) (auto simp: enc_not_Nil)

lemma text_of_length: "text_of f bs cs \<Longrightarrow> length cs \<le> length bs"
proof (induction cs arbitrary: bs)
  case (Cons c cs)
  then obtain rest where "bs = enc f c @ rest" "length cs \<le> length rest" by auto
  then show ?case using enc_not_Nil [of f c] by (cases "enc f c") simp_all
qed simp

text \<open>The first character of a text, from the point of view of the parser.\<close>

lemma text_of_parse:
  assumes "f \<in> forms" "bs \<noteq> []"
  shows "text_of f bs cs \<longleftrightarrow> (\<exists>v rest cs'. char_parse f bs = Some (v, rest) \<and> cs = unat v # cs' \<and> text_of f rest cs')"
proof (cases cs)
  case Nil
  then show ?thesis using assms(2) by (simp add: text_of_def)
next
  case (Cons c cs')
  show ?thesis
  proof
    assume "text_of f bs cs"
    then obtain rest where t: "in_form f c" "bs = enc f c @ rest" "text_of f rest cs'" using Cons by auto
    then have u: "unat (of_nat c :: u32) = c" using in_form_less [of f c] by (simp add: unat_of_nat take_bit_nat_eq_self_iff)
    have "char_parse f bs = Some (of_nat c, rest)" unfolding char_parse_iff [OF assms(1)] u using t by simp
    then show "\<exists>v rest cs'. char_parse f bs = Some (v, rest) \<and> cs = unat v # cs' \<and> text_of f rest cs'" 
      using t u Cons by (intro exI [of _ "of_nat c"] exI [of _ rest] exI [of _ cs']) simp
  next
    assume "\<exists>v rest cs'. char_parse f bs = Some (v, rest) \<and> cs = unat v # cs' \<and> text_of f rest cs'"
    then show "text_of f bs cs" by (auto simp: char_parse_iff [OF assms(1)])
  qed
qed

lemma text_of_unique: "f \<in> forms \<Longrightarrow> text_of f bs cs \<Longrightarrow> text_of f bs ds \<Longrightarrow> cs = ds"
proof (induction cs arbitrary: bs ds)
  case (Cons c cs)
  then have "bs \<noteq> []" by (auto simp: enc_not_Nil)
  from Cons.prems(2,3) [unfolded text_of_parse [OF Cons.prems(1) this]] show ?case using Cons.IH [OF Cons.prems(1)] by auto
qed (simp add: text_of_Nil)

section \<open>The mask of possible types\<close>

text \<open>The types by the bit of the mask, with the characters each can hold.\<close>

definition holds_char :: "nat \<Rightarrow> nat \<Rightarrow> bool" where
  "holds_char k c \<longleftrightarrow>
     (k = 1 \<longrightarrow> asn1_is_printable (of_nat c)) \<and> (k = 4 \<longrightarrow> c < 0x80) \<and> (k = 2 \<longrightarrow> c < 0x100) \<and> (k = 11 \<longrightarrow> c < 0x10000)"

lemma mask_bits:
  "B_ASN1_PRINTABLESTRING = push_bit 1 1" "B_ASN1_IA5STRING = push_bit 4 1" "B_ASN1_T61STRING = push_bit 2 1"
  "B_ASN1_BMPSTRING = push_bit 11 1" "B_ASN1_UNIVERSALSTRING = push_bit 8 1" "B_ASN1_UTF8STRING = push_bit 13 1"
  by (simp_all add: B_ASN1_PRINTABLESTRING_def B_ASN1_IA5STRING_def B_ASN1_T61STRING_def B_ASN1_BMPSTRING_def
      B_ASN1_UNIVERSALSTRING_def B_ASN1_UTF8STRING_def)

lemma mask_test: "msk AND push_bit k 1 \<noteq> 0 \<longleftrightarrow> bit (msk :: u64) k"
  by (simp add: bit_iff_and_push_bit_not_eq_0)

lemma mask_clear: "k < 64 \<Longrightarrow> bit (msk AND NOT (push_bit k 1) :: u64) i \<longleftrightarrow> bit msk i \<and> i \<noteq> k"
  by (auto simp: bit_simps dest: bit_imp_le_length)

lemma restrict_bit:
  assumes "c < 2 ^ 32"
  shows "bit (restrict_mask msk (of_nat c)) i \<longleftrightarrow> bit msk i \<and> holds_char i c"
proof -
  have c: "127 < (of_nat c :: u32) \<longleftrightarrow> \<not> c < 0x80" "0xFF < (of_nat c :: u32) \<longleftrightarrow> \<not> c < 0x100"
    "0xFFFF < (of_nat c :: u32) \<longleftrightarrow> \<not> c < 0x10000"
    using assms by (auto simp: word_less_nat_alt unat_of_nat take_bit_nat_eq_self_iff)
  have step: "bit (if bit m k \<and> \<not> P then m AND NOT (push_bit k 1) else m) i \<longleftrightarrow> bit m i \<and> (i = k \<longrightarrow> P)"
    if "k < 64" for m :: u64 and k P
    using mask_clear [OF that] by auto
  show ?thesis
    unfolding restrict_mask_def Let_def mask_bits mask_test c
    by (simp only: step) (simp add: holds_char_def step conj_ac)
qed

lemma restrict_all_bit:
  "\<forall>c \<in> set cs. c < 2 ^ 32 \<Longrightarrow>
     bit (foldl (\<lambda>msk c. restrict_mask msk (of_nat c)) msk cs) i \<longleftrightarrow> bit msk i \<and> (\<forall>c \<in> set cs. holds_char i c)"
  by (induction cs arbitrary: msk) (auto simp: restrict_bit)

abbreviation restrict_all :: "u64 \<Rightarrow> nat list \<Rightarrow> u64" where
  "restrict_all \<equiv> foldl (\<lambda>msk c. restrict_mask msk (of_nat c))"

lemma restrict_all_0: "\<forall>c \<in> set cs. c < 2 ^ 32 \<Longrightarrow> restrict_all 0 cs = 0"
  by (rule bit_word_eqI) (simp add: restrict_all_bit)

lemma text_of_less: "text_of f bs cs \<Longrightarrow> \<forall>c \<in> set cs. c < 2 ^ 32"
  using in_form_less by (auto simp: text_of_def)

section \<open>The first loop\<close>

definition scan_ok :: "int \<Rightarrow> int \<Rightarrow> u64 \<Rightarrow> u64 \<Rightarrow> nat list \<Rightarrow> bool" where
  "scan_ok f maxsize nchar msk cs \<longleftrightarrow>
     (nchar = 0 \<and> (f = MBSTRING_BMP \<or> f = MBSTRING_UNIV) \<longrightarrow> take 1 cs \<noteq> [0xFEFF]) \<and>
     restrict_all msk cs \<noteq> 0 \<and> (0 < maxsize \<longrightarrow> cs = [] \<or> unat nchar + length cs \<le> nat maxsize)"

text \<open>One round of the loop on the abstract side.\<close>

lemma scan_ok_Cons:
  assumes "unat nchar + 1 < 2 ^ 64" "\<forall>c \<in> set cs. c < 2 ^ 32"
  shows "scan_ok f maxsize nchar msk (unat v # cs) \<longleftrightarrow>
    \<not> (nchar = 0 \<and> (f = MBSTRING_BMP \<or> f = MBSTRING_UNIV) \<and> v = 0xFEFF) \<and> restrict_mask msk v \<noteq> 0 \<and>
    \<not> (0 < maxsize \<and> nat maxsize < unat (nchar + 1)) \<and> scan_ok f maxsize (nchar + 1) (restrict_mask msk v) cs"
proof -
  have n: "unat (nchar + 1) = unat nchar + 1" using assms(1) by (simp add: unat_word_ariths(1))
  then have "nchar + 1 \<noteq> 0" by (metis add_is_0 one_neq_zero unat_0)
  moreover have "restrict_mask msk v = 0 \<Longrightarrow> restrict_all (restrict_mask msk v) cs = 0" using restrict_all_0 [OF assms(2)] by simp
  moreover have "unat v = 0xFEFF \<longleftrightarrow> v = 0xFEFF" by (simp add: word_unat_eq_iff)
  moreover have "(0 < maxsize \<longrightarrow> unat nchar + length (unat v # cs) \<le> nat maxsize) \<longleftrightarrow>
      \<not> (0 < maxsize \<and> nat maxsize < unat (nchar + 1)) \<and> (0 < maxsize \<longrightarrow> cs = [] \<or> unat (nchar + 1) + length cs \<le> nat maxsize)"
    unfolding n by (cases cs) auto
  ultimately show ?thesis unfolding scan_ok_def by auto
qed

text \<open>What a run of the loop tells about the text in the window.\<close>

definition scanned :: "int \<Rightarrow> int \<Rightarrow> u64 \<Rightarrow> u64 \<Rightarrow> u8 list \<Rightarrow> mb_error + u64 \<times> u64 \<times> u64 \<Rightarrow> bool" where
  "scanned f maxsize nchar msk bs r \<longleftrightarrow>
     (case r of Inl e \<Rightarrow> \<nexists>cs. text_of f bs cs \<and> scan_ok f maxsize nchar msk cs
      | Inr (msk', nchar', ul) \<Rightarrow> \<exists>cs. text_of f bs cs \<and> scan_ok f maxsize nchar msk cs \<and>
          msk' = restrict_all msk cs \<and> nchar' = nchar + of_nat (length cs))"

abbreviation scan_stops :: "int \<Rightarrow> int \<Rightarrow> u64 \<Rightarrow> u64 \<Rightarrow> u32 \<Rightarrow> bool" where
  "scan_stops f maxsize nchar msk v \<equiv> (nchar = 0 \<and> (f = MBSTRING_BMP \<or> f = MBSTRING_UNIV) \<and> v = 0xFEFF) \<or>
     restrict_mask msk v = 0 \<or> (0 < maxsize \<and> nat maxsize < unat (nchar + 1))"

lemma scanned_step:
  assumes f: "f \<in> forms" and p: "char_parse f bs = Some (v, rest)" and size: "unat nchar + 1 < 2 ^ 64"
  shows "scan_stops f maxsize nchar msk v \<Longrightarrow> scanned f maxsize nchar msk bs (Inl e)"
    and "\<not> scan_stops f maxsize nchar msk v \<Longrightarrow> scanned f maxsize (nchar + 1) (restrict_mask msk v) rest r \<Longrightarrow>
      scanned f maxsize nchar msk bs r"
proof -
  have "bs \<noteq> []" using p char_parse_iff [OF f] enc_not_Nil by auto
  from text_of_parse [OF f this] have texts: "text_of f bs cs \<longleftrightarrow> (\<exists>cs'. cs = unat v # cs' \<and> text_of f rest cs')" for cs
    using p by auto
  have ok: "text_of f rest cs' \<Longrightarrow> scan_ok f maxsize nchar msk (unat v # cs') \<longleftrightarrow>
      \<not> scan_stops f maxsize nchar msk v \<and> scan_ok f maxsize (nchar + 1) (restrict_mask msk v) cs'" for cs'
    using scan_ok_Cons [OF size text_of_less] by blast
  show "scan_stops f maxsize nchar msk v \<Longrightarrow> scanned f maxsize nchar msk bs (Inl e)"
    using texts ok by (auto simp: scanned_def)
  assume go: "\<not> scan_stops f maxsize nchar msk v" and r: "scanned f maxsize (nchar + 1) (restrict_mask msk v) rest r"
  show "scanned f maxsize nchar msk bs r"
  proof (cases r)
    case (Inl e)
    then show ?thesis using r texts ok by (auto simp: scanned_def)
  next
    case (Inr t)
    then obtain m' n' u' where t: "r = Inr (m', n', u')" by (cases t) auto
    then obtain cs' where "text_of f rest cs'" "scan_ok f maxsize (nchar + 1) (restrict_mask msk v) cs'"
      "m' = restrict_all (restrict_mask msk v) cs'" "n' = nchar + 1 + of_nat (length cs')"
      using r by (auto simp: scanned_def)
    moreover from this have "text_of f bs (unat v # cs')" "scan_ok f maxsize nchar msk (unat v # cs')"
      using texts ok go by blast+
    ultimately show ?thesis
      unfolding t scanned_def sum.case prod.case
      by (intro exI [of _ "unat v # cs'"]) (simp add: add.assoc del: text_of_simps)
  qed
qed

lemma unat_of_int: "0 \<le> k \<Longrightarrow> k < 2 ^ 64 \<Longrightarrow> unat (word_of_int k :: u64) = nat k"
  by (simp add: unat_eq_nat_uint uint_word_of_int_eq take_bit_int_eq_self)

lemma scan_loop_spec:
  assumes f: "f \<in> forms" and "maxsize < 2 ^ 63"
  shows "cbs_holds m c bs \<Longrightarrow> unat nchar + length bs < 2 ^ 64 \<Longrightarrow> msk \<noteq> 0 \<Longrightarrow>
    \<exists>r. scan_loop m f maxsize c msk nchar ul = Some r \<and> scanned f maxsize nchar msk bs r"
proof (induction "length bs" arbitrary: c bs nchar msk ul rule: less_induct)
  case less
  have len: "unat (cbs_len c) = length bs" by (rule cbs_holds_length [OF less.prems(1)])
  show ?case
  proof (cases "bs = []")
    case True
    then have "scan_loop m f maxsize c msk nchar ul = Some (Inr (msk, nchar, ul))"
      using len by (subst scan_loop.simps) (simp add: unat_eq_0)
    then show ?thesis using True less.prems(3) by (auto simp: text_of_Nil scan_ok_def scanned_def)
  next
    case False
    then have ne: "cbs_len c \<noteq> 0" using len by auto
    show ?thesis
    proof (cases "char_parse f bs")
      case None
      then obtain c' where "decode_func f m c = Some (None, c')" by (rule decode.failure [OF less.prems(1)])
      then have "scan_loop m f maxsize c msk nchar ul = Some (Inl (the (decode_error f)))"
        using ne by (subst scan_loop.simps) simp
      then show ?thesis using None text_of_parse [OF f False] by (simp add: scanned_def)
    next
      case (Some p)
      then obtain v rest where p: "char_parse f bs = Some (v, rest)" by (cases p) auto
      let ?c = "cbs_drop (length bs - length rest) c"
      have d: "decode_func f m c = Some (Some v, ?c)" "cbs_holds m ?c rest"
        using decode.success [OF less.prems(1) p] by metis+
      have "bs = enc f (unat v) @ rest" using p char_parse_iff [OF f] by blast
      then have shorter: "length rest < length bs" using enc_not_Nil [of f "unat v"] by (cases "enc f (unat v)") simp_all
      have size: "unat nchar + 1 < 2 ^ 64" using shorter less.prems(2) by linarith
      have mx: "0 < maxsize \<Longrightarrow> word_of_int maxsize < nchar + 1 \<longleftrightarrow> nat maxsize < unat (nchar + 1)"
        using assms(2) by (simp add: word_less_nat_alt unat_of_int)
      note loop = scan_loop.simps [of m f maxsize c msk nchar ul, unfolded d(1)]
      show ?thesis
      proof (cases "scan_stops f maxsize nchar msk v")
        case True
        then obtain e where "scan_loop m f maxsize c msk nchar ul = Some (Inl e)" unfolding loop
          by (cases "nchar = 0 \<and> (f = MBSTRING_BMP \<or> f = MBSTRING_UNIV) \<and> v = 0xFEFF"; cases "restrict_mask msk v = 0")
            (auto simp: Let_def ne mx)
        then show ?thesis using scanned_step(1) [OF f p size True] by blast
      next
        case False
        then have "scan_loop m f maxsize c msk nchar ul =
            scan_loop m f maxsize ?c (restrict_mask msk v) (nchar + 1) (ul + CBB_get_utf8_len v)"
          unfolding loop using ne by (auto simp: Let_def mx)
        moreover have "unat (nchar + 1) + length rest < 2 ^ 64" using size shorter less.prems(2) by (simp add: unat_word_ariths(1))
        note less.hyps [OF shorter d(2) this, of "restrict_mask msk v" "ul + CBB_get_utf8_len v"]
        ultimately show ?thesis using False scanned_step(2) [OF f p size False] by auto
      qed
    qed
  qed
qed

section \<open>The second loop\<close>

lemma recode_outcome:
  assumes f: "f \<in> forms" and g: "g \<in> forms"
  shows "cbs_holds m c bs \<Longrightarrow> text_of f bs cs \<Longrightarrow> \<forall>c \<in> set cs. in_form g c \<Longrightarrow> reps S F \<Longrightarrow> depth F = 0 \<Longrightarrow>
    outcome A S F 0 (put 0 (concat (map (enc g) cs))) (length (concat (map (enc g) cs))) (recode_loop A m f g c S)"
proof (induction cs arbitrary: bs c S F)
  case Nil
  then have "cbs_len c = 0" using cbs_holds_length [OF Nil.prems(1)] by (simp add: unat_eq_0)
  then show ?case using outcome_skip [OF Nil.prems(4,5)] by (subst recode_loop.simps) simp
next
  case (Cons v cs)
  then have ne: "bs \<noteq> []" by (auto simp: enc_not_Nil)
  then obtain w rest where w: "char_parse f bs = Some (w, rest)" "v = unat w" "text_of f rest cs"
    using Cons.prems(2) [unfolded text_of_parse [OF f ne]] by auto
  let ?c = "cbs_drop (length bs - length rest) c"
  have d: "decode_func f m c = Some (Some w, ?c)" "cbs_holds m ?c rest" using decode.success [OF Cons.prems(1) w(1)] by metis+
  have "cbs_len c \<noteq> 0" using cbs_holds_length [OF Cons.prems(1)] ne by auto
  then have step: "recode_loop A m f g c S = and_then (encode_func g A w 0 S) (recode_loop A m f g ?c)"
    using d(1) by (subst recode_loop.simps) simp
  have "in_form g (unat w)" using Cons.prems(3) w(2) by simp
  from builder_op.step [OF builder_encode [OF g this, of 0] Cons.prems(4)]
  have "outcome A S F 0 (put 0 (enc g v)) (length (enc g v)) (encode_func g A w 0 S)" using w(2) by simp
  from outcome_seq [OF this, of 0 "put 0 (concat (map (enc g) cs))" "length (concat (map (enc g) cs))" "recode_loop A m f g ?c"]
  have "outcome A S F 0 (\<lambda>F. Option.bind (put 0 (enc g v) F) (put 0 (concat (map (enc g) cs))))
      (length (enc g v) + length (concat (map (enc g) cs))) (recode_loop A m f g c S)"
    using Cons.IH [OF d(2) w(3)] Cons.prems(3) unfolding step by simp
  then show ?case by (rule outcome_cong) (simp_all add: put_put)
qed

section \<open>The output type\<close>

definition output_types :: "(nat \<times> int) list" where
  "output_types =
     [(1, V_ASN1_PRINTABLESTRING), (4, V_ASN1_IA5STRING), (2, V_ASN1_T61STRING), (11, V_ASN1_BMPSTRING),
      (8, V_ASN1_UNIVERSALSTRING), (13, V_ASN1_UTF8STRING)]"

definition output_type :: "u64 \<Rightarrow> nat list \<Rightarrow> int option" where
  "output_type msk cs = map_option snd (find (\<lambda>(k, ty). bit msk k \<and> (\<forall>c \<in> set cs. holds_char k c)) output_types)"

lemmas type_defs = V_ASN1_PRINTABLESTRING_def V_ASN1_IA5STRING_def V_ASN1_T61STRING_def V_ASN1_BMPSTRING_def
  V_ASN1_UNIVERSALSTRING_def V_ASN1_UTF8STRING_def V_ASN1_NUMERICSTRING_def V_ASN1_UTCTIME_def
  V_ASN1_GENERALIZEDTIME_def V_ASN1_ISO64STRING_def

lemma choose_output_spec:
  assumes "\<forall>c \<in> set cs. c < 2 ^ 32"
  shows "map_option fst (choose_output (restrict_all msk cs) n u) = output_type msk cs"
    and "choose_output (restrict_all msk cs) n u = Some (ty, g, k) \<Longrightarrow> g = string_type_to_encoding ty"
  unfolding choose_output_def mask_bits mask_test restrict_all_bit [OF assms] output_type_def output_types_def
  by (auto simp: string_type_to_encoding_def type_defs split: if_splits simp del: push_bit_of_1)

lemma output_type_restrict_0: "\<forall>c \<in> set cs. c < 2 ^ 32 \<Longrightarrow> restrict_all msk cs = 0 \<Longrightarrow> output_type msk cs = None"
  using choose_output_spec(1) [of cs msk 0 0] by (simp add: choose_output_def)

lemma output_form:
  assumes "output_type msk cs = Some ty" "\<forall>c \<in> set cs. in_form f c" "c \<in> set cs"
  shows "in_form (string_type_to_encoding ty) c"
proof -
  have c: "open_scalar c" "c < 2 ^ 32" using assms(2,3) in_form_scalar in_form_less by blast+
  obtain k where k: "(k, ty) \<in> set output_types" "holds_char k c"
    using assms(1,3) by (auto simp: output_type_def find_Some_iff) (metis nth_mem)
  have "asn1_is_printable (of_nat c) \<Longrightarrow> c < 0x100"
    using c(2) by (auto simp: asn1_is_printable_def word_le_nat_alt unat_of_nat take_bit_nat_eq_self_iff)
  then show ?thesis
    using k c by (auto simp: output_types_def holds_char_def string_type_to_encoding_def type_defs in_form_def mb_defs)
qed

lemma encoding_form: "output_type msk cs = Some ty \<Longrightarrow> string_type_to_encoding ty \<in> forms"
  by (auto simp: output_type_def output_types_def string_type_to_encoding_def type_defs forms_def split: if_splits)

section \<open>Strings\<close>

definition string_holds :: "asn1_string \<Rightarrow> u8 list \<Rightarrow> bool" where
  "string_holds s bs \<longleftrightarrow> st_length s = int (length bs) \<and> (\<exists>rest. st_data s = Some (bs @ 0 # rest))"

lemma string_holds_ok: "string_holds s bs \<Longrightarrow> string_ok s"
  by (auto simp: string_holds_def string_ok_def)

lemma string_holds_source:
  "string_holds s bs \<Longrightarrow> \<exists>m p. block_source (st_data s) = Some (m, p) \<and> load_bytes m p (length bs) = Some bs"
  by (auto simp: string_holds_def block_source_def load_bytes_eq_Some nth_append)

lemma block_store_end:
  assumes "length bs < length b"
  shows "\<exists>b'. block_store 0 bs b = Some b' \<and> (\<exists>rest. block_store (length bs) [0] b' = Some (bs @ 0 # rest))"
  using assms by (auto simp: block_store_def)

lemma set_string:
  assumes "string_ok s" "\<forall>n. can_alloc A n" "load_bytes m p (length bs) = Some bs" "int (length bs) \<le> ASN1_STRING_MAX"
  shows "\<exists>s'. ASN1_STRING_set A s (Some (m, p)) (int (length bs)) = Some (True, s') \<and> string_holds s' bs \<and>
    st_type s' = st_type s \<and> st_flags s' = st_flags s"
proof -
  let ?realloc = "st_length s \<le> int (length bs) \<or> st_data s = None"
  define b where "b = (if ?realloc then the (block_realloc A (st_data s) (length bs + 1)) else the (st_data s))"
  have "length bs < length b"
    using assms(1,2) by (auto simp: b_def block_realloc_def string_ok_def split: option.splits)
  then obtain b' rest where b': "block_store 0 bs b = Some b'" "block_store (length bs) [0] b' = Some (bs @ 0 # rest)"
    using block_store_end by blast
  have "ASN1_STRING_set A s (Some (m, p)) (int (length bs)) =
      Some (True, s\<lparr>st_data := Some (bs @ 0 # rest), st_length := int (length bs)\<rparr>)"
    using assms(2-4) b' unfolding b_def by (auto simp: ASN1_STRING_set_def Let_def block_realloc_def)
  then show ?thesis by (auto simp: string_holds_def)
qed

lemma fill_string_spec:
  assumes f: "f \<in> forms" and g: "g \<in> forms"
    and t: "text_of f bs cs" "\<forall>c \<in> set cs. in_form g c"
    and s: "string_ok s" and A: "\<forall>n. can_alloc A n" and m: "load_bytes m p (length bs) = Some bs"
    and len: "int (length bs) \<le> ASN1_STRING_MAX"
  shows "\<exists>s'. fill_string A (Some (m, p)) (int (length bs)) f ty g k s = Some (Inr s') \<and> st_type s' = ty \<and>
    string_holds s' (concat (map (enc g) cs))"
proof (cases "f = g")
  case True
  obtain s' where s': "ASN1_STRING_set A s (Some (m, p)) (int (length bs)) = Some (True, s')" "string_holds s' bs"
    using set_string [OF s A m len] by blast
  then have "fill_string A (Some (m, p)) (int (length bs)) f ty g k s = Some (Inr (s'\<lparr>st_type := ty\<rparr>))"
    using True by (simp add: fill_string_def)
  then show ?thesis using s'(2) True t(1) by (simp add: text_of_def string_holds_def)
next
  case False
  let ?out = "concat (map (enc g) cs)"
  have "length ?out \<le> 4 * length cs"
    by (induction cs) (simp_all, meson add_mono_thms_linordered_semiring(1) length_enc)
  also have "\<dots> \<le> 4 * length bs" using text_of_length [OF t(1)] by simp
  finally have l: "length (?out @ [0]) \<le> 0x7FFFFFFF" using len by (simp add: ASN1_STRING_MAX_def)
  have c: "cbs_holds m (CBS_init p (word_of_int (int (length bs)))) bs"
    using m len by (simp add: cbs_holds_def CBS_init_def ASN1_STRING_MAX_def unat_of_nat take_bit_nat_eq_self_iff)
  obtain S where S: "CBB_init A (k + 1) = (True, S)" using A by (simp add: CBB_init_def)
  then have r: "reps S ([], [])" using init_reps by blast
  have add: "outcome A S1 F1 0 (put 0 [0]) 1 (CBB_add_u8 A 0 0 S1)" if "reps S1 F1" "depth F1 = 0" for S1 F1
    by (rule u8_out.step) (use that in simp_all)
  have "outcome A S ([], []) 0 (\<lambda>F. Option.bind (put 0 ?out F) (put 0 [0])) (length ?out + 1)
      (and_then (recode_loop A m f g (CBS_init p (word_of_int (int (length bs)))) S) (CBB_add_u8 A 0 0))"
    by (rule outcome_seq [OF recode_outcome [OF f g c t r] add]) (simp_all add: depth_def)
  then have "outcome A S ([], []) 0 (put 0 (?out @ [0])) (length (?out @ [0]))
      (and_then (recode_loop A m f g (CBS_init p (word_of_int (int (length bs)))) S) (CBB_add_u8 A 0 0))"
    by (rule outcome_cong) (simp_all add: put_put)
  from finish_put [OF S A _ this] l obtain S' S'' where
    "and_then (recode_loop A m f g (CBS_init p (word_of_int (int (length bs)))) S) (CBB_add_u8 A 0 0) = Some (True, S')"
    "CBB_finish A True 0 S' = Some (Some (?out @ [0]), S'')" by force
  then have "fill_string A (Some (m, p)) (int (length bs)) f ty g k s =
      Some (Inr (ASN1_STRING_set0 (s\<lparr>st_type := ty\<rparr>) (Some (?out @ [0])) (int (length (?out @ [0])) - 1)))"
    using False S l by (simp add: fill_string_def source_mem_def source_addr_def)
  then show ?thesis by (simp add: ASN1_STRING_set0_def string_holds_def)
qed

section \<open>The conversion\<close>

definition acceptable :: "int \<Rightarrow> int \<Rightarrow> int \<Rightarrow> nat list \<Rightarrow> bool" where
  "acceptable f minsize maxsize cs \<longleftrightarrow>
     (f = MBSTRING_BMP \<or> f = MBSTRING_UNIV \<longrightarrow> take 1 cs \<noteq> [0xFEFF]) \<and>
     (0 < minsize \<longrightarrow> nat minsize \<le> length cs) \<and> (0 < maxsize \<longrightarrow> length cs \<le> nat maxsize)"

lemma scan_acceptable:
  assumes "\<forall>c \<in> set cs. c < 2 ^ 32" "output_type msk cs \<noteq> None"
  shows "scan_ok f maxsize 0 msk cs \<and> (0 < minsize \<longrightarrow> nat minsize \<le> length cs) \<longleftrightarrow> acceptable f minsize maxsize cs"
  using output_type_restrict_0 [OF assms(1), of msk] assms(2) by (auto simp: scan_ok_def acceptable_def)

text \<open>What follows the first loop, for the text it has found.\<close>

lemma min_chars:
  assumes "minsize < 2 ^ 63" "unat (n :: u64) = length cs"
  shows "0 < minsize \<and> n < word_of_int minsize \<longleftrightarrow> \<not> (0 < minsize \<longrightarrow> nat minsize \<le> length cs)"
  using assms by (cases "0 < minsize") (auto simp: word_less_nat_alt unat_of_int)

lemma decode_error_forms: "f \<in> forms \<Longrightarrow> decode_error f \<noteq> None"
  by (auto simp: forms_def decode_error_def)

lemmas ncopy_simps = ASN1_mbstring_ncopy_def source_mem_def source_addr_def

lemma ncopy_success:
  assumes f: "f \<in> forms" and A: "\<forall>n. can_alloc A n" and m: "load_bytes m p (length bs) = Some bs"
    and len: "int (length bs) \<le> ASN1_STRING_MAX" and "msk \<noteq> 0" and old: "old \<noteq> None \<longrightarrow> string_ok (the old)"
    and scan: "scan_loop m f maxsize (CBS_init p (word_of_int (int (length bs)))) msk 0 0 = Some (Inr (restrict_all msk cs, n, u))"
    and cs: "text_of f bs cs" "unat n = length cs" "minsize < 2 ^ 63" "0 < minsize \<longrightarrow> nat minsize \<le> length cs"
    and ty: "output_type msk cs = Some ty"
  shows "\<exists>s. ASN1_mbstring_ncopy A (Some old) (Some (m, p)) (int (length bs)) f msk minsize maxsize = Some (Inr (ty, Some s)) \<and>
    st_type s = ty \<and> string_holds s (concat (map (enc (string_type_to_encoding ty)) cs))"
proof -
  let ?g = "string_type_to_encoding ty"
  obtain k where k: "choose_output (restrict_all msk cs) n u = Some (ty, ?g, k)"
    using choose_output_spec [OF text_of_less [OF cs(1)], of msk n u] ty by (cases "choose_output (restrict_all msk cs) n u") auto
  obtain s where s: "(case old of Some s \<Rightarrow> Some s | None \<Rightarrow> ASN1_STRING_type_new A ty) = Some s" "string_ok s"
    using old A by (cases old) (auto simp: ASN1_STRING_type_new_def string_ok_def)
  have g: "?g \<in> forms" "\<forall>c \<in> set cs. in_form ?g c"
    using encoding_form [OF ty] output_form [OF ty] cs(1) by (auto simp: text_of_def)
  obtain s' where s': "fill_string A (Some (m, p)) (int (length bs)) f ty ?g k s = Some (Inr s')"
    "st_type s' = ty" "string_holds s' (concat (map (enc ?g) cs))"
    using fill_string_spec [OF f g(1) cs(1) g(2) s(2) A m len] by blast
  have "\<not> (0 < minsize \<and> n < word_of_int minsize)" using min_chars [OF cs(3,2)] cs(4) by blast
  then have "ASN1_mbstring_ncopy A (Some old) (Some (m, p)) (int (length bs)) f msk minsize maxsize = Some (Inr (ty, Some s'))"
    using decode_error_forms [OF f] assms(5) scan k s(1) s'(1) by (simp add: ncopy_simps)
  then show ?thesis using s' by blast
qed

lemma ncopy_failure:
  assumes f: "f \<in> forms" and "msk \<noteq> 0"
    and scan: "scan_loop m f maxsize (CBS_init p (word_of_int (int (length bs)))) msk 0 0 = Some (Inr (restrict_all msk cs, n, u))"
    and cs: "\<forall>c \<in> set cs. c < 2 ^ 32" "unat n = length cs" "minsize < 2 ^ 63"
    and no: "output_type msk cs = None \<or> \<not> (0 < minsize \<longrightarrow> nat minsize \<le> length cs)"
  shows "\<exists>e. ASN1_mbstring_ncopy A (Some old) (Some (m, p)) (int (length bs)) f msk minsize maxsize = Some (Inl e)"
proof (cases "0 < minsize \<and> n < word_of_int minsize")
  case True
  then show ?thesis using decode_error_forms [OF f] assms(2) scan by (simp add: ncopy_simps)
next
  case False
  then have "output_type msk cs = None" using no min_chars [OF cs(3,2)] by blast
  then have "choose_output (restrict_all msk cs) n u = None" using choose_output_spec(1) [OF cs(1), of msk n u] by simp
  then show ?thesis using decode_error_forms [OF f] assms(2) scan by (simp add: ncopy_simps)
qed

text \<open>What a result of the conversion tells about the input.\<close>

definition converted :: "int \<Rightarrow> u8 list \<Rightarrow> u64 \<Rightarrow> int \<Rightarrow> int \<Rightarrow> mb_error + int \<times> asn1_string option \<Rightarrow> bool" where
  "converted f bs msk minsize maxsize r \<longleftrightarrow>
     (case r of
        Inl e \<Rightarrow> \<nexists>cs. text_of f bs cs \<and> acceptable f minsize maxsize cs \<and> output_type msk cs \<noteq> None
      | Inr (ty, s) \<Rightarrow> \<exists>cs s'. text_of f bs cs \<and> acceptable f minsize maxsize cs \<and> output_type msk cs = Some ty \<and>
          s = Some s' \<and> st_type s' = ty \<and> string_holds s' (concat (map (enc (string_type_to_encoding ty)) cs)))"

lemma ncopy_converts:
  assumes f: "f \<in> forms" and A: "\<forall>n. can_alloc A n" and m: "load_bytes m p (length bs) = Some bs"
    and len: "int (length bs) \<le> ASN1_STRING_MAX" and msk: "msk \<noteq> 0" and old: "old \<noteq> None \<longrightarrow> string_ok (the old)"
    and limits: "minsize < 2 ^ 63" "maxsize < 2 ^ 63"
  shows "\<exists>r. ASN1_mbstring_ncopy A (Some old) (Some (m, p)) (int (length bs)) f msk minsize maxsize = Some r \<and>
    converted f bs msk minsize maxsize r"
proof -
  let ?c = "CBS_init p (word_of_int (int (length bs)))"
  have c: "cbs_holds m ?c bs"
    using m len by (simp add: cbs_holds_def CBS_init_def ASN1_STRING_MAX_def unat_of_nat take_bit_nat_eq_self_iff)
  obtain r where r: "scan_loop m f maxsize ?c msk 0 0 = Some r" "scanned f maxsize 0 msk bs r"
    using scan_loop_spec [OF f limits(2) c _ msk, of 0 0] len by (auto simp: ASN1_STRING_MAX_def)
  show ?thesis
  proof (cases r)
    case (Inl e)
    then have "ASN1_mbstring_ncopy A (Some old) (Some (m, p)) (int (length bs)) f msk minsize maxsize = Some (Inl e)"
      using decode_error_forms [OF f] msk r(1) by (auto simp: ncopy_simps)
    then show ?thesis using r(2) Inl scan_acceptable [OF text_of_less] by (fastforce simp: scanned_def converted_def)
  next
    case (Inr t)
    then obtain n u cs where cs: "r = Inr (restrict_all msk cs, n, u)" "text_of f bs cs" "scan_ok f maxsize 0 msk cs" "n = of_nat (length cs)"
      using r(2) by (cases t) (auto simp: scanned_def)
    have n: "unat n = length cs"
      using text_of_length [OF cs(2)] len by (simp add: cs(4) ASN1_STRING_MAX_def unat_of_nat take_bit_nat_eq_self_iff)
    note acc = scan_acceptable [OF text_of_less [OF cs(2)], of msk f maxsize minsize]
    show ?thesis
    proof (cases "output_type msk cs = None \<or> \<not> (0 < minsize \<longrightarrow> nat minsize \<le> length cs)")
      case True
      from ncopy_failure [OF f msk r(1) [unfolded cs(1)] text_of_less [OF cs(2)] n limits(1) this]
      obtain e where "ASN1_mbstring_ncopy A (Some old) (Some (m, p)) (int (length bs)) f msk minsize maxsize = Some (Inl e)" by blast
      moreover have "\<not> (text_of f bs ds \<and> acceptable f minsize maxsize ds \<and> output_type msk ds \<noteq> None)" for ds
        using True acc text_of_unique [OF f _ cs(2), of ds] by (cases "ds = cs") (auto simp: acceptable_def)
      ultimately show ?thesis by (simp add: converted_def)
    next
      case False
      then obtain ty where "output_type msk cs = Some ty" by auto
      from ncopy_success [OF f A m len msk old r(1) [unfolded cs(1)] cs(2) n limits(1) _ this] False
      obtain s where "ASN1_mbstring_ncopy A (Some old) (Some (m, p)) (int (length bs)) f msk minsize maxsize = Some (Inr (ty, Some s))"
        "st_type s = ty" "string_holds s (concat (map (enc (string_type_to_encoding ty)) cs))" by blast
      then show ?thesis using False acc cs(2,3) \<open>output_type msk cs = Some ty\<close> by (auto simp: converted_def)
    qed
  qed
qed

text \<open>C25: \<open>ASN1_mbstring_ncopy\<close> on any input bytes: it succeeds exactly when the bytes are a text in the
  input form (UTF-8, Latin-1, UCS-2 or UTF-32) that does not start with a byte order mark (for the two
  byte-order dependent forms), whose number of characters is within the limits and which one of the
  permitted types can hold; it then stores the text, in the encoding of the first such type, with a zero
  byte behind it.\<close>

theorem ASN1_mbstring_ncopy_exact:
  assumes f: "f \<in> forms" and A: "\<forall>n. can_alloc A n" and m: "load_bytes m p (length bs) = Some bs"
    and len: "int (length bs) \<le> ASN1_STRING_MAX" and msk: "msk \<noteq> 0" and old: "old \<noteq> None \<longrightarrow> string_ok (the old)"
    and limits: "minsize < 2 ^ 63" "maxsize < 2 ^ 63"
  shows "case ASN1_mbstring_ncopy A (Some old) (Some (m, p)) (int (length bs)) f msk minsize maxsize of
      None \<Rightarrow> False
    | Some (Inl e) \<Rightarrow> \<nexists>cs. text_of f bs cs \<and> acceptable f minsize maxsize cs \<and> output_type msk cs \<noteq> None
    | Some (Inr (ty, s)) \<Rightarrow> \<exists>cs s'. text_of f bs cs \<and> acceptable f minsize maxsize cs \<and> output_type msk cs = Some ty \<and>
        s = Some s' \<and> st_type s' = ty \<and> string_holds s' (concat (map (enc (string_type_to_encoding ty)) cs))"
  using ncopy_converts [OF assms] unfolding converted_def by (elim exE conjE) simp

theorem ASN1_mbstring_ncopy_exact_witness:
  "\<exists>s. ASN1_mbstring_ncopy sample_alloc (Some None) (Some (put_bytes Map.empty 8 [0xC3, 0xA9], 8)) 2 MBSTRING_UTF8 DIRSTRING_TYPE 1 64 =
     Some (Inr (V_ASN1_T61STRING, Some s)) \<and> string_holds s [0xE9]"
proof -
  let ?r = "ASN1_mbstring_ncopy sample_alloc (Some None) (Some (put_bytes Map.empty 8 [0xC3, 0xA9], 8)) 2 MBSTRING_UTF8 DIRSTRING_TYPE 1 64"
  have run: "map_option (map_sum id fst) ?r = Some (Inr V_ASN1_T61STRING)" by code_simp
  have f: "MBSTRING_UTF8 \<in> forms" by (simp add: forms_def)
  have m: "load_bytes (put_bytes Map.empty 8 [0xC3, 0xA9]) 8 (length [0xC3, 0xA9 :: u8]) = Some [0xC3, 0xA9]" by code_simp
  have "text_of MBSTRING_UTF8 [0xC3, 0xA9] [0xE9]" by (simp add: text_of_def in_form_def enc_def open_scalar_def utf8_def mb_defs)
  then have only: "text_of MBSTRING_UTF8 [0xC3, 0xA9] cs \<Longrightarrow> cs = [0xE9]" for cs using text_of_unique [OF f] by blast
  have "\<forall>n. can_alloc sample_alloc n" "DIRSTRING_TYPE \<noteq> 0" by (simp add: sample_alloc_def, code_simp)
  from ASN1_mbstring_ncopy_exact [OF f this(1) m _ this(2), of None 1 64]
  have "case ?r of None \<Rightarrow> False | Some (Inl e) \<Rightarrow> True
    | Some (Inr (ty, s)) \<Rightarrow> \<exists>cs s'. text_of MBSTRING_UTF8 [0xC3, 0xA9] cs \<and> s = Some s' \<and>
        string_holds s' (concat (map (enc (string_type_to_encoding ty)) cs))"
    by (auto simp: ASN1_STRING_MAX_def split: option.splits sum.splits)
  moreover obtain x where x: "?r = Some x" "map_sum id fst x = Inr V_ASN1_T61STRING" using run by auto
  then obtain s where "?r = Some (Inr (V_ASN1_T61STRING, s))" by (cases x) auto
  ultimately have "\<exists>s'. s = Some s' \<and> string_holds s' (concat (map (enc (string_type_to_encoding V_ASN1_T61STRING)) [0xE9]))"
    using only by fastforce
  moreover have "string_type_to_encoding V_ASN1_T61STRING = MBSTRING_ASC" by code_simp
  ultimately show ?thesis using \<open>?r = Some (Inr (V_ASN1_T61STRING, s))\<close> by (auto simp: enc_def)
qed

text \<open>A leading byte order mark, in UTF-8.\<close>

lemma leading_bom:
  assumes t: "text_of MBSTRING_UTF8 bs cs"
  shows "take 3 bs = [0xEF, 0xBB, 0xBF] \<longleftrightarrow> take 1 cs = [0xFEFF]"
proof -
  have f: "MBSTRING_UTF8 \<in> forms" by (simp add: forms_def)
  have u: "utf8 0xFEFF = [0xEF, 0xBB, 0xBF]" by (simp add: utf8_def)
  show ?thesis
  proof
    assume b: "take 3 bs = [0xEF, 0xBB, 0xBF]"
    then have "bs = enc MBSTRING_UTF8 (unat (0xFEFF :: u32)) @ drop 3 bs" "bs \<noteq> []"
      using append_take_drop_id [of 3 bs] u by (auto simp: enc_def mb_defs)
    moreover have "in_form MBSTRING_UTF8 (unat (0xFEFF :: u32))" by (simp add: in_form_def mb_defs open_scalar_def)
    ultimately have "char_parse MBSTRING_UTF8 bs = Some (0xFEFF, drop 3 bs)" unfolding char_parse_iff [OF f] by blast
    then show "take 1 cs = [0xFEFF]" using t text_of_parse [OF f \<open>bs \<noteq> []\<close>, of cs] by auto
  next
    assume "take 1 cs = [0xFEFF]"
    then obtain cs' where "cs = 0xFEFF # cs'" by (cases cs) auto
    then show "take 3 bs = [0xEF, 0xBB, 0xBF]" using t u by (auto simp: text_of_def enc_def mb_defs)
  qed
qed

lemma enc_utf8: "enc MBSTRING_UTF8 = utf8"
  by (rule ext) (simp add: enc_def mb_defs)

lemma utf8_type: "output_type B_ASN1_UTF8STRING cs = Some V_ASN1_UTF8STRING"
proof -
  have "bit B_ASN1_UTF8STRING k \<longleftrightarrow> k = 13" for k by (auto simp: mask_bits bit_simps simp del: push_bit_of_1)
  then show ?thesis by (simp add: output_type_def output_types_def holds_char_def)
qed

text \<open>The conversion of a string to UTF-8.\<close>

lemma to_utf8:
  assumes A: "\<forall>n. can_alloc A n" and s: "string_holds s (concat (map (enc g) cs))"
    and g: "string_type_to_encoding (st_type s) = g" "g \<in> forms" "\<forall>c \<in> set cs. in_form g c"
    and len: "int (length (concat (map (enc g) cs))) \<le> ASN1_STRING_MAX"
  shows "if (g = MBSTRING_BMP \<or> g = MBSTRING_UNIV) \<and> take 1 cs = [0xFEFF]
    then \<exists>e. ASN1_STRING_to_UTF8 A (Some s) = Some (Inl e)
    else \<exists>rest. ASN1_STRING_to_UTF8 A (Some s) =
      Some (Inr (Some (concat (map utf8 cs) @ 0 # rest), int (length (concat (map utf8 cs)))))"
proof -
  let ?bs = "concat (map (enc g) cs)" and ?stmp = "\<lparr>st_length = 0, st_type = 0, st_data = None, st_flags = 0\<rparr>"
  have t: "text_of g ?bs cs" using g(3) by (simp add: text_of_def)
  obtain m p where mp: "block_source (st_data s) = Some (m, p)" "load_bytes m p (length ?bs) = Some ?bs"
    using string_holds_source [OF s] by blast
  have st: "Some ?stmp \<noteq> None \<longrightarrow> string_ok (the (Some ?stmp))" by (simp add: string_ok_def)
  have "B_ASN1_UTF8STRING \<noteq> 0" by (simp add: B_ASN1_UTF8STRING_def)
  then obtain r where r: "ASN1_mbstring_ncopy A (Some (Some ?stmp)) (Some (m, p)) (int (length ?bs)) g B_ASN1_UTF8STRING 0 0 = Some r"
    "converted g ?bs B_ASN1_UTF8STRING 0 0 r"
    using ncopy_converts [OF g(2) A mp(2) len _ st, of B_ASN1_UTF8STRING 0 0] by auto
  have "g \<noteq> - 1" using g(2) by (auto simp: forms_def mb_defs)
  then have run: "ASN1_STRING_to_UTF8 A (Some s) =
      (case r of Inl e \<Rightarrow> Some (Inl e) | Inr (_, None) \<Rightarrow> None | Inr (_, Some str) \<Rightarrow> Some (Inr (st_data str, st_length str)))"
    using mp(1) s r(1) g(1) by (simp add: ASN1_STRING_to_UTF8_def ASN1_mbstring_copy_def string_holds_def Let_def split: sum.splits option.splits)
  have acc: "acceptable g 0 0 cs \<longleftrightarrow> \<not> ((g = MBSTRING_BMP \<or> g = MBSTRING_UNIV) \<and> take 1 cs = [0xFEFF])"
    by (auto simp: acceptable_def)
  have enc: "string_type_to_encoding V_ASN1_UTF8STRING = MBSTRING_UTF8" by code_simp
  show ?thesis
  proof (cases r)
    case (Inl e)
    then have "\<not> acceptable g 0 0 cs" using r(2) t by (auto simp: converted_def utf8_type)
    then show ?thesis using Inl acc unfolding run by auto
  next
    case (Inr q)
    obtain cs' s' where q: "q = (V_ASN1_UTF8STRING, Some s')" "text_of g ?bs cs'" "acceptable g 0 0 cs'"
      "string_holds s' (concat (map (enc MBSTRING_UTF8) cs'))"
      using r(2) Inr by (cases q) (auto simp: converted_def utf8_type enc)
    moreover have "cs' = cs" by (rule text_of_unique [OF g(2) q(2) t])
    ultimately have "acceptable g 0 0 cs" "string_holds s' (concat (map utf8 cs))" by (simp_all only: enc_utf8)
    then show ?thesis using acc unfolding run Inr q(1) by (auto simp: string_holds_def)
  qed
qed

text \<open>C26: A UTF-8 text that \<open>ASN1_mbstring_copy\<close> stores under any permitted type comes back byte for byte
  from \<open>ASN1_STRING_to_UTF8\<close>, with one exception: a text that starts with U+FEFF and is stored as
  BMPString or UniversalString is refused on the way back.\<close>

theorem utf8_survives_conversion:
  assumes A: "\<forall>n. can_alloc A n" and m: "load_bytes m p (length bs) = Some bs" and len: "length bs \<le> 2 ^ 24"
    and msk: "msk \<noteq> 0" and old: "old \<noteq> None \<longrightarrow> string_ok (the old)"
    and stored: "ASN1_mbstring_copy A (Some old) (Some (m, p)) (int (length bs)) MBSTRING_UTF8 msk = Some (Inr (ty, Some s))"
  shows "if (ty = V_ASN1_BMPSTRING \<or> ty = V_ASN1_UNIVERSALSTRING) \<and> take 3 bs = [0xEF, 0xBB, 0xBF]
    then \<exists>e. ASN1_STRING_to_UTF8 A (Some s) = Some (Inl e)
    else \<exists>rest. ASN1_STRING_to_UTF8 A (Some s) = Some (Inr (Some (bs @ 0 # rest), int (length bs)))"
proof -
  have f: "MBSTRING_UTF8 \<in> forms" by (simp add: forms_def)
  have max: "int (length bs) \<le> ASN1_STRING_MAX" using len by (simp add: ASN1_STRING_MAX_def)
  from ncopy_converts [OF f A m max msk old, of 0 0] stored obtain cs where
    cs: "text_of MBSTRING_UTF8 bs cs" "output_type msk cs = Some ty" "st_type s = ty"
      "string_holds s (concat (map (enc (string_type_to_encoding ty)) cs))"
    by (auto simp: converted_def ASN1_mbstring_copy_def)
  let ?g = "string_type_to_encoding ty"
  have g: "?g \<in> forms" "\<forall>c \<in> set cs. in_form ?g c"
    using encoding_form [OF cs(2)] output_form [OF cs(2)] cs(1) by (auto simp: text_of_def)
  have "length (concat (map (enc ?g) cs)) \<le> 4 * length cs"
    by (induction cs) (simp_all, meson add_mono_thms_linordered_semiring(1) length_enc)
  then have l: "int (length (concat (map (enc ?g) cs))) \<le> ASN1_STRING_MAX"
    using text_of_length [OF cs(1)] len by (simp add: ASN1_STRING_MAX_def)
  have bs: "concat (map utf8 cs) = bs" using cs(1) by (simp add: text_of_def enc_utf8)
  have "(?g = MBSTRING_BMP \<or> ?g = MBSTRING_UNIV) \<longleftrightarrow> (ty = V_ASN1_BMPSTRING \<or> ty = V_ASN1_UNIVERSALSTRING)"
    by (auto simp: string_type_to_encoding_def type_defs mb_defs)
  then show ?thesis
    using to_utf8 [OF A cs(4) _ g l] cs(3) unfolding bs leading_bom [OF cs(1)] by simp
qed

theorem utf8_survives_conversion_witness:
  "(\<exists>s rest. ASN1_mbstring_copy sample_alloc (Some None) (Some (put_bytes Map.empty 8 [0xC3, 0xA9], 8)) 2 MBSTRING_UTF8 B_ASN1_BMPSTRING =
      Some (Inr (V_ASN1_BMPSTRING, Some s)) \<and>
    ASN1_STRING_to_UTF8 sample_alloc (Some s) = Some (Inr (Some (0xC3 # 0xA9 # 0 # rest), 2))) \<and>
  (\<exists>s e. ASN1_mbstring_copy sample_alloc (Some None) (Some (put_bytes Map.empty 8 [0xEF, 0xBB, 0xBF], 8)) 3 MBSTRING_UTF8 B_ASN1_BMPSTRING =
      Some (Inr (V_ASN1_BMPSTRING, Some s)) \<and> ASN1_STRING_to_UTF8 sample_alloc (Some s) = Some (Inl e))"
proof (intro conjI)
  have A: "\<forall>n. can_alloc sample_alloc n" "B_ASN1_BMPSTRING \<noteq> 0" by (simp add: sample_alloc_def, code_simp)
  have get: "\<exists>s. r = Some (Inr (ty, Some s))" if "map_option (map_sum id (\<lambda>(ty, s). (ty, s \<noteq> None))) r = Some (Inr (ty, True))"
    for r :: "(mb_error + int \<times> asn1_string option) option" and ty
    using that by (cases r; cases "the r") auto
  let ?r = "\<lambda>bs. ASN1_mbstring_copy sample_alloc (Some None) (Some (put_bytes Map.empty 8 bs, 8)) (int (length bs)) MBSTRING_UTF8 B_ASN1_BMPSTRING"
  have m: "load_bytes (put_bytes Map.empty 8 [0xC3, 0xA9]) 8 (length [0xC3, 0xA9 :: u8]) = Some [0xC3, 0xA9]"
    "load_bytes (put_bytes Map.empty 8 [0xEF, 0xBB, 0xBF]) 8 (length [0xEF, 0xBB, 0xBF :: u8]) = Some [0xEF, 0xBB, 0xBF]" by code_simp+
  have "map_option (map_sum id (\<lambda>(ty, s). (ty, s \<noteq> None))) (?r [0xC3, 0xA9]) = Some (Inr (V_ASN1_BMPSTRING, True))" by code_simp
  then obtain s where s: "?r [0xC3, 0xA9] = Some (Inr (V_ASN1_BMPSTRING, Some s))" using get by blast
  from utf8_survives_conversion [OF A(1) m(1) _ A(2) _ this]
  show "\<exists>s rest. ASN1_mbstring_copy sample_alloc (Some None) (Some (put_bytes Map.empty 8 [0xC3, 0xA9], 8)) 2 MBSTRING_UTF8 B_ASN1_BMPSTRING =
      Some (Inr (V_ASN1_BMPSTRING, Some s)) \<and>
    ASN1_STRING_to_UTF8 sample_alloc (Some s) = Some (Inr (Some (0xC3 # 0xA9 # 0 # rest), 2))" using s by simp
  have "map_option (map_sum id (\<lambda>(ty, s). (ty, s \<noteq> None))) (?r [0xEF, 0xBB, 0xBF]) = Some (Inr (V_ASN1_BMPSTRING, True))" by code_simp
  then obtain t where t: "?r [0xEF, 0xBB, 0xBF] = Some (Inr (V_ASN1_BMPSTRING, Some t))" using get by blast
  from utf8_survives_conversion [OF A(1) m(2) _ A(2) _ this]
  show "\<exists>s e. ASN1_mbstring_copy sample_alloc (Some None) (Some (put_bytes Map.empty 8 [0xEF, 0xBB, 0xBF], 8)) 3 MBSTRING_UTF8 B_ASN1_BMPSTRING =
      Some (Inr (V_ASN1_BMPSTRING, Some s)) \<and> ASN1_STRING_to_UTF8 sample_alloc (Some s) = Some (Inl e)" using t by simp
qed

end
