(* ===== verification/Boring_OID_Theorems.thy ===== *)
theory Boring_OID_Theorems
  imports Boring_Unicode_Correct
begin

text \<open>
  \<open>CBS_asn1_oid_to_text\<close> is the inverse of \<open>CBB_add_asn1_oid_from_text\<close>: it accepts exactly the encodings
  that function produces and prints the numbers they stand for.
\<close>

section \<open>Decimal numbers\<close>

lemma print_u64_dec: "print_u64 v = dec (unat v)"
proof (induction v rule: print_u64.induct)
  case (1 v)
  have digit: "48 + ucast w = (of_nat (48 + unat w) :: u8)" for w :: u64
    by (simp only: ucast_of_unat of_nat_add) simp
  have m: "unat (v div 10) = unat v div 10" "unat (v mod 10) = unat v mod 10" by (simp_all add: unat_div unat_mod)
  show ?case
  proof (cases "v < 10")
    case True
    then show ?thesis by (subst print_u64.simps, subst dec.simps) (simp only: digit, simp add: word_less_nat_alt)
  next
    case False
    then have "print_u64 v = dec (unat v div 10) @ [of_nat (48 + unat v mod 10)]"
      using 1 m by (subst print_u64.simps) (simp only: digit, simp)
    moreover have "\<not> unat v < 10" using False by (simp add: word_less_nat_alt)
    ultimately show ?thesis using dec.simps [of "unat v"] by simp
  qed
qed

lemma length_dec: "n < 10 ^ k \<Longrightarrow> 0 < k \<Longrightarrow> length (dec n) \<le> k"
proof (induction k arbitrary: n)
  case (Suc k)
  show ?case
  proof (cases "n < 10")
    case False
    then have "0 < k" "n div 10 < 10 ^ k" using Suc.prems by (cases k; simp add: less_mult_imp_div_less mult.commute)+
    then show ?thesis using False Suc.IH [of "n div 10"] by (subst dec.simps) simp
  qed (subst dec.simps, simp)
qed simp

lemma length_dec_u64: "n < 2 ^ 64 \<Longrightarrow> length (dec n) \<le> 20"
  using length_dec [of n 20] by simp

lemma builder_decimal: "builder_op (\<lambda>A. add_decimal A v d) d d (put d (dec (unat v))) (length (dec (unat v)))"
  using length_dec_u64 [OF unat_u64_lt [of v]] builder_add_bytes [of "dec (unat v)" d]
  by (simp add: add_decimal_def [abs_def] print_u64_dec)

section \<open>The loop\<close>

definition tail_text :: "nat list \<Rightarrow> u8 list" where
  "tail_text ns = concat (map (\<lambda>n. 0x2E # dec n) ns)"

lemma tail_text_Cons: "tail_text (n # ns) = 0x2E # dec n @ tail_text ns"
  by (simp add: tail_text_def)

lemma dotted_tail: "dotted (n # ns) = dec n @ tail_text ns"
proof (induction ns arbitrary: n)
  case (Cons k ns)
  then show ?case by (simp add: tail_text_def)
qed (simp add: tail_text_def)

lemma dot_number_outcome:
  assumes "reps S F" "depth F = 0"
  shows "outcome A S F 0 (put 0 (0x2E # dec (unat v))) (Suc (length (dec (unat v))))
    (and_then (CBB_add_u8 A 0x2E 0 S) (add_decimal A v 0))"
proof -
  have "builder_op (\<lambda>A S. and_then (CBB_add_u8 A 0x2E 0 S) (add_decimal A v 0)) 0 0 (put 0 ([0x2E] @ dec (unat v)))
      (1 + length (dec (unat v)))"
    by (rule builder_put_then [OF u8_out.builder_op_axioms builder_decimal])
  from builder_op.step [OF this assms(1), of A] show ?thesis by simp
qed

lemma and_then_assoc: "and_then (and_then r k) l = and_then r (\<lambda>s. and_then (k s) l)"
  by (simp add: and_then_def split: option.splits prod.splits)

lemma to_text_loop_step:
  assumes "cbs_holds m c bs" "b128_parse 0 bs = Some (n, rest)"
  obtains v c' where "unat v = n" "cbs_holds m c' rest"
    "\<And>A S. to_text_loop A m c S = and_then (and_then (CBB_add_u8 A 0x2E 0 S) (add_decimal A v 0)) (to_text_loop A m c')"
proof -
  obtain v c' where v: "parse_base128_integer m c = Some (Some v, c')" "unat v = n" "cbs_holds m c' rest"
    using base128.success [OF assms] by metis
  have "bs \<noteq> []" using assms(2) by auto
  then have "cbs_len c \<noteq> 0" using cbs_holds_length [OF assms(1)] by auto
  then have "to_text_loop A m c S = and_then (and_then (CBB_add_u8 A 0x2E 0 S) (add_decimal A v 0)) (to_text_loop A m c')" for A S
    using v(1) by (subst to_text_loop.simps) (simp add: and_then_assoc)
  with v(2,3) that show thesis by blast
qed

lemma to_text_loop_outcome:
  "cbs_holds m c (arcs ns) \<Longrightarrow> small ns \<Longrightarrow> reps S F \<Longrightarrow> depth F = 0 \<Longrightarrow>
     outcome A S F 0 (put 0 (tail_text ns)) (length (tail_text ns)) (to_text_loop A m c S)"
proof (induction ns arbitrary: c S F)
  case Nil
  then have "cbs_len c = 0" using cbs_holds_length [OF Nil.prems(1)] by (simp add: unat_eq_0)
  then show ?case using outcome_skip [OF Nil.prems(3,4)] by (subst to_text_loop.simps) (simp add: tail_text_def)
next
  case (Cons n ns)
  have "b128_parse 0 (arcs (n # ns)) = Some (n, arcs ns)" using Cons.prems(2) by (simp add: b128_parse_iff)
  then obtain v c' where v: "unat v = n" "cbs_holds m c' (arcs ns)"
    "to_text_loop A m c S = and_then (and_then (CBB_add_u8 A 0x2E 0 S) (add_decimal A v 0)) (to_text_loop A m c')"
    using to_text_loop_step [OF Cons.prems(1)] by metis
  have "outcome A S F 0 (\<lambda>F. Option.bind (put 0 (0x2E # dec (unat v)) F) (put 0 (tail_text ns)))
      (Suc (length (dec (unat v))) + length (tail_text ns)) (to_text_loop A m c S)"
    unfolding v(3) using dot_number_outcome [OF Cons.prems(3,4)]
    by (rule outcome_seq) (use Cons.IH [OF v(2)] Cons.prems(2) in auto)
  then show ?case by (rule outcome_cong) (simp_all add: put_put tail_text_def v(1))
qed

lemma to_text_loop_refuses:
  "cbs_holds m c bs \<Longrightarrow> \<nexists>ns. small ns \<and> bs = arcs ns \<Longrightarrow> reps S F \<Longrightarrow> depth F = 0 \<Longrightarrow>
     \<exists>S'. to_text_loop A m c S = Some (False, S')"
proof (induction "length bs" arbitrary: bs c S F rule: less_induct)
  case less
  have "bs \<noteq> []"
  proof
    assume "bs = []"
    then have "small [] \<and> bs = arcs []" by simp
    then show False using less.prems(2) by blast
  qed
  then have ne: "cbs_len c \<noteq> 0" using cbs_holds_length [OF less.prems(1)] by auto
  show ?case
  proof (cases "b128_parse 0 bs")
    case None
    then obtain c' where "parse_base128_integer m c = Some (None, c')" by (rule base128.failure [OF less.prems(1)])
    then show ?thesis using ne by (subst to_text_loop.simps) simp
  next
    case (Some p)
    then obtain n rest where n: "b128_parse 0 bs = Some (n, rest)" by (cases p) auto
    then have bs: "n < 2 ^ 64" "bs = b128 n @ rest" by (simp_all add: b128_parse_iff)
    obtain v c' where v: "cbs_holds m c' rest"
      "to_text_loop A m c S = and_then (and_then (CBB_add_u8 A 0x2E 0 S) (add_decimal A v 0)) (to_text_loop A m c')"
      using to_text_loop_step [OF less.prems(1) n] by metis
    have "\<nexists>ns. small ns \<and> rest = arcs ns"
    proof
      assume "\<exists>ns. small ns \<and> rest = arcs ns"
      then obtain ns where "small ns" "rest = arcs ns" by blast
      then have "small (n # ns) \<and> bs = arcs (n # ns)" using bs by simp
      then show False using less.prems(2) by blast
    qed
    moreover have "length rest < length bs" using bs(2) b128_not_Nil [of n] by (cases "b128 n") simp_all
    ultimately have IH: "\<exists>S'. to_text_loop A m c' S1 = Some (False, S')" if "reps S1 F1" "depth F1 = 0" for S1 F1
      using less.hyps v(1) that by blast
    have "outcome A S F 0 (put 0 (0x2E # dec (unat v))) (Suc (length (dec (unat v))))
        (and_then (CBB_add_u8 A 0x2E 0 S) (add_decimal A v 0))"
      by (rule dot_number_outcome [OF less.prems(3,4)])
    then obtain ok S1 where s1: "and_then (CBB_add_u8 A 0x2E 0 S) (add_decimal A v 0) = Some (ok, S1)"
      "ok \<longrightarrow> (\<exists>F1. reps S1 F1 \<and> depth F1 = 0)" by (auto simp: outcome_def split: option.splits if_splits)
    then show ?thesis using IH unfolding v(2) by (cases ok) auto
  qed
qed

section \<open>The first two numbers\<close>

text \<open>The numbers the first arc stands for.\<close>

definition split_arc :: "nat \<Rightarrow> nat \<times> nat" where
  "split_arc v = (if 80 \<le> v then (2, v - 80) else (v div 40, v mod 40))"

lemma split_arc_iff:
  "v < 2 ^ 64 \<and> small ns \<and> (a, b) = split_arc v \<longleftrightarrow> oid_numbers a b ns \<and> v = 40 * a + b"
proof
  assume "v < 2 ^ 64 \<and> small ns \<and> (a, b) = split_arc v"
  moreover have "\<not> 80 \<le> v \<Longrightarrow> v div 40 < 2" by (simp add: less_mult_imp_div_less)
  ultimately show "oid_numbers a b ns \<and> v = 40 * a + b"
    by (cases "80 \<le> v") (auto simp: oid_numbers_def split_arc_def)
next
  assume h: "oid_numbers a b ns \<and> v = 40 * a + b"
  then have "a = 2 \<or> a < 2" by (auto simp: oid_numbers_def)
  then show "v < 2 ^ 64 \<and> small ns \<and> (a, b) = split_arc v"
  proof
    assume "a < 2"
    moreover from this have "a = 0 \<or> a = 1" by auto
    ultimately show ?thesis using h by (auto simp: oid_numbers_def split_arc_def)
  qed (use h in \<open>auto simp: oid_numbers_def split_arc_def\<close>)
qed

lemma first_outcome:
  assumes "reps S F" "depth F = 0" "split_arc (unat v) = (a, b)"
  shows "outcome A S F 0 (put 0 (dec a @ 0x2E # dec b)) (length (dec a @ 0x2E # dec b)) (to_text_first A v S)"
proof (cases "80 \<le> v")
  case True
  then have u: "80 \<le> unat v" "unat (v - 80) = unat v - 80" by (simp_all add: word_le_nat_alt unat_sub)
  then have ab: "a = 2" "b = unat (v - 80)" using assms(3) by (simp_all add: split_arc_def)
  have "dec 2 = [0x32]" by (subst dec.simps) simp
  have "builder_op (\<lambda>A S. and_then (CBB_add_bytes A [0x32, 0x2E] 0 S) (add_decimal A (v - 80) 0)) 0 0
      (put 0 ([0x32, 0x2E] @ dec b)) (length [0x32, 0x2E :: u8] + length (dec b))"
    unfolding ab(2) by (rule builder_put_then [OF builder_add_bytes builder_decimal]) simp
  from builder_op.step [OF this assms(1), of A] show ?thesis
    using True ab(1) \<open>dec 2 = [0x32]\<close> by (simp add: to_text_first_def)
next
  case False
  then have u: "\<not> 80 \<le> unat v" by (simp add: word_le_nat_alt)
  then have ab: "a = unat (v div 40)" "b = unat (v mod 40)" using assms(3) by (simp_all add: split_arc_def unat_div unat_mod)
  have "builder_op (\<lambda>A S. and_then (add_decimal A (v div 40) 0 S) (\<lambda>S. and_then (CBB_add_u8 A 0x2E 0 S) (add_decimal A (v mod 40) 0))) 0 0
      (put 0 (dec a @ [0x2E] @ dec b)) (length (dec a) + (1 + length (dec b)))"
    unfolding ab by (rule builder_put_then [OF builder_decimal builder_put_then [OF u8_out.builder_op_axioms builder_decimal]])
  from builder_op.step [OF this assms(1), of A] show ?thesis using False by (simp add: to_text_first_def)
qed

section \<open>The whole function\<close>

lemma length_dotted: "small ns \<Longrightarrow> length (dotted ns) \<le> 21 * length ns"
proof (induction ns rule: dotted.induct)
  case (3 n k ns)
  then show ?case using length_dec_u64 [of n] by simp
next
  case (2 n)
  then show ?case using length_dec_u64 [of n] by simp
qed simp

lemma length_arcs: "length ns \<le> length (arcs ns)"
proof (induction ns)
  case (Cons n ns)
  then show ?case using b128_not_Nil [of n] by (cases "b128 n") simp_all
qed simp

lemma to_text_succeeds:
  assumes h: "cbs_holds m c (oid_content a b ns)" and n: "oid_numbers a b ns" and A: "\<forall>n. can_alloc A n"
    and len: "length (oid_content a b ns) < 2 ^ 32"
  shows "CBS_asn1_oid_to_text A m c = Some (Some (dotted (a # b # ns) @ [0]))"
proof -
  let ?text = "dotted (a # b # ns)"
  have v: "40 * a + b < 2 ^ 64" "small ns" "split_arc (40 * a + b) = (a, b)" using split_arc_iff [of "40 * a + b" ns a b] n by auto
  have "b128_parse 0 (oid_content a b ns) = Some (40 * a + b, arcs ns)" using v(1) by (simp add: b128_parse_iff oid_content_def)
  then obtain w c' where w: "parse_base128_integer m c = Some (Some w, c')" "unat w = 40 * a + b" "cbs_holds m c' (arcs ns)"
    using base128.success [OF h] by metis
  obtain S where S: "CBB_init A 32 = (True, S)" using A by (simp add: CBB_init_def)
  have r: "reps S ([], [])" "depth ([], []) = 0" using init_reps [OF S] by (simp_all add: depth_def)
  let ?r = "and_then (to_text_first A w S) (\<lambda>S. and_then (to_text_loop A m c' S) (CBB_add_u8 A 0 0))"
  have zero: "outcome A S1 F1 0 (put 0 [0]) 1 (CBB_add_u8 A 0 0 S1)" if "reps S1 F1" "depth F1 = 0" for S1 F1
    by (rule u8_out.step) (use that in simp_all)
  have rest: "outcome A S1 F1 0 (\<lambda>F. Option.bind (put 0 (tail_text ns) F) (put 0 [0])) (length (tail_text ns) + 1)
      (and_then (to_text_loop A m c' S1) (CBB_add_u8 A 0 0))" if "reps S1 F1" "depth F1 = 0" for S1 F1
    by (rule outcome_seq [OF to_text_loop_outcome [OF w(3) v(2) that] zero])
  have "outcome A S ([], []) 0 (\<lambda>F. Option.bind (put 0 (dec a @ 0x2E # dec b) F) (\<lambda>F. Option.bind (put 0 (tail_text ns) F) (put 0 [0])))
      (length (dec a @ 0x2E # dec b) + (length (tail_text ns) + 1)) ?r"
    by (rule outcome_seq [OF first_outcome [OF r] rest]) (use w(2) v(3) in simp)
  then have "outcome A S ([], []) 0 (put 0 (?text @ [0])) (length (?text @ [0])) ?r"
    by (rule outcome_cong) (simp_all add: put_put dotted_tail tail_text_Cons del: dotted.simps)
  moreover have "length (?text @ [0]) < 2 ^ 64"
  proof -
    have "length ?text \<le> 21 * length (a # b # ns)" using n by (intro length_dotted) (auto simp: oid_numbers_def)
    moreover have "length ns < 2 ^ 32" using len length_arcs [of ns] by (simp add: oid_content_def)
    ultimately show ?thesis by simp
  qed
  ultimately obtain S' S'' where "?r = Some (True, S')" "CBB_finish A True 0 S' = Some (Some (?text @ [0]), S'')"
    using finish_put [OF S A] by blast
  then show ?thesis using S w(1) by (simp add: CBS_asn1_oid_to_text_def)
qed

lemma to_text_fails:
  assumes h: "cbs_holds m c bs" and no: "\<nexists>a b ns. oid_numbers a b ns \<and> bs = oid_content a b ns" and A: "\<forall>n. can_alloc A n"
  shows "CBS_asn1_oid_to_text A m c = Some None"
proof -
  obtain S where S: "CBB_init A 32 = (True, S)" using A by (simp add: CBB_init_def)
  have r: "reps S ([], [])" "depth ([], []) = 0" using init_reps [OF S] by (simp_all add: depth_def)
  show ?thesis
  proof (cases "b128_parse 0 bs")
    case None
    then obtain c' where "parse_base128_integer m c = Some (None, c')" by (rule base128.failure [OF h])
    then show ?thesis using S by (simp add: CBS_asn1_oid_to_text_def)
  next
    case (Some p)
    then obtain v rest where p: "b128_parse 0 bs = Some (v, rest)" by (cases p) auto
    then have bs: "v < 2 ^ 64" "bs = b128 v @ rest" by (simp_all add: b128_parse_iff)
    obtain w c' where w: "parse_base128_integer m c = Some (Some w, c')" "unat w = v" "cbs_holds m c' rest"
      using base128.success [OF h p] by metis
    obtain a b where ab: "split_arc v = (a, b)" by fastforce
    have "\<nexists>ns. small ns \<and> rest = arcs ns"
    proof
      assume "\<exists>ns. small ns \<and> rest = arcs ns"
      then obtain ns where "small ns" "rest = arcs ns" by blast
      then have "oid_numbers a b ns \<and> bs = oid_content a b ns"
        using split_arc_iff [of v ns a b] bs ab by (auto simp: oid_content_def)
      then show False using no by blast
    qed
    from to_text_loop_refuses [OF w(3) this] have loop: "\<exists>S'. to_text_loop A m c' S1 = Some (False, S')"
      if "reps S1 F1" "depth F1 = 0" for S1 F1 using that .
    have "outcome A S ([], []) 0 (put 0 (dec a @ 0x2E # dec b)) (length (dec a @ 0x2E # dec b)) (to_text_first A w S)"
      using first_outcome [OF r] w(2) ab by simp
    then obtain ok S1 where "to_text_first A w S = Some (ok, S1)" "ok \<longrightarrow> (\<exists>F1. reps S1 F1 \<and> depth F1 = 0)"
      by (auto simp: outcome_def split: option.splits if_splits)
    moreover from this obtain S2 where "ok \<longrightarrow> to_text_loop A m c' S1 = Some (False, S2)" using loop by blast
    ultimately show ?thesis using S w(1) by (cases ok) (auto simp: CBS_asn1_oid_to_text_def)
  qed
qed

text \<open>C27: \<open>CBS_asn1_oid_to_text\<close> returns on every window of mapped memory; it succeeds exactly on the
  encodings of OIDs whose numbers fit \<open>CBB_add_asn1_oid_from_text\<close>, and hands out their canonical dotted
  decimal text with a zero byte behind it, so that the two functions are inverse to each other.\<close>

theorem CBS_asn1_oid_to_text_exact:
  assumes "cbs_holds m c bs" "\<forall>n. can_alloc A n" "length bs < 2 ^ 32"
  shows "case CBS_asn1_oid_to_text A m c of
      None \<Rightarrow> False
    | Some None \<Rightarrow> \<nexists>a b ns. oid_numbers a b ns \<and> bs = oid_content a b ns
    | Some (Some text) \<Rightarrow> \<exists>a b ns. oid_numbers a b ns \<and> bs = oid_content a b ns \<and> text = dotted (a # b # ns) @ [0]"
proof (cases "\<exists>a b ns. oid_numbers a b ns \<and> bs = oid_content a b ns")
  case True
  then obtain a b ns where "oid_numbers a b ns" "bs = oid_content a b ns" by blast
  then show ?thesis using to_text_succeeds [of m c a b ns A] assms by auto
next
  case False
  then show ?thesis using to_text_fails [OF assms(1) False assms(2)] by simp
qed

theorem CBS_asn1_oid_to_text_exact_witness:
  "CBS_asn1_oid_to_text sample_alloc (put_bytes Map.empty 8 [0x2A, 0x86, 0x48]) (CBS_init 8 3) =
     Some (Some [0x31, 0x2E, 0x32, 0x2E, 0x38, 0x34, 0x30, 0]) \<and>
   (\<exists>a b ns. oid_numbers a b ns \<and> [0x2A, 0x86, 0x48] = oid_content a b ns \<and>
     [0x31, 0x2E, 0x32, 0x2E, 0x38, 0x34, 0x30, 0] = dotted (a # b # ns) @ [0])"
proof -
  let ?m = "put_bytes Map.empty 8 [0x2A, 0x86, 0x48]"
  have r: "CBS_asn1_oid_to_text sample_alloc ?m (CBS_init 8 3) = Some (Some [0x31, 0x2E, 0x32, 0x2E, 0x38, 0x34, 0x30, 0])" by code_simp
  have "cbs_holds ?m (CBS_init 8 3) [0x2A, 0x86, 0x48]" by code_simp
  from CBS_asn1_oid_to_text_exact [OF this, of sample_alloc] r show ?thesis by (simp add: sample_alloc_def)
qed

end
