(* ===== verification/Boring_Stack.thy ===== *)
theory Boring_Stack
  imports Prelude "HOL-Library.Multiset"
begin

text \<open>
  The stack of BoringSSL (\<open>crypto/stack/stack.c\<close>): a growing array of pointers with a comparison
  function, linear and binary search, and an in-place heap sort.

  A pointer to an element is \<open>'p option\<close> (\<open>None\<close> is the null pointer), a comparison function pointer
  is a value of \<open>'c\<close>, and \<open>call_cmp_func\<close> is the argument the code takes under that name. \<open>sk_data\<close>
  is the block \<open>data\<close> points to, of \<open>num_alloc\<close> entries. The outer option is undefined behaviour: a
  load or store outside the block, or a failed \<open>assert\<close>.
\<close>

type_synonym ('p, 'c) cmp_caller = "'c \<Rightarrow> 'p option \<Rightarrow> 'p option \<Rightarrow> int"

record ('p, 'c) stack_st =
  sk_num_of :: u64
  sk_data :: "'p option list"
  sk_sorted :: bool
  sk_num_alloc :: u64
  sk_comp :: "'c option"

text \<open>The allocator: which sizes in bytes it grants, and what fresh entries hold.\<close>

record 'p sk_alloc =
  sk_grants :: "u64 \<Rightarrow> bool"
  sk_fresh :: "nat \<Rightarrow> 'p option"

definition kMinSize :: u64 where "kMinSize = 4"

definition INT_MAX64 :: u64 where "INT_MAX64 = 0x7FFFFFFF"

definition PTRDIFF_MAX :: u64 where "PTRDIFF_MAX = 0x7FFFFFFFFFFFFFFF"

section \<open>Loads and stores\<close>

definition sk_load :: "('p, 'c) stack_st \<Rightarrow> u64 \<Rightarrow> 'p option option" where
  "sk_load sk i = (if unat i < length (sk_data sk) then Some (sk_data sk ! unat i) else None)"

definition sk_store :: "('p, 'c) stack_st \<Rightarrow> u64 \<Rightarrow> 'p option \<Rightarrow> ('p, 'c) stack_st option" where
  "sk_store sk i p =
     (if unat i < length (sk_data sk) then Some (sk\<lparr>sk_data := (sk_data sk)[unat i := p]\<rparr>) else None)"

text \<open>\<open>OPENSSL_memmove\<close> of \<open>n\<close> entries from index \<open>src\<close> to index \<open>dst\<close> of the same block.\<close>

definition sk_move :: "('p, 'c) stack_st \<Rightarrow> u64 \<Rightarrow> u64 \<Rightarrow> u64 \<Rightarrow> ('p, 'c) stack_st option" where
  "sk_move sk dst src n =
     (let d = sk_data sk in
      if unat src + unat n \<le> length d \<and> unat dst + unat n \<le> length d
      then Some (sk\<lparr>sk_data := take (unat dst) d @ take (unat n) (drop (unat src) d) @ drop (unat dst + unat n) d\<rparr>)
      else None)"

section \<open>Creation and access\<close>

definition OPENSSL_sk_new :: "'p sk_alloc \<Rightarrow> 'c option \<Rightarrow> ('p, 'c) stack_st option" where
  "OPENSSL_sk_new A cf =
     (if sk_grants A 40 \<and> sk_grants A (kMinSize * 8)
      then Some \<lparr>sk_num_of = 0, sk_data = replicate (unat kMinSize) None, sk_sorted = False,
                 sk_num_alloc = kMinSize, sk_comp = cf\<rparr>
      else None)"

definition OPENSSL_sk_new_null :: "'p sk_alloc \<Rightarrow> ('p, 'c) stack_st option" where
  "OPENSSL_sk_new_null A = OPENSSL_sk_new A None"

definition OPENSSL_sk_num :: "('p, 'c) stack_st option \<Rightarrow> u64" where
  "OPENSSL_sk_num sk = (case sk of None \<Rightarrow> 0 | Some sk \<Rightarrow> sk_num_of sk)"

definition OPENSSL_sk_zero :: "('p, 'c) stack_st option \<Rightarrow> ('p, 'c) stack_st option option" where
  "OPENSSL_sk_zero sk =
     (case sk of None \<Rightarrow> Some None
      | Some sk \<Rightarrow>
          if sk_num_of sk = 0 then Some (Some sk)
          else if length (sk_data sk) < unat (sk_num_of sk) then None
          else Some (Some (sk\<lparr>sk_data := replicate (unat (sk_num_of sk)) None @ drop (unat (sk_num_of sk)) (sk_data sk),
                              sk_num_of := 0, sk_sorted := False\<rparr>)))"

definition OPENSSL_sk_value :: "('p, 'c) stack_st option \<Rightarrow> u64 \<Rightarrow> 'p option option" where
  "OPENSSL_sk_value sk i =
     (case sk of None \<Rightarrow> Some None
      | Some sk \<Rightarrow> if sk_num_of sk \<le> i then Some None else sk_load sk i)"

definition OPENSSL_sk_set :: "('p, 'c) stack_st option \<Rightarrow> u64 \<Rightarrow> 'p option \<Rightarrow> ('p option \<times> ('p, 'c) stack_st option) option" where
  "OPENSSL_sk_set sk i p =
     (case sk of None \<Rightarrow> Some (None, None)
      | Some sk \<Rightarrow>
          if sk_num_of sk \<le> i then Some (None, Some sk)
          else map_option (\<lambda>sk. (p, Some sk)) (sk_store sk i p))"

text \<open>The loop of \<open>OPENSSL_sk_pop_free_ex\<close> over the entries from \<open>i\<close> on; \<open>free\<close> acts on a state.\<close>

primrec pop_free_loop :: "('p \<Rightarrow> 's \<Rightarrow> 's) \<Rightarrow> ('p, 'c) stack_st \<Rightarrow> u64 \<Rightarrow> nat \<Rightarrow> 's \<Rightarrow> 's option" where
  "pop_free_loop free sk i 0 s = Some s"
| "pop_free_loop free sk i (Suc n) s =
     (case sk_load sk i of None \<Rightarrow> None
      | Some p \<Rightarrow> pop_free_loop free sk (i + 1) n (case p of None \<Rightarrow> s | Some p \<Rightarrow> free p s))"

definition OPENSSL_sk_pop_free_ex :: "('p \<Rightarrow> 's \<Rightarrow> 's) \<Rightarrow> ('p, 'c) stack_st option \<Rightarrow> 's \<Rightarrow> 's option" where
  "OPENSSL_sk_pop_free_ex free sk s =
     (case sk of None \<Rightarrow> Some s | Some sk \<Rightarrow> pop_free_loop free sk 0 (unat (sk_num_of sk)) s)"

section \<open>Insertion and removal\<close>

text \<open>Growing the block: doubling, or one more entry when the doubled size overflows.\<close>

definition sk_new_alloc :: "u64 \<Rightarrow> u64" where
  "sk_new_alloc n =
     (let new_alloc = push_bit 1 n; alloc_size = new_alloc * 8
      in if new_alloc < n \<or> alloc_size div 8 \<noteq> new_alloc then n + 1 else new_alloc)"

definition sk_grow :: "'p sk_alloc \<Rightarrow> ('p, 'c) stack_st \<Rightarrow> ('p, 'c) stack_st option" where
  "sk_grow A sk =
     (if sk_num_alloc sk \<le> sk_num_of sk + 1
      then (let new_alloc = sk_new_alloc (sk_num_alloc sk); alloc_size = new_alloc * 8
            in if new_alloc < sk_num_alloc sk \<or> alloc_size div 8 \<noteq> new_alloc then None
               else if \<not> sk_grants A alloc_size then None
               else Some (sk\<lparr>sk_data := take (unat new_alloc) (sk_data sk) @ map (sk_fresh A) [length (sk_data sk)..<unat new_alloc],
                             sk_num_alloc := new_alloc\<rparr>))
      else Some sk)"

definition OPENSSL_sk_insert ::
    "'p sk_alloc \<Rightarrow> ('p, 'c) stack_st option \<Rightarrow> 'p option \<Rightarrow> u64 \<Rightarrow> (u64 \<times> ('p, 'c) stack_st option) option" where
  "OPENSSL_sk_insert A sk p pos =
     (case sk of None \<Rightarrow> Some (0, None)
      | Some sk \<Rightarrow>
          if INT_MAX64 \<le> sk_num_of sk then Some (0, Some sk)
          else (case sk_grow A sk of None \<Rightarrow> Some (0, Some sk)
                | Some sk \<Rightarrow>
                    Option.bind
                      (if sk_num_of sk \<le> pos then sk_store sk (sk_num_of sk) p
                       else Option.bind (sk_move sk (pos + 1) pos (sk_num_of sk - pos)) (\<lambda>sk. sk_store sk pos p))
                      (\<lambda>sk. Some (sk_num_of sk + 1, Some (sk\<lparr>sk_num_of := sk_num_of sk + 1, sk_sorted := False\<rparr>)))))"

definition OPENSSL_sk_push where
  "OPENSSL_sk_push A sk p = OPENSSL_sk_insert A sk p (OPENSSL_sk_num sk)"

definition OPENSSL_sk_delete :: "('p, 'c) stack_st option \<Rightarrow> u64 \<Rightarrow> ('p option \<times> ('p, 'c) stack_st option) option" where
  "OPENSSL_sk_delete sk pos =
     (case sk of None \<Rightarrow> Some (None, None)
      | Some sk \<Rightarrow>
          if sk_num_of sk \<le> pos then Some (None, Some sk)
          else Option.bind (sk_load sk pos) (\<lambda>ret.
               Option.bind
                 (if pos \<noteq> sk_num_of sk - 1 then sk_move sk pos (pos + 1) (sk_num_of sk - pos - 1) else Some sk)
                 (\<lambda>sk. Some (ret, Some (sk\<lparr>sk_num_of := sk_num_of sk - 1\<rparr>)))))"

text \<open>Linear search for the first entry from \<open>i\<close> on that satisfies \<open>P\<close>, among \<open>n\<close> entries.\<close>

primrec sk_linear :: "('p option \<Rightarrow> bool) \<Rightarrow> ('p, 'c) stack_st \<Rightarrow> u64 \<Rightarrow> nat \<Rightarrow> u64 option option" where
  "sk_linear P sk i 0 = Some None"
| "sk_linear P sk i (Suc n) =
     (case sk_load sk i of None \<Rightarrow> None
      | Some q \<Rightarrow> if P q then Some (Some i) else sk_linear P sk (i + 1) n)"

definition OPENSSL_sk_delete_ptr :: "('p, 'c) stack_st option \<Rightarrow> 'p option \<Rightarrow> ('p option \<times> ('p, 'c) stack_st option) option" where
  "OPENSSL_sk_delete_ptr sk p =
     (case sk of None \<Rightarrow> Some (None, None)
      | Some st \<Rightarrow>
          (case sk_linear (\<lambda>q. q = p) st 0 (unat (sk_num_of st)) of None \<Rightarrow> None
           | Some None \<Rightarrow> Some (None, sk)
           | Some (Some i) \<Rightarrow> OPENSSL_sk_delete sk i))"

text \<open>The loop of \<open>OPENSSL_sk_delete_if\<close>: \<open>new_num\<close> entries are kept so far; \<open>del\<close> acts on a state.\<close>

primrec delete_if_loop ::
    "('p option \<Rightarrow> 's \<Rightarrow> bool \<times> 's) \<Rightarrow> u64 \<Rightarrow> nat \<Rightarrow> u64 \<Rightarrow> ('p, 'c) stack_st \<times> 's \<Rightarrow> (u64 \<times> ('p, 'c) stack_st \<times> 's) option" where
  "delete_if_loop del i 0 new_num S = Some (new_num, S)"
| "delete_if_loop del i (Suc n) new_num S =
     (case S of (sk, s) \<Rightarrow>
        Option.bind (sk_load sk i) (\<lambda>p.
          case del p s of (gone, s) \<Rightarrow>
            if gone then delete_if_loop del (i + 1) n new_num (sk, s)
            else Option.bind (sk_store sk new_num p) (\<lambda>sk. delete_if_loop del (i + 1) n (new_num + 1) (sk, s))))"

definition OPENSSL_sk_delete_if ::
    "('p option \<Rightarrow> 's \<Rightarrow> bool \<times> 's) \<Rightarrow> ('p, 'c) stack_st option \<Rightarrow> 's \<Rightarrow> (('p, 'c) stack_st option \<times> 's) option" where
  "OPENSSL_sk_delete_if del sk s =
     (case sk of None \<Rightarrow> Some (None, s)
      | Some sk \<Rightarrow>
          map_option (\<lambda>(new_num, sk, s). (Some (sk\<lparr>sk_num_of := new_num\<rparr>), s))
            (delete_if_loop del 0 (unat (sk_num_of sk)) 0 (sk, s)))"

definition OPENSSL_sk_shift :: "('p, 'c) stack_st option \<Rightarrow> ('p option \<times> ('p, 'c) stack_st option) option" where
  "OPENSSL_sk_shift sk =
     (case sk of None \<Rightarrow> Some (None, None)
      | Some st \<Rightarrow> if sk_num_of st = 0 then Some (None, sk) else OPENSSL_sk_delete sk 0)"

definition OPENSSL_sk_pop :: "('p, 'c) stack_st option \<Rightarrow> ('p option \<times> ('p, 'c) stack_st option) option" where
  "OPENSSL_sk_pop sk =
     (case sk of None \<Rightarrow> Some (None, None)
      | Some st \<Rightarrow> if sk_num_of st = 0 then Some (None, sk) else OPENSSL_sk_delete sk (sk_num_of st - 1))"

section \<open>Search\<close>

definition OPENSSL_sk_is_sorted :: "('p, 'c) stack_st option \<Rightarrow> bool" where
  "OPENSSL_sk_is_sorted sk =
     (case sk of None \<Rightarrow> True | Some sk \<Rightarrow> sk_sorted sk \<or> sk_comp sk \<noteq> None \<and> sk_num_of sk < 2)"

text \<open>Binary search on the half-open interval from \<open>lo\<close> to \<open>hi\<close>; \<open>r\<close> compares the value sought with
  an entry. Both assertions are kept.\<close>

partial_function (option) sk_bsearch ::
    "('p option \<Rightarrow> int) \<Rightarrow> ('p, 'c) stack_st \<Rightarrow> u64 \<Rightarrow> u64 \<Rightarrow> u64 option option" where
  "sk_bsearch r sk lo hi =
     (if lo < hi
      then (let mid = lo + (hi - lo - 1) div 2
            in if \<not> (lo \<le> mid \<and> mid < hi) then None
               else Option.bind (sk_load sk mid) (\<lambda>q.
                 if r q > 0 then sk_bsearch r sk (mid + 1) hi
                 else if r q < 0 then sk_bsearch r sk lo mid
                 else if hi - lo = 1 then Some (Some mid)
                 else if mid + 1 < hi then sk_bsearch r sk lo (mid + 1) else None))
      else if lo = hi then Some None else None)"

definition OPENSSL_sk_find ::
    "('p, 'c) cmp_caller \<Rightarrow> ('p, 'c) stack_st option \<Rightarrow> 'p option \<Rightarrow> u64 option option" where
  "OPENSSL_sk_find call_cmp_func sk p =
     (case sk of None \<Rightarrow> Some None
      | Some st \<Rightarrow>
          (case sk_comp st of
             None \<Rightarrow> sk_linear (\<lambda>q. q = p) st 0 (unat (sk_num_of st))
           | Some cf \<Rightarrow>
               if p = None then Some None
               else if \<not> OPENSSL_sk_is_sorted sk
               then sk_linear (\<lambda>q. call_cmp_func cf p q = 0) st 0 (unat (sk_num_of st))
               else sk_bsearch (call_cmp_func cf p) st 0 (sk_num_of st)))"

section \<open>Copies\<close>

definition OPENSSL_sk_dup :: "'p sk_alloc \<Rightarrow> ('p, 'c) stack_st option \<Rightarrow> ('p, 'c) stack_st option" where
  "OPENSSL_sk_dup A sk =
     (case sk of None \<Rightarrow> None
      | Some sk \<Rightarrow>
          if sk_grants A 40 \<and> sk_grants A (8 * sk_num_alloc sk) then Some sk else None)"

text \<open>The loop of \<open>OPENSSL_sk_deep_copy\<close>. When a copy fails, the copies made so far are freed.\<close>

primrec deep_copy_loop ::
    "('p \<Rightarrow> 's \<Rightarrow> 'p option \<times> 's) \<Rightarrow> ('p \<Rightarrow> 's \<Rightarrow> 's) \<Rightarrow> u64 \<Rightarrow> nat \<Rightarrow> ('p, 'c) stack_st \<Rightarrow> 's \<Rightarrow>
     (('p, 'c) stack_st option \<times> 's) option" where
  "deep_copy_loop copy free i 0 sk s = Some (Some sk, s)"
| "deep_copy_loop copy free i (Suc n) sk s =
     Option.bind (sk_load sk i) (\<lambda>p.
       case p of None \<Rightarrow> deep_copy_loop copy free (i + 1) n sk s
       | Some p \<Rightarrow>
           (case copy p s of (q, s) \<Rightarrow>
              Option.bind (sk_store sk i q) (\<lambda>sk.
                if q = None then map_option (\<lambda>s. (None, s)) (pop_free_loop free sk 0 (unat i) s)
                else deep_copy_loop copy free (i + 1) n sk s)))"

definition OPENSSL_sk_deep_copy ::
    "'p sk_alloc \<Rightarrow> ('p \<Rightarrow> 's \<Rightarrow> 'p option \<times> 's) \<Rightarrow> ('p \<Rightarrow> 's \<Rightarrow> 's) \<Rightarrow> ('p, 'c) stack_st option \<Rightarrow> 's \<Rightarrow>
     (('p, 'c) stack_st option \<times> 's) option" where
  "OPENSSL_sk_deep_copy A copy free sk s =
     (case OPENSSL_sk_dup A sk of None \<Rightarrow> Some (None, s)
      | Some ret \<Rightarrow> deep_copy_loop copy free 0 (unat (sk_num_of ret)) ret s)"

section \<open>Heap sort\<close>

definition parent_idx :: "u64 \<Rightarrow> u64 option" where
  "parent_idx idx = (if 0 < idx then Some ((idx - 1) div 2) else None)"

definition left_idx :: "u64 \<Rightarrow> u64 option" where
  "left_idx idx = (if idx \<le> PTRDIFF_MAX then Some (2 * idx + 1) else None)"

definition sk_swap :: "('p, 'c) stack_st \<Rightarrow> u64 \<Rightarrow> u64 \<Rightarrow> ('p, 'c) stack_st option" where
  "sk_swap sk i j =
     Option.bind (sk_load sk i) (\<lambda>tmp.
     Option.bind (sk_load sk j) (\<lambda>q.
     Option.bind (sk_store sk i q) (\<lambda>sk. sk_store sk j tmp)))"

text \<open>The comparison \<open>call_cmp_func(sk->cf, data[i], data[j]) < 0\<close>.\<close>

definition sk_below :: "('p option \<Rightarrow> 'p option \<Rightarrow> int) \<Rightarrow> ('p, 'c) stack_st \<Rightarrow> u64 \<Rightarrow> u64 \<Rightarrow> bool option" where
  "sk_below cmp sk i j =
     Option.bind (sk_load sk i) (\<lambda>p. Option.bind (sk_load sk j) (\<lambda>q. Some (cmp p q < 0)))"

text \<open>The larger one of \<open>i\<close> and its children below \<open>num\<close>.\<close>

definition heap_next :: "('p option \<Rightarrow> 'p option \<Rightarrow> int) \<Rightarrow> ('p, 'c) stack_st \<Rightarrow> u64 \<Rightarrow> u64 \<Rightarrow> u64 \<Rightarrow> u64 option" where
  "heap_next cmp sk i left num =
     Option.bind (sk_below cmp sk i left) (\<lambda>b.
       let nxt = (if b then left else i); right = left + 1
       in if right < num
          then Option.bind (sk_below cmp sk nxt right) (\<lambda>b. Some (if b then right else nxt))
          else Some nxt)"

partial_function (option) down_heap_loop ::
    "('p option \<Rightarrow> 'p option \<Rightarrow> int) \<Rightarrow> ('p, 'c) stack_st \<Rightarrow> u64 \<Rightarrow> u64 \<Rightarrow> ('p, 'c) stack_st option" where
  "down_heap_loop cmp sk i num =
     Option.bind (left_idx i) (\<lambda>left.
       if num \<le> left then Some sk
       else Option.bind (heap_next cmp sk i left num) (\<lambda>nxt.
              if i = nxt then Some sk
              else Option.bind (sk_swap sk i nxt) (\<lambda>sk. down_heap_loop cmp sk nxt num)))"

definition down_heap ::
    "('p option \<Rightarrow> 'p option \<Rightarrow> int) \<Rightarrow> ('p, 'c) stack_st \<Rightarrow> u64 \<Rightarrow> u64 \<Rightarrow> ('p, 'c) stack_st option" where
  "down_heap cmp sk i num =
     (if i < num \<and> num \<le> sk_num_of sk then down_heap_loop cmp sk i num else None)"

text \<open>\<open>for (i = parent_idx(num - 1); i < num; i--)\<close>: the loop ends when \<open>i\<close> wraps around.\<close>

partial_function (option) build_heap_loop ::
    "('p option \<Rightarrow> 'p option \<Rightarrow> int) \<Rightarrow> ('p, 'c) stack_st \<Rightarrow> u64 \<Rightarrow> ('p, 'c) stack_st option" where
  "build_heap_loop cmp sk i =
     (if i < sk_num_of sk
      then Option.bind (down_heap cmp sk i (sk_num_of sk)) (\<lambda>sk. build_heap_loop cmp sk (i - 1))
      else Some sk)"

partial_function (option) extract_loop ::
    "('p option \<Rightarrow> 'p option \<Rightarrow> int) \<Rightarrow> ('p, 'c) stack_st \<Rightarrow> u64 \<Rightarrow> ('p, 'c) stack_st option" where
  "extract_loop cmp sk i =
     (if 0 < i
      then Option.bind (sk_swap sk 0 i) (\<lambda>sk.
           Option.bind (down_heap cmp sk 0 i) (\<lambda>sk. extract_loop cmp sk (i - 1)))
      else Some sk)"

definition OPENSSL_sk_sort :: "('p, 'c) cmp_caller \<Rightarrow> ('p, 'c) stack_st option \<Rightarrow> ('p, 'c) stack_st option option" where
  "OPENSSL_sk_sort call_cmp_func sk =
     (case sk of None \<Rightarrow> Some None
      | Some st \<Rightarrow>
          (case sk_comp st of None \<Rightarrow> Some sk
           | Some cf \<Rightarrow>
               if sk_sorted st then Some sk
               else map_option (\<lambda>st. Some (st\<lparr>sk_sorted := True\<rparr>))
                 (if 2 \<le> sk_num_of st
                  then Option.bind (parent_idx (sk_num_of st - 1)) (\<lambda>i.
                       Option.bind (build_heap_loop (call_cmp_func cf) st i) (\<lambda>st.
                         extract_loop (call_cmp_func cf) st (sk_num_of st - 1)))
                  else Some st)))"

definition OPENSSL_sk_set_cmp_func :: "('p, 'c) stack_st \<Rightarrow> 'c option \<Rightarrow> 'c option \<times> ('p, 'c) stack_st" where
  "OPENSSL_sk_set_cmp_func sk cf =
     (sk_comp sk,
      (if sk_comp sk \<noteq> cf then sk\<lparr>sk_sorted := False\<rparr> else sk)\<lparr>sk_comp := cf\<rparr>)"

declare sk_bsearch.simps [code] down_heap_loop.simps [code] build_heap_loop.simps [code] extract_loop.simps [code]

end
