(* ===== verification/Boring_Stack_Correct.thy ===== *)
theory Boring_Stack_Correct
  imports Boring_Stack
begin

text \<open>
  The heap sort of the stack as a function on lists, and what it computes for every comparison
  function that is a total preorder on the elements.
\<close>

section \<open>Heap sort on lists\<close>

definition swapped :: "'a list \<Rightarrow> nat \<Rightarrow> nat \<Rightarrow> 'a list" where
  "swapped xs i j = xs[i := xs ! j, j := xs ! i]"

lemma swapped_simps [simp]:
  "length (swapped xs i j) = length xs"
  "i < length xs \<Longrightarrow> j < length xs \<Longrightarrow> mset (swapped xs i j) = mset xs"
  by (auto simp: swapped_def mset_swap)

lemma nth_swapped:
  "i < length xs \<Longrightarrow> j < length xs \<Longrightarrow> swapped xs i j ! k = (if k = j then xs ! i else if k = i then xs ! j else xs ! k)"
  by (auto simp: swapped_def nth_list_update)

lemma set_swapped [simp]: "i < length xs \<Longrightarrow> j < length xs \<Longrightarrow> set (swapped xs i j) = set xs"
  by (rule mset_eq_setD) simp

lemma swapped_0 [simp]:
  "j < length xs \<Longrightarrow> set (swapped xs 0 j) = set xs"
  "j < length xs \<Longrightarrow> mset (swapped xs 0 j) = mset xs"
  by (cases xs; simp)+

lemma nth_swapped_0:
  "j < length xs \<Longrightarrow> swapped xs 0 j ! k = (if k = j then xs ! 0 else if k = 0 then xs ! j else xs ! k)"
  by (rule nth_swapped) auto

text \<open>The largest of an entry and its children.\<close>

definition largest :: "('a \<Rightarrow> 'a \<Rightarrow> int) \<Rightarrow> 'a list \<Rightarrow> nat \<Rightarrow> nat \<Rightarrow> nat" where
  "largest cmp xs i n =
     (let j = (if cmp (xs ! i) (xs ! (2 * i + 1)) < 0 then 2 * i + 1 else i)
      in if 2 * i + 2 < n \<and> cmp (xs ! j) (xs ! (2 * i + 2)) < 0 then 2 * i + 2 else j)"

lemma largest_cases: "largest cmp xs i n \<in> {i, 2 * i + 1, 2 * i + 2}"
  by (simp add: largest_def Let_def)

lemma largest_less: "2 * i + 1 < n \<Longrightarrow> largest cmp xs i n < n"
  by (simp add: largest_def Let_def)

lemma largest_greater: "largest cmp xs i n \<noteq> i \<Longrightarrow> i < largest cmp xs i n"
  using largest_cases [of cmp xs i n] by auto

function sift :: "('a \<Rightarrow> 'a \<Rightarrow> int) \<Rightarrow> 'a list \<Rightarrow> nat \<Rightarrow> nat \<Rightarrow> 'a list" where
  "sift cmp xs i n =
     (if n \<le> 2 * i + 1 \<or> largest cmp xs i n = i then xs
      else sift cmp (swapped xs i (largest cmp xs i n)) (largest cmp xs i n) n)"
  by pat_completeness auto
termination
  by (relation "measure (\<lambda>(_, _, i, n). n - i)")
     (use largest_greater largest_less in \<open>fastforce simp: not_le\<close>)+

declare sift.simps [simp del]

primrec heapify :: "('a \<Rightarrow> 'a \<Rightarrow> int) \<Rightarrow> 'a list \<Rightarrow> nat \<Rightarrow> 'a list" where
  "heapify cmp xs 0 = sift cmp xs 0 (length xs)"
| "heapify cmp xs (Suc i) = heapify cmp (sift cmp xs (Suc i) (length xs)) i"

primrec unheap :: "('a \<Rightarrow> 'a \<Rightarrow> int) \<Rightarrow> 'a list \<Rightarrow> nat \<Rightarrow> 'a list" where
  "unheap cmp xs 0 = xs"
| "unheap cmp xs (Suc i) = unheap cmp (sift cmp (swapped xs 0 (Suc i)) 0 (Suc i)) i"

definition heap_sort :: "('a \<Rightarrow> 'a \<Rightarrow> int) \<Rightarrow> 'a list \<Rightarrow> 'a list" where
  "heap_sort cmp xs =
     (if 2 \<le> length xs then unheap cmp (heapify cmp xs ((length xs - 2) div 2)) (length xs - 1) else xs)"

lemma sift_perm: "i < n \<Longrightarrow> n \<le> length xs \<Longrightarrow> mset (sift cmp xs i n) = mset xs"
proof (induction cmp xs i n rule: sift.induct)
  case (1 cmp xs i n)
  show ?case
    using 1 largest_less [of i n cmp xs] by (subst sift.simps) auto
qed

lemma sift_length [simp]: "length (sift cmp xs i n) = length xs"
proof (induction cmp xs i n rule: sift.induct)
  case (1 cmp xs i n)
  then show ?case by (subst sift.simps) auto
qed

lemma sift_above: "i < n \<Longrightarrow> n \<le> k \<Longrightarrow> n \<le> length xs \<Longrightarrow> sift cmp xs i n ! k = xs ! k"
proof (induction cmp xs i n rule: sift.induct)
  case (1 cmp xs i n)
  show ?case
    using 1 largest_less [of i n cmp xs] by (subst sift.simps) (auto simp: nth_swapped)
qed

lemma sift_below: "i < n \<Longrightarrow> k < i \<Longrightarrow> n \<le> length xs \<Longrightarrow> sift cmp xs i n ! k = xs ! k"
proof (induction cmp xs i n rule: sift.induct)
  case (1 cmp xs i n)
  show ?case
    using 1 largest_less [of i n cmp xs] largest_greater [of cmp xs i n]
    by (subst sift.simps) (auto simp: nth_swapped)
qed

lemma sift_take: "i < n \<Longrightarrow> n \<le> length xs \<Longrightarrow> set (take n (sift cmp xs i n)) = set (take n xs)"
proof -
  assume a: "i < n" "n \<le> length xs"
  have "drop n (sift cmp xs i n) = drop n xs"
    using a by (intro nth_equalityI) (simp_all add: sift_above)
  moreover have "mset (take n ys) + mset (drop n ys) = mset ys" for ys :: "'a list"
    by (metis append_take_drop_id mset_append)
  ultimately have "mset (take n (sift cmp xs i n)) = mset (take n xs)"
    using sift_perm [OF a, of cmp] by (metis add_right_cancel)
  then show ?thesis by (rule mset_eq_setD)
qed

lemma heapify_length [simp]: "length (heapify cmp xs i) = length xs"
  by (induction i arbitrary: xs) simp_all

lemma heapify_perm: "i < length xs \<Longrightarrow> mset (heapify cmp xs i) = mset xs"
  by (induction i arbitrary: xs) (simp_all add: sift_perm)

lemma unheap_length [simp]: "length (unheap cmp xs i) = length xs"
  by (induction i arbitrary: xs) simp_all

lemma unheap_perm: "i < length xs \<Longrightarrow> mset (unheap cmp xs i) = mset xs"
proof (induction i arbitrary: xs)
  case (Suc i)
  have "mset (sift cmp (swapped xs 0 (Suc i)) 0 (Suc i)) = mset (swapped xs 0 (Suc i))"
    using Suc.prems by (intro sift_perm) auto
  then show ?case
    using Suc.prems Suc.IH [of "sift cmp (swapped xs 0 (Suc i)) 0 (Suc i)"] by simp
qed simp

lemma heap_sort_perm: "mset (heap_sort cmp xs) = mset xs"
  by (auto simp: heap_sort_def unheap_perm heapify_perm)

lemma heap_sort_length [simp]: "length (heap_sort cmp xs) = length xs"
  by (simp add: heap_sort_def)

section \<open>Comparison functions\<close>

text \<open>
  What the code relies on when it is given a comparison function: on the values of \<open>D\<close> the sign is
  antisymmetric and the order transitive.
\<close>

locale comparison =
  fixes cmp :: "'a \<Rightarrow> 'a \<Rightarrow> int" and D :: "'a set"
  assumes cmp_sign: "p \<in> D \<Longrightarrow> q \<in> D \<Longrightarrow> cmp q p < 0 \<longleftrightarrow> 0 < cmp p q"
    and cmp_trans: "p \<in> D \<Longrightarrow> q \<in> D \<Longrightarrow> r \<in> D \<Longrightarrow> cmp p q \<le> 0 \<Longrightarrow> cmp q r \<le> 0 \<Longrightarrow> cmp p r \<le> 0"

text \<open>Every entry below \<open>n\<close> whose parent is not before \<open>k\<close> is at most its parent.\<close>

definition heap_from :: "('a \<Rightarrow> 'a \<Rightarrow> int) \<Rightarrow> 'a list \<Rightarrow> nat \<Rightarrow> nat \<Rightarrow> bool" where
  "heap_from cmp xs k n \<longleftrightarrow>
     (\<forall>c. 0 < c \<and> c < n \<and> k \<le> (c - 1) div 2 \<longrightarrow> cmp (xs ! c) (xs ! ((c - 1) div 2)) \<le> 0)"

text \<open>The same with the exception of entry \<open>i\<close>, whose children are at most its parent.\<close>

definition heap_but :: "('a \<Rightarrow> 'a \<Rightarrow> int) \<Rightarrow> 'a list \<Rightarrow> nat \<Rightarrow> nat \<Rightarrow> nat \<Rightarrow> bool" where
  "heap_but cmp xs k n i \<longleftrightarrow>
     (\<forall>c. 0 < c \<and> c < n \<and> k \<le> (c - 1) div 2 \<longrightarrow>
        ((c - 1) div 2 \<noteq> i \<longrightarrow> cmp (xs ! c) (xs ! ((c - 1) div 2)) \<le> 0) \<and>
        ((c - 1) div 2 = i \<and> 0 < i \<and> k \<le> (i - 1) div 2 \<longrightarrow> cmp (xs ! c) (xs ! ((i - 1) div 2)) \<le> 0))"

lemma heap_from_leaves: "n \<le> 2 * k + 1 \<Longrightarrow> heap_from cmp xs k n"
  by (auto simp: heap_from_def)

lemma heap_but_from: "heap_from cmp xs (Suc i) n \<Longrightarrow> heap_but cmp xs i n i"
  by (auto simp: heap_from_def heap_but_def)

lemma half_child: "(c - 1) div 2 = i \<Longrightarrow> 0 < c \<Longrightarrow> c = 2 * i + 1 \<or> c = 2 * i + (2 :: nat)"
  by arith

lemma half_less: "0 < c \<Longrightarrow> (c - 1) div 2 < (c :: nat)"
  by arith

context comparison
begin

lemma cmp_refl: "p \<in> D \<Longrightarrow> cmp p p = 0"
  using cmp_sign [of p p] by linarith

lemma not_below: "p \<in> D \<Longrightarrow> q \<in> D \<Longrightarrow> \<not> cmp p q < 0 \<Longrightarrow> cmp q p \<le> 0"
  using cmp_sign [of q p] by linarith

lemma nth_D: "set (take n xs) \<subseteq> D \<Longrightarrow> n \<le> length xs \<Longrightarrow> i < n \<Longrightarrow> xs ! i \<in> D"
  by (auto simp: subset_iff in_set_conv_nth)

lemma largest_ge:
  assumes D: "set (take n xs) \<subseteq> D" "n \<le> length xs" and i: "2 * i + 1 < n"
    and c: "c = i \<or> c = 2 * i + 1 \<or> c = 2 * i + 2" "c < n"
  shows "cmp (xs ! c) (xs ! largest cmp xs i n) \<le> 0"
proof -
  have Di: "xs ! i \<in> D" and Dl: "xs ! (2 * i + 1) \<in> D" and Dc: "xs ! c \<in> D"
    using nth_D [OF D] i c by auto
  define j where "j = (if cmp (xs ! i) (xs ! (2 * i + 1)) < 0 then 2 * i + 1 else i)"
  have L: "largest cmp xs i n = (if 2 * i + 2 < n \<and> cmp (xs ! j) (xs ! (2 * i + 2)) < 0 then 2 * i + 2 else j)"
    unfolding largest_def j_def Let_def ..
  have j: "cmp (xs ! i) (xs ! j) \<le> 0" "cmp (xs ! (2 * i + 1)) (xs ! j) \<le> 0" "xs ! j \<in> D"
    using Di Dl not_below by (auto simp: j_def cmp_refl)
  show ?thesis
  proof (cases "2 * i + 2 < n")
    case True
    then have Dr: "xs ! (2 * i + 2) \<in> D" using nth_D [OF D] by auto
    show ?thesis
    proof (cases "cmp (xs ! j) (xs ! (2 * i + 2)) < 0")
      case b: True
      then have "largest cmp xs i n = 2 * i + 2" using True by (simp add: L)
      moreover have "cmp (xs ! c) (xs ! (2 * i + 2)) \<le> 0"
        using c j Dr Di Dl b cmp_refl cmp_trans [of "xs ! c" "xs ! j" "xs ! (2 * i + 2)"] by auto
      ultimately show ?thesis by simp
    next
      case False
      then have "largest cmp xs i n = j" by (simp add: L)
      then show ?thesis using c j False Dr not_below by auto
    qed
  next
    case False
    then have "largest cmp xs i n = j" by (simp add: L)
    then show ?thesis using c j False by auto
  qed
qed

lemma heap_but_stop:
  assumes D: "set (take n xs) \<subseteq> D" "n \<le> length xs" and h: "heap_but cmp xs k n i"
    and stop: "n \<le> 2 * i + 1 \<or> largest cmp xs i n = i"
  shows "heap_from cmp xs k n"
  unfolding heap_from_def
proof (intro allI impI, elim conjE)
  fix c assume c: "0 < c" "c < n" "k \<le> (c - 1) div 2"
  show "cmp (xs ! c) (xs ! ((c - 1) div 2)) \<le> 0"
  proof (cases "(c - 1) div 2 = i")
    case True
    then have cc: "c = 2 * i + 1 \<or> c = 2 * i + 2" using half_child c by blast
    then have "2 * i + 1 < n" using c by auto
    then show ?thesis using largest_ge [OF D _ _ c(2)] cc stop True by force
  next
    case False
    then show ?thesis using h c by (auto simp: heap_but_def)
  qed
qed

lemma heap_but_step:
  assumes D: "set (take n xs) \<subseteq> D" "n \<le> length xs" and h: "heap_but cmp xs k n i"
    and i: "2 * i + 1 < n" and j: "j = largest cmp xs i n" "j \<noteq> i"
  shows "heap_but cmp (swapped xs i j) k n j"
  unfolding heap_but_def
proof (intro allI impI, elim conjE)
  fix c assume c: "0 < c" "c < n" "k \<le> (c - 1) div 2"
  let ?p = "(c - 1) div 2" and ?ys = "swapped xs i j"
  have jn: "j < n" "i < j" using largest_less i largest_greater j by auto
  have pj: "(j - 1) div 2 = i" using largest_cases [of cmp xs i n] j by auto
  have nth: "?ys ! k = (if k = j then xs ! i else if k = i then xs ! j else xs ! k)" for k
    using jn D(2) by (simp add: nth_swapped)
  have ge: "cmp (xs ! d) (xs ! j) \<le> 0" if "d = i \<or> d = 2 * i + 1 \<or> d = 2 * i + 2" "d < n" for d
    using largest_ge [OF D i that] j by simp
  have hc: "?p \<noteq> i \<Longrightarrow> cmp (xs ! c) (xs ! ?p) \<le> 0" using h c by (auto simp: heap_but_def)
  have "cmp (?ys ! c) (?ys ! ?p) \<le> 0" if pnj: "?p \<noteq> j"
  proof (cases "?p = i")
    case True
    then have "c = 2 * i + 1 \<or> c = 2 * i + 2" using half_child c by blast
    moreover have "c \<noteq> i" using True half_less c by force
    ultimately show ?thesis using ge [of i] ge [of c] c jn i True by (auto simp: nth)
  next
    case False
    have cj: "c \<noteq> j" using False pj by auto
    show ?thesis
    proof (cases "c = i")
      case True
      have "0 < j \<and> j < n \<and> k \<le> (j - 1) div 2" using c True jn pj half_less [of c] by auto
      then have "cmp (xs ! j) (xs ! ((i - 1) div 2)) \<le> 0" using h c True pj unfolding heap_but_def by blast
      then show ?thesis using True False pnj cj by (simp add: nth)
    next
      case ci: False
      then show ?thesis using hc False pnj cj by (simp add: nth)
    qed
  qed
  moreover have "cmp (?ys ! c) (?ys ! ((j - 1) div 2)) \<le> 0" if pc: "?p = j"
  proof -
    have "c \<noteq> i" "c \<noteq> j" using pc half_less [of c] c jn by auto
    then have "?ys ! c = xs ! c" "?ys ! i = xs ! j" using j(2) by (simp_all add: nth)
    then show ?thesis using hc pc j(2) pj by simp
  qed
  ultimately show "(?p \<noteq> j \<longrightarrow> cmp (?ys ! c) (?ys ! ?p) \<le> 0) \<and>
      (?p = j \<and> 0 < j \<and> k \<le> (j - 1) div 2 \<longrightarrow> cmp (?ys ! c) (?ys ! ((j - 1) div 2)) \<le> 0)"
    by blast
qed

lemma set_take_swapped: "i < n \<Longrightarrow> j < n \<Longrightarrow> n \<le> length xs \<Longrightarrow> set (take n (swapped xs i j)) = set (take n xs)"
proof -
  assume a: "i < n" "j < n" "n \<le> length xs"
  then have "take n (swapped xs i j) = swapped (take n xs) i j" by (simp add: swapped_def take_update_swap)
  with a show ?thesis by simp
qed

lemma sift_heap:
  assumes "set (take n xs) \<subseteq> D" "n \<le> length xs" "i < n" "heap_but cmp xs k n i"
  shows "heap_from cmp (sift cmp xs i n) k n"
  using assms
proof (induction "n - i" arbitrary: xs i rule: less_induct)
  case less
  let ?j = "largest cmp xs i n"
  show ?case
  proof (cases "n \<le> 2 * i + 1 \<or> ?j = i")
    case True
    then have "sift cmp xs i n = xs" by (subst sift.simps) simp
    then show ?thesis using heap_but_stop [OF less.prems(1,2,4) True] by simp
  next
    case False
    have j: "?j < n" using False by (intro largest_less) simp
    have j': "i < ?j" using False by (intro largest_greater) simp
    have "heap_from cmp (sift cmp (swapped xs i ?j) ?j n) k n"
    proof (rule less.hyps)
      show "n - ?j < n - i" using j j' less.prems(3) by linarith
      show "set (take n (swapped xs i ?j)) \<subseteq> D" "n \<le> length (swapped xs i ?j)" "?j < n"
        using less.prems(1-3) j set_take_swapped [of i n ?j xs] by simp_all
      show "heap_but cmp (swapped xs i ?j) k n ?j"
        using False by (intro heap_but_step [OF less.prems(1,2,4)]) simp_all
    qed
    moreover have "sift cmp xs i n = sift cmp (swapped xs i ?j) ?j n" using False by (subst sift.simps) simp
    ultimately show ?thesis by simp
  qed
qed

lemma heapify_heap: "i < length xs \<Longrightarrow> set xs \<subseteq> D \<Longrightarrow> heap_from cmp xs (Suc i) (length xs) \<Longrightarrow>
    heap_from cmp (heapify cmp xs i) 0 (length xs)"
proof (induction i arbitrary: xs)
  case 0
  then show ?case using sift_heap [of "length xs" xs 0 0] heap_but_from [of cmp xs 0 "length xs"] by simp
next
  case (Suc i)
  let ?ys = "sift cmp xs (Suc i) (length xs)"
  have "heap_from cmp ?ys (Suc i) (length xs)"
    using Suc.prems by (intro sift_heap heap_but_from) auto
  moreover have "set ?ys \<subseteq> D" using Suc.prems sift_perm [of "Suc i" "length xs" xs cmp]
    by (metis le_refl set_mset_mset)
  ultimately show ?case using Suc.IH [of ?ys] Suc.prems by simp
qed

lemma heap_root:
  assumes "set (take n xs) \<subseteq> D" "n \<le> length xs" "heap_from cmp xs 0 n" "c < n"
  shows "cmp (xs ! c) (xs ! 0) \<le> 0"
  using assms(4)
proof (induction c rule: less_induct)
  case (less c)
  note D = nth_D [OF assms(1,2)]
  show ?case
  proof (cases "c = 0")
    case True
    then show ?thesis using D less.prems cmp_refl by simp
  next
    case False
    let ?p = "(c - 1) div 2"
    have p: "?p < c" "?p < n" using False less.prems by auto
    have "cmp (xs ! c) (xs ! ?p) \<le> 0" using assms(3) False less.prems by (simp add: heap_from_def)
    then show ?thesis using less.IH [OF p] p less.prems D cmp_trans [of "xs ! c" "xs ! ?p" "xs ! 0"] by auto
  qed
qed

lemma sorted_signs:
  assumes D: "p \<in> D" "set xs \<subseteq> D" and s: "sorted_wrt (\<lambda>x y. cmp x y \<le> 0) xs" and ij: "i < j" "j < length xs"
  shows "(cmp p (xs ! i) < 0 \<longrightarrow> cmp p (xs ! j) < 0) \<and> (0 < cmp p (xs ! j) \<longrightarrow> 0 < cmp p (xs ! i))"
proof -
  have ij': "xs ! i \<in> D" "xs ! j \<in> D" using D ij by auto
  have "cmp (xs ! i) (xs ! j) \<le> 0" using s ij by (simp add: sorted_wrt_iff_nth_less)
  then show ?thesis
    using cmp_trans [of "xs ! i" "xs ! j" p] cmp_trans [of p "xs ! i" "xs ! j"] cmp_sign [of "xs ! j" p]
      cmp_sign [of "xs ! i" p] cmp_sign [of p "xs ! i"] cmp_sign [of p "xs ! j"] ij' D(1) by linarith
qed

text \<open>The entries after \<open>i\<close> are in order and not below any entry before them.\<close>

definition tail_sorted :: "'a list \<Rightarrow> nat \<Rightarrow> bool" where
  "tail_sorted xs i \<longleftrightarrow> (\<forall>a b. a < b \<and> b < length xs \<and> i < b \<longrightarrow> cmp (xs ! a) (xs ! b) \<le> 0)"

lemma unheap_step:
  assumes D: "set xs \<subseteq> D" and i: "Suc i < length xs" and h: "heap_from cmp xs 0 (Suc (Suc i))"
    and t: "tail_sorted xs (Suc i)"
  defines "zs \<equiv> sift cmp (swapped xs 0 (Suc i)) 0 (Suc i)"
  shows "set zs \<subseteq> D" "heap_from cmp zs 0 (Suc i)" "tail_sorted zs i"
proof -
  let ?ys = "swapped xs 0 (Suc i)"
  have ys: "set ?ys \<subseteq> D" using D i by simp
  have but: "heap_but cmp ?ys 0 (Suc i) 0"
    unfolding heap_but_def
  proof (intro allI impI conjI; elim conjE)
    fix c assume c: "0 < c" "c < Suc i" "(c - 1) div 2 \<noteq> 0"
    have "(c - 1) div 2 \<noteq> Suc i" "c \<noteq> Suc i" using c half_less [of c] by linarith+
    moreover have "cmp (xs ! c) (xs ! ((c - 1) div 2)) \<le> 0" using h c by (simp add: heap_from_def)
    ultimately show "cmp (?ys ! c) (?ys ! ((c - 1) div 2)) \<le> 0" using i c by (simp add: nth_swapped_0)
  qed simp
  show "set zs \<subseteq> D"
    using ys sift_perm [of 0 "Suc i" ?ys cmp] i unfolding zs_def
    by (metis Suc_leD Suc_leI lessI less_imp_le_nat set_mset_mset swapped_simps(1) zero_less_Suc)
  show "heap_from cmp zs 0 (Suc i)"
    unfolding zs_def using but i order_trans [OF set_take_subset ys] by (intro sift_heap) auto
  have above: "zs ! b = (if b = Suc i then xs ! 0 else xs ! b)" if "i < b" for b
    using that i by (simp add: zs_def sift_above nth_swapped_0)
  have origin: "\<exists>a' < Suc (Suc i). zs ! a = xs ! a'" if "a \<le> i" for a
  proof -
    have "zs ! a \<in> set (take (Suc i) zs)" using that i by (auto simp: in_set_conv_nth zs_def intro!: exI [of _ a])
    then have "zs ! a \<in> set (take (Suc i) ?ys)" using i by (simp add: zs_def sift_take)
    then obtain k where k: "k < Suc i" "zs ! a = ?ys ! k" using i by (auto simp: in_set_conv_nth)
    then have "zs ! a = xs ! (if k = 0 then Suc i else k)" using i by (simp add: nth_swapped_0)
    with k show ?thesis by (intro exI [of _ "if k = 0 then Suc i else k"]) simp
  qed
  have root: "cmp (xs ! a) (xs ! 0) \<le> 0" if "a < Suc (Suc i)" for a
    using heap_root [OF _ _ h that] D i by (auto dest: in_set_takeD)
  have len: "length zs = length xs" by (simp add: zs_def)
  show "tail_sorted zs i"
    unfolding tail_sorted_def
  proof (intro allI impI, elim conjE)
    fix a b assume ab: "a < b" "b < length zs" "i < b"
    show "cmp (zs ! a) (zs ! b) \<le> 0"
    proof (cases "a \<le> i")
      case True
      then obtain a' where "a' < Suc (Suc i)" "zs ! a = xs ! a'" using origin by blast
      then show ?thesis using ab t root [of a'] by (auto simp: above tail_sorted_def len)
    next
      case False
      then show ?thesis using ab t i by (auto simp: above tail_sorted_def len)
    qed
  qed
qed

lemma unheap_sorted: "i < length xs \<Longrightarrow> set xs \<subseteq> D \<Longrightarrow> heap_from cmp xs 0 (Suc i) \<Longrightarrow> tail_sorted xs i \<Longrightarrow>
    tail_sorted (unheap cmp xs i) 0"
proof (induction i arbitrary: xs)
  case (Suc i)
  note step = unheap_step [OF Suc.prems(2,1,3,4)]
  show ?case using Suc.IH [OF _ step] Suc.prems(1) by simp
qed simp

lemma heap_sort_sorted:
  assumes D: "set xs \<subseteq> D"
  shows "sorted_wrt (\<lambda>x y. cmp x y \<le> 0) (heap_sort cmp xs)"
proof (cases "2 \<le> length xs")
  case True
  let ?k = "(length xs - 2) div 2"
  have k: "?k < length xs" using True by linarith
  have "heap_from cmp xs (Suc ?k) (length xs)" using True by (intro heap_from_leaves) presburger
  then have h: "heap_from cmp (heapify cmp xs ?k) 0 (length xs)" using heapify_heap [OF k D] by blast
  have "set (heapify cmp xs ?k) \<subseteq> D" using heapify_perm [OF k, of cmp] D by (metis set_mset_mset)
  moreover obtain m where m: "length xs = Suc m" using True by (cases xs) auto
  moreover have "tail_sorted (heapify cmp xs ?k) m" using m by (simp add: tail_sorted_def)
  ultimately have "tail_sorted (unheap cmp (heapify cmp xs ?k) m) 0"
    using unheap_sorted [of m "heapify cmp xs ?k"] h by (simp del: heapify.simps)
  then have "tail_sorted (heap_sort cmp xs) 0" using True m by (simp add: heap_sort_def)
  then show ?thesis by (auto simp: sorted_wrt_iff_nth_less tail_sorted_def)
next
  case False
  then have "length xs = 0 \<or> length xs = 1" by linarith
  then show ?thesis by (auto simp: heap_sort_def length_Suc_conv)
qed

end

section \<open>The code computes heap sort\<close>

lemma sk_load_front [simp]:
  "sk_data sk = ys @ zs \<Longrightarrow> unat i < length ys \<Longrightarrow> sk_load sk i = Some (ys ! unat i)"
  by (simp add: sk_load_def nth_append)

lemma sk_swap_front:
  "sk_data sk = ys @ zs \<Longrightarrow> unat i < length ys \<Longrightarrow> unat j < length ys \<Longrightarrow>
     sk_swap sk i j = Some (sk\<lparr>sk_data := swapped ys (unat i) (unat j) @ zs\<rparr>)"
  by (auto simp: sk_swap_def sk_store_def swapped_def nth_append list_update_append)

lemma left_idx_nat: "unat i < 2 ^ 32 \<Longrightarrow> left_idx i = Some (2 * i + 1) \<and> unat (2 * i + 1) = 2 * unat i + 1"
proof -
  assume a: "unat i < 2 ^ 32"
  have "unat (2 * i + 1 :: u64) = 2 * unat i + 1"
    using a by (simp add: unat_word_ariths)
  moreover have "i \<le> PTRDIFF_MAX" using a by (simp add: word_le_nat_alt PTRDIFF_MAX_def)
  ultimately show ?thesis by (simp add: left_idx_def)
qed

lemma heap_next_largest:
  assumes d: "sk_data sk = ys @ zs" "unat num \<le> length ys" "length ys < 2 ^ 32"
    and i: "2 * unat i + 1 < unat num"
  shows "\<exists>nxt. heap_next cmp sk i (2 * i + 1) num = Some nxt \<and> unat nxt = largest cmp ys (unat i) (unat num)"
proof -
  have l: "unat (2 * i + 1) = 2 * unat i + 1" using left_idx_nat [of i] d i by simp
  have r: "unat (2 * i + 1 + 1) = 2 * unat i + 2" using l d i by (simp add: unat_word_ariths)
  have b: "sk_below cmp sk i (2 * i + 1) = Some (cmp (ys ! unat i) (ys ! (2 * unat i + 1)) < 0)"
    using d i l by (simp add: sk_below_def)
  define n where "n = (if cmp (ys ! unat i) (ys ! (2 * unat i + 1)) < 0 then 2 * i + 1 else i)"
  have n: "unat n = (if cmp (ys ! unat i) (ys ! (2 * unat i + 1)) < 0 then 2 * unat i + 1 else unat i)"
    using l by (simp add: n_def)
  have n_len: "unat n < length ys" using n d i by (simp split: if_splits)
  have step: "heap_next cmp sk i (2 * i + 1) num =
      (if 2 * i + 1 + 1 < num
       then Option.bind (sk_below cmp sk n (2 * i + 1 + 1)) (\<lambda>b. Some (if b then 2 * i + 1 + 1 else n)) else Some n)"
    by (simp only: heap_next_def b n_def Let_def Option.bind.bind_lunit)
  show ?thesis
  proof (cases "2 * unat i + 2 < unat num")
    case True
    then have "sk_below cmp sk n (2 * i + 1 + 1) = Some (cmp (ys ! unat n) (ys ! (2 * unat i + 2)) < 0)"
      using d r n_len by (simp add: sk_below_def)
    moreover have "2 * i + 1 + 1 < num" using True r by (simp only: word_less_nat_alt)
    ultimately have "heap_next cmp sk i (2 * i + 1) num = Some (if cmp (ys ! unat n) (ys ! (2 * unat i + 2)) < 0 then 2 * i + 1 + 1 else n)"
      using step by (simp only: if_True Option.bind.bind_lunit)
    then show ?thesis using True r n by (simp add: largest_def)
  next
    case False
    then have "\<not> 2 * i + 1 + 1 < num" unfolding word_less_nat_alt r .
    then have "heap_next cmp sk i (2 * i + 1) num = Some n" using step by (simp only: if_False)
    then show ?thesis using False n by (simp add: largest_def)
  qed
qed

lemma sk_same_data: "sk_data sk = d \<Longrightarrow> sk\<lparr>sk_data := d\<rparr> = sk"
  by auto

lemma down_heap_loop_sift:
  assumes "sk_data sk = ys @ zs" "unat num \<le> length ys" "length ys < 2 ^ 32" "unat i < unat num"
  shows "down_heap_loop cmp sk i num = Some (sk\<lparr>sk_data := sift cmp ys (unat i) (unat num) @ zs\<rparr>)"
  using assms
proof (induction "unat num - unat i" arbitrary: sk ys i rule: less_induct)
  case less
  have l: "left_idx i = Some (2 * i + 1)" "unat (2 * i + 1) = 2 * unat i + 1"
    using left_idx_nat [of i] less.prems by simp_all
  show ?case
  proof (cases "unat num \<le> 2 * unat i + 1")
    case True
    then show ?thesis
      using l less.prems by (subst down_heap_loop.simps, subst sift.simps) (simp add: word_le_nat_alt sk_same_data)
  next
    case False
    let ?j = "largest cmp ys (unat i) (unat num)"
    obtain nxt where nxt: "heap_next cmp sk i (2 * i + 1) num = Some nxt" "unat nxt = ?j"
      using heap_next_largest less.prems False by (metis not_le)
    have j: "?j < unat num" using False by (intro largest_less) simp
    have eq: "i = nxt \<longleftrightarrow> ?j = unat i" using nxt(2) by (auto simp flip: word_unat_eq_iff)
    show ?thesis
    proof (cases "?j = unat i")
      case True
      then have "nxt = i" using eq by simp
      then have "down_heap_loop cmp sk i num = Some sk"
        using l nxt(1) False by (subst down_heap_loop.simps) (simp add: word_le_nat_alt)
      moreover have "sift cmp ys (unat i) (unat num) = ys" using True by (subst sift.simps) simp
      ultimately show ?thesis using sk_same_data [OF less.prems(1)] by simp
    next
      case False': False
      have sw: "sk_swap sk i nxt = Some (sk\<lparr>sk_data := swapped ys (unat i) ?j @ zs\<rparr>)"
        using sk_swap_front [OF less.prems(1), of i nxt] nxt(2) less.prems j by simp
      have "down_heap_loop cmp (sk\<lparr>sk_data := swapped ys (unat i) ?j @ zs\<rparr>) nxt num =
          Some (sk\<lparr>sk_data := sift cmp (swapped ys (unat i) ?j) ?j (unat num) @ zs\<rparr>)"
        using less.hyps [of nxt "sk\<lparr>sk_data := swapped ys (unat i) ?j @ zs\<rparr>" "swapped ys (unat i) ?j"]
          less.prems j nxt(2) largest_greater [OF False'] by simp
      moreover have "sift cmp ys (unat i) (unat num) = sift cmp (swapped ys (unat i) ?j) ?j (unat num)"
        using False False' by (subst sift.simps) simp
      ultimately show ?thesis
        using l nxt eq False' False sw by (subst down_heap_loop.simps) (simp add: word_le_nat_alt)
    qed
  qed
qed

lemma down_heap_sift:
  assumes "sk_data sk = ys @ zs" "unat num \<le> length ys" "length ys < 2 ^ 32" "unat i < unat num"
    "num \<le> sk_num_of sk"
  shows "down_heap cmp sk i num = Some (sk\<lparr>sk_data := sift cmp ys (unat i) (unat num) @ zs\<rparr>)"
  using assms down_heap_loop_sift [OF assms(1-4)] by (simp add: down_heap_def word_less_nat_alt)

lemma build_heap_loop_heapify:
  assumes "sk_data sk = ys @ zs" "unat (sk_num_of sk) = length ys" "length ys < 2 ^ 32" "unat i < length ys"
  shows "build_heap_loop cmp sk i = Some (sk\<lparr>sk_data := heapify cmp ys (unat i) @ zs\<rparr>)"
  using assms
proof (induction "unat i" arbitrary: sk ys i)
  case 0
  then have i: "i = 0" by (simp add: unat_eq_0)
  have d: "down_heap cmp sk i (sk_num_of sk) = Some (sk\<lparr>sk_data := sift cmp ys 0 (length ys) @ zs\<rparr>)"
    using 0 down_heap_sift [of sk ys zs "sk_num_of sk" i cmp] by simp
  have "\<not> (0 - 1 :: u64) < sk_num_of sk" using word_n1_ge [of "sk_num_of sk"] by (simp add: not_less)
  then have "build_heap_loop cmp (sk\<lparr>sk_data := sift cmp ys 0 (length ys) @ zs\<rparr>) (i - 1) =
      Some (sk\<lparr>sk_data := sift cmp ys 0 (length ys) @ zs\<rparr>)"
    using i by (subst build_heap_loop.simps) simp
  then show ?case
    using 0 d i by (subst build_heap_loop.simps) (simp add: word_less_nat_alt)
next
  case (Suc n)
  have i: "unat (i - 1) = n" using Suc(2) by (metis Suc_eq_plus1 Zero_not_Suc add_diff_cancel_right' unat_0 unat_minus_one)
  have d: "down_heap cmp sk i (sk_num_of sk) = Some (sk\<lparr>sk_data := sift cmp ys (Suc n) (length ys) @ zs\<rparr>)"
    using Suc.prems Suc(2) down_heap_sift [of sk ys zs "sk_num_of sk" i cmp] by simp
  have "build_heap_loop cmp (sk\<lparr>sk_data := sift cmp ys (Suc n) (length ys) @ zs\<rparr>) (i - 1) =
      Some (sk\<lparr>sk_data := heapify cmp (sift cmp ys (Suc n) (length ys)) n @ zs\<rparr>)"
    using Suc(1) [of "i - 1" "sk\<lparr>sk_data := sift cmp ys (Suc n) (length ys) @ zs\<rparr>" "sift cmp ys (Suc n) (length ys)"]
      Suc(2) Suc.prems i by simp
  then show ?case
    using d Suc.prems by (subst build_heap_loop.simps) (simp add: word_less_nat_alt flip: Suc(2))
qed

lemma extract_loop_unheap:
  assumes "sk_data sk = ys @ zs" "unat (sk_num_of sk) = length ys" "length ys < 2 ^ 32" "unat i < length ys"
  shows "extract_loop cmp sk i = Some (sk\<lparr>sk_data := unheap cmp ys (unat i) @ zs\<rparr>)"
  using assms
proof (induction "unat i" arbitrary: sk ys i)
  case 0
  then show ?case by (subst extract_loop.simps) (simp add: unat_eq_0 flip: 0(2))
next
  case (Suc n)
  have i: "unat (i - 1) = n" "0 < i" using Suc(2)
    by (metis Suc_eq_plus1 Zero_not_Suc add_diff_cancel_right' unat_0 unat_minus_one, metis Zero_not_Suc unat_0 word_gt_0)
  let ?ys = "swapped ys 0 (Suc n)" and ?zs = "sift cmp (swapped ys 0 (Suc n)) 0 (Suc n)"
  have sw: "sk_swap sk 0 i = Some (sk\<lparr>sk_data := ?ys @ zs\<rparr>)"
    using Suc.prems by (subst sk_swap_front) (auto simp flip: Suc(2))
  have d: "down_heap cmp (sk\<lparr>sk_data := ?ys @ zs\<rparr>) 0 i = Some (sk\<lparr>sk_data := ?zs @ zs\<rparr>)"
    using down_heap_sift [of "sk\<lparr>sk_data := ?ys @ zs\<rparr>" ?ys zs i 0 cmp] Suc.prems
    by (simp add: word_le_nat_alt flip: Suc(2))
  have "extract_loop cmp (sk\<lparr>sk_data := ?zs @ zs\<rparr>) (i - 1) = Some (sk\<lparr>sk_data := unheap cmp ?zs n @ zs\<rparr>)"
    using Suc(1) [of "i - 1" "sk\<lparr>sk_data := ?zs @ zs\<rparr>" ?zs] Suc(2) Suc.prems i by simp
  then show ?case
    using d sw i by (subst extract_loop.simps) (simp flip: Suc(2))
qed

end
