(* ===== verification/Boring_Stack_Theorems.thy ===== *)
theory Boring_Stack_Theorems
  imports Boring_Stack_Correct "HOL-Library.Sublist"
begin

text \<open>
  The stack as a list: the first \<open>num\<close> entries of the block. Insertion and removal act on the list,
  sorting orders it, and searching finds the first match, on every stack that is built with the
  functions of the file other than \<open>OPENSSL_sk_set\<close> and deep copies that change the order of the
  entries; those do not reset the flag \<open>sorted\<close>.
\<close>

definition sk_list :: "('p, 'c) stack_st \<Rightarrow> 'p option list" where
  "sk_list sk = take (unat (sk_num_of sk)) (sk_data sk)"

definition sk_ok :: "('p, 'c) stack_st \<Rightarrow> bool" where
  "sk_ok sk \<longleftrightarrow> length (sk_data sk) = unat (sk_num_alloc sk) \<and> sk_num_of sk < sk_num_alloc sk \<and> sk_num_of sk \<le> INT_MAX64"

definition sk_flag_ok :: "('p, 'c) cmp_caller \<Rightarrow> ('p, 'c) stack_st \<Rightarrow> bool" where
  "sk_flag_ok call_cmp sk \<longleftrightarrow>
     (\<forall>cf. sk_comp sk = Some cf \<and> sk_sorted sk \<longrightarrow> sorted_wrt (\<lambda>x y. call_cmp cf x y \<le> 0) (sk_list sk))"

lemma sk_ok_bounds:
  assumes "sk_ok sk"
  shows "unat (sk_num_of sk) < length (sk_data sk)" "length (sk_list sk) = unat (sk_num_of sk)"
    "length (sk_list sk) < 2 ^ 32" "sk_data sk = sk_list sk @ drop (unat (sk_num_of sk)) (sk_data sk)"
proof -
  show a: "unat (sk_num_of sk) < length (sk_data sk)" using assms by (simp add: sk_ok_def word_less_nat_alt)
  then show b: "length (sk_list sk) = unat (sk_num_of sk)" by (simp add: sk_list_def)
  have "unat (sk_num_of sk) \<le> 0x7FFFFFFF" using assms by (simp add: sk_ok_def word_le_nat_alt INT_MAX64_def)
  then show "length (sk_list sk) < 2 ^ 32" using b by simp
  show "sk_data sk = sk_list sk @ drop (unat (sk_num_of sk)) (sk_data sk)" by (simp add: sk_list_def)
qed

lemma sk_load_list: "sk_ok sk \<Longrightarrow> unat i < length (sk_list sk) \<Longrightarrow> sk_load sk i = Some (sk_list sk ! unat i)"
  using sk_load_front sk_ok_bounds(4) by blast

section \<open>Growth, insertion and removal\<close>

lemma sk_new_alloc_fits:
  assumes "unat n \<le> 2 ^ 33"
  shows "unat (sk_new_alloc n) = 2 * unat n" "sk_new_alloc n * 8 div 8 = sk_new_alloc n"
proof -
  have d: "unat (push_bit 1 n) = 2 * unat n"
    using assms by (simp add: push_bit_eq_mult unat_word_ariths)
  have m: "unat (push_bit 1 n * 8) = 16 * unat n"
    using assms d by (simp add: unat_word_ariths del: push_bit_of_1)
  have q: "push_bit 1 n * 8 div 8 = push_bit 1 n"
    using d m by (simp add: word_unat_eq_iff unat_div del: push_bit_of_1)
  have ge: "\<not> push_bit 1 n < n" using d by (simp add: word_less_nat_alt)
  have "sk_new_alloc n = push_bit 1 n" unfolding sk_new_alloc_def Let_def using q ge by simp
  then show "unat (sk_new_alloc n) = 2 * unat n" "sk_new_alloc n * 8 div 8 = sk_new_alloc n"
    using d q by simp_all
qed

lemma unat_sk_num_suc: "sk_ok sk \<Longrightarrow> unat (sk_num_of sk + 1) = Suc (unat (sk_num_of sk))"
  using sk_ok_bounds(2,3) [of sk] by (simp add: unat_word_ariths)

lemma sk_grow_ok:
  assumes ok: "sk_ok sk" and g: "sk_grow A sk = Some t"
  shows "sk_num_of t = sk_num_of sk" "sk_comp t = sk_comp sk" "sk_list t = sk_list sk"
    "length (sk_data t) = unat (sk_num_alloc t)" "Suc (unat (sk_num_of sk)) < length (sk_data t)"
proof -
  note b = sk_ok_bounds [OF ok]
  let ?n = "sk_num_alloc sk"
  have len: "length (sk_data sk) = unat ?n" "sk_num_of sk < ?n" using ok by (simp_all add: sk_ok_def)
  have "sk_num_of t = sk_num_of sk \<and> sk_comp t = sk_comp sk \<and> sk_list t = sk_list sk \<and>
      length (sk_data t) = unat (sk_num_alloc t) \<and> Suc (unat (sk_num_of sk)) < length (sk_data t)"
  proof (cases "?n \<le> sk_num_of sk + 1")
    case True
    then have n: "unat ?n = Suc (unat (sk_num_of sk))"
      using len unat_sk_num_suc [OF ok] by (simp add: word_le_nat_alt word_less_nat_alt)
    then have new: "unat (sk_new_alloc ?n) = 2 * unat ?n" "sk_new_alloc ?n * 8 div 8 = sk_new_alloc ?n"
      using sk_new_alloc_fits [of ?n] b(2,3) by simp_all
    then have t: "t = sk\<lparr>sk_data := take (unat (sk_new_alloc ?n)) (sk_data sk) @
          map (sk_fresh A) [length (sk_data sk)..<unat (sk_new_alloc ?n)], sk_num_alloc := sk_new_alloc ?n\<rparr>"
      using g True by (simp add: sk_grow_def Let_def split: if_splits)
    then show ?thesis using n new len by (simp add: sk_list_def)
  next
    case False
    then have "t = sk" using g by (simp add: sk_grow_def)
    then show ?thesis using False unat_sk_num_suc [OF ok] len by (simp add: word_less_nat_alt not_le)
  qed
  then show "sk_num_of t = sk_num_of sk" "sk_comp t = sk_comp sk" "sk_list t = sk_list sk"
    "length (sk_data t) = unat (sk_num_alloc t)" "Suc (unat (sk_num_of sk)) < length (sk_data t)"
    by simp_all
qed

text \<open>Inserting \<open>p\<close> at \<open>n\<close>, or at the end when \<open>n\<close> is beyond it.\<close>

definition insert_at :: "nat \<Rightarrow> 'a \<Rightarrow> 'a list \<Rightarrow> 'a list" where
  "insert_at n p xs = take n xs @ p # drop n xs"

lemma sk_insert_block:
  assumes n: "unat (sk_num_of t) < length (sk_data t)"
  shows "\<exists>u. (if sk_num_of t \<le> pos then sk_store t (sk_num_of t) p
         else Option.bind (sk_move t (pos + 1) pos (sk_num_of t - pos)) (\<lambda>sk. sk_store sk pos p)) = Some u \<and>
       sk_num_of u = sk_num_of t \<and> sk_comp u = sk_comp t \<and> sk_num_alloc u = sk_num_alloc t \<and>
       length (sk_data u) = length (sk_data t) \<and>
       take (Suc (unat (sk_num_of t))) (sk_data u) = insert_at (unat pos) p (sk_list t)"
proof (cases "sk_num_of t \<le> pos")
  case True
  then show ?thesis
    using n by (simp add: sk_store_def sk_list_def word_le_nat_alt insert_at_def take_Suc_conv_app_nth)
next
  case False
  let ?n = "unat (sk_num_of t)" and ?i = "unat pos" and ?d = "sk_data t"
  have i: "?i < ?n" using False by (simp add: word_le_nat_alt)
  have p1: "unat (pos + 1) = Suc ?i" 
  proof -
    have "unat (sk_num_of t) < 2 ^ LENGTH(64)" by (rule unsigned_less)
    then show ?thesis using i by (simp add: unat_word_ariths)
  qed
  have sub: "unat (sk_num_of t - pos) = ?n - ?i" using i by (simp add: unat_sub word_le_nat_alt)
  let ?moved = "take (Suc ?i) ?d @ take (?n - ?i) (drop ?i ?d) @ drop (Suc ?n) ?d"
  have mv: "sk_move t (pos + 1) pos (sk_num_of t - pos) = Some (t\<lparr>sk_data := ?moved\<rparr>)"
    using i n p1 sub by (simp add: sk_move_def Let_def)
  have len: "length ?moved = length ?d" using i n by simp
  have "?moved = take ?i ?d @ (?d ! ?i) # take (?n - ?i) (drop ?i ?d) @ drop (Suc ?n) ?d"
    using i n by (simp add: take_Suc_conv_app_nth)
  then have "?moved[?i := p] = take ?i ?d @ p # take (?n - ?i) (drop ?i ?d) @ drop (Suc ?n) ?d"
    using i n by (simp add: list_update_append)
  then have "take (Suc ?n) (?moved[?i := p]) = insert_at ?i p (sk_list t)"
    using i n by (simp add: insert_at_def sk_list_def drop_take Suc_diff_le min_def)
  then show ?thesis using False mv len i n by (simp add: sk_store_def)
qed

lemma insert_at_length [simp]: "length (insert_at n p xs) = Suc (length xs)"
  by (simp add: insert_at_def)

lemma insert_at_end: "length xs \<le> n \<Longrightarrow> insert_at n p xs = xs @ [p]"
  by (simp add: insert_at_def)

lemma set_insert_at: "set (insert_at n p xs) = insert p (set xs)"
  by (metis Un_insert_right append_take_drop_id insert_at_def list.simps(15) set_append)

text \<open>What \<open>OPENSSL_sk_insert\<close> does: it refuses, or inserts and forgets the order.\<close>

lemma sk_insert_outcome:
  assumes ok: "sk_ok sk"
  shows "\<exists>r t. OPENSSL_sk_insert A (Some sk) p pos = Some (r, Some t) \<and>
    (r = 0 \<and> t = sk \<and> (sk_num_of sk = INT_MAX64 \<or> sk_grow A sk = None) \<or>
     r = sk_num_of sk + 1 \<and> sk_num_of sk < INT_MAX64 \<and> sk_ok t \<and> \<not> sk_sorted t \<and> sk_comp t = sk_comp sk \<and>
     sk_list t = insert_at (unat pos) p (sk_list sk))"
proof (cases "INT_MAX64 \<le> sk_num_of sk")
  case True
  then show ?thesis using ok by (simp add: OPENSSL_sk_insert_def sk_ok_def)
next
  case small: False
  show ?thesis
  proof (cases "sk_grow A sk")
    case None
    then show ?thesis using small by (simp add: OPENSSL_sk_insert_def)
  next
    case (Some g)
    note G = sk_grow_ok [OF ok Some]
    obtain u where u: "(if sk_num_of g \<le> pos then sk_store g (sk_num_of g) p
         else Option.bind (sk_move g (pos + 1) pos (sk_num_of g - pos)) (\<lambda>sk. sk_store sk pos p)) = Some u"
       "sk_num_of u = sk_num_of g" "sk_comp u = sk_comp g" "sk_num_alloc u = sk_num_alloc g"
       "length (sk_data u) = length (sk_data g)"
       "take (Suc (unat (sk_num_of g))) (sk_data u) = insert_at (unat pos) p (sk_list g)"
      using sk_insert_block [of g pos p] G by auto
    let ?t = "u\<lparr>sk_num_of := sk_num_of u + 1, sk_sorted := False\<rparr>"
    have num: "unat (sk_num_of u + 1) = Suc (unat (sk_num_of sk))" using unat_sk_num_suc [OF ok] u(2) G(1) by simp
    have "sk_ok ?t"
      using num u(4,5) G(4,5) small
      by (simp add: sk_ok_def word_less_nat_alt word_le_nat_alt)
    moreover have "sk_list ?t = insert_at (unat pos) p (sk_list sk)" using num u(6) G by (simp add: sk_list_def)
    moreover have "OPENSSL_sk_insert A (Some sk) p pos = Some (sk_num_of u + 1, Some ?t)"
      using u(1) small Some by (simp add: OPENSSL_sk_insert_def)
    ultimately show ?thesis using u(2,3) G(1,2) small by (simp add: not_le)
  qed
qed

definition remove_at :: "nat \<Rightarrow> 'a list \<Rightarrow> 'a list" where
  "remove_at n xs = take n xs @ drop (Suc n) xs"

lemma remove_at_subseq: "subseq (remove_at n xs) xs"
proof -
  have "subseq (drop 1 (drop n xs)) (drop n xs)" by (rule suffix_imp_subseq, rule suffix_drop)
  then have "subseq (take n xs @ drop (Suc n) xs) (take n xs @ drop n xs)"
    by (intro list_emb_append_mono) simp_all
  then show ?thesis by (simp add: remove_at_def)
qed

lemma sorted_wrt_subseq: "subseq ys xs \<Longrightarrow> sorted_wrt P xs \<Longrightarrow> sorted_wrt P ys"
  by (induction rule: list_emb.induct) (auto dest: list_emb_set)

lemma sk_delete_outcome:
  assumes ok: "sk_ok sk" and pos: "pos < sk_num_of sk"
  shows "\<exists>t. OPENSSL_sk_delete (Some sk) pos = Some (sk_list sk ! unat pos, Some t) \<and> sk_ok t \<and>
    sk_list t = remove_at (unat pos) (sk_list sk) \<and> sk_sorted t = sk_sorted sk \<and> sk_comp t = sk_comp sk"
proof -
  note b = sk_ok_bounds [OF ok]
  let ?n = "unat (sk_num_of sk)" and ?i = "unat pos" and ?d = "sk_data sk"
  have i: "?i < ?n" using pos by (simp add: word_less_nat_alt)
  have p1: "unat (pos + 1) = Suc ?i" using i b(2,3) by (simp add: unat_word_ariths)
  have n1: "unat (sk_num_of sk - 1) = ?n - 1" using i by (simp add: unat_sub word_le_nat_alt)
  have sub: "unat (sk_num_of sk - pos - 1) = ?n - ?i - 1" using i pos
    by (subst unat_sub; simp add: word_le_nat_alt unat_sub)
  have ld: "sk_load sk pos = Some (sk_list sk ! ?i)" using sk_load_list [OF ok] i b(2) by simp
  have "\<exists>u. (if pos \<noteq> sk_num_of sk - 1 then sk_move sk pos (pos + 1) (sk_num_of sk - pos - 1) else Some sk) = Some u \<and>
      length (sk_data u) = length ?d \<and> u = sk\<lparr>sk_data := sk_data u\<rparr> \<and>
      take (?n - 1) (sk_data u) = remove_at ?i (sk_list sk)"
  proof (cases "pos = sk_num_of sk - 1")
    case True
    then have "?i = ?n - 1" using n1 by simp
    then show ?thesis using True i by (simp add: remove_at_def sk_list_def)
  next
    case False
    then have "?i \<noteq> ?n - 1" using n1 by (metis word_unat_eq_iff)
    then have "?i < ?n - 1" using i by simp
    then show ?thesis using False i b(1) p1 sub
      by (simp add: sk_move_def Let_def remove_at_def sk_list_def take_drop min_def)
  qed
  then obtain u where u: "(if pos \<noteq> sk_num_of sk - 1 then sk_move sk pos (pos + 1) (sk_num_of sk - pos - 1) else Some sk) = Some u"
      "length (sk_data u) = length ?d" "u = sk\<lparr>sk_data := sk_data u\<rparr>" "take (?n - 1) (sk_data u) = remove_at ?i (sk_list sk)"
    by blast
  obtain d where d: "u = sk\<lparr>sk_data := d\<rparr>" using u(3) by blast
  let ?t = "u\<lparr>sk_num_of := sk_num_of sk - 1\<rparr>"
  have "?n - 1 < unat (sk_num_alloc sk)" "?n - 1 \<le> unat INT_MAX64"
    using ok by (auto simp: sk_ok_def word_less_nat_alt word_le_nat_alt)
  then have "sk_ok ?t" using ok u(2) d n1 by (simp add: sk_ok_def word_less_nat_alt word_le_nat_alt)
  moreover have "sk_list ?t = remove_at ?i (sk_list sk)" using u(4) d n1 by (simp add: sk_list_def)
  moreover have "OPENSSL_sk_delete (Some sk) pos = Some (sk_list sk ! ?i, Some ?t)"
    using ld u(1) d pos by (simp add: OPENSSL_sk_delete_def flip: not_less)
  ultimately show ?thesis using d by simp
qed

text \<open>Filtering a list with a callback that threads a state.\<close>

primrec kept :: "('a \<Rightarrow> 's \<Rightarrow> bool \<times> 's) \<Rightarrow> 'a list \<Rightarrow> 's \<Rightarrow> 'a list \<times> 's" where
  "kept del [] s = ([], s)"
| "kept del (x # xs) s =
     (case del x s of (gone, s) \<Rightarrow> case kept del xs s of (ys, s) \<Rightarrow> (if gone then ys else x # ys, s))"

lemma kept_Cons [simp]:
  "fst (kept del (x # xs) s) =
     (if fst (del x s) then fst (kept del xs (snd (del x s))) else x # fst (kept del xs (snd (del x s))))"
  "snd (kept del (x # xs) s) = snd (kept del xs (snd (del x s)))"
  by (simp_all split: prod.splits)

declare kept.simps(2) [simp del]

lemma kept_length: "length (fst (kept del xs s)) \<le> length xs"
  by (induction xs arbitrary: s) (simp_all add: le_SucI)

lemma kept_subseq: "subseq (fst (kept del xs s)) xs"
  by (induction xs arbitrary: s) (simp_all add: list_emb_Cons)

lemma kept_filter: "kept (\<lambda>x s. (P x, s)) xs s = (filter (\<lambda>x. \<not> P x) xs, s)"
  by (induction xs) (auto simp: kept.simps(2))

lemma delete_if_loop_kept:
  assumes "sk_data sk = ks @ js @ xs @ zs" "unat new_num = length ks" "unat i = length ks + length js"
    "length ks + length js + length xs < 2 ^ 32"
  shows "\<exists>js'. delete_if_loop del i (length xs) new_num (sk, s) =
    Some (word_of_nat (length ks + length (fst (kept del xs s))),
          sk\<lparr>sk_data := ks @ fst (kept del xs s) @ js' @ zs\<rparr>, snd (kept del xs s))
    \<and> length js' + length (fst (kept del xs s)) = length js + length xs"
  using assms
proof (induction xs arbitrary: sk ks js i new_num s)
  case Nil
  then have "word_of_nat (length ks) = new_num" by (simp flip: Nil.prems(2))
  then show ?case using sk_same_data [OF Nil.prems(1)] by (intro exI [of _ js]) simp
next
  case (Cons x xs)
  have i1: "unat (i + 1) = Suc (length ks + length js)" and n1: "unat (new_num + 1) = Suc (length ks)"
    using Cons.prems by (simp_all add: unat_word_ariths)
  have ld: "sk_load sk i = Some x" using Cons.prems by (simp add: sk_load_def nth_append)
  obtain gone s' where d: "del x s = (gone, s')" by fastforce
  show ?case
  proof (cases gone)
    case True
    show ?thesis
      using Cons.IH [of sk ks "js @ [x]" new_num "i + 1" s'] Cons.prems i1 ld d True
      by (auto split: prod.splits)
  next
    case False
    obtain js' where js': "sk_store sk new_num x = Some (sk\<lparr>sk_data := (ks @ [x]) @ js' @ xs @ zs\<rparr>)" "length js' = length js"
    proof (cases js)
      case Nil
      then have "(sk_data sk)[unat new_num := x] = (ks @ [x]) @ [] @ xs @ zs"
        using Cons.prems by simp
      moreover have "unat new_num < length (sk_data sk)" using Cons.prems by simp
      ultimately show ?thesis using that [of "[]"] Nil by (simp add: sk_store_def)
    next
      case (Cons j js)
      then have "(sk_data sk)[unat new_num := x] = (ks @ [x]) @ (js @ [x]) @ xs @ zs"
        using Cons.prems by simp
      moreover have "unat new_num < length (sk_data sk)" using Cons.prems by simp
      ultimately show ?thesis using that [of "js @ [x]"] Cons by (simp add: sk_store_def)
    qed
    show ?thesis
      using Cons.IH [of "sk\<lparr>sk_data := (ks @ [x]) @ js' @ xs @ zs\<rparr>" "ks @ [x]" js' "new_num + 1" "i + 1" s']
        Cons.prems i1 n1 ld d False js'
      by (auto split: prod.splits)
  qed
qed

lemma sk_delete_if_outcome:
  assumes ok: "sk_ok sk"
  shows "\<exists>t. OPENSSL_sk_delete_if del (Some sk) s = Some (Some t, snd (kept del (sk_list sk) s)) \<and> sk_ok t \<and>
    sk_list t = fst (kept del (sk_list sk) s) \<and> sk_sorted t = sk_sorted sk \<and> sk_comp t = sk_comp sk"
proof -
  note b = sk_ok_bounds [OF ok]
  let ?ks = "fst (kept del (sk_list sk) s)" and ?z = "drop (unat (sk_num_of sk)) (sk_data sk)"
  obtain js where js: "delete_if_loop del 0 (length (sk_list sk)) 0 (sk, s) =
      Some (word_of_nat (length ?ks), sk\<lparr>sk_data := ?ks @ js @ ?z\<rparr>, snd (kept del (sk_list sk) s))"
      "length js + length ?ks = length (sk_list sk)"
    using delete_if_loop_kept [of sk "[]" "[]" "sk_list sk" ?z 0 0 del s] b by auto
  let ?t = "sk\<lparr>sk_data := ?ks @ js @ ?z, sk_num_of := word_of_nat (length ?ks)\<rparr>"
  have le: "length ?ks \<le> unat (sk_num_of sk)" using kept_length [of del "sk_list sk" s] b(2) by simp
  have un: "unat (word_of_nat (length ?ks) :: u64) = length ?ks"
    using le b(2,3) by (simp add: unat_of_nat)
  have "sk_ok ?t" using ok un le js(2) b by (auto simp: sk_ok_def word_less_nat_alt word_le_nat_alt)
  moreover have "sk_list ?t = ?ks" using un by (simp add: sk_list_def)
  ultimately show ?thesis using js b(2) by (simp add: OPENSSL_sk_delete_if_def)
qed

section \<open>Sorting\<close>

lemma sk_sort_outcome:
  assumes ok: "sk_ok sk" and c: "sk_comp sk = Some cf" "\<not> sk_sorted sk"
  shows "\<exists>t. OPENSSL_sk_sort call_cmp (Some sk) = Some (Some t) \<and> sk_ok t \<and> sk_sorted t \<and> sk_comp t = sk_comp sk \<and>
    sk_list t = heap_sort (call_cmp cf) (sk_list sk)"
proof (cases "2 \<le> sk_num_of sk")
  case True
  note b = sk_ok_bounds [OF ok]
  let ?n = "unat (sk_num_of sk)" and ?cmp = "call_cmp cf" and ?z = "drop (unat (sk_num_of sk)) (sk_data sk)"
  have n: "2 \<le> ?n" using True by (simp add: word_le_nat_alt)
  have n1: "unat (sk_num_of sk - 1) = ?n - 1" using n by (simp add: unat_sub word_le_nat_alt)
  have "unat (sk_num_of sk - 1 - 1) = ?n - 2" using n n1 by (simp add: unat_sub word_le_nat_alt)
  then have par: "parent_idx (sk_num_of sk - 1) = Some ((sk_num_of sk - 1 - 1) div 2)"
      "unat ((sk_num_of sk - 1 - 1) div 2) = (?n - 2) div 2"
    using n n1 by (simp_all add: parent_idx_def word_less_nat_alt unat_div)
  let ?h = "sk\<lparr>sk_data := heapify ?cmp (sk_list sk) ((?n - 2) div 2) @ ?z\<rparr>"
  have h: "build_heap_loop ?cmp sk ((sk_num_of sk - 1 - 1) div 2) = Some ?h"
    using build_heap_loop_heapify [OF b(4), of "(sk_num_of sk - 1 - 1) div 2" ?cmp] b n par(2) by simp
  have "extract_loop ?cmp ?h (sk_num_of sk - 1) =
      Some (?h\<lparr>sk_data := unheap ?cmp (heapify ?cmp (sk_list sk) ((?n - 2) div 2)) (?n - 1) @ ?z\<rparr>)"
    using extract_loop_unheap [of ?h "heapify ?cmp (sk_list sk) ((?n - 2) div 2)" ?z "sk_num_of sk - 1" ?cmp] b n n1 by simp
  then have e: "extract_loop ?cmp ?h (sk_num_of sk - 1) = Some (sk\<lparr>sk_data := heap_sort ?cmp (sk_list sk) @ ?z\<rparr>)"
    using n b by (simp add: heap_sort_def)
  let ?t = "sk\<lparr>sk_data := heap_sort ?cmp (sk_list sk) @ ?z, sk_sorted := True\<rparr>"
  have "sk_ok ?t" using ok b by (simp add: sk_ok_def)
  moreover have "sk_list ?t = heap_sort ?cmp (sk_list sk)" using b(2) by (simp add: sk_list_def)
  moreover have "OPENSSL_sk_sort call_cmp (Some sk) = Some (Some ?t)"
    using c True par h e by (simp add: OPENSSL_sk_sort_def)
  ultimately show ?thesis by auto
next
  case False
  then have "unat (sk_num_of sk) < 2" by (simp add: word_le_nat_alt)
  then have "heap_sort (call_cmp cf) (sk_list sk) = sk_list sk" using sk_ok_bounds(2) [OF ok] by (simp add: heap_sort_def)
  then show ?thesis using c False ok by (simp add: OPENSSL_sk_sort_def sk_ok_def sk_list_def)
qed

section \<open>Searching\<close>

text \<open>The first position of a list that satisfies a predicate.\<close>

primrec first_index :: "('a \<Rightarrow> bool) \<Rightarrow> 'a list \<Rightarrow> nat option" where
  "first_index P [] = None"
| "first_index P (x # xs) = (if P x then Some 0 else map_option Suc (first_index P xs))"

lemma first_indexI: "k < length xs \<Longrightarrow> P (xs ! k) \<Longrightarrow> \<forall>j < k. \<not> P (xs ! j) \<Longrightarrow> first_index P xs = Some k"
proof (induction xs arbitrary: k)
  case (Cons x xs)
  then show ?case by (cases k) force+
qed simp

lemma first_indexD: "first_index P xs = Some k \<Longrightarrow> k < length xs \<and> P (xs ! k) \<and> (\<forall>j < k. \<not> P (xs ! j))"
proof (induction xs arbitrary: k)
  case (Cons x xs)
  then show ?case by (auto split: if_splits simp: nth_Cons' all_simps less_Suc_eq_0_disj)
qed simp

lemma first_index_None: "first_index P xs = None \<longleftrightarrow> (\<forall>x \<in> set xs. \<not> P x)"
  by (induction xs) auto

lemma sk_linear_first:
  assumes "sk_ok sk" "sk_list sk = ys @ xs" "unat i = length ys"
  shows "sk_linear P sk i (length xs) = Some (map_option (\<lambda>k. word_of_nat (length ys + k)) (first_index P xs))"
  using assms(2,3)
proof (induction xs arbitrary: ys i)
  case (Cons x xs)
  note b = sk_ok_bounds [OF assms(1)]
  have i: "unat (i + 1) = length (ys @ [x])" using Cons.prems b(3) by (simp add: unat_word_ariths)
  have ld: "sk_load sk i = Some x" using sk_load_list [OF assms(1), of i] Cons.prems by simp
  have w: "word_of_nat (length ys) = i" by (simp flip: Cons.prems(2))
  show ?case using Cons.IH [of "ys @ [x]" "i + 1"] Cons.prems i ld w
    by (auto simp: option.map_comp o_def ac_simps)
qed simp

lemma bsearch_mid:
  fixes lo hi :: u64
  assumes lt: "lo < hi" and hi: "unat hi < 2 ^ 32"
  defines "mid \<equiv> lo + (hi - lo - 1) div 2"
  shows "unat mid = unat lo + (unat hi - unat lo - 1) div 2" "unat lo \<le> unat mid" "unat mid < unat hi"
    "unat (mid + 1) = Suc (unat mid)" "hi - lo = 1 \<longleftrightarrow> unat hi - unat lo = 1"
proof -
  have l: "unat lo < unat hi" using lt by (simp add: word_less_nat_alt)
  have "unat (hi - lo - 1) = unat hi - unat lo - 1" using l by (subst unat_sub; simp add: word_le_nat_alt unat_sub)
  then show m: "unat mid = unat lo + (unat hi - unat lo - 1) div 2"
    using l hi by (simp add: mid_def unat_word_ariths unat_div)
  show "unat lo \<le> unat mid" "unat mid < unat hi" using m l by auto
  then show "unat (mid + 1) = Suc (unat mid)" using hi by (simp add: unat_word_ariths)
  show "hi - lo = 1 \<longleftrightarrow> unat hi - unat lo = 1"
    using l by (metis unat_1 unat_sub word_le_nat_alt less_imp_le_nat word_unat_eq_iff)
qed

text \<open>Binary search on values whose sign falls along the list.\<close>

lemma sk_bsearch_first:
  assumes ok: "sk_ok sk"
    and mono: "\<And>i j. i < j \<Longrightarrow> j < length (sk_list sk) \<Longrightarrow>
        (r (sk_list sk ! i) < 0 \<longrightarrow> r (sk_list sk ! j) < 0) \<and> (0 < r (sk_list sk ! j) \<longrightarrow> 0 < r (sk_list sk ! i))"
    and inv: "unat lo \<le> unat hi" "unat hi \<le> length (sk_list sk)" "\<forall>j < unat lo. 0 < r (sk_list sk ! j)"
      "\<forall>k. first_index (\<lambda>q. r q = 0) (sk_list sk) = Some k \<longrightarrow> k < unat hi"
  shows "sk_bsearch r sk lo hi = Some (map_option word_of_nat (first_index (\<lambda>q. r q = 0) (sk_list sk)))"
  using inv
proof (induction "unat hi - unat lo" arbitrary: lo hi rule: less_induct)
  case less
  note b = sk_ok_bounds [OF ok]
  let ?xs = "sk_list sk" and ?P = "\<lambda>q. r q = 0"
  show ?case
  proof (cases "lo < hi")
    case False
    then have eq: "lo = hi" using less.prems(1) by (simp add: word_less_nat_alt word_unat_eq_iff)
    have "first_index ?P ?xs = None"
    proof (cases "first_index ?P ?xs")
      case (Some k)
      then have "r (?xs ! k) = 0" "k < unat lo" using first_indexD [OF Some] less.prems(4) eq by auto
      then show ?thesis using less.prems(3) by fastforce
    qed simp
    then show ?thesis using eq by (subst sk_bsearch.simps) simp
  next
    case True
    define mid where "mid = lo + (hi - lo - 1) div 2"
    have "unat hi < 2 ^ 32" using less.prems(2) b(3) by simp
    note M = bsearch_mid [OF True this, folded mid_def]
    note m = M(1) and mlt = M(2,3) and m1 = M(4)
    have ld: "sk_load sk mid = Some (?xs ! unat mid)" using sk_load_list [OF ok] mlt less.prems(2) by simp
    have step: "sk_bsearch r sk lo hi =
        (if r (?xs ! unat mid) > 0 then sk_bsearch r sk (mid + 1) hi
         else if r (?xs ! unat mid) < 0 then sk_bsearch r sk lo mid
         else if hi - lo = 1 then Some (Some mid)
         else if mid + 1 < hi then sk_bsearch r sk lo (mid + 1) else None)"
      using True ld mlt by (subst sk_bsearch.simps) (simp add: Let_def word_le_nat_alt word_less_nat_alt flip: mid_def)
    consider "0 < r (?xs ! unat mid)" | "r (?xs ! unat mid) < 0" | "r (?xs ! unat mid) = 0" by linarith
    then show ?thesis
    proof cases
      case 1
      have "\<forall>j < Suc (unat mid). 0 < r (?xs ! j)"
        using 1 mono [of _ "unat mid"] mlt less.prems(2) by (auto simp: less_Suc_eq)
      then have "sk_bsearch r sk (mid + 1) hi = Some (map_option word_of_nat (first_index ?P ?xs))"
        using less.prems m1 mlt by (intro less.hyps) auto
      then show ?thesis using step 1 by simp
    next
      case 2
      have "k < unat mid" if "first_index ?P ?xs = Some k" for k
        using first_indexD [OF that] 2 mono [of "unat mid" k] by (cases k "unat mid" rule: linorder_cases) auto
      then have "sk_bsearch r sk lo mid = Some (map_option word_of_nat (first_index ?P ?xs))"
        using less.prems mlt by (intro less.hyps) auto
      then show ?thesis using step 2 by simp
    next
      case 3
      show ?thesis
      proof (cases "hi - lo = 1")
        case one: True
        then have "unat mid = unat lo" using m M(5) by simp
        then have "first_index ?P ?xs = Some (unat mid)"
          using 3 less.prems(2,3) mlt by (intro first_indexI) force+
        then show ?thesis using step 3 one by simp
      next
        case False
        then have m2: "Suc (unat mid) < unat hi" using m M(5) mlt by linarith
        have "k < Suc (unat mid)" if "first_index ?P ?xs = Some k" for k
          using first_indexD [OF that] 3 by (meson not_less_eq)
        then have "sk_bsearch r sk lo (mid + 1) = Some (map_option word_of_nat (first_index ?P ?xs))"
          using less.prems mlt m1 m2 by (intro less.hyps) auto
        then show ?thesis using step 3 False m1 m2 by (simp add: word_less_nat_alt)
      qed
    qed
  qed
qed

lemma sk_find_first:
  assumes ok: "sk_ok sk" and flag: "sk_flag_ok call_cmp sk" and c: "sk_comp sk = Some cf"
    and cmp: "comparison (call_cmp cf) D" "p \<in> D" "set (sk_list sk) \<subseteq> D" and p: "p \<noteq> None"
  shows "OPENSSL_sk_find call_cmp (Some sk) p =
    Some (map_option word_of_nat (first_index (\<lambda>q. call_cmp cf p q = 0) (sk_list sk)))"
proof (cases "OPENSSL_sk_is_sorted (Some sk)")
  case False
  then show ?thesis
    using sk_linear_first [OF ok, of "[]" "sk_list sk" 0] sk_ok_bounds(2) [OF ok] c p
    by (auto simp: OPENSSL_sk_find_def)
next
  case True
  note b = sk_ok_bounds [OF ok]
  have s: "sorted_wrt (\<lambda>x y. call_cmp cf x y \<le> 0) (sk_list sk)"
  proof (cases "sk_sorted sk")
    case True
    then show ?thesis using flag c by (simp add: sk_flag_ok_def)
  next
    case False
    then have "length (sk_list sk) < 2" using True c b(2) by (simp add: OPENSSL_sk_is_sorted_def word_less_nat_alt)
    then have "length (sk_list sk) = 0 \<or> length (sk_list sk) = 1" by linarith
    then show ?thesis by (auto simp: length_Suc_conv)
  qed
  have "sk_bsearch (call_cmp cf p) sk 0 (sk_num_of sk) =
      Some (map_option word_of_nat (first_index (\<lambda>q. call_cmp cf p q = 0) (sk_list sk)))"
    using b(2) first_indexD comparison.sorted_signs [OF cmp(1,2,3) s]
    by (intro sk_bsearch_first [OF ok]) fastforce+
  then show ?thesis using True c p by (auto simp: OPENSSL_sk_find_def)
qed

section \<open>Removal at any index\<close>

lemma sk_delete_total:
  assumes ok: "sk_ok sk"
  shows "\<exists>t. OPENSSL_sk_delete (Some sk) pos = Some (if unat pos < length (sk_list sk) then sk_list sk ! unat pos else None, Some t) \<and>
      sk_ok t \<and> sk_list t = take (unat pos) (sk_list sk) @ drop (Suc (unat pos)) (sk_list sk) \<and>
      sk_sorted t = sk_sorted sk \<and> sk_comp t = sk_comp sk"
proof (cases "pos < sk_num_of sk")
  case True
  then show ?thesis
    using sk_delete_outcome [OF ok True] sk_ok_bounds(2) [OF ok] by (auto simp: remove_at_def word_less_nat_alt)
next
  case False
  then have "sk_num_of sk \<le> pos" "length (sk_list sk) \<le> unat pos"
    using sk_ok_bounds(2) [OF ok] by (simp_all add: word_le_nat_alt not_less)
  then show ?thesis using ok by (simp add: OPENSSL_sk_delete_def)
qed

lemma sk_pop_last:
  assumes ok: "sk_ok sk" and ne: "sk_list sk \<noteq> []"
  shows "\<exists>t. OPENSSL_sk_pop (Some sk) = Some (last (sk_list sk), Some t) \<and> sk_ok t \<and> sk_list t = butlast (sk_list sk)"
proof -
  note b = sk_ok_bounds [OF ok]
  have n0: "0 < length (sk_list sk)" using ne by simp
  then have n: "sk_num_of sk \<noteq> 0" using b(2) by auto
  then have u: "unat (sk_num_of sk - 1) = length (sk_list sk) - 1" using b(2) n0 by (simp add: unat_sub word_le_nat_alt)
  have "OPENSSL_sk_pop (Some sk) = OPENSSL_sk_delete (Some sk) (sk_num_of sk - 1)" using n by (simp add: OPENSSL_sk_pop_def)
  then show ?thesis
    using sk_delete_total [OF ok, of "sk_num_of sk - 1"] u n0 ne by (simp add: last_conv_nth butlast_conv_take) blast
qed

lemma sk_insert_total:
  assumes ok: "sk_ok sk"
  shows "\<exists>r t. OPENSSL_sk_insert A (Some sk) p pos = Some (r, Some t) \<and> sk_ok t \<and>
    (if sk_num_of sk = INT_MAX64 \<or> sk_grow A sk = None then r = 0 \<and> t = sk
     else r = sk_num_of sk + 1 \<and> \<not> sk_sorted t \<and> sk_comp t = sk_comp sk \<and>
       sk_list t = take (unat pos) (sk_list sk) @ p # drop (unat pos) (sk_list sk))"
proof (cases "sk_num_of sk = INT_MAX64 \<or> sk_grow A sk = None")
  case True
  then have "OPENSSL_sk_insert A (Some sk) p pos = Some (0, Some sk)"
    by (auto simp: OPENSSL_sk_insert_def)
  then show ?thesis using True ok by simp
next
  case False
  then show ?thesis using sk_insert_outcome [OF ok, of A p pos] by (auto simp: insert_at_def)
qed

section \<open>Copies\<close>

text \<open>An entry and its copy: null stays null, any other pointer becomes a result of the callback.\<close>

definition copied :: "('p \<Rightarrow> 's \<Rightarrow> 'p option \<times> 's) \<Rightarrow> 'p option \<Rightarrow> 'p option \<Rightarrow> bool" where
  "copied copy x y \<longleftrightarrow> (case x of None \<Rightarrow> y = None | Some p \<Rightarrow> y \<noteq> None \<and> (\<exists>s. fst (copy p s) = y))"

lemma sk_store_list:
  assumes "sk_ok sk" "unat i < length (sk_list sk)"
  shows "\<exists>t. sk_store sk i q = Some t \<and> sk_ok t \<and> sk_list t = (sk_list sk)[unat i := q] \<and>
    sk_num_of t = sk_num_of sk \<and> sk_comp t = sk_comp sk \<and> sk_sorted t = sk_sorted sk"
  using assms sk_ok_bounds(1) [OF assms(1)] by (auto simp: sk_store_def sk_ok_def sk_list_def take_update_swap)

lemma deep_copy_loop_list:
  assumes "sk_ok sk" "unat i + n = length (sk_list sk)" "deep_copy_loop copy free i n sk s = Some (Some t, s')"
  shows "sk_ok t \<and> sk_comp t = sk_comp sk \<and> sk_sorted t = sk_sorted sk \<and>
    (\<exists>ys. sk_list t = take (unat i) (sk_list sk) @ ys \<and> list_all2 (copied copy) (drop (unat i) (sk_list sk)) ys)"
  using assms
proof (induction n arbitrary: i sk s)
  case 0
  then show ?case by simp
next
  case (Suc n)
  have lt: "unat i < length (sk_list sk)" using Suc.prems(2) by simp
  have i: "unat (i + 1) = Suc (unat i)" using lt sk_ok_bounds(3) [OF Suc.prems(1)] by (simp add: unat_word_ariths)
  let ?x = "sk_list sk ! unat i"
  have load: "sk_load sk i = Some ?x" by (rule sk_load_list [OF Suc.prems(1) lt])
  have "\<exists>sk1 s1 y. copied copy ?x y \<and> sk_ok sk1 \<and> sk_list sk1 = (sk_list sk)[unat i := y] \<and>
      sk_comp sk1 = sk_comp sk \<and> sk_sorted sk1 = sk_sorted sk \<and>
      deep_copy_loop copy free (i + 1) n sk1 s1 = Some (Some t, s')"
  proof (cases ?x)
    case None
    then have "(sk_list sk)[unat i := None] = sk_list sk" by (metis list_update_id)
    then show ?thesis using None Suc.prems load by (intro exI [of _ sk] exI [of _ s] exI [of _ None]) (simp add: copied_def)
  next
    case (Some p)
    obtain q s1 where q: "copy p s = (q, s1)" by force
    obtain sk1 where sk1: "sk_store sk i q = Some sk1" "sk_ok sk1" "sk_list sk1 = (sk_list sk)[unat i := q]"
        "sk_comp sk1 = sk_comp sk" "sk_sorted sk1 = sk_sorted sk"
      using sk_store_list [OF Suc.prems(1) lt] by blast
    have "q \<noteq> None" using Suc.prems(3) load Some q sk1(1) by (auto split: if_splits)
    then show ?thesis
      using Suc.prems(3) load Some q sk1
      by (intro exI [of _ sk1] exI [of _ s1] exI [of _ q]) (auto simp: copied_def intro: exI [of _ s])
  qed
  then obtain sk1 s1 y where y: "copied copy ?x y" "sk_ok sk1" "sk_list sk1 = (sk_list sk)[unat i := y]"
      "sk_comp sk1 = sk_comp sk" "sk_sorted sk1 = sk_sorted sk"
      "deep_copy_loop copy free (i + 1) n sk1 s1 = Some (Some t, s')" by blast
  obtain ys where ys: "sk_ok t" "sk_comp t = sk_comp sk1" "sk_sorted t = sk_sorted sk1"
      "sk_list t = take (Suc (unat i)) (sk_list sk1) @ ys" "list_all2 (copied copy) (drop (Suc (unat i)) (sk_list sk1)) ys"
    using Suc.IH [OF y(2) _ y(6)] Suc.prems(2) i y(3) by auto
  have "take (Suc (unat i)) (sk_list sk1) = take (unat i) (sk_list sk) @ [y]"
    using lt by (simp add: y(3) take_Suc_conv_app_nth)
  moreover have "drop (unat i) (sk_list sk) = ?x # drop (Suc (unat i)) (sk_list sk1)"
    using lt by (simp add: y(3) Cons_nth_drop_Suc)
  ultimately show ?case
    using ys y(1,4,5) by (intro conjI exI [of _ "y # ys"]) simp_all
qed

lemma deep_copy_list:
  assumes "sk_ok sk" "OPENSSL_sk_deep_copy A copy free (Some sk) s = Some (Some t, s')"
  shows "sk_ok t" "sk_comp t = sk_comp sk" "sk_sorted t = sk_sorted sk" "list_all2 (copied copy) (sk_list sk) (sk_list t)"
  using assms(2) deep_copy_loop_list [OF assms(1), of 0 "unat (sk_num_of sk)" copy free s t s'] sk_ok_bounds(2) [OF assms(1)]
  by (auto simp: OPENSSL_sk_deep_copy_def OPENSSL_sk_dup_def split: if_splits)

text \<open>
  A copy function whose results compare equal to their originals. \<open>OPENSSL_sk_deep_copy\<close> keeps the
  flag \<open>sorted\<close>, which is right for these.
\<close>

definition copies_alike :: "('p, 'c) cmp_caller \<Rightarrow> 'p option set \<Rightarrow> 'c option \<Rightarrow> ('p \<Rightarrow> 's \<Rightarrow> 'p option \<times> 's) \<Rightarrow> bool" where
  "copies_alike call_cmp D c copy \<longleftrightarrow>
     (\<forall>p s q s'. Some p \<in> D \<and> copy p s = (Some q, s') \<longrightarrow>
        Some q \<in> D \<and> (\<forall>cf. c = Some cf \<longrightarrow> call_cmp cf (Some p) (Some q) = 0))"

lemma copies_alikeD:
  assumes "copies_alike call_cmp D c copy" "copied copy x y" "x \<in> D"
  shows "y \<in> D" "c = Some cf \<Longrightarrow> x \<noteq> y \<Longrightarrow> call_cmp cf x y = 0"
  using assms by (auto simp: copies_alike_def copied_def split: option.splits) (metis prod.collapse)+

lemma copies_sorted:
  assumes cmp: "comparison (call_cmp cf) D" and alike: "copies_alike call_cmp D (Some cf) copy"
    and l2: "list_all2 (copied copy) xs ys" and D: "set xs \<subseteq> D"
    and sorted: "sorted_wrt (\<lambda>x y. call_cmp cf x y \<le> 0) xs"
  shows "sorted_wrt (\<lambda>x y. call_cmp cf x y \<le> 0) ys"
proof -
  have eq: "call_cmp cf x y \<le> 0 \<and> call_cmp cf y x \<le> 0 \<or> x = y" if "copied copy x y" "x \<in> D" for x y
    using copies_alikeD [OF alike that] comparison.cmp_sign [OF cmp] that(2) by (metis linorder_not_le order.refl)
  show ?thesis
    unfolding sorted_wrt_iff_nth_less
  proof (intro allI impI)
    fix i j assume ij: "i < j" "j < length ys"
    then have c: "copied copy (xs ! i) (ys ! i)" "copied copy (xs ! j) (ys ! j)" "length xs = length ys"
      using l2 by (auto simp: list_all2_conv_all_nth)
    then have x: "xs ! i \<in> D" "xs ! j \<in> D" "call_cmp cf (xs ! i) (xs ! j) \<le> 0"
      using D ij sorted by (auto simp: sorted_wrt_iff_nth_less subset_iff)
    then show "call_cmp cf (ys ! i) (ys ! j) \<le> 0"
      using eq [OF c(1)] eq [OF c(2)] copies_alikeD(1) [OF alike c(1)] copies_alikeD(1) [OF alike c(2)]
        comparison.cmp_trans [OF cmp] by metis
  qed
qed

section \<open>Histories of a stack\<close>

text \<open>
  The stacks built from \<open>OPENSSL_sk_new\<close> with values of \<open>D\<close>. The callbacks of \<open>OPENSSL_sk_delete_if\<close>
  and \<open>OPENSSL_sk_deep_copy\<close> work on a list of pointers. Pushing, popping, shifting and deleting by
  pointer are insertions and deletions. \<open>OPENSSL_sk_set\<close> is missing, and so are deep copies whose entries
  do not compare equal to the originals.
\<close>

inductive sk_run :: "'p sk_alloc \<Rightarrow> ('p, 'c) cmp_caller \<Rightarrow> 'p option set \<Rightarrow> ('p, 'c) stack_st \<Rightarrow> bool"
  for A call_cmp D where
  sk_run_new: "OPENSSL_sk_new A c = Some sk \<Longrightarrow> sk_run A call_cmp D sk"
| sk_run_insert: "sk_run A call_cmp D sk \<Longrightarrow> p \<in> D \<Longrightarrow> OPENSSL_sk_insert A (Some sk) p pos = Some (r, Some t) \<Longrightarrow>
    sk_run A call_cmp D t"
| sk_run_delete: "sk_run A call_cmp D sk \<Longrightarrow> OPENSSL_sk_delete (Some sk) pos = Some (q, Some t) \<Longrightarrow> sk_run A call_cmp D t"
| sk_run_delete_if: "sk_run A call_cmp D sk \<Longrightarrow>
    OPENSSL_sk_delete_if del (Some sk) (s :: 'p option list) = Some (Some t, s') \<Longrightarrow> sk_run A call_cmp D t"
| sk_run_zero: "sk_run A call_cmp D sk \<Longrightarrow> OPENSSL_sk_zero (Some sk) = Some (Some t) \<Longrightarrow> sk_run A call_cmp D t"
| sk_run_sort: "sk_run A call_cmp D sk \<Longrightarrow> OPENSSL_sk_sort call_cmp (Some sk) = Some (Some t) \<Longrightarrow> sk_run A call_cmp D t"
| sk_run_set_cmp: "sk_run A call_cmp D sk \<Longrightarrow> OPENSSL_sk_set_cmp_func sk c = (c', t) \<Longrightarrow> sk_run A call_cmp D t"
| sk_run_dup: "sk_run A call_cmp D sk \<Longrightarrow> OPENSSL_sk_dup A (Some sk) = Some t \<Longrightarrow> sk_run A call_cmp D t"
| sk_run_deep_copy: "sk_run A call_cmp D sk \<Longrightarrow> copies_alike call_cmp D (sk_comp sk) copy \<Longrightarrow>
    OPENSSL_sk_deep_copy A copy free (Some sk) (s :: 'p option list) = Some (Some t, s') \<Longrightarrow> sk_run A call_cmp D t"

lemma sk_new_ok: "OPENSSL_sk_new A c = Some sk \<Longrightarrow> sk_ok sk \<and> sk_list sk = [] \<and> \<not> sk_sorted sk"
  by (auto simp: OPENSSL_sk_new_def sk_ok_def sk_list_def kMinSize_def INT_MAX64_def split: if_splits)

lemma sk_zero_ok: "sk_ok sk \<Longrightarrow> \<exists>t. OPENSSL_sk_zero (Some sk) = Some (Some t) \<and> sk_ok t \<and> sk_list t = [] \<and> sk_comp t = sk_comp sk"
  using sk_ok_bounds(1) [of sk]
  by (auto simp: OPENSSL_sk_zero_def sk_ok_def sk_list_def word_less_nat_alt)

lemma sk_flag_ok_subseq:
  assumes "sk_flag_ok call_cmp sk" "subseq (sk_list t) (sk_list sk)" "sk_sorted t = sk_sorted sk" "sk_comp t = sk_comp sk"
  shows "sk_flag_ok call_cmp t" "set (sk_list t) \<subseteq> set (sk_list sk)"
  using assms sorted_wrt_subseq [OF assms(2)] by (auto simp: sk_flag_ok_def dest: list_emb_set)

lemma sk_run_invariant:
  assumes laws: "\<And>cf. comparison (call_cmp cf) D"
  shows "sk_run A call_cmp D sk \<Longrightarrow> sk_ok sk \<and> sk_flag_ok call_cmp sk \<and> set (sk_list sk) \<subseteq> D"
proof (induction rule: sk_run.induct)
  case (sk_run_new c sk)
  then show ?case using sk_new_ok [OF sk_run_new] by (simp add: sk_flag_ok_def)
next
  case (sk_run_insert sk p pos r t)
  then show ?case using sk_insert_outcome [of sk A p pos] by (auto simp: sk_flag_ok_def set_insert_at)
next
  case (sk_run_delete sk pos q t)
  then obtain "sk_ok t" "sk_list t = remove_at (unat pos) (sk_list sk)" "sk_sorted t = sk_sorted sk" "sk_comp t = sk_comp sk"
    using sk_delete_total [of sk pos] by (auto simp: remove_at_def)
  then show ?case
    using sk_run_delete.IH sk_flag_ok_subseq [of call_cmp sk t] by (auto simp: remove_at_subseq)
next
  case (sk_run_delete_if sk del s t s')
  then obtain "sk_ok t" "sk_list t = fst (kept del (sk_list sk) s)" "sk_sorted t = sk_sorted sk" "sk_comp t = sk_comp sk"
    using sk_delete_if_outcome [of sk del s] by auto
  then show ?case
    using sk_run_delete_if.IH sk_flag_ok_subseq [of call_cmp sk t] by (auto simp: kept_subseq)
next
  case (sk_run_zero sk t)
  then show ?case using sk_zero_ok [of sk] by (auto simp: sk_flag_ok_def)
next
  case (sk_run_sort sk t)
  show ?case
  proof (cases "sk_comp sk")
    case None
    then show ?thesis using sk_run_sort by (simp add: OPENSSL_sk_sort_def)
  next
    case (Some cf)
    show ?thesis
    proof (cases "sk_sorted sk")
      case True
      then show ?thesis using sk_run_sort Some by (simp add: OPENSSL_sk_sort_def)
    next
      case False
      then obtain "sk_ok t" "sk_comp t = Some cf" "sk_list t = heap_sort (call_cmp cf) (sk_list sk)"
        using sk_sort_outcome [of sk cf call_cmp] Some sk_run_sort by auto
      moreover have "set (heap_sort (call_cmp cf) (sk_list sk)) = set (sk_list sk)"
        by (rule mset_eq_setD, rule heap_sort_perm)
      ultimately show ?thesis
        using comparison.heap_sort_sorted [OF laws, of "sk_list sk" cf] sk_run_sort.IH by (simp add: sk_flag_ok_def)
    qed
  qed
next
  case (sk_run_set_cmp sk c c' t)
  then show ?case by (auto simp: OPENSSL_sk_set_cmp_func_def sk_flag_ok_def sk_ok_def sk_list_def split: if_splits)
next
  case (sk_run_dup sk t)
  then show ?case by (auto simp: OPENSSL_sk_dup_def split: if_splits)
next
  case (sk_run_deep_copy sk copy free s t s')
  then have c: "sk_ok t" "sk_comp t = sk_comp sk" "sk_sorted t = sk_sorted sk" "list_all2 (copied copy) (sk_list sk) (sk_list t)"
    using deep_copy_list [of sk A copy free s t s'] by blast+
  have "\<exists>x \<in> set (sk_list sk). copied copy x y" if "y \<in> set (sk_list t)" for y
    using c(4) that by (metis in_set_conv_nth list_all2_conv_all_nth)
  then have "set (sk_list t) \<subseteq> D"
    using sk_run_deep_copy.IH copies_alikeD(1) [OF sk_run_deep_copy.hyps(2)] by blast
  moreover have "sk_flag_ok call_cmp t"
    using c copies_sorted [OF laws _ c(4)] sk_run_deep_copy.IH sk_run_deep_copy.hyps(2) by (auto simp: sk_flag_ok_def)
  ultimately show ?case using c(1) by blast
qed

section \<open>Properties\<close>

text \<open>C35: a stack is a list: inserting puts the pointer at the index (or at the end) unless the
  allocator refuses or the stack is full, in which case nothing changes; removing takes it out and
  returns it; popping returns the last pointer; reading returns the entry or null. No access leaves
  the block, and the well-formedness of the stack is kept.\<close>

theorem stack_refines_list:
  assumes ok: "sk_ok sk"
  shows "(\<exists>r t. OPENSSL_sk_insert A (Some sk) p pos = Some (r, Some t) \<and> sk_ok t \<and>
      (if sk_num_of sk = INT_MAX64 \<or> sk_grow A sk = None then r = 0 \<and> t = sk
       else r = sk_num_of sk + 1 \<and> \<not> sk_sorted t \<and> sk_comp t = sk_comp sk \<and>
         sk_list t = take (unat pos) (sk_list sk) @ p # drop (unat pos) (sk_list sk))) \<and>
    (\<exists>t. OPENSSL_sk_delete (Some sk) pos = Some (if unat pos < length (sk_list sk) then sk_list sk ! unat pos else None, Some t) \<and>
      sk_ok t \<and> sk_list t = take (unat pos) (sk_list sk) @ drop (Suc (unat pos)) (sk_list sk) \<and>
      sk_sorted t = sk_sorted sk \<and> sk_comp t = sk_comp sk) \<and>
    (sk_list sk \<noteq> [] \<longrightarrow>
      (\<exists>t. OPENSSL_sk_pop (Some sk) = Some (last (sk_list sk), Some t) \<and> sk_ok t \<and> sk_list t = butlast (sk_list sk))) \<and>
    OPENSSL_sk_value (Some sk) pos = Some (if unat pos < length (sk_list sk) then sk_list sk ! unat pos else None)"
proof (intro conjI impI)
  show "OPENSSL_sk_value (Some sk) pos = Some (if unat pos < length (sk_list sk) then sk_list sk ! unat pos else None)"
    using sk_load_list [OF ok, of pos] sk_ok_bounds(2) [OF ok] by (auto simp: OPENSSL_sk_value_def word_le_nat_alt)
qed (rule sk_insert_total [OF ok] sk_delete_total [OF ok] sk_pop_last [OF ok], assumption?)+

text \<open>C33: \<open>OPENSSL_sk_sort\<close> returns on every stack, never leaves the block, rearranges the
  pointers, and leaves them in ascending order whenever the comparison function is a total preorder
  on them; without a comparison function, or on a stack marked as sorted, it does nothing.\<close>

theorem OPENSSL_sk_sort_sorts:
  assumes ok: "sk_ok sk"
  shows "\<exists>t. OPENSSL_sk_sort call_cmp (Some sk) = Some (Some t) \<and> sk_ok t \<and>
    mset (sk_list t) = mset (sk_list sk) \<and> sk_comp t = sk_comp sk \<and>
    (case sk_comp sk of None \<Rightarrow> t = sk
     | Some cf \<Rightarrow> sk_sorted t \<and> (if sk_sorted sk then t = sk
         else comparison (call_cmp cf) (set (sk_list sk)) \<longrightarrow> sorted_wrt (\<lambda>x y. call_cmp cf x y \<le> 0) (sk_list t)))"
proof (cases "sk_comp sk")
  case None
  then show ?thesis using ok by (simp add: OPENSSL_sk_sort_def)
next
  case (Some cf)
  show ?thesis
  proof (cases "sk_sorted sk")
    case True
    then show ?thesis using ok Some by (simp add: OPENSSL_sk_sort_def)
  next
    case False
    then show ?thesis
      using sk_sort_outcome [OF ok Some False, of call_cmp] Some heap_sort_perm [of "call_cmp cf" "sk_list sk"]
        comparison.heap_sort_sorted [of "call_cmp cf" "set (sk_list sk)" "sk_list sk"] by auto
  qed
qed

text \<open>C34: on every stack built with the functions of the file, duplicates and deep copies included,
  \<open>OPENSSL_sk_find\<close> returns the first position whose entry compares equal, although it searches
  sorted stacks by bisection; excepted are \<open>OPENSSL_sk_set\<close> and deep copies with entries that do not
  compare equal to their originals, which keep the flag \<open>sorted\<close> of a stack they may put out of order.\<close>

theorem OPENSSL_sk_find_exact:
  assumes "sk_run A call_cmp D sk" and "\<And>cf. comparison (call_cmp cf) D"
    and "sk_comp sk = Some cf" "p \<in> D" "p \<noteq> None"
  shows "OPENSSL_sk_find call_cmp (Some sk) p =
    Some (map_option word_of_nat (first_index (\<lambda>q. call_cmp cf p q = 0) (sk_list sk)))"
  using sk_run_invariant [OF assms(2,1)] assms(2-5) by (intro sk_find_first) auto

section \<open>A stack of numbers\<close>

text \<open>Pointers to numbers, compared by value, and an allocator that grants everything.\<close>

definition number_cmp :: "(nat, unit) cmp_caller" where
  "number_cmp cf p q = (case (p, q) of (Some a, Some b) \<Rightarrow> int a - int b | _ \<Rightarrow> 0)"

definition sample_sk_alloc :: "nat sk_alloc" where
  "sample_sk_alloc = \<lparr>sk_grants = (\<lambda>_. True), sk_fresh = (\<lambda>_. None)\<rparr>"

definition push_number :: "nat \<Rightarrow> (nat, unit) stack_st option \<Rightarrow> (nat, unit) stack_st option" where
  "push_number x sk = (case OPENSSL_sk_push sample_sk_alloc sk (Some x) of Some (_, t) \<Rightarrow> t | None \<Rightarrow> None)"

definition pushed :: "nat list \<Rightarrow> (nat, unit) stack_st option" where
  "pushed xs = fold push_number xs (OPENSSL_sk_new sample_sk_alloc (Some ()))"

lemma number_comparison: "comparison (number_cmp cf) (range Some)"
  by unfold_locales (auto simp: number_cmp_def)

lemma pushed_run: "pushed xs = Some sk \<Longrightarrow> sk_run sample_sk_alloc number_cmp (range Some) sk"
proof (induction xs arbitrary: sk rule: rev_induct)
  case Nil
  then show ?case by (auto simp: pushed_def intro: sk_run_new)
next
  case (snoc x xs)
  have "push_number x None = None" by (simp add: push_number_def OPENSSL_sk_push_def OPENSSL_sk_insert_def)
  then obtain sk0 where sk0: "pushed xs = Some sk0" "push_number x (Some sk0) = Some sk"
    using snoc.prems by (cases "pushed xs") (auto simp: pushed_def)
  then obtain r where "OPENSSL_sk_insert sample_sk_alloc (Some sk0) (Some x) (OPENSSL_sk_num (Some sk0)) = Some (r, Some sk)"
    unfolding push_number_def OPENSSL_sk_push_def by (auto split: option.splits)
  then show ?case using snoc.IH [OF sk0(1)] by (auto intro: sk_run_insert)
qed

lemma sample_pushed_ok:
  obtains sk where "pushed [5, 2, 8, 2, 9] = Some sk" "sk_ok sk" "sk_list sk = map Some [5, 2, 8, 2, 9]"
    "sk_comp sk = Some ()" "\<not> sk_sorted sk"
proof -
  have "map_option (\<lambda>sk. (sk_list sk, sk_comp sk, sk_sorted sk)) (pushed [5, 2, 8, 2, 9]) =
      Some (map Some [5, 2, 8, 2, 9], Some (), False)" by code_simp
  then obtain sk where sk: "pushed [5, 2, 8, 2, 9] = Some sk" "sk_list sk = map Some [5, 2, 8, 2, 9]"
    "sk_comp sk = Some ()" "\<not> sk_sorted sk" by auto
  then show ?thesis using that sk_run_invariant [OF number_comparison pushed_run] by blast
qed

theorem stack_refines_list_witness:
  "\<exists>sk t. pushed [5, 2, 8, 2, 9] = Some sk \<and> OPENSSL_sk_delete (Some sk) 1 = Some (Some 2, Some t) \<and>
     sk_list t = map Some [5, 8, 2, 9]"
proof -
  obtain sk where sk: "pushed [5, 2, 8, 2, 9] = Some sk" "sk_ok sk" "sk_list sk = map Some [5, 2, 8, 2, 9]"
    by (rule sample_pushed_ok)
  then show ?thesis using stack_refines_list [OF sk(2), of sample_sk_alloc "Some 3" 1] by auto
qed

theorem OPENSSL_sk_sort_sorts_witness:
  "\<exists>sk t. pushed [5, 2, 8, 2, 9] = Some sk \<and> OPENSSL_sk_sort number_cmp (Some sk) = Some (Some t) \<and>
     mset (sk_list t) = mset (map Some [5, 2, 8, 2, 9]) \<and> sorted_wrt (\<lambda>x y. number_cmp () x y \<le> 0) (sk_list t)"
proof -
  obtain sk where sk: "pushed [5, 2, 8, 2, 9] = Some sk" "sk_ok sk" "sk_list sk = map Some [5, 2, 8, 2, 9]"
      "sk_comp sk = Some ()" "\<not> sk_sorted sk" by (rule sample_pushed_ok)
  have "comparison (number_cmp ()) (set (sk_list sk))"
    using number_comparison [of "()"] sk(3) unfolding comparison_def by (auto simp: number_cmp_def)
  then show ?thesis using OPENSSL_sk_sort_sorts [OF sk(2), of number_cmp] sk by auto
qed

theorem OPENSSL_sk_find_exact_witness:
  "\<exists>sk t. pushed [5, 2, 8, 2, 9] = Some sk \<and> OPENSSL_sk_sort number_cmp (Some sk) = Some (Some t) \<and>
     OPENSSL_sk_find number_cmp (Some t) (Some 2) =
       Some (map_option word_of_nat (first_index (\<lambda>q. number_cmp () (Some 2) q = 0) (sk_list t)))"
proof -
  obtain sk where sk: "pushed [5, 2, 8, 2, 9] = Some sk" "sk_ok sk" "sk_comp sk = Some ()" "\<not> sk_sorted sk"
    by (rule sample_pushed_ok)
  obtain t where t: "OPENSSL_sk_sort number_cmp (Some sk) = Some (Some t)" "sk_comp t = Some ()"
    using sk_sort_outcome [OF sk(2,3,4), of number_cmp] sk(3) by auto
  have run: "sk_run sample_sk_alloc number_cmp (range Some) t"
    using sk_run_sort [OF pushed_run [OF sk(1)] t(1)] .
  have "OPENSSL_sk_find number_cmp (Some t) (Some 2) =
      Some (map_option word_of_nat (first_index (\<lambda>q. number_cmp () (Some 2) q = 0) (sk_list t)))"
    by (rule OPENSSL_sk_find_exact [OF run _ t(2)]) (simp_all add: number_comparison)
  then show ?thesis using sk(1) t(1) by blast
qed

text \<open>\<open>OPENSSL_sk_set\<close> leaves the flag \<open>sorted\<close> set, and \<open>OPENSSL_sk_find\<close> then misses entries: after
  sorting the pointers to 1, 2 and 3 and replacing the first by one to 9, the stack counts as sorted
  and 9 is not found, although it is the first entry.\<close>

theorem set_hides_entry:
  "map_option (\<lambda>sk. map_option (\<lambda>st. map_option (\<lambda>(q, u).
      (OPENSSL_sk_is_sorted u, OPENSSL_sk_value u 0, OPENSSL_sk_find number_cmp u (Some 9)))
      (OPENSSL_sk_set st 0 (Some 9)))
    (OPENSSL_sk_sort number_cmp (Some sk))) (pushed [1, 2, 3]) =
   Some (Some (Some (True, Some (Some 9), Some None)))"
  by code_simp

text \<open>\<open>OPENSSL_sk_deep_copy\<close> keeps the flag too: the sorted stack of 1, 2 and 3, copied with a function
  that turns 1 into 9, counts as sorted, and its first entry 9 is not found.\<close>

theorem deep_copy_hides_entry:
  "map_option (\<lambda>sk. map_option (\<lambda>st. map_option (\<lambda>(u, _).
      (OPENSSL_sk_is_sorted u, OPENSSL_sk_value u 0, OPENSSL_sk_find number_cmp u (Some 9)))
      (OPENSSL_sk_deep_copy sample_sk_alloc (\<lambda>p s. (Some (if p = 1 then 9 else p), s)) (\<lambda>p s. s) st ()))
    (OPENSSL_sk_sort number_cmp (Some sk))) (pushed [1, 2, 3]) =
   Some (Some (Some (True, Some (Some 9), Some None)))"
  by code_simp

end
