(* ===== verification/Boring_LHash.thy ===== *)
theory Boring_LHash
  imports Prelude
begin

text \<open>
  The hash table of BoringSSL (\<open>crypto/lhash/lhash.c\<close>): an array of buckets, each the head of a linked
  list of items, that grows and shrinks with the number of items.

  Items live in a heap from addresses to items; a pointer is an address or null (\<open>None\<close>). \<open>'d\<close> is the
  type of the data pointers, \<open>'c\<close> and \<open>'h\<close> the types of the comparison and hash function pointers,
  which are called through the helpers the code takes as arguments. The outer option is undefined
  behaviour: a null or dangling pointer that is followed, or an index outside the bucket array.
\<close>

record 'd lhash_item =
  it_data :: 'd
  it_next :: "nat option"
  it_hash :: u32

type_synonym 'd lh_heap = "nat \<rightharpoonup> 'd lhash_item"

record ('c, 'h) lhash_st =
  lh_num_items :: u64
  lh_buckets :: "nat option list"
  lh_num_buckets :: u64
  lh_callback_depth :: u32
  lh_comp :: 'c
  lh_hash :: 'h

text \<open>The allocator: where \<open>malloc\<close> puts an item, if anywhere, and which blocks it grants.\<close>

record 'd lh_alloc =
  lh_malloc :: "'d lh_heap \<Rightarrow> nat option"
  lh_grants :: "u64 \<Rightarrow> bool"

type_synonym ('d, 'h) hash_caller = "'h \<Rightarrow> 'd \<Rightarrow> u32"
type_synonym ('d, 'c) lh_cmp_caller = "'c \<Rightarrow> 'd \<Rightarrow> 'd \<Rightarrow> int"

definition kMinNumBuckets :: u64 where "kMinNumBuckets = 16"

definition kMaxAverageChainLength :: u64 where "kMaxAverageChainLength = 2"

definition kMinAverageChainLength :: u64 where "kMinAverageChainLength = 1"

section \<open>Creation and release\<close>

definition OPENSSL_lh_new :: "'d lh_alloc \<Rightarrow> 'h \<Rightarrow> 'c \<Rightarrow> ('c, 'h) lhash_st option" where
  "OPENSSL_lh_new A hash cmpf =
     (if lh_grants A 48 \<and> lh_grants A (kMinNumBuckets * 8)
      then Some \<lparr>lh_num_items = 0, lh_buckets = replicate (unat kMinNumBuckets) None,
                 lh_num_buckets = kMinNumBuckets, lh_callback_depth = 0, lh_comp = cmpf, lh_hash = hash\<rparr>
      else None)"

partial_function (option) lh_free_chain :: "nat option \<Rightarrow> 'd lh_heap \<Rightarrow> 'd lh_heap option" where
  "lh_free_chain n H =
     (case n of None \<Rightarrow> Some H
      | Some a \<Rightarrow> (case H a of None \<Rightarrow> None | Some it \<Rightarrow> lh_free_chain (it_next it) (H(a := None))))"

primrec lh_free_loop :: "('c, 'h) lhash_st \<Rightarrow> nat \<Rightarrow> nat \<Rightarrow> 'd lh_heap \<Rightarrow> 'd lh_heap option" where
  "lh_free_loop lh i 0 H = Some H"
| "lh_free_loop lh i (Suc n) H =
     (if i < length (lh_buckets lh)
      then Option.bind (lh_free_chain (lh_buckets lh ! i) H) (lh_free_loop lh (Suc i) n) else None)"

definition OPENSSL_lh_free :: "('c, 'h) lhash_st option \<Rightarrow> 'd lh_heap \<Rightarrow> 'd lh_heap option" where
  "OPENSSL_lh_free lh H =
     (case lh of None \<Rightarrow> Some H | Some lh \<Rightarrow> lh_free_loop lh 0 (unat (lh_num_buckets lh)) H)"

definition OPENSSL_lh_num_items :: "('c, 'h) lhash_st \<Rightarrow> u64" where
  "OPENSSL_lh_num_items lh = lh_num_items lh"

section \<open>Pointers to pointers\<close>

text \<open>\<open>LHASH_ITEM **\<close>: the address of an element of \<open>buckets\<close> or of the field \<open>next\<close> of an item.\<close>

datatype lh_slot = Bucket nat | NextOf nat

definition read_slot :: "('c, 'h) lhash_st \<Rightarrow> 'd lh_heap \<Rightarrow> lh_slot \<Rightarrow> nat option option" where
  "read_slot lh H s =
     (case s of Bucket i \<Rightarrow> if i < length (lh_buckets lh) then Some (lh_buckets lh ! i) else None
      | NextOf a \<Rightarrow> map_option it_next (H a))"

definition write_slot ::
    "('c, 'h) lhash_st \<Rightarrow> 'd lh_heap \<Rightarrow> lh_slot \<Rightarrow> nat option \<Rightarrow> (('c, 'h) lhash_st \<times> 'd lh_heap) option" where
  "write_slot lh H s p =
     (case s of
        Bucket i \<Rightarrow> if i < length (lh_buckets lh) then Some (lh\<lparr>lh_buckets := (lh_buckets lh)[i := p]\<rparr>, H) else None
      | NextOf a \<Rightarrow> map_option (\<lambda>it. (lh, H(a \<mapsto> it\<lparr>it_next := p\<rparr>))) (H a))"

text \<open>The loop of \<open>get_next_ptr_and_hash\<close> and of \<open>get_next_ptr_by_key\<close>.\<close>

partial_function (option) find_slot ::
    "('d \<Rightarrow> bool) \<Rightarrow> ('c, 'h) lhash_st \<Rightarrow> 'd lh_heap \<Rightarrow> lh_slot \<Rightarrow> lh_slot option" where
  "find_slot P lh H s =
     Option.bind (read_slot lh H s) (\<lambda>cur.
       case cur of None \<Rightarrow> Some s
       | Some a \<Rightarrow> (case H a of None \<Rightarrow> None
                    | Some it \<Rightarrow> if P (it_data it) then Some s else find_slot P lh H (NextOf a)))"

definition bucket_of :: "('c, 'h) lhash_st \<Rightarrow> u32 \<Rightarrow> nat" where
  "bucket_of lh hash = unat (ucast hash mod lh_num_buckets lh)"

definition get_next_ptr_and_hash ::
    "('d, 'h) hash_caller \<Rightarrow> ('d, 'c) lh_cmp_caller \<Rightarrow> ('c, 'h) lhash_st \<Rightarrow> 'd lh_heap \<Rightarrow> 'd \<Rightarrow> (lh_slot \<times> u32) option" where
  "get_next_ptr_and_hash call_hash call_cmp lh H data =
     (let hash = call_hash (lh_hash lh) data
      in map_option (\<lambda>s. (s, hash))
           (find_slot (\<lambda>d. call_cmp (lh_comp lh) d data = 0) lh H (Bucket (bucket_of lh hash))))"

definition get_next_ptr_by_key ::
    "('k \<Rightarrow> 'd \<Rightarrow> int) \<Rightarrow> ('c, 'h) lhash_st \<Rightarrow> 'd lh_heap \<Rightarrow> 'k \<Rightarrow> u32 \<Rightarrow> lh_slot option" where
  "get_next_ptr_by_key cmp_key lh H key key_hash =
     find_slot (\<lambda>d. cmp_key key d = 0) lh H (Bucket (bucket_of lh key_hash))"

text \<open>\<open>*next_ptr == NULL ? NULL : (*next_ptr)->data\<close>.\<close>

definition slot_data :: "('c, 'h) lhash_st \<Rightarrow> 'd lh_heap \<Rightarrow> lh_slot \<Rightarrow> 'd option option" where
  "slot_data lh H s =
     Option.bind (read_slot lh H s) (\<lambda>p.
       case p of None \<Rightarrow> Some None | Some a \<Rightarrow> map_option (\<lambda>it. Some (it_data it)) (H a))"

definition OPENSSL_lh_retrieve ::
    "('d, 'h) hash_caller \<Rightarrow> ('d, 'c) lh_cmp_caller \<Rightarrow> ('c, 'h) lhash_st \<Rightarrow> 'd lh_heap \<Rightarrow> 'd \<Rightarrow> 'd option option" where
  "OPENSSL_lh_retrieve call_hash call_cmp lh H data =
     Option.bind (get_next_ptr_and_hash call_hash call_cmp lh H data) (\<lambda>(s, _). slot_data lh H s)"

definition OPENSSL_lh_retrieve_key ::
    "('k \<Rightarrow> 'd \<Rightarrow> int) \<Rightarrow> ('c, 'h) lhash_st \<Rightarrow> 'd lh_heap \<Rightarrow> 'k \<Rightarrow> u32 \<Rightarrow> 'd option option" where
  "OPENSSL_lh_retrieve_key cmp_key lh H key key_hash =
     Option.bind (get_next_ptr_by_key cmp_key lh H key key_hash) (slot_data lh H)"

section \<open>Resizing\<close>

text \<open>The inner loop of \<open>lh_rebucket\<close> relinks the items of one chain into the new array.\<close>

partial_function (option) rebucket_chain ::
    "u64 \<Rightarrow> nat option \<Rightarrow> nat option list \<Rightarrow> 'd lh_heap \<Rightarrow> (nat option list \<times> 'd lh_heap) option" where
  "rebucket_chain n cur new_buckets H =
     (case cur of None \<Rightarrow> Some (new_buckets, H)
      | Some a \<Rightarrow>
          (case H a of None \<Rightarrow> None
           | Some it \<Rightarrow>
               (let new_bucket = unat (ucast (it_hash it) mod n)
                in if new_bucket < length new_buckets
                   then rebucket_chain n (it_next it) (new_buckets[new_bucket := Some a])
                          (H(a \<mapsto> it\<lparr>it_next := new_buckets ! new_bucket\<rparr>))
                   else None)))"

primrec rebucket_loop ::
    "u64 \<Rightarrow> ('c, 'h) lhash_st \<Rightarrow> nat \<Rightarrow> nat \<Rightarrow> nat option list \<times> 'd lh_heap \<Rightarrow> (nat option list \<times> 'd lh_heap) option" where
  "rebucket_loop n lh i 0 S = Some S"
| "rebucket_loop n lh i (Suc k) S =
     (if i < length (lh_buckets lh)
      then Option.bind (rebucket_chain n (lh_buckets lh ! i) (fst S) (snd S)) (rebucket_loop n lh (Suc i) k)
      else None)"

definition lh_rebucket ::
    "'d lh_alloc \<Rightarrow> ('c, 'h) lhash_st \<Rightarrow> 'd lh_heap \<Rightarrow> u64 \<Rightarrow> (('c, 'h) lhash_st \<times> 'd lh_heap) option" where
  "lh_rebucket A lh H n =
     (let alloc_size = 8 * n
      in if alloc_size div 8 \<noteq> n \<or> \<not> lh_grants A alloc_size then Some (lh, H)
         else map_option (\<lambda>(b, H). (lh\<lparr>lh_num_buckets := n, lh_buckets := b\<rparr>, H))
                (rebucket_loop n lh 0 (unat (lh_num_buckets lh)) (replicate (unat n) None, H)))"

definition lh_maybe_resize ::
    "'d lh_alloc \<Rightarrow> ('c, 'h) lhash_st \<Rightarrow> 'd lh_heap \<Rightarrow> (('c, 'h) lhash_st \<times> 'd lh_heap) option" where
  "lh_maybe_resize A lh H =
     (if 0 < lh_callback_depth lh then Some (lh, H)
      else if \<not> kMinNumBuckets \<le> lh_num_buckets lh then None
      else (let avg_chain_length = lh_num_items lh div lh_num_buckets lh
            in if kMaxAverageChainLength < avg_chain_length
               then (let n = lh_num_buckets lh * 2
                     in if lh_num_buckets lh < n then lh_rebucket A lh H n else Some (lh, H))
               else if avg_chain_length < kMinAverageChainLength \<and> kMinNumBuckets < lh_num_buckets lh
               then (let n = lh_num_buckets lh div 2
                     in lh_rebucket A lh H (if n < kMinNumBuckets then kMinNumBuckets else n))
               else Some (lh, H)))"

section \<open>Insertion and removal\<close>

text \<open>The result is the return value, \<open>*old_data\<close>, the table and the heap.\<close>

definition OPENSSL_lh_insert ::
    "'d lh_alloc \<Rightarrow> ('d, 'h) hash_caller \<Rightarrow> ('d, 'c) lh_cmp_caller \<Rightarrow> ('c, 'h) lhash_st \<Rightarrow> 'd lh_heap \<Rightarrow> 'd \<Rightarrow>
     (bool \<times> 'd option \<times> ('c, 'h) lhash_st \<times> 'd lh_heap) option" where
  "OPENSSL_lh_insert A call_hash call_cmp lh H data =
     Option.bind (get_next_ptr_and_hash call_hash call_cmp lh H data) (\<lambda>(next_ptr, hash).
     Option.bind (read_slot lh H next_ptr) (\<lambda>p.
       case p of
         Some a \<Rightarrow>
           (case H a of None \<Rightarrow> None
            | Some it \<Rightarrow> Some (True, Some (it_data it), lh, H(a \<mapsto> it\<lparr>it_data := data\<rparr>)))
       | None \<Rightarrow>
           (case lh_malloc A H of None \<Rightarrow> Some (False, None, lh, H)
            | Some a \<Rightarrow>
                Option.bind (write_slot lh (H(a \<mapsto> \<lparr>it_data = data, it_next = None, it_hash = hash\<rparr>)) next_ptr (Some a)) (\<lambda>(lh, H).
                map_option (\<lambda>(lh, H). (True, None, lh, H))
                  (lh_maybe_resize A (lh\<lparr>lh_num_items := lh_num_items lh + 1\<rparr>) H)))))"

definition OPENSSL_lh_delete ::
    "'d lh_alloc \<Rightarrow> ('d, 'h) hash_caller \<Rightarrow> ('d, 'c) lh_cmp_caller \<Rightarrow> ('c, 'h) lhash_st \<Rightarrow> 'd lh_heap \<Rightarrow> 'd \<Rightarrow>
     ('d option \<times> ('c, 'h) lhash_st \<times> 'd lh_heap) option" where
  "OPENSSL_lh_delete A call_hash call_cmp lh H data =
     Option.bind (get_next_ptr_and_hash call_hash call_cmp lh H data) (\<lambda>(next_ptr, _).
     Option.bind (read_slot lh H next_ptr) (\<lambda>p.
       case p of
         None \<Rightarrow> Some (None, lh, H)
       | Some a \<Rightarrow>
           (case H a of None \<Rightarrow> None
            | Some it \<Rightarrow>
                Option.bind (write_slot lh H next_ptr (it_next it)) (\<lambda>(lh, H).
                map_option (\<lambda>(lh, H). (Some (it_data it), lh, H))
                  (lh_maybe_resize A (lh\<lparr>lh_num_items := lh_num_items lh - 1\<rparr>) (H(a := None)))))))"

section \<open>Iteration\<close>

text \<open>The callback may change the table, the heap and a state of its own. \<open>next\<close> is read before it is
  called.\<close>

type_synonym ('d, 'c, 'h, 's) lh_state = "('c, 'h) lhash_st \<times> 'd lh_heap \<times> 's"

partial_function (option) doall_chain ::
    "('d \<Rightarrow> ('d, 'c, 'h, 's) lh_state \<Rightarrow> ('d, 'c, 'h, 's) lh_state option) \<Rightarrow> nat option \<Rightarrow>
     ('d, 'c, 'h, 's) lh_state \<Rightarrow> ('d, 'c, 'h, 's) lh_state option" where
  "doall_chain func cur S =
     (case cur of None \<Rightarrow> Some S
      | Some a \<Rightarrow>
          (case fst (snd S) a of None \<Rightarrow> None
           | Some it \<Rightarrow> Option.bind (func (it_data it) S) (doall_chain func (it_next it))))"

partial_function (option) doall_buckets ::
    "('d \<Rightarrow> ('d, 'c, 'h, 's) lh_state \<Rightarrow> ('d, 'c, 'h, 's) lh_state option) \<Rightarrow> u64 \<Rightarrow>
     ('d, 'c, 'h, 's) lh_state \<Rightarrow> ('d, 'c, 'h, 's) lh_state option" where
  "doall_buckets func i S =
     (if i < lh_num_buckets (fst S)
      then (if unat i < length (lh_buckets (fst S))
            then Option.bind (doall_chain func (lh_buckets (fst S) ! unat i) S) (doall_buckets func (i + 1))
            else None)
      else Some S)"

definition UINT_MAX :: u32 where "UINT_MAX = 0xFFFFFFFF"

definition OPENSSL_lh_doall_arg ::
    "'d lh_alloc \<Rightarrow> ('d \<Rightarrow> ('d, 'c, 'h, 's) lh_state \<Rightarrow> ('d, 'c, 'h, 's) lh_state option) \<Rightarrow>
     ('d, 'c, 'h, 's) lh_state \<Rightarrow> ('d, 'c, 'h, 's) lh_state option" where
  "OPENSSL_lh_doall_arg A func S =
     (case S of (lh, H, s) \<Rightarrow>
        Option.bind
          (doall_buckets func 0
            (if lh_callback_depth lh < UINT_MAX then lh\<lparr>lh_callback_depth := lh_callback_depth lh + 1\<rparr> else lh, H, s))
          (\<lambda>(lh, H, s).
             map_option (\<lambda>(lh, H). (lh, H, s))
               (lh_maybe_resize A
                  (if lh_callback_depth lh < UINT_MAX then lh\<lparr>lh_callback_depth := lh_callback_depth lh - 1\<rparr> else lh) H)))"

declare lh_free_chain.simps [code] find_slot.simps [code] rebucket_chain.simps [code] doall_chain.simps [code]
  doall_buckets.simps [code]

end
