(* ===== verification/Boring_STable.thy ===== *)
theory Boring_STable
  imports Boring_MBString Boring_LHash Boring_Mem
begin

text \<open>
  The table of string types per attribute (\<open>crypto/asn1/a_strnid.c\<close>): a sorted array that is built in,
  searched by bisection, and a hash table of the entries registered later.

  The state is \<open>string_tables\<close> with the heap of its items. The table has one comparison and one hash
  function, so the function pointers are units. The lock around the state is left out: calls are
  atomic.
\<close>

record stable_entry =
  tb_nid :: int
  tb_minsize :: int
  tb_maxsize :: int
  tb_mask :: u64
  tb_flags :: u64

definition STABLE_NO_MASK :: u64 where "STABLE_NO_MASK = 0x02"

definition PKCS9STRING_TYPE :: u64 where "PKCS9STRING_TYPE = DIRSTRING_TYPE OR B_ASN1_IA5STRING"

definition ub_name :: int where "ub_name = 32768"
definition ub_common_name :: int where "ub_common_name = 64"
definition ub_locality_name :: int where "ub_locality_name = 128"
definition ub_state_name :: int where "ub_state_name = 128"
definition ub_organization_name :: int where "ub_organization_name = 64"
definition ub_organization_unit_name :: int where "ub_organization_unit_name = 64"
definition ub_email_address :: int where "ub_email_address = 128"
definition ub_serial_number :: int where "ub_serial_number = 64"

definition NID_commonName :: int where "NID_commonName = 13"
definition NID_countryName :: int where "NID_countryName = 14"
definition NID_localityName :: int where "NID_localityName = 15"
definition NID_stateOrProvinceName :: int where "NID_stateOrProvinceName = 16"
definition NID_organizationName :: int where "NID_organizationName = 17"
definition NID_organizationalUnitName :: int where "NID_organizationalUnitName = 18"
definition NID_pkcs9_emailAddress :: int where "NID_pkcs9_emailAddress = 48"
definition NID_pkcs9_unstructuredName :: int where "NID_pkcs9_unstructuredName = 49"
definition NID_pkcs9_challengePassword :: int where "NID_pkcs9_challengePassword = 54"
definition NID_pkcs9_unstructuredAddress :: int where "NID_pkcs9_unstructuredAddress = 55"
definition NID_givenName :: int where "NID_givenName = 99"
definition NID_surname :: int where "NID_surname = 100"
definition NID_initials :: int where "NID_initials = 101"
definition NID_serialNumber :: int where "NID_serialNumber = 105"
definition NID_friendlyName :: int where "NID_friendlyName = 156"
definition NID_name :: int where "NID_name = 173"
definition NID_dnQualifier :: int where "NID_dnQualifier = 174"
definition NID_domainComponent :: int where "NID_domainComponent = 391"
definition NID_ms_csp_name :: int where "NID_ms_csp_name = 417"

definition stable_entry_of :: "int \<Rightarrow> int \<Rightarrow> int \<Rightarrow> u64 \<Rightarrow> u64 \<Rightarrow> stable_entry" where
  "stable_entry_of nid minsize maxsize msk flags =
     \<lparr>tb_nid = nid, tb_minsize = minsize, tb_maxsize = maxsize, tb_mask = msk, tb_flags = flags\<rparr>"

definition tbl_standard :: "stable_entry list" where
  "tbl_standard =
     [stable_entry_of NID_commonName 1 ub_common_name DIRSTRING_TYPE 0,
      stable_entry_of NID_countryName 2 2 B_ASN1_PRINTABLESTRING STABLE_NO_MASK,
      stable_entry_of NID_localityName 1 ub_locality_name DIRSTRING_TYPE 0,
      stable_entry_of NID_stateOrProvinceName 1 ub_state_name DIRSTRING_TYPE 0,
      stable_entry_of NID_organizationName 1 ub_organization_name DIRSTRING_TYPE 0,
      stable_entry_of NID_organizationalUnitName 1 ub_organization_unit_name DIRSTRING_TYPE 0,
      stable_entry_of NID_pkcs9_emailAddress 1 ub_email_address B_ASN1_IA5STRING STABLE_NO_MASK,
      stable_entry_of NID_pkcs9_unstructuredName 1 (- 1) PKCS9STRING_TYPE 0,
      stable_entry_of NID_pkcs9_challengePassword 1 (- 1) PKCS9STRING_TYPE 0,
      stable_entry_of NID_pkcs9_unstructuredAddress 1 (- 1) DIRSTRING_TYPE 0,
      stable_entry_of NID_givenName 1 ub_name DIRSTRING_TYPE 0,
      stable_entry_of NID_surname 1 ub_name DIRSTRING_TYPE 0,
      stable_entry_of NID_initials 1 ub_name DIRSTRING_TYPE 0,
      stable_entry_of NID_serialNumber 1 ub_serial_number B_ASN1_PRINTABLESTRING STABLE_NO_MASK,
      stable_entry_of NID_friendlyName (- 1) (- 1) B_ASN1_BMPSTRING STABLE_NO_MASK,
      stable_entry_of NID_name 1 ub_name DIRSTRING_TYPE 0,
      stable_entry_of NID_dnQualifier (- 1) (- 1) B_ASN1_PRINTABLESTRING STABLE_NO_MASK,
      stable_entry_of NID_domainComponent 1 (- 1) B_ASN1_IA5STRING STABLE_NO_MASK,
      stable_entry_of NID_ms_csp_name (- 1) (- 1) B_ASN1_BMPSTRING STABLE_NO_MASK]"

section \<open>Comparison and hash\<close>

definition table_cmp :: "stable_entry \<Rightarrow> stable_entry \<Rightarrow> int" where
  "table_cmp a b = (if tb_nid a < tb_nid b then - 1 else if tb_nid b < tb_nid a then 1 else 0)"

text \<open>The four bytes of \<open>nid\<close>, as \<open>OPENSSL_hash32\<close> reads them.\<close>

definition nid_mem :: "int \<Rightarrow> mem" where
  "nid_mem nid p = (if 0 \<le> p \<and> p < 4 then Some (word_of_int (nid div 2 ^ (8 * nat p))) else None)"

definition table_hash :: "stable_entry \<Rightarrow> u32" where
  "table_hash tbl = (case OPENSSL_hash32 (nid_mem (tb_nid tbl)) 0 4 of Some h \<Rightarrow> h | None \<Rightarrow> 0)"

text \<open>The helpers \<open>DEFINE_LHASH_OF\<close> generates.\<close>

definition call_table_cmp :: "(stable_entry, unit) lh_cmp_caller" where
  "call_table_cmp f a b = table_cmp a b"

definition call_table_hash :: "(stable_entry, unit) hash_caller" where
  "call_table_hash f a = table_hash a"

section \<open>Lookup\<close>

text \<open>\<open>bsearch\<close> of the C library on the entries from \<open>lo\<close> to \<open>hi\<close>.\<close>

function bsearch_between :: "('a \<Rightarrow> 'a \<Rightarrow> int) \<Rightarrow> 'a \<Rightarrow> 'a list \<Rightarrow> nat \<Rightarrow> nat \<Rightarrow> 'a option" where
  "bsearch_between cmp key xs lo hi =
     (if lo < hi
      then (let mid = (lo + hi) div 2; c = cmp key (xs ! mid)
            in if c < 0 then bsearch_between cmp key xs lo mid
               else if 0 < c then bsearch_between cmp key xs (mid + 1) hi
               else Some (xs ! mid))
      else None)"
  by pat_completeness auto
termination
  by (relation "measure (\<lambda>(_, _, _, lo, hi). hi - lo)") auto

declare bsearch_between.simps [simp del]

type_synonym stable_state = "(unit, unit) lhash_st option \<times> stable_entry lh_heap"

definition key_of :: "int \<Rightarrow> stable_entry" where
  "key_of nid = stable_entry_of nid 0 0 0 0"

definition asn1_string_table_get :: "stable_state \<Rightarrow> int \<Rightarrow> stable_entry option option" where
  "asn1_string_table_get S nid =
     (case bsearch_between table_cmp (key_of nid) tbl_standard 0 (length tbl_standard) of
        Some tbl \<Rightarrow> Some (Some tbl)
      | None \<Rightarrow>
          (case S of (None, H) \<Rightarrow> Some None
           | (Some lh, H) \<Rightarrow> OPENSSL_lh_retrieve call_table_hash call_table_cmp lh H (key_of nid)))"

section \<open>Registration\<close>

text \<open>\<open>grants_entry\<close> says whether the block of the new entry can be allocated. A failed \<open>assert\<close> is
  undefined.\<close>

definition ASN1_STRING_TABLE_add ::
    "stable_entry lh_alloc \<Rightarrow> bool \<Rightarrow> stable_state \<Rightarrow> int \<Rightarrow> int \<Rightarrow> int \<Rightarrow> u64 \<Rightarrow> u64 \<Rightarrow> (bool \<times> stable_state) option" where
  "ASN1_STRING_TABLE_add A grants_entry S nid minsize maxsize msk flags =
     Option.bind (asn1_string_table_get S nid) (\<lambda>found.
       if found \<noteq> None then Some (False, S)
       else
         Option.bind
           (case S of (None, H) \<Rightarrow> Some (map_option (\<lambda>lh. (lh, H)) (OPENSSL_lh_new A () ()))
            | (Some lh, H) \<Rightarrow>
                map_option (\<lambda>r. if r \<noteq> None then None else Some (lh, H))
                  (OPENSSL_lh_retrieve call_table_hash call_table_cmp lh H (key_of nid)))
           (\<lambda>table.
             case table of None \<Rightarrow> Some (False, S)
             | Some (lh, H) \<Rightarrow>
                 if \<not> grants_entry then Some (False, Some lh, H)
                 else
                   Option.bind
                     (OPENSSL_lh_insert A call_table_hash call_table_cmp lh H (stable_entry_of nid minsize maxsize msk flags))
                     (\<lambda>(ok, old, lh, H).
                       if \<not> ok then Some (False, Some lh, H)
                       else if old \<noteq> None then None else Some (True, Some lh, H))))"

section \<open>Strings for an attribute\<close>

definition ASN1_STRING_get_default_mask :: u64 where
  "ASN1_STRING_get_default_mask = B_ASN1_UTF8STRING"

text \<open>\<open>out\<close> is \<^term>\<open>None\<close> for a null pointer; the result is the string returned.\<close>

definition ASN1_STRING_set_by_NID ::
    "cbb_alloc \<Rightarrow> stable_state \<Rightarrow> asn1_string option option \<Rightarrow> (mem \<times> addr) option \<Rightarrow> int \<Rightarrow> int \<Rightarrow> int \<Rightarrow>
     (mb_error + asn1_string) option" where
  "ASN1_STRING_set_by_NID A S out src len inform nid =
     Option.bind (asn1_string_table_get S nid) (\<lambda>tbl.
       let out = (case out of None \<Rightarrow> Some None | Some s \<Rightarrow> Some s);
           r = (case tbl of
                  Some tbl \<Rightarrow>
                    ASN1_mbstring_ncopy A out src len inform
                      (if tb_flags tbl AND STABLE_NO_MASK = 0 then tb_mask tbl AND B_ASN1_UTF8STRING else tb_mask tbl)
                      (tb_minsize tbl) (tb_maxsize tbl)
                | None \<Rightarrow> ASN1_mbstring_copy A out src len inform B_ASN1_UTF8STRING)
       in (case r of None \<Rightarrow> None
           | Some (Inl e) \<Rightarrow> Some (Inl e)
           | Some (Inr (ret, None)) \<Rightarrow> None
           | Some (Inr (ret, Some s)) \<Rightarrow> if ret \<le> 0 then Some (Inl NO_REASON) else Some (Inr s)))"

end
