(* ===== verification/Boring_LHash_Correct.thy ===== *)
theory Boring_LHash_Correct
  imports Boring_LHash "HOL-Library.Multiset"
begin

text \<open>
  Chains: the list of items a pointer leads to, and how the operations of the hash table change the
  chains of its buckets.
\<close>

section \<open>Segments of a list on the heap\<close>

primrec seg :: "'d lh_heap \<Rightarrow> nat option \<Rightarrow> nat list \<Rightarrow> nat option \<Rightarrow> bool" where
  "seg H p [] q \<longleftrightarrow> p = q"
| "seg H p (a # as) q \<longleftrightarrow> p = Some a \<and> (\<exists>it. H a = Some it \<and> seg H (it_next it) as q)"

abbreviation chain :: "'d lh_heap \<Rightarrow> nat option \<Rightarrow> nat list \<Rightarrow> bool" where
  "chain H p as \<equiv> seg H p as None"

lemma seg_append: "seg H p (as @ bs) q \<longleftrightarrow> (\<exists>r. seg H p as r \<and> seg H r bs q)"
  by (induction as arbitrary: p) auto

lemma seg_cong: "(\<And>a. a \<in> set as \<Longrightarrow> H' a = H a) \<Longrightarrow> seg H' p as q \<longleftrightarrow> seg H p as q"
  by (induction as arbitrary: p) simp_all

lemma seg_dom: "seg H p as q \<Longrightarrow> set as \<subseteq> dom H"
  by (induction as arbitrary: p) auto

lemma seg_start: "seg H p as q \<Longrightarrow> as \<noteq> [] \<Longrightarrow> p = Some (hd as)"
  by (cases as) auto

lemma chain_None [simp]: "chain H None as \<longleftrightarrow> as = []"
  by (cases as) auto

section \<open>The chains of a table\<close>

text \<open>The slot behind the first items \<open>xs\<close> of the chain of bucket \<open>i\<close>.\<close>

definition slot_after :: "nat \<Rightarrow> nat list \<Rightarrow> lh_slot" where
  "slot_after i xs = (if xs = [] then Bucket i else NextOf (last xs))"

lemma read_slot_after:
  "i < length (lh_buckets lh) \<Longrightarrow> seg H (lh_buckets lh ! i) xs q \<Longrightarrow> read_slot lh H (slot_after i xs) = Some q"
  by (cases xs rule: rev_cases) (auto simp: slot_after_def read_slot_def seg_append)

text \<open>Searching a chain stops in front of the first match.\<close>

lemma find_slot_chain:
  assumes "i < length (lh_buckets lh)" "chain H (lh_buckets lh ! i) (xs @ ys)"
  shows "find_slot P lh H (slot_after i xs) = Some (slot_after i (xs @ takeWhile (\<lambda>a. \<not> P (it_data (the (H a)))) ys))"
  using assms
proof (induction ys arbitrary: xs)
  case Nil
  then have "read_slot lh H (slot_after i xs) = Some None" by (intro read_slot_after) simp_all
  then show ?case by (subst find_slot.simps) simp
next
  case (Cons a ys)
  obtain q where q: "seg H (lh_buckets lh ! i) xs q" "seg H q (a # ys) None" using Cons.prems(2) seg_append by blast
  then obtain it where it: "q = Some a" "H a = Some it" by auto
  have rd: "read_slot lh H (slot_after i xs) = Some (Some a)" using read_slot_after [OF Cons.prems(1) q(1)] it by simp
  show ?case
  proof (cases "P (it_data it)")
    case True
    then show ?thesis using rd it by (subst find_slot.simps) simp
  next
    case False
    have "NextOf a = slot_after i (xs @ [a])" by (simp add: slot_after_def)
    then show ?thesis using False rd it Cons.IH [of "xs @ [a]"] Cons.prems by (subst find_slot.simps) simp
  qed
qed

text \<open>Writing through the slot behind \<open>xs\<close> redirects what follows \<open>xs\<close>.\<close>

definition redirected :: "('c, 'h) lhash_st \<Rightarrow> nat \<Rightarrow> nat list \<Rightarrow> nat option \<Rightarrow> ('c, 'h) lhash_st" where
  "redirected lh i xs q = (if xs = [] then lh\<lparr>lh_buckets := (lh_buckets lh)[i := q]\<rparr> else lh)"

definition relinked :: "'d lh_heap \<Rightarrow> nat list \<Rightarrow> nat option \<Rightarrow> 'd lh_heap" where
  "relinked H xs q = (if xs = [] then H else H(last xs \<mapsto> (the (H (last xs)))\<lparr>it_next := q\<rparr>))"

lemma write_slot_after:
  assumes "i < length (lh_buckets lh)" "seg H (lh_buckets lh ! i) xs r"
  shows "write_slot lh H (slot_after i xs) q = Some (redirected lh i xs q, relinked H xs q)"
  using assms
  by (cases xs rule: rev_cases) (auto simp: slot_after_def write_slot_def seg_append redirected_def relinked_def)

lemma seg_relinked:
  assumes "i < length (lh_buckets lh)" "seg H (lh_buckets lh ! i) xs r" "distinct xs"
  shows "seg (relinked H xs q) (lh_buckets (redirected lh i xs q) ! i) xs q"
proof (cases xs rule: rev_cases)
  case Nil
  then show ?thesis using assms by (simp add: redirected_def)
next
  case (snoc ys a)
  then obtain q' where s: "seg H (lh_buckets lh ! i) ys q'" "q' = Some a" "\<exists>it. H a = Some it"
    using assms(2) by (auto simp: seg_append)
  have "seg (relinked H xs q) (lh_buckets lh ! i) ys (Some a)"
    using s assms(3) snoc by (subst seg_cong [where H = H]) (auto simp: relinked_def)
  then show ?thesis using snoc s(3) by (auto simp: seg_append redirected_def relinked_def)
qed

section \<open>Well-formed tables\<close>

text \<open>
  \<open>cs\<close> lists the addresses of the items of every bucket. Every item of the heap is in exactly one
  chain, that of the bucket its hash selects, and \<open>num_items\<close> counts them.
\<close>

definition lh_wf :: "('c, 'h) lhash_st \<Rightarrow> 'd lh_heap \<Rightarrow> nat list list \<Rightarrow> bool" where
  "lh_wf lh H cs \<longleftrightarrow>
     length cs = length (lh_buckets lh) \<and> length (lh_buckets lh) = unat (lh_num_buckets lh) \<and> 16 \<le> unat (lh_num_buckets lh) \<and>
     (\<forall>i < length cs. chain H (lh_buckets lh ! i) (cs ! i) \<and> distinct (cs ! i) \<and>
        (\<forall>a \<in> set (cs ! i). bucket_of lh (it_hash (the (H a))) = i)) \<and>
     dom H = (\<Union>i < length cs. set (cs ! i)) \<and> lh_num_items lh = of_nat (card (dom H)) \<and> card (dom H) < 2 ^ 64"

text \<open>What the table stores, without the links.\<close>

definition stored :: "'d lh_heap \<Rightarrow> nat \<rightharpoonup> 'd \<times> u32" where
  "stored H a = map_option (\<lambda>it. (it_data it, it_hash it)) (H a)"

lemma stored_dom [simp]: "dom (stored H) = dom H"
  by (auto simp: stored_def dom_def)

lemma stored_upd: "stored (H(a := q)) = (stored H)(a := map_option (\<lambda>it. (it_data it, it_hash it)) q)"
  by (auto simp: stored_def fun_eq_iff)

lemma stored_relinked: "set xs \<subseteq> dom H \<Longrightarrow> stored (relinked H xs q) = stored H"
  by (cases xs rule: rev_cases) (auto simp: relinked_def stored_upd fun_upd_idem_iff stored_def)

lemma relinked_other: "a \<notin> set xs \<Longrightarrow> relinked H xs q a = H a"
  by (auto simp: relinked_def)

lemma lh_wfD:
  assumes "lh_wf lh H cs"
  shows "length cs = length (lh_buckets lh)" "length (lh_buckets lh) = unat (lh_num_buckets lh)" "16 \<le> unat (lh_num_buckets lh)"
    "\<And>i. i < length cs \<Longrightarrow> chain H (lh_buckets lh ! i) (cs ! i)" "\<And>i. i < length cs \<Longrightarrow> distinct (cs ! i)"
    "\<And>i a. i < length cs \<Longrightarrow> a \<in> set (cs ! i) \<Longrightarrow> bucket_of lh (it_hash (the (H a))) = i"
    "dom H = (\<Union>i < length cs. set (cs ! i))" "lh_num_items lh = of_nat (card (dom H))" "card (dom H) < 2 ^ 64"
  using assms by (auto simp: lh_wf_def)

lemma lh_wf_finite: "lh_wf lh H cs \<Longrightarrow> finite (dom H)"
  by (simp add: lh_wf_def)

lemma bucket_less: "lh_wf lh H cs \<Longrightarrow> bucket_of lh h < length cs"
proof -
  assume "lh_wf lh H cs"
  note w = lh_wfD [OF this]
  have "lh_num_buckets lh \<noteq> 0" using w(3) by auto
  then have "unat (ucast h mod lh_num_buckets lh) < unat (lh_num_buckets lh)"
    by (simp add: unat_mod unat_gt_0)
  then show ?thesis using w(1,2) by (simp add: bucket_of_def)
qed

lemma lh_disjoint: "lh_wf lh H cs \<Longrightarrow> i < length cs \<Longrightarrow> j < length cs \<Longrightarrow> a \<in> set (cs ! i) \<Longrightarrow> a \<in> set (cs ! j) \<Longrightarrow> i = j"
  by (metis lh_wfD(6))

text \<open>One chain and its items change.\<close>

lemma lh_wf_update:
  assumes wf: "lh_wf lh H cs" and i: "i < length cs"
    and b: "length (lh_buckets lh') = length (lh_buckets lh)" "lh_num_buckets lh' = lh_num_buckets lh"
      "\<And>j. j \<noteq> i \<Longrightarrow> lh_buckets lh' ! j = lh_buckets lh ! j"
    and c: "chain H' (lh_buckets lh' ! i) as" "distinct as" "\<And>a. a \<in> set as \<Longrightarrow> bucket_of lh (it_hash (the (H' a))) = i"
    and o: "\<And>a. a \<notin> set (cs ! i) \<Longrightarrow> a \<notin> set as \<Longrightarrow> H' a = H a"
    and d: "set as \<inter> (dom H - set (cs ! i)) = {}" "\<And>a. a \<in> set (cs ! i) \<Longrightarrow> a \<notin> set as \<Longrightarrow> H' a = None"
    and n: "lh_num_items lh' = of_nat (card (dom H'))" "card (dom H') < 2 ^ 64"
  shows "lh_wf lh' H' (cs[i := as])"
proof -
  note w = lh_wfD [OF wf]
  have other: "H' a = H a" if "j < length cs" "j \<noteq> i" "a \<in> set (cs ! j)" for a j
  proof (rule o)
    show "a \<notin> set (cs ! i)" using that i lh_disjoint [OF wf] by blast
    moreover have "a \<in> dom H" using w(7) that by blast
    ultimately show "a \<notin> set as" using d(1) by blast
  qed
  have bk: "bucket_of lh' = bucket_of lh" using b(2) by (simp add: bucket_of_def fun_eq_iff)
  have dom: "dom H' = (\<Union>j < length cs. set (cs[i := as] ! j))" (is "_ = ?U")
  proof (intro equalityI subsetI)
    fix a assume "a \<in> dom H'"
    then have "a \<in> set as \<or> a \<in> dom H \<and> a \<notin> set (cs ! i)" using o d(2) by fastforce
    then show "a \<in> ?U" using w(7) i by (force simp: nth_list_update)
  next
    fix a assume "a \<in> ?U"
    then obtain j where j: "j < length cs" "a \<in> set (cs[i := as] ! j)" by blast
    then show "a \<in> dom H'"
      using seg_dom [OF c(1)] other [OF j(1)] w(7) i by (cases "j = i") (auto simp: domIff)
  qed
  have "chain H' (lh_buckets lh' ! j) (cs[i := as] ! j) \<and> distinct (cs[i := as] ! j) \<and>
      (\<forall>a \<in> set (cs[i := as] ! j). bucket_of lh' (it_hash (the (H' a))) = j)" if j: "j < length cs" for j
    using j c w(4,5,6) i other [OF j] seg_cong [of "cs ! j" H' H] b(3) by (cases "j = i") (auto simp: bk)
  then show ?thesis using w(1,2,3) b n dom by (simp add: lh_wf_def)
qed

section \<open>Lookup\<close>

lemma lh_lookup:
  fixes P :: "'d \<Rightarrow> bool"
  assumes wf: "lh_wf lh H cs" and i: "i < length cs"
  defines "xs \<equiv> takeWhile (\<lambda>a. \<not> P (it_data (the (H a)))) (cs ! i)"
    and "ys \<equiv> dropWhile (\<lambda>a. \<not> P (it_data (the (H a)))) (cs ! i)"
  defines "q \<equiv> (case ys of [] \<Rightarrow> None | a # _ \<Rightarrow> Some a)"
  shows "find_slot P lh H (Bucket i) = Some (slot_after i xs)" "seg H (lh_buckets lh ! i) xs q" "seg H q ys None"
    "read_slot lh H (slot_after i xs) = Some q"
proof -
  note w = lh_wfD [OF wf]
  have ch: "chain H (lh_buckets lh ! i) (cs ! i)" using w(4) i by blast
  then show "find_slot P lh H (Bucket i) = Some (slot_after i xs)"
    using find_slot_chain [of i lh H "[]" "cs ! i" P] i w(1) by (simp add: xs_def slot_after_def)
  have "cs ! i = xs @ ys" by (simp add: xs_def ys_def)
  then obtain r where r: "seg H (lh_buckets lh ! i) xs r" "seg H r ys None" using ch by (auto simp: seg_append)
  then have "r = q" by (cases ys) (auto simp: q_def)
  then show s: "seg H (lh_buckets lh ! i) xs q" "seg H q ys None" using r by simp_all
  show "read_slot lh H (slot_after i xs) = Some q" using read_slot_after s(1) i w(1) by metis
qed

section \<open>Linking and unlinking an item\<close>

lemma redirected_simps:
  "length (lh_buckets (redirected lh i xs q)) = length (lh_buckets lh)"
  "lh_num_buckets (redirected lh i xs q) = lh_num_buckets lh"
  "lh_num_items (redirected lh i xs q) = lh_num_items lh"
  "lh_callback_depth (redirected lh i xs q) = lh_callback_depth lh"
  "lh_comp (redirected lh i xs q) = lh_comp lh" "lh_hash (redirected lh i xs q) = lh_hash lh"
  "j \<noteq> i \<Longrightarrow> lh_buckets (redirected lh i xs q) ! j = lh_buckets lh ! j"
  by (auto simp: redirected_def)

lemma relinked_hash: "set xs \<subseteq> dom H \<Longrightarrow> a \<in> dom H \<Longrightarrow> it_hash (the (relinked H xs q a)) = it_hash (the (H a))"
  by (auto simp: relinked_def)

lemma relinked_dom: "set xs \<subseteq> dom H \<Longrightarrow> dom (relinked H xs q) = dom H"
  by (metis stored_dom stored_relinked)

lemma lh_append:
  fixes H :: "'d lh_heap" and d :: 'd
  assumes wf: "lh_wf lh H cs" and i: "i = bucket_of lh h" and a: "H a = None" and n: "Suc (card (dom H)) < 2 ^ 64"
  defines "H1 \<equiv> H(a \<mapsto> \<lparr>it_data = d, it_next = None, it_hash = h\<rparr>)"
  defines "lh' \<equiv> (redirected lh i (cs ! i) (Some a))\<lparr>lh_num_items := lh_num_items lh + 1\<rparr>"
    and "H' \<equiv> relinked H1 (cs ! i) (Some a)"
  shows "write_slot lh H1 (slot_after i (cs ! i)) (Some a) = Some (redirected lh i (cs ! i) (Some a), H')"
    "lh_wf lh' H' (cs[i := cs ! i @ [a]])" "stored H' = (stored H)(a \<mapsto> (d, h))"
proof -
  note w = lh_wfD [OF wf]
  have il: "i < length cs" using bucket_less [OF wf] i by simp
  have sub: "set (cs ! i) \<subseteq> dom H" using w(7) il by blast
  then have an: "a \<notin> set (cs ! i)" "set (cs ! i) \<subseteq> dom H1" using a by (auto simp: H1_def)
  have ch: "chain H1 (lh_buckets lh ! i) (cs ! i)" using w(4) [OF il] an by (subst seg_cong [where H = H]) (auto simp: H1_def)
  show "write_slot lh H1 (slot_after i (cs ! i)) (Some a) = Some (redirected lh i (cs ! i) (Some a), H')"
    using write_slot_after [OF _ ch] il w(1) by (simp add: H'_def)
  show st: "stored H' = (stored H)(a \<mapsto> (d, h))"
    unfolding H'_def stored_relinked [OF an(2)] by (simp add: H1_def stored_upd)
  then have domH': "dom H' = insert a (dom H)" by (metis dom_fun_upd option.distinct(1) stored_dom)
  have Ha: "H' a = Some \<lparr>it_data = d, it_next = None, it_hash = h\<rparr>"
    unfolding H'_def relinked_other [OF an(1)] by (simp add: H1_def)
  have hash: "it_hash (the (H' b)) = it_hash (the (H b))" if "b \<in> set (cs ! i)" for b
  proof -
    have "b \<in> dom H1" "b \<noteq> a" using that an by auto
    then show ?thesis using relinked_hash [OF an(2), of b "Some a"] by (simp add: H'_def H1_def)
  qed
  have card: "card (dom H') = Suc (card (dom H))" using domH' a lh_wf_finite [OF wf] by (simp add: domIff)
  have "seg H' (lh_buckets (redirected lh i (cs ! i) (Some a)) ! i) (cs ! i) (Some a)"
    unfolding H'_def using il w(1,5) ch by (intro seg_relinked) simp_all
  then have ch': "chain H' (lh_buckets lh' ! i) (cs ! i @ [a])"
    using Ha by (auto simp: seg_append lh'_def)
  show "lh_wf lh' H' (cs[i := cs ! i @ [a]])"
  proof (rule lh_wf_update [OF wf il])
    show "chain H' (lh_buckets lh' ! i) (cs ! i @ [a])" by (rule ch')
    show "H' b = H b" if "b \<notin> set (cs ! i)" "b \<notin> set (cs ! i @ [a])" for b
      using that relinked_other [of b "cs ! i" H1] by (simp add: H'_def H1_def)
    show "bucket_of lh (it_hash (the (H' b))) = i" if "b \<in> set (cs ! i @ [a])" for b
      using that hash w(6) [OF il] Ha i by (auto split: if_splits)
    show "lh_num_items lh' = of_nat (card (dom H'))" using w(8) card by (simp add: lh'_def)
  qed (use a an w(5) il card n in \<open>auto simp: lh'_def redirected_simps\<close>)
qed

lemma lh_unlink:
  assumes wf: "lh_wf lh H cs" and i: "i < length cs" and c: "cs ! i = xs @ a # ys" and a: "H a = Some it"
  defines "H' \<equiv> (relinked H xs (it_next it))(a := None)"
  defines "lh' \<equiv> (redirected lh i xs (it_next it))\<lparr>lh_num_items := lh_num_items lh - 1\<rparr>"
  shows "write_slot lh H (slot_after i xs) (it_next it) = Some (redirected lh i xs (it_next it), relinked H xs (it_next it))"
    "lh_wf lh' H' (cs[i := xs @ ys])" "stored H' = (stored H)(a := None)"
proof -
  note w = lh_wfD [OF wf]
  have sub: "set (cs ! i) \<subseteq> dom H" using w(7) i by blast
  then have xs: "set xs \<subseteq> dom H" using c by auto
  have an: "a \<notin> set xs" "a \<notin> set ys" "distinct (xs @ ys)" using w(5) [OF i] c by auto
  have ch: "seg H (lh_buckets lh ! i) xs (Some a)" "seg H (it_next it) ys None"
    using w(4) [OF i] c a by (auto simp: seg_append)
  show "write_slot lh H (slot_after i xs) (it_next it) = Some (redirected lh i xs (it_next it), relinked H xs (it_next it))"
    using write_slot_after [OF _ ch(1)] i w(1) by simp
  show st: "stored H' = (stored H)(a := None)" by (simp add: H'_def stored_upd stored_relinked [OF xs])
  then have domH': "dom H' = dom H - {a}" by (metis dom_fun_upd stored_dom)
  have card: "card (dom H) = Suc (card (dom H'))"
    using domH' a lh_wf_finite [OF wf] by (metis card.remove domI)
  have "seg (relinked H xs (it_next it)) (lh_buckets (redirected lh i xs (it_next it)) ! i) xs (it_next it)"
    using i w(1) an ch(1) by (intro seg_relinked) simp_all
  then have s1: "seg H' (lh_buckets lh' ! i) xs (it_next it)"
    using an by (subst seg_cong [where H = "relinked H xs (it_next it)"]) (auto simp: H'_def lh'_def)
  have s2: "seg H' (it_next it) ys None"
    using ch(2) an by (subst seg_cong [where H = H]) (auto simp: H'_def intro!: relinked_other)
  have hash: "it_hash (the (H' b)) = it_hash (the (H b))" if "b \<in> set (xs @ ys)" for b
  proof -
    have "b \<in> dom H" "b \<noteq> a" using that sub c an by auto
    then show ?thesis using relinked_hash [OF xs, of b "it_next it"] by (simp add: H'_def)
  qed
  show "lh_wf lh' H' (cs[i := xs @ ys])"
  proof (rule lh_wf_update [OF wf i])
    show "chain H' (lh_buckets lh' ! i) (xs @ ys)" using s1 s2 by (auto simp: seg_append)
    show "H' b = H b" if "b \<notin> set (cs ! i)" "b \<notin> set (xs @ ys)" for b
      unfolding H'_def using that c relinked_other by auto
    show "bucket_of lh (it_hash (the (H' b))) = i" if "b \<in> set (xs @ ys)" for b
      using that hash w(6) [OF i, of b] c by auto
    show "lh_num_items lh' = of_nat (card (dom H'))" using w(8) card by (simp add: lh'_def)
    show "card (dom H') < 2 ^ 64" using w(9) card by simp
  qed (use c an in \<open>auto simp: lh'_def redirected_simps H'_def\<close>)
qed

lemma lh_replace:
  assumes wf: "lh_wf lh H cs" and a: "H a = Some it"
  shows "lh_wf lh (H(a \<mapsto> it\<lparr>it_data := d\<rparr>)) cs" "stored (H(a \<mapsto> it\<lparr>it_data := d\<rparr>)) = (stored H)(a \<mapsto> (d, it_hash it))"
proof -
  let ?H = "H(a \<mapsto> it\<lparr>it_data := d\<rparr>)"
  have sg: "seg ?H p as q \<longleftrightarrow> seg H p as q" for p as q
    using a by (induction as arbitrary: p) auto
  have D: "dom ?H = dom H" and hash: "it_hash (the (?H b)) = it_hash (the (H b))" for b using a by auto
  show "lh_wf lh ?H cs" using wf unfolding lh_wf_def sg D hash .
  show "stored ?H = (stored H)(a \<mapsto> (d, it_hash it))" by (simp add: stored_upd)
qed

section \<open>Resizing\<close>

text \<open>The items that \<open>lh_rebucket\<close> has moved so far are well-formed chains of the new array \<open>nb\<close>, and
  the rest is untouched.\<close>

definition moved_ok :: "u64 \<Rightarrow> nat option list \<Rightarrow> 'd lh_heap \<Rightarrow> nat list list \<Rightarrow> bool" where
  "moved_ok n nb H ns \<longleftrightarrow>
     length ns = unat n \<and> length nb = unat n \<and>
     (\<forall>i < length ns. chain H (nb ! i) (ns ! i) \<and> distinct (ns ! i) \<and>
        (\<forall>a \<in> set (ns ! i). unat (ucast (it_hash (the (H a))) mod n) = i))"

definition moved :: "nat list list \<Rightarrow> nat set" where
  "moved ns = (\<Union>i < length ns. set (ns ! i))"

lemma moved_step:
  assumes ok: "moved_ok n nb H ns" and a: "a \<notin> moved ns" "H a = Some it" and n: "n \<noteq> 0"
  defines "k \<equiv> unat (ucast (it_hash it) mod n)"
  shows "k < length nb" "moved_ok n (nb[k := Some a]) (H(a \<mapsto> it\<lparr>it_next := nb ! k\<rparr>)) (ns[k := a # ns ! k])"
    "moved (ns[k := a # ns ! k]) = insert a (moved ns)"
proof -
  let ?H = "H(a \<mapsto> it\<lparr>it_next := nb ! k\<rparr>)"
  have len: "length ns = unat n" "length nb = unat n" using ok by (simp_all add: moved_ok_def)
  have "k < unat n" using n by (simp add: k_def unat_mod unat_gt_0)
  then show k: "k < length nb" using len by simp
  have notin: "a \<notin> set (ns ! i)" if "i < length ns" for i using a(1) that by (auto simp: moved_def)
  have keep: "chain ?H p (ns ! i) \<longleftrightarrow> chain H p (ns ! i)" if "i < length ns" for i p
    using notin [OF that] by (intro seg_cong) auto
  have hash: "it_hash (the (?H b)) = it_hash (the (H b))" for b using a by simp
  show "moved_ok n (nb[k := Some a]) ?H (ns[k := a # ns ! k])"
    unfolding moved_ok_def
  proof (intro conjI allI impI)
    fix i assume i: "i < length (ns[k := a # ns ! k])"
    show "chain ?H (nb[k := Some a] ! i) (ns[k := a # ns ! k] ! i)"
      using ok i keep k len by (cases "i = k") (auto simp: moved_ok_def)
    show "distinct (ns[k := a # ns ! k] ! i)"
      using ok i notin k len by (cases "i = k") (auto simp: moved_ok_def)
    show "\<forall>b \<in> set (ns[k := a # ns ! k] ! i). unat (ucast (it_hash (the (?H b))) mod n) = i"
      using ok i a(2) k len unfolding hash by (cases "i = k") (auto simp: moved_ok_def k_def)
  qed (use len in simp_all)
  show "moved (ns[k := a # ns ! k]) = insert a (moved ns)"
    using k len by (force simp: moved_def nth_list_update split: if_splits)
qed

text \<open>Moving one chain.\<close>

lemma rebucket_chain_moves:
  assumes "moved_ok n nb H ns" "chain H p as" "distinct as" "set as \<inter> moved ns = {}" "n \<noteq> 0"
  shows "\<exists>nb' H' ns'. rebucket_chain n p nb H = Some (nb', H') \<and> moved_ok n nb' H' ns' \<and>
    moved ns' = moved ns \<union> set as \<and> stored H' = stored H \<and> (\<forall>b. b \<notin> set as \<longrightarrow> H' b = H b)"
  using assms(1-4)
proof (induction as arbitrary: p nb H ns)
  case Nil
  then show ?case by (subst rebucket_chain.simps) auto
next
  case (Cons a as)
  then obtain it where it: "p = Some a" "H a = Some it" "chain H (it_next it) as" by auto
  define k where "k = unat (ucast (it_hash it) mod n)"
  let ?H = "H(a \<mapsto> it\<lparr>it_next := nb ! k\<rparr>)" and ?nb = "nb[k := Some a]" and ?ns = "ns[k := a # ns ! k]"
  have "a \<notin> moved ns" using Cons.prems(4) by simp
  note st = moved_step [OF Cons.prems(1) this it(2) assms(5), folded k_def]
  have ch: "chain ?H (it_next it) as" using it(3) Cons.prems(3) by (subst seg_cong [where H = H]) auto
  have "distinct as" "set as \<inter> moved ?ns = {}" using Cons.prems(3,4) unfolding st(3) by auto
  from Cons.IH [OF st(2) ch this] obtain nb' H' ns' where r: "rebucket_chain n (it_next it) ?nb ?H = Some (nb', H')" "moved_ok n nb' H' ns'"
      "moved ns' = moved ?ns \<union> set as" "stored H' = stored ?H" "\<forall>b. b \<notin> set as \<longrightarrow> H' b = ?H b"
    by blast
  have "stored ?H = stored H" using it(2) by (simp add: stored_upd fun_upd_idem_iff stored_def)
  moreover have "rebucket_chain n p nb H = Some (nb', H')"
    using r(1) it st(1) by (subst rebucket_chain.simps) (simp flip: k_def)
  moreover have "\<forall>b. b \<notin> set (a # as) \<longrightarrow> H' b = H b" using r(5) by simp
  ultimately show ?case using r(2,3,4) st(3) by auto
qed

lemma rebucket_loop_moves:
  assumes wf: "lh_wf lh H0 cs" and n: "n \<noteq> 0"
    and inv: "moved_ok n nb H ns" "moved ns = (\<Union>j < i. set (cs ! j))"
      "\<And>j b. i \<le> j \<Longrightarrow> j < length cs \<Longrightarrow> b \<in> set (cs ! j) \<Longrightarrow> H b = H0 b" "stored H = stored H0"
    and k: "i + k = length cs"
  shows "\<exists>nb' H' ns'. rebucket_loop n lh i k (nb, H) = Some (nb', H') \<and> moved_ok n nb' H' ns' \<and>
    moved ns' = (\<Union>j < length cs. set (cs ! j)) \<and> stored H' = stored H0"
  using inv k
proof (induction k arbitrary: i nb H ns)
  case 0
  then show ?case by auto
next
  case (Suc k)
  note w = lh_wfD [OF wf]
  have i: "i < length cs" using Suc.prems(5) by simp
  have ch: "chain H (lh_buckets lh ! i) (cs ! i)"
    using w(4) [OF i] Suc.prems(3) [OF _ i] seg_cong [of "cs ! i" H H0] by simp
  have "set (cs ! i) \<inter> moved ns = {}"
    unfolding Suc.prems(2)
  proof (intro equals0I)
    fix b assume "b \<in> set (cs ! i) \<inter> (\<Union>j < i. set (cs ! j))"
    then obtain j where "j < i" "b \<in> set (cs ! i)" "b \<in> set (cs ! j)" by blast
    then show False using lh_disjoint [OF wf i, of j b] i by simp
  qed
  from rebucket_chain_moves [OF Suc.prems(1) ch w(5) [OF i] this n] obtain nb1 H1 ns1 where
    r: "rebucket_chain n (lh_buckets lh ! i) nb H = Some (nb1, H1)" "moved_ok n nb1 H1 ns1"
      "moved ns1 = moved ns \<union> set (cs ! i)" "stored H1 = stored H" "\<forall>b. b \<notin> set (cs ! i) \<longrightarrow> H1 b = H b" by blast
  have m1: "moved ns1 = (\<Union>j < Suc i. set (cs ! j))" using r(3) Suc.prems(2) by (auto simp: lessThan_Suc)
  have rest: "H1 b = H0 b" if "Suc i \<le> j" "j < length cs" "b \<in> set (cs ! j)" for j b
    using r(5) Suc.prems(3) [of j b] lh_disjoint [OF wf i that(2) _ that(3)] that by fastforce
  have "rebucket_loop n lh i (Suc k) (nb, H) = rebucket_loop n lh (Suc i) k (nb1, H1)"
    using r(1) i w(1) by simp
  moreover have "stored H1 = stored H0" "Suc i + k = length cs" using r(4) Suc.prems(4,5) by simp_all
  ultimately show ?case using Suc.IH [OF r(2) m1 rest] by simp
qed

text \<open>Everything but the links and the array of buckets stays.\<close>

definition same_table :: "('c, 'h) lhash_st \<Rightarrow> ('c, 'h) lhash_st \<Rightarrow> bool" where
  "same_table lh lh' \<longleftrightarrow> lh_num_items lh' = lh_num_items lh \<and> lh_callback_depth lh' = lh_callback_depth lh \<and>
     lh_comp lh' = lh_comp lh \<and> lh_hash lh' = lh_hash lh"

lemma lh_rebucket_wf:
  assumes wf: "lh_wf lh H cs" and n: "16 \<le> unat n"
  shows "\<exists>lh' H' cs'. lh_rebucket A lh H n = Some (lh', H') \<and> lh_wf lh' H' cs' \<and> stored H' = stored H \<and> same_table lh lh'"
proof (cases "8 * n div 8 \<noteq> n \<or> \<not> lh_grants A (8 * n)")
  case True
  then have "lh_rebucket A lh H n = Some (lh, H)" by (auto simp: lh_rebucket_def Let_def)
  then show ?thesis using wf by (auto simp: same_table_def)
next
  case False
  note w = lh_wfD [OF wf]
  have n0: "n \<noteq> 0" using n by auto
  have "moved_ok n (replicate (unat n) None) H (replicate (unat n) [])" by (simp add: moved_ok_def)
  moreover have "moved (replicate (unat n) []) = (\<Union>j < 0. set (cs ! j))" by (auto simp: moved_def)
  ultimately obtain nb' H' ns' where
    r: "rebucket_loop n lh 0 (length cs) (replicate (unat n) None, H) = Some (nb', H')" "moved_ok n nb' H' ns'"
      "moved ns' = (\<Union>j < length cs. set (cs ! j))" "stored H' = stored H"
    using rebucket_loop_moves [OF wf n0, of "replicate (unat n) None" H "replicate (unat n) []" 0 "length cs"] by auto
  let ?lh = "lh\<lparr>lh_num_buckets := n, lh_buckets := nb'\<rparr>"
  have "lh_rebucket A lh H n = Some (?lh, H')" using r(1) False w(1,2) by (simp add: lh_rebucket_def Let_def)
  moreover have "dom H' = dom H" using r(4) by (metis stored_dom)
  then have "lh_wf ?lh H' ns'"
    using r(2,3) w(7,8,9) n by (simp add: lh_wf_def moved_ok_def moved_def bucket_of_def)
  ultimately show ?thesis using r(4) by (auto simp: same_table_def)
qed

lemma lh_maybe_resize_wf:
  assumes wf: "lh_wf lh H cs"
  shows "\<exists>lh' H' cs'. lh_maybe_resize A lh H = Some (lh', H') \<and> lh_wf lh' H' cs' \<and> stored H' = stored H \<and> same_table lh lh'"
proof -
  note w = lh_wfD [OF wf]
  have same: "\<exists>lh' H' cs'. Some (lh, H) = Some (lh', H') \<and> lh_wf lh' H' cs' \<and> stored H' = stored H \<and> same_table lh lh'"
    using wf by (auto simp: same_table_def)
  have min: "kMinNumBuckets \<le> lh_num_buckets lh" using w(3) by (simp add: word_le_nat_alt kMinNumBuckets_def)
  have up: "16 \<le> unat (lh_num_buckets lh * 2)" if "lh_num_buckets lh < lh_num_buckets lh * 2"
    using that w(3) by (simp add: word_less_nat_alt)
  let ?n = "if lh_num_buckets lh div 2 < kMinNumBuckets then kMinNumBuckets else lh_num_buckets lh div 2"
  have down: "16 \<le> unat ?n" by (simp add: kMinNumBuckets_def word_less_nat_alt)
  show ?thesis
    unfolding lh_maybe_resize_def Let_def
    using min same lh_rebucket_wf [OF wf up] lh_rebucket_wf [OF wf down] by (simp split: if_split)
qed

end
