(* ===== verification/Boring_LHash_Theorems.thy ===== *)
theory Boring_LHash_Theorems
  imports Boring_LHash_Correct
begin

text \<open>
  The hash table as a set of data in which no two compare equal: lookup, insertion and removal act on
  the set, resizing does not change it, and iteration visits it.
\<close>

section \<open>Hash and comparison functions\<close>

text \<open>What the table relies on: comparing equal is an equivalence, and equal data have equal hashes.\<close>

locale hash_contract =
  fixes hf :: "'d \<Rightarrow> u32" and cmp :: "'d \<Rightarrow> 'd \<Rightarrow> int"
  assumes cmp_refl: "cmp d d = 0"
    and cmp_sym: "cmp d e = 0 \<Longrightarrow> cmp e d = 0"
    and cmp_trans: "cmp d e = 0 \<Longrightarrow> cmp e f = 0 \<Longrightarrow> cmp d f = 0"
    and cmp_hash: "cmp d e = 0 \<Longrightarrow> hf d = hf e"

text \<open>The keys of a table: the cached hashes are right, and no two items compare equal.\<close>

definition keyed :: "('d \<Rightarrow> u32) \<Rightarrow> ('d \<Rightarrow> 'd \<Rightarrow> int) \<Rightarrow> (nat \<rightharpoonup> 'd \<times> u32) \<Rightarrow> bool" where
  "keyed hf cmp K \<longleftrightarrow>
     (\<forall>a d h. K a = Some (d, h) \<longrightarrow> h = hf d) \<and>
     (\<forall>a b d e h k. K a = Some (d, h) \<and> K b = Some (e, k) \<and> cmp d e = 0 \<longrightarrow> a = b)"

definition data_of :: "(nat \<rightharpoonup> 'd \<times> u32) \<Rightarrow> 'd set" where
  "data_of K = fst ` ran K"

lemma data_of_iff: "d \<in> data_of K \<longleftrightarrow> (\<exists>a h. K a = Some (d, h))"
  by (force simp: data_of_def ran_def)

lemma data_of_upd:
  "data_of (K(a \<mapsto> (x, h))) = insert x {d. \<exists>b l. b \<noteq> a \<and> K b = Some (d, l)}"
  "data_of (K(a := None)) = {d. \<exists>b l. b \<noteq> a \<and> K b = Some (d, l)}"
  unfolding set_eq_iff insert_iff mem_Collect_eq data_of_iff fun_upd_apply
  by (metis option.inject prod.inject, metis option.distinct(1))

context hash_contract
begin

lemma keyed_append:
  assumes "keyed hf cmp K" "K a = None" "\<forall>d \<in> data_of K. cmp d x \<noteq> 0"
  shows "keyed hf cmp (K(a \<mapsto> (x, hf x)))" "data_of (K(a \<mapsto> (x, hf x))) = insert x (data_of K)"
proof -
  show "data_of (K(a \<mapsto> (x, hf x))) = insert x (data_of K)"
    using assms(2) unfolding data_of_upd set_eq_iff insert_iff mem_Collect_eq data_of_iff by (metis option.distinct(1))
  show "keyed hf cmp (K(a \<mapsto> (x, hf x)))"
    using assms cmp_sym unfolding keyed_def by (fastforce simp: data_of_iff split: if_splits)
qed

lemma keyed_match:
  assumes k: "keyed hf cmp K" and a: "K a = Some (d, h)" and d: "cmp d x = 0"
  shows "K b = Some (e, l) \<Longrightarrow> cmp e x = 0 \<Longrightarrow> b = a"
    and "{e. \<exists>b l. b \<noteq> a \<and> K b = Some (e, l)} = {e \<in> data_of K. cmp e x \<noteq> 0}"
proof -
  show uniq: "b = a" if "K b = Some (e, l)" "cmp e x = 0" for b e l
    using k a that cmp_trans [OF that(2) cmp_sym [OF d]] unfolding keyed_def by blast
  show "{e. \<exists>b l. b \<noteq> a \<and> K b = Some (e, l)} = {e \<in> data_of K. cmp e x \<noteq> 0}"
  proof (intro equalityI subsetI)
    fix e assume "e \<in> {e \<in> data_of K. cmp e x \<noteq> 0}"
    then obtain b l where "K b = Some (e, l)" "cmp e x \<noteq> 0" by (auto simp: data_of_iff)
    moreover have "b \<noteq> a" using calculation a d by auto
    ultimately show "e \<in> {e. \<exists>b l. b \<noteq> a \<and> K b = Some (e, l)}" by blast
  qed (use uniq in \<open>auto simp: data_of_iff\<close>)
qed

lemma keyed_replace:
  assumes k: "keyed hf cmp K" and a: "K a = Some (d, h)" and d: "cmp d x = 0"
  shows "keyed hf cmp (K(a \<mapsto> (x, h)))" "data_of (K(a \<mapsto> (x, h))) = {e \<in> data_of K. cmp e x \<noteq> 0} \<union> {x}"
proof -
  note uniq = keyed_match(1) [OF k a d]
  have h: "h = hf x" using k a cmp_hash [OF d] by (auto simp: keyed_def)
  show "data_of (K(a \<mapsto> (x, h))) = {e \<in> data_of K. cmp e x \<noteq> 0} \<union> {x}"
    unfolding data_of_upd keyed_match(2) [OF k a d] by simp
  have "b = c" if "(K(a \<mapsto> (x, h))) b = Some (e, l)" "(K(a \<mapsto> (x, h))) c = Some (f, m)" "cmp e f = 0" for b c e f l m
  proof (cases "b = a \<or> c = a")
    case True
    then show ?thesis using that uniq [of b e l] uniq [of c f m] cmp_sym [OF that(3)] by (auto split: if_splits)
  next
    case False
    then show ?thesis using that k unfolding keyed_def by simp
  qed
  moreover have "l = hf e" if "(K(a \<mapsto> (x, h))) b = Some (e, l)" for b e l
    using that k h by (auto simp: keyed_def split: if_splits)
  ultimately show "keyed hf cmp (K(a \<mapsto> (x, h)))" unfolding keyed_def by blast
qed

lemma keyed_remove:
  assumes k: "keyed hf cmp K" and a: "K a = Some (d, h)" and d: "cmp d x = 0"
  shows "keyed hf cmp (K(a := None))" "data_of (K(a := None)) = {e \<in> data_of K. cmp e x \<noteq> 0}"
  unfolding data_of_upd keyed_match(2) [OF k a d] using k by (auto simp: keyed_def)

lemma keyed_card: "keyed hf cmp K \<Longrightarrow> card (data_of K) = card (dom K)"
proof -
  assume k: "keyed hf cmp K"
  have "bij_betw (\<lambda>a. fst (the (K a))) (dom K) (data_of K)"
    unfolding bij_betw_def
  proof
    show "inj_on (\<lambda>a. fst (the (K a))) (dom K)"
    proof (rule inj_onI)
      fix a b assume "a \<in> dom K" "b \<in> dom K" "fst (the (K a)) = fst (the (K b))"
      then obtain d h l where "K a = Some (d, h)" "K b = Some (d, l)" by auto
      then show "a = b" using k cmp_refl unfolding keyed_def by blast
    qed
    show "(\<lambda>a. fst (the (K a))) ` dom K = data_of K" by (force simp: data_of_iff image_iff)
  qed
  then show ?thesis by (simp add: bij_betw_same_card)
qed

end

section \<open>Finding an item\<close>

definition lh_ok :: "('d, 'h) hash_caller \<Rightarrow> ('d, 'c) lh_cmp_caller \<Rightarrow> ('c, 'h) lhash_st \<Rightarrow> 'd lh_heap \<Rightarrow> bool" where
  "lh_ok call_hash call_cmp lh H \<longleftrightarrow>
     (\<exists>cs. lh_wf lh H cs) \<and> keyed (call_hash (lh_hash lh)) (call_cmp (lh_comp lh)) (stored H)"

definition lh_set :: "'d lh_heap \<Rightarrow> 'd set" where
  "lh_set H = data_of (stored H)"

lemma lh_set_iff: "d \<in> lh_set H \<longleftrightarrow> (\<exists>a it. H a = Some it \<and> it_data it = d)"
  by (auto simp: lh_set_def data_of_iff stored_def)

text \<open>Searching for data that satisfy \<open>P\<close> and can only be in the bucket of hash \<open>h\<close>.\<close>

lemma lh_find:
  assumes wf: "lh_wf lh H cs" and k: "keyed hf cmp (stored H)" and P: "\<And>d. d \<in> lh_set H \<Longrightarrow> P d \<Longrightarrow> hf d = h"
  obtains (found) xs a ys it where "find_slot P lh H (Bucket (bucket_of lh h)) = Some (slot_after (bucket_of lh h) xs)"
      "cs ! bucket_of lh h = xs @ a # ys" "H a = Some it" "P (it_data it)"
      "read_slot lh H (slot_after (bucket_of lh h) xs) = Some (Some a)"
  | (absent) "find_slot P lh H (Bucket (bucket_of lh h)) = Some (slot_after (bucket_of lh h) (cs ! bucket_of lh h))"
      "\<forall>d \<in> lh_set H. \<not> P d" "read_slot lh H (slot_after (bucket_of lh h) (cs ! bucket_of lh h)) = Some None"
proof -
  let ?i = "bucket_of lh h" and ?N = "\<lambda>a. \<not> P (it_data (the (H a)))"
  have i: "?i < length cs" by (rule bucket_less [OF wf])
  note L = lh_lookup [OF wf i, of P] and w = lh_wfD [OF wf]
  show thesis
  proof (cases "dropWhile ?N (cs ! ?i)")
    case Nil
    then have tw: "takeWhile ?N (cs ! ?i) = cs ! ?i" and all: "\<forall>a \<in> set (cs ! ?i). ?N a"
      by (simp_all add: takeWhile_eq_all_conv dropWhile_eq_Nil_conv)
    have "\<not> P d" if d: "d \<in> lh_set H" for d
    proof
      assume Pd: "P d"
      obtain a it where a: "H a = Some it" "it_data it = d" using d by (auto simp: lh_set_iff)
      then have "it_hash it = hf d" using k by (auto simp: keyed_def stored_def)
      moreover obtain j where j: "j < length cs" "a \<in> set (cs ! j)" using w(7) a(1) by blast
      ultimately have "j = ?i" using w(6) [OF j] a P [OF d Pd] by simp
      then have "a \<in> set (cs ! ?i)" using j(2) by simp
      then have "?N a" using all by blast
      then show False using a Pd by simp
    qed
    then show thesis using absent L Nil tw by simp
  next
    case (Cons a ys)
    then have c: "cs ! ?i = takeWhile ?N (cs ! ?i) @ a # ys" by (metis takeWhile_dropWhile_id)
    have "\<not> ?N a" using Cons by (metis dropWhile_eq_Cons_conv)
    moreover obtain it where it: "H a = Some it" using L(3) Cons by auto
    ultimately have "P (it_data it)" by simp
    then show thesis using found [OF L(1) c it] L(4) Cons by simp
  qed
qed

section \<open>The operations on the set\<close>

lemma lh_ok_set: "lh_ok ch cc lh H \<Longrightarrow> keyed (ch (lh_hash lh)) (cc (lh_comp lh)) (stored H)"
  by (simp add: lh_ok_def)

lemma lh_okI: "lh_wf lh H cs \<Longrightarrow> keyed (ch (lh_hash lh)) (cc (lh_comp lh)) (stored H) \<Longrightarrow> lh_ok ch cc lh H"
  by (auto simp: lh_ok_def)

text \<open>The item that compares equal to \<open>x\<close>.\<close>

definition lh_found :: "('d \<Rightarrow> bool) \<Rightarrow> 'd set \<Rightarrow> 'd option \<Rightarrow> bool" where
  "lh_found P D r \<longleftrightarrow> (case r of None \<Rightarrow> \<forall>d \<in> D. \<not> P d | Some d \<Rightarrow> d \<in> D \<and> P d)"

lemma lh_search:
  assumes ok: "lh_ok ch cc lh H" and P: "\<And>d. d \<in> lh_set H \<Longrightarrow> P d \<Longrightarrow> ch (lh_hash lh) d = h"
  shows "\<exists>r. Option.bind (find_slot P lh H (Bucket (bucket_of lh h))) (slot_data lh H) = Some r \<and> lh_found P (lh_set H) r"
proof -
  obtain cs where wf: "lh_wf lh H cs" using ok by (auto simp: lh_ok_def)
  show ?thesis
  proof (rule lh_find [OF wf lh_ok_set [OF ok] P])
    fix xs a ys it
    assume *: "find_slot P lh H (Bucket (bucket_of lh h)) = Some (slot_after (bucket_of lh h) xs)" "H a = Some it"
      "P (it_data it)" "read_slot lh H (slot_after (bucket_of lh h) xs) = Some (Some a)"
    then have "it_data it \<in> lh_set H" by (auto simp: lh_set_iff)
    then show ?thesis using * by (simp add: slot_data_def lh_found_def)
  qed (simp_all add: slot_data_def lh_found_def)
qed

lemma lh_retrieve_found:
  assumes "lh_ok ch cc lh H" "hash_contract (ch (lh_hash lh)) (cc (lh_comp lh))"
  shows "\<exists>r. OPENSSL_lh_retrieve ch cc lh H x = Some r \<and> lh_found (\<lambda>d. cc (lh_comp lh) d x = 0) (lh_set H) r"
  using lh_search [OF assms(1), of "\<lambda>d. cc (lh_comp lh) d x = 0" "ch (lh_hash lh) x"]
    hash_contract.cmp_hash [OF assms(2), of _ x]
  by (auto simp: OPENSSL_lh_retrieve_def get_next_ptr_and_hash_def Let_def option.map_comp o_def
      bind_map_option case_prod_beta split: bind_splits)

lemma lh_found_unique:
  assumes "keyed hf cmp K" "hash_contract hf cmp" "lh_found (\<lambda>d. cmp d x = 0) (data_of K) r" "d \<in> data_of K" "cmp d x = 0"
  shows "r = Some d"
proof -
  obtain e where e: "r = Some e" "e \<in> data_of K" "cmp e x = 0"
    using assms(3-5) by (cases r) (auto simp: lh_found_def)
  obtain a b h l where "K a = Some (d, h)" "K b = Some (e, l)" using e(2) assms(4) by (auto simp: data_of_iff)
  moreover have "a = b" using hash_contract.keyed_match(1) [OF assms(2,1) _ e(3)] calculation assms(5) by blast
  ultimately show ?thesis using e(1) by simp
qed

lemma lh_insert_new:
  fixes H :: "'d lh_heap"
  assumes wf: "lh_wf lh H cs" and k: "keyed (ch (lh_hash lh)) (cc (lh_comp lh)) (stored H)"
    and c: "hash_contract (ch (lh_hash lh)) (cc (lh_comp lh))"
    and none: "\<forall>d \<in> lh_set H. cc (lh_comp lh) d x \<noteq> 0" and m: "lh_malloc A H = Some a" "H a = None"
    and n: "Suc (card (dom H)) < 2 ^ 64" and h: "h = ch (lh_hash lh) x"
  defines "s \<equiv> slot_after (bucket_of lh h) (cs ! bucket_of lh h)"
  shows "\<exists>lh' H'. Option.bind (write_slot lh (H(a \<mapsto> \<lparr>it_data = x, it_next = None, it_hash = h\<rparr>)) s (Some a)) (\<lambda>(lh, H).
      map_option (\<lambda>(lh, H). (True, None :: 'd option, lh, H)) (lh_maybe_resize A (lh\<lparr>lh_num_items := lh_num_items lh + 1\<rparr>) H)) =
        Some (True, None, lh', H') \<and> lh_ok ch cc lh' H' \<and> lh_set H' = insert x (lh_set H) \<and>
      lh_comp lh' = lh_comp lh \<and> lh_hash lh' = lh_hash lh \<and> lh_callback_depth lh' = lh_callback_depth lh"
proof -
  let ?i = "bucket_of lh h"
  let ?H1 = "H(a \<mapsto> \<lparr>it_data = x, it_next = None, it_hash = h\<rparr>)"
  let ?r = "redirected lh ?i (cs ! ?i) (Some a)" and ?H' = "relinked ?H1 (cs ! ?i) (Some a)"
  note L = lh_append [OF wf refl m(2) n, where h = h and d = x]
  obtain lh' H' cs' where r: "lh_maybe_resize A (?r\<lparr>lh_num_items := lh_num_items lh + 1\<rparr>) ?H' = Some (lh', H')"
      "lh_wf lh' H' cs'" "stored H' = stored ?H'" "same_table (?r\<lparr>lh_num_items := lh_num_items lh + 1\<rparr>) lh'"
    using lh_maybe_resize_wf [OF L(2), of A] by blast
  have st: "stored H' = (stored H)(a \<mapsto> (x, ch (lh_hash lh) x))" using r(3) L(3) h by simp
  have sN: "stored H a = None" using m(2) by (simp add: stored_def)
  have t: "lh_comp lh' = lh_comp lh" "lh_hash lh' = lh_hash lh" "lh_callback_depth lh' = lh_callback_depth lh"
    using r(4) by (simp_all add: same_table_def redirected_simps)
  note K = hash_contract.keyed_append [OF c k sN none [unfolded lh_set_def]]
  have "lh_ok ch cc lh' H'" using lh_okI [OF r(2)] K(1) st t by simp
  moreover have "lh_set H' = insert x (lh_set H)" using K(2) st by (simp add: lh_set_def)
  ultimately show ?thesis using L(1) r(1) t by (simp add: s_def redirected_simps)
qed

lemma bucket_keyed:
  assumes "hash_contract (ch (lh_hash lh)) (cc (lh_comp lh))"
  shows "d \<in> lh_set H \<Longrightarrow> cc (lh_comp lh) d x = 0 \<Longrightarrow> ch (lh_hash lh) d = ch (lh_hash lh) x"
  by (rule hash_contract.cmp_hash [OF assms])

text \<open>The documented behaviour of \<open>malloc\<close>: what it returns is not in use.\<close>

definition fresh_malloc :: "'d lh_alloc \<Rightarrow> bool" where
  "fresh_malloc A \<longleftrightarrow> (\<forall>H a. lh_malloc A H = Some a \<longrightarrow> H a = None)"

lemma fresh_mallocD: "fresh_malloc A \<Longrightarrow> lh_malloc A H = Some a \<Longrightarrow> H a = None"
  by (simp add: fresh_malloc_def)

definition same_functions :: "('c, 'h) lhash_st \<Rightarrow> ('c, 'h) lhash_st \<Rightarrow> bool" where
  "same_functions lh lh' \<longleftrightarrow>
     lh_comp lh' = lh_comp lh \<and> lh_hash lh' = lh_hash lh \<and> lh_callback_depth lh' = lh_callback_depth lh"

lemma lh_insert_outcome:
  fixes H :: "'d lh_heap"
  assumes ok: "lh_ok ch cc lh H" and c: "hash_contract (ch (lh_hash lh)) (cc (lh_comp lh))"
    and fresh: "fresh_malloc A" and n: "Suc (card (lh_set H)) < 2 ^ 64"
  shows "\<exists>done old lh' H'. OPENSSL_lh_insert A ch cc lh H x = Some (done, old, lh', H') \<and> lh_ok ch cc lh' H' \<and>
    same_functions lh lh' \<and> lh_found (\<lambda>d. cc (lh_comp lh) d x = 0) (lh_set H) old \<and>
    (if old = None \<and> lh_malloc A H = None then \<not> done \<and> lh' = lh \<and> H' = H
     else done \<and> lh_set H' = {d \<in> lh_set H. cc (lh_comp lh) d x \<noteq> 0} \<union> {x})"
proof -
  let ?P = "\<lambda>d. cc (lh_comp lh) d x = 0" and ?h = "ch (lh_hash lh) x"
  obtain cs where wf: "lh_wf lh H cs" using ok by (auto simp: lh_ok_def)
  note k = lh_ok_set [OF ok]
  have card: "card (lh_set H) = card (dom H)" using hash_contract.keyed_card [OF c k] by (simp add: lh_set_def)
  show ?thesis
  proof (rule lh_find [OF wf k bucket_keyed [where ch = ch and cc = cc and lh = lh, OF c], where P = ?P])
    fix xs a ys it
    assume f: "find_slot ?P lh H (Bucket (bucket_of lh ?h)) = Some (slot_after (bucket_of lh ?h) xs)" "H a = Some it"
      "?P (it_data it)" "read_slot lh H (slot_after (bucket_of lh ?h) xs) = Some (Some a)"
    let ?H = "H(a \<mapsto> it\<lparr>it_data := x\<rparr>)"
    have sa: "stored H a = Some (it_data it, it_hash it)" using f(2) by (simp add: stored_def)
    note R = lh_replace [OF wf f(2), of x] and K = hash_contract.keyed_replace [OF c k sa f(3)]
    have "lh_ok ch cc lh ?H" using lh_okI [OF R(1)] K(1) R(2) by simp
    moreover have "lh_set ?H = {d \<in> lh_set H. \<not> ?P d} \<union> {x}" unfolding lh_set_def R(2) by (rule K(2))
    moreover have "lh_found ?P (lh_set H) (Some (it_data it))" using f(2,3) by (auto simp: lh_found_def lh_set_iff)
    moreover have "OPENSSL_lh_insert A ch cc lh H x = Some (True, Some (it_data it), lh, ?H)"
      using f by (simp add: OPENSSL_lh_insert_def get_next_ptr_and_hash_def Let_def)
    ultimately show ?thesis by (auto simp: same_functions_def)
  next
    assume f: "find_slot ?P lh H (Bucket (bucket_of lh ?h)) = Some (slot_after (bucket_of lh ?h) (cs ! bucket_of lh ?h))"
      "\<forall>d \<in> lh_set H. \<not> ?P d" "read_slot lh H (slot_after (bucket_of lh ?h) (cs ! bucket_of lh ?h)) = Some None"
    show ?thesis
    proof (cases "lh_malloc A H")
      case None
      then show ?thesis
        using f ok by (auto simp: OPENSSL_lh_insert_def get_next_ptr_and_hash_def Let_def same_functions_def lh_found_def)
    next
      case (Some a)
      have e: "{d \<in> lh_set H. \<not> ?P d} \<union> {x} = insert x (lh_set H)" using f(2) by auto
      obtain lh' H' where r: "Option.bind (write_slot lh (H(a \<mapsto> \<lparr>it_data = x, it_next = None, it_hash = ?h\<rparr>))
          (slot_after (bucket_of lh ?h) (cs ! bucket_of lh ?h)) (Some a)) (\<lambda>(lh, H).
          map_option (\<lambda>(lh, H). (True, None :: 'd option, lh, H)) (lh_maybe_resize A (lh\<lparr>lh_num_items := lh_num_items lh + 1\<rparr>) H)) =
            Some (True, None, lh', H')" "lh_ok ch cc lh' H'" "lh_set H' = insert x (lh_set H)" "same_functions lh lh'"
        using lh_insert_new [where ch = ch and cc = cc and lh = lh, OF wf k c f(2) Some fresh_mallocD [OF fresh Some] n [unfolded card] refl]
        unfolding same_functions_def by blast
      have "OPENSSL_lh_insert A ch cc lh H x = Some (True, None, lh', H')"
        using f r(1) Some by (simp add: OPENSSL_lh_insert_def get_next_ptr_and_hash_def Let_def)
      then show ?thesis
        using r(2,3,4) f(2) Some e
        by (intro exI [of _ True] exI [of _ None] exI [of _ lh'] exI [of _ H']) (simp add: lh_found_def)
    qed
  qed
qed

lemma lh_delete_outcome:
  assumes ok: "lh_ok ch cc lh H" and c: "hash_contract (ch (lh_hash lh)) (cc (lh_comp lh))"
  shows "\<exists>old lh' H'. OPENSSL_lh_delete A ch cc lh H x = Some (old, lh', H') \<and> lh_ok ch cc lh' H' \<and>
    same_functions lh lh' \<and> lh_found (\<lambda>d. cc (lh_comp lh) d x = 0) (lh_set H) old \<and>
    lh_set H' = {d \<in> lh_set H. cc (lh_comp lh) d x \<noteq> 0}"
proof -
  let ?P = "\<lambda>d. cc (lh_comp lh) d x = 0" and ?h = "ch (lh_hash lh) x"
  obtain cs where wf: "lh_wf lh H cs" using ok by (auto simp: lh_ok_def)
  note k = lh_ok_set [OF ok]
  show ?thesis
  proof (rule lh_find [OF wf k bucket_keyed [where ch = ch and cc = cc and lh = lh, OF c], where P = ?P])
    fix xs a ys it
    assume f: "find_slot ?P lh H (Bucket (bucket_of lh ?h)) = Some (slot_after (bucket_of lh ?h) xs)"
      "cs ! bucket_of lh ?h = xs @ a # ys" "H a = Some it" "?P (it_data it)"
      "read_slot lh H (slot_after (bucket_of lh ?h) xs) = Some (Some a)"
    let ?r = "redirected lh (bucket_of lh ?h) xs (it_next it)"
    let ?lh = "?r\<lparr>lh_num_items := lh_num_items lh - 1\<rparr>" and ?H = "(relinked H xs (it_next it))(a := None)"
    note U = lh_unlink [OF wf bucket_less [OF wf] f(2,3)]
    obtain lh' H' cs' where r: "lh_maybe_resize A ?lh ?H = Some (lh', H')" "lh_wf lh' H' cs'" "stored H' = stored ?H" "same_table ?lh lh'"
      using lh_maybe_resize_wf [OF U(2), of A] by blast
    have t: "lh_comp lh' = lh_comp lh" "lh_hash lh' = lh_hash lh" "lh_callback_depth lh' = lh_callback_depth lh"
      using r(4) by (simp_all add: same_table_def redirected_simps)
    have sa: "stored H a = Some (it_data it, it_hash it)" using f(3) by (simp add: stored_def)
    note K = hash_contract.keyed_remove [OF c k sa f(4)]
    have "lh_ok ch cc lh' H'" using lh_okI [OF r(2)] K(1) r(3) U(3) t by simp
    moreover have "lh_set H' = {d \<in> lh_set H. \<not> ?P d}" unfolding lh_set_def r(3) U(3) by (rule K(2))
    moreover have "lh_found ?P (lh_set H) (Some (it_data it))" using f(3,4) by (auto simp: lh_found_def lh_set_iff)
    moreover have "OPENSSL_lh_delete A ch cc lh H x = Some (Some (it_data it), lh', H')"
      using f U(1) r(1) by (simp add: OPENSSL_lh_delete_def get_next_ptr_and_hash_def Let_def redirected_simps)
    ultimately show ?thesis using t by (simp add: same_functions_def)
  next
    assume f: "find_slot ?P lh H (Bucket (bucket_of lh ?h)) = Some (slot_after (bucket_of lh ?h) (cs ! bucket_of lh ?h))"
      "\<forall>d \<in> lh_set H. \<not> ?P d" "read_slot lh H (slot_after (bucket_of lh ?h) (cs ! bucket_of lh ?h)) = Some None"
    then have "{d \<in> lh_set H. \<not> ?P d} = lh_set H" by auto
    then show ?thesis
      using f ok by (simp add: OPENSSL_lh_delete_def get_next_ptr_and_hash_def Let_def same_functions_def lh_found_def)
  qed
qed

lemma lh_new_ok:
  "OPENSSL_lh_new A h c = Some lh \<Longrightarrow> lh_ok ch cc lh Map.empty \<and> lh_hash lh = h \<and> lh_comp lh = c \<and> lh_callback_depth lh = 0"
  by (auto simp: OPENSSL_lh_new_def lh_ok_def lh_wf_def kMinNumBuckets_def keyed_def stored_def
      intro!: exI [of _ "replicate 16 []"] split: if_splits)

section \<open>Iteration and release\<close>

text \<open>A callback that only changes its own state sees the chains one after the other.\<close>

definition visitor :: "('d \<Rightarrow> 's \<Rightarrow> 's) \<Rightarrow> 'd \<Rightarrow> ('d, 'c, 'h, 's) lh_state \<Rightarrow> ('d, 'c, 'h, 's) lh_state option" where
  "visitor f d S = (case S of (lh, H, s) \<Rightarrow> Some (lh, H, f d s))"

lemma visitor_simp [simp]: "visitor f d (lh, H, s) = Some (lh, H, f d s)"
  by (simp add: visitor_def)

lemma set_concat_nth: "set (concat cs) = (\<Union>i < length cs. set (cs ! i))"
proof -
  have "set cs = (!) cs ` {..<length cs}" by (auto simp: in_set_conv_nth)
  then show ?thesis by simp
qed

lemma doall_chain_visits:
  "chain H p as \<Longrightarrow> doall_chain (visitor f) p (lh, H, s) = Some (lh, H, fold f (map (\<lambda>a. it_data (the (H a))) as) s)"
proof (induction as arbitrary: p s)
  case Nil
  then show ?case by (subst doall_chain.simps) simp
next
  case (Cons a as)
  then obtain it where "p = Some a" "H a = Some it" "chain H (it_next it) as" by auto
  then show ?case using Cons.IH by (subst doall_chain.simps) simp
qed

lemma doall_buckets_visits:
  assumes wf: "lh_wf lh H cs"
  shows "unat i + length js = length cs \<Longrightarrow> js = drop (unat i) cs \<Longrightarrow>
    doall_buckets (visitor f) i (lh, H, s) = Some (lh, H, fold f (map (\<lambda>a. it_data (the (H a))) (concat js)) s)"
proof (induction js arbitrary: i s)
  case Nil
  then have "\<not> i < lh_num_buckets lh" using lh_wfD(1,2) [OF wf] by (simp add: word_less_nat_alt)
  then show ?case by (subst doall_buckets.simps) simp
next
  case (Cons c js)
  note w = lh_wfD [OF wf]
  have i: "unat i < length cs" using Cons.prems(1) by simp
  have d: "c = cs ! unat i" "js = drop (Suc (unat i)) cs" using Cons.prems(2) i by (simp_all add: Cons_nth_drop_Suc [symmetric])
  have lt: "i < lh_num_buckets lh" using i w(1,2) by (simp add: word_less_nat_alt)
  have "unat (lh_num_buckets lh) < 2 ^ LENGTH(64)" by (rule unsigned_less)
  then have i1: "unat (i + 1) = Suc (unat i)" using i w(1,2) by (simp add: unat_word_ariths)
  have "doall_chain (visitor f) (lh_buckets lh ! unat i) (lh, H, s) =
      Some (lh, H, fold f (map (\<lambda>a. it_data (the (H a))) c) s)"
    using doall_chain_visits w(4) [OF i] d(1) by simp
  then show ?case
    using Cons.IH [of "i + 1"] i1 d Cons.prems(1) lt i w(1) by (subst doall_buckets.simps) simp
qed

lemma lh_wf_depth [simp]: "lh_wf (lh\<lparr>lh_callback_depth := k\<rparr>) H cs \<longleftrightarrow> lh_wf lh H cs"
  by (simp add: lh_wf_def bucket_of_def)

text \<open>The data of the table, in the order of the buckets.\<close>

definition data_list :: "'d lh_heap \<Rightarrow> nat list list \<Rightarrow> 'd list" where
  "data_list H cs = map (\<lambda>a. it_data (the (H a))) (concat cs)"

lemma data_list_set: "lh_wf lh H cs \<Longrightarrow> set (data_list H cs) = lh_set H"
proof -
  assume wf: "lh_wf lh H cs"
  have "set (concat cs) = dom H" using lh_wfD(7) [OF wf] by (simp only: set_concat_nth)
  then show ?thesis by (force simp: data_list_def lh_set_iff image_iff simp del: set_concat)
qed

lemma lh_wf_distinct: "lh_wf lh H cs \<Longrightarrow> distinct (concat cs)"
proof -
  assume wf: "lh_wf lh H cs"
  have "distinct (concat (take n cs))" if "n \<le> length cs" for n
    using that
  proof (induction n)
    case (Suc n)
    then have n: "n < length cs" by simp
    have "set (concat (take n cs)) \<inter> set (cs ! n) = {}"
    proof (intro equals0I)
      fix a assume "a \<in> set (concat (take n cs)) \<inter> set (cs ! n)"
      then obtain j where "j < n" "a \<in> set (cs ! j)" "a \<in> set (cs ! n)" using n unfolding set_concat_nth by auto
      then show False using lh_disjoint [OF wf n, of j a] n by simp
    qed
    then show ?case using Suc n lh_wfD(5) [OF wf n] by (simp add: take_Suc_conv_app_nth)
  qed simp
  from this [of "length cs"] show ?thesis by simp
qed

lemma data_list_distinct: "lh_wf lh H cs \<Longrightarrow> keyed hf cmp (stored H) \<Longrightarrow> hash_contract hf cmp \<Longrightarrow> distinct (data_list H cs)"
  unfolding data_list_def distinct_map
proof (intro conjI inj_onI)
  fix a b
  assume wf: "lh_wf lh H cs" and k: "keyed hf cmp (stored H)" and c: "hash_contract hf cmp"
    and ab: "a \<in> set (concat cs)" "b \<in> set (concat cs)" "it_data (the (H a)) = it_data (the (H b))"
  have "set (concat cs) \<subseteq> dom H" using lh_wfD(7) [OF wf] by (simp only: set_concat_nth)
  then obtain x y where "H a = Some x" "H b = Some y" using ab by blast
  then show "a = b" using k ab(3) hash_contract.cmp_refl [OF c] unfolding keyed_def stored_def by fastforce
qed (rule lh_wf_distinct)

text \<open>A callback that deletes every datum it is given and collects it.\<close>

definition drain :: "'d lh_alloc \<Rightarrow> ('d, 'h) hash_caller \<Rightarrow> ('d, 'c) lh_cmp_caller \<Rightarrow> 'd \<Rightarrow>
    ('d, 'c, 'h, 'd list) lh_state \<Rightarrow> ('d, 'c, 'h, 'd list) lh_state option" where
  "drain A ch cc d S =
     (case S of (lh, H, s) \<Rightarrow> map_option (\<lambda>(_, lh, H). (lh, H, d # s)) (OPENSSL_lh_delete A ch cc lh H d))"

lemma lh_delete_first:
  assumes wf: "lh_wf lh H cs" and k: "keyed (ch (lh_hash lh)) (cc (lh_comp lh)) (stored H)"
    and c: "hash_contract (ch (lh_hash lh)) (cc (lh_comp lh))" and i: "i < length cs" "cs ! i = a # ys"
    and a: "H a = Some it" and depth: "0 < lh_callback_depth lh"
  defines "lh' \<equiv> (redirected lh i [] (it_next it))\<lparr>lh_num_items := lh_num_items lh - 1\<rparr>"
  shows "OPENSSL_lh_delete A ch cc lh H (it_data it) = Some (Some (it_data it), lh', H(a := None))"
    "lh_wf lh' (H(a := None)) (cs[i := ys])" "keyed (ch (lh_hash lh)) (cc (lh_comp lh)) (stored (H(a := None)))"
proof -
  let ?x = "it_data it"
  have c': "cs ! i = [] @ a # ys" using i(2) by simp
  have R: "relinked H [] (it_next it) = H" by (simp add: relinked_def)
  note U = lh_unlink [OF wf i(1) c' a, unfolded R, folded lh'_def]
  have hash: "it_hash it = ch (lh_hash lh) ?x" using k a by (auto simp: keyed_def stored_def)
  then have b: "bucket_of lh (ch (lh_hash lh) ?x) = i" using lh_wfD(6) [OF wf i(1), of a] i(2) a by simp
  have m: "cc (lh_comp lh) ?x ?x = 0" by (rule hash_contract.cmp_refl [OF c])
  have find: "find_slot (\<lambda>d. cc (lh_comp lh) d ?x = 0) lh H (Bucket i) = Some (slot_after i [])"
      "read_slot lh H (slot_after i []) = Some (Some a)"
    using lh_lookup(1,4) [OF wf i(1), of "\<lambda>d. cc (lh_comp lh) d ?x = 0"] i(2) a m by simp_all
  have res: "lh_maybe_resize A lh' (H(a := None)) = Some (lh', H(a := None))"
    using depth by (simp add: lh_maybe_resize_def lh'_def redirected_simps)
  show "OPENSSL_lh_delete A ch cc lh H ?x = Some (Some ?x, lh', H(a := None))"
    using find U(1) a res
    by (simp add: OPENSSL_lh_delete_def get_next_ptr_and_hash_def Let_def b lh'_def redirected_simps)
  show "lh_wf lh' (H(a := None)) (cs[i := ys])" using U(2) by simp
  show "keyed (ch (lh_hash lh)) (cc (lh_comp lh)) (stored (H(a := None)))"
    using k unfolding U(3) by (auto simp: keyed_def)
qed

lemma drain_chain:
  fixes lh :: "('c, 'h) lhash_st"
  assumes "lh_wf lh H cs" "keyed (ch (lh_hash lh)) (cc (lh_comp lh)) (stored H)"
    "hash_contract (ch (lh_hash lh)) (cc (lh_comp lh))" "i < length cs" "0 < lh_callback_depth lh"
  shows "\<exists>lh'. doall_chain (drain A ch cc) (lh_buckets lh ! i) (lh, H, s) =
      Some (lh', H |` (- set (cs ! i)), rev (map (\<lambda>a. it_data (the (H a))) (cs ! i)) @ s) \<and>
    lh_wf lh' (H |` (- set (cs ! i))) (cs[i := []]) \<and>
    keyed (ch (lh_hash lh)) (cc (lh_comp lh)) (stored (H |` (- set (cs ! i)))) \<and> same_functions lh lh' \<and>
    lh_num_buckets lh' = lh_num_buckets lh"
  using assms
proof (induction "cs ! i" arbitrary: lh H cs s)
  case Nil
  have ch: "lh_buckets lh ! i = None" using lh_wfD(4) [OF Nil(2) Nil(5)] Nil(1) [symmetric] by simp
  have "cs[i := []] = cs" using Nil(1) by (metis list_update_id)
  moreover have "H |` UNIV = H" by (simp add: restrict_map_def)
  ultimately show ?case
    using Nil ch by (subst doall_chain.simps) (simp add: same_functions_def flip: Nil(1))
next
  case (Cons a ys)
  note c = Cons.hyps(2) [symmetric]
  obtain it where it: "lh_buckets lh ! i = Some a" "H a = Some it" "chain H (it_next it) ys"
    using lh_wfD(4) [OF Cons.prems(1,4)] c by auto
  let ?lh = "(redirected lh i [] (it_next it))\<lparr>lh_num_items := lh_num_items lh - 1\<rparr>"
  let ?H = "H(a := None)"
  note D = lh_delete_first [where ch = ch and cc = cc and lh = lh, OF Cons.prems(1,2,3,4) c it(2) Cons.prems(5)]
  have i: "i < length (lh_buckets lh)" using Cons.prems(4) lh_wfD(1) [OF Cons.prems(1)] by simp
  have b: "lh_buckets ?lh ! i = it_next it" using i by (simp add: redirected_def)
  have y: "ys = cs[i := ys] ! i" "i < length (cs[i := ys])" using Cons.prems(4) by simp_all
  have an: "a \<notin> set ys" using lh_wfD(5) [OF Cons.prems(1,4)] c by simp
  have H: "?H |` (- set ys) = H |` (- set (cs ! i))" unfolding c by (auto simp: restrict_map_def fun_eq_iff)
  have M: "map (\<lambda>a. it_data (the (?H a))) ys = map (\<lambda>a. it_data (the (H a))) ys" using an by auto
  have f: "lh_hash ?lh = lh_hash lh" "lh_comp ?lh = lh_comp lh" "lh_callback_depth ?lh = lh_callback_depth lh"
    by (simp_all add: redirected_simps)
  obtain lh' where r: "doall_chain (drain A ch cc) (it_next it) (?lh, ?H, it_data it # s) =
      Some (lh', H |` (- set (cs ! i)), rev (map (\<lambda>a. it_data (the (H a))) ys) @ it_data it # s)"
      "lh_wf lh' (H |` (- set (cs ! i))) (cs[i := []])"
      "keyed (ch (lh_hash lh)) (cc (lh_comp lh)) (stored (H |` (- set (cs ! i))))" "same_functions ?lh lh'"
      "lh_num_buckets lh' = lh_num_buckets ?lh"
    using Cons.hyps(1) [OF y(1) D(2), unfolded f b, OF D(3) Cons.prems(3) y(2) Cons.prems(5), of "it_data it # s"]
    unfolding y(1) [symmetric] H M by auto
  have "doall_chain (drain A ch cc) (lh_buckets lh ! i) (lh, H, s) =
      doall_chain (drain A ch cc) (it_next it) (?lh, ?H, it_data it # s)"
    using it D(1) by (subst doall_chain.simps) (simp add: drain_def)
  then show ?case using r c it(2) by (auto simp: same_functions_def redirected_simps)
qed

lemma drain_buckets:
  fixes lh :: "('c, 'h) lhash_st" and H :: "'d lh_heap"
  assumes "lh_wf lh H (replicate n [] @ js)" "keyed (ch (lh_hash lh)) (cc (lh_comp lh)) (stored H)"
    "hash_contract (ch (lh_hash lh)) (cc (lh_comp lh))" "unat i = n" "0 < lh_callback_depth lh"
  shows "\<exists>lh'. doall_buckets (drain A ch cc) i (lh, H, s) = Some (lh', Map.empty, rev (data_list H js) @ s) \<and>
    lh_wf lh' (Map.empty :: 'd lh_heap) (replicate (n + length js) []) \<and> same_functions lh lh'"
  using assms
proof (induction js arbitrary: lh H n i s)
  case Nil
  note w = lh_wfD [OF Nil(1)]
  have "\<not> i < lh_num_buckets lh" using w(1,2) Nil(4) by (simp add: word_less_nat_alt)
  moreover have "H = Map.empty" using w(7) by (auto simp: nth_append)
  ultimately show ?case
    using Nil by (subst doall_buckets.simps) (simp add: data_list_def same_functions_def)
next
  case (Cons c js)
  note w = lh_wfD [OF Cons.prems(1)]
  have i: "unat i < length (replicate n [] @ c # js)" "(replicate n [] @ c # js) ! unat i = c"
    using Cons.prems(4) nth_append_length [of "replicate n []" c js] by simp_all
  have lt: "i < lh_num_buckets lh" "unat i < length (lh_buckets lh)" using i w(1,2) by (simp_all add: word_less_nat_alt)
  have "unat (lh_num_buckets lh) < 2 ^ LENGTH(64)" by (rule unsigned_less)
  then have i1: "unat (i + 1) = Suc n" using lt(1) Cons.prems(4) by (simp add: unat_word_ariths word_less_nat_alt)
  have cs': "(replicate n [] @ c # js)[unat i := []] = replicate (Suc n) [] @ js"
    using Cons.prems(4) by (simp add: list_update_append replicate_app_Cons_same)
  let ?H = "H |` (- set c)"
  obtain lh' where r: "doall_chain (drain A ch cc) (lh_buckets lh ! unat i) (lh, H, s) =
      Some (lh', ?H, rev (map (\<lambda>a. it_data (the (H a))) c) @ s)"
      "lh_wf lh' ?H (replicate (Suc n) [] @ js)" "keyed (ch (lh_hash lh)) (cc (lh_comp lh)) (stored ?H)" "same_functions lh lh'"
    using drain_chain [where ch = ch and cc = cc and lh = lh, OF Cons.prems(1,2,3) i(1) Cons.prems(5), of A s] unfolding i(2) cs' by blast
  have f: "lh_hash lh' = lh_hash lh" "lh_comp lh' = lh_comp lh" "0 < lh_callback_depth lh'"
    using r(4) Cons.prems(5) by (simp_all add: same_functions_def)
  have "set (concat js) \<inter> set c = {}" using lh_wf_distinct [OF Cons.prems(1)] by auto
  then have d: "data_list ?H js = data_list H js" by (auto simp: data_list_def restrict_map_def)
  obtain lh2 where r2: "doall_buckets (drain A ch cc) (i + 1) (lh', ?H, rev (map (\<lambda>a. it_data (the (H a))) c) @ s) =
      Some (lh2, Map.empty, rev (data_list H js) @ rev (map (\<lambda>a. it_data (the (H a))) c) @ s)"
      "lh_wf lh2 (Map.empty :: 'd lh_heap) (replicate (Suc n + length js) [])" "same_functions lh' lh2"
    using Cons.IH [OF r(2) _ _ i1 f(3)] r(3) Cons.prems(3) unfolding f(1,2) d by blast
  have "doall_buckets (drain A ch cc) i (lh, H, s) = Some (lh2, Map.empty, rev (data_list H (c # js)) @ s)"
    using r(1) r2(1) lt by (subst doall_buckets.simps) (simp add: data_list_def)
  then show ?case using r2(2,3) r(4) by (simp add: same_functions_def)
qed

lemma lh_free_chain_frees: "chain H p as \<Longrightarrow> distinct as \<Longrightarrow> lh_free_chain p H = Some (H |` (- set as))"
proof (induction as arbitrary: p H)
  case Nil
  then show ?case by (subst lh_free_chain.simps) (simp add: restrict_map_def)
next
  case (Cons a as)
  then obtain it where it: "p = Some a" "H a = Some it" "chain H (it_next it) as" by auto
  have ch: "chain (H(a := None)) (it_next it) as" using it(3) Cons.prems(2) by (subst seg_cong [where H = H]) auto
  then have "lh_free_chain (it_next it) (H(a := None)) = Some (H(a := None) |` (- set as))"
    using Cons.IH [OF ch] Cons.prems(2) by (simp only: distinct.simps simp_thms)
  moreover have "H(a := None) |` (- set as) = H |` (- set (a # as))" by (auto simp: restrict_map_def fun_eq_iff)
  ultimately show ?case using it by (subst lh_free_chain.simps) simp
qed

lemma lh_free_loop_frees:
  assumes wf: "lh_wf lh H cs"
  shows "i + n = length cs \<Longrightarrow> lh_free_loop lh i n (H |` (\<Union>j \<in> {i..<length cs}. set (cs ! j))) = Some Map.empty"
proof (induction n arbitrary: i)
  case (Suc n)
  note w = lh_wfD [OF wf]
  let ?R = "\<lambda>i. \<Union>j \<in> {i..<length cs}. set (cs ! j)"
  have i: "i < length cs" using Suc.prems by simp
  have sub: "set (cs ! i) \<subseteq> ?R i" using i by force
  have "chain (H |` ?R i) (lh_buckets lh ! i) (cs ! i)"
    using w(4) [OF i] sub by (subst seg_cong [where H = H]) (auto simp: restrict_map_def)
  then have "lh_free_chain (lh_buckets lh ! i) (H |` ?R i) = Some (H |` ?R i |` (- set (cs ! i)))"
    using lh_free_chain_frees w(5) [OF i] by blast
  moreover have "?R i \<inter> - set (cs ! i) = ?R (Suc i)"
  proof (intro equalityI subsetI)
    fix a assume "a \<in> ?R i \<inter> - set (cs ! i)"
    then obtain j where j: "i \<le> j" "j < length cs" "a \<in> set (cs ! j)" "a \<notin> set (cs ! i)" by auto
    then have "j \<noteq> i" by auto
    then show "a \<in> ?R (Suc i)" using j by force
  next
    fix a assume "a \<in> ?R (Suc i)"
    then obtain j where "Suc i \<le> j" "j < length cs" "a \<in> set (cs ! j)" by auto
    then show "a \<in> ?R i \<inter> - set (cs ! i)" using lh_disjoint [OF wf i, of j a] by force
  qed
  ultimately show ?case using Suc i w(1) by simp
qed (simp add: restrict_map_def fun_eq_iff)

lemma doall_resize:
  assumes wf: "lh_wf lh H cs" and k: "keyed (ch (lh_hash lh)) (cc (lh_comp lh)) (stored H)"
  shows "\<exists>lh' H'. lh_maybe_resize A
      (if lh_callback_depth lh < UINT_MAX then lh\<lparr>lh_callback_depth := lh_callback_depth lh - 1\<rparr> else lh) H = Some (lh', H') \<and>
    lh_ok ch cc lh' H' \<and> stored H' = stored H"
proof -
  let ?d = "if lh_callback_depth lh < UINT_MAX then lh\<lparr>lh_callback_depth := lh_callback_depth lh - 1\<rparr> else lh"
  have "lh_wf ?d H cs" using wf by simp
  from lh_maybe_resize_wf [OF this, of A] obtain lh' H' cs' where
    r: "lh_maybe_resize A ?d H = Some (lh', H')" "lh_wf lh' H' cs'" "stored H' = stored H" "same_table ?d lh'" by blast
  have "lh_hash lh' = lh_hash lh" "lh_comp lh' = lh_comp lh" using r(4) by (simp_all add: same_table_def split: if_splits)
  then show ?thesis using r k lh_okI [OF r(2)] by auto
qed

section \<open>Properties\<close>

text \<open>C30: the hash table is a set of data: \<open>OPENSSL_lh_retrieve\<close> returns the member that compares equal
  or null, \<open>OPENSSL_lh_insert\<close> replaces that member or adds a new one, unless there is no memory for a new
  item, in which case nothing changes, \<open>OPENSSL_lh_delete\<close> removes that member, both hand out the old
  member, and \<open>OPENSSL_lh_num_items\<close> is the number of members. No dangling pointer is followed, and the
  invariant of the table is kept, whether or not the array of buckets is resized on the way.\<close>

theorem lhash_refines_set:
  assumes ok: "lh_ok ch cc lh H" and contract: "hash_contract (ch (lh_hash lh)) (cc (lh_comp lh))"
    and fresh: "fresh_malloc A" and room: "Suc (card (lh_set H)) < 2 ^ 64"
  shows "(\<exists>r. OPENSSL_lh_retrieve ch cc lh H x = Some r \<and> lh_found (\<lambda>d. cc (lh_comp lh) d x = 0) (lh_set H) r) \<and>
    (\<exists>done old lh' H'. OPENSSL_lh_insert A ch cc lh H x = Some (done, old, lh', H') \<and> lh_ok ch cc lh' H' \<and>
       same_functions lh lh' \<and> lh_found (\<lambda>d. cc (lh_comp lh) d x = 0) (lh_set H) old \<and>
       (if old = None \<and> lh_malloc A H = None then \<not> done \<and> lh' = lh \<and> H' = H
        else done \<and> lh_set H' = {d \<in> lh_set H. cc (lh_comp lh) d x \<noteq> 0} \<union> {x})) \<and>
    (\<exists>old lh' H'. OPENSSL_lh_delete A ch cc lh H x = Some (old, lh', H') \<and> lh_ok ch cc lh' H' \<and>
       same_functions lh lh' \<and> lh_found (\<lambda>d. cc (lh_comp lh) d x = 0) (lh_set H) old \<and>
       lh_set H' = {d \<in> lh_set H. cc (lh_comp lh) d x \<noteq> 0}) \<and>
    OPENSSL_lh_num_items lh = of_nat (card (lh_set H))"
proof (intro conjI)
  obtain cs where "lh_wf lh H cs" using ok by (auto simp: lh_ok_def)
  then show "OPENSSL_lh_num_items lh = of_nat (card (lh_set H))"
    using hash_contract.keyed_card [OF contract lh_ok_set [OF ok]] lh_wfD(8)
    by (simp add: OPENSSL_lh_num_items_def lh_set_def)
qed (rule lh_retrieve_found [OF ok contract] lh_insert_outcome [OF ok contract fresh room]
    lh_delete_outcome [OF ok contract], assumption?)+

text \<open>C31: iterating over a table calls the callback once for every member. A callback may delete the
  member it is given: \<open>callback_depth\<close> holds back the resizing that would disturb the iteration, so that
  deleting everything this way visits every member and leaves the table empty.\<close>

theorem doall_visits_all:
  fixes H :: "'d lh_heap" and s :: "'d list"
  assumes ok: "lh_ok ch cc lh H" and contract: "hash_contract (ch (lh_hash lh)) (cc (lh_comp lh))"
  shows "\<exists>xs. distinct xs \<and> set xs = lh_set H \<and>
    (\<exists>lh' H'. OPENSSL_lh_doall_arg A (visitor (#)) (lh, H, s) = Some (lh', H', rev xs @ s) \<and>
       lh_ok ch cc lh' H' \<and> lh_set H' = lh_set H) \<and>
    (\<exists>lh'. OPENSSL_lh_doall_arg A (drain A ch cc) (lh, H, s) = Some (lh', Map.empty, rev xs @ s) \<and>
       lh_ok ch cc lh' (Map.empty :: 'd lh_heap))"
proof -
  obtain cs where wf: "lh_wf lh H cs" using ok by (auto simp: lh_ok_def)
  note k = lh_ok_set [OF ok]
  let ?up = "if lh_callback_depth lh < UINT_MAX then lh\<lparr>lh_callback_depth := lh_callback_depth lh + 1\<rparr> else lh"
  have up: "lh_wf ?up H cs" "lh_hash ?up = lh_hash lh" "lh_comp ?up = lh_comp lh" using wf by simp_all
  have pos: "0 < lh_callback_depth ?up" by (auto simp: UINT_MAX_def word_less_nat_alt unat_word_ariths)
  let ?xs = "data_list H cs"
  have "doall_buckets (visitor (#)) 0 (?up, H, s) = Some (?up, H, rev ?xs @ s)"
    using doall_buckets_visits [OF up(1), of 0 cs "(#)" s] by (simp add: data_list_def fold_Cons_rev map_concat)
  then have v: "\<exists>lh' H'. OPENSSL_lh_doall_arg A (visitor (#)) (lh, H, s) = Some (lh', H', rev ?xs @ s) \<and>
      lh_ok ch cc lh' H' \<and> lh_set H' = lh_set H"
    using doall_resize [where ch = ch and cc = cc and lh = ?up, OF up(1), of A] k up by (auto simp: OPENSSL_lh_doall_arg_def lh_set_def)
  obtain lh2 where d: "doall_buckets (drain A ch cc) 0 (?up, H, s) = Some (lh2, Map.empty, rev ?xs @ s)"
      "lh_wf lh2 (Map.empty :: 'd lh_heap) (replicate (length cs) [])" "same_functions ?up lh2"
    using drain_buckets [where ch = ch and cc = cc and lh = ?up and n = 0 and i = 0, OF _ _ _ _ pos, of H cs A s]
      up k contract by auto
  have "keyed (ch (lh_hash lh2)) (cc (lh_comp lh2)) (stored (Map.empty :: 'd lh_heap))" by (simp add: keyed_def stored_def)
  from doall_resize [where ch = ch and cc = cc and lh = lh2, OF d(2) this, of A] obtain lh3 and H3 :: "'d lh_heap" where
    r: "lh_maybe_resize A (if lh_callback_depth lh2 < UINT_MAX then lh2\<lparr>lh_callback_depth := lh_callback_depth lh2 - 1\<rparr> else lh2)
          Map.empty = Some (lh3, H3)" "lh_ok ch cc lh3 H3" "stored H3 = stored Map.empty" by blast
  have "dom H3 = {}" using r(3) by (metis dom_empty stored_dom)
  then have "\<exists>lh'. OPENSSL_lh_doall_arg A (drain A ch cc) (lh, H, s) = Some (lh', Map.empty, rev ?xs @ s) \<and>
       lh_ok ch cc lh' (Map.empty :: 'd lh_heap)"
    using d(1) r(1,2) by (auto simp: OPENSSL_lh_doall_arg_def)
  then show ?thesis
    using v data_list_set [OF wf] data_list_distinct [OF wf k contract] by blast
qed

text \<open>C32: \<open>OPENSSL_lh_free\<close> releases every item of the table exactly once: it never frees or reads an
  item that is already free, and no item is left.\<close>

theorem OPENSSL_lh_free_frees:
  assumes "lh_ok ch cc lh H"
  shows "OPENSSL_lh_free (Some lh) H = Some Map.empty"
proof -
  obtain cs where wf: "lh_wf lh H cs" using assms by (auto simp: lh_ok_def)
  note w = lh_wfD [OF wf]
  have "H |` dom H = H" by (auto simp: restrict_map_def fun_eq_iff domIff)
  then have "H |` (\<Union>j \<in> {0..<length cs}. set (cs ! j)) = H" using w(7) by (simp add: atLeast0LessThan)
  then show ?thesis using lh_free_loop_frees [OF wf, of 0 "length cs"] w(1,2) by (simp add: OPENSSL_lh_free_def)
qed

section \<open>A table of numbers\<close>

text \<open>Pointers to numbers, compared by value, with a hash that collides, and an allocator that uses the
  lowest of 64 addresses.\<close>

definition number_hash :: "(nat, unit) hash_caller" where
  "number_hash f d = of_nat (d mod 3)"

definition number_diff :: "(nat, unit) lh_cmp_caller" where
  "number_diff f d e = int d - int e"

definition sample_lh_alloc :: "nat lh_alloc" where
  "sample_lh_alloc = \<lparr>lh_malloc = (\<lambda>H. find (\<lambda>a. H a = None) [0..<64]), lh_grants = (\<lambda>_. True)\<rparr>"

lemma sample_lh_fresh: "fresh_malloc sample_lh_alloc"
  by (auto simp: fresh_malloc_def sample_lh_alloc_def find_Some_iff)

interpretation numbers: hash_contract "number_hash f" "number_diff g"
  by unfold_locales (auto simp: number_hash_def number_diff_def)

lemma numbers_contract: "hash_contract (number_hash f) (number_diff g)"
  by (rule numbers.hash_contract_axioms)

definition lh_put :: "nat \<Rightarrow> ((unit, unit) lhash_st \<times> nat lh_heap) option \<Rightarrow> ((unit, unit) lhash_st \<times> nat lh_heap) option" where
  "lh_put x S = Option.bind S (\<lambda>(lh, H). map_option (\<lambda>(_, _, lh, H). (lh, H)) (OPENSSL_lh_insert sample_lh_alloc number_hash number_diff lh H x))"

definition number_table :: "nat list \<Rightarrow> ((unit, unit) lhash_st \<times> nat lh_heap) option" where
  "number_table xs = fold lh_put xs (map_option (\<lambda>lh. (lh, Map.empty)) (OPENSSL_lh_new sample_lh_alloc () ()))"

lemma number_table_ok: "length xs < 64 \<Longrightarrow> \<exists>lh H. number_table xs = Some (lh, H) \<and> lh_ok number_hash number_diff lh H \<and> lh_set H = set xs"
proof (induction xs rule: rev_induct)
  case Nil
  obtain lh where "OPENSSL_lh_new sample_lh_alloc () () = Some (lh :: (unit, unit) lhash_st)"
    by (simp add: OPENSSL_lh_new_def sample_lh_alloc_def)
  then show ?case
    using lh_new_ok [of sample_lh_alloc "()" "()" lh number_hash number_diff] by (auto simp: number_table_def lh_set_iff)
next
  case (snoc x xs)
  then obtain lh H where t: "number_table xs = Some (lh, H)" "lh_ok number_hash number_diff lh H" "lh_set H = set xs" by auto
  have card: "card (lh_set H) \<le> length xs" using t(3) card_length by simp
  have "card (dom H) = card (lh_set H)"
    using numbers.keyed_card [OF lh_ok_set [OF t(2)]] by (simp add: lh_set_def)
  then have "\<exists>a \<in> set [0..<64]. H a = None"
  proof -
    have "finite (dom H)" using t(2) lh_wf_finite by (auto simp: lh_ok_def)
    then have "\<not> {0..<64} \<subseteq> dom H" using card_mono [of "dom H" "{0..<64}"] \<open>card (dom H) = card (lh_set H)\<close> card snoc.prems by auto
    then show ?thesis by auto
  qed
  then have m: "lh_malloc sample_lh_alloc H \<noteq> None" by (auto simp: sample_lh_alloc_def find_None_iff)
  have "Suc (card (lh_set H)) < 2 ^ 64" using card snoc.prems by simp
  from lh_insert_outcome [where ch = number_hash and cc = number_diff and lh = lh and A = sample_lh_alloc and H = H,
      OF t(2) numbers_contract sample_lh_fresh this, of x] obtain old lh' H' where
    r: "OPENSSL_lh_insert sample_lh_alloc number_hash number_diff lh H x = Some (True, old, lh', H')"
    "lh_ok number_hash number_diff lh' H'" "lh_set H' = {d \<in> lh_set H. number_diff (lh_comp lh) d x \<noteq> 0} \<union> {x}"
    using m by auto
  have "number_table (xs @ [x]) = Some (lh', H')" using t(1) r(1) by (simp add: number_table_def lh_put_def)
  moreover have "lh_set H' = set (xs @ [x])" using r(3) t(3) by (auto simp: number_diff_def)
  ultimately show ?case using r(2) by blast
qed

theorem lhash_refines_set_witness:
  "\<exists>lh H lh' H'. number_table [3, 5, 8, 14] = Some (lh, H) \<and>
     OPENSSL_lh_retrieve number_hash number_diff lh H 8 = Some (Some 8) \<and>
     OPENSSL_lh_delete sample_lh_alloc number_hash number_diff lh H 8 = Some (Some 8, lh', H') \<and> lh_set H' = {3, 5, 14}"
proof -
  obtain lh H where t: "number_table [3, 5, 8, 14] = Some (lh, H)" "lh_ok number_hash number_diff lh H" "lh_set H = {3, 5, 8, 14}"
    using number_table_ok [of "[3, 5, 8, 14]"] by auto
  have "Suc (card (lh_set H)) < 2 ^ 64" using t(3) by simp
  note T = lhash_refines_set [where ch = number_hash and cc = number_diff and lh = lh and A = sample_lh_alloc and H = H,
      OF t(2) numbers_contract sample_lh_fresh this, of 8]
  have eight: "r = Some 8" if "lh_found (\<lambda>d. number_diff (lh_comp lh) d 8 = 0) (lh_set H) r" for r
    using that t(3) by (cases r) (auto simp: lh_found_def number_diff_def)
  have rest: "{d \<in> lh_set H. number_diff (lh_comp lh) d 8 \<noteq> 0} = {3, 5, 14}" using t(3) by (auto simp: number_diff_def)
  show ?thesis using T t(1) eight unfolding rest by blast
qed

theorem doall_visits_all_witness:
  "\<exists>lh H lh' xs. number_table [3, 5, 8, 14] = Some (lh, H) \<and> distinct xs \<and> set xs = {3, 5, 8, 14} \<and>
     OPENSSL_lh_doall_arg sample_lh_alloc (drain sample_lh_alloc number_hash number_diff) (lh, H, []) = Some (lh', Map.empty, rev xs)"
proof -
  obtain lh H where t: "number_table [3, 5, 8, 14] = Some (lh, H)" "lh_ok number_hash number_diff lh H" "lh_set H = {3, 5, 8, 14}"
    using number_table_ok [of "[3, 5, 8, 14]"] by auto
  show ?thesis
    using doall_visits_all [where ch = number_hash and cc = number_diff and lh = lh, OF t(2) numbers_contract, of sample_lh_alloc "[]"] t
    by auto
qed

theorem OPENSSL_lh_free_frees_witness:
  "\<exists>lh H. number_table [3, 5, 8, 14] = Some (lh, H) \<and> OPENSSL_lh_free (Some lh) H = Some Map.empty"
proof -
  obtain lh H where "number_table [3, 5, 8, 14] = Some (lh, H)" "lh_ok number_hash number_diff lh H"
    using number_table_ok [of "[3, 5, 8, 14]"] by auto
  then show ?thesis using OPENSSL_lh_free_frees [where lh = lh and H = H] by blast
qed

end
