(* ===== verification/Boring_STable_Theorems.thy ===== *)
theory Boring_STable_Theorems
  imports Boring_STable Boring_Stack_Correct Boring_LHash_Theorems Boring_CBB_Theorems
begin

text \<open>
  The table of string types as a set of entries with distinct NIDs: the built-in ones, found by
  bisection, and the registered ones, found by hashing. Registered entries are never replaced.
\<close>

section \<open>The comparison and the hash function meet the contracts\<close>

interpretation stable_order: comparison table_cmp UNIV
  by unfold_locales (auto simp: table_cmp_def split: if_splits)

interpretation stable_hash: hash_contract "call_table_hash f" "call_table_cmp g"
  by unfold_locales (auto simp: call_table_hash_def call_table_cmp_def table_cmp_def table_hash_def split: if_splits)

lemma stable_contract: "hash_contract (call_table_hash f) (call_table_cmp g)"
  by (rule stable_hash.hash_contract_axioms)

lemma table_cmp_0: "table_cmp a b = 0 \<longleftrightarrow> tb_nid a = tb_nid b"
  by (auto simp: table_cmp_def)

lemma key_of_nid [simp]: "tb_nid (key_of nid) = nid" "tb_nid (stable_entry_of nid a b c d) = nid"
  by (simp_all add: key_of_def stable_entry_of_def)

section \<open>Bisection\<close>

context comparison
begin

lemma bsearch_between_exact:
  assumes s: "sorted_wrt (\<lambda>x y. cmp x y \<le> 0) xs" "set xs \<subseteq> D" "key \<in> D"
  shows "hi \<le> length xs \<Longrightarrow> \<forall>j < lo. 0 < cmp key (xs ! j) \<Longrightarrow> \<forall>j. hi \<le> j \<and> j < length xs \<longrightarrow> cmp key (xs ! j) < 0 \<Longrightarrow> lo \<le> hi \<Longrightarrow>
    (case bsearch_between cmp key xs lo hi of
       Some e \<Rightarrow> e \<in> set xs \<and> cmp key e = 0 | None \<Rightarrow> \<forall>e \<in> set xs. cmp key e \<noteq> 0)"
proof (induction "hi - lo" arbitrary: lo hi rule: less_induct)
  case less
  show ?case
  proof (cases "lo < hi")
    case False
    then have "cmp key (xs ! j) \<noteq> 0" if "j < length xs" for j
      using less.prems(2,3) [rule_format, of j] that False by linarith
    then have "\<forall>e \<in> set xs. cmp key e \<noteq> 0" by (auto simp: in_set_conv_nth)
    then show ?thesis using False by (subst bsearch_between.simps) simp
  next
    case True
    let ?m = "(lo + hi) div 2"
    have m: "lo \<le> ?m" "?m < hi" "?m < length xs" using True less.prems(1) by auto
    note signs = sorted_signs [OF s(3,2,1)]
    consider "cmp key (xs ! ?m) < 0" | "0 < cmp key (xs ! ?m)" | "cmp key (xs ! ?m) = 0" by linarith
    then show ?thesis
    proof cases
      case 1
      have "\<forall>j. ?m \<le> j \<and> j < length xs \<longrightarrow> cmp key (xs ! j) < 0" using 1 signs [of ?m] by (auto simp: le_less)
      then show ?thesis using less.hyps [of ?m lo] less.prems m 1 True by (subst bsearch_between.simps) (simp add: Let_def)
    next
      case 2
      have "\<forall>j < Suc ?m. 0 < cmp key (xs ! j)" using 2 signs [of _ ?m] m by (auto simp: less_Suc_eq)
      moreover have "bsearch_between cmp key xs lo hi = bsearch_between cmp key xs (Suc ?m) hi"
        using True 2 by (subst bsearch_between.simps) (simp add: Let_def)
      ultimately show ?thesis using less.hyps [of hi "Suc ?m"] less.prems m by simp
    next
      case 3
      then show ?thesis using m True by (subst bsearch_between.simps) (simp add: Let_def)
    qed
  qed
qed

end

lemma tbl_standard_sorted: "sorted_wrt (\<lambda>x y. tb_nid x < tb_nid y) tbl_standard"
  by code_simp

lemma standard_lookup:
  "case bsearch_between table_cmp (key_of nid) tbl_standard 0 (length tbl_standard) of
     Some e \<Rightarrow> e \<in> set tbl_standard \<and> tb_nid e = nid | None \<Rightarrow> \<forall>e \<in> set tbl_standard. tb_nid e \<noteq> nid"
proof -
  have "sorted_wrt (\<lambda>x y. table_cmp x y \<le> 0) tbl_standard"
    by (rule sorted_wrt_mono_rel [OF _ tbl_standard_sorted]) (simp add: table_cmp_def)
  then show ?thesis
    using stable_order.bsearch_between_exact [of tbl_standard "key_of nid" "length tbl_standard" 0]
    by (auto simp: table_cmp_0 split: option.splits)
qed

section \<open>The state\<close>

definition registered :: "stable_state \<Rightarrow> stable_entry set" where
  "registered S = (case S of (None, H) \<Rightarrow> {} | (Some lh, H) \<Rightarrow> lh_set H)"

definition stable_entries :: "stable_state \<Rightarrow> stable_entry set" where
  "stable_entries S = set tbl_standard \<union> registered S"

definition stable_ok :: "stable_state \<Rightarrow> bool" where
  "stable_ok S \<longleftrightarrow>
     (case S of (None, H) \<Rightarrow> H = Map.empty | (Some lh, H) \<Rightarrow> lh_ok call_table_hash call_table_cmp lh H)"

lemma stable_get:
  assumes "stable_ok S"
  shows "\<exists>r. asn1_string_table_get S nid = Some r \<and>
    (case r of Some e \<Rightarrow> e \<in> stable_entries S \<and> tb_nid e = nid | None \<Rightarrow> \<forall>e \<in> stable_entries S. tb_nid e \<noteq> nid)"
proof (cases "bsearch_between table_cmp (key_of nid) tbl_standard 0 (length tbl_standard)")
  case (Some e)
  then show ?thesis using standard_lookup [of nid] by (simp add: asn1_string_table_get_def stable_entries_def)
next
  case None
  then have std: "\<forall>e \<in> set tbl_standard. tb_nid e \<noteq> nid" using standard_lookup [of nid] by simp
  obtain t H where S: "S = (t, H)" by fastforce
  show ?thesis
  proof (cases t)
    case None
    then show ?thesis using S std \<open>bsearch_between _ _ _ _ _ = None\<close>
      by (simp add: asn1_string_table_get_def stable_entries_def registered_def)
  next
    case (Some lh)
    then have ok: "lh_ok call_table_hash call_table_cmp lh H" using assms S by (simp add: stable_ok_def)
    obtain r where "OPENSSL_lh_retrieve call_table_hash call_table_cmp lh H (key_of nid) = Some r"
        "lh_found (\<lambda>d. call_table_cmp (lh_comp lh) d (key_of nid) = 0) (lh_set H) r"
      using lh_retrieve_found [OF ok stable_contract] by blast
    then show ?thesis using S Some std \<open>bsearch_between _ _ _ _ _ = None\<close>
      by (cases r) (auto simp: asn1_string_table_get_def stable_entries_def registered_def lh_found_def call_table_cmp_def table_cmp_0)
  qed
qed

text \<open>Registering a NID that has no entry.\<close>

lemma stable_insert:
  assumes ok: "lh_ok call_table_hash call_table_cmp lh H" and A: "fresh_malloc A" and room: "Suc (card (lh_set H)) < 2 ^ 64"
    and none: "\<forall>e \<in> lh_set H. tb_nid e \<noteq> nid"
  shows "\<exists>added lh' H'. OPENSSL_lh_insert A call_table_hash call_table_cmp lh H (stable_entry_of nid minsize maxsize msk flags) =
      Some (added, None, lh', H') \<and> lh_ok call_table_hash call_table_cmp lh' H' \<and>
    lh_set H' = (if added then insert (stable_entry_of nid minsize maxsize msk flags) (lh_set H) else lh_set H)"
proof -
  let ?e = "stable_entry_of nid minsize maxsize msk flags"
  have set: "{d \<in> lh_set H. call_table_cmp (lh_comp lh) d ?e \<noteq> 0} = lh_set H"
    using none by (auto simp: call_table_cmp_def table_cmp_0)
  obtain added old lh' H' where r: "OPENSSL_lh_insert A call_table_hash call_table_cmp lh H ?e = Some (added, old, lh', H')"
      "lh_ok call_table_hash call_table_cmp lh' H'"
      "lh_found (\<lambda>d. call_table_cmp (lh_comp lh) d ?e = 0) (lh_set H) old"
      "if old = None \<and> lh_malloc A H = None then \<not> added \<and> lh' = lh \<and> H' = H else added \<and> lh_set H' = lh_set H \<union> {?e}"
    using lh_insert_outcome [OF ok stable_contract A room, of ?e] unfolding set by blast
  have "old = None" using r(3) none by (cases old) (auto simp: lh_found_def call_table_cmp_def table_cmp_0)
  then show ?thesis using r(1,2,4) by (auto split: if_splits)
qed

lemma stable_store:
  assumes A: "fresh_malloc A" and room: "Suc (card (registered S)) < 2 ^ 64" and none: "\<forall>e \<in> registered S. tb_nid e \<noteq> nid"
    and lh: "lh_ok call_table_hash call_table_cmp lh H" "lh_set H = registered S"
  shows "\<exists>added S'. (if \<not> granted then Some (False, Some lh, H) else
      Option.bind (OPENSSL_lh_insert A call_table_hash call_table_cmp lh H (stable_entry_of nid minsize maxsize msk flags))
        (\<lambda>(ok, old, lh, H). if \<not> ok then Some (False, Some lh, H) else if old \<noteq> None then None else Some (True, Some lh, H))) =
      Some (added, S') \<and> stable_ok S' \<and>
    stable_entries S' = (if added then insert (stable_entry_of nid minsize maxsize msk flags) (stable_entries S) else stable_entries S)"
proof (cases granted)
  case False
  then show ?thesis using lh by (intro exI [of _ False]) (simp add: stable_ok_def stable_entries_def registered_def)
next
  case True
  let ?e = "stable_entry_of nid minsize maxsize msk flags"
  obtain added lh' H' where "OPENSSL_lh_insert A call_table_hash call_table_cmp lh H ?e = Some (added, None, lh', H')"
      "lh_ok call_table_hash call_table_cmp lh' H'" "lh_set H' = (if added then insert ?e (lh_set H) else lh_set H)"
    using stable_insert [OF lh(1) A, of nid minsize maxsize msk flags] room none lh(2) by auto
  then show ?thesis
    using True lh(2) by (intro exI [of _ added]) (cases added; simp add: stable_ok_def stable_entries_def registered_def)
qed

lemma stable_add:
  assumes ok: "stable_ok S" and A: "fresh_malloc A" and room: "Suc (card (registered S)) < 2 ^ 64"
    and get: "asn1_string_table_get S nid = Some None" and none: "\<forall>e \<in> stable_entries S. tb_nid e \<noteq> nid"
  shows "\<exists>added S'. ASN1_STRING_TABLE_add A granted S nid minsize maxsize msk flags = Some (added, S') \<and> stable_ok S' \<and>
    stable_entries S' = (if added then insert (stable_entry_of nid minsize maxsize msk flags) (stable_entries S) else stable_entries S)"
proof -
  obtain t H where S: "S = (t, H)" by fastforce
  have nr: "\<forall>e \<in> registered S. tb_nid e \<noteq> nid" using none by (simp add: stable_entries_def)
  note store = stable_store [OF A room nr, where H = H and granted = granted and minsize = minsize and maxsize = maxsize
      and msk = msk and flags = flags]
  show ?thesis
  proof (cases t)
    case None
    then have H: "H = Map.empty" using ok S by (simp add: stable_ok_def)
    show ?thesis
    proof (cases "OPENSSL_lh_new A () ()")
      case new: None
      then show ?thesis using S None get ok by (auto simp: ASN1_STRING_TABLE_add_def)
    next
      case (Some lh)
      then have "lh_ok call_table_hash call_table_cmp lh H" using lh_new_ok H by metis
      moreover have "lh_set H = registered S" using S None H by (auto simp: registered_def lh_set_iff)
      ultimately show ?thesis using store [of lh] S None get Some by (simp add: ASN1_STRING_TABLE_add_def)
    qed
  next
    case (Some lh)
    then have lh: "lh_ok call_table_hash call_table_cmp lh H" "lh_set H = registered S"
      using ok S by (simp_all add: stable_ok_def registered_def)
    obtain r where r: "OPENSSL_lh_retrieve call_table_hash call_table_cmp lh H (key_of nid) = Some r"
        "lh_found (\<lambda>d. call_table_cmp (lh_comp lh) d (key_of nid) = 0) (lh_set H) r"
      using lh_retrieve_found [OF lh(1) stable_contract] by blast
    have "r = None" using r(2) nr lh(2) by (cases r) (auto simp: lh_found_def call_table_cmp_def table_cmp_0)
    then show ?thesis using store [OF lh] S Some get r(1) by (simp add: ASN1_STRING_TABLE_add_def)
  qed
qed

section \<open>Properties\<close>

text \<open>C36: the registry of string types maps NIDs to entries. A lookup returns the entry of the NID, built
  in or registered, or null. Registering succeeds only for a NID without an entry and adds exactly that
  entry; in every other case, a failed allocation included, the entries stay as they are. In particular
  no entry is ever replaced and no NID has two entries.\<close>

theorem ASN1_STRING_TABLE_refines_map:
  assumes ok: "stable_ok S" and A: "fresh_malloc A" and room: "Suc (card (registered S)) < 2 ^ 64"
  shows "\<exists>found added S'. asn1_string_table_get S nid = Some found \<and>
      lh_found (\<lambda>e. tb_nid e = nid) (stable_entries S) found \<and>
      ASN1_STRING_TABLE_add A granted S nid minsize maxsize msk flags = Some (added, S') \<and> stable_ok S' \<and>
      (found \<noteq> None \<longrightarrow> \<not> added) \<and>
      stable_entries S' = (if added then insert (stable_entry_of nid minsize maxsize msk flags) (stable_entries S) else stable_entries S)"
proof -
  obtain found where g: "asn1_string_table_get S nid = Some found" "lh_found (\<lambda>e. tb_nid e = nid) (stable_entries S) found"
    using stable_get [OF ok, of nid] unfolding lh_found_def by blast
  show ?thesis
  proof (cases "found = None")
    case False
    then show ?thesis using g ok by (auto simp: ASN1_STRING_TABLE_add_def)
  next
    case True
    then show ?thesis using g stable_add [OF ok A room, of nid] by (simp add: lh_found_def)
  qed
qed

definition sample_table_alloc :: "stable_entry lh_alloc" where
  "sample_table_alloc = \<lparr>lh_malloc = (\<lambda>H. find (\<lambda>a. H a = None) [0..<8]), lh_grants = (\<lambda>_. True)\<rparr>"

lemma sample_table_fresh: "fresh_malloc sample_table_alloc"
  by (auto simp: fresh_malloc_def sample_table_alloc_def find_Some_iff)

lemma sample_registration:
  "map_option fst (ASN1_STRING_TABLE_add sample_table_alloc True (None, Map.empty) 999 1 10 B_ASN1_IA5STRING 0) = Some True"
  by code_simp

theorem ASN1_STRING_TABLE_refines_map_witness:
  "\<exists>S. asn1_string_table_get (None, Map.empty) 999 = Some None \<and>
     ASN1_STRING_TABLE_add sample_table_alloc True (None, Map.empty) 999 1 10 B_ASN1_IA5STRING 0 = Some (True, S) \<and>
     stable_ok S \<and> stable_entries S = insert (stable_entry_of 999 1 10 B_ASN1_IA5STRING 0) (set tbl_standard)"
proof -
  have "stable_ok (None, Map.empty)" "registered (None, Map.empty) = {}" by (simp_all add: stable_ok_def registered_def)
  then show ?thesis
    using ASN1_STRING_TABLE_refines_map [of "(None, Map.empty)" sample_table_alloc 999 True 1 10 B_ASN1_IA5STRING 0]
      sample_table_fresh sample_registration
    by (auto simp: stable_entries_def)
qed

section \<open>Masks without UTF8String\<close>

text \<open>An entry registered with a mask that lacks UTF8String and without \<open>STABLE_NO_MASK\<close> loses its mask:
  the intersection with UTF8String is zero, which \<open>ASN1_mbstring_ncopy\<close> takes for the default, all types of
  a DirectoryString. An attribute registered as IA5String thus yields a PrintableString for \<open>ab\<close> and a
  T61String for a text that no IA5String can hold.\<close>

theorem registered_mask_widens:
  "Option.bind (ASN1_STRING_TABLE_add sample_table_alloc True (None, Map.empty) 999 1 10 B_ASN1_IA5STRING 0) (\<lambda>(added, S).
     Option.bind (ASN1_STRING_set_by_NID sample_alloc S None (Some (put_bytes Map.empty 8 [0x61, 0x62], 8)) 2 MBSTRING_UTF8 999) (\<lambda>r1.
     map_option (\<lambda>r2. (added, map_sum id (\<lambda>s. (st_type s, st_length s)) r1, map_sum id (\<lambda>s. (st_type s, st_length s)) r2))
       (ASN1_STRING_set_by_NID sample_alloc S None (Some (put_bytes Map.empty 8 [0xC3, 0xA9], 8)) 2 MBSTRING_UTF8 999))) =
   Some (True, Inr (V_ASN1_PRINTABLESTRING, 2), Inr (V_ASN1_T61STRING, 1))"
  by code_simp

end
