(* ===== verification/Boring_Base64.thy ===== *)
theory Boring_Base64
  imports Boring_Mem
begin

text \<open>
  Base64 in BoringSSL, \<open>crypto/base64/base64.c\<close>, with the constant time selections of
  \<open>crypto/internal.h\<close> it is built on: block encoding and decoding, and the streaming interface that
  PEM uses. The scalar members of \<open>EVP_ENCODE_CTX\<close> are a record and the member array \<open>data\<close> (48 bytes)
  lies in memory at \<open>enc_data\<close>; \<open>*out_len\<close> is part of the result. A violated \<open>assert\<close> is undefined.
\<close>

section \<open>Constant time selection\<close>

text \<open>\<open>value_barrier_w\<close> returns its argument.\<close>

definition constant_time_msb_w :: "u64 \<Rightarrow> u64" where
  "constant_time_msb_w a = 0 - drop_bit 63 a"

definition constant_time_is_zero_w :: "u64 \<Rightarrow> u64" where
  "constant_time_is_zero_w a = constant_time_msb_w (NOT a AND (a - 1))"

definition constant_time_eq_w :: "u64 \<Rightarrow> u64 \<Rightarrow> u64" where
  "constant_time_eq_w a b = constant_time_is_zero_w (a XOR b)"

definition constant_time_eq_8 :: "u64 \<Rightarrow> u64 \<Rightarrow> u8" where
  "constant_time_eq_8 a b = ucast (constant_time_eq_w a b)"

definition constant_time_select_8 :: "u64 \<Rightarrow> u8 \<Rightarrow> u8 \<Rightarrow> u8" where
  "constant_time_select_8 msk a b = (let m = ucast msk :: u8 in (m AND a) OR (NOT m AND b))"

definition constant_time_lt_args_8 :: "u8 \<Rightarrow> u8 \<Rightarrow> u8" where
  "constant_time_lt_args_8 a b = ucast (constant_time_msb_w (ucast a - ucast b))"

definition constant_time_in_range_8 :: "u8 \<Rightarrow> u8 \<Rightarrow> u8 \<Rightarrow> u8" where
  "constant_time_in_range_8 a lo hi = (let a = a - lo in constant_time_lt_args_8 a (hi - lo + 1))"

section \<open>Encoding\<close>

definition conv_bin2ascii :: "u8 \<Rightarrow> u8" where
  "conv_bin2ascii a =
     (let a = a AND 0x3F;
          ret = constant_time_select_8 (ucast (constant_time_eq_8 (ucast a) 62)) 43 47;
          ret = constant_time_select_8 (ucast (constant_time_lt_args_8 a 62)) (a - 52 + 48) ret;
          ret = constant_time_select_8 (ucast (constant_time_lt_args_8 a 52)) (a - 26 + 97) ret;
          ret = constant_time_select_8 (ucast (constant_time_lt_args_8 a 26)) (a + 65) ret
      in ret)"

definition EVP_EncodedLength :: "u64 \<Rightarrow> u64 option" where
  "EVP_EncodedLength len =
     (if len + 2 < len then None
      else
        let len = (len + 2) div 3 in
        if drop_bit 2 (push_bit 2 len) \<noteq> len then None
        else
          let len = push_bit 2 len in
          if len + 1 < len then None else Some (len + 1))"

text \<open>
  The loop of \<open>EVP_EncodeBlock\<close> returns \<open>ret\<close>, the final \<open>dst\<close> and the memory. Each round reads its
  input before it writes its output, so the two may overlap.
\<close>

definition be24 :: "u8 list \<Rightarrow> u32" where
  "be24 bs = push_bit 16 (ucast (bs ! 0)) OR push_bit 8 (ucast (bs ! 1)) OR ucast (bs ! 2)"

function encode_loop :: "mem \<Rightarrow> addr \<Rightarrow> addr \<Rightarrow> u64 \<Rightarrow> u64 \<Rightarrow> (u64 \<times> addr \<times> mem) option" where
  "encode_loop m dst src remaining ret =
     (if remaining = 0 then Some (ret, dst, m)
      else if 3 \<le> remaining then
        Option.bind (load_bytes m src 3) (\<lambda>bs.
          let l = be24 bs in
          Option.bind (store_bytes m dst
              [conv_bin2ascii (ucast (drop_bit 18 l)), conv_bin2ascii (ucast (drop_bit 12 l)),
               conv_bin2ascii (ucast (drop_bit 6 l)), conv_bin2ascii (ucast l)])
            (\<lambda>m. encode_loop m (dst + 4) (src + 3) (remaining - 3) (ret + 4)))
      else
        Option.bind (m src) (\<lambda>b0.
        Option.bind (if remaining = 2 then m (src + 1) else Some 0) (\<lambda>b1.
          let l = push_bit 16 (ucast b0) :: u32;
              l = (if remaining = 2 then l OR push_bit 8 (ucast b1) else l) in
          Option.bind (store_bytes m dst
              [conv_bin2ascii (ucast (drop_bit 18 l)), conv_bin2ascii (ucast (drop_bit 12 l)),
               if remaining = 1 then 61 else conv_bin2ascii (ucast (drop_bit 6 l)), 61])
            (\<lambda>m. encode_loop m (dst + 4) (src + 3) 0 (ret + 4)))))"
  by pat_completeness auto
termination
  by (relation "measure (\<lambda>(m, dst, src, remaining, ret). unat remaining)")
     (auto simp: unat_sub word_le_nat_alt unat_gt_0)

declare encode_loop.simps [simp del]

definition EVP_EncodeBlock :: "mem \<Rightarrow> addr \<Rightarrow> addr \<Rightarrow> u64 \<Rightarrow> (u64 \<times> mem) option" where
  "EVP_EncodeBlock m dst src src_len =
     Option.bind (encode_loop m dst src src_len 0) (\<lambda>(ret, dst, m).
     Option.bind (store_bytes m dst [0]) (\<lambda>m. Some (ret, m)))"

section \<open>The streaming encoder\<close>

record EVP_ENCODE_CTX =
  data_used :: u32
  enc_data :: addr
  eof_seen :: bool
  error_encountered :: bool

text \<open>
  \<open>EVP_ENCODE_CTX\<close> takes 56 bytes with \<open>data\<close> at offset 4. The allocator is a parameter: it maps the
  memory and a size to the address of a fresh block, or null.
\<close>

definition EVP_ENCODE_CTX_new :: "(mem \<Rightarrow> nat \<Rightarrow> addr option) \<Rightarrow> mem \<Rightarrow> EVP_ENCODE_CTX option \<times> mem" where
  "EVP_ENCODE_CTX_new zalloc m =
     (case zalloc m 56 of
        None \<Rightarrow> (None, m)
      | Some p \<Rightarrow>
          (Some \<lparr>data_used = 0, enc_data = p + 4, eof_seen = False, error_encountered = False\<rparr>,
           put_bytes m p (replicate 56 0)))"

definition EVP_ENCODE_CTX_free :: "EVP_ENCODE_CTX \<Rightarrow> mem \<Rightarrow> mem" where
  "EVP_ENCODE_CTX_free ctx m = m |` (- region (enc_data ctx - 4) 56)"

definition EVP_EncodeInit :: "mem \<Rightarrow> EVP_ENCODE_CTX \<Rightarrow> (EVP_ENCODE_CTX \<times> mem) option" where
  "EVP_EncodeInit m ctx =
     Option.bind (store_bytes m (enc_data ctx) (replicate 48 0)) (\<lambda>m.
       Some (ctx\<lparr>data_used := 0, eof_seen := False, error_encountered := False\<rparr>, m))"

text \<open>
  The loop over whole lines. It returns the remaining input and the number of bytes written, or
  nothing when that number has wrapped around.
\<close>

definition encode_line :: "mem \<Rightarrow> addr \<Rightarrow> addr \<Rightarrow> (u64 \<times> addr \<times> mem) option" where
  "encode_line m out src =
     Option.bind (EVP_EncodeBlock m out src 48) (\<lambda>(encoded, m).
       let out = out + uint encoded in
       Option.bind (store_bytes m out [10]) (\<lambda>m.
       Option.bind (store_bytes m (out + 1) [0]) (\<lambda>m. Some (encoded, out + 1, m))))"

function encode_lines :: "mem \<Rightarrow> addr \<Rightarrow> addr \<Rightarrow> u64 \<Rightarrow> u64 \<Rightarrow> ((addr \<times> u64 \<times> u64) option \<times> mem) option" where
  "encode_lines m out inp in_len written =
     (if 48 \<le> in_len then
        Option.bind (encode_line m out inp) (\<lambda>(encoded, out, m).
          if written + encoded + 1 < written then Some (None, m)
          else encode_lines m out (inp + 48) (in_len - 48) (written + (encoded + 1)))
      else Some (Some (inp, in_len, written), m))"
  by pat_completeness auto
termination
  by (relation "measure (\<lambda>(m, out, inp, in_len, written). unat in_len)")
     (auto simp: unat_sub word_le_nat_alt)

declare encode_lines.simps [simp del]

definition EVP_EncodeUpdate :: "mem \<Rightarrow> EVP_ENCODE_CTX \<Rightarrow> addr \<Rightarrow> addr \<Rightarrow> u64 \<Rightarrow> (int \<times> EVP_ENCODE_CTX \<times> mem) option" where
  "EVP_EncodeUpdate m ctx out inp in_len =
     (if in_len = 0 then Some (0, ctx, m)
      else if \<not> data_used ctx < 48 then None
      else if in_len < 48 - ucast (data_used ctx) then
        Option.bind (OPENSSL_memcpy m (enc_data ctx + uint (data_used ctx)) inp (unat in_len)) (\<lambda>m.
          Some (0, ctx\<lparr>data_used := data_used ctx + ucast in_len\<rparr>, m))
      else
        Option.bind
          (if data_used ctx \<noteq> 0 then
             let todo = 48 - ucast (data_used ctx) :: u64 in
             Option.bind (OPENSSL_memcpy m (enc_data ctx + uint (data_used ctx)) inp (unat todo)) (\<lambda>m.
             Option.bind (encode_line m out (enc_data ctx)) (\<lambda>(encoded, out, m).
               Some (ctx\<lparr>data_used := 0\<rparr>, out, inp + uint todo, in_len - todo, encoded + 1, m)))
           else Some (ctx, out, inp, in_len, 0, m))
          (\<lambda>(ctx, out, inp, in_len, written, m).
        Option.bind (encode_lines m out inp in_len written) (\<lambda>(r, m).
          case r of
            None \<Rightarrow> Some (0, ctx, m)
          | Some (inp, in_len, written) \<Rightarrow>
              Option.bind (if in_len \<noteq> 0 then OPENSSL_memcpy m (enc_data ctx) inp (unat in_len) else Some m) (\<lambda>m.
                Some (if 0x7FFFFFFF < written then 0 else uint written, ctx\<lparr>data_used := ucast in_len\<rparr>, m)))))"

definition EVP_EncodeFinal :: "mem \<Rightarrow> EVP_ENCODE_CTX \<Rightarrow> addr \<Rightarrow> (int \<times> EVP_ENCODE_CTX \<times> mem) option" where
  "EVP_EncodeFinal m ctx out =
     (if data_used ctx = 0 then Some (0, ctx, m)
      else
        Option.bind (EVP_EncodeBlock m out (enc_data ctx) (ucast (data_used ctx))) (\<lambda>(encoded, m).
        Option.bind (store_bytes m (out + uint encoded) [10]) (\<lambda>m.
        Option.bind (store_bytes m (out + uint (encoded + 1)) [0]) (\<lambda>m.
          if 0x7FFFFFFF < encoded + 1 then None
          else Some (uint (encoded + 1), ctx\<lparr>data_used := 0\<rparr>, m)))))"

section \<open>Decoding\<close>

definition EVP_DecodedLength :: "u64 \<Rightarrow> u64 option" where
  "EVP_DecodedLength len = (if len mod 4 \<noteq> 0 then None else Some (len div 4 * 3))"

definition EVP_DecodeInit :: "mem \<Rightarrow> EVP_ENCODE_CTX \<Rightarrow> (EVP_ENCODE_CTX \<times> mem) option" where
  "EVP_DecodeInit m ctx =
     Option.bind (store_bytes m (enc_data ctx) (replicate 48 0)) (\<lambda>m.
       Some (ctx\<lparr>data_used := 0, eof_seen := False, error_encountered := False\<rparr>, m))"

definition base64_ascii_to_bin :: "u8 \<Rightarrow> u8" where
  "base64_ascii_to_bin a =
     (let is_upper = constant_time_in_range_8 a 65 90;
          is_lower = constant_time_in_range_8 a 97 122;
          is_digit = constant_time_in_range_8 a 48 57;
          is_plus = constant_time_eq_8 (ucast a) 43;
          is_slash = constant_time_eq_8 (ucast a) 47;
          is_equals = constant_time_eq_8 (ucast a) 61;
          ret = (is_upper AND (a - 65)) OR (is_lower AND (a - 97 + 26)) OR (is_digit AND (a - 48 + 52))
            OR (is_plus AND 62) OR (is_slash AND 63);
          is_valid = is_upper OR is_lower OR is_digit OR is_plus OR is_slash OR is_equals
      in ret OR NOT is_valid)"

text \<open>\<open>*out_num_bytes\<close>, or nothing for an error.\<close>

definition base64_decode_quad :: "mem \<Rightarrow> addr \<Rightarrow> addr \<Rightarrow> (u64 option \<times> mem) option" where
  "base64_decode_quad m out inp =
     Option.bind (load_bytes m inp 4) (\<lambda>cs.
       let a = base64_ascii_to_bin (cs ! 0); b = base64_ascii_to_bin (cs ! 1);
           c = base64_ascii_to_bin (cs ! 2); d = base64_ascii_to_bin (cs ! 3) in
       if a = 0xFF \<or> b = 0xFF \<or> c = 0xFF \<or> d = 0xFF then Some (None, m)
       else
         let v = push_bit 18 (ucast a) OR push_bit 12 (ucast b) OR push_bit 6 (ucast c) OR ucast d :: u32;
             padding_pattern = push_bit 3 (of_bool (cs ! 0 = 61)) OR push_bit 2 (of_bool (cs ! 1 = 61))
               OR push_bit 1 (of_bool (cs ! 2 = 61)) OR of_bool (cs ! 3 = 61) :: u32 in
         if padding_pattern = 0 then
           Option.bind (store_bytes m out [ucast (drop_bit 16 v), ucast (drop_bit 8 v), ucast v]) (\<lambda>m. Some (Some 3, m))
         else if padding_pattern = 1 then
           Option.bind (store_bytes m out [ucast (drop_bit 16 v), ucast (drop_bit 8 v)]) (\<lambda>m. Some (Some 2, m))
         else if padding_pattern = 3 then
           Option.bind (store_bytes m out [ucast (drop_bit 16 v)]) (\<lambda>m. Some (Some 1, m))
         else Some (None, m))"

text \<open>The loop of \<open>EVP_DecodeUpdate\<close>: its result is \<open>bytes_out\<close>, or nothing for the return of -1.\<close>

primrec decode_chars :: "mem \<Rightarrow> EVP_ENCODE_CTX \<Rightarrow> addr \<Rightarrow> addr \<Rightarrow> nat \<Rightarrow> u64 \<Rightarrow> (u64 option \<times> EVP_ENCODE_CTX \<times> mem) option" where
  "decode_chars m ctx out inp 0 bytes_out = Some (Some bytes_out, ctx, m)"
| "decode_chars m ctx out inp (Suc n) bytes_out =
     Option.bind (m inp) (\<lambda>c.
       if c = 32 \<or> c = 9 \<or> c = 13 \<or> c = 10 then decode_chars m ctx out (inp + 1) n bytes_out
       else if eof_seen ctx then Some (None, ctx\<lparr>error_encountered := True\<rparr>, m)
       else if \<not> data_used ctx < 48 then None
       else
         Option.bind (store_bytes m (enc_data ctx + uint (data_used ctx)) [c]) (\<lambda>m.
           let ctx = ctx\<lparr>data_used := data_used ctx + 1\<rparr> in
           if data_used ctx = 4 then
             Option.bind (base64_decode_quad m out (enc_data ctx)) (\<lambda>(r, m).
               case r of
                 None \<Rightarrow> Some (None, ctx\<lparr>error_encountered := True\<rparr>, m)
               | Some k \<Rightarrow>
                   decode_chars m (ctx\<lparr>data_used := 0, eof_seen := eof_seen ctx \<or> k < 3\<rparr>)
                     (out + uint k) (inp + 1) n (bytes_out + k))
           else decode_chars m ctx out (inp + 1) n bytes_out))"

text \<open>The return value, \<open>*out_len\<close>, the context and the memory.\<close>

definition EVP_DecodeUpdate :: "mem \<Rightarrow> EVP_ENCODE_CTX \<Rightarrow> addr \<Rightarrow> addr \<Rightarrow> u64 \<Rightarrow> (int \<times> int \<times> EVP_ENCODE_CTX \<times> mem) option" where
  "EVP_DecodeUpdate m ctx out inp in_len =
     (if error_encountered ctx then Some (- 1, 0, ctx, m)
      else
        Option.bind (decode_chars m ctx out inp (unat in_len) 0) (\<lambda>(r, ctx, m).
          case r of
            None \<Rightarrow> Some (- 1, 0, ctx, m)
          | Some bytes_out \<Rightarrow>
              if 0x7FFFFFFF < bytes_out then Some (- 1, 0, ctx\<lparr>error_encountered := True\<rparr>, m)
              else Some (if eof_seen ctx then 0 else 1, uint bytes_out, ctx, m)))"

definition EVP_DecodeFinal :: "EVP_ENCODE_CTX \<Rightarrow> int \<times> int" where
  "EVP_DecodeFinal ctx = (if error_encountered ctx \<or> data_used ctx \<noteq> 0 then - 1 else 1, 0)"

text \<open>
  The loop of \<open>EVP_DecodeBase64\<close>. The index is a number: \<open>in_len\<close> is a multiple of four there, so that
  \<open>i += 4\<close> does not wrap around.
\<close>

function decode_quads :: "mem \<Rightarrow> addr \<Rightarrow> addr \<Rightarrow> nat \<Rightarrow> nat \<Rightarrow> u64 \<Rightarrow> (u64 option \<times> mem) option" where
  "decode_quads m out inp in_len i bytes_out =
     (if i < in_len then
        Option.bind (base64_decode_quad m out (inp + int i)) (\<lambda>(r, m).
          case r of
            None \<Rightarrow> Some (None, m)
          | Some k \<Rightarrow>
              if k \<noteq> 3 \<and> i \<noteq> in_len - 4 then Some (None, m)
              else decode_quads m (out + uint k) inp in_len (i + 4) (bytes_out + k))
      else Some (Some bytes_out, m))"
  by pat_completeness auto
termination
  by (relation "measure (\<lambda>(m, out, inp, in_len, i, bytes_out). in_len - i)") auto

declare decode_quads.simps [simp del]

text \<open>The return value, \<open>*out_len\<close> and the memory.\<close>

definition EVP_DecodeBase64 :: "mem \<Rightarrow> addr \<Rightarrow> u64 \<Rightarrow> addr \<Rightarrow> u64 \<Rightarrow> (bool \<times> u64 \<times> mem) option" where
  "EVP_DecodeBase64 m out max_out inp in_len =
     (if in_len mod 4 \<noteq> 0 then Some (False, 0, m)
      else
        case EVP_DecodedLength in_len of
          None \<Rightarrow> Some (False, 0, m)
        | Some max_len \<Rightarrow>
            if max_out < max_len then Some (False, 0, m)
            else
              Option.bind (decode_quads m out inp (unat in_len) 0 0) (\<lambda>(r, m).
                case r of None \<Rightarrow> Some (False, 0, m) | Some bytes_out \<Rightarrow> Some (True, bytes_out, m)))"

primrec trim_start :: "mem \<Rightarrow> addr \<Rightarrow> nat \<Rightarrow> (addr \<times> nat) option" where
  "trim_start m src 0 = Some (src, 0)"
| "trim_start m src (Suc n) =
     Option.bind (m src) (\<lambda>c. if c \<noteq> 32 \<and> c \<noteq> 9 then Some (src, Suc n) else trim_start m (src + 1) n)"

primrec trim_end :: "mem \<Rightarrow> addr \<Rightarrow> nat \<Rightarrow> nat option" where
  "trim_end m src 0 = Some 0"
| "trim_end m src (Suc n) =
     Option.bind (m (src + int n)) (\<lambda>c.
       if c = 32 \<or> c = 9 \<or> c = 13 \<or> c = 10 then trim_end m src n else Some (Suc n))"

function pad_nul :: "mem \<Rightarrow> addr \<Rightarrow> nat \<Rightarrow> (nat \<times> mem) option" where
  "pad_nul m dst dst_len =
     (if dst_len mod 3 \<noteq> 0 then
        Option.bind (store_bytes m (dst + int dst_len) [0]) (\<lambda>m. pad_nul m dst (Suc dst_len))
      else Some (dst_len, m))"
  by pat_completeness auto
termination
  by (relation "measure (\<lambda>(m, dst, dst_len). (2 * dst_len) mod 3)") (auto simp: mod_Suc, presburger)

declare pad_nul.simps [simp del]

definition EVP_DecodeBlock :: "mem \<Rightarrow> addr \<Rightarrow> addr \<Rightarrow> u64 \<Rightarrow> (int \<times> mem) option" where
  "EVP_DecodeBlock m dst src src_len =
     Option.bind (trim_start m src (unat src_len)) (\<lambda>(src, n).
     Option.bind (trim_end m src n) (\<lambda>n.
       let src_len = of_nat n in
       case EVP_DecodedLength src_len of
         None \<Rightarrow> Some (- 1, m)
       | Some dst_len \<Rightarrow>
           if 0x7FFFFFFF < dst_len then Some (- 1, m)
           else
             Option.bind (EVP_DecodeBase64 m dst dst_len src src_len) (\<lambda>(ok, dst_len, m).
               if \<not> ok then Some (- 1, m)
               else
                 Option.bind (pad_nul m dst (unat dst_len)) (\<lambda>(dst_len, m).
                   if 0x7FFFFFFF < dst_len then None else Some (int dst_len, m)))))"

end
