(* ===== verification/Boring_Base64_Correct.thy ===== *)
theory Boring_Base64_Correct
  imports Boring_Base64
begin

text \<open>
  Base64 as functions on byte lists, the alphabet as a table, and the block functions of
  \<open>base64.c\<close> against them.
\<close>

section \<open>Base64 on byte lists\<close>

definition b64_alphabet :: "u8 list" where
  "b64_alphabet = map of_nat ([65..<91] @ [97..<123] @ [48..<58] @ [43, 47])"

definition b64_char :: "u8 \<Rightarrow> u8" where
  "b64_char x = b64_alphabet ! unat x"

definition b64_value :: "u8 \<Rightarrow> u8 option" where
  "b64_value c =
     (if 65 \<le> c \<and> c \<le> 90 then Some (c - 65)
      else if 97 \<le> c \<and> c \<le> 122 then Some (c - 97 + 26)
      else if 48 \<le> c \<and> c \<le> 57 then Some (c - 48 + 52)
      else if c = 43 then Some 62
      else if c = 47 then Some 63
      else None)"

text \<open>Three bytes as four groups of six bits, and back. A group is a byte below 64.\<close>

definition g0 :: "u8 \<Rightarrow> u8" where "g0 a = drop_bit 2 a"
definition g1 :: "u8 \<Rightarrow> u8 \<Rightarrow> u8" where "g1 a b = push_bit 4 (a AND 3) OR drop_bit 4 b"
definition g2 :: "u8 \<Rightarrow> u8 \<Rightarrow> u8" where "g2 b c = push_bit 2 (b AND 15) OR drop_bit 6 c"
definition g3 :: "u8 \<Rightarrow> u8" where "g3 c = c AND 63"

definition byte0 :: "u8 \<Rightarrow> u8 \<Rightarrow> u8" where "byte0 x y = push_bit 2 x OR drop_bit 4 y"
definition byte1 :: "u8 \<Rightarrow> u8 \<Rightarrow> u8" where "byte1 y z = push_bit 4 y OR drop_bit 2 z"
definition byte2 :: "u8 \<Rightarrow> u8 \<Rightarrow> u8" where "byte2 z w = push_bit 6 z OR w"

fun b64 :: "u8 list \<Rightarrow> u8 list" where
  "b64 [] = []"
| "b64 [a] = [b64_char (g0 a), b64_char (g1 a 0), 61, 61]"
| "b64 [a, b] = [b64_char (g0 a), b64_char (g1 a b), b64_char (g2 b 0), 61]"
| "b64 (a # b # c # bs) =
     b64_char (g0 a) # b64_char (g1 a b) # b64_char (g2 b c) # b64_char (g3 c) # b64 bs"

text \<open>
  The last group of four may end in one or two \<open>=\<close>; the bits of the last character that no byte uses
  are ignored, as the comment in the source says.
\<close>

definition quad_parse :: "u8 \<Rightarrow> u8 \<Rightarrow> u8 \<Rightarrow> u8 \<Rightarrow> u8 list option" where
  "quad_parse c0 c1 c2 c3 =
     Option.bind (b64_value c0) (\<lambda>x. Option.bind (b64_value c1) (\<lambda>y.
       if c2 = 61 \<and> c3 = 61 then Some [byte0 x y]
       else Option.bind (b64_value c2) (\<lambda>z.
         if c3 = 61 then Some [byte0 x y, byte1 y z]
         else Option.bind (b64_value c3) (\<lambda>w. Some [byte0 x y, byte1 y z, byte2 z w]))))"

fun b64_parse :: "u8 list \<Rightarrow> u8 list option" where
  "b64_parse [] = Some []"
| "b64_parse (c0 # c1 # c2 # c3 # cs) =
     Option.bind (quad_parse c0 c1 c2 c3) (\<lambda>bs.
       if length bs < 3 \<and> cs \<noteq> [] then None else map_option ((@) bs) (b64_parse cs))"
| "b64_parse cs = None"

lemma length_b64: "length (b64 bs) = 4 * ((length bs + 2) div 3)"
proof (induction bs rule: b64.induct)
  case (4 a b c bs)
  have "(5 + length bs) div 3 = Suc (Suc (Suc (length bs)) div 3)" by presburger
  with 4 show ?case by simp
qed simp_all

lemma quad_parse_length: "quad_parse a b c d = Some bs \<Longrightarrow> length bs \<in> {1, 2, 3}"
  by (auto simp: quad_parse_def split: Option.bind_splits if_splits)

lemma b64_parse_length4: "b64_parse cs = Some bs \<Longrightarrow> length cs mod 4 = 0"
  by (induction cs arbitrary: bs rule: b64_parse.induct) (auto split: Option.bind_splits if_splits)

lemma b64_parse_length: "b64_parse cs = Some bs \<Longrightarrow> length bs \<le> length cs div 4 * 3"
proof (induction cs arbitrary: bs rule: b64_parse.induct)
  case (2 c0 c1 c2 c3 cs)
  then obtain q r where "quad_parse c0 c1 c2 c3 = Some q" "b64_parse cs = Some r" "bs = q @ r"
    by (auto split: Option.bind_splits if_splits)
  moreover have "(4 + length cs) div 4 = Suc (length cs div 4)" by simp
  ultimately show ?case
    using 2 by (auto split: Option.bind_splits if_splits dest!: quad_parse_length)
qed simp_all

section \<open>Characters\<close>

lemma conv_bin2ascii_char: "conv_bin2ascii a = b64_char (a AND 63)"
proof -
  have "all_u8 (\<lambda>a. conv_bin2ascii a = b64_char (a AND 63))" by code_simp
  then show ?thesis by (rule all_u8D)
qed

lemma ascii_to_bin_value:
  "base64_ascii_to_bin c = (case b64_value c of Some v \<Rightarrow> v | None \<Rightarrow> if c = 61 then 0 else 0xFF)"
proof -
  have "all_u8 (\<lambda>c. base64_ascii_to_bin c = (case b64_value c of Some v \<Rightarrow> v | None \<Rightarrow> if c = 61 then 0 else 0xFF))"
    by code_simp
  then show ?thesis by (rule all_u8D)
qed

lemma b64_value_small: "b64_value c = Some v \<Longrightarrow> v AND 63 = v"
proof -
  have "all_u8 (\<lambda>c. case b64_value c of Some v \<Rightarrow> v AND 63 = v | None \<Rightarrow> True)" by code_simp
  then show "b64_value c = Some v \<Longrightarrow> v AND 63 = v" by (auto dest!: all_u8D [where x = c])
qed

lemma b64_value_char: "b64_value (b64_char (x AND 63)) = Some (x AND 63)"
proof -
  have "all_u8 (\<lambda>x. b64_value (b64_char (x AND 63)) = Some (x AND 63))" by code_simp
  then show ?thesis by (rule all_u8D)
qed

lemma b64_char_not_special: "b64_char (x AND 63) \<notin> {9, 10, 13, 32, 61}"
proof -
  have "all_u8 (\<lambda>x. b64_char (x AND 63) \<notin> {9, 10, 13, 32, 61})" by code_simp
  then show ?thesis by (rule all_u8D)
qed

lemma b64_value_61 [simp]: "b64_value 61 = None"
  by (simp add: b64_value_def)

lemma bit_small: "x AND 63 = x \<Longrightarrow> bit (x :: u8) i \<Longrightarrow> i < 6"
proof -
  assume "x AND 63 = x" "bit x i"
  then have "bit (x AND mask 6) i" by (simp add: mask_eq_exp_minus_1)
  then show "i < 6" by (simp add: bit_simps)
qed

lemma groups_small [simp]:
  "g0 a AND 63 = g0 a" "g1 a b AND 63 = g1 a b" "g2 b c AND 63 = g2 b c" "g3 c AND 63 = g3 c"
proof -
  have m: "63 = (mask 6 :: u8)" "3 = (mask 2 :: u8)" "15 = (mask 4 :: u8)"
    by (simp_all add: mask_eq_exp_minus_1)
  show "g0 a AND 63 = g0 a" "g1 a b AND 63 = g1 a b" "g2 b c AND 63 = g2 b c" "g3 c AND 63 = g3 c"
    unfolding g0_def g1_def g2_def g3_def m
    by (rule bit_word_eqI; auto simp: bit_simps dest: bit_imp_le_length)+
qed

lemma groups_inverse:
  "byte0 (g0 a) (g1 a b) = a" "byte1 (g1 a b) (g2 b c) = b" "byte2 (g2 b c) (g3 c) = c"
proof -
  have m: "63 = (mask 6 :: u8)" "3 = (mask 2 :: u8)" "15 = (mask 4 :: u8)"
    by (simp_all add: mask_eq_exp_minus_1)
  have n: "Suc (Suc (n - 2)) = (if n < 2 then 2 else n)" "4 + (n - 4) = (if n < 4 then 4 else n)"
    "6 + (n - 6) = (if n < 6 then 6 else n)" for n :: nat by arith+
  show "byte0 (g0 a) (g1 a b) = a" "byte1 (g1 a b) (g2 b c) = b" "byte2 (g2 b c) (g3 c) = c"
    unfolding g0_def g1_def g2_def g3_def byte0_def byte1_def byte2_def m
    by (rule bit_word_eqI; auto simp: bit_simps n split: if_splits)+
qed

lemma value_of_group:
  "b64_value (b64_char (g0 a)) = Some (g0 a)" "b64_value (b64_char (g1 a b)) = Some (g1 a b)"
  "b64_value (b64_char (g2 b c)) = Some (g2 b c)" "b64_value (b64_char (g3 c)) = Some (g3 c)"
  using b64_value_char [of "g0 a"] b64_value_char [of "g1 a b"] b64_value_char [of "g2 b c"]
    b64_value_char [of "g3 c"] by simp_all

lemma group_char_not_special:
  "b64_char (g0 a) \<notin> {9, 10, 13, 32, 61}" "b64_char (g1 a b) \<notin> {9, 10, 13, 32, 61}"
  "b64_char (g2 b c) \<notin> {9, 10, 13, 32, 61}" "b64_char (g3 c) \<notin> {9, 10, 13, 32, 61}"
  using b64_char_not_special [of "g0 a"] b64_char_not_special [of "g1 a b"]
    b64_char_not_special [of "g2 b c"] b64_char_not_special [of "g3 c"] by simp_all

lemma b64_parse_b64: "b64_parse (b64 bs) = Some bs"
  by (induction bs rule: b64.induct)
     (use group_char_not_special in \<open>auto simp: quad_parse_def value_of_group groups_inverse\<close>)

lemma b64_append: "length xs mod 3 = 0 \<Longrightarrow> b64 (xs @ ys) = b64 xs @ b64 ys"
  by (induction xs rule: b64.induct) simp_all

end
