(* ===== verification/Boring_Base64_Theorems.thy ===== *)
theory Boring_Base64_Theorems
  imports Boring_Base64_Correct
begin

text \<open>
  What the base64 functions compute on memory: block encoding and decoding, and the streaming
  interface, which gives the same result however the data is cut into calls.
\<close>

section \<open>The encoder of blocks\<close>

lemma regions_apart:
  "region a n \<inter> region b k = {} \<Longrightarrow> a \<le> a' \<Longrightarrow> a' + int n' \<le> a + int n \<Longrightarrow> b \<le> b' \<Longrightarrow> b' + int k' \<le> b + int k \<Longrightarrow>
     region a' n' \<inter> region b' k' = {}"
  using region_subset [of a a' n' n] region_subset [of b b' k' k] by blast

lemma conv_groups:
  "conv_bin2ascii (ucast (drop_bit 18 (be24 [a, b, c]))) = b64_char (g0 a)"
  "conv_bin2ascii (ucast (drop_bit 12 (be24 [a, b, c]))) = b64_char (g1 a b)"
  "conv_bin2ascii (ucast (drop_bit 6 (be24 [a, b, c]))) = b64_char (g2 b c)"
  "conv_bin2ascii (ucast (be24 [a, b, c])) = b64_char (g3 c)"
proof -
  have m: "63 = (mask 6 :: u8)" "3 = (mask 2 :: u8)" "15 = (mask 4 :: u8)"
    by (simp_all add: mask_eq_exp_minus_1)
  have "ucast (drop_bit 18 (be24 [a, b, c])) AND 63 = g0 a"
    "ucast (drop_bit 12 (be24 [a, b, c])) AND 63 = g1 a b"
    "ucast (drop_bit 6 (be24 [a, b, c])) AND 63 = g2 b c"
    "ucast (be24 [a, b, c]) AND 63 = g3 c"
    unfolding g0_def g1_def g2_def g3_def be24_def m
    by (rule bit_word_eqI; auto simp: bit_simps dest: bit_imp_le_length)+
  then show "conv_bin2ascii (ucast (drop_bit 18 (be24 [a, b, c]))) = b64_char (g0 a)"
    "conv_bin2ascii (ucast (drop_bit 12 (be24 [a, b, c]))) = b64_char (g1 a b)"
    "conv_bin2ascii (ucast (drop_bit 6 (be24 [a, b, c]))) = b64_char (g2 b c)"
    "conv_bin2ascii (ucast (be24 [a, b, c])) = b64_char (g3 c)"
    by (simp_all add: conv_bin2ascii_char)
qed

lemma be24_short:
  "push_bit 16 (ucast a) = be24 [a, 0, 0]" "be24 [a, 0, 0] OR push_bit 8 (ucast b) = be24 [a, b, 0]"
  by (simp_all add: be24_def)

lemma four: "4 = Suc (Suc (Suc (Suc 0)))"
  by simp

lemma load_Cons: "load_bytes m a n = Some (b # bs) \<Longrightarrow> m a = Some b \<and> load_bytes m (a + 1) (n - 1) = Some bs"
  by (cases n) (auto split: option.splits)

lemma encode_loop_b64:
  assumes "load_bytes m src (length bs) = Some bs" "length bs < 2 ^ 64" "mapped m dst (length (b64 bs))"
    and "region dst (length (b64 bs)) \<inter> region src (length bs) = {}"
  shows "encode_loop m dst src (of_nat (length bs)) ret =
    Some (ret + of_nat (length (b64 bs)), dst + int (length (b64 bs)), put_bytes m dst (b64 bs))"
  using assms
proof (induction bs arbitrary: m dst src ret rule: b64.induct)
  case 1
  then show ?case by (simp add: encode_loop.simps)
next
  case (2 a)
  then show ?case
    by (subst encode_loop.simps)
       (simp add: encode_loop.simps [of _ _ _ 0] store_bytes_def be24_short conv_groups word_le_nat_alt Let_def
        del: drop_bit_or split: option.splits)
next
  case (3 a b)
  then show ?case
    by (subst encode_loop.simps)
       (simp add: encode_loop.simps [of _ _ _ 0] store_bytes_def be24_short conv_groups word_le_nat_alt Let_def
        del: drop_bit_or split: option.splits)
next
  case (4 a b c bs)
  let ?out = "[b64_char (g0 a), b64_char (g1 a b), b64_char (g2 b c), b64_char (g3 c)]"
  define m1 where "m1 = put_bytes m dst ?out"
  let ?k = "length bs"
  have len: "length (a # b # c # bs) = 3 + ?k" "length (b64 (a # b # c # bs)) = 4 + length (b64 bs)"
    by simp_all
  have src: "load_bytes m src 3 = Some [a, b, c]" "load_bytes m (src + 3) ?k = Some bs"
    using load_bytes_take_drop [OF 4(2), of 3] by simp_all
  have rem: "(of_nat (3 + ?k) :: u64) \<noteq> 0" "(3 :: u64) \<le> of_nat (3 + ?k)" "(of_nat (3 + ?k) :: u64) - 3 = of_nat ?k"
    using 4(3) unat_u64_of_nat [of "3 + ?k"] by (auto simp: word_le_nat_alt unat_eq_0 simp flip: unat_eq_0)
  have out: "mapped m dst 4" "mapped m1 (dst + 4) (length (b64 bs))"
    using mapped_sub [OF 4(4), of dst 4] mapped_put_bytes [OF mapped_sub [OF 4(4), of "dst + 4" "length (b64 bs)"], of dst ?out]
    by (simp_all add: m1_def del: put_bytes.simps)
  have disj: "region dst 4 \<inter> region (src + 3) ?k = {}" "region (dst + 4) (length (b64 bs)) \<inter> region (src + 3) ?k = {}"
    by (rule regions_apart [OF 4(5)]; simp)+
  have "load_bytes m1 (src + 3) ?k = Some bs"
    using src(2) disj(1) unfolding m1_def by (subst load_put_disjoint) (auto simp: Int_commute)
  then have IH: "encode_loop m1 (dst + 4) (src + 3) (of_nat ?k) (ret + 4) =
    Some (ret + 4 + of_nat (length (b64 bs)), dst + 4 + int (length (b64 bs)), put_bytes m1 (dst + 4) (b64 bs))"
    using 4(1) [of m1 "src + 3" "dst + 4" "ret + 4"] 4(3) out(2) disj(2) by simp
  have "encode_loop m dst src (of_nat (3 + ?k)) ret = encode_loop m1 (dst + 4) (src + 3) (of_nat ?k) (ret + 4)"
    by (subst encode_loop.simps, subst src(1))
       (use rem out(1) [unfolded four] in \<open>simp add: store_bytes_def conv_groups m1_def Let_def del: of_nat_add put_bytes.simps\<close>)
  then show ?case
    unfolding IH len by (simp add: algebra_simps put_bytes_append [of m dst ?out "b64 bs", simplified] m1_def)
qed

lemma EVP_EncodeBlock_b64:
  assumes "load_bytes m src (length bs) = Some bs" "length bs < 2 ^ 64" "mapped m dst (length (b64 bs) + 1)"
    and "region dst (length (b64 bs)) \<inter> region src (length bs) = {}"
  shows "EVP_EncodeBlock m dst src (of_nat (length bs)) =
    Some (of_nat (length (b64 bs)), put_bytes m dst (b64 bs @ [0]))"
proof -
  have "mapped (put_bytes m dst (b64 bs)) (dst + int (length (b64 bs))) 1"
    by (rule mapped_put_bytes, rule mapped_sub [OF assms(3)]) simp_all
  then show ?thesis
    using encode_loop_b64 [OF assms(1,2) mapped_prefix [OF assms(3)] assms(4), of 0]
    by (simp add: EVP_EncodeBlock_def store_bytes_def put_bytes_append)
qed

section \<open>Lines\<close>

text \<open>The text of all full lines of 48 bytes, and the bytes that do not fill a line.\<close>

function full_lines :: "u8 list \<Rightarrow> u8 list" where
  "full_lines bs = (if length bs < 48 then [] else b64 (take 48 bs) @ 10 # full_lines (drop 48 bs))"
  by pat_completeness auto
termination by (relation "measure length") auto

function leftover :: "u8 list \<Rightarrow> u8 list" where
  "leftover bs = (if length bs < 48 then bs else leftover (drop 48 bs))"
  by pat_completeness auto
termination by (relation "measure length") auto

declare full_lines.simps [simp del] leftover.simps [simp del]

definition pem :: "u8 list \<Rightarrow> u8 list" where
  "pem bs = full_lines bs @ (if leftover bs = [] then [] else b64 (leftover bs) @ [10])"

lemma lines_short: "length bs < 48 \<Longrightarrow> full_lines bs = []" "length bs < 48 \<Longrightarrow> leftover bs = bs"
  by (simp_all add: full_lines.simps leftover.simps)

lemma lines_long:
  "48 \<le> length bs \<Longrightarrow> full_lines bs = b64 (take 48 bs) @ 10 # full_lines (drop 48 bs)"
  "48 \<le> length bs \<Longrightarrow> leftover bs = leftover (drop 48 bs)"
  by (simp_all add: full_lines.simps [of bs] leftover.simps [of bs])

lemma leftover_length [simp]: "length (leftover bs) < 48"
proof (induction bs rule: leftover.induct)
  case (1 bs)
  then show ?case by (cases "length bs < 48") (simp_all add: lines_short lines_long)
qed

lemma leftover_le: "length (leftover bs) \<le> length bs"
proof (induction bs rule: leftover.induct)
  case (1 bs)
  then show ?case by (cases "length bs < 48") (simp_all add: lines_short lines_long)
qed

lemma lines_append:
  "full_lines (xs @ ys) = full_lines xs @ full_lines (leftover xs @ ys) \<and> leftover (xs @ ys) = leftover (leftover xs @ ys)"
proof (induction xs rule: leftover.induct)
  case (1 xs)
  show ?case
  proof (cases "length xs < 48")
    case False
    then show ?thesis using 1 by (simp add: lines_long)
  qed (simp add: lines_short)
qed

lemma length_b64_48: "length bs = 48 \<Longrightarrow> length (b64 bs) = 64"
  by (simp add: length_b64)

lemma length_lines: "length (full_lines bs) = 65 * (length bs div 48)"
proof (induction bs rule: leftover.induct)
  case (1 bs)
  show ?case
  proof (cases "length bs < 48")
    case False
    then have "length bs div 48 = Suc ((length bs - 48) div 48)" by (simp add: div_if)
    then show ?thesis using 1 False by (simp add: lines_long length_b64_48)
  qed (simp add: lines_short)
qed

text \<open>What a call writes: the full lines and a terminator, or nothing.\<close>

definition lines_nul :: "u8 list \<Rightarrow> u8 list" where
  "lines_nul bs = (if length bs < 48 then [] else full_lines bs @ [0])"

lemma lines_nul_long:
  "48 \<le> length bs \<Longrightarrow> lines_nul bs = b64 (take 48 bs) @ 10 # (if length bs < 96 then [0] else lines_nul (drop 48 bs))"
  by (auto simp: lines_nul_def lines_long(1) [of bs] lines_short(1))

section \<open>The streaming encoder\<close>

lemma put_over:
  "put_bytes (put_bytes m a (xs @ [y])) (a + int (length xs)) (z # zs) = put_bytes m a (xs @ z # zs)"
  by (auto simp: put_bytes_append)

lemma put_over_short:
  "zs \<noteq> [] \<Longrightarrow> k = int (length xs) \<Longrightarrow> put_bytes (put_bytes m a (xs @ [y])) (a + k) zs = put_bytes m a (xs @ zs)"
  using put_over by (cases zs) auto

lemma memcpy_put:
  assumes "load_bytes m src n = Some bs" "mapped m dst n" "region dst n \<inter> region src n = {}"
  shows "OPENSSL_memcpy m dst src n = Some (put_bytes m dst bs)"
proof (cases "n = 0")
  case False
  have "\<not> (dst < src + int n \<and> src < dst + int n)"
  proof
    assume "dst < src + int n \<and> src < dst + int n"
    then have "max dst src \<in> region dst n \<inter> region src n" using False by auto
    then show False using assms(3) by blast
  qed
  then show ?thesis using assms(1,2) load_bytes_length [OF assms(1)]
    by (auto simp: OPENSSL_memcpy_def store_bytes_def)
qed (use assms in \<open>auto simp: OPENSSL_memcpy_def\<close>)

lemma encode_line_b64:
  assumes "load_bytes m src 48 = Some bs" "mapped m out 66" "region out 66 \<inter> region src 48 = {}"
  shows "encode_line m out src = Some (64, out + 65, put_bytes m out (b64 bs @ [10, 0]))"
proof -
  have len: "length bs = 48" "length (b64 bs) = 64"
    using assms(1) by (auto simp: length_b64)
  have "EVP_EncodeBlock m out src 48 = Some (64, put_bytes m out (b64 bs @ [0]))"
    using EVP_EncodeBlock_b64 [of m src bs out] assms(1) mapped_prefix [OF assms(2), of 65]
      regions_apart [OF assms(3), of out 64 src 48] by (simp add: len)
  moreover have "store_bytes (put_bytes m out (b64 bs @ [0])) (out + 64) [10] = Some (put_bytes m out (b64 bs @ [10]))"
    using mapped_put_bytes [OF mapped_sub [OF assms(2), of "out + 64" 1], of out "b64 bs @ [0]"]
    by (simp add: store_bytes_def put_bytes_append len)
  moreover have "store_bytes (put_bytes m out (b64 bs @ [10])) (65 + out) [0] = Some (put_bytes m out (b64 bs @ [10, 0]))"
    using mapped_put_bytes [OF mapped_sub [OF assms(2), of "65 + out" 1], of out "b64 bs @ [10]"]
    by (simp add: store_bytes_def put_bytes_append len add.commute)
    ultimately show ?thesis by (simp add: encode_line_def)
qed

lemma lines_nul_length: "length (lines_nul bs) \<le> length (full_lines bs) + 1"
  by (simp add: lines_nul_def)

lemma encode_lines_b64:
  assumes "load_bytes m inp (length bs) = Some bs" "mapped m out (length (lines_nul bs))"
    and "region out (length (lines_nul bs)) \<inter> region inp (length bs) = {}"
    and "length bs < 2 ^ 64" "w + length (full_lines bs) < 2 ^ 63"
  shows "encode_lines m out inp (of_nat (length bs)) (of_nat w) =
    Some (Some (inp + int (length bs - length (leftover bs)), of_nat (length (leftover bs)),
      of_nat (w + length (full_lines bs))), put_bytes m out (lines_nul bs))"
  using assms
proof (induction bs arbitrary: m inp out w rule: leftover.induct)
  case (1 bs)
  show ?case
  proof (cases "length bs < 48")
    case True
    then have "\<not> (48 :: u64) \<le> of_nat (length bs)"
      using unat_u64_of_nat [OF 1(5)] by (simp add: word_le_nat_alt)
    then show ?thesis using True by (simp add: encode_lines.simps lines_short lines_nul_def)
  next
    case False
    define b r where "b = take 48 bs" and "r = drop 48 bs"
    have bs: "bs = b @ r" "length b = 48" "length bs = 48 + length r"
      using False by (simp_all add: b_def r_def)
    have lines: "full_lines bs = b64 b @ 10 # full_lines r" "leftover bs = leftover r"
      "lines_nul bs = b64 b @ 10 # (if length r < 48 then [0] else lines_nul r)"
      using False lines_nul_long [of bs] lines_long [of bs] by (auto simp: b_def r_def)
    have len: "length (b64 b) = 64" "length (lines_nul bs) = 65 + (if length r < 48 then 1 else length (lines_nul r))"
      "66 \<le> length (lines_nul bs)"
      using bs(2,3) by (auto simp: lines(1) length_b64 lines_nul_def lines_short(1))
    define m1 where "m1 = put_bytes m out (b64 b @ [10, 0])"
    have src: "load_bytes m inp 48 = Some b" "load_bytes m (inp + 48) (length r) = Some r"
      using load_bytes_take_drop [OF 1(2), of 48] False by (simp_all add: b_def r_def)
    have line: "encode_line m out inp = Some (64, out + 65, m1)"
      unfolding m1_def using src(1) mapped_prefix [OF 1(3) len(3)]
      by (rule encode_line_b64) (rule regions_apart [OF 1(4)], use len(3) bs(3) in simp_all)
    have "region out 66 \<inter> region (inp + 48) (length r) = {}"
      by (rule regions_apart [OF 1(4)]) (use len(3) bs(3) in simp_all)
    then have src1: "load_bytes m1 (inp + 48) (length r) = Some r"
      using src(2) unfolding m1_def by (subst load_put_disjoint) (auto simp: len Int_commute)
    have apart: "region (out + 65) (length (lines_nul r)) \<inter> region (inp + 48) (length r) = {}"
      by (rule regions_apart [OF 1(4)]) (use len(2) bs(3) in \<open>simp_all add: lines_nul_def\<close>)
    have room: "mapped m1 (out + 65) (length (lines_nul r))"
      unfolding m1_def by (rule mapped_put_bytes, rule mapped_sub [OF 1(3)]) (use len(2) in \<open>simp_all add: lines_nul_def\<close>)
    have w: "w + length (full_lines bs) = (w + 65) + length (full_lines r)"
      by (simp add: lines len)
    have IH: "encode_lines m1 (out + 65) (inp + 48) (of_nat (length r)) (of_nat (w + 65)) =
      Some (Some (inp + 48 + int (length r - length (leftover r)), of_nat (length (leftover r)),
        of_nat (w + 65 + length (full_lines r))), put_bytes m1 (out + 65) (lines_nul r))"
      unfolding r_def by (rule 1(1) [OF False], fold r_def)
         (use src1 room apart 1(5,6) w bs(3) in simp_all)
    have guard: "\<not> (of_nat w + 64 + 1 :: u64) < of_nat w"
      using 1(6) w unat_u64_of_nat [of w] unat_u64_of_nat [of "w + 65"] by (simp add: word_less_nat_alt add.commute)
    have n: "(48 :: u64) \<le> of_nat (length bs)" "(of_nat (length bs) - 48 :: u64) = of_nat (length r)"
      using unat_u64_of_nat [OF 1(5)] False bs(3) by (simp_all add: word_le_nat_alt)
    have ovr: "put_bytes m1 (out + 65) (lines_nul r) = put_bytes m out (lines_nul bs)"
      using put_over_short [of "lines_nul r" 65 "b64 b @ [10]" m out 0] len(1)
      using bs(3) by (auto simp: m1_def lines(1) lines_nul_def lines_short(1))
    show ?thesis
      using n guard IH leftover_le [of r] unfolding ovr w
      by (subst encode_lines.simps) (simp add: line lines(2) bs(3) add.commute add.left_commute of_nat_diff)
  qed
qed

text \<open>The context holds the bytes \<open>p\<close> that do not fill a line yet.\<close>

definition pending :: "mem \<Rightarrow> EVP_ENCODE_CTX \<Rightarrow> u8 list \<Rightarrow> bool" where
  "pending m ctx p \<longleftrightarrow> data_used ctx = of_nat (length p) \<and> length p < 48 \<and>
     load_bytes m (enc_data ctx) (length p) = Some p \<and> mapped m (enc_data ctx) 48"

definition only_changes :: "mem \<Rightarrow> mem \<Rightarrow> addr set \<Rightarrow> bool" where
  "only_changes m m' A \<longleftrightarrow> dom m' = dom m \<and> (\<forall>x. x \<notin> A \<longrightarrow> m' x = m x)"

lemma only_changes_refl [simp]: "only_changes m m A"
  by (simp add: only_changes_def)

lemma only_changes_put: "mapped m a (length bs) \<Longrightarrow> region a (length bs) \<subseteq> A \<Longrightarrow> only_changes m (put_bytes m a bs) A"
  unfolding only_changes_def by (simp add: dom_put_mapped del: dom_put_bytes) (auto simp: put_bytes_apply)

lemma only_changes_trans: "only_changes m m' A \<Longrightarrow> only_changes m' m'' B \<Longrightarrow> A \<subseteq> C \<Longrightarrow> B \<subseteq> C \<Longrightarrow> only_changes m m'' C"
  unfolding only_changes_def by (metis subsetD)

lemma only_changes_load: "only_changes m m' A \<Longrightarrow> region a n \<inter> A = {} \<Longrightarrow> load_bytes m' a n = load_bytes m a n"
  by (rule load_bytes_cong) (auto simp: only_changes_def)

lemma only_changes_mapped: "only_changes m m' A \<Longrightarrow> mapped m' a n = mapped m a n"
  unfolding only_changes_def by (intro mapped_dom) simp

lemma u32_48: "n < 48 \<Longrightarrow> unat (of_nat n :: u32) = n" "n < 48 \<Longrightarrow> ucast (of_nat n :: u32) = (of_nat n :: u64)"
  "n < 48 \<Longrightarrow> ucast (of_nat n :: u64) = (of_nat n :: u32)"
proof -
  assume n: "n < 48"
  show u: "unat (of_nat n :: u32) = n" using n by (simp add: unat_of_nat take_bit_nat_eq_self_iff)
  show "ucast (of_nat n :: u32) = (of_nat n :: u64)" "ucast (of_nat n :: u64) = (of_nat n :: u32)"
    using n u by (auto intro!: word_unat_eq_iff [THEN iffD2] simp: unat_u64_of_nat unsigned_ucast_eq take_bit_nat_eq_self_iff)
qed

text \<open>The part of an update after a line begun before has been completed: whole lines, then the rest.\<close>

lemma encode_tail:
  assumes "load_bytes m inp (length bs) = Some bs" "mapped m out (length (lines_nul bs))" "mapped m d 48"
    and "region out (length (lines_nul bs)) \<inter> region inp (length bs) = {}"
    and "region out (length (lines_nul bs)) \<inter> region d 48 = {}" "region d 48 \<inter> region inp (length bs) = {}"
    and "length bs < 2 ^ 64" "w + length (full_lines bs) < 2 ^ 63"
  obtains m' where
    "encode_lines m out inp (of_nat (length bs)) (of_nat w) =
      Some (Some (inp + int (length bs - length (leftover bs)), of_nat (length (leftover bs)),
        of_nat (w + length (full_lines bs))), put_bytes m out (lines_nul bs))"
    "OPENSSL_memcpy (put_bytes m out (lines_nul bs)) d (inp + int (length bs - length (leftover bs)))
       (length (leftover bs)) = Some m'"
    "m' = put_bytes (put_bytes m out (lines_nul bs)) d (leftover bs)"
proof -
  let ?n = "length (leftover bs)" let ?k = "length bs - ?n" let ?m = "put_bytes m out (lines_nul bs)"
  have split: "leftover bs = drop ?k bs"
  proof (induction bs rule: leftover.induct)
    case (1 bs)
    then show ?case
      using leftover_le [of "drop 48 bs"] by (cases "length bs < 48") (simp_all add: lines_short lines_long)
  qed
  have "load_bytes m (inp + int ?k) ?n = Some (leftover bs)"
    using load_bytes_take_drop(2) [OF assms(1), of ?k] leftover_le [of bs] split by simp
  moreover have "region (inp + int ?k) ?n \<inter> region out (length (lines_nul bs)) = {}"
    by (rule regions_apart [of inp "length bs" out "length (lines_nul bs)"]) (use assms(4) leftover_le [of bs] in auto)
  ultimately have src: "load_bytes ?m (inp + int ?k) ?n = Some (leftover bs)"
    by (simp add: load_put_disjoint)
  have "OPENSSL_memcpy ?m d (inp + int ?k) ?n = Some (put_bytes ?m d (leftover bs))"
    using src
  proof (rule memcpy_put)
    show "mapped ?m d ?n"
      using mapped_put_bytes [OF assms(3)] leftover_length [of bs] by (rule mapped_prefix [OF _ less_imp_le])
    show "region d ?n \<inter> region (inp + int ?k) ?n = {}"
      by (rule regions_apart [OF assms(6)]) (use leftover_le [of bs] leftover_length [of bs] in \<open>simp_all add: less_imp_le\<close>)
  qed
  then show ?thesis
    using that encode_lines_b64 [OF assms(1,2,4,7,8)] by blast
qed

text \<open>The buffers of a call: output of \<open>k\<close> bytes, input of \<open>n\<close> bytes and the array of the context.\<close>

definition buffers_ok :: "mem \<Rightarrow> EVP_ENCODE_CTX \<Rightarrow> addr \<Rightarrow> nat \<Rightarrow> addr \<Rightarrow> nat \<Rightarrow> bool" where
  "buffers_ok m ctx out k inp n \<longleftrightarrow> mapped m out k \<and> region out k \<inter> region inp n = {} \<and>
     region out k \<inter> region (enc_data ctx) 48 = {} \<and> region (enc_data ctx) 48 \<inter> region inp n = {}"

lemma encode_head:
  assumes p: "pending m ctx p" "p \<noteq> []" and inp: "load_bytes m inp (length bs) = Some bs"
    and long: "48 \<le> length (p @ bs)" "length bs < 2 ^ 64"
    and ok: "buffers_ok m ctx out (length (lines_nul (p @ bs))) inp (length bs)"
  defines "k \<equiv> 48 - length p" and "d \<equiv> enc_data ctx"
  shows "OPENSSL_memcpy m (d + int (length p)) inp k = Some (put_bytes m (d + int (length p)) (take k bs))"
    and "encode_line (put_bytes m (d + int (length p)) (take k bs)) out d =
      Some (64, out + 65, put_bytes (put_bytes m (d + int (length p)) (take k bs)) out (b64 (p @ take k bs) @ [10, 0]))"
proof -
  have P: "length p < 48" "load_bytes m d (length p) = Some p" "mapped m d 48" "k \<le> length bs" "length p + k = 48"
    using p(1) long(1) by (auto simp: pending_def d_def k_def)
  have L: "66 \<le> length (lines_nul (p @ bs))"
    using long(1) lines_nul_long [OF long(1)] by (auto simp: length_b64 lines_nul_def)
  have B: "mapped m out (length (lines_nul (p @ bs)))" "region out (length (lines_nul (p @ bs))) \<inter> region d 48 = {}"
    "region d 48 \<inter> region inp (length bs) = {}"
    using ok by (auto simp: buffers_ok_def d_def)
  show "OPENSSL_memcpy m (d + int (length p)) inp k = Some (put_bytes m (d + int (length p)) (take k bs))"
  proof (rule memcpy_put)
    show "load_bytes m inp k = Some (take k bs)"
      using inp P(4) by (rule load_bytes_take_drop)
    show "mapped m (d + int (length p)) k"
      by (rule mapped_sub [OF P(3)]) (use P(5) in simp_all)
    show "region (d + int (length p)) k \<inter> region inp k = {}"
      by (rule regions_apart [OF B(3)]) (use P(4,5) in simp_all)
  qed
  let ?m = "put_bytes m (d + int (length p)) (take k bs)"
  have "load_bytes ?m d (length p + k) = Some (p @ take k bs)"
  proof -
    have "load_bytes ?m d (length p) = Some p"
      using P(2) by (subst load_put_disjoint) auto
    moreover have "load_bytes ?m (d + int (length p)) k = Some (take k bs)"
      using load_put_same [of m "d + int (length p)" "take k bs"] P(4) by simp
    ultimately show ?thesis by (simp add: load_bytes_add)
  qed
  then have "load_bytes ?m d 48 = Some (p @ take k bs)" unfolding P(5) .
  then show "encode_line ?m out d = Some (64, out + 65, put_bytes ?m out (b64 (p @ take k bs) @ [10, 0]))"
  proof (rule encode_line_b64)
    show "mapped ?m out 66" using mapped_prefix [OF B(1) L] by (rule mapped_put_bytes)
    show "region out 66 \<inter> region d 48 = {}"
      by (rule regions_apart [OF B(2)]) (use L in simp_all)
  qed
qed

definition update_rest :: "EVP_ENCODE_CTX \<Rightarrow> mem \<Rightarrow> addr \<Rightarrow> addr \<Rightarrow> u64 \<Rightarrow> u64 \<Rightarrow> (int \<times> EVP_ENCODE_CTX \<times> mem) option" where
  "update_rest ctx m out inp in_len written =
     Option.bind (encode_lines m out inp in_len written) (\<lambda>(r, m).
       case r of
         None \<Rightarrow> Some (0, ctx, m)
       | Some (inp, in_len, written) \<Rightarrow>
           Option.bind (if in_len \<noteq> 0 then OPENSSL_memcpy m (enc_data ctx) inp (unat in_len) else Some m) (\<lambda>m.
             Some (if 0x7FFFFFFF < written then 0 else uint written, ctx\<lparr>data_used := ucast in_len\<rparr>, m)))"

lemma update_rest_b64:
  assumes "load_bytes m inp (length bs) = Some bs" "buffers_ok m ctx out (length (lines_nul bs)) inp (length bs)"
    and "mapped m (enc_data ctx) 48" "length bs < 2 ^ 64" "w + length (full_lines bs) \<le> 0x7FFFFFFF"
  shows "update_rest ctx m out inp (of_nat (length bs)) (of_nat w) =
    Some (int (w + length (full_lines bs)), ctx\<lparr>data_used := of_nat (length (leftover bs))\<rparr>,
      put_bytes (put_bytes m out (lines_nul bs)) (enc_data ctx) (leftover bs))"
proof -
  let ?n = "length (leftover bs)" let ?t = "w + length (full_lines bs)"
  obtain m' where tail:
    "encode_lines m out inp (of_nat (length bs)) (of_nat w) =
      Some (Some (inp + int (length bs - ?n), of_nat ?n, of_nat ?t), put_bytes m out (lines_nul bs))"
    "OPENSSL_memcpy (put_bytes m out (lines_nul bs)) (enc_data ctx) (inp + int (length bs - ?n)) ?n = Some m'"
    "m' = put_bytes (put_bytes m out (lines_nul bs)) (enc_data ctx) (leftover bs)"
    by (rule encode_tail [of m inp bs out "enc_data ctx" w]) (use assms in \<open>auto simp: buffers_ok_def\<close>)
  have n: "unat (of_nat ?n :: u64) = ?n" "(of_nat ?n :: u64) = 0 \<longleftrightarrow> leftover bs = []"
    using unat_u64_of_nat [of ?n] leftover_length [of bs] by (auto simp flip: unat_eq_0)
  have t: "uint (of_nat ?t :: u64) = int ?t" "\<not> (0x7FFFFFFF :: u64) < of_nat ?t"
    using assms(5) unat_u64_of_nat [of ?t] by (simp_all only: word_less_nat_alt uint_nat) simp_all
  show ?thesis
    unfolding update_rest_def tail(1)
    using tail(2,3) n t u32_48(3) [OF leftover_length [of bs]] by (cases "leftover bs = []") (simp_all del: of_nat_add)
qed

lemma EVP_EncodeUpdate_rest:
  "EVP_EncodeUpdate m ctx out inp in_len =
     (if in_len = 0 then Some (0, ctx, m)
      else if \<not> data_used ctx < 48 then None
      else if in_len < 48 - ucast (data_used ctx) then
        Option.bind (OPENSSL_memcpy m (enc_data ctx + uint (data_used ctx)) inp (unat in_len)) (\<lambda>m.
          Some (0, ctx\<lparr>data_used := data_used ctx + ucast in_len\<rparr>, m))
      else if data_used ctx \<noteq> 0 then
        let todo = 48 - ucast (data_used ctx) :: u64 in
        Option.bind (OPENSSL_memcpy m (enc_data ctx + uint (data_used ctx)) inp (unat todo)) (\<lambda>m.
        Option.bind (encode_line m out (enc_data ctx)) (\<lambda>(encoded, out, m).
          update_rest (ctx\<lparr>data_used := 0\<rparr>) m out (inp + uint todo) (in_len - todo) (encoded + 1)))
      else update_rest ctx m out inp in_len 0)"
  unfolding EVP_EncodeUpdate_def update_rest_def
  by (simp add: Let_def bind_assoc split: Option.bind_split prod.split)

text \<open>What an update leaves behind when the context held \<open>p\<close> and the call brought \<open>bs\<close>.\<close>

definition updated :: "mem \<Rightarrow> EVP_ENCODE_CTX \<Rightarrow> addr \<Rightarrow> u8 list \<Rightarrow> mem \<Rightarrow> EVP_ENCODE_CTX \<Rightarrow> bool" where
  "updated m ctx out bs m' ctx' \<longleftrightarrow>
     ctx' = ctx\<lparr>data_used := of_nat (length (leftover bs))\<rparr> \<and> pending m' ctx' (leftover bs) \<and>
     load_bytes m' out (length (lines_nul bs)) = Some (lines_nul bs) \<and>
     only_changes m m' (region out (length (lines_nul bs)) \<union> region (enc_data ctx) 48)"

lemma updatedI:
  assumes "only_changes m m1 (region (enc_data ctx) 48)" "mapped m out (length (lines_nul bs))" "mapped m (enc_data ctx) 48"
    and "region out (length (lines_nul bs)) \<inter> region (enc_data ctx) 48 = {}"
  shows "updated m ctx out bs (put_bytes (put_bytes m1 out (lines_nul bs)) (enc_data ctx) (leftover bs))
    (ctx\<lparr>data_used := of_nat (length (leftover bs))\<rparr>)"
proof -
  let ?d = "enc_data ctx" let ?k = "length (lines_nul bs)"
  let ?m1 = "put_bytes m1 out (lines_nul bs)" let ?m2 = "put_bytes ?m1 ?d (leftover bs)"
  have short: "region ?d (length (leftover bs)) \<subseteq> region ?d 48"
    using leftover_length [of bs] by (intro region_prefix less_imp_le)
  have mapped1: "mapped m1 out ?k" "mapped m1 ?d 48"
    using assms(2,3) only_changes_mapped [OF assms(1)] by simp_all
  then have mapped2: "mapped ?m1 ?d 48" "mapped ?m1 ?d (length (leftover bs))"
    using leftover_length [of bs]
    by (auto intro: mapped_put_bytes mapped_prefix [OF mapped_put_bytes [OF mapped1(2)] less_imp_le])
  have "only_changes m1 ?m1 (region out ?k \<union> region ?d 48)" "only_changes ?m1 ?m2 (region out ?k \<union> region ?d 48)"
    using mapped1 mapped2 short by (auto intro!: only_changes_put)
  then have "only_changes m ?m2 (region out ?k \<union> region ?d 48)"
    using assms(1) by (meson only_changes_trans order_refl sup.cobounded2)
  moreover have "load_bytes ?m2 out ?k = load_bytes ?m1 out ?k"
    by (rule load_put_disjoint) (use assms(4) short in blast)
  moreover have "load_bytes ?m1 out ?k = Some (lines_nul bs)"
    by (rule load_put_same)
  moreover have "pending ?m2 (ctx\<lparr>data_used := of_nat (length (leftover bs))\<rparr>) (leftover bs)"
    using mapped_put_bytes [OF mapped2(1), of ?d "leftover bs"] load_put_same [of ?m1 ?d "leftover bs"]
    by (simp add: pending_def)
  ultimately show ?thesis by (simp add: updated_def)
qed

lemma lines_bound: "length (full_lines bs) \<le> 0x7FFFFFFF \<Longrightarrow> length bs < 2 ^ 32"
  unfolding length_lines by (simp add: div_less_iff_less_mult)

text \<open>An update that completes a line begun before.\<close>

lemma encode_resume:
  assumes p: "pending m ctx p" "p \<noteq> []" and inp: "load_bytes m inp (length bs) = Some bs"
    and small: "length (full_lines (p @ bs)) \<le> 0x7FFFFFFF" and long: "48 \<le> length (p @ bs)"
    and ok: "buffers_ok m ctx out (length (lines_nul (p @ bs))) inp (length bs)"
  defines "k \<equiv> 48 - length p" and "d \<equiv> enc_data ctx"
  defines "m1 \<equiv> put_bytes m (d + int (length p)) (take k bs)"
  shows "update_rest (ctx\<lparr>data_used := 0\<rparr>) (put_bytes m1 out (b64 (p @ take k bs) @ [10, 0])) (out + 65) (inp + int k)
      (of_nat (length bs - k)) 65 =
    Some (int (length (full_lines (p @ bs))), ctx\<lparr>data_used := of_nat (length (leftover (p @ bs)))\<rparr>,
      put_bytes (put_bytes m1 out (lines_nul (p @ bs))) d (leftover (p @ bs)))"
    and "only_changes m m1 (region d 48)"
proof -
  define X r where "X = b64 (p @ take k bs) @ [10]" and "r = drop k bs"
  define m2 where "m2 = put_bytes m1 out (X @ [0])"
  have P: "length p < 48" "mapped m d 48" "k \<le> length bs" "length p + k = 48" "length bs = k + length r"
    using p(1) long by (auto simp: pending_def d_def k_def r_def)
  have X: "length X = 65" using P(3,4) by (simp add: X_def length_b64)
  have "take 48 (p @ bs) = p @ take k bs" "drop 48 (p @ bs) = r" using P(1) by (simp_all add: k_def r_def)
  then have lines: "full_lines (p @ bs) = X @ full_lines r" "leftover (p @ bs) = leftover r"
    "lines_nul (p @ bs) = X @ (if length r < 48 then [0] else lines_nul r)"
    using lines_long [OF long] lines_nul_long [OF long] P(5) long by (auto simp: X_def k_def)
  have L: "length (lines_nul (p @ bs)) = 65 + (if length r < 48 then 1 else length (lines_nul r))"
    using X by (simp add: lines)
  then have L66: "66 \<le> length (lines_nul (p @ bs))" by (simp add: lines_nul_def)
  have B: "mapped m out (length (lines_nul (p @ bs)))" "region out (length (lines_nul (p @ bs))) \<inter> region d 48 = {}"
    "region d 48 \<inter> region inp (length bs) = {}" "region out (length (lines_nul (p @ bs))) \<inter> region inp (length bs) = {}"
    using ok by (auto simp: buffers_ok_def d_def)
  have m1: "mapped m1 out 66" and ch: "only_changes m m1 (region d 48)"
    unfolding m1_def using P(3,4) L mapped_sub [OF P(2), of "d + int (length p)" k]
    by (auto intro!: mapped_put_bytes mapped_prefix [OF B(1)] only_changes_put simp: lines_nul_def)
  show "only_changes m m1 (region d 48)" by (rule ch)
  have "only_changes m1 m2 (region out 66)"
    unfolding m2_def using m1 by (intro only_changes_put) (simp_all add: X)
  then have ch2: "only_changes m m2 (region d 48 \<union> region out 66)"
    using only_changes_trans [OF ch] by blast
  have "region (inp + int k) (length r) \<inter> region d 48 = {}" "region (inp + int k) (length r) \<inter> region out 66 = {}"
    by (rule regions_apart [OF B(3) [unfolded Int_commute [of "region d 48"]]], use P(5) in simp_all)
       (rule regions_apart [OF B(4) [unfolded Int_commute [of "region out _"]]], use P(5) L66 in simp_all)
  then have src: "load_bytes m2 (inp + int k) (length r) = Some r"
    using only_changes_load [OF ch2, of "inp + int k" "length r"] load_bytes_take_drop(2) [OF inp P(3)]
    by (simp add: r_def Int_Un_distrib)
  have Lr: "65 + length (lines_nul r) \<le> length (lines_nul (p @ bs))" using L by (simp add: lines_nul_def)
  have "region (out + 65) (length (lines_nul r)) \<inter> region (inp + int k) (length r) = {}"
    by (rule regions_apart [OF B(4)]) (use Lr P(5) in simp_all)
  moreover have "region (out + 65) (length (lines_nul r)) \<inter> region d 48 = {}"
    by (rule regions_apart [OF B(2)]) (use Lr in simp_all)
  moreover have "region d 48 \<inter> region (inp + int k) (length r) = {}"
    by (rule regions_apart [OF B(3)]) (use P(5) in simp_all)
  moreover have "mapped m2 (out + 65) (length (lines_nul r))"
    using only_changes_mapped [OF ch2] Lr by (auto intro!: mapped_sub [OF B(1)])
  ultimately have "update_rest (ctx\<lparr>data_used := 0\<rparr>) m2 (out + 65) (inp + int k) (of_nat (length r)) (of_nat 65) =
    Some (int (65 + length (full_lines r)), ctx\<lparr>data_used := of_nat (length (leftover r))\<rparr>,
      put_bytes (put_bytes m2 (out + 65) (lines_nul r)) d (leftover r))"
    using update_rest_b64 [OF src, of "ctx\<lparr>data_used := 0\<rparr>" "out + 65" 65] small X lines(1) lines_bound [OF small]
      P(2,5) only_changes_mapped [OF ch2]
    by (simp add: buffers_ok_def d_def)
  moreover have "lines_nul r = [] \<longleftrightarrow> length r < 48" by (simp add: lines_nul_def)
  then have "put_bytes m2 (out + 65) (lines_nul r) = put_bytes m1 out (lines_nul (p @ bs))"
    using put_over_short [of "lines_nul r" 65 X m1 out 0] X by (auto simp: m2_def lines(3))
  ultimately show "update_rest (ctx\<lparr>data_used := 0\<rparr>) (put_bytes m1 out (b64 (p @ take k bs) @ [10, 0])) (out + 65) (inp + int k)
      (of_nat (length bs - k)) 65 =
    Some (int (length (full_lines (p @ bs))), ctx\<lparr>data_used := of_nat (length (leftover (p @ bs)))\<rparr>,
      put_bytes (put_bytes m1 out (lines_nul (p @ bs))) d (leftover (p @ bs)))"
    using X P(5) by (simp add: lines(1,2) m2_def X_def)
qed

lemma EVP_EncodeUpdate_b64:
  assumes p: "pending m ctx p" and inp: "load_bytes m inp (length bs) = Some bs"
    and small: "length (full_lines (p @ bs)) \<le> 0x7FFFFFFF"
    and ok: "buffers_ok m ctx out (length (lines_nul (p @ bs))) inp (length bs)"
  obtains m' ctx' where
    "EVP_EncodeUpdate m ctx out inp (of_nat (length bs)) = Some (int (length (full_lines (p @ bs))), ctx', m')"
    "updated m ctx out (p @ bs) m' ctx'"
proof -
  let ?d = "enc_data ctx" and ?P = "length p" and ?n = "length bs"
  have P: "?P < 48" "load_bytes m ?d ?P = Some p" "mapped m ?d 48" "data_used ctx = of_nat ?P"
    using p by (auto simp: pending_def)
  have B: "mapped m out (length (lines_nul (p @ bs)))" "region out (length (lines_nul (p @ bs))) \<inter> region ?d 48 = {}"
    "region ?d 48 \<inter> region inp ?n = {}" "region out (length (lines_nul (p @ bs))) \<inter> region inp ?n = {}"
    using ok by (auto simp: buffers_ok_def)
  have n: "?n < 2 ^ 32" "unat (of_nat ?n :: u64) = ?n"
    using lines_bound [OF small] unat_u64_of_nat [of ?n] by simp_all
  have u: "unat (data_used ctx) = ?P" "uint (data_used ctx) = int ?P" "(ucast (data_used ctx) :: u64) = of_nat ?P"
    using u32_48 [OF P(1)] P(4) by (simp_all add: uint_nat)
  have k: "unat (48 - of_nat ?P :: u64) = 48 - ?P"
    using P(1) unat_minus_of_nat [of ?P 48] by simp
  have used: "data_used ctx < 48" "data_used ctx \<noteq> 0 \<longleftrightarrow> p \<noteq> []"
    using u(1) P(1) by (auto simp: word_less_nat_alt simp flip: unat_eq_0)
  consider "bs = []" | "bs \<noteq> []" "?P + ?n < 48" | "48 \<le> ?P + ?n" "p = []" | "48 \<le> ?P + ?n" "p \<noteq> []" by force
  then show ?thesis
  proof cases
    case 1
    then have "updated m ctx out (p @ bs) m ctx"
      using P p by (cases ctx) (simp add: updated_def lines_short lines_nul_def)
    then show ?thesis
      using that [of ctx m] 1 P(1) by (simp add: EVP_EncodeUpdate_rest lines_short)
  next
    case 2
    let ?m = "put_bytes m (?d + int ?P) bs"
    have cpy: "OPENSSL_memcpy m (?d + int ?P) inp ?n = Some ?m"
      by (rule memcpy_put [OF inp mapped_sub [OF P(3)] regions_apart [OF B(3)]]) (use 2 in simp_all)
    have "load_bytes ?m ?d ?P = Some p" "load_bytes ?m (?d + int ?P) ?n = Some bs"
      using P(2) load_put_same [of m "?d + int ?P" bs] by (subst load_put_disjoint, auto)
    then have ld: "load_bytes ?m ?d (?P + ?n) = Some (p @ bs)" by (simp add: load_bytes_add)
    have "mapped m (?d + int ?P) ?n" "region (?d + int ?P) ?n \<subseteq> region ?d 48"
      using 2 by (auto intro: mapped_sub [OF P(3)])
    then have ch: "only_changes m ?m (region out 0 \<union> region ?d 48)" by (simp add: only_changes_put)
    have "updated m ctx out (p @ bs) ?m (ctx\<lparr>data_used := data_used ctx + ucast (of_nat ?n :: u64)\<rparr>)"
      using 2 ld ch mapped_put_bytes [OF P(3)] P(4) u32_48(3) [of ?n]
      by (simp add: updated_def lines_short lines_nul_def pending_def)
    moreover have "(of_nat ?n :: u64) < 48 - of_nat ?P" "(of_nat ?n :: u64) \<noteq> 0"
      using 2 k n by (auto simp: word_less_nat_alt simp flip: unat_eq_0)
    ultimately show ?thesis
      using that 2 cpy u used n by (simp add: EVP_EncodeUpdate_rest lines_short)
  next
    case 3
    have "(of_nat ?n :: u64) \<noteq> 0" "\<not> (of_nat ?n :: u64) < 48"
      using 3 n by (auto simp: word_less_nat_alt simp flip: unat_eq_0)
    then have "EVP_EncodeUpdate m ctx out inp (of_nat ?n) = update_rest ctx m out inp (of_nat ?n) (of_nat 0)"
      using u used 3 by (simp add: EVP_EncodeUpdate_rest)
    then show ?thesis
      using that updatedI [OF only_changes_refl B(1) P(3) B(2)] update_rest_b64 [OF inp, of ctx out 0] ok small n P(3) 3(2)
      by simp
  next
    case 4
    let ?k = "48 - ?P"
    have long: "48 \<le> length (p @ bs)" using 4 by simp
    have "(of_nat ?n :: u64) \<noteq> 0" "\<not> (of_nat ?n :: u64) < 48 - of_nat ?P"
      using 4 P(1) n k by (auto simp: word_less_nat_alt simp flip: unat_eq_0)
    moreover have "(of_nat ?n - (48 - of_nat ?P) :: u64) = of_nat (?n - ?k)" "uint (48 - of_nat ?P :: u64) = int ?k"
      using 4(1) P(1) k by (simp_all add: of_nat_diff uint_nat)
    moreover note head = encode_head [OF p 4(2) inp long _ ok]
    ultimately show ?thesis
      using that updatedI [OF encode_resume(2) [OF p 4(2) inp small long ok] B(1) P(3) B(2)]
        encode_resume(1) [OF p 4(2) inp small long ok] u used k n 4(2)
      by (simp add: EVP_EncodeUpdate_rest Let_def head)
  qed
qed

text \<open>A client that encodes a sequence of pieces, each given by its address and length, into one buffer.\<close>

primrec encode_chunks :: "mem \<Rightarrow> EVP_ENCODE_CTX \<Rightarrow> addr \<Rightarrow> (addr \<times> u64) list \<Rightarrow> (int \<times> EVP_ENCODE_CTX \<times> mem) option" where
  "encode_chunks m ctx out [] = Some (0, ctx, m)"
| "encode_chunks m ctx out (c # cs) =
     Option.bind (EVP_EncodeUpdate m ctx out (fst c) (snd c)) (\<lambda>(k, ctx, m).
     Option.bind (encode_chunks m ctx (out + k) cs) (\<lambda>(j, ctx, m). Some (k + j, ctx, m)))"

definition encode_stream :: "mem \<Rightarrow> EVP_ENCODE_CTX \<Rightarrow> addr \<Rightarrow> (addr \<times> u64) list \<Rightarrow> (int \<times> EVP_ENCODE_CTX \<times> mem) option" where
  "encode_stream m ctx out cs =
     Option.bind (EVP_EncodeInit m ctx) (\<lambda>(ctx, m).
     Option.bind (encode_chunks m ctx out cs) (\<lambda>(k, ctx, m).
     Option.bind (EVP_EncodeFinal m ctx (out + k)) (\<lambda>(j, ctx, m). Some (k + j, ctx, m))))"

text \<open>The pieces hold the byte strings \<open>bss\<close> and lie apart from the addresses \<open>A\<close>.\<close>

definition chunks_hold :: "mem \<Rightarrow> addr set \<Rightarrow> (addr \<times> u64) list \<Rightarrow> u8 list list \<Rightarrow> bool" where
  "chunks_hold m A cs bss \<longleftrightarrow>
     list_all2 (\<lambda>(p, n) bs. load_bytes m p (length bs) = Some bs \<and> unat n = length bs \<and> region p (length bs) \<inter> A = {}) cs bss"

lemma chunks_hold_Cons:
  "chunks_hold m A (c # cs) bss \<longleftrightarrow>
     (\<exists>bs rest. bss = bs # rest \<and> load_bytes m (fst c) (length bs) = Some bs \<and> unat (snd c) = length bs \<and>
        region (fst c) (length bs) \<inter> A = {} \<and> chunks_hold m A cs rest)"
  by (cases bss; cases c) (auto simp: chunks_hold_def)

lemma chunks_hold_Nil [simp]: "chunks_hold m A [] bss \<longleftrightarrow> bss = []"
  by (simp add: chunks_hold_def)

lemma chunks_hold_step: "chunks_hold m A cs bss \<Longrightarrow> only_changes m m' B \<Longrightarrow> B \<subseteq> A \<Longrightarrow> chunks_hold m' A cs bss"
proof (induction cs arbitrary: bss)
  case (Cons c cs)
  have "region p n \<inter> B = {}" if "region p n \<inter> A = {}" for p n using that Cons.prems(3) by blast
  then show ?case using Cons by (auto simp: chunks_hold_Cons only_changes_load [OF Cons.prems(2)])
qed simp

text \<open>The next call of a client whose output lies in \<open>A\<close>.\<close>

lemma encode_next:
  assumes p: "pending m ctx p" and small: "length (full_lines (p @ bs)) \<le> 0x7FFFFFFF"
    and room: "mapped m out (length (full_lines (p @ bs)) + 1)"
      "region out (length (full_lines (p @ bs)) + 1) \<inter> region (enc_data ctx) 48 = {}"
      "region out (length (full_lines (p @ bs)) + 1) \<union> region (enc_data ctx) 48 \<subseteq> A"
    and c: "chunks_hold m A (c # cs) (bs # rest)"
  obtains m' ctx' where
    "EVP_EncodeUpdate m ctx out (fst c) (snd c) = Some (int (length (full_lines (p @ bs))), ctx', m')"
    "enc_data ctx' = enc_data ctx" "pending m' ctx' (leftover (p @ bs))"
    "load_bytes m' out (length (full_lines (p @ bs))) = Some (full_lines (p @ bs))"
    "only_changes m m' (region out (length (full_lines (p @ bs)) + 1) \<union> region (enc_data ctx) 48)"
    "chunks_hold m' A cs rest"
proof -
  let ?F = "full_lines (p @ bs)" and ?L = "lines_nul (p @ bs)" and ?d = "enc_data ctx"
  have bs: "load_bytes m (fst c) (length bs) = Some bs" "snd c = of_nat (length bs)"
    "region (fst c) (length bs) \<inter> A = {}" "chunks_hold m A cs rest"
    using c by (auto simp: chunks_hold_Cons simp flip: word_unat_eq_iff) (metis ucast_id of_nat_unat)
  have "length ?L \<le> length ?F + 1" by (rule lines_nul_length)
  then have sub: "region out (length ?L) \<subseteq> region out (length ?F + 1)" by (rule region_prefix)
  have "buffers_ok m ctx out (length ?L) (fst c) (length bs)"
    unfolding buffers_ok_def using room sub bs(3) lines_nul_length [of "p @ bs"]
    by (auto intro: mapped_prefix [OF room(1)])
  then obtain m' ctx' where up: "EVP_EncodeUpdate m ctx out (fst c) (snd c) = Some (int (length ?F), ctx', m')"
    "updated m ctx out (p @ bs) m' ctx'"
    using EVP_EncodeUpdate_b64 [OF p bs(1) small] bs(2) by metis
  have "load_bytes m' out (length ?F) = Some ?F"
  proof (cases "length (p @ bs) < 48")
    case False
    then have "load_bytes m' out (length (?F @ [0])) = Some (?F @ [0])"
      using up(2) by (simp add: updated_def lines_nul_def)
    from load_bytes_take_drop(1) [OF this, of "length ?F"] show ?thesis by simp
  qed (simp add: lines_short)
  moreover have ch: "only_changes m m' (region out (length ?F + 1) \<union> region ?d 48)"
    using up(2) sub unfolding updated_def only_changes_def by blast
  moreover have "chunks_hold m' A cs rest"
    by (rule chunks_hold_step [OF bs(4) ch room(3)])
  moreover have "enc_data ctx' = ?d" "pending m' ctx' (leftover (p @ bs))"
    using up(2) by (auto simp: updated_def)
  ultimately show ?thesis using that up(1) by blast
qed

lemma encode_chunks_b64:
  assumes "pending m ctx p" "length (full_lines (p @ concat bss)) \<le> 0x7FFFFFFF"
    and "mapped m out (length (full_lines (p @ concat bss)) + 1)"
    and "region out (length (full_lines (p @ concat bss)) + 1) \<inter> region (enc_data ctx) 48 = {}"
    and "region out (length (full_lines (p @ concat bss)) + 1) \<union> region (enc_data ctx) 48 \<subseteq> A" "chunks_hold m A cs bss"
  shows "\<exists>m' ctx'. encode_chunks m ctx out cs = Some (int (length (full_lines (p @ concat bss))), ctx', m') \<and>
    enc_data ctx' = enc_data ctx \<and> pending m' ctx' (leftover (p @ concat bss)) \<and>
    load_bytes m' out (length (full_lines (p @ concat bss))) = Some (full_lines (p @ concat bss)) \<and>
    only_changes m m' (region out (length (full_lines (p @ concat bss)) + 1) \<union> region (enc_data ctx) 48)"
  using assms
proof (induction cs arbitrary: m ctx out p bss)
  case Nil
  then have "length p < 48" by (simp add: pending_def)
  then show ?case using Nil by (simp add: lines_short)
next
  case (Cons c cs)
  obtain bs rest where bss: "bss = bs # rest" using Cons.prems(6) by (auto simp: chunks_hold_Cons)
  define q F G where "q = leftover (p @ bs)" and "F = full_lines (p @ bs)" and "G = full_lines (q @ concat rest)"
  let ?d = "enc_data ctx" and ?K = "length F + length G + 1"
  have lines: "full_lines (p @ concat bss) = F @ G" "leftover (p @ concat bss) = leftover (q @ concat rest)"
    using lines_append [of "p @ bs" "concat rest"] by (simp_all add: bss q_def F_def G_def)
  have K: "mapped m out ?K" "region out ?K \<inter> region ?d 48 = {}" "region out ?K \<union> region ?d 48 \<subseteq> A" "?K \<le> 0x80000000"
    using Cons.prems(2-5) by (simp_all add: lines)
  have F: "mapped m out (length F + 1)" "region out (length F + 1) \<subseteq> region out ?K"
    by (rule mapped_prefix [OF K(1)], simp) (rule region_prefix, simp)
  obtain m1 ctx1 where up: "EVP_EncodeUpdate m ctx out (fst c) (snd c) = Some (int (length F), ctx1, m1)"
    "enc_data ctx1 = ?d" "pending m1 ctx1 q" "load_bytes m1 out (length F) = Some F"
    "only_changes m m1 (region out (length F + 1) \<union> region ?d 48)" "chunks_hold m1 A cs rest"
    by (rule encode_next [OF Cons.prems(1) _ F(1) [unfolded F_def] _ _ Cons.prems(6) [unfolded bss]], fold F_def q_def)
       (use K F(2) in auto)
  have G: "mapped m1 (out + int (length F)) (length G + 1)" "region (out + int (length F)) (length G + 1) \<subseteq> region out ?K"
    using mapped_sub [OF K(1), of "out + int (length F)" "length G + 1"] only_changes_mapped [OF up(5)] by auto
  have G': "region (out + int (length F)) (length G + 1) \<inter> region ?d 48 = {}"
    "region (out + int (length F)) (length G + 1) \<union> region ?d 48 \<subseteq> A"
    using G(2) K(2,3) by blast+
  obtain m2 ctx2 where rec: "encode_chunks m1 ctx1 (out + int (length F)) cs = Some (int (length G), ctx2, m2)"
    "enc_data ctx2 = ?d" "pending m2 ctx2 (leftover (q @ concat rest))"
    "load_bytes m2 (out + int (length F)) (length G) = Some G"
    "only_changes m1 m2 (region (out + int (length F)) (length G + 1) \<union> region ?d 48)"
    using Cons.IH [OF up(3), of rest "out + int (length F)", folded G_def, unfolded up(2), OF _ G(1) G' up(6)] K(4)
    by auto
  have "region out (length F) \<inter> (region (out + int (length F)) (length G + 1) \<union> region ?d 48) = {}"
    using K(2) region_prefix [of "length F" ?K out] by (auto simp: set_eq_iff)
  then have "load_bytes m2 out (length F) = Some F"
    using only_changes_load [OF rec(5)] up(4) by simp
  then have "load_bytes m2 out (length (F @ G)) = Some (F @ G)"
    using rec(4) by (simp add: load_bytes_add)
  moreover have "only_changes m m2 (region out ?K \<union> region ?d 48)"
    by (rule only_changes_trans [OF up(5) rec(5)]) (use F(2) G(2) in blast)+
  ultimately show ?case
    using up(1) rec(1-3) by (simp add: lines)
qed

lemma EVP_EncodeFinal_b64:
  assumes "pending m ctx p" "p \<noteq> []" "mapped m out (length (b64 p) + 2)" "region out (length (b64 p) + 2) \<inter> region (enc_data ctx) 48 = {}"
  shows "EVP_EncodeFinal m ctx out =
    Some (int (length (b64 p) + 1), ctx\<lparr>data_used := 0\<rparr>, put_bytes m out (b64 p @ [10, 0]))"
proof -
  let ?n = "length (b64 p)"
  have p: "length p < 48" "load_bytes m (enc_data ctx) (length p) = Some p" "data_used ctx = of_nat (length p)"
    using assms(1) by (auto simp: pending_def)
  have n: "?n \<le> 64" using p(1) by (simp add: length_b64)
  have used: "data_used ctx \<noteq> 0" "(ucast (data_used ctx) :: u64) = of_nat (length p)"
    using assms(2) p(1,3) u32_48 [OF p(1)] by (auto simp flip: unat_eq_0)
  have "EVP_EncodeBlock m out (enc_data ctx) (of_nat (length p)) = Some (of_nat ?n, put_bytes m out (b64 p @ [0]))"
    by (rule EVP_EncodeBlock_b64 [OF p(2) _ mapped_prefix [OF assms(3)] regions_apart [OF assms(4)]]) (use p(1) in simp_all)
  moreover have "store_bytes (put_bytes m out (b64 p @ [0])) (out + int ?n) [10] = Some (put_bytes m out (b64 p @ [10]))"
    using mapped_put_bytes [OF mapped_sub [OF assms(3), of "out + int ?n" 1], of out "b64 p @ [0]"]
    by (simp add: store_bytes_def put_bytes_append)
  moreover have "store_bytes (put_bytes m out (b64 p @ [10])) (out + (int ?n + 1)) [0] = Some (put_bytes m out (b64 p @ [10, 0]))"
    using mapped_put_bytes [OF mapped_sub [OF assms(3), of "out + (int ?n + 1)" 1], of out "b64 p @ [10]"]
    by (simp add: store_bytes_def put_bytes_append add.assoc)
  moreover have u: "unat (of_nat ?n :: u64) = ?n" "unat (of_nat ?n + 1 :: u64) = ?n + 1"
    using n unat_u64_of_nat [of ?n] unat_u64_of_nat [of "Suc ?n"] by (simp_all add: add.commute)
  moreover have "\<not> (0x7FFFFFFF :: u64) < of_nat ?n + 1"
  proof -
    have big: "unat (0x7FFFFFFF :: u64) = 0x7FFFFFFF" by simp
    show ?thesis unfolding word_less_nat_alt u(2) big using n by linarith
  qed
  moreover have "uint (of_nat ?n :: u64) = int ?n" "uint (of_nat ?n + 1 :: u64) = int ?n + 1"
    using u by (simp_all only: uint_nat of_nat_add of_nat_1)
  ultimately show ?thesis using used by (simp add: EVP_EncodeFinal_def)
qed

lemma EVP_EncodeFinal_none: "pending m ctx [] \<Longrightarrow> EVP_EncodeFinal m ctx out = Some (0, ctx, m)"
  by (simp add: EVP_EncodeFinal_def pending_def)

text \<open>C37: Encoding a byte string through \<open>EVP_EncodeInit\<close>, any number of calls of \<open>EVP_EncodeUpdate\<close> and
  \<open>EVP_EncodeFinal\<close> gives the lines of its base64 text, 64 characters and a newline each, however the
  string is cut into calls; nothing but the output buffer and the array of the context changes.
\<close>

theorem encode_stream_exact:
  assumes "mapped m out (length (pem (concat bss)) + 1)" "mapped m (enc_data ctx) 48"
    and "region out (length (pem (concat bss)) + 1) \<inter> region (enc_data ctx) 48 = {}"
    and "chunks_hold m (region out (length (pem (concat bss)) + 1) \<union> region (enc_data ctx) 48) cs bss"
    and "length (pem (concat bss)) \<le> 0x7FFFFFFF"
  shows "\<exists>ctx' m'. encode_stream m ctx out cs = Some (int (length (pem (concat bss))), ctx', m') \<and>
    load_bytes m' out (length (pem (concat bss))) = Some (pem (concat bss)) \<and>
    only_changes m m' (region out (length (pem (concat bss)) + 1) \<union> region (enc_data ctx) 48)"
proof -
  define F q T where "F = full_lines (concat bss)" and "q = leftover (concat bss)"
    and "T = (if q = [] then [] else b64 q @ [10])"
  let ?d = "enc_data ctx" let ?A = "region out (length F + length T + 1) \<union> region ?d 48"
  have pem: "pem (concat bss) = F @ T" by (simp add: pem_def F_def q_def T_def)
  define m0 ctx0 where "m0 = put_bytes m ?d (replicate 48 0)"
    and "ctx0 = ctx\<lparr>data_used := 0, eof_seen := False, error_encountered := False\<rparr>"
  have init: "EVP_EncodeInit m ctx = Some (ctx0, m0)" and ch0: "only_changes m m0 (region ?d 48)" and d0: "enc_data ctx0 = ?d"
    using assms(2) by (auto simp: EVP_EncodeInit_def store_bytes_def m0_def ctx0_def intro!: only_changes_put)
  have room: "mapped m0 out (length F + 1)" "region out (length F + 1) \<inter> region ?d 48 = {}"
    "region out (length F + 1) \<union> region ?d 48 \<subseteq> ?A" "chunks_hold m0 ?A cs bss" "pending m0 ctx0 []"
    using assms(1-4) only_changes_mapped [OF ch0] chunks_hold_step [OF assms(4) ch0] region_prefix [of "length F + 1" "length F + length T + 1" out]
      mapped_prefix [of m out "length F + length T + 1" "length F + 1"]
    by (auto simp: pem pending_def ctx0_def)
  obtain m1 ctx1 where run: "encode_chunks m0 ctx0 out cs = Some (int (length F), ctx1, m1)" "enc_data ctx1 = ?d"
    "pending m1 ctx1 q" "load_bytes m1 out (length F) = Some F" "only_changes m0 m1 (region out (length F + 1) \<union> region ?d 48)"
    using encode_chunks_b64 [OF room(5), of bss out ?A cs] room assms(5) unfolding d0 pem
    by (auto simp: F_def q_def)
  have ch1: "only_changes m m1 ?A"
    by (rule only_changes_trans [OF ch0 run(5)]) (use room(3) in auto)
  have q: "mapped m1 (out + int (length F)) (length T + 1)"
    "region (out + int (length F)) (length T + 1) \<inter> region ?d 48 = {}"
    using mapped_sub [OF assms(1), of "out + int (length F)" "length T + 1"] only_changes_mapped [OF ch1]
      regions_apart [OF assms(3), of "out + int (length F)" "length T + 1" ?d 48] by (simp_all add: pem)
  define m2 where "m2 = (if q = [] then m1 else put_bytes m1 (out + int (length F)) (T @ [0]))"
  have fin: "\<exists>ctx2. EVP_EncodeFinal m1 ctx1 (out + int (length F)) = Some (int (length T), ctx2, m2)"
    using EVP_EncodeFinal_b64 [OF run(3), of "out + int (length F)"] q run(2,3) EVP_EncodeFinal_none [of m1 ctx1]
    by (cases "q = []") (auto simp: T_def m2_def)
  have ch2: "only_changes m1 m2 (region (out + int (length F)) (length T + 1))"
    using q(1) by (auto simp: m2_def intro!: only_changes_put)
  have "load_bytes m2 out (length F) = Some F"
    using only_changes_load [OF ch2, of out "length F"] run(4) by (auto simp: set_eq_iff)
  moreover have "load_bytes m2 (out + int (length F)) (length T) = Some T"
  proof (cases "q = []")
    case False
    then have "load_bytes m2 (out + int (length F)) (length (T @ [0])) = Some (T @ [0])"
      unfolding m2_def by (simp only: if_False load_put_same)
    from load_bytes_take_drop(1) [OF this, of "length T"] show ?thesis by simp
  qed (simp add: T_def)
  ultimately have "load_bytes m2 out (length (F @ T)) = Some (F @ T)" by (simp add: load_bytes_add)
  moreover have "only_changes m m2 ?A"
    by (rule only_changes_trans [OF ch1 ch2]) auto
  ultimately show ?thesis
    using fin init run(1) by (auto simp: encode_stream_def pem)
qed

lemma encode_stream_exact_witness:
  "\<exists>ctx' m'. encode_stream (put_bytes (put_bytes (put_bytes Map.empty 100 (replicate 48 0)) 200 (replicate 6 0)) 300 [77, 97])
      \<lparr>data_used = 0, enc_data = 100, eof_seen = False, error_encountered = False\<rparr> 200 [(300, 1), (301, 1)] = Some (5, ctx', m') \<and>
    load_bytes m' 200 5 = Some [84, 87, 69, 61, 10]"
proof -
  let ?m = "put_bytes (put_bytes (put_bytes Map.empty 100 (replicate 48 0)) 200 (replicate 6 0)) 300 [77, 97 :: u8]"
  let ?ctx = "\<lparr>data_used = 0, enc_data = 100, eof_seen = False, error_encountered = False\<rparr>"
  have pem: "pem (concat [[77], [97]]) = [84, 87, 69, 61, 10]" "length (pem (concat [[77], [97]])) = 5" by code_simp+
  have "?m 300 = Some 77" "?m 301 = Some 97"
    by (simp_all add: put_bytes_apply nth_Cons' del: put_bytes.simps)
  then have "chunks_hold ?m (region 200 (5 + 1) \<union> region 100 48) [(300, 1), (301, 1)] [[77], [97]]"
    by (auto simp: chunks_hold_Cons simp del: put_bytes.simps)
  moreover have "mapped ?m 200 (5 + 1)" "mapped ?m (enc_data ?ctx) 48" by (auto simp: mapped_iff)
  moreover have "region 200 (5 + 1) \<inter> region (enc_data ?ctx) 48 = {}" by auto
  moreover have "enc_data ?ctx = 100" "(5 :: nat) \<le> 0x7FFFFFFF" by simp_all
  ultimately show ?thesis
    using encode_stream_exact [of ?m 200 "[[77], [97]]" ?ctx "[(300, 1), (301, 1)]", unfolded pem(2), unfolded pem(1) of_nat_numeral]
    by metis
qed

end
