(* ===== verification/Boring_Base64_Decode.thy ===== *)
theory Boring_Base64_Decode
  imports Boring_Base64_Theorems
begin

text \<open>
  The decoders of \<open>base64.c\<close>: a block is accepted exactly when it is a base64 text, in place if the
  caller wants, and the streaming decoder accepts the same texts with white space anywhere in them.
\<close>

section \<open>Groups of four\<close>

lemma quad_bytes:
  assumes "x AND 63 = x" "y AND 63 = y" "z AND 63 = z" "w AND 63 = w"
  defines "v \<equiv> push_bit 18 (ucast (x :: u8)) OR push_bit 12 (ucast y) OR push_bit 6 (ucast z) OR ucast w :: u32"
  shows "ucast (drop_bit 16 v) = byte0 x y" "ucast (drop_bit 8 v) = byte1 y z" "ucast v = byte2 z w"
proof -
  have n: "Suc (Suc (n - 2)) = (if n < 2 then 2 else n)" "4 + (n - 4) = (if n < 4 then 4 else n)"
    "6 + (n - 6) = (if n < 6 then 6 else n)" for n :: nat by arith+
  have b: "\<And>i. bit x i \<Longrightarrow> i < 6" "\<And>i. bit y i \<Longrightarrow> i < 6" "\<And>i. bit z i \<Longrightarrow> i < 6" "\<And>i. bit w i \<Longrightarrow> i < 6"
    using assms(1-4) bit_small by blast+
  show "ucast (drop_bit 16 v) = byte0 x y"
    unfolding v_def byte0_def by (rule bit_word_eqI) (auto simp: bit_simps n dest: b)
  show "ucast (drop_bit 8 v) = byte1 y z"
    unfolding v_def byte1_def by (rule bit_word_eqI) (auto simp: bit_simps n dest: b)
  show "ucast v = byte2 z w"
    unfolding v_def byte2_def by (rule bit_word_eqI) (auto simp: bit_simps n dest: b)
qed

lemma value_not_FF: "b64_value c = Some v \<Longrightarrow> v \<noteq> 0xFF"
  using b64_value_small [of c v] by auto

lemma decode_quad:
  assumes "load_bytes m inp 4 = Some [c0, c1, c2, c3]"
    and "\<And>bs. quad_parse c0 c1 c2 c3 = Some bs \<Longrightarrow> mapped m out (length bs)"
  shows "base64_decode_quad m out inp =
    Some (case quad_parse c0 c1 c2 c3 of None \<Rightarrow> (None, m)
          | Some bs \<Rightarrow> (Some (of_nat (length bs)), put_bytes m out bs))"
proof -
  consider (bad) "base64_ascii_to_bin c0 = 0xFF \<or> base64_ascii_to_bin c1 = 0xFF \<or> base64_ascii_to_bin c2 = 0xFF \<or>
      base64_ascii_to_bin c3 = 0xFF"
    | (pad) "c0 = 61 \<or> c1 = 61 \<or> c2 = 61 \<and> c3 \<noteq> 61"
    | (one) x y where "b64_value c0 = Some x" "b64_value c1 = Some y" "c2 = 61" "c3 = 61"
    | (two) x y z where "b64_value c0 = Some x" "b64_value c1 = Some y" "b64_value c2 = Some z" "c3 = 61"
    | (three) x y z w where "b64_value c0 = Some x" "b64_value c1 = Some y" "b64_value c2 = Some z" "b64_value c3 = Some w"
    by (force simp: ascii_to_bin_value split: option.splits if_splits)
  then show ?thesis
  proof cases
    case bad
    then have "quad_parse c0 c1 c2 c3 = None"
      by (auto simp: quad_parse_def ascii_to_bin_value split: option.splits if_splits Option.bind_splits dest: value_not_FF)
    with bad show ?thesis by (simp add: base64_decode_quad_def assms(1) Let_def)
  next
    case pad
    then have "quad_parse c0 c1 c2 c3 = None"
      by (auto simp: quad_parse_def split: Option.bind_splits)
    with pad show ?thesis by (auto simp: base64_decode_quad_def assms(1) Let_def of_bool_def)
  next
    case one
    have "quad_parse c0 c1 c2 c3 = Some [byte0 x y]" using one by (simp add: quad_parse_def)
    then show ?thesis
      using one assms(2) quad_bytes [of x y 0 0] b64_value_small [of c0 x] b64_value_small [of c1 y]
      by (auto simp: base64_decode_quad_def assms(1) ascii_to_bin_value store_bytes_def dest: value_not_FF)
  next
    case two
    have "quad_parse c0 c1 c2 c3 = Some [byte0 x y, byte1 y z]" using two by (auto simp: quad_parse_def)
    then show ?thesis
      using two assms(2) quad_bytes [of x y z 0] b64_value_small [of c0 x] b64_value_small [of c1 y] b64_value_small [of c2 z]
      by (auto simp: base64_decode_quad_def assms(1) ascii_to_bin_value store_bytes_def dest: value_not_FF)
  next
    case three
    have "quad_parse c0 c1 c2 c3 = Some [byte0 x y, byte1 y z, byte2 z w]" using three by (auto simp: quad_parse_def)
    then show ?thesis
      using three assms(2) quad_bytes [of x y z w] b64_value_small [of c0 x] b64_value_small [of c1 y]
        b64_value_small [of c2 z] b64_value_small [of c3 w]
      by (auto simp: base64_decode_quad_def assms(1) ascii_to_bin_value store_bytes_def dest: value_not_FF)
  qed
qed

section \<open>Blocks\<close>

text \<open>The output lies behind the input or does not start behind it: decoding in place is fine.\<close>

definition decodable :: "addr \<Rightarrow> addr \<Rightarrow> nat \<Rightarrow> bool" where
  "decodable out inp n \<longleftrightarrow> out \<le> inp \<or> inp + int n \<le> out"

definition decoded :: "mem \<Rightarrow> addr \<Rightarrow> nat \<Rightarrow> u64 \<Rightarrow> u8 list option \<Rightarrow> (u64 option \<times> mem) option \<Rightarrow> bool" where
  "decoded m out k n x r \<longleftrightarrow>
     (case x of
        Some bs \<Rightarrow> r = Some (Some (n + of_nat (length bs)), put_bytes m out bs)
      | None \<Rightarrow> \<exists>m'. r = Some (None, m') \<and> only_changes m m' (region out k))"

lemma decode_quads_b64:
  assumes "load_bytes m (inp + int i) (length cs) = Some cs" "length cs mod 4 = 0" "in_len = i + length cs"
    and "mapped m out (3 * (length cs div 4))" "decodable out (inp + int i) (length cs)"
  shows "decoded m out (3 * (length cs div 4)) n (b64_parse cs) (decode_quads m out inp in_len i n)"
  using assms
proof (induction cs arbitrary: m out i n rule: b64_parse.induct)
  case 1
  then show ?case by (simp add: decoded_def decode_quads.simps)
next
  case (2 c0 c1 c2 c3 cs)
  let ?k = "3 * (length cs div 4)" and ?q = "quad_parse c0 c1 c2 c3"
  have d4: "(4 + length cs) div 4 = Suc (length cs div 4)" by simp
  have len: "length (c0 # c1 # c2 # c3 # cs) = 4 + length cs" "3 * ((4 + length cs) div 4) = 3 + ?k"
    "length cs mod 4 = 0"
    using 2(3) d4 by simp_all
  have src: "load_bytes m (inp + int i) 4 = Some [c0, c1, c2, c3]" "load_bytes m (inp + int (i + 4)) (length cs) = Some cs"
    using load_bytes_take_drop [OF 2(2), of 4] by (simp_all add: algebra_simps)
  have room: "mapped m out (3 + ?k)" using 2(5) d4 by simp
  have sz: "length bs \<in> {1, 2, 3}" "mapped m out (length bs)" if "?q = Some bs" for bs
    using quad_parse_length [OF that] mapped_prefix [OF room, of "length bs"] by auto
  have quad: "base64_decode_quad m out (inp + int i) =
    Some (case ?q of None \<Rightarrow> (None, m) | Some bs \<Rightarrow> (Some (of_nat (length bs)), put_bytes m out bs))"
    by (rule decode_quad [OF src(1) sz(2)])
  have go: "i < in_len" "(i = in_len - 4) \<longleftrightarrow> cs = []" using 2(4) len(1) by auto
  show ?case
  proof (cases ?q)
    case None
    then show ?thesis
      using go by (subst decode_quads.simps) (simp add: decoded_def quad)
  next
    case (Some bs)
    define m1 where "m1 = put_bytes m out bs"
    have three: "(of_nat (length bs) :: u64) \<noteq> 3 \<longleftrightarrow> length bs < 3" "uint (of_nat (length bs) :: u64) = int (length bs)"
      using sz(1) [OF Some] by auto
    have sub: "region out (length bs) \<subseteq> region out (3 + ?k)" using sz(1) [OF Some] by (intro region_prefix) auto
    have ch: "only_changes m m1 (region out (3 + ?k))"
      unfolding m1_def by (rule only_changes_put [OF sz(2) [OF Some] sub])
    have step: "decode_quads m out inp in_len i n =
      (if length bs < 3 \<and> cs \<noteq> [] then Some (None, m1)
       else decode_quads m1 (out + int (length bs)) inp in_len (i + 4) (n + of_nat (length bs)))"
      using go three Some by (subst decode_quads.simps) (simp add: quad m1_def)
    show ?thesis
    proof (cases "length bs < 3 \<and> cs \<noteq> []")
      case True
      then show ?thesis using step Some ch by (auto simp: decoded_def d4)
    next
      case False
      have out: "int (length bs) + int ?k \<le> int (3 + ?k)" using sz(1) [OF Some] by auto
      have "region (inp + int (i + 4)) (length cs) \<inter> region out (length bs) = {}"
        using 2(6) False sz(1) [OF Some] unfolding len(1) decodable_def by (auto simp: set_eq_iff)
      then have "load_bytes m1 (inp + int (i + 4)) (length cs) = Some cs"
        using src(2) unfolding m1_def by (simp add: load_put_disjoint)
      moreover have "mapped m1 (out + int (length bs)) ?k"
        unfolding m1_def by (rule mapped_put_bytes, rule mapped_sub [OF room]) (use out in simp_all)
      moreover have "decodable (out + int (length bs)) (inp + int (i + 4)) (length cs)"
        using 2(6) sz(1) [OF Some] unfolding len(1) decodable_def by auto
      ultimately have "decoded m1 (out + int (length bs)) ?k (n + of_nat (length bs)) (b64_parse cs)
          (decode_quads m1 (out + int (length bs)) inp in_len (i + 4) (n + of_nat (length bs)))"
        using 2(1) [OF Some] False len(3) 2(4) len(1) by simp
      moreover have "region (out + int (length bs)) ?k \<subseteq> region out (3 + ?k)"
        by (rule region_subset) (use out in simp_all)
      ultimately show ?thesis
        using step Some False ch
        by (auto simp: d4 decoded_def m1_def put_bytes_append add.assoc split: option.splits
            intro: only_changes_trans)
    qed
  qed
qed auto

text \<open>C38: \<open>EVP_DecodeBase64\<close> succeeds exactly when the input is a base64 text (groups of four characters of
  the alphabet, the last one padded or not) and the buffer has three bytes for each group; it then
  stores exactly the decoded bytes. Otherwise it fails with \<open>*out_len\<close> zero. In either case it writes
  only to the output buffer, which may be the input itself.
\<close>

theorem EVP_DecodeBase64_exact:
  assumes "load_bytes m inp (unat in_len) = Some cs" "mapped m out (unat max_out)" "decodable out inp (unat in_len)"
  shows "case if 3 * (length cs div 4) \<le> unat max_out then b64_parse cs else None of
      Some bs \<Rightarrow> EVP_DecodeBase64 m out max_out inp in_len = Some (True, of_nat (length bs), put_bytes m out bs)
    | None \<Rightarrow> \<exists>m'. EVP_DecodeBase64 m out max_out inp in_len = Some (False, 0, m') \<and>
        only_changes m m' (region out (unat max_out))"
proof -
  let ?n = "length cs"
  have n: "unat in_len = ?n" using load_bytes_length [OF assms(1)] by simp
  have mod4: "in_len mod 4 = 0 \<longleftrightarrow> ?n mod 4 = 0"
    using n by (simp add: unat_mod flip: unat_eq_0)
  show ?thesis
  proof (cases "?n mod 4 = 0")
    case False
    then have "b64_parse cs = None" by (cases "b64_parse cs") (auto dest: b64_parse_length4)
    then show ?thesis using False mod4 by (simp add: EVP_DecodeBase64_def)
  next
    case True
    have "?n div 4 * 3 < 2 ^ 64" using unat_u64_lt [of in_len] n by simp
    then have len: "EVP_DecodedLength in_len = Some (in_len div 4 * 3)" "unat (in_len div 4 * 3) = 3 * (?n div 4)"
      using True mod4 n by (simp_all add: EVP_DecodedLength_def unat_word_ariths unat_div)
    show ?thesis
    proof (cases "3 * (?n div 4) \<le> unat max_out")
      case False
      then have "max_out < in_len div 4 * 3" using len(2) by (simp add: word_less_nat_alt)
      then show ?thesis using False True mod4 len(1) by (simp add: EVP_DecodeBase64_def)
    next
      case fits: True
      have "decoded m out (3 * (?n div 4)) 0 (b64_parse cs) (decode_quads m out inp ?n 0 0)"
        by (rule decode_quads_b64) (use assms n True mapped_prefix [OF assms(2) fits] in simp_all)
      moreover have "\<not> max_out < in_len div 4 * 3" using fits len(2) by (simp add: word_less_nat_alt)
      moreover have "region out (3 * (?n div 4)) \<subseteq> region out (unat max_out)" by (rule region_prefix [OF fits])
      ultimately show ?thesis
        using fits True mod4 len(1) n
        by (auto simp: EVP_DecodeBase64_def decoded_def split: option.splits intro: only_changes_trans [OF only_changes_refl])
    qed
  qed
qed

lemma EVP_DecodeBase64_exact_witness:
  "EVP_DecodeBase64 (put_bytes Map.empty 100 [77, 81, 61, 61]) 100 4 100 4 =
    Some (True, 1, put_bytes (put_bytes Map.empty 100 [77, 81, 61, 61]) 100 [49])"
proof -
  have "b64_parse [77, 81, 61, 61] = Some [49 :: u8]" by code_simp
  moreover have "load_bytes (put_bytes Map.empty 100 [77, 81, 61, 61]) 100 4 = Some [77, 81, 61, 61 :: u8]"
    by (simp add: load_bytes_eq_Some put_bytes_apply nth_Cons' del: put_bytes.simps load_bytes.simps)
  ultimately show ?thesis
    using EVP_DecodeBase64_exact [of "put_bytes Map.empty 100 [77, 81, 61, 61]" 100 4 "[77, 81, 61, 61]" 100 4]
    by (simp add: decodable_def load_mapped del: put_bytes.simps load_bytes.simps)
qed

text \<open>What \<open>EVP_EncodeBlock\<close> writes, without its terminator, is accepted by \<open>EVP_DecodeBase64\<close> in place
  and gives back the bytes that were encoded.
\<close>

theorem base64_block_round_trip:
  assumes "load_bytes m src (length bs) = Some bs" "mapped m dst (length (b64 bs) + 1)"
    and "region dst (length (b64 bs)) \<inter> region src (length bs) = {}" "length (b64 bs) < 2 ^ 63"
  shows "\<exists>n m1 m2. EVP_EncodeBlock m dst src (of_nat (length bs)) = Some (n, m1) \<and>
    EVP_DecodeBase64 m1 dst n dst n = Some (True, of_nat (length bs), m2) \<and> load_bytes m2 dst (length bs) = Some bs"
proof -
  let ?n = "length (b64 bs)"
  have bs: "length bs < 2 ^ 64" "3 * (?n div 4) \<le> ?n" using assms(4) by (simp_all add: length_b64)
  define m1 where "m1 = put_bytes m dst (b64 bs @ [0])"
  have enc: "EVP_EncodeBlock m dst src (of_nat (length bs)) = Some (of_nat ?n, m1)"
    unfolding m1_def by (rule EVP_EncodeBlock_b64 [OF assms(1) bs(1) assms(2,3)])
  have n: "unat (of_nat ?n :: u64) = ?n" using assms(4) by (intro unat_u64_of_nat) simp
  have "load_bytes m1 dst (length (b64 bs @ [0])) = Some (b64 bs @ [0])" unfolding m1_def by (rule load_put_same)
  from load_bytes_take_drop(1) [OF this, of ?n] have "load_bytes m1 dst ?n = Some (b64 bs)" by simp
  then have "EVP_DecodeBase64 m1 dst (of_nat ?n) dst (of_nat ?n) = Some (True, of_nat (length bs), put_bytes m1 dst bs)"
    using EVP_DecodeBase64_exact [of m1 dst "of_nat ?n" "b64 bs" dst "of_nat ?n"] bs(2) n
    by (simp add: b64_parse_b64 decodable_def load_mapped)
  then show ?thesis using enc load_put_same [of m1 dst bs] by blast
qed

lemma base64_block_round_trip_witness:
  "\<exists>n m1 m2. EVP_EncodeBlock (put_bytes (put_bytes Map.empty 100 [0, 0, 0, 0, 0]) 0 [49]) 100 0 1 = Some (n, m1) \<and>
    EVP_DecodeBase64 m1 100 n 100 n = Some (True, 1, m2) \<and> load_bytes m2 100 1 = Some [49]"
proof -
  let ?m = "put_bytes (put_bytes Map.empty 100 [0, 0, 0, 0, 0]) 0 [49 :: u8]"
  have "load_bytes ?m 0 (length [49 :: u8]) = Some [49 :: u8]" by (rule load_put_same)
  moreover have "mapped ?m 100 (length (b64 [49]) + 1)" by (auto simp: mapped_iff)
  ultimately show ?thesis using base64_block_round_trip [of ?m 0 "[49]" 100] by (simp add: set_eq_iff)
qed

section \<open>The streaming decoder\<close>

definition is_space :: "u8 \<Rightarrow> bool" where
  "is_space c \<longleftrightarrow> c = 32 \<or> c = 9 \<or> c = 13 \<or> c = 10"

text \<open>
  The decoder on characters: \<open>q\<close> are the characters of the group it is in, \<open>e\<close> says that a padded group
  has been seen. The result is the output and the new state.
\<close>

fun dec_chars :: "u8 list \<Rightarrow> bool \<Rightarrow> u8 list \<Rightarrow> (u8 list \<times> u8 list \<times> bool) option" where
  "dec_chars q e [] = Some ([], q, e)"
| "dec_chars q e (c # cs) =
     (if is_space c then dec_chars q e cs
      else if e then None
      else if length q < 3 then dec_chars (q @ [c]) e cs
      else Option.bind (quad_parse (q ! 0) (q ! 1) (q ! 2) c) (\<lambda>bs.
        map_option (\<lambda>(out, st). (bs @ out, st)) (dec_chars [] (length bs < 3) cs)))"

lemma dec_chars_append:
  "dec_chars q e (xs @ ys) =
     Option.bind (dec_chars q e xs) (\<lambda>(out, q, e). map_option (\<lambda>(out', st). (out @ out', st)) (dec_chars q e ys))"
  by (induction q e xs rule: dec_chars.induct)
     (auto simp: option.map_comp bind_map_option comp_def map_option_case split: Option.bind_splits option.splits)

lemma dec_chars_filter: "dec_chars q e cs = dec_chars q e (filter (\<lambda>c. \<not> is_space c) cs)"
  by (induction q e cs rule: dec_chars.induct) (auto split: Option.bind_splits)

lemma dec_chars_end: "\<forall>c \<in> set cs. \<not> is_space c \<Longrightarrow> dec_chars [] True cs = (if cs = [] then Some ([], [], True) else None)"
  by (cases cs) simp_all

text \<open>On characters that are not white space the decoder in its first state accepts the base64 texts.\<close>

lemma dec_chars_parse:
  "\<forall>c \<in> set cs. \<not> is_space c \<Longrightarrow>
     b64_parse cs = (case dec_chars [] False cs of Some (out, [], e) \<Rightarrow> Some out | _ \<Rightarrow> None)"
proof (induction cs rule: b64_parse.induct)
  case (2 c0 c1 c2 c3 cs)
  show ?case
  proof (cases "quad_parse c0 c1 c2 c3")
    case (Some bs)
    show ?thesis
    proof (cases "length bs < 3")
      case True
      then show ?thesis using 2 Some dec_chars_end [of cs] by (auto simp: numeral_eq_Suc)
    next
      case False
      then show ?thesis using 2 Some
        by (auto simp: numeral_eq_Suc split: option.splits list.splits)
    qed
  qed (use 2 in \<open>simp add: numeral_eq_Suc\<close>)
qed simp_all

text \<open>The context holds the group \<open>q\<close> and the flag \<open>e\<close>.\<close>

definition in_group :: "mem \<Rightarrow> EVP_ENCODE_CTX \<Rightarrow> u8 list \<Rightarrow> bool \<Rightarrow> bool" where
  "in_group m ctx q e \<longleftrightarrow> data_used ctx = of_nat (length q) \<and> length q < 4 \<and> eof_seen ctx = e \<and>
     \<not> error_encountered ctx \<and> load_bytes m (enc_data ctx) (length q) = Some q \<and> mapped m (enc_data ctx) 48"

text \<open>The room the output needs: three bytes for each group of four characters that are not white space.\<close>

definition out_room :: "u8 list \<Rightarrow> u8 list \<Rightarrow> nat" where
  "out_room q cs = 3 * ((length q + length (filter (\<lambda>c. \<not> is_space c) cs)) div 4)"

lemma out_room_full: "length q = 3 \<Longrightarrow> \<not> is_space c \<Longrightarrow> out_room q (c # cs) = 3 + out_room [] cs"
proof -
  have "Suc (3 + n) div 4 = Suc (n div 4)" for n :: nat by presburger
  then show "length q = 3 \<Longrightarrow> \<not> is_space c \<Longrightarrow> out_room q (c # cs) = 3 + out_room [] cs"
    by (simp add: out_room_def)
qed

lemma dec_chars_room: "dec_chars q e cs = Some (out, q', e') \<Longrightarrow> length q < 4 \<Longrightarrow> length q' < 4 \<and> length out \<le> out_room q cs"
proof (induction q e cs arbitrary: out rule: dec_chars.induct)
  case (2 q e c cs)
  show ?case
  proof (cases "is_space c \<or> e \<or> length q < 3")
    case True
    then show ?thesis using 2 by (auto simp: out_room_def split: if_splits)
  next
    case False
    then obtain bs o' where bs: "quad_parse (q ! 0) (q ! 1) (q ! 2) c = Some bs" "dec_chars [] (length bs < 3) cs = Some (o', q', e')"
      "out = bs @ o'"
      using 2(4) by (auto split: Option.bind_splits)
    have "length q' < 4 \<and> length o' \<le> out_room [] cs"
      using 2(3) [OF _ _ _ bs(1,2)] False by simp
    moreover have "out_room q (c # cs) = 3 + out_room [] cs"
      by (rule out_room_full) (use False 2(5) in simp_all)
    ultimately show ?thesis using quad_parse_length [OF bs(1)] bs(3) by auto
  qed
qed (simp add: out_room_def)

text \<open>The outcome \<open>r\<close> of feeding characters to the decoder, where \<open>x\<close> is the outcome on byte lists.\<close>

definition fed :: "mem \<Rightarrow> EVP_ENCODE_CTX \<Rightarrow> addr \<Rightarrow> nat \<Rightarrow> u64 \<Rightarrow> (u8 list \<times> u8 list \<times> bool) option \<Rightarrow>
    (u64 option \<times> EVP_ENCODE_CTX \<times> mem) option \<Rightarrow> bool" where
  "fed m ctx out k n x r \<longleftrightarrow>
     (\<exists>v ctx' m'. r = Some (v, ctx', m') \<and> enc_data ctx' = enc_data ctx \<and>
        only_changes m m' (region out k \<union> region (enc_data ctx) 48) \<and>
        (case x of
           None \<Rightarrow> v = None \<and> error_encountered ctx'
         | Some (bs, q, e) \<Rightarrow> v = Some (n + of_nat (length bs)) \<and> in_group m' ctx' q e \<and>
             load_bytes m' out (length bs) = Some bs))"

lemma fed_weaken:
  assumes "fed m1 ctx1 out k1 n x r" "only_changes m m1 A" "enc_data ctx1 = enc_data ctx"
    and "A \<subseteq> region out k \<union> region (enc_data ctx) 48" "k1 \<le> k"
  shows "fed m ctx out k n x r"
proof -
  obtain v ctx' m' where r: "r = Some (v, ctx', m')" "enc_data ctx' = enc_data ctx"
    "only_changes m1 m' (region out k1 \<union> region (enc_data ctx) 48)"
    "case x of None \<Rightarrow> v = None \<and> error_encountered ctx'
     | Some (bs, q, e) \<Rightarrow> v = Some (n + of_nat (length bs)) \<and> in_group m' ctx' q e \<and> load_bytes m' out (length bs) = Some bs"
    using assms(1,3) by (auto simp: fed_def)
  have "only_changes m m' (region out k \<union> region (enc_data ctx) 48)"
    by (rule only_changes_trans [OF assms(2) r(3) assms(4)]) (use assms(5) region_prefix [of k1 k out] in blast)
  then show ?thesis using r by (auto simp: fed_def)
qed

text \<open>One more character in a group that is not full yet.\<close>

lemma store_char:
  assumes "in_group m ctx q False" "length q < 3"
  obtains m1 where "store_bytes m (enc_data ctx + uint (data_used ctx)) [c] = Some m1"
    "in_group m1 (ctx\<lparr>data_used := data_used ctx + 1\<rparr>) (q @ [c]) False" "only_changes m m1 (region (enc_data ctx) 48)"
    "data_used ctx < 48" "data_used ctx + 1 \<noteq> 4"
proof -
  let ?d = "enc_data ctx"
  have q: "data_used ctx = of_nat (length q)" "load_bytes m ?d (length q) = Some q" "mapped m ?d 48" "length q < 4"
    using assms(1) by (auto simp: in_group_def)
  have u: "unat (data_used ctx) = length q" "uint (data_used ctx) = int (length q)"
    using q(1,4) u32_48(1) [of "length q"] by (simp_all add: uint_nat)
  define m1 where "m1 = m(?d + int (length q) \<mapsto> c)"
  have room: "mapped m (?d + int (length q)) 1" by (rule mapped_sub [OF q(3)]) (use q(4) in simp_all)
  then have st: "store_bytes m (?d + uint (data_used ctx)) [c] = Some m1"
    by (simp add: store_bytes_def u m1_def)
  have "load_bytes m1 ?d (length q) = Some q"
    using q(2) unfolding m1_def by (subst load_bytes_cong [of _ _ _ m]) auto
  then have "load_bytes m1 ?d (length q + 1) = Some (q @ [c])"
    unfolding load_bytes_add by (simp add: m1_def)
  then have "load_bytes m1 ?d (length (q @ [c])) = Some (q @ [c])" by simp
  moreover have "data_used ctx + 1 = of_nat (length (q @ [c]))" using q(1) by simp
  moreover have "mapped m1 ?d 48" using mapped_put_bytes [OF q(3), of "?d + int (length q)" "[c]"] by (simp add: m1_def)
  ultimately have "in_group m1 (ctx\<lparr>data_used := data_used ctx + 1\<rparr>) (q @ [c]) False"
    using assms by (simp add: in_group_def)
  moreover have "only_changes m m1 (region ?d 48)"
    using only_changes_put [of m "?d + int (length q)" "[c]" "region ?d 48"] room q(4)
      region_subset [of ?d "?d + int (length q)" 1 48] by (simp add: m1_def)
  moreover have "data_used ctx < 48" using u q(4) by (simp add: word_less_nat_alt)
  moreover have "data_used ctx + 1 \<noteq> 4"
  proof -
    have "unat (data_used ctx + 1) = length q + 1" using u assms(2) by (simp add: unat_word_ariths)
    then show ?thesis using assms(2) by auto
  qed
  ultimately show ?thesis using that st by blast
qed

text \<open>The character that completes a group.\<close>

lemma store_last:
  assumes "in_group m ctx q False" "length q = 3"
  obtains m1 where "store_bytes m (enc_data ctx + uint (data_used ctx)) [c] = Some m1"
    "load_bytes m1 (enc_data ctx) 4 = Some [q ! 0, q ! 1, q ! 2, c]" "only_changes m m1 (region (enc_data ctx) 48)"
    "data_used ctx = 3"
proof -
  let ?d = "enc_data ctx"
  have q: "data_used ctx = 3" "load_bytes m ?d 3 = Some q" "mapped m ?d 48"
    using assms by (auto simp: in_group_def)
  have room: "mapped m (?d + 3) 1" by (rule mapped_sub [OF q(3)]) simp_all
  define m1 where "m1 = m(?d + 3 \<mapsto> c)"
  have "load_bytes m1 ?d 3 = Some q"
    using q(2) unfolding m1_def by (subst load_bytes_cong [of _ _ _ m]) auto
  then have "load_bytes m1 ?d (3 + 1) = Some (q @ [c])"
    unfolding load_bytes_add by (simp add: m1_def)
  moreover have "q @ [c] = [q ! 0, q ! 1, q ! 2, c]"
    using assms(2) by (simp add: list_eq_iff_nth_eq nth_append less_Suc_eq numeral_eq_Suc)
  ultimately have "load_bytes m1 ?d 4 = Some [q ! 0, q ! 1, q ! 2, c]" by simp
  moreover have "only_changes m m1 (region ?d 48)"
    using only_changes_put [of m "?d + 3" "[c]" "region ?d 48"] room region_subset [of ?d "?d + 3" 1 48] by (simp add: m1_def)
  moreover have "store_bytes m (?d + uint (data_used ctx)) [c] = Some m1"
    using room q(1) by (simp add: store_bytes_def m1_def)
  ultimately show ?thesis using that q(1) by blast
qed

text \<open>The room and the places of the buffers of a call that reads \<open>cs\<close>.\<close>

definition feedable :: "mem \<Rightarrow> EVP_ENCODE_CTX \<Rightarrow> addr \<Rightarrow> nat \<Rightarrow> addr \<Rightarrow> u8 list \<Rightarrow> bool" where
  "feedable m ctx out k inp cs \<longleftrightarrow> load_bytes m inp (length cs) = Some cs \<and> mapped m out k \<and>
     region out k \<inter> region (enc_data ctx) 48 = {} \<and>
     region inp (length cs) \<inter> (region out k \<union> region (enc_data ctx) 48) = {}"

lemma feedable_next:
  assumes "feedable m ctx out k inp (c # cs)" "only_changes m m' (region out k \<union> region (enc_data ctx) 48)"
    and "enc_data ctx' = enc_data ctx" "j + k' \<le> k"
  shows "feedable m' ctx' (out + int j) k' (inp + 1) cs"
proof -
  have sub: "region (out + int j) k' \<subseteq> region out k" "region (inp + 1) (length cs) \<subseteq> region inp (length (c # cs))"
    using assms(4) by (auto intro!: region_subset)
  have ok: "load_bytes m inp (length (c # cs)) = Some (c # cs)" "mapped m out k" "region out k \<inter> region (enc_data ctx) 48 = {}"
    "region inp (length (c # cs)) \<inter> (region out k \<union> region (enc_data ctx) 48) = {}"
    using assms(1) unfolding feedable_def by blast+
  have apart: "region (inp + 1) (length cs) \<inter> (region out k \<union> region (enc_data ctx) 48) = {}"
    using ok(4) sub(2) by blast
  have "load_bytes m (inp + 1) (length cs) = Some cs"
    using load_Cons [OF ok(1)] by simp
  then have "load_bytes m' (inp + 1) (length cs) = Some cs"
    using only_changes_load [OF assms(2) apart] by simp
  moreover have "mapped m' (out + int j) k'"
    unfolding only_changes_mapped [OF assms(2)] by (rule mapped_sub [OF ok(2)]) (use assms(4) in simp_all)
  moreover have "region (out + int j) k' \<inter> region (enc_data ctx) 48 = {}"
    using ok(3) sub(1) by blast
  moreover have "region (inp + 1) (length cs) \<inter> (region (out + int j) k' \<union> region (enc_data ctx) 48) = {}"
    using apart sub(1) by blast
  ultimately show ?thesis
    unfolding feedable_def assms(3) by simp
qed

lemma feedable_char: "feedable m ctx out k inp (c # cs) \<Longrightarrow> m inp = Some c"
  using load_Cons [of m inp "length (c # cs)" c cs] by (simp add: feedable_def)

lemma out_room_simps [simp]:
  "is_space c \<Longrightarrow> out_room q (c # cs) = out_room q cs"
  "\<not> is_space c \<Longrightarrow> out_room (q @ [c]) cs = out_room q (c # cs)"
  by (simp_all add: out_room_def)

text \<open>The output of one group in front of the output of the rest.\<close>

lemma fed_append:
  assumes rest: "fed m2 ctx2 (out + int (length bs)) k (n + of_nat (length bs)) x r"
    and bs: "load_bytes m2 out (length bs) = Some bs"
    and ch: "only_changes m m2 (region out j \<union> region (enc_data ctx) 48)"
    and ctx: "enc_data ctx2 = enc_data ctx" "length bs + k \<le> j" "region out j \<inter> region (enc_data ctx) 48 = {}"
  shows "fed m ctx out j n (map_option (\<lambda>(bs', st). (bs @ bs', st)) x) r"
proof -
  let ?d = "region (enc_data ctx) 48" and ?o = "out + int (length bs)"
  obtain v ctx' m' where r: "r = Some (v, ctx', m')" "enc_data ctx' = enc_data ctx" "only_changes m2 m' (region ?o k \<union> ?d)"
    "case x of None \<Rightarrow> v = None \<and> error_encountered ctx'
     | Some (bs', q, e) \<Rightarrow> v = Some (n + of_nat (length bs) + of_nat (length bs')) \<and> in_group m' ctx' q e \<and>
         load_bytes m' ?o (length bs') = Some bs'"
    using rest ctx(1) by (auto simp: fed_def)
  have sub: "region ?o k \<subseteq> region out j" "region out (length bs) \<subseteq> region out j" "region out (length bs) \<inter> region ?o k = {}"
    using ctx(2) by auto
  then have "region out (length bs) \<inter> (region ?o k \<union> ?d) = {}" using ctx(3) by blast
  then have "load_bytes m' out (length bs) = Some bs" using only_changes_load [OF r(3)] bs by simp
  then have "load_bytes m' ?o (length bs') = Some bs' \<Longrightarrow> load_bytes m' out (length (bs @ bs')) = Some (bs @ bs')" for bs'
    by (simp add: load_bytes_add)
  moreover have "only_changes m m' (region out j \<union> ?d)"
    by (rule only_changes_trans [OF ch r(3)]) (use sub in blast)+
  ultimately show ?thesis using r(1,2,4) by (cases x) (auto simp: fed_def add.assoc)
qed

text \<open>A full group, with the rest of the input treated by the induction hypothesis of the next lemma.\<close>

lemma feed_group:
  assumes g: "in_group m ctx q False" "length q = 3" "\<not> is_space c"
    and ok: "feedable m ctx out (3 + k) inp (c # cs)"
    and rest: "\<And>m2 ctx2 bs. in_group m2 ctx2 [] (length bs < 3) \<Longrightarrow> feedable m2 ctx2 (out + int (length bs)) k (inp + 1) cs \<Longrightarrow>
      quad_parse (q ! 0) (q ! 1) (q ! 2) c = Some bs \<Longrightarrow>
      fed m2 ctx2 (out + int (length bs)) k (n + of_nat (length bs)) (dec_chars [] (length bs < 3) cs)
        (decode_chars m2 ctx2 (out + int (length bs)) (inp + 1) (length cs) (n + of_nat (length bs)))"
  shows "fed m ctx out (3 + k) n (dec_chars q False (c # cs)) (decode_chars m ctx out inp (length (c # cs)) n)"
proof -
  let ?d = "enc_data ctx" and ?A = "region out (3 + k) \<union> region (enc_data ctx) 48"
  obtain m1 where m1: "store_bytes m (?d + uint (data_used ctx)) [c] = Some m1" "load_bytes m1 ?d 4 = Some [q ! 0, q ! 1, q ! 2, c]"
    "only_changes m m1 (region ?d 48)" "data_used ctx = 3"
    by (rule store_last [OF g(1,2)])
  have st: "eof_seen ctx = False" "\<not> error_encountered ctx" "mapped m ?d 48" using g(1) by (auto simp: in_group_def)
  have room: "mapped m1 out (3 + k)" using ok only_changes_mapped [OF m1(3)] by (simp add: feedable_def)
  let ?q = "quad_parse (q ! 0) (q ! 1) (q ! 2) c"
  have sz: "length bs \<in> {1, 2, 3}" "mapped m1 out (length bs)" if "?q = Some bs" for bs
    using quad_parse_length [OF that] mapped_prefix [OF room, of "length bs"] by auto
  have quad: "base64_decode_quad m1 out ?d =
    Some (case ?q of None \<Rightarrow> (None, m1) | Some bs \<Rightarrow> (Some (of_nat (length bs)), put_bytes m1 out bs))"
    by (rule decode_quad [OF m1(2) sz(2)])
  have sp: "\<not> (c = 32 \<or> c = 9 \<or> c = 13 \<or> c = 10)" using g(3) by (simp add: is_space_def)
  have ch1: "only_changes m m1 ?A" by (rule only_changes_trans [OF only_changes_refl m1(3)]) auto
  show ?thesis
  proof (cases ?q)
    case None
    then show ?thesis
      using feedable_char [OF ok] sp st m1 quad ch1 g(2,3) by (simp add: fed_def)
  next
    case (Some bs)
    define m2 ctx2 where "m2 = put_bytes m1 out bs" and "ctx2 = ctx\<lparr>data_used := 0, eof_seen := length bs < 3\<rparr>"
    have three: "(of_nat (length bs) :: u64) < 3 \<longleftrightarrow> length bs < 3" "uint (of_nat (length bs) :: u64) = int (length bs)"
      using sz(1) [OF Some] by auto
    have sub: "region out (length bs) \<subseteq> ?A" using sz(1) [OF Some] region_prefix [of "length bs" "3 + k" out] by auto
    have ch: "only_changes m m2 ?A"
      unfolding m2_def by (rule only_changes_trans [OF ch1 only_changes_put [OF sz(2) [OF Some] order_refl]]) (use sub in auto)
    have g2: "in_group m2 ctx2 [] (length bs < 3)"
      using st only_changes_mapped [OF ch] by (simp add: in_group_def ctx2_def)
    have ok2: "feedable m2 ctx2 (out + int (length bs)) k (inp + 1) cs"
      by (rule feedable_next [OF ok ch]) (use sz(1) [OF Some] in \<open>auto simp: ctx2_def\<close>)
    have "decode_chars m ctx out inp (length (c # cs)) n =
      decode_chars m2 ctx2 (out + int (length bs)) (inp + 1) (length cs) (n + of_nat (length bs))"
      using feedable_char [OF ok] sp st m1 quad Some three by (simp add: m2_def ctx2_def)
    moreover have "fed m ctx out (3 + k) n (dec_chars q False (c # cs))
      (decode_chars m2 ctx2 (out + int (length bs)) (inp + 1) (length cs) (n + of_nat (length bs)))"
    proof -
      have "dec_chars q False (c # cs) = map_option (\<lambda>(o', st). (bs @ o', st)) (dec_chars [] (length bs < 3) cs)"
        using g(2,3) Some by simp
      moreover have "load_bytes m2 out (length bs) = Some bs" unfolding m2_def by (rule load_put_same)
      ultimately show ?thesis
        using fed_append [OF rest [OF g2 ok2 Some] _ ch] ok sz(1) [OF Some] by (auto simp: ctx2_def feedable_def)
    qed
    ultimately show ?thesis by simp
  qed
qed

lemma decode_chars_b64:
  assumes "in_group m ctx q e" "feedable m ctx out (out_room q cs) inp cs"
  shows "fed m ctx out (out_room q cs) n (dec_chars q e cs) (decode_chars m ctx out inp (length cs) n)"
  using assms
proof (induction cs arbitrary: m ctx q e out inp n)
  case Nil
  then show ?case by (simp add: fed_def)
next
  case (Cons c cs)
  have c: "m inp = Some c" by (rule feedable_char [OF Cons.prems(2)])
  have next0: "feedable m' ctx' out (out_room q' cs) (inp + 1) cs"
    if "only_changes m m' (region out (out_room q (c # cs)) \<union> region (enc_data ctx) 48)" "enc_data ctx' = enc_data ctx"
      "out_room q' cs \<le> out_room q (c # cs)" for m' ctx' q'
    using feedable_next [OF Cons.prems(2) that(1,2), of 0] that(3) by simp
  consider (space) "is_space c" | (ended) "\<not> is_space c" "e" | (more) "\<not> is_space c" "\<not> e" "length q < 3"
    | (full) "\<not> is_space c" "\<not> e" "length q = 3"
    using Cons.prems(1) by (force simp: in_group_def)
  then show ?case
  proof cases
    case space
    then show ?thesis
      using Cons.IH [OF Cons.prems(1) next0 [of m ctx q]] c by (simp add: is_space_def)
  next
    case ended
    then show ?thesis
      using Cons.prems(1) c by (auto simp: fed_def in_group_def is_space_def)
  next
    case more
    then have g: "in_group m ctx q False" using Cons.prems(1) by simp
    obtain m1 where m1: "store_bytes m (enc_data ctx + uint (data_used ctx)) [c] = Some m1"
      "in_group m1 (ctx\<lparr>data_used := data_used ctx + 1\<rparr>) (q @ [c]) False" "only_changes m m1 (region (enc_data ctx) 48)"
      "data_used ctx < 48" "data_used ctx + 1 \<noteq> 4"
      by (rule store_char [OF g more(3)])
    have ch: "only_changes m m1 (region out (out_room q (c # cs)) \<union> region (enc_data ctx) 48)"
      by (rule only_changes_trans [OF only_changes_refl m1(3)]) auto
    have "fed m1 (ctx\<lparr>data_used := data_used ctx + 1\<rparr>) out (out_room (q @ [c]) cs) n (dec_chars (q @ [c]) False cs)
      (decode_chars m1 (ctx\<lparr>data_used := data_used ctx + 1\<rparr>) out (inp + 1) (length cs) n)"
      by (rule Cons.IH [OF m1(2) next0 [OF ch]]) (use more(1) in simp_all)
    from fed_weaken [OF this m1(3)] have "fed m ctx out (out_room q (c # cs)) n (dec_chars (q @ [c]) False cs)
      (decode_chars m1 (ctx\<lparr>data_used := data_used ctx + 1\<rparr>) out (inp + 1) (length cs) n)"
      using more(1) by simp
    then show ?thesis
      using more c m1(1,4,5) Cons.prems(1) by (auto simp: is_space_def in_group_def)
  next
    case full
    have g: "in_group m ctx q False" using Cons.prems(1) full(2) by simp
    have room: "out_room q (c # cs) = 3 + out_room [] cs" by (rule out_room_full [OF full(3,1)])
    show ?thesis
      unfolding room using feed_group [OF g full(3,1) Cons.prems(2) [unfolded room]] Cons.IH full(2) by simp
  qed
qed

text \<open>A call of \<open>EVP_DecodeUpdate\<close> on characters for which the output stays below \<open>INT_MAX\<close>.\<close>

lemma EVP_DecodeUpdate_b64:
  assumes g: "in_group m ctx q e" and ok: "feedable m ctx out (out_room q cs) inp cs"
    and small: "out_room q cs \<le> 0x7FFFFFFF" and n: "unat in_len = length cs"
  obtains s l ctx' m' where "EVP_DecodeUpdate m ctx out inp in_len = Some (s, l, ctx', m')"
    "enc_data ctx' = enc_data ctx" "only_changes m m' (region out (out_room q cs) \<union> region (enc_data ctx) 48)"
    "case dec_chars q e cs of
       None \<Rightarrow> s = - 1
     | Some (bs, q, e) \<Rightarrow> s = (if e then 0 else 1) \<and> l = int (length bs) \<and> in_group m' ctx' q e \<and>
         load_bytes m' out (length bs) = Some bs"
proof -
  obtain v ctx' m' where r: "decode_chars m ctx out inp (unat in_len) 0 = Some (v, ctx', m')" "enc_data ctx' = enc_data ctx"
    "only_changes m m' (region out (out_room q cs) \<union> region (enc_data ctx) 48)"
    "case dec_chars q e cs of None \<Rightarrow> v = None \<and> error_encountered ctx'
     | Some (bs, q, e) \<Rightarrow> v = Some (of_nat (length bs)) \<and> in_group m' ctx' q e \<and> load_bytes m' out (length bs) = Some bs"
    using decode_chars_b64 [OF g ok, of 0, unfolded fed_def add_0] n by auto
  have err: "\<not> error_encountered ctx" "length q < 4" using g by (simp_all add: in_group_def)
  show ?thesis
  proof (cases "dec_chars q e cs")
    case None
    then show ?thesis using that [of "- 1" 0 ctx' m'] r err by (simp add: EVP_DecodeUpdate_def)
  next
    case (Some st)
    obtain bs q' e' where st: "dec_chars q e cs = Some (bs, q', e')" using Some by (cases st) auto
    have len: "length bs \<le> 0x7FFFFFFF" using dec_chars_room [OF st err(2)] small by simp
    then have u: "unat (of_nat (length bs) :: u64) = length bs" by (intro unat_u64_of_nat) simp
    have big: "unat (0x7FFFFFFF :: u64) = 0x7FFFFFFF" by simp
    have "\<not> (0x7FFFFFFF :: u64) < of_nat (length bs)" unfolding word_less_nat_alt u big using len by linarith
    moreover have "uint (of_nat (length bs) :: u64) = int (length bs)" unfolding uint_nat u ..
    moreover have "eof_seen ctx' = e'" using r(4) st by (simp add: in_group_def)
    ultimately show ?thesis
      using that [of "if e' then 0 else 1" "int (length bs)" ctx' m'] r err st by (simp add: EVP_DecodeUpdate_def)
  qed
qed

text \<open>
  A client that decodes a sequence of pieces into one buffer and stops at the first error. The result is
  the number of bytes, or nothing for an error.
\<close>

primrec decode_chunks :: "mem \<Rightarrow> EVP_ENCODE_CTX \<Rightarrow> addr \<Rightarrow> (addr \<times> u64) list \<Rightarrow> (int option \<times> EVP_ENCODE_CTX \<times> mem) option" where
  "decode_chunks m ctx out [] = Some (Some 0, ctx, m)"
| "decode_chunks m ctx out (c # cs) =
     Option.bind (EVP_DecodeUpdate m ctx out (fst c) (snd c)) (\<lambda>(s, k, ctx, m).
       if s < 0 then Some (None, ctx, m)
       else Option.bind (decode_chunks m ctx (out + k) cs) (\<lambda>(j, ctx, m). Some (map_option ((+) k) j, ctx, m)))"

definition decode_stream :: "mem \<Rightarrow> EVP_ENCODE_CTX \<Rightarrow> addr \<Rightarrow> (addr \<times> u64) list \<Rightarrow> (int option \<times> EVP_ENCODE_CTX \<times> mem) option" where
  "decode_stream m ctx out cs =
     Option.bind (EVP_DecodeInit m ctx) (\<lambda>(ctx, m).
     Option.bind (decode_chunks m ctx out cs) (\<lambda>(k, ctx, m).
       Some (if fst (EVP_DecodeFinal ctx) < 0 then None else k, ctx, m)))"

lemma dec_chars_left: "dec_chars q e cs = Some (bs, q', e') \<Longrightarrow> length q < 4 \<Longrightarrow> length bs + out_room q' cs' \<le> out_room q (cs @ cs')"
proof (induction q e cs arbitrary: bs rule: dec_chars.induct)
  case (2 q e c cs)
  show ?case
  proof (cases "is_space c \<or> e \<or> length q < 3")
    case True
    then show ?thesis using 2 by (auto split: if_splits)
  next
    case False
    then obtain b b' where b: "quad_parse (q ! 0) (q ! 1) (q ! 2) c = Some b" "dec_chars [] (length b < 3) cs = Some (b', q', e')"
      "bs = b @ b'"
      using 2(4) by (auto split: Option.bind_splits)
    have "length b' + out_room q' cs' \<le> out_room [] (cs @ cs')"
      using 2(3) [OF _ _ _ b(1,2)] False by simp
    moreover have "out_room q ((c # cs) @ cs') = 3 + out_room [] (cs @ cs')"
      using False 2(5) out_room_full [of q c "cs @ cs'"] by simp
    ultimately show ?thesis using quad_parse_length [OF b(1)] b(3) by auto
  qed
qed simp

text \<open>What a run over several pieces leaves behind; \<open>x\<close> is the outcome on the whole text.\<close>

definition streamed :: "mem \<Rightarrow> EVP_ENCODE_CTX \<Rightarrow> addr \<Rightarrow> nat \<Rightarrow> (u8 list \<times> u8 list \<times> bool) option \<Rightarrow>
    (int option \<times> EVP_ENCODE_CTX \<times> mem) option \<Rightarrow> bool" where
  "streamed m ctx out k x r \<longleftrightarrow>
     (\<exists>v ctx' m'. r = Some (v, ctx', m') \<and> only_changes m m' (region out k \<union> region (enc_data ctx) 48) \<and>
        (case x of
           None \<Rightarrow> v = None
         | Some (bs, q, e) \<Rightarrow> v = Some (int (length bs)) \<and> in_group m' ctx' q e \<and> load_bytes m' out (length bs) = Some bs))"

lemma streamed_append:
  assumes rest: "streamed m1 ctx1 (out + int (length bs)) k x r" and bs: "load_bytes m1 out (length bs) = Some bs"
    and ch: "only_changes m m1 (region out j \<union> region (enc_data ctx) 48)"
    and ctx: "enc_data ctx1 = enc_data ctx" "length bs + k \<le> j" "region out j \<inter> region (enc_data ctx) 48 = {}"
  shows "streamed m ctx out j (map_option (\<lambda>(bs', st). (bs @ bs', st)) x)
    (Option.bind r (\<lambda>(i, ctx, m). Some (map_option ((+) (int (length bs))) i, ctx, m)))"
proof -
  let ?d = "region (enc_data ctx) 48" and ?o = "out + int (length bs)"
  obtain v ctx' m' where r: "r = Some (v, ctx', m')" "only_changes m1 m' (region ?o k \<union> ?d)"
    "case x of None \<Rightarrow> v = None
     | Some (bs', q, e) \<Rightarrow> v = Some (int (length bs')) \<and> in_group m' ctx' q e \<and> load_bytes m' ?o (length bs') = Some bs'"
    using rest ctx(1) by (auto simp: streamed_def)
  have sub: "region ?o k \<subseteq> region out j" "region out (length bs) \<subseteq> region out j" "region out (length bs) \<inter> region ?o k = {}"
    using ctx(2) by auto
  then have "region out (length bs) \<inter> (region ?o k \<union> ?d) = {}" using ctx(3) by blast
  then have "load_bytes m' out (length bs) = Some bs" using only_changes_load [OF r(2)] bs by simp
  then have "load_bytes m' ?o (length bs') = Some bs' \<Longrightarrow> load_bytes m' out (length (bs @ bs')) = Some (bs @ bs')" for bs'
    by (simp add: load_bytes_add)
  moreover have "only_changes m m' (region out j \<union> ?d)"
    by (rule only_changes_trans [OF ch r(2)]) (use sub in blast)+
  ultimately show ?thesis using r(1,3) by (cases x) (auto simp: streamed_def)
qed

lemma decode_chunks_b64:
  assumes "in_group m ctx q e" "out_room q (concat css) \<le> 0x7FFFFFFF" "mapped m out (out_room q (concat css))"
    and "region out (out_room q (concat css)) \<inter> region (enc_data ctx) 48 = {}"
    and "region out (out_room q (concat css)) \<union> region (enc_data ctx) 48 \<subseteq> A" "chunks_hold m A cs css"
  shows "streamed m ctx out (out_room q (concat css)) (dec_chars q e (concat css)) (decode_chunks m ctx out cs)"
  using assms
proof (induction cs arbitrary: m ctx q e out css)
  case Nil
  then show ?case by (simp add: streamed_def)
next
  case (Cons p ps)
  obtain cs rest where css: "css = cs # rest" and cs: "load_bytes m (fst p) (length cs) = Some cs" "unat (snd p) = length cs"
    "region (fst p) (length cs) \<inter> A = {}" "chunks_hold m A ps rest"
    using Cons.prems(6) by (auto simp: chunks_hold_Cons)
  let ?d = "region (enc_data ctx) 48" and ?K = "out_room q (concat css)"
  have q4: "length q < 4" using Cons.prems(1) by (simp add: in_group_def)
  have K: "out_room q cs \<le> ?K" unfolding css out_room_def by (simp add: div_le_mono)
  have sub: "region out (out_room q cs) \<subseteq> region out ?K" by (rule region_prefix [OF K])
  have ok: "feedable m ctx out (out_room q cs) (fst p) cs"
    unfolding feedable_def using cs(1,3) Cons.prems(4,5) sub mapped_prefix [OF Cons.prems(3) K] by blast
  obtain s l ctx1 m1 where up: "EVP_DecodeUpdate m ctx out (fst p) (snd p) = Some (s, l, ctx1, m1)"
    "enc_data ctx1 = enc_data ctx" "only_changes m m1 (region out (out_room q cs) \<union> ?d)"
    "case dec_chars q e cs of None \<Rightarrow> s = - 1
     | Some (bs, q, e) \<Rightarrow> s = (if e then 0 else 1) \<and> l = int (length bs) \<and> in_group m1 ctx1 q e \<and>
         load_bytes m1 out (length bs) = Some bs"
    by (rule EVP_DecodeUpdate_b64 [OF Cons.prems(1) ok _ cs(2)]) (use Cons.prems(2) K in simp)
  have ch: "only_changes m m1 (region out ?K \<union> ?d)"
    by (rule only_changes_trans [OF only_changes_refl up(3)]) (use sub in auto)
  show ?case
  proof (cases "dec_chars q e cs")
    case None
    then show ?thesis using up(1,4) ch by (simp add: streamed_def css dec_chars_append)
  next
    case (Some st)
    obtain bs q1 e1 where st: "dec_chars q e cs = Some (bs, q1, e1)" using Some by (cases st) auto
    let ?k = "out_room q1 (concat rest)" and ?o = "out + int (length bs)"
    have left: "length bs + ?k \<le> ?K" unfolding css using dec_chars_left [OF st q4, of "concat rest"] by simp
    have r: "region ?o ?k \<subseteq> region out ?K" using left by (intro region_subset) simp_all
    have up1: "in_group m1 ctx1 q1 e1" "load_bytes m1 out (length bs) = Some bs" "\<not> s < 0" "l = int (length bs)"
      using up(4) st by auto
    have room: "mapped m1 ?o ?k"
      unfolding only_changes_mapped [OF ch] by (rule mapped_sub [OF Cons.prems(3)]) (use left in simp_all)
    have "streamed m1 ctx1 ?o ?k (dec_chars q1 e1 (concat rest)) (decode_chunks m1 ctx1 ?o ps)"
    proof (rule Cons.IH [OF up1(1) _ room _ _ chunks_hold_step [OF cs(4) ch Cons.prems(5)]])
      show "?k \<le> 0x7FFFFFFF" using left Cons.prems(2) by linarith
      show "region ?o ?k \<inter> region (enc_data ctx1) 48 = {}" using r Cons.prems(4) unfolding up(2) by blast
      show "region ?o ?k \<union> region (enc_data ctx1) 48 \<subseteq> A" using r Cons.prems(5) unfolding up(2) by blast
    qed
    from streamed_append [OF this up1(2) ch up(2) left Cons.prems(4)] show ?thesis
      using up(1) up1(3,4) st by (simp add: css dec_chars_append)
  qed
qed

text \<open>C39: Decoding a text through \<open>EVP_DecodeInit\<close>, calls of \<open>EVP_DecodeUpdate\<close> up to the first error and
  \<open>EVP_DecodeFinal\<close> succeeds exactly when the text without its white space is a base64 text, and then the
  output buffer holds the decoded bytes, however the text is cut into calls. In either case nothing but
  the output buffer and the array of the context changes.
\<close>

theorem decode_stream_exact:
  assumes "mapped m out (out_room [] (concat css))" "mapped m (enc_data ctx) 48"
    and "region out (out_room [] (concat css)) \<inter> region (enc_data ctx) 48 = {}"
    and "chunks_hold m (region out (out_room [] (concat css)) \<union> region (enc_data ctx) 48) cs css"
    and "out_room [] (concat css) \<le> 0x7FFFFFFF"
  shows "\<exists>ctx' m'. decode_stream m ctx out cs =
      Some (map_option (\<lambda>bs. int (length bs)) (b64_parse (filter (\<lambda>c. \<not> is_space c) (concat css))), ctx', m') \<and>
    (\<forall>bs. b64_parse (filter (\<lambda>c. \<not> is_space c) (concat css)) = Some bs \<longrightarrow> load_bytes m' out (length bs) = Some bs) \<and>
    only_changes m m' (region out (out_room [] (concat css)) \<union> region (enc_data ctx) 48)"
proof -
  let ?d = "enc_data ctx" and ?cs = "concat css" and ?K = "out_room [] (concat css)"
  define m0 ctx0 where "m0 = put_bytes m ?d (replicate 48 0)"
    and "ctx0 = ctx\<lparr>data_used := 0, eof_seen := False, error_encountered := False\<rparr>"
  have init: "EVP_DecodeInit m ctx = Some (ctx0, m0)" and ch0: "only_changes m m0 (region ?d 48)" and d0: "enc_data ctx0 = ?d"
    using assms(2) by (auto simp: EVP_DecodeInit_def store_bytes_def m0_def ctx0_def intro!: only_changes_put)
  have g: "in_group m0 ctx0 [] False"
    using assms(2) only_changes_mapped [OF ch0] by (simp add: in_group_def ctx0_def)
  have "streamed m0 ctx0 out ?K (dec_chars [] False ?cs) (decode_chunks m0 ctx0 out cs)"
    by (rule decode_chunks_b64 [OF g assms(5) _ _ _ chunks_hold_step [OF assms(4) ch0]])
       (use assms(1,3) only_changes_mapped [OF ch0] d0 in simp_all)
  then obtain v ctx' m' where r: "decode_chunks m0 ctx0 out cs = Some (v, ctx', m')" "only_changes m0 m' (region out ?K \<union> region ?d 48)"
    "case dec_chars [] False ?cs of None \<Rightarrow> v = None
     | Some (bs, q, e) \<Rightarrow> v = Some (int (length bs)) \<and> in_group m' ctx' q e \<and> load_bytes m' out (length bs) = Some bs"
    by (auto simp: streamed_def d0)
  have parse: "b64_parse (filter (\<lambda>c. \<not> is_space c) ?cs) = (case dec_chars [] False ?cs of Some (bs, [], e) \<Rightarrow> Some bs | _ \<Rightarrow> None)"
    by (subst dec_chars_filter) (rule dec_chars_parse, simp)
  have ch: "only_changes m m' (region out ?K \<union> region ?d 48)"
    by (rule only_changes_trans [OF ch0 r(2)]) auto
  show ?thesis
  proof (cases "dec_chars [] False ?cs")
    case None
    then show ?thesis using init r(1,3) ch parse by (auto simp: decode_stream_def)
  next
    case (Some st)
    obtain bs q e where st: "dec_chars [] False ?cs = Some (bs, q, e)" using Some by (cases st) auto
    then have q: "in_group m' ctx' q e" "v = Some (int (length bs))" "load_bytes m' out (length bs) = Some bs" using r(3) by auto
    have "data_used ctx' = 0 \<longleftrightarrow> q = []"
      using q(1) u32_48(1) [of "length q"] by (auto simp: in_group_def simp flip: unat_eq_0)
    then have "fst (EVP_DecodeFinal ctx') < 0 \<longleftrightarrow> q \<noteq> []"
      using q(1) by (simp add: EVP_DecodeFinal_def in_group_def)
    then show ?thesis using init r(1) q(2,3) ch parse st by (cases q) (auto simp: decode_stream_def)
  qed
qed

lemma decode_stream_exact_witness:
  "\<exists>ctx' m'. decode_stream (put_bytes (put_bytes (put_bytes Map.empty 100 (replicate 48 0)) 200 (replicate 3 0)) 300 [84, 87, 10, 69, 61])
      \<lparr>data_used = 0, enc_data = 100, eof_seen = False, error_encountered = False\<rparr> 200 [(300, 2), (302, 3)] = Some (Some 2, ctx', m') \<and>
    load_bytes m' 200 2 = Some [77, 97]"
proof -
  let ?m = "put_bytes (put_bytes (put_bytes Map.empty 100 (replicate 48 0)) 200 (replicate 3 0)) 300 [84, 87, 10, 69, 61 :: u8]"
  let ?ctx = "\<lparr>data_used = 0, enc_data = 100, eof_seen = False, error_encountered = False\<rparr>"
  have parse: "b64_parse (filter (\<lambda>c. \<not> is_space c) (concat [[84, 87], [10, 69, 61]])) = Some [77, 97]"
    and room: "out_room [] (concat [[84, 87], [10, 69, 61]]) = 3" by code_simp+
  have "load_bytes ?m 300 (Suc (Suc 0)) = Some [84, 87]" "load_bytes ?m 302 (Suc (Suc (Suc 0))) = Some [10, 69, 61]"
    by (simp_all add: load_bytes_eq_Some put_bytes_apply nth_Cons' less_Suc_eq numeral_eq_Suc del: put_bytes.simps load_bytes.simps)
  then have "chunks_hold ?m (region 200 3 \<union> region 100 48) [(300, 2), (302, 3)] [[84, 87], [10, 69, 61]]"
    by (auto simp: chunks_hold_def simp del: put_bytes.simps load_bytes.simps)
  moreover have "mapped ?m 200 3" "mapped ?m (enc_data ?ctx) 48" by (auto simp: mapped_iff)
  moreover have "region 200 3 \<inter> region (enc_data ?ctx) 48 = {}" by auto
  moreover have "enc_data ?ctx = 100" "(3 :: nat) \<le> 0x7FFFFFFF" "int (length [77, 97 :: u8]) = 2" "length [77, 97 :: u8] = 2" by simp_all
  ultimately show ?thesis
    using decode_stream_exact [of ?m 200 "[[84, 87], [10, 69, 61]]" ?ctx "[(300, 2), (302, 3)]", unfolded parse room option.map]
    by metis
qed

end
