(* ===== verification/Boring_Header.thy ===== *)
theory Boring_Header
  imports Boring_String
begin

text \<open>
  The header functions of \<open>crypto/asn1/asn1_lib.c\<close>: reading, writing and measuring the identifier and
  length octets of an element. The type \<open>int\<close> of C is the integers here: every value that occurs fits.
  Right shifts of an \<open>int\<close> are arithmetic (\<open>drop_bit\<close>), and a store converts to a byte. An advanced
  pointer is part of the result.
\<close>

definition CBS_ASN1_CLASS_MASK :: u32 where "CBS_ASN1_CLASS_MASK = push_bit 24 0xC0"

definition V_ASN1_UNIVERSAL :: int where "V_ASN1_UNIVERSAL = 0x00"
definition V_ASN1_PRIVATE :: int where "V_ASN1_PRIVATE = 0xC0"
definition V_ASN1_CONSTRUCTED :: int where "V_ASN1_CONSTRUCTED = 0x20"
definition V_ASN1_PRIMITIVE_TAG :: int where "V_ASN1_PRIMITIVE_TAG = 0x1F"
definition V_ASN1_MAX_UNIVERSAL :: int where "V_ASN1_MAX_UNIVERSAL = 0xFF"

text \<open>The return value and, on success, \<open>*inp\<close>, \<open>*out_len\<close>, \<open>*out_tag\<close> and \<open>*out_class\<close>.\<close>

definition ASN1_get_object :: "mem \<Rightarrow> addr \<Rightarrow> int \<Rightarrow> (int \<times> (addr \<times> int \<times> int \<times> int) option) option" where
  "ASN1_get_object m inp in_len =
     (if in_len < 0 then Some (0x80, None)
      else
        Option.bind (CBS_get_any_asn1 m (CBS_init inp (word_of_int in_len))) (\<lambda>(r, _).
          case r of
            None \<Rightarrow> Some (0x80, None)
          | Some (body, tag) \<Rightarrow>
              if 0x3FFFFFFF < cbs_len body then Some (0x80, None)
              else
                let tag_cls = uint (drop_bit 24 (tag AND CBS_ASN1_CLASS_MASK));
                    constructed = uint (drop_bit 24 (tag AND CBS_ASN1_CONSTRUCTED));
                    tag_num = uint (tag AND CBS_ASN1_TAG_NUMBER_MASK)
                in if tag_cls = V_ASN1_UNIVERSAL \<and> V_ASN1_MAX_UNIVERSAL < tag_num then Some (0x80, None)
                   else Some (constructed, Some (cbs_data body, uint (cbs_len body), tag_num, tag_cls))))"

text \<open>\<open>for (i = 0; v > 0; i++) v >>= k;\<close> for the positive shifts the sources use.\<close>

function shifts :: "nat \<Rightarrow> int \<Rightarrow> nat" where
  "shifts k v = (if 0 < v \<and> 0 < k then Suc (shifts k (drop_bit k v)) else 0)"
  by pat_completeness auto
termination
proof (relation "measure (\<lambda>(k, v). nat v)")
  fix k :: nat and v :: int
  assume a: "0 < v \<and> 0 < k"
  have "(2 :: int) ^ 1 \<le> 2 ^ k" using a by (intro power_increasing) simp_all
  then have "v div 2 ^ k < v" using a by (intro int_div_less_self) auto
  then show "((k, drop_bit k v), k, v) \<in> measure (\<lambda>(k, v). nat v)"
    using a by (simp add: drop_bit_eq_div)
qed simp

declare shifts.simps [simp del]

text \<open>The loops \<open>while (i-- > 0)\<close> over the octets of a number, the last one first.\<close>

primrec put_tag_octets :: "mem \<Rightarrow> addr \<Rightarrow> nat \<Rightarrow> int \<Rightarrow> nat \<Rightarrow> mem option" where
  "put_tag_octets m p ttag tag 0 = Some m"
| "put_tag_octets m p ttag tag (Suc i) =
     (let b = word_of_int (tag AND 0x7F) :: u8; b = (if int i \<noteq> int ttag - 1 then b OR 0x80 else b) in
      Option.bind (store_bytes m (p + int i) [b]) (\<lambda>m. put_tag_octets m p ttag (drop_bit 7 tag) i))"

primrec put_length_octets :: "mem \<Rightarrow> addr \<Rightarrow> int \<Rightarrow> nat \<Rightarrow> mem option" where
  "put_length_octets m p len 0 = Some m"
| "put_length_octets m p len (Suc i) =
     Option.bind (store_bytes m (p + int i) [word_of_int (len AND 0xFF)]) (\<lambda>m.
       put_length_octets m p (drop_bit 8 len) i)"

definition asn1_put_length :: "mem \<Rightarrow> addr \<Rightarrow> int \<Rightarrow> (addr \<times> mem) option" where
  "asn1_put_length m p len =
     (if len \<le> 127 then Option.bind (store_bytes m p [word_of_int len]) (\<lambda>m. Some (p + 1, m))
      else
        let i = shifts 8 len in
        Option.bind (store_bytes m p [word_of_int (int i OR 0x80)]) (\<lambda>m.
        Option.bind (put_length_octets m (p + 1) len i) (\<lambda>m. Some (p + 1 + int i, m))))"

definition ASN1_put_object :: "mem \<Rightarrow> addr \<Rightarrow> int \<Rightarrow> int \<Rightarrow> int \<Rightarrow> int \<Rightarrow> (addr \<times> mem) option" where
  "ASN1_put_object m p constructed len tag xclass =
     (let i = (if constructed \<noteq> 0 then V_ASN1_CONSTRUCTED else 0) OR (xclass AND V_ASN1_PRIVATE) in
      Option.bind
        (if tag < 31 then
           Option.bind (store_bytes m p [word_of_int (i OR (tag AND V_ASN1_PRIMITIVE_TAG))]) (\<lambda>m. Some (p + 1, m))
         else
           Option.bind (store_bytes m p [word_of_int (i OR V_ASN1_PRIMITIVE_TAG)]) (\<lambda>m.
             let ttag = shifts 7 tag in
             Option.bind (put_tag_octets m (p + 1) ttag tag ttag) (\<lambda>m. Some (p + 1 + int ttag, m))))
        (\<lambda>(p, m).
          if constructed = 2 then Option.bind (store_bytes m p [0x80]) (\<lambda>m. Some (p + 1, m))
          else asn1_put_length m p len))"

definition ASN1_put_eoc :: "mem \<Rightarrow> addr \<Rightarrow> (int \<times> addr \<times> mem) option" where
  "ASN1_put_eoc m p = Option.bind (store_bytes m p [0, 0]) (\<lambda>m. Some (2, p + 2, m))"

definition ASN1_object_size :: "int \<Rightarrow> int \<Rightarrow> int \<Rightarrow> int" where
  "ASN1_object_size constructed len tag =
     (if len < 0 then - 1
      else
        let ret = 1;
            ret = (if 31 \<le> tag then ret + int (shifts 7 tag) else ret);
            ret = (if constructed = 2 then ret + 3
                   else
                     let ret = ret + 1 in
                     if 127 < len then ret + int (shifts 8 len) else ret)
        in if 0x7FFFFFFF - len \<le> ret then - 1 else ret + len)"

end
