(* ===== verification/Boring_Header_Theorems.thy ===== *)
theory Boring_Header_Theorems
  imports Boring_Header Boring_DER_Correct Boring_Base64_Theorems
begin

text \<open>
  The header functions against DER: what \<open>ASN1_put_object\<close> writes is the header of an element,
  \<open>ASN1_object_size\<close> is the size of the element, and \<open>ASN1_get_object\<close> reads it back.
\<close>

section \<open>Octets of a number\<close>

lemma shifts_7: "shifts 7 (int v) = (if v = 0 then 0 else length (b128 v))"
proof (induction v rule: b128_hi.induct)
  case (1 v)
  have "drop_bit 7 (int v) = int (v div 128)" by (simp add: drop_bit_eq_div zdiv_int)
  then show ?case
    using 1 by (subst shifts.simps) (simp add: b128_def b128_hi.simps [of "v div 128"])
qed

lemma shifts_8: "shifts 8 (int n) = length (be_bytes n)"
proof (induction n rule: be_bytes.induct)
  case (1 n)
  have "drop_bit 8 (int n) = int (n div 256)" by (simp add: drop_bit_eq_div zdiv_int)
  then show ?case using 1 by (subst shifts.simps, subst be_bytes.simps) simp
qed

lemma put_before: "length ds = n \<Longrightarrow> put_bytes (put_bytes m (p + int n) bs) p ds = put_bytes m p (ds @ bs)"
proof (rule ext)
  fix x assume "length ds = n"
  moreover have "nat (x - p) - n = nat (x - (p + int n))" by linarith
  ultimately show "put_bytes (put_bytes m (p + int n) bs) p ds x = put_bytes m p (ds @ bs) x"
    by (auto simp: put_bytes_apply nth_append)
qed

lemma low_octet: "(word_of_int (int n AND 0xFF) :: u8) = of_nat (n mod 256)" "(word_of_int (int n AND 0x7F) :: u8) = of_nat (n mod 128)"
proof -
  have m: "(0xFF :: int) = mask 8" "(0x7F :: int) = mask 7" by (simp_all add: mask_eq_exp_minus_1)
  have "int n AND 0xFF = int (n mod 256)" "int n AND 0x7F = int (n mod 128)"
    unfolding m take_bit_eq_mask [symmetric] take_bit_eq_mod by (simp_all add: zmod_int)
  then show "(word_of_int (int n AND 0xFF) :: u8) = of_nat (n mod 256)" "(word_of_int (int n AND 0x7F) :: u8) = of_nat (n mod 128)"
    by (simp_all only: of_int_of_nat_eq)
qed

lemma put_length_octets_be:
  "mapped m p (length (be_bytes n)) \<Longrightarrow>
     put_length_octets m p (int n) (length (be_bytes n)) = Some (put_bytes m p (be_bytes n))"
proof (induction n arbitrary: m rule: be_bytes.induct)
  case (1 n)
  show ?case
  proof (cases "n = 0")
    case False
    let ?k = "length (be_bytes (n div 256))"
    define m1 where "m1 = put_bytes m (p + int ?k) [of_nat (n mod 256)]"
    have bs: "be_bytes n = be_bytes (n div 256) @ [of_nat (n mod 256)]" using False by (subst be_bytes.simps) simp
    have room: "mapped m (p + int ?k) 1" "mapped m1 p ?k"
      using mapped_sub [OF 1(2), of "p + int ?k" 1] mapped_put_bytes [OF mapped_prefix [OF 1(2), of ?k]]
      unfolding bs m1_def by (simp_all del: put_bytes.simps)
    have d: "drop_bit 8 (int n) = int (n div 256)" by (simp add: drop_bit_eq_div zdiv_int)
    have st: "store_bytes m (p + int ?k) [word_of_int (int n AND 0xFF)] = Some m1"
      using room(1) by (simp add: store_bytes_def m1_def low_octet)
    show ?thesis
      unfolding bs using 1(1) [OF False room(2)]
      by (simp add: st d put_before m1_def del: put_bytes.simps)
  qed (simp add: be_bytes.simps)
qed

lemma or_128: "r < 128 \<Longrightarrow> (of_nat r :: u8) OR 0x80 = of_nat (128 + r)"
proof -
  assume r: "r < 128"
  have "unat x < 128 \<longrightarrow> x OR 0x80 = of_nat (128 + unat x)" for x :: u8 by (rule all_u8D) code_simp
  from this [of "of_nat r"] show ?thesis using r unat_byte [of r] by simp
qed

lemma put_tag_hi:
  "mapped m p (length (b128_hi v)) \<Longrightarrow> length (b128_hi v) < t \<Longrightarrow>
     put_tag_octets m p t (int v) (length (b128_hi v)) = Some (put_bytes m p (b128_hi v))"
proof (induction v arbitrary: m rule: b128_hi.induct)
  case (1 v)
  show ?case
  proof (cases "v = 0")
    case False
    let ?k = "length (b128_hi (v div 128))"
    define m1 where "m1 = put_bytes m (p + int ?k) [of_nat (128 + v mod 128)]"
    have bs: "b128_hi v = b128_hi (v div 128) @ [of_nat (128 + v mod 128)]" using False by (subst b128_hi.simps) simp
    have room: "mapped m (p + int ?k) 1" "mapped m1 p ?k"
      using 1(2) mapped_sub [OF 1(2), of "p + int ?k" 1] mapped_put_bytes [OF mapped_prefix [OF 1(2), of ?k]]
      unfolding bs m1_def by (simp_all del: put_bytes.simps)
    have d: "drop_bit 7 (int v) = int (v div 128)" by (simp add: drop_bit_eq_div zdiv_int)
    have st: "store_bytes m (p + int ?k) [of_nat (v mod 128) OR 0x80] = Some m1"
      using room(1) or_128 [of "v mod 128"] by (simp add: store_bytes_def m1_def)
    have t: "int ?k \<noteq> int t - 1" using 1(3) by (simp add: bs)
    have "put_tag_octets m p t (int v) (Suc ?k) = put_tag_octets m1 p t (int (v div 128)) ?k"
      using st t by (simp add: low_octet d)
    also have "\<dots> = Some (put_bytes m p (b128_hi v))"
      using 1(1) [OF False room(2)] 1(3) by (simp add: bs m1_def put_before del: put_bytes.simps)
    finally show ?thesis by (simp add: bs)
  qed simp
qed

lemma put_tag_octets_b128:
  assumes "mapped m p (length (b128 v))"
  shows "put_tag_octets m p (length (b128 v)) (int v) (length (b128 v)) = Some (put_bytes m p (b128 v))"
proof -
  let ?k = "length (b128_hi (v div 128))"
  define m1 where "m1 = put_bytes m (p + int ?k) [of_nat (v mod 128)]"
  have len: "length (b128 v) = Suc ?k" by (simp add: b128_def)
  have room: "mapped m (p + int ?k) 1" "mapped m1 p ?k"
    using mapped_sub [OF assms, of "p + int ?k" 1] mapped_put_bytes [OF mapped_prefix [OF assms, of ?k]]
    unfolding len m1_def by (simp_all del: put_bytes.simps)
  have d: "drop_bit 7 (int v) = int (v div 128)" by (simp add: drop_bit_eq_div zdiv_int)
  have st: "store_bytes m (p + int ?k) [of_nat (v mod 128)] = Some m1"
    using room(1) by (simp add: store_bytes_def m1_def)
  have "put_tag_octets m p (Suc ?k) (int v) (Suc ?k) = put_tag_octets m1 p (Suc ?k) (int (v div 128)) ?k"
    using st by (simp add: low_octet d)
  also have "\<dots> = Some (put_bytes m p (b128 v))"
    using put_tag_hi [OF room(2), of "Suc ?k"] by (simp add: b128_def m1_def put_before del: put_bytes.simps)
  finally show ?thesis by (simp add: len)
qed

section \<open>The header\<close>

lemma asn1_put_length_der:
  assumes "n < 2 ^ 31" "mapped m p (length (der_len n))"
  shows "asn1_put_length m p (int n) = Some (p + int (length (der_len n)), put_bytes m p (der_len n))"
proof (cases "n < 128")
  case True
  then show ?thesis using assms(2) by (simp add: asn1_put_length_def der_len_def store_bytes_def)
next
  case False
  let ?l = "be_bytes n"
  have l: "length ?l \<le> 4" using be_bytes_length [of n 4] assms(1) by simp
  have len: "der_len n = of_nat (128 + length ?l) # ?l" using False by (simp add: der_len_def)
  define m1 where "m1 = put_bytes m p [of_nat (128 + length ?l)]"
  have "(word_of_int (int (length ?l) OR 0x80) :: u8) = of_nat (length ?l) OR 0x80"
    by (simp add: of_int_or_eq)
  also have "\<dots> = of_nat (128 + length ?l)" using l by (intro or_128) simp
  finally have st: "store_bytes m p [word_of_int (int (length ?l) OR 0x80)] = Some m1"
    using mapped_prefix [OF assms(2), of 1] by (simp add: len store_bytes_def m1_def)
  have "mapped m1 (p + 1) (length ?l)"
    unfolding m1_def by (rule mapped_put_bytes, rule mapped_sub [OF assms(2)]) (simp_all add: len)
  then have "put_length_octets m1 (p + 1) (int n) (length ?l) = Some (put_bytes m1 (p + 1) ?l)"
    by (rule put_length_octets_be)
  then show ?thesis
    using False st by (simp add: asn1_put_length_def shifts_8 len m1_def Let_def add.assoc)
qed

text \<open>The tag of an element as \<open>CBS_ASN1_TAG\<close>, and its header.\<close>

definition object_tag :: "int \<Rightarrow> nat \<Rightarrow> int \<Rightarrow> u32" where
  "object_tag constructed tag xclass =
     make_tag (word_of_int ((if constructed \<noteq> 0 then 0x20 else 0) OR (xclass AND 0xC0))) tag"

definition object_header :: "int \<Rightarrow> nat \<Rightarrow> nat \<Rightarrow> int \<Rightarrow> u8 list" where
  "object_header constructed len tag xclass =
     ident (object_tag constructed tag xclass) @ (if constructed = 2 then [0x80] else der_len len)"

lemma first_octet:
  fixes c xclass :: int
  defines "i \<equiv> (if c \<noteq> 0 then 0x20 else 0) OR (xclass AND 0xC0)"
  shows "(word_of_int i :: u8) AND 0xE0 = word_of_int i"
proof -
  have "(word_of_int i :: u8) = (if c \<noteq> 0 then 0x20 else 0) OR (word_of_int xclass AND 0xC0)"
    by (simp add: i_def of_int_or_eq of_int_and_eq)
  moreover have "(0x20 OR (x AND 0xC0)) AND 0xE0 = 0x20 OR (x AND 0xC0)" for x :: u8 by (rule all_u8D) code_simp
  moreover have "(x AND 0xC0) AND 0xE0 = x AND 0xC0" for x :: u8 by (rule all_u8D) code_simp
  ultimately show ?thesis by simp
qed

lemma ident_object_tag:
  assumes "tag < 2 ^ 29"
  shows "ident (object_tag c tag xclass) =
    (let i = word_of_int ((if c \<noteq> 0 then 0x20 else 0) OR (xclass AND 0xC0)) in
     if tag < 31 then [i OR of_nat tag] else (i OR 0x1F) # b128 tag)"
  using assms by (simp add: ident_def object_tag_def tag_number_make tag_class_make first_octet Let_def)

lemma ASN1_put_object_header:
  assumes "tag < 2 ^ 29" "len < 2 ^ 31" "mapped m p (length (object_header c len tag xclass))"
  shows "ASN1_put_object m p c (int len) (int tag) xclass =
    Some (p + int (length (object_header c len tag xclass)), put_bytes m p (object_header c len tag xclass))"
proof -
  let ?id = "ident (object_tag c tag xclass)" and ?r = "if c = 2 then [0x80] else der_len len"
  let ?i = "(if c \<noteq> 0 then V_ASN1_CONSTRUCTED else 0) OR (xclass AND V_ASN1_PRIVATE)"
  have hdr: "object_header c len tag xclass = ?id @ ?r" by (simp add: object_header_def)
  have room: "mapped m p (length ?id)" "mapped (put_bytes m p ?id) (p + int (length ?id)) (length ?r)"
    using mapped_prefix [OF assms(3), of "length ?id"]
      mapped_put_bytes [OF mapped_sub [OF assms(3), of "p + int (length ?id)" "length ?r"]]
    unfolding hdr by simp_all
  have id: "?id = (if tag < 31 then [word_of_int ?i OR of_nat tag] else (word_of_int ?i OR 0x1F) # b128 tag)"
    using ident_object_tag [OF assms(1)] by (simp add: V_ASN1_CONSTRUCTED_def V_ASN1_PRIVATE_def Let_def)
  have "(if int tag < 31 then
           Option.bind (store_bytes m p [word_of_int (?i OR (int tag AND V_ASN1_PRIMITIVE_TAG))]) (\<lambda>m. Some (p + 1, m))
         else
           Option.bind (store_bytes m p [word_of_int (?i OR V_ASN1_PRIMITIVE_TAG)]) (\<lambda>m.
             let ttag = shifts 7 (int tag) in
             Option.bind (put_tag_octets m (p + 1) ttag (int tag) ttag) (\<lambda>m. Some (p + 1 + int ttag, m)))) =
        Some (p + int (length ?id), put_bytes m p ?id)"
  proof (cases "tag < 31")
    case True
    have "int tag AND 0x1F = int (tag mod 32)"
      using take_bit_eq_mask [of 5 "int tag"] by (simp add: mask_eq_exp_minus_1 take_bit_eq_mod zmod_int)
    then have "word_of_int (?i OR (int tag AND V_ASN1_PRIMITIVE_TAG)) = (word_of_int ?i OR of_nat tag :: u8)"
      using True by (simp add: V_ASN1_PRIMITIVE_TAG_def of_int_or_eq)
    then show ?thesis using True room(1) by (simp add: id store_bytes_def)
  next
    case False
    have o: "word_of_int (?i OR V_ASN1_PRIMITIVE_TAG) = (word_of_int ?i OR 0x1F :: u8)"
      by (simp add: V_ASN1_PRIMITIVE_TAG_def of_int_or_eq)
    define m1 where "m1 = put_bytes m p [word_of_int ?i OR 0x1F]"
    have st: "store_bytes m p [word_of_int ?i OR 0x1F] = Some m1"
      using mapped_prefix [OF room(1), of 1] False by (simp add: id store_bytes_def m1_def)
    have "mapped m1 (p + 1) (length (b128 tag))"
      unfolding m1_def by (rule mapped_put_bytes, rule mapped_sub [OF room(1)]) (simp_all add: id False)
    then have "put_tag_octets m1 (p + 1) (length (b128 tag)) (int tag) (length (b128 tag)) = Some (put_bytes m1 (p + 1) (b128 tag))"
      by (rule put_tag_octets_b128)
    then show ?thesis using False st by (simp add: id o shifts_7 Let_def m1_def add.assoc)
  qed
  moreover have "(if c = 2 then Option.bind (store_bytes m' q [0x80]) (\<lambda>m. Some (q + 1, m)) else asn1_put_length m' q (int len)) =
      Some (q + int (length ?r), put_bytes m' q ?r)" if "mapped m' q (length ?r)" for m' q
    using that asn1_put_length_der [OF assms(2), of m' q] by (simp add: store_bytes_def split: if_splits)
  ultimately show ?thesis
    using room(2) unfolding ASN1_put_object_def Let_def hdr by (simp add: put_bytes_append add.assoc)
qed

lemma object_size_header:
  assumes "c \<noteq> 2" "length (object_header c len tag xclass) + len < 0x7FFFFFFF" "tag < 2 ^ 29"
  shows "ASN1_object_size c (int len) (int tag) = int (length (object_header c len tag xclass) + len)"
proof -
  have "length (object_header c len tag xclass) =
    1 + (if tag < 31 then 0 else length (b128 tag)) + 1 + (if len < 128 then 0 else length (be_bytes len))"
    using assms(1,3) by (simp add: object_header_def ident_object_tag der_len_def Let_def)
  then show ?thesis
    using assms(1,2) by (simp add: ASN1_object_size_def shifts_7 shifts_8 Let_def split: if_splits)
qed

section \<open>Reading a header\<close>

lemma tag_fields:
  assumes "num < 2 ^ 29"
  shows "drop_bit 24 (make_tag t num AND CBS_ASN1_CLASS_MASK) = ucast (t AND 0xC0)"
    and "drop_bit 24 (make_tag t num AND CBS_ASN1_CONSTRUCTED) = ucast (t AND 0x20)"
proof -
  have m: "(0xC0 :: u32) = push_bit 6 (mask 2)" "(0xC0 :: u8) = push_bit 6 (mask 2)" "(0xE0 :: u32) = push_bit 5 (mask 3)"
    by (simp_all add: mask_eq_exp_minus_1)
  have b: "bit (0x20 :: u8) n \<longleftrightarrow> n = 5" "bit (0x20 :: u32) n \<longleftrightarrow> n = 5"
    "bit (0x20 :: int) n \<longleftrightarrow> n = 5" "bit (0x20 :: nat) n \<longleftrightarrow> n = 5" for n
    using bit_exp_iff [of 5 n, where 'a = int] bit_exp_iff [of 5 n, where 'a = nat] bit_exp_iff [of 5 n, where 'a = "8 word"] bit_exp_iff [of 5 n, where 'a = "32 word"]
    by (auto simp: possible_bit_word)
  show "drop_bit 24 (make_tag t num AND CBS_ASN1_CLASS_MASK) = ucast (t AND 0xC0)"
    "drop_bit 24 (make_tag t num AND CBS_ASN1_CONSTRUCTED) = ucast (t AND 0x20)"
    unfolding make_tag_def CBS_ASN1_CLASS_MASK_def CBS_ASN1_CONSTRUCTED_def m
    by (subst number_as_take_bit [OF assms], rule bit_word_eqI, auto simp: bit_simps b)+
qed

lemma valid_tagI: "tag AND CBS_ASN1_CLASS_MASK \<noteq> 0 \<or> tag AND CBS_ASN1_TAG_NUMBER_MASK \<noteq> 0 \<Longrightarrow> valid_tag tag"
proof -
  have outside: "tag AND x = (tag AND NOT CBS_ASN1_CONSTRUCTED) AND x" if "NOT CBS_ASN1_CONSTRUCTED AND x = x" for x
    using that by (simp only: and.assoc)
  have "NOT CBS_ASN1_CONSTRUCTED AND CBS_ASN1_CLASS_MASK = CBS_ASN1_CLASS_MASK"
    "NOT CBS_ASN1_CONSTRUCTED AND CBS_ASN1_TAG_NUMBER_MASK = CBS_ASN1_TAG_NUMBER_MASK"
    by (simp_all add: CBS_ASN1_CLASS_MASK_def CBS_ASN1_TAG_NUMBER_MASK_def CBS_ASN1_CONSTRUCTED_def)
  from this [THEN outside] show
    "tag AND CBS_ASN1_CLASS_MASK \<noteq> 0 \<or> tag AND CBS_ASN1_TAG_NUMBER_MASK \<noteq> 0 \<Longrightarrow> valid_tag tag"
    unfolding valid_tag_def by (auto simp only: and_zero_eq zero_and_eq)
qed

lemma object_tag_fields:
  assumes "tag < 2 ^ 29" "xclass \<in> {0, 0x40, 0x80, 0xC0}"
  shows "uint (drop_bit 24 (object_tag c tag xclass AND CBS_ASN1_CLASS_MASK)) = xclass"
    and "uint (drop_bit 24 (object_tag c tag xclass AND CBS_ASN1_CONSTRUCTED)) = (if c \<noteq> 0 then 0x20 else 0)"
    and "uint (object_tag c tag xclass AND CBS_ASN1_TAG_NUMBER_MASK) = int tag"
    and "xclass \<noteq> 0 \<or> tag \<noteq> 0 \<Longrightarrow> valid_tag (object_tag c tag xclass)"
proof -
  show cl: "uint (drop_bit 24 (object_tag c tag xclass AND CBS_ASN1_CLASS_MASK)) = xclass"
    and "uint (drop_bit 24 (object_tag c tag xclass AND CBS_ASN1_CONSTRUCTED)) = (if c \<noteq> 0 then 0x20 else 0)"
    unfolding object_tag_def tag_fields [OF assms(1)] using assms(2) by auto
  show n: "uint (object_tag c tag xclass AND CBS_ASN1_TAG_NUMBER_MASK) = int tag"
    using tag_number_make [OF assms(1)] by (simp add: object_tag_def tag_number_def flip: int_eq_iff_numeral) (metis int_nat_eq uint_nat)
  show "xclass \<noteq> 0 \<or> tag \<noteq> 0 \<Longrightarrow> valid_tag (object_tag c tag xclass)"
    using cl n by (intro valid_tagI) (auto simp del: drop_bit_and)
qed

lemma any_asn1_whole:
  assumes "cbs_holds m c (der tag content)" "valid_tag tag" "length content < 2 ^ 32"
  obtains c' where "CBS_get_any_asn1 m c =
    Some (Some (cbs_drop (length (der tag content) - length content) c, tag), c')"
proof -
  have "any_parse (der tag content) = Some ((content, tag), [])"
    using assms(2,3) by (simp add: any_parse_iff)
  then obtain hl e b i where el: "element_parse False (der tag content) = Some ((tag, hl, e, b, i), [])" "drop hl e = content"
    by (auto simp: any_parse_def split: bind_splits)
  then have e: "e = der tag content"
    by (auto simp: element_parse_def take_n_Some Let_def split: bind_splits)
  have "\<exists>v. cbs_get_any_asn1_element m False c = Some (Some v, cbs_drop (length (der tag content) - length ([] :: u8 list)) c) \<and>
      element_rel m c v (tag, hl, e, b, i)"
    by (rule any_element.success [OF assms(1) el(1)]) (intro exI conjI)
  then obtain v c' where v: "cbs_get_any_asn1_element m False c = Some (Some v, c')" "element_rel m c v (tag, hl, e, b, i)"
    by fast
  have "hl \<le> length (der tag content)" using v(2) e by (simp add: element_rel_def)
  moreover have "length (der tag content) - hl = length content" using arg_cong [OF el(2), of length] e by simp
  ultimately have hl: "hl = length (der tag content) - length content" by linarith
  have "cbs_holds m (el_out v) e" "inside (el_out v) c" using v(2) by (simp_all add: element_rel_def window_def)
  then have "unat (cbs_len (el_out v)) = unat (cbs_len c)" "cbs_data (el_out v) = cbs_data c"
    using cbs_holds_length [OF assms(1)] cbs_holds_length [of m "el_out v" e] e by (simp_all add: inside_def)
  then have "el_out v = c" by (intro CBS.equality) (simp_all add: word_unat_eq_iff)
  then show ?thesis
    using that element_rel_window [OF v(2)] v(1) v(2) unfolding CBS_get_any_asn1_def CBS_get_any_asn1_element_def
    by (simp add: cbs_bind_def cbs_peek_def element_rel_def flip: hl)
qed

lemma ASN1_get_object_element:
  assumes "load_bytes m p (length (der tag content)) = Some (der tag content)"
    and "length (der tag content) < 2 ^ 63" "length content \<le> 0x3FFFFFFF" "valid_tag tag"
    and "uint (drop_bit 24 (tag AND CBS_ASN1_CLASS_MASK)) = 0 \<Longrightarrow> uint (tag AND CBS_ASN1_TAG_NUMBER_MASK) \<le> 0xFF"
  shows "ASN1_get_object m p (int (length (der tag content))) =
      Some (uint (drop_bit 24 (tag AND CBS_ASN1_CONSTRUCTED)),
        Some (p + int (length (der tag content) - length content), int (length content),
          uint (tag AND CBS_ASN1_TAG_NUMBER_MASK), uint (drop_bit 24 (tag AND CBS_ASN1_CLASS_MASK))))"
proof -
  let ?n = "length (der tag content)" and ?c = "CBS_init p (word_of_int (int (length (der tag content))))"
  have n: "unat (word_of_int (int ?n) :: u64) = ?n"
    using assms(2) unat_u64_of_nat [of ?n] by (simp only: of_int_of_nat_eq) simp
  have holds: "cbs_holds m ?c (der tag content)"
    using assms(1) n by (simp add: cbs_holds_def CBS_init_def del: of_int_of_nat_eq)
  obtain c' where get: "CBS_get_any_asn1 m ?c = Some (Some (cbs_drop (?n - length content) ?c, tag), c')"
    by (rule any_asn1_whole [OF holds assms(4)]) (use assms(3) in simp)
  have "length content \<le> ?n" by (simp add: der_def)
  then have len: "unat (cbs_len (cbs_drop (?n - length content) ?c)) = length content"
    using cbs_drop_sel(2) [of "?n - length content" ?c] n by (simp add: CBS_init_def del: of_int_of_nat_eq)
  have big: "unat (0x3FFFFFFF :: u64) = 0x3FFFFFFF" by simp
  have "\<not> (0x3FFFFFFF :: u64) < cbs_len (cbs_drop (?n - length content) ?c)"
    unfolding word_less_nat_alt len big using assms(3) by linarith
  moreover have "uint (cbs_len (cbs_drop (?n - length content) ?c)) = int (length content)" unfolding uint_nat len ..
  moreover have "cbs_data (cbs_drop (?n - length content) ?c) = p + int (?n - length content)" by (simp add: CBS_init_def)
  moreover have "(uint (drop_bit 24 (tag AND CBS_ASN1_CLASS_MASK)) = 0 \<and> 0xFF < uint (tag AND CBS_ASN1_TAG_NUMBER_MASK)) = False"
    using assms(5) by (auto simp del: drop_bit_and)
  ultimately show ?thesis
    by (simp add: ASN1_get_object_def V_ASN1_UNIVERSAL_def V_ASN1_MAX_UNIVERSAL_def Let_def get
        del: of_int_of_nat_eq drop_bit_and cbs_drop_sel of_nat_diff)
qed

text \<open>C40: A header written by \<open>ASN1_put_object\<close> in front of a content is read back by \<open>ASN1_get_object\<close>
  with the same class, tag number, form and length, positioned at the content, and the element has the
  size \<open>ASN1_object_size\<close> computes; only the octets of the header are written. Universal tags are limited
  to 255 and the content to half of \<open>INT_MAX\<close>, the limits of \<open>ASN1_get_object\<close>.
\<close>

theorem ASN1_object_round_trip:
  assumes "tag < 2 ^ 29" "xclass \<in> {0, 0x40, 0x80, 0xC0}" "xclass = 0 \<Longrightarrow> 0 < tag \<and> tag \<le> 0xFF"
    and "constructed \<in> {0, 1}" "length content \<le> 0x3FFFFFFF"
    and "n = ASN1_object_size constructed (int (length content)) (int tag)"
    and "mapped m p (nat n - length content)"
    and "load_bytes m (p + n - int (length content)) (length content) = Some content"
  shows "\<exists>m'. ASN1_put_object m p constructed (int (length content)) (int tag) xclass = Some (p + n - int (length content), m') \<and>
    ASN1_get_object m' p n =
      Some (if constructed \<noteq> 0 then 0x20 else 0,
            Some (p + n - int (length content), int (length content), int tag, xclass)) \<and>
    (\<forall>x. x \<notin> region p (nat n - length content) \<longrightarrow> m' x = m x)"
proof -
  let ?n = "length content" and ?t = "object_tag constructed tag xclass"
  let ?h = "object_header constructed ?n tag xclass"
  have c2: "constructed \<noteq> 2" using assms(4) by auto
  have h: "?h = ident ?t @ der_len ?n" using c2 by (simp add: object_header_def)
  have "length (b128 tag) \<le> 10" using assms(1) by (intro b128_length) simp
  moreover have "length (be_bytes ?n) \<le> 4" using assms(5) by (intro be_bytes_length) simp
  ultimately have hl: "length ?h \<le> 16"
    using assms(1) c2 by (simp add: object_header_def ident_object_tag der_len_def Let_def)
  then have n: "n = int (length ?h) + int ?n"
    using object_size_header [OF c2 _ assms(1), of ?n xclass] assms(5,6) by simp
  let ?m = "put_bytes m p ?h"
  have room: "mapped m p (length ?h)" and ld: "load_bytes m (p + int (length ?h)) ?n = Some content"
    using assms(7,8) by (simp_all add: n nat_int_add)
  have put: "ASN1_put_object m p constructed (int ?n) (int tag) xclass = Some (p + int (length ?h), ?m)"
    by (rule ASN1_put_object_header [OF assms(1) _ room]) (use assms(5) in simp)
  have "load_bytes ?m (p + int (length ?h)) ?n = Some content"
    using ld by (subst load_put_disjoint) auto
  then have "load_bytes ?m p (length ?h + ?n) = Some (?h @ content)"
    by (simp add: load_bytes_add load_put_same)
  then have el: "load_bytes ?m p (length (der ?t content)) = Some (der ?t content)"
    by (simp add: der_def h add.assoc)
  note fields = object_tag_fields [OF assms(1,2), of constructed]
  have len: "int (length (der ?t content)) = n" "int (length (der ?t content) - ?n) = n - int ?n"
    by (simp_all add: der_def n h)
  have "ASN1_get_object ?m p n = Some (if constructed \<noteq> 0 then 0x20 else 0, Some (p + (n - int ?n), int ?n, int tag, xclass))"
    by (rule ASN1_get_object_element [OF el, unfolded len fields]) (use assms(3,5) hl fields(4) in \<open>auto simp: der_def h\<close>)
  then show ?thesis
    using put n by (auto simp: put_bytes_apply nat_int_add)
qed

lemma ASN1_object_round_trip_witness:
  "\<exists>m'. ASN1_put_object (put_bytes (put_bytes Map.empty 102 [7, 8]) 100 [0, 0]) 100 1 2 16 0 = Some (102, m') \<and>
    ASN1_get_object m' 100 4 = Some (0x20, Some (102, 2, 16, 0))"
proof -
  let ?m = "put_bytes (put_bytes Map.empty 102 [7, 8]) 100 [0, 0 :: u8]"
  have size: "ASN1_object_size 1 2 16 = 4" by code_simp
  have "load_bytes ?m 102 (length [7, 8 :: u8]) = Some [7, 8]" by simp
  moreover have "mapped ?m 100 2" by (auto simp: mapped_iff)
  ultimately show ?thesis
    using ASN1_object_round_trip [of 16 0 1 "[7, 8]" 4 ?m 100] size by fastforce
qed

end
