(* ===== verification/Spec2Isabelle.thy ===== *)
theory Spec2Isabelle
  imports Nanopb_Stream_Theorems Nanopb_Decode_Theorems Boring_CBB_Theorems Boring_Time_Theorems
    Boring_MBString_Theorems Boring_OID_Theorems Boring_Stack_Theorems Boring_STable_Theorems Boring_Base64_Decode
    Boring_Header_Theorems
begin

text \<open>
  \<^bold>\<open>The program.\<close> The repository is a Flutter application over Firebase. Its own code is Dart; the C code
  it builds and ships is vendored under \<open>ios/Pods\<close>: \<open>nanopb\<close>, the protocol buffer runtime the Firebase
  libraries encode their messages with, and \<open>BoringSSL-GRPC\<close>, the library under the transport. This
  development models all of nanopb and the layer of BoringSSL that handles untrusted bytes and text
  before any cryptography: byte string readers and builders, ASN.1 and DER, object identifiers, times,
  strings and their encodings, base64, and the stack and hash table these are kept in.

  \<^bold>\<open>Conventions.\<close> Integers keep their C width as words and wrap; \<open>size_t\<close> has 64 bits and the byte order
  is little-endian (the LP64 targets of the pods). Memory is a partial map from addresses to bytes. A
  C function is a HOL function to \<open>option\<close>: \<open>None\<close> is undefined behaviour (an access outside mapped
  memory, a null function pointer, an overlapping \<open>memcpy\<close>, a violated \<open>assert\<close>, a recursion deeper than
  the given bound), \<open>Some\<close> carries the return value and every object the function may change. So each
  theorem whose conclusion is an equation with \<open>Some\<close> also says that the call returns and stays in
  bounds. \<open>return false\<close> and its propagation are \<open>and_then\<close> and \<open>cbs_bind\<close>. Code the sources only call
  (allocators, user callbacks, comparison and hash functions) is an argument of the definitions.

  \<^bold>\<open>nanopb.\<close> \<open>Nanopb_Types\<close> has the data of \<open>pb.h\<close>: descriptors, type bytes, the macros that fill tables,
  streams and the environment of callbacks and \<open>realloc\<close>. \<open>Nanopb_Common\<close> is the field iterator of
  \<open>pb_common.c\<close>, with the offsets it must reach in a structure that the macros describe; \<open>Nanopb_OStream\<close> and \<open>Nanopb_Encode\<close> are \<open>pb_encode.c\<close>; \<open>Nanopb_IStream\<close>, \<open>Nanopb_Release\<close>
  and \<open>Nanopb_Decode\<close> are \<open>pb_decode.c\<close>. The mutual recursion between a message and its submessages is
  a recursion on a nesting depth: the definitions take the depth \<open>n\<close>, and the theorems hold for every
  \<open>n\<close> at least the depth of the descriptor tables (plus one for the encoder's test for proto3 default
  values), which the C stack provides. The field loop and the varint loops are \<open>partial_function\<close>s, and
  their termination is proved.
  \<open>Nanopb_Reference\<close> defines the encoding of a message as a byte list (\<open>msg_bytes\<close>) from the memory and the
  descriptor tables alone: it has its own wire types, values, strings and presence rule and uses nothing
  of \<open>pb_encode.c\<close>. It is undefined for a proto3 pointer to a scalar that the encoder's zero test misreads
  (\<open>proto3_pointer_dropped\<close>). \<open>Nanopb_Encode_Correct\<close> proves that the encoder's own tables and tests agree
  with it, and through the locales \<open>element_encoder\<close> and \<open>message_encoder\<close> that the encoder emits it;
  \<open>Nanopb_Encode_Theorems\<close> states this for buffers, for the size computation and for errors.
  \<open>Nanopb_IStream_Correct\<close> relates readers to byte lists; \<open>Nanopb_Decode_Safe\<close> and \<open>Nanopb_Decode_Total\<close>
  prove, through the locale \<open>nested_decoder\<close>, that decoding static messages returns on every input and
  touches nothing but the input and the destination. \<open>Nanopb_Stream_Theorems\<close> and
  \<open>Nanopb_Decode_Theorems\<close> hold the properties.

  \<^bold>\<open>Byte strings of BoringSSL.\<close> \<open>Boring_Mem\<close>: \<open>crypto/mem.c\<close>. \<open>Boring_CBS\<close>: the reader,
  \<open>bytestring/cbs.c\<close>. \<open>Boring_CBB\<close>: the builder, \<open>bytestring/cbb.c\<close>, one buffer and a chain of open
  children. \<open>Boring_DER\<close> gives DER as functions on byte lists. \<open>Boring_CBS_Correct\<close> has the locale
  \<open>byte_reader\<close>, the contract of a reader against a parser of byte lists, with an interpretation for every
  function of the reader here, in \<open>Boring_DER_Correct\<close> and in the theories of times and characters.
  \<open>Boring_CBB_Correct\<close> has the abstract builder (frames of pending prefixes) and the locale \<open>builder_op\<close>.
  \<open>Boring_CBS_Theorems\<close> and \<open>Boring_CBB_Theorems\<close> hold the properties, among them that a client that
  builds a tree of elements gets its DER encoding.

  \<^bold>\<open>ASN.1 values.\<close> \<open>Boring_Time\<close>: \<open>asn1/posix_time.c\<close> and the time parsers of \<open>cbs.c\<close>, against a calendar
  that counts days. \<open>Boring_Unicode\<close>: \<open>bytestring/unicode.c\<close> and the text of object identifiers, against
  UTF-8 of RFC 3629. \<open>Boring_String\<close>: \<open>ASN1_STRING\<close> and BIT STRINGs (\<open>asn1_lib.c\<close>, \<open>a_bitstr.c\<close>).
  \<open>Boring_MBString\<close>: conversion between encodings (\<open>a_mbstr.c\<close>, \<open>ASN1_STRING_to_UTF8\<close>). Theories with the
  suffix \<open>Correct\<close> hold the lemmas, \<open>Theorems\<close> the properties. \<open>Boring_Header\<close>: the header functions of
  \<open>asn1_lib.c\<close>, and \<open>Boring_Header_Theorems\<close>, that what they write is DER and is read back.

  \<^bold>\<open>Containers.\<close> \<open>Boring_Stack\<close>: \<open>stack/stack.c\<close>; \<open>Boring_Stack_Correct\<close> computes its heap sort on lists
  under the locale \<open>comparison\<close> (a total preorder), and \<open>Boring_Stack_Theorems\<close> shows the stack to be a
  list. \<open>Boring_LHash\<close>: \<open>lhash/lhash.c\<close> on a heap of linked items; under the locale \<open>hash_contract\<close>
  (equal data have equal hashes) \<open>Boring_LHash_Theorems\<close> shows it to be a set. \<open>fresh_malloc\<close> states that
  an allocation returns an address not in use; no theorem assumes that allocations succeed unless its
  statement says so. \<open>Boring_STable\<close>: the table of string types per attribute (\<open>asn1/a_strnid.c\<close>), a client
  of the hash table, the reader and the conversion; its comparison and hash functions interpret both
  locales.

  \<^bold>\<open>Base64.\<close> \<open>Boring_Base64\<close>: \<open>base64/base64.c\<close> with the constant time selections of \<open>crypto/internal.h\<close>.
  \<open>Boring_Base64_Correct\<close> has base64 on byte lists, \<open>Boring_Base64_Theorems\<close> the encoders and
  \<open>Boring_Base64_Decode\<close> the decoders.

  \<^bold>\<open>Not modelled.\<close> Of the modelled files: printing with escapes to a BIO (the rest of \<open>a_strex.c\<close>),
  \<open>BIO_snprintf\<close> and
  \<open>OPENSSL_vasprintf\<close> of \<open>mem.c\<close> (the C library's formatting), the internals of allocators, error queues
  (they do not influence results) and locks (calls are atomic). Of the repository: the cryptographic
  arithmetic, X.509 and TLS of BoringSSL, gRPC, Abseil, zlib, upb, and the Firebase libraries in
  Objective-C and C++ (large vendored systems with threads and I/O), generated tables, the Dart user
  interface and the platform runners.
\<close>

end
